(* ===== verification/Prelude.thy ===== *)
theory Prelude
  imports Main "HOL-Library.Word" "HOL-Library.Monad_Syntax"
begin

unbundle bit_operations_syntax

text \<open>
  Shared vocabulary of the development: names for the machine types of the C and C++ sources
  (\<open>unsigned char\<close>, \<open>uint16_t\<close>, \<open>uint32_t\<close>, \<open>uint64_t\<close>), the collections of simplification
  rules the component theories extend, generic facts on bytes, words and lists, and the
  interface \<open>codec\<close> of every pair of encoder and decoder in the code base.
  Buffers and slices are byte lists; a decoder returns the decoded value and the bytes that follow
  it, or \<^term>\<open>None\<close> where the code returns \<open>NULL\<close> or \<open>false\<close>.
\<close>

section \<open>Machine types\<close>

type_synonym byte = "8 word"
type_synonym u16 = "16 word"
type_synonym u32 = "32 word"
type_synonym u64 = "64 word"
type_synonym slice = "byte list"
type_synonym 'a decoder = "byte list \<Rightarrow> ('a \<times> byte list) option"

named_theorems codec_simps \<open>round trips of the encoders and decoders\<close>
named_theorems checksum_simps \<open>one-step unfoldings of the checksum loops\<close>

section \<open>Bytes and words\<close>

lemma word8_less_256: "unat (b :: byte) < 256"
  using unsigned_less [of b] by simp

lemma word8_le_255: "unat (b :: byte) \<le> 255"
  using word8_less_256 [of b] by linarith

lemma unat_less_u32: "unat (v :: u32) < 4294967296"
  using unsigned_less [of v] by simp

lemma unat_drop_bit_div: "unat (drop_bit n v) = unat v div 2 ^ n" for v :: "'a::len word"
  by (simp add: unat_drop_bit_eq) (simp add: drop_bit_eq_div)

lemma and_mask_take_bit:
  "(x :: 'a::len word) AND 1 = take_bit 1 x" "x AND 3 = take_bit 2 x" "x AND 7 = take_bit 3 x"
  "x AND 15 = take_bit 4 x" "x AND 31 = take_bit 5 x" "x AND 127 = take_bit 7 x" "x AND 255 = take_bit 8 x"
  "x AND 65535 = take_bit 16 x"
  by (simp_all add: take_bit_eq_mask mask_eq_exp_minus_1)

lemma xor_cancel [simp]:
  "(a :: 'a::len word) XOR (a XOR b) = b" "a XOR (b XOR a) = b"
  by (simp_all add: bit_eq_iff bit_simps, auto)

text \<open>The number a machine word holds when its bytes, least significant first, are the given list.\<close>

fun word_of_bytes :: "byte list \<Rightarrow> 'a::len word" where
  "word_of_bytes [] = 0"
| "word_of_bytes (b # bs) = ucast b OR push_bit 8 (word_of_bytes bs)"

lemma bit_word_of_bytes:
  "bit (word_of_bytes bs :: 'a::len word) n \<longleftrightarrow>
   n < LENGTH('a) \<and> n div 8 < length bs \<and> bit (bs ! (n div 8)) (n mod 8)"
proof (induction bs arbitrary: n)
  case (Cons b bs)
  show ?case
  proof (cases "n < 8")
    case True
    then show ?thesis
      by (auto simp: bit_simps dest: bit_imp_le_length)
  next
    case False
    then obtain m where "n = m + 8"
      using le_Suc_ex [of 8 n] by (auto simp: add.commute)
    moreover have "(m + 8) div 8 = Suc (m div 8)" by simp
    ultimately show ?thesis
      by (auto simp: Cons.IH bit_simps simp del: div_add_self2 dest: bit_imp_le_length)
  qed
qed simp

lemma word_of_bytes_ucast:
  "8 * length bs \<le> LENGTH('a) \<Longrightarrow> 8 * length bs \<le> LENGTH('b) \<Longrightarrow>
   ucast (word_of_bytes bs :: 'a::len word) = (word_of_bytes bs :: 'b::len word)"
  by (rule bit_word_eqI) (auto simp: bit_simps bit_word_of_bytes)

section \<open>Lists\<close>

lemma take_drop_append_exact [simp]:
  "length xs = n \<Longrightarrow> take n (xs @ ys) = xs" "length xs = n \<Longrightarrow> drop n (xs @ ys) = ys"
  by simp_all

text \<open>Arrays of 32-bit words in a byte string.\<close>

lemma drop_chunks: "(\<And>x. length (f x) = 4) \<Longrightarrow> drop (j * 4) (concat (map f xs)) = concat (map f (drop j xs))"
proof (induction xs arbitrary: j)
  case (Cons x xs)
  then show ?case by (cases j) simp_all
qed simp

lemma length_chunks: "(\<And>x. length (f x) = 4) \<Longrightarrow> length (concat (map f xs)) = 4 * length xs"
  by (induction xs) simp_all

section \<open>Bounds-checked arrays\<close>

text \<open>
  Reads and writes of C arrays. An access outside the array is undefined behaviour in C; the
  models give it the value \<^term>\<open>None\<close>, so that a result of the form \<^term>\<open>Some r\<close> also says that
  every access of the run was in range.
\<close>

definition rd :: "'a list \<Rightarrow> nat \<Rightarrow> 'a option" where
  "rd xs i = (if i < length xs then Some (xs ! i) else None)"

definition wr :: "'a list \<Rightarrow> nat \<Rightarrow> 'a \<Rightarrow> 'a list option" where
  "wr xs i v = (if i < length xs then Some (xs[i := v]) else None)"

lemma rd_Some [simp]: "i < length xs \<Longrightarrow> rd xs i = Some (xs ! i)"
  by (simp add: rd_def)

lemma wr_Some [simp]: "i < length xs \<Longrightarrow> wr xs i v = Some (xs[i := v])"
  by (simp add: wr_def)

lemma rd_eq_Some_iff: "rd xs i = Some v \<longleftrightarrow> i < length xs \<and> v = xs ! i"
  by (auto simp: rd_def)

lemma wr_eq_Some_iff: "wr xs i v = Some ys \<longleftrightarrow> i < length xs \<and> ys = xs[i := v]"
  by (auto simp: wr_def)

section \<open>Codecs\<close>

text \<open>
  The contract every encoder/decoder pair obeys: decoding the encoding of a legal value gives the
  value back and leaves exactly the bytes that followed it. The clients (batches, log records,
  blocks, version edits) only rely on this law, and on its consequences proved here: an encoding
  determines its value, no encoding is a proper prefix of another, and a sequence of encodings
  parses back element by element.
\<close>

locale codec =
  fixes legal :: "'a \<Rightarrow> bool"
    and encode :: "'a \<Rightarrow> byte list"
    and decode :: "'a decoder"
  assumes decode_encode: "legal x \<Longrightarrow> decode (encode x @ rest) = Some (x, rest)"
begin

lemma decode_encode_exact: "legal x \<Longrightarrow> decode (encode x) = Some (x, [])"
  using decode_encode [of x "[]"] by simp

lemma prefix_free:
  assumes "legal x" and "legal y" and "encode x @ r = encode y @ s"
  shows "x = y \<and> r = s"
proof -
  have "Some (x, r) = decode (encode x @ r)"
    using assms(1) by (simp add: decode_encode)
  also have "\<dots> = Some (y, s)"
    using assms(2,3) by (simp add: decode_encode)
  finally show ?thesis by simp
qed

lemma encode_inj: "legal x \<Longrightarrow> legal y \<Longrightarrow> encode x = encode y \<Longrightarrow> x = y"
  using prefix_free [of x y "[]" "[]"] by simp

fun decode_many :: "nat \<Rightarrow> byte list \<Rightarrow> ('a list \<times> byte list) option" where
  "decode_many 0 bs = Some ([], bs)"
| "decode_many (Suc n) bs =
     (case decode bs of
        None \<Rightarrow> None
      | Some (x, bs') \<Rightarrow> map_option (\<lambda>(xs, r). (x # xs, r)) (decode_many n bs'))"

lemma decode_many_concat:
  "(\<forall>x\<in>set xs. legal x) \<Longrightarrow>
   decode_many (length xs) (concat (map encode xs) @ rest) = Some (xs, rest)"
  by (induction xs) (simp_all add: decode_encode)

end

end
