(* ===== verification/Coding.thy ===== *)
theory Coding
  imports Prelude
begin

unbundle bit_operations_syntax

text \<open>
  Model of \<open>leveldb-mcpe/util/coding.h\<close> and \<open>coding.cc\<close>: the endian-neutral fixed-width and
  variable-length integer encodings and the length-prefixed strings from which every persistent
  format of the store is built. A routine that writes through a \<open>char*\<close> is modelled by the bytes
  it writes; one that appends to a \<open>std::string\<close> by the new string; one that reads between \<open>p\<close> and
  \<open>limit\<close> by a decoder on the bytes of that range.
\<close>

section \<open>Fixed-width integers\<close>

text \<open>
  \<open>memcpy\<close> between an integer and a byte buffer exposes the memory order of the machine. The flag is
  \<open>port::kLittleEndian\<close>, which every port defines as the byte order of its target.
\<close>

definition bytes_of_u32 :: "u32 \<Rightarrow> byte list" where
  "bytes_of_u32 v = [ucast v, ucast (drop_bit 8 v), ucast (drop_bit 16 v), ucast (drop_bit 24 v)]"

definition bytes_of_u64 :: "u64 \<Rightarrow> byte list" where
  "bytes_of_u64 v =
     [ucast v, ucast (drop_bit 8 v), ucast (drop_bit 16 v), ucast (drop_bit 24 v),
      ucast (drop_bit 32 v), ucast (drop_bit 40 v), ucast (drop_bit 48 v), ucast (drop_bit 56 v)]"

definition memcpy_out32 :: "bool \<Rightarrow> u32 \<Rightarrow> byte list" where
  "memcpy_out32 little v = (if little then bytes_of_u32 v else rev (bytes_of_u32 v))"

definition memcpy_out64 :: "bool \<Rightarrow> u64 \<Rightarrow> byte list" where
  "memcpy_out64 little v = (if little then bytes_of_u64 v else rev (bytes_of_u64 v))"

definition memcpy_in32 :: "bool \<Rightarrow> byte list \<Rightarrow> u32" where
  "memcpy_in32 little bs = word_of_bytes (if little then take 4 bs else rev (take 4 bs))"

definition memcpy_in64 :: "bool \<Rightarrow> byte list \<Rightarrow> u64" where
  "memcpy_in64 little bs = word_of_bytes (if little then take 8 bs else rev (take 8 bs))"

definition EncodeFixed32 :: "bool \<Rightarrow> u32 \<Rightarrow> byte list" where
  "EncodeFixed32 kLittleEndian value =
     (if kLittleEndian then memcpy_out32 kLittleEndian value
      else [ucast (value AND 0xff), ucast (drop_bit 8 value AND 0xff),
            ucast (drop_bit 16 value AND 0xff), ucast (drop_bit 24 value AND 0xff)])"

definition EncodeFixed64 :: "bool \<Rightarrow> u64 \<Rightarrow> byte list" where
  "EncodeFixed64 kLittleEndian value =
     (if kLittleEndian then memcpy_out64 kLittleEndian value
      else [ucast (value AND 0xff), ucast (drop_bit 8 value AND 0xff),
            ucast (drop_bit 16 value AND 0xff), ucast (drop_bit 24 value AND 0xff),
            ucast (drop_bit 32 value AND 0xff), ucast (drop_bit 40 value AND 0xff),
            ucast (drop_bit 48 value AND 0xff), ucast (drop_bit 56 value AND 0xff)])"

definition PutFixed32 :: "bool \<Rightarrow> byte list \<Rightarrow> u32 \<Rightarrow> byte list" where
  "PutFixed32 le dst value = dst @ EncodeFixed32 le value"

definition PutFixed64 :: "bool \<Rightarrow> byte list \<Rightarrow> u64 \<Rightarrow> byte list" where
  "PutFixed64 le dst value = dst @ EncodeFixed64 le value"

text \<open>
  The decoders read without bounds checks; the callers guarantee four or eight readable bytes, and
  the theorems below state that as the length of the buffer.
\<close>

definition DecodeFixed32 :: "bool \<Rightarrow> byte list \<Rightarrow> u32" where
  "DecodeFixed32 kLittleEndian ptr =
     (if kLittleEndian then memcpy_in32 kLittleEndian ptr
      else ucast (ptr ! 0) OR push_bit 8 (ucast (ptr ! 1))
        OR push_bit 16 (ucast (ptr ! 2)) OR push_bit 24 (ucast (ptr ! 3)))"

definition DecodeFixed64 :: "bool \<Rightarrow> byte list \<Rightarrow> u64" where
  "DecodeFixed64 kLittleEndian ptr =
     (if kLittleEndian then memcpy_in64 kLittleEndian ptr
      else let lo = ucast (DecodeFixed32 kLittleEndian ptr);
               hi = ucast (DecodeFixed32 kLittleEndian (drop 4 ptr))
           in push_bit 32 hi OR lo)"

section \<open>Varints\<close>

definition EncodeVarint32 :: "u32 \<Rightarrow> byte list" where
  "EncodeVarint32 v =
     (let B = 128 in
      if v < 2 ^ 7 then [ucast v]
      else if v < 2 ^ 14 then [ucast (v OR B), ucast (drop_bit 7 v)]
      else if v < 2 ^ 21 then [ucast (v OR B), ucast (drop_bit 7 v OR B), ucast (drop_bit 14 v)]
      else if v < 2 ^ 28 then
        [ucast (v OR B), ucast (drop_bit 7 v OR B), ucast (drop_bit 14 v OR B),
         ucast (drop_bit 21 v)]
      else
        [ucast (v OR B), ucast (drop_bit 7 v OR B), ucast (drop_bit 14 v OR B),
         ucast (drop_bit 21 v OR B), ucast (drop_bit 28 v)])"

definition PutVarint32 :: "byte list \<Rightarrow> u32 \<Rightarrow> byte list" where
  "PutVarint32 dst v = dst @ EncodeVarint32 v"

lemma unat_drop_bit_less: "unat (drop_bit 7 (v :: 'a::len word)) < unat v" if "128 \<le> unat v"
  using that by (simp add: unat_drop_bit_eq) (simp add: drop_bit_eq_div)

function EncodeVarint64 :: "u64 \<Rightarrow> byte list" where
  "EncodeVarint64 v =
     (if 128 \<le> v then ucast ((v AND 127) OR 128) # EncodeVarint64 (drop_bit 7 v)
      else [ucast v])"
  by pat_completeness auto
termination
  by (relation "measure unat") (auto intro!: unat_drop_bit_less simp: word_le_nat_alt)

declare EncodeVarint64.simps [simp del]

definition PutVarint64 :: "byte list \<Rightarrow> u64 \<Rightarrow> byte list" where
  "PutVarint64 dst v = dst @ EncodeVarint64 v"

function VarintLength :: "u64 \<Rightarrow> nat" where
  "VarintLength v = (if 128 \<le> v then Suc (VarintLength (drop_bit 7 v)) else 1)"
  by pat_completeness auto
termination
  by (relation "measure unat") (auto intro!: unat_drop_bit_less simp: word_le_nat_alt)

declare VarintLength.simps [simp del]

text \<open>
  The decoding loops: \<open>shift\<close> and \<open>result\<close> are the locals, the list is the range \<open>[p, limit)\<close>.
\<close>

fun GetVarint32Loop :: "nat \<Rightarrow> u32 \<Rightarrow> u32 decoder" where
  "GetVarint32Loop shift result [] = None"
| "GetVarint32Loop shift result (b # p) =
     (if shift \<le> 28 then
        let byte = (ucast b :: u32) in
        if byte AND 128 \<noteq> 0
        then GetVarint32Loop (shift + 7) (result OR push_bit shift (byte AND 127)) p
        else Some (result OR push_bit shift byte, p)
      else None)"

definition GetVarint32PtrFallback :: "u32 decoder" where
  "GetVarint32PtrFallback p = GetVarint32Loop 0 0 p"

definition GetVarint32Ptr :: "u32 decoder" where
  "GetVarint32Ptr p =
     (case p of
        b # q \<Rightarrow> let result = (ucast b :: u32) in
                 if result AND 128 = 0 then Some (result, q) else GetVarint32PtrFallback p
      | [] \<Rightarrow> GetVarint32PtrFallback p)"

definition GetVarint32 :: "u32 decoder" where
  "GetVarint32 input =
     (case GetVarint32Ptr input of None \<Rightarrow> None | Some (value, q) \<Rightarrow> Some (value, q))"

fun GetVarint64Loop :: "nat \<Rightarrow> u64 \<Rightarrow> u64 decoder" where
  "GetVarint64Loop shift result [] = None"
| "GetVarint64Loop shift result (b # p) =
     (if shift \<le> 63 then
        let byte = (ucast b :: u64) in
        if byte AND 128 \<noteq> 0
        then GetVarint64Loop (shift + 7) (result OR push_bit shift (byte AND 127)) p
        else Some (result OR push_bit shift byte, p)
      else None)"

definition GetVarint64Ptr :: "u64 decoder" where
  "GetVarint64Ptr p = GetVarint64Loop 0 0 p"

definition GetVarint64 :: "u64 decoder" where
  "GetVarint64 input =
     (case GetVarint64Ptr input of None \<Rightarrow> None | Some (value, q) \<Rightarrow> Some (value, q))"

section \<open>Length-prefixed slices\<close>

definition PutLengthPrefixedSlice :: "byte list \<Rightarrow> slice \<Rightarrow> byte list" where
  "PutLengthPrefixedSlice dst value = PutVarint32 dst (of_nat (length value)) @ value"

definition GetLengthPrefixedSlicePtr :: "slice decoder" where
  "GetLengthPrefixedSlicePtr p =
     (case GetVarint32Ptr p of
        None \<Rightarrow> None
      | Some (len, p') \<Rightarrow>
          if length p' < unat len then None
          else Some (take (unat len) p', drop (unat len) p'))"

definition GetLengthPrefixedSlice :: "slice decoder" where
  "GetLengthPrefixedSlice input =
     (case GetVarint32 input of
        None \<Rightarrow> None
      | Some (len, input') \<Rightarrow>
          if unat len \<le> length input'
          then Some (take (unat len) input', drop (unat len) input')
          else None)"

section \<open>Fixed-width round trips\<close>

lemma word_byte_split:
  "ucast (ucast (drop_bit n w) :: byte) OR push_bit 8 (drop_bit (n + 8) w) = drop_bit n (w :: 'a::len word)"
proof (rule bit_word_eqI)
  fix i assume "i < LENGTH('a)"
  then show "bit (ucast (ucast (drop_bit n w) :: byte) OR push_bit 8 (drop_bit (n + 8) w)) i = bit (drop_bit n w) i"
    by (cases "i < 8") (auto simp: bit_simps)
qed

lemma word_byte_top:
  "ucast (ucast (drop_bit n w) :: byte) = drop_bit n (w :: 'a::len word)" if "LENGTH('a) \<le> n + 8"
  using that by (intro bit_word_eqI) (auto simp: bit_simps dest: bit_imp_le_length)

lemma u32_bytes_of: "word_of_bytes (bytes_of_u32 v) = v"
  using word_byte_split [of 16 v] word_byte_split [of 8 v] word_byte_split [of 0 v]
  by (simp add: bytes_of_u32_def word_byte_top)

lemma u64_bytes_of: "word_of_bytes (bytes_of_u64 v) = v"
  using word_byte_split [of 48 v] word_byte_split [of 40 v] word_byte_split [of 32 v]
    word_byte_split [of 24 v] word_byte_split [of 16 v] word_byte_split [of 8 v] word_byte_split [of 0 v]
  by (simp add: bytes_of_u64_def word_byte_top)

lemma length_bytes_of [simp]: "length (bytes_of_u32 v) = 4" "length (bytes_of_u64 w) = 8"
  by (simp_all add: bytes_of_u32_def bytes_of_u64_def)

lemma ucast_drop_word_of_bytes:
  assumes "k < length p" and "8 * length p \<le> LENGTH('a)"
  shows "(ucast (drop_bit (8 * k) (word_of_bytes p :: 'a::len word)) :: byte) = p ! k"
proof (rule bit_word_eqI)
  fix i assume "i < LENGTH(8)"
  then have i: "i < 8" "(8 * k + i) div 8 = k" "(8 * k + i) mod 8 = i" "8 * k + i < LENGTH('a)" using assms by auto
  then show "bit (ucast (drop_bit (8 * k) (word_of_bytes p :: 'a word)) :: byte) i = bit (p ! k) i"
    using assms by (simp add: bit_simps bit_word_of_bytes add.commute)
qed

lemma bytes_of_word:
  "length p = 4 \<Longrightarrow> bytes_of_u32 (word_of_bytes p) = p" "length p = 8 \<Longrightarrow> bytes_of_u64 (word_of_bytes p) = p"
proof -
  assume p: "length p = 4"
  show "bytes_of_u32 (word_of_bytes p) = p"
    using ucast_drop_word_of_bytes [of 0 p, where 'a=32] ucast_drop_word_of_bytes [of 1 p, where 'a=32]
      ucast_drop_word_of_bytes [of 2 p, where 'a=32] ucast_drop_word_of_bytes [of 3 p, where 'a=32] p
    by (intro nth_equalityI) (auto simp: bytes_of_u32_def less_Suc_eq numeral_eq_Suc)
next
  assume p: "length p = 8"
  have "bytes_of_u64 (word_of_bytes p) = map (\<lambda>k. ucast (drop_bit (8 * k) (word_of_bytes p :: u64))) [0..<8]"
    by (simp add: bytes_of_u64_def upt_rec)
  also have "\<dots> = map ((!) p) [0..<8]"
    using p by (intro map_cong) (auto simp: ucast_drop_word_of_bytes)
  finally show "bytes_of_u64 (word_of_bytes p) = p" using p by (metis map_nth)
qed

lemma ucast_and_255: "(ucast (w AND 255) :: byte) = ucast (w :: 'a::len word)"
  by (rule bit_word_eqI) (auto simp: and_mask_take_bit bit_simps dest: bit_imp_le_length)

lemma EncodeFixed32_eq: "EncodeFixed32 le v = bytes_of_u32 v"
  by (simp add: EncodeFixed32_def memcpy_out32_def bytes_of_u32_def ucast_and_255)

lemma EncodeFixed64_eq: "EncodeFixed64 le v = bytes_of_u64 v"
  by (simp add: EncodeFixed64_def memcpy_out64_def bytes_of_u64_def ucast_and_255)

lemma push_bit_or: "push_bit n (a OR b) = push_bit n a OR push_bit n (b :: 'a::len word)"
  by (rule bit_word_eqI) (auto simp: bit_simps)

lemma take_four_conv: "take 4 bs = [bs ! 0, bs ! 1, bs ! 2, bs ! 3]" if "4 \<le> length bs"
  using that by (intro nth_equalityI) (auto simp: less_Suc_eq numeral_eq_Suc)

lemma DecodeFixed32_eq: "DecodeFixed32 le bs = word_of_bytes (take 4 bs)" if "4 \<le> length bs"
  by (simp add: DecodeFixed32_def memcpy_in32_def take_four_conv [OF that] push_bit_or or.assoc)

lemma DecodeFixed32_bytes: "DecodeFixed32 le (bytes_of_u32 v @ rest) = v"
  by (simp add: DecodeFixed32_eq u32_bytes_of)

lemma take_eight_conv: "take 8 bs = take 4 bs @ take 4 (drop 4 bs)"
  using take_add [of 4 4 bs] by simp

lemma word_of_bytes_append:
  "length xs = n \<Longrightarrow> word_of_bytes (xs @ ys) = word_of_bytes xs OR push_bit (8 * n) (word_of_bytes ys)"
  by (induction xs arbitrary: n) (auto simp: push_bit_or push_bit_push_bit or.assoc)

lemma DecodeFixed64_eq: "DecodeFixed64 le bs = word_of_bytes (take 8 bs)" if "8 \<le> length bs"
proof -
  have "(word_of_bytes (take 8 bs) :: u64) =
      word_of_bytes (take 4 bs) OR push_bit 32 (word_of_bytes (take 4 (drop 4 bs)))"
    using that by (simp add: take_eight_conv word_of_bytes_append [where n = 4])
  then show ?thesis
    using that
    by (simp add: DecodeFixed64_def memcpy_in64_def DecodeFixed32_eq Let_def word_of_bytes_ucast or.commute)
qed

lemma DecodeFixed64_bytes: "DecodeFixed64 le (bytes_of_u64 v @ rest) = v"
  by (simp add: DecodeFixed64_eq u64_bytes_of)

section \<open>Varint round trips\<close>

text \<open>
  The reference: one base-128 little-endian encoder and decoder, for words of any width. The code's
  unrolled 32-bit encoder, its 64-bit loop and both decoding loops are instances of it.
\<close>

function leb_enc :: "'a::len word \<Rightarrow> byte list" where
  "leb_enc v =
     (if 128 \<le> unat v then (ucast (take_bit 7 v) OR 128) # leb_enc (drop_bit 7 v) else [ucast v])"
  by pat_completeness auto
termination
  by (relation "measure unat") (auto intro!: unat_drop_bit_less)

declare leb_enc.simps [simp del]

fun leb_dec :: "nat \<Rightarrow> nat \<Rightarrow> 'a::len word \<Rightarrow> 'a word decoder" where
  "leb_dec lim shift result [] = None"
| "leb_dec lim shift result (b # p) =
     (if shift \<le> lim then
        if bit b 7 then leb_dec lim (shift + 7) (result OR push_bit shift (ucast (take_bit 7 b))) p
        else Some (result OR push_bit shift (ucast b), p)
      else None)"

lemma take_bit_or_push_bit:
  "take_bit s w OR push_bit s (take_bit m (drop_bit s w)) = take_bit (s + m) (w :: 'a::len word)"
  by (rule bit_word_eqI) (auto simp: bit_simps)

lemma take_bit_or_drop_bit:
  "take_bit s w OR push_bit s (drop_bit s w) = (w :: 'a::len word)"
proof (rule bit_word_eqI)
  fix i assume "i < LENGTH('a)"
  then show "bit (take_bit s w OR push_bit s (drop_bit s w)) i = bit w i"
    by (cases "i < s") (simp_all add: bit_simps)
qed

lemma drop_bit_beyond: "LENGTH('a) \<le> n \<Longrightarrow> drop_bit n (w :: 'a::len word) = 0"
  by (rule bit_word_eqI) (auto simp: bit_simps dest: bit_imp_le_length)

lemma leb_low_bits:
  "8 \<le> LENGTH('a::len) \<Longrightarrow> ucast (take_bit 7 (ucast (take_bit 7 x) :: byte)) = take_bit 7 (x :: 'a word)"
  by (rule bit_word_eqI) (auto simp: bit_simps)

lemma leb_flag: "bit (b OR 128 :: byte) 7"
  using bit_exp_iff [of 7 7, where 'a = byte] by (simp add: bit_simps)

lemma unat_less_128_iff: "unat x < 128 \<longleftrightarrow> drop_bit 7 x = 0" for x :: "'a::len word"
proof -
  have "drop_bit 7 x = 0 \<longleftrightarrow> unat (drop_bit 7 x) = 0"
    by (simp add: unat_0_iff)
  then show ?thesis
    by (simp add: unat_drop_bit_eq) (simp add: drop_bit_eq_div div_eq_0_iff)
qed

lemma leb_last:
  assumes "unat (x :: 'a::len word) < 128"
  shows "ucast (ucast x :: byte) = x" and "\<not> bit (ucast x :: byte) 7"
proof -
  have hi: "\<not> bit x (7 + n)" for n
    using assms bit_drop_bit_eq [of 7 x] by (simp add: unat_less_128_iff fun_eq_iff)
  have hi': "\<not> bit x n" if "7 \<le> n" for n
    using hi [of "n - 7"] that by simp
  show "ucast (ucast x :: byte) = x"
    using hi' by (intro bit_word_eqI) (auto simp: bit_simps not_less intro: ccontr)
  show "\<not> bit (ucast x :: byte) 7"
    using hi' by (simp add: bit_simps)
qed

lemma leb_dec_enc:
  fixes w :: "'a::len word"
  assumes lim: "7 dvd lim" "lim < LENGTH('a)" "LENGTH('a) \<le> lim + 7" "8 \<le> LENGTH('a)"
  shows "7 dvd s \<Longrightarrow> s \<le> lim \<Longrightarrow>
    leb_dec lim s (take_bit s w) (leb_enc (drop_bit s w) @ rest) = Some (w, rest)"
proof (induction "lim - s" arbitrary: s rule: less_induct)
  case less
  let ?x = "drop_bit s w"
  show ?case
  proof (cases "128 \<le> unat ?x")
    case True
    then have nz: "drop_bit (s + 7) w \<noteq> 0"
      using unat_less_128_iff [of ?x] by (simp add: drop_bit_drop_bit add.commute)
    have "s + 7 < LENGTH('a)"
      using nz drop_bit_beyond [of "s + 7" w] by (auto simp: not_le [symmetric])
    with lim have "s < lim" by linarith
    then have s7: "s + 7 \<le> lim"
      using lim(1) less.prems(1) by (auto elim!: dvdE)
    have "leb_dec lim s (take_bit s w) (leb_enc ?x @ rest) =
        leb_dec lim (s + 7) (take_bit (s + 7) w) (leb_enc (drop_bit (s + 7) w) @ rest)"
      using True less.prems lim(4)
      by (subst leb_enc.simps)
        (simp add: leb_flag leb_low_bits take_bit_or_push_bit drop_bit_drop_bit add.commute)
    also have "\<dots> = Some (w, rest)"
      using less.hyps [of "s + 7"] less.prems s7 by (simp add: less_diff_conv2)
    finally show ?thesis .
  next
    case False
    then show ?thesis
      using less.prems by (subst leb_enc.simps) (simp add: leb_last take_bit_or_drop_bit)
  qed
qed

lemma bit_7_and_128: "(ucast b :: 'a::len word) AND 128 \<noteq> 0 \<longleftrightarrow> bit (b :: byte) 7"
  if "8 \<le> LENGTH('a)"
proof -
  have "(128 :: 'a word) = 2 ^ 7" by simp
  then show ?thesis
    using that by (simp only: and_exp_eq_0_iff_not_bit) (simp add: bit_simps)
qed

lemma ucast_and_127: "(ucast b AND 127 :: 'a::len word) = ucast (take_bit 7 (b :: byte))"
  by (rule bit_word_eqI) (auto simp: and_mask_take_bit bit_simps)

lemma GetVarint32Loop_leb: "GetVarint32Loop s r p = leb_dec 28 s r p"
  by (induction s r p rule: GetVarint32Loop.induct)
    (simp_all add: Let_def bit_7_and_128 ucast_and_127)

lemma GetVarint64Loop_leb: "GetVarint64Loop s r p = leb_dec 63 s r p"
  by (induction s r p rule: GetVarint64Loop.induct)
    (simp_all add: Let_def bit_7_and_128 ucast_and_127)

lemma GetVarint32Ptr_leb: "GetVarint32Ptr p = leb_dec 28 0 0 p"
proof (cases p)
  case (Cons b q)
  then show ?thesis
    using bit_7_and_128 [of b, where 'a = 32]
    by (auto simp: GetVarint32Ptr_def GetVarint32PtrFallback_def GetVarint32Loop_leb Let_def)
qed (simp add: GetVarint32Ptr_def GetVarint32PtrFallback_def)

lemma GetVarint32_leb: "GetVarint32 p = leb_dec 28 0 0 p"
  by (auto simp: GetVarint32_def GetVarint32Ptr_leb split: option.splits)

lemma GetVarint64_leb: "GetVarint64 p = leb_dec 63 0 0 p"
  by (auto simp: GetVarint64_def GetVarint64Ptr_def GetVarint64Loop_leb split: option.splits)

lemma leb_byte: "ucast (v OR 128) = (ucast (take_bit 7 v) OR 128 :: byte)"
  if "8 \<le> LENGTH('a)" for v :: "'a::len word"
proof (rule bit_word_eqI)
  fix i assume "i < LENGTH(8)"
  then have "i < 8" by simp
  have "bit (128 :: byte) i \<longleftrightarrow> i = 7" "bit (128 :: 'a word) i \<longleftrightarrow> i = 7"
    using \<open>i < 8\<close> that bit_exp_iff [of 7 i, where 'a = byte] bit_exp_iff [of 7 i, where 'a = "'a word"]
    by (auto simp: possible_bit_word)
  with \<open>i < 8\<close> that show "bit (ucast (v OR 128) :: byte) i = bit (ucast (take_bit 7 v) OR 128 :: byte) i"
    by (auto simp: bit_simps)
qed

lemma EncodeVarint64_leb: "EncodeVarint64 v = leb_enc v"
proof (induction v rule: EncodeVarint64.induct)
  case (1 v)
  have "ucast ((v AND 127) OR 128) = (ucast (take_bit 7 v) OR 128 :: byte)"
    by (simp add: leb_byte and_mask_take_bit)
  with 1 show ?case
    by (subst EncodeVarint64.simps, subst leb_enc.simps) (auto simp: word_le_nat_alt)
qed

lemma leb_enc_small: "unat v < 128 \<Longrightarrow> leb_enc v = [ucast v]"
  by (subst leb_enc.simps) simp

lemma leb_enc_big:
  "128 \<le> unat v \<Longrightarrow> leb_enc v = (ucast (take_bit 7 v) OR 128) # leb_enc (drop_bit 7 v)"
  by (subst leb_enc.simps) simp

lemma EncodeVarint32_leb: "EncodeVarint32 v = leb_enc v"
proof -
  note unrolled = EncodeVarint32_def Let_def leb_byte drop_bit_drop_bit unat_drop_bit_div
    leb_enc_small leb_enc_big
  have "unat v < 2 ^ 32" using unsigned_less [of v] by simp
  consider "unat v < 2 ^ 7" | "2 ^ 7 \<le> unat v" "unat v < 2 ^ 14" | "2 ^ 14 \<le> unat v" "unat v < 2 ^ 21"
    | "2 ^ 21 \<le> unat v" "unat v < 2 ^ 28" | "2 ^ 28 \<le> unat v" by linarith
  then show ?thesis
    by cases (use \<open>unat v < 2 ^ 32\<close> in \<open>simp_all add: unrolled word_less_nat_alt\<close>)
qed

section \<open>The codecs of the store\<close>

definition dec_fixed32 :: "bool \<Rightarrow> u32 decoder" where
  "dec_fixed32 le bs = (if length bs < 4 then None else Some (DecodeFixed32 le bs, drop 4 bs))"

definition dec_fixed64 :: "bool \<Rightarrow> u64 decoder" where
  "dec_fixed64 le bs = (if length bs < 8 then None else Some (DecodeFixed64 le bs, drop 8 bs))"

interpretation fixed32: codec "\<lambda>_. True" "EncodeFixed32 le" "dec_fixed32 le'"
  by unfold_locales (simp add: EncodeFixed32_eq dec_fixed32_def DecodeFixed32_bytes)

interpretation fixed64: codec "\<lambda>_. True" "EncodeFixed64 le" "dec_fixed64 le'"
  by unfold_locales (simp add: EncodeFixed64_eq dec_fixed64_def DecodeFixed64_bytes)

interpretation varint32: codec "\<lambda>_. True" EncodeVarint32 GetVarint32
  using leb_dec_enc [of 28 0, where 'a = 32]
  by unfold_locales (simp add: EncodeVarint32_leb GetVarint32_leb)

interpretation varint64: codec "\<lambda>_. True" EncodeVarint64 GetVarint64
  using leb_dec_enc [of 63 0, where 'a = 64]
  by unfold_locales (simp add: EncodeVarint64_leb GetVarint64_leb)

interpretation varstring: codec "\<lambda>s. length s < 2 ^ 32" "PutLengthPrefixedSlice []" GetLengthPrefixedSlice
  by unfold_locales
    (simp add: PutLengthPrefixedSlice_def PutVarint32_def GetLengthPrefixedSlice_def
      varint32.decode_encode unsigned_of_nat take_bit_nat_eq_self)

section \<open>Properties\<close>

lemma leb_enc_length: "length (leb_enc (v :: u64)) = VarintLength v"
proof (induction v rule: VarintLength.induct)
  case (1 v)
  then show ?case
    by (subst leb_enc.simps, subst VarintLength.simps) (simp add: word_le_nat_alt)
qed

lemma leb_enc_ucast: "leb_enc (ucast v :: u64) = leb_enc v" for v :: u32
proof (induction v rule: leb_enc.induct)
  case (1 v)
  have u: "unat (ucast v :: u64) = unat v"
    using unat_less_u32 [of v]
    by (simp add: unsigned_ucast_eq take_bit_nat_eq_self)
  have c: "ucast (ucast v :: u64) = (ucast v :: byte)"
    "ucast (take_bit 7 (ucast v :: u64)) = (ucast (take_bit 7 v) :: byte)"
    by (auto intro!: bit_word_eqI simp: bit_simps dest: bit_imp_le_length)
  have d: "drop_bit 7 (ucast v) = (ucast (drop_bit 7 v) :: u64)"
    using bit_imp_le_length [of v] by (intro bit_word_eqI) (fastforce simp: bit_simps)
  show ?case
  proof (cases "128 \<le> unat v")
    case True
    then show ?thesis
      using leb_enc_big [of "ucast v :: u64"] leb_enc_big [of v] "1.IH"
      by (simp only: u c d)
  next
    case False
    then show ?thesis
      using leb_enc_small [of "ucast v :: u64"] leb_enc_small [of v]
      by (simp only: u c not_le)
  qed
qed

lemma EncodeVarint32_length: "length (EncodeVarint32 v) = VarintLength (ucast v)"
  by (metis EncodeVarint32_leb leb_enc_ucast leb_enc_length)

lemma leb_dec_consumes:
  "leb_dec lim s r bs = Some (v, rest) \<Longrightarrow>
   \<exists>used. bs = used @ rest \<and> used \<noteq> [] \<and> 7 * length used \<le> lim + 7 - s"
proof (induction lim s r bs rule: leb_dec.induct)
  case (2 lim s r b p)
  show ?case
  proof (cases "bit b 7 \<and> s \<le> lim")
    case True
    with 2 obtain used where "p = used @ rest" "7 * length used \<le> lim + 7 - (s + 7)"
      by (auto split: if_splits)
    with True show ?thesis
      by (intro exI [of _ "b # used"]) auto
  next
    case False
    with "2.prems" show ?thesis
      by (intro exI [of _ "[b]"]) (auto split: if_splits)
  qed
qed simp

lemma GetVarint32_used:
  "GetVarint32 bs = Some (v, rest) \<Longrightarrow> \<exists>used. bs = used @ rest \<and> 1 \<le> length used \<and> length used \<le> 5"
  using leb_dec_consumes [of 28 0 0 bs v rest] by (force simp: GetVarint32_leb Suc_le_eq)

lemma slice_shorter: "GetLengthPrefixedSlice bs = Some (s, rest) \<Longrightarrow> length rest < length bs"
  by (fastforce simp: GetLengthPrefixedSlice_def dest!: GetVarint32_used split: option.splits if_splits)

lemma varint_shorter:
  "GetVarint32 bs = Some (v, rest) \<Longrightarrow> length rest < length bs" "GetVarint64 bs = Some (w, rest) \<Longrightarrow> length rest < length bs"
  using GetVarint32_used [of bs v rest] leb_dec_consumes [of 63 0 0 bs w rest] by (auto simp: GetVarint64_leb)

text \<open>
  Endian neutrality and round trip of the fixed-width encodings: the bytes written do not depend
  on the machine that writes them, and a machine of either byte order reads the value back.
\<close>

theorem fixed_roundtrip_endian_neutral:
  "EncodeFixed32 le v = EncodeFixed32 le' v \<and> EncodeFixed64 le w = EncodeFixed64 le' w \<and>
   DecodeFixed32 le' (EncodeFixed32 le v @ rest) = v \<and>
   DecodeFixed64 le' (EncodeFixed64 le w @ rest) = w"
  by (simp add: EncodeFixed32_eq EncodeFixed64_eq DecodeFixed32_bytes DecodeFixed64_bytes)

text \<open>
  C18. Varint round trip: what \<open>PutVarint32\<close>, \<open>PutVarint64\<close> and \<open>PutLengthPrefixedSlice\<close> append is
  read back by the corresponding \<open>Get\<close> routine, which stops exactly at the bytes that follow. A slice
  must be shorter than $2^{32}$ bytes, because its length is truncated to \<open>uint32_t\<close>.
\<close>

theorem varint_roundtrip:
  assumes "length s < 2 ^ 32"
  shows "GetVarint32 (EncodeVarint32 v @ rest) = Some (v, rest) \<and>
    GetVarint64 (EncodeVarint64 w @ rest) = Some (w, rest) \<and>
    GetLengthPrefixedSlice (PutLengthPrefixedSlice [] s @ rest) = Some (s, rest)"
  using assms by (simp add: varint32.decode_encode varint64.decode_encode varstring.decode_encode)

theorem varint_roundtrip_witness:
  "length ([1, 2, 3] :: byte list) < 2 ^ 32 \<and>
   GetLengthPrefixedSlice (PutLengthPrefixedSlice [] [1, 2, 3] @ [9]) = Some ([1, 2, 3], [9])"
  using varint_roundtrip [of "[1, 2, 3]" _ "[9]"] by simp

text \<open>
  The unrolled 32-bit encoder writes what the 64-bit loop writes for the same number, both write
  \<open>VarintLength\<close> bytes, and that is at most five bytes (the buffer of \<open>PutVarint32\<close>) or ten bytes
  (the buffer of \<open>PutVarint64\<close>).
\<close>

theorem varint_encoders_agree:
  "EncodeVarint32 v = EncodeVarint64 (ucast v) \<and>
   length (EncodeVarint64 w) = VarintLength w \<and>
   length (EncodeVarint32 v) \<le> 5 \<and> length (EncodeVarint64 w) \<le> 10"
proof -
  have five: "length (EncodeVarint32 v) \<le> 5"
    by (simp add: EncodeVarint32_def Let_def)
  obtain used where "EncodeVarint64 w @ [] = used @ []" "7 * length used \<le> 63 + 7 - 0"
    using leb_dec_consumes [of 63 0 0 "EncodeVarint64 w @ []" w "[]"] varint64.decode_encode [of w "[]"]
    by (auto simp: GetVarint64_leb)
  then have "length (EncodeVarint64 w) \<le> 10" by simp
  with five show ?thesis
    by (simp add: EncodeVarint32_leb EncodeVarint64_leb leb_enc_ucast leb_enc_length)
qed

text \<open>
  C22. Bounded and safe decoding of arbitrary bytes: when \<open>GetVarint32\<close> succeeds it has consumed
  between one and five bytes. \<open>GetLengthPrefixedSlice\<close> succeeds exactly if the input begins with such
  an encoding of a length and has at least that many bytes after it; the slice it returns then has just
  this length, and the slice and the rest lie inside the input, in order. A length beyond the end of
  the input is refused, and the variant on pointers gives the same results.
\<close>

theorem varint_decode_bounds:
  "(GetVarint32 bs = Some (v, rest) \<longrightarrow> (\<exists>used. bs = used @ rest \<and> 1 \<le> length used \<and> length used \<le> 5)) \<and>
    (GetLengthPrefixedSlice cs = Some (s, tl_bytes) \<longleftrightarrow>
      (\<exists>hdr len. cs = hdr @ s @ tl_bytes \<and> 1 \<le> length hdr \<and> length hdr \<le> 5 \<and> GetVarint32 cs = Some (len, s @ tl_bytes) \<and> unat len = length s)) \<and>
    (GetVarint32 cs = Some (n, q) \<and> length q < unat n \<longrightarrow> GetLengthPrefixedSlice cs = None) \<and>
    GetLengthPrefixedSlicePtr cs = GetLengthPrefixedSlice cs"
proof (intro conjI impI iffI)
  show "\<exists>used. bs = used @ rest \<and> 1 \<le> length used \<and> length used \<le> 5" if "GetVarint32 bs = Some (v, rest)"
    by (rule GetVarint32_used [OF that])
next
  assume "GetLengthPrefixedSlice cs = Some (s, tl_bytes)"
  then obtain len q where l: "GetVarint32 cs = Some (len, q)" "unat len \<le> length q" "s = take (unat len) q" "tl_bytes = drop (unat len) q"
    by (auto simp: GetLengthPrefixedSlice_def split: option.splits if_splits)
  then have "q = s @ tl_bytes" "unat len = length s" by simp_all
  then show "\<exists>hdr len. cs = hdr @ s @ tl_bytes \<and> 1 \<le> length hdr \<and> length hdr \<le> 5 \<and> GetVarint32 cs = Some (len, s @ tl_bytes) \<and> unat len = length s"
    using GetVarint32_used [OF l(1)] l(1) by auto
next
  assume "\<exists>hdr len. cs = hdr @ s @ tl_bytes \<and> 1 \<le> length hdr \<and> length hdr \<le> 5 \<and> GetVarint32 cs = Some (len, s @ tl_bytes) \<and> unat len = length s"
  then show "GetLengthPrefixedSlice cs = Some (s, tl_bytes)" by (auto simp: GetLengthPrefixedSlice_def)
next
  show "GetLengthPrefixedSlice cs = None" if "GetVarint32 cs = Some (n, q) \<and> length q < unat n" using that by (simp add: GetLengthPrefixedSlice_def)
next
  show "GetLengthPrefixedSlicePtr cs = GetLengthPrefixedSlice cs"
    by (auto simp: GetLengthPrefixedSlicePtr_def GetLengthPrefixedSlice_def GetVarint32_def split: option.splits)
qed

theorem varint_decode_bounds_witness:
  "(\<exists>hdr len. ([2, 7, 8, 9] :: byte list) = hdr @ [7, 8] @ [9] \<and> GetVarint32 [2, 7, 8, 9] = Some (len, [7, 8, 9]) \<and> unat len = 2) \<and> GetLengthPrefixedSlice [9, 1] = None"
proof -
  have "GetLengthPrefixedSlice [2, 7, 8, 9] = Some ([7, 8], [9])" "GetVarint32 [9, 1] = Some (9, [1])"
    by code_simp+
  then show ?thesis
    using varint_decode_bounds [of "[]" _ _ "[2, 7, 8, 9]" "[7, 8]" "[9]"] varint_decode_bounds [of "[]" _ _ "[9, 1]" "[]" "[]" 9 "[1]"]
    by auto
qed

end
