(* ===== verification/Adler32.thy ===== *)
theory Adler32
  imports Prelude
begin

unbundle bit_operations_syntax

text \<open>
  Model of \<open>zlib/adler32.c\<close>: the Adler-32 checksum that protects the zlib streams of the table
  blocks, with its deferred modulo reductions, and the combination of two checksums. The type
  \<open>uLong\<close> is 32 bits wide, as on the Windows targets of this repository, so every sum below wraps
  at $2^{32}$ unless it is proved not to.
\<close>

section \<open>Model\<close>

definition BASE :: u32 where "BASE = 65521"

definition NMAX :: nat where "NMAX = 5552"

type_synonym sums = "u32 \<times> u32"

text \<open>The macros \<open>DO1\<close> to \<open>DO16\<close>: the pair is \<open>(adler, sum2)\<close>.\<close>

definition DO1 :: "byte list \<Rightarrow> nat \<Rightarrow> sums \<Rightarrow> sums" where
  "DO1 buf i st = (let adler = fst st + ucast (buf ! i) in (adler, snd st + adler))"

definition DO2 :: "byte list \<Rightarrow> nat \<Rightarrow> sums \<Rightarrow> sums" where
  "DO2 buf i st = DO1 buf (i + 1) (DO1 buf i st)"

definition DO4 :: "byte list \<Rightarrow> nat \<Rightarrow> sums \<Rightarrow> sums" where
  "DO4 buf i st = DO2 buf (i + 2) (DO2 buf i st)"

definition DO8 :: "byte list \<Rightarrow> nat \<Rightarrow> sums \<Rightarrow> sums" where
  "DO8 buf i st = DO4 buf (i + 4) (DO4 buf i st)"

definition DO16 :: "byte list \<Rightarrow> sums \<Rightarrow> sums" where
  "DO16 buf st = DO8 buf 8 (DO8 buf 0 st)"

text \<open>\<open>MOD\<close>, \<open>MOD28\<close> and \<open>MOD63\<close> are plain remainders (\<open>NO_DIVIDE\<close> is not defined).\<close>

definition MOD :: "u32 \<Rightarrow> u32" where "MOD a = a mod BASE"

text \<open>The loop \<open>while (len--)\<close> over single bytes.\<close>

fun adler_tail :: "byte list \<Rightarrow> sums \<Rightarrow> sums" where
  "adler_tail [] st = st"
| "adler_tail (b # buf) (adler, sum2) = adler_tail buf (adler + ucast b, sum2 + (adler + ucast b))"

text \<open>The loop \<open>do { DO16(buf); buf += 16; } while (--n)\<close>.\<close>

fun adler_do16 :: "nat \<Rightarrow> byte list \<Rightarrow> sums \<Rightarrow> byte list \<times> sums" where
  "adler_do16 0 buf st = (buf, st)"
| "adler_do16 (Suc n) buf st = adler_do16 n (drop 16 buf) (DO16 buf st)"

lemma fst_adler_do16: "fst (adler_do16 n buf st) = drop (16 * n) buf"
  by (induction n arbitrary: buf st) (simp_all add: drop_drop add.commute)

text \<open>The loop over blocks of \<open>NMAX\<close> bytes, with one pair of reductions per block.\<close>

function adler_nmax :: "byte list \<Rightarrow> sums \<Rightarrow> byte list \<times> sums" where
  "adler_nmax buf st =
     (if NMAX \<le> length buf then
        let r = adler_do16 (NMAX div 16) buf st
        in adler_nmax (fst r) (MOD (fst (snd r)), MOD (snd (snd r)))
      else (buf, st))"
  by pat_completeness auto
termination
  by (relation "measure (\<lambda>(buf, st). length buf)") (auto simp: fst_adler_do16 NMAX_def)

declare adler_nmax.simps [simp del]

text \<open>The loop \<open>while (len >= 16)\<close> over the remaining bytes.\<close>

function adler_rest16 :: "byte list \<Rightarrow> sums \<Rightarrow> byte list \<times> sums" where
  "adler_rest16 buf st =
     (if 16 \<le> length buf then adler_rest16 (drop 16 buf) (DO16 buf st) else (buf, st))"
  by pat_completeness auto
termination
  by (relation "measure (\<lambda>(buf, st). length buf)") auto

declare adler_rest16.simps [simp del]

definition adler32_z :: "u32 \<Rightarrow> byte list option \<Rightarrow> u32" where
  "adler32_z adler buf_opt =
     (let sum2 = drop_bit 16 adler AND 0xffff; adler = adler AND 0xffff in
      case buf_opt of
        None \<Rightarrow> 1
      | Some buf \<Rightarrow>
          if length buf = 1 then
            let adler = adler + ucast (buf ! 0);
                adler = (if BASE \<le> adler then adler - BASE else adler);
                sum2 = sum2 + adler;
                sum2 = (if BASE \<le> sum2 then sum2 - BASE else sum2)
            in adler OR push_bit 16 sum2
          else if length buf < 16 then
            let (adler, sum2) = adler_tail buf (adler, sum2);
                adler = (if BASE \<le> adler then adler - BASE else adler);
                sum2 = MOD sum2
            in adler OR push_bit 16 sum2
          else
            let (buf, adler, sum2) = adler_nmax buf (adler, sum2);
                (adler, sum2) =
                  (if buf \<noteq> [] then
                     let (buf, st) = adler_rest16 buf (adler, sum2);
                         (adler, sum2) = adler_tail buf st
                     in (MOD adler, MOD sum2)
                   else (adler, sum2))
            in adler OR push_bit 16 sum2)"

definition adler32 :: "u32 \<Rightarrow> byte list option \<Rightarrow> u32" where
  "adler32 adler buf = adler32_z adler buf"

definition adler32_combine_impl :: "u32 \<Rightarrow> u32 \<Rightarrow> int \<Rightarrow> u32" where
  "adler32_combine_impl adler1 adler2 len2 =
     (if len2 < 0 then 0xffffffff
      else
        let len2 = len2 mod uint BASE;
            rem = (word_of_int len2 :: u32);
            sum1 = adler1 AND 0xffff;
            sum2 = MOD (rem * sum1);
            sum1 = sum1 + ((adler2 AND 0xffff) + BASE - 1);
            sum2 = sum2 + ((drop_bit 16 adler1 AND 0xffff) + (drop_bit 16 adler2 AND 0xffff) + BASE - rem);
            sum1 = (if BASE \<le> sum1 then sum1 - BASE else sum1);
            sum1 = (if BASE \<le> sum1 then sum1 - BASE else sum1);
            sum2 = (if push_bit 1 BASE \<le> sum2 then sum2 - push_bit 1 BASE else sum2);
            sum2 = (if BASE \<le> sum2 then sum2 - BASE else sum2)
        in sum1 OR push_bit 16 sum2)"

definition adler32_combine :: "u32 \<Rightarrow> u32 \<Rightarrow> int \<Rightarrow> u32" where
  "adler32_combine adler1 adler2 len2 = adler32_combine_impl adler1 adler2 len2"

section \<open>Specification: reduce after every byte\<close>

text \<open>
  The definition of Adler-32 in RFC 1950: two running sums modulo the prime 65521, reduced after
  every byte, and packed into one word.
\<close>

fun adler_spec :: "nat \<times> nat \<Rightarrow> byte list \<Rightarrow> nat \<times> nat" where
  "adler_spec st [] = st"
| "adler_spec (a, s) (b # bs) =
     adler_spec ((a + unat b) mod 65521, (s + (a + unat b)) mod 65521) bs"

definition pack_sums :: "nat \<times> nat \<Rightarrow> u32" where
  "pack_sums st = of_nat (fst st) OR push_bit 16 (of_nat (snd st))"

definition sums_of :: "u32 \<Rightarrow> nat \<times> nat" where
  "sums_of adler = (unat (adler AND 0xffff), unat (drop_bit 16 adler AND 0xffff))"

definition valid_sums :: "nat \<times> nat \<Rightarrow> bool" where
  "valid_sums st \<longleftrightarrow> fst st < 65521 \<and> snd st < 65521"

text \<open>The sums without any reduction, as plain numbers.\<close>

fun raw_sums :: "nat \<times> nat \<Rightarrow> byte list \<Rightarrow> nat \<times> nat" where
  "raw_sums st [] = st"
| "raw_sums (a, s) (b # bs) = raw_sums (a + unat b, s + (a + unat b)) bs"

lemma raw_sums_append: "raw_sums st (xs @ ys) = raw_sums (raw_sums st xs) ys"
  by (induction st xs rule: raw_sums.induct) auto

lemma adler_spec_append: "adler_spec st (xs @ ys) = adler_spec (adler_spec st xs) ys"
  by (induction st xs rule: adler_spec.induct) auto

lemma raw_sums_closed:
  "fst (raw_sums (a, s) bs) = a + sum_list (map unat bs) \<and>
   snd (raw_sums (a, s) bs) = s + length bs * a + snd (raw_sums (0, 0) bs)"
proof (induction bs arbitrary: a s)
  case (Cons b bs)
  from Cons.IH [of "a + unat b" "s + (a + unat b)"] Cons.IH [of "unat b" "unat b"]
  show ?case by (simp add: algebra_simps)
qed simp

lemma adler_spec_raw:
  "adler_spec (a mod 65521, s mod 65521) bs =
   (fst (raw_sums (a, s) bs) mod 65521, snd (raw_sums (a, s) bs) mod 65521)"
proof (induction bs arbitrary: a s)
  case (Cons b bs)
  have "(a mod 65521 + unat b) mod 65521 = (a + unat b) mod 65521"
    "(s mod 65521 + (a mod 65521 + unat b)) mod 65521 = (s + (a + unat b)) mod 65521"
    by (auto intro!: mod_add_cong simp: mod_simps)
  then show ?case
    using Cons.IH [of "a + unat b" "s + (a + unat b)"] by simp
qed simp

lemma sum_list_unat_le: "sum_list (map unat (bs :: byte list)) \<le> 255 * length bs"
  by (induction bs) (use word8_le_255 in \<open>auto intro: add_mono\<close>)

lemma raw_sums_triangle: "2 * snd (raw_sums (0, 0) bs) \<le> 255 * length bs * (length bs + 1)"
proof (induction bs)
  case (Cons b bs)
  have "snd (raw_sums (0, 0) (b # bs)) = unat b + length bs * unat b + snd (raw_sums (0, 0) bs)"
    using raw_sums_closed [of "unat b" "unat b" bs] by simp
  moreover have "length bs * unat b \<le> length bs * 255"
    using word8_le_255 [of b] by (intro mult_le_mono) auto
  ultimately have "2 * snd (raw_sums (0, 0) (b # bs)) \<le> 510 + 2 * (length bs * 255) + 255 * length bs * (length bs + 1)"
    using Cons.IH word8_le_255 [of b] by linarith
  also have "\<dots> = 255 * length (b # bs) * (length (b # bs) + 1)"
    by (simp add: algebra_simps)
  finally show ?case .
qed simp

lemma raw_sums_bound:
  assumes "a < 65521" "s < 65521" "length bs \<le> 5552"
  shows "fst (raw_sums (a, s) bs) < 2 ^ 32" "snd (raw_sums (a, s) bs) < 2 ^ 32"
proof -
  let ?n = "length bs"
  have "255 * ?n * (?n + 1) \<le> 255 * 5552 * 5553"
    using assms(3) by (intro mult_le_mono) auto
  moreover have "?n * a \<le> 5552 * 65520"
    using assms by (intro mult_le_mono) auto
  ultimately show "fst (raw_sums (a, s) bs) < 2 ^ 32" "snd (raw_sums (a, s) bs) < 2 ^ 32"
    using raw_sums_closed [of a s bs] raw_sums_triangle [of bs] sum_list_unat_le [of bs] assms
    by auto
qed

section \<open>The loops compute the unreduced sums\<close>

definition words_of :: "nat \<times> nat \<Rightarrow> sums" where
  "words_of st = (of_nat (fst st), of_nat (snd st))"

lemma adler_tail_words: "adler_tail bs (words_of st) = words_of (raw_sums st bs)"
  by (induction st bs rule: raw_sums.induct) (simp_all add: words_of_def)

lemma adler_tail_append: "adler_tail (xs @ ys) st = adler_tail ys (adler_tail xs st)"
  by (induction xs st rule: adler_tail.induct) auto

lemma DO1_tail: "DO1 buf i st = adler_tail [buf ! i] st"
  by (cases st) (simp add: DO1_def Let_def)

lemma DO16_tail: "16 \<le> length buf \<Longrightarrow> DO16 buf st = adler_tail (take 16 buf) st"
proof -
  assume "16 \<le> length buf"
  then have "take 16 buf = map ((!) buf) [0..<16]"
    by (intro nth_equalityI) auto
  also have "\<dots> = concat (map (\<lambda>i. [buf ! i]) [0, 1, 2, 3, 4, 5, 6, 7, 8, 9, 10, 11, 12, 13, 14, 15])"
    by (simp add: numeral_eq_Suc)
  finally show ?thesis
    by (simp add: DO16_def DO8_def DO4_def DO2_def DO1_tail adler_tail_append
        del: adler_tail.simps(2) append_Cons append_Nil flip: adler_tail_append)
      (simp add: adler_tail_append numeral_2_eq_2 numeral_3_eq_3)
qed

lemma adler_do16_tail:
  "16 * n \<le> length buf \<Longrightarrow>
   adler_do16 n buf st = (drop (16 * n) buf, adler_tail (take (16 * n) buf) st)"
proof (induction n arbitrary: buf st)
  case (Suc n)
  have "take (16 * Suc n) buf = take 16 buf @ take (16 * n) (drop 16 buf)"
    by (metis mult_Suc_right take_add)
  with Suc show ?case
    by (simp add: DO16_tail adler_tail_append drop_drop add.commute)
qed simp

lemma adler_rest16_tail:
  "adler_rest16 buf st = (buf', st') \<Longrightarrow> adler_tail buf' st' = adler_tail buf st"
proof (induction buf st rule: adler_rest16.induct)
  case (1 buf st)
  show ?case
  proof (cases "16 \<le> length buf")
    case True
    with 1 have "adler_tail buf' st' = adler_tail (drop 16 buf) (adler_tail (take 16 buf) st)"
      by (simp add: adler_rest16.simps [of buf st] DO16_tail)
    then show ?thesis
      by (simp flip: adler_tail_append)
  qed (use "1.prems" in \<open>simp add: adler_rest16.simps [of buf st]\<close>)
qed

lemma MOD_of_nat: "x < 2 ^ 32 \<Longrightarrow> MOD (of_nat x) = of_nat (x mod 65521)"
  by (simp add: MOD_def BASE_def word_arith_nat_mod unat_of_nat)

lemma MOD_words:
  assumes "valid_sums st" "length bs \<le> 5552"
  shows "(MOD (fst (words_of (raw_sums st bs))), MOD (snd (words_of (raw_sums st bs)))) =
    words_of (adler_spec st bs)"
  using assms raw_sums_bound [of "fst st" "snd st" bs] adler_spec_raw [of "fst st" "snd st" bs]
  by (auto simp: words_of_def valid_sums_def MOD_of_nat)

lemma valid_adler_spec: "valid_sums st \<Longrightarrow> valid_sums (adler_spec st bs)"
  by (induction st bs rule: adler_spec.induct) (auto simp: valid_sums_def)

lemma adler_nmax_spec:
  "valid_sums st \<Longrightarrow> adler_nmax buf (words_of st) = (buf', w) \<Longrightarrow>
   length buf' < 5552 \<and> (\<exists>xs. buf = xs @ buf' \<and> w = words_of (adler_spec st xs))"
proof (induction "length buf" arbitrary: buf st rule: less_induct)
  case less
  show ?case
  proof (cases "5552 \<le> length buf")
    case True
    let ?xs = "take 5552 buf"
    have "adler_do16 347 buf (words_of st) = (drop 5552 buf, words_of (raw_sums st ?xs))"
      using True adler_do16_tail [of 347 buf "words_of st"] by (simp add: adler_tail_words)
    then have "adler_nmax buf (words_of st) = adler_nmax (drop 5552 buf) (words_of (adler_spec st ?xs))"
      using True less.prems(1) MOD_words [of st ?xs]
      by (subst adler_nmax.simps) (simp add: NMAX_def Let_def)
    moreover have "length (drop 5552 buf) < length buf" using True by simp
    ultimately obtain ys where "length buf' < 5552" "drop 5552 buf = ys @ buf'"
      "w = words_of (adler_spec (adler_spec st ?xs) ys)"
      using less.hyps [of "drop 5552 buf" "adler_spec st ?xs"] less.prems valid_adler_spec by auto
    moreover from this have "buf = (?xs @ ys) @ buf'"
      by (metis append.assoc append_take_drop_id)
    ultimately show ?thesis
      by (auto simp: adler_spec_append intro!: exI [of _ "?xs @ ys"])
  next
    case False
    with less.prems show ?thesis
      by (subst (asm) adler_nmax.simps) (auto simp: NMAX_def intro!: exI [of _ "[]"])
  qed
qed

lemma cond_sub_BASE:
  "x < 2 * 65521 \<Longrightarrow> (if BASE \<le> of_nat x then of_nat x - BASE else of_nat x) = of_nat (x mod 65521)"
proof -
  assume x: "x < 2 * 65521"
  then have "BASE \<le> of_nat x \<longleftrightarrow> 65521 \<le> x"
    by (simp add: BASE_def word_le_nat_alt unat_of_nat)
  moreover have "65521 \<le> x \<Longrightarrow> (of_nat x :: u32) - BASE = of_nat (x - 65521)"
    by (simp add: BASE_def of_nat_diff)
  ultimately show ?thesis
    using x by (auto simp: le_mod_geq)
qed

lemma sums_of_words: "words_of (sums_of adler) = (adler AND 0xffff, drop_bit 16 adler AND 0xffff)"
  by (simp add: words_of_def sums_of_def)

lemma valid_sums_lt: "valid_sums st \<Longrightarrow> fst st < 65521 \<and> snd st < 65521"
  by (simp add: valid_sums_def)

lemma adler_short:
  assumes "valid_sums st" "length buf < 16"
  shows "(let (adler, sum2) = adler_tail buf (words_of st);
              adler = (if BASE \<le> adler then adler - BASE else adler);
              sum2 = MOD sum2
          in adler OR push_bit 16 sum2) = pack_sums (adler_spec st buf)"
proof -
  let ?a = "fst (raw_sums st buf)" and ?s = "snd (raw_sums st buf)"
  have "?a < 2 * 65521" "?s < 2 ^ 32"
    using assms raw_sums_closed [of "fst st" "snd st" buf] sum_list_unat_le [of buf]
      raw_sums_bound [of "fst st" "snd st" buf] by (auto simp: valid_sums_def)
  then show ?thesis
    using assms(1) adler_spec_raw [of "fst st" "snd st" buf] cond_sub_BASE [of ?a]
    by (simp add: adler_tail_words) (simp add: words_of_def pack_sums_def MOD_of_nat valid_sums_def)
qed

lemma adler_single:
  assumes "valid_sums (a, s)"
  shows "(let adler = of_nat a + ucast (b :: byte);
              adler = (if BASE \<le> adler then adler - BASE else adler);
              sum2 = of_nat s + adler;
              sum2 = (if BASE \<le> sum2 then sum2 - BASE else sum2)
          in adler OR push_bit 16 sum2) = pack_sums (adler_spec (a, s) [b])"
proof -
  let ?a' = "(a + unat b) mod 65521"
  have e: "of_nat a + (ucast b :: u32) = of_nat (a + unat b)"
    "of_nat s + (of_nat ?a' :: u32) = of_nat (s + ?a')"
    by simp_all
  have "a + unat b < 2 * 65521" "s + ?a' < 2 * 65521"
    using assms word8_le_255 [of b] by (auto simp: valid_sums_def)
  then have c: "(if BASE \<le> of_nat (a + unat b) then of_nat (a + unat b) - BASE else of_nat (a + unat b)) = of_nat ?a'"
    "(if BASE \<le> of_nat (s + ?a') then of_nat (s + ?a') - BASE else of_nat (s + ?a')) = of_nat ((s + ?a') mod 65521)"
    using cond_sub_BASE [of "a + unat b"] cond_sub_BASE [of "s + ?a'"] by blast+
  have "(s + ?a') mod 65521 = (s + (a + unat b)) mod 65521"
    by (simp add: mod_simps)
  then show ?thesis
    by (simp only: Let_def e c adler_spec.simps pack_sums_def fst_conv snd_conv)
qed

section \<open>Properties\<close>

text \<open>
  C21. Functional correctness of \<open>adler32\<close> on every branch (a single byte, fewer than sixteen bytes,
  unrolled blocks of \<open>NMAX\<close> bytes and their remainder): the checksum with deferred reductions on
  wrapping 32-bit sums is the one that reduces after every byte, for every buffer and every valid
  starting checksum.
\<close>

theorem adler32_correct:
  assumes "valid_sums (sums_of adler)"
  shows "adler32 adler (Some buf) = pack_sums (adler_spec (sums_of adler) buf)"
proof -
  let ?st = "sums_of adler"
  consider "length buf = 1" | "length buf \<noteq> 1" "length buf < 16" | "16 \<le> length buf" by linarith
  then show ?thesis
  proof cases
    case 1
    then obtain b where "buf = [b]" by (auto simp: length_Suc_conv)
    with assms adler_single [of "fst ?st" "snd ?st" b] sums_of_words [of adler]
    show ?thesis by (simp add: adler32_def adler32_z_def words_of_def)
  next
    case 2
    with assms adler_short [of ?st buf] sums_of_words [of adler]
    show ?thesis by (simp add: adler32_def adler32_z_def)
  next
    case 3
    obtain buf' w where nmax: "adler_nmax buf (words_of ?st) = (buf', w)"
      by (metis prod.exhaust)
    obtain xs where xs: "buf = xs @ buf'" "w = words_of (adler_spec ?st xs)" "length buf' < 5552"
      using adler_nmax_spec [OF assms nmax] by blast
    obtain buf'' w' where rest: "adler_rest16 buf' w = (buf'', w')"
      by (metis prod.exhaust)
    have "adler_tail buf'' w' = words_of (raw_sums (adler_spec ?st xs) buf')"
      using adler_rest16_tail [OF rest] xs(2) by (simp add: adler_tail_words)
    with xs MOD_words [of "adler_spec ?st xs" buf'] valid_adler_spec [OF assms]
    show ?thesis
      using 3 nmax rest
      by (auto simp: adler32_def adler32_z_def pack_sums_def words_of_def adler_spec_append
          Let_def sums_of_words [symmetric] split: prod.splits)
  qed
qed

theorem adler32_correct_witness:
  "valid_sums (sums_of 1) \<and> adler32 1 (Some [1, 2, 3]) = 0x000d0007"
proof -
  have v: "valid_sums (sums_of 1)"
    by (simp add: valid_sums_def sums_of_def)
  have "pack_sums (adler_spec (sums_of 1) [1, 2, 3]) = 0x000d0007"
    by (simp add: sums_of_def pack_sums_def)
  with v adler32_correct [OF v, of "[1, 2, 3]"] show ?thesis by simp
qed

section \<open>Combining two checksums\<close>

lemma adler_spec_closed:
  assumes "valid_sums (a, s)"
  shows "adler_spec (a, s) bs =
    ((a + sum_list (map unat bs)) mod 65521, (s + length bs * a + snd (raw_sums (0, 0) bs)) mod 65521)"
  using assms adler_spec_raw [of a s bs] raw_sums_closed [of a s bs] by (auto simp: valid_sums_def)

lemma sums_of_pack: "valid_sums st \<Longrightarrow> sums_of (pack_sums st) = st"
proof -
  assume v: "valid_sums st"
  obtain a s where st: "st = (a, s)" by (cases st)
  then have as: "a < 65521" "s < 65521" using v by (auto simp: valid_sums_def)
  define x y where "x = (of_nat a :: u32)" and "y = (of_nat s :: u32)"
  have x: "take_bit 16 x = x" "take_bit 16 y = y"
    using as by (auto simp: x_def y_def word_eq_iff_unsigned [where 'a = nat] unsigned_take_bit_eq unsigned_of_nat take_bit_nat_eq_self
        simp flip: take_bit_eq_mask intro!: take_bit_nat_eq_self)
  have "take_bit 16 (x OR push_bit 16 y) = x" "drop_bit 16 (x OR push_bit 16 y) = y"
  proof -
    have b: "bit x n \<Longrightarrow> n < 16" "bit y n \<Longrightarrow> n < 16" for n
      using x by (metis bit_take_bit_iff)+
    show "take_bit 16 (x OR push_bit 16 y) = x"
      using b by (intro bit_word_eqI) (auto simp: bit_simps)
    show "drop_bit 16 (x OR push_bit 16 y) = y"
      using b(1) b(2) by (intro bit_word_eqI) (fastforce simp: bit_simps)
  qed
  with x have "sums_of (pack_sums st) = (unat x, unat y)"
    by (simp add: sums_of_def pack_sums_def st x_def [symmetric] y_def [symmetric] and_mask_take_bit)
  then show ?thesis
    using as by (simp add: st x_def y_def unsigned_of_nat take_bit_nat_eq_self)
qed

lemma cond_sub_of_nat:
  "x < 2 ^ 32 \<Longrightarrow> k < 2 ^ 32 \<Longrightarrow>
   (if (of_nat k :: u32) \<le> of_nat x then of_nat x - of_nat k else of_nat x :: u32) = of_nat (if k \<le> x then x - k else x)"
  by (simp add: word_le_nat_alt unat_of_nat of_nat_diff)

lemma combine_sum1:
  "(a1 + a2 + 65520) mod 65521 = (a1 + t) mod 65521" if "a2 = (1 + t) mod 65521" for a1 a2 t :: nat
proof -
  have "(a1 + a2 + 65520) mod 65521 = (a1 + (1 + t) + 65520) mod 65521"
    unfolding that by (intro mod_add_cong) (simp_all add: mod_simps)
  also have "a1 + (1 + t) + 65520 = a1 + t + 65521" by simp
  finally show ?thesis by simp
qed

lemma combine_sum2:
  fixes n a1 s1 s2 t r :: nat
  assumes r: "r = n mod 65521" and s2: "s2 = (n + t) mod 65521"
  shows "(r * a1 mod 65521 + s1 + s2 + (65521 - r)) mod 65521 = (s1 + n * a1 + t) mod 65521"
proof -
  have "(r * a1 mod 65521 + s1 + s2 + (65521 - r)) mod 65521 =
      (n * a1 + s1 + (n + t) + (65521 - r)) mod 65521"
    unfolding s2 by (intro mod_add_cong) (simp_all add: r mod_simps)
  also have "n * a1 + s1 + (n + t) + (65521 - r) = (s1 + n * a1 + t) + (n + (65521 - r))" by simp
  also have "n + (65521 - r) = 65521 * (n div 65521 + 1)"
  proof -
    define q where "q = n div 65521"
    have "n = 65521 * q + r" "r < 65521" by (simp_all add: r q_def)
    then show ?thesis by (simp add: q_def [symmetric])
  qed
  also have "(s1 + n * a1 + t + 65521 * (n div 65521 + 1)) mod 65521 = (s1 + n * a1 + t) mod 65521"
    by (rule mod_mult_self2)
  finally show ?thesis .
qed

lemma mod_by_subtraction:
  "x < 3 * 65521 \<Longrightarrow> (let y = if 65521 \<le> x then x - 65521 else x in if 65521 \<le> y then y - 65521 else y) = x mod 65521"
  "x < 4 * 65521 \<Longrightarrow> (let y = if 131042 \<le> x then x - 131042 else x in if 65521 \<le> y then y - 65521 else y) = x mod 65521"
  for x :: nat
  by (auto simp: Let_def mod_if)

lemma combine_words:
  assumes "a1 < 65521" "s1 < 65521" "a2 < 65521" "s2 < 65521"
  shows "adler32_combine_impl (pack_sums (a1, s1)) (pack_sums (a2, s2)) (int n) =
    pack_sums ((a1 + a2 + 65520) mod 65521,
      (n mod 65521 * a1 mod 65521 + s1 + s2 + (65521 - n mod 65521)) mod 65521)"
proof -
  let ?r = "n mod 65521"
  let ?m = "?r * a1 mod 65521"
  let ?x = "a1 + a2 + 65520" and ?y = "?m + s1 + s2 + (65521 - ?r)"
  have parts: "pack_sums (a1, s1) AND 0xffff = of_nat a1" "drop_bit 16 (pack_sums (a1, s1)) AND 0xffff = of_nat s1"
    "pack_sums (a2, s2) AND 0xffff = of_nat a2" "drop_bit 16 (pack_sums (a2, s2)) AND 0xffff = of_nat s2"
    using assms sums_of_pack [of "(a1, s1)"] sums_of_pack [of "(a2, s2)"]
      sums_of_words [of "pack_sums (a1, s1)"] sums_of_words [of "pack_sums (a2, s2)"]
    by (simp_all add: valid_sums_def words_of_def)
  have base: "BASE = of_nat 65521" "push_bit 1 (of_nat 65521 :: u32) = of_nat 131042"
    "uint (of_nat 65521 :: u32) = 65521"
    by (simp_all add: BASE_def)
  have "?r * a1 \<le> 65520 * 65520"
    using assms by (intro mult_le_mono) auto
  then have m: "MOD (of_nat ?r * of_nat a1) = of_nat ?m"
    using MOD_of_nat [of "?r * a1"] by simp
  have sum1: "of_nat a1 + (of_nat a2 + of_nat 65521 - 1) = (of_nat ?x :: u32)" by simp
  have sum2: "of_nat ?m + (of_nat s1 + of_nat s2 + of_nat 65521 - of_nat ?r) = (of_nat ?y :: u32)"
    by (simp add: of_nat_diff)
  have len: "(int n < 0) = False" "int n mod 65521 = int ?r" "(word_of_int (int ?r) :: u32) = of_nat ?r"
    by (simp, simp add: zmod_int, rule of_int_of_nat_eq)
  let ?x' = "if 65521 \<le> ?x then ?x - 65521 else ?x" and ?y' = "if 131042 \<le> ?y then ?y - 131042 else ?y"
  have small: "?x < 3 * 65521" "?y < 4 * 65521"
    using assms mod_less_divisor [of 65521 "?r * a1"] by simp_all
  have cond: "z < 4 * 65521 \<Longrightarrow> (if k \<le> z then z - k else z) < 2 ^ 32" for z k :: nat
    by auto
  have "?x < 4 * 65521" and x': "?x < 2 ^ 32" and y': "?y < 2 ^ 32"
    using small by simp_all
  note x'' = cond [OF this(1), of 65521] and y'' = cond [OF small(2), of 131042]
  have k: "(65521 :: nat) < 2 ^ 32" "(131042 :: nat) < 2 ^ 32" by simp_all
  show ?thesis
    by (simp only: adler32_combine_impl_def Let_def base parts len m sum1 sum2 if_False
        cond_sub_of_nat [OF x' k(1)] cond_sub_of_nat [OF x'' k(1)]
        cond_sub_of_nat [OF y' k(2)] cond_sub_of_nat [OF y'' k(1)]
        mod_by_subtraction(1) [OF small(1), unfolded Let_def]
        mod_by_subtraction(2) [OF small(2), unfolded Let_def])
      (simp only: pack_sums_def fst_conv snd_conv)
qed

text \<open>
  \<open>adler32_combine\<close>: from the checksums of two buffers and the length of the second it computes
  the checksum of their concatenation.
\<close>

theorem adler32_combine_correct:
  assumes "valid_sums (sums_of adler1)"
  shows "adler32_combine (adler32 adler1 (Some xs)) (adler32 1 (Some ys)) (int (length ys)) =
    adler32 adler1 (Some (xs @ ys))"
proof -
  have one: "sums_of 1 = (1, 0)" "valid_sums (1, 0)" "valid_sums (sums_of 1)"
    by (simp_all add: sums_of_def valid_sums_def)
  obtain a1 s1 where st1: "adler_spec (sums_of adler1) xs = (a1, s1)" by (metis prod.exhaust)
  obtain a2 s2 where st2: "adler_spec (1, 0) ys = (a2, s2)" by (metis prod.exhaust)
  have v: "valid_sums (a1, s1)" "valid_sums (a2, s2)"
    using valid_adler_spec [OF assms, of xs] valid_adler_spec [OF one(2), of ys] st1 st2 by auto
  have "a2 = (1 + sum_list (map unat ys)) mod 65521" "s2 = (length ys + snd (raw_sums (0, 0) ys)) mod 65521"
    using adler_spec_closed [OF one(2), of ys] st2 by simp_all
  note sums = combine_sum1 [OF this(1)] combine_sum2 [OF refl this(2)]
  have "adler_spec (sums_of adler1) (xs @ ys) =
      ((a1 + a2 + 65520) mod 65521,
       (length ys mod 65521 * a1 mod 65521 + s1 + s2 + (65521 - length ys mod 65521)) mod 65521)"
    by (simp only: adler_spec_append st1 adler_spec_closed [OF v(1)] sums)
  with v show ?thesis
    using one st1 st2
    by (simp only: adler32_combine_def adler32_correct [OF assms] adler32_correct [OF one(3)])
      (simp add: combine_words valid_sums_def)
qed

theorem adler32_combine_witness:
  "adler32_combine (adler32 1 (Some [1, 2])) (adler32 1 (Some [3])) 1 = adler32 1 (Some [1, 2, 3])"
  using adler32_combine_correct [of 1 "[1, 2]" "[3]"] by (simp add: sums_of_def valid_sums_def)

text \<open>
  The comment on \<open>NMAX\<close>: it is the largest number of bytes whose sums, started from reduced
  values, cannot overflow an unsigned 32-bit integer.
\<close>

theorem NMAX_largest:
  "(\<forall>bs. length bs \<le> n \<longrightarrow> (\<forall>a < 65521. \<forall>s < 65521.
      fst (raw_sums (a, s) bs) < 2 ^ 32 \<and> snd (raw_sums (a, s) bs) < 2 ^ 32)) \<longleftrightarrow> n \<le> NMAX"
  (is "?safe n \<longleftrightarrow> _")
proof
  show "n \<le> NMAX \<Longrightarrow> ?safe n"
    using raw_sums_bound by (auto simp: NMAX_def)
  have worst: "2 * snd (raw_sums (0, 0) (replicate k b)) = 255 * k * (k + 1)" if "unat b = 255" for k b
  proof (induction k)
    case (Suc k)
    then show ?case
      using raw_sums_closed [of 255 255 "replicate k b"] that by (simp add: algebra_simps)
  qed simp
  define b :: byte where "b = 255"
  have b: "unat b = 255" by (simp add: b_def)
  have "\<not> snd (raw_sums (65520, 65520) (replicate 5553 b)) < 2 ^ 32"
    using worst [OF b, of 5553] raw_sums_closed [of 65520 65520 "replicate 5553 b"] by simp
  then have bad: "\<not> ?safe m" if "5553 \<le> m" for m
    using that by (intro notI) (auto dest!: spec [of _ "replicate 5553 b"])
  assume "?safe n"
  with bad [of n] have "\<not> 5553 \<le> n" by blast
  then show "n \<le> NMAX" by (simp add: NMAX_def)
qed

theorem NMAX_largest_witness:
  "snd (raw_sums (65520, 65520) (replicate 5552 (255 :: byte))) < 2 ^ 32"
  using NMAX_largest [of 5552] by (simp add: NMAX_def)

end
