(* ===== verification/CrcCore.thy ===== *)
theory CrcCore
  imports Prelude
begin

unbundle bit_operations_syntax

text \<open>
  The arithmetic behind both cyclic redundancy checks of the code base (\<open>zlib/crc32.c\<close> and
  \<open>leveldb-mcpe/util/crc32c.cc\<close>). It holds the bit-serial reference (a reflected shift register, one
  bit at a time, for any 32-bit polynomial), its linearity over exclusive or, and the interface
  \<open>crc_tables\<close>: what the four lookup tables must contain for the byte-at-a-time and the
  four-bytes-at-a-time loops to compute the reference. The component theories interpret that
  interface with the tables printed in the sources.
\<close>

section \<open>The bit-serial reference\<close>

definition crc_bit :: "u32 \<Rightarrow> u32 \<Rightarrow> u32" where
  "crc_bit poly c = (if c AND 1 \<noteq> 0 then poly XOR drop_bit 1 c else drop_bit 1 c)"

definition crc_bits :: "u32 \<Rightarrow> nat \<Rightarrow> u32 \<Rightarrow> u32" where
  "crc_bits poly n c = (crc_bit poly ^^ n) c"

definition crc_byte :: "u32 \<Rightarrow> u32 \<Rightarrow> byte \<Rightarrow> u32" where
  "crc_byte poly c b = crc_bits poly 8 (c XOR ucast b)"

fun crc_run :: "u32 \<Rightarrow> u32 \<Rightarrow> byte list \<Rightarrow> u32" where
  "crc_run poly c [] = c"
| "crc_run poly c (b # bs) = crc_run poly (crc_byte poly c b) bs"

lemma crc_run_append: "crc_run poly c (xs @ ys) = crc_run poly (crc_run poly c xs) ys"
  by (induction poly c xs rule: crc_run.induct) auto

section \<open>Linearity\<close>

lemma and_1_bit: "(c :: 'a::len word) AND 1 \<noteq> 0 \<longleftrightarrow> bit c 0"
  using and_exp_eq_0_iff_not_bit [of c 0] by simp

lemma drop_bit_xor_word: "drop_bit n (x XOR y) = drop_bit n x XOR drop_bit n (y :: 'a::len word)"
  by (rule bit_word_eqI) (auto simp: bit_simps)

lemma push_bit_xor_word: "push_bit n (x XOR y) = push_bit n x XOR push_bit n (y :: 'a::len word)"
  by (rule bit_word_eqI) (auto simp: bit_simps)

lemma crc_bit_xor: "crc_bit poly (x XOR y) = crc_bit poly x XOR crc_bit poly y"
  by (auto simp: crc_bit_def and_1_bit drop_bit_xor_word bit_simps xor.assoc xor.left_commute)

lemma crc_bit_0 [simp]: "crc_bit poly 0 = 0"
  by (simp add: crc_bit_def)

lemma crc_bits_xor: "crc_bits poly n (x XOR y) = crc_bits poly n x XOR crc_bits poly n y"
  by (induction n) (simp_all add: crc_bits_def crc_bit_xor)

lemma crc_bits_zero [simp]: "crc_bits poly n 0 = 0"
  by (induction n) (simp_all add: crc_bits_def)

lemma crc_bits_0 [simp]: "crc_bits poly 0 x = x"
  by (simp add: crc_bits_def)

lemma crc_bits_add: "crc_bits poly (m + n) x = crc_bits poly m (crc_bits poly n x)"
  by (simp add: crc_bits_def funpow_add)

lemma crc_bits_Suc: "crc_bits poly (Suc n) x = crc_bits poly n (crc_bit poly x)"
  using crc_bits_add [of poly n 1 x] by (simp add: crc_bits_def)

text \<open>A register whose low \<open>n\<close> bits are zero is only shifted.\<close>

lemma crc_bit_even: "\<not> bit c 0 \<Longrightarrow> crc_bit poly c = drop_bit 1 c"
  by (simp add: crc_bit_def and_1_bit)

lemma crc_bits_low_zero:
  "(\<And>i. i < n \<Longrightarrow> \<not> bit c i) \<Longrightarrow> crc_bits poly n c = drop_bit n c"
proof (induction n arbitrary: c)
  case (Suc n)
  have "crc_bits poly (Suc n) c = crc_bits poly n (drop_bit 1 c)"
    using Suc.prems [of 0] by (simp add: crc_bits_Suc crc_bit_even)
  also have "\<dots> = drop_bit n (drop_bit 1 c)"
    using Suc.prems by (intro Suc.IH) (auto simp: bit_simps)
  finally show ?case by (simp add: drop_bit_drop_bit)
qed simp

lemma crc_bits_push:
  assumes "\<And>i. 32 \<le> n + i \<Longrightarrow> \<not> bit x i"
  shows "crc_bits poly n (push_bit n x) = x"
proof -
  have "drop_bit n (push_bit n x) = x"
    using assms by (intro bit_word_eqI) (auto simp: bit_simps not_less [symmetric])
  then show ?thesis
    by (simp add: crc_bits_low_zero bit_simps)
qed

lemma bit_byte_beyond: "8 \<le> i \<Longrightarrow> \<not> bit (b :: byte) i"
  using bit_imp_le_length [of b i] by auto

lemma bit_ucast_byte: "bit (ucast (b :: byte) :: u32) i \<Longrightarrow> i < 8"
  by (auto simp: bit_simps dest: bit_imp_le_length)

lemma crc_bits_byte:
  "n \<le> 24 \<Longrightarrow> crc_bits poly n (push_bit n (ucast (b :: byte))) = ucast b"
  using bit_ucast_byte [of b] by (intro crc_bits_push) fastforce

text \<open>Starting the register at a value adds the effect of as many zero bits.\<close>

lemma crc_run_linear:
  "crc_run poly (x XOR y) bs = crc_bits poly (8 * length bs) x XOR crc_run poly y bs"
proof (induction bs arbitrary: x y)
  case (Cons b bs)
  have "crc_byte poly (x XOR y) b = crc_bits poly 8 x XOR crc_byte poly y b"
    by (simp add: crc_byte_def crc_bits_xor xor.assoc)
  with Cons show ?case
    using crc_bits_add [of poly "8 * length bs" 8 x] by (simp add: add.commute)
qed simp

lemma xor_ones: "x XOR 0xffffffff = NOT (x :: u32)"
proof -
  have ones: "(0xffffffff :: u32) = - 1" by simp
  show ?thesis
    unfolding ones by (rule bit_word_eqI) (simp add: bit_simps)
qed

section \<open>Four bytes at once\<close>

lemma crc_run_four:
  "crc_run poly c [b0, b1, b2, b3] = crc_bits poly 32 (c XOR word_of_bytes [b0, b1, b2, b3])"
proof -
  have s: "crc_bits poly 8 (push_bit 8 (ucast b1)) = ucast b1"
    "crc_bits poly 16 (push_bit 16 (ucast b2)) = ucast b2"
    "crc_bits poly 24 (push_bit 24 (ucast b3)) = ucast b3"
    by (simp_all add: crc_bits_byte)
  have w: "(word_of_bytes [b0, b1, b2, b3] :: u32) =
      ucast b0 XOR push_bit 8 (ucast b1) XOR push_bit 16 (ucast b2) XOR push_bit 24 (ucast b3)"
  proof (rule bit_word_eqI)
    fix i assume "i < LENGTH(32)"
    then consider "i < 8" | "8 \<le> i" "i < 16" | "16 \<le> i" "i < 24" | "24 \<le> i" "i < 32" by fastforce
    then show "bit (word_of_bytes [b0, b1, b2, b3] :: u32) i =
        bit (ucast b0 XOR push_bit 8 (ucast b1) XOR push_bit 16 (ucast b2) XOR push_bit 24 (ucast b3) :: u32) i"
      by cases (simp_all add: bit_simps bit_byte_beyond)
  qed
  have a: "crc_bits poly 32 x = crc_bits poly 24 (crc_bits poly 8 x)"
    "crc_bits poly 24 x = crc_bits poly 8 (crc_bits poly 16 x)"
    "crc_bits poly 16 x = crc_bits poly 8 (crc_bits poly 8 x)" for x
    using crc_bits_add [of poly 24 8 x] crc_bits_add [of poly 8 16 x] crc_bits_add [of poly 8 8 x] by simp_all
  have b: "crc_bits poly 32 x = crc_bits poly 16 (crc_bits poly 16 x)"
    "crc_bits poly 32 x = crc_bits poly 8 (crc_bits poly 24 x)" for x
    using crc_bits_add [of poly 16 16 x] crc_bits_add [of poly 8 24 x] by simp_all
  have "crc_bits poly 32 (c XOR word_of_bytes [b0, b1, b2, b3]) =
      crc_bits poly 32 (c XOR ucast b0) XOR crc_bits poly 24 (ucast b1) XOR
      crc_bits poly 16 (ucast b2) XOR crc_bits poly 8 (ucast b3)"
    unfolding w crc_bits_xor
    using a(1) [of "push_bit 8 (ucast b1)"] b(1) [of "push_bit 16 (ucast b2)"] b(2) [of "push_bit 24 (ucast b3)"] s
    by (simp add: xor.assoc)
  also have "\<dots> = crc_run poly c [b0, b1, b2, b3]"
    by (simp add: crc_byte_def crc_bits_xor xor.assoc flip: crc_bits_add)
  finally show ?thesis ..
qed

section \<open>Lookup tables\<close>

text \<open>
  A table of a linear function on bytes is determined by its entries at the powers of two: it is
  the span \<open>xor_span\<close> of those eight entries, which is cheap to check on the printed tables.
\<close>

fun xor_span :: "u32 list \<Rightarrow> u32 list \<Rightarrow> u32 list" where
  "xor_span acc [] = acc"
| "xor_span acc (b # bs) = xor_span (acc @ map (\<lambda>x. x XOR b) acc) bs"

lemma of_nat_xor_power:
  "n < 2 ^ k \<Longrightarrow> k < 32 \<Longrightarrow> (of_nat (n + 2 ^ k) :: u32) = of_nat n XOR 2 ^ k"
proof -
  assume *: "n < 2 ^ k" "k < 32"
  have "take_bit k (of_nat n :: u32) = of_nat n"
    using * by (metis of_nat_take_bit take_bit_nat_eq_self)
  then have "\<not> bit (of_nat n :: u32) k"
    by (metis bit_take_bit_iff less_irrefl)
  then have "(of_nat n :: u32) AND 2 ^ k = 0"
    by (simp add: and_exp_eq_0_iff_not_bit)
  then show ?thesis
    by (simp add: disjunctive_add_eq_xor)
qed

lemma xor_span_nth:
  fixes f :: "u32 \<Rightarrow> u32"
  assumes lin: "\<And>x y. f (x XOR y) = f x XOR f y"
  shows "length acc = 2 ^ k \<Longrightarrow> (\<And>n. n < 2 ^ k \<Longrightarrow> acc ! n = f (of_nat n)) \<Longrightarrow> k + m \<le> 32 \<Longrightarrow>
    n < 2 ^ (k + m) \<Longrightarrow> xor_span acc (map (\<lambda>i. f (2 ^ i)) [k..<k + m]) ! n = f (of_nat n)"
proof (induction m arbitrary: k acc)
  case (Suc m)
  let ?acc = "acc @ map (\<lambda>x. x XOR f (2 ^ k)) acc"
  have "?acc ! i = f (of_nat i)" if i: "i < 2 ^ Suc k" for i
  proof (cases "i < 2 ^ k")
    case False
    then obtain j where j: "i = j + 2 ^ k" "j < 2 ^ k"
      using i le_Suc_ex [of "2 ^ k" i] by (auto simp: add.commute)
    then have "?acc ! i = f (of_nat j) XOR f (2 ^ k)"
      using Suc.prems by (simp add: nth_append)
    also have "\<dots> = f (of_nat i)"
      using j Suc.prems(3) of_nat_xor_power [of j k] by (simp add: lin [symmetric])
    finally show ?thesis .
  qed (use Suc.prems in \<open>simp add: nth_append\<close>)
  moreover have "map (\<lambda>i. f (2 ^ i)) [k..<k + Suc m] = f (2 ^ k) # map (\<lambda>i. f (2 ^ i)) [Suc k..<Suc k + m]"
    by (simp add: upt_conv_Cons del: upt_Suc)
  ultimately show ?case
    using Suc.IH [of ?acc "Suc k"] Suc.prems by simp
qed simp

lemma linear_table:
  fixes f :: "u32 \<Rightarrow> u32"
  assumes "\<And>x y. f (x XOR y) = f x XOR f y"
    and "t = xor_span [0] [f 1, f 2, f 4, f 8, f 16, f 32, f 64, f 128]" and "n < 256"
  shows "t ! n = f (of_nat n)"
proof -
  have "f 0 = 0" using assms(1) [of 0 0] by simp
  moreover have "[0..<0 + 8] = [0, 1, 2, 3, 4, 5, 6, 7 :: nat]" by code_simp
  then have "map (\<lambda>i. f (2 ^ i)) [0..<0 + 8] = [f 1, f 2, f 4, f 8, f 16, f 32, f 64, f 128]"
    by (simp only: list.map) simp
  ultimately show ?thesis
    using xor_span_nth [OF assms(1), of "[0]" 0 8 n] assms(2,3) by simp
qed

locale crc_tables =
  fixes poly :: u32 and t0 t1 t2 t3 :: "u32 list"
  assumes t0: "n < 256 \<Longrightarrow> t0 ! n = crc_bits poly 8 (of_nat n)"
    and t1: "n < 256 \<Longrightarrow> t1 ! n = crc_bits poly 16 (of_nat n)"
    and t2: "n < 256 \<Longrightarrow> t2 ! n = crc_bits poly 24 (of_nat n)"
    and t3: "n < 256 \<Longrightarrow> t3 ! n = crc_bits poly 32 (of_nat n)"
begin

lemma unat_and_255_less: "unat (x AND 255 :: u32) < 256"
  using word_and_le1 [of x 255] by (simp add: word_le_nat_alt)

lemma table_byte:
  "t0 ! unat ((c XOR ucast b) AND 255) XOR drop_bit 8 c = crc_byte poly c b"
proof -
  let ?x = "c XOR ucast b"
  have split: "?x = (?x AND 255) XOR push_bit 8 (drop_bit 8 c)"
    by (intro bit_word_eqI) (auto simp: and_mask_take_bit bit_simps not_less bit_byte_beyond)
  have "crc_bits poly 8 (push_bit 8 (drop_bit 8 c)) = drop_bit 8 c"
    by (intro crc_bits_push) (auto simp: bit_simps dest: bit_imp_le_length)
  then have "crc_byte poly c b = crc_bits poly 8 (?x AND 255) XOR drop_bit 8 c"
    by (metis crc_byte_def split crc_bits_xor)
  then show ?thesis
    by (simp add: t0 unat_and_255_less)
qed

lemma table_word:
  "t3 ! unat (x AND 255) XOR t2 ! unat (drop_bit 8 x AND 255) XOR
   t1 ! unat (drop_bit 16 x AND 255) XOR t0 ! unat (drop_bit 24 x) = crc_bits poly 32 x"
proof -
  let ?a = "x AND 255" and ?b = "drop_bit 8 x AND 255" and ?c = "drop_bit 16 x AND 255" and ?d = "drop_bit 24 x"
  have d: "?d = drop_bit 24 x AND 255"
    by (intro bit_word_eqI) (auto simp: and_mask_take_bit bit_simps dest: bit_imp_le_length)
  have split: "x = ?a XOR push_bit 8 ?b XOR push_bit 16 ?c XOR push_bit 24 ?d"
    by (intro bit_word_eqI) (auto simp: and_mask_take_bit bit_simps not_less)
  have hi: "bit (y AND 255 :: u32) i \<Longrightarrow> i < 8" for y i
    by (auto simp: and_mask_take_bit bit_simps)
  have "crc_bits poly 8 (push_bit 8 (y AND 255)) = y AND 255"
    "crc_bits poly 16 (push_bit 16 (y AND 255)) = y AND 255"
    "crc_bits poly 24 (push_bit 24 (y AND 255)) = y AND 255" for y
    using hi [of y] by (intro crc_bits_push; fastforce)+
  note s = this(1) [of "drop_bit 8 x"] this(2) [of "drop_bit 16 x"] this(3) [of "drop_bit 24 x", folded d]
  have p: "crc_bits poly 32 (push_bit 8 ?b) = crc_bits poly 24 ?b"
    "crc_bits poly 32 (push_bit 16 ?c) = crc_bits poly 16 ?c"
    "crc_bits poly 32 (push_bit 24 ?d) = crc_bits poly 8 ?d"
    using crc_bits_add [of poly 24 8 "push_bit 8 ?b"] crc_bits_add [of poly 16 16 "push_bit 16 ?c"]
      crc_bits_add [of poly 8 24 "push_bit 24 ?d"] s by simp_all
  have "crc_bits poly 32 x = crc_bits poly 32 ?a XOR crc_bits poly 24 ?b XOR crc_bits poly 16 ?c XOR crc_bits poly 8 ?d"
    by (subst split) (simp only: crc_bits_xor p)
  moreover have "unat ?d < 256"
    using unat_and_255_less [of "drop_bit 24 x"] by (simp only: d [symmetric])
  ultimately show ?thesis
    by (simp add: t0 t1 t2 t3 unat_and_255_less)
qed

lemma table_four:
  assumes "x = c XOR word_of_bytes [b0, b1, b2, b3]"
  shows "t3 ! unat (x AND 255) XOR t2 ! unat (drop_bit 8 x AND 255) XOR
    t1 ! unat (drop_bit 16 x AND 255) XOR t0 ! unat (drop_bit 24 x) = crc_run poly c [b0, b1, b2, b3]"
  unfolding table_word crc_run_four assms ..

end

end
