(* ===== verification/Crc32.thy ===== *)
theory Crc32
  imports Crc32Tables
begin

unbundle bit_operations_syntax

text \<open>
  Model of \<open>zlib/crc32.c\<close>: the generator of the tables (\<open>make_crc_table\<close>), the checksum loops for
  little-endian and big-endian machines (\<open>crc32_little\<close>, \<open>crc32_big\<close>) and for machines without the
  four-byte access, and the combination of two checksums by powers of a bit matrix. Both
  \<open>unsigned long\<close> and \<open>z_crc_t\<close> are 32 bits wide. The byte order of the machine, whether
  \<open>sizeof(void *) == sizeof(ptrdiff_t)\<close>, and the address of the buffer (which decides where the aligned
  part begins) are arguments.
\<close>

section \<open>Generating the tables\<close>

definition crc_p :: "nat list" where
  "crc_p = [0, 1, 2, 4, 5, 7, 8, 10, 11, 12, 16, 22, 23, 26]"

fun crc_poly :: "nat list \<Rightarrow> u32 \<Rightarrow> u32" where
  "crc_poly [] poly = poly"
| "crc_poly (p # ps) poly = crc_poly ps (poly OR push_bit (31 - p) 1)"

fun crc_entry :: "u32 \<Rightarrow> nat \<Rightarrow> u32 \<Rightarrow> u32" where
  "crc_entry poly 0 c = c"
| "crc_entry poly (Suc k) c =
     crc_entry poly k (if c AND 1 \<noteq> 0 then poly XOR drop_bit 1 c else drop_bit 1 c)"

definition ZSWAP32 :: "u32 \<Rightarrow> u32" where
  "ZSWAP32 q =
     (drop_bit 24 q AND 0xff) + (drop_bit 8 q AND 0xff00) +
     push_bit 8 (q AND 0xff00) + push_bit 24 (q AND 0xff)"

fun crc_followed :: "u32 list \<Rightarrow> nat \<Rightarrow> u32 \<Rightarrow> u32" where
  "crc_followed t0 0 c = c"
| "crc_followed t0 (Suc k) c = crc_followed t0 k (t0 ! unat (c AND 0xff) XOR drop_bit 8 c)"

definition make_crc_table :: "u32 list list" where
  "make_crc_table =
     (let poly = crc_poly crc_p 0;
          t0 = map (\<lambda>n. crc_entry poly 8 (of_nat n)) [0..<256];
          row = (\<lambda>k. map (\<lambda>n. crc_followed t0 k (t0 ! n)) [0..<256])
      in [t0, row 1, row 2, row 3,
          map ZSWAP32 t0, map ZSWAP32 (row 1), map ZSWAP32 (row 2), map ZSWAP32 (row 3)])"

definition get_crc_table :: "u32 list list" where
  "get_crc_table = crc_table"

section \<open>The checksum loops\<close>

text \<open>\<open>DO1\<close> of the byte-wise loop and the bodies of the two four-byte loops.\<close>

definition crc_do1 :: "u32 \<Rightarrow> byte \<Rightarrow> u32" where
  "crc_do1 crc b = crc_table ! 0 ! unat ((crc XOR ucast b) AND 0xff) XOR drop_bit 8 crc"

definition DOLIT4 :: "u32 \<Rightarrow> byte list \<Rightarrow> u32" where
  "DOLIT4 c buf =
     (let c = c XOR word_of_bytes (take 4 buf) in
      crc_table ! 3 ! unat (c AND 0xff) XOR crc_table ! 2 ! unat (drop_bit 8 c AND 0xff) XOR
      crc_table ! 1 ! unat (drop_bit 16 c AND 0xff) XOR crc_table ! 0 ! unat (drop_bit 24 c))"

definition crc_do1_big :: "u32 \<Rightarrow> byte \<Rightarrow> u32" where
  "crc_do1_big c b = crc_table ! 4 ! unat (drop_bit 24 c XOR ucast b) XOR push_bit 8 c"

definition DOBIG4 :: "u32 \<Rightarrow> byte list \<Rightarrow> u32" where
  "DOBIG4 c buf =
     (let c = c XOR word_of_bytes (rev (take 4 buf)) in
      crc_table ! 4 ! unat (c AND 0xff) XOR crc_table ! 5 ! unat (drop_bit 8 c AND 0xff) XOR
      crc_table ! 6 ! unat (drop_bit 16 c AND 0xff) XOR crc_table ! 7 ! unat (drop_bit 24 c))"

text \<open>
  The loops, with the body as an argument: byte by byte until the address is a multiple of four,
  \<open>n\<close> times four bytes (the unrolled \<open>DOLIT32\<close>, \<open>DOBIG32\<close>), 32 bytes at a time, four bytes at a time,
  and byte by byte.
\<close>

fun crc_align :: "(u32 \<Rightarrow> byte \<Rightarrow> u32) \<Rightarrow> nat \<Rightarrow> u32 \<Rightarrow> byte list \<Rightarrow> u32 \<times> byte list" where
  "crc_align step1 addr c [] = (c, [])"
| "crc_align step1 addr c (b # buf) =
     (if addr mod 4 \<noteq> 0 then crc_align step1 (Suc addr) (step1 c b) buf else (c, b # buf))"

fun crc_words :: "(u32 \<Rightarrow> byte list \<Rightarrow> u32) \<Rightarrow> nat \<Rightarrow> u32 \<Rightarrow> byte list \<Rightarrow> u32 \<times> byte list" where
  "crc_words step4 0 c buf = (c, buf)"
| "crc_words step4 (Suc n) c buf = crc_words step4 n (step4 c buf) (drop 4 buf)"

lemma length_crc_words: "length (snd (crc_words step4 n c buf)) = length buf - 4 * n"
  by (induction n arbitrary: c buf) simp_all

function crc_loop32 :: "(u32 \<Rightarrow> byte list \<Rightarrow> u32) \<Rightarrow> u32 \<Rightarrow> byte list \<Rightarrow> u32 \<times> byte list" where
  "crc_loop32 step4 c buf =
     (if 32 \<le> length buf
      then crc_loop32 step4 (fst (crc_words step4 8 c buf)) (snd (crc_words step4 8 c buf))
      else (c, buf))"
  by pat_completeness auto
termination
  by (relation "measure (\<lambda>(f, c, buf). length buf)") (auto simp: length_crc_words split_beta)

function crc_loop4 :: "(u32 \<Rightarrow> byte list \<Rightarrow> u32) \<Rightarrow> u32 \<Rightarrow> byte list \<Rightarrow> u32 \<times> byte list" where
  "crc_loop4 step4 c buf =
     (if 4 \<le> length buf then crc_loop4 step4 (step4 c buf) (drop 4 buf) else (c, buf))"
  by pat_completeness auto
termination
  by (relation "measure (\<lambda>(f, c, buf). length buf)") auto

fun crc_bytes :: "(u32 \<Rightarrow> byte \<Rightarrow> u32) \<Rightarrow> u32 \<Rightarrow> byte list \<Rightarrow> u32" where
  "crc_bytes step1 c [] = c"
| "crc_bytes step1 c (b # buf) = crc_bytes step1 (step1 c b) buf"

declare crc_loop32.simps [simp del] crc_loop4.simps [simp del]

definition crc32_little :: "nat \<Rightarrow> u32 \<Rightarrow> byte list \<Rightarrow> u32" where
  "crc32_little addr crc buf =
     (let c = NOT crc;
          (c, buf) = crc_align crc_do1 addr c buf;
          (c, buf) = crc_loop32 DOLIT4 c buf;
          (c, buf) = crc_loop4 DOLIT4 c buf
      in NOT (crc_bytes crc_do1 c buf))"

definition crc32_big :: "nat \<Rightarrow> u32 \<Rightarrow> byte list \<Rightarrow> u32" where
  "crc32_big addr crc buf =
     (let c = NOT (ZSWAP32 crc);
          (c, buf) = crc_align crc_do1_big addr c buf;
          (c, buf) = crc_loop32 DOBIG4 c buf;
          (c, buf) = crc_loop4 DOBIG4 c buf
      in ZSWAP32 (NOT (crc_bytes crc_do1_big c buf)))"

text \<open>The loop \<open>while (len >= 8) { DO8; len -= 8; }\<close> of the byte-wise variant.\<close>

function crc_do8 :: "u32 \<Rightarrow> byte list \<Rightarrow> u32 \<times> byte list" where
  "crc_do8 crc buf =
     (if 8 \<le> length buf then crc_do8 (crc_bytes crc_do1 crc (take 8 buf)) (drop 8 buf) else (crc, buf))"
  by pat_completeness auto
termination
  by (relation "measure (\<lambda>(c, buf). length buf)") auto

declare crc_do8.simps [simp del]

definition crc32_z :: "bool \<Rightarrow> bool \<Rightarrow> nat \<Rightarrow> u32 \<Rightarrow> byte list option \<Rightarrow> u32" where
  "crc32_z byfour little addr crc buf_opt =
     (case buf_opt of
        None \<Rightarrow> 0
      | Some buf \<Rightarrow>
          if byfour then (if little then crc32_little addr crc buf else crc32_big addr crc buf)
          else
            let crc = crc XOR 0xffffffff;
                (crc, buf) = crc_do8 crc buf
            in crc_bytes crc_do1 crc buf XOR 0xffffffff)"

definition crc32 :: "bool \<Rightarrow> bool \<Rightarrow> nat \<Rightarrow> u32 \<Rightarrow> byte list option \<Rightarrow> u32" where
  "crc32 byfour little addr crc buf = crc32_z byfour little addr crc buf"

section \<open>Combining two checksums\<close>

function gf2_matrix_loop :: "u32 list \<Rightarrow> u32 \<Rightarrow> u32 \<Rightarrow> u32" where
  "gf2_matrix_loop mat vec acc =
     (if vec \<noteq> 0
      then gf2_matrix_loop (drop 1 mat) (drop_bit 1 vec) (if vec AND 1 \<noteq> 0 then acc XOR mat ! 0 else acc)
      else acc)"
  by pat_completeness auto
termination
  by (relation "measure (\<lambda>(mat, vec, acc). unat vec)")
    (auto simp: unat_drop_bit_div unat_gt_0 simp del: drop_bit_eq_div)

declare gf2_matrix_loop.simps [simp del]

definition gf2_matrix_times :: "u32 list \<Rightarrow> u32 \<Rightarrow> u32" where
  "gf2_matrix_times mat vec = gf2_matrix_loop mat vec 0"

definition gf2_matrix_square :: "u32 list \<Rightarrow> u32 list" where
  "gf2_matrix_square mat = map (\<lambda>n. gf2_matrix_times mat (mat ! n)) [0..<32]"

definition crc_odd_init :: "u32 list" where
  "crc_odd_init = 0xedb88320 # map (\<lambda>n. push_bit n 1) [0..<31]"

text \<open>
  The loop of \<open>crc32_combine_\<close>; the argument is the operator in \<open>odd\<close>. Its body squares into
  \<open>even\<close>, applies it, and squares back into \<open>odd\<close>, leaving the loop when no bits of \<open>len2\<close> are left
  (\<open>len2\<close> is positive here, so it is a natural number).
\<close>

function crc_combine_loop :: "u32 list \<Rightarrow> u32 \<Rightarrow> nat \<Rightarrow> u32" where
  "crc_combine_loop odd_op crc1 len2 =
     (let even_op = gf2_matrix_square odd_op;
          crc1 = (if len2 AND 1 \<noteq> 0 then gf2_matrix_times even_op crc1 else crc1);
          len2 = drop_bit 1 len2
      in if len2 = 0 then crc1
         else
           let odd_op = gf2_matrix_square even_op;
               crc1 = (if len2 AND 1 \<noteq> 0 then gf2_matrix_times odd_op crc1 else crc1);
               len2 = drop_bit 1 len2
           in if len2 = 0 then crc1 else crc_combine_loop odd_op crc1 len2)"
  by pat_completeness auto
termination
  by (relation "measure (\<lambda>(m, c, len2). len2)") (auto simp: drop_bit_eq_div)

declare crc_combine_loop.simps [simp del]

definition crc32_combine_impl :: "u32 \<Rightarrow> u32 \<Rightarrow> int \<Rightarrow> u32" where
  "crc32_combine_impl crc1 crc2 len2 =
     (if len2 \<le> 0 then crc1
      else
        let odd_op = crc_odd_init;
            even_op = gf2_matrix_square odd_op;
            odd_op = gf2_matrix_square even_op
        in crc_combine_loop odd_op crc1 (nat len2) XOR crc2)"

definition crc32_combine :: "u32 \<Rightarrow> u32 \<Rightarrow> int \<Rightarrow> u32" where
  "crc32_combine crc1 crc2 len2 = crc32_combine_impl crc1 crc2 len2"

section \<open>The tables\<close>

abbreviation crc32_poly :: u32 where "crc32_poly \<equiv> 0xedb88320"

lemma crc_poly_value: "crc_poly crc_p 0 = crc32_poly"
  by (simp add: crc_p_def)

lemma crc_entry_bits: "crc_entry poly k c = crc_bits poly k c"
  by (induction k arbitrary: c) (simp_all add: crc_bits_Suc crc_bit_def)

lemma crc_table_rows [simp]:
  "crc_table ! 0 = crc_table0" "crc_table ! 1 = crc_table1" "crc_table ! Suc 0 = crc_table1" "crc_table ! 2 = crc_table2"
  "crc_table ! 3 = crc_table3" "crc_table ! 4 = crc_table4" "crc_table ! 5 = crc_table5"
  "crc_table ! 6 = crc_table6" "crc_table ! 7 = crc_table7"
  by (simp_all add: crc_table_def)

lemma crc_bits_16: "crc_bits poly 16 x = crc_bits poly 8 (crc_bits poly 8 x)"
  and crc_bits_24: "crc_bits poly 24 x = crc_bits poly 8 (crc_bits poly 16 x)"
  and crc_bits_32: "crc_bits poly 32 x = crc_bits poly 8 (crc_bits poly 24 x)"
  using crc_bits_add [of poly 8 8 x] crc_bits_add [of poly 8 16 x] crc_bits_add [of poly 8 24 x] by simp_all

lemma crc_bits_8: "crc_bits poly 8 x =
    crc_bit poly (crc_bit poly (crc_bit poly (crc_bit poly (crc_bit poly (crc_bit poly (crc_bit poly (crc_bit poly x)))))))"
  by (simp add: crc_bits_def numeral_eq_Suc)

interpretation crc32_tables: crc_tables crc32_poly crc_table0 crc_table1 crc_table2 crc_table3
proof
  fix n :: nat
  assume n: "n < 256"
  show "crc_table0 ! n = crc_bits crc32_poly 8 (of_nat n)"
    by (rule linear_table [OF crc_bits_xor _ n]) (simp add: crc_table0_span crc_bits_8 crc_bit_def)
  show "crc_table1 ! n = crc_bits crc32_poly 16 (of_nat n)"
    by (rule linear_table [OF crc_bits_xor _ n]) (simp add: crc_table1_span crc_bits_16 crc_bits_8 crc_bit_def)
  show "crc_table2 ! n = crc_bits crc32_poly 24 (of_nat n)"
    by (rule linear_table [OF crc_bits_xor _ n]) (simp add: crc_table2_span crc_bits_24 crc_bits_16 crc_bits_8 crc_bit_def)
  show "crc_table3 ! n = crc_bits crc32_poly 32 (of_nat n)"
    by (rule linear_table [OF crc_bits_xor _ n]) (simp add: crc_table3_span crc_bits_32 crc_bits_24 crc_bits_16 crc_bits_8 crc_bit_def)
qed

section \<open>Little-endian and byte-wise loops\<close>

lemma crc_do1_correct: "crc_do1 c b = crc_byte crc32_poly c b"
  by (simp add: crc_do1_def crc32_tables.table_byte)

lemma take4_conv: "4 \<le> length buf \<Longrightarrow> \<exists>b0 b1 b2 b3. take 4 buf = [b0, b1, b2, b3]"
  by (auto simp: numeral_eq_Suc Suc_le_length_iff)

text \<open>
  The loops only depend on what their bodies do to an abstract register, so they are verified once
  for any pair of bodies that simulates one byte and four bytes of the reference.
\<close>

locale crc_loops =
  fixes reg :: "u32 \<Rightarrow> u32" and step1 :: "u32 \<Rightarrow> byte \<Rightarrow> u32" and step4 :: "u32 \<Rightarrow> byte list \<Rightarrow> u32"
  assumes reg_step1: "reg (step1 c b) = crc_run crc32_poly (reg c) [b]"
    and reg_step4: "4 \<le> length buf \<Longrightarrow> reg (step4 c buf) = crc_run crc32_poly (reg c) (take 4 buf)"
begin

lemma align_run: "crc_align step1 addr c buf = (c', buf') \<Longrightarrow>
    crc_run crc32_poly (reg c') buf' = crc_run crc32_poly (reg c) buf"
  by (induction buf arbitrary: addr c) (auto simp: reg_step1 split: if_splits)

lemma run_step4: "4 \<le> length buf \<Longrightarrow>
    crc_run crc32_poly (reg (step4 c buf)) (drop 4 buf) = crc_run crc32_poly (reg c) buf"
  using crc_run_append [of crc32_poly "reg c" "take 4 buf" "drop 4 buf"] by (simp add: reg_step4)

lemma words_run: "4 * n \<le> length buf \<Longrightarrow> crc_words step4 n c buf = (c', buf') \<Longrightarrow>
    crc_run crc32_poly (reg c') buf' = crc_run crc32_poly (reg c) buf"
proof (induction n arbitrary: c buf)
  case (Suc n)
  from Suc.prems have "crc_run crc32_poly (reg c') buf' = crc_run crc32_poly (reg (step4 c buf)) (drop 4 buf)"
    by (intro Suc.IH) auto
  with Suc.prems show ?case by (simp add: run_step4)
qed simp

lemma loop32_run: "crc_loop32 step4 c buf = (c', buf') \<Longrightarrow>
    crc_run crc32_poly (reg c') buf' = crc_run crc32_poly (reg c) buf"
proof (induction "length buf" arbitrary: c buf rule: less_induct)
  case less
  show ?case
  proof (cases "32 \<le> length buf")
    case True
    obtain c1 buf1 where w: "crc_words step4 8 c buf = (c1, buf1)" by (metis prod.exhaust)
    have "length buf1 < length buf"
      using length_crc_words [of step4 8 c buf] w True by simp
    moreover have "crc_loop32 step4 c1 buf1 = (c', buf')"
      using less.prems True w by (simp add: crc_loop32.simps [of step4 c buf])
    ultimately have "crc_run crc32_poly (reg c') buf' = crc_run crc32_poly (reg c1) buf1"
      by (rule less.hyps)
    with words_run [OF _ w] True show ?thesis by simp
  qed (use less.prems in \<open>simp add: crc_loop32.simps [of step4 c buf]\<close>)
qed

lemma loop4_run: "crc_loop4 step4 c buf = (c', buf') \<Longrightarrow>
    crc_run crc32_poly (reg c') buf' = crc_run crc32_poly (reg c) buf"
proof (induction "length buf" arbitrary: c buf rule: less_induct)
  case less
  show ?case
  proof (cases "4 \<le> length buf")
    case True
    then have "crc_run crc32_poly (reg c') buf' = crc_run crc32_poly (reg (step4 c buf)) (drop 4 buf)"
      using less.prems by (intro less.hyps) (simp_all add: crc_loop4.simps [of step4 c buf])
    with True show ?thesis by (simp add: run_step4)
  qed (use less.prems in \<open>simp add: crc_loop4.simps [of step4 c buf]\<close>)
qed

lemma bytes_run: "reg (crc_bytes step1 c buf) = crc_run crc32_poly (reg c) buf"
  by (induction buf arbitrary: c) (simp_all add: reg_step1)

lemma all_loops:
  "reg (let (c, buf) = crc_align step1 addr c buf;
            (c, buf) = crc_loop32 step4 c buf;
            (c, buf) = crc_loop4 step4 c buf
        in crc_bytes step1 c buf) = crc_run crc32_poly (reg c) buf"
  by (auto simp: bytes_run align_run loop32_run loop4_run split: prod.splits)

end

interpretation little: crc_loops "\<lambda>c. c" crc_do1 DOLIT4
proof
  fix c :: u32 and buf :: "byte list"
  assume "4 \<le> length buf"
  then obtain b0 b1 b2 b3 where "take 4 buf = [b0, b1, b2, b3]" using take4_conv by blast
  then show "DOLIT4 c buf = crc_run crc32_poly c (take 4 buf)"
    by (simp only: DOLIT4_def Let_def crc_table_rows crc32_tables.table_four [OF refl])
qed (simp add: crc_do1_correct)

section \<open>Big-endian loops\<close>

lemma word_add_disjoint: "(\<And>i. \<not> (bit a i \<and> bit b i)) \<Longrightarrow> a + b = a OR (b :: 'a::len word)"
  by (rule disjunctive_add_eq_or) (rule bit_word_eqI, simp add: bit_simps)

lemma and_0xff00: "(q AND 0xff00 :: u32) = push_bit 8 (take_bit 8 (drop_bit 8 q))"
proof -
  have m: "(0xff00 :: u32) = push_bit 8 (mask 8)"
    by (simp add: mask_eq_exp_minus_1)
  show ?thesis
    unfolding m by (rule bit_word_eqI) (auto simp: bit_simps)
qed

lemma ZSWAP32_or:
  "ZSWAP32 q = take_bit 8 (drop_bit 24 q) OR push_bit 8 (take_bit 8 (drop_bit 16 q)) OR
     push_bit 16 (take_bit 8 (drop_bit 8 q)) OR push_bit 24 (take_bit 8 q)"
proof -
  let ?a = "take_bit 8 (drop_bit 24 q)" and ?b = "push_bit 8 (take_bit 8 (drop_bit 16 q))"
  let ?c = "push_bit 16 (take_bit 8 (drop_bit 8 q))" and ?d = "push_bit 24 (take_bit 8 q)"
  have "ZSWAP32 q = ?a + ?b + ?c + ?d"
    by (simp add: ZSWAP32_def and_0xff00 and_mask_take_bit drop_bit_drop_bit push_bit_push_bit)
  moreover have "?a + ?b = ?a OR ?b"
    by (rule word_add_disjoint) (auto simp: bit_simps)
  moreover have "(?a OR ?b) + ?c = ?a OR ?b OR ?c"
    by (subst word_add_disjoint) (auto simp: bit_simps or.assoc)
  moreover have "(?a OR ?b OR ?c) + ?d = ?a OR ?b OR ?c OR ?d"
    by (subst word_add_disjoint) (auto simp: bit_simps or.assoc)
  ultimately show ?thesis by simp
qed

lemma bit_ZSWAP32:
  "bit (ZSWAP32 q) i =
     (if i < 8 then bit q (i + 24) else if i < 16 then bit q (i + 8)
      else if i < 24 then bit q (i - 8) else i < 32 \<and> bit q (i - 24))"
proof -
  consider "i < 8" | "8 \<le> i" "i < 16" | "16 \<le> i" "i < 24" | "24 \<le> i" "i < 32" | "32 \<le> i" by linarith
  then show ?thesis
    by cases (simp_all add: ZSWAP32_or bit_simps add.commute less_diff_conv2)
qed

lemmas zswap_bits = bit_ZSWAP32 and_mask_take_bit bit_simps

lemma ZSWAP32_xor: "ZSWAP32 (x XOR y) = ZSWAP32 x XOR ZSWAP32 y"
  by (rule bit_word_eqI) (auto simp: zswap_bits)

lemma ZSWAP32_NOT: "ZSWAP32 (NOT x) = NOT (ZSWAP32 x)"
  by (rule bit_word_eqI) (auto simp: zswap_bits)

lemma ZSWAP32_ZSWAP32 [simp]: "ZSWAP32 (ZSWAP32 x) = x"
  by (rule bit_word_eqI) (auto simp: zswap_bits)

lemma ZSWAP32_push: "ZSWAP32 (push_bit 8 x) = drop_bit 8 (ZSWAP32 x)"
  by (rule bit_word_eqI) (auto simp: zswap_bits dest: bit_imp_le_length)

lemma ZSWAP32_bytes:
  "drop_bit 24 x = ZSWAP32 x AND 0xff" "drop_bit 16 x AND 0xff = drop_bit 8 (ZSWAP32 x) AND 0xff"
  "drop_bit 8 x AND 0xff = drop_bit 16 (ZSWAP32 x) AND 0xff" "x AND 0xff = drop_bit 24 (ZSWAP32 x)"
  by (rule bit_word_eqI, auto simp: zswap_bits ac_simps dest: bit_imp_le_length)+

lemma ZSWAP32_word_of_bytes:
  "ZSWAP32 (word_of_bytes [b3, b2, b1, b0]) = word_of_bytes [b0, b1, b2, b3]"
proof (rule bit_word_eqI)
  fix i assume "i < LENGTH(32)"
  then consider "i < 8" | "8 \<le> i" "i < 16" | "16 \<le> i" "i < 24" | "24 \<le> i" "i < 32" by fastforce
  then show "bit (ZSWAP32 (word_of_bytes [b3, b2, b1, b0])) i = bit (word_of_bytes [b0, b1, b2, b3] :: u32) i"
    by cases (simp_all add: bit_ZSWAP32 bit_simps bit_byte_beyond less_diff_conv2 le_diff_conv2)
qed

lemma ZSWAP32_linear_table:
  fixes f :: "u32 \<Rightarrow> u32"
  assumes "t' = xor_span [0] [ZSWAP32 (f 1), ZSWAP32 (f 2), ZSWAP32 (f 4), ZSWAP32 (f 8), ZSWAP32 (f 16),
      ZSWAP32 (f 32), ZSWAP32 (f 64), ZSWAP32 (f 128)]"
    and "\<And>x y. f (x XOR y) = f x XOR f y" and "n < 256"
  shows "t' ! n = ZSWAP32 (f (of_nat n))"
  using linear_table [of "\<lambda>x. ZSWAP32 (f x)" t' n] assms by (simp add: ZSWAP32_xor)

lemma big_tables:
  assumes "n < 256"
  shows "crc_table4 ! n = ZSWAP32 (crc_table0 ! n)" "crc_table5 ! n = ZSWAP32 (crc_table1 ! n)"
    "crc_table6 ! n = ZSWAP32 (crc_table2 ! n)" "crc_table7 ! n = ZSWAP32 (crc_table3 ! n)"
proof -
  note entry = crc_bits_32 crc_bits_24 crc_bits_16 crc_bits_8 crc_bit_def ZSWAP32_def
  show "crc_table4 ! n = ZSWAP32 (crc_table0 ! n)"
    unfolding crc32_tables.t0 [OF assms]
    by (rule ZSWAP32_linear_table [OF _ crc_bits_xor assms]) (simp add: crc_table4_span entry)
  show "crc_table5 ! n = ZSWAP32 (crc_table1 ! n)"
    unfolding crc32_tables.t1 [OF assms]
    by (rule ZSWAP32_linear_table [OF _ crc_bits_xor assms]) (simp add: crc_table5_span entry)
  show "crc_table6 ! n = ZSWAP32 (crc_table2 ! n)"
    unfolding crc32_tables.t2 [OF assms]
    by (rule ZSWAP32_linear_table [OF _ crc_bits_xor assms]) (simp add: crc_table6_span entry)
  show "crc_table7 ! n = ZSWAP32 (crc_table3 ! n)"
    unfolding crc32_tables.t3 [OF assms]
    by (rule ZSWAP32_linear_table [OF _ crc_bits_xor assms]) (simp add: crc_table7_span entry)
qed

interpretation big: crc_loops ZSWAP32 crc_do1_big DOBIG4
proof
  fix c :: u32 and b :: byte
  have i: "drop_bit 24 c XOR ucast b = (ZSWAP32 c XOR ucast b) AND 0xff"
    by (rule bit_word_eqI) (auto simp: zswap_bits ac_simps bit_byte_beyond dest: bit_imp_le_length)
  have "ZSWAP32 (crc_do1_big c b) = crc_do1 (ZSWAP32 c) b"
    using crc32_tables.unat_and_255_less
    by (simp add: crc_do1_big_def crc_do1_def i big_tables ZSWAP32_xor ZSWAP32_push)
  then show "ZSWAP32 (crc_do1_big c b) = crc_run crc32_poly (ZSWAP32 c) [b]"
    by (simp add: crc_do1_correct)
next
  fix c :: u32 and buf :: "byte list"
  assume "4 \<le> length buf"
  then obtain b0 b1 b2 b3 where four: "take 4 buf = [b0, b1, b2, b3]" using take4_conv by blast
  define x where "x = c XOR word_of_bytes [b3, b2, b1, b0]"
  have y: "ZSWAP32 c XOR word_of_bytes [b0, b1, b2, b3] = ZSWAP32 x"
    by (simp only: x_def ZSWAP32_xor ZSWAP32_word_of_bytes)
  have less: "unat (y AND 255 :: u32) < 256" for y by (rule crc32_tables.unat_and_255_less)
  have less24: "unat (drop_bit 24 (ZSWAP32 x)) < 256"
    using less [of x] by (simp only: ZSWAP32_bytes(4))
  have "ZSWAP32 (DOBIG4 c buf) =
      crc_table0 ! unat (drop_bit 24 (ZSWAP32 x)) XOR crc_table1 ! unat (drop_bit 16 (ZSWAP32 x) AND 255) XOR
      crc_table2 ! unat (drop_bit 8 (ZSWAP32 x) AND 255) XOR crc_table3 ! unat (ZSWAP32 x AND 255)"
    by (simp only: DOBIG4_def Let_def four rev.simps append.simps x_def [symmetric] crc_table_rows ZSWAP32_bytes [of x]
        big_tables(1) [OF less24] big_tables(2,3,4) [OF less] ZSWAP32_xor ZSWAP32_ZSWAP32)
  also have "\<dots> = DOLIT4 (ZSWAP32 c) buf"
    by (simp only: DOLIT4_def Let_def four crc_table_rows y xor.assoc xor.commute xor.left_commute)
  finally have "ZSWAP32 (DOBIG4 c buf) = DOLIT4 (ZSWAP32 c) buf" .
  then show "ZSWAP32 (DOBIG4 c buf) = crc_run crc32_poly (ZSWAP32 c) (take 4 buf)"
    using \<open>4 \<le> length buf\<close> by (simp add: little.reg_step4)
qed

section \<open>The combination matrices\<close>

text \<open>A matrix represents a linear operator when its rows are the images of the single bits.\<close>

definition represents :: "u32 list \<Rightarrow> (u32 \<Rightarrow> u32) \<Rightarrow> bool" where
  "represents mat f \<longleftrightarrow> length mat = 32 \<and> (\<forall>n < 32. mat ! n = f (2 ^ n)) \<and> (\<forall>x y. f (x XOR y) = f x XOR f y)"

lemma gf2_matrix_loop_correct:
  assumes lin: "\<And>x y. f (x XOR y) = f x XOR f y"
  shows "length mat + k = 32 \<Longrightarrow> (\<And>n. n < length mat \<Longrightarrow> mat ! n = f (2 ^ (k + n))) \<Longrightarrow> unat vec < 2 ^ (32 - k) \<Longrightarrow>
    gf2_matrix_loop mat vec acc = acc XOR f (push_bit k vec)"
proof (induction mat arbitrary: k vec acc)
  case Nil
  moreover have "f 0 = 0" using lin [of 0 0] by simp
  ultimately show ?case by (simp add: gf2_matrix_loop.simps [of "[]"] unat_0_iff)
next
  case (Cons row mat)
  have f0: "f 0 = 0" using lin [of 0 0] by simp
  show ?case
  proof (cases "vec = 0")
    case False
    have row: "row = f (2 ^ k)" using Cons.prems(2) [of 0] by simp
    have split: "push_bit k vec = (if bit vec 0 then 2 ^ k else 0) XOR push_bit (Suc k) (drop_bit 1 vec)"
    proof (rule bit_word_eqI)
      fix i assume "i < LENGTH(32)"
      then show "bit (push_bit k vec) i = bit ((if bit vec 0 then 2 ^ k else 0) XOR push_bit (Suc k) (drop_bit 1 vec)) i"
        by (cases "i = k") (auto simp: bit_simps Suc_le_eq Suc_diff_Suc le_eq_less_or_eq simp del: push_bit_Suc)
    qed
    have "gf2_matrix_loop (row # mat) vec acc =
        gf2_matrix_loop mat (drop_bit 1 vec) (if bit vec 0 then acc XOR row else acc)"
      using False by (simp add: gf2_matrix_loop.simps [of "row # mat"] and_1_bit)
    also have "\<dots> = (if bit vec 0 then acc XOR row else acc) XOR f (push_bit (Suc k) (drop_bit 1 vec))"
    proof (rule Cons.IH)
      have "32 - k = Suc (32 - Suc k)" using Cons.prems(1) by simp
      then show "unat (drop_bit 1 vec) < 2 ^ (32 - Suc k)"
        using Cons.prems(3) by (simp add: unat_drop_bit_div less_mult_imp_div_less mult.commute)
      show "mat ! n = f (2 ^ (Suc k + n))" if "n < length mat" for n
        using Cons.prems(2) [of "Suc n"] that by simp
    qed (use Cons.prems(1) in simp)
    also have "\<dots> = acc XOR f (push_bit k vec)"
      by (simp add: split row lin f0 xor.assoc)
    finally show ?thesis .
  qed (simp add: gf2_matrix_loop.simps [of "row # mat"] f0)
qed

lemma gf2_matrix_times_correct: "represents mat f \<Longrightarrow> gf2_matrix_times mat vec = f vec"
  using gf2_matrix_loop_correct [of f mat 0 vec 0] unat_less_u32 [of vec]
  by (simp add: represents_def gf2_matrix_times_def)

lemma gf2_matrix_square_correct: "represents mat f \<Longrightarrow> represents (gf2_matrix_square mat) (f \<circ> f)"
  using gf2_matrix_times_correct [of mat f] by (simp add: represents_def gf2_matrix_square_def)

lemma crc_bits_twice: "crc_bits p n \<circ> crc_bits p n = crc_bits p (2 * n)"
  by (simp add: fun_eq_iff mult_2 crc_bits_add)

lemma square_bits: "represents mat (crc_bits p n) \<Longrightarrow> represents (gf2_matrix_square mat) (crc_bits p (2 * n))"
  using gf2_matrix_square_correct [of mat "crc_bits p n"] by (simp add: crc_bits_twice)

lemma odd_init_bits: "represents crc_odd_init (crc_bits crc32_poly 1)"
proof -
  have "crc_odd_init ! n = crc_bit crc32_poly (2 ^ n)" if "n < 32" for n
  proof (cases n)
    case (Suc m)
    have "\<not> bit (2 ^ n :: u32) 0" "drop_bit 1 (2 ^ n :: u32) = 2 ^ m"
      using Suc that by (auto simp: bit_simps intro!: bit_word_eqI)
    with Suc that show ?thesis by (simp add: crc_odd_init_def crc_bit_even push_bit_eq_mult)
  qed (simp add: crc_odd_init_def crc_bit_def)
  then show ?thesis
    by (simp add: represents_def crc_bits_xor crc_odd_init_def crc_bits_def crc_bit_xor)
qed

lemma halve: "k * m * n = 2 * k * m * drop_bit 1 n + k * m * (n mod 2)" for k m n :: nat
proof -
  have "n = 2 * drop_bit 1 n + n mod 2" by (simp add: drop_bit_eq_div)
  then have "k * m * n = k * m * (2 * drop_bit 1 n + n mod 2)" by (rule arg_cong)
  then show ?thesis by (simp add: algebra_simps)
qed

lemma crc_combine_loop_correct:
  "represents odd_op (crc_bits crc32_poly m) \<Longrightarrow>
   crc_combine_loop odd_op crc1 len2 = crc_bits crc32_poly (2 * m * len2) crc1"
proof (induction odd_op crc1 len2 arbitrary: m rule: crc_combine_loop.induct)
  case (1 odd_op crc1 len2)
  let ?even = "gf2_matrix_square odd_op"
  let ?odd = "gf2_matrix_square ?even"
  let ?c1 = "if len2 AND 1 \<noteq> 0 then gf2_matrix_times ?even crc1 else crc1" and ?l1 = "drop_bit 1 len2"
  let ?c2 = "if ?l1 AND 1 \<noteq> 0 then gf2_matrix_times ?odd ?c1 else ?c1" and ?l2 = "drop_bit 1 ?l1"
  have ev: "represents ?even (crc_bits crc32_poly (2 * m))" and od: "represents ?odd (crc_bits crc32_poly (2 * (2 * m)))"
    using square_bits [OF "1.prems"] square_bits [OF square_bits [OF "1.prems"]] by blast+
  have c1: "?c1 = crc_bits crc32_poly (2 * m * (len2 mod 2)) crc1"
    using gf2_matrix_times_correct [OF ev, of crc1] by (cases "even len2") (simp_all add: and_one_eq odd_iff_mod_2_eq_one)
  have c2: "?c2 = crc_bits crc32_poly (4 * m * (?l1 mod 2)) ?c1"
    using gf2_matrix_times_correct [OF od, of ?c1] by (cases "even ?l1") (simp_all add: and_one_eq odd_iff_mod_2_eq_one)
  have l1: "2 * m * len2 = 4 * m * ?l1 + 2 * m * (len2 mod 2)"
    using halve [of 2 m len2] by (simp add: mult.assoc)
  have l2: "4 * m * ?l1 = 8 * m * ?l2 + 4 * m * (?l1 mod 2)"
    using halve [of 4 m ?l1] by (simp add: mult.assoc)
  consider "?l1 = 0" | "?l1 \<noteq> 0" "?l2 = 0" | "?l1 \<noteq> 0" "?l2 \<noteq> 0" by blast
  then show ?case
  proof cases
    case 1
    then show ?thesis
      by (subst crc_combine_loop.simps) (simp only: Let_def c1 if_True l1 mult_0_right add_0 simp_thms)
  next
    case 2
    then show ?thesis
      by (subst crc_combine_loop.simps)
        (simp only: Let_def if_False if_True c1 c2 [unfolded c1] l1 l2 mult_0_right add_0 crc_bits_add simp_thms)
  next
    case 3
    have "crc_combine_loop ?odd ?c2 ?l2 = crc_bits crc32_poly (2 * (2 * (2 * m)) * ?l2) ?c2"
      using 3 by (intro "1.IH" [OF refl refl refl _ refl refl refl _ od]) auto
    moreover have "crc_combine_loop odd_op crc1 len2 = crc_combine_loop ?odd ?c2 ?l2"
      using 3 by (simp only: crc_combine_loop.simps [of odd_op crc1 len2] Let_def if_False)
    moreover have "2 * (2 * (2 * m)) = 8 * m" by simp
    ultimately show ?thesis
      by (simp only: c1 c2 [unfolded c1] l1 l2 crc_bits_add [symmetric] add.assoc)
  qed
qed

section \<open>Properties\<close>

text \<open>The specification: the register starts complemented, runs bit by bit, and is complemented.\<close>

definition crc32_spec :: "u32 \<Rightarrow> byte list \<Rightarrow> u32" where
  "crc32_spec crc buf = NOT (crc_run crc32_poly (NOT crc) buf)"

lemma crc32_little_spec: "crc32_little addr crc buf = crc32_spec crc buf"
  using little.all_loops [of addr "NOT crc" buf]
  by (simp add: crc32_little_def crc32_spec_def Let_def split_beta)

lemma crc32_big_spec: "crc32_big addr crc buf = crc32_spec crc buf"
  using big.all_loops [of addr "NOT (ZSWAP32 crc)" buf]
  by (simp add: crc32_big_def crc32_spec_def Let_def split_beta ZSWAP32_NOT)

lemma crc_do8_run: "crc_do8 c buf = (c', buf') \<Longrightarrow> crc_bytes crc_do1 c' buf' = crc_run crc32_poly c buf"
proof (induction "length buf" arbitrary: c buf rule: less_induct)
  case less
  show ?case
  proof (cases "8 \<le> length buf")
    case True
    then have "crc_bytes crc_do1 c' buf' = crc_run crc32_poly (crc_bytes crc_do1 c (take 8 buf)) (drop 8 buf)"
      using less.prems by (intro less.hyps) (simp_all add: crc_do8.simps [of c buf])
    then show ?thesis
      using crc_run_append [of crc32_poly c "take 8 buf" "drop 8 buf"] by (simp add: little.bytes_run)
  qed (use less.prems in \<open>simp add: crc_do8.simps [of c buf] little.bytes_run\<close>)
qed

lemma crc32_spec_all: "crc32 byfour is_little addr crc (Some buf) = crc32_spec crc buf"
proof -
  obtain c' buf' where d: "crc_do8 (NOT crc) buf = (c', buf')" by (metis prod.exhaust)
  show ?thesis
    using crc_do8_run [OF d]
    by (simp add: crc32_def crc32_z_def crc32_little_spec crc32_big_spec xor_ones d)
      (simp add: crc32_spec_def)
qed

text \<open>
  C19. Functional correctness of \<open>crc32\<close>: whatever the byte order of the machine, the alignment of the
  buffer and the availability of four-byte accesses, the table-driven loops over the printed tables
  compute the bit-serial CRC-32.
\<close>

theorem crc32_correct:
  "crc32 byfour is_little addr crc (Some buf) = NOT (crc_run 0xedb88320 (NOT crc) buf)"
  by (simp add: crc32_spec_all crc32_spec_def)

text \<open>
  The comment on \<open>crc32.h\<close> ("made by make_crc_table()"): the printed tables are exactly what the
  generator computes from the exponents of the polynomial.
\<close>

theorem crc_table_generated: "crc_table = make_crc_table"
proof -
  let ?t0 = "map (\<lambda>n. crc_entry crc32_poly 8 (of_nat n)) [0..<256]"
  let ?row = "\<lambda>k. map (\<lambda>n. crc_followed ?t0 k (?t0 ! n)) [0..<256]"
  have len: "length crc_table0 = 256" "length crc_table1 = 256" "length crc_table2 = 256" "length crc_table3 = 256"
    "length crc_table4 = 256" "length crc_table5 = 256" "length crc_table6 = 256" "length crc_table7 = 256"
    by (simp_all add: crc_table0_span crc_table1_span crc_table2_span crc_table3_span
        crc_table4_span crc_table5_span crc_table6_span crc_table7_span)
  have t0: "?t0 = crc_table0"
    by (rule nth_equalityI) (simp_all add: len crc_entry_bits crc32_tables.t0)
  have fol: "crc_table0 ! unat (c AND 255) XOR drop_bit 8 c = crc_bits crc32_poly 8 c" for c
    using crc32_tables.table_byte [of c 0] by (simp add: crc_byte_def)
  have rows: "?row 1 = crc_table1" "?row 2 = crc_table2" "?row 3 = crc_table3"
    unfolding t0
    by (rule nth_equalityI; simp add: len numeral_2_eq_2 numeral_3_eq_3 fol crc32_tables.t0 crc32_tables.t1
        crc32_tables.t2 crc32_tables.t3 crc_bits_16 crc_bits_24 crc_bits_32)+
  have swapped: "map ZSWAP32 crc_table0 = crc_table4" "map ZSWAP32 crc_table1 = crc_table5"
    "map ZSWAP32 crc_table2 = crc_table6" "map ZSWAP32 crc_table3 = crc_table7"
    by (rule nth_equalityI; simp add: len big_tables)+
  show ?thesis
    by (simp only: make_crc_table_def Let_def crc_poly_value t0 rows [unfolded t0] swapped crc_table_def)
qed

text \<open>
  C20. \<open>crc32_combine\<close>: from the checksums of two buffers and the length of the second it computes the
  checksum of their concatenation.
\<close>

theorem crc32_combine_correct:
  "crc32_combine (crc32 bf le a1 crc (Some xs)) (crc32 bf' le' a2 0 (Some ys)) (int (length ys)) =
   crc32 bf'' le'' a3 crc (Some (xs @ ys))"
proof (cases "ys = []")
  case False
  let ?z = "crc_bits crc32_poly (8 * length ys)"
  have op: "represents (gf2_matrix_square (gf2_matrix_square crc_odd_init)) (crc_bits crc32_poly 4)"
    using square_bits [OF square_bits [OF odd_init_bits]] by simp
  have "crc32_combine c d (int (length ys)) = ?z c XOR d" for c d
    using False crc_combine_loop_correct [OF op, of c "length ys"]
    by (simp add: crc32_combine_def crc32_combine_impl_def Let_def)
  moreover have "?z (crc32_spec crc xs) XOR crc32_spec 0 ys = crc32_spec crc (xs @ ys)"
  proof -
    let ?r = "crc_run crc32_poly (NOT crc) xs"
    have "crc_run crc32_poly ?r ys = ?z (NOT ?r) XOR crc_run crc32_poly (NOT 0) ys"
      using crc_run_linear [of crc32_poly "NOT ?r" "NOT 0" ys] by (simp add: bit.xor_compl_left)
    then show ?thesis
      by (simp add: crc32_spec_def crc_run_append bit.xor_compl_right)
  qed
  ultimately show ?thesis by (simp only: crc32_spec_all)
qed (simp add: crc32_combine_def crc32_combine_impl_def crc32_spec_all)

end
