(* ===== verification/Canonical.thy ===== *)
theory Canonical
  imports Prelude
begin

text \<open>
  Canonical prefix codes with code lengths up to 15, as deflate uses them (RFC 1951, 3.2.2). A code
  of length \<open>l\<close> is identified with the interval of length \<open>2 ^ (15 - l)\<close> it occupies in
  \<open>0 ..< 2 ^ 15\<close>; the intervals of the codes, in order of length and symbol, follow one another. The
  decoder sees the code bits in reverse order, least significant first; \<open>rev15\<close> is the reversal.
\<close>

section \<open>Bit reversal\<close>

definition rev15 :: "nat \<Rightarrow> nat" where
  "rev15 x = horner_sum of_bool 2 (rev (map (bit x) [0..<15]))"

lemma bit_rev15: "bit (rev15 x) i \<longleftrightarrow> i < 15 \<and> bit x (14 - i)"
  by (auto simp: rev15_def bit_horner_sum_bit_iff rev_nth)

lemma rev15_less: "rev15 x < 32768"
  using horner_sum_bound [of "rev (map (bit x) [0..<15])", where ?'a = nat]
  by (simp add: rev15_def)

lemma bit_less_15: "(x :: nat) < 32768 \<Longrightarrow> bit x i \<Longrightarrow> i < 15"
proof (rule ccontr)
  assume "x < 32768" "bit x i" "\<not> i < 15"
  moreover have "x < 2 ^ i"
    using \<open>x < 32768\<close> \<open>\<not> i < 15\<close> power_increasing [of 15 i "2 :: nat"] by simp
  ultimately show False by (simp add: bit_iff_odd)
qed

lemma rev15_rev15: "x < 32768 \<Longrightarrow> rev15 (rev15 x) = x"
  by (rule bit_eqI) (auto simp: bit_rev15 dest: bit_less_15)

lemma rev15_top: "rev15 (2 ^ 15) = 0"
  by (rule bit_eqI) (simp only: bit_rev15 bit_exp_iff bit_0_eq bot_apply bot_bool_def, simp, arith)

lemma rev15_half: "rev15 (2 ^ 14) = 1"
proof (rule bit_eqI)
  fix i :: nat
  have "14 - i = 14 \<longleftrightarrow> i = 0" by arith
  then show "bit (rev15 (2 ^ 14)) i = bit 1 i"
    by (simp only: bit_rev15 bit_exp_iff bit_1_iff) auto
qed

lemma rev15_low_bit: "rev15 x < 2 ^ 14 \<longleftrightarrow> even x"
proof -
  have "rev15 x < 2 ^ 14 \<longleftrightarrow> \<not> bit (rev15 x) 14"
  proof -
    have "rev15 x div 16384 = 1" if "\<not> rev15 x < 16384"
      using that rev15_less [of x] by (intro div_nat_eqI) simp_all
    then show ?thesis by (cases "rev15 x < 16384") (simp_all add: bit_iff_odd)
  qed
  also have "bit (rev15 x) 14 \<longleftrightarrow> odd x" by (simp add: bit_rev15 bit_0)
  finally show ?thesis by simp
qed

lemma dvd_bit: "2 ^ n dvd (p :: nat) \<Longrightarrow> bit p i \<Longrightarrow> n \<le> i"
  by (metis bit_take_bit_iff bit_0_eq bot_apply bot_bool_def mod_eq_0_iff_dvd not_le take_bit_eq_mod)

lemma rev15_bound: "2 ^ (15 - l) dvd p \<Longrightarrow> l \<le> 15 \<Longrightarrow> rev15 p < 2 ^ l"
proof -
  assume p: "2 ^ (15 - l) dvd p" "l \<le> 15"
  have "take_bit l (rev15 p) = rev15 p"
    by (rule bit_eqI) (use p dvd_bit [of "15 - l" p] in \<open>fastforce simp: bit_take_bit_iff bit_rev15\<close>)
  then show ?thesis by (metis take_bit_nat_less_exp)
qed

lemma div_interval: "0 < (d :: nat) \<Longrightarrow> d dvd p \<Longrightarrow> (p \<le> y \<and> y < p + d) \<longleftrightarrow> y div d = p div d"
  by (auto simp: dvd_def) (metis dividend_less_times_div div_less_iff_less_mult div_nat_eqI mult.commute mult_Suc_right less_eq_div_iff_mult_less_eq Suc_eq_plus1 add.commute)+

text \<open>
  The bits \<open>x\<close> begin with the code at \<open>p\<close> of length \<open>l\<close> exactly when their reversal lies in its
  interval.
\<close>

lemma code_match:
  assumes "l \<le> 15" "2 ^ (15 - l) dvd p" "p < 32768"
  shows "x mod 2 ^ l = rev15 p \<longleftrightarrow> p \<le> rev15 x \<and> rev15 x < p + 2 ^ (15 - l)"
proof -
  have "x mod 2 ^ l = rev15 p \<longleftrightarrow> drop_bit (15 - l) (rev15 x) = drop_bit (15 - l) p"
  proof
    assume *: "x mod 2 ^ l = rev15 p"
    show "drop_bit (15 - l) (rev15 x) = drop_bit (15 - l) p"
    proof (rule bit_eqI)
      fix i
      have "bit (take_bit l x) (14 - (15 - l + i)) = bit (rev15 p) (14 - (15 - l + i))"
        using * by (simp add: take_bit_eq_mod)
      then show "bit (drop_bit (15 - l) (rev15 x)) i = bit (drop_bit (15 - l) p) i"
        using assms bit_less_15 [of p "15 - l + i"]
        by (cases "15 - l + i < 15") (auto simp: bit_drop_bit_eq bit_take_bit_iff bit_rev15)
    qed
  next
    assume *: "drop_bit (15 - l) (rev15 x) = drop_bit (15 - l) p"
    have "take_bit l x = rev15 p"
    proof (rule bit_eqI)
      fix i
      have "bit (drop_bit (15 - l) (rev15 x)) (l - 1 - i) = bit (drop_bit (15 - l) p) (l - 1 - i)"
        using * by simp
      then show "bit (take_bit l x) i = bit (rev15 p) i"
        using assms dvd_bit [of "15 - l" p "14 - i"]
        by (cases "i < l") (auto simp: bit_drop_bit_eq bit_take_bit_iff bit_rev15)
    qed
    then show "x mod 2 ^ l = rev15 p" by (simp add: take_bit_eq_mod)
  qed
  also have "\<dots> \<longleftrightarrow> p \<le> rev15 x \<and> rev15 x < p + 2 ^ (15 - l)"
    using assms(2) by (simp add: div_interval drop_bit_eq_div)
  finally show ?thesis .
qed

section \<open>The intervals of a list of code lengths\<close>

text \<open>\<open>pos ls k\<close> is where the code of the \<open>k\<close>-th length in the list starts.\<close>

definition pos :: "nat list \<Rightarrow> nat \<Rightarrow> nat" where
  "pos ls k = (\<Sum>l\<leftarrow>take k ls. 2 ^ (15 - l))"

definition kraft :: "nat list \<Rightarrow> nat" where
  "kraft ls = (\<Sum>l\<leftarrow>ls. 2 ^ (15 - l))"

lemma pos_0 [simp]: "pos ls 0 = 0"
  by (simp add: pos_def)

lemma pos_all [simp]: "length ls \<le> k \<Longrightarrow> pos ls k = kraft ls"
  by (simp add: pos_def kraft_def)

lemma pos_Suc: "k < length ls \<Longrightarrow> pos ls (Suc k) = pos ls k + 2 ^ (15 - ls ! k)"
  by (simp add: pos_def take_Suc_conv_app_nth)

lemma pos_split: "kraft ls = pos ls k + (\<Sum>l\<leftarrow>drop k ls. 2 ^ (15 - l))"
proof -
  have "kraft ls = (\<Sum>l\<leftarrow>take k ls @ drop k ls. 2 ^ (15 - l))"
    by (simp add: kraft_def)
  then show ?thesis unfolding pos_def map_append sum_list_append .
qed

lemma pos_le_kraft: "pos ls k \<le> kraft ls"
  by (simp add: pos_split [of ls k])

lemma pos_mono: "j \<le> k \<Longrightarrow> pos ls j \<le> pos ls k"
proof (induction k)
  case (Suc k)
  then show ?case
    by (cases "j \<le> k"; cases "k < length ls") (auto simp: pos_Suc le_Suc_eq)
qed simp

lemma dvd_span_sum: "\<forall>l\<in>set ls. l \<le> m \<Longrightarrow> m \<le> 15 \<Longrightarrow> 2 ^ (15 - m) dvd (\<Sum>l\<leftarrow>ls. (2 :: nat) ^ (15 - l))"
  by (induction ls) (auto intro!: dvd_add le_imp_power_dvd)

lemma pos_dvd: "\<forall>l\<in>set (take k ls). l \<le> m \<Longrightarrow> m \<le> 15 \<Longrightarrow> 2 ^ (15 - m) dvd pos ls k"
  unfolding pos_def by (rule dvd_span_sum)

lemma pos_dvd_nth:
  assumes "sorted ls" "k < length ls" "ls ! k \<le> m" "m \<le> 15"
  shows "2 ^ (15 - m) dvd pos ls k"
proof (rule pos_dvd)
  show "\<forall>l\<in>set (take k ls). l \<le> m"
  proof
    fix l assume "l \<in> set (take k ls)"
    then obtain i where "i < k" "l = ls ! i" by (auto simp: in_set_conv_nth)
    then show "l \<le> m" using sorted_nth_mono [OF assms(1), of i k] assms by simp
  qed
qed fact

lemma pos_cover: "y < pos ls n \<Longrightarrow> \<exists>k<n. k < length ls \<and> pos ls k \<le> y \<and> y < pos ls (Suc k)"
proof (induction n)
  case (Suc n)
  show ?case
  proof (cases "y < pos ls n")
    case True
    then show ?thesis using Suc.IH less_Suc_eq by blast
  next
    case False
    then have "n < length ls"
      using Suc.prems by (metis not_less pos_all le_Suc_eq)
    then show ?thesis using False Suc.prems by auto
  qed
qed simp

lemma pos_unique:
  assumes "pos ls j \<le> y" "y < pos ls (Suc j)" "pos ls k \<le> y" "y < pos ls (Suc k)"
  shows "j = k"
  using assms pos_mono [of "Suc j" k ls] pos_mono [of "Suc k" j ls] by (metis Suc_leI leD le_trans linorder_neqE_nat)

text \<open>The interval of a code does not cross the boundaries of a shorter prefix.\<close>

lemma aligned_step:
  fixes p :: nat
  assumes "2 ^ (15 - l) dvd p" "r \<le> l" "l \<le> 15"
    and "(p + 2 ^ (15 - l)) div 2 ^ (15 - r) \<noteq> p div 2 ^ (15 - r)"
  shows "2 ^ (15 - r) dvd p + 2 ^ (15 - l)"
proof -
  define d D where "d = (2 :: nat) ^ (15 - l)" and "D = (2 :: nat) ^ (15 - r)"
  have "d dvd D" using assms(2) by (auto simp: d_def D_def intro: le_imp_power_dvd)
  then obtain m where D: "D = d * m" by (auto simp: dvd_def)
  obtain a where p: "p = d * a" using assms(1) by (auto simp: d_def dvd_def)
  have "0 < d" by (simp add: d_def)
  have eq: "p + d = d * Suc a" by (simp add: p)
  have "Suc a div m \<noteq> a div m" using assms(4) \<open>0 < d\<close> unfolding d_def [symmetric] D_def [symmetric] eq
    by (simp only: p D div_mult_mult1) simp
  then have "Suc a mod m = 0" by (metis div_Suc)
  then have "m dvd Suc a" by (rule mod_0_imp_dvd)
  then show ?thesis unfolding d_def [symmetric] D_def [symmetric] eq D
    by (rule mult_dvd_mono [OF dvd_refl])
qed

end
