(* ===== verification/Inftrees.thy ===== *)
theory Inftrees
  imports Canonical "HOL-Library.Multiset"
begin

text \<open>
  zlib/inftrees.c and inftrees.h: \<open>inflate_table\<close> builds the decoding tables of a canonical Huffman
  code from its code lengths. The array of table entries the caller owns (\<open>state->codes\<close>) is a list,
  \<open>*table\<close> an index into it. An access outside an array is \<^term>\<open>None\<close>. The \<open>unsigned\<close> and
  \<open>unsigned short\<close> variables are naturals with their casts written out, \<open>left\<close> is an integer.
\<close>

section \<open>Data\<close>

text \<open>One table entry, \<open>struct code\<close>.\<close>

record code =
  op :: nat
  cbits :: nat
  val :: nat

datatype codetype = CODES | LENS | DISTS

definition MAXBITS :: nat where "MAXBITS = 15"
definition ENOUGH_LENS :: nat where "ENOUGH_LENS = 852"
definition ENOUGH_DISTS :: nat where "ENOUGH_DISTS = 592"
definition ENOUGH :: nat where "ENOUGH = ENOUGH_LENS + ENOUGH_DISTS"

definition lbase :: "nat list" where
  "lbase = [3, 4, 5, 6, 7, 8, 9, 10, 11, 13, 15, 17, 19, 23, 27, 31,
     35, 43, 51, 59, 67, 83, 99, 115, 131, 163, 195, 227, 258, 0, 0]"

definition lext :: "nat list" where
  "lext = [16, 16, 16, 16, 16, 16, 16, 16, 17, 17, 17, 17, 18, 18, 18, 18,
     19, 19, 19, 19, 20, 20, 20, 20, 21, 21, 21, 21, 16, 77, 202]"

definition dbase :: "nat list" where
  "dbase = [1, 2, 3, 4, 5, 7, 9, 13, 17, 25, 33, 49, 65, 97, 129, 193,
     257, 385, 513, 769, 1025, 1537, 2049, 3073, 4097, 6145,
     8193, 12289, 16385, 24577, 0, 0]"

definition dext :: "nat list" where
  "dext = [16, 16, 16, 16, 17, 17, 18, 18, 19, 19, 20, 20, 21, 21, 22, 22,
     23, 23, 24, 24, 25, 25, 26, 26, 27, 27,
     28, 28, 29, 29, 64, 64]"

section \<open>Counting, bounding and checking the lengths\<close>

text \<open>\<open>count[lens[sym]]++\<close> for the first \<open>codes\<close> symbols.\<close>

fun count_lens :: "nat list \<Rightarrow> nat list \<Rightarrow> nat list option" where
  "count_lens [] cnt = Some cnt"
| "count_lens (l # ls) cnt =
     do { c \<leftarrow> rd cnt l;
          cnt' \<leftarrow> wr cnt l ((c + 1) mod 65536);
          count_lens ls cnt' }"

text \<open>The loop \<open>for (max = MAXBITS; max >= 1; max--) if (count[max] != 0) break;\<close>.\<close>

fun find_max :: "nat list \<Rightarrow> nat \<Rightarrow> nat" where
  "find_max cnt 0 = 0"
| "find_max cnt (Suc m) = (if cnt ! Suc m \<noteq> 0 then Suc m else find_max cnt m)"

text \<open>The loop \<open>for (min = 1; min < max; min++) if (count[min] != 0) break;\<close>.\<close>

function find_min :: "nat list \<Rightarrow> nat \<Rightarrow> nat \<Rightarrow> nat" where
  "find_min cnt mx m =
     (if m < mx then if cnt ! m \<noteq> 0 then m else find_min cnt mx (m + 1) else m)"
  by pat_completeness auto
termination by (relation "measure (\<lambda>(_, mx, m). mx - m)") auto

declare find_min.simps [simp del]

text \<open>
  The check for an over-subscribed set of lengths over \<open>count[1..15]\<close>: \<^term>\<open>None\<close> is the early
  \<open>return -1\<close>, otherwise the final value of \<open>left\<close>.
\<close>

fun left_loop :: "nat list \<Rightarrow> int \<Rightarrow> int option" where
  "left_loop [] left = Some left"
| "left_loop (c # cs) left =
     (let left' = left * 2 - int c in if left' < 0 then None else left_loop cs left')"

text \<open>\<open>offs[len + 1] = offs[len] + count[len]\<close> for \<open>len\<close> from 1 to 14, given \<open>offs[1]\<close>.\<close>

fun offs_loop :: "nat list \<Rightarrow> nat \<Rightarrow> nat list" where
  "offs_loop [] o1 = [o1]"
| "offs_loop (c # cs) o1 = o1 # offs_loop cs ((o1 + c) mod 65536)"

text \<open>Sorting the symbols by length: \<open>work[offs[lens[sym]]++] = sym\<close> for the symbols that occur.\<close>

fun sort_syms :: "nat list \<Rightarrow> nat \<Rightarrow> nat list \<Rightarrow> nat list \<Rightarrow> nat list option" where
  "sort_syms [] s offs work = Some work"
| "sort_syms (l # ls) s offs work =
     (if l \<noteq> 0 then
        do { o1 \<leftarrow> rd offs l;
             work' \<leftarrow> wr work o1 (s mod 65536);
             offs' \<leftarrow> wr offs l ((o1 + 1) mod 65536);
             sort_syms ls (s + 1) offs' work' }
      else sort_syms ls (s + 1) offs work)"

section \<open>Filling the tables\<close>

text \<open>The base and extra tables and the first symbol that uses them, by type of code.\<close>

definition code_params :: "codetype \<Rightarrow> nat list \<Rightarrow> nat list \<times> nat list \<times> nat" where
  "code_params type work =
     (case type of
        CODES \<Rightarrow> (work, work, 20)
      | LENS \<Rightarrow> (lbase, lext, 257)
      | DISTS \<Rightarrow> (dbase, dext, 0))"

text \<open>The entry \<open>here\<close> for the symbol \<open>s\<close> with \<open>b\<close> remaining code bits.\<close>

definition make_entry :: "codetype \<Rightarrow> nat list \<Rightarrow> nat \<Rightarrow> nat \<Rightarrow> code option" where
  "make_entry type work s b =
     (case code_params type work of
        (base, extra, match) \<Rightarrow>
          if s + 1 < match then Some \<lparr>op = 0, cbits = b mod 256, val = s\<rparr>
          else if s \<ge> match then
            do { e \<leftarrow> rd extra (s - match);
                 v \<leftarrow> rd base (s - match);
                 Some \<lparr>op = e mod 256, cbits = b mod 256, val = v\<rparr> }
          else Some \<lparr>op = 32 + 64, cbits = b mod 256, val = 0\<rparr>)"

text \<open>
  The loop \<open>do { fill -= incr; next[(huff >> drop) + fill] = here; } while (fill != 0)\<close>. A \<open>fill\<close>
  that is not a multiple of \<open>incr\<close> would wrap to an index outside the array.
\<close>

function fill_loop :: "code list \<Rightarrow> nat \<Rightarrow> code \<Rightarrow> nat \<Rightarrow> nat \<Rightarrow> code list option" where
  "fill_loop tab at here incr fill =
     (if incr = 0 \<or> fill < incr then None
      else do { tab' \<leftarrow> wr tab (at + (fill - incr)) here;
                if fill - incr \<noteq> 0 then fill_loop tab' at here incr (fill - incr)
                else Some tab' })"
  by pat_completeness auto
termination by (relation "measure (\<lambda>(_, _, _, _, fill). fill)") auto

declare fill_loop.simps [simp del]

text \<open>The loop \<open>while (huff & incr) incr >>= 1\<close>.\<close>

function incr_loop :: "nat \<Rightarrow> nat \<Rightarrow> nat" where
  "incr_loop huff incr = (if huff AND incr \<noteq> 0 then incr_loop huff (drop_bit 1 incr) else incr)"
  by pat_completeness auto
termination
proof (relation "measure snd", goal_cases)
  case (2 huff incr)
  then have "incr \<noteq> 0" by (cases "incr = 0") simp_all
  then show ?case by (simp add: drop_bit_eq_div)
qed simp

declare incr_loop.simps [simp del]

text \<open>Backwards increment of the \<open>len\<close>-bit code \<open>huff\<close>.\<close>

definition next_huff :: "nat \<Rightarrow> nat \<Rightarrow> nat" where
  "next_huff len huff =
     (let incr = incr_loop huff (push_bit (len - 1) 1)
      in if incr \<noteq> 0 then (huff AND (incr - 1)) + incr else 0)"

text \<open>
  The look-ahead for the size of the next sub-table: \<open>while (currb + drop < max) { left -=
  count[currb + drop]; if (left <= 0) break; currb++; left <<= 1; }\<close>.
\<close>

function sub_bits :: "nat list \<Rightarrow> nat \<Rightarrow> nat \<Rightarrow> nat \<Rightarrow> int \<Rightarrow> nat" where
  "sub_bits cnt mx drp currb left =
     (if currb + drp < mx then
        let left' = left - int (cnt ! (currb + drp))
        in if left' \<le> 0 then currb else sub_bits cnt mx drp (currb + 1) (left' * 2)
      else currb)"
  by pat_completeness auto
termination by (relation "measure (\<lambda>(_, mx, drp, currb, _). mx - (currb + drp))") auto

declare sub_bits.simps [simp del]

text \<open>The local variables of the table-filling loop; \<open>next\<close> is an index into \<open>tab\<close>.\<close>

record fill_state =
  tab :: "code list"
  cnt :: "nat list"
  symi :: nat
  len :: nat
  huff :: nat
  nxt :: nat
  currb :: nat
  drp :: nat
  low :: nat
  used :: nat

definition too_big :: "codetype \<Rightarrow> nat \<Rightarrow> bool" where
  "too_big type u \<longleftrightarrow> type = LENS \<and> u > ENOUGH_LENS \<or> type = DISTS \<and> u > ENOUGH_DISTS"

text \<open>Create the entry of the current symbol, replicate it, increment the code.\<close>

definition enter_symbol :: "codetype \<Rightarrow> nat list \<Rightarrow> fill_state \<Rightarrow> fill_state option" where
  "enter_symbol type work st =
     do { s \<leftarrow> rd work (symi st);
          here \<leftarrow> make_entry type work s (len st - drp st);
          tab' \<leftarrow> fill_loop (tab st) (nxt st + drop_bit (drp st) (huff st)) here
                    (push_bit (len st - drp st) 1) (push_bit (currb st) 1);
          c \<leftarrow> rd (cnt st) (len st);
          Some (st\<lparr>tab := tab', huff := next_huff (len st) (huff st), symi := symi st + 1,
                   cnt := (cnt st)[len st := (c + 65535) mod 65536]\<rparr>) }"

text \<open>Open a sub-table at the end of the current one; \<^term>\<open>Inl st\<close> is the early \<open>return 1\<close> with the variables it leaves.\<close>

definition open_subtable ::
  "codetype \<Rightarrow> nat \<Rightarrow> nat \<Rightarrow> nat \<Rightarrow> fill_state \<Rightarrow> (fill_state + fill_state) option" where
  "open_subtable type table0 root mx st =
     (let mask = push_bit root 1 - 1;
          drop' = (if drp st = 0 then root else drp st);
          next' = nxt st + push_bit (currb st) 1;
          c0 = len st - drop';
          currb' = sub_bits (cnt st) mx drop' c0 (2 ^ c0);
          used' = used st + push_bit currb' 1;
          low' = huff st AND mask
      in if too_big type used' then Some (Inl (st\<lparr>drp := drop', nxt := next', currb := currb', used := used'\<rparr>))
         else do { tab' \<leftarrow> wr (tab st) (table0 + low')
                     \<lparr>op = currb' mod 256, cbits = root mod 256, val = (next' - table0) mod 65536\<rparr>;
                   Some (Inr (st\<lparr>drp := drop', nxt := next', currb := currb', used := used',
                                 low := low', tab := tab'\<rparr>)) })"

text \<open>\<open>if (--(count[len]) == 0) len = lens[work[sym]]\<close>, after the decrement.\<close>

definition next_len :: "nat list \<Rightarrow> nat list \<Rightarrow> fill_state \<Rightarrow> nat option" where
  "next_len lens work st =
     (if cnt st ! len st = 0 then do { s \<leftarrow> rd work (symi st); rd lens s } else Some (len st))"

lemma enter_symbol_symi: "enter_symbol type work st = Some st1 \<Longrightarrow> symi st1 = symi st + 1"
  by (auto simp: enter_symbol_def bind_eq_Some_conv)

lemma open_subtable_symi: "open_subtable type table0 root mx st = Some (Inr st1) \<Longrightarrow> symi st1 = symi st"
  by (auto simp: open_subtable_def Let_def bind_eq_Some_conv split: if_splits)

text \<open>
  The loop \<open>for (;;)\<close> that processes all codes. It ends when all codes of length \<open>max\<close> are entered;
  reading \<open>work\<close> past its end would be a fault, so it cannot run forever.
\<close>

function fill_tables ::
  "codetype \<Rightarrow> nat list \<Rightarrow> nat list \<Rightarrow> nat \<Rightarrow> nat \<Rightarrow> nat \<Rightarrow> fill_state \<Rightarrow> (fill_state + fill_state) option" where
  "fill_tables type lens work table0 root mx st =
     (if symi st \<ge> length work then None
      else (case enter_symbol type work st of
        None \<Rightarrow> None
      | Some st1 \<Rightarrow>
          (if cnt st1 ! len st1 = 0 \<and> len st1 = mx then Some (Inr st1)
           else (case next_len lens work st1 of
             None \<Rightarrow> None
           | Some l \<Rightarrow>
               (if l > root \<and> huff st1 AND (push_bit root 1 - 1) \<noteq> low st1 then
                  (case open_subtable type table0 root mx (st1\<lparr>len := l\<rparr>) of
                     None \<Rightarrow> None
                   | Some (Inl st2) \<Rightarrow> Some (Inl st2)
                   | Some (Inr st2) \<Rightarrow> fill_tables type lens work table0 root mx st2)
                else fill_tables type lens work table0 root mx (st1\<lparr>len := l\<rparr>))))))"
  by pat_completeness auto
termination
  by (relation "measure (\<lambda>(_, _, work, _, _, _, st). length work - symi st)")
    (simp_all add: enter_symbol_symi open_subtable_symi)

declare fill_tables.simps [simp del]

text \<open>
  The whole of \<open>inflate_table\<close>: the results are the return code, the array of entries, the advanced
  \<open>*table\<close>, the actual \<open>*bits\<close> and the work area. The returns \<open>-1\<close> and \<open>1\<close> leave \<open>*table\<close> and
  \<open>*bits\<close> as they were.
\<close>

record table_result =
  ret :: int
  codes_arr :: "code list"
  table_end :: nat
  root_bits :: nat
  work_arr :: "nat list"

definition inflate_table ::
  "codetype \<Rightarrow> nat list \<Rightarrow> nat \<Rightarrow> code list \<Rightarrow> nat \<Rightarrow> nat \<Rightarrow> nat list \<Rightarrow> table_result option" where
  "inflate_table type lens codes arr table0 bits work =
     (if codes > length lens then None
      else do {
        cnt \<leftarrow> count_lens (take codes lens) (replicate (MAXBITS + 1) 0);
        let mx = find_max cnt MAXBITS;
        let root0 = (if bits > mx then mx else bits);
        if mx = 0 then
          do { let here = \<lparr>op = 64, cbits = 1, val = 0\<rparr>;
               arr1 \<leftarrow> wr arr table0 here;
               arr2 \<leftarrow> wr arr1 (table0 + 1) here;
               Some \<lparr>ret = 0, codes_arr = arr2, table_end = table0 + 2, root_bits = 1, work_arr = work\<rparr> }
        else
          do { let mn = find_min cnt mx 1;
               let root = (if root0 < mn then mn else root0);
               case left_loop (drop 1 cnt) 1 of
                 None \<Rightarrow> Some \<lparr>ret = -1, codes_arr = arr, table_end = table0, root_bits = bits, work_arr = work\<rparr>
               | Some left \<Rightarrow>
                   if left > 0 \<and> (type = CODES \<or> mx \<noteq> 1) then
                     Some \<lparr>ret = -1, codes_arr = arr, table_end = table0, root_bits = bits, work_arr = work\<rparr>
                   else do {
                     let offs = 0 # offs_loop (take (MAXBITS - 1) (drop 1 cnt)) 0;
                     work1 \<leftarrow> sort_syms (take codes lens) 0 offs work;
                     let used0 = push_bit root 1;
                     if too_big type used0 then
                       Some \<lparr>ret = 1, codes_arr = arr, table_end = table0, root_bits = bits, work_arr = work1\<rparr>
                     else do {
                       r \<leftarrow> fill_tables type lens work1 table0 root mx
                              \<lparr>tab = arr, cnt = cnt, symi = 0, len = mn, huff = 0, nxt = table0, currb = root,
                               drp = 0, low = 2 ^ 32 - 1, used = used0\<rparr>;
                       case r of
                         Inl st \<Rightarrow> Some \<lparr>ret = 1, codes_arr = tab st, table_end = table0, root_bits = bits,
                                         work_arr = work1\<rparr>
                       | Inr st \<Rightarrow>
                           do { tab' \<leftarrow> (if huff st \<noteq> 0
                                         then wr (tab st) (nxt st + huff st)
                                                \<lparr>op = 64, cbits = (len st - drp st) mod 256, val = 0\<rparr>
                                         else Some (tab st));
                                Some \<lparr>ret = 0, codes_arr = tab', table_end = table0 + used st,
                                      root_bits = root, work_arr = work1\<rparr> } } } } })"

section \<open>The length counts\<close>

lemma count_lens_gen:
  "\<lbrakk>\<forall>l\<in>set ls. l < 16; length c = 16; \<forall>l<16. c ! l + count_list ls l < 65536\<rbrakk>
   \<Longrightarrow> count_lens ls c = Some (map (\<lambda>l. c ! l + count_list ls l) [0..<16])"
proof (induction ls arbitrary: c)
  case Nil
  have "map ((!) c) [0..<16] = c" using Nil(2) by (metis map_nth)
  then show ?case by simp
next
  case (Cons l ls)
  have l: "l < 16" "c ! l + 1 < 65536"
    using Cons.prems by (auto dest!: spec [of _ l])
  have "count_lens (l # ls) c = count_lens ls (c[l := c ! l + 1])"
    using Cons.prems(2) l by simp
  also have "\<dots> = Some (map (\<lambda>i. c[l := c ! l + 1] ! i + count_list ls i) [0..<16])"
    using Cons.prems by (intro Cons.IH) (auto simp: nth_list_update)
  also have "map (\<lambda>i. c[l := c ! l + 1] ! i + count_list ls i) [0..<16]
      = map (\<lambda>i. c ! i + count_list (l # ls) i) [0..<16]"
    using Cons.prems(2) by (auto simp: nth_list_update)
  finally show ?case .
qed

definition len_counts :: "nat list \<Rightarrow> nat list" where
  "len_counts ls = map (count_list ls) [0..<16]"

lemma length_len_counts [simp]: "length (len_counts ls) = 16"
  by (simp add: len_counts_def)

lemma nth_len_counts [simp]: "l < 16 \<Longrightarrow> len_counts ls ! l = count_list ls l"
  by (simp add: len_counts_def)

lemma count_lens_eq:
  assumes "\<forall>l\<in>set ls. l \<le> 15" "length ls < 65536"
  shows "count_lens ls (replicate (MAXBITS + 1) 0) = Some (len_counts ls)"
proof -
  have "count_list ls l < 65536" for l
    using count_le_length [of ls l] assms(2) by simp
  then show ?thesis
    using assms count_lens_gen [of ls "replicate 16 0"] by (force simp: MAXBITS_def len_counts_def)
qed

lemma find_max_spec:
  "find_max c m \<le> m" "find_max c m < i \<Longrightarrow> i \<le> m \<Longrightarrow> c ! i = 0"
  "find_max c m \<noteq> 0 \<Longrightarrow> c ! find_max c m \<noteq> 0"
  by (induction m) (auto simp: le_Suc_eq split: if_splits)

lemma find_min_spec:
  "m \<le> mx \<Longrightarrow> m \<le> find_min c mx m \<and> find_min c mx m \<le> mx \<and>
    (\<forall>i. m \<le> i \<and> i < find_min c mx m \<longrightarrow> c ! i = 0) \<and>
    (find_min c mx m < mx \<longrightarrow> c ! find_min c mx m \<noteq> 0)"
proof (induction c mx m rule: find_min.induct)
  case (1 c mx m)
  show ?case
  proof (cases "m < mx \<and> c ! m = 0")
    case True
    define r where "r = find_min c mx (m + 1)"
    have "m + 1 \<le> r \<and> r \<le> mx \<and> (\<forall>i. m + 1 \<le> i \<and> i < r \<longrightarrow> c ! i = 0) \<and> (r < mx \<longrightarrow> c ! r \<noteq> 0)"
      using True 1(1) unfolding r_def by simp
    moreover have "find_min c mx m = r"
      using True by (simp add: r_def find_min.simps [of c mx m])
    moreover have "c ! i = 0" if "m \<le> i" "i < r" "\<forall>i. m + 1 \<le> i \<and> i < r \<longrightarrow> c ! i = 0" for i
      using that True by (cases "i = m") auto
    ultimately show ?thesis by auto
  next
    case False
    then show ?thesis using 1(2) by (auto simp: find_min.simps [of c mx m])
  qed
qed

section \<open>The check for over-subscribed and incomplete sets of lengths\<close>

fun weight :: "nat list \<Rightarrow> nat" where
  "weight [] = 0"
| "weight (c # cs) = c * 2 ^ length cs + weight cs"

lemma left_loop_weight:
  "0 \<le> a \<Longrightarrow> left_loop cs a =
    (if int (weight cs) \<le> a * 2 ^ length cs then Some (a * 2 ^ length cs - int (weight cs)) else None)"
proof (induction cs arbitrary: a)
  case (Cons c cs)
  show ?case
  proof (cases "a * 2 - int c < 0")
    case True
    then have "(a * 2 + 1) * 2 ^ length cs \<le> int c * 2 ^ length cs"
      by (intro mult_right_mono) auto
    moreover have "(a * 2 + 1) * 2 ^ length cs = a * 2 ^ length (c # cs) + 2 ^ length cs"
      by (simp add: algebra_simps)
    ultimately have "a * 2 ^ length (c # cs) < int (weight (c # cs))"
      using zero_less_power [of "2 :: int" "length cs"] by (simp del: zero_less_power)
    then show ?thesis using True by simp
  next
    case False
    then show ?thesis by (simp add: Cons.IH algebra_simps)
  qed
qed simp

lemma weight_upt: "weight (map f [a..<b]) = (\<Sum>i\<in>{a..<b}. f i * 2 ^ (b - 1 - i))"
proof (induction "b - a" arbitrary: a)
  case (Suc n)
  then have "a < b" by simp
  then show ?case using Suc(1) [of "Suc a"] Suc(2)
    by (simp add: upt_conv_Cons sum.atLeast_Suc_lessThan Suc_diff_Suc)
qed simp

lemma count_list_filter: "P x \<Longrightarrow> count_list (filter P xs) x = count_list xs x"
  by (induction xs) auto

lemma weight_counts:
  assumes "\<forall>l\<in>set ls. l \<le> 15"
  shows "weight (drop 1 (len_counts ls)) = kraft (filter (\<lambda>l. l \<noteq> 0) ls)"
proof -
  let ?ls = "filter (\<lambda>l. l \<noteq> 0) ls"
  have "kraft ?ls = (\<Sum>l\<in>set ?ls. count_list ?ls l * 2 ^ (15 - l))"
    unfolding kraft_def by (rule sum_list_map_eq_sum_count)
  also have "\<dots> = (\<Sum>l\<in>{1..<16}. count_list ?ls l * 2 ^ (15 - l))"
  proof (rule sum.mono_neutral_left)
    show "set ?ls \<subseteq> {1..<16}" using assms by (auto simp: le_imp_less_Suc)
  qed (auto simp: count_list_0_iff)
  also have "\<dots> = (\<Sum>l\<in>{1..<16}. count_list ls l * 2 ^ (15 - l))"
    by (intro sum.cong refl) (simp add: count_list_filter)
  finally show ?thesis
    by (simp add: len_counts_def drop_map weight_upt)
qed

section \<open>Sorting the symbols\<close>

text \<open>The symbols that occur, by length and, for equal lengths, in symbol order.\<close>

definition sorted_syms :: "nat list \<Rightarrow> nat list" where
  "sorted_syms ls = sort_key (\<lambda>s. ls ! s) (filter (\<lambda>s. ls ! s \<noteq> 0) [0..<length ls])"

text \<open>The symbols below \<open>n\<close> of length \<open>l\<close>.\<close>

definition of_len :: "nat list \<Rightarrow> nat \<Rightarrow> nat \<Rightarrow> nat list" where
  "of_len ls n l = filter (\<lambda>s. ls ! s = l) [0..<n]"

lemma length_of_len: "n \<le> length ls \<Longrightarrow> length (of_len ls n l) = count_list (take n ls) l"
proof (induction n)
  case (Suc n)
  then show ?case by (simp add: of_len_def take_Suc_conv_app_nth)
qed (simp add: of_len_def)

lemma of_len_Suc: "of_len ls (Suc n) l = of_len ls n l @ (if ls ! n = l then [n] else [])"
  by (simp add: of_len_def)

lemma sorted_concat_keys:
  assumes "sorted_wrt (<) ks" "\<forall>k. \<forall>x\<in>set (g k). f x = k"
  shows "sorted (map f (concat (map g ks)))"
  using assms(1)
proof (induction ks)
  case (Cons k ks)
  have "sorted (map f (g k))"
    using assms(2) by (intro sorted_wrt_mono_rel [OF _ sorted_wrt_true]) auto
  then show ?case using Cons assms(2) by (auto simp: sorted_append intro: less_imp_le)
qed simp

lemma concat_map_single:
  "distinct ks \<Longrightarrow> concat (map (\<lambda>k. if k = a then xs else []) ks) = (if a \<in> set ks then xs else [])"
  by (induction ks) auto

lemma filter_of_len: "filter (\<lambda>s. ls ! s = a) (of_len ls n l) = (if l = a then of_len ls n a else [])"
  by (auto simp: of_len_def filter_empty_conv intro: filter_cong)

lemma mset_concat_keys: "mset (concat (map g ks)) = (\<Sum>k\<leftarrow>ks. mset (g k))"
  by (induction ks) simp_all

lemma sorted_syms_concat:
  assumes "\<forall>l\<in>set ls. l \<le> 15"
  shows "sorted_syms ls = concat (map (of_len ls (length ls)) [1..<16])"
  unfolding sorted_syms_def
proof (rule properties_for_sort_key)
  let ?ys = "concat (map (of_len ls (length ls)) [1..<16])"
  let ?xs = "filter (\<lambda>s. ls ! s \<noteq> 0) [0..<length ls]"
  have f: "filter (\<lambda>s. ls ! s = a) ?ys = filter (\<lambda>s. ls ! s = a) ?xs" if "a \<noteq> 0" for a
  proof (cases "a < 16")
    case True
    have "filter (\<lambda>s. ls ! s = a) ?xs = of_len ls (length ls) a"
      using that by (auto simp: of_len_def intro: filter_cong)
    then show ?thesis using True that
      by (simp add: filter_concat filter_of_len concat_map_single comp_def del: upt_Suc)
  next
    case False
    then have "ls ! s \<noteq> a" if "s < length ls" for s using assms nth_mem [OF that] by fastforce
    then show ?thesis using False
      by (auto simp: filter_concat filter_of_len concat_map_single comp_def filter_empty_conv simp del: upt_Suc)
  qed
  show "mset ?ys = mset ?xs"
  proof (rule multiset_eqI)
    fix x
    show "count (mset ?ys) x = count (mset ?xs) x"
    proof (cases "ls ! x = 0")
      case True
      then have "x \<notin> set ?ys" "x \<notin> set ?xs" by (auto simp: of_len_def)
      then show ?thesis by (metis count_mset_0_iff)
    next
      case False
      have "count (mset zs) x = count (mset (filter (\<lambda>s. ls ! s = ls ! x) zs)) x" for zs by simp
      then show ?thesis using f [OF False] by metis
    qed
  qed
  show "filter (\<lambda>x. ls ! k = ls ! x) ?ys = filter (\<lambda>x. ls ! k = ls ! x) ?xs" if "k \<in> set ?ys" for k
  proof -
    have "ls ! k \<noteq> 0" using that by (auto simp: of_len_def)
    moreover have "(\<lambda>x. ls ! k = ls ! x) = (\<lambda>x. ls ! x = ls ! k)" by auto
    ultimately show ?thesis using f [of "ls ! k"] by simp
  qed
  show "sorted (map (\<lambda>s. ls ! s) ?ys)"
    by (rule sorted_concat_keys) (auto simp: of_len_def)
qed

text \<open>Where the symbols of length \<open>l\<close> start in the sorted order.\<close>

definition start :: "nat list \<Rightarrow> nat \<Rightarrow> nat" where
  "start ls l = (\<Sum>i\<in>{1..<l}. count_list ls i)"

lemma start_Suc: "1 \<le> l \<Longrightarrow> start ls (Suc l) = start ls l + count_list ls l"
  by (simp add: start_def)

lemma start_mono: "l \<le> m \<Longrightarrow> start ls l \<le> start ls m"
  unfolding start_def by (rule sum_mono2) auto

lemma start_le_length: "start ls l \<le> length ls"
proof -
  have "count_list (a # xs) i = count_list xs i + (if i = a then 1 else 0)" for a i and xs :: "nat list" by simp
  then have "start ls l = length (filter (\<lambda>x. x \<in> {1..<l}) ls)" for ls
    by (induction ls) (simp_all add: start_def sum.distrib del: count_list.simps(2))
  then show ?thesis by (metis length_filter_le)
qed

lemma offs_loop_nth:
  assumes "o1 = start ls a" "1 \<le> a" "a + n \<le> 16" "length ls < 65536" "i \<le> n"
  shows "length (offs_loop (map (count_list ls) [a..<a + n]) o1) = n + 1 \<and>
         offs_loop (map (count_list ls) [a..<a + n]) o1 ! i = start ls (a + i)"
  using assms
proof (induction n arbitrary: a o1 i)
  case (Suc n)
  have *: "(o1 + count_list ls a) mod 65536 = start ls (Suc a)"
    using Suc.prems start_le_length [of ls "Suc a"] by (simp add: start_Suc)
  have "[a..<a + Suc n] = a # [Suc a..<Suc a + n]" by (simp add: upt_conv_Cons)
  then show ?case
    using Suc.IH [of "start ls (Suc a)" "Suc a" "i - 1"] Suc.prems * by (cases i) simp_all
qed simp

definition sort_inv :: "nat list \<Rightarrow> nat \<Rightarrow> nat list \<Rightarrow> nat list \<Rightarrow> bool" where
  "sort_inv ls n offs work \<longleftrightarrow> length offs = 16 \<and> start ls 16 \<le> length work \<and>
     (\<forall>l\<in>{1..15}. offs ! l = start ls l + length (of_len ls n l) \<and>
        (\<forall>i<length (of_len ls n l). work ! (start ls l + i) = of_len ls n l ! i))"

lemma of_len_bound: "n \<le> length ls \<Longrightarrow> length (of_len ls n l) \<le> count_list ls l"
  by (simp add: length_of_len) (metis count_list_append append_take_drop_id le_add1)

lemma sort_inv_step:
  assumes inv: "sort_inv ls n offs work" and n: "n < length ls" and l: "ls ! n = l" "l \<noteq> 0" "l \<le> 15"
  shows "offs ! l < length work \<and> offs ! l < length ls \<and>
         sort_inv ls (Suc n) (offs[l := offs ! l + 1]) (work[offs ! l := n])"
proof -
  have len: "length (of_len ls (Suc n) l) = length (of_len ls n l) + 1"
    using l by (simp add: of_len_Suc)
  have o: "offs ! l = start ls l + length (of_len ls n l)"
    using inv l by (auto simp: sort_inv_def)
  have lt: "offs ! l < start ls (Suc l)"
    using of_len_bound [of "Suc n" ls l] n len l by (simp add: o start_Suc)
  also have "\<dots> \<le> start ls 16" using l by (intro start_mono) simp
  finally have b: "offs ! l < length work" "offs ! l < length ls"
    using inv start_le_length [of ls 16] by (auto simp: sort_inv_def)
  have "work[offs ! l := n] ! (start ls k + i) = of_len ls (Suc n) k ! i"
    if k: "k \<in> {1..15}" and i: "i < length (of_len ls (Suc n) k)" for k i
  proof (cases "k = l")
    case True
    then show ?thesis using inv l i b o k
      by (cases "i = length (of_len ls n l)") (auto simp: sort_inv_def of_len_Suc nth_append)
  next
    case False
    have "start ls k + i < start ls (Suc k)"
      using i of_len_bound [of "Suc n" ls k] n k by (simp add: start_Suc)
    then have "start ls k + i \<noteq> offs ! l"
      using lt o False start_mono [of "Suc k" l ls] start_mono [of "Suc l" k ls]
      by (cases k l rule: linorder_cases) auto
    then show ?thesis using inv k i False l by (simp add: sort_inv_def of_len_Suc)
  qed
  then show ?thesis using inv b l o by (auto simp: sort_inv_def of_len_Suc nth_list_update)
qed

lemma sort_syms_inv:
  assumes "sort_inv ls n offs work" "n \<le> length ls" "\<forall>l\<in>set ls. l \<le> 15" "length ls < 65536"
  shows "\<exists>offs' work'. sort_syms (drop n ls) n offs work = Some work' \<and> length work' = length work \<and>
           sort_inv ls (length ls) offs' work'"
  using assms
proof (induction "length ls - n" arbitrary: n offs work)
  case 0
  then show ?case by auto
next
  case (Suc k)
  then have n: "n < length ls" by simp
  let ?l = "ls ! n"
  have d: "drop n ls = ?l # drop (Suc n) ls" using n by (simp add: Cons_nth_drop_Suc)
  show ?case
  proof (cases "?l = 0")
    case True
    then have "sort_inv ls (Suc n) offs work"
      using Suc.prems(1) by (auto simp: sort_inv_def of_len_Suc)
    then show ?thesis using Suc.hyps(1) [of "Suc n" offs work] Suc.hyps(2) Suc.prems n True by (simp add: d)
  next
    case False
    have l15: "?l \<le> 15" using Suc.prems(3) n by simp
    note s = sort_inv_step [OF Suc.prems(1) n refl False l15]
    have "length offs = 16" using Suc.prems(1) by (simp add: sort_inv_def)
    then have "sort_syms (drop n ls) n offs work =
        sort_syms (drop (Suc n) ls) (Suc n) (offs[?l := offs ! ?l + 1]) (work[offs ! ?l := n])"
      using s False l15 n Suc.prems(4) by (simp add: d)
    then show ?thesis
      using Suc.hyps(1) [of "Suc n" "offs[?l := offs ! ?l + 1]" "work[offs ! ?l := n]"] Suc.hyps(2) s n Suc.prems
      by simp
  qed
qed

lemma sort_inv_final:
  assumes "sort_inv ls (length ls) offs work" "m \<le> 15"
  shows "take (start ls (Suc m)) work = concat (map (of_len ls (length ls)) [1..<Suc m])"
  using assms(2)
proof (induction m)
  case (Suc m)
  let ?s = "start ls (Suc m)" and ?o = "of_len ls (length ls) (Suc m)"
  have len: "length ?o = count_list ls (Suc m)" by (simp add: length_of_len)
  have le: "start ls (Suc (Suc m)) \<le> length work"
    using assms(1) start_mono [of "Suc (Suc m)" 16 ls] Suc.prems by (auto simp: sort_inv_def)
  have "take (start ls (Suc (Suc m))) work = take ?s work @ take (length ?o) (drop ?s work)"
    by (simp add: start_Suc [of "Suc m"] len take_add)
  also have "take (length ?o) (drop ?s work) = ?o"
    using assms(1) Suc.prems le by (intro nth_equalityI) (auto simp: sort_inv_def len start_Suc)
  finally show ?case using Suc by simp
qed (simp add: start_def)

lemma sort_syms_correct:
  assumes "\<forall>l\<in>set ls. l \<le> 15" "length ls < 65536" "length ls \<le> length work"
  shows "\<exists>work'. sort_syms ls 0 (0 # offs_loop (take (MAXBITS - 1) (drop 1 (len_counts ls))) 0) work = Some work' \<and>
           length work' = length work \<and> take (length (sorted_syms ls)) work' = sorted_syms ls"
proof -
  let ?offs = "0 # offs_loop (take (MAXBITS - 1) (drop 1 (len_counts ls))) 0"
  have e: "take (MAXBITS - 1) (drop 1 (len_counts ls)) = map (count_list ls) [1..<1 + 14]"
    by (simp add: MAXBITS_def len_counts_def drop_map take_map del: upt_Suc)
  have *: "?offs ! l = start ls l" if "l \<in> {1..15}" for l
    using that offs_loop_nth [of 0 ls 1 14 "l - 1"] assms(2) unfolding e by (auto simp: start_def nth_Cons')
  have "length ?offs = 16"
    using offs_loop_nth [of 0 ls 1 14 0] assms(2) unfolding e by (simp add: start_def)
  then have "sort_inv ls 0 ?offs work"
    using * start_le_length [of ls 16] assms(3) by (auto simp: sort_inv_def of_len_def)
  then obtain offs' work' where w: "sort_syms ls 0 ?offs work = Some work'" "length work' = length work"
      "sort_inv ls (length ls) offs' work'"
    using sort_syms_inv [of ls 0 ?offs work] assms by auto
  have "take (start ls 16) work' = sorted_syms ls"
    using sort_inv_final [OF w(3), of 15] sorted_syms_concat [OF assms(1)] by simp
  moreover from this have "length (sorted_syms ls) = start ls 16"
    using w(2) start_le_length [of ls 16] assms(3) by (metis length_take min.absorb2 le_trans)
  ultimately show ?thesis using w by auto
qed

end
