(* ===== verification/InflateState.thy ===== *)
theory InflateState
  imports Inffixed Adler32 Crc32
begin

text \<open>
  zlib/inflate.h and the macros of zlib/inflate.c: the state of the decompressor. \<open>inflate_state\<close> is
  the structure of the same name, \<open>z_stream\<close> the public stream; the buffers are byte lists: \<open>next_in\<close>
  is the unread input (its length is \<open>avail_in\<close>), \<open>out_mem\<close> the memory that ends where \<open>next_out\<close>
  points, \<open>avail_out\<close> the room after it. The variables \<open>put\<close>, \<open>left\<close>, \<open>next\<close>, \<open>have\<close>, \<open>hold\<close>,
  \<open>bits\<close> that \<open>inflate()\<close> keeps in registers between \<open>LOAD()\<close> and \<open>RESTORE()\<close> are, with its other
  locals, the record \<open>loop\<close>, which extends the state. The build is the one of the project files:
  \<open>GUNZIP\<close> defined; \<open>BUILDFIXED\<close>, \<open>INFLATE_STRICT\<close>, \<open>PKZIP_BUG_WORKAROUND\<close> and
  \<open>INFLATE_ALLOW_INVALID_DISTANCE_TOOFAR_ARRR\<close> not defined. \<open>unsigned long\<close> has 32 bits.
\<close>

section \<open>Return codes and flush values\<close>

definition Z_NO_FLUSH :: int where "Z_NO_FLUSH = 0"
definition Z_FINISH :: int where "Z_FINISH = 4"
definition Z_BLOCK :: int where "Z_BLOCK = 5"
definition Z_TREES :: int where "Z_TREES = 6"
definition Z_OK :: int where "Z_OK = 0"
definition Z_STREAM_END :: int where "Z_STREAM_END = 1"
definition Z_NEED_DICT :: int where "Z_NEED_DICT = 2"
definition Z_STREAM_ERROR :: int where "Z_STREAM_ERROR = -2"
definition Z_DATA_ERROR :: int where "Z_DATA_ERROR = -3"
definition Z_MEM_ERROR :: int where "Z_MEM_ERROR = -4"
definition Z_BUF_ERROR :: int where "Z_BUF_ERROR = -5"
definition Z_VERSION_ERROR :: int where "Z_VERSION_ERROR = -6"
definition Z_DEFLATED :: nat where "Z_DEFLATED = 8"

lemmas z_codes = Z_NO_FLUSH_def Z_FINISH_def Z_BLOCK_def Z_TREES_def Z_OK_def Z_STREAM_END_def Z_NEED_DICT_def
  Z_STREAM_ERROR_def Z_DATA_ERROR_def Z_MEM_ERROR_def Z_BUF_ERROR_def Z_VERSION_ERROR_def Z_DEFLATED_def

section \<open>State\<close>

datatype inflate_mode =
    HEAD | FLAGS | TIME | OS | EXLEN | EXTRA | NAME | COMMENT | HCRC | DICTID | DICT
  | TYPE_M | TYPEDO | STORED | COPY_FIRST | COPY | TABLE | LENLENS | CODELENS
  | LEN_FIRST | LEN | LENEXT | DIST | DISTEXT | MATCH | LIT
  | CHECK | LENGTH_M | DONE | BAD | MEM | SYNC

text \<open>Where \<open>lencode\<close> and \<open>distcode\<close> point: into \<open>state->codes\<close>, or to one of the fixed tables.\<close>

datatype code_ptr = Codes nat | Lenfix | Distfix

text \<open>The gzip header structure of the application; the \<open>_max\<close> fields are the space at the buffers.\<close>

record gz_header =
  gz_text :: int
  gz_time :: u32
  gz_xflags :: int
  gz_os :: int
  gz_extra :: "byte list option"
  gz_extra_len :: u32
  gz_extra_max :: u32
  gz_name :: "byte list option"
  gz_name_max :: nat
  gz_comment :: "byte list option"
  gz_comm_max :: nat
  gz_hcrc :: int
  gz_done :: int

record inflate_state =
  strm_ok :: bool
  mode :: inflate_mode
  last_block :: bool
  wrap :: nat
  havedict :: bool
  flags :: u32
  dmax :: nat
  check :: u32
  total_cnt :: u32
  head :: "gz_header option"
  wbits :: nat
  wsize :: nat
  whave :: nat
  wnext :: nat
  window :: "byte list option"
  hold :: u32
  bits :: nat
  mlen :: nat
  offset :: nat
  extra :: nat
  lencode :: code_ptr
  distcode :: code_ptr
  lenbits :: nat
  distbits :: nat
  ncode :: nat
  nlen :: nat
  ndist :: nat
  have_lens :: nat
  next_code :: nat
  lens :: "nat list"
  work :: "nat list"
  codes :: "code list"
  sane :: bool
  back_bits :: int
  was :: nat

record z_stream =
  next_in :: "byte list"
  next_in_null :: bool
  total_in :: u32
  out_mem :: "byte list"
  next_out_null :: bool
  avail_out :: nat
  total_out :: u32
  msg :: "string option"
  state :: "inflate_state option"
  zalloc_set :: bool
  zfree_set :: bool
  data_type :: int
  adler :: u32

text \<open>The locals of \<open>inflate()\<close>, with the stream fields it changes on the way.\<close>

record loop = inflate_state +
  inp :: "byte list"
  put :: "byte list"
  left :: nat
  in_start :: nat
  out_start :: nat
  ret_code :: int
  l_msg :: "string option"
  l_adler :: u32
  l_total_out :: u32

text \<open>
  What one pass through the switch does: continue the loop (a \<open>break\<close>, or falling into the next case
  after setting its mode), \<open>goto inf_leave\<close>, return at once, or an access outside a buffer.
\<close>

datatype outcome = Next loop | Leave loop | Return int loop | Fault

section \<open>Macros\<close>

text \<open>\<open>zalloc\<close> is the caller's allocator: the memory it returns, if any, has arbitrary contents.\<close>

type_synonym zalloc = "nat \<Rightarrow> byte list option"

text \<open>
  The checksum functions. The value of \<open>crc32\<close> does not depend on the alignment of the buffer nor on
  the byte order, so any choice of these parameters models the call.
\<close>

definition crc32_buf :: "u32 \<Rightarrow> byte list \<Rightarrow> u32" where
  "crc32_buf c buf = crc32 True True 0 c (Some buf)"

definition UPDATE :: "u32 \<Rightarrow> u32 \<Rightarrow> byte list \<Rightarrow> u32" where
  "UPDATE fl c buf = (if fl \<noteq> 0 then crc32_buf c buf else adler32 c (Some buf))"

definition CRC2 :: "u32 \<Rightarrow> u32 \<Rightarrow> u32" where
  "CRC2 c w = crc32_buf c [ucast w, ucast (drop_bit 8 w)]"

definition CRC4 :: "u32 \<Rightarrow> u32 \<Rightarrow> u32" where
  "CRC4 c w = crc32_buf c [ucast w, ucast (drop_bit 8 w), ucast (drop_bit 16 w), ucast (drop_bit 24 w)]"

definition INITBITS :: "loop \<Rightarrow> loop" where
  "INITBITS s = s\<lparr>hold := 0, bits := 0\<rparr>"

text \<open>\<open>PULLBYTE()\<close> with a byte available.\<close>

definition PULLBYTE :: "byte \<Rightarrow> byte list \<Rightarrow> loop \<Rightarrow> loop" where
  "PULLBYTE b bs s = s\<lparr>inp := bs, hold := hold s + push_bit (bits s) (ucast b), bits := bits s + 8\<rparr>"

text \<open>\<open>NEEDBITS(n)\<close>: \<^term>\<open>Inl s\<close> is the jump to \<open>inf_leave\<close> for lack of input.\<close>

function NEEDBITS :: "nat \<Rightarrow> loop \<Rightarrow> loop + loop" where
  "NEEDBITS n s =
     (if bits s < n then (case inp s of [] \<Rightarrow> Inl s | b # bs \<Rightarrow> NEEDBITS n (PULLBYTE b bs s))
      else Inr s)"
  by pat_completeness auto
termination by (relation "measure (\<lambda>(_, s). length (inp s))") (auto simp: PULLBYTE_def)

declare NEEDBITS.simps [simp del]

definition need :: "nat \<Rightarrow> loop \<Rightarrow> (loop \<Rightarrow> outcome) \<Rightarrow> outcome" where
  "need n s k = (case NEEDBITS n s of Inl s' \<Rightarrow> Leave s' | Inr s' \<Rightarrow> k s')"

definition BITS :: "nat \<Rightarrow> loop \<Rightarrow> nat" where
  "BITS n s = unat (hold s AND (push_bit n 1 - 1))"

text \<open>\<open>DROPBITS(n)\<close> is only reached with \<open>n \<le> bits\<close>.\<close>

definition DROPBITS :: "nat \<Rightarrow> loop \<Rightarrow> loop" where
  "DROPBITS n s = s\<lparr>hold := drop_bit n (hold s), bits := bits s - n\<rparr>"

definition BYTEBITS :: "loop \<Rightarrow> loop" where
  "BYTEBITS s = s\<lparr>hold := drop_bit (bits s mod 8) (hold s), bits := bits s - bits s mod 8\<rparr>"

definition bad :: "string \<Rightarrow> loop \<Rightarrow> outcome" where
  "bad m s = Next (s\<lparr>l_msg := Some m, mode := BAD\<rparr>)"

text \<open>Reading a decoding table.\<close>

definition table_at :: "loop \<Rightarrow> code_ptr \<Rightarrow> nat \<Rightarrow> code option" where
  "table_at s p i = (case p of Codes o1 \<Rightarrow> rd (codes s) (o1 + i) | Lenfix \<Rightarrow> rd lenfix i | Distfix \<Rightarrow> rd distfix i)"

end
