(* ===== verification/Inffast.thy ===== *)
theory Inffast
  imports InflateState
begin

text \<open>
  zlib/inffast.c: \<open>inflate_fast\<close>, the decoding loop that runs while there are at least 6 bytes of
  input and room for 258 bytes of output. \<open>in\<close> is an index into the input the call started with,
  \<open>out\<close> the memory that ends where it points.
\<close>

record fast =
  fin :: nat
  fhold :: u32
  fbits :: nat
  fout :: "byte list"

text \<open>One pass: continue, end with a mode and a message, or a wild access.\<close>

datatype fres = FCont fast | FEnd inflate_mode "string option" fast | FWild

definition fpull :: "loop \<Rightarrow> fast \<Rightarrow> fast option" where
  "fpull s f =
     map_option (\<lambda>b. f\<lparr>fin := fin f + 1, fhold := fhold f + push_bit (fbits f) (ucast b), fbits := fbits f + 8\<rparr>)
       (rd (inp s) (fin f))"

definition fdrop :: "nat \<Rightarrow> fast \<Rightarrow> fast" where
  "fdrop n f = f\<lparr>fhold := drop_bit n (fhold f), fbits := fbits f - n\<rparr>"

definition fmask :: "nat \<Rightarrow> fast \<Rightarrow> nat" where
  "fmask n f = unat (fhold f AND (push_bit n 1 - 1))"

text \<open>\<open>if (bits < 15)\<close>: two more bytes.\<close>

definition fpull15 :: "loop \<Rightarrow> fast \<Rightarrow> fast option" where
  "fpull15 s f = (if fbits f < 15 then Option.bind (fpull s f) (fpull s) else Some f)"

text \<open>\<open>from\<close> points into the window or into the output.\<close>

datatype src = Win nat | Mem nat

fun copy_byte :: "byte list \<Rightarrow> src \<times> byte list \<Rightarrow> (src \<times> byte list) option" where
  "copy_byte win (Win i, out) = map_option (\<lambda>b. (Win (i + 1), out @ [b])) (rd win i)"
| "copy_byte win (Mem i, out) = map_option (\<lambda>b. (Mem (i + 1), out @ [b])) (rd out i)"

text \<open>\<open>do { *out++ = *from++; } while (--n)\<close> for a positive \<open>n\<close>.\<close>

fun copy_bytes :: "byte list \<Rightarrow> nat \<Rightarrow> src \<times> byte list \<Rightarrow> (src \<times> byte list) option" where
  "copy_bytes win 0 p = Some p"
| "copy_bytes win (Suc n) p = Option.bind (copy_byte win p) (copy_bytes win n)"

text \<open>\<open>while (len > 2) { three bytes; len -= 3; } if (len) { one byte; if (len > 1) one byte; }\<close>.\<close>

function copy_threes :: "byte list \<Rightarrow> nat \<Rightarrow> src \<times> byte list \<Rightarrow> (src \<times> byte list) option" where
  "copy_threes win ml p =
     (if ml > 2 then Option.bind (copy_bytes win 3 p) (copy_threes win (ml - 3))
      else if ml = 0 then Some p
      else Option.bind (copy_byte win p) (\<lambda>p. if ml > 1 then copy_byte win p else Some p))"
  by pat_completeness auto
termination by (relation "measure (\<lambda>(_, ml, _). ml)") auto

declare copy_threes.simps [simp del]

text \<open>
  The copy of a match from the window: \<open>n\<close> is the distance back in the window, \<open>op\<close> in the code. The
  part in the window is copied first, around its end if necessary, the rest from the output.
\<close>

definition window_copy :: "loop \<Rightarrow> byte list \<Rightarrow> nat \<Rightarrow> nat \<Rightarrow> nat \<Rightarrow> byte list \<Rightarrow> byte list option" where
  "window_copy s win n dist ml out =
     map_option snd
       (if wnext s = 0 then
          if n < ml then
            Option.bind (copy_bytes win n (Win (wsize s - n), out))
              (\<lambda>(_, out). copy_threes win (ml - n) (Mem (length out - dist), out))
          else copy_threes win ml (Win (wsize s - n), out)
        else if wnext s < n then
          let n' = n - wnext s
          in if n' < ml then
               Option.bind (copy_bytes win n' (Win (wsize s + wnext s - n), out))
                 (\<lambda>(_, out).
                   let ml = ml - n'
                   in if wnext s < ml then
                        Option.bind (copy_bytes win (wnext s) (Win 0, out))
                          (\<lambda>(_, out). copy_threes win (ml - wnext s) (Mem (length out - dist), out))
                      else copy_threes win ml (Win 0, out))
             else copy_threes win ml (Win (wsize s + wnext s - n), out)
        else if n < ml then
          Option.bind (copy_bytes win n (Win (wnext s - n), out))
            (\<lambda>(_, out). copy_threes win (ml - n) (Mem (length out - dist), out))
        else copy_threes win ml (Win (wnext s - n), out))"

text \<open>
  The copy of a match of \<open>len\<close> bytes from distance \<open>dist\<close>. The direct copy from the output is a
  \<open>do-while\<close> that assumes \<open>len \<ge> 3\<close>.
\<close>

definition match_copy :: "loop \<Rightarrow> nat \<Rightarrow> nat \<Rightarrow> fast \<Rightarrow> fres" where
  "match_copy s ml dist f =
     (let n = length (fout f) - length (put s) + (out_start s - left s)
      in if dist > n then
           if dist - n > whave s \<and> sane s then FEnd BAD (Some ''invalid distance too far back'') f
           else (case Option.bind (window s) (\<lambda>win. window_copy s win (dist - n) dist ml (fout f)) of
                   None \<Rightarrow> FWild | Some out \<Rightarrow> FCont (f\<lparr>fout := out\<rparr>))
         else if ml < 3 \<or> dist > length (fout f) then FWild
         else (case copy_threes [] ml (Mem (length (fout f) - dist), fout f) of
                 None \<Rightarrow> FWild | Some (_, out) \<Rightarrow> FCont (f\<lparr>fout := out\<rparr>)))"

text \<open>
  The labels \<open>dodist\<close> and \<open>dolen\<close>; the first argument bounds the jumps to the next table level, of
  which there are at most two.
\<close>

fun dodist :: "nat \<Rightarrow> loop \<Rightarrow> nat \<Rightarrow> code \<Rightarrow> fast \<Rightarrow> fres" where
  "dodist 0 s ml here f = FWild"
| "dodist (Suc k) s ml here f =
     (let f = fdrop (cbits here) f; o1 = op here
      in if o1 AND 16 \<noteq> 0 then
           let o1 = o1 AND 15
           in case (if fbits f < o1
                    then Option.bind (fpull s f) (\<lambda>f. if fbits f < o1 then fpull s f else Some f)
                    else Some f) of
                None \<Rightarrow> FWild
              | Some f \<Rightarrow> match_copy s ml (val here + fmask o1 f) (fdrop o1 f)
         else if o1 AND 64 = 0 then
           (case table_at s (distcode s) (val here + fmask o1 f) of
              None \<Rightarrow> FWild | Some here' \<Rightarrow> dodist k s ml here' f)
         else FEnd BAD (Some ''invalid distance code'') f)"

fun dolen :: "nat \<Rightarrow> loop \<Rightarrow> code \<Rightarrow> fast \<Rightarrow> fres" where
  "dolen 0 s here f = FWild"
| "dolen (Suc k) s here f =
     (let f = fdrop (cbits here) f; o1 = op here
      in if o1 = 0 then FCont (f\<lparr>fout := fout f @ [word_of_nat (val here)]\<rparr>)
         else if o1 AND 16 \<noteq> 0 then
           let o1 = o1 AND 15
           in case (if o1 \<noteq> 0 \<and> fbits f < o1 then fpull s f else Some f) of
                None \<Rightarrow> FWild
              | Some f \<Rightarrow>
                  let ml = val here + fmask o1 f; f = fdrop o1 f
                  in case fpull15 s f of
                       None \<Rightarrow> FWild
                     | Some f \<Rightarrow>
                         (case table_at s (distcode s) (fmask (distbits s) f) of
                            None \<Rightarrow> FWild | Some here' \<Rightarrow> dodist 16 s ml here' f)
         else if o1 AND 64 = 0 then
           (case table_at s (lencode s) (val here + fmask o1 f) of
              None \<Rightarrow> FWild | Some here' \<Rightarrow> dolen k s here' f)
         else if o1 AND 32 \<noteq> 0 then FEnd TYPE_M None f
         else FEnd BAD (Some ''invalid literal/length code'') f)"

definition fast_pass :: "loop \<Rightarrow> fast \<Rightarrow> fres" where
  "fast_pass s f =
     (case fpull15 s f of
        None \<Rightarrow> FWild
      | Some f \<Rightarrow>
          (case table_at s (lencode s) (fmask (lenbits s) f) of
             None \<Rightarrow> FWild | Some here \<Rightarrow> dolen 16 s here f))"

text \<open>
  The \<open>do-while\<close> loop. Every pass that continues writes at least one byte, so \<open>avail_out\<close> passes are
  enough; that many are the first argument.
\<close>

fun fast_loop :: "nat \<Rightarrow> loop \<Rightarrow> fast \<Rightarrow> fres" where
  "fast_loop 0 s f = FWild"
| "fast_loop (Suc n) s f =
     (case fast_pass s f of
        FCont f' \<Rightarrow>
          if fin f' < length (inp s) - 5 \<and> length (fout f') - length (put s) < left s - 257
          then fast_loop n s f' else FCont f'
      | r \<Rightarrow> r)"

text \<open>Returning unused bytes and restoring the state.\<close>

definition fast_return :: "loop \<Rightarrow> fast \<Rightarrow> loop" where
  "fast_return s f =
     (let n = fbits f div 8; b = fbits f - n * 8
      in s\<lparr>inp := drop (fin f - n) (inp s), put := fout f,
           left := left s - (length (fout f) - length (put s)),
           bits := b, hold := fhold f AND (push_bit b 1 - 1)\<rparr>)"

definition inflate_fast :: "loop \<Rightarrow> loop option" where
  "inflate_fast s =
     (case fast_loop (left s) s \<lparr>fin = 0, fhold = hold s, fbits = bits s, fout = put s\<rparr> of
        FWild \<Rightarrow> None
      | FCont f \<Rightarrow> Some (fast_return s f)
      | FEnd m e f \<Rightarrow> Some ((fast_return s f)\<lparr>mode := m, l_msg := (case e of None \<Rightarrow> l_msg s | Some t \<Rightarrow> Some t)\<rparr>))"

end
