(* ===== verification/Inflate.thy ===== *)
theory Inflate
  imports Inffast
begin

text \<open>
  zlib/inflate.c: the decompressor. Every mode of \<open>inflate()\<close> is one step function on the record
  \<open>loop\<close>; \<open>inflate\<close> runs them, and the other functions of the file follow in its order.
\<close>

section \<open>The gzip and zlib headers\<close>

definition hcrc_on :: "loop \<Rightarrow> bool" where
  "hcrc_on s \<longleftrightarrow> flags s AND 0x0200 \<noteq> 0 \<and> bit (wrap s) 2"

definition step_HEAD :: "loop \<Rightarrow> outcome" where
  "step_HEAD s =
     (if wrap s = 0 then Next (s\<lparr>mode := TYPEDO\<rparr>)
      else need 16 s (\<lambda>s.
        if bit (wrap s) 1 \<and> hold s = 0x8b1f then
          let s = (if wbits s = 0 then s\<lparr>wbits := 15\<rparr> else s);
              s = s\<lparr>check := crc32 True True 0 0 None\<rparr>;
              s = s\<lparr>check := CRC2 (check s) (hold s)\<rparr>
          in Next ((INITBITS s)\<lparr>mode := FLAGS\<rparr>)
        else
          let s = s\<lparr>flags := 0\<rparr>;
              s = s\<lparr>head := map_option (gz_done_update (\<lambda>_. -1)) (head s)\<rparr>
          in if \<not> bit (wrap s) 0 \<or> (push_bit 8 (word_of_nat (BITS 8 s)) + drop_bit 8 (hold s)) mod 31 \<noteq> 0
             then bad ''incorrect header check'' s
             else if BITS 4 s \<noteq> Z_DEFLATED then bad ''unknown compression method'' s
             else
               let s = DROPBITS 4 s;
                   len = BITS 4 s + 8;
                   s = (if wbits s = 0 then s\<lparr>wbits := len\<rparr> else s)
               in if len > 15 \<or> len > wbits s then bad ''invalid window size'' s
                  else
                    let s = s\<lparr>dmax := 2 ^ len, check := adler32 0 None\<rparr>;
                        s = s\<lparr>l_adler := check s, mode := (if hold s AND 0x200 \<noteq> 0 then DICTID else TYPE_M)\<rparr>
                    in Next (INITBITS s)))"

definition step_FLAGS :: "loop \<Rightarrow> outcome" where
  "step_FLAGS s =
     need 16 s (\<lambda>s.
       let s = s\<lparr>flags := hold s\<rparr>
       in if unat (flags s AND 0xff) \<noteq> Z_DEFLATED then bad ''unknown compression method'' s
          else if flags s AND 0xe000 \<noteq> 0 then bad ''unknown header flags set'' s
          else
            let s = s\<lparr>head := map_option (gz_text_update (\<lambda>_. of_bool (bit (hold s) 8))) (head s)\<rparr>;
                s = (if hcrc_on s then s\<lparr>check := CRC2 (check s) (hold s)\<rparr> else s)
            in Next ((INITBITS s)\<lparr>mode := TIME\<rparr>))"

definition step_TIME :: "loop \<Rightarrow> outcome" where
  "step_TIME s =
     need 32 s (\<lambda>s.
       let s = s\<lparr>head := map_option (gz_time_update (\<lambda>_. hold s)) (head s)\<rparr>;
           s = (if hcrc_on s then s\<lparr>check := CRC4 (check s) (hold s)\<rparr> else s)
       in Next ((INITBITS s)\<lparr>mode := OS\<rparr>))"

definition step_OS :: "loop \<Rightarrow> outcome" where
  "step_OS s =
     need 16 s (\<lambda>s.
       let s = s\<lparr>head := map_option (\<lambda>h. h\<lparr>gz_xflags := uint (hold s AND 0xff), gz_os := uint (drop_bit 8 (hold s))\<rparr>) (head s)\<rparr>;
           s = (if hcrc_on s then s\<lparr>check := CRC2 (check s) (hold s)\<rparr> else s)
       in Next ((INITBITS s)\<lparr>mode := EXLEN\<rparr>))"

definition step_EXLEN :: "loop \<Rightarrow> outcome" where
  "step_EXLEN s =
     (if flags s AND 0x0400 \<noteq> 0 then
        need 16 s (\<lambda>s.
          let s = s\<lparr>mlen := unat (hold s), head := map_option (gz_extra_len_update (\<lambda>_. hold s)) (head s)\<rparr>;
              s = (if hcrc_on s then s\<lparr>check := CRC2 (check s) (hold s)\<rparr> else s)
          in Next ((INITBITS s)\<lparr>mode := EXTRA\<rparr>))
      else Next (s\<lparr>head := map_option (gz_extra_update (\<lambda>_. None)) (head s), mode := EXTRA\<rparr>))"

text \<open>\<open>zmemcpy(dst + at, src, n)\<close>.\<close>

definition zmemcpy :: "byte list \<Rightarrow> nat \<Rightarrow> byte list \<Rightarrow> nat \<Rightarrow> byte list option" where
  "zmemcpy dst at src n =
     (if n \<le> length src \<and> at + n \<le> length dst then Some (take at dst @ take n src @ drop (at + n) dst)
      else None)"

text \<open>The copy of extra field bytes into the application's buffer, with its unsigned arithmetic.\<close>

definition extra_copy :: "gz_header \<Rightarrow> nat \<Rightarrow> byte list \<Rightarrow> nat \<Rightarrow> gz_header option" where
  "extra_copy h ml src copy =
     (case gz_extra h of
        None \<Rightarrow> Some h
      | Some buf \<Rightarrow>
          let len = gz_extra_len h - word_of_nat ml;
              n = (if len + word_of_nat copy > gz_extra_max h then gz_extra_max h - len else word_of_nat copy)
          in map_option (\<lambda>buf'. h\<lparr>gz_extra := Some buf'\<rparr>) (zmemcpy buf (unat len) src (unat n)))"

definition step_EXTRA :: "loop \<Rightarrow> outcome" where
  "step_EXTRA s =
     (if flags s AND 0x0400 \<noteq> 0 then
        let copy = min (mlen s) (length (inp s))
        in case (if copy = 0 then Some (head s)
                 else case head s of None \<Rightarrow> Some None
                      | Some h \<Rightarrow> map_option Some (extra_copy h (mlen s) (inp s) copy)) of
             None \<Rightarrow> Fault
           | Some h' \<Rightarrow>
               let s = (if copy = 0 then s
                        else let s = s\<lparr>head := h'\<rparr>;
                                 s = (if hcrc_on s then s\<lparr>check := crc32_buf (check s) (take copy (inp s))\<rparr> else s)
                             in s\<lparr>inp := drop copy (inp s), mlen := mlen s - copy\<rparr>)
               in if mlen s \<noteq> 0 then Leave s else Next (s\<lparr>mlen := 0, mode := NAME\<rparr>)
      else Next (s\<lparr>mlen := 0, mode := NAME\<rparr>))"

text \<open>
  The loop that copies a zero-terminated string: it consumes bytes up to and including a zero, or
  all of them, and stores them in the buffer of the header while there is room. The results are the
  number of bytes consumed, the last one, the buffer and the number of bytes stored so far.
\<close>

fun zstring_loop ::
  "byte list \<Rightarrow> byte list option \<Rightarrow> nat \<Rightarrow> nat \<Rightarrow> nat \<Rightarrow> (nat \<times> byte \<times> byte list option \<times> nat) option" where
  "zstring_loop [] buf bmax n copy = None"
| "zstring_loop (b # bs) buf bmax n copy =
     (case (case buf of
              None \<Rightarrow> Some (None, n)
            | Some m \<Rightarrow> if n < bmax then map_option (\<lambda>m'. (Some m', n + 1)) (wr m n b)
                        else Some (Some m, n)) of
        None \<Rightarrow> None
      | Some (buf', n') \<Rightarrow>
          if b \<noteq> 0 \<and> bs \<noteq> [] then zstring_loop bs buf' bmax n' (copy + 1)
          else Some (copy + 1, b, buf', n'))"

definition step_NAME :: "loop \<Rightarrow> outcome" where
  "step_NAME s =
     (if flags s AND 0x0800 \<noteq> 0 then
        if inp s = [] then Leave s
        else (case zstring_loop (inp s) (Option.bind (head s) gz_name)
                     (case head s of None \<Rightarrow> 0 | Some h \<Rightarrow> gz_name_max h) (mlen s) 0 of
                None \<Rightarrow> Fault
              | Some (copy, b, buf, stored) \<Rightarrow>
                  let s = s\<lparr>head := map_option (gz_name_update (\<lambda>_. buf)) (head s), mlen := stored\<rparr>;
                      s = (if hcrc_on s then s\<lparr>check := crc32_buf (check s) (take copy (inp s))\<rparr> else s);
                      s = s\<lparr>inp := drop copy (inp s)\<rparr>
                  in if b \<noteq> 0 then Leave s else Next (s\<lparr>mlen := 0, mode := COMMENT\<rparr>))
      else Next (s\<lparr>head := map_option (gz_name_update (\<lambda>_. None)) (head s), mlen := 0, mode := COMMENT\<rparr>))"

definition step_COMMENT :: "loop \<Rightarrow> outcome" where
  "step_COMMENT s =
     (if flags s AND 0x1000 \<noteq> 0 then
        if inp s = [] then Leave s
        else (case zstring_loop (inp s) (Option.bind (head s) gz_comment)
                     (case head s of None \<Rightarrow> 0 | Some h \<Rightarrow> gz_comm_max h) (mlen s) 0 of
                None \<Rightarrow> Fault
              | Some (copy, b, buf, stored) \<Rightarrow>
                  let s = s\<lparr>head := map_option (gz_comment_update (\<lambda>_. buf)) (head s), mlen := stored\<rparr>;
                      s = (if hcrc_on s then s\<lparr>check := crc32_buf (check s) (take copy (inp s))\<rparr> else s);
                      s = s\<lparr>inp := drop copy (inp s)\<rparr>
                  in if b \<noteq> 0 then Leave s else Next (s\<lparr>mode := HCRC\<rparr>))
      else Next (s\<lparr>head := map_option (gz_comment_update (\<lambda>_. None)) (head s), mode := HCRC\<rparr>))"

definition finish_header :: "loop \<Rightarrow> outcome" where
  "finish_header s =
     (let s = s\<lparr>head := map_option (\<lambda>h. h\<lparr>gz_hcrc := of_bool (bit (flags s) 9), gz_done := 1\<rparr>) (head s),
                check := crc32 True True 0 0 None\<rparr>
      in Next (s\<lparr>l_adler := check s, mode := TYPE_M\<rparr>))"

definition step_HCRC :: "loop \<Rightarrow> outcome" where
  "step_HCRC s =
     (if flags s AND 0x0200 \<noteq> 0 then
        need 16 s (\<lambda>s.
          if bit (wrap s) 2 \<and> hold s \<noteq> check s AND 0xffff then bad ''header crc mismatch'' s
          else finish_header (INITBITS s))
      else finish_header s)"

definition step_DICTID :: "loop \<Rightarrow> outcome" where
  "step_DICTID s =
     need 32 s (\<lambda>s.
       let s = s\<lparr>check := ZSWAP32 (hold s)\<rparr>
       in Next ((INITBITS s)\<lparr>l_adler := check s, mode := DICT\<rparr>))"

definition step_DICT :: "loop \<Rightarrow> outcome" where
  "step_DICT s =
     (if \<not> havedict s then Return Z_NEED_DICT s
      else let s = s\<lparr>check := adler32 0 None\<rparr> in Next (s\<lparr>l_adler := check s, mode := TYPE_M\<rparr>))"


section \<open>Blocks\<close>

definition fixedtables :: "loop \<Rightarrow> loop" where
  "fixedtables s = s\<lparr>lencode := Lenfix, lenbits := 9, distcode := Distfix, distbits := 5\<rparr>"

definition step_TYPEDO :: "int \<Rightarrow> loop \<Rightarrow> outcome" where
  "step_TYPEDO flush s =
     (if last_block s then Next ((BYTEBITS s)\<lparr>mode := CHECK\<rparr>)
      else need 3 s (\<lambda>s.
        let s = s\<lparr>last_block := BITS 1 s \<noteq> 0\<rparr>; s = DROPBITS 1 s; t = BITS 2 s
        in if t = 0 then Next (DROPBITS 2 (s\<lparr>mode := STORED\<rparr>))
           else if t = 1 then
             let s = (fixedtables s)\<lparr>mode := LEN_FIRST\<rparr>
             in if flush = Z_TREES then Leave (DROPBITS 2 s) else Next (DROPBITS 2 s)
           else if t = 2 then Next (DROPBITS 2 (s\<lparr>mode := TABLE\<rparr>))
           else Next (DROPBITS 2 (s\<lparr>l_msg := Some ''invalid block type'', mode := BAD\<rparr>))))"

text \<open>\<open>case TYPE\<close> falls into \<open>case TYPEDO\<close> without changing the mode.\<close>

definition step_TYPE :: "int \<Rightarrow> loop \<Rightarrow> outcome" where
  "step_TYPE flush s = (if flush = Z_BLOCK \<or> flush = Z_TREES then Leave s else step_TYPEDO flush s)"

definition step_STORED :: "int \<Rightarrow> loop \<Rightarrow> outcome" where
  "step_STORED flush s =
     need 32 (BYTEBITS s) (\<lambda>s.
       if hold s AND 0xffff \<noteq> drop_bit 16 (hold s) XOR 0xffff then bad ''invalid stored block lengths'' s
       else
         let s = s\<lparr>mlen := unat (hold s AND 0xffff)\<rparr>; s = (INITBITS s)\<lparr>mode := COPY_FIRST\<rparr>
         in if flush = Z_TREES then Leave s else Next s)"

definition step_COPY_FIRST :: "loop \<Rightarrow> outcome" where
  "step_COPY_FIRST s = Next (s\<lparr>mode := COPY\<rparr>)"

definition step_COPY :: "loop \<Rightarrow> outcome" where
  "step_COPY s =
     (if mlen s \<noteq> 0 then
        let copy = min (min (mlen s) (length (inp s))) (left s)
        in if copy = 0 then Leave s
           else Next (s\<lparr>put := put s @ take copy (inp s), inp := drop copy (inp s), left := left s - copy,
                         mlen := mlen s - copy\<rparr>)
      else Next (s\<lparr>mode := TYPE_M\<rparr>))"

section \<open>Dynamic block tables\<close>

definition order :: "nat list" where
  "order = [16, 17, 18, 0, 8, 7, 9, 6, 10, 5, 11, 4, 12, 3, 13, 2, 14, 1, 15]"

definition step_TABLE :: "loop \<Rightarrow> outcome" where
  "step_TABLE s =
     need 14 s (\<lambda>s.
       let s = s\<lparr>nlen := BITS 5 s + 257\<rparr>; s = DROPBITS 5 s;
           s = s\<lparr>ndist := BITS 5 s + 1\<rparr>; s = DROPBITS 5 s;
           s = s\<lparr>ncode := BITS 4 s + 4\<rparr>; s = DROPBITS 4 s
       in if nlen s > 286 \<or> ndist s > 30 then bad ''too many length or distance symbols'' s
          else Next (s\<lparr>have_lens := 0, mode := LENLENS\<rparr>))"

text \<open>Results of the inner loops: done, out of input (\<open>goto inf_leave\<close>), an error, or a wild access.\<close>

datatype 's inner = Done 's | Short loop | Failed loop | Wild

text \<open>
  The loop \<open>while (state->have < state->ncode)\<close> that reads the lengths of the code length code; the
  first argument is the number of rounds left, \<open>ncode - have\<close>.
\<close>

fun lenlens_loop :: "nat \<Rightarrow> loop \<Rightarrow> loop inner" where
  "lenlens_loop 0 s = Done s"
| "lenlens_loop (Suc n) s =
     (case NEEDBITS 3 s of
        Inl s' \<Rightarrow> Short s'
      | Inr s' \<Rightarrow>
          (case Option.bind (rd order (have_lens s')) (\<lambda>i. wr (lens s') i (BITS 3 s')) of
             None \<Rightarrow> Wild
           | Some l \<Rightarrow> lenlens_loop n (DROPBITS 3 (s'\<lparr>lens := l, have_lens := have_lens s' + 1\<rparr>))))"

text \<open>The loop \<open>while (state->have < 19)\<close> that clears the rest.\<close>

fun lenlens_clear :: "nat \<Rightarrow> loop \<Rightarrow> loop option" where
  "lenlens_clear 0 s = Some s"
| "lenlens_clear (Suc n) s =
     (case Option.bind (rd order (have_lens s)) (\<lambda>i. wr (lens s) i 0) of
        None \<Rightarrow> None
      | Some l \<Rightarrow> lenlens_clear n (s\<lparr>lens := l, have_lens := have_lens s + 1\<rparr>))"

definition step_LENLENS :: "loop \<Rightarrow> outcome" where
  "step_LENLENS s =
     (case lenlens_loop (ncode s - have_lens s) s of
        Wild \<Rightarrow> Fault | Failed s' \<Rightarrow> Next s' | Short s' \<Rightarrow> Leave s'
      | Done s \<Rightarrow>
          (case lenlens_clear (19 - have_lens s) s of
             None \<Rightarrow> Fault
           | Some s \<Rightarrow>
               (case inflate_table CODES (lens s) 19 (codes s) 0 7 (work s) of
                  None \<Rightarrow> Fault
                | Some r \<Rightarrow>
                    let s = s\<lparr>codes := codes_arr r, next_code := table_end r, lencode := Codes 0,
                              lenbits := root_bits r, work := work_arr r, ret_code := ret r\<rparr>
                    in if ret r \<noteq> 0 then bad ''invalid code lengths set'' s
                       else Next (s\<lparr>have_lens := 0, mode := CODELENS\<rparr>))))"

text \<open>
  \<open>for (;;) { here = tab[at + (BITS(n) >> d)]; if (d + here.bits <= bits) break; PULLBYTE(); }\<close>: with
  \<open>d = 0\<close> the root table, with \<open>d\<close> the bits of the root entry a sub-table.
\<close>

function decode_loop :: "code_ptr \<Rightarrow> nat \<Rightarrow> nat \<Rightarrow> nat \<Rightarrow> loop \<Rightarrow> (code \<times> loop) inner" where
  "decode_loop p at n d s =
     (case table_at s p (at + drop_bit d (BITS n s)) of
        None \<Rightarrow> Wild
      | Some here \<Rightarrow>
          if d + cbits here \<le> bits s then Done (here, s)
          else (case inp s of [] \<Rightarrow> Short s | b # bs \<Rightarrow> decode_loop p at n d (PULLBYTE b bs s)))"
  by pat_completeness auto
termination by (relation "measure (\<lambda>(_, _, _, _, s). length (inp s))") (auto simp: PULLBYTE_def)

declare decode_loop.simps [simp del]

text \<open>\<open>while (copy--) state->lens[state->have++] = len\<close>.\<close>

fun repeat_len :: "nat \<Rightarrow> nat \<Rightarrow> loop \<Rightarrow> loop option" where
  "repeat_len 0 l s = Some s"
| "repeat_len (Suc n) l s =
     (case wr (lens s) (have_lens s) l of
        None \<Rightarrow> None | Some ls \<Rightarrow> repeat_len n l (s\<lparr>lens := ls, have_lens := have_lens s + 1\<rparr>))"

text \<open>
  The repeat codes 16, 17 and 18: the number of extra bits, the base count and the length repeated.
  \<^term>\<open>Failed s\<close> is the \<open>break\<close> with the mode set to \<open>BAD\<close>.
\<close>

definition bad_repeat :: "loop \<Rightarrow> loop" where
  "bad_repeat s = s\<lparr>l_msg := Some ''invalid bit length repeat'', mode := BAD\<rparr>"

definition repeat_code :: "code \<Rightarrow> loop \<Rightarrow> loop inner" where
  "repeat_code here s =
     (let (nb, base) = (if val here = 16 then (2, 3) else if val here = 17 then (3, 3) else (7, 11))
      in case NEEDBITS (cbits here + nb) s of
           Inl s' \<Rightarrow> Short s'
         | Inr s' \<Rightarrow>
             let s' = DROPBITS (cbits here) s'
             in if val here = 16 \<and> have_lens s' = 0 then Failed (bad_repeat s')
                else case (if val here = 16 then rd (lens s') (have_lens s' - 1) else Some 0) of
                  None \<Rightarrow> Wild
                | Some l \<Rightarrow>
                    let copy = base + BITS nb s'; s' = DROPBITS nb s'
                    in if have_lens s' + copy > nlen s' + ndist s' then Failed (bad_repeat s')
                       else (case repeat_len copy l s' of None \<Rightarrow> Wild | Some s'' \<Rightarrow> Done s''))"

text \<open>
  The loop \<open>while (state->have < state->nlen + state->ndist)\<close>. Every round stores at least one
  length, so \<open>nlen + ndist - have\<close> rounds are enough; that many are the first argument.
\<close>

fun codelens_loop :: "nat \<Rightarrow> loop \<Rightarrow> loop inner" where
  "codelens_loop 0 s = Done s"
| "codelens_loop (Suc n) s =
     (if have_lens s < nlen s + ndist s then
        (case decode_loop (lencode s) 0 (lenbits s) 0 s of
           Wild \<Rightarrow> Wild | Short s' \<Rightarrow> Short s' | Failed s' \<Rightarrow> Failed s'
         | Done (here, s') \<Rightarrow>
             if val here < 16 then
               (case wr (lens s') (have_lens s') (val here) of
                  None \<Rightarrow> Wild
                | Some l \<Rightarrow> codelens_loop n ((DROPBITS (cbits here) s')\<lparr>lens := l, have_lens := have_lens s' + 1\<rparr>))
             else (case repeat_code here s' of
                     Done s'' \<Rightarrow> codelens_loop n s''
                   | r \<Rightarrow> r))
      else Done s)"

definition step_CODELENS :: "int \<Rightarrow> loop \<Rightarrow> outcome" where
  "step_CODELENS flush s =
     (case codelens_loop (nlen s + ndist s - have_lens s) s of
        Wild \<Rightarrow> Fault | Short s' \<Rightarrow> Leave s' | Failed s' \<Rightarrow> Next s'
      | Done s \<Rightarrow>
          (case rd (lens s) 256 of
             None \<Rightarrow> Fault
           | Some l256 \<Rightarrow>
               if l256 = 0 then bad ''invalid code -- missing end-of-block'' s
               else (case inflate_table LENS (lens s) (nlen s) (codes s) 0 9 (work s) of
                       None \<Rightarrow> Fault
                     | Some r \<Rightarrow>
                         let s = s\<lparr>codes := codes_arr r, next_code := table_end r, lencode := Codes 0,
                                   lenbits := root_bits r, work := work_arr r, ret_code := ret r\<rparr>
                         in if ret r \<noteq> 0 then bad ''invalid literal/lengths set'' s
                            else (case inflate_table DISTS (drop (nlen s) (lens s)) (ndist s) (codes s) (next_code s) 6 (work s) of
                                    None \<Rightarrow> Fault
                                  | Some r2 \<Rightarrow>
                                      let s = s\<lparr>codes := codes_arr r2, next_code := table_end r2,
                                                distcode := Codes (next_code s), distbits := root_bits r2,
                                                work := work_arr r2, ret_code := ret r2\<rparr>
                                      in if ret r2 \<noteq> 0 then bad ''invalid distances set'' s
                                         else let s = s\<lparr>mode := LEN_FIRST\<rparr>
                                              in if flush = Z_TREES then Leave s else Next s))))"

section \<open>Codes\<close>

definition step_LEN_FIRST :: "loop \<Rightarrow> outcome" where
  "step_LEN_FIRST s = Next (s\<lparr>mode := LEN\<rparr>)"

text \<open>
  A code from the tables at \<open>p\<close>: the root look-up and, when \<open>is_link\<close> says the entry points to a
  sub-table, the second one. The bits of the code are dropped and counted in \<open>back\<close>.
\<close>

definition read_code :: "(code \<Rightarrow> bool) \<Rightarrow> code_ptr \<Rightarrow> nat \<Rightarrow> loop \<Rightarrow> (code \<times> loop) inner" where
  "read_code is_link p n s =
     (case decode_loop p 0 n 0 s of
        Wild \<Rightarrow> Wild | Short s' \<Rightarrow> Short s' | Failed s' \<Rightarrow> Failed s'
      | Done (here, s) \<Rightarrow>
          if is_link here then
            (case decode_loop p (val here) (cbits here + op here) (cbits here) s of
               Wild \<Rightarrow> Wild | Short s' \<Rightarrow> Short s' | Failed s' \<Rightarrow> Failed s'
             | Done (here2, s) \<Rightarrow>
                 let s = DROPBITS (cbits here) s; s = s\<lparr>back_bits := back_bits s + int (cbits here)\<rparr>;
                     s = DROPBITS (cbits here2) s
                 in Done (here2, s\<lparr>back_bits := back_bits s + int (cbits here2)\<rparr>))
          else
            let s = DROPBITS (cbits here) s
            in Done (here, s\<lparr>back_bits := back_bits s + int (cbits here)\<rparr>))"

definition step_LEN :: "loop \<Rightarrow> outcome" where
  "step_LEN s =
     (if length (inp s) \<ge> 6 \<and> left s \<ge> 258 then
        (case inflate_fast s of
           None \<Rightarrow> Fault
         | Some s \<Rightarrow> Next (if mode s = TYPE_M then s\<lparr>back_bits := -1\<rparr> else s))
      else
        (case read_code (\<lambda>here. op here \<noteq> 0 \<and> op here AND 0xf0 = 0) (lencode s) (lenbits s) (s\<lparr>back_bits := 0\<rparr>) of
           Wild \<Rightarrow> Fault | Short s' \<Rightarrow> Leave s' | Failed s' \<Rightarrow> Next s'
         | Done (here, s) \<Rightarrow>
             let s = s\<lparr>mlen := val here\<rparr>
             in if op here = 0 then Next (s\<lparr>mode := LIT\<rparr>)
                else if op here AND 32 \<noteq> 0 then Next (s\<lparr>back_bits := -1, mode := TYPE_M\<rparr>)
                else if op here AND 64 \<noteq> 0 then bad ''invalid literal/length code'' s
                else Next (s\<lparr>extra := op here AND 15, mode := LENEXT\<rparr>)))"

definition step_LENEXT :: "loop \<Rightarrow> outcome" where
  "step_LENEXT s =
     (let k = (\<lambda>s. Next (s\<lparr>was := mlen s, mode := DIST\<rparr>))
      in if extra s \<noteq> 0 then
           need (extra s) s (\<lambda>s.
             let s = s\<lparr>mlen := mlen s + BITS (extra s) s\<rparr>; s = DROPBITS (extra s) s
             in k (s\<lparr>back_bits := back_bits s + int (extra s)\<rparr>))
         else k s)"

definition step_DIST :: "loop \<Rightarrow> outcome" where
  "step_DIST s =
     (case read_code (\<lambda>here. op here AND 0xf0 = 0) (distcode s) (distbits s) s of
        Wild \<Rightarrow> Fault | Short s' \<Rightarrow> Leave s' | Failed s' \<Rightarrow> Next s'
      | Done (here, s) \<Rightarrow>
          if op here AND 64 \<noteq> 0 then bad ''invalid distance code'' s
          else Next (s\<lparr>offset := val here, extra := op here AND 15, mode := DISTEXT\<rparr>))"

definition step_DISTEXT :: "loop \<Rightarrow> outcome" where
  "step_DISTEXT s =
     (if extra s \<noteq> 0 then
        need (extra s) s (\<lambda>s.
          let s = s\<lparr>offset := offset s + BITS (extra s) s\<rparr>; s = DROPBITS (extra s) s
          in Next (s\<lparr>back_bits := back_bits s + int (extra s), mode := MATCH\<rparr>))
      else Next (s\<lparr>mode := MATCH\<rparr>))"

text \<open>
  \<open>case MATCH\<close>: copy from the window or from the output, as much as fits and as lies in one piece.
  The byte loop is a \<open>do-while\<close>, so a zero count would run out of bounds.
\<close>

definition step_MATCH :: "loop \<Rightarrow> outcome" where
  "step_MATCH s =
     (if left s = 0 then Leave s
      else
        let done_out = out_start s - left s;
            from_copy =
              (if offset s > done_out then
                 let copy = offset s - done_out
                 in if copy > whave s \<and> sane s then None
                    else
                      let (from, copy) = (if copy > wnext s then (wsize s - (copy - wnext s), copy - wnext s)
                                          else (wnext s - copy, copy))
                      in Some (Win from, min copy (mlen s))
               else Some (Mem (length (put s) - offset s), mlen s))
        in case from_copy of
             None \<Rightarrow> bad ''invalid distance too far back'' s
           | Some (from, copy) \<Rightarrow>
               let copy = min copy (left s)
               in if copy = 0 \<or> offset s > done_out \<and> window s = None then Fault
                  else (case copy_bytes (case window s of None \<Rightarrow> [] | Some w \<Rightarrow> w) copy (from, put s) of
                          None \<Rightarrow> Fault
                        | Some (_, out) \<Rightarrow>
                            let s = s\<lparr>left := left s - copy, mlen := mlen s - copy, put := out\<rparr>
                            in Next (if mlen s = 0 then s\<lparr>mode := LEN\<rparr> else s)))"

definition step_LIT :: "loop \<Rightarrow> outcome" where
  "step_LIT s =
     (if left s = 0 then Leave s
      else Next (s\<lparr>put := put s @ [word_of_nat (mlen s)], left := left s - 1, mode := LEN\<rparr>))"

section \<open>The trailer\<close>

text \<open>The last \<open>n\<close> bytes written.\<close>

definition last_bytes :: "nat \<Rightarrow> byte list \<Rightarrow> byte list" where
  "last_bytes n xs = drop (length xs - n) xs"

definition step_CHECK :: "loop \<Rightarrow> outcome" where
  "step_CHECK s =
     (if wrap s \<noteq> 0 then
        need 32 s (\<lambda>s.
          let n = out_start s - left s;
              s = s\<lparr>l_total_out := l_total_out s + word_of_nat n, total_cnt := total_cnt s + word_of_nat n\<rparr>;
              s = (if bit (wrap s) 2 \<and> n \<noteq> 0 then s\<lparr>check := UPDATE (flags s) (check s) (last_bytes n (put s))\<rparr> else s);
              s = (if bit (wrap s) 2 \<and> n \<noteq> 0 then s\<lparr>l_adler := check s\<rparr> else s);
              s = s\<lparr>out_start := left s\<rparr>
          in if bit (wrap s) 2 \<and> (if flags s \<noteq> 0 then hold s else ZSWAP32 (hold s)) \<noteq> check s
             then bad ''incorrect data check'' s
             else Next ((INITBITS s)\<lparr>mode := LENGTH_M\<rparr>))
      else Next (s\<lparr>mode := LENGTH_M\<rparr>))"

definition step_LENGTH :: "loop \<Rightarrow> outcome" where
  "step_LENGTH s =
     (if wrap s \<noteq> 0 \<and> flags s \<noteq> 0 then
        need 32 s (\<lambda>s.
          if hold s \<noteq> total_cnt s then bad ''incorrect length check'' s
          else Next ((INITBITS s)\<lparr>mode := DONE\<rparr>))
      else Next (s\<lparr>mode := DONE\<rparr>))"

section \<open>inflate()\<close>

definition step :: "int \<Rightarrow> loop \<Rightarrow> outcome" where
  "step flush s =
     (case mode s of
        HEAD \<Rightarrow> step_HEAD s | FLAGS \<Rightarrow> step_FLAGS s | TIME \<Rightarrow> step_TIME s | OS \<Rightarrow> step_OS s
      | EXLEN \<Rightarrow> step_EXLEN s | EXTRA \<Rightarrow> step_EXTRA s | NAME \<Rightarrow> step_NAME s | COMMENT \<Rightarrow> step_COMMENT s
      | HCRC \<Rightarrow> step_HCRC s | DICTID \<Rightarrow> step_DICTID s | DICT \<Rightarrow> step_DICT s
      | TYPE_M \<Rightarrow> step_TYPE flush s | TYPEDO \<Rightarrow> step_TYPEDO flush s
      | STORED \<Rightarrow> step_STORED flush s | COPY_FIRST \<Rightarrow> step_COPY_FIRST s | COPY \<Rightarrow> step_COPY s
      | TABLE \<Rightarrow> step_TABLE s | LENLENS \<Rightarrow> step_LENLENS s | CODELENS \<Rightarrow> step_CODELENS flush s
      | LEN_FIRST \<Rightarrow> step_LEN_FIRST s | LEN \<Rightarrow> step_LEN s | LENEXT \<Rightarrow> step_LENEXT s
      | DIST \<Rightarrow> step_DIST s | DISTEXT \<Rightarrow> step_DISTEXT s | MATCH \<Rightarrow> step_MATCH s | LIT \<Rightarrow> step_LIT s
      | CHECK \<Rightarrow> step_CHECK s | LENGTH_M \<Rightarrow> step_LENGTH s
      | DONE \<Rightarrow> Leave (s\<lparr>ret_code := Z_STREAM_END\<rparr>)
      | BAD \<Rightarrow> Leave (s\<lparr>ret_code := Z_DATA_ERROR\<rparr>)
      | MEM \<Rightarrow> Return Z_MEM_ERROR s
      | SYNC \<Rightarrow> Return Z_STREAM_ERROR s)"

text \<open>The loop \<open>for (;;) switch (state->mode)\<close>; \<^term>\<open>None\<close> when the given number of rounds is not enough.\<close>

fun run :: "nat \<Rightarrow> int \<Rightarrow> loop \<Rightarrow> outcome option" where
  "run 0 flush s = None"
| "run (Suc n) flush s = (case step flush s of Next s' \<Rightarrow> run n flush s' | r \<Rightarrow> Some r)"

text \<open>
  \<open>updatewindow(strm, end, copy)\<close>; \<open>mem\<close> is the memory that ends at \<open>end\<close>. The outer \<^term>\<open>None\<close> is an
  access outside the window, the boolean the return value 1 (no memory).
\<close>

definition updatewindow :: "zalloc \<Rightarrow> byte list \<Rightarrow> nat \<Rightarrow> 'a inflate_state_scheme \<Rightarrow> (bool \<times> 'a inflate_state_scheme) option" where
  "updatewindow zalloc mem copy s =
     (case (case window s of Some w \<Rightarrow> Some w | None \<Rightarrow> zalloc (2 ^ wbits s)) of
        None \<Rightarrow> Some (True, s)
      | Some w \<Rightarrow>
          let s = (if wsize s = 0 then s\<lparr>wsize := 2 ^ wbits s, wnext := 0, whave := 0\<rparr> else s)
          in if copy \<ge> wsize s then
               map_option (\<lambda>w. (False, s\<lparr>window := Some w, wnext := 0, whave := wsize s\<rparr>))
                 (zmemcpy w 0 (last_bytes (wsize s) mem) (wsize s))
             else
               let dist = min (wsize s - wnext s) copy; src = last_bytes copy mem; copy' = copy - dist
               in Option.bind (zmemcpy w (wnext s) src dist)
                    (\<lambda>w.
                      if copy' \<noteq> 0 then
                        map_option (\<lambda>w. (False, s\<lparr>window := Some w, wnext := copy', whave := wsize s\<rparr>))
                          (zmemcpy w 0 (drop dist src) copy')
                      else
                        let s = s\<lparr>window := Some w, wnext := wnext s + dist\<rparr>;
                            s = (if wnext s = wsize s then s\<lparr>wnext := 0\<rparr> else s)
                        in Some (False, if whave s < wsize s then s\<lparr>whave := whave s + dist\<rparr> else s)))"

definition inflateStateCheck :: "z_stream option \<Rightarrow> bool" where
  "inflateStateCheck strm =
     (case strm of
        None \<Rightarrow> True
      | Some z \<Rightarrow> \<not> zalloc_set z \<or> \<not> zfree_set z \<or>
          (case state z of None \<Rightarrow> True | Some st \<Rightarrow> \<not> strm_ok st))"

text \<open>\<open>LOAD()\<close> and \<open>RESTORE()\<close>.\<close>

definition LOAD :: "z_stream \<Rightarrow> inflate_state \<Rightarrow> loop" where
  "LOAD z st = inflate_state.extend st
     (loop.fields (next_in z) (out_mem z) (avail_out z) (length (next_in z)) (avail_out z) Z_OK
        (msg z) (adler z) (total_out z))"

definition RESTORE :: "z_stream \<Rightarrow> loop \<Rightarrow> z_stream" where
  "RESTORE z s = z\<lparr>next_in := inp s, out_mem := put s, avail_out := left s, msg := l_msg s, adler := l_adler s,
     total_out := l_total_out s, state := Some (inflate_state.truncate s)\<rparr>"

text \<open>The code at \<open>inf_leave\<close>.\<close>

definition mode_before_bad :: "inflate_mode \<Rightarrow> bool" where
  "mode_before_bad m \<longleftrightarrow> m \<notin> {BAD, MEM, SYNC}"

definition mode_before_check :: "inflate_mode \<Rightarrow> bool" where
  "mode_before_check m \<longleftrightarrow> m \<notin> {CHECK, LENGTH_M, DONE, BAD, MEM, SYNC}"

definition inf_leave :: "zalloc \<Rightarrow> int \<Rightarrow> z_stream \<Rightarrow> loop \<Rightarrow> (int \<times> z_stream) option" where
  "inf_leave zalloc flush z s =
     (let update = (wsize s \<noteq> 0 \<or> out_start s \<noteq> left s \<and> mode_before_bad (mode s) \<and>
                      (mode_before_check (mode s) \<or> flush \<noteq> Z_FINISH))
      in case (if update then updatewindow zalloc (put s) (out_start s - left s) s else Some (False, s)) of
           None \<Rightarrow> None
         | Some (True, s) \<Rightarrow> Some (Z_MEM_ERROR, RESTORE z (s\<lparr>mode := MEM\<rparr>))
         | Some (False, s) \<Rightarrow>
             let nin = in_start s - length (inp s); nout = out_start s - left s;
                 s = s\<lparr>l_total_out := l_total_out s + word_of_nat nout, total_cnt := total_cnt s + word_of_nat nout\<rparr>;
                 s = (if bit (wrap s) 2 \<and> nout \<noteq> 0
                      then s\<lparr>check := UPDATE (flags s) (check s) (last_bytes nout (put s))\<rparr> else s);
                 s = (if bit (wrap s) 2 \<and> nout \<noteq> 0 then s\<lparr>l_adler := check s\<rparr> else s);
                 dt = int (bits s) + (if last_block s then 64 else 0) + (if mode s = TYPE_M then 128 else 0) +
                      (if mode s = LEN_FIRST \<or> mode s = COPY_FIRST then 256 else 0);
                 ret = (if (nin = 0 \<and> nout = 0 \<or> flush = Z_FINISH) \<and> ret_code s = Z_OK then Z_BUF_ERROR else ret_code s)
             in Some (ret, (RESTORE z s)\<lparr>total_in := total_in z + word_of_nat nin, data_type := dt\<rparr>))"

definition inflate :: "zalloc \<Rightarrow> nat \<Rightarrow> int \<Rightarrow> z_stream option \<Rightarrow> (int \<times> z_stream option) option" where
  "inflate zalloc fuel flush strm =
     (case strm of
        Some z \<Rightarrow>
          if inflateStateCheck strm \<or> next_out_null z \<or> next_in_null z \<and> next_in z \<noteq> [] then Some (Z_STREAM_ERROR, strm)
          else
            (case state z of
               None \<Rightarrow> Some (Z_STREAM_ERROR, strm)
             | Some st \<Rightarrow>
                 let st = (if mode st = TYPE_M then st\<lparr>mode := TYPEDO\<rparr> else st)
                 in (case run fuel flush (LOAD z st) of
                       Some (Leave s) \<Rightarrow> map_option (\<lambda>(r, z'). (r, Some z')) (inf_leave zalloc flush z s)
                     | Some (Return r s) \<Rightarrow> Some (r, Some (RESTORE z s))
                     | _ \<Rightarrow> None))
      | None \<Rightarrow> Some (Z_STREAM_ERROR, None))"

section \<open>The other functions of inflate.c\<close>

text \<open>The prologue \<open>if (inflateStateCheck(strm)) return err; state = strm->state;\<close>.\<close>

definition with_state :: "'r \<Rightarrow> z_stream option \<Rightarrow> (z_stream \<Rightarrow> inflate_state \<Rightarrow> 'r) \<Rightarrow> 'r" where
  "with_state err strm f =
     (if inflateStateCheck strm then err
      else case strm of None \<Rightarrow> err | Some z \<Rightarrow> (case state z of None \<Rightarrow> err | Some st \<Rightarrow> f z st))"

definition inflateResetKeep :: "z_stream option \<Rightarrow> int \<times> z_stream option" where
  "inflateResetKeep strm =
     with_state (Z_STREAM_ERROR, strm) strm (\<lambda>z st.
       let z = z\<lparr>total_in := 0, total_out := 0, msg := None\<rparr>;
           z = (if wrap st \<noteq> 0 then z\<lparr>adler := word_of_nat (wrap st AND 1)\<rparr> else z);
           st = st\<lparr>total_cnt := 0, mode := HEAD, last_block := False, havedict := False, dmax := 32768, head := None,
                    hold := 0, bits := 0, lencode := Codes 0, distcode := Codes 0, next_code := 0, sane := True,
                    back_bits := -1\<rparr>
       in (Z_OK, Some (z\<lparr>state := Some st\<rparr>)))"

definition inflateReset :: "z_stream option \<Rightarrow> int \<times> z_stream option" where
  "inflateReset strm =
     with_state (Z_STREAM_ERROR, strm) strm (\<lambda>z st.
       inflateResetKeep (Some (z\<lparr>state := Some (st\<lparr>wsize := 0, whave := 0, wnext := 0\<rparr>)\<rparr>)))"

definition inflateReset2 :: "z_stream option \<Rightarrow> int \<Rightarrow> int \<times> z_stream option" where
  "inflateReset2 strm windowBits =
     with_state (Z_STREAM_ERROR, strm) strm (\<lambda>z st.
       let (wr, wb) = (if windowBits < 0 then (0, - windowBits)
                       else (nat (drop_bit 4 windowBits + 5),
                             if windowBits < 48 then windowBits AND 15 else windowBits))
       in if wb \<noteq> 0 \<and> (wb < 8 \<or> wb > 15) then (Z_STREAM_ERROR, strm)
          else
            let st = (if window st \<noteq> None \<and> wbits st \<noteq> nat wb then st\<lparr>window := None\<rparr> else st);
                st = st\<lparr>wrap := wr, wbits := nat wb\<rparr>
            in inflateReset (Some (z\<lparr>state := Some st\<rparr>)))"

text \<open>
  \<open>version\<close> and \<open>size_ok\<close> are the version string and whether \<open>stream_size\<close> is the size of
  \<open>z_stream\<close>; \<open>mem\<close> is the memory \<open>ZALLOC\<close> returns for the state, with arbitrary contents.
\<close>

definition inflateInit2_impl ::
  "z_stream option \<Rightarrow> int \<Rightarrow> string option \<Rightarrow> bool \<Rightarrow> inflate_state option \<Rightarrow> int \<times> z_stream option" where
  "inflateInit2_impl strm windowBits version size_ok mem =
     (if (case version of None \<Rightarrow> True | Some v \<Rightarrow> take 1 v \<noteq> ''1'') \<or> \<not> size_ok then (Z_VERSION_ERROR, strm)
      else case strm of
        None \<Rightarrow> (Z_STREAM_ERROR, strm)
      | Some z \<Rightarrow>
          let z = z\<lparr>msg := None, zalloc_set := True, zfree_set := True\<rparr>
          in (case mem of
                None \<Rightarrow> (Z_MEM_ERROR, Some z)
              | Some st \<Rightarrow>
                  let st = st\<lparr>strm_ok := True, window := None, mode := HEAD\<rparr>;
                      (ret, strm') = inflateReset2 (Some (z\<lparr>state := Some st\<rparr>)) windowBits
                  in (ret, if ret \<noteq> Z_OK then map_option (state_update (\<lambda>_. None)) strm' else strm')))"

definition inflateInit_impl ::
  "z_stream option \<Rightarrow> string option \<Rightarrow> bool \<Rightarrow> inflate_state option \<Rightarrow> int \<times> z_stream option" where
  "inflateInit_impl strm version size_ok mem = inflateInit2_impl strm 15 version size_ok mem"

definition inflatePrime :: "z_stream option \<Rightarrow> int \<Rightarrow> int \<Rightarrow> int \<times> z_stream option" where
  "inflatePrime strm nbits v =
     with_state (Z_STREAM_ERROR, strm) strm (\<lambda>z st.
       if nbits < 0 then (Z_OK, Some (z\<lparr>state := Some (st\<lparr>hold := 0, bits := 0\<rparr>)\<rparr>))
       else if nbits > 16 \<or> bits st + nat nbits > 32 then (Z_STREAM_ERROR, strm)
       else
         let w = word_of_int v AND (push_bit (nat nbits) 1 - 1)
         in (Z_OK, Some (z\<lparr>state := Some (st\<lparr>hold := hold st + push_bit (bits st) w, bits := bits st + nat nbits\<rparr>)\<rparr>)))"

definition inflateEnd :: "z_stream option \<Rightarrow> int \<times> z_stream option" where
  "inflateEnd strm =
     with_state (Z_STREAM_ERROR, strm) strm (\<lambda>z st. (Z_OK, Some (z\<lparr>state := None\<rparr>)))"

text \<open>The bytes \<open>inflateGetDictionary\<close> writes to \<open>dictionary\<close>, and \<open>*dictLength\<close>.\<close>

definition inflateGetDictionary :: "z_stream option \<Rightarrow> (int \<times> byte list \<times> nat) option" where
  "inflateGetDictionary strm =
     with_state (Some (Z_STREAM_ERROR, [], 0)) strm (\<lambda>z st.
       if whave st \<noteq> 0 then
         Option.bind (window st) (\<lambda>w.
           if wnext st \<le> whave st \<and> whave st \<le> length w
           then Some (Z_OK, take (whave st - wnext st) (drop (wnext st) w) @ take (wnext st) w, whave st)
           else None)
       else Some (Z_OK, [], whave st))"

definition inflateSetDictionary :: "zalloc \<Rightarrow> z_stream option \<Rightarrow> byte list \<Rightarrow> (int \<times> z_stream option) option" where
  "inflateSetDictionary zalloc strm dictionary =
     with_state (Some (Z_STREAM_ERROR, strm)) strm (\<lambda>z st.
       if wrap st \<noteq> 0 \<and> mode st \<noteq> DICT then Some (Z_STREAM_ERROR, strm)
       else if mode st = DICT \<and> adler32 (adler32 0 None) (Some dictionary) \<noteq> check st then Some (Z_DATA_ERROR, strm)
       else map_option (\<lambda>(ret, st).
              if ret then (Z_MEM_ERROR, Some (z\<lparr>state := Some (st\<lparr>mode := MEM\<rparr>)\<rparr>))
              else (Z_OK, Some (z\<lparr>state := Some (st\<lparr>havedict := True\<rparr>)\<rparr>)))
              (updatewindow zalloc dictionary (length dictionary) st))"

definition inflateGetHeader :: "z_stream option \<Rightarrow> gz_header \<Rightarrow> int \<times> z_stream option" where
  "inflateGetHeader strm h =
     with_state (Z_STREAM_ERROR, strm) strm (\<lambda>z st.
       if \<not> bit (wrap st) 1 then (Z_STREAM_ERROR, strm)
       else (Z_OK, Some (z\<lparr>state := Some (st\<lparr>head := Some (h\<lparr>gz_done := 0\<rparr>)\<rparr>)\<rparr>)))"

text \<open>\<open>syncsearch\<close>: the number of bytes read and the new number of pattern bytes found.\<close>

fun syncsearch :: "nat \<Rightarrow> byte list \<Rightarrow> nat \<times> nat" where
  "syncsearch got [] = (0, got)"
| "syncsearch got (b # bs) =
     (if got < 4 then
        let got' = (if b = (if got < 2 then 0 else 0xff) then got + 1 else if b \<noteq> 0 then 0 else 4 - got)
        in (case syncsearch got' bs of (n, g) \<Rightarrow> (n + 1, g))
      else (0, got))"

text \<open>The bit buffer turned back into bytes: \<open>while (state->bits >= 8)\<close>.\<close>

fun unload_bytes :: "nat \<Rightarrow> u32 \<Rightarrow> byte list" where
  "unload_bytes 0 h = []"
| "unload_bytes (Suc n) h = ucast h # unload_bytes n (drop_bit 8 h)"

definition inflateSync :: "z_stream option \<Rightarrow> int \<times> z_stream option" where
  "inflateSync strm =
     with_state (Z_STREAM_ERROR, strm) strm (\<lambda>z st.
       if next_in z = [] \<and> bits st < 8 then (Z_BUF_ERROR, strm)
       else
         let st = (if mode st \<noteq> SYNC then
                     let h = push_bit (bits st mod 8) (hold st); n = bits st div 8
                     in st\<lparr>mode := SYNC, hold := drop_bit (8 * n) h, bits := 0,
                          have_lens := snd (syncsearch 0 (unload_bytes n h))\<rparr>
                   else st);
             (len, got) = syncsearch (have_lens st) (next_in z);
             st = st\<lparr>have_lens := got\<rparr>;
             z = z\<lparr>next_in := drop len (next_in z), total_in := total_in z + word_of_nat len, state := Some st\<rparr>
         in if got \<noteq> 4 then (Z_DATA_ERROR, Some z)
            else
              let strm' = snd (inflateReset (Some z))
              in (Z_OK, map_option (\<lambda>z'. z'\<lparr>total_in := total_in z, total_out := total_out z,
                    state := map_option (mode_update (\<lambda>_. TYPE_M)) (state z')\<rparr>) strm'))"

definition inflateSyncPoint :: "z_stream option \<Rightarrow> int" where
  "inflateSyncPoint strm = with_state Z_STREAM_ERROR strm (\<lambda>z st. of_bool (mode st = STORED \<and> bits st = 0))"

text \<open>\<open>mem_ok\<close> tells whether the memory for the state copy is available.\<close>

definition inflateCopy :: "zalloc \<Rightarrow> bool \<Rightarrow> z_stream option \<Rightarrow> z_stream option \<Rightarrow> int \<times> z_stream option" where
  "inflateCopy zalloc mem_ok dest source =
     (if dest = None then (Z_STREAM_ERROR, dest)
      else with_state (Z_STREAM_ERROR, dest) source (\<lambda>z st.
        if \<not> mem_ok then (Z_MEM_ERROR, dest)
        else case window st of
          None \<Rightarrow> (Z_OK, Some z)
        | Some w \<Rightarrow>
            (case zalloc (2 ^ wbits st) of
               None \<Rightarrow> (Z_MEM_ERROR, dest)
             | Some _ \<Rightarrow> (Z_OK, Some (z\<lparr>state := Some (st\<lparr>window := Some (take (2 ^ wbits st) w)\<rparr>)\<rparr>)))))"

definition inflateUndermine :: "z_stream option \<Rightarrow> int \<Rightarrow> int \<times> z_stream option" where
  "inflateUndermine strm subvert =
     with_state (Z_STREAM_ERROR, strm) strm (\<lambda>z st. (Z_DATA_ERROR, Some (z\<lparr>state := Some (st\<lparr>sane := True\<rparr>)\<rparr>)))"

definition inflateValidate :: "z_stream option \<Rightarrow> bool \<Rightarrow> int \<times> z_stream option" where
  "inflateValidate strm chk =
     with_state (Z_STREAM_ERROR, strm) strm (\<lambda>z st.
       (Z_OK, Some (z\<lparr>state := Some (st\<lparr>wrap := (if chk then set_bit 2 (wrap st) else unset_bit 2 (wrap st))\<rparr>)\<rparr>)))"

definition inflateMark :: "z_stream option \<Rightarrow> int" where
  "inflateMark strm =
     with_state (- (2 ^ 16)) strm (\<lambda>z st.
       sint (push_bit 16 (word_of_int (back_bits st)) :: u32) +
       (if mode st = COPY then int (mlen st) else if mode st = MATCH then int (was st) - int (mlen st) else 0))"

definition inflateCodesUsed :: "z_stream option \<Rightarrow> u32" where
  "inflateCodesUsed strm = with_state (-1) strm (\<lambda>z st. word_of_nat (next_code st))"

end
