(* ===== verification/InflateWindow.thy ===== *)
theory InflateWindow
  imports Inflate
begin

text \<open>
  The sliding window of zlib/inflate.c: the circular buffer that \<open>updatewindow\<close> maintains holds the
  last bytes of the output, and the dictionary functions set and return them.
\<close>

section \<open>The sliding window\<close>

text \<open>The bytes the window holds, oldest first.\<close>

definition win_bytes :: "'a inflate_state_scheme \<Rightarrow> byte list" where
  "win_bytes s =
     (case window s of
        None \<Rightarrow> []
      | Some w \<Rightarrow> if wsize s = 0 then [] else if whave s < wsize s then take (whave s) w
                  else drop (wnext s) w @ take (wnext s) w)"

definition win_inv :: "'a inflate_state_scheme \<Rightarrow> bool" where
  "win_inv s \<longleftrightarrow>
     (case window s of None \<Rightarrow> wsize s = 0 | Some w \<Rightarrow> length w = 2 ^ wbits s) \<and>
     (wsize s = 0 \<and> whave s = 0 \<or> wsize s = 2 ^ wbits s \<and> wnext s < wsize s \<and> (whave s = wsize s \<or> whave s = wnext s))"

text \<open>An update changes the window fields only, and leaves a window in place.\<close>

definition win_frame :: "'a inflate_state_scheme \<Rightarrow> 'a inflate_state_scheme \<Rightarrow> bool" where
  "win_frame s t \<longleftrightarrow> t\<lparr>window := window s, wsize := wsize s, wnext := wnext s, whave := whave s\<rparr> = s"

lemma win_frame_trans: "win_frame s t \<Longrightarrow> win_frame t u \<Longrightarrow> win_frame s u"
proof -
  assume a: "win_frame s t" "win_frame t u"
  have "(u\<lparr>window := window t, wsize := wsize t, wnext := wnext t, whave := whave t\<rparr>)
    \<lparr>window := window s, wsize := wsize s, wnext := wnext s, whave := whave s\<rparr> = s"
    using a unfolding win_frame_def by (simp only:)
  then show ?thesis by (simp add: win_frame_def)
qed

lemma win_frame_wbits: "win_frame s t \<Longrightarrow> wbits t = wbits s"
  unfolding win_frame_def by (drule arg_cong [of _ _ wbits]) simp

lemma win_frame_ok: "win_frame s t \<Longrightarrow> strm_ok t = strm_ok s"
  unfolding win_frame_def by (drule arg_cong [of _ _ strm_ok]) simp

text \<open>What the allocator promises: the memory it returns has the size asked for.\<close>

definition zalloc_ok :: "zalloc \<Rightarrow> bool" where
  "zalloc_ok zalloc \<longleftrightarrow> (\<forall>n m. zalloc n = Some m \<longrightarrow> length m = n)"

lemma length_last_bytes [simp]: "length (last_bytes n xs) = min n (length xs)"
  by (auto simp: last_bytes_def)

lemma last_bytes_append:
  "last_bytes n (xs @ ys) = last_bytes (n - length ys) xs @ last_bytes n ys"
  by (cases "length ys \<le> n") (auto simp: last_bytes_def)

lemma last_bytes_all [simp]: "length xs \<le> n \<Longrightarrow> last_bytes n xs = xs"
  by (simp add: last_bytes_def)

lemma last_bytes_last_bytes: "n \<le> m \<Longrightarrow> last_bytes n (last_bytes m xs) = last_bytes n xs"
  by (auto simp: last_bytes_def) (metis diff_diff_cancel diff_diff_left diff_le_mono2 le_add_diff_inverse2 diff_add_inverse2 add_diff_cancel_right' add.commute le_diff_conv nat_le_linear)

lemma last_bytes_absorb: "last_bytes n (last_bytes n xs @ ys) = last_bytes n (xs @ ys)"
  by (simp add: last_bytes_append last_bytes_last_bytes)

lemma zmemcpy_at:
  "n \<le> length src \<Longrightarrow> at + n \<le> length w \<Longrightarrow> zmemcpy w at src n = Some (take at w @ take n src @ drop (at + n) w)"
  by (simp add: zmemcpy_def)

lemma last_bytes_take: "n \<le> length w \<Longrightarrow> m \<le> n \<Longrightarrow> last_bytes m (take n w) = drop (n - m) (take n w)"
  by (simp add: last_bytes_def)

text \<open>The update of a window in use by data shorter than it: with and without wrapping around.\<close>

lemma window_ring:
  assumes w: "length w = N" "nx < N" "hv = N \<or> hv = nx" and d: "length d < N"
    and s: "s' = s\<lparr>window := w0, wsize := N, wnext := nx, whave := hv\<rparr>" and N: "N = 2 ^ wbits s"
    and old: "old = (if hv < N then take hv w else drop nx w @ take nx w)"
  shows "\<exists>t. (let dist = min (N - nx) (length d); c = length d - dist
      in Option.bind (zmemcpy w nx d dist)
           (\<lambda>w. if c \<noteq> 0 then map_option (\<lambda>w. (False, s'\<lparr>window := Some w, wnext := c, whave := N\<rparr>)) (zmemcpy w 0 (drop dist d) c)
                 else let s1 = s'\<lparr>window := Some w, wnext := nx + dist\<rparr>;
                          s1 = (if wnext s1 = wsize s1 then s1\<lparr>wnext := 0\<rparr> else s1)
                      in Some (False, if whave s1 < wsize s1 then s1\<lparr>whave := whave s1 + dist\<rparr> else s1)))
     = Some (False, t) \<and> window t \<noteq> None \<and> wsize t = N \<and> win_inv t \<and> win_bytes t = last_bytes N (old @ d) \<and> win_frame s t"
proof (cases "length d \<le> N - nx")
  case True
  let ?w = "take nx w @ d @ drop (nx + length d) w"
  have z: "zmemcpy w nx d (length d) = Some ?w" using True w by (simp add: zmemcpy_at)
  have lw: "length ?w = N" using True w by simp
  show ?thesis
  proof (cases "hv < N")
    case hv: True
    then have [simp]: "hv = nx" using w by simp
    have "last_bytes N (old @ d) = take nx w @ d" using True w by (simp add: old)
    then show ?thesis using True hv z lw w s N by (auto simp: Let_def win_inv_def win_bytes_def win_frame_def)
  next
    case False
    then have [simp]: "hv = N" using w by auto
    have "last_bytes N (old @ d) = drop (nx + length d) w @ take nx w @ d"
      using True w d by (simp add: old last_bytes_append last_bytes_def[of _ "drop nx w"] add.commute)
    then show ?thesis using True False z lw w s N by (auto simp: Let_def win_inv_def win_bytes_def win_frame_def)
  qed
next
  case False
  define c where "c = length d - (N - nx)"
  have c: "0 < c" "c < nx" using False w d by (auto simp: c_def)
  let ?w = "take nx w @ take (N - nx) d"
  let ?w2 = "drop (N - nx) d @ drop c ?w"
  have z: "zmemcpy w nx d (N - nx) = Some ?w" "zmemcpy ?w 0 (drop (N - nx) d) c = Some ?w2"
    using False w c by (simp_all add: zmemcpy_at c_def)
  have lw: "length ?w2 = N" using False w c by (simp add: c_def)
  have "drop c ?w2 @ take c ?w2 = drop c (take nx w) @ d"
    using False w c by (simp add: c_def)
  moreover have "last_bytes N (old @ d) = drop c (take nx w) @ d"
  proof -
    have "old = (if hv < N then [] else drop nx w) @ take nx w" using w(3) by (auto simp: old)
    then obtain pre where "old = pre @ take nx w" by blast
    moreover have "N - length d = nx - c" using c False w by (simp add: c_def)
    ultimately have "last_bytes N (old @ d) = last_bytes (nx - c) (take nx w) @ d"
      using d w c by (simp add: last_bytes_append) (simp add: last_bytes_def)
    then show ?thesis using w c by (simp add: last_bytes_take)
  qed
  moreover have "min (N - nx) (length d) = N - nx" using False by simp
  moreover have "win_inv (s'\<lparr>window := Some ?w2, wnext := c, whave := N\<rparr>)"
    using lw s N c w by (simp add: win_inv_def)
  moreover have "win_bytes (s'\<lparr>window := Some ?w2, wnext := c, whave := N\<rparr>) = drop c ?w2 @ take c ?w2"
    using s w by (simp add: win_bytes_def)
  moreover have "win_frame s (s'\<lparr>window := Some ?w2, wnext := c, whave := N\<rparr>)"
    using s N by (simp add: win_frame_def)
  ultimately show ?thesis
    unfolding Let_def using z c s by (auto simp: c_def [symmetric] simp del: diff_diff_right Nat.diff_diff_right)
qed

lemma updatewindow_spec:
  assumes inv: "win_inv s" and al: "zalloc_ok zalloc" and mem: "copy \<le> length mem"
  shows "(window s = None \<and> zalloc (2 ^ wbits s) = None \<and> updatewindow zalloc mem copy s = Some (True, s)) \<or>
    (\<exists>t. window t \<noteq> None \<and> wsize t = 2 ^ wbits s \<and> updatewindow zalloc mem copy s = Some (False, t) \<and> win_inv t \<and>
       win_bytes t = last_bytes (2 ^ wbits s) (win_bytes s @ last_bytes copy mem) \<and> win_frame s t)"
proof (cases "window s = None \<and> zalloc (2 ^ wbits s) = None")
  case True
  then show ?thesis by (simp add: updatewindow_def)
next
  case False
  define N where "N = (2 :: nat) ^ wbits s"
  obtain w where w: "(case window s of Some w \<Rightarrow> Some w | None \<Rightarrow> zalloc (2 ^ wbits s)) = Some w" "length w = N"
    using False inv al by (auto simp: win_inv_def zalloc_ok_def N_def split: option.splits)
  define nx hv where "nx = (if wsize s = 0 then 0 else wnext s)" and "hv = (if wsize s = 0 then 0 else whave s)"
  define s' where "s' = (if wsize s = 0 then s\<lparr>wsize := 2 ^ wbits s, wnext := 0, whave := 0\<rparr> else s)"
  have N0: "0 < N" by (simp add: N_def)
  have s': "s' = s\<lparr>window := window s, wsize := N, wnext := nx, whave := hv\<rparr>"
    using inv by (auto simp: s'_def N_def nx_def hv_def win_inv_def)
  have nh: "nx < N" "hv = N \<or> hv = nx" using inv N0 by (auto simp: nx_def hv_def win_inv_def N_def)
  have wb: "win_bytes s = (if hv < N then take hv w else drop nx w @ take nx w)"
    using inv w N0 by (auto simp: win_bytes_def win_inv_def nx_def hv_def N_def split: option.splits)
  have lw: "length (win_bytes s) \<le> N" using w nh by (auto simp: wb)
  have "\<exists>t. window t \<noteq> None \<and> wsize t = N \<and> updatewindow zalloc mem copy s = Some (False, t) \<and> win_inv t \<and>
       win_bytes t = last_bytes N (win_bytes s @ last_bytes copy mem) \<and> win_frame s t"
  proof (cases "copy \<ge> N")
    case True
    let ?w = "last_bytes N mem"
    have "zmemcpy w 0 ?w N = Some ?w" using w True mem by (simp add: zmemcpy_def)
    then have "updatewindow zalloc mem copy s = Some (False, s'\<lparr>window := Some ?w, wnext := 0, whave := N\<rparr>)"
      unfolding updatewindow_def w option.case s'_def [symmetric] Let_def using s' True by simp
    moreover have "win_inv (s'\<lparr>window := Some ?w, wnext := 0, whave := N\<rparr>)"
      using s' True mem N0 by (simp add: win_inv_def N_def)
    moreover have "win_bytes (s'\<lparr>window := Some ?w, wnext := 0, whave := N\<rparr>) = last_bytes N (win_bytes s @ last_bytes copy mem)"
      using s' N0 True mem by (simp add: win_bytes_def last_bytes_append last_bytes_last_bytes) (simp add: last_bytes_def)
    moreover have "win_frame s (s'\<lparr>window := Some ?w, wnext := 0, whave := N\<rparr>)"
      "wsize (s'\<lparr>window := Some ?w, wnext := 0, whave := N\<rparr>) = N"
      using s' by (simp_all add: win_frame_def N_def)
    ultimately show ?thesis by fastforce
  next
    case False
    let ?d = "last_bytes copy mem"
    have d: "length ?d < N" "length ?d = copy" using False mem by auto
    have f: "wsize s' = N" "wnext s' = nx" "\<not> N \<le> copy" using s' False by simp_all
    have "updatewindow zalloc mem copy s = (let dist = min (N - nx) copy; c = copy - dist
      in Option.bind (zmemcpy w nx ?d dist)
           (\<lambda>w. if c \<noteq> 0 then map_option (\<lambda>w. (False, s'\<lparr>window := Some w, wnext := c, whave := N\<rparr>)) (zmemcpy w 0 (drop dist ?d) c)
                 else let s1 = s'\<lparr>window := Some w, wnext := nx + dist\<rparr>;
                          s1 = (if wnext s1 = wsize s1 then s1\<lparr>wnext := 0\<rparr> else s1)
                      in Some (False, if whave s1 < wsize s1 then s1\<lparr>whave := whave s1 + dist\<rparr> else s1)))"
      unfolding updatewindow_def w option.case Let_def s'_def [symmetric] f if_not_P [OF f(3)] by (rule refl)
    then show ?thesis
      using window_ring [OF w(2) nh d(1) s' N_def wb] unfolding d(2) by auto
  qed
  then show ?thesis by (simp add: N_def)
qed


lemma win_bytes_le: "win_inv s \<Longrightarrow> length (win_bytes s) \<le> 2 ^ wbits s"
  by (auto simp: win_inv_def win_bytes_def split: option.splits)

text \<open>The window after a sequence of updates, one per call of \<open>inflate()\<close>, with the output of that call.\<close>

fun feed :: "zalloc \<Rightarrow> byte list list \<Rightarrow> 'a inflate_state_scheme \<Rightarrow> 'a inflate_state_scheme option" where
  "feed zalloc [] s = Some s"
| "feed zalloc (d # ds) s =
     (case updatewindow zalloc d (length d) s of Some (False, t) \<Rightarrow> feed zalloc ds t | _ \<Rightarrow> None)"

text \<open>
  C8. The sliding window: however the output is cut into calls, the circular buffer holds, oldest byte
  first, exactly the last \<open>2 ^ wbits\<close> bytes of everything produced so far (or all of it while it is
  shorter), its indices stay within the buffer, and nothing else of the state changes. The memory has
  to be available when the first update allocates it.
\<close>

theorem updatewindow_history:
  assumes "win_inv s" and "zalloc_ok zalloc" and "window s \<noteq> None \<or> zalloc (2 ^ wbits s) \<noteq> None"
  shows "\<exists>t. feed zalloc chunks s = Some t \<and> win_inv t \<and>
    win_bytes t = last_bytes (2 ^ wbits s) (win_bytes s @ concat chunks) \<and>
    win_frame s t"
  using assms
proof (induction chunks arbitrary: s)
  case Nil
  then show ?case using win_bytes_le [of s] by (simp add: win_frame_def)
next
  case (Cons d ds)
  obtain t where t: "updatewindow zalloc d (length d) s = Some (False, t)" "win_inv t"
      "win_bytes t = last_bytes (2 ^ wbits s) (win_bytes s @ d)" "win_frame s t" "window t \<noteq> None"
    using updatewindow_spec [OF Cons.prems(1,2), of "length d" d] Cons.prems(3) by auto
  have wt: "wbits t = wbits s" using t(4) by (rule win_frame_wbits)
  obtain u where u: "feed zalloc ds t = Some u" "win_inv u"
      "win_bytes u = last_bytes (2 ^ wbits s) (win_bytes t @ concat ds)" "win_frame t u"
    using Cons.IH [OF t(2) Cons.prems(2)] wt t(5) by auto
  have "win_frame s u" using t(4) u(4) by (rule win_frame_trans)
  moreover have "win_bytes u = last_bytes (2 ^ wbits s) (win_bytes s @ d @ concat ds)"
    by (simp add: u(3) t(3) last_bytes_absorb)
  ultimately show ?case using t(1) u(1,2) by auto
qed


text \<open>A zeroed state, for the concrete inputs below.\<close>

definition state0 :: inflate_state where
  "state0 = \<lparr>strm_ok = True, mode = HEAD, last_block = False, wrap = 0, havedict = False, flags = 0, dmax = 32768,
     check = 0, total_cnt = 0, head = None, wbits = 15, wsize = 0, whave = 0, wnext = 0, window = None, hold = 0,
     bits = 0, mlen = 0, offset = 0, extra = 0, lencode = Codes 0, distcode = Codes 0, lenbits = 0, distbits = 0,
     ncode = 0, nlen = 0, ndist = 0, have_lens = 0, next_code = 0, lens = replicate 320 0, work = replicate 288 0,
     codes = replicate ENOUGH (entry (0, 0, 0)), sane = True, back_bits = -1, was = 0\<rparr>"

definition stream0 :: "inflate_state \<Rightarrow> byte list \<Rightarrow> nat \<Rightarrow> z_stream" where
  "stream0 st bs space = \<lparr>next_in = bs, next_in_null = False, total_in = 0, out_mem = [], next_out_null = False,
     avail_out = space, total_out = 0, msg = None, state = Some st, zalloc_set = True, zfree_set = True,
     data_type = 0, adler = 0\<rparr>"

definition calloc :: zalloc where "calloc n = Some (replicate n 0)"

lemma zalloc_ok_calloc: "zalloc_ok calloc"
  by (simp add: zalloc_ok_def calloc_def)

theorem updatewindow_history_witness:
  "\<exists>t. feed calloc [[1, 2, 3], [4, 5], [6]] (state0\<lparr>wbits := 2\<rparr>) = Some t \<and> win_bytes t = [3, 4, 5, 6]"
  using updatewindow_history [of "state0\<lparr>wbits := 2\<rparr>" calloc "[[1, 2, 3], [4, 5], [6]]"] zalloc_ok_calloc
  by (auto simp: state0_def win_inv_def calloc_def win_bytes_def last_bytes_def)

text \<open>
  C25. \<open>inflateSetDictionary\<close> is refused with \<open>Z_STREAM_ERROR\<close> when a wrapped stream does not ask for a
  dictionary and with \<open>Z_DATA_ERROR\<close> when the Adler-32 of the dictionary is not the one the stream
  announced, and then changes nothing. Otherwise it succeeds, and \<open>inflateGetDictionary\<close> then returns the last
  \<open>2 ^ wbits\<close> bytes of the history followed by the dictionary.
\<close>

theorem dictionary_roundtrip:
  assumes "\<not> inflateStateCheck (Some z)" and "state z = Some st" and "win_inv st" and "zalloc_ok zalloc"
    and "window st \<noteq> None \<or> zalloc (2 ^ wbits st) \<noteq> None"
  shows "if wrap st \<noteq> 0 \<and> mode st \<noteq> DICT
    then inflateSetDictionary zalloc (Some z) dict = Some (Z_STREAM_ERROR, Some z)
    else if mode st = DICT \<and> adler32 1 (Some dict) \<noteq> check st
    then inflateSetDictionary zalloc (Some z) dict = Some (Z_DATA_ERROR, Some z)
    else \<exists>z'. inflateSetDictionary zalloc (Some z) dict = Some (Z_OK, Some z') \<and>
      (let d = last_bytes (2 ^ wbits st) (win_bytes st @ dict)
       in inflateGetDictionary (Some z') = Some (Z_OK, d, length d))"
proof -
  have a1: "adler32 0 None = 1" by (simp add: adler32_def adler32_z_def)
  have ws: "with_state r (Some z) f = f z st" for r :: 'r and f
    using assms(1,2) by (simp add: with_state_def)
  obtain t where t: "updatewindow zalloc dict (length dict) st = Some (False, t)" "win_inv t" "win_frame st t"
      "win_bytes t = last_bytes (2 ^ wbits st) (win_bytes st @ dict)" "window t \<noteq> None" "wsize t = 2 ^ wbits st"
    using updatewindow_spec [OF assms(3,4), of "length dict" dict] assms(5) by auto
  have chk: "\<not> inflateStateCheck (Some (z\<lparr>state := Some (t\<lparr>havedict := True\<rparr>)\<rparr>))"
    using assms(1,2) t(3) win_frame_ok by (auto simp: inflateStateCheck_def)
  have "inflateGetDictionary (Some (z\<lparr>state := Some (t\<lparr>havedict := True\<rparr>)\<rparr>)) = Some (Z_OK, win_bytes t, length (win_bytes t))"
    using chk t(2,5,6) by (auto simp: inflateGetDictionary_def with_state_def win_inv_def win_bytes_def)
  then show ?thesis
    using t by (auto simp: inflateSetDictionary_def ws a1 Let_def)
qed

theorem dictionary_roundtrip_witness:
  "\<exists>z'. inflateSetDictionary calloc (Some (stream0 (state0\<lparr>wbits := 2\<rparr>) [] 0)) [1, 2, 3, 4, 5] = Some (Z_OK, Some z') \<and>
     inflateGetDictionary (Some z') = Some (Z_OK, [2, 3, 4, 5], 4)"
  using dictionary_roundtrip [of "stream0 (state0\<lparr>wbits := 2\<rparr>) [] 0" "state0\<lparr>wbits := 2\<rparr>" calloc "[1, 2, 3, 4, 5]"] zalloc_ok_calloc
  by (auto simp: state0_def win_inv_def calloc_def win_bytes_def last_bytes_def stream0_def inflateStateCheck_def)

end
