(* ===== verification/InflateMatch.thy ===== *)
theory InflateMatch
  imports InflateWindow
begin

text \<open>
  The copying of matches. \<open>lz_copy\<close> is the LZ77 copy on the history (the window followed by the
  output of this call); the loop of \<open>inflate_fast\<close> that copies from the circular window and then from
  the output, three bytes at a time, and the mode \<open>MATCH\<close> of \<open>inflate()\<close> both implement it.
\<close>

section \<open>The specification\<close>

text \<open>Append \<open>n\<close> bytes, each a copy of the one \<open>d\<close> bytes back.\<close>

fun lz_copy :: "nat \<Rightarrow> nat \<Rightarrow> byte list \<Rightarrow> byte list" where
  "lz_copy d 0 h = h"
| "lz_copy d (Suc n) h = lz_copy d n (h @ [h ! (length h - d)])"

lemma length_lz_copy [simp]: "length (lz_copy d n h) = length h + n"
  by (induction n arbitrary: h) simp_all

lemma lz_copy_add: "lz_copy d (m + n) h = lz_copy d n (lz_copy d m h)"
  by (induction m arbitrary: h) simp_all

lemma lz_copy_append: "0 < d \<Longrightarrow> d \<le> length h \<Longrightarrow> lz_copy d n (g @ h) = g @ lz_copy d n h"
proof (induction n arbitrary: h)
  case (Suc n)
  have "(g @ h) ! (length g + length h - d) = h ! (length h - d)"
    using Suc.prems nth_append_length_plus [of g h "length h - d"] by simp
  then show ?case using Suc.prems Suc.IH [of "h @ [h ! (length h - d)]"] by simp
qed simp

lemma lz_copy_short: "0 < d \<Longrightarrow> n \<le> d \<Longrightarrow> d \<le> length h \<Longrightarrow> lz_copy d n h = h @ take n (last_bytes d h)"
proof (induction n)
  case (Suc n)
  then have IH: "lz_copy d n h = h @ take n (last_bytes d h)" by simp
  have "lz_copy d (Suc n) h = lz_copy d 1 (lz_copy d n h)" using lz_copy_add [of d n 1 h] by simp
  also have "\<dots> = h @ take n (last_bytes d h) @ [h ! (length h + n - d)]"
    using Suc.prems by (simp add: IH nth_append)
  also have "\<dots> = h @ take (Suc n) (last_bytes d h)"
    using Suc.prems by (simp add: last_bytes_def take_Suc_conv_app_nth)
  finally show ?case .
qed simp

text \<open>A match that starts \<open>n\<close> bytes back in the window \<open>w\<close>: first from the window, then from the output.\<close>

lemma lz_copy_window:
  assumes "n \<le> length w" and "0 < n" and "d = n + length u"
  shows "lz_copy d ml (w @ u) =
    w @ (if ml \<le> n then u @ take ml (last_bytes n w) else lz_copy d (ml - n) (u @ last_bytes n w))"
proof -
  have short: "lz_copy d m (w @ u) = w @ u @ take m (last_bytes n w)" if "m \<le> n" for m
    using assms that by (simp add: lz_copy_short last_bytes_append)
  show ?thesis
  proof (cases "ml \<le> n")
    case False
    then have "lz_copy d ml (w @ u) = lz_copy d (ml - n) (lz_copy d n (w @ u))"
      using lz_copy_add [of d n "ml - n"] by simp
    also have "\<dots> = lz_copy d (ml - n) (w @ u @ last_bytes n w)" using assms short [of n] by simp
    also have "\<dots> = w @ lz_copy d (ml - n) (u @ last_bytes n w)" using assms by (simp add: lz_copy_append)
    finally show ?thesis using False by simp
  qed (simp add: short)
qed

section \<open>The copying loops\<close>

lemma copy_bytes_add: "copy_bytes win (m + n) p = Option.bind (copy_bytes win m p) (copy_bytes win n)"
proof (induction m arbitrary: p)
  case (Suc m)
  then have "copy_bytes win (m + n) = (\<lambda>q. Option.bind (copy_bytes win m q) (copy_bytes win n))" by (simp add: fun_eq_iff)
  then show ?case by simp
qed simp

lemma copy_bytes_0: "copy_bytes win 0 = Some" and copy_bytes_1: "copy_bytes win (Suc 0) = copy_byte win"
proof -
  show z: "copy_bytes win 0 = Some" by (simp add: fun_eq_iff)
  show "copy_bytes win (Suc 0) = copy_byte win"
    by (simp add: fun_eq_iff z del: copy_bytes.simps(1))
qed

lemma copy_threes_eq: "copy_threes win n p = copy_bytes win n p"
proof (induction n arbitrary: p rule: less_induct)
  case (less n)
  consider "n = 0" | "n = 1" | "n = 2" | m where "n = 3 + m" by (metis One_nat_def add.commute add_2_eq_Suc add_Suc_right less_2_cases not_less_eq le_Suc_ex numeral_3_eq_3 plus_1_eq_Suc not_less)
  then show ?case
  proof cases
    case 4
    then have "copy_threes win m = copy_bytes win m" using less.IH [of m] by (simp add: fun_eq_iff)
    then show ?thesis using 4 by (subst copy_threes.simps) (simp add: copy_bytes_add del: add_numeral_left)
  qed (subst copy_threes.simps, simp add: numeral_eq_Suc copy_bytes_0 copy_bytes_1 del: copy_bytes.simps(1))+
qed

lemma copy_bytes_Win:
  "i + n \<le> length win \<Longrightarrow> copy_bytes win n (Win i, out) = Some (Win (i + n), out @ take n (drop i win))"
proof (induction n arbitrary: i out)
  case (Suc n)
  then show ?case by (simp add: Cons_nth_drop_Suc [symmetric])
qed simp

lemma copy_bytes_Mem:
  "0 < d \<Longrightarrow> i + d = length out \<Longrightarrow> copy_bytes win n (Mem i, out) = Some (Mem (i + n), lz_copy d n out)"
proof (induction n arbitrary: i out)
  case (Suc n)
  have "length out - d = i" using Suc.prems by simp
  then show ?case using Suc.prems Suc.IH [of "i + 1" "out @ [out ! i]"] by simp
qed simp

section \<open>Copies from the window\<close>

text \<open>Where the last \<open>n\<close> bytes of the history lie in the circular buffer.\<close>

lemma last_bytes_win:
  assumes inv: "win_inv s" and w: "window s = Some w" and n: "0 < n" "n \<le> whave s"
  shows "last_bytes n (win_bytes s) =
      (if n \<le> wnext s then take n (drop (wnext s - n) w) else drop (wsize s + wnext s - n) w @ take (wnext s) w)"
    and "n \<le> length (win_bytes s)" and "length w = wsize s" and "wnext s < wsize s" and "n \<le> wsize s"
proof -
  have ws: "length w = wsize s" "wnext s < wsize s" "whave s = wsize s \<or> whave s = wnext s"
    using inv w n by (auto simp: win_inv_def)
  then show "length w = wsize s" "wnext s < wsize s" "n \<le> wsize s" using n by auto
  show "n \<le> length (win_bytes s)" using ws w n by (auto simp: win_bytes_def)
  show "last_bytes n (win_bytes s) =
      (if n \<le> wnext s then take n (drop (wnext s - n) w) else drop (wsize s + wnext s - n) w @ take (wnext s) w)"
    using ws w n by (auto simp: win_bytes_def last_bytes_append last_bytes_def drop_take)
qed


lemma window_copy_lz:
  assumes inv: "win_inv s" "window s = Some w" and n: "0 < n" "n \<le> whave s" and d: "d = n + length u"
  shows "window_copy s w n d ml (pre @ u) = Some (pre @ drop (length (win_bytes s)) (lz_copy d ml (win_bytes s @ u)))"
proof -
  define seg where "seg = last_bytes n (win_bytes s)"
  note W = last_bytes_win [OF inv n]
  have lseg: "length seg = n" using W(2) by (simp add: seg_def)
  have spec: "drop (length (win_bytes s)) (lz_copy d ml (win_bytes s @ u)) =
      (if ml \<le> n then u @ take ml seg else lz_copy d (ml - n) (u @ seg))"
    using lz_copy_window [OF W(2) n(1) d, of ml] by (simp add: seg_def)
  have tail: "copy_bytes w m (Mem (length (pre @ u @ seg) - d), pre @ u @ seg)
      = Some (Mem (length pre + m), pre @ lz_copy d m (u @ seg))" for m
    using copy_bytes_Mem [of d "length pre" "pre @ u @ seg" w m] n d lseg lz_copy_append [of d "u @ seg" m pre] by simp
  show ?thesis
  proof (cases "n \<le> wnext s")
    case True
    then have nx: "wnext s \<noteq> 0" "\<not> wnext s < n" "seg = take n (drop (wnext s - n) w)" using n W(1) by (simp_all add: seg_def)
    have c: "copy_bytes w m (Win (wnext s - n), pre @ u) = Some (Win (wnext s - n + m), pre @ u @ take m seg)" if "m \<le> n" for m
      using that True W(3,4) by (subst copy_bytes_Win) (simp_all add: nx min_absorb1)
    show ?thesis
      unfolding spec window_copy_def copy_threes_eq using nx(1,2) c [of n] c [of ml] lseg tail [of "ml - n"] by (auto simp: not_less)
  next
    case False
    define k where "k = n - wnext s"
    have k: "0 < k" "n - k = wnext s" "wnext s + k = n" "k \<le> n" using False n by (auto simp: k_def)
    have sg: "seg = drop (wsize s - k) w @ take (wnext s) w"
      using W(1) False W(5) by (simp add: seg_def k_def)
    have at: "wsize s - k = wsize s + wnext s - n" using False W(5) by (simp add: k_def)
    have c1: "copy_bytes w m (Win (wsize s - k), pre @ u) = Some (Win (wsize s - k + m), pre @ u @ take m (drop (wsize s - k) w))" if "m \<le> k" for m
      using that W(3,5) k by (subst copy_bytes_Win) auto
    have c2: "copy_bytes w m (Win 0, pre @ u @ drop (wsize s - k) w) = Some (Win m, pre @ u @ drop (wsize s - k) w @ take m w)" if "m \<le> wnext s" for m
      using that W(3,4) by (subst copy_bytes_Win) auto
    have lk: "length (drop (wsize s - k) w) = k" using W(3,5) k by simp
    show ?thesis
    proof (cases "wnext s = 0")
      case True
      then have "k = n" "seg = drop (wsize s - n) w" using k sg by auto
      then show ?thesis
        unfolding spec window_copy_def copy_threes_eq using True c1 [of n] c1 [of ml] lk tail [of "ml - n"]
        by (auto simp: not_less)
    next
      case nz: False
      consider "ml \<le> k" | "k < ml" "ml \<le> n" | "n < ml" using k by linarith
      then show ?thesis
      proof cases
        case 1
        then show ?thesis
          unfolding spec window_copy_def copy_threes_eq using False nz c1 [of ml] lk k
          by (simp add: k_def [symmetric] at [symmetric] sg)
      next
        case 2
        then have "\<not> wnext s < ml - k" "ml - k \<le> wnext s" using k by auto
        then show ?thesis
          unfolding spec window_copy_def copy_threes_eq using 2 False nz c1 [of k] c2 [of "ml - k"] lk k
          by (simp add: k_def [symmetric] at [symmetric] sg Let_def)
      next
        case 3
        then have m: "wnext s < ml - k" "ml - k - wnext s = ml - n" "k < ml" using k by auto
        have t: "copy_bytes w (ml - n) (Mem (length (pre @ u @ drop (wsize s - k) w @ take (wnext s) w) - d),
            pre @ u @ drop (wsize s - k) w @ take (wnext s) w) = Some (Mem (length pre + (ml - n)), pre @ lz_copy d (ml - n) (u @ seg))"
          using tail [of "ml - n"] by (simp only: sg)
        show ?thesis
          unfolding spec window_copy_def copy_threes_eq using 3 m(1,3) False nz c1 [of k] c2 [of "wnext s"] lk t
          by (simp only: k_def [symmetric] at [symmetric] Let_def m(2)) (simp del: append_assoc length_append)
      qed
    qed
  qed
qed


section \<open>Matches\<close>

text \<open>
  The history of a call that started with the output memory ending at \<open>put\<close> less the bytes written
  since, and the output memory after a match.
\<close>

definition out_base :: "loop \<Rightarrow> nat" where
  "out_base s = length (put s) - (out_start s - left s)"

definition out_ok :: "loop \<Rightarrow> bool" where
  "out_ok s \<longleftrightarrow> left s \<le> out_start s \<and> out_start s - left s \<le> length (put s)"

definition history :: "loop \<Rightarrow> byte list \<Rightarrow> byte list" where
  "history s out = win_bytes s @ drop (out_base s) out"

definition lz_output :: "loop \<Rightarrow> nat \<Rightarrow> nat \<Rightarrow> byte list \<Rightarrow> byte list" where
  "lz_output s d n out = take (out_base s) out @ drop (length (win_bytes s)) (lz_copy d n (history s out))"

lemma lz_output_direct:
  assumes "0 < d" and "d \<le> length out - out_base s" and "out_base s \<le> length out"
  shows "lz_output s d n out = lz_copy d n out"
proof -
  have "lz_copy d n out = take (out_base s) out @ lz_copy d n (drop (out_base s) out)"
    using assms lz_copy_append [of d "drop (out_base s) out" n "take (out_base s) out"] by simp
  then show ?thesis using assms by (simp add: lz_output_def history_def lz_copy_append)
qed

lemma length_lz_output: "out_base s \<le> length out \<Longrightarrow> length (lz_output s d n out) = length out + n"
  by (simp add: lz_output_def history_def)

lemma lz_copy_prefix: "\<exists>g. lz_copy d n h = h @ g"
proof (induction n arbitrary: h)
  case (Suc n)
  then show ?case using Suc.IH [of "h @ [h ! (length h - d)]"] by auto
qed simp

lemma lz_output_add:
  assumes "out_base s \<le> length out"
  shows "lz_output s d n (lz_output s d m out) = lz_output s d (m + n) out"
proof -
  have "win_bytes s @ drop (length (win_bytes s)) (lz_copy d m (history s out)) = lz_copy d m (history s out)"
    using lz_copy_prefix [of d m "history s out"] by (auto simp: history_def)
  then show ?thesis using assms by (simp add: lz_output_def history_def lz_copy_add)
qed

lemma whave_len: "win_inv s \<Longrightarrow> window s = None \<longrightarrow> whave s = 0" "win_inv s \<Longrightarrow> length (win_bytes s) = whave s"
  by (auto simp: win_inv_def win_bytes_def split: option.splits)

lemma match_copy_lz:
  assumes inv: "win_inv s" "out_ok s" "sane s" and f: "length (put s) \<le> length (fout f)" and m: "0 < d" "3 \<le> ml"
  shows "match_copy s ml d f =
    (if d \<le> length (history s (fout f)) then FCont (f\<lparr>fout := lz_output s d ml (fout f)\<rparr>)
     else FEnd BAD (Some ''invalid distance too far back'') f)"
proof -
  have b: "out_base s \<le> length (fout f)" using f by (simp add: out_base_def)
  have n: "length (fout f) - length (put s) + (out_start s - left s) = length (fout f) - out_base s"
    using inv(2) f unfolding out_base_def out_ok_def by arith
  note wl = whave_len [OF inv(1)]
  have lh: "length (history s (fout f)) = whave s + (length (fout f) - out_base s)" by (simp add: history_def wl)
  show ?thesis
  proof (cases "d \<le> length (fout f) - out_base s")
    case True
    have "copy_threes [] ml (Mem (length (fout f) - d), fout f) = Some (Mem (length (fout f) - d + ml), lz_copy d ml (fout f))"
      using True m b by (simp add: copy_threes_eq copy_bytes_Mem)
    moreover have "\<not> length (fout f) < d" "d \<le> length (history s (fout f))" using True lh by auto
    ultimately show ?thesis
      unfolding match_copy_def n Let_def using True m lz_output_direct [OF m(1) True b] by simp
  next
    case far: False
    show ?thesis
    proof (cases "d - (length (fout f) - out_base s) > whave s")
      case True
      then show ?thesis unfolding match_copy_def n Let_def using far inv(3) lh by simp
    next
      case False
      let ?n = "d - (length (fout f) - out_base s)"
      obtain w where w: "window s = Some w" using wl(1) far False by fastforce
      have "window_copy s w ?n d ml (take (out_base s) (fout f) @ drop (out_base s) (fout f)) = Some (lz_output s d ml (fout f))"
        using window_copy_lz [OF inv(1) w, of ?n d "drop (out_base s) (fout f)" ml "take (out_base s) (fout f)"] far False
        by (simp add: lz_output_def history_def)
      then show ?thesis unfolding match_copy_def n Let_def using far False w lh by simp
    qed
  qed
qed


lemma step_MATCH_lz:
  assumes inv: "win_inv s" "out_ok s" "sane s" and m: "0 < offset s" "0 < mlen s" "0 < left s"
    and d: "offset s \<le> length (history s (put s))"
  shows "\<exists>c. 0 < c \<and> c \<le> min (mlen s) (left s) \<and>
    step_MATCH s = Next (s\<lparr>left := left s - c, mlen := mlen s - c, put := lz_output s (offset s) c (put s),
      mode := (if mlen s = c then LEN else mode s)\<rparr>)"
proof -
  have b: "out_base s \<le> length (put s)" by (simp add: out_base_def)
  have n: "out_start s - left s = length (put s) - out_base s"
    using inv(2) unfolding out_base_def out_ok_def by arith
  note wl = whave_len [OF inv(1)]
  have lh: "length (history s (put s)) = whave s + (length (put s) - out_base s)" by (simp add: history_def wl)
  show ?thesis
  proof (cases "offset s \<le> length (put s) - out_base s")
    case True
    have "copy_bytes w c (Mem (length (put s) - offset s), put s) = Some (Mem (length (put s) - offset s + c), lz_output s (offset s) c (put s))" for w c
      using True m b by (simp add: copy_bytes_Mem lz_output_direct)
    then show ?thesis unfolding step_MATCH_def n Let_def using True m by (intro exI [of _ "min (mlen s) (left s)"]) auto
  next
    case far: False
    define k where "k = offset s - (length (put s) - out_base s)"
    have k: "0 < k" "k \<le> whave s" "offset s = k + (length (put s) - out_base s)" using far d lh by (auto simp: k_def)
    obtain w where w: "window s = Some w" using wl(1) k by fastforce
    note W = last_bytes_win [OF inv(1) w k(1,2)]
    define i avail where "i = (if k > wnext s then wsize s - (k - wnext s) else wnext s - k)"
      and "avail = (if k > wnext s then k - wnext s else k)"
    have av: "0 < avail" "avail \<le> k" "i + avail \<le> length w" using k W by (auto simp: avail_def i_def)
    have seg: "take c (last_bytes k (win_bytes s)) = take c (drop i w)" if "c \<le> avail" for c
      using that W by (auto simp: avail_def i_def)
    have cp: "copy_bytes w c (Win i, put s) = Some (Win (i + c), lz_output s (offset s) c (put s))" if c: "c \<le> avail" for c
    proof -
      have "lz_output s (offset s) c (put s) = put s @ take c (last_bytes k (win_bytes s))"
        using lz_copy_window [OF W(2) k(1), of "offset s" "drop (out_base s) (put s)" c] k c av by (simp add: lz_output_def history_def)
      then show ?thesis using av c by (simp add: copy_bytes_Win seg)
    qed
    define c where "c = min (min avail (mlen s)) (left s)"
    have "0 < c" "c \<le> avail" "c \<le> min (mlen s) (left s)" using av m by (auto simp: c_def)
    moreover have fc: "(if wnext s < k then (wsize s - (k - wnext s), k - wnext s) else (wnext s - k, k)) = (i, avail)"
      by (simp add: i_def avail_def)
    moreover have "step_MATCH s = Next (s\<lparr>left := left s - c, mlen := mlen s - c, put := lz_output s (offset s) c (put s),
      mode := (if mlen s = c then LEN else mode s)\<rparr>)"
      unfolding step_MATCH_def n Let_def k_def [symmetric] fc prod.case
      using far m w k(2) \<open>0 < c\<close> cp [OF \<open>c \<le> avail\<close>] \<open>c \<le> min (mlen s) (left s)\<close>
      by (simp add: c_def [symmetric] not_less [symmetric] del: not_less)
    ultimately show ?thesis by blast
  qed
qed


lemma history_after:
  assumes "out_ok s" and "c \<le> left s" and "s1 = s\<lparr>left := left s - c, mlen := ml, put := lz_output s d c (put s), mode := m\<rparr>"
  shows "out_base s1 = out_base s" and "out_ok s1" and "win_bytes s1 = win_bytes s"
    and "length (history s1 (put s1)) = length (history s (put s)) + c" and "lz_output s1 = lz_output s"
proof -
  have l: "length (lz_output s d c (put s)) = length (put s) + c" by (simp add: length_lz_output out_base_def)
  show b: "out_base s1 = out_base s" and "out_ok s1"
    using assms(1,2) l unfolding out_base_def out_ok_def assms(3) by (simp, simp, arith)
  show w: "win_bytes s1 = win_bytes s" by (simp add: assms(3) win_bytes_def split: option.splits)
  show "length (history s1 (put s1)) = length (history s (put s)) + c"
  proof -
    have "out_base s \<le> length (put s)" "length (put s1) = length (put s) + c" using l by (simp_all add: out_base_def assms(3))
    then show ?thesis by (simp add: history_def b w)
  qed
  show "lz_output s1 = lz_output s" by (simp add: fun_eq_iff lz_output_def history_def b w)
qed

lemma run_MATCH:
  assumes "win_inv s" and "out_ok s" and "sane s" and "mode s = MATCH" and "0 < offset s" and "0 < mlen s" and "mlen s \<le> left s"
    and "offset s \<le> length (history s (put s))"
  shows "\<exists>k. \<forall>n. run (k + n) flush s = run n flush
    (s\<lparr>left := left s - mlen s, mlen := 0, put := lz_output s (offset s) (mlen s) (put s), mode := LEN\<rparr>)"
  using assms
proof (induction "mlen s" arbitrary: s rule: less_induct)
  case less
  obtain c where c: "0 < c" "c \<le> mlen s" "c \<le> left s" and
    st: "step_MATCH s = Next (s\<lparr>left := left s - c, mlen := mlen s - c, put := lz_output s (offset s) c (put s),
      mode := (if mlen s = c then LEN else mode s)\<rparr>)"
    using step_MATCH_lz [OF less.prems(1-3,5,6) _ less.prems(8)] less.prems by fastforce
  show ?case
  proof (cases "mlen s = c")
    case True
    then have "run (1 + n) flush s = run n flush (s\<lparr>left := left s - mlen s, mlen := 0, put := lz_output s (offset s) (mlen s) (put s), mode := LEN\<rparr>)" for n
      using st less.prems(4) by (simp add: step_def)
    then show ?thesis by blast
  next
    case False
    define s1 where "s1 = s\<lparr>left := left s - c, mlen := mlen s - c, put := lz_output s (offset s) c (put s), mode := mode s\<rparr>"
    note H = history_after [OF less.prems(2) c(3) s1_def]
    have one: "run (Suc n) flush s = run n flush s1" for n
      using st less.prems(4) False by (simp add: step_def s1_def)
    have f: "mlen s1 < mlen s" "sane s1" "mode s1 = MATCH" "offset s1 = offset s" "0 < offset s1" "0 < mlen s1" "mlen s1 \<le> left s1"
      using c False less.prems by (auto simp: s1_def)
    have "win_inv s1" using less.prems(1) by (simp add: s1_def win_inv_def split: option.splits)
    then obtain k where k: "\<forall>n. run (k + n) flush s1 = run n flush
      (s1\<lparr>left := left s1 - mlen s1, mlen := 0, put := lz_output s1 (offset s1) (mlen s1) (put s1), mode := LEN\<rparr>)"
      using less.hyps [OF _ _ H(2)] f H(4) less.prems(8) by auto
    have e: "lz_output s1 (offset s1) (mlen s1) (put s1) = lz_output s (offset s) (mlen s) (put s)"
      using lz_output_add [of s "put s" "offset s" "mlen s - c" c] c unfolding H(5) by (simp add: s1_def out_base_def)
    have "s1\<lparr>left := left s1 - mlen s1, mlen := 0, put := lz_output s1 (offset s1) (mlen s1) (put s1), mode := LEN\<rparr> =
      s\<lparr>left := left s - mlen s, mlen := 0, put := lz_output s (offset s) (mlen s) (put s), mode := LEN\<rparr>"
      unfolding e using c less.prems(7) by (simp add: s1_def)
    then have "run (Suc k + n) flush s = run n flush (s\<lparr>left := left s - mlen s, mlen := 0, put := lz_output s (offset s) (mlen s) (put s), mode := LEN\<rparr>)" for n
      using k one [of "k + n"] by simp
    then show ?thesis by blast
  qed
qed

lemma step_MATCH_far:
  assumes "win_inv s" and "out_ok s" and "sane s" and "mode s = MATCH" and "0 < left s"
    and "length (history s (put s)) < offset s"
  shows "step flush s = bad ''invalid distance too far back'' s"
proof -
  have n: "out_start s - left s = length (put s) - out_base s"
    using assms(2) unfolding out_base_def out_ok_def by arith
  have "offset s > length (put s) - out_base s" "offset s - (length (put s) - out_base s) > whave s"
    using assms(6) whave_len(2) [OF assms(1)] by (simp_all add: history_def)
  then show ?thesis using assms(3,4,5) by (simp add: step_def step_MATCH_def n Let_def)
qed

text \<open>
  C7. Matches of length and distance pairs: with room for the match, the mode \<open>MATCH\<close> of \<open>inflate()\<close>,
  which copies piecewise from the circular window and from the output, and the copying code of
  \<open>inflate_fast\<close>, which unrolls the loop by three and treats the wrap-around of the window in four
  cases, both append exactly the bytes of the LZ77 copy on the history (the window followed by the
  output of this call), including overlapping matches, and never read outside the window or the
  output; a distance beyond the history is refused by both with the same message.
\<close>

theorem match_copies_agree:
  assumes "win_inv s" and "out_ok s" and "sane s" and "mode s = MATCH" and "0 < offset s" and "3 \<le> mlen s"
    and "mlen s \<le> left s" and "fout f = put s"
  shows "if offset s \<le> length (history s (put s)) then
      match_copy s (mlen s) (offset s) f = FCont (f\<lparr>fout := lz_output s (offset s) (mlen s) (put s)\<rparr>) \<and>
      (\<exists>k. \<forall>n. run (k + n) flush s = run n flush
        (s\<lparr>left := left s - mlen s, mlen := 0, put := lz_output s (offset s) (mlen s) (put s), mode := LEN\<rparr>))
    else match_copy s (mlen s) (offset s) f = FEnd BAD (Some ''invalid distance too far back'') f \<and>
      step flush s = bad ''invalid distance too far back'' s"
  using match_copy_lz [OF assms(1-3), of f "offset s" "mlen s"] run_MATCH [OF assms(1-5)] step_MATCH_far [OF assms(1-4), of flush] assms(5-)
  by auto

definition loop0 :: loop where
  "loop0 = LOAD (stream0 (state0\<lparr>wbits := 2, window := Some [5, 2, 3, 4], wsize := 4, wnext := 1, whave := 4, mode := MATCH, mlen := 6, offset := 4\<rparr>) [] 6)
    (state0\<lparr>wbits := 2, window := Some [5, 2, 3, 4], wsize := 4, wnext := 1, whave := 4, mode := MATCH, mlen := 6, offset := 4\<rparr>)"

theorem match_copies_agree_witness:
  "match_copy loop0 6 4 \<lparr>fin = 0, fhold = 0, fbits = 0, fout = []\<rparr> =
   FCont \<lparr>fin = 0, fhold = 0, fbits = 0, fout = [2, 3, 4, 5, 2, 3]\<rparr>"
proof -
  have w: "win_inv loop0" "out_ok loop0" "sane loop0" "mode loop0 = MATCH" "offset loop0 = 4" "mlen loop0 = 6" "left loop0 = 6" "put loop0 = []"
    "win_bytes loop0 = [2, 3, 4, 5]" "out_base loop0 = 0"
    by (simp_all add: loop0_def LOAD_def stream0_def state0_def win_inv_def out_ok_def win_bytes_def out_base_def
        inflate_state.defs loop.defs)
  then show ?thesis
    using match_copies_agree [of loop0 "\<lparr>fin = 0, fhold = 0, fbits = 0, fout = []\<rparr>" 0]
    by (simp add: history_def lz_output_def numeral_eq_Suc)
qed

end
