(* ===== verification/InftreesCorrect.thy ===== *)
theory InftreesCorrect
  imports Inftrees
begin

text \<open>
  Correctness of \<open>inflate_table\<close>: the loops of the table construction meet their specifications, the
  filling loop keeps an invariant that says which bit strings already decode, and at the end every bit
  string that starts with a code of the set finds the entry of its symbol in at most two look-ups.
\<close>

section \<open>The loops of the table construction\<close>

lemma fill_loop_spec:
  assumes "0 < incr" "incr dvd fill" "0 < fill" "at + fill \<le> length tb + incr - 1 + 0"
  shows "\<exists>tb'. fill_loop tb at here incr fill = Some tb' \<and> length tb' = length tb \<and>
           (\<forall>i. tb' ! i = (if at \<le> i \<and> i < at + fill \<and> incr dvd (i - at) then here else tb ! i))"
  using assms
proof (induction tb at here incr fill rule: fill_loop.induct)
  case (1 tb at here incr fill)
  have le: "incr \<le> fill" using 1 by (simp add: dvd_imp_le)
  have b: "at + (fill - incr) < length tb" using 1 le by linarith
  let ?tb = "tb[at + (fill - incr) := here]"
  have d: "incr dvd fill - incr" using 1 by (simp add: dvd_diff_nat)
  have top: "fill - incr \<le> i - at \<and> incr dvd (i - at) \<and> i < at + fill \<and> at \<le> i \<longleftrightarrow> i = at + (fill - incr)" for i
  proof
    assume *: "fill - incr \<le> i - at \<and> incr dvd (i - at) \<and> i < at + fill \<and> at \<le> i"
    then have "incr dvd (i - at) - (fill - incr)" using d by (simp only: dvd_diff_nat)
    moreover have "(i - at) - (fill - incr) < incr" using * le by linarith
    ultimately have "(i - at) - (fill - incr) = 0" using nat_dvd_not_less by blast
    then show "i = at + (fill - incr)" using * by linarith
  qed (use d le 1 in auto)
  show ?case
  proof (cases "fill = incr")
    case True
    then have "fill_loop tb at here incr fill = Some ?tb"
      using 1 b by (simp add: fill_loop.simps [of tb])
    moreover have "?tb ! i = (if at \<le> i \<and> i < at + fill \<and> incr dvd (i - at) then here else tb ! i)" for i
      using b top [of i] True by (auto simp: nth_list_update)
    ultimately show ?thesis by auto
  next
    case False
    then have eq: "fill_loop tb at here incr fill = fill_loop ?tb at here incr (fill - incr)"
      using 1 b le by (simp add: fill_loop.simps [of tb])
    have "\<exists>tb'. fill_loop ?tb at here incr (fill - incr) = Some tb' \<and> length tb' = length ?tb \<and>
        (\<forall>i. tb' ! i = (if at \<le> i \<and> i < at + (fill - incr) \<and> incr dvd (i - at) then here else ?tb ! i))"
      using 1 False le b d by (intro "1.IH") auto
    then obtain tb' where tb': "fill_loop ?tb at here incr (fill - incr) = Some tb'" "length tb' = length ?tb"
      "\<forall>i. tb' ! i = (if at \<le> i \<and> i < at + (fill - incr) \<and> incr dvd (i - at) then here else ?tb ! i)" by blast
    have "tb' ! i = (if at \<le> i \<and> i < at + fill \<and> incr dvd (i - at) then here else tb ! i)" for i
      using top [of i] b le by (cases "i = at + (fill - incr)") (auto simp: tb'(3) nth_list_update)
    then show ?thesis using eq tb' by simp
  qed
qed

text \<open>\<open>next_huff\<close> moves the reversed code to the start of the following interval.\<close>

lemma add_exp_or: "\<not> bit q n \<Longrightarrow> q + 2 ^ n = q OR (2 ^ n :: nat)"
  by (rule disjunctive_add_eq_or) (simp add: and_exp_eq_0_iff_not_bit)

lemma incr_loop_exp:
  "incr_loop h (2 ^ n) = (if bit h n then if n = 0 then 0 else incr_loop h (2 ^ (n - 1)) else 2 ^ n)"
proof -
  have "incr_loop h 0 = 0" by (subst incr_loop.simps) simp
  moreover have "incr_loop h (2 ^ n) = (if bit h n then incr_loop h (drop_bit 1 (2 ^ n)) else 2 ^ n)"
    using and_exp_eq_0_iff_not_bit [of h n] by (subst incr_loop.simps) auto
  ultimately show ?thesis by (cases n) (simp_all add: drop_bit_exp_eq del: power_Suc)
qed

lemma odd_multiple_minus:
  assumes "2 ^ n dvd (q :: nat)" "bit q n"
  obtains q' where "q = q' + 2 ^ n" "2 ^ Suc n dvd q'"
proof -
  obtain m where m: "q = 2 ^ n * m" using assms(1) by (auto simp: dvd_def)
  then have "odd m" using assms(2) by (simp add: bit_iff_odd)
  then obtain j where "m = 2 * j + 1" by (rule oddE)
  then have "q = 2 ^ Suc n * j + 2 ^ n" using m by (simp add: algebra_simps)
  then show ?thesis using that by simp
qed

definition next_from :: "nat \<Rightarrow> nat \<Rightarrow> nat" where
  "next_from h incr = (if incr \<noteq> 0 then (h AND (incr - 1)) + incr else 0)"

lemma take_bit_add_exp: "take_bit n h + 2 ^ n = (take_bit n h OR 2 ^ n :: nat)"
  by (rule add_exp_or) (simp add: bit_take_bit_iff)

text \<open>The first zero bit found: it is set and the bits above it are cleared.\<close>

lemma next_from_stop:
  assumes "l \<le> 14" "2 ^ (14 - l) dvd q" "take_bit (Suc l) h = rev15 q" "\<not> bit q (14 - l)"
  shows "next_from h (2 ^ l) = rev15 (q + 2 ^ (14 - l))"
proof -
  have "next_from h (2 ^ l) = take_bit l h OR 2 ^ l"
    unfolding next_from_def take_bit_add_exp [symmetric] by (simp add: take_bit_eq_mask mask_eq_exp_minus_1)
  also have "\<dots> = rev15 (q OR 2 ^ (14 - l))"
  proof (rule bit_eqI)
    fix i
    have "bit (take_bit (Suc l) h) i = bit (rev15 q) i" using assms(3) by simp
    moreover have "bit q (14 - i) \<Longrightarrow> i < 15 \<Longrightarrow> i \<le> l"
      using dvd_bit [OF assms(2), of "14 - i"] assms(1) by auto
    ultimately show "bit (take_bit l h OR 2 ^ l) i = bit (rev15 (q OR 2 ^ (14 - l))) i"
      using assms(1,4) by (auto simp: bit_simps bit_rev15 le_less)
  qed
  also have "q OR 2 ^ (14 - l) = q + 2 ^ (14 - l)" using assms(4) by (simp add: add_exp_or)
  finally show ?thesis .
qed

lemma next_huff_gen:
  "\<lbrakk>l \<le> 14; 2 ^ (14 - l) dvd q; q < 32768; take_bit (Suc l) h = rev15 q\<rbrakk>
   \<Longrightarrow> next_from h (incr_loop h (2 ^ l)) = rev15 (q + 2 ^ (14 - l))"
proof (induction l arbitrary: q)
  case 0
  show ?case
  proof (cases "bit q 14")
    case True
    then obtain q' where q': "q = q' + 2 ^ 14" "2 ^ Suc 14 dvd q'"
      using odd_multiple_minus [of 14 q] 0 by auto
    then have "q' = 0" using 0(3) by (auto dest!: dvd_imp_le)
    moreover have "bit h 0" using 0(4) True bit_rev15 [of q 0] by (metis bit_take_bit_iff diff_zero zero_less_numeral)
    moreover note rev15_top
    ultimately show ?thesis using q' by (simp add: incr_loop_exp [of h 0, simplified] next_from_def)
  next
    case False
    then have "\<not> bit h 0" using 0(4) bit_rev15 [of q 0] by (metis bit_take_bit_iff diff_zero lessI)
    then show ?thesis using next_from_stop [of 0 q h] 0 False by (simp add: incr_loop_exp [of h 0, simplified])
  qed
next
  case (Suc l)
  have bits: "bit h i \<longleftrightarrow> bit q (14 - i)" if "i \<le> Suc l" for i
  proof -
    have "bit (take_bit (Suc (Suc l)) h) i = bit (rev15 q) i" using Suc.prems(4) by simp
    then show ?thesis using that Suc.prems(1) by (auto simp: bit_take_bit_iff bit_rev15)
  qed
  show ?case
  proof (cases "bit q (13 - l)")
    case True
    obtain q' where q': "q = q' + 2 ^ (13 - l)" "2 ^ Suc (13 - l) dvd q'"
      using odd_multiple_minus [of "13 - l" q] True Suc.prems(2) by auto
    have "\<not> bit q' (13 - l)" using q'(2) dvd_bit [of "Suc (13 - l)" q' "13 - l"] by auto
    then have qor: "q = q' OR 2 ^ (13 - l)" using q'(1) add_exp_or by simp
    have "take_bit (Suc l) h = rev15 q'"
    proof (rule bit_eqI)
      fix i
      have "bit q' (14 - i) \<Longrightarrow> i < 15 \<Longrightarrow> i \<le> l"
        using dvd_bit [OF q'(2), of "14 - i"] Suc.prems(1) by auto
      moreover have "i \<le> l \<Longrightarrow> bit q (14 - i) = bit q' (14 - i)"
        using Suc.prems(1) by (auto simp: qor bit_simps)
      ultimately show "bit (take_bit (Suc l) h) i = bit (rev15 q') i"
        using bits [of i] Suc.prems(1) by (auto simp: bit_take_bit_iff bit_rev15)
    qed
    moreover have e: "Suc (13 - l) = 14 - l" using Suc.prems(1) by simp
    ultimately have "next_from h (incr_loop h (2 ^ l)) = rev15 (q' + 2 ^ (14 - l))"
      using Suc.IH [of q'] Suc.prems q' by simp
    moreover have "incr_loop h (2 ^ Suc l) = incr_loop h (2 ^ l)"
      using True bits [of "Suc l"] Suc.prems(1) by (subst incr_loop_exp) simp
    moreover have "q + 2 ^ (14 - Suc l) = q' + 2 ^ (14 - l)"
      using q'(1) by (simp flip: e)
    ultimately show ?thesis by simp
  next
    case False
    then have "incr_loop h (2 ^ Suc l) = 2 ^ Suc l"
      using bits [of "Suc l"] Suc.prems(1) by (subst incr_loop_exp) simp
    then show ?thesis using next_from_stop [of "Suc l" q h] Suc.prems False by simp
  qed
qed

lemma next_huff_rev15:
  assumes "1 \<le> l" "l \<le> 15" "2 ^ (15 - l) dvd p" "p < 32768"
  shows "next_huff l (rev15 p) = rev15 (p + 2 ^ (15 - l))"
proof -
  have "take_bit l (rev15 p) = rev15 p"
    using rev15_bound [OF assms(3,2)] by (simp add: take_bit_nat_eq_self_iff)
  then show ?thesis
    using next_huff_gen [of "l - 1" p "rev15 p"] assms
    by (simp add: next_huff_def next_from_def Let_def push_bit_eq_mult)
qed

section \<open>Prefixes\<close>

lemma rev15_prefix:
  assumes "p < 32768" "q < 32768" "r \<le> 15"
  shows "rev15 p mod 2 ^ r = rev15 q mod 2 ^ r \<longleftrightarrow> p div 2 ^ (15 - r) = q div 2 ^ (15 - r)"
proof -
  have "take_bit r (rev15 p) = take_bit r (rev15 q) \<longleftrightarrow> drop_bit (15 - r) p = drop_bit (15 - r) q"
  proof
    assume *: "take_bit r (rev15 p) = take_bit r (rev15 q)"
    show "drop_bit (15 - r) p = drop_bit (15 - r) q"
    proof (rule bit_eqI)
      fix i
      have "bit (take_bit r (rev15 p)) (r - 1 - i) = bit (take_bit r (rev15 q)) (r - 1 - i)" using * by simp
      then show "bit (drop_bit (15 - r) p) i = bit (drop_bit (15 - r) q) i"
        using assms bit_less_15 [of p "15 - r + i"] bit_less_15 [of q "15 - r + i"]
        by (cases "i < r") (auto simp: bit_simps bit_rev15)
    qed
  next
    assume *: "drop_bit (15 - r) p = drop_bit (15 - r) q"
    show "take_bit r (rev15 p) = take_bit r (rev15 q)"
    proof (rule bit_eqI)
      fix i
      have "bit (drop_bit (15 - r) p) (r - 1 - i) = bit (drop_bit (15 - r) q) (r - 1 - i)" using * by simp
      then show "bit (take_bit r (rev15 p)) i = bit (take_bit r (rev15 q)) i"
        using assms by (cases "i < r") (auto simp: bit_simps bit_rev15)
    qed
  qed
  then show ?thesis by (simp add: take_bit_eq_mod drop_bit_eq_div)
qed

lemma mod_split_eq:
  fixes x h :: nat
  assumes "r \<le> l" "h < 2 ^ l"
  shows "x mod 2 ^ l = h \<longleftrightarrow> x mod 2 ^ r = h mod 2 ^ r \<and> (x div 2 ^ r) mod 2 ^ (l - r) = h div 2 ^ r"
proof -
  have l: "(2 :: nat) ^ l = 2 ^ r * 2 ^ (l - r)" using assms(1) by (simp flip: power_add)
  have x: "x mod 2 ^ l = 2 ^ r * (x div 2 ^ r mod 2 ^ (l - r)) + x mod 2 ^ r"
    by (simp add: l mod_mult2_eq)
  show ?thesis
  proof
    assume "x mod 2 ^ l = h"
    moreover have "(2 ^ r * a + x mod 2 ^ r) mod 2 ^ r = x mod 2 ^ r" "(2 ^ r * a + x mod 2 ^ r) div 2 ^ r = a" for a
      by simp_all
    ultimately show "x mod 2 ^ r = h mod 2 ^ r \<and> (x div 2 ^ r) mod 2 ^ (l - r) = h div 2 ^ r"
      using x by metis
  next
    assume "x mod 2 ^ r = h mod 2 ^ r \<and> (x div 2 ^ r) mod 2 ^ (l - r) = h div 2 ^ r"
    then show "x mod 2 ^ l = h" by (simp add: x)
  qed
qed

lemma dvd_diff_mod_eq: "h < (m :: nat) \<Longrightarrow> h \<le> i \<and> m dvd (i - h) \<longleftrightarrow> i mod m = h"
  by (metis mod_eq_dvd_iff_nat mod_less mod_less_eq_dividend)

section \<open>The invariant of the filling loop\<close>

text \<open>The entry of a symbol whose code has \<open>b\<close> bits left at the table that holds it.\<close>

definition sym_entry :: "codetype \<Rightarrow> nat \<Rightarrow> nat \<Rightarrow> code" where
  "sym_entry type s b =
     (case type of
        CODES \<Rightarrow> \<lparr>op = 0, cbits = b, val = s\<rparr>
      | LENS \<Rightarrow> (if s < 256 then \<lparr>op = 0, cbits = b, val = s\<rparr>
                 else if s = 256 then \<lparr>op = 96, cbits = b, val = 0\<rparr>
                 else \<lparr>op = lext ! (s - 257), cbits = b, val = lbase ! (s - 257)\<rparr>)
      | DISTS \<Rightarrow> \<lparr>op = dext ! s, cbits = b, val = dbase ! s\<rparr>)"

definition max_syms :: "codetype \<Rightarrow> nat" where
  "max_syms type = (case type of CODES \<Rightarrow> 19 | LENS \<Rightarrow> 288 | DISTS \<Rightarrow> 32)"

lemma ext_bounds: "list_all (\<lambda>e. e < 256) lext" "list_all (\<lambda>e. e < 256) dext"
  "length lext = 31" "length lbase = 31" "length dext = 32" "length dbase = 32"
  by (simp_all add: lext_def dext_def lbase_def dbase_def)

lemma make_entry_sym_entry:
  assumes "s < max_syms type" "b < 256"
  shows "make_entry type work s b = Some (sym_entry type s b)"
  using assms ext_bounds
  by (cases type) (auto simp: make_entry_def code_params_def sym_entry_def max_syms_def list_all_length)

abbreviation link :: "nat \<Rightarrow> nat \<Rightarrow> nat \<Rightarrow> code" where
  "link c root off \<equiv> \<lparr>op = c, cbits = root, val = off\<rparr>"

text \<open>
  The fixed data of a run: \<open>ws\<close> the sorted symbols, \<open>ls\<close> their lengths, \<open>root\<close> the root bits, \<open>t0\<close> the
  start of the tables in an array of \<open>sz\<close> entries.
\<close>

definition room :: "codetype \<Rightarrow> nat \<Rightarrow> nat" where
  "room type root = (case type of CODES \<Rightarrow> 2 ^ root | LENS \<Rightarrow> ENOUGH_LENS | DISTS \<Rightarrow> ENOUGH_DISTS)"

definition run_setup :: "codetype \<Rightarrow> nat list \<Rightarrow> nat list \<Rightarrow> nat \<Rightarrow> nat \<Rightarrow> nat \<Rightarrow> bool" where
  "run_setup type ws ls root t0 sz \<longleftrightarrow>
     length ls = length ws \<and> length ls < 65536 \<and> sorted ls \<and> (\<forall>l\<in>set ls. 1 \<le> l \<and> l \<le> 15) \<and>
     kraft ls \<le> 32768 \<and> 1 \<le> root \<and> root \<le> 15 \<and> (\<forall>s\<in>set ws. s < max_syms type) \<and>
     (type = CODES \<longrightarrow> (\<forall>l\<in>set ls. l \<le> root)) \<and> 2 ^ root \<le> room type root \<and> t0 + room type root \<le> sz"

text \<open>Bits \<open>x\<close> decode in the tables to the \<open>j\<close>-th symbol.\<close>

definition done_at :: "codetype \<Rightarrow> nat list \<Rightarrow> nat list \<Rightarrow> nat \<Rightarrow> nat \<Rightarrow> fill_state \<Rightarrow> nat \<Rightarrow> nat \<Rightarrow> bool" where
  "done_at type ws ls root t0 st x j \<longleftrightarrow>
     (if ls ! j \<le> root then tab st ! (t0 + x mod 2 ^ root) = sym_entry type (ws ! j) (ls ! j)
      else \<exists>c off. tab st ! (t0 + x mod 2 ^ root) = link c root off \<and> 1 \<le> c \<and> c \<le> 14 \<and> 2 ^ root \<le> off \<and>
        (t0 + off + 2 ^ c \<le> nxt st \<or>
         drp st = root \<and> t0 + off = nxt st \<and> c = currb st \<and> x mod 2 ^ root = low st) \<and>
        tab st ! (t0 + off + (x div 2 ^ root) mod 2 ^ c) = sym_entry type (ws ! j) (ls ! j - root))"

definition in_root :: "nat \<Rightarrow> nat \<Rightarrow> fill_state \<Rightarrow> bool" where
  "in_root root t0 st \<longleftrightarrow> drp st = 0 \<and> currb st = root \<and> nxt st = t0 \<and> low st = 2 ^ 32 - 1"

definition in_sub :: "nat \<Rightarrow> nat \<Rightarrow> fill_state \<Rightarrow> bool" where
  "in_sub root t0 st \<longleftrightarrow> drp st = root \<and> t0 + 2 ^ root \<le> nxt st \<and> low st < 2 ^ root \<and>
     1 \<le> currb st \<and> currb st \<le> 14 \<and> tab st ! (t0 + low st) = link (currb st) root (nxt st - t0)"

definition fill_core ::
  "codetype \<Rightarrow> nat list \<Rightarrow> nat list \<Rightarrow> nat \<Rightarrow> nat \<Rightarrow> nat \<Rightarrow> nat \<Rightarrow> fill_state \<Rightarrow> bool" where
  "fill_core type ws ls root t0 sz k st \<longleftrightarrow>
     symi st = k \<and> k \<le> length ls \<and> huff st = rev15 (pos ls k) \<and>
     length (cnt st) = 16 \<and> (\<forall>l\<in>{1..15}. cnt st ! l = count_list (drop k ls) l) \<and>
     length (tab st) = sz \<and> nxt st + 2 ^ currb st = t0 + used st \<and> used st \<le> room type root \<and>
     (\<forall>x j. j < k \<and> pos ls j \<le> rev15 x \<and> rev15 x < pos ls (Suc j) \<longrightarrow> done_at type ws ls root t0 st x j) \<and>
     (in_root root t0 st \<and> (\<forall>j<k. ls ! j \<le> root) \<or> in_sub root t0 st \<and> (\<exists>l\<in>set ls. root < l))"

definition look_ahead :: "nat list \<Rightarrow> nat \<Rightarrow> nat \<Rightarrow> nat \<Rightarrow> nat \<Rightarrow> bool" where
  "look_ahead ls root c k q \<longleftrightarrow>
     (\<forall>j. k \<le> j \<and> j < length ls \<and> pos ls j div 2 ^ (15 - root) = q \<longrightarrow> ls ! j \<le> root + c)"

definition fill_ready ::
  "codetype \<Rightarrow> nat list \<Rightarrow> nat list \<Rightarrow> nat \<Rightarrow> nat \<Rightarrow> nat \<Rightarrow> nat \<Rightarrow> fill_state \<Rightarrow> bool" where
  "fill_ready type ws ls root t0 sz k st \<longleftrightarrow>
     fill_core type ws ls root t0 sz k st \<and> k < length ls \<and> len st = ls ! k \<and>
     (drp st = 0 \<longrightarrow> ls ! k \<le> root) \<and>
     (drp st \<noteq> 0 \<longrightarrow> root < ls ! k \<and> low st = rev15 (pos ls k) mod 2 ^ root \<and>
        look_ahead ls root (currb st) k (pos ls k div 2 ^ (15 - root)))"

section \<open>Entering a symbol\<close>

lemma pos_facts:
  assumes "run_setup type ws ls root t0 sz" "k < length ls"
  shows "1 \<le> ls ! k" "ls ! k \<le> 15" "2 ^ (15 - ls ! k) dvd pos ls k" "pos ls k < 32768"
    "pos ls (Suc k) \<le> 32768" "ws ! k < max_syms type" "k < length ws"
proof -
  show l: "1 \<le> ls ! k" "ls ! k \<le> 15" "ws ! k < max_syms type" "k < length ws"
    using assms by (auto simp: run_setup_def)
  show "2 ^ (15 - ls ! k) dvd pos ls k"
    using assms l by (intro pos_dvd_nth) (auto simp: run_setup_def)
  have "pos ls k + 2 ^ (15 - ls ! k) \<le> 32768"
    using pos_le_kraft [of ls "Suc k"] assms by (simp add: pos_Suc run_setup_def)
  then show "pos ls k < 32768" "pos ls (Suc k) \<le> 32768"
    using assms(2) zero_less_power [of "2 :: nat" "15 - ls ! k"] by (linarith, simp add: pos_Suc)
qed

lemma cnt_dec:
  assumes "run_setup type ws ls root t0 sz" "k < length ls"
    and "\<forall>l\<in>{1..15}. c ! l = count_list (drop k ls) l" "length c = 16"
  shows "\<forall>l\<in>{1..15}. c[ls ! k := (c ! (ls ! k) + 65535) mod 65536] ! l = count_list (drop (Suc k) ls) l"
proof
  fix l :: nat assume l: "l \<in> {1..15}"
  have d: "drop k ls = ls ! k # drop (Suc k) ls" using assms(2) by (simp add: Cons_nth_drop_Suc)
  have "count_list (drop (Suc k) ls) (ls ! k) < 65536"
    using count_le_length [of "drop (Suc k) ls" "ls ! k"] assms(1) by (auto simp: run_setup_def)
  then show "c[ls ! k := (c ! (ls ! k) + 65535) mod 65536] ! l = count_list (drop (Suc k) ls) l"
    using assms(3,4) l pos_facts(1,2) [OF assms(1,2)] by (auto simp: d nth_list_update)
qed

text \<open>What \<open>enter_symbol\<close> does, given what it writes.\<close>

lemma enter_symbol_eq:
  assumes S: "run_setup type ws ls root t0 sz" and k: "k < length ls"
    and st: "symi st = k" "len st = ls ! k" "huff st = rev15 (pos ls k)" "length (cnt st) = 16"
    and w: "take (length ws) work = ws"
    and f: "fill_loop (tab st) (nxt st + drop_bit (drp st) (huff st)) (sym_entry type (ws ! k) (ls ! k - drp st))
              (push_bit (ls ! k - drp st) 1) (push_bit (currb st) 1) = Some tb"
  shows "enter_symbol type work st = Some (st\<lparr>tab := tb, huff := rev15 (pos ls (Suc k)), symi := Suc k,
           cnt := (cnt st)[ls ! k := (cnt st ! (ls ! k) + 65535) mod 65536]\<rparr>)"
proof -
  note F = pos_facts [OF S k]
  have "length ws \<le> length work" using w by (metis length_take min.cobounded1 nat_le_linear take_all)
  then have "rd work k = Some (ws ! k)" using w F(7) by (metis nth_take order.strict_trans2 rd_Some)
  moreover have "make_entry type work (ws ! k) (ls ! k - drp st) = Some (sym_entry type (ws ! k) (ls ! k - drp st))"
    using F by (intro make_entry_sym_entry) auto
  moreover have "next_huff (ls ! k) (rev15 (pos ls k)) = rev15 (pos ls (Suc k))"
    using F k by (simp add: next_huff_rev15 pos_Suc)
  ultimately show ?thesis using st f F(1,2) by (simp add: enter_symbol_def)
qed

lemma fill_loop_pow:
  assumes "a \<le> c" "h < 2 ^ a" "at + 2 ^ c \<le> length tb"
  shows "\<exists>tb'. fill_loop tb (at + h) here (push_bit a 1) (push_bit c 1) = Some tb' \<and> length tb' = length tb \<and>
           (\<forall>i<2 ^ c. tb' ! (at + i) = (if i mod 2 ^ a = h then here else tb ! (at + i))) \<and>
           (\<forall>i. i < at \<or> at + 2 ^ c \<le> i \<longrightarrow> tb' ! i = tb ! i)"
proof -
  have d: "(2 :: nat) ^ a dvd 2 ^ c" using assms(1) by (rule le_imp_power_dvd)
  have "\<exists>tb'. fill_loop tb (at + h) here (2 ^ a) (2 ^ c) = Some tb' \<and> length tb' = length tb \<and>
     (\<forall>i. tb' ! i = (if at + h \<le> i \<and> i < at + h + 2 ^ c \<and> 2 ^ a dvd (i - (at + h)) then here else tb ! i))"
    using d assms by (intro fill_loop_spec) auto
  then obtain tb' where tb': "fill_loop tb (at + h) here (2 ^ a) (2 ^ c) = Some tb'" "length tb' = length tb"
     "\<forall>i. tb' ! i = (if at + h \<le> i \<and> i < at + h + 2 ^ c \<and> 2 ^ a dvd (i - (at + h)) then here else tb ! i)"
    by blast
  have "tb' ! (at + i) = (if i mod 2 ^ a = h then here else tb ! (at + i))" if "i < 2 ^ c" for i
    using that dvd_diff_mod_eq [OF assms(2), of i] by (auto simp: tb'(3))
  moreover have "tb' ! i = tb ! i" if i: "at + 2 ^ c \<le> i" for i
  proof -
    have "\<not> (at + h \<le> i \<and> i < at + h + 2 ^ c \<and> 2 ^ a dvd (i - (at + h)))"
    proof
      assume *: "at + h \<le> i \<and> i < at + h + 2 ^ c \<and> 2 ^ a dvd (i - (at + h))"
      then have "2 ^ a dvd 2 ^ c - (i - (at + h))" using d by (simp only: dvd_diff_nat)
      moreover have "0 < 2 ^ c - (i - (at + h))" using * by linarith
      ultimately have "2 ^ a \<le> 2 ^ c - (i - (at + h))" by (rule dvd_imp_le)
      then show False using * i assms(2) by linarith
    qed
    then show ?thesis by (simp only: tb'(3) if_False)
  qed
  ultimately show ?thesis using tb' by (auto simp: push_bit_eq_mult)
qed

text \<open>Bits that start with an earlier code do not start with the \<open>k\<close>-th.\<close>

lemma match_k:
  assumes "run_setup type ws ls root t0 sz" "k < length ls"
  shows "x mod 2 ^ (ls ! k) = rev15 (pos ls k) \<longleftrightarrow> pos ls k \<le> rev15 x \<and> rev15 x < pos ls (Suc k)"
  using code_match [of "ls ! k" "pos ls k" x] pos_facts [OF assms] assms(2) by (simp add: pos_Suc)

lemma no_match_earlier:
  assumes "run_setup type ws ls root t0 sz" "k < length ls" "j < k" "rev15 x < pos ls (Suc j)"
  shows "x mod 2 ^ (ls ! k) \<noteq> rev15 (pos ls k)"
  using assms pos_mono [of "Suc j" k ls] match_k [OF assms(1,2), of x] by simp

lemma mod_mod_pow: "a \<le> b \<Longrightarrow> (x mod 2 ^ b) mod 2 ^ a = (x mod 2 ^ a :: nat)"
  by (simp add: mod_mod_cancel le_imp_power_dvd)

lemma enter_root:
  assumes S: "run_setup type ws ls root t0 sz" and R: "fill_ready type ws ls root t0 sz k st"
    and w: "take (length ws) work = ws" and ph: "in_root root t0 st" "\<forall>j<k. ls ! j \<le> root"
  shows "\<exists>st1. enter_symbol type work st = Some st1 \<and> fill_core type ws ls root t0 sz (Suc k) st1 \<and>
           len st1 = ls ! k \<and> in_root root t0 st1 \<and> (\<forall>j<Suc k. ls ! j \<le> root)"
proof -
  have C: "fill_core type ws ls root t0 sz k st" and k: "k < length ls" and l: "len st = ls ! k" "ls ! k \<le> root"
    using R ph by (auto simp: fill_ready_def in_root_def)
  note F = pos_facts [OF S k]
  have h: "rev15 (pos ls k) < 2 ^ (ls ! k)" using F by (simp add: rev15_bound)
  have sz: "t0 + 2 ^ root \<le> length (tab st)" using C S by (auto simp: fill_core_def run_setup_def)
  obtain tb where tb: "fill_loop (tab st) (t0 + rev15 (pos ls k)) (sym_entry type (ws ! k) (ls ! k))
        (push_bit (ls ! k) 1) (push_bit root 1) = Some tb" "length tb = length (tab st)"
      "\<forall>i<2 ^ root. tb ! (t0 + i) = (if i mod 2 ^ (ls ! k) = rev15 (pos ls k) then sym_entry type (ws ! k) (ls ! k) else tab st ! (t0 + i))"
    using fill_loop_pow [OF l(2) h sz] by blast
  have stf: "symi st = k" "huff st = rev15 (pos ls k)" "length (cnt st) = 16" "drp st = 0" "nxt st = t0" "currb st = root"
    using C ph by (auto simp: fill_core_def in_root_def)
  let ?st1 = "st\<lparr>tab := tb, huff := rev15 (pos ls (Suc k)), symi := Suc k,
           cnt := (cnt st)[ls ! k := (cnt st ! (ls ! k) + 65535) mod 65536]\<rparr>"
  have e: "enter_symbol type work st = Some ?st1"
    using tb(1) stf l by (intro enter_symbol_eq [OF S k _ _ _ _ w]) simp_all
  have "done_at type ws ls root t0 ?st1 x j"
    if "j < Suc k" "pos ls j \<le> rev15 x" "rev15 x < pos ls (Suc j)" for x j
  proof (cases "j = k")
    case True
    then have "x mod 2 ^ (ls ! k) = rev15 (pos ls k)" using that match_k [OF S k] by simp
    then show ?thesis using True l(2) tb(3) by (simp add: done_at_def mod_mod_pow)
  next
    case False
    then have j: "j < k" using that by simp
    then have "done_at type ws ls root t0 st x j" using C that by (simp add: fill_core_def)
    then show ?thesis using j ph(2) l(2) tb(3) no_match_earlier [OF S k j that(3)]
      by (simp add: done_at_def mod_mod_pow)
  qed
  then have "fill_core type ws ls root t0 sz (Suc k) ?st1"
    using C k ph l tb(2) cnt_dec [OF S k, of "cnt st"] by (auto simp: fill_core_def in_root_def less_Suc_eq)
  then show ?thesis using e ph l by (auto simp: in_root_def less_Suc_eq)
qed

lemma enter_sub:
  assumes S: "run_setup type ws ls root t0 sz" and R: "fill_ready type ws ls root t0 sz k st"
    and w: "take (length ws) work = ws" and ph: "in_sub root t0 st"
  shows "\<exists>st1. enter_symbol type work st = Some st1 \<and> fill_core type ws ls root t0 sz (Suc k) st1 \<and>
           len st1 = ls ! k \<and> in_sub root t0 st1 \<and> low st1 = low st \<and> currb st1 = currb st"
proof -
  have root: "1 \<le> root" "root \<le> 15" using S by (auto simp: run_setup_def)
  have C: "fill_core type ws ls root t0 sz k st" and k: "k < length ls" and l: "len st = ls ! k" "root < ls ! k"
    and low: "low st = rev15 (pos ls k) mod 2 ^ root" and c: "ls ! k - root \<le> currb st"
    using R ph root by (auto simp: fill_ready_def in_sub_def look_ahead_def)
  note F = pos_facts [OF S k]
  let ?h = "rev15 (pos ls k) div 2 ^ root"
  have hl: "rev15 (pos ls k) < 2 ^ (ls ! k)" using F by (simp add: rev15_bound)
  have h: "?h < 2 ^ (ls ! k - root)"
    using hl l(2) by (simp add: div_less_iff_less_mult flip: power_add)
  have sz: "nxt st + 2 ^ currb st \<le> length (tab st)" using C S by (auto simp: fill_core_def run_setup_def)
  obtain tb where tb: "fill_loop (tab st) (nxt st + ?h) (sym_entry type (ws ! k) (ls ! k - root))
        (push_bit (ls ! k - root) 1) (push_bit (currb st) 1) = Some tb" "length tb = length (tab st)"
      "\<forall>i<2 ^ currb st. tb ! (nxt st + i) = (if i mod 2 ^ (ls ! k - root) = ?h then sym_entry type (ws ! k) (ls ! k - root) else tab st ! (nxt st + i))"
      "\<forall>i. i < nxt st \<or> nxt st + 2 ^ currb st \<le> i \<longrightarrow> tb ! i = tab st ! i"
    using fill_loop_pow [OF c h sz] by blast
  have stf: "symi st = k" "huff st = rev15 (pos ls k)" "length (cnt st) = 16" "drp st = root"
    "t0 + 2 ^ root \<le> nxt st" "low st < 2 ^ root"
    using C ph by (auto simp: fill_core_def in_sub_def)
  let ?st1 = "st\<lparr>tab := tb, huff := rev15 (pos ls (Suc k)), symi := Suc k,
           cnt := (cnt st)[ls ! k := (cnt st ! (ls ! k) + 65535) mod 65536]\<rparr>"
  have e: "enter_symbol type work st = Some ?st1"
    using tb(1) stf l by (intro enter_symbol_eq [OF S k _ _ _ _ w]) (simp_all add: drop_bit_eq_div)
  have rt: "tb ! (t0 + i) = tab st ! (t0 + i)" if "i < 2 ^ root" for i
    using that stf(5) tb(4) by simp
  have "done_at type ws ls root t0 ?st1 x j"
    if x: "j < Suc k" "pos ls j \<le> rev15 x" "rev15 x < pos ls (Suc j)" for x j
  proof (cases "j = k")
    case True
    then have m: "x mod 2 ^ (ls ! k) = rev15 (pos ls k)" using x match_k [OF S k] by simp
    then have xl: "x mod 2 ^ root = low st" "(x div 2 ^ root) mod 2 ^ (ls ! k - root) = ?h"
      using mod_split_eq [of root "ls ! k" "rev15 (pos ls k)" x] l hl low by simp_all
    have "tb ! (nxt st + (x div 2 ^ root) mod 2 ^ currb st) = sym_entry type (ws ! k) (ls ! k - root)"
      using tb(3) xl(2) c by (simp add: mod_mod_pow)
    then show ?thesis using True l(2) ph rt stf(5,6) xl(1)
      by (auto simp: done_at_def in_sub_def intro!: exI [of _ "currb st"] exI [of _ "nxt st - t0"])
  next
    case False
    then have j: "j < k" using x by simp
    have D: "done_at type ws ls root t0 st x j" using C x j by (simp add: fill_core_def)
    show ?thesis
    proof (cases "ls ! j \<le> root")
      case True
      then show ?thesis using D rt by (simp add: done_at_def)
    next
      case False
      then obtain c off where co: "tab st ! (t0 + x mod 2 ^ root) = link c root off" "1 \<le> c" "c \<le> 14" "2 ^ root \<le> off"
        "t0 + off + 2 ^ c \<le> nxt st \<or>
         drp st = root \<and> t0 + off = nxt st \<and> c = currb st \<and> x mod 2 ^ root = low st"
        "tab st ! (t0 + off + (x div 2 ^ root) mod 2 ^ c) = sym_entry type (ws ! j) (ls ! j - root)"
        using D unfolding done_at_def by auto
      have "tb ! (t0 + off + (x div 2 ^ root) mod 2 ^ c) = tab st ! (t0 + off + (x div 2 ^ root) mod 2 ^ c)"
      proof (cases "t0 + off + 2 ^ c \<le> nxt st")
        case True
        have "(x div 2 ^ root) mod 2 ^ c < 2 ^ c" by simp
        then have "t0 + off + (x div 2 ^ root) mod 2 ^ c < nxt st" using True by linarith
        then show ?thesis using tb(4) by blast
      next
        case False
        then have cur: "t0 + off = nxt st" "c = currb st" "x mod 2 ^ root = low st" using co(5) by auto
        then have "(x div 2 ^ root) mod 2 ^ (ls ! k - root) \<noteq> ?h"
          using no_match_earlier [OF S k j x(3)] mod_split_eq [of root "ls ! k" "rev15 (pos ls k)" x] l(2) hl low by auto
        then show ?thesis using tb(3) cur \<open>ls ! k - root \<le> currb st\<close> by (simp add: mod_mod_pow)
      qed
      then show ?thesis using False co rt by (auto simp: done_at_def)
    qed
  qed
  moreover have "in_sub root t0 ?st1" using ph rt [of "low st"] by (auto simp: in_sub_def)
  ultimately have "fill_core type ws ls root t0 sz (Suc k) ?st1"
    using C k l tb(2) cnt_dec [OF S k, of "cnt st"] nth_mem [OF k] by (auto simp: fill_core_def)
  then show ?thesis using e l \<open>in_sub root t0 ?st1\<close> by auto
qed

section \<open>Opening a sub-table\<close>

lemma and_low_bits: "h AND (push_bit r 1 - 1) = h mod (2 ^ r :: nat)"
  by (metis mask_eq_exp_minus_1 mult_1 push_bit_eq_mult take_bit_eq_mask take_bit_eq_mod)

definition short_sum :: "nat list \<Rightarrow> nat \<Rightarrow> nat" where
  "short_sum ls m = (\<Sum>l\<leftarrow>filter (\<lambda>l. l < m) ls. 2 ^ (15 - l))"

lemma short_sum_Suc: "short_sum ls (Suc m) = short_sum ls m + count_list ls m * 2 ^ (15 - m)"
  by (induction ls) (auto simp: short_sum_def less_Suc_eq)

text \<open>
  The look-ahead stops at a size at which the remaining codes of the covered lengths fill a whole
  prefix of \<open>root\<close> bits, or at the longest code.
\<close>

lemma sub_bits_spec:
  assumes c: "\<forall>l\<in>{1..15}. c ! l = count_list ls l" and m: "1 \<le> root" "mx \<le> 15"
  shows "root + cu \<le> mx \<Longrightarrow> left * 2 ^ (15 - (root + cu)) = 2 ^ (15 - root) - int (short_sum ls (root + cu)) \<Longrightarrow>
    cu \<le> sub_bits c mx root cu left \<and> root + sub_bits c mx root cu left \<le> mx \<and>
    (root + sub_bits c mx root cu left = mx \<or>
     2 ^ (15 - root) \<le> short_sum ls (Suc (root + sub_bits c mx root cu left)))"
proof (induction "mx - (cu + root)" arbitrary: cu left)
  case 0
  then show ?case by (auto simp: sub_bits.simps [of c mx root cu])
next
  case (Suc n)
  define left' where "left' = left - int (c ! (cu + root))"
  have lt: "cu + root < mx" using Suc.hyps(2) by simp
  have cn: "c ! (cu + root) = count_list ls (root + cu)" using c m lt by (simp add: add.commute)
  have L: "left' * 2 ^ (15 - (root + cu)) = 2 ^ (15 - root) - int (short_sum ls (Suc (root + cu)))"
    using Suc.prems(2) by (simp add: left'_def cn short_sum_Suc algebra_simps)
  have e: "sub_bits c mx root cu left = (if left' \<le> 0 then cu else sub_bits c mx root (cu + 1) (left' * 2))"
    using lt by (simp add: sub_bits.simps [of c mx root cu] left'_def Let_def)
  show ?case
  proof (cases "left' \<le> 0")
    case True
    then have "left' * 2 ^ (15 - (root + cu)) \<le> 0" by (simp add: mult_nonpos_nonneg)
    then have "(2 :: int) ^ (15 - root) \<le> int (short_sum ls (Suc (root + cu)))" using L by simp
    then have "2 ^ (15 - root) \<le> short_sum ls (Suc (root + cu))" by (metis of_nat_le_iff of_nat_numeral of_nat_power)
    then show ?thesis using True e Suc.prems(1) by simp
  next
    case False
    have "15 - (root + cu) = Suc (15 - (root + (cu + 1)))" using lt m by simp
    then have "left' * 2 * 2 ^ (15 - (root + (cu + 1))) = 2 ^ (15 - root) - int (short_sum ls (root + (cu + 1)))"
      using L by simp
    moreover have "n = mx - (cu + 1 + root)" "root + (cu + 1) \<le> mx" using Suc.hyps(2) by simp_all
    ultimately show ?thesis using Suc.hyps(1) [of "cu + 1" "left' * 2"] False e by auto
  qed
qed

lemma pos_skip:
  assumes "sorted ls" "k \<le> j" "j < length ls" "m \<le> ls ! j"
  shows "pos ls k + short_sum (drop k ls) m \<le> pos ls j"
proof -
  have split: "drop k ls = take (j - k) (drop k ls) @ drop j ls"
    using assms(2) by (metis append_take_drop_id drop_drop le_add_diff_inverse2)
  have "filter (\<lambda>l. l < m) (drop j ls) = []"
  proof -
    have "m \<le> l" if "l \<in> set (drop j ls)" for l
    proof -
      obtain i where i: "i < length (drop j ls)" "l = drop j ls ! i" using \<open>l \<in> set (drop j ls)\<close> by (metis in_set_conv_nth)
      then have "j + i < length ls" by simp
      then show ?thesis using sorted_nth_mono [OF assms(1), of j "j + i"] assms(3,4) i(2) by simp
    qed
    then show ?thesis by (auto simp: filter_empty_conv not_less)
  qed
  then have "short_sum (drop k ls) m = (\<Sum>l\<leftarrow>filter (\<lambda>l. l < m) (take (j - k) (drop k ls)). 2 ^ (15 - l))"
    unfolding short_sum_def by (subst split) simp
  also have "\<dots> \<le> (\<Sum>l\<leftarrow>take (j - k) (drop k ls). 2 ^ (15 - l))"
    by (rule sum_list_filter_le_nat)
  finally have "pos ls k + short_sum (drop k ls) m \<le> (\<Sum>l\<leftarrow>take k ls @ take (j - k) (drop k ls). 2 ^ (15 - l))"
    by (simp add: pos_def)
  also have "take k ls @ take (j - k) (drop k ls) = take j ls"
    using assms(2) by (metis take_add le_add_diff_inverse)
  finally show ?thesis by (simp only: pos_def)
qed

lemma aligned_next:
  assumes S: "run_setup type ws ls root t0 sz" and k: "Suc k < length ls"
    and ph: "(\<forall>j<Suc k. ls ! j \<le> root) \<or> root < ls ! k \<and> rev15 (pos ls (Suc k)) mod 2 ^ root \<noteq> rev15 (pos ls k) mod 2 ^ root"
  shows "2 ^ (15 - root) dvd pos ls (Suc k)"
  using ph
proof
  assume *: "\<forall>j<Suc k. ls ! j \<le> root"
  show ?thesis
    using S * by (intro pos_dvd) (auto simp: run_setup_def in_set_conv_nth)
next
  assume *: "root < ls ! k \<and> rev15 (pos ls (Suc k)) mod 2 ^ root \<noteq> rev15 (pos ls k) mod 2 ^ root"
  have root: "root \<le> 15" using S by (simp add: run_setup_def)
  note F = pos_facts [OF S Suc_lessD [OF k]] and F' = pos_facts [OF S k]
  have "pos ls (Suc k) div 2 ^ (15 - root) \<noteq> pos ls k div 2 ^ (15 - root)"
    using * rev15_prefix [of "pos ls (Suc k)" "pos ls k" root] F(4) F'(4) root by simp
  then show ?thesis
    using aligned_step [of "ls ! k" "pos ls k" root] * F k by (simp add: pos_Suc)
qed

lemma open_subtable_ready:
  assumes S: "run_setup type ws ls root t0 sz" and C: "fill_core type ws ls root t0 sz k st"
    and k: "k < length ls" and l: "len st = ls ! k" "root < ls ! k"
    and mx: "\<forall>l\<in>set ls. l \<le> mx" "mx \<le> 15"
    and al: "2 ^ (15 - root) dvd pos ls k"
  shows "(\<exists>st'. open_subtable type t0 root mx st = Some (Inl st') \<and> length (tab st') = sz \<and> type \<noteq> CODES) \<or>
         (\<exists>st'. open_subtable type t0 root mx st = Some (Inr st') \<and> fill_ready type ws ls root t0 sz k st')"
proof -
  have root: "1 \<le> root" "root \<le> 15" "2 ^ root \<le> room type root" "t0 + room type root \<le> sz"
    using S by (auto simp: run_setup_def)
  note F = pos_facts [OF S k]
  have ty: "type \<noteq> CODES" using S l(2) nth_mem [OF k] by (fastforce simp: run_setup_def)
  have drp: "(if drp st = 0 then root else drp st) = root"
    using C by (auto simp: fill_core_def in_root_def in_sub_def)
  define c where "c = sub_bits (cnt st) mx root (ls ! k - root) (2 ^ (ls ! k - root))"
  have Ck: "\<forall>l\<in>{1..15}. cnt st ! l = count_list (drop k ls) l" using C by (simp add: fill_core_def)
  have ss: "short_sum (drop k ls) (ls ! k) = 0"
  proof -
    have "pos ls k + short_sum (drop k ls) (ls ! k) \<le> pos ls k"
      using S k by (intro pos_skip) (auto simp: run_setup_def)
    then show ?thesis by simp
  qed
  have lmx: "ls ! k \<le> mx" using mx k by simp
  have pw: "(2 :: int) ^ (ls ! k - root) * 2 ^ (15 - ls ! k) = 2 ^ (15 - root)"
    using l F by (simp flip: power_add)
  have c: "ls ! k - root \<le> c" "root + c \<le> mx" "root + c = mx \<or> 2 ^ (15 - root) \<le> short_sum (drop k ls) (Suc (root + c))"
    using sub_bits_spec [OF Ck root(1) mx(2), of "ls ! k - root" "2 ^ (ls ! k - root)"] lmx l ss pw
    by (auto simp: c_def)
  have la: "look_ahead ls root c k (pos ls k div 2 ^ (15 - root))"
    unfolding look_ahead_def
  proof (intro allI impI)
    fix j assume j: "k \<le> j \<and> j < length ls \<and> pos ls j div 2 ^ (15 - root) = pos ls k div 2 ^ (15 - root)"
    show "ls ! j \<le> root + c"
    proof (rule ccontr)
      assume "\<not> ls ! j \<le> root + c"
      then have n: "Suc (root + c) \<le> ls ! j" by simp
      then have "root + c \<noteq> mx" using mx j by (metis nth_mem not_less_eq_eq)
      then have "pos ls k + 2 ^ (15 - root) \<le> pos ls j"
        using pos_skip [of ls k j "Suc (root + c)"] S j n c(3) by (auto simp: run_setup_def)
      moreover have "pos ls j < pos ls k + 2 ^ (15 - root)"
        using div_interval [of "2 ^ (15 - root)" "pos ls k" "pos ls j"] al j by simp
      ultimately show False by simp
    qed
  qed
  define low' where "low' = rev15 (pos ls k) mod 2 ^ root"
  define nx where "nx = nxt st + 2 ^ currb st"
  have core: "huff st = rev15 (pos ls k)" "length (tab st) = sz" "nx = t0 + used st" "used st \<le> room type root"
    using C by (auto simp: fill_core_def nx_def)
  have nx: "t0 + 2 ^ root \<le> nx" using C by (auto simp: fill_core_def in_root_def in_sub_def nx_def)
  let ?u = "used st + 2 ^ c"
  have r1: "room type root \<le> 852" using ty by (cases type) (auto simp: room_def ENOUGH_LENS_def ENOUGH_DISTS_def)
  have o: "open_subtable type t0 root mx st = (if too_big type ?u
        then Some (Inl (st\<lparr>drp := root, nxt := nx, currb := c, used := ?u\<rparr>))
        else do { tab' \<leftarrow> wr (tab st) (t0 + low') (link c root (nx - t0));
                  Some (Inr (st\<lparr>drp := root, nxt := nx, currb := c, used := ?u, low := low', tab := tab'\<rparr>)) })"
    using l core r1 c root mx(2) unfolding open_subtable_def Let_def drp and_low_bits
    by (simp add: low'_def nx_def [symmetric] c_def [symmetric] push_bit_eq_mult)
  show ?thesis
  proof (cases "too_big type ?u")
    case True
    then show ?thesis using o core(2) ty by simp
  next
    case False
    then have u: "?u \<le> room type root" using ty by (cases type) (auto simp: too_big_def room_def)
    have low': "low' < 2 ^ root" by (simp add: low'_def)
    then have b: "t0 + low' < sz" using root by linarith
    let ?st = "st\<lparr>drp := root, nxt := nx, currb := c, used := ?u, low := low', tab := (tab st)[t0 + low' := link c root (nx - t0)]\<rparr>"
    have "open_subtable type t0 root mx st = Some (Inr ?st)" using o False b core(2) by simp
    moreover have "done_at type ws ls root t0 ?st x j"
      if x: "j < k" "pos ls j \<le> rev15 x" "rev15 x < pos ls (Suc j)" for x j
    proof -
      have D: "done_at type ws ls root t0 st x j" using C x by (simp add: fill_core_def)
      have lowk: "low' = rev15 (pos ls k)" using rev15_bound [OF al root(2)] by (simp add: low'_def)
      have "rev15 x < pos ls k" using x pos_mono [of "Suc j" k ls] by simp
      then have ne: "x mod 2 ^ root \<noteq> low'"
        using code_match [of root "pos ls k" x] root al F(4) lowk by simp
      show ?thesis
      proof (cases "ls ! j \<le> root")
        case True
        then show ?thesis using D ne by (simp add: done_at_def)
      next
        case False
        then obtain c' off where co: "tab st ! (t0 + x mod 2 ^ root) = link c' root off" "1 \<le> c'" "c' \<le> 14" "2 ^ root \<le> off"
          "t0 + off + 2 ^ c' \<le> nxt st \<or>
           drp st = root \<and> t0 + off = nxt st \<and> c' = currb st \<and> x mod 2 ^ root = low st"
          "tab st ! (t0 + off + (x div 2 ^ root) mod 2 ^ c') = sym_entry type (ws ! j) (ls ! j - root)"
          using D unfolding done_at_def by auto
        have "t0 + off + 2 ^ c' \<le> nx" using co(5) by (auto simp: nx_def)
        moreover have "t0 + low' \<noteq> t0 + off + (x div 2 ^ root) mod 2 ^ c'" using co(4) low' by simp
        ultimately show ?thesis using False ne co by (auto simp: done_at_def)
      qed
    qed
    moreover have "in_sub root t0 ?st"
      using nx low' b core(2) c mx(2) root(1) l(2) by (auto simp: in_sub_def)
    ultimately show ?thesis using C k l la u core nx root low'_def nth_mem [OF k]
      by (auto simp: fill_ready_def fill_core_def)
  qed
qed

section \<open>The filling loop\<close>

definition code_order :: "nat list \<Rightarrow> nat list \<Rightarrow> nat list \<Rightarrow> nat list \<Rightarrow> bool" where
  "code_order lens work ws ls \<longleftrightarrow> take (length ws) work = ws \<and>
     (\<forall>i<length ws. ws ! i < length lens \<and> lens ! (ws ! i) = ls ! i)"

lemma code_order_work:
  assumes "code_order lens work ws ls" "i < length ws"
  shows "i < length work" "work ! i = ws ! i"
proof -
  have w: "take (length ws) work = ws" using assms(1) by (simp add: code_order_def)
  then have "length ws \<le> length work" by (metis length_take min.cobounded1 nat_le_linear take_all)
  then show "i < length work" using assms(2) by simp
  show "work ! i = ws ! i" using w assms(2) by (metis nth_take)
qed

lemma loop_exit:
  assumes S: "run_setup type ws ls root t0 sz" and C: "fill_core type ws ls root t0 sz (Suc k) st"
    and k: "k < length ls" and l: "len st = ls ! k" and mx: "\<forall>l\<in>set ls. l \<le> mx" "mx \<in> set ls"
  shows "cnt st ! len st = 0 \<and> len st = mx \<longleftrightarrow> Suc k = length ls"
proof
  have c: "cnt st ! len st = count_list (drop (Suc k) ls) (ls ! k)"
    using C l pos_facts(1,2) [OF S k] by (auto simp: fill_core_def)
  have so: "sorted ls" using S by (simp add: run_setup_def)
  {
    assume *: "cnt st ! len st = 0 \<and> len st = mx"
    show "Suc k = length ls"
    proof (rule ccontr)
      assume "Suc k \<noteq> length ls"
      then have k': "Suc k < length ls" using k by simp
      then have "ls ! Suc k = ls ! k"
        using sorted_nth_mono [OF so, of k "Suc k"] mx(1) * l by (metis le_antisym lessI less_imp_le nth_mem)
      then have "ls ! k \<in> set (drop (Suc k) ls)" using k' by (metis Cons_nth_drop_Suc list.set_intros(1))
      then show False using * c by (simp add: count_list_0_iff)
    qed
  }
  assume "Suc k = length ls"
  moreover have "ls ! k = mx"
  proof -
    obtain i where "i < length ls" "mx = ls ! i" using mx(2) by (metis in_set_conv_nth)
    then show ?thesis
      using sorted_nth_mono [OF so, of i k] mx(1) k \<open>Suc k = length ls\<close> by (metis le_antisym less_Suc_eq_le nth_mem)
  qed
  ultimately show "cnt st ! len st = 0 \<and> len st = mx" using c l by simp
qed

lemma next_len_eq:
  assumes S: "run_setup type ws ls root t0 sz" and C: "fill_core type ws ls root t0 sz (Suc k) st"
    and k: "Suc k < length ls" and l: "len st = ls ! k" and W: "code_order lens work ws ls"
  shows "next_len lens work st = Some (ls ! Suc k)"
proof (cases "cnt st ! len st = 0")
  case True
  have "Suc k < length ws" using S k by (simp add: run_setup_def)
  then show ?thesis using True C W code_order_work [OF W, of "Suc k"]
    by (simp add: next_len_def fill_core_def code_order_def)
next
  case False
  have so: "sorted ls" using S by (simp add: run_setup_def)
  have "cnt st ! len st = count_list (drop (Suc k) ls) (ls ! k)"
    using C l pos_facts(1,2) [OF S Suc_lessD [OF k]] by (auto simp: fill_core_def)
  then have "ls ! k \<in> set (drop (Suc k) ls)" using False by (simp add: count_list_0_iff)
  then obtain i where i: "i < length (drop (Suc k) ls)" "drop (Suc k) ls ! i = ls ! k" by (metis in_set_conv_nth)
  then have "Suc k + i < length ls" "ls ! (Suc k + i) = ls ! k" by simp_all
  then have "ls ! Suc k = ls ! k"
    using sorted_nth_mono [OF so, of k "Suc k"] sorted_nth_mono [OF so, of "Suc k" "Suc k + i"] k by simp
  then show ?thesis using False l by (simp add: next_len_def)
qed

lemma fill_core_len [simp]:
  "fill_core type ws ls root t0 sz k (st\<lparr>len := l\<rparr>) = fill_core type ws ls root t0 sz k st"
  by (simp add: fill_core_def done_at_def in_root_def in_sub_def)

text \<open>One round of the loop: it ends, fails for lack of room, or continues in a ready state.\<close>

lemma fill_round:
  assumes S: "run_setup type ws ls root t0 sz" and R: "fill_ready type ws ls root t0 sz k st"
    and W: "code_order lens work ws ls" and mx: "\<forall>l\<in>set ls. l \<le> mx" "mx \<in> set ls"
  shows "(\<exists>st1. fill_tables type lens work t0 root mx st = Some (Inr st1) \<and> Suc k = length ls \<and>
            fill_core type ws ls root t0 sz (length ls) st1 \<and> len st1 = mx) \<or>
         (\<exists>st1. fill_tables type lens work t0 root mx st = Some (Inl st1) \<and> length (tab st1) = sz \<and> type \<noteq> CODES) \<or>
         (\<exists>st1. fill_tables type lens work t0 root mx st = fill_tables type lens work t0 root mx st1 \<and>
            fill_ready type ws ls root t0 sz (Suc k) st1)"
proof -
  have C: "fill_core type ws ls root t0 sz k st" and k: "k < length ls" using R by (auto simp: fill_ready_def)
  have w: "take (length ws) work = ws" using W by (simp add: code_order_def)
  have lw: "length ls = length ws" "1 \<le> root" "root \<le> 15" using S by (auto simp: run_setup_def)
  have mx15: "mx \<le> 15" using S mx(2) by (auto simp: run_setup_def)
  have s: "\<not> symi st \<ge> length work" using C code_order_work(1) [OF W, of k] k lw by (simp add: fill_core_def)
  have "\<exists>st1. enter_symbol type work st = Some st1 \<and> fill_core type ws ls root t0 sz (Suc k) st1 \<and> len st1 = ls ! k \<and>
      (in_root root t0 st1 \<and> (\<forall>j<Suc k. ls ! j \<le> root) \<or>
       in_sub root t0 st1 \<and> root < ls ! k \<and> low st1 = rev15 (pos ls k) mod 2 ^ root \<and>
       look_ahead ls root (currb st1) k (pos ls k div 2 ^ (15 - root)))"
  proof (cases "in_root root t0 st \<and> (\<forall>j<k. ls ! j \<le> root)")
    case True
    then show ?thesis using enter_root [OF S R w] by blast
  next
    case False
    then have i: "in_sub root t0 st" using C by (auto simp: fill_core_def)
    moreover have "root < ls ! k \<and> low st = rev15 (pos ls k) mod 2 ^ root \<and>
       look_ahead ls root (currb st) k (pos ls k div 2 ^ (15 - root))"
      using R i lw by (auto simp: fill_ready_def in_sub_def)
    ultimately show ?thesis using enter_sub [OF S R w i] by metis
  qed
  then obtain st1 where e: "enter_symbol type work st = Some st1" and C1: "fill_core type ws ls root t0 sz (Suc k) st1"
    and l1: "len st1 = ls ! k" and ph: "in_root root t0 st1 \<and> (\<forall>j<Suc k. ls ! j \<le> root) \<or>
       in_sub root t0 st1 \<and> root < ls ! k \<and> low st1 = rev15 (pos ls k) mod 2 ^ root \<and>
       look_ahead ls root (currb st1) k (pos ls k div 2 ^ (15 - root))" by blast
  note X = loop_exit [OF S C1 k l1 mx]
  show ?thesis
  proof (cases "Suc k = length ls")
    case True
    then have "cnt st1 ! mx = 0" "len st1 = mx" using X by auto
    then have "fill_tables type lens work t0 root mx st = Some (Inr st1)"
      using s e by (simp add: fill_tables.simps [of type lens work t0 root mx st])
    then show ?thesis using True C1 X by auto
  next
    case False
    then have k': "Suc k < length ls" using k by simp
    note F = pos_facts [OF S k] and F' = pos_facts [OF S k']
    define st2 where "st2 = st1\<lparr>len := ls ! Suc k\<rparr>"
    have hu: "huff st1 = rev15 (pos ls (Suc k))" using C1 by (simp add: fill_core_def)
    have C2: "fill_core type ws ls root t0 sz (Suc k) st2" using C1 by (simp add: st2_def)
    have ft: "fill_tables type lens work t0 root mx st =
       (if ls ! Suc k > root \<and> rev15 (pos ls (Suc k)) mod 2 ^ root \<noteq> low st1
        then case open_subtable type t0 root mx st2 of None \<Rightarrow> None | Some (Inl r) \<Rightarrow> Some (Inl r)
             | Some (Inr st3) \<Rightarrow> fill_tables type lens work t0 root mx st3
        else fill_tables type lens work t0 root mx st2)"
    proof -
      have ne: "\<not> (cnt st1 ! len st1 = 0 \<and> len st1 = mx)" using X False by blast
      show ?thesis
        by (subst fill_tables.simps)
          (simp only: s ne e next_len_eq [OF S C1 k' l1 W] hu and_low_bits st2_def if_False option.case)
    qed
    have mono: "ls ! k \<le> ls ! Suc k" using S k' by (intro sorted_nth_mono) (auto simp: run_setup_def)
    show ?thesis
    proof (cases "ls ! Suc k > root \<and> rev15 (pos ls (Suc k)) mod 2 ^ root \<noteq> low st1")
      case True
      then have "2 ^ (15 - root) dvd pos ls (Suc k)"
        using ph by (intro aligned_next [OF S k']) auto
      then show ?thesis
        using open_subtable_ready [OF S C2 k' _ _ mx(1) mx15] True ft by (auto simp: st2_def)
    next
      case no: False
      have "fill_ready type ws ls root t0 sz (Suc k) st2"
      proof (cases "in_root root t0 st1")
        case True
        have "rev15 (pos ls (Suc k)) mod 2 ^ root < 2 ^ 15"
          using rev15_less [of "pos ls (Suc k)"] by (simp add: order.strict_trans1 [OF mod_less_eq_dividend])
        then have "ls ! Suc k \<le> root" using no True by (auto simp: in_root_def)
        then show ?thesis using C2 k' True by (simp add: fill_ready_def st2_def in_root_def)
      next
        case False
        then have ph': "in_sub root t0 st1" "root < ls ! k" "low st1 = rev15 (pos ls k) mod 2 ^ root"
          "look_ahead ls root (currb st1) k (pos ls k div 2 ^ (15 - root))" using ph by auto
        then have same: "rev15 (pos ls (Suc k)) mod 2 ^ root = rev15 (pos ls k) mod 2 ^ root"
          using no mono by auto
        then have "pos ls (Suc k) div 2 ^ (15 - root) = pos ls k div 2 ^ (15 - root)"
          using rev15_prefix [of "pos ls (Suc k)" "pos ls k" root] F(4) F'(4) lw(3) by simp
        then have "look_ahead ls root (currb st1) (Suc k) (pos ls (Suc k) div 2 ^ (15 - root))"
          using ph'(4) by (auto simp: look_ahead_def)
        then show ?thesis using C2 k' ph' same mono lw(2) by (auto simp: fill_ready_def st2_def in_sub_def)
      qed
      then show ?thesis using no ft by auto
    qed
  qed
qed

lemma fill_tables_correct:
  assumes S: "run_setup type ws ls root t0 sz"
    and W: "code_order lens work ws ls" and mx: "\<forall>l\<in>set ls. l \<le> mx" "mx \<in> set ls"
  shows "fill_ready type ws ls root t0 sz k st \<Longrightarrow>
    (\<exists>st1. fill_tables type lens work t0 root mx st = Some (Inl st1) \<and> length (tab st1) = sz \<and> type \<noteq> CODES) \<or>
    (\<exists>st1. fill_tables type lens work t0 root mx st = Some (Inr st1) \<and>
       fill_core type ws ls root t0 sz (length ls) st1 \<and> len st1 = mx)"
proof (induction "length ls - k" arbitrary: k st)
  case 0
  then show ?case by (simp add: fill_ready_def)
next
  case (Suc n)
  then have n: "n = length ls - Suc k" by simp
  from fill_round [OF S Suc.prems W mx] show ?case
  proof (elim disjE exE conjE, goal_cases)
    case (3 st1)
    then show ?case using Suc.hyps(1) [OF n, of st1] by simp
  qed auto
qed

section \<open>Canonical codes\<close>

text \<open>
  The canonical code of a symbol (RFC 1951, 3.2.2): the codes of shorter length, and those of equal
  length and smaller symbol, come before it. \<open>code_bits\<close> is the code as the decoder reads it, its
  first bit least significant.
\<close>

definition before :: "nat list \<Rightarrow> nat \<Rightarrow> nat \<Rightarrow> bool" where
  "before lens t s \<longleftrightarrow> lens ! t < lens ! s \<or> lens ! t = lens ! s \<and> t < s"

definition code_start :: "nat list \<Rightarrow> nat \<Rightarrow> nat" where
  "code_start lens s =
     (\<Sum>t\<leftarrow>filter (\<lambda>t. lens ! t \<noteq> 0 \<and> before lens t s) [0..<length lens]. 2 ^ (15 - lens ! t))"

definition code_bits :: "nat list \<Rightarrow> nat \<Rightarrow> nat" where
  "code_bits lens s = rev15 (code_start lens s)"

lemma before_asym: "before lens t s \<Longrightarrow> \<not> before lens s t" "\<not> before lens t t"
  by (auto simp: before_def)

lemma sorted_syms_before:
  assumes "\<forall>l\<in>set ls. l \<le> 15"
  shows "sorted_wrt (before ls) (sorted_syms ls)"
proof -
  have "sorted_wrt (before ls) (of_len ls n l)" for n l
    by (induction n) (auto simp: of_len_def sorted_wrt_append before_def)
  moreover have "before ls t s" if "t \<in> set (of_len ls n k)" "s \<in> set (of_len ls n l)" "k < l" for t s k l n
    using that by (auto simp: of_len_def before_def)
  ultimately have "sorted_wrt (before ls) (concat (map (of_len ls (length ls)) [a..<b]))" for a b
    by (induction b) (auto simp: sorted_wrt_append)
  then show ?thesis using sorted_syms_concat [OF assms] by simp
qed

lemma set_sorted_syms: "set (sorted_syms ls) = {s. s < length ls \<and> ls ! s \<noteq> 0}"
  by (auto simp: sorted_syms_def)

lemma distinct_sorted_syms: "distinct (sorted_syms ls)"
  by (simp add: sorted_syms_def)

lemma pos_code_start:
  assumes "\<forall>l\<in>set ls. l \<le> 15" "i < length (sorted_syms ls)"
  shows "pos (map ((!) ls) (sorted_syms ls)) i = code_start ls (sorted_syms ls ! i)"
proof -
  let ?ws = "sorted_syms ls" and ?F = "filter (\<lambda>t. ls ! t \<noteq> 0 \<and> before ls t (sorted_syms ls ! i)) [0..<length ls]"
  have "set (take i ?ws) = set ?F"
  proof (intro equalityI subsetI)
    fix t assume t: "t \<in> set (take i ?ws)"
    then obtain j where "j < i" "t = ?ws ! j" by (auto simp: in_set_conv_nth)
    moreover have "t \<in> set ?ws" using t by (rule in_set_takeD)
    ultimately show "t \<in> set ?F"
      using sorted_wrt_nth_less [OF sorted_syms_before [OF assms(1)], of j i] assms(2) by (simp add: set_sorted_syms)
  next
    fix t assume t: "t \<in> set ?F"
    then have "t \<in> set ?ws" by (simp add: set_sorted_syms)
    then obtain j where j: "j < length ?ws" "t = ?ws ! j" by (metis in_set_conv_nth)
    have "\<not> i \<le> j"
    proof
      assume "i \<le> j"
      then have "t = ?ws ! i \<or> before ls (?ws ! i) t"
        using sorted_wrt_nth_less [OF sorted_syms_before [OF assms(1)], of i j] j by (cases "i = j") auto
      moreover have "before ls t (?ws ! i)" using t by simp
      ultimately show False using before_asym by blast
    qed
    then have "j < length (take i ?ws)" "take i ?ws ! j = t" using j by simp_all
    then show "t \<in> set (take i ?ws)" by (metis nth_mem)
  qed
  moreover have "distinct (take i ?ws)" "distinct ?F" by (simp_all add: distinct_sorted_syms)
  ultimately have "(\<Sum>t\<leftarrow>take i ?ws. 2 ^ (15 - ls ! t)) = (\<Sum>t\<leftarrow>?F. (2 :: nat) ^ (15 - ls ! t))"
    by (simp only: sum_list_distinct_conv_sum_set)
  then show ?thesis by (simp add: pos_def code_start_def take_map comp_def)
qed

section \<open>The whole routine\<close>

lemma mset_sorted_lens: "mset (map ((!) ls) (sorted_syms ls)) = mset (filter (\<lambda>l. l \<noteq> 0) ls)"
proof -
  have "mset (map ((!) ls) (sorted_syms ls)) = mset (map ((!) ls) (filter (\<lambda>s. ls ! s \<noteq> 0) [0..<length ls]))"
    by (simp add: sorted_syms_def)
  also have "map ((!) ls) (filter (\<lambda>s. ls ! s \<noteq> 0) [0..<length ls]) = filter (\<lambda>l. l \<noteq> 0) ls"
    by (metis (no_types, lifting) filter_map map_nth comp_def filter_cong)
  finally show ?thesis .
qed

lemma kraft_mset: "kraft xs = (\<Sum>l\<in>#mset xs. 2 ^ (15 - l))"
  unfolding kraft_def by (metis mset_map sum_mset_sum_list)

lemma kraft_sorted_syms:
  "kraft (map ((!) ls) (sorted_syms ls)) = kraft (filter (\<lambda>l. l \<noteq> 0) ls)"
  unfolding kraft_mset mset_sorted_lens ..

lemma count_sorted_lens:
  "l \<noteq> 0 \<Longrightarrow> count_list (map ((!) ls) (sorted_syms ls)) l = count_list ls l"
  using mset_sorted_lens [of ls] count_list_filter [of "\<lambda>l. l \<noteq> 0" l ls]
  by (metis (no_types, lifting) count_mset)

text \<open>When \<open>inflate_table\<close> rejects a set of lengths.\<close>

definition bad_lengths :: "codetype \<Rightarrow> nat list \<Rightarrow> bool" where
  "bad_lengths type ls \<longleftrightarrow>
     (let k = kraft (filter (\<lambda>l. l \<noteq> 0) ls)
      in k > 2 ^ 15 \<or> 0 < k \<and> k < 2 ^ 15 \<and> (type = CODES \<or> (\<exists>l\<in>set ls. l > 1)))"

definition table_legal :: "codetype \<Rightarrow> nat list \<Rightarrow> nat \<Rightarrow> code list \<Rightarrow> nat \<Rightarrow> nat \<Rightarrow> nat list \<Rightarrow> bool" where
  "table_legal type lens codes arr table0 bits work \<longleftrightarrow>
     codes \<le> length lens \<and> codes \<le> max_syms type \<and> codes \<le> length work \<and> 1 \<le> bits \<and>
     (\<forall>l\<in>set (take codes lens). l \<le> 15 \<and> (type = CODES \<longrightarrow> l \<le> bits)) \<and>
     table0 + room type bits \<le> length arr"

text \<open>The decoder's two-level look-up: the entry, and the number of code bits it stands for.\<close>

definition table_lookup :: "code list \<Rightarrow> nat \<Rightarrow> nat \<Rightarrow> nat \<Rightarrow> nat \<times> nat \<times> nat" where
  "table_lookup arr t0 root x =
     (let e = arr ! (t0 + x mod 2 ^ root)
      in if op e \<noteq> 0 \<and> op e < 16
         then let e2 = arr ! (t0 + val e + (x div 2 ^ root) mod 2 ^ op e) in (op e2, cbits e + cbits e2, val e2)
         else (op e, cbits e, val e))"

text \<open>The operation and value a symbol stands for.\<close>

definition sym_op :: "codetype \<Rightarrow> nat \<Rightarrow> nat" where "sym_op type s = op (sym_entry type s 0)"
definition sym_val :: "codetype \<Rightarrow> nat \<Rightarrow> nat" where "sym_val type s = val (sym_entry type s 0)"

lemma sym_entry_fields [simp]:
  "cbits (sym_entry type s b) = b" "op (sym_entry type s b) = sym_op type s"
  "val (sym_entry type s b) = sym_val type s"
  by (cases type; simp add: sym_entry_def sym_op_def sym_val_def)+

lemma sym_op_cases: "s < max_syms type \<Longrightarrow> sym_op type s = 0 \<or> 16 \<le> sym_op type s"
proof -
  have "\<forall>i<31. 16 \<le> lext ! i" "\<forall>i<32. 16 \<le> dext ! i"
    by (simp_all add: lext_def dext_def less_Suc_eq numeral_eq_Suc)
  then show "s < max_syms type \<Longrightarrow> ?thesis" by (cases type) (auto simp: sym_op_def sym_entry_def max_syms_def)
qed

lemma done_at_lookup:
  assumes "done_at type ws ls root t0 st x j" "ws ! j < max_syms type"
  shows "table_lookup (tab st) t0 root x = (sym_op type (ws ! j), ls ! j, sym_val type (ws ! j))"
proof (cases "ls ! j \<le> root")
  case True
  then show ?thesis using assms(1) sym_op_cases [OF assms(2)] by (auto simp: done_at_def table_lookup_def Let_def)
next
  case False
  then show ?thesis using assms(1) by (auto simp: done_at_def table_lookup_def Let_def)
qed

text \<open>The state in which the filling loop starts.\<close>

lemma start_ready:
  fixes ls defines "ws \<equiv> sorted_syms ls"
  assumes S: "run_setup type ws (map ((!) ls) ws) root t0 (length arr)" and ne: "ws \<noteq> []"
    and l: "\<forall>l\<in>set ls. l \<le> 15" and r: "ls ! (ws ! 0) \<le> root"
  shows "fill_ready type ws (map ((!) ls) ws) root t0 (length arr) 0
           \<lparr>tab = arr, cnt = len_counts ls, symi = 0, len = ls ! (ws ! 0), huff = 0, nxt = t0, currb = root,
            drp = 0, low = 2 ^ 32 - 1, used = push_bit root 1\<rparr>"
proof -
  have "len_counts ls ! l = count_list (map ((!) ls) ws) l" if "l \<in> {1..15}" for l
    using that by (simp add: ws_def count_sorted_lens)
  moreover have "rev15 0 = 0" by (rule bit_eqI) (simp add: bit_rev15)
  ultimately show ?thesis using S ne r
    by (auto simp: fill_ready_def fill_core_def in_root_def run_setup_def push_bit_eq_mult)
qed


lemma sorted_syms_Nil_iff: "sorted_syms ls = [] \<longleftrightarrow> (\<forall>l\<in>set ls. l = 0)"
proof -
  have "sorted_syms ls = [] \<longleftrightarrow> set (sorted_syms ls) = {}" by simp
  then show ?thesis unfolding set_sorted_syms by (auto simp: all_set_conv_all_nth)
qed

lemma find_max_counts:
  assumes "\<forall>l\<in>set ls. l \<le> 15"
  shows "\<forall>l\<in>set ls. l \<le> find_max (len_counts ls) MAXBITS"
    and "find_max (len_counts ls) MAXBITS = 0 \<longleftrightarrow> (\<forall>l\<in>set ls. l = 0)"
    and "find_max (len_counts ls) MAXBITS \<noteq> 0 \<Longrightarrow> find_max (len_counts ls) MAXBITS \<in> set ls"
    and "find_max (len_counts ls) MAXBITS \<le> 15"
proof -
  let ?m = "find_max (len_counts ls) 15"
  note sp = find_max_spec [of "len_counts ls" 15]
  show A: "\<forall>l\<in>set ls. l \<le> find_max (len_counts ls) MAXBITS"
  proof (intro ballI, rule ccontr)
    fix l assume l: "l \<in> set ls" "\<not> l \<le> find_max (len_counts ls) MAXBITS"
    then have "len_counts ls ! l = 0" using sp(2) [of l] assms by (simp add: MAXBITS_def)
    moreover have "l < 16" using assms l(1) by fastforce
    ultimately show False using l(1) by (simp add: count_list_0_iff)
  qed
  show le: "find_max (len_counts ls) MAXBITS \<le> 15" using sp(1) by (simp add: MAXBITS_def)
  show B: "find_max (len_counts ls) MAXBITS \<noteq> 0 \<Longrightarrow> find_max (len_counts ls) MAXBITS \<in> set ls"
    using sp(1,3) by (simp add: MAXBITS_def count_list_0_iff)
  show "find_max (len_counts ls) MAXBITS = 0 \<longleftrightarrow> (\<forall>l\<in>set ls. l = 0)"
    using A B by auto
qed

lemma find_min_counts:
  assumes l: "\<forall>l\<in>set ls. l \<le> 15" and ne: "sorted_syms ls \<noteq> []"
  shows "find_min (len_counts ls) (find_max (len_counts ls) MAXBITS) 1 = ls ! (sorted_syms ls ! 0)"
proof -
  define mx mn where "mx = find_max (len_counts ls) MAXBITS" and "mn = find_min (len_counts ls) mx 1"
  have mx: "\<forall>l\<in>set ls. l \<le> mx" "mx \<noteq> 0" "mx \<in> set ls" "mx \<le> 15"
    using find_max_counts [OF l] ne by (auto simp: mx_def sorted_syms_Nil_iff)
  have mn: "1 \<le> mn" "mn \<le> mx" "\<forall>i. 1 \<le> i \<and> i < mn \<longrightarrow> len_counts ls ! i = 0" "mn < mx \<longrightarrow> len_counts ls ! mn \<noteq> 0"
    using find_min_spec [of 1 mx "len_counts ls"] mx(2) unfolding mn_def by auto
  have in_ls: "mn \<in> set ls"
    using mn(2,4) mx(3,4) by (cases "mn = mx") (auto simp: count_list_0_iff)
  have least: "mn \<le> l" if "l \<in> set ls" "l \<noteq> 0" for l
  proof (rule ccontr)
    assume "\<not> mn \<le> l"
    then have "len_counts ls ! l = 0" using mn(3) \<open>l \<noteq> 0\<close> by simp
    then show False using that assms(1) by (auto simp: count_list_0_iff)
  qed
  let ?ws = "sorted_syms ls"
  have h: "?ws ! 0 \<in> set ?ws" using ne by simp
  then have "mn \<le> ls ! (?ws ! 0)" using least by (simp add: set_sorted_syms)
  moreover obtain s where s: "s < length ls" "ls ! s = mn" using in_ls by (metis in_set_conv_nth)
  moreover have "ls ! (?ws ! 0) \<le> ls ! s"
  proof -
    have "s \<in> set ?ws" using s mn(1) by (simp add: set_sorted_syms)
    then obtain i where i: "i < length ?ws" "s = ?ws ! i" by (metis in_set_conv_nth)
    then show ?thesis using sorted_wrt_nth_less [OF sorted_syms_before [OF l], of 0 i]
      by (cases "i = 0") (auto simp: before_def)
  qed
  ultimately show ?thesis unfolding mn_def mx_def by simp
qed

lemma left_loop_counts:
  assumes "\<forall>l\<in>set ls. l \<le> 15"
  shows "left_loop (drop 1 (len_counts ls)) 1 =
     (let k = kraft (filter (\<lambda>l. l \<noteq> 0) ls) in if k \<le> 32768 then Some (32768 - int k) else None)"
proof -
  have "length (drop 1 (len_counts ls)) = 15" by simp
  then show ?thesis unfolding left_loop_weight [OF zero_le_one] weight_counts [OF assms] by (simp add: Let_def)
qed

text \<open>Everything a filled table promises: it decodes the codes of the set, and rejects the rest.\<close>

definition table_decodes :: "codetype \<Rightarrow> nat list \<Rightarrow> code list \<Rightarrow> nat \<Rightarrow> nat \<Rightarrow> bool" where
  "table_decodes type ls arr t0 root \<longleftrightarrow>
     (\<forall>x. (\<exists>s<length ls. ls ! s \<noteq> 0 \<and> x mod 2 ^ (ls ! s) = code_bits ls s \<and>
             table_lookup arr t0 root x = (sym_op type s, ls ! s, sym_val type s)) \<or>
          (\<forall>s<length ls. ls ! s \<noteq> 0 \<longrightarrow> x mod 2 ^ (ls ! s) \<noteq> code_bits ls s) \<and>
             table_lookup arr t0 root x = (64, 1, 0))"

lemma table_decodes_empty:
  "\<forall>l\<in>set ls. l = 0 \<Longrightarrow> \<forall>x. table_lookup arr t0 root x = (64, 1, 0) \<Longrightarrow> table_decodes type ls arr t0 root"
  by (auto simp: table_decodes_def all_set_conv_all_nth)

lemma inflate_table_empty:
  assumes L: "table_legal type lens codes arr t0 bits work" and z: "\<forall>l\<in>set (take codes lens). l = 0"
  shows "\<exists>r. inflate_table type lens codes arr t0 bits work = Some r \<and> ret r = 0 \<and> length (codes_arr r) = length arr \<and>
           table_end r = t0 + 2 \<and> root_bits r = 1 \<and> work_arr r = work \<and>
           table_decodes type (take codes lens) (codes_arr r) t0 1"
proof -
  let ?ls = "take codes lens" and ?e = "\<lparr>op = 64, cbits = 1, val = 0\<rparr> :: code"
  have l: "\<forall>l\<in>set ?ls. l \<le> 15" "length ?ls < 65536" "\<not> codes > length lens"
    using L by (auto simp: table_legal_def max_syms_def split: codetype.splits)
  have mx: "find_max (len_counts ?ls) MAXBITS = 0" using find_max_counts(2) [OF l(1)] z by blast
  have "2 \<le> room type bits" using L by (cases type; cases bits)
      (auto simp: room_def ENOUGH_LENS_def ENOUGH_DISTS_def table_legal_def)
  then have b: "t0 < length arr" "t0 + 1 < length arr" using L by (auto simp: table_legal_def)
  let ?a = "arr[t0 := ?e, t0 + 1 := ?e]"
  have "inflate_table type lens codes arr t0 bits work =
      Some \<lparr>ret = 0, codes_arr = ?a, table_end = t0 + 2, root_bits = 1, work_arr = work\<rparr>"
    unfolding inflate_table_def count_lens_eq [OF l(1,2)] using l(3) b by (simp add: mx Let_def)
  moreover have "?a ! (t0 + x mod 2) = ?e" for x
    using b by (cases "x mod 2 = 0") (auto simp: nth_list_update)
  then have "table_decodes type ?ls ?a t0 1"
    using z by (intro table_decodes_empty) (simp_all add: table_lookup_def Let_def)
  ultimately show ?thesis by simp
qed

lemma fill_core_done:
  assumes S: "run_setup type (sorted_syms ls) (map ((!) ls) (sorted_syms ls)) root t0 sz"
    and C: "fill_core type (sorted_syms ls) (map ((!) ls) (sorted_syms ls)) root t0 sz (length (sorted_syms ls)) st"
    and l: "\<forall>l\<in>set ls. l \<le> 15" and s: "s < length ls" "ls ! s \<noteq> 0" and x: "x mod 2 ^ (ls ! s) = code_bits ls s"
  shows "\<exists>j<length (sorted_syms ls). sorted_syms ls ! j = s \<and> s < max_syms type \<and>
           done_at type (sorted_syms ls) (map ((!) ls) (sorted_syms ls)) root t0 st x j"
proof -
  let ?ws = "sorted_syms ls" let ?L = "map ((!) ls) ?ws"
  have "s \<in> set ?ws" using s by (simp add: set_sorted_syms)
  then obtain j where j: "j < length ?ws" "?ws ! j = s" by (metis in_set_conv_nth)
  have "x mod 2 ^ (?L ! j) = rev15 (pos ?L j)"
    using x j pos_code_start [OF l j(1)] by (simp add: code_bits_def)
  then have "pos ?L j \<le> rev15 x \<and> rev15 x < pos ?L (Suc j)" using match_k [OF S, of j x] j by simp
  then have "done_at type ?ws ?L root t0 st x j" using C j by (simp add: fill_core_def)
  moreover have "?ws ! j < max_syms type" using S nth_mem [OF j(1)] by (simp add: run_setup_def)
  ultimately show ?thesis using j by auto
qed

lemma fill_core_decodes:
  assumes S: "run_setup type (sorted_syms ls) (map ((!) ls) (sorted_syms ls)) root t0 sz"
    and C: "fill_core type (sorted_syms ls) (map ((!) ls) (sorted_syms ls)) root t0 sz (length (sorted_syms ls)) st"
    and l: "\<forall>l\<in>set ls. l \<le> 15" and s: "s < length ls" "ls ! s \<noteq> 0" and x: "x mod 2 ^ (ls ! s) = code_bits ls s"
  shows "table_lookup (tab st) t0 root x = (sym_op type s, ls ! s, sym_val type s)"
  using fill_core_done [OF S C l s x] done_at_lookup [of type "sorted_syms ls" _ root t0 st x] by fastforce

lemma code_of_bits:
  assumes S: "run_setup type (sorted_syms ls) (map ((!) ls) (sorted_syms ls)) root t0 sz"
    and l: "\<forall>l\<in>set ls. l \<le> 15" and x: "rev15 x < kraft (filter (\<lambda>l. l \<noteq> 0) ls)"
  shows "\<exists>s<length ls. ls ! s \<noteq> 0 \<and> x mod 2 ^ (ls ! s) = code_bits ls s"
proof -
  let ?ws = "sorted_syms ls" let ?L = "map ((!) ls) ?ws"
  have "rev15 x < pos ?L (length ?L)" using x by (simp add: kraft_sorted_syms)
  then obtain j where j: "j < length ?L" "pos ?L j \<le> rev15 x" "rev15 x < pos ?L (Suc j)"
    using pos_cover by blast
  then have "x mod 2 ^ (?L ! j) = rev15 (pos ?L j)" using match_k [OF S] by simp
  then have "x mod 2 ^ (ls ! (?ws ! j)) = code_bits ls (?ws ! j)"
    using j(1) pos_code_start [OF l] by (simp add: code_bits_def)
  moreover have "?ws ! j \<in> set ?ws" using j(1) by simp
  ultimately show ?thesis unfolding set_sorted_syms by auto
qed

text \<open>The root bits: the requested ones, forced between the shortest and the longest length.\<close>

definition root_of :: "nat list \<Rightarrow> nat \<Rightarrow> nat" where
  "root_of ls bits = max (min bits (find_max (len_counts ls) MAXBITS)) (ls ! (sorted_syms ls ! 0))"

definition start_state :: "nat list \<Rightarrow> code list \<Rightarrow> nat \<Rightarrow> nat \<Rightarrow> fill_state" where
  "start_state ls arr t0 root =
     \<lparr>tab = arr, cnt = len_counts ls, symi = 0, len = ls ! (sorted_syms ls ! 0), huff = 0, nxt = t0, currb = root,
      drp = 0, low = 2 ^ 32 - 1, used = push_bit root 1\<rparr>"

lemma inflate_table_nonempty:
  fixes type lens codes
  defines "ls \<equiv> take codes lens"
  assumes L: "table_legal type lens codes arr t0 bits work" and ne: "\<exists>l\<in>set ls. l \<noteq> 0"
  shows "if bad_lengths type ls
    then inflate_table type lens codes arr t0 bits work =
           Some \<lparr>ret = -1, codes_arr = arr, table_end = t0, root_bits = bits, work_arr = work\<rparr>
    else \<exists>work1. length work1 = length work \<and> take (length (sorted_syms ls)) work1 = sorted_syms ls \<and>
      inflate_table type lens codes arr t0 bits work =
        (if too_big type (push_bit (root_of ls bits) 1) then
           Some \<lparr>ret = 1, codes_arr = arr, table_end = t0, root_bits = bits, work_arr = work1\<rparr>
         else do {
           r \<leftarrow> fill_tables type lens work1 t0 (root_of ls bits) (find_max (len_counts ls) MAXBITS)
                  (start_state ls arr t0 (root_of ls bits));
           case r of
             Inl st \<Rightarrow> Some \<lparr>ret = 1, codes_arr = tab st, table_end = t0, root_bits = bits, work_arr = work1\<rparr>
           | Inr st \<Rightarrow>
               do { tab' \<leftarrow> (if huff st \<noteq> 0 then wr (tab st) (nxt st + huff st)
                                    \<lparr>op = 64, cbits = (len st - drp st) mod 256, val = 0\<rparr>
                             else Some (tab st));
                    Some \<lparr>ret = 0, codes_arr = tab', table_end = t0 + used st,
                          root_bits = root_of ls bits, work_arr = work1\<rparr> } })"
proof -
  have l: "\<forall>l\<in>set ls. l \<le> 15" "length ls < 65536" "\<not> codes > length lens" "length ls \<le> length work"
    using L by (auto simp: ls_def table_legal_def max_syms_def split: codetype.splits)
  define mx where "mx = find_max (len_counts ls) MAXBITS"
  have nes: "sorted_syms ls \<noteq> []" using ne by (auto simp: sorted_syms_Nil_iff)
  have mx: "mx \<noteq> 0" "mx \<in> set ls" "\<forall>l\<in>set ls. l \<le> mx"
    using find_max_counts [OF l(1)] ne by (auto simp: mx_def)
  define k where "k = kraft (filter (\<lambda>l. l \<noteq> 0) ls)"
  have ll: "left_loop (drop 1 (len_counts ls)) 1 = (if k \<le> 32768 then Some (32768 - int k) else None)"
    using left_loop_counts [OF l(1)] by (simp add: k_def Let_def)
  have k0: "0 < k"
  proof -
    have "2 ^ (15 - mx) \<le> k" unfolding k_def kraft_def by (rule member_le_sum_list) (use mx in auto)
    then show ?thesis using zero_less_power [of "2 :: nat" "15 - mx"] by linarith
  qed
  have bad: "bad_lengths type ls \<longleftrightarrow> 32768 < k \<or> k < 32768 \<and> (type = CODES \<or> mx \<noteq> 1)"
  proof -
    have "(\<exists>l\<in>set ls. l > 1) \<longleftrightarrow> mx \<noteq> 1"
    proof
      assume "\<exists>l\<in>set ls. l > 1"
      then show "mx \<noteq> 1" using mx(3) by fastforce
    next
      assume "mx \<noteq> 1"
      then have "mx > 1" using mx(1) by simp
      then show "\<exists>l\<in>set ls. l > 1" using mx(2) by blast
    qed
    then show ?thesis using k0 unfolding bad_lengths_def k_def [symmetric] Let_def by simp
  qed
  have r: "(if (if bits > mx then mx else bits) < ls ! (sorted_syms ls ! 0) then ls ! (sorted_syms ls ! 0)
             else if bits > mx then mx else bits) = root_of ls bits"
    by (auto simp: root_of_def mx_def)
  obtain work1 where w: "sort_syms ls 0 (0 # offs_loop (take (MAXBITS - 1) (drop 1 (len_counts ls))) 0) work = Some work1"
     "length work1 = length work" "take (length (sorted_syms ls)) work1 = sorted_syms ls"
    using sort_syms_correct [OF l(1,2,4)] by blast
  note defs = inflate_table_def ls_def [symmetric] count_lens_eq [OF l(1,2)] bind.bind_lunit mx_def [symmetric]
     find_min_counts [OF l(1) nes, folded mx_def] ll Let_def r
  show ?thesis
  proof (cases "bad_lengths type ls")
    case True
    then show ?thesis unfolding defs using l(3) mx(1) bad by auto
  next
    case False
    then have "k \<le> 32768" "\<not> (k < 32768 \<and> (type = CODES \<or> mx \<noteq> 1))" using bad by auto
    then show ?thesis unfolding defs using l(3) mx(1) w False
      by (auto simp: start_state_def intro!: exI [of _ work1] simp del: One_nat_def)
  qed
qed

lemma sorted_syms_sorted: "sorted (map ((!) ls) (sorted_syms ls))"
  unfolding sorted_syms_def by (rule sorted_sort_key)

lemma root_setup:
  fixes type lens codes bits
  defines "ls \<equiv> take codes lens"
  defines "root \<equiv> root_of ls bits"
  assumes L: "table_legal type lens codes arr t0 bits work" and ne: "\<exists>l\<in>set ls. l \<noteq> 0"
    and nb: "\<not> bad_lengths type ls" and tb: "\<not> too_big type (push_bit root 1)"
  shows "run_setup type (sorted_syms ls) (map ((!) ls) (sorted_syms ls)) root t0 (length arr)"
    and "ls ! (sorted_syms ls ! 0) \<le> root" and "root \<le> find_max (len_counts ls) MAXBITS"
    and "room type root \<le> room type bits"
proof -
  define mx where "mx = find_max (len_counts ls) MAXBITS"
  have l: "\<forall>l\<in>set ls. l \<le> 15 \<and> (type = CODES \<longrightarrow> l \<le> bits)" "length ls \<le> max_syms type" "1 \<le> bits"
    using L by (auto simp: ls_def table_legal_def)
  have l15: "\<forall>l\<in>set ls. l \<le> 15" using l(1) by blast
  have nes: "sorted_syms ls \<noteq> []" using ne by (auto simp: sorted_syms_Nil_iff)
  have mx: "mx \<in> set ls" "\<forall>l\<in>set ls. l \<le> mx" "mx \<le> 15"
    using find_max_counts [OF l15] ne by (auto simp: mx_def)
  have mem: "s < length ls \<and> ls ! s \<noteq> 0 \<and> ls ! s \<le> mx" if "s \<in> set (sorted_syms ls)" for s
    using that mx(2) by (auto simp: set_sorted_syms)
  have m0: "ls ! (sorted_syms ls ! 0) \<noteq> 0" "ls ! (sorted_syms ls ! 0) \<le> mx"
    using mem [of "sorted_syms ls ! 0"] nes by auto
  show min: "ls ! (sorted_syms ls ! 0) \<le> root" by (simp add: root_def root_of_def)
  show max: "root \<le> find_max (len_counts ls) MAXBITS"
    using m0(2) by (simp add: root_def root_of_def mx_def)
  have codes: "type = CODES \<Longrightarrow> root = mx"
    using l(1) mx(1) m0(2) by (auto simp: root_def root_of_def mx_def [symmetric])
  show rm: "room type root \<le> room type bits"
    using codes l(1) mx(1) by (cases type) (auto simp: room_def)
  have k: "kraft (map ((!) ls) (sorted_syms ls)) \<le> 32768"
    using nb unfolding kraft_sorted_syms by (simp add: bad_lengths_def Let_def not_less)
  have "length (sorted_syms ls) \<le> length ls"
    unfolding sorted_syms_def by (metis length_filter_le length_sort length_upt diff_zero)
  moreover have "length ls < 65536" using l(2) by (cases type) (auto simp: max_syms_def)
  moreover have "2 ^ root \<le> room type root"
    using tb by (cases type) (auto simp: too_big_def room_def push_bit_eq_mult)
  moreover have "type = CODES \<Longrightarrow> s \<in> set (sorted_syms ls) \<Longrightarrow> ls ! s \<le> root" for s
    using codes mem by blast
  moreover have "t0 + room type root \<le> length arr" using rm L by (simp add: table_legal_def)
  ultimately show "run_setup type (sorted_syms ls) (map ((!) ls) (sorted_syms ls)) root t0 (length arr)"
    using k min m0 max mx l(2) mem sorted_syms_sorted [of ls]
    by (auto simp: run_setup_def mx_def [symmetric] Suc_le_eq dest!: mem) 
qed

lemma code_of_bits_iff:
  assumes S: "run_setup type (sorted_syms ls) (map ((!) ls) (sorted_syms ls)) root t0 sz"
    and l: "\<forall>l\<in>set ls. l \<le> 15" and s: "s < length ls" "ls ! s \<noteq> 0" "x mod 2 ^ (ls ! s) = code_bits ls s"
  shows "rev15 x < kraft (filter (\<lambda>l. l \<noteq> 0) ls)"
proof -
  let ?ws = "sorted_syms ls" let ?L = "map ((!) ls) ?ws"
  have "s \<in> set ?ws" using s by (simp add: set_sorted_syms)
  then obtain j where j: "j < length ?ws" "?ws ! j = s" by (metis in_set_conv_nth)
  have "x mod 2 ^ (?L ! j) = rev15 (pos ?L j)"
    using s j pos_code_start [OF l j(1)] by (simp add: code_bits_def)
  then have "rev15 x < pos ?L (Suc j)" using match_k [OF S, of j x] j by simp
  also have "\<dots> \<le> kraft ?L" by (rule pos_le_kraft)
  finally show ?thesis by (simp only: kraft_sorted_syms)
qed

lemma fill_core_short:
  assumes S: "run_setup type (sorted_syms ls) (map ((!) ls) (sorted_syms ls)) root t0 sz"
    and C: "fill_core type (sorted_syms ls) (map ((!) ls) (sorted_syms ls)) root t0 sz (length (sorted_syms ls)) st"
    and l: "\<forall>l\<in>set ls. l \<le> 15" and s: "s < length ls" "ls ! s \<noteq> 0" and x: "x mod 2 ^ (ls ! s) = code_bits ls s"
    and short: "ls ! s \<le> root"
  shows "tab st ! (t0 + x mod 2 ^ root) = sym_entry type s (ls ! s)" "s < max_syms type"
  using fill_core_done [OF S C l s x] short by (auto simp: done_at_def)

text \<open>An incomplete set that is accepted has one code, of length one.\<close>

lemma kraft_ones: "\<forall>l\<in>set xs. l = 1 \<Longrightarrow> kraft xs = length xs * 2 ^ 14"
  by (induction xs) (auto simp: kraft_def)

lemma fill_end:
  assumes S: "run_setup type (sorted_syms ls) (map ((!) ls) (sorted_syms ls)) root t0 sz"
    and C: "fill_core type (sorted_syms ls) (map ((!) ls) (sorted_syms ls)) root t0 sz (length (sorted_syms ls)) st"
    and l: "\<forall>l\<in>set ls. l \<le> 15" and ne: "\<exists>l\<in>set ls. l \<noteq> 0" and nb: "\<not> bad_lengths type ls"
    and mx: "len st = mx" "\<forall>l\<in>set ls. l \<le> mx" "mx \<in> set ls" and r: "root \<le> mx"
  shows "\<exists>tb. (if huff st \<noteq> 0 then wr (tab st) (nxt st + huff st)
              \<lparr>op = 64, cbits = (len st - drp st) mod 256, val = 0\<rparr> else Some (tab st)) = Some tb \<and>
          length tb = sz \<and> table_decodes type ls tb t0 root"
proof -
  define k where "k = kraft (filter (\<lambda>l. l \<noteq> 0) ls)"
  have hu: "huff st = rev15 k" and len: "length (tab st) = sz"
    using C by (simp_all add: fill_core_def k_def kraft_sorted_syms)
  have dec: "x mod 2 ^ (ls ! s) = code_bits ls s \<Longrightarrow> s < length ls \<Longrightarrow> ls ! s \<noteq> 0 \<Longrightarrow>
      table_lookup (tab st) t0 root x = (sym_op type s, ls ! s, sym_val type s)" for x s
    using fill_core_decodes [OF S C l] by blast
  show ?thesis
  proof (cases "k = 32768")
    case True
    then have "\<exists>s<length ls. ls ! s \<noteq> 0 \<and> x mod 2 ^ (ls ! s) = code_bits ls s" for x
      using code_of_bits [OF S l, of x] rev15_less [of x] by (simp add: k_def)
    then have "table_decodes type ls (tab st) t0 root" unfolding table_decodes_def using dec by blast
    then show ?thesis using True hu len rev15_top by simp
  next
    case False
    have "\<exists>s<length ls. ls ! s \<noteq> 0" using ne by (metis in_set_conv_nth)
    then have n0: "filter (\<lambda>l. l \<noteq> 0) ls \<noteq> []" by (auto simp: filter_empty_conv)
    have "0 < k" using n0 by (cases "filter (\<lambda>l. l \<noteq> 0) ls") (auto simp: k_def kraft_def)
    then have b: "k < 32768" "type \<noteq> CODES" "\<forall>l\<in>set ls. l \<le> 1"
      using nb False unfolding bad_lengths_def Let_def k_def [symmetric] by (auto simp: not_less)
    have ones: "\<forall>l\<in>set (filter (\<lambda>l. l \<noteq> 0) ls). l = 1" using b(3) by force
    then have "k = length (filter (\<lambda>l. l \<noteq> 0) ls) * 2 ^ 14" unfolding k_def by (rule kraft_ones)
    moreover have "length (filter (\<lambda>l. l \<noteq> 0) ls) \<noteq> 0" using n0 by simp
    ultimately have k: "k = 2 ^ 14" using b(1) by (cases "length (filter (\<lambda>l. l \<noteq> 0) ls)") auto
    have root: "root = 1" "mx = 1" using S r b(3) mx(3) by (auto simp: run_setup_def)
    have "\<not> (\<exists>l\<in>set (map ((!) ls) (sorted_syms ls)). root < l)"
      using b(3) root(1) by (auto simp: set_sorted_syms not_less)
    then have ir: "in_root root t0 st" using C by (auto simp: fill_core_def)
    let ?e = "\<lparr>op = 64, cbits = 1, val = 0\<rparr> :: code"
    have i: "t0 + 1 < length (tab st)"
      using S root by (auto simp: len run_setup_def)
    have tb: "(if huff st \<noteq> 0 then wr (tab st) (nxt st + huff st)
              \<lparr>op = 64, cbits = (len st - drp st) mod 256, val = 0\<rparr> else Some (tab st)) = Some ((tab st)[t0 + 1 := ?e])"
      using ir i mx(1) root by (simp add: hu k rev15_half [simplified] in_root_def)
    have "table_decodes type ls ((tab st)[t0 + 1 := ?e]) t0 root"
      unfolding table_decodes_def
    proof
      fix x
      show "(\<exists>s<length ls. ls ! s \<noteq> 0 \<and> x mod 2 ^ (ls ! s) = code_bits ls s \<and>
             table_lookup ((tab st)[t0 + 1 := ?e]) t0 root x = (sym_op type s, ls ! s, sym_val type s)) \<or>
          (\<forall>s<length ls. ls ! s \<noteq> 0 \<longrightarrow> x mod 2 ^ (ls ! s) \<noteq> code_bits ls s) \<and>
             table_lookup ((tab st)[t0 + 1 := ?e]) t0 root x = (64, 1, 0)"
      proof (cases "even x")
        case True
        then have "rev15 x < k" by (simp add: k rev15_low_bit [simplified])
        then obtain s where s: "s < length ls" "ls ! s \<noteq> 0" "x mod 2 ^ (ls ! s) = code_bits ls s"
          using code_of_bits [OF S l] by (auto simp: k_def)
        have "table_lookup ((tab st)[t0 + 1 := ?e]) t0 root x = table_lookup (tab st) t0 root x"
        proof -
          have "ls ! s \<le> root" using b(3) s(1) root(1) by simp
          then have e: "tab st ! t0 = sym_entry type s (ls ! s)" "s < max_syms type"
            using fill_core_short [OF S C l s] True root(1) by simp_all
          then show ?thesis using sym_op_cases [OF e(2)] True root(1) by (auto simp: table_lookup_def Let_def)
        qed
        then show ?thesis using s dec by metis
      next
        case False
        then have "\<not> rev15 x < k" by (simp add: k rev15_low_bit [simplified])
        then have "\<forall>s<length ls. ls ! s \<noteq> 0 \<longrightarrow> x mod 2 ^ (ls ! s) \<noteq> code_bits ls s"
          using code_of_bits_iff [OF S l] by (auto simp: k_def)
        moreover have "x mod 2 = 1" using False by (simp add: odd_iff_mod_2_eq_one)
        ultimately show ?thesis using root i by (simp add: table_lookup_def Let_def)
      qed
    qed
    then show ?thesis using tb len by auto
  qed
qed

lemma inflate_table_spec:
  fixes type lens codes
  defines "ls \<equiv> take codes lens"
  assumes L: "table_legal type lens codes arr t0 bits work"
  shows "\<exists>r. inflate_table type lens codes arr t0 bits work = Some r \<and> length (codes_arr r) = length arr \<and>
     length (work_arr r) = length work \<and>
     (bad_lengths type ls \<and> ret r = -1 \<or>
      \<not> bad_lengths type ls \<and> type \<noteq> CODES \<and> ret r = 1 \<or>
      \<not> bad_lengths type ls \<and> ret r = 0 \<and> table_end r \<le> t0 + room type bits \<and>
        table_decodes type ls (codes_arr r) t0 (root_bits r))"
proof (cases "\<exists>l\<in>set ls. l \<noteq> 0")
  case False
  then have "\<not> bad_lengths type ls" by (auto simp: bad_lengths_def kraft_def filter_empty_conv cong: filter_cong)
  moreover have "2 \<le> room type bits" using L by (cases type; cases bits)
      (auto simp: room_def ENOUGH_LENS_def ENOUGH_DISTS_def table_legal_def)
  ultimately show ?thesis using inflate_table_empty [OF L] False unfolding ls_def by auto
next
  case ne: True
  have l: "\<forall>l\<in>set ls. l \<le> 15" using L by (auto simp: ls_def table_legal_def)
  note N = inflate_table_nonempty [OF L, folded ls_def, OF ne]
  show ?thesis
  proof (cases "bad_lengths type ls")
    case True
    then show ?thesis using N by simp
  next
    case nb: False
    let ?root = "root_of ls bits" and ?mx = "find_max (len_counts ls) MAXBITS" and ?ws = "sorted_syms ls"
    obtain work1 where w: "length work1 = length work" "take (length ?ws) work1 = ?ws"
      "inflate_table type lens codes arr t0 bits work =
        (if too_big type (push_bit ?root 1) then
           Some \<lparr>ret = 1, codes_arr = arr, table_end = t0, root_bits = bits, work_arr = work1\<rparr>
         else do {
           r \<leftarrow> fill_tables type lens work1 t0 ?root ?mx (start_state ls arr t0 ?root);
           case r of
             Inl st \<Rightarrow> Some \<lparr>ret = 1, codes_arr = tab st, table_end = t0, root_bits = bits, work_arr = work1\<rparr>
           | Inr st \<Rightarrow>
               do { tab' \<leftarrow> (if huff st \<noteq> 0 then wr (tab st) (nxt st + huff st)
                                    \<lparr>op = 64, cbits = (len st - drp st) mod 256, val = 0\<rparr>
                             else Some (tab st));
                    Some \<lparr>ret = 0, codes_arr = tab', table_end = t0 + used st,
                          root_bits = ?root, work_arr = work1\<rparr> } })"
      using N nb by auto
    show ?thesis
    proof (cases "too_big type (push_bit ?root 1)")
      case True
      then show ?thesis using w nb by (auto simp: too_big_def)
    next
      case tb: False
      note S = root_setup [OF L, folded ls_def, OF ne nb tb]
      have nes: "?ws \<noteq> []" using ne by (auto simp: sorted_syms_Nil_iff)
      have mx: "\<forall>l\<in>set ls. l \<le> ?mx" "?mx \<in> set ls" using find_max_counts [OF l] ne by auto
      have mx': "\<forall>l\<in>set (map ((!) ls) ?ws). l \<le> ?mx" "?mx \<in> set (map ((!) ls) ?ws)"
      proof -
        show "\<forall>l\<in>set (map ((!) ls) ?ws). l \<le> ?mx" using mx by (auto simp: set_sorted_syms)
        obtain s where "s < length ls" "ls ! s = ?mx" using mx(2) by (metis in_set_conv_nth)
        moreover have "?mx \<noteq> 0" using ne mx(1) by auto
        ultimately have "s \<in> set ?ws" "ls ! s = ?mx" by (simp_all add: set_sorted_syms)
        then show "?mx \<in> set (map ((!) ls) ?ws)" by (metis image_eqI list.set_map)
      qed
      have "?ws ! i < length lens \<and> lens ! (?ws ! i) = map ((!) ls) ?ws ! i" if "i < length ?ws" for i
        using nth_mem [OF that] that by (auto simp: set_sorted_syms ls_def)
      then have W: "code_order lens work1 ?ws (map ((!) ls) ?ws)" using w(2) by (simp add: code_order_def)
      note R = start_ready [OF S(1) nes l S(2), folded start_state_def]
      from fill_tables_correct [OF S(1) W mx' R]
      show ?thesis
      proof (elim disjE exE conjE)
        fix st1 assume "fill_tables type lens work1 t0 ?root ?mx (start_state ls arr t0 ?root) = Some (Inl st1)"
          "length (tab st1) = length arr" "type \<noteq> CODES"
        then show ?thesis using w tb nb by simp
      next
        fix st1 assume f: "fill_tables type lens work1 t0 ?root ?mx (start_state ls arr t0 ?root) = Some (Inr st1)"
          and C: "fill_core type ?ws (map ((!) ls) ?ws) ?root t0 (length arr) (length (map ((!) ls) ?ws)) st1"
          and mx1: "len st1 = ?mx"
        have C': "fill_core type ?ws (map ((!) ls) ?ws) ?root t0 (length arr) (length ?ws) st1" using C by simp
        obtain tb' where tb': "(if huff st1 \<noteq> 0 then wr (tab st1) (nxt st1 + huff st1)
              \<lparr>op = 64, cbits = (len st1 - drp st1) mod 256, val = 0\<rparr> else Some (tab st1)) = Some tb'"
          "length tb' = length arr" "table_decodes type ls tb' t0 ?root"
          using fill_end [OF S(1) C' l ne nb mx1 mx S(3)] by auto
        have "used st1 \<le> room type bits" using C S(4) by (auto simp: fill_core_def)
        then show ?thesis using w tb nb f tb' by simp
      qed
    qed
  qed
qed

section \<open>Properties\<close>

text \<open>
  C23. For every set of at most \<open>max_syms\<close> code lengths of at most 15 bits, and an array with the room
  the callers provide, \<open>inflate_table\<close> terminates without an access outside its arrays. It returns -1
  exactly for the over-subscribed sets and for the incomplete ones that deflate does not allow (all
  of them for the code length code; those with a code longer than one bit otherwise), and 0 or, for
  the literal/length and distance codes only, 1 for every other set. On 0 the tables end within the
  room of their type.
\<close>

theorem inflate_table_returns:
  assumes "table_legal type lens codes arr table0 bits work"
  shows "\<exists>r. inflate_table type lens codes arr table0 bits work = Some r \<and> length (codes_arr r) = length arr \<and>
     (ret r = -1 \<longleftrightarrow> bad_lengths type (take codes lens)) \<and>
     ret r \<in> (if type = CODES then {-1, 0} else {-1, 0, 1}) \<and>
     (ret r \<noteq> 0 \<or> table_end r \<le> table0 + room type bits)"
  using inflate_table_spec [OF assms] by fastforce

theorem inflate_table_returns_witness:
  "\<exists>r. inflate_table CODES [2, 1, 3, 2] 4 (replicate 8 (link 0 0 0)) 0 3 [0, 0, 0, 0] = Some r \<and> ret r = -1"
proof -
  have "table_legal CODES [2, 1, 3, 2] 4 (replicate 8 (link 0 0 0)) 0 3 [0, 0, 0, 0]"
    by (simp add: table_legal_def max_syms_def room_def)
  moreover have "bad_lengths CODES (take 4 [2, 1, 3, 2])" by (simp add: bad_lengths_def kraft_def)
  ultimately show ?thesis using inflate_table_returns by metis
qed

text \<open>
  C6. The tables \<open>inflate_table\<close> builds decode the canonical Huffman code of the lengths: whatever the
  next bits of the input are, the look-up through the root table and at most one sub-table gives
  exactly the symbol whose code they start with, the number of bits of that code, and the operation,
  base value and extra bits deflate assigns to the symbol; bits that start with no code (only
  possible for the incomplete code of one symbol and for the empty code) give the invalid code marker.
\<close>

theorem inflate_table_decodes:
  assumes "table_legal type lens codes arr table0 bits work" "\<not> bad_lengths type (take codes lens)"
  shows "\<exists>r. inflate_table type lens codes arr table0 bits work = Some r \<and>
     (ret r = 0 \<and> table_decodes type (take codes lens) (codes_arr r) table0 (root_bits r) \<or>
      ret r = 1 \<and> type \<noteq> CODES)"
  using inflate_table_spec [OF assms(1)] assms(2) by fastforce

theorem inflate_table_decodes_witness:
  "\<exists>r. inflate_table CODES [2, 1, 3, 3] 4 (replicate 8 (link 0 0 0)) 0 3 [0, 0, 0, 0] = Some r \<and>
       ret r = 0 \<and> table_decodes CODES [2, 1, 3, 3] (codes_arr r) 0 (root_bits r)"
proof -
  have "table_legal CODES [2, 1, 3, 3] 4 (replicate 8 (link 0 0 0)) 0 3 [0, 0, 0, 0]"
    by (simp add: table_legal_def max_syms_def room_def)
  moreover have "\<not> bad_lengths CODES (take 4 [2, 1, 3, 3])" by (simp add: bad_lengths_def kraft_def)
  ultimately show ?thesis using inflate_table_decodes [of CODES "[2, 1, 3, 3]" 4] by fastforce
qed

end
