(* ===== verification/InflateCorrect.thy ===== *)
theory InflateCorrect
  imports InflateMatch InftreesCorrect "HOL-Library.Sublist"
begin

text \<open>
  Correctness of further parts of zlib/inflate.c: the search for the flush mark and the copying of the
  extra field of a gzip header, with two defects of the code.
\<close>

section \<open>syncsearch\<close>

definition sync_mark :: "byte list" where "sync_mark = [0, 0, 0xff, 0xff]"

text \<open>The bytes before position \<open>m\<close> end with the mark.\<close>

definition sync_at :: "nat \<Rightarrow> byte list \<Rightarrow> bool" where
  "sync_at m bs \<longleftrightarrow> m \<le> length bs \<and> suffix sync_mark (take m bs)"

text \<open>How much of the mark the bytes read so far, last one first, end with.\<close>

definition partial_mark :: "byte list \<Rightarrow> nat" where
  "partial_mark rp =
     (if take 4 rp = [0xff, 0xff, 0, 0] then 4 else if take 3 rp = [0xff, 0, 0] then 3
      else if take 2 rp = [0, 0] then 2 else if take 1 rp = [0] then 1 else 0)"

lemma prefix_take: "prefix xs ys \<longleftrightarrow> take (length xs) ys = xs"
  by (metis append_eq_conv_conj append_take_drop_id prefix_def)

lemma partial_mark_4: "partial_mark (rev xs) = 4 \<longleftrightarrow> suffix sync_mark xs"
proof -
  have "suffix sync_mark xs \<longleftrightarrow> take 4 (rev xs) = [0xff, 0xff, 0, 0]"
    by (simp add: suffix_to_prefix sync_mark_def prefix_take numeral_eq_Suc)
  then show ?thesis by (simp add: partial_mark_def)
qed

definition sync_next :: "nat \<Rightarrow> byte \<Rightarrow> nat" where
  "sync_next got b = (if b = (if got < 2 then 0 else 0xff) then got + 1 else if b \<noteq> 0 then 0 else 4 - got)"

lemma syncsearch_Cons:
  "syncsearch got (b # bs) =
     (if got < 4 then (case syncsearch (sync_next got b) bs of (n, g) \<Rightarrow> (n + 1, g)) else (0, got))"
  by (simp add: sync_next_def Let_def)

lemma syncsearch_stop: "syncsearch 4 bs = (0, 4)"
  by (cases bs) simp_all

declare syncsearch.simps(2) [simp del]

lemma partial_mark_step:
  assumes "partial_mark rp < 4"
  shows "partial_mark (b # rp) = sync_next (partial_mark rp) b"
proof -
  obtain a1 a2 a3 r where "rp = [] \<or> rp = [a1] \<or> rp = [a1, a2] \<or> rp = a1 # a2 # a3 # r"
    by (metis list.exhaust)
  then show ?thesis using assms
    by (elim disjE; simp add: partial_mark_def sync_next_def take_Cons' split: if_splits; auto)
qed


lemma syncsearch_partial:
  assumes "partial_mark (rev pre) < 4"
  shows "case syncsearch (partial_mark (rev pre)) bs of (n, g) \<Rightarrow>
    n \<le> length bs \<and> g = partial_mark (rev (pre @ take n bs)) \<and> (g \<noteq> 4 \<longrightarrow> n = length bs) \<and>
    (\<forall>k<n. partial_mark (rev (pre @ take k bs)) < 4)"
  using assms
proof (induction bs arbitrary: pre)
  case (Cons b bs)
  define g' where "g' = partial_mark (rev (pre @ [b]))"
  have step: "g' = sync_next (partial_mark (rev pre)) b"
    using partial_mark_step [OF Cons.prems, of b] by (simp add: g'_def)
  obtain n g where ng: "syncsearch g' bs = (n, g)" by fastforce
  have s: "syncsearch (partial_mark (rev pre)) (b # bs) = (n + 1, g)"
    using Cons.prems ng step by (simp add: syncsearch_Cons)
  show ?case
  proof (cases "g' < 4")
    case True
    have I: "n \<le> length bs \<and> g = partial_mark (rev (pre @ b # take n bs)) \<and> (g \<noteq> 4 \<longrightarrow> n = length bs) \<and>
        (\<forall>k<n. partial_mark (rev (pre @ b # take k bs)) < 4)"
      using Cons.IH [OF True [unfolded g'_def]] unfolding g'_def [symmetric] ng prod.case append_assoc append_Cons append_Nil
      by blast
    have I4: "\<forall>k<n. partial_mark (rev (pre @ b # take k bs)) < 4" using I by blast
    have "partial_mark (rev (pre @ take k (b # bs))) < 4" if "k < n + 1" for k
    proof (cases k)
      case (Suc k')
      then show ?thesis using that I4 by (metis Suc_eq_plus1 Suc_less_eq take_Suc_Cons)
    qed (use Cons.prems in simp)
    then show ?thesis using I unfolding s prod.case by (metis Suc_eq_plus1 Suc_le_mono length_Cons take_Suc_Cons)
  next
    case False
    have le: "g' \<le> 4" by (simp add: g'_def partial_mark_def)
    then have "g' = 4" using False by simp
    then have "n = 0 \<and> g = 4" using ng by (simp add: syncsearch_stop)
    then show ?thesis using s Cons.prems \<open>g' = 4\<close> by (simp add: g'_def)
  qed
qed simp

lemma syncsearch_append:
  "case syncsearch g xs of (n1, g1) \<Rightarrow> case syncsearch g1 ys of (n2, g2) \<Rightarrow> syncsearch g (xs @ ys) = (n1 + n2, g2)"
proof (induction xs arbitrary: g)
  case (Cons x xs)
  show ?case
  proof (cases "g < 4")
    case True
    then show ?thesis using Cons.IH [of "sync_next g x"] by (auto simp: syncsearch_Cons split: prod.splits)
  next
    case False
    then have "syncsearch g zs = (0, g)" for zs by (cases zs) (simp_all add: syncsearch_Cons)
    then show ?thesis by simp
  qed
qed (simp split: prod.splits)

lemma sync_at_partial: "m \<le> length bs \<Longrightarrow> sync_at m bs \<longleftrightarrow> partial_mark (rev (take m bs)) = 4"
  by (simp add: sync_at_def partial_mark_4)

lemma syncsearch_first:
  "case syncsearch 0 bs of (n, g) \<Rightarrow> n \<le> length bs \<and>
     (if g = 4 then sync_at n bs \<and> (\<nexists>m. m < n \<and> sync_at m bs) else n = length bs \<and> (\<nexists>m. sync_at m bs))"
proof -
  have p0: "partial_mark (rev []) = 0" by (simp add: partial_mark_def)
  obtain n g where ng: "syncsearch 0 bs = (n, g)" by fastforce
  have P: "n \<le> length bs" "g = partial_mark (rev (take n bs))" "g \<noteq> 4 \<longrightarrow> n = length bs" "\<forall>k<n. partial_mark (rev (take k bs)) < 4"
    using syncsearch_partial [of "[]" bs, unfolded p0 ng prod.case append_Nil, OF zero_less_numeral] by blast+
  have no: "\<not> sync_at m bs" if "m < n" for m
    using that P(1,4) sync_at_partial [of m bs] by fastforce
  show ?thesis
  proof (cases "g = 4")
    case True
    then have "sync_at n bs" using P(2) sync_at_partial [OF P(1)] by simp
    then show ?thesis using ng True no P(1) by simp
  next
    case False
    then have n: "n = length bs" using P(3) by simp
    have "\<not> sync_at m bs" for m
    proof (cases "m < n")
      case True
      then show ?thesis by (rule no)
    next
      case nl: False
      have "\<not> sync_at n bs" using P(2) False sync_at_partial [OF P(1)] by simp
      then show ?thesis using nl n by (cases "m = n") (simp_all add: sync_at_def)
    qed
    then show ?thesis using ng False n by simp
  qed
qed

text \<open>
  C24. \<open>syncsearch\<close> finds the first occurrence of the flush mark 00 00 ff ff: when it reports four
  pattern bytes, the bytes it consumed end with the mark and no shorter prefix does; when it
  reports fewer, it consumed the whole buffer, which holds no mark. Searching a buffer in two
  pieces, with the count carried over, gives the same result as searching it at once.
\<close>

theorem syncsearch_correct:
  "(case syncsearch 0 (xs @ ys) of (n, g) \<Rightarrow>
      (if g = 4 then sync_at n (xs @ ys) \<and> (\<nexists>m. m < n \<and> sync_at m (xs @ ys))
       else n = length (xs @ ys) \<and> (\<nexists>m. sync_at m (xs @ ys)))) \<and>
   (case syncsearch 0 xs of (n1, g1) \<Rightarrow> case syncsearch g1 ys of (n2, g2) \<Rightarrow> syncsearch 0 (xs @ ys) = (n1 + n2, g2))"
  using syncsearch_first [of "xs @ ys"] syncsearch_append [of 0 xs ys] by (auto split: prod.splits if_splits)

text \<open>Resetting keeps what the stream still has to read.\<close>

lemma inflateReset_frame:
  assumes "\<not> inflateStateCheck (Some z)" and "state z = Some st"
  shows "\<exists>z' st'. inflateReset (Some z) = (Z_OK, Some z') \<and> next_in z' = next_in z \<and> state z' = Some st' \<and> bits st' = 0 \<and> whave st' = 0"
  using assms by (simp add: inflateReset_def inflateResetKeep_def with_state_def inflateStateCheck_def Let_def)

text \<open>
  C27. \<open>inflateSync\<close> on a stream that was not searched before: the bytes searched for the flush mark are those it takes from the bit buffer, after \<open>hold <<= bits & 7\<close>, followed by the
  input. If they hold a mark, the function returns \<open>Z_OK\<close>, the input continues after the first mark (nothing of it is consumed if the mark is complete in the bit buffer), the
  output count is kept and the stream is ready for a new block with an empty window; otherwise it returns \<open>Z_DATA_ERROR\<close>, has consumed all input and remains in the search. With whole bytes in the bit buffer
  these are the unread bytes of the stream; with odd bits they are not, since the shift should go to the right: the witness has a stream where the mark is missed.
\<close>

theorem inflateSync_searches:
  assumes "\<not> inflateStateCheck (Some z)" and "state z = Some st" and "mode st \<noteq> SYNC" and "next_in z \<noteq> [] \<or> 8 \<le> bits st"
  defines "buf \<equiv> unload_bytes (bits st div 8) (push_bit (bits st mod 8) (hold st))"
  shows "\<exists>z' st'. state z' = Some st' \<and> total_out z' = total_out z \<and> bits st' = 0 \<and>
    (if \<exists>m. sync_at m (buf @ next_in z)
     then inflateSync (Some z) = (Z_OK, Some z') \<and> mode st' = TYPE_M \<and> whave st' = 0 \<and>
       (\<exists>n. sync_at n (buf @ next_in z) \<and> (\<nexists>m. m < n \<and> sync_at m (buf @ next_in z)) \<and>
          next_in z' = drop (n - length buf) (next_in z) \<and> total_in z' = total_in z + word_of_nat (n - length buf))
     else inflateSync (Some z) = (Z_DATA_ERROR, Some z') \<and> mode st' = SYNC \<and> next_in z' = [])"
proof -
  obtain n1 g1 where s1: "syncsearch 0 buf = (n1, g1)" by fastforce
  obtain n2 g2 where s2: "syncsearch g1 (next_in z) = (n2, g2)" by fastforce
  have s: "syncsearch 0 (buf @ next_in z) = (n1 + n2, g2)" using syncsearch_append [of 0 buf "next_in z"] s1 s2 by simp
  note F = syncsearch_first [of "buf @ next_in z", unfolded s prod.case] and F1 = syncsearch_first [of buf, unfolded s1 prod.case]
  have n2: "n2 = n1 + n2 - length buf"
  proof (cases "g1 = 4")
    case True
    then have "n2 = 0" using s2 by (cases "next_in z") (simp_all add: syncsearch_Cons)
    then show ?thesis using F1 by simp
  qed (use F1 in simp)
  define st1 where "st1 = st\<lparr>mode := SYNC, hold := drop_bit (8 * (bits st div 8)) (push_bit (bits st mod 8) (hold st)), bits := 0, have_lens := g2\<rparr>"
  define z1 where "z1 = z\<lparr>next_in := drop n2 (next_in z), total_in := total_in z + word_of_nat n2, state := Some st1\<rparr>"
  have eq: "inflateSync (Some z) = (if g2 \<noteq> 4 then (Z_DATA_ERROR, Some z1)
      else (Z_OK, map_option (\<lambda>z'. z'\<lparr>total_in := total_in z1, total_out := total_out z1, state := map_option (mode_update (\<lambda>_. TYPE_M)) (state z')\<rparr>) (snd (inflateReset (Some z1)))))"
    using assms(1-4) s2 s1 [unfolded buf_def] by (auto simp: inflateSync_def with_state_def Let_def z1_def st1_def)
  have ok1: "\<not> inflateStateCheck (Some z1)" "state z1 = Some st1" using assms(1,2) by (auto simp: inflateStateCheck_def z1_def st1_def)
  show ?thesis
  proof (cases "g2 = 4")
    case True
    then have m: "sync_at (n1 + n2) (buf @ next_in z)" "\<nexists>m. m < n1 + n2 \<and> sync_at m (buf @ next_in z)" using F by auto
    obtain z' st' where z': "inflateReset (Some z1) = (Z_OK, Some z')" "next_in z' = next_in z1" "state z' = Some st'" "bits st' = 0" "whave st' = 0" using inflateReset_frame [OF ok1] by blast
    let ?z = "z'\<lparr>total_in := total_in z1, total_out := total_out z1, state := Some (st'\<lparr>mode := TYPE_M\<rparr>)\<rparr>"
    have "inflateSync (Some z) = (Z_OK, Some ?z)" unfolding eq using True z' by simp
    moreover have "next_in ?z = drop (n1 + n2 - length buf) (next_in z)" "total_in ?z = total_in z + word_of_nat (n1 + n2 - length buf)" "total_out ?z = total_out z"
      using z'(2) n2 by (simp_all add: z1_def)
    ultimately show ?thesis using m z'(4,5) by (intro exI [of _ ?z] exI [of _ "st'\<lparr>mode := TYPE_M\<rparr>"]) auto
  next
    case False
    then have "\<nexists>m. sync_at m (buf @ next_in z)" "n1 + n2 = length (buf @ next_in z)" using F by auto
    then show ?thesis using n2 False unfolding eq by (intro exI [of _ z1] exI [of _ st1]) (auto simp: z1_def st1_def)
  qed
qed

text \<open>
  A stream that stopped in the middle of a byte, with one bit of it and the bytes 00 00 ff in the buffer and ff as the next input byte: the mark is missed.
\<close>

theorem inflateSync_searches_witness:
  "sync_at 4 (unload_bytes 3 (drop_bit 1 0x1fe0000) @ [0xff]) \<and>
   fst (inflateSync (Some (stream0 (state0\<lparr>mode := TYPE_M, bits := 25, hold := 0x1fe0000\<rparr>) [0xff] 0))) = Z_DATA_ERROR"
proof
  let ?st = "state0\<lparr>mode := TYPE_M, bits := 25, hold := 0x1fe0000\<rparr>"
  have u: "unload_bytes 3 h = [ucast h, ucast (drop_bit 8 h), ucast (drop_bit 8 (drop_bit 8 h))]" for h
    by (simp add: numeral_3_eq_3)
  show "sync_at 4 (unload_bytes 3 (drop_bit 1 0x1fe0000) @ [0xff])"
  proof -
    have "unload_bytes 3 (drop_bit 1 0x1fe0000) @ [0xff] = sync_mark" unfolding u by (simp add: sync_mark_def)
    moreover have "sync_at 4 sync_mark" by (simp add: sync_at_def sync_mark_def)
    ultimately show ?thesis by (simp only:)
  qed
  have b: "unload_bytes (bits ?st div 8) (push_bit (bits ?st mod 8) (hold ?st)) @ [0xff] = [0, 0, 252, 0xff]" by (simp add: u)
  have "\<not> sync_at m [0, 0, 252, 0xff]" for m
  proof
    assume m: "sync_at m [0, 0, 252, 0xff]"
    then have "m = 4" using suffix_length_le [of sync_mark "take m [0, 0, 252, 0xff]"] by (simp add: sync_at_def sync_mark_def)
    then show False using m by (simp add: sync_at_def sync_mark_def suffix_to_prefix)
  qed
  then show "fst (inflateSync (Some (stream0 ?st [0xff] 0))) = Z_DATA_ERROR"
    using inflateSync_searches [of "stream0 ?st [0xff] 0" ?st] b by (auto simp: inflateStateCheck_def stream0_def state0_def)
qed

section \<open>The extra field\<close>

text \<open>
  C26. The copy of the extra field of a gzip header into the application's buffer of \<open>extra_max\<close> bytes.
  While at most \<open>extra_max\<close> bytes of the field were consumed before, the copy stays in the buffer and
  stores exactly the bytes that fit; once more were consumed (the field is longer than the buffer and
  arrives in pieces), \<open>extra_max - len\<close> wraps around and the copy writes outside the buffer.
\<close>

theorem extra_copy_bounds:
  assumes "gz_extra h = Some buf" and "length buf = unat (gz_extra_max h)" and "copy \<le> ml" and "copy \<le> length src"
    and "ml \<le> unat (gz_extra_len h)" and "unat (gz_extra_len h) \<le> 65535" and "unat (gz_extra_max h) \<le> 65535"
  shows "let done_len = unat (gz_extra_len h) - ml; n = min copy (length buf - done_len)
    in extra_copy h ml src copy =
      (if done_len \<le> length buf then Some (h\<lparr>gz_extra := Some (take done_len buf @ take n src @ drop (done_len + n) buf)\<rparr>)
       else None)"
proof -
  define d where "d = unat (gz_extra_len h) - ml"
  have e: "gz_extra_len h - word_of_nat ml = word_of_nat d"
    using assms(5) by (simp add: d_def of_nat_diff)
  have b: "d + copy \<le> 65535" "unat (word_of_nat d :: u32) = d" "unat (word_of_nat copy :: u32) = copy"
  proof -
    show "d + copy \<le> 65535" using assms(3,5,6) by (simp add: d_def)
    then have "d mod 2 ^ 32 = d" "copy mod 2 ^ 32 = copy" by simp_all
    then show "unat (word_of_nat d :: u32) = d" "unat (word_of_nat copy :: u32) = copy" by (simp_all add: unat_of_nat)
  qed
  have c: "word_of_nat d + word_of_nat copy > gz_extra_max h \<longleftrightarrow> d + copy > length buf"
  proof -
    have "unat (word_of_nat d + word_of_nat copy :: u32) = d + copy"
      using b(1) unat_of_nat [of "d + copy", where 'a=32] by simp
    then show ?thesis by (simp add: word_less_nat_alt assms(2))
  qed
  have m: "unat (gz_extra_max h - word_of_nat d) = (if d \<le> length buf then length buf - d else 2 ^ 32 + length buf - d)"
    using b assms(2,7) by (auto simp: unat_sub_if' not_le)
  show ?thesis
  proof (cases "d \<le> length buf")
    case True
    then show ?thesis
      using assms(1,4) b c m unfolding extra_copy_def Let_def e d_def [symmetric]
      by (auto simp: zmemcpy_at min_def)
  next
    case False
    then have "d + unat (gz_extra_max h - word_of_nat d) > length buf" "d + copy > length buf" using m b by auto
    then show ?thesis
      using False assms(1) b(2) c unfolding extra_copy_def Let_def e d_def [symmetric]
      by (simp add: zmemcpy_def)
  qed
qed

definition header0 :: gz_header where
  "header0 = \<lparr>gz_text = 0, gz_time = 0, gz_xflags = 0, gz_os = 0, gz_extra = Some [0, 0], gz_extra_len = 5, gz_extra_max = 2,
     gz_name = None, gz_name_max = 0, gz_comment = None, gz_comm_max = 0, gz_hcrc = 0, gz_done = 0\<rparr>"

theorem extra_copy_bounds_witness:
  "extra_copy header0 5 [1, 2, 3] 3 = Some (header0\<lparr>gz_extra := Some [1, 2]\<rparr>) \<and> extra_copy header0 2 [4, 5] 2 = None"
  using extra_copy_bounds [of header0 "[0, 0]" 3 5 "[1, 2, 3]"] extra_copy_bounds [of header0 "[0, 0]" 2 2 "[4, 5]"]
  by (simp add: header0_def)

end
