(* ===== verification/SliceStatus.thy ===== *)
theory SliceStatus
  imports Coding
begin

text \<open>
  include/leveldb/slice.h, include/leveldb/status.h and util/status.cc. A slice is the byte list it
  refers to. A status is its \<open>state_\<close>: \<^term>\<open>None\<close> for success, otherwise the heap array with the length
  of the message, the code and the message; reads past the array have the value \<^term>\<open>None\<close>.
\<close>

section \<open>Slices\<close>

text \<open>\<open>memcmp\<close> of two buffers of the same length; only the sign of the result is specified by C.\<close>

fun memcmp :: "byte list \<Rightarrow> byte list \<Rightarrow> int" where
  "memcmp (x # xs) (y # ys) = (if x < y then -1 else if y < x then 1 else memcmp xs ys)"
| "memcmp _ _ = 0"

definition slice_compare :: "slice \<Rightarrow> slice \<Rightarrow> int" where
  "slice_compare a b =
     (let min_len = (if length a < length b then length a else length b);
          r = memcmp (take min_len a) (take min_len b)
      in if r = 0 then (if length a < length b then -1 else if length a > length b then 1 else r) else r)"

definition slice_eq :: "slice \<Rightarrow> slice \<Rightarrow> bool" where
  "slice_eq x y \<longleftrightarrow> length x = length y \<and> memcmp x y = 0"

definition starts_with :: "slice \<Rightarrow> slice \<Rightarrow> bool" where
  "starts_with s x \<longleftrightarrow> length s \<ge> length x \<and> memcmp (take (length x) s) x = 0"

text \<open>\<open>remove_prefix(n)\<close>, with its assertion.\<close>

definition remove_prefix :: "nat \<Rightarrow> slice \<Rightarrow> slice option" where
  "remove_prefix n s = (if n \<le> length s then Some (drop n s) else None)"

section \<open>Status\<close>

datatype status_code = kOk | kNotFound | kCorruption | kNotSupported | kInvalidArgument | kIOError

fun code_byte :: "status_code \<Rightarrow> byte" where
  "code_byte kOk = 0" | "code_byte kNotFound = 1" | "code_byte kCorruption = 2"
| "code_byte kNotSupported = 3" | "code_byte kInvalidArgument = 4" | "code_byte kIOError = 5"

type_synonym status = "byte list option"

definition OK :: status where "OK = None"

text \<open>
  \<open>Status(code, msg, msg2)\<close>. All lengths are 32-bit numbers, also the size of the array. The first
  definition is what the constructor writes; the second has its assertion and has no result either if the
  message does not fit into the array.
\<close>

definition status_bytes :: "status_code \<Rightarrow> slice \<Rightarrow> slice \<Rightarrow> byte list" where
  "status_bytes code msg1 msg2 =
     (let len1 = (word_of_nat (length msg1) :: u32); len2 = (word_of_nat (length msg2) :: u32);
          size = len1 + (if len2 \<noteq> 0 then 2 + len2 else 0)
      in bytes_of_u32 size @ [code_byte code] @ take (unat len1) msg1 @
         (if len2 \<noteq> 0 then [0x3a, 0x20] @ take (unat len2) msg2 else []))"

definition mk_status :: "status_code \<Rightarrow> slice \<Rightarrow> slice \<Rightarrow> status option" where
  "mk_status code msg1 msg2 =
     (let len1 = (word_of_nat (length msg1) :: u32); len2 = (word_of_nat (length msg2) :: u32);
          size = len1 + (if len2 \<noteq> 0 then 2 + len2 else 0);
          result = status_bytes code msg1 msg2
      in if code = kOk then None
         else if unat (size + 5) < length result then None
         else Some (Some result))"

text \<open>
  The functions that make statuses of each code. Their messages in the other components are names and keys, far below
  the size where the array would be too small; there the status is that of the constructor.
\<close>

definition NotFound :: "slice \<Rightarrow> slice \<Rightarrow> status" where "NotFound msg1 msg2 = Some (status_bytes kNotFound msg1 msg2)"
definition Corruption :: "slice \<Rightarrow> slice \<Rightarrow> status" where "Corruption msg1 msg2 = Some (status_bytes kCorruption msg1 msg2)"
definition NotSupported :: "slice \<Rightarrow> slice \<Rightarrow> status" where "NotSupported msg1 msg2 = Some (status_bytes kNotSupported msg1 msg2)"
definition InvalidArgument :: "slice \<Rightarrow> slice \<Rightarrow> status" where "InvalidArgument msg1 msg2 = Some (status_bytes kInvalidArgument msg1 msg2)"
definition IOError :: "slice \<Rightarrow> slice \<Rightarrow> status" where "IOError msg1 msg2 = Some (status_bytes kIOError msg1 msg2)"

definition status_ok :: "status \<Rightarrow> bool" where "status_ok s \<longleftrightarrow> s = None"

text \<open>\<open>code()\<close>: the enumeration value is the byte read from the array.\<close>

definition status_code_of :: "status \<Rightarrow> byte" where
  "status_code_of s = (case s of None \<Rightarrow> code_byte kOk | Some st \<Rightarrow> st ! 4)"

definition IsNotFound :: "status \<Rightarrow> bool" where "IsNotFound s \<longleftrightarrow> status_code_of s = code_byte kNotFound"
definition IsCorruption :: "status \<Rightarrow> bool" where "IsCorruption s \<longleftrightarrow> status_code_of s = code_byte kCorruption"
definition IsIOError :: "status \<Rightarrow> bool" where "IsIOError s \<longleftrightarrow> status_code_of s = code_byte kIOError"
definition IsNotSupportedError :: "status \<Rightarrow> bool" where "IsNotSupportedError s \<longleftrightarrow> status_code_of s = code_byte kNotSupported"
definition IsInvalidArgument :: "status \<Rightarrow> bool" where "IsInvalidArgument s \<longleftrightarrow> status_code_of s = code_byte kInvalidArgument"

text \<open>
  \<open>CopyState(state)\<close>: the first four bytes give the number of bytes to copy, a 32-bit number. The argument is the
  pointer, so \<^term>\<open>None\<close> is a null pointer; the outer \<^term>\<open>None\<close> is a read outside the array.
\<close>

definition CopyState :: "byte list option \<Rightarrow> byte list option" where
  "CopyState state =
     Option.bind state (\<lambda>st.
       if length st < 4 then None
       else let size = unat ((word_of_bytes (take 4 st) :: u32) + 5)
            in if length st < size then None else Some (take size st))"

text \<open>The copy constructor, and the assignment operator when the arrays differ.\<close>

definition copy_status :: "status \<Rightarrow> status option" where
  "copy_status s = (case s of None \<Rightarrow> Some None | Some st \<Rightarrow> map_option Some (CopyState (Some st)))"

definition GetStateCopy :: "status \<Rightarrow> byte list option" where
  "GetStateCopy s = CopyState s"

definition ascii :: "string \<Rightarrow> byte list" where
  "ascii s = map (\<lambda>c. word_of_nat (of_char c)) s"

definition code_name :: "byte \<Rightarrow> string" where
  "code_name c =
     (if c = code_byte kOk then ''OK'' else if c = code_byte kNotFound then ''NotFound: ''
      else if c = code_byte kCorruption then ''Corruption: '' else if c = code_byte kNotSupported then ''Not implemented: ''
      else if c = code_byte kInvalidArgument then ''Invalid argument: '' else if c = code_byte kIOError then ''IO error: ''
      else ''Unknown code'')"

text \<open>\<open>ToString()\<close>; the number after ``Unknown code'' is left out, since no constructor makes such a status.\<close>

definition status_string :: "status \<Rightarrow> byte list option" where
  "status_string s =
     (case s of
        None \<Rightarrow> Some (ascii ''OK'')
      | Some st \<Rightarrow>
          let len = unat (word_of_bytes (take 4 st) :: u32)
          in if length st < len + 5 then None
             else Some (ascii (code_name (st ! 4)) @ take len (drop 5 st)))"

section \<open>The order of slices\<close>

lemma memcmp_0: "length a = length b \<Longrightarrow> memcmp a b = 0 \<longleftrightarrow> a = b"
  by (induction a b rule: memcmp.induct) auto

lemma memcmp_neg: "memcmp b a = - memcmp a b"
  by (induction a b rule: memcmp.induct) (auto simp: not_less_iff_gr_or_eq)

lemma status_ok_OK [simp]: "status_ok OK"
  by (simp add: status_ok_def OK_def)

lemma slice_compare_Cons [simp]:
  "slice_compare (x # xs) (y # ys) = (if x < y then -1 else if y < x then 1 else slice_compare xs ys)"
  by (simp add: slice_compare_def Let_def)

lemma slice_compare_Nil [simp]:
  "slice_compare [] ys = (if ys = [] then 0 else -1)" "slice_compare xs [] = (if xs = [] then 0 else 1)"
  by (auto simp: slice_compare_def Let_def)

lemma slice_compare_less: "slice_compare a b < 0 \<longleftrightarrow> ord_class.lexordp a b"
  by (induction a b rule: memcmp.induct) (auto simp: not_less_iff_gr_or_eq)

lemma slice_compare_antisym: "slice_compare b a = - slice_compare a b"
  by (induction a b rule: memcmp.induct) (auto simp: not_less_iff_gr_or_eq)

lemma slice_compare_0 [simp]: "slice_compare a b = 0 \<longleftrightarrow> a = b"
  by (induction a b rule: memcmp.induct) (auto simp: not_less_iff_gr_or_eq)

lemma slice_compare_refl: "slice_compare a a \<le> 0"
  using slice_compare_0 [of a a] by (simp del: slice_compare_0)

lemma slice_compare_trans: "slice_compare a b \<le> 0 \<Longrightarrow> slice_compare b c \<le> 0 \<Longrightarrow> slice_compare a c \<le> 0"
proof (induction a b arbitrary: c rule: memcmp.induct)
  case (1 x xs y ys)
  then show ?case by (cases c) (auto split: if_splits dest: order_less_trans)
qed (auto split: if_splits)

section \<open>Statuses hold what they were made of\<close>

definition message :: "slice \<Rightarrow> slice \<Rightarrow> byte list" where
  "message msg1 msg2 = msg1 @ (if msg2 = [] then [] else [0x3a, 0x20] @ msg2)"

lemma status_bytes_eq:
  assumes "length msg1 + length msg2 + 7 < 2 ^ 32"
  shows "status_bytes c msg1 msg2 = bytes_of_u32 (word_of_nat (length (message msg1 msg2))) @ [code_byte c] @ message msg1 msg2"
    and "unat (word_of_nat (length (message msg1 msg2)) :: u32) = length (message msg1 msg2)"
    and "unat (word_of_nat (length (message msg1 msg2)) + 5 :: u32) = length (message msg1 msg2) + 5"
    and "mk_status c msg1 msg2 = (if c = kOk then None else Some (Some (status_bytes c msg1 msg2)))"
proof -
  have l: "unat (word_of_nat (length msg1) :: u32) = length msg1" "unat (word_of_nat (length msg2) :: u32) = length msg2"
    using assms by (simp_all add: unat_of_nat)
  then have z: "(word_of_nat (length msg2) :: u32) = 0 \<longleftrightarrow> msg2 = []" by (metis length_0_conv unat_eq_zero)
  show b: "status_bytes c msg1 msg2 = bytes_of_u32 (word_of_nat (length (message msg1 msg2))) @ [code_byte c] @ message msg1 msg2"
    by (simp add: status_bytes_def message_def Let_def z l ac_simps)
  have "length (message msg1 msg2) + 5 < 2 ^ 32" using assms by (simp add: message_def)
  then show u: "unat (word_of_nat (length (message msg1 msg2)) :: u32) = length (message msg1 msg2)"
    "unat (word_of_nat (length (message msg1 msg2)) + 5 :: u32) = length (message msg1 msg2) + 5" by (simp_all add: unat_of_nat unat_word_ariths(1))
  have "word_of_nat (length msg1) + (if (word_of_nat (length msg2) :: u32) \<noteq> 0 then 2 + word_of_nat (length msg2) else 0) = (word_of_nat (length (message msg1 msg2)) :: u32)"
    by (simp add: message_def z)
  then show "mk_status c msg1 msg2 = (if c = kOk then None else Some (Some (status_bytes c msg1 msg2)))" using u(2) b by (simp add: mk_status_def Let_def)
qed

text \<open>
  C30. A status made from a code other than ok and messages that fit into 32 bits with their header is not ok, has the code, prints the name of the code
  followed by the message (the two messages joined by a colon and a blank), and survives copying
  unchanged, within the bounds of its array; it is what the function of its code gives. The ok status copies to itself, cannot be made by the constructor, and
  \<open>GetStateCopy\<close> of it follows a null pointer.
\<close>

theorem status_roundtrip:
  assumes "length msg1 + length msg2 + 7 < 2 ^ 32" and "c \<noteq> kOk"
  shows "\<exists>s. mk_status c msg1 msg2 = Some s \<and> \<not> status_ok s \<and> status_code_of s = code_byte c \<and>
    status_string s = Some (ascii (code_name (code_byte c)) @ message msg1 msg2) \<and>
    copy_status s = Some s \<and> GetStateCopy s = s \<and>
    (c = kNotFound \<longrightarrow> s = NotFound msg1 msg2) \<and> (c = kCorruption \<longrightarrow> s = Corruption msg1 msg2) \<and> (c = kNotSupported \<longrightarrow> s = NotSupported msg1 msg2) \<and>
    (c = kInvalidArgument \<longrightarrow> s = InvalidArgument msg1 msg2) \<and> (c = kIOError \<longrightarrow> s = IOError msg1 msg2) \<and>
    copy_status OK = Some OK \<and> status_string OK = Some (ascii ''OK'') \<and> mk_status kOk msg1 msg2 = None \<and> GetStateCopy OK = None"
  using status_bytes_eq(2,3) [OF assms(1)] assms(2)
  by (simp add: status_bytes_eq(1,4) [OF assms(1)] status_ok_def status_code_of_def status_string_def copy_status_def GetStateCopy_def CopyState_def Let_def
      nth_append u32_bytes_of OK_def NotFound_def Corruption_def NotSupported_def InvalidArgument_def IOError_def)

theorem status_roundtrip_witness:
  "\<exists>s. mk_status kIOError [0x61] [0x62, 0x63] = Some s \<and> status_string s = Some (ascii ''IO error: a: bc'') \<and> copy_status s = Some s"
  using status_roundtrip [of "[0x61]" "[0x62, 0x63]" kIOError]
  by (auto simp: ascii_def code_name_def message_def)

text \<open>A message that is too long for the 32-bit size of the array: the array has four bytes.\<close>

lemma status_too_long:
  assumes "length msg1 = 2 ^ 32 - 1" and "c \<noteq> kOk"
  shows "mk_status c msg1 [] = None"
proof -
  have "(word_of_nat (length msg1) :: u32) = - 1" using assms(1) by simp
  then show ?thesis using assms by (simp add: mk_status_def status_bytes_def Let_def unsigned_minus_1_eq_mask mask_eq_exp_minus_1)
qed

end
