(* ===== verification/LogFormat.thy ===== *)
theory LogFormat
  imports Crc32c SliceStatus
begin

text \<open>
  db/log_format.h, db/log_writer.cc, db/log_reader.cc and their headers: the write-ahead log. A file is a
  byte list with the outcomes of the coming operations, so that every behaviour of the file system the
  code handles is a value of the model: a failing \<open>Append\<close> may leave any prefix of its data behind, a failing
  \<open>Read\<close> may return any prefix of what it should. An empty list of outcomes means that all goes well.
\<close>

section \<open>Format\<close>

definition kZeroType :: u32 where "kZeroType = 0"
definition kFullType :: u32 where "kFullType = 1"
definition kFirstType :: u32 where "kFirstType = 2"
definition kMiddleType :: u32 where "kMiddleType = 3"
definition kLastType :: u32 where "kLastType = 4"
definition kMaxRecordType :: nat where "kMaxRecordType = 4"
definition kBlockSize :: nat where "kBlockSize = 32768"
definition kHeaderSize :: nat where "kHeaderSize = 4 + 2 + 1"
definition kEof :: u32 where "kEof = 5"
definition kBadRecord :: u32 where "kBadRecord = 6"

lemmas log_consts = kZeroType_def kFullType_def kFirstType_def kMiddleType_def kLastType_def kMaxRecordType_def
  kBlockSize_def kHeaderSize_def kEof_def kBadRecord_def

text \<open>
  The build for Windows: little-endian, without the CRC instructions. The address of a buffer does
  not matter for its checksum.
\<close>

definition this_machine :: machine where
  "this_machine = \<lparr>m_le = True, m_sse = False, m_x64 = True, m_have = False, m_mm = soft_mm, m_taddr = 0\<rparr>"

definition crc_extend :: "u32 \<Rightarrow> byte list \<Rightarrow> u32" where
  "crc_extend crc buf = Extend this_machine 0 crc buf"

definition crc_value :: "byte list \<Rightarrow> u32" where
  "crc_value buf = Value this_machine 0 buf"

lemma crc_extend_eq: "crc_extend crc buf = crc32c crc buf" and crc_value_eq: "crc_value buf = crc32c 0 buf"
proof -
  show "crc_extend crc buf = crc32c crc buf" for crc buf
    using Extend_crc32c [of this_machine] sse42_soft by (simp add: crc_extend_def this_machine_def)
  then show "crc_value buf = crc32c 0 buf" by (simp add: crc_value_def Value_def crc_extend_def)
qed

section \<open>Writable files\<close>

record wfile =
  w_data :: "byte list"
  w_faults :: "(status \<times> nat) list"

definition Append :: "slice \<Rightarrow> wfile \<Rightarrow> status \<times> wfile" where
  "Append d f =
     (case w_faults f of
        [] \<Rightarrow> (OK, f\<lparr>w_data := w_data f @ d\<rparr>)
      | (st, n) # fs \<Rightarrow>
          (st, f\<lparr>w_data := w_data f @ (if status_ok st then d else take n d), w_faults := fs\<rparr>))"

definition Flush :: "wfile \<Rightarrow> status \<times> wfile" where
  "Flush f = (case w_faults f of [] \<Rightarrow> (OK, f) | (st, _) # fs \<Rightarrow> (st, f\<lparr>w_faults := fs\<rparr>))"

section \<open>Writer\<close>

record writer =
  dest :: wfile
  block_offset :: nat
  type_crc :: "u32 list"

definition InitTypeCrc :: "u32 list" where
  "InitTypeCrc = map (\<lambda>i. crc_value [word_of_nat i]) [0..<kMaxRecordType + 1]"

definition mk_writer :: "wfile \<Rightarrow> writer" where
  "mk_writer f = \<lparr>dest = f, block_offset = 0, type_crc = InitTypeCrc\<rparr>"

definition mk_writer_at :: "wfile \<Rightarrow> nat \<Rightarrow> writer" where
  "mk_writer_at f dest_length = \<lparr>dest = f, block_offset = dest_length mod kBlockSize, type_crc = InitTypeCrc\<rparr>"

definition EmitPhysicalRecord :: "u32 \<Rightarrow> slice \<Rightarrow> writer \<Rightarrow> status \<times> writer" where
  "EmitPhysicalRecord t d w =
     (let n = length d;
          crc = crc_extend (type_crc w ! unat t) d;
          crc = Mask crc;
          buf = EncodeFixed32 True crc @ [word_of_nat n AND 0xff, word_of_nat (n div 256), ucast t];
          (s, f) = Append buf (dest w);
          (s, f) = (if status_ok s then
                      let (s, f) = Append d f in if status_ok s then Flush f else (s, f)
                    else (s, f))
      in (s, w\<lparr>dest := f, block_offset := block_offset w + kHeaderSize + n\<rparr>))"

text \<open>The start of the loop body: switch to a new block. The status of the trailer is not looked at.\<close>

definition switch_block :: "writer \<Rightarrow> writer" where
  "switch_block w =
     (let leftover = kBlockSize - block_offset w
      in if leftover < kHeaderSize then
           (if leftover > 0 then w\<lparr>dest := snd (Append (replicate leftover 0) (dest w)), block_offset := 0\<rparr>
            else w\<lparr>block_offset := 0\<rparr>)
         else w)"

definition frag_type :: "bool \<Rightarrow> bool \<Rightarrow> u32" where
  "frag_type at_begin at_end =
     (if at_begin \<and> at_end then kFullType else if at_begin then kFirstType
      else if at_end then kLastType else kMiddleType)"

lemma block_offset_switch: "block_offset (switch_block w) \<le> kBlockSize - kHeaderSize"
  by (auto simp: switch_block_def Let_def log_consts)

lemma block_offset_emit: "block_offset (snd (EmitPhysicalRecord t d w)) = block_offset w + kHeaderSize + length d"
  by (simp add: EmitPhysicalRecord_def Let_def split: prod.splits)

text \<open>The \<open>do-while\<close> loop of \<open>AddRecord\<close>.\<close>

function add_loop :: "bool \<Rightarrow> slice \<Rightarrow> writer \<Rightarrow> status \<times> writer" where
  "add_loop at_begin d w =
     (let w = switch_block w;
          avail = kBlockSize - block_offset w - kHeaderSize;
          fragment_length = (if length d < avail then length d else avail);
          (s, w) = EmitPhysicalRecord (frag_type at_begin (length d = fragment_length)) (take fragment_length d) w;
          d = drop fragment_length d
      in if status_ok s \<and> length d > 0 then add_loop False d w else (s, w))"
  by pat_completeness auto
termination
proof (relation "measures [\<lambda>(_, d, _). length d, \<lambda>(_, _, w). kBlockSize - block_offset w]", goal_cases)
  case (2 at_begin d w w1 avail n x s w2 d')
  have b: "block_offset w1 \<le> kBlockSize - kHeaderSize" "block_offset w1 = 0 \<or> block_offset w1 = block_offset w"
    using block_offset_switch [of w] 2(1) by (auto simp: switch_block_def Let_def)
  have w2: "block_offset w2 = block_offset w1 + kHeaderSize + length (take n d)"
    using block_offset_emit 2(4,5) by (metis snd_conv)
  show ?case
  proof (cases "avail = 0")
    case True
    then have "n = 0" using 2(3) by simp
    moreover have "block_offset w1 + kHeaderSize = kBlockSize" using True 2(2) b(1) by (simp add: log_consts)
    ultimately show ?thesis using b(2) w2 2(6,7) by (auto simp: log_consts)
  next
    case False
    then show ?thesis using 2(3,6,7) by auto
  qed
qed simp

declare add_loop.simps [simp del]

definition AddRecord :: "slice \<Rightarrow> writer \<Rightarrow> status \<times> writer" where
  "AddRecord d w = add_loop True d w"

section \<open>Sequential files\<close>

record rfile =
  r_data :: "byte list"
  r_faults :: "(status \<times> nat) list"

text \<open>\<open>Read(n, result, scratch)\<close>: with an ok status, fewer than \<open>n\<close> bytes only at the end of the file.\<close>

definition Read :: "nat \<Rightarrow> rfile \<Rightarrow> status \<times> slice \<times> rfile" where
  "Read n f =
     (case r_faults f of
        [] \<Rightarrow> (OK, take n (r_data f), f\<lparr>r_data := drop n (r_data f)\<rparr>)
      | (st, k) # fs \<Rightarrow>
          let n = (if status_ok st then n else min k n)
          in (st, take n (r_data f), f\<lparr>r_data := drop n (r_data f), r_faults := fs\<rparr>))"

definition Skip :: "u64 \<Rightarrow> rfile \<Rightarrow> status \<times> rfile" where
  "Skip n f =
     (case r_faults f of
        [] \<Rightarrow> (OK, f\<lparr>r_data := drop (unat n) (r_data f)\<rparr>)
      | (st, _) # fs \<Rightarrow>
          (st, f\<lparr>r_data := (if status_ok st then drop (unat n) (r_data f) else r_data f), r_faults := fs\<rparr>))"

section \<open>Reader\<close>

text \<open>\<open>reports\<close> are the calls of \<open>Reporter::Corruption\<close>, last first.\<close>

record reader =
  rfile :: rfile
  has_reporter :: bool
  checksum :: bool
  buffer :: slice
  eof :: bool
  last_record_offset :: u64
  end_of_buffer_offset :: u64
  initial_offset :: u64
  resyncing :: bool
  reports :: "(u64 \<times> status) list"

definition mk_reader :: "rfile \<Rightarrow> bool \<Rightarrow> bool \<Rightarrow> u64 \<Rightarrow> reader" where
  "mk_reader f reporter chk off =
     \<lparr>rfile = f, has_reporter = reporter, checksum = chk, buffer = [], eof = False, last_record_offset = 0,
      end_of_buffer_offset = 0, initial_offset = off, resyncing = off > 0, reports = []\<rparr>"

definition ReportDrop :: "u64 \<Rightarrow> status \<Rightarrow> reader \<Rightarrow> reader" where
  "ReportDrop bytes reason r =
     (if has_reporter r \<and> end_of_buffer_offset r - word_of_nat (length (buffer r)) - bytes \<ge> initial_offset r
      then r\<lparr>reports := (bytes, reason) # reports r\<rparr> else r)"

definition ReportCorruption :: "u64 \<Rightarrow> string \<Rightarrow> reader \<Rightarrow> reader" where
  "ReportCorruption bytes reason r = ReportDrop bytes (Corruption (ascii reason) []) r"

definition SkipToInitialBlock :: "reader \<Rightarrow> bool \<times> reader" where
  "SkipToInitialBlock r =
     (let offset_in_block = initial_offset r mod word_of_nat kBlockSize;
          block_start_location = initial_offset r - offset_in_block;
          block_start_location =
            (if offset_in_block > word_of_nat (kBlockSize - 6) then block_start_location + word_of_nat kBlockSize
             else block_start_location);
          r = r\<lparr>end_of_buffer_offset := block_start_location\<rparr>
      in if block_start_location > 0 then
           let (skip_status, f) = Skip block_start_location (rfile r); r = r\<lparr>rfile := f\<rparr>
           in if \<not> status_ok skip_status
              then (False, ReportDrop (scast (ucast block_start_location :: u32)) skip_status r)
              else (True, r)
         else (True, r))"

text \<open>
  The header of a physical record. \<open>char\<close> is signed, so the type is sign-extended.
\<close>

definition header_length :: "slice \<Rightarrow> nat" where
  "header_length h = (let a = (ucast (h ! 4) :: u32) AND 0xff; b = (ucast (h ! 5) :: u32) AND 0xff in unat (a OR push_bit 8 b))"

definition header_type :: "slice \<Rightarrow> u32" where
  "header_type h = scast (h ! 6)"

text \<open>The part of \<open>ReadPhysicalRecord\<close> after the buffer has a header.\<close>

definition parse_physical :: "reader \<Rightarrow> u32 \<times> slice \<times> reader" where
  "parse_physical r =
     (let header = buffer r; type = header_type header; len = header_length header
      in if kHeaderSize + len > length (buffer r) then
           let drop_size = length (buffer r); r = r\<lparr>buffer := []\<rparr>
           in if \<not> eof r then (kBadRecord, [], ReportCorruption (word_of_nat drop_size) ''bad record length'' r)
              else (kEof, [], r)
         else if type = kZeroType \<and> len = 0 then (kBadRecord, [], r\<lparr>buffer := []\<rparr>)
         else if checksum r \<and> crc_value (take (1 + len) (drop 6 header)) \<noteq> Unmask (DecodeFixed32 True header) then
           let drop_size = length (buffer r); r = r\<lparr>buffer := []\<rparr>
           in (kBadRecord, [], ReportCorruption (word_of_nat drop_size) ''checksum mismatch'' r)
         else
           let r = r\<lparr>buffer := drop (kHeaderSize + len) (buffer r)\<rparr>
           in if end_of_buffer_offset r - word_of_nat (length (buffer r)) - word_of_nat kHeaderSize - word_of_nat len < initial_offset r
              then (kBadRecord, [], r)
              else (type, take len (drop kHeaderSize header), r))"

text \<open>The \<open>while\<close> loop: read blocks until the buffer has a header or the file ends.\<close>

function ReadPhysicalRecord :: "reader \<Rightarrow> u32 \<times> slice \<times> reader" where
  "ReadPhysicalRecord r =
     (if length (buffer r) < kHeaderSize then
        if \<not> eof r then
          let (st, buf, f) = Read kBlockSize (rfile r);
              r = r\<lparr>rfile := f, buffer := buf, end_of_buffer_offset := end_of_buffer_offset r + word_of_nat (length buf)\<rparr>
          in if \<not> status_ok st then
               let r = ReportDrop (word_of_nat kBlockSize) st (r\<lparr>buffer := []\<rparr>)
               in (kEof, [], r\<lparr>eof := True\<rparr>)
             else ReadPhysicalRecord (if length (buffer r) < kBlockSize then r\<lparr>eof := True\<rparr> else r)
        else (kEof, [], r\<lparr>buffer := []\<rparr>)
      else parse_physical r)"
  by pat_completeness auto
termination
  by (relation "measure (\<lambda>r. if length (buffer r) < kHeaderSize then (if eof r then 1 else 2) else 0)")
    (auto simp: log_consts)

declare ReadPhysicalRecord.simps [simp del]

text \<open>\<open>snprintf(buf, sizeof(buf), "unknown record type %u", record_type)\<close>.\<close>

fun decimal :: "nat \<Rightarrow> string" where
  "decimal n = (if n < 10 then [char_of (48 + n)] else decimal (n div 10) @ [char_of (48 + n mod 10)])"

declare decimal.simps [simp del]

definition unknown_type :: "u32 \<Rightarrow> string" where
  "unknown_type t = ''unknown record type '' @ decimal (unat t)"


text \<open>
  Every call of \<open>ReadPhysicalRecord\<close> that does not report the end consumes a part of the unread bytes, so
  that the loop of \<open>ReadRecord\<close> ends.
\<close>

definition unread :: "reader \<Rightarrow> nat" where
  "unread r = length (buffer r) + length (r_data (rfile r))"

lemma report_fields [simp]:
  "buffer (ReportDrop n st r) = buffer r" "rfile (ReportDrop n st r) = rfile r" "eof (ReportDrop n st r) = eof r"
  "buffer (ReportCorruption n m r) = buffer r" "rfile (ReportCorruption n m r) = rfile r" "eof (ReportCorruption n m r) = eof r"
  by (simp_all add: ReportDrop_def ReportCorruption_def)

lemma parse_physical_less:
  assumes "parse_physical r = (t, d, r')" and "kHeaderSize \<le> length (buffer r)"
  shows "unread r' < unread r"
  using assms by (auto simp: parse_physical_def Let_def unread_def log_consts split: if_splits)

lemma ReadPhysicalRecord_less:
  "ReadPhysicalRecord r = (t, d, r') \<Longrightarrow> t \<noteq> kEof \<Longrightarrow> unread r' < unread r"
proof (induction r rule: ReadPhysicalRecord.induct)
  case (1 r)
  obtain st buf f where rd: "Read kBlockSize (rfile r) = (st, buf, f)" by (metis prod_cases3)
  show ?case
  proof (cases "length (buffer r) < kHeaderSize \<and> \<not> eof r \<and> status_ok st")
    case True
    let ?r = "r\<lparr>rfile := f, buffer := buf, end_of_buffer_offset := end_of_buffer_offset r + word_of_nat (length buf)\<rparr>"
    let ?s = "if length buf < kBlockSize then ?r\<lparr>eof := True\<rparr> else ?r"
    have u: "unread ?s \<le> unread r"
      using rd by (auto simp: unread_def Read_def Let_def split: list.splits if_splits)
    have "ReadPhysicalRecord ?s = (t, d, r')"
      using 1(2) True rd by (subst (asm) ReadPhysicalRecord.simps) (simp add: Let_def)
    then have "unread r' < unread ?s"
      using 1(1) [of "(st, buf, f)" st "(buf, f)" buf f ?r] True rd 1(3) by simp
    then show ?thesis using u by linarith
  next
    case False
    then show ?thesis
      using 1(2,3) rd parse_physical_less [of r t d r']
      by (subst (asm) ReadPhysicalRecord.simps) (auto simp: Let_def split: if_splits)
  qed
qed

text \<open>The loop of \<open>ReadRecord\<close>; the arguments are \<open>in_fragmented_record\<close>, \<open>prospective_record_offset\<close> and \<open>*scratch\<close>.\<close>

function read_loop :: "bool \<Rightarrow> u64 \<Rightarrow> slice \<Rightarrow> reader \<Rightarrow> slice option \<times> reader" where
  "read_loop frag off scratch r =
     (let (record_type, fragment, r1) = ReadPhysicalRecord r;
          physical_record_offset = end_of_buffer_offset r1 - word_of_nat (length (buffer r1)) -
            word_of_nat kHeaderSize - word_of_nat (length fragment)
      in if record_type = kEof then
           (None, if resyncing r1 then r1\<lparr>resyncing := False\<rparr> else r1)
         else if resyncing r1 \<and> record_type = kMiddleType then read_loop frag off scratch r1
         else if resyncing r1 \<and> record_type = kLastType then read_loop frag off scratch (r1\<lparr>resyncing := False\<rparr>)
         else
           let r2 = r1\<lparr>resyncing := False\<rparr>
           in if record_type = kFullType then
                let r3 = (if frag \<and> scratch \<noteq> []
                          then ReportCorruption (word_of_nat (length scratch)) ''partial record without end(1)'' r2 else r2)
                in (Some fragment, r3\<lparr>last_record_offset := physical_record_offset\<rparr>)
              else if record_type = kFirstType then
                let r3 = (if frag \<and> scratch \<noteq> []
                          then ReportCorruption (word_of_nat (length scratch)) ''partial record without end(2)'' r2 else r2)
                in read_loop True physical_record_offset fragment r3
              else if record_type = kMiddleType then
                if \<not> frag then
                  read_loop frag off scratch (ReportCorruption (word_of_nat (length fragment)) ''missing start of fragmented record(1)'' r2)
                else read_loop frag off (scratch @ fragment) r2
              else if record_type = kLastType then
                if \<not> frag then
                  read_loop frag off scratch (ReportCorruption (word_of_nat (length fragment)) ''missing start of fragmented record(2)'' r2)
                else (Some (scratch @ fragment), r2\<lparr>last_record_offset := off\<rparr>)
              else if record_type = kBadRecord then
                if frag then
                  read_loop False off [] (ReportCorruption (word_of_nat (length scratch)) ''error in middle of record'' r2)
                else read_loop frag off scratch r2
              else
                read_loop False off []
                  (ReportCorruption (word_of_nat (length fragment + (if frag then length scratch else 0)))
                     (unknown_type record_type) r2))"
  by pat_completeness auto
termination
proof (relation "measure (\<lambda>(_, _, _, r). unread r)", goal_cases)
qed (auto dest!: ReadPhysicalRecord_less [OF sym] simp: unread_def)

declare read_loop.simps [simp del]

text \<open>\<open>ReadRecord\<close>: \<^term>\<open>None\<close> when the code returns \<open>false\<close>.\<close>

definition ReadRecord :: "reader \<Rightarrow> slice option \<times> reader" where
  "ReadRecord r =
     (let (ok, r) = (if last_record_offset r < initial_offset r then SkipToInitialBlock r else (True, r))
      in if \<not> ok then (None, r) else read_loop False 0 [] r)"

definition LastRecordOffset :: "reader \<Rightarrow> u64" where "LastRecordOffset r = last_record_offset r"

end
