(* ===== verification/LogCorrect.thy ===== *)
theory LogCorrect
  imports LogFormat
begin

text \<open>
  Correctness of the write-ahead log: what a writer appends is a sequence of blocks that a reader turns
  back into the records, also when the file ends early.
\<close>

section \<open>What the writer appends\<close>

definition phys :: "u32 \<Rightarrow> byte list \<Rightarrow> byte list" where
  "phys t d = bytes_of_u32 (Mask (crc32c 0 (ucast t # d))) @ [word_of_nat (length d) AND 0xff, word_of_nat (length d div 256), ucast t] @ d"

lemma length_phys [simp]: "length (phys t d) = 7 + length d"
  by (simp add: phys_def)

function layout :: "bool \<Rightarrow> byte list \<Rightarrow> nat \<Rightarrow> byte list \<times> nat" where
  "layout bg d off =
     (let new = kBlockSize - off < kHeaderSize;
          pad = (if new then replicate (kBlockSize - off) 0 else []);
          off1 = (if new then 0 else off);
          n = min (length d) (kBlockSize - off1 - kHeaderSize);
          bs = pad @ phys (frag_type bg (length d = n)) (take n d);
          off2 = off1 + kHeaderSize + n
      in if n < length d then (bs @ fst (layout False (drop n d) off2), snd (layout False (drop n d) off2))
         else (bs, off2))"
  by pat_completeness auto
termination
  by (relation "measures [\<lambda>(_, d, _). length d, \<lambda>(_, _, off). kBlockSize - off]") (auto simp: log_consts split: if_splits)

declare layout.simps [simp del]

definition layout_step :: "nat \<Rightarrow> nat \<Rightarrow> byte list \<times> nat \<times> nat" where
  "layout_step off len =
     (let new = kBlockSize - off < kHeaderSize; off1 = (if new then 0 else off)
      in (if new then replicate (kBlockSize - off) 0 else [], off1, min len (kBlockSize - off1 - kHeaderSize)))"

lemma layout_step_cases:
  assumes "layout_step off len = (pad, off1, n)"
  shows "off1 + 7 + n \<le> kBlockSize" and "n \<le> len" and "n < len \<Longrightarrow> off1 + 7 + n = kBlockSize"
    and "off \<le> kBlockSize \<Longrightarrow> pad = [] \<and> off1 = off \<and> off + 7 \<le> kBlockSize \<or> pad = replicate (kBlockSize - off) 0 \<and> off1 = 0 \<and> kBlockSize - off < 7"
proof -
  have h: "kHeaderSize = 7" "kBlockSize > 7" by (simp_all add: log_consts)
  consider "kBlockSize - off < 7" "pad = replicate (kBlockSize - off) 0" "off1 = 0" "n = min len (kBlockSize - 7)"
    | "\<not> kBlockSize - off < 7" "pad = []" "off1 = off" "n = min len (kBlockSize - off - 7)"
    using assms by (auto simp: layout_step_def Let_def h split: if_splits)
  then show "off1 + 7 + n \<le> kBlockSize" "n \<le> len" "n < len \<Longrightarrow> off1 + 7 + n = kBlockSize"
    "off \<le> kBlockSize \<Longrightarrow> pad = [] \<and> off1 = off \<and> off + 7 \<le> kBlockSize \<or> pad = replicate (kBlockSize - off) 0 \<and> off1 = 0 \<and> kBlockSize - off < 7"
    by (cases, use h in auto)+
qed

lemma layout_unfold:
  assumes "layout_step off (length d) = (pad, off1, n)"
  shows "layout bg d off =
    (if n < length d
     then (pad @ phys (frag_type bg False) (take n d) @ fst (layout False (drop n d) (off1 + 7 + n)), snd (layout False (drop n d) (off1 + 7 + n)))
     else (pad @ phys (frag_type bg True) d, off1 + 7 + length d))"
proof -
  have h: "kHeaderSize = 7" by (simp add: log_consts)
  have p: "(if kBlockSize - off < 7 then replicate (kBlockSize - off) 0 else []) = pad" "(if kBlockSize - off < 7 then 0 else off) = off1"
    "min (length d) (kBlockSize - off1 - 7) = n"
    using assms by (auto simp: layout_step_def Let_def h)
  have n: "length d = n \<longleftrightarrow> \<not> n < length d" "n \<le> length d" using p(3) by auto
  show ?thesis
    by (subst layout.simps) (unfold Let_def h p n(1), use n(2) in simp)
qed

lemma layout_nonempty: "fst (layout bg d off) \<noteq> []"
proof -
  obtain pad off1 n where "layout_step off (length d) = (pad, off1, n)" by (metis prod_cases3)
  moreover have "phys t e \<noteq> []" for t e by (simp add: phys_def)
  ultimately show ?thesis by (simp add: layout_unfold)
qed

lemma type_crc_at: "(t :: u32) \<le> 4 \<Longrightarrow> InitTypeCrc ! unat t = crc32c 0 [ucast t]"
proof -
  assume "t \<le> 4"
  then have "unat t \<le> 4" by (simp add: word_le_nat_alt)
  moreover have "(word_of_nat (unat t) :: byte) = ucast t" by (rule bit_word_eqI) (simp add: bit_simps)
  ultimately show ?thesis
    by (simp add: InitTypeCrc_def crc_value_eq log_consts del: upt_Suc word_of_nat_eq_0_iff)
qed

lemma frag_type_le: "frag_type a b \<le> 4" "frag_type a b \<noteq> 0"
  by (simp_all add: frag_type_def log_consts)

definition good_writer :: "writer \<Rightarrow> bool" where
  "good_writer w \<longleftrightarrow> type_crc w = InitTypeCrc \<and> w_faults (dest w) = [] \<and> block_offset w \<le> kBlockSize"

definition extend_writer :: "byte list \<Rightarrow> nat \<Rightarrow> writer \<Rightarrow> writer" where
  "extend_writer bs off w = w\<lparr>dest := (dest w)\<lparr>w_data := w_data (dest w) @ bs\<rparr>, block_offset := off\<rparr>"

lemma emit_phys:
  assumes "good_writer w" and "t \<le> 4"
  shows "EmitPhysicalRecord t d w = (OK, extend_writer (phys t d) (block_offset w + 7 + length d) w)"
  using assms(1) type_crc_at [OF assms(2)] crc32c_append [of 0 "[ucast t]" d]
  by (simp add: EmitPhysicalRecord_def good_writer_def Append_def Flush_def status_ok_def OK_def phys_def extend_writer_def
      crc_extend_eq EncodeFixed32_eq Let_def log_consts)

lemma switch_block_eq:
  assumes "good_writer w" and "layout_step (block_offset w) len = (pad, off1, n)"
  shows "switch_block w = extend_writer pad off1 w"
  using assms
  by (auto simp: switch_block_def layout_step_def Let_def good_writer_def extend_writer_def Append_def split: if_splits)

lemma good_extend: "good_writer w \<Longrightarrow> off \<le> kBlockSize \<Longrightarrow> good_writer (extend_writer bs off w)"
  by (simp add: good_writer_def extend_writer_def)

lemma block_offset_extend [simp]: "block_offset (extend_writer bs off w) = off"
  by (simp add: extend_writer_def)

lemma extend_extend: "extend_writer cs o2 (extend_writer bs o1 w) = extend_writer (bs @ cs) o2 w"
  by (simp add: extend_writer_def)

lemma add_loop_layout:
  "good_writer w \<Longrightarrow> add_loop bg d w = (OK, extend_writer (fst (layout bg d (block_offset w))) (snd (layout bg d (block_offset w))) w) \<and>
     snd (layout bg d (block_offset w)) \<le> kBlockSize"
proof (induction bg d w rule: add_loop.induct)
  case (1 bg d w)
  obtain pad off1 n where st: "layout_step (block_offset w) (length d) = (pad, off1, n)" by (metis prod_cases3)
  note L = layout_unfold [OF st] layout_step_cases(1,2) [OF st]
  define w1 where "w1 = extend_writer pad off1 w"
  have w1: "switch_block w = w1" using switch_block_eq [OF 1(2) st] by (simp add: w1_def)
  have g1: "good_writer w1" using good_extend [OF 1(2)] L(2) by (simp add: w1_def log_consts)
  have o1: "block_offset w1 = off1" by (simp add: w1_def extend_writer_def)
  have n: "(if length d < kBlockSize - block_offset w1 - kHeaderSize then length d else kBlockSize - block_offset w1 - kHeaderSize) = n"
    using st by (auto simp: o1 layout_step_def Let_def)
  define w2 where "w2 = extend_writer (phys (frag_type bg (length d = n)) (take n d)) (off1 + 7 + n) w1"
  have w2: "EmitPhysicalRecord (frag_type bg (length d = n)) (take n d) w1 = (OK, w2)"
    using emit_phys [OF g1 frag_type_le(1)] L(3) by (simp add: w2_def o1)
  have g2: "good_writer w2" "block_offset w2 = off1 + 7 + n" using good_extend [OF g1] L(2) by (simp_all add: w2_def extend_writer_def)
  have ok: "status_ok OK" by (simp add: status_ok_def OK_def)
  have step: "add_loop bg d w = (if n < length d then add_loop False (drop n d) w2 else (OK, w2))"
    by (subst add_loop.simps) (unfold Let_def w1 n w2 prod.case, simp add: ok)
  show ?case
  proof (cases "n < length d")
    case True
    have "add_loop False (drop n d) w2 = (OK, extend_writer (fst (layout False (drop n d) (block_offset w2))) (snd (layout False (drop n d) (block_offset w2))) w2) \<and>
        snd (layout False (drop n d) (block_offset w2)) \<le> kBlockSize"
      using 1(1) [OF w1 [symmetric] refl n [symmetric] w2 [symmetric] refl refl] ok True g2 by simp
    then show ?thesis using step True L(1) [of bg] unfolding g2(2) by (simp add: w2_def w1_def extend_extend)
  next
    case False
    then have "n = length d" using L(3) by simp
    then show ?thesis using step L(1,2) by (simp add: w2_def w1_def extend_extend)
  qed
qed


section \<open>Reading a physical record\<close>

text \<open>
  The reader stands at offset \<open>off\<close> of a block, \<open>rest\<close> is the rest of the file from there; at the start of
  the file it stands at the end of an imagined block before it.
\<close>

definition at :: "reader \<Rightarrow> nat \<Rightarrow> byte list \<Rightarrow> bool" where
  "at r off rest \<longleftrightarrow>
     off \<le> kBlockSize \<and> buffer r = take (kBlockSize - off) rest \<and> r_data (rfile r) = drop (kBlockSize - off) rest \<and>
     (eof r \<longleftrightarrow> length rest < kBlockSize - off) \<and> r_faults (rfile r) = [] \<and> initial_offset r = 0 \<and> \<not> resyncing r \<and>
     last_record_offset r \<ge> 0 \<and> reports r = []"

lemma at_off: "at r off rest \<Longrightarrow> off \<le> kBlockSize" and at_reports: "at r off rest \<Longrightarrow> reports r = []"
  unfolding at_def by blast+

lemma length_bytes:
  assumes "n < 65536"
  shows "(ucast (word_of_nat n AND 0xff :: byte) AND 0xff :: u32) OR push_bit 8 (ucast (word_of_nat (n div 256) :: byte) AND 0xff) = word_of_nat n"
proof (rule bit_word_eqI)
  fix i
  have h: "i < 16" if "bit n i"
  proof -
    have "take_bit 16 n = n" using assms by (simp add: take_bit_nat_eq_self)
    then show ?thesis using that by (metis bit_take_bit_iff)
  qed
  have d: "n div 256 = drop_bit 8 n" by (simp add: drop_bit_eq_div)
  assume "i < LENGTH(32)"
  then show "bit ((ucast (word_of_nat n AND 0xff :: byte) AND 0xff :: u32) OR push_bit 8 (ucast (word_of_nat (n div 256) :: byte) AND 0xff)) i = bit (word_of_nat n :: u32) i"
    unfolding d and_mask_take_bit by (cases "8 \<le> i") (use h in \<open>auto simp: bit_simps\<close>)
qed

lemma small_type: "(t :: u32) \<le> 4 \<Longrightarrow> scast (ucast t :: byte) = t"
proof -
  assume "t \<le> 4"
  then have "unat t \<le> 4" by (simp add: word_le_nat_alt)
  then have "unat t \<in> {0, 1, 2, 3, 4}" by auto
  then have "t \<in> {0, 1, 2, 3, 4}" by (auto simp: word_unat_eq_iff)
  then show ?thesis by auto
qed

lemma phys_header:
  assumes "length d < 65536" and "7 \<le> k"
  shows "header_length (take k (phys t d @ suf)) = length d" and "t \<le> 4 \<Longrightarrow> header_type (take k (phys t d @ suf)) = t"
    and "DecodeFixed32 True (take k (phys t d @ suf)) = Mask (crc32c 0 (ucast t # d))"
proof -
  let ?h = "take k (phys t d @ suf)"
  have n: "?h ! 4 = word_of_nat (length d) AND 0xff" "?h ! 5 = word_of_nat (length d div 256)" "?h ! 6 = ucast t"
    using assms(2) by (simp_all add: phys_def nth_append)
  have "(ucast (word_of_nat n AND 0xff :: byte) AND 0xff :: u32) OR push_bit 8 (ucast (word_of_nat (n div 256) :: byte) AND 0xff) = word_of_nat n"
    if "n < 65536" for n
    using that by (rule length_bytes)
  then show "header_length ?h = length d"
    unfolding header_length_def Let_def n using assms(1) by (simp only: unat_of_nat) simp
  show "t \<le> 4 \<Longrightarrow> header_type ?h = t"
    unfolding header_type_def n by (rule small_type)
  have "?h = bytes_of_u32 (Mask (crc32c 0 (ucast t # d))) @ drop 4 ?h"
    using assms(2) by (simp add: phys_def)
  then show "DecodeFixed32 True ?h = Mask (crc32c 0 (ucast t # d))"
    by (metis DecodeFixed32_bytes)
qed

lemma read_phys:
  assumes at: "at r off (phys t d @ suf)" and fits: "off + 7 + length d \<le> kBlockSize" and t: "t \<le> 4" "t \<noteq> 0"
  shows "\<exists>r'. ReadPhysicalRecord r = (t, d, r') \<and> at r' (off + 7 + length d) suf"
proof -
  let ?h = "take (kBlockSize - off) (phys t d @ suf)"
  have b: "buffer r = ?h" "7 \<le> kBlockSize - off" "length d < 65536" "kHeaderSize = 7"
    using at fits by (auto simp: at_def log_consts)
  note H = phys_header [OF b(3,2), of t suf]
  have len: "7 + length d \<le> length ?h" using fits by simp
  define P where "P = bytes_of_u32 (Mask (crc32c 0 (ucast t # d))) @ [word_of_nat (length d) AND 0xff, word_of_nat (length d div 256)]"
  have h7: "?h = P @ ucast t # d @ take (kBlockSize - off - (7 + length d)) suf" "length P = 6"
  proof -
    have "?h = phys t d @ take (kBlockSize - off - (7 + length d)) suf" using fits by simp
    then show "?h = P @ ucast t # d @ take (kBlockSize - off - (7 + length d)) suf" by (simp add: phys_def P_def)
  qed (simp add: P_def)
  have c: "take (1 + length d) (drop 6 ?h) = ucast t # d" "take (length d) (drop 7 ?h) = d"
    unfolding h7(1) using h7(2) by simp_all
  define r' where "r' = r\<lparr>buffer := drop (7 + length d) ?h\<rparr>"
  have "parse_physical r = (t, d, r')"
    unfolding parse_physical_def b Let_def H(1) H(2) [OF t(1)] H(3) c crc_value_eq
    using len t at by (simp add: r'_def at_def kZeroType_def)
  then have "ReadPhysicalRecord r = (t, d, r')" using len b by (subst ReadPhysicalRecord.simps) simp
  moreover have "at r' (off + 7 + length d) suf"
    using at fits by (auto simp: at_def r'_def drop_take ac_simps)
  ultimately show ?thesis by blast
qed

text \<open>The trailer of a block is skipped.\<close>

lemma read_pad:
  assumes at: "at r off (replicate (kBlockSize - off) 0 @ rest)" and short: "kBlockSize - off < 7"
  shows "\<exists>r'. ReadPhysicalRecord r = ReadPhysicalRecord r' \<and> at r' 0 rest"
proof -
  have b: "length (buffer r) < kHeaderSize" "\<not> eof r" "r_faults (rfile r) = []" "r_data (rfile r) = rest"
    using at short by (auto simp: at_def log_consts)
  define r1 where "r1 = r\<lparr>rfile := (rfile r)\<lparr>r_data := drop kBlockSize rest\<rparr>, buffer := take kBlockSize rest,
    end_of_buffer_offset := end_of_buffer_offset r + word_of_nat (length (take kBlockSize rest))\<rparr>"
  define r2 where "r2 = (if length (take kBlockSize rest) < kBlockSize then r1\<lparr>eof := True\<rparr> else r1)"
  have "ReadPhysicalRecord r = ReadPhysicalRecord r2"
    using b by (subst ReadPhysicalRecord.simps) (simp add: Read_def Let_def r1_def r2_def status_ok_def OK_def)
  moreover have "at r2 0 rest" using at b by (auto simp: at_def r2_def r1_def)
  ultimately show ?thesis by blast
qed

text \<open>A file that ends inside a trailer or inside a physical record.\<close>

lemma read_end_short:
  assumes "at r off rest" and "length rest < kBlockSize - off" and "length rest < 7"
  shows "ReadPhysicalRecord r = (kEof, [], r\<lparr>buffer := []\<rparr>)"
  using assms by (subst ReadPhysicalRecord.simps) (auto simp: at_def log_consts)

lemma read_end:
  assumes at: "at r off (take k (phys t d))" and k: "k < 7 + length d" and fits: "off + 7 + length d \<le> kBlockSize" and t: "t \<le> 4"
  shows "ReadPhysicalRecord r = (kEof, [], r\<lparr>buffer := []\<rparr>)"
proof (cases "k < 7")
  case True
  then show ?thesis using read_end_short [OF at] k fits by auto
next
  case False
  have e: "eof r" "buffer r = take k (phys t d @ [])" "length (buffer r) = k" "length d < 65536"
    using at k fits by (auto simp: at_def log_consts)
  have l: "header_length (buffer r) = length d" using phys_header(1) [OF e(4), of k t "[]"] False e(2) by simp
  have "parse_physical r = (kEof, [], r\<lparr>buffer := []\<rparr>)"
    unfolding parse_physical_def Let_def l using k e(1,3) by (simp add: log_consts)
  then show ?thesis using e(3) False by (subst ReadPhysicalRecord.simps) (simp add: log_consts)
qed


section \<open>Reading a record\<close>

lemma type_consts: "frag_type bg True \<noteq> kEof" "frag_type bg False \<noteq> kEof"
  "frag_type True True = kFullType" "frag_type True False = kFirstType" "frag_type False False = kMiddleType" "frag_type False True = kLastType"
  "kFullType \<noteq> kEof" "kFirstType \<noteq> kEof" "kMiddleType \<noteq> kEof" "kLastType \<noteq> kEof" "kFirstType \<noteq> kFullType"
  "kMiddleType \<noteq> kFullType" "kMiddleType \<noteq> kFirstType" "kLastType \<noteq> kFullType" "kLastType \<noteq> kFirstType" "kLastType \<noteq> kMiddleType"
  by (simp_all add: frag_type_def log_consts)

text \<open>One turn of the loop on the physical record at the reader.\<close>

lemma read_loop_step:
  assumes "ReadPhysicalRecord r = (t, d, r1)" and "at r1 off suf" and "t = frag_type bg last_frag" and "frag = (\<not> bg)"
  shows "\<exists>r2 o2. at r2 off suf \<and> read_loop frag o1 scratch r =
    (if last_frag then (Some ((if bg then [] else scratch) @ d), r2)
     else read_loop True o2 ((if bg then [] else scratch) @ d) r2)"
proof -
  have ns: "\<not> resyncing r1" using assms(2) by (simp add: at_def)
  define r2 where "r2 = r1\<lparr>resyncing := False\<rparr>"
  have al: "at r2 off suf" "at (r2\<lparr>last_record_offset := l\<rparr>) off suf" for l using assms(2) by (auto simp: at_def r2_def)
  note U = read_loop.simps [of frag o1 scratch r] assms(1) prod.case Let_def r2_def [symmetric]
  consider "bg" "last_frag" | "bg" "\<not> last_frag" | "\<not> bg" "last_frag" | "\<not> bg" "\<not> last_frag" by blast
  then show ?thesis
  proof cases
    case 1
    then have "read_loop frag o1 scratch r = (Some d, r2\<lparr>last_record_offset := end_of_buffer_offset r1 - word_of_nat (length (buffer r1)) -
            word_of_nat kHeaderSize - word_of_nat (length d)\<rparr>)"
      unfolding U using ns assms(3,4) by (simp add: type_consts)
    then show ?thesis using 1 al by auto
  next
    case 2
    then have "read_loop frag o1 scratch r = read_loop True (end_of_buffer_offset r1 - word_of_nat (length (buffer r1)) -
            word_of_nat kHeaderSize - word_of_nat (length d)) d r2"
      unfolding U using ns assms(3,4) by (simp add: type_consts)
    then show ?thesis using 2 al by auto
  next
    case 3
    then have "read_loop frag o1 scratch r = (Some (scratch @ d), r2\<lparr>last_record_offset := o1\<rparr>)"
      unfolding U using ns assms(3,4) by (simp add: type_consts)
    then show ?thesis using 3 al by auto
  next
    case 4
    then have "read_loop frag o1 scratch r = read_loop True o1 (scratch @ d) r2"
      unfolding U using ns assms(3,4) by (simp add: type_consts)
    then show ?thesis using 4 al by auto
  qed
qed

lemma read_switch:
  assumes at: "at r off (pad @ rest)" and pad: "pad = [] \<and> off1 = off \<or> pad = replicate (kBlockSize - off) 0 \<and> off1 = 0 \<and> kBlockSize - off < 7"
  shows "\<exists>r'. ReadPhysicalRecord r = ReadPhysicalRecord r' \<and> at r' off1 rest"
  using assms read_pad [of r off rest] by auto

lemma read_loop_cong: "ReadPhysicalRecord r = ReadPhysicalRecord r' \<Longrightarrow> read_loop frag o1 scratch r = read_loop frag o1 scratch r'"
  unfolding read_loop.simps [of frag o1 scratch r] read_loop.simps [of frag o1 scratch r'] by (simp only:)

lemma read_layout:
  assumes "at r off (fst (layout bg d off) @ suf)" and "frag = (\<not> bg)"
  shows "\<exists>r'. read_loop frag o1 scratch r = (Some ((if bg then [] else scratch) @ d), r') \<and> at r' (snd (layout bg d off)) suf"
  using assms
proof (induction bg d off arbitrary: frag o1 scratch r rule: layout.induct)
  case (1 bg d off)
  obtain pad off1 n where st: "layout_step off (length d) = (pad, off1, n)" by (metis prod_cases3)
  note L = layout_unfold [OF st] and C = layout_step_cases [OF st]
  have off: "off \<le> kBlockSize" using "1.prems"(1) by (rule at_off)
  show ?case
  proof (cases "n < length d")
    case True
    define rest where "rest = fst (layout False (drop n d) (off1 + 7 + n))"
    have "at r off (pad @ phys (frag_type bg False) (take n d) @ rest @ suf)" using "1.prems"(1) L True by (simp add: rest_def)
    then obtain r0 where r0: "ReadPhysicalRecord r = ReadPhysicalRecord r0" "at r0 off1 (phys (frag_type bg False) (take n d) @ rest @ suf)"
      using read_switch [of r off pad] C(4) [OF off] by blast
    have ln: "length (take n d) = n" using C(2) by simp
    obtain r1 where r1: "ReadPhysicalRecord r0 = (frag_type bg False, take n d, r1)" "at r1 (off1 + 7 + n) (rest @ suf)"
      using read_phys [OF r0(2) _ frag_type_le] C(1) ln by auto
    obtain r2 o2 where r2: "at r2 (off1 + 7 + n) (rest @ suf)"
      "read_loop frag o1 scratch r = read_loop True o2 ((if bg then [] else scratch) @ take n d) r2"
      using read_loop_step [OF r1 refl "1.prems"(2), of o1 scratch] read_loop_cong [OF r0(1)] by auto
    have IH: "\<exists>r'. read_loop True o2 sc r2 = (Some (sc @ drop n d), r') \<and> at r' (snd (layout False (drop n d) (off1 + 7 + n))) suf" for sc
    proof -
      have h: "kHeaderSize = 7" by (simp add: log_consts)
      have p: "(if kBlockSize - off < kHeaderSize then 0 else off) = off1" "min (length d) (kBlockSize - off1 - kHeaderSize) = n"
        using st by (auto simp: layout_step_def Let_def)
      show ?thesis
        using "1.IH"(1) [OF refl refl p(1) [symmetric] p(2) [symmetric] refl refl True, of r2 True o2 sc] r2(1) by (simp add: rest_def h)
    qed
    show ?thesis using IH [of "(if bg then [] else scratch) @ take n d"] r2(2) L True by (auto split: if_splits)
  next
    case False
    then have n: "n = length d" using C(2) by simp
    have "at r off (pad @ phys (frag_type bg True) d @ suf)" using "1.prems"(1) L False by simp
    then obtain r0 where r0: "ReadPhysicalRecord r = ReadPhysicalRecord r0" "at r0 off1 (phys (frag_type bg True) d @ suf)"
      using read_switch [of r off pad] C(4) [OF off] by blast
    obtain r1 where r1: "ReadPhysicalRecord r0 = (frag_type bg True, d, r1)" "at r1 (off1 + 7 + length d) suf"
      using read_phys [OF r0(2) _ frag_type_le] C(1) n by auto
    show ?thesis
      using read_loop_step [OF r1 refl "1.prems"(2), of o1 scratch] read_loop_cong [OF r0(1)] L False by auto
  qed
qed

lemma read_loop_eof:
  assumes "ReadPhysicalRecord r = (kEof, [], r1)" and "reports r1 = []"
  shows "\<exists>r'. read_loop frag o1 scratch r = (None, r') \<and> reports r' = []"
  unfolding read_loop.simps [of frag o1 scratch r] assms(1) prod.case Let_def using assms(2) by simp

lemma read_layout_cut:
  assumes "at r off (take k (fst (layout bg d off)))" and "frag = (\<not> bg)" and "k < length (fst (layout bg d off))"
  shows "\<exists>r'. read_loop frag o1 scratch r = (None, r') \<and> reports r' = []"
  using assms
proof (induction bg d off arbitrary: frag o1 scratch r k rule: layout.induct)
  case (1 bg d off)
  obtain pad off1 n where st: "layout_step off (length d) = (pad, off1, n)" by (metis prod_cases3)
  note L = layout_unfold [OF st] and C = layout_step_cases [OF st]
  have off: "off \<le> kBlockSize" using "1.prems"(1) by (rule at_off)
  have rp: "reports (r\<lparr>buffer := []\<rparr>) = []" if "at r o2 x" for r o2 x using at_reports [OF that] by simp
  define fin where "fin = (\<not> n < length d)"
  define tl where "tl = (if fin then [] else fst (layout False (drop n d) (off1 + 7 + n)))"
  have fl: "fst (layout bg d off) = pad @ phys (frag_type bg fin) (take n d) @ tl"
    using L C(2) by (auto simp: fin_def tl_def)
  have ln: "length (take n d) = n" using C(2) by simp
  show ?case
  proof (cases "k < length pad")
    case True
    then have "at r off (take k pad)" "length (take k pad) < kBlockSize - off" "length (take k pad) < 7"
      using "1.prems"(1) C(4) [OF off] by (auto simp: fl)
    then show ?thesis using read_loop_eof [OF read_end_short rp] by blast
  next
    case False
    define j where "j = k - length pad"
    have "at r off (pad @ take j (phys (frag_type bg fin) (take n d) @ tl))"
      using "1.prems"(1) False by (simp add: fl j_def)
    then obtain r0 where r0: "ReadPhysicalRecord r = ReadPhysicalRecord r0" "at r0 off1 (take j (phys (frag_type bg fin) (take n d) @ tl))"
      using read_switch [of r off pad] C(4) [OF off] by blast
    show ?thesis
    proof (cases "j < 7 + n")
      case True
      then have "at r0 off1 (take j (phys (frag_type bg fin) (take n d)))" using r0(2) ln by simp
      from read_end [OF this _ _ frag_type_le(1)] True C(1) ln rp [OF r0(2)] show ?thesis
        using read_loop_cong [OF r0(1)] read_loop_eof [of r0] by auto
    next
      case j: False
      have nf: "\<not> fin" using "1.prems"(3) j False ln by (auto simp: fl j_def tl_def)
      then have True: "n < length d" by (simp add: fin_def)
      define i where "i = j - (7 + n)"
      have a0: "at r0 off1 (phys (frag_type bg False) (take n d) @ take i tl)" using r0(2) j nf ln by (simp add: i_def)
      obtain r1 where r1: "ReadPhysicalRecord r0 = (frag_type bg False, take n d, r1)" "at r1 (off1 + 7 + n) (take i tl)"
        using read_phys [OF a0 _ frag_type_le] C(1) ln by auto
      obtain r2 o2 where r2: "at r2 (off1 + 7 + n) (take i tl)"
        "read_loop frag o1 scratch r = read_loop True o2 ((if bg then [] else scratch) @ take n d) r2"
        using read_loop_step [OF r1 refl "1.prems"(2), of o1 scratch] read_loop_cong [OF r0(1)] by auto
      have h: "kHeaderSize = 7" by (simp add: log_consts)
      have p: "(if kBlockSize - off < kHeaderSize then 0 else off) = off1" "min (length d) (kBlockSize - off1 - kHeaderSize) = n"
        using st by (auto simp: layout_step_def Let_def)
      have "i < length tl" using "1.prems"(3) j False ln nf by (simp add: fl i_def j_def)
      then show ?thesis
        using "1.IH"(1) [OF refl refl p(1) [symmetric] p(2) [symmetric] refl refl True, of r2 i True o2 "(if bg then [] else scratch) @ take n d"] r2 nf
        by (simp add: h tl_def)
    qed
  qed
qed


section \<open>Sequences of records\<close>

fun AddRecords :: "slice list \<Rightarrow> writer \<Rightarrow> status list \<times> writer" where
  "AddRecords [] w = ([], w)"
| "AddRecords (d # ds) w =
     (let (s, w) = AddRecord d w; (ss, w) = AddRecords ds w in (s # ss, w))"

fun ReadRecords :: "nat \<Rightarrow> reader \<Rightarrow> slice option list \<times> reader" where
  "ReadRecords 0 r = ([], r)"
| "ReadRecords (Suc n) r = (let (d, r) = ReadRecord r; (ds, r) = ReadRecords n r in (d # ds, r))"

text \<open>The bytes of a sequence of records and the block offset after it.\<close>

fun layouts :: "slice list \<Rightarrow> nat \<Rightarrow> byte list \<times> nat" where
  "layouts [] off = ([], off)"
| "layouts (d # ds) off =
     (fst (layout True d off) @ fst (layouts ds (snd (layout True d off))), snd (layouts ds (snd (layout True d off))))"

text \<open>The records whose bytes are all among the first \<open>k\<close> ones.\<close>

fun complete :: "nat \<Rightarrow> slice list \<Rightarrow> nat \<Rightarrow> slice list" where
  "complete k [] off = []"
| "complete k (d # ds) off =
     (let (bs, off') = layout True d off
      in if length bs \<le> k then d # complete (k - length bs) ds off' else [])"

lemma layouts_append: "layouts (ds @ es) off = (fst (layouts ds off) @ fst (layouts es (snd (layouts ds off))), snd (layouts es (snd (layouts ds off))))"
  by (induction ds arbitrary: off) auto

lemma AddRecords_layouts:
  "good_writer w \<Longrightarrow> AddRecords ds w = (replicate (length ds) OK, extend_writer (fst (layouts ds (block_offset w))) (snd (layouts ds (block_offset w))) w) \<and>
     snd (layouts ds (block_offset w)) \<le> kBlockSize"
proof (induction ds arbitrary: w)
  case Nil
  then show ?case by (simp add: extend_writer_def good_writer_def)
next
  case (Cons d ds)
  let ?w = "extend_writer (fst (layout True d (block_offset w))) (snd (layout True d (block_offset w))) w"
  have a: "AddRecord d w = (OK, ?w)" "snd (layout True d (block_offset w)) \<le> kBlockSize"
    using add_loop_layout [OF Cons.prems, of True d] by (simp_all add: AddRecord_def)
  show ?case using Cons.IH [OF good_extend [OF Cons.prems a(2)]] by (simp add: a(1) extend_extend)
qed

lemma layout_wrap: "layout bg d kBlockSize = layout bg d 0"
proof -
  have "layout_step kBlockSize len = layout_step 0 len" for len by (simp add: layout_step_def log_consts)
  moreover obtain pad off1 n where "layout_step 0 (length d) = (pad, off1, n)" by (metis prod_cases3)
  ultimately show ?thesis using layout_unfold [of kBlockSize d pad off1 n bg] layout_unfold [of 0 d pad off1 n bg] by simp
qed

lemma ReadRecord_loop: "at r off rest \<Longrightarrow> ReadRecord r = read_loop False 0 [] r"
  by (simp add: ReadRecord_def at_def)

lemma ReadRecords_cut:
  assumes "at r off (take k (fst (layouts ds off)))"
  shows "\<exists>r'. ReadRecords (length (complete k ds off) + 1) r = (map Some (complete k ds off) @ [None], r') \<and> reports r' = []"
  using assms
proof (induction ds arbitrary: r off k)
  case Nil
  have "\<exists>r'. ReadRecord r = (None, r') \<and> reports r' = []"
    unfolding ReadRecord_loop [OF Nil] using read_layout_cut [of r off 0 True "[]" False] Nil
    by (auto simp: layout_nonempty)
  then show ?case by auto
next
  case (Cons d ds)
  let ?bs = "fst (layout True d off)" and ?off = "snd (layout True d off)"
  show ?case
  proof (cases "length ?bs \<le> k")
    case True
    then have "at r off (?bs @ take (k - length ?bs) (fst (layouts ds ?off)))" using Cons.prems by simp
    from read_layout [OF this, of False 0 "[]"] obtain r1 where
      r1: "ReadRecord r = (Some d, r1)" "at r1 ?off (take (k - length ?bs) (fst (layouts ds ?off)))"
      using ReadRecord_loop [OF Cons.prems] by auto
    then show ?thesis using Cons.IH [OF r1(2)] True by (auto simp: case_prod_unfold Let_def)
  next
    case False
    then have "at r off (take k ?bs)" using Cons.prems by simp
    from read_layout_cut [OF this, of False 0 "[]"] False have "\<exists>r'. ReadRecord r = (None, r') \<and> reports r' = []"
      using ReadRecord_loop [OF Cons.prems] by auto
    then show ?thesis using False by (auto simp: case_prod_unfold)
  qed
qed

lemma complete_all: "length (fst (layouts ds off)) \<le> k \<Longrightarrow> complete k ds off = ds"
  by (induction ds arbitrary: off k) (auto simp: case_prod_unfold Let_def)


text \<open>Block offsets are file offsets modulo the block size.\<close>

lemma layout_mod: "off \<le> kBlockSize \<Longrightarrow> (off + length (fst (layout bg d off))) mod kBlockSize = snd (layout bg d off) mod kBlockSize"
proof (induction bg d off rule: layout.induct)
  case (1 bg d off)
  obtain pad off1 n where st: "layout_step off (length d) = (pad, off1, n)" by (metis prod_cases3)
  note L = layout_unfold [OF st] and C = layout_step_cases [OF st]
  have p: "off + length pad = off1 \<or> off + length pad = kBlockSize \<and> off1 = 0" using C(4) [OF "1.prems"] "1.prems" by auto
  then have pm: "(off + length pad + m) mod kBlockSize = (off1 + m) mod kBlockSize" for m by auto
  show ?case
  proof (cases "n < length d")
    case True
    have q: "(if kBlockSize - off < kHeaderSize then 0 else off) = off1" "min (length d) (kBlockSize - off1 - kHeaderSize) = n" "kHeaderSize = 7"
      using st by (auto simp: layout_step_def Let_def log_consts)
    have IH: "(off1 + 7 + n + length (fst (layout False (drop n d) (off1 + 7 + n)))) mod kBlockSize = snd (layout False (drop n d) (off1 + 7 + n)) mod kBlockSize"
      using "1.IH"(1) [OF refl refl q(1) [symmetric] q(2) [symmetric] refl refl True] C(1) unfolding q(3) by simp
    have ln: "length (take n d) = n" using C(2) by simp
    show ?thesis
      using IH True pm [of "7 + n + length (fst (layout False (drop n d) (off1 + 7 + n)))"] unfolding L by (simp add: ln ac_simps)
  next
    case False
    then show ?thesis using pm [of "7 + length d"] unfolding L by (simp add: ac_simps)
  qed
qed

lemma layouts_mod:
  "off \<le> kBlockSize \<Longrightarrow> (off + length (fst (layouts ds off))) mod kBlockSize = snd (layouts ds off) mod kBlockSize \<and> snd (layouts ds off) \<le> kBlockSize"
proof (induction ds arbitrary: off)
  case (Cons d ds)
  let ?w = "extend_writer [] off (mk_writer \<lparr>w_data = [], w_faults = []\<rparr>)"
  have "good_writer ?w" using Cons.prems by (simp add: good_writer_def extend_writer_def mk_writer_def)
  then have le: "snd (layout True d off) \<le> kBlockSize" using add_loop_layout [of ?w True d] by simp
  show ?case
    using Cons.IH [OF le] layout_mod [OF Cons.prems, of True d] by (simp add: add.assoc [symmetric]) (metis mod_add_left_eq)
qed simp

lemma layouts_mod_start: "off \<le> kBlockSize \<Longrightarrow> fst (layouts ds (off mod kBlockSize)) = fst (layouts ds off)"
proof (cases "off = kBlockSize")
  case True
  then show ?thesis by (cases ds) (simp_all add: layout_wrap)
qed simp

section \<open>Properties\<close>

abbreviation empty_file :: wfile where "empty_file \<equiv> \<lparr>w_data = [], w_faults = []\<rparr>"

text \<open>
  C4. The log survives a crash: write any records to an empty file, cut the file anywhere, and read it
  with any reader of the whole file (checking checksums or not). The reader returns exactly the
  records that were completely written before the cut, in order and unchanged, then reports the end,
  and reports no corruption. With the uncut file it returns all records. Every \<open>AddRecord\<close> succeeds.
\<close>

theorem log_survives_truncation:
  "let (ss, w) = AddRecords ds (mk_writer empty_file);
       r = mk_reader \<lparr>r_data = take k (w_data (dest w)), r_faults = []\<rparr> rep chk 0;
       whole = complete k ds 0
   in ss = replicate (length ds) OK \<and>
      (\<exists>r'. ReadRecords (length whole + 1) r = (map Some whole @ [None], r') \<and> reports r' = []) \<and>
      (\<exists>rest. ds = whole @ rest) \<and> (if length (w_data (dest w)) \<le> k then whole = ds else True)"
proof -
  let ?w = "mk_writer empty_file"
  have "good_writer ?w" by (simp add: good_writer_def mk_writer_def)
  then have A: "AddRecords ds ?w = (replicate (length ds) OK, extend_writer (fst (layouts ds 0)) (snd (layouts ds 0)) ?w)"
    using AddRecords_layouts [of ?w ds] by (simp add: mk_writer_def)
  have d: "w_data (dest (extend_writer (fst (layouts ds 0)) (snd (layouts ds 0)) ?w)) = fst (layouts ds 0)"
    by (simp add: extend_writer_def mk_writer_def)
  let ?r = "mk_reader \<lparr>r_data = take k (fst (layouts ds 0)), r_faults = []\<rparr> rep chk 0"
  have l: "fst (layouts ds kBlockSize) = fst (layouts ds 0)" "complete k ds kBlockSize = complete k ds 0"
    by (cases ds; simp add: layout_wrap)+
  have "at ?r kBlockSize (take k (fst (layouts ds kBlockSize)))" by (simp add: at_def mk_reader_def l)
  from ReadRecords_cut [OF this] have R: "\<exists>r'. ReadRecords (length (complete k ds 0) + 1) ?r = (map Some (complete k ds 0) @ [None], r') \<and> reports r' = []"
    by (simp add: l)
  have pre: "\<exists>rest. ds = complete k ds off @ rest" for off
    by (induction ds arbitrary: k off) (auto simp: case_prod_unfold Let_def)
  show ?thesis
    unfolding A Let_def prod.case d using R pre complete_all [of ds 0 k] by auto
qed

text \<open>
  C31. Reopening a log: writing records, then constructing a writer on the file with its current length
  and writing further records leaves the same file as writing all of them with one writer, so that the
  guarantees above hold for the whole; the block offset stays the file length modulo the block size.
\<close>

theorem log_reopen:
  "let w1 = snd (AddRecords ds (mk_writer empty_file));
       w2 = snd (AddRecords es (mk_writer_at (dest w1) (length (w_data (dest w1)))))
   in w_data (dest w2) = w_data (dest (snd (AddRecords (ds @ es) (mk_writer empty_file)))) \<and>
      block_offset w2 mod kBlockSize = length (w_data (dest w2)) mod kBlockSize \<and> block_offset w2 \<le> kBlockSize"
proof -
  let ?w = "mk_writer empty_file"
  have g: "good_writer ?w" by (simp add: good_writer_def mk_writer_def)
  have A: "AddRecords xs ?w = (replicate (length xs) OK, extend_writer (fst (layouts xs 0)) (snd (layouts xs 0)) ?w)" for xs
    using AddRecords_layouts [OF g, of xs] by (simp add: mk_writer_def)
  define w1 where "w1 = extend_writer (fst (layouts ds 0)) (snd (layouts ds 0)) ?w"
  have d1: "w_data (dest w1) = fst (layouts ds 0)" by (simp add: w1_def extend_writer_def mk_writer_def)
  define off where "off = length (fst (layouts ds 0)) mod kBlockSize"
  have m: "off = snd (layouts ds 0) mod kBlockSize" "snd (layouts ds 0) \<le> kBlockSize" using layouts_mod [of 0 ds] by (auto simp: off_def)
  let ?v = "mk_writer_at (dest w1) (length (w_data (dest w1)))"
  have o2: "block_offset ?v = off" "off \<le> kBlockSize" by (simp_all add: mk_writer_at_def off_def d1 kBlockSize_def)
  have "good_writer ?v" using o2 by (simp add: good_writer_def mk_writer_at_def w1_def extend_writer_def mk_writer_def)
  then have B: "AddRecords es ?v = (replicate (length es) OK, extend_writer (fst (layouts es off)) (snd (layouts es off)) ?v)"
    using AddRecords_layouts [of ?v es] unfolding o2 by blast
  have e: "fst (layouts es off) = fst (layouts es (snd (layouts ds 0)))" using layouts_mod_start [OF m(2), of es] m(1) by simp
  have w2: "w_data (dest (extend_writer (fst (layouts es off)) (snd (layouts es off)) ?v)) = fst (layouts ds 0) @ fst (layouts es off)"
    by (simp add: extend_writer_def mk_writer_at_def d1)
  have all: "w_data (dest (extend_writer (fst (layouts (ds @ es) 0)) o1 ?w)) = fst (layouts (ds @ es) 0)" for o1
    by (simp add: extend_writer_def mk_writer_def)
  have "snd (layouts es off) mod kBlockSize = length (fst (layouts ds 0) @ fst (layouts es off)) mod kBlockSize \<and> snd (layouts es off) \<le> kBlockSize"
    using layouts_mod [OF o2(2), of es] by (simp add: off_def mod_add_left_eq)
  then show ?thesis
    unfolding A Let_def snd_conv w1_def [symmetric] B w2 all block_offset_extend by (simp add: layouts_append e)
qed




end
