(* ===== verification/RandomGen.thy ===== *)
theory RandomGen
  imports Prelude
begin

text \<open>
  util/random.h: the pseudo random numbers that choose the heights of skip list nodes. The state is the
  seed; the modulo by the Mersenne prime is computed with shifts on 64-bit words.
\<close>

definition mk_Random :: "u32 \<Rightarrow> u32" where
  "mk_Random s = (let seed = s AND 0x7fffffff in if seed = 0 \<or> seed = 2147483647 then 1 else seed)"

definition rand_M :: u32 where "rand_M = 2147483647"
definition rand_A :: u64 where "rand_A = 16807"

definition Random_Next :: "u32 \<Rightarrow> u32" where
  "Random_Next seed =
     (let product = ucast seed * rand_A;
          seed = ucast (drop_bit 31 product + (product AND ucast rand_M))
      in if seed > rand_M then seed - rand_M else seed)"

text \<open>The functions that draw: the number and the new seed. \<open>n\<close> is a positive \<open>int\<close>.\<close>

definition Uniform :: "nat \<Rightarrow> u32 \<Rightarrow> nat \<times> u32" where
  "Uniform n seed = (let s = Random_Next seed in (unat s mod n, s))"

definition OneIn :: "nat \<Rightarrow> u32 \<Rightarrow> bool \<times> u32" where
  "OneIn n seed = (let s = Random_Next seed in (unat s mod n = 0, s))"

definition Skewed :: "nat \<Rightarrow> u32 \<Rightarrow> nat \<times> u32" where
  "Skewed max_log seed = (let (b, s) = Uniform (max_log + 1) seed in Uniform (2 ^ b) s)"

definition good_seed :: "u32 \<Rightarrow> bool" where
  "good_seed s \<longleftrightarrow> 0 < unat s \<and> unat s < 2147483647"

lemma Random_Next_nat:
  assumes "good_seed s"
  shows "unat (Random_Next s) = (16807 * unat s) mod 2147483647" and "good_seed (Random_Next s)"
proof -
  define x where "x = unat s"
  have x: "0 < x" "x < 2147483647" using assms by (simp_all add: good_seed_def x_def)
  define p where "p = 16807 * x"
  have pb: "p < 16807 * 2147483647" using x by (simp add: p_def)
  have up: "unat (ucast s * rand_A :: u64) = p"
  proof -
    have "unat (ucast s * rand_A :: u64) = (unat (ucast s :: u64) * 16807) mod 2 ^ 64" by (simp add: unat_word_ariths(2) rand_A_def)
    moreover have "unat (ucast s :: u64) = x" using unat_less_u32 [of s] by (simp add: unsigned_ucast_eq take_bit_nat_eq_self x_def)
    ultimately show ?thesis using pb by (simp add: p_def)
  qed
  define q r where "q = p div 2147483648" and "r = p mod 2147483648"
  have qr: "p = 2147483648 * q + r" "r < 2147483648" "q < 16807" using pb by (auto simp: q_def r_def)
  have lo: "unat ((ucast s * rand_A :: u64) AND ucast rand_M) = r"
  proof -
    have m: "(ucast rand_M :: u64) = mask 31" by (simp add: rand_M_def mask_eq_exp_minus_1)
    show ?thesis unfolding m take_bit_eq_mask [symmetric] unsigned_take_bit_eq up by (simp add: take_bit_eq_mod r_def)
  qed
  have hi: "unat (drop_bit 31 (ucast s * rand_A :: u64)) = q"
    by (simp add: unat_drop_bit_div up q_def)
  define sd where "sd = (ucast (drop_bit 31 (ucast s * rand_A :: u64) + ((ucast s * rand_A) AND ucast rand_M)) :: u32)"
  have us: "unat sd = q + r"
  proof -
    have "unat (drop_bit 31 (ucast s * rand_A :: u64) + ((ucast s * rand_A) AND ucast rand_M)) = q + r"
      using qr by (simp add: unat_word_ariths(1) hi lo)
    then show ?thesis using qr unfolding sd_def by (simp add: unsigned_ucast_eq take_bit_nat_eq_self)
  qed
  have mod: "(q + r) mod 2147483647 = p mod 2147483647"
  proof -
    have "p = 2147483647 * q + (q + r)" using qr by simp
    then show ?thesis by (metis mod_mult_self4)
  qed
  have nz: "p mod 2147483647 \<noteq> 0"
  proof
    assume "p mod 2147483647 = 0"
    then have "2147483647 dvd 16807 * x" by (simp add: p_def mod_eq_0_iff_dvd)
    moreover have "coprime (2147483647 :: nat) 16807" by (simp add: coprime_iff_gcd_eq_1 gcd_non_0_nat)
    ultimately have "2147483647 dvd x" by (simp add: coprime_dvd_mult_right_iff)
    then show False using x by (auto dest: dvd_imp_le)
  qed
  have R: "Random_Next s = (if sd > rand_M then sd - rand_M else sd)" by (simp add: Random_Next_def Let_def sd_def)
  have ne: "q + r \<noteq> 2147483647" using nz mod by auto
  show u: "unat (Random_Next s) = (16807 * unat s) mod 2147483647"
  proof (cases "q + r > 2147483647")
    case True
    then have "unat (Random_Next s) = q + r - 2147483647"
      unfolding R by (simp add: word_less_nat_alt us rand_M_def unat_sub_if')
    moreover have "(q + r) mod 2147483647 = q + r - 2147483647" using True qr by (simp add: mod_if)
    ultimately show ?thesis using mod by (simp add: p_def x_def)
  next
    case False
    then have "unat (Random_Next s) = q + r" unfolding R by (simp add: word_less_nat_alt us rand_M_def)
    moreover have "(q + r) mod 2147483647 = q + r" using False ne by simp
    ultimately show ?thesis using mod by (simp add: p_def x_def)
  qed
  show "good_seed (Random_Next s)" unfolding good_seed_def u using nz by (simp add: p_def x_def)
qed

text \<open>
  The generator: from a seed made by the constructor, \<open>Next\<close> computes exactly
  \<open>16807 * seed mod (2 ^ 31 - 1)\<close> in spite of the reduction by shifts and one subtraction, and never
  reaches the fixed points 0 and \<open>2 ^ 31 - 1\<close>, whatever seed the application gives.
\<close>

theorem Random_Next_correct:
  "good_seed ((Random_Next ^^ n) (mk_Random s)) \<and>
   unat ((Random_Next ^^ n) (mk_Random s)) = (16807 ^ n * unat (mk_Random s)) mod 2147483647"
proof (induction n)
  case 0
  define x where "x = s AND 0x7fffffff"
  have le: "unat x \<le> 2147483647" using word_and_le1 [of s "0x7fffffff"] unfolding x_def word_le_nat_alt by simp
  have "good_seed (mk_Random s)"
  proof (cases "x = 0 \<or> x = 2147483647")
    case True
    then have "mk_Random s = 1" unfolding mk_Random_def Let_def x_def [symmetric] by simp
    then show ?thesis by (simp add: good_seed_def)
  next
    case False
    then have "mk_Random s = x" unfolding mk_Random_def Let_def x_def [symmetric] by simp
    moreover have "unat x \<noteq> 0" "unat x \<noteq> 2147483647" using False by (simp_all add: word_unat_eq_iff)
    ultimately show ?thesis using le by (simp add: good_seed_def)
  qed
  then show ?case by (simp add: good_seed_def)
next
  case (Suc n)
  then show ?case
    using Random_Next_nat [of "(Random_Next ^^ n) (mk_Random s)"] by (simp add: mod_mult_right_eq mult.assoc)
qed

end
