(* ===== verification/Comparator.thy ===== *)
theory Comparator
  imports SliceStatus
begin

text \<open>
  include/leveldb/comparator.h and util/comparator.cc. The locale \<open>comparator\<close> is the contract of the
  abstract class: a total preorder on the legal keys (the locale \<open>three_way\<close>, which the skip list
  needs alone), and the laws of the two methods that shorten the keys of index blocks. The comparator of byte strings meets it.
\<close>

section \<open>The interface\<close>

text \<open>A three-way comparison that is a total preorder on the legal values.\<close>

locale three_way =
  fixes legal :: "'k \<Rightarrow> bool"
    and Compare :: "'k \<Rightarrow> 'k \<Rightarrow> int"
  assumes compare_flip: "legal a \<Longrightarrow> legal b \<Longrightarrow> Compare b a < 0 \<longleftrightarrow> 0 < Compare a b"
    and compare_trans: "legal a \<Longrightarrow> legal b \<Longrightarrow> legal c \<Longrightarrow> Compare a b \<le> 0 \<Longrightarrow> Compare b c \<le> 0 \<Longrightarrow> Compare a c \<le> 0"
begin

lemma compare_refl [simp]: "legal a \<Longrightarrow> Compare a a = 0"
  using compare_flip [of a a] by linarith

lemma compare_0_sym: "legal a \<Longrightarrow> legal b \<Longrightarrow> Compare a b = 0 \<longleftrightarrow> Compare b a = 0"
  using compare_flip [of a b] compare_flip [of b a] by linarith

lemma compare_less_trans:
  "legal a \<Longrightarrow> legal b \<Longrightarrow> legal c \<Longrightarrow> Compare a b \<le> 0 \<Longrightarrow> Compare b c < 0 \<Longrightarrow> Compare a c < 0"
  "legal a \<Longrightarrow> legal b \<Longrightarrow> legal c \<Longrightarrow> Compare a b < 0 \<Longrightarrow> Compare b c \<le> 0 \<Longrightarrow> Compare a c < 0"
proof -
  assume l: "legal a" "legal b" "legal c"
  have f: "0 < Compare a c \<longleftrightarrow> Compare c a < 0" "0 < Compare a b \<longleftrightarrow> Compare b a < 0" "0 < Compare b c \<longleftrightarrow> Compare c b < 0"
    "0 < Compare c a \<longleftrightarrow> Compare a c < 0" "0 < Compare b a \<longleftrightarrow> Compare a b < 0" "0 < Compare c b \<longleftrightarrow> Compare b c < 0"
    using l compare_flip by auto
  show "Compare a c < 0" if "Compare a b \<le> 0" "Compare b c < 0"
    using that f compare_trans [of a b c] compare_trans [of c a b] l by linarith
  show "Compare a c < 0" if "Compare a b < 0" "Compare b c \<le> 0"
    using that f compare_trans [of a b c] compare_trans [of b c a] l by linarith
qed

text \<open>Keys the comparator does not distinguish compare alike with all others.\<close>

lemma compare_cong:
  assumes "legal a" and "legal b" and "legal c" and "Compare a b = 0"
  shows "Compare a c < 0 \<longleftrightarrow> Compare b c < 0" and "Compare a c = 0 \<longleftrightarrow> Compare b c = 0"
proof -
  have ba: "Compare b a = 0" using assms compare_0_sym by blast
  have f: "0 < Compare a c \<longleftrightarrow> Compare c a < 0" "0 < Compare b c \<longleftrightarrow> Compare c b < 0" using assms compare_flip by auto
  show 1: "Compare a c < 0 \<longleftrightarrow> Compare b c < 0"
    using assms ba compare_less_trans(1) [of a b c] compare_less_trans(1) [of b a c] by auto
  show "Compare a c = 0 \<longleftrightarrow> Compare b c = 0"
    using assms ba f 1 compare_less_trans(2) [of c a b] compare_less_trans(2) [of c b a] by auto
qed

end

text \<open>The contract of the abstract class \<open>Comparator\<close>.\<close>

locale comparator = three_way legal Compare
  for legal :: "slice \<Rightarrow> bool" and Compare :: "slice \<Rightarrow> slice \<Rightarrow> int" +
  fixes FindShortestSeparator :: "slice \<Rightarrow> slice \<Rightarrow> slice"
    and FindShortSuccessor :: "slice \<Rightarrow> slice"
  assumes separator: "legal s \<Longrightarrow> legal l \<Longrightarrow> Compare s l < 0 \<Longrightarrow>
      legal (FindShortestSeparator s l) \<and> Compare s (FindShortestSeparator s l) \<le> 0 \<and> Compare (FindShortestSeparator s l) l < 0"
    and separator_same: "legal s \<Longrightarrow> legal l \<Longrightarrow> \<not> Compare s l < 0 \<Longrightarrow> FindShortestSeparator s l = s"
    and successor: "legal s \<Longrightarrow> legal (FindShortSuccessor s) \<and> Compare s (FindShortSuccessor s) \<le> 0"

section \<open>The comparator of byte strings\<close>

definition BytewiseCompare :: "slice \<Rightarrow> slice \<Rightarrow> int" where
  "BytewiseCompare a b = slice_compare a b"

text \<open>The loop that finds the length of the common prefix.\<close>

fun common_prefix :: "byte list \<Rightarrow> byte list \<Rightarrow> nat" where
  "common_prefix (x # xs) (y # ys) = (if x = y then Suc (common_prefix xs ys) else 0)"
| "common_prefix _ _ = 0"

definition FindShortestSeparator :: "slice \<Rightarrow> slice \<Rightarrow> slice" where
  "FindShortestSeparator start limit =
     (let min_length = min (length start) (length limit);
          diff_index = common_prefix start limit
      in if diff_index \<ge> min_length then start
         else let diff_byte = start ! diff_index
              in if diff_byte < 0xff \<and> unat diff_byte + 1 < unat (limit ! diff_index)
                 then take (diff_index + 1) (start[diff_index := diff_byte + 1])
                 else start)"

text \<open>The \<open>for\<close> loop of \<open>FindShortSuccessor\<close>; the bytes before are unchanged.\<close>

fun FindShortSuccessor :: "slice \<Rightarrow> slice" where
  "FindShortSuccessor [] = []"
| "FindShortSuccessor (b # bs) = (if b \<noteq> 0xff then [b + 1] else b # FindShortSuccessor bs)"

lemma byte_succ: "(b :: byte) < 0xff \<Longrightarrow> b < b + 1" "(b :: byte) \<noteq> 0xff \<Longrightarrow> b < b + 1"
  "b < 0xff \<Longrightarrow> unat (b + 1) = unat b + 1"
proof -
  have u: "unat (b + 1) = unat b + 1" if "b \<noteq> 0xff"
  proof -
    have "unat b \<noteq> 255" using that by (simp add: word_unat_eq_iff)
    then have "unat b + 1 < 256" using word8_le_255 [of b] by linarith
    then show ?thesis by (simp add: unat_word_ariths(1))
  qed
  then show "b \<noteq> 0xff \<Longrightarrow> b < b + 1" by (simp add: word_less_nat_alt)
  then show "b < 0xff \<Longrightarrow> b < b + 1" by auto
  show "b < 0xff \<Longrightarrow> unat (b + 1) = unat b + 1" using u by auto
qed


lemma common_prefix_le: "common_prefix a b \<le> length a" "common_prefix a b \<le> length b"
  by (induction a b rule: common_prefix.induct) auto

lemma separator_Cons:
  "FindShortestSeparator (x # xs) (y # ys) =
     (if x = y then x # FindShortestSeparator xs ys
      else if x < 0xff \<and> unat x + 1 < unat y then [x + 1] else x # xs)"
  by (simp add: FindShortestSeparator_def Let_def)

lemma separator_Nil: "FindShortestSeparator [] ys = []" "FindShortestSeparator xs [] = xs"
  by (simp_all add: FindShortestSeparator_def)

lemma separator_between:
  "slice_compare s l < 0 \<Longrightarrow>
   slice_compare s (FindShortestSeparator s l) \<le> 0 \<and> slice_compare (FindShortestSeparator s l) l < 0"
proof (induction s l rule: common_prefix.induct)
  case (1 x xs y ys)
  show ?case
  proof (cases "x = y")
    case False
    then have "x < y" using 1(2) by (auto split: if_splits)
    then show ?thesis
      using byte_succ(1,3) [of x] by (auto simp: slice_compare_refl separator_Cons word_less_nat_alt)
  qed (use 1 in \<open>auto simp: separator_Cons\<close>)
qed (auto simp: separator_Nil split: if_splits)

lemma separator_not_less: "\<not> slice_compare s l < 0 \<Longrightarrow> FindShortestSeparator s l = s"
proof (induction s l rule: common_prefix.induct)
  case (1 x xs y ys)
  then show ?case by (auto simp: separator_Cons word_less_nat_alt split: if_splits)
qed (auto simp: separator_Nil)

lemma separator_length: "length (FindShortestSeparator s l) \<le> length s"
  using common_prefix_le(1) [of s l] by (auto simp: FindShortestSeparator_def Let_def)

lemma successor_ge: "slice_compare s (FindShortSuccessor s) \<le> 0"
  by (induction s) (auto simp: byte_succ(2))

lemma successor_length: "length (FindShortSuccessor s) \<le> length s"
  by (induction s) auto

interpretation bytewise: comparator "\<lambda>_. True" BytewiseCompare FindShortestSeparator FindShortSuccessor
proof
  fix a b c s l :: slice
  show "BytewiseCompare b a < 0 \<longleftrightarrow> 0 < BytewiseCompare a b"
    using slice_compare_antisym [of a b] by (simp add: BytewiseCompare_def)
  show "BytewiseCompare a b \<le> 0 \<Longrightarrow> BytewiseCompare b c \<le> 0 \<Longrightarrow> BytewiseCompare a c \<le> 0"
    unfolding BytewiseCompare_def by (rule slice_compare_trans)
  show "BytewiseCompare s l < 0 \<Longrightarrow> True \<and> BytewiseCompare s (FindShortestSeparator s l) \<le> 0 \<and>
      BytewiseCompare (FindShortestSeparator s l) l < 0"
    using separator_between by (simp add: BytewiseCompare_def)
  show "\<not> BytewiseCompare s l < 0 \<Longrightarrow> FindShortestSeparator s l = s"
    using separator_not_less by (simp add: BytewiseCompare_def)
  show "True \<and> BytewiseCompare s (FindShortSuccessor s) \<le> 0"
    using successor_ge by (simp add: BytewiseCompare_def)
qed

text \<open>
  The default comparator: it orders byte strings lexicographically by unsigned bytes and
  distinguishes all of them; the separator of two keys in order lies from the first (included) to the
  second (excluded) and is no longer than the first, and the short successor of a key is not below it
  and no longer. These are the facts that make the shortened keys of index blocks correct.
\<close>

theorem bytewise_comparator_correct:
  "(BytewiseCompare a b < 0 \<longleftrightarrow> ord_class.lexordp a b) \<and> (BytewiseCompare a b = 0 \<longleftrightarrow> a = b) \<and>
   (if BytewiseCompare a b < 0
    then BytewiseCompare a (FindShortestSeparator a b) \<le> 0 \<and> BytewiseCompare (FindShortestSeparator a b) b < 0
    else FindShortestSeparator a b = a) \<and> length (FindShortestSeparator a b) \<le> length a \<and>
   BytewiseCompare a (FindShortSuccessor a) \<le> 0 \<and> length (FindShortSuccessor a) \<le> length a"
  using bytewise.separator [of a b] bytewise.separator_same [of a b] bytewise.successor [of a]
  by (simp add: slice_compare_less BytewiseCompare_def separator_length successor_length)

end
