(* ===== verification/SkipList.thy ===== *)
theory SkipList
  imports RandomGen Comparator
begin

text \<open>
  db/skiplist.h: the skip list behind memtables. Nodes live in an arena, a list indexed by their
  address; the head is node 0. An access outside the arena or beyond the height of a node has the value
  \<^term>\<open>None\<close>, and so has a search that does not end. The atomic loads and stores are plain ones: the
  writer is alone by the contract of \<open>Insert\<close>, and readers are not modelled in parallel with it.
\<close>

section \<open>Nodes\<close>

record 'k node =
  key :: 'k
  links :: "nat option list"

record 'k skiplist =
  nodes :: "'k node list"
  max_height :: nat
  rnd :: u32

definition kMaxHeight :: nat where "kMaxHeight = 12"
definition kBranching :: nat where "kBranching = 4"

definition head :: nat where "head = 0"

text \<open>\<open>x->Next(n)\<close> and \<open>x->SetNext(n, y)\<close>.\<close>

definition Next :: "'k node list \<Rightarrow> nat \<Rightarrow> nat \<Rightarrow> nat option option" where
  "Next ns x n = Option.bind (rd ns x) (\<lambda>nd. rd (links nd) n)"

definition SetNext :: "'k node list \<Rightarrow> nat \<Rightarrow> nat \<Rightarrow> nat option \<Rightarrow> 'k node list option" where
  "SetNext ns x n y =
     Option.bind (rd ns x) (\<lambda>nd. Option.bind (wr (links nd) n y) (\<lambda>l. wr ns x (nd\<lparr>links := l\<rparr>)))"

text \<open>\<open>NewNode(key, height)\<close>: the links are not initialised.\<close>

definition NewNode :: "'k \<Rightarrow> nat \<Rightarrow> 'k node" where
  "NewNode k height = \<lparr>key = k, links = replicate height None\<rparr>"

definition mk_SkipList :: "'k \<Rightarrow> 'k skiplist" where
  "mk_SkipList any_key = \<lparr>nodes = [NewNode any_key kMaxHeight], max_height = 1, rnd = mk_Random 0xdeadbeef\<rparr>"

text \<open>\<open>RandomHeight()\<close>; the first argument is the height so far.\<close>

function random_height :: "nat \<Rightarrow> u32 \<Rightarrow> nat \<times> u32" where
  "random_height height r =
     (if height < kMaxHeight then
        let r = Random_Next r in if unat r mod kBranching = 0 then random_height (height + 1) r else (height, r)
      else (height, r))"
  by pat_completeness auto
termination by (relation "measure (\<lambda>(h, _). kMaxHeight - h)") auto

declare random_height.simps [simp del]

definition RandomHeight :: "u32 \<Rightarrow> nat \<times> u32" where "RandomHeight r = random_height 1 r"

section \<open>Searching\<close>

definition KeyIsAfterNode :: "('k \<Rightarrow> 'k \<Rightarrow> int) \<Rightarrow> 'k node list \<Rightarrow> 'k \<Rightarrow> nat option \<Rightarrow> bool option" where
  "KeyIsAfterNode compare ns k n =
     (case n of None \<Rightarrow> Some False | Some y \<Rightarrow> map_option (\<lambda>nd. compare (key nd) k < 0) (rd ns y))"

text \<open>
  The loop of \<open>FindGreaterOrEqual\<close>. \<open>prev\<close> is the array the caller passes; its cells are uninitialised at first.
\<close>

partial_function (option) find_ge ::
  "('k \<Rightarrow> 'k \<Rightarrow> int) \<Rightarrow> 'k node list \<Rightarrow> 'k \<Rightarrow> nat \<Rightarrow> nat \<Rightarrow> nat option list \<Rightarrow> (nat option \<times> nat option list) option" where
  "find_ge compare ns k x level prev =
     Option.bind (Next ns x level) (\<lambda>nx.
     Option.bind (KeyIsAfterNode compare ns k nx) (\<lambda>after.
       if after then (case nx of None \<Rightarrow> None | Some y \<Rightarrow> find_ge compare ns k y level prev)
       else
         Option.bind (wr prev level (Some x)) (\<lambda>prev.
           if level = 0 then Some (nx, prev) else find_ge compare ns k x (level - 1) prev)))"

definition FindGreaterOrEqual ::
  "('k \<Rightarrow> 'k \<Rightarrow> int) \<Rightarrow> 'k skiplist \<Rightarrow> 'k \<Rightarrow> (nat option \<times> nat option list) option" where
  "FindGreaterOrEqual compare l k = find_ge compare (nodes l) k head (max_height l - 1) (replicate kMaxHeight None)"

partial_function (option) find_lt :: "('k \<Rightarrow> 'k \<Rightarrow> int) \<Rightarrow> 'k node list \<Rightarrow> 'k \<Rightarrow> nat \<Rightarrow> nat \<Rightarrow> nat option" where
  "find_lt compare ns k x level =
     Option.bind (Next ns x level) (\<lambda>nx.
       case nx of
         None \<Rightarrow> if level = 0 then Some x else find_lt compare ns k x (level - 1)
       | Some y \<Rightarrow>
           Option.bind (rd ns y) (\<lambda>nd.
             if compare (key nd) k \<ge> 0 then (if level = 0 then Some x else find_lt compare ns k x (level - 1))
             else find_lt compare ns k y level))"

definition FindLessThan :: "('k \<Rightarrow> 'k \<Rightarrow> int) \<Rightarrow> 'k skiplist \<Rightarrow> 'k \<Rightarrow> nat option" where
  "FindLessThan compare l k = find_lt compare (nodes l) k head (max_height l - 1)"

partial_function (option) find_last :: "'k node list \<Rightarrow> nat \<Rightarrow> nat \<Rightarrow> nat option" where
  "find_last ns x level =
     Option.bind (Next ns x level) (\<lambda>nx.
       case nx of
         None \<Rightarrow> if level = 0 then Some x else find_last ns x (level - 1)
       | Some y \<Rightarrow> find_last ns y level)"

definition FindLast :: "'k skiplist \<Rightarrow> nat option" where
  "FindLast l = find_last (nodes l) head (max_height l - 1)"

declare find_ge.simps [code] find_lt.simps [code] find_last.simps [code]

section \<open>Operations\<close>

text \<open>The loop that links the new node \<open>x\<close> into the levels from \<open>i\<close>; the first argument is the number of levels left.\<close>

fun link_levels :: "nat \<Rightarrow> nat \<Rightarrow> nat \<Rightarrow> nat option list \<Rightarrow> 'k node list \<Rightarrow> 'k node list option" where
  "link_levels 0 i x prev ns = Some ns"
| "link_levels (Suc n) i x prev ns =
     Option.bind (Option.bind (rd prev i) (\<lambda>p. p)) (\<lambda>p.
     Option.bind (Next ns p i) (\<lambda>nx.
     Option.bind (SetNext ns x i nx) (\<lambda>ns.
     Option.bind (SetNext ns p i (Some x)) (\<lambda>ns.
       link_levels n (i + 1) x prev ns))))"

text \<open>The loop \<open>for (int i = GetMaxHeight(); i < height; i++) prev[i] = head_\<close>.\<close>

fun raise_prev :: "nat \<Rightarrow> nat \<Rightarrow> nat option list \<Rightarrow> nat option list option" where
  "raise_prev 0 i prev = Some prev"
| "raise_prev (Suc n) i prev = Option.bind (wr prev i (Some head)) (raise_prev n (i + 1))"

text \<open>Whether a node, if it is one, has the key: the test of \<open>Contains\<close> and of the assertion that no key is inserted twice.\<close>

definition has_key :: "('k \<Rightarrow> 'k \<Rightarrow> int) \<Rightarrow> 'k skiplist \<Rightarrow> 'k \<Rightarrow> nat option \<Rightarrow> bool option" where
  "has_key compare l k x = (case x of None \<Rightarrow> Some False | Some y \<Rightarrow> map_option (\<lambda>nd. compare k (key nd) = 0) (rd (nodes l) y))"

definition Insert :: "('k \<Rightarrow> 'k \<Rightarrow> int) \<Rightarrow> 'k \<Rightarrow> 'k skiplist \<Rightarrow> 'k skiplist option" where
  "Insert compare k l =
     Option.bind (FindGreaterOrEqual compare l k) (\<lambda>(x, prev).
       Option.bind (has_key compare l k x) (\<lambda>duplicate.
       if duplicate then None
       else let (height, r) = RandomHeight (rnd l)
       in Option.bind (if height > max_height l then raise_prev (height - max_height l) (max_height l) prev else Some prev) (\<lambda>prev.
          let mh = (if height > max_height l then height else max_height l);
              x = length (nodes l)
          in map_option (\<lambda>ns. \<lparr>nodes = ns, max_height = mh, rnd = r\<rparr>)
               (link_levels height 0 x prev (nodes l @ [NewNode k height])))))"

definition Contains :: "('k \<Rightarrow> 'k \<Rightarrow> int) \<Rightarrow> 'k skiplist \<Rightarrow> 'k \<Rightarrow> bool option" where
  "Contains compare l k =
     Option.bind (FindGreaterOrEqual compare l k) (\<lambda>(x, _). has_key compare l k x)"

text \<open>
  Iterators: the state is \<open>node_\<close>. \<open>Next\<close>, \<open>Prev\<close> and \<open>key\<close> require a valid iterator.
\<close>

type_synonym iter = "nat option"

definition iter_Valid :: "iter \<Rightarrow> bool" where "iter_Valid it \<longleftrightarrow> it \<noteq> None"

definition iter_key :: "'k skiplist \<Rightarrow> iter \<Rightarrow> 'k option" where
  "iter_key l it = Option.bind it (\<lambda>x. map_option key (rd (nodes l) x))"

definition iter_Next :: "'k skiplist \<Rightarrow> iter \<Rightarrow> iter option" where
  "iter_Next l it = Option.bind it (\<lambda>x. Next (nodes l) x 0)"

definition no_head :: "nat \<Rightarrow> iter" where "no_head x = (if x = head then None else Some x)"

definition iter_Prev :: "('k \<Rightarrow> 'k \<Rightarrow> int) \<Rightarrow> 'k skiplist \<Rightarrow> iter \<Rightarrow> iter option" where
  "iter_Prev compare l it = Option.bind (iter_key l it) (\<lambda>k. map_option no_head (FindLessThan compare l k))"

definition iter_Seek :: "('k \<Rightarrow> 'k \<Rightarrow> int) \<Rightarrow> 'k skiplist \<Rightarrow> 'k \<Rightarrow> iter option" where
  "iter_Seek compare l target = map_option fst (FindGreaterOrEqual compare l target)"

definition iter_SeekToFirst :: "'k skiplist \<Rightarrow> iter option" where
  "iter_SeekToFirst l = Next (nodes l) head 0"

definition iter_SeekToLast :: "'k skiplist \<Rightarrow> iter option" where
  "iter_SeekToLast l = map_option no_head (FindLast l)"

end
