(* ===== verification/Cursor.thy ===== *)
theory Cursor
  imports Comparator
begin

text \<open>
  include/leveldb/iterator.h: the contract of iterators. All iterators of the store walk over a sequence of items; the
  locale \<open>cursor\<close> states what \<open>Valid\<close>, \<open>Next\<close>, \<open>Prev\<close> and the access to the item do at a position of it, where the position after the last
  item stands for an iterator that is not valid. Skip lists, memtables and blocks provide it. The theory
  also has the facts on the rank of a key in a sorted list that the seek operations share.
\<close>

section \<open>Ranks\<close>

text \<open>The number of keys before \<open>k\<close>.\<close>

definition rank :: "('k \<Rightarrow> 'k \<Rightarrow> int) \<Rightarrow> 'k \<Rightarrow> 'k list \<Rightarrow> nat" where
  "rank compare k ks = length (takeWhile (\<lambda>x. compare x k < 0) ks)"

context three_way
begin

lemma rank_hit:
  assumes "sorted_wrt (\<lambda>a b. Compare a b < 0) ks" and "\<forall>x\<in>set ks. legal x" and "legal k"
  shows "(\<exists>x\<in>set ks. Compare x k = 0) \<longleftrightarrow> rank Compare k ks < length ks \<and> Compare k (ks ! rank Compare k ks) = 0"
  using assms
proof (induction ks)
  case (Cons y ys)
  show ?case
  proof (cases "Compare y k < 0")
    case True
    then show ?thesis using Cons by (simp add: rank_def)
  next
    case False
    have "\<not> Compare x k = 0" if "x \<in> set ys" "Compare y k \<noteq> 0" for x
    proof -
      have "Compare k y < 0" "Compare y x \<le> 0" using False that Cons.prems compare_flip [of y k] by auto
      then have "Compare k x < 0" using compare_less_trans(2) [of k y x] Cons.prems that by auto
      then show ?thesis using compare_flip [of x k] Cons.prems that by auto
    qed
    then show ?thesis using False Cons.prems compare_0_sym [of y k] by (auto simp: rank_def)
  qed
qed (simp add: rank_def)

text \<open>The key at the rank of \<open>k\<close> is the least one not before \<open>k\<close>.\<close>

lemma rank_least:
  assumes "sorted_wrt (\<lambda>a b. Compare a b < 0) ks" and "\<forall>x\<in>set ks. legal x" and "x \<in> set ks" and "\<not> Compare x k < 0"
  shows "rank Compare k ks < length ks \<and> \<not> Compare (ks ! rank Compare k ks) k < 0 \<and> Compare (ks ! rank Compare k ks) x \<le> 0"
  using assms
proof (induction ks)
  case (Cons y ys)
  then show ?case by (cases "Compare y k < 0") (auto simp: rank_def less_imp_le)
qed simp

lemma rank_not_before: "rank Compare k ks < length ks \<Longrightarrow> \<not> Compare (ks ! rank Compare k ks) k < 0"
  unfolding rank_def by (rule nth_length_takeWhile)

lemma rank_nth:
  assumes "sorted_wrt (\<lambda>a b. Compare a b < 0) ks" and "\<forall>x\<in>set ks. legal x" and "i < length ks"
  shows "rank Compare (ks ! i) ks = i"
  using assms
proof (induction ks arbitrary: i)
  case (Cons y ys)
  then show ?case by (cases i) (auto simp: rank_def)
qed simp

lemma rank_greater:
  assumes "sorted_wrt (\<lambda>a b. Compare a b < 0) ks" and "\<forall>x\<in>set ks. legal x" and "legal t" and "i < length ks" and "Compare (ks ! i) t < 0"
  shows "i < rank Compare t ks"
proof (rule ccontr)
  assume n: "\<not> i < rank Compare t ks"
  let ?r = "rank Compare t ks"
  have r: "?r < length ks" using n assms(4) by simp
  have "Compare (ks ! ?r) (ks ! i) \<le> 0" using n assms(1,2,4) r by (cases "?r = i") (auto simp: sorted_wrt_iff_nth_less less_imp_le)
  then have "Compare (ks ! ?r) t < 0" using compare_less_trans(1) [of "ks ! ?r" "ks ! i" t] assms r by simp
  then show False using rank_not_before [OF r] by simp
qed

lemma before_rank: "i < rank Compare t ks \<Longrightarrow> Compare (ks ! i) t < 0"
  unfolding rank_def by (metis nth_mem set_takeWhileD takeWhile_nth)

lemma rank_eqI:
  assumes "c \<le> length ks" and "\<forall>j<c. Compare (ks ! j) t < 0" and "c < length ks \<Longrightarrow> \<not> Compare (ks ! c) t < 0"
  shows "rank Compare t ks = c"
  unfolding rank_def using assms by (subst takeWhile_eq_take_P_nth [of c]) auto

end

section \<open>Cursors\<close>

text \<open>The keys an iterator passes while it is valid, at most \<open>n\<close>.\<close>

fun scan :: "('i \<Rightarrow> 'k option) \<Rightarrow> ('i \<Rightarrow> 'i option) \<Rightarrow> ('i \<Rightarrow> bool) \<Rightarrow> nat \<Rightarrow> 'i \<Rightarrow> 'k list option" where
  "scan keyf move valid n it =
     (if \<not> valid it then Some []
      else case n of 0 \<Rightarrow> None
        | Suc n \<Rightarrow> Option.bind (keyf it) (\<lambda>k. Option.bind (move it) (\<lambda>it. map_option ((#) k) (scan keyf move valid n it))))"

declare scan.simps [simp del]

locale cursor =
  fixes items :: "'a list"
    and pos :: "'i \<Rightarrow> nat \<Rightarrow> bool"
    and valid :: "'i \<Rightarrow> bool"
    and get :: "'i \<Rightarrow> 'a option"
    and succ :: "'i \<Rightarrow> 'i option"
    and pred :: "'i \<Rightarrow> 'i option"
  assumes valid_at: "pos it i \<Longrightarrow> i \<le> length items \<and> (valid it \<longleftrightarrow> i < length items)"
    and get_at: "pos it i \<Longrightarrow> i < length items \<Longrightarrow> get it = Some (items ! i)"
    and succ_at: "pos it i \<Longrightarrow> i < length items \<Longrightarrow> \<exists>it'. succ it = Some it' \<and> pos it' (i + 1)"
    and pred_at_pos: "pos it i \<Longrightarrow> i < length items \<Longrightarrow> \<exists>it'. pred it = Some it' \<and> pos it' (if i = 0 then length items else i - 1)"
begin

lemma scan_forward: "pos it i \<Longrightarrow> length items \<le> i + n \<Longrightarrow> scan get succ valid n it = Some (drop i items)"
proof (induction n arbitrary: it i)
  case 0
  then show ?case using valid_at by (subst scan.simps) auto
next
  case (Suc n)
  show ?case
  proof (cases "i < length items")
    case True
    obtain it' where it': "succ it = Some it'" "pos it' (i + 1)" using succ_at [OF Suc.prems(1) True] by blast
    have "valid it" "get it = Some (items ! i)" using valid_at [OF Suc.prems(1)] get_at [OF Suc.prems(1)] True by auto
    then show ?thesis using it' Suc.IH [OF it'(2)] Suc.prems(2) Cons_nth_drop_Suc [OF True] by (subst scan.simps) simp
  qed (use Suc.prems(1) valid_at in \<open>subst scan.simps, auto\<close>)
qed

lemma scan_backward: "pos it i \<Longrightarrow> i < length items \<Longrightarrow> i < n \<Longrightarrow> scan get pred valid n it = Some (rev (take (i + 1) items))"
proof (induction n arbitrary: it i)
  case (Suc n)
  obtain it' where it': "pred it = Some it'" "pos it' (if i = 0 then length items else i - 1)" using pred_at_pos [OF Suc.prems(1,2)] by blast
  have v: "valid it" "get it = Some (items ! i)" using valid_at [OF Suc.prems(1)] get_at [OF Suc.prems(1)] Suc.prems(2) by auto
  have tk: "rev (take (i + 1) items) = items ! i # rev (take i items)" using take_Suc_conv_app_nth [OF Suc.prems(2)] by simp
  show ?case
  proof (cases i)
    case 0
    then have "\<not> valid it'" using it'(2) valid_at by auto
    then have "scan get pred valid n it' = Some []" by (subst scan.simps) simp
    then show ?thesis using v it'(1) tk 0 by (subst scan.simps) simp
  next
    case (Suc j)
    then have "scan get pred valid n it' = Some (rev (take i items))" using Suc.IH [of it' j] it'(2) Suc.prems(2,3) by simp
    then show ?thesis using v it'(1) tk by (subst scan.simps) simp
  qed
qed auto

text \<open>From the first item forwards and from the last one backwards.\<close>

lemma scan_all:
  "pos it 0 \<Longrightarrow> scan get succ valid (length items) it = Some items"
  "pos it (length items - 1) \<Longrightarrow> scan get pred valid (length items) it = Some (rev items)"
proof -
  show "pos it 0 \<Longrightarrow> scan get succ valid (length items) it = Some items" using scan_forward [of it 0] by simp
  assume p: "pos it (length items - 1)"
  show "scan get pred valid (length items) it = Some (rev items)"
  proof (cases "items = []")
    case True
    then show ?thesis using valid_at [OF p] by (subst scan.simps) simp
  qed (use scan_backward [OF p] in auto)
qed

end

end
