(* ===== verification/SkipListCorrect.thy ===== *)
theory SkipListCorrect
  imports SkipList Cursor "HOL-Library.Multiset"
begin

text \<open>
  Correctness of the skip list: every operation is refined by the corresponding one on a sorted list,
  for any comparison that is a total preorder (the locale \<open>three_way\<close>).
\<close>

section \<open>Chains\<close>

text \<open>From node \<open>x\<close>, the links of level \<open>i\<close> lead through the nodes \<open>ys\<close> and end.\<close>

fun chain :: "'k node list \<Rightarrow> nat \<Rightarrow> nat \<Rightarrow> nat list \<Rightarrow> bool" where
  "chain ns i x [] \<longleftrightarrow> Next ns x i = Some None"
| "chain ns i x (y # ys) \<longleftrightarrow> Next ns x i = Some (Some y) \<and> chain ns i y ys"

lemma chain_from: "chain ns i x (ys @ zs) \<Longrightarrow> chain ns i (last (x # ys)) zs"
  by (induction ys arbitrary: x) auto

lemma chain_cong: "(\<And>z. z \<in> set (x # ys) \<Longrightarrow> Next ns' z i = Next ns z i) \<Longrightarrow> chain ns' i x ys \<longleftrightarrow> chain ns i x ys"
  by (induction ys arbitrary: x) auto

definition height :: "'k node list \<Rightarrow> nat \<Rightarrow> nat" where
  "height ns x = length (links (ns ! x))"

definition key_at :: "'k node list \<Rightarrow> nat \<Rightarrow> 'k" where
  "key_at ns x = key (ns ! x)"

text \<open>The nodes of level \<open>i\<close>, in the order of the list.\<close>

definition level :: "'k node list \<Rightarrow> nat \<Rightarrow> nat list \<Rightarrow> nat list" where
  "level ns i xs = filter (\<lambda>x. i < height ns x) xs"

section \<open>The invariant\<close>

text \<open>\<open>xs\<close> are the nodes in order.\<close>

definition skip_inv :: "('k \<Rightarrow> bool) \<Rightarrow> ('k \<Rightarrow> 'k \<Rightarrow> int) \<Rightarrow> 'k skiplist \<Rightarrow> nat list \<Rightarrow> bool" where
  "skip_inv legal compare l xs \<longleftrightarrow>
     nodes l \<noteq> [] \<and> height (nodes l) head = kMaxHeight \<and> 1 \<le> max_height l \<and> max_height l \<le> kMaxHeight \<and>
     distinct xs \<and> set xs = {1..<length (nodes l)} \<and>
     (\<forall>x\<in>set xs. legal (key_at (nodes l) x) \<and> 1 \<le> height (nodes l) x \<and> height (nodes l) x \<le> max_height l) \<and>
     sorted_wrt (\<lambda>x y. compare (key_at (nodes l) x) (key_at (nodes l) y) < 0) xs \<and>
     (\<forall>i<kMaxHeight. chain (nodes l) i head (level (nodes l) i xs))"

definition before :: "('k \<Rightarrow> 'k \<Rightarrow> int) \<Rightarrow> 'k node list \<Rightarrow> 'k \<Rightarrow> nat list \<Rightarrow> nat list" where
  "before compare ns k xs = takeWhile (\<lambda>x. compare (key_at ns x) k < 0) xs"

definition after :: "('k \<Rightarrow> 'k \<Rightarrow> int) \<Rightarrow> 'k node list \<Rightarrow> 'k \<Rightarrow> nat list \<Rightarrow> nat list" where
  "after compare ns k xs = dropWhile (\<lambda>x. compare (key_at ns x) k < 0) xs"

lemma before_after: "before compare ns k xs @ after compare ns k xs = xs"
  by (simp add: before_def after_def)

lemma level_append [simp]: "level ns i (xs @ ys) = level ns i xs @ level ns i ys"
  by (simp add: level_def)

lemma level_set: "x \<in> set (level ns i xs) \<Longrightarrow> x \<in> set xs"
  by (auto simp: level_def)

lemma set_before: "x \<in> set (before compare ns k xs) \<Longrightarrow> x \<in> set xs \<and> compare (key_at ns x) k < 0"
  by (auto simp: before_def dest: set_takeWhileD)

definition hd_opt :: "'a list \<Rightarrow> 'a option" where
  "hd_opt xs = (case xs of [] \<Rightarrow> None | x # _ \<Rightarrow> Some x)"

lemma chain_hd: "chain ns i x zs \<Longrightarrow> Next ns x i = Some (hd_opt zs)"
  by (cases zs) (simp_all add: hd_opt_def)

text \<open>A walk along one level, over nodes in the arena with keys before \<open>k\<close> up to one not before it.\<close>

lemma find_ge_level:
  assumes "chain ns i x (us @ vs)" and "\<forall>u\<in>set us. u < length ns \<and> compare (key_at ns u) k < 0"
    and "vs = [] \<or> hd vs < length ns \<and> \<not> compare (key_at ns (hd vs)) k < 0" and "i < length prev"
  shows "find_ge compare ns k x i prev =
    (if i = 0 then Some (hd_opt vs, prev[i := Some (last (x # us))])
     else find_ge compare ns k (last (x # us)) (i - 1) (prev[i := Some (last (x # us))]))"
  using assms
proof (induction us arbitrary: x)
  case Nil
  then have "Next ns x i = Some (hd_opt vs)" by (simp add: chain_hd)
  moreover have "KeyIsAfterNode compare ns k (hd_opt vs) = Some False"
    using Nil.prems(3) by (cases vs) (auto simp: KeyIsAfterNode_def hd_opt_def key_at_def)
  ultimately show ?case using Nil.prems(4) by (subst find_ge.simps) simp
next
  case (Cons u us)
  have "KeyIsAfterNode compare ns k (Some u) = Some True"
    using Cons.prems(2) by (simp add: KeyIsAfterNode_def key_at_def)
  then have "find_ge compare ns k x i prev = find_ge compare ns k u i prev"
    using Cons.prems(1) by (subst find_ge.simps) simp
  moreover have "last (x # u # us) = last (u # us)" by simp
  ultimately show ?case using Cons.IH [of u] Cons.prems unfolding append_Cons chain.simps by (metis insert_iff list.simps(15))
qed

text \<open>What the search leaves in \<open>prev\<close>: on each level the last node before \<open>k\<close>.\<close>

definition preds :: "'k node list \<Rightarrow> nat list \<Rightarrow> nat \<Rightarrow> nat option list \<Rightarrow> nat option list" where
  "preds ns bs h prev = map (\<lambda>i. if i < h then Some (last (head # level ns i bs)) else prev ! i) [0..<length prev]"

lemma length_preds [simp]: "length (preds ns bs h prev) = length prev"
  by (simp add: preds_def)

lemma preds_nth: "i < length prev \<Longrightarrow> preds ns bs h prev ! i = (if i < h then Some (last (head # level ns i bs)) else prev ! i)"
  by (simp add: preds_def)

lemma level_split:
  assumes "j \<le> i"
  shows "\<exists>cs. last (head # level ns i bs) = last (head # cs) \<and> (\<exists>ds. level ns j bs = cs @ ds \<and> last (last (head # level ns i bs) # ds) = last (head # level ns j bs))"
proof (cases "level ns i bs = []")
  case True
  then show ?thesis by (intro exI [of _ "[]"]) auto
next
  case False
  let ?z = "last (level ns i bs)"
  have "?z \<in> set (level ns i bs)" using False by simp
  then have "?z \<in> set (level ns j bs)" using assms by (auto simp: level_def)
  then obtain ps ds where "level ns j bs = ps @ ?z # ds" by (metis split_list)
  then have "level ns j bs = (ps @ [?z]) @ ds" by simp
  then show ?thesis using False by (intro exI [of _ "ps @ [?z]"] conjI exI [of _ ds]) auto
qed

lemma find_ge_all:
  assumes chains: "\<forall>j\<le>i. chain ns j head (level ns j (bs @ as))" and len: "i < length prev"
    and bs: "\<forall>u\<in>set bs. u < length ns \<and> compare (key_at ns u) k < 0"
    and as: "\<forall>v\<in>set as. v < length ns \<and> \<not> compare (key_at ns v) k < 0"
    and x: "level ns i bs = cs @ ds" "x = last (head # cs)"
  shows "find_ge compare ns k x i prev = Some (hd_opt (level ns 0 as), preds ns bs (i + 1) prev)"
  using chains len x
proof (induction i arbitrary: x cs ds prev)
  case 0
  have c: "chain ns 0 x (ds @ level ns 0 as)" using 0 chain_from [of ns 0 head cs "ds @ level ns 0 as"] by simp
  have "\<forall>u\<in>set ds. u < length ns \<and> compare (key_at ns u) k < 0" using bs arg_cong [OF 0(3), of set] level_set by fastforce
  moreover have "level ns 0 as = [] \<or> hd (level ns 0 as) < length ns \<and> \<not> compare (key_at ns (hd (level ns 0 as))) k < 0"
    using as level_set list.set_sel(1) by metis
  ultimately have "find_ge compare ns k x 0 prev = Some (hd_opt (level ns 0 as), prev[0 := Some (last (x # ds))])"
    using find_ge_level [OF c] 0(2) by simp
  moreover have "last (x # ds) = last (head # level ns 0 bs)" using 0(3,4) by (cases ds) auto
  moreover have "prev[0 := Some (last (head # level ns 0 bs))] = preds ns bs 1 prev"
    using 0(2) by (intro nth_equalityI) (auto simp: preds_nth nth_list_update)
  ultimately show ?case by simp
next
  case (Suc i)
  have "chain ns (Suc i) head (cs @ ds @ level ns (Suc i) as)" using Suc.prems(1,3) by (metis append.assoc level_append order_refl)
  then have c: "chain ns (Suc i) x (ds @ level ns (Suc i) as)" unfolding Suc.prems(4) by (rule chain_from)
  have "\<forall>u\<in>set ds. u < length ns \<and> compare (key_at ns u) k < 0" using bs arg_cong [OF Suc.prems(3), of set] level_set by fastforce
  moreover have "level ns (Suc i) as = [] \<or> hd (level ns (Suc i) as) < length ns \<and> \<not> compare (key_at ns (hd (level ns (Suc i) as))) k < 0"
    using as level_set list.set_sel(1) by metis
  moreover have z: "last (x # ds) = last (head # level ns (Suc i) bs)" using Suc.prems(3,4) by (cases ds) auto
  ultimately have step: "find_ge compare ns k x (Suc i) prev = find_ge compare ns k (last (head # level ns (Suc i) bs)) i (prev[Suc i := Some (last (head # level ns (Suc i) bs))])"
    using find_ge_level [OF c] Suc.prems(2) by simp
  obtain cs' ds' where s: "last (head # level ns (Suc i) bs) = last (head # cs')" "level ns i bs = cs' @ ds'"
    using level_split [of i "Suc i" ns bs] by auto
  have "find_ge compare ns k (last (head # level ns (Suc i) bs)) i (prev[Suc i := Some (last (head # level ns (Suc i) bs))]) =
    Some (hd_opt (level ns 0 as), preds ns bs (i + 1) (prev[Suc i := Some (last (head # level ns (Suc i) bs))]))"
    using Suc.IH [OF _ _ s(2,1)] Suc.prems(1,2) by auto
  moreover have "preds ns bs (i + 1) (prev[Suc i := Some (last (head # level ns (Suc i) bs))]) = preds ns bs (Suc i + 1) prev"
    using Suc.prems(2) by (intro nth_equalityI) (auto simp: preds_nth nth_list_update less_Suc_eq)
  ultimately show ?case using step by simp
qed


section \<open>The other searches\<close>

lemma find_lt_level:
  assumes "chain ns i x (us @ vs)" and "\<forall>u\<in>set us. u < length ns \<and> compare (key_at ns u) k < 0"
    and "vs = [] \<or> hd vs < length ns \<and> \<not> compare (key_at ns (hd vs)) k < 0"
  shows "find_lt compare ns k x i = (if i = 0 then Some (last (x # us)) else find_lt compare ns k (last (x # us)) (i - 1))"
  using assms
proof (induction us arbitrary: x)
  case Nil
  then show ?case by (subst find_lt.simps) (cases vs; simp add: key_at_def not_less)
next
  case (Cons u us)
  then have "find_lt compare ns k x i = find_lt compare ns k u i"
    by (subst find_lt.simps) (simp add: key_at_def)
  then show ?case using Cons.IH [of u] Cons.prems by simp
qed

lemma find_last_level:
  "chain ns i x us \<Longrightarrow> find_last ns x i = (if i = 0 then Some (last (x # us)) else find_last ns (last (x # us)) (i - 1))"
proof (induction us arbitrary: x)
  case Nil
  then show ?case by (subst find_last.simps) simp
next
  case (Cons u us)
  then have "find_last ns x i = find_last ns u i" by (subst find_last.simps) simp
  then show ?case using Cons.IH [of u] Cons.prems by simp
qed

text \<open>Descending the levels: a search that moves each level to the last node before the key ends there.\<close>

lemma descend:
  assumes lev: "\<And>j x cs ds. j \<le> i \<Longrightarrow> level ns j bs = cs @ ds \<Longrightarrow> x = last (head # cs) \<Longrightarrow>
      F x j = (if j = 0 then Some (last (head # level ns j bs)) else F (last (head # level ns j bs)) (j - 1))"
    and x: "level ns i bs = cs @ ds" "x = last (head # cs)"
  shows "F x i = Some (last (head # level ns 0 bs))"
  using lev x
proof (induction i arbitrary: x cs ds)
  case (Suc i)
  obtain cs' ds' where s: "last (head # level ns (Suc i) bs) = last (head # cs')" "level ns i bs = cs' @ ds'"
    using level_split [of i "Suc i" ns bs] by auto
  have "F x (Suc i) = F (last (head # level ns (Suc i) bs)) i" using Suc.prems(1) [OF order_refl Suc.prems(2,3)] by simp
  also have "\<dots> = Some (last (head # level ns 0 bs))"
    using Suc.IH [OF Suc.prems(1) s(2,1)] by simp
  finally show ?case .
qed simp

section \<open>Linking a node\<close>

text \<open>Two arenas that differ in links only.\<close>

definition same_nodes :: "'k node list \<Rightarrow> 'k node list \<Rightarrow> bool" where
  "same_nodes ns ns' \<longleftrightarrow> length ns' = length ns \<and> (\<forall>x<length ns. key_at ns' x = key_at ns x \<and> height ns' x = height ns x)"

lemma same_nodes_trans: "same_nodes ns ns' \<Longrightarrow> same_nodes ns' ns'' \<Longrightarrow> same_nodes ns ns''"
  by (simp add: same_nodes_def)

lemma Next_defined: "Next ns x i \<noteq> None \<longleftrightarrow> x < length ns \<and> i < height ns x"
  by (auto simp: Next_def rd_def height_def)

lemma SetNext_Some:
  assumes "x < length ns" and "i < height ns x"
  shows "\<exists>ns'. SetNext ns x i y = Some ns' \<and> same_nodes ns ns' \<and>
    (\<forall>z j. Next ns' z j = (if z = x \<and> j = i then Some y else Next ns z j))"
proof -
  let ?ns = "ns[x := (ns ! x)\<lparr>links := (links (ns ! x))[i := y]\<rparr>]"
  have "SetNext ns x i y = Some ?ns" using assms by (simp add: SetNext_def height_def)
  moreover have "same_nodes ns ?ns" using assms(1) by (simp add: same_nodes_def key_at_def height_def nth_list_update)
  moreover have "Next ?ns z j = (if z = x \<and> j = i then Some y else Next ns z j)" for z j
    using assms by (auto simp: Next_def rd_def height_def nth_list_update)
  ultimately show ?thesis by blast
qed

lemma link_levels_Some:
  assumes "x < length ns" and "i + n \<le> height ns x" and "\<forall>j. i \<le> j \<and> j < i + n \<longrightarrow> j < length prev \<and> prev ! j = Some (p j) \<and> p j \<noteq> x \<and> p j < length ns \<and> j < height ns (p j)"
  shows "\<exists>ns'. link_levels n i x prev ns = Some ns' \<and> same_nodes ns ns' \<and>
    (\<forall>z j. Next ns' z j = (if i \<le> j \<and> j < i + n then (if z = x then Next ns (p j) j else if z = p j then Some (Some x) else Next ns z j) else Next ns z j))"
  using assms
proof (induction n arbitrary: i ns)
  case 0
  then show ?case by (auto simp: same_nodes_def)
next
  case (Suc n)
  have p: "i < length prev" "prev ! i = Some (p i)" "p i \<noteq> x" "p i < length ns" "i < height ns (p i)" using Suc.prems(3) by auto
  obtain nx where nx: "Next ns (p i) i = Some nx" using Next_defined [of ns "p i" i] p by auto
  obtain ns1 where 1: "SetNext ns x i nx = Some ns1" "same_nodes ns ns1" "\<forall>z j. Next ns1 z j = (if z = x \<and> j = i then Some nx else Next ns z j)"
    using SetNext_Some [of x ns i nx] Suc.prems(1,2) by auto
  have s1: "length ns1 = length ns" "\<forall>y<length ns. height ns1 y = height ns y" using 1(2) by (auto simp: same_nodes_def)
  obtain ns2 where 2: "SetNext ns1 (p i) i (Some x) = Some ns2" "same_nodes ns1 ns2" "\<forall>z j. Next ns2 z j = (if z = p i \<and> j = i then Some (Some x) else Next ns1 z j)"
    using SetNext_Some [of "p i" ns1 i "Some x"] p s1 by auto
  have s2: "length ns2 = length ns" "\<forall>y<length ns. height ns2 y = height ns y" using 2(2) s1 by (auto simp: same_nodes_def)
  have "x < length ns2" "(i + 1) + n \<le> height ns2 x" using Suc.prems(1,2) s2 by auto
  moreover have "\<forall>j. i + 1 \<le> j \<and> j < i + 1 + n \<longrightarrow> j < length prev \<and> prev ! j = Some (p j) \<and> p j \<noteq> x \<and> p j < length ns2 \<and> j < height ns2 (p j)"
    using Suc.prems(3) s2 by auto
  ultimately obtain ns3 where 3: "link_levels n (i + 1) x prev ns2 = Some ns3" "same_nodes ns2 ns3"
    "\<forall>z j. Next ns3 z j = (if i + 1 \<le> j \<and> j < i + 1 + n then (if z = x then Next ns2 (p j) j else if z = p j then Some (Some x) else Next ns2 z j) else Next ns2 z j)"
    using Suc.IH by blast
  have "link_levels (Suc n) i x prev ns = Some ns3" using p nx 1(1) 2(1) 3(1) by simp
  moreover have "same_nodes ns ns3" using 1(2) 2(2) 3(2) same_nodes_trans by blast
  moreover have "Next ns3 z j = (if i \<le> j \<and> j < i + Suc n then (if z = x then Next ns (p j) j else if z = p j then Some (Some x) else Next ns z j) else Next ns z j)" for z j
    unfolding 3(3) [rule_format] 2(3) [rule_format] 1(3) [rule_format] using nx p(3) by (cases "j = i") auto
  ultimately show ?case by blast
qed

lemma chain_insert:
  assumes "chain ns i x (us @ vs)" and "distinct (x # us @ vs)" and "a \<notin> set (x # us @ vs)"
    and new: "\<forall>z. Next ns' z i = (if z = a then Next ns (last (x # us)) i else if z = last (x # us) then Some (Some a) else Next ns z i)"
  shows "chain ns' i x (us @ a # vs)"
  using assms(1-3) new
proof (induction us arbitrary: x)
  case Nil
  have "chain ns' i a vs"
  proof (cases vs)
    case (Cons v vs')
    then have "Next ns' a i = Some (Some v)" using Nil by simp
    moreover have "Next ns' z i = Next ns z i" if "z \<in> set vs" for z using that Nil by auto
    then have "chain ns' i v vs'" using chain_cong [of v vs' ns' i ns] Nil(1) Cons by simp
    ultimately show ?thesis using Cons by simp
  qed (use Nil in simp)
  then show ?case using Nil by auto
next
  case (Cons u us)
  have l: "last (x # u # us) = last (u # us)" by simp
  have "last (u # us) \<in> set (u # us)" by (rule last_in_set) simp
  then have "x \<noteq> last (u # us)" using Cons.prems(2) by (metis append_Cons distinct.simps(2) Un_iff set_append)
  then have "Next ns' x i = Some (Some u)" using Cons.prems(1,3,4) unfolding l by auto
  moreover have "chain ns' i u (us @ a # vs)"
    using Cons.IH [of u] Cons.prems unfolding l by auto
  ultimately show ?case by simp
qed

lemma random_height_range: "1 \<le> h \<Longrightarrow> h \<le> kMaxHeight \<Longrightarrow> 1 \<le> fst (random_height h r) \<and> fst (random_height h r) \<le> kMaxHeight"
proof (induction h r rule: random_height.induct)
  case (1 h r)
  then show ?case by (subst (1 2) random_height.simps) (simp add: Let_def)
qed

lemma raise_prev_Some:
  "i + n \<le> length prev \<Longrightarrow> \<exists>prev'. raise_prev n i prev = Some prev' \<and> length prev' = length prev \<and>
     (\<forall>j<length prev. prev' ! j = (if i \<le> j \<and> j < i + n then Some head else prev ! j))"
proof (induction n arbitrary: i prev)
  case (Suc n)
  obtain prev' where "raise_prev n (i + 1) (prev[i := Some head]) = Some prev'" "length prev' = length prev"
    "\<forall>j<length prev. prev' ! j = (if i + 1 \<le> j \<and> j < i + 1 + n then Some head else prev[i := Some head] ! j)"
    using Suc.IH [of "i + 1" "prev[i := Some head]"] Suc.prems by auto
  then show ?case using Suc.prems by (auto simp: nth_list_update)
qed auto

section \<open>Searches under the invariant\<close>

context three_way
begin

abbreviation inv :: "'k skiplist \<Rightarrow> nat list \<Rightarrow> bool" where
  "inv \<equiv> skip_inv legal Compare"

lemma inv_after:
  assumes "inv l xs" and "legal k" and "x \<in> set (after Compare (nodes l) k xs)"
  shows "x \<in> set xs \<and> \<not> Compare (key_at (nodes l) x) k < 0"
proof -
  let ?ns = "nodes l"
  have s: "sorted_wrt (\<lambda>x y. Compare (key_at ?ns x) (key_at ?ns y) < 0) (after Compare ?ns k xs)"
    using assms(1) sorted_wrt_append [of _ "before Compare ?ns k xs" "after Compare ?ns k xs"] by (simp add: skip_inv_def before_after)
  have sub: "set (after Compare ?ns k xs) \<subseteq> set xs" by (auto simp: after_def dest: set_dropWhileD)
  obtain y ys where a: "after Compare ?ns k xs = y # ys" using assms(3) by (cases "after Compare ?ns k xs") auto
  then have y: "\<not> Compare (key_at ?ns y) k < 0" unfolding after_def by (metis hd_dropWhile list.distinct(1) list.sel(1))
  have lg: "legal (key_at ?ns z)" if "z \<in> set xs" for z using assms(1) that by (auto simp: skip_inv_def)
  show ?thesis
  proof (cases "x = y")
    case False
    then have "Compare (key_at ?ns y) (key_at ?ns x) < 0" using s assms(3) a by auto
    moreover have "legal (key_at ?ns x)" "legal (key_at ?ns y)" using lg sub assms(3) a by auto
    ultimately show ?thesis using y compare_less_trans(2) [of "key_at ?ns y" "key_at ?ns x" k] assms(2,3) sub by fastforce
  qed (use y a sub in auto)
qed

lemma inv_parts:
  assumes "inv l xs" and "legal k"
  shows "\<forall>u\<in>set (before Compare (nodes l) k xs). u < length (nodes l) \<and> Compare (key_at (nodes l) u) k < 0"
    and "\<forall>v\<in>set (after Compare (nodes l) k xs). v < length (nodes l) \<and> \<not> Compare (key_at (nodes l) v) k < 0"
    and "i < kMaxHeight \<Longrightarrow> chain (nodes l) i head (level (nodes l) i (before Compare (nodes l) k xs @ after Compare (nodes l) k xs))"
    and "level (nodes l) 0 xs = xs"
    and "level (nodes l) 0 (after Compare (nodes l) k xs) = after Compare (nodes l) k xs"
    and "level (nodes l) 0 (before Compare (nodes l) k xs) = before Compare (nodes l) k xs"
proof -
  have r: "set xs = {1..<length (nodes l)}" and h: "\<forall>x\<in>set xs. 1 \<le> height (nodes l) x" using assms(1) by (auto simp: skip_inv_def)
  show "\<forall>u\<in>set (before Compare (nodes l) k xs). u < length (nodes l) \<and> Compare (key_at (nodes l) u) k < 0"
    using set_before [of _ Compare "nodes l" k xs] r by auto
  show "\<forall>v\<in>set (after Compare (nodes l) k xs). v < length (nodes l) \<and> \<not> Compare (key_at (nodes l) v) k < 0"
    using inv_after [OF assms] r by auto
  show "i < kMaxHeight \<Longrightarrow> chain (nodes l) i head (level (nodes l) i (before Compare (nodes l) k xs @ after Compare (nodes l) k xs))"
    using assms(1) unfolding before_after by (simp add: skip_inv_def)
  have h0: "level (nodes l) 0 ys = ys" if "set ys \<subseteq> set xs" for ys
    using h that unfolding level_def filter_id_conv by force
  show "level (nodes l) 0 xs = xs" by (simp add: h0)
  show "level (nodes l) 0 (after Compare (nodes l) k xs) = after Compare (nodes l) k xs"
    "level (nodes l) 0 (before Compare (nodes l) k xs) = before Compare (nodes l) k xs"
    by (rule h0, auto simp: after_def before_def dest: set_dropWhileD set_takeWhileD)+
qed

lemma inv_max: "inv l xs \<Longrightarrow> max_height l - 1 < kMaxHeight" "inv l xs \<Longrightarrow> max_height l - 1 + 1 = max_height l"
  by (auto simp: skip_inv_def)

lemma FindGreaterOrEqual_inv:
  assumes "inv l xs" and "legal k"
  shows "FindGreaterOrEqual Compare l k =
    Some (hd_opt (after Compare (nodes l) k xs), preds (nodes l) (before Compare (nodes l) k xs) (max_height l) (replicate kMaxHeight None))"
proof -
  note P = inv_parts [OF assms] and M = inv_max [OF assms(1)]
  have "\<forall>j\<le>max_height l - 1. chain (nodes l) j head (level (nodes l) j (before Compare (nodes l) k xs @ after Compare (nodes l) k xs))"
    using P(3) M(1) by auto
  from find_ge_all [where compare = Compare and k = k and prev = "replicate kMaxHeight None" and cs = "[]" and x = head, OF this _ P(1,2)]
  show ?thesis unfolding FindGreaterOrEqual_def using M by (simp add: P(5))
qed

lemma FindLessThan_inv:
  assumes "inv l xs" and "legal k"
  shows "FindLessThan Compare l k = Some (last (head # before Compare (nodes l) k xs))"
proof -
  note P = inv_parts [OF assms] and M = inv_max [OF assms(1)]
  let ?ns = "nodes l" and ?bs = "before Compare (nodes l) k xs" and ?as = "after Compare (nodes l) k xs"
  have "find_lt Compare ?ns k x j = (if j = 0 then Some (last (head # level ?ns j ?bs)) else find_lt Compare ?ns k (last (head # level ?ns j ?bs)) (j - 1))"
    if "j \<le> max_height l - 1" "level ?ns j ?bs = cs @ ds" "x = last (head # cs)" for j x cs ds
  proof -
    have "chain ?ns j head (cs @ ds @ level ?ns j ?as)" using P(3) [of j] that(1,2) M(1) by simp
    then have c: "chain ?ns j x (ds @ level ?ns j ?as)" unfolding that(3) by (rule chain_from)
    have 1: "\<forall>u\<in>set ds. u < length ?ns \<and> Compare (key_at ?ns u) k < 0" using P(1) arg_cong [OF that(2), of set] level_set by fastforce
    have 2: "level ?ns j ?as = [] \<or> hd (level ?ns j ?as) < length ?ns \<and> \<not> Compare (key_at ?ns (hd (level ?ns j ?as))) k < 0"
      using P(2) level_set list.set_sel(1) by metis
    have "last (x # ds) = last (head # level ?ns j ?bs)" using that(2,3) by (cases ds) auto
    then show ?thesis using find_lt_level [where compare = Compare and k = k, OF c 1 2] by simp
  qed
  from descend [of "max_height l - 1" ?ns ?bs "find_lt Compare ?ns k" "[]" "level ?ns (max_height l - 1) ?bs" head, OF this] show ?thesis
    by (simp add: FindLessThan_def P(6))
qed

lemma FindLast_inv:
  assumes "inv l xs"
  shows "FindLast l = Some (last (head # xs))"
proof -
  let ?ns = "nodes l"
  note M = inv_max [OF assms]
  have ch: "chain ?ns j head (level ?ns j xs)" if "j < kMaxHeight" for j using assms that by (simp add: skip_inv_def)
  have "\<forall>x\<in>set xs. 1 \<le> height ?ns x" using assms by (simp add: skip_inv_def)
  then have l0: "level ?ns 0 xs = xs" unfolding level_def filter_id_conv by force
  have "find_last ?ns x j = (if j = 0 then Some (last (head # level ?ns j xs)) else find_last ?ns (last (head # level ?ns j xs)) (j - 1))"
    if "j \<le> max_height l - 1" "level ?ns j xs = cs @ ds" "x = last (head # cs)" for j x cs ds
  proof -
    have "chain ?ns j x ds" unfolding that(3) using ch [of j] that(1,2) M(1) by (intro chain_from) simp
    moreover have "last (x # ds) = last (head # level ?ns j xs)" using that(2,3) by (cases ds) auto
    ultimately show ?thesis using find_last_level [of ?ns j x ds] by simp
  qed
  from descend [of "max_height l - 1" ?ns xs "find_last ?ns" "[]" "level ?ns (max_height l - 1) xs" head, OF this] show ?thesis
    by (simp add: FindLast_def l0)
qed

text \<open>The node after which \<open>k\<close> is linked on level \<open>i\<close>.\<close>

definition pred_at :: "'k skiplist \<Rightarrow> nat list \<Rightarrow> 'k \<Rightarrow> nat \<Rightarrow> nat" where
  "pred_at l xs k i = last (head # level (nodes l) i (before Compare (nodes l) k xs))"

lemma pred_at_range:
  assumes "inv l xs" and "i < kMaxHeight"
  shows "pred_at l xs k i < length (nodes l)" and "i < height (nodes l) (pred_at l xs k i)"
proof -
  let ?lv = "level (nodes l) i (before Compare (nodes l) k xs)"
  have "pred_at l xs k i = head \<or> pred_at l xs k i \<in> set ?lv" unfolding pred_at_def using last_in_set [of ?lv] by auto
  moreover have "x < length (nodes l) \<and> i < height (nodes l) x" if "x \<in> set ?lv" for x
    using that assms(1) set_before [of x Compare "nodes l" k xs] by (auto simp: level_def skip_inv_def)
  moreover have "head < length (nodes l)" "i < height (nodes l) head" using assms by (auto simp: skip_inv_def head_def)
  ultimately show "pred_at l xs k i < length (nodes l)" "i < height (nodes l) (pred_at l xs k i)" by metis+
qed

lemma pred_at_top:
  assumes "inv l xs" and "max_height l \<le> i"
  shows "pred_at l xs k i = head"
proof -
  have "\<forall>x\<in>set xs. height (nodes l) x \<le> max_height l" using assms(1) unfolding skip_inv_def by blast
  then have "\<forall>x\<in>set xs. \<not> i < height (nodes l) x" using assms(2) by fastforce
  then have "x \<notin> set (level (nodes l) i (before Compare (nodes l) k xs))" for x
    using set_before [of x Compare "nodes l" k xs] by (auto simp: level_def)
  then have "level (nodes l) i (before Compare (nodes l) k xs) = []" by (meson list.set_sel(1))
  then show ?thesis by (simp add: pred_at_def)
qed

text \<open>The array \<open>prev\<close> when the node is linked.\<close>

lemma prev_ready:
  assumes inv: "inv l xs" and h: "h \<le> kMaxHeight"
  shows "\<exists>prev. (let pr = preds (nodes l) (before Compare (nodes l) k xs) (max_height l) (replicate kMaxHeight None)
      in if h > max_height l then raise_prev (h - max_height l) (max_height l) pr else Some pr) = Some prev \<and>
    length prev = kMaxHeight \<and> (\<forall>i<max h (max_height l). prev ! i = Some (pred_at l xs k i))"
proof -
  let ?pr = "preds (nodes l) (before Compare (nodes l) k xs) (max_height l) (replicate kMaxHeight None)"
  have mh: "max_height l \<le> kMaxHeight" using inv by (simp add: skip_inv_def)
  show ?thesis
  proof (cases "h > max_height l")
    case True
    then obtain prev where "raise_prev (h - max_height l) (max_height l) ?pr = Some prev" "length prev = kMaxHeight"
      "\<forall>j<kMaxHeight. prev ! j = (if max_height l \<le> j \<and> j < h then Some head else ?pr ! j)"
      using raise_prev_Some [of "max_height l" "h - max_height l" ?pr] h by auto
    then show ?thesis using True h pred_at_top [OF inv] by (auto simp: preds_nth pred_at_def)
  next
    case False
    then show ?thesis using mh by (auto simp: preds_nth pred_at_def)
  qed
qed

text \<open>The invariant after linking a node of height \<open>h\<close>.\<close>

lemma inv_linked:
  assumes inv: "inv l xs" and k: "legal k" and new: "\<forall>x\<in>set xs. Compare (key_at (nodes l) x) k \<noteq> 0"
    and h: "1 \<le> h" "h \<le> kMaxHeight" and a: "a = length (nodes l)" "length ns' = a + 1"
    and keys: "\<forall>x<a. key_at ns' x = key_at (nodes l) x \<and> height ns' x = height (nodes l) x" "key_at ns' a = k" "height ns' a = h"
    and nx: "\<forall>z j. Next ns' z j = (if j < h then (if z = a then Next (nodes l) (pred_at l xs k j) j
      else if z = pred_at l xs k j then Some (Some a) else Next (nodes l) z j) else if z = a then Next ns' a j else Next (nodes l) z j)"
  shows "inv \<lparr>nodes = ns', max_height = max h (max_height l), rnd = r\<rparr> (before Compare (nodes l) k xs @ a # after Compare (nodes l) k xs)"
proof -
  let ?ns = "nodes l" and ?bs = "before Compare (nodes l) k xs" and ?as = "after Compare (nodes l) k xs"
  have I: "?ns \<noteq> []" "height ?ns head = kMaxHeight" "1 \<le> max_height l" "max_height l \<le> kMaxHeight" "distinct (?bs @ ?as)" "set (?bs @ ?as) = {1..<a}"
    "\<forall>x\<in>set (?bs @ ?as). legal (key_at ?ns x) \<and> 1 \<le> height ?ns x \<and> height ?ns x \<le> max_height l"
    "sorted_wrt (\<lambda>x y. Compare (key_at ?ns x) (key_at ?ns y) < 0) (?bs @ ?as)"
    using inv unfolding before_after by (simp_all add: skip_inv_def a)
  have ch: "chain ?ns i head (level ?ns i ?bs @ level ?ns i ?as)" if "i < kMaxHeight" for i
    using inv that unfolding level_append [symmetric] before_after by (simp add: skip_inv_def)
  have ab: "x < a" if "x \<in> set (?bs @ ?as)" for x using I(6) that by auto
  have h0: "head < a" "a \<noteq> head" using I(1) by (auto simp: head_def a)
  have "level ns' i ?bs = level ?ns i ?bs" "level ns' i ?as = level ?ns i ?as" for i
    using ab keys(1) by (auto simp: level_def intro!: filter_cong)
  moreover have "level ns' i (a # ?as) = (if i < h then [a] else []) @ level ns' i ?as" for i using keys(3) by (simp add: level_def)
  ultimately have lev: "level ns' i (?bs @ a # ?as) = level ?ns i ?bs @ (if i < h then [a] else []) @ level ?ns i ?as" for i
    by simp
  have chains: "chain ns' i head (level ns' i (?bs @ a # ?as))" if i: "i < kMaxHeight" for i
  proof -
    have sub: "set (head # level ?ns i ?bs @ level ?ns i ?as) \<subseteq> insert head {1..<a}" using I(6) by (auto simp: level_def)
    have "head \<notin> set (?bs @ ?as)" unfolding I(6) by (simp add: head_def)
    then have dst: "distinct (head # level ?ns i ?bs @ level ?ns i ?as)" using I(5) by (auto simp: level_def)
    have na: "a \<notin> set (head # level ?ns i ?bs @ level ?ns i ?as)" using sub h0 by auto
    show ?thesis
    proof (cases "i < h")
      case True
      then have "\<forall>z. Next ns' z i = (if z = a then Next ?ns (last (head # level ?ns i ?bs)) i else if z = last (head # level ?ns i ?bs) then Some (Some a) else Next ?ns z i)"
        using nx unfolding pred_at_def by simp
      from chain_insert [OF ch [OF i] dst na this] show ?thesis using True lev [of i] by simp
    next
      case False
      have "chain ns' i head (level ?ns i ?bs @ level ?ns i ?as) \<longleftrightarrow> chain ?ns i head (level ?ns i ?bs @ level ?ns i ?as)"
      proof (rule chain_cong)
        fix z
        assume "z \<in> set (head # level ?ns i ?bs @ level ?ns i ?as)"
        then have "z \<noteq> a" using na by metis
        then show "Next ns' z i = Next ?ns z i" using nx False by simp
      qed
      then show ?thesis using ch [OF i] False lev [of i] by simp
    qed
  qed
  have srt: "sorted_wrt (\<lambda>x y. Compare (key_at ns' x) (key_at ns' y) < 0) (?bs @ a # ?as)"
  proof -
    have bs: "Compare (key_at ?ns x) k < 0" if "x \<in> set ?bs" for x using set_before [OF that] by simp
    have as: "Compare k (key_at ?ns x) < 0" if "x \<in> set ?as" for x
      using inv_after [OF inv k that] new compare_flip [of k "key_at ?ns x"] compare_flip [of "key_at ?ns x" k] k I(7) that by fastforce
    have "sorted_wrt (\<lambda>x y. Compare (key_at ns' x) (key_at ns' y) < 0) (?bs @ ?as)"
      using I(8) keys(1) ab by (auto intro: sorted_wrt_mono_rel [rotated])
    then show ?thesis using bs as keys ab by (auto simp: sorted_wrt_append)
  qed
  have "set (?bs @ a # ?as) = {1..<a + 1}" using I(6) h0 by (auto simp: head_def)
  moreover have "distinct (?bs @ a # ?as)" using I(5) ab by auto
  moreover have "\<forall>x\<in>set (?bs @ a # ?as). legal (key_at ns' x) \<and> 1 \<le> height ns' x \<and> height ns' x \<le> max h (max_height l)"
    using I(7) keys ab k h by (auto simp: le_max_iff_disj)
  moreover have "ns' \<noteq> []" "1 \<le> max h (max_height l)" using a(2) h by auto
  ultimately show ?thesis
    using chains srt I h h0 keys(1) a(2) by (simp add: skip_inv_def)
qed

lemma no_duplicate:
  assumes inv: "inv l xs" and k: "legal k" and new: "\<forall>x\<in>set xs. Compare (key_at (nodes l) x) k \<noteq> 0"
  shows "has_key Compare l k (hd_opt (after Compare (nodes l) k xs)) = Some False"
proof (cases "after Compare (nodes l) k xs")
  case (Cons y ys)
  then have y: "y \<in> set xs" using inv_after [OF inv k, of y] by simp
  then have "y < length (nodes l)" "legal (key_at (nodes l) y)" using inv unfolding skip_inv_def by auto
  then show ?thesis using Cons bspec [OF new y] compare_0_sym [OF k, of "key_at (nodes l) y"] by (simp add: has_key_def hd_opt_def key_at_def)
qed (simp add: has_key_def hd_opt_def)

lemma Insert_inv:
  assumes inv: "inv l xs" and k: "legal k" and new: "\<forall>x\<in>set xs. Compare (key_at (nodes l) x) k \<noteq> 0"
  shows "\<exists>l' ys. Insert Compare k l = Some l' \<and> inv l' ys \<and> map (key_at (nodes l')) ys =
    map (key_at (nodes l)) (before Compare (nodes l) k xs) @ k # map (key_at (nodes l)) (after Compare (nodes l) k xs)"
proof -
  let ?ns = "nodes l" and ?bs = "before Compare (nodes l) k xs" and ?as = "after Compare (nodes l) k xs"
  obtain h r where hr: "RandomHeight (rnd l) = (h, r)" by fastforce
  have h: "1 \<le> h" "h \<le> kMaxHeight" using random_height_range [of 1 "rnd l"] hr by (simp_all add: RandomHeight_def kMaxHeight_def)
  obtain prev where prev: "(let pr = preds ?ns ?bs (max_height l) (replicate kMaxHeight None)
      in if h > max_height l then raise_prev (h - max_height l) (max_height l) pr else Some pr) = Some prev"
    "length prev = kMaxHeight" "\<forall>i<max h (max_height l). prev ! i = Some (pred_at l xs k i)"
    using prev_ready [OF inv h(2)] by blast
  define a where "a = length ?ns"
  let ?ns1 = "?ns @ [NewNode k h]"
  have old: "key_at ?ns1 x = key_at ?ns x" "height ?ns1 x = height ?ns x" "Next ?ns1 x i = Next ?ns x i" if "x < a" for x i
    using that by (simp_all add: key_at_def height_def a_def nth_append Next_def rd_def)
  have newk: "key_at ?ns1 a = k" "height ?ns1 a = h" by (simp_all add: key_at_def height_def a_def NewNode_def)
  have out: "Next ?ns1 x i = Next ?ns x i" if "x \<noteq> a" for x i
    using that old(3) [of x i] by (cases "x < a") (simp_all add: Next_def rd_def a_def)
  note P = pred_at_range [OF inv, folded a_def]
  have "j < length prev \<and> prev ! j = Some (pred_at l xs k j) \<and> pred_at l xs k j \<noteq> a \<and> pred_at l xs k j < length ?ns1 \<and> j < height ?ns1 (pred_at l xs k j)"
    if "j < h" for j
  proof -
    have j: "j < kMaxHeight" "j < max h (max_height l)" using that h by auto
    show ?thesis using prev(2,3) j P(1) [OF j(1), of k] P(2) [OF j(1), of k] old(2) [OF P(1) [OF j(1), of k]] by (simp add: a_def)
  qed
  then have "\<forall>j. 0 \<le> j \<and> j < 0 + h \<longrightarrow> j < length prev \<and> prev ! j = Some (pred_at l xs k j) \<and> pred_at l xs k j \<noteq> a \<and> pred_at l xs k j < length ?ns1 \<and> j < height ?ns1 (pred_at l xs k j)"
    by simp
  from link_levels_Some [where x = a, OF _ _ this] newk obtain ns' where ns': "link_levels h 0 a prev ?ns1 = Some ns'" "same_nodes ?ns1 ns'"
    "\<forall>z j. Next ns' z j = (if j < h then (if z = a then Next ?ns1 (pred_at l xs k j) j else if z = pred_at l xs k j then Some (Some a) else Next ?ns1 z j) else Next ?ns1 z j)"
    by (auto simp: a_def)
  have ins: "Insert Compare k l = Some \<lparr>nodes = ns', max_height = max h (max_height l), rnd = r\<rparr>"
    unfolding Insert_def FindGreaterOrEqual_inv [OF inv k]
    using prev(1) ns'(1) no_duplicate [OF inv k new] by (simp add: hr Let_def a_def max_def split: if_splits)
  have sn: "length ns' = a + 1" "\<forall>x<a. key_at ns' x = key_at ?ns x \<and> height ns' x = height ?ns x" "key_at ns' a = k" "height ns' a = h"
    using ns'(2) old newk by (auto simp: same_nodes_def a_def)
  have "\<forall>z j. Next ns' z j = (if j < h then (if z = a then Next ?ns (pred_at l xs k j) j
      else if z = pred_at l xs k j then Some (Some a) else Next ?ns z j) else if z = a then Next ns' a j else Next ?ns z j)"
  proof (intro allI)
    fix z j
    have "Next ?ns1 (pred_at l xs k j) j = Next ?ns (pred_at l xs k j) j" if "j < h" using P(1) [of j k] old(3) that h(2) by simp
    then show "Next ns' z j = (if j < h then (if z = a then Next ?ns (pred_at l xs k j) j
      else if z = pred_at l xs k j then Some (Some a) else Next ?ns z j) else if z = a then Next ns' a j else Next ?ns z j)"
      using ns'(3) out by simp
  qed
  from inv_linked [OF inv k new h a_def sn this, of r]
  have "inv \<lparr>nodes = ns', max_height = max h (max_height l), rnd = r\<rparr> (?bs @ a # ?as)" .
  moreover have "map (key_at (nodes \<lparr>nodes = ns', max_height = max h (max_height l), rnd = r\<rparr>)) (?bs @ a # ?as) =
      map (key_at ?ns) ?bs @ k # map (key_at ?ns) ?as"
  proof -
    have "set xs = {1..<a}" using inv unfolding skip_inv_def a_def by blast
    then have "x < a" if "x \<in> set (?bs @ ?as)" for x using that unfolding before_after by simp
    then show ?thesis using sn(2,3) by simp
  qed
  ultimately show ?thesis using ins by blast
qed

end

section \<open>The interface of an ordered table\<close>

text \<open>
  \<open>holds l ks\<close>: the list is well formed and its keys are \<open>ks\<close>, in order. \<open>at_pos l ks it i\<close>: moreover the iterator \<open>it\<close>
  is at the \<open>i\<close>-th of them; an iterator that is not valid is at the position after the last one.
\<close>

definition holds :: "('k \<Rightarrow> bool) \<Rightarrow> ('k \<Rightarrow> 'k \<Rightarrow> int) \<Rightarrow> 'k skiplist \<Rightarrow> 'k list \<Rightarrow> bool" where
  "holds legal compare l ks \<longleftrightarrow> (\<exists>xs. skip_inv legal compare l xs \<and> ks = map (key_at (nodes l)) xs)"

definition at_pos :: "('k \<Rightarrow> bool) \<Rightarrow> ('k \<Rightarrow> 'k \<Rightarrow> int) \<Rightarrow> 'k skiplist \<Rightarrow> 'k list \<Rightarrow> iter \<Rightarrow> nat \<Rightarrow> bool" where
  "at_pos legal compare l ks it i \<longleftrightarrow> (\<exists>xs. skip_inv legal compare l xs \<and> ks = map (key_at (nodes l)) xs \<and>
     i \<le> length ks \<and> it = (if i < length xs then Some (xs ! i) else None))"

text \<open>Insertion into a sorted list.\<close>

definition insert_key :: "('k \<Rightarrow> 'k \<Rightarrow> int) \<Rightarrow> 'k \<Rightarrow> 'k list \<Rightarrow> 'k list" where
  "insert_key compare k ks = take (rank compare k ks) ks @ k # drop (rank compare k ks) ks"

lemma mset_insert_key: "mset (insert_key compare k ks) = add_mset k (mset ks)"
proof -
  have "mset (take n ks) + mset (drop n ks) = mset ks" for n by (metis append_take_drop_id mset_append)
  then show ?thesis by (simp add: insert_key_def)
qed

lemma set_insert_key: "set (insert_key compare k ks) = insert k (set ks)"
  using arg_cong [OF mset_insert_key, of set_mset compare k ks] by simp

fun insert_all :: "('k \<Rightarrow> 's \<Rightarrow> 's option) \<Rightarrow> 'k list \<Rightarrow> 's \<Rightarrow> 's option" where
  "insert_all ins [] s = Some s"
| "insert_all ins (k # ks) s = Option.bind (ins k s) (insert_all ins ks)"

locale ordered_table = three_way legal Compare
  for legal :: "'k \<Rightarrow> bool" and Compare :: "'k \<Rightarrow> 'k \<Rightarrow> int" +
  fixes repr :: "'s \<Rightarrow> 'k list \<Rightarrow> bool"
    and pos :: "'s \<Rightarrow> 'k list \<Rightarrow> iter \<Rightarrow> nat \<Rightarrow> bool"
    and ins :: "'k \<Rightarrow> 's \<Rightarrow> 's option"
    and has :: "'s \<Rightarrow> 'k \<Rightarrow> bool option"
    and seek :: "'s \<Rightarrow> 'k \<Rightarrow> iter option"
    and first :: "'s \<Rightarrow> iter option"
    and final :: "'s \<Rightarrow> iter option"
    and succ :: "'s \<Rightarrow> iter \<Rightarrow> iter option"
    and pred :: "'s \<Rightarrow> iter \<Rightarrow> iter option"
    and get :: "'s \<Rightarrow> iter \<Rightarrow> 'k option"
  assumes repr_sorted: "repr s ks \<Longrightarrow> sorted_wrt (\<lambda>a b. Compare a b < 0) ks \<and> (\<forall>k\<in>set ks. legal k)"
    and ins_ok: "repr s ks \<Longrightarrow> legal k \<Longrightarrow> \<forall>x\<in>set ks. Compare x k \<noteq> 0 \<Longrightarrow> \<exists>s'. ins k s = Some s' \<and> repr s' (insert_key Compare k ks)"
    and has_ok: "repr s ks \<Longrightarrow> legal k \<Longrightarrow> has s k = Some (\<exists>x\<in>set ks. Compare x k = 0)"
    and seek_ok: "repr s ks \<Longrightarrow> legal k \<Longrightarrow> \<exists>it. seek s k = Some it \<and> pos s ks it (rank Compare k ks)"
    and first_ok: "repr s ks \<Longrightarrow> \<exists>it. first s = Some it \<and> pos s ks it 0"
    and final_ok: "repr s ks \<Longrightarrow> \<exists>it. final s = Some it \<and> pos s ks it (length ks - 1)"
    and succ_ok: "pos s ks it i \<Longrightarrow> i < length ks \<Longrightarrow> \<exists>it'. succ s it = Some it' \<and> pos s ks it' (i + 1)"
    and pred_ok: "pos s ks it i \<Longrightarrow> i < length ks \<Longrightarrow> \<exists>it'. pred s it = Some it' \<and> pos s ks it' (if i = 0 then length ks else i - 1)"
    and get_ok: "pos s ks it i \<Longrightarrow> i < length ks \<Longrightarrow> get s it = Some (ks ! i)"
    and pos_valid: "pos s ks it i \<Longrightarrow> i \<le> length ks \<and> (iter_Valid it \<longleftrightarrow> i < length ks)"
begin

text \<open>Distinct keys can all be inserted, in any order.\<close>

lemma insert_all_ok:
  "repr s ks0 \<Longrightarrow> \<forall>k\<in>set ks. legal k \<and> (\<forall>x\<in>set ks0. Compare x k \<noteq> 0) \<Longrightarrow> sorted_wrt (\<lambda>a b. Compare a b \<noteq> 0) ks \<Longrightarrow>
   \<exists>s' ks'. insert_all ins ks s = Some s' \<and> repr s' ks' \<and> mset ks' = mset (ks0 @ ks)"
proof (induction ks arbitrary: s ks0)
  case (Cons k ks)
  obtain s1 where s1: "ins k s = Some s1" "repr s1 (insert_key Compare k ks0)" using ins_ok [OF Cons.prems(1), of k] Cons.prems(2) by auto
  have "\<forall>k'\<in>set ks. legal k' \<and> (\<forall>x\<in>set (insert_key Compare k ks0). Compare x k' \<noteq> 0)" using Cons.prems(2,3) by (auto simp: set_insert_key)
  from Cons.IH [OF s1(2) this] Cons.prems(3) obtain s' ks' where "insert_all ins ks s1 = Some s'" "repr s' ks'"
    "mset ks' = mset (insert_key Compare k ks0 @ ks)" by auto
  then show ?case using s1(1) by (auto simp: mset_insert_key)
qed auto

end

sublocale ordered_table \<subseteq> walk: cursor ks "pos s ks" iter_Valid "get s" "succ s" "pred s" for s ks
  using pos_valid get_ok succ_ok pred_ok by unfold_locales blast+

context ordered_table
begin

lemma scans:
  assumes "repr s ks"
  shows "Option.bind (first s) (scan (get s) (succ s) iter_Valid (length ks)) = Some ks"
    and "Option.bind (final s) (scan (get s) (pred s) iter_Valid (length ks)) = Some (rev ks)"
  using first_ok [OF assms] final_ok [OF assms] walk.scan_all by fastforce+

end

section \<open>The skip list is an ordered table\<close>

lemma rank_map: "rank compare k (map (key_at ns) xs) = length (before compare ns k xs)"
  by (simp add: rank_def before_def takeWhile_map comp_def)

lemma insert_key_map:
  "insert_key compare k (map (key_at ns) xs) = map (key_at ns) (before compare ns k xs) @ k # map (key_at ns) (after compare ns k xs)"
  unfolding insert_key_def rank_map
  by (metis before_after append_eq_conv_conj drop_map take_map)

context three_way
begin

lemma holds_sorted: "holds legal Compare l ks \<Longrightarrow> sorted_wrt (\<lambda>a b. Compare a b < 0) ks \<and> (\<forall>k\<in>set ks. legal k)"
  unfolding holds_def skip_inv_def by (auto simp: sorted_wrt_map)

lemma holds_Insert:
  assumes "holds legal Compare l ks" and "legal k" and "\<forall>x\<in>set ks. Compare x k \<noteq> 0"
  shows "\<exists>l'. Insert Compare k l = Some l' \<and> holds legal Compare l' (insert_key Compare k ks)"
proof -
  obtain xs where xs: "inv l xs" "ks = map (key_at (nodes l)) xs" using assms(1) unfolding holds_def by blast
  show ?thesis using Insert_inv [OF xs(1) assms(2)] assms(3) unfolding xs(2) insert_key_map holds_def by fastforce
qed

text \<open>Positions: the node a search finds is the one at the rank of the key.\<close>

lemma hd_opt_after: "hd_opt (after Compare ns k xs) = (if length (before Compare ns k xs) < length xs then Some (xs ! length (before Compare ns k xs)) else None)"
proof -
  let ?b = "before Compare ns k xs" and ?a = "after Compare ns k xs"
  have "xs = ?b @ ?a" by (simp add: before_after)
  moreover have "hd_opt a = (if length b < length (b @ a) then Some ((b @ a) ! length b) else None)" for a b :: "nat list"
    by (cases a) (simp_all add: hd_opt_def)
  ultimately show ?thesis by metis
qed

lemma holds_Seek:
  assumes "holds legal Compare l ks" and "legal k"
  shows "\<exists>it. iter_Seek Compare l k = Some it \<and> at_pos legal Compare l ks it (rank Compare k ks)"
proof -
  obtain xs where xs: "inv l xs" "ks = map (key_at (nodes l)) xs" using assms(1) unfolding holds_def by blast
  have "length (before Compare (nodes l) k xs) \<le> length xs" by (simp add: before_def length_takeWhile_le)
  then have "at_pos legal Compare l ks (hd_opt (after Compare (nodes l) k xs)) (rank Compare k ks)"
    unfolding at_pos_def hd_opt_after xs(2) rank_map using xs(1) by auto
  then show ?thesis using FindGreaterOrEqual_inv [OF xs(1) assms(2)] by (simp add: iter_Seek_def)
qed

lemma holds_Contains:
  assumes "holds legal Compare l ks" and "legal k"
  shows "Contains Compare l k = Some (\<exists>x\<in>set ks. Compare x k = 0)"
proof -
  obtain xs where xs: "inv l xs" "ks = map (key_at (nodes l)) xs" using assms(1) unfolding holds_def by blast
  have r: "xs ! i < length (nodes l)" if "i < length xs" for i
    using xs(1) nth_mem [OF that] unfolding skip_inv_def by auto
  have "(\<exists>x\<in>set ks. Compare x k = 0) \<longleftrightarrow> rank Compare k ks < length ks \<and> Compare k (ks ! rank Compare k ks) = 0"
    using rank_hit holds_sorted [OF assms(1)] assms(2) by blast
  then show ?thesis
    unfolding Contains_def has_key_def FindGreaterOrEqual_inv [OF xs(1) assms(2)] hd_opt_after xs(2) rank_map
    using r by (simp add: key_at_def)
qed

lemma chain_nth:
  "chain ns i x ys \<Longrightarrow> j < length ys \<Longrightarrow> Next ns (ys ! j) i = Some (if j + 1 < length ys then Some (ys ! (j + 1)) else None)"
proof (induction ys arbitrary: x j)
  case (Cons y ys)
  then show ?case by (cases j; cases ys) auto
qed simp

lemma inv_chain0:
  assumes "inv l xs"
  shows "chain (nodes l) 0 head xs"
proof -
  have "\<forall>x\<in>set xs. 1 \<le> height (nodes l) x" "chain (nodes l) 0 head (level (nodes l) 0 xs)"
    using assms unfolding skip_inv_def kMaxHeight_def by auto
  moreover have "level (nodes l) 0 xs = xs" using calculation(1) unfolding level_def filter_id_conv by force
  ultimately show ?thesis by simp
qed

lemma holds_First:
  assumes "holds legal Compare l ks"
  shows "\<exists>it. iter_SeekToFirst l = Some it \<and> at_pos legal Compare l ks it 0"
proof -
  obtain xs where xs: "inv l xs" "ks = map (key_at (nodes l)) xs" using assms unfolding holds_def by blast
  have "Next (nodes l) head 0 = Some (if 0 < length xs then Some (xs ! 0) else None)"
    using chain_hd [OF inv_chain0 [OF xs(1)]] by (cases xs) (simp_all add: hd_opt_def)
  then show ?thesis unfolding at_pos_def iter_SeekToFirst_def using xs by auto
qed

lemma inv_no_head: "inv l xs \<Longrightarrow> j < length xs \<Longrightarrow> no_head (xs ! j) = Some (xs ! j)"
  using nth_mem [of j xs] unfolding skip_inv_def by (auto simp: no_head_def head_def)

lemma holds_Last:
  assumes "holds legal Compare l ks"
  shows "\<exists>it. iter_SeekToLast l = Some it \<and> at_pos legal Compare l ks it (length ks - 1)"
proof -
  obtain xs where xs: "inv l xs" "ks = map (key_at (nodes l)) xs" using assms unfolding holds_def by blast
  have "no_head (last (head # xs)) = (if length xs - 1 < length xs then Some (xs ! (length xs - 1)) else None)"
    using inv_no_head [OF xs(1), of "length xs - 1"] by (cases "xs = []") (auto simp: no_head_def last_conv_nth)
  then show ?thesis unfolding at_pos_def iter_SeekToLast_def FindLast_inv [OF xs(1)] using xs by (intro exI [of _ "no_head (last (head # xs))"]) fastforce
qed

lemma at_pos_Next:
  assumes "at_pos legal Compare l ks it i" and "i < length ks"
  shows "\<exists>it'. iter_Next l it = Some it' \<and> at_pos legal Compare l ks it' (i + 1)"
proof -
  obtain xs where xs: "inv l xs" "ks = map (key_at (nodes l)) xs" "it = Some (xs ! i)" using assms unfolding at_pos_def by auto
  show ?thesis unfolding at_pos_def iter_Next_def xs(3) using xs assms(2) chain_nth [OF inv_chain0 [OF xs(1)], of i] by auto
qed

lemma inv_range: "inv l xs \<Longrightarrow> j < length xs \<Longrightarrow> xs ! j < length (nodes l)"
  using nth_mem [of j xs] unfolding skip_inv_def by auto

lemma at_pos_key: "at_pos legal Compare l ks it i \<Longrightarrow> i < length ks \<Longrightarrow> iter_key l it = Some (ks ! i)"
  using inv_range unfolding at_pos_def iter_key_def by (fastforce simp: key_at_def)

lemma at_pos_Prev:
  assumes "at_pos legal Compare l ks it i" and "i < length ks"
  shows "\<exists>it'. iter_Prev Compare l it = Some it' \<and> at_pos legal Compare l ks it' (if i = 0 then length ks else i - 1)"
proof -
  obtain xs where xs: "inv l xs" "ks = map (key_at (nodes l)) xs" using assms unfolding at_pos_def by auto
  have h: "holds legal Compare l ks" using xs unfolding holds_def by blast
  note S = holds_sorted [OF h]
  have lg: "legal (ks ! i)" using S assms(2) by auto
  let ?b = "before Compare (nodes l) (ks ! i) xs"
  have lb: "length ?b = i" using rank_nth [OF conjunct1 [OF S] conjunct2 [OF S] assms(2)] unfolding xs(2) rank_map .
  have "?b = take i xs" using lb takeWhile_eq_take [of "\<lambda>x. Compare (key_at (nodes l) x) (ks ! i) < 0" xs] by (simp add: before_def)
  then have "no_head (last (head # ?b)) = (if i = 0 then None else Some (xs ! (i - 1)))"
    using inv_no_head [OF xs(1), of "i - 1"] assms(2) xs(2) by (cases i) (auto simp: no_head_def take_Suc_conv_app_nth)
  then have "iter_Prev Compare l it = Some (if i = 0 then None else Some (xs ! (i - 1)))"
    by (simp add: iter_Prev_def at_pos_key [OF assms] FindLessThan_inv [OF xs(1) lg])
  then show ?thesis unfolding at_pos_def using xs assms(2) by (intro exI conjI) auto
qed

end

sublocale three_way \<subseteq> skips: ordered_table legal Compare "holds legal Compare" "at_pos legal Compare" "Insert Compare" "Contains Compare"
  "iter_Seek Compare" iter_SeekToFirst iter_SeekToLast iter_Next "iter_Prev Compare" iter_key
proof
  show "i \<le> length ks \<and> (iter_Valid it \<longleftrightarrow> i < length ks)" if "at_pos legal Compare s ks it i" for s ks it i
    using that unfolding at_pos_def iter_Valid_def by (auto split: if_splits)
qed (fact holds_sorted holds_Insert holds_Contains holds_Seek holds_First holds_Last at_pos_Next at_pos_Prev at_pos_key)+

lemma chain_replicate: "i < h \<Longrightarrow> chain [NewNode k h] i 0 []"
  by (simp add: Next_def NewNode_def)

lemma holds_mk: "holds legal compare (mk_SkipList k) []"
  unfolding holds_def skip_inv_def
  by (auto simp: mk_SkipList_def height_def head_def kMaxHeight_def level_def Next_def NewNode_def intro!: exI [of _ "[]"])

context three_way
begin

lemma filled:
  assumes "\<forall>k\<in>set ks. legal k" and "sorted_wrt (\<lambda>a b. Compare a b \<noteq> 0) ks"
  shows "\<exists>l ys. insert_all (Insert Compare) ks (mk_SkipList any_key) = Some l \<and>
    mset ys = mset ks \<and> sorted_wrt (\<lambda>a b. Compare a b < 0) ys \<and>
    Option.bind (iter_SeekToFirst l) (scan (iter_key l) (iter_Next l) iter_Valid (length ks)) = Some ys \<and>
    Option.bind (iter_SeekToLast l) (scan (iter_key l) (iter_Prev Compare l) iter_Valid (length ks)) = Some (rev ys) \<and>
    (\<forall>k. legal k \<longrightarrow> Contains Compare l k = Some (\<exists>x\<in>set ks. Compare x k = 0)) \<and>
    (\<forall>k. legal k \<longrightarrow> Option.bind (iter_Seek Compare l k) (scan (iter_key l) (iter_Next l) iter_Valid (length ks)) =
       Some (dropWhile (\<lambda>x. Compare x k < 0) ys))"
proof -
  obtain l ys where l: "insert_all (Insert Compare) ks (mk_SkipList any_key) = Some l" "holds legal Compare l ys" "mset ys = mset ks"
    using skips.insert_all_ok [OF holds_mk, of ks any_key] assms(1,2) by auto
  have len: "length ys = length ks" and st: "set ys = set ks" using l(3) mset_eq_length mset_eq_setD by blast+
  have "Option.bind (iter_Seek Compare l k) (scan (iter_key l) (iter_Next l) iter_Valid (length ks)) = Some (dropWhile (\<lambda>x. Compare x k < 0) ys)"
    if k: "legal k" for k
  proof -
    obtain it where "iter_Seek Compare l k = Some it" "at_pos legal Compare l ys it (rank Compare k ys)" using holds_Seek [OF l(2) k] by blast
    then show ?thesis using skips.walk.scan_forward [of l ys it "rank Compare k ys" "length ks"] len by (simp add: rank_def dropWhile_eq_drop)
  qed
  then show ?thesis using l holds_sorted [OF l(2)] skips.scans [OF l(2)] holds_Contains [OF l(2)] len st by auto
qed

end

section \<open>Properties\<close>

text \<open>
  C15. \<open>Insert\<close> of a key that is not in the list succeeds: every search ends, every access is in the arena and within the height
  of its node, and the result is a well-formed skip list (on every level the nodes of sufficient height in order, level 0 all of
  them) whose keys are those before with the new one at its place.
\<close>

theorem skiplist_Insert:
  assumes "three_way legal compare" and "skip_inv legal compare l xs" and "legal k"
    and "\<forall>x\<in>set xs. compare (key_at (nodes l) x) k \<noteq> 0"
  shows "\<exists>l' ys. Insert compare k l = Some l' \<and> skip_inv legal compare l' ys \<and>
    map (key_at (nodes l')) ys = insert_key compare k (map (key_at (nodes l)) xs)"
  using three_way.Insert_inv [OF assms] unfolding insert_key_map .

theorem skiplist_Insert_witness:
  "\<exists>l' ys. Insert BytewiseCompare [7] (mk_SkipList []) = Some l' \<and> skip_inv (\<lambda>_. True) BytewiseCompare l' ys \<and>
    map (key_at (nodes l')) ys = [[7]]"
proof -
  obtain xs where xs: "skip_inv (\<lambda>_. True) BytewiseCompare (mk_SkipList []) xs" "[] = map (key_at (nodes (mk_SkipList []))) xs"
    using holds_mk [of "\<lambda>_. True" BytewiseCompare "[]"] unfolding holds_def by blast
  then show ?thesis
    using skiplist_Insert [OF bytewise.three_way_axioms xs(1), of "[7]"] by (simp add: insert_key_def rank_def)
qed

text \<open>
  C17. A skip list filled with distinct keys in any order holds exactly these keys: the insertions all succeed, a forward scan from
  \<open>SeekToFirst\<close> with \<open>Next\<close> yields them in increasing order, a backward scan from \<open>SeekToLast\<close> with \<open>Prev\<close> in decreasing order, and
  both end; \<open>Contains\<close> is true of the keys that compare equal to one inserted; and \<open>Seek\<close> stops at the first key not before its target.
\<close>

theorem skiplist_sorted_table:
  assumes "three_way legal compare" and "\<forall>k\<in>set ks. legal k" and "sorted_wrt (\<lambda>a b. compare a b \<noteq> 0) ks"
  shows "\<exists>l ys. insert_all (Insert compare) ks (mk_SkipList any_key) = Some l \<and>
    mset ys = mset ks \<and> sorted_wrt (\<lambda>a b. compare a b < 0) ys \<and>
    Option.bind (iter_SeekToFirst l) (scan (iter_key l) (iter_Next l) iter_Valid (length ks)) = Some ys \<and>
    Option.bind (iter_SeekToLast l) (scan (iter_key l) (iter_Prev compare l) iter_Valid (length ks)) = Some (rev ys) \<and>
    (\<forall>k. legal k \<longrightarrow> Contains compare l k = Some (\<exists>x\<in>set ks. compare x k = 0)) \<and>
    (\<forall>k. legal k \<longrightarrow> Option.bind (iter_Seek compare l k) (scan (iter_key l) (iter_Next l) iter_Valid (length ks)) =
       Some (dropWhile (\<lambda>x. compare x k < 0) ys))"
  using three_way.filled [OF assms] .

theorem skiplist_sorted_table_witness:
  "\<exists>l ys. insert_all (Insert BytewiseCompare) [[7], [3], [5, 1]] (mk_SkipList []) = Some l \<and>
    mset ys = mset [[7], [3], [5, 1]] \<and> sorted_wrt (\<lambda>a b. BytewiseCompare a b < 0) ys \<and>
    Contains BytewiseCompare l [3] = Some True"
proof -
  have d: "sorted_wrt (\<lambda>a b. BytewiseCompare a b \<noteq> 0) [[7], [3], [5, 1]]" by code_simp
  have r: "BytewiseCompare [3] [3] = 0" by code_simp
  show ?thesis using skiplist_sorted_table [OF bytewise.three_way_axioms _ d, of "[]"] r by fastforce
qed

end
