(* ===== verification/DbFormat.thy ===== *)
theory DbFormat
  imports Comparator
begin

text \<open>
  db/dbformat.h and db/dbformat.cc: internal keys, the user key followed by eight bytes that hold the
  sequence number and the type of the entry, and the comparator that orders them. The locale
  \<open>comparator\<close> is instantiated with it for any user comparator that meets the contract.
\<close>

section \<open>Internal keys\<close>

datatype ValueType = kTypeDeletion | kTypeValue

instantiation ValueType :: linorder
begin
definition less_eq_ValueType :: "ValueType \<Rightarrow> ValueType \<Rightarrow> bool" where
  "less_eq_ValueType x y \<longleftrightarrow> x = kTypeDeletion \<or> y = kTypeValue"
definition less_ValueType :: "ValueType \<Rightarrow> ValueType \<Rightarrow> bool" where
  "less_ValueType x y \<longleftrightarrow> x = kTypeDeletion \<and> y = kTypeValue"
instance
proof
  fix x y z :: ValueType
  show "x \<le> y \<Longrightarrow> y \<le> x \<Longrightarrow> x = y" by (cases x; cases y) (simp_all add: less_eq_ValueType_def)
qed (auto simp: less_eq_ValueType_def less_ValueType_def ; metis ValueType.exhaust)+
end

fun type_byte :: "ValueType \<Rightarrow> u64" where
  "type_byte kTypeDeletion = 0" | "type_byte kTypeValue = 1"

definition kValueTypeForSeek :: ValueType where "kValueTypeForSeek = kTypeValue"

definition kMaxSequenceNumber :: u64 where "kMaxSequenceNumber = push_bit 56 1 - 1"

record ParsedInternalKey =
  user_key :: slice
  sequence :: u64
  vtype :: ValueType

definition PackSequenceAndType :: "u64 \<Rightarrow> ValueType \<Rightarrow> u64" where
  "PackSequenceAndType sq t = push_bit 8 sq OR type_byte t"

definition InternalKeyEncodingLength :: "ParsedInternalKey \<Rightarrow> nat" where
  "InternalKeyEncodingLength key = length (user_key key) + 8"

definition AppendInternalKey :: "byte list \<Rightarrow> ParsedInternalKey \<Rightarrow> byte list" where
  "AppendInternalKey result key =
     PutFixed64 True (result @ user_key key) (PackSequenceAndType (sequence key) (vtype key))"

definition key_num :: "slice \<Rightarrow> u64" where
  "key_num k = DecodeFixed64 True (drop (length k - 8) k)"

definition ParseInternalKey :: "slice \<Rightarrow> ParsedInternalKey option" where
  "ParseInternalKey internal_key =
     (let n = length internal_key
      in if n < 8 then None
         else let num = key_num internal_key; c = num AND 0xff
              in if c \<le> type_byte kTypeValue
                 then Some \<lparr>user_key = take (n - 8) internal_key, sequence = drop_bit 8 num,
                            vtype = (if c = 0 then kTypeDeletion else kTypeValue)\<rparr>
                 else None)"

text \<open>\<open>ExtractUserKey\<close> and \<open>ExtractValueType\<close>; their assertion is that the key has eight bytes.\<close>

definition ExtractUserKey :: "slice \<Rightarrow> slice" where
  "ExtractUserKey k = take (length k - 8) k"

definition ExtractValueType :: "slice \<Rightarrow> byte" where
  "ExtractValueType k = ucast (key_num k AND 0xff)"

section \<open>The comparator of internal keys\<close>

definition ICompare :: "(slice \<Rightarrow> slice \<Rightarrow> int) \<Rightarrow> slice \<Rightarrow> slice \<Rightarrow> int" where
  "ICompare ucmp akey bkey =
     (let r = ucmp (ExtractUserKey akey) (ExtractUserKey bkey)
      in if r = 0 then
           let anum = key_num akey; bnum = key_num bkey
           in if anum > bnum then -1 else if anum < bnum then 1 else r
         else r)"

definition IFindShortestSeparator ::
  "(slice \<Rightarrow> slice \<Rightarrow> int) \<Rightarrow> (slice \<Rightarrow> slice \<Rightarrow> slice) \<Rightarrow> slice \<Rightarrow> slice \<Rightarrow> slice" where
  "IFindShortestSeparator ucmp usep start limit =
     (let user_start = ExtractUserKey start; user_limit = ExtractUserKey limit;
          tmp = usep user_start user_limit
      in if length tmp < length user_start \<and> ucmp user_start tmp < 0
         then PutFixed64 True tmp (PackSequenceAndType kMaxSequenceNumber kValueTypeForSeek)
         else start)"

definition IFindShortSuccessor ::
  "(slice \<Rightarrow> slice \<Rightarrow> int) \<Rightarrow> (slice \<Rightarrow> slice) \<Rightarrow> slice \<Rightarrow> slice" where
  "IFindShortSuccessor ucmp usucc key =
     (let ukey = ExtractUserKey key; tmp = usucc ukey
      in if length tmp < length ukey \<and> ucmp ukey tmp < 0
         then PutFixed64 True tmp (PackSequenceAndType kMaxSequenceNumber kValueTypeForSeek)
         else key)"

text \<open>The wrapper of filter policies: filters see user keys.\<close>

definition ICreateFilter :: "(slice list \<Rightarrow> byte list \<Rightarrow> byte list) \<Rightarrow> slice list \<Rightarrow> byte list \<Rightarrow> byte list" where
  "ICreateFilter create keys dst = create (map ExtractUserKey keys) dst"

definition IKeyMayMatch :: "(slice \<Rightarrow> slice \<Rightarrow> bool) \<Rightarrow> slice \<Rightarrow> slice \<Rightarrow> bool" where
  "IKeyMayMatch may key f = may (ExtractUserKey key) f"

section \<open>Lookup keys\<close>

text \<open>
  The array a \<open>LookupKey\<close> points into, and the offset of \<open>kstart_\<close>. The code keeps it in \<open>space_\<close> when
  200 bytes are enough and on the heap otherwise; \<^term>\<open>None\<close> would be a write past its end.
\<close>

record LookupKey =
  lk_mem :: "byte list"
  lk_kstart :: nat

definition mk_LookupKey :: "slice \<Rightarrow> u64 \<Rightarrow> LookupKey option" where
  "mk_LookupKey ukey s =
     (let usize = length ukey; needed = usize + 13;
          size = (if needed \<le> 200 then 200 else needed);
          len = EncodeVarint32 (word_of_nat usize + 8);
          mem = len @ ukey @ EncodeFixed64 True (PackSequenceAndType s kValueTypeForSeek)
      in if length mem \<le> size then Some \<lparr>lk_mem = mem, lk_kstart = length len\<rparr> else None)"

definition memtable_key :: "LookupKey \<Rightarrow> slice" where "memtable_key k = lk_mem k"
definition internal_key :: "LookupKey \<Rightarrow> slice" where "internal_key k = drop (lk_kstart k) (lk_mem k)"
definition lookup_user_key :: "LookupKey \<Rightarrow> slice" where
  "lookup_user_key k = take (length (lk_mem k) - lk_kstart k - 8) (drop (lk_kstart k) (lk_mem k))"


section \<open>Encoding and decoding\<close>

lemma key_num_append [simp]: "key_num (u @ bytes_of_u64 n) = n"
  by (simp add: key_num_def) (metis DecodeFixed64_bytes append_Nil2)

lemma ExtractUserKey_append [simp]: "ExtractUserKey (u @ bytes_of_u64 n) = u"
  by (simp add: ExtractUserKey_def)

lemma PutFixed64_eq: "PutFixed64 le dst v = dst @ bytes_of_u64 v"
  by (simp add: PutFixed64_def EncodeFixed64_eq)

lemma pack_parts:
  assumes "sq \<le> kMaxSequenceNumber"
  shows "drop_bit 8 (PackSequenceAndType sq t) = sq" and "PackSequenceAndType sq t AND 0xff = type_byte t"
proof -
  have s: "\<not> bit sq i" if "56 \<le> i" for i
  proof -
    have "unat sq \<le> unat kMaxSequenceNumber" using assms by (simp add: word_le_nat_alt)
    then have "unat sq < 2 ^ 56" by (simp add: kMaxSequenceNumber_def)
    then have "take_bit 56 sq = sq" by (simp add: word_unat_eq_iff unsigned_take_bit_eq take_bit_nat_eq_self)
    then show ?thesis using that by (metis bit_take_bit_iff not_le)
  qed
  have t: "\<not> bit (type_byte t) i" if "8 \<le> i" for i using that by (cases t) (auto simp: bit_1_iff)
  show "drop_bit 8 (PackSequenceAndType sq t) = sq"
    by (rule bit_word_eqI) (use s t in \<open>auto simp: PackSequenceAndType_def bit_simps not_less [symmetric]\<close>)
  show "PackSequenceAndType sq t AND 0xff = type_byte t"
    by (rule bit_word_eqI) (use t in \<open>auto simp: PackSequenceAndType_def and_mask_take_bit bit_simps\<close>)
qed

lemma internal_key_roundtrip_aux:
  assumes "sequence k \<le> kMaxSequenceNumber"
  shows "ParseInternalKey (AppendInternalKey [] k) = Some k"
proof -
  have "type_byte (vtype k) \<le> 1" "type_byte (vtype k) = 0 \<longleftrightarrow> vtype k = kTypeDeletion" by (cases "vtype k"; simp)+
  then show ?thesis
    using pack_parts [OF assms, of "vtype k"]
    by (cases "vtype k") (auto simp: ParseInternalKey_def AppendInternalKey_def PutFixed64_eq Let_def)
qed

lemma unat_low_byte: "unat p = 256 * unat (drop_bit 8 p) + unat (p AND 0xff)" for p :: u64
proof -
  have "unat (p AND 0xff) = unat p mod 256"
    unfolding and_mask_take_bit unsigned_take_bit_eq by (simp add: take_bit_eq_mod)
  then show ?thesis by (simp add: unat_drop_bit_div)
qed

lemma type_byte_less: "unat (type_byte t) < 256" "unat (type_byte t) < unat (type_byte t') \<longleftrightarrow> t < t'"
  "unat (type_byte t) = unat (type_byte t') \<longleftrightarrow> t = t'"
  by (cases t; cases t'; simp add: less_ValueType_def)+

lemma pack_less:
  assumes "sq \<le> kMaxSequenceNumber" and "sq' \<le> kMaxSequenceNumber"
  shows "PackSequenceAndType sq t < PackSequenceAndType sq' t' \<longleftrightarrow> sq < sq' \<or> sq = sq' \<and> t < t'"
    and "PackSequenceAndType sq t = PackSequenceAndType sq' t' \<longleftrightarrow> sq = sq' \<and> t = t'"
proof -
  have u: "unat (PackSequenceAndType sq t) = 256 * unat sq + unat (type_byte t)"
    "unat (PackSequenceAndType sq' t') = 256 * unat sq' + unat (type_byte t')"
    using unat_low_byte [of "PackSequenceAndType sq t"] unat_low_byte [of "PackSequenceAndType sq' t'"]
      pack_parts [OF assms(1)] pack_parts [OF assms(2)] by simp_all
  have lex: "256 * a + x < 256 * b + y \<longleftrightarrow> a < b \<or> a = b \<and> x < y" "256 * a + x = 256 * b + y \<longleftrightarrow> a = b \<and> x = y"
    if "x < 256" "y < 256" for a b x y :: nat
    using that by (cases a b rule: linorder_cases; linarith)+
  show "PackSequenceAndType sq t < PackSequenceAndType sq' t' \<longleftrightarrow> sq < sq' \<or> sq = sq' \<and> t < t'"
    unfolding word_less_nat_alt u lex(1) [OF type_byte_less(1) type_byte_less(1)] by (simp add: type_byte_less word_unat_eq_iff)
  show "PackSequenceAndType sq t = PackSequenceAndType sq' t' \<longleftrightarrow> sq = sq' \<and> t = t'"
    unfolding word_unat_eq_iff u lex(2) [OF type_byte_less(1) type_byte_less(1)] by (simp add: type_byte_less)
qed

section \<open>The order of internal keys\<close>

context comparator
begin

definition ilegal :: "slice \<Rightarrow> bool" where
  "ilegal k \<longleftrightarrow> 8 \<le> length k \<and> legal (ExtractUserKey k)"

lemma icompare_less:
  "ICompare Compare a b < 0 \<longleftrightarrow> Compare (ExtractUserKey a) (ExtractUserKey b) < 0 \<or>
     Compare (ExtractUserKey a) (ExtractUserKey b) = 0 \<and> key_num b < key_num a"
  by (auto simp: ICompare_def Let_def)

lemma icompare_le:
  "ICompare Compare a b \<le> 0 \<longleftrightarrow> Compare (ExtractUserKey a) (ExtractUserKey b) < 0 \<or>
     Compare (ExtractUserKey a) (ExtractUserKey b) = 0 \<and> key_num b \<le> key_num a"
  by (auto simp: ICompare_def Let_def)

lemma icompare_gr:
  "0 < ICompare Compare a b \<longleftrightarrow> 0 < Compare (ExtractUserKey a) (ExtractUserKey b) \<or>
     Compare (ExtractUserKey a) (ExtractUserKey b) = 0 \<and> key_num a < key_num b"
  by (auto simp: ICompare_def Let_def)

lemma ilegal_append: "legal u \<Longrightarrow> ilegal (u @ bytes_of_u64 n)"
  by (simp add: ilegal_def)

lemma internal_comparator:
  "comparator ilegal (ICompare Compare) (IFindShortestSeparator Compare FindShortestSeparator)
     (IFindShortSuccessor Compare FindShortSuccessor)"
proof
  fix a b c s l :: slice
  assume L: "ilegal a" "ilegal b"
  then have lab: "legal (ExtractUserKey a)" "legal (ExtractUserKey b)" by (auto simp: ilegal_def)
  show "ICompare Compare b a < 0 \<longleftrightarrow> 0 < ICompare Compare a b"
    unfolding icompare_less icompare_gr using compare_flip [OF lab] compare_0_sym [OF lab] by auto
  assume "ilegal c"
  then have lc: "legal (ExtractUserKey c)" by (auto simp: ilegal_def)
  show "ICompare Compare a b \<le> 0 \<Longrightarrow> ICompare Compare b c \<le> 0 \<Longrightarrow> ICompare Compare a c \<le> 0"
    unfolding icompare_le
    using compare_less_trans [OF lab lc] compare_cong(2) [OF lab lc] by (auto dest: order.trans)
next
  fix s l :: slice
  assume L: "ilegal s" "ilegal l"
  let ?u = "ExtractUserKey s" and ?v = "ExtractUserKey l"
  have ll: "legal ?u" "legal ?v" using L by (auto simp: ilegal_def)
  let ?t = "FindShortestSeparator ?u ?v"
  show "ilegal (IFindShortestSeparator Compare FindShortestSeparator s l) \<and>
      ICompare Compare s (IFindShortestSeparator Compare FindShortestSeparator s l) \<le> 0 \<and>
      ICompare Compare (IFindShortestSeparator Compare FindShortestSeparator s l) l < 0"
    if lt: "ICompare Compare s l < 0"
  proof (cases "length ?t < length ?u \<and> Compare ?u ?t < 0")
    case True
    then have "Compare ?u ?v < 0" using separator_same [OF ll] lt by (auto simp: icompare_less)
    then have "legal ?t" "Compare ?t ?v < 0" using separator [OF ll] by auto
    then show ?thesis using True
      by (simp add: IFindShortestSeparator_def Let_def PutFixed64_eq icompare_less icompare_le ilegal_append)
  next
    case False
    have "ICompare Compare s s \<le> 0" using ll by (simp add: icompare_le)
    moreover have "IFindShortestSeparator Compare FindShortestSeparator s l = s"
      unfolding IFindShortestSeparator_def Let_def using False by (rule if_not_P)
    ultimately show ?thesis using lt L by simp
  qed
  show "IFindShortestSeparator Compare FindShortestSeparator s l = s" if "\<not> ICompare Compare s l < 0"
    using that separator_same [OF ll] by (auto simp: icompare_less IFindShortestSeparator_def Let_def)
next
  fix s :: slice
  assume L: "ilegal s"
  then have l: "legal (ExtractUserKey s)" by (simp add: ilegal_def)
  then show "ilegal (IFindShortSuccessor Compare FindShortSuccessor s) \<and>
      ICompare Compare s (IFindShortSuccessor Compare FindShortSuccessor s) \<le> 0"
    using L successor [OF l] by (auto simp: IFindShortSuccessor_def Let_def PutFixed64_eq icompare_le ilegal_append)
qed

end

interpretation internal: comparator bytewise.ilegal "ICompare BytewiseCompare"
  "IFindShortestSeparator BytewiseCompare FindShortestSeparator" "IFindShortSuccessor BytewiseCompare FindShortSuccessor"
  by (rule bytewise.internal_comparator)


section \<open>Properties\<close>

text \<open>
  C29. Internal keys: parsing the encoding of a key gives it back; the comparator orders by increasing
  user key and, for one user key, by decreasing sequence number and then decreasing type, so that the newest
  entry of a key comes first; and its separators and successors obey the contract of comparators.
\<close>

theorem internal_key_order:
  assumes "sequence j \<le> kMaxSequenceNumber" and "sequence k \<le> kMaxSequenceNumber"
    and "a = AppendInternalKey [] j" and "b = AppendInternalKey [] k"
  shows "ParseInternalKey a = Some j \<and> length a = InternalKeyEncodingLength j \<and>
    (ICompare BytewiseCompare a b < 0 \<longleftrightarrow>
       ord_class.lexordp (user_key j) (user_key k) \<or>
       user_key j = user_key k \<and> (sequence k < sequence j \<or> sequence k = sequence j \<and> vtype k < vtype j)) \<and>
    (ICompare BytewiseCompare a b = 0 \<longleftrightarrow> j = k) \<and>
    (let s = IFindShortestSeparator BytewiseCompare FindShortestSeparator a b
     in ICompare BytewiseCompare a b < 0 \<longrightarrow> ICompare BytewiseCompare a s \<le> 0 \<and> ICompare BytewiseCompare s b < 0) \<and>
    ICompare BytewiseCompare a (IFindShortSuccessor BytewiseCompare FindShortSuccessor a) \<le> 0"
proof -
  define x y where "x = PackSequenceAndType (sequence j) (vtype j)" and "y = PackSequenceAndType (sequence k) (vtype k)"
  have ab: "a = user_key j @ bytes_of_u64 x" "b = user_key k @ bytes_of_u64 y"
    by (simp_all add: assms(3,4) AppendInternalKey_def PutFixed64_eq x_def y_def)
  have il: "bytewise.ilegal a" "bytewise.ilegal b" by (simp_all add: ab bytewise.ilegal_append)
  have 1: "ICompare BytewiseCompare a b < 0 \<longleftrightarrow> ord_class.lexordp (user_key j) (user_key k) \<or>
      user_key j = user_key k \<and> (sequence k < sequence j \<or> sequence k = sequence j \<and> vtype k < vtype j)"
    unfolding bytewise.icompare_less by (simp add: ab BytewiseCompare_def slice_compare_less x_def y_def pack_less assms(1,2))
  have "ICompare BytewiseCompare a b = 0 \<longleftrightarrow> user_key j = user_key k \<and> x = y"
    by (auto simp: ICompare_def Let_def ab BytewiseCompare_def)
  then have 2: "ICompare BytewiseCompare a b = 0 \<longleftrightarrow> j = k"
    by (auto simp: x_def y_def pack_less assms(1,2))
  have "length a = InternalKeyEncodingLength j" by (simp add: ab InternalKeyEncodingLength_def)
  moreover have "ParseInternalKey a = Some j" unfolding assms(3) by (rule internal_key_roundtrip_aux [OF assms(1)])
  ultimately show ?thesis
    using 1 2 internal.separator [OF il] internal.successor [OF il(1)] unfolding Let_def by blast
qed

theorem internal_key_order_witness:
  "ICompare BytewiseCompare (AppendInternalKey [] \<lparr>user_key = [1], sequence = 7, vtype = kTypeValue\<rparr>)
     (AppendInternalKey [] \<lparr>user_key = [1], sequence = 5, vtype = kTypeDeletion\<rparr>) < 0"
  using internal_key_order [of "\<lparr>user_key = [1], sequence = 7, vtype = kTypeValue\<rparr>" "\<lparr>user_key = [1], sequence = 5, vtype = kTypeDeletion\<rparr>"]
  by (simp add: kMaxSequenceNumber_def)

text \<open>
  A lookup key fits its array; its memtable key is the length of its internal key as a varint
  followed by the internal key, which consists of the user key, the sequence number and the largest type, so that
  it sorts before every entry of the user key with this or a lower sequence number.
\<close>

theorem LookupKey_correct:
  assumes "length ukey + 8 < 2 ^ 32" and "s \<le> kMaxSequenceNumber"
  shows "\<exists>k. mk_LookupKey ukey s = Some k \<and> lookup_user_key k = ukey \<and>
    internal_key k = AppendInternalKey [] \<lparr>user_key = ukey, sequence = s, vtype = kValueTypeForSeek\<rparr> \<and>
    GetLengthPrefixedSlice (memtable_key k) = Some (internal_key k, []) \<and>
    (\<forall>n t. n \<le> s \<longrightarrow> ICompare BytewiseCompare (internal_key k) (AppendInternalKey [] \<lparr>user_key = ukey, sequence = n, vtype = t\<rparr>) \<le> 0)"
proof -
  let ?len = "EncodeVarint32 (word_of_nat (length ukey) + 8)"
  let ?n = "PackSequenceAndType s kValueTypeForSeek"
  have l5: "length ?len \<le> 5" by (simp add: EncodeVarint32_def Let_def)
  define k where "k = \<lparr>lk_mem = ?len @ ukey @ bytes_of_u64 ?n, lk_kstart = length ?len\<rparr>"
  have "mk_LookupKey ukey s = Some k"
    using l5 by (simp add: mk_LookupKey_def Let_def EncodeFixed64_eq k_def)
  moreover have ik: "internal_key k = ukey @ bytes_of_u64 ?n" by (simp add: internal_key_def k_def)
  moreover have "lookup_user_key k = ukey" by (simp add: lookup_user_key_def k_def)
  moreover have "GetLengthPrefixedSlice (memtable_key k) = Some (internal_key k, [])"
    using varstring.decode_encode_exact [of "ukey @ bytes_of_u64 ?n"] assms(1)
    unfolding ik by (simp add: memtable_key_def k_def PutLengthPrefixedSlice_def PutVarint32_def)
  moreover have "ICompare BytewiseCompare (internal_key k) (AppendInternalKey [] \<lparr>user_key = ukey, sequence = n, vtype = t\<rparr>) \<le> 0"
    if "n \<le> s" for n t
  proof -
    have "PackSequenceAndType n t \<le> ?n"
      using pack_less(1) [of s n kValueTypeForSeek t] that assms(2)
      by (cases t) (auto simp: not_less [symmetric] kValueTypeForSeek_def less_ValueType_def)
    then show ?thesis by (simp add: bytewise.icompare_le ik AppendInternalKey_def PutFixed64_eq)
  qed
  ultimately show ?thesis by (auto simp: AppendInternalKey_def PutFixed64_eq)
qed

theorem LookupKey_witness:
  "\<exists>k. mk_LookupKey [1, 2] 9 = Some k \<and> lookup_user_key k = [1, 2]"
  using LookupKey_correct [of "[1, 2]" 9] by (auto simp: kMaxSequenceNumber_def)

end
