(* ===== verification/MemTable.thy ===== *)
theory MemTable
  imports SkipListCorrect DbFormat
begin

text \<open>
  db/memtable.h and db/memtable.cc: the table of recent writes, a skip list of entries in arena buffers. The key of
  the skip list is a pointer to a buffer; the model takes it as the bytes from there to the end of the
  buffer, and a read past that end has the value \<^term>\<open>None\<close>. An entry is a length-prefixed internal key followed by a length-prefixed
  value.
\<close>

section \<open>Entries\<close>

text \<open>
  The local \<open>GetLengthPrefixedSlice(data)\<close>: the slice, and what follows it in the buffer. The limit of the varint is five bytes.
\<close>

definition entry_slice :: "byte list \<Rightarrow> (slice \<times> byte list) option" where
  "entry_slice data =
     Option.bind (GetVarint32Ptr (take 5 data)) (\<lambda>(len, rest).
       let p = drop (length (take 5 data) - length rest) data
       in if unat len \<le> length p then Some (take (unat len) p, drop (unat len) p) else None)"

text \<open>
  \<open>KeyComparator::operator()\<close>. The value of a comparison of entries that cannot be read does not matter: there are none in a table.
\<close>

definition entry_key :: "byte list \<Rightarrow> slice" where
  "entry_key data = (case entry_slice data of None \<Rightarrow> [] | Some (s, _) \<Rightarrow> s)"

definition KeyComparator :: "(slice \<Rightarrow> slice \<Rightarrow> int) \<Rightarrow> byte list \<Rightarrow> byte list \<Rightarrow> int" where
  "KeyComparator ucmp aptr bptr = ICompare ucmp (entry_key aptr) (entry_key bptr)"

definition EncodeKey :: "slice \<Rightarrow> byte list" where
  "EncodeKey target = PutVarint32 [] (word_of_nat (length target)) @ target"

section \<open>The table\<close>

record MemTable =
  refs :: int
  table :: "byte list skiplist"

definition mk_MemTable :: MemTable where
  "mk_MemTable = \<lparr>refs = 0, table = mk_SkipList []\<rparr>"

definition Ref :: "MemTable \<Rightarrow> MemTable" where
  "Ref m = m\<lparr>refs := refs m + 1\<rparr>"

text \<open>\<open>Unref()\<close>, with its assertion: the table that remains, or \<^term>\<open>Some None\<close> when it is deleted.\<close>

definition Unref :: "MemTable \<Rightarrow> MemTable option option" where
  "Unref m =
     (let m = m\<lparr>refs := refs m - 1\<rparr>
      in if refs m < 0 then None else if refs m \<le> 0 then Some None else Some (Some m))"

text \<open>
  The buffer that \<open>Add\<close> fills. \<^term>\<open>None\<close> if the assertion that it is exactly full fails.
\<close>

definition mk_entry :: "u64 \<Rightarrow> ValueType \<Rightarrow> slice \<Rightarrow> slice \<Rightarrow> byte list option" where
  "mk_entry s type ukey val =
     (let key_size = length ukey; val_size = length val; internal_key_size = key_size + 8;
          encoded_len = VarintLength (word_of_nat internal_key_size) + internal_key_size + VarintLength (word_of_nat val_size) + val_size;
          buf = EncodeVarint32 (word_of_nat internal_key_size) @ ukey @ EncodeFixed64 True (push_bit 8 s OR type_byte type) @
                EncodeVarint32 (word_of_nat val_size) @ val
      in if length buf = encoded_len then Some buf else None)"

definition Add :: "(slice \<Rightarrow> slice \<Rightarrow> int) \<Rightarrow> u64 \<Rightarrow> ValueType \<Rightarrow> slice \<Rightarrow> slice \<Rightarrow> MemTable \<Rightarrow> MemTable option" where
  "Add ucmp s type ukey val m =
     Option.bind (mk_entry s type ukey val) (\<lambda>buf.
       map_option (\<lambda>t. m\<lparr>table := t\<rparr>) (Insert (KeyComparator ucmp) buf (table m)))"

text \<open>
  \<open>Get(key, value, s)\<close>: the result, what is assigned to \<open>*value\<close> (a null pointer if not \<open>want\<close>) and what is assigned to \<open>*s\<close>.
\<close>

definition mem_Get ::
  "(slice \<Rightarrow> slice \<Rightarrow> int) \<Rightarrow> MemTable \<Rightarrow> LookupKey \<Rightarrow> bool \<Rightarrow> (bool \<times> slice option \<times> status option) option" where
  "mem_Get ucmp m k want =
     Option.bind (iter_Seek (KeyComparator ucmp) (table m) (memtable_key k)) (\<lambda>it.
       if iter_Valid it then
         Option.bind (iter_key (table m) it) (\<lambda>entry.
         Option.bind (GetVarint32Ptr (take 5 entry)) (\<lambda>(key_length, rest).
           let key_ptr = drop (length (take 5 entry) - length rest) entry; n = unat key_length
           in if n < 8 \<or> length key_ptr < n then None
              else if ucmp (take (n - 8) key_ptr) (lookup_user_key k) = 0 then
                let c = DecodeFixed64 True (drop (n - 8) key_ptr) AND 0xff
                in if c = type_byte kTypeValue then
                     (if want then map_option (\<lambda>(v, _). (True, Some v, None)) (entry_slice (drop n key_ptr)) else Some (True, None, None))
                   else if c = type_byte kTypeDeletion then Some (True, None, Some (NotFound [] []))
                   else Some (False, None, None)
              else Some (False, None, None)))
       else Some (False, None, None))"

text \<open>\<open>MemTableIterator\<close> passes its operations on to the iterator of the skip list; these are the others.\<close>

definition mem_iter_Seek :: "(slice \<Rightarrow> slice \<Rightarrow> int) \<Rightarrow> MemTable \<Rightarrow> slice \<Rightarrow> iter option" where
  "mem_iter_Seek ucmp m k = iter_Seek (KeyComparator ucmp) (table m) (EncodeKey k)"

definition mem_iter_key :: "MemTable \<Rightarrow> iter \<Rightarrow> slice option" where
  "mem_iter_key m it = Option.bind (iter_key (table m) it) (\<lambda>e. map_option fst (entry_slice e))"

definition mem_iter_value :: "MemTable \<Rightarrow> iter \<Rightarrow> slice option" where
  "mem_iter_value m it =
     Option.bind (iter_key (table m) it) (\<lambda>e. Option.bind (entry_slice e) (\<lambda>(_, rest). map_option fst (entry_slice rest)))"

section \<open>Reading entries back\<close>

lemma GetVarint32Ptr_take5:
  "GetVarint32Ptr (take 5 (EncodeVarint32 v @ rest)) = Some (v, take (5 - length (EncodeVarint32 v)) rest)"
  "length (EncodeVarint32 v) \<le> 5"
proof -
  show 1: "length (EncodeVarint32 v) \<le> 5" by (simp add: EncodeVarint32_def Let_def)
  then show "GetVarint32Ptr (take 5 (EncodeVarint32 v @ rest)) = Some (v, take (5 - length (EncodeVarint32 v)) rest)"
    using varint32.decode_encode [of v] by (simp add: GetVarint32Ptr_leb GetVarint32_leb)
qed

lemma drop_take5:
  "drop (length (take 5 (EncodeVarint32 v @ rest)) - length (take (5 - length (EncodeVarint32 v)) rest)) (EncodeVarint32 v @ rest) = rest"
  using GetVarint32Ptr_take5(2) [of v] by simp

lemma entry_slice_put:
  assumes "length s < 2 ^ 32"
  shows "entry_slice (EncodeVarint32 (word_of_nat (length s)) @ s @ rest) = Some (s, rest)"
proof -
  have "unat (word_of_nat (length s) :: u32) = length s" using assms by (simp add: unat_of_nat)
  then show ?thesis unfolding entry_slice_def GetVarint32Ptr_take5(1) Option.bind_lunit prod.case Let_def drop_take5 by simp
qed

text \<open>An entry: its key and its value.\<close>

type_synonym entry = "ParsedInternalKey \<times> slice"

definition ikey :: "entry \<Rightarrow> slice" where
  "ikey e = user_key (fst e) @ bytes_of_u64 (PackSequenceAndType (sequence (fst e)) (vtype (fst e)))"

definition entry_bytes :: "entry \<Rightarrow> byte list" where
  "entry_bytes e = EncodeVarint32 (word_of_nat (length (ikey e))) @ ikey e @ EncodeVarint32 (word_of_nat (length (snd e))) @ snd e"

definition entry_fits :: "entry \<Rightarrow> bool" where
  "entry_fits e \<longleftrightarrow> length (user_key (fst e)) + 8 < 2 ^ 32 \<and> length (snd e) < 2 ^ 32 \<and> sequence (fst e) \<le> kMaxSequenceNumber"

lemma length_ikey: "length (ikey e) = length (user_key (fst e)) + 8"
  by (simp add: ikey_def)

lemma ikey_parts [simp]: "ExtractUserKey (ikey e) = user_key (fst e)" "key_num (ikey e) = PackSequenceAndType (sequence (fst e)) (vtype (fst e))"
  by (simp_all add: ikey_def)

lemma unat_u32: "n < 2 ^ 32 \<Longrightarrow> unat (word_of_nat n :: u32) = n"
  by (simp add: unat_of_nat)

lemma VarintLength_32: "n < 2 ^ 32 \<Longrightarrow> length (EncodeVarint32 (word_of_nat n)) = VarintLength (word_of_nat n)"
proof -
  assume "n < 2 ^ 32"
  then have "(ucast (word_of_nat n :: u32) :: u64) = word_of_nat n"
    by (simp add: word_unat_eq_iff unsigned_ucast_eq unsigned_of_nat take_bit_nat_eq_self)
  then show ?thesis by (simp add: EncodeVarint32_length)
qed

lemma mk_entry_fits: "entry_fits e \<Longrightarrow> mk_entry (sequence (fst e)) (vtype (fst e)) (user_key (fst e)) (snd e) = Some (entry_bytes e)"
  unfolding mk_entry_def entry_bytes_def ikey_def entry_fits_def
  using VarintLength_32 [of "length (user_key (fst e)) + 8"]
  by (simp add: Let_def VarintLength_32 EncodeFixed64_eq PackSequenceAndType_def)

lemma entry_slice_bytes: "entry_fits e \<Longrightarrow> entry_slice (entry_bytes e) = Some (ikey e, EncodeVarint32 (word_of_nat (length (snd e))) @ snd e)"
  unfolding entry_bytes_def by (rule entry_slice_put) (simp add: entry_fits_def length_ikey)

lemma entry_slice_value: "entry_fits e \<Longrightarrow> entry_slice (EncodeVarint32 (word_of_nat (length (snd e))) @ snd e) = Some (snd e, [])"
  using entry_slice_put [of "snd e" "[]"] by (simp add: entry_fits_def)

lemma entry_key_bytes [simp]: "entry_fits e \<Longrightarrow> entry_key (entry_bytes e) = ikey e"
  by (simp add: entry_key_def entry_slice_bytes)

lemma entry_key_put: "length s < 2 ^ 32 \<Longrightarrow> entry_key (EncodeVarint32 (word_of_nat (length s)) @ s) = s"
  using entry_slice_put [of s "[]"] by (simp add: entry_key_def)

section \<open>The table as a map of versions\<close>

fun add_all :: "(slice \<Rightarrow> slice \<Rightarrow> int) \<Rightarrow> entry list \<Rightarrow> MemTable \<Rightarrow> MemTable option" where
  "add_all ucmp [] m = Some m"
| "add_all ucmp (e # es) m =
     Option.bind (Add ucmp (sequence (fst e)) (vtype (fst e)) (user_key (fst e)) (snd e) m) (add_all ucmp es)"

text \<open>The entries of a user key that a reader at the given sequence number sees.\<close>

definition visible :: "(slice \<Rightarrow> slice \<Rightarrow> int) \<Rightarrow> entry list \<Rightarrow> slice \<Rightarrow> u64 \<Rightarrow> entry list" where
  "visible ucmp es ukey s = filter (\<lambda>e. ucmp (user_key (fst e)) ukey = 0 \<and> sequence (fst e) \<le> s) es"

definition Get_result :: "entry \<Rightarrow> bool \<Rightarrow> bool \<times> slice option \<times> status option" where
  "Get_result e want =
     (case vtype (fst e) of
        kTypeValue \<Rightarrow> (True, (if want then Some (snd e) else None), None)
      | kTypeDeletion \<Rightarrow> (True, None, Some (NotFound [] [])))"

context comparator
begin

definition mlegal :: "byte list \<Rightarrow> bool" where
  "mlegal data \<longleftrightarrow> ilegal (entry_key data)"

lemma mem_three_way: "three_way mlegal (KeyComparator Compare)"
proof -
  have T: "three_way ilegal (ICompare Compare)" using internal_comparator by (rule comparator.axioms(1))
  show ?thesis
    by unfold_locales (auto simp: mlegal_def KeyComparator_def three_way.compare_flip [OF T] intro: three_way.compare_trans [OF T])
qed

end

sublocale comparator \<subseteq> mem: three_way mlegal "KeyComparator Compare"
  by (rule mem_three_way)

context comparator
begin

definition mem_repr :: "MemTable \<Rightarrow> entry list \<Rightarrow> bool" where
  "mem_repr m es \<longleftrightarrow> (\<exists>ks. holds mlegal (KeyComparator Compare) (table m) ks \<and> set ks = entry_bytes ` set es) \<and>
     (\<forall>e\<in>set es. entry_fits e)"

lemma ilegal_ikey: "legal (user_key (fst e)) \<Longrightarrow> ilegal (ikey e)"
  by (simp add: ikey_def ilegal_append)

lemma mem_repr_Add:
  assumes m: "mem_repr m es" and e: "entry_fits e" "legal (user_key (fst e))"
    and new: "\<forall>x\<in>set es. sequence (fst e) \<noteq> sequence (fst x)"
  shows "\<exists>m'. Add Compare (sequence (fst e)) (vtype (fst e)) (user_key (fst e)) (snd e) m = Some m' \<and> mem_repr m' (e # es)"
proof -
  obtain ks where ks: "holds mlegal (KeyComparator Compare) (table m) ks" "set ks = entry_bytes ` set es" "\<forall>x\<in>set es. entry_fits x"
    using m unfolding mem_repr_def by blast
  have "KeyComparator Compare (entry_bytes x) (entry_bytes e) \<noteq> 0" if "x \<in> set es" for x
  proof
    assume "KeyComparator Compare (entry_bytes x) (entry_bytes e) = 0"
    then have "key_num (ikey x) = key_num (ikey e)" using ks(3) that e(1) by (auto simp: KeyComparator_def ICompare_def Let_def split: if_splits)
    then show False using pack_less(2) [of "sequence (fst x)" "sequence (fst e)"] new that e(1) ks(3) by (auto simp: entry_fits_def)
  qed
  then have "\<forall>x\<in>set ks. KeyComparator Compare x (entry_bytes e) \<noteq> 0" using ks(2) by auto
  moreover have "mlegal (entry_bytes e)" using e by (simp add: mlegal_def ilegal_ikey)
  ultimately obtain t where t: "Insert (KeyComparator Compare) (entry_bytes e) (table m) = Some t"
    "holds mlegal (KeyComparator Compare) t (insert_key (KeyComparator Compare) (entry_bytes e) ks)"
    using mem.holds_Insert [OF ks(1)] by blast
  have "set (insert_key (KeyComparator Compare) (entry_bytes e) ks) = entry_bytes ` set (e # es)"
    using ks(2) by (simp add: set_insert_key)
  then show ?thesis using t ks(3) e(1) by (auto simp: Add_def mk_entry_fits mem_repr_def)
qed

lemma mem_repr_add_all:
  "mem_repr m es0 \<Longrightarrow> \<forall>e\<in>set es. entry_fits e \<and> legal (user_key (fst e)) \<Longrightarrow> distinct (map (sequence \<circ> fst) (es0 @ es)) \<Longrightarrow>
   \<exists>m'. add_all Compare es m = Some m' \<and> mem_repr m' (rev es @ es0)"
proof (induction es arbitrary: m es0)
  case (Cons e es)
  have "\<forall>x\<in>set es0. sequence (fst e) \<noteq> sequence (fst x)" using Cons.prems(3) by (auto simp: image_iff)
  then obtain m1 where m1: "Add Compare (sequence (fst e)) (vtype (fst e)) (user_key (fst e)) (snd e) m = Some m1" "mem_repr m1 (e # es0)"
    using mem_repr_Add [of m es0 e] Cons.prems(1,2) by auto
  have "distinct (map (sequence \<circ> fst) ((e # es0) @ es))" using Cons.prems(3) by (auto simp: comp_def)
  from Cons.IH [OF m1(2) _ this] Cons.prems(2) show ?case using m1(1) by simp
qed auto

lemma mem_Get_at:
  assumes "iter_Seek (KeyComparator Compare) (table m) (memtable_key k) = Some it" and "iter_Valid it"
    and "iter_key (table m) it = Some (entry_bytes x)" and x: "entry_fits x"
  shows "mem_Get Compare m k want =
    Some (if Compare (user_key (fst x)) (lookup_user_key k) = 0 then Get_result x want else (False, None, None))"
proof -
  let ?v = "EncodeVarint32 (word_of_nat (length (snd x))) @ snd x" and ?n = "word_of_nat (length (ikey x)) :: u32"
  have n: "unat ?n = length (user_key (fst x)) + 8" unfolding length_ikey using x unfolding entry_fits_def by (intro unat_u32) simp
  have eb: "entry_bytes x = EncodeVarint32 ?n @ ikey x @ ?v" by (simp add: entry_bytes_def)
  have g: "GetVarint32Ptr (take 5 (entry_bytes x)) = Some (?n, take (5 - length (EncodeVarint32 ?n)) (ikey x @ ?v))"
    unfolding eb by (rule GetVarint32Ptr_take5(1))
  have d: "drop (length (take 5 (entry_bytes x)) - length (take (5 - length (EncodeVarint32 ?n)) (ikey x @ ?v))) (entry_bytes x) = ikey x @ ?v"
    unfolding eb by (rule drop_take5)
  have c: "DecodeFixed64 True (drop (unat ?n - 8) (ikey x @ ?v)) AND 0xff = type_byte (vtype (fst x))"
    unfolding n using pack_parts(2) [of "sequence (fst x)" "vtype (fst x)"] x by (simp add: ikey_def DecodeFixed64_bytes entry_fits_def)
  have t: "take (unat ?n - 8) (ikey x @ ?v) = user_key (fst x)" "drop (unat ?n) (ikey x @ ?v) = ?v" "unat ?n \<le> length (ikey x @ ?v)"
    unfolding n by (simp_all add: ikey_def)
  show ?thesis
    unfolding mem_Get_def assms(1) Option.bind_lunit if_P [OF assms(2)] assms(3) g prod.case Let_def d c t(1,2)
    using t(3) n x by (cases "vtype (fst x)") (auto simp: Get_result_def entry_slice_value)
qed

text \<open>Which entries are before the key that is looked up.\<close>

lemma before_lookup:
  assumes "entry_fits x" and "entry_key lk = ikey (\<lparr>user_key = ukey, sequence = s, vtype = kValueTypeForSeek\<rparr>, v)" and "s \<le> kMaxSequenceNumber"
  shows "KeyComparator Compare (entry_bytes x) lk < 0 \<longleftrightarrow>
    Compare (user_key (fst x)) ukey < 0 \<or> Compare (user_key (fst x)) ukey = 0 \<and> s < sequence (fst x)"
  using assms pack_less(1) [of s "sequence (fst x)" kValueTypeForSeek "vtype (fst x)"]
  by (auto simp: KeyComparator_def icompare_less entry_fits_def kValueTypeForSeek_def less_ValueType_def)

lemma mem_repr_mk: "mem_repr mk_MemTable []"
  unfolding mem_repr_def mk_MemTable_def using holds_mk by auto

lemma mk_LookupKey_parts:
  assumes "mk_LookupKey ukey s = Some k" and "length ukey + 8 < 2 ^ 32"
  shows "lookup_user_key k = ukey"
    and "entry_key (memtable_key k) = ikey (\<lparr>user_key = ukey, sequence = s, vtype = kValueTypeForSeek\<rparr>, [])"
proof -
  let ?i = "ikey (\<lparr>user_key = ukey, sequence = s, vtype = kValueTypeForSeek\<rparr>, [])"
  have k: "k = \<lparr>lk_mem = EncodeVarint32 (word_of_nat (length ?i)) @ ?i, lk_kstart = length (EncodeVarint32 (word_of_nat (length ?i)))\<rparr>"
    using assms(1) by (simp add: mk_LookupKey_def Let_def ikey_def EncodeFixed64_eq split: if_splits)
  show "lookup_user_key k = ukey" by (simp add: k lookup_user_key_def ikey_def)
  show "entry_key (memtable_key k) = ?i" unfolding k memtable_key_def LookupKey.simps using assms(2) by (intro entry_key_put) (simp add: length_ikey)
qed

lemma mem_repr_Get:
  assumes m: "mem_repr m es" and l: "\<forall>e\<in>set es. legal (user_key (fst e))" and d: "distinct (map (sequence \<circ> fst) es)"
    and k: "mk_LookupKey ukey s = Some k" "length ukey + 8 < 2 ^ 32" "s \<le> kMaxSequenceNumber" "legal ukey"
  shows "visible Compare es ukey s = [] \<Longrightarrow> mem_Get Compare m k want = Some (False, None, None)"
    and "e \<in> set (visible Compare es ukey s) \<Longrightarrow> \<forall>x\<in>set (visible Compare es ukey s). sequence (fst x) \<le> sequence (fst e) \<Longrightarrow>
      mem_Get Compare m k want = Some (Get_result e want)"
proof -
  let ?c = "KeyComparator Compare" and ?lk = "memtable_key k"
  obtain ks where ks: "holds mlegal ?c (table m) ks" "set ks = entry_bytes ` set es" "\<forall>x\<in>set es. entry_fits x"
    using m unfolding mem_repr_def by blast
  note K = mk_LookupKey_parts [OF k(1,2)]
  have lk: "mlegal ?lk" unfolding mlegal_def K(2) using k(4) by (simp add: ilegal_ikey)
  define i where "i = rank ?c ?lk ks"
  obtain it where it: "iter_Seek ?c (table m) ?lk = Some it" "at_pos mlegal ?c (table m) ks it i" using mem.holds_Seek [OF ks(1) lk] unfolding i_def by blast
  have found: "\<exists>x\<in>set es. ks ! i = entry_bytes x \<and> \<not> ?c (entry_bytes x) ?lk < 0 \<and>
      mem_Get Compare m k want = Some (if Compare (user_key (fst x)) ukey = 0 then Get_result x want else (False, None, None))" if i: "i < length ks"
  proof -
    obtain x where x: "x \<in> set es" "ks ! i = entry_bytes x" using nth_mem [OF i] ks(2) by auto
    have "iter_Valid it" "iter_key (table m) it = Some (entry_bytes x)"
      using mem.skips.pos_valid [OF it(2)] mem.at_pos_key [OF it(2)] i x(2) by auto
    then show ?thesis
      using mem_Get_at [OF it(1), of x want] x ks(3) K(1) mem.rank_not_before [of ?lk ks] i unfolding i_def by auto
  qed
  note B = before_lookup [OF _ K(2) k(3)]
  show "mem_Get Compare m k want = Some (False, None, None)" if "visible Compare es ukey s = []"
  proof (cases "i < length ks")
    case True
    then obtain x where "x \<in> set es" "\<not> ?c (entry_bytes x) ?lk < 0"
      "mem_Get Compare m k want = Some (if Compare (user_key (fst x)) ukey = 0 then Get_result x want else (False, None, None))" using found by blast
    moreover have "Compare (user_key (fst x)) ukey \<noteq> 0" using calculation(1,2) B [of x] that ks(3) by (auto simp: visible_def filter_empty_conv)
    ultimately show ?thesis by simp
  next
    case False
    then show ?thesis using it mem.skips.pos_valid [OF it(2)] by (simp add: mem_Get_def)
  qed
  show "mem_Get Compare m k want = Some (Get_result e want)"
    if e: "e \<in> set (visible Compare es ukey s)" and mx: "\<forall>x\<in>set (visible Compare es ukey s). sequence (fst x) \<le> sequence (fst e)"
  proof -
    have ee: "e \<in> set es" "Compare (user_key (fst e)) ukey = 0" "sequence (fst e) \<le> s" using e by (auto simp: visible_def)
    have ne: "\<not> ?c (entry_bytes e) ?lk < 0" using B [of e] ee ks(3) by auto
    have "entry_bytes e \<in> set ks" using ks(2) ee(1) by blast
    from mem.rank_least [OF conjunct1 [OF mem.holds_sorted [OF ks(1)]] conjunct2 [OF mem.holds_sorted [OF ks(1)]] this ne]
    have i: "i < length ks" "?c (ks ! i) (entry_bytes e) \<le> 0" unfolding i_def by auto
    then obtain x where x: "x \<in> set es" "ks ! i = entry_bytes x" "\<not> ?c (entry_bytes x) ?lk < 0"
      "mem_Get Compare m k want = Some (if Compare (user_key (fst x)) ukey = 0 then Get_result x want else (False, None, None))" using found by blast
    have lx: "legal (user_key (fst x))" "legal (user_key (fst e))" using l x(1) ee(1) by auto
    have f: "entry_fits x" "entry_fits e" using ks(3) x(1) ee(1) by auto
    have "Compare (user_key (fst x)) (user_key (fst e)) < 0 \<or> Compare (user_key (fst x)) (user_key (fst e)) = 0 \<and> key_num (ikey e) \<le> key_num (ikey x)"
      using i(2) f unfolding x(2) KeyComparator_def by (simp add: icompare_le)
    moreover have "\<not> Compare (user_key (fst x)) (user_key (fst e)) < 0"
      using compare_less_trans(2) [OF lx k(4)] ee(2) B [OF f(1)] x(3) by auto
    ultimately have eq: "Compare (user_key (fst x)) (user_key (fst e)) = 0" "key_num (ikey e) \<le> key_num (ikey x)" by auto
    then have ux: "Compare (user_key (fst x)) ukey = 0" using compare_cong(2) [OF lx k(4)] ee(2) by auto
    then have "x \<in> set (visible Compare es ukey s)" using x(1,3) B [OF f(1)] by (auto simp: visible_def)
    then have "sequence (fst x) \<le> sequence (fst e)" using mx by blast
    moreover have "\<not> sequence (fst x) < sequence (fst e)"
      using eq(2) pack_less(1) [of "sequence (fst x)" "sequence (fst e)" "vtype (fst x)" "vtype (fst e)"] f by (auto simp: entry_fits_def)
    ultimately have "(sequence \<circ> fst) x = (sequence \<circ> fst) e" by simp
    then have "x = e" using d x(1) ee(1) by (meson distinct_map inj_onD)
    then show ?thesis using x(4) ux by simp
  qed
qed

lemma Get_after_adds:
  assumes "\<forall>e\<in>set es. entry_fits e \<and> legal (user_key (fst e))" and "distinct (map (sequence \<circ> fst) es)"
    and "length ukey + 8 < 2 ^ 32" and "s \<le> kMaxSequenceNumber" and "legal ukey" and "mk_LookupKey ukey s = Some k"
  shows "\<exists>m. add_all Compare es mk_MemTable = Some m \<and>
    (visible Compare es ukey s = [] \<longrightarrow> mem_Get Compare m k want = Some (False, None, None)) \<and>
    (\<forall>e\<in>set (visible Compare es ukey s). (\<forall>x\<in>set (visible Compare es ukey s). sequence (fst x) \<le> sequence (fst e)) \<longrightarrow>
      mem_Get Compare m k want = Some (Get_result e want))"
proof -
  obtain m where m: "add_all Compare es mk_MemTable = Some m" "mem_repr m (rev es)"
    using mem_repr_add_all [OF mem_repr_mk, of es] assms(1,2) by auto
  have v: "visible Compare (rev es) ukey s = rev (visible Compare es ukey s)" by (simp add: visible_def rev_filter)
  have "\<forall>e\<in>set (rev es). legal (user_key (fst e))" "distinct (map (sequence \<circ> fst) (rev es))" using assms(1,2) by (simp_all flip: rev_map)
  from mem_repr_Get [OF m(2) this assms(6,3,4,5), where want = want] show ?thesis using m(1) unfolding v by auto
qed

end

section \<open>Properties\<close>

text \<open>
  C9. The memtable is a map with versions. Entries with distinct sequence numbers can be added in any order, whatever user comparator
  meets the contract: all additions succeed, within their buffers. Then \<open>Get\<close> of a user key at a sequence number finds the newest entry of that
  key that is not newer than the number, and reports its value, or \<open>NotFound\<close> if it is a deletion; it reports
  that nothing was found exactly if there is no such entry.
\<close>

theorem memtable_Get:
  assumes "comparator legal ucmp sep succ" and "\<forall>e\<in>set es. entry_fits e \<and> legal (user_key (fst e))"
    and "distinct (map (sequence \<circ> fst) es)" and "length ukey + 8 < 2 ^ 32" and "s \<le> kMaxSequenceNumber" and "legal ukey"
    and "mk_LookupKey ukey s = Some k"
  shows "\<exists>m. add_all ucmp es mk_MemTable = Some m \<and>
    (visible ucmp es ukey s = [] \<longrightarrow> mem_Get ucmp m k want = Some (False, None, None)) \<and>
    (\<forall>e\<in>set (visible ucmp es ukey s). (\<forall>x\<in>set (visible ucmp es ukey s). sequence (fst x) \<le> sequence (fst e)) \<longrightarrow>
      mem_Get ucmp m k want = Some (Get_result e want))"
  by (rule comparator.Get_after_adds [OF assms])

definition sample_entries :: "entry list" where
  "sample_entries = [(\<lparr>user_key = [1], sequence = 3, vtype = kTypeValue\<rparr>, [9]), (\<lparr>user_key = [1], sequence = 5, vtype = kTypeDeletion\<rparr>, []),
     (\<lparr>user_key = [2], sequence = 4, vtype = kTypeValue\<rparr>, [8])]"

theorem memtable_Get_witness:
  "\<exists>m k. add_all BytewiseCompare sample_entries mk_MemTable = Some m \<and> mk_LookupKey [1] 4 = Some k \<and>
     mem_Get BytewiseCompare m k True = Some (True, Some [9], None)"
proof -
  obtain k where k: "mk_LookupKey [1] 4 = Some k" by (simp add: mk_LookupKey_def Let_def EncodeVarint32_def EncodeFixed64_eq)
  have f: "\<forall>e\<in>set sample_entries. entry_fits e \<and> True" "distinct (map (sequence \<circ> fst) sample_entries)"
    by (simp_all add: sample_entries_def entry_fits_def kMaxSequenceNumber_def)
  have v: "visible BytewiseCompare sample_entries [1] 4 = [(\<lparr>user_key = [1], sequence = 3, vtype = kTypeValue\<rparr>, [9])]"
    by (simp add: visible_def sample_entries_def BytewiseCompare_def)
  have s: "(4 :: u64) \<le> kMaxSequenceNumber" by (simp add: kMaxSequenceNumber_def)
  show ?thesis
    using memtable_Get [OF bytewise.comparator_axioms f _ s _ k, of True] k by (auto simp: v Get_result_def)
qed

end
