(* ===== verification/WriteBatch.thy ===== *)
theory WriteBatch
  imports MemTable
begin

text \<open>
  db/write_batch.cc and db/write_batch_internal.h: batches of updates, kept in the form in which they are logged: a sequence number
  of eight bytes, a count of four and the records. The handler of \<open>Iterate\<close> is a pair of functions on a state, which fail
  with \<^term>\<open>None\<close> where the code they stand for would leave its arrays. An access in front of the end of a header that is not there has the
  value \<^term>\<open>None\<close> too.
\<close>

section \<open>The representation\<close>

definition kHeader :: nat where "kHeader = 12"

type_synonym batch = "byte list"

definition Clear :: batch where "Clear = replicate kHeader 0"

definition ApproximateSize :: "batch \<Rightarrow> nat" where "ApproximateSize rep = length rep"

definition Count :: "batch \<Rightarrow> int option" where
  "Count rep = (if length rep < kHeader then None else Some (sint (DecodeFixed32 True (drop 8 rep))))"

definition SetCount :: "int \<Rightarrow> batch \<Rightarrow> batch option" where
  "SetCount n rep = (if length rep < kHeader then None else Some (take 8 rep @ EncodeFixed32 True (word_of_int n) @ drop 12 rep))"

definition Sequence :: "batch \<Rightarrow> u64 option" where
  "Sequence rep = (if length rep < 8 then None else Some (DecodeFixed64 True rep))"

definition SetSequence :: "u64 \<Rightarrow> batch \<Rightarrow> batch option" where
  "SetSequence sq rep = (if length rep < 8 then None else Some (EncodeFixed64 True sq @ drop 8 rep))"

definition batch_Put :: "slice \<Rightarrow> slice \<Rightarrow> batch \<Rightarrow> batch option" where
  "batch_Put k v rep =
     do { n \<leftarrow> Count rep; rep \<leftarrow> SetCount (n + 1) rep;
          Some (PutLengthPrefixedSlice (PutLengthPrefixedSlice (rep @ [ucast (type_byte kTypeValue)]) k) v) }"

definition batch_Delete :: "slice \<Rightarrow> batch \<Rightarrow> batch option" where
  "batch_Delete k rep =
     do { n \<leftarrow> Count rep; rep \<leftarrow> SetCount (n + 1) rep;
          Some (PutLengthPrefixedSlice (rep @ [ucast (type_byte kTypeDeletion)]) k) }"

definition SetContents :: "slice \<Rightarrow> batch option" where
  "SetContents contents = (if length contents \<ge> kHeader then Some contents else None)"

definition batch_Append :: "batch \<Rightarrow> batch \<Rightarrow> batch option" where
  "batch_Append dst src =
     do { n \<leftarrow> Count dst; k \<leftarrow> Count src; dst \<leftarrow> SetCount (n + k) dst;
          if length src \<ge> kHeader then Some (dst @ drop kHeader src) else None }"

section \<open>Iteration\<close>

record 's handler =
  h_Put :: "slice \<Rightarrow> slice \<Rightarrow> 's \<Rightarrow> 's option"
  h_Delete :: "slice \<Rightarrow> 's \<Rightarrow> 's option"

definition err :: "string \<Rightarrow> status" where "err msg = Corruption (ascii msg) []"

text \<open>The loop: the status and the state of the handler; \<open>n\<close> is what the test of the count after the loop compares \<open>found\<close> with.\<close>

function iterate_loop :: "'s handler \<Rightarrow> int \<Rightarrow> int \<Rightarrow> slice \<Rightarrow> 's \<Rightarrow> (status \<times> 's) option" where
  "iterate_loop h n found [] s = Some (if found \<noteq> n then err ''WriteBatch has wrong count'' else OK, s)"
| "iterate_loop h n found (tag # input) s =
     (if tag = ucast (type_byte kTypeValue) then
        case GetLengthPrefixedSlice input of
          None \<Rightarrow> Some (err ''bad WriteBatch Put'', s)
        | Some (k, input) \<Rightarrow>
            (case GetLengthPrefixedSlice input of
               None \<Rightarrow> Some (err ''bad WriteBatch Put'', s)
             | Some (v, input) \<Rightarrow> Option.bind (h_Put h k v s) (\<lambda>s. iterate_loop h n (found + 1) input s))
      else if tag = ucast (type_byte kTypeDeletion) then
        case GetLengthPrefixedSlice input of
          None \<Rightarrow> Some (err ''bad WriteBatch Delete'', s)
        | Some (k, input) \<Rightarrow> Option.bind (h_Delete h k s) (\<lambda>s. iterate_loop h n (found + 1) input s)
      else Some (err ''unknown WriteBatch tag'', s))"
  by pat_completeness auto
termination
  by (relation "measure (\<lambda>(_, _, _, input, _). length input)") (auto dest!: slice_shorter)

definition Iterate :: "'s handler \<Rightarrow> batch \<Rightarrow> 's \<Rightarrow> (status \<times> 's) option" where
  "Iterate h rep s =
     (if length rep < kHeader then Some (err ''malformed WriteBatch (too small)'', s)
      else Option.bind (Count rep) (\<lambda>n. iterate_loop h n 0 (drop kHeader rep) s))"

section \<open>Insertion into a memtable\<close>

text \<open>\<open>MemTableInserter\<close>: the state is \<open>sequence_\<close> and the memtable.\<close>

definition MemTableInserter :: "(slice \<Rightarrow> slice \<Rightarrow> int) \<Rightarrow> (u64 \<times> MemTable) handler" where
  "MemTableInserter ucmp =
     \<lparr>h_Put = (\<lambda>k v (sq, mem). map_option (\<lambda>mem. (sq + 1, mem)) (Add ucmp sq kTypeValue k v mem)),
      h_Delete = (\<lambda>k (sq, mem). map_option (\<lambda>mem. (sq + 1, mem)) (Add ucmp sq kTypeDeletion k [] mem))\<rparr>"

definition InsertInto :: "(slice \<Rightarrow> slice \<Rightarrow> int) \<Rightarrow> batch \<Rightarrow> MemTable \<Rightarrow> (status \<times> MemTable) option" where
  "InsertInto ucmp rep mem =
     Option.bind (Sequence rep) (\<lambda>sq. map_option (\<lambda>(st, _, mem). (st, mem)) (Iterate (MemTableInserter ucmp) rep (sq, mem)))"

section \<open>Batches as lists of updates\<close>

datatype update = Put slice slice | Delete slice

fun update_bytes :: "update \<Rightarrow> byte list" where
  "update_bytes (Put k v) = 1 # PutLengthPrefixedSlice [] k @ PutLengthPrefixedSlice [] v"
| "update_bytes (Delete k) = 0 # PutLengthPrefixedSlice [] k"

fun update_fits :: "update \<Rightarrow> bool" where
  "update_fits (Put k v) \<longleftrightarrow> length k < 2 ^ 32 \<and> length v < 2 ^ 32"
| "update_fits (Delete k) \<longleftrightarrow> length k < 2 ^ 32"

fun handle :: "'s handler \<Rightarrow> update \<Rightarrow> 's \<Rightarrow> 's option" where
  "handle h (Put k v) s = h_Put h k v s"
| "handle h (Delete k) s = h_Delete h k s"

fun handle_all :: "'s handler \<Rightarrow> update list \<Rightarrow> 's \<Rightarrow> 's option" where
  "handle_all h [] s = Some s"
| "handle_all h (u # us) s = Option.bind (handle h u s) (handle_all h us)"

definition batch_bytes :: "u64 \<Rightarrow> update list \<Rightarrow> batch" where
  "batch_bytes sq us = bytes_of_u64 sq @ bytes_of_u32 (word_of_nat (length us)) @ concat (map update_bytes us)"

lemma type_bytes: "(ucast (type_byte kTypeValue) :: byte) = 1" "(ucast (type_byte kTypeDeletion) :: byte) = 0"
  by simp_all

lemma PutLengthPrefixedSlice_append: "PutLengthPrefixedSlice dst v = dst @ PutLengthPrefixedSlice [] v"
  by (simp add: PutLengthPrefixedSlice_def PutVarint32_def)

text \<open>The loop replays the updates in order.\<close>

lemma iterate_loop_replays:
  "\<forall>u\<in>set us. update_fits u \<Longrightarrow>
   iterate_loop h n f (concat (map update_bytes us) @ rest) s = Option.bind (handle_all h us s) (iterate_loop h n (f + int (length us)) rest)"
proof (induction us arbitrary: f s)
  case (Cons u us)
  have e: "iterate_loop h n f (update_bytes u @ r) s = Option.bind (handle h u s) (iterate_loop h n (f + 1) r)" for r
    using Cons.prems by (cases u) (simp_all add: varstring.decode_encode)
  show ?case using Cons by (cases "handle h u s") (simp_all add: e ac_simps)
qed simp

lemma batch_bytes_parts:
  "length (batch_bytes sq us) \<ge> kHeader" "Sequence (batch_bytes sq us) = Some sq"
  "Count (batch_bytes sq us) = Some (sint (word_of_nat (length us) :: u32))"
  "drop kHeader (batch_bytes sq us) = concat (map update_bytes us)"
  by (simp_all add: batch_bytes_def kHeader_def Sequence_def Count_def DecodeFixed64_bytes DecodeFixed32_bytes)

lemma Clear_bytes: "Clear = batch_bytes 0 []"
  by code_simp

lemma SetSequence_bytes: "SetSequence sq' (batch_bytes sq us) = Some (batch_bytes sq' us)"
  by (simp add: SetSequence_def batch_bytes_def EncodeFixed64_eq)

lemma SetCount_bytes: "SetCount n (batch_bytes sq us) = Some (bytes_of_u64 sq @ bytes_of_u32 (word_of_int n) @ concat (map update_bytes us))"
  by (simp add: SetCount_def batch_bytes_def kHeader_def EncodeFixed32_eq)

lemma Put_bytes: "batch_Put k v (batch_bytes sq us) = Some (batch_bytes sq (us @ [Put k v]))"
  by (simp add: batch_Put_def batch_bytes_parts SetCount_bytes PutLengthPrefixedSlice_append [of "_ @ _"]) (simp add: batch_bytes_def ac_simps)

lemma Delete_bytes: "batch_Delete k (batch_bytes sq us) = Some (batch_bytes sq (us @ [Delete k]))"
  by (simp add: batch_Delete_def batch_bytes_parts SetCount_bytes PutLengthPrefixedSlice_append [of "_ @ _"]) (simp add: batch_bytes_def ac_simps)

lemma Append_bytes: "batch_Append (batch_bytes sq us) (batch_bytes sq' vs) = Some (batch_bytes sq (us @ vs))"
  by (simp add: batch_Append_def batch_bytes_parts SetCount_bytes) (simp add: batch_bytes_def)

section \<open>Truncated batches\<close>

lemma leb_dec_truncated: "n < length (leb_enc v) \<Longrightarrow> leb_dec lim i r (take n (leb_enc v)) = None"
proof (induction v arbitrary: n i r rule: leb_enc.induct)
  case (1 v)
  show ?case
  proof (cases "128 \<le> unat v")
    case True
    then have e: "leb_enc v = (ucast (take_bit 7 v) OR 128) # leb_enc (drop_bit 7 v)" by (subst leb_enc.simps) simp
    show ?thesis
    proof (cases n)
      case (Suc m)
      then have "m < length (leb_enc (drop_bit 7 v))" using "1.prems" unfolding e by simp
      then show ?thesis unfolding e Suc using "1.IH" [OF True] by (simp add: leb_flag)
    qed simp
  qed (use "1.prems" in \<open>subst (asm) leb_enc.simps, simp\<close>)
qed

lemma slice_truncated:
  assumes "length k < 2 ^ 32" and "n < length (PutLengthPrefixedSlice [] k)"
  shows "GetLengthPrefixedSlice (take n (PutLengthPrefixedSlice [] k)) = None"
proof -
  let ?v = "EncodeVarint32 (of_nat (length k))"
  have e: "PutLengthPrefixedSlice [] k = ?v @ k" by (simp add: PutLengthPrefixedSlice_def PutVarint32_def)
  show ?thesis
  proof (cases "n < length ?v")
    case True
    then have "GetVarint32 (take n ?v) = None" unfolding GetVarint32_leb EncodeVarint32_leb by (rule leb_dec_truncated)
    then show ?thesis using True by (simp add: e GetLengthPrefixedSlice_def)
  next
    case False
    then have "take n (?v @ k) = ?v @ take (n - length ?v) k" by simp
    moreover have "unat (of_nat (length k) :: u32) = length k" by (rule unat_u32 [OF assms(1)])
    ultimately show ?thesis using assms(2) False by (simp add: e GetLengthPrefixedSlice_def varint32.decode_encode)
  qed
qed

definition batch_error :: "status \<Rightarrow> bool" where
  "batch_error st \<longleftrightarrow> st \<in> err ` {''bad WriteBatch Put'', ''bad WriteBatch Delete'', ''WriteBatch has wrong count'', ''malformed WriteBatch (too small)''}"

text \<open>A record cut short.\<close>

lemma iterate_loop_cut:
  assumes "update_fits u" and "0 < n" and "n < length (update_bytes u)"
  shows "\<exists>st. batch_error st \<and> (\<forall>s. iterate_loop h c f (take n (update_bytes u)) s = Some (st, s))"
proof (cases u)
  case (Delete k)
  have "GetLengthPrefixedSlice (take (n - 1) (PutLengthPrefixedSlice [] k)) = None"
    using assms Delete by (intro slice_truncated) auto
  then have "iterate_loop h c f (take n (update_bytes u)) s = Some (err ''bad WriteBatch Delete'', s)" for s
    using assms Delete by (cases n) simp_all
  then show ?thesis by (auto simp: batch_error_def)
next
  case (Put k v)
  let ?k = "PutLengthPrefixedSlice [] k" and ?v = "PutLengthPrefixedSlice [] v"
  have "iterate_loop h c f (take n (update_bytes u)) s = Some (err ''bad WriteBatch Put'', s)" for s
  proof (cases "n - 1 < length ?k")
    case True
    then have "GetLengthPrefixedSlice (take (n - 1) ?k) = None" using assms Put by (intro slice_truncated) auto
    then show ?thesis using assms True Put by (cases n) simp_all
  next
    case False
    then have t: "take (n - 1) (?k @ ?v) = ?k @ take (n - 1 - length ?k) ?v" by simp
    have "GetLengthPrefixedSlice (take (n - 1 - length ?k) ?v) = None" using assms Put False by (intro slice_truncated) auto
    then show ?thesis using assms False Put t by (cases n) (simp_all add: varstring.decode_encode)
  qed
  then show ?thesis by (auto simp: batch_error_def)
qed

lemma cut_concat:
  "n < length (concat (map g us)) \<Longrightarrow> \<exists>m r. m < length us \<and> r < length (g (us ! m)) \<and>
     take n (concat (map g us)) = concat (map g (take m us)) @ take r (g (us ! m))"
proof (induction us arbitrary: n)
  case (Cons u us)
  show ?case
  proof (cases "n < length (g u)")
    case True
    then show ?thesis by (intro exI [of _ 0] exI [of _ n]) simp
  next
    case False
    then obtain m r where "m < length us" "r < length (g (us ! m))"
      "take (n - length (g u)) (concat (map g us)) = concat (map g (take m us)) @ take r (g (us ! m))"
      using Cons.IH [of "n - length (g u)"] Cons.prems by (auto simp: less_diff_conv2)
    then show ?thesis using False by (intro exI [of _ "Suc m"] exI [of _ r]) simp
  qed
qed simp

lemma sint_small: "n < 2 ^ 31 \<Longrightarrow> sint (word_of_nat n :: u32) = int n"
proof -
  assume "n < 2 ^ 31"
  then have "take_bit 31 n = n" "take_bit 32 n = n" by (simp_all add: take_bit_nat_eq_self)
  then have "signed_take_bit 31 (int n) = int n" "uint (word_of_nat n :: u32) = int n"
    by (simp_all add: signed_take_bit_int_eq_self_iff uint_nat unsigned_of_nat \<open>n < 2 ^ 31\<close>) (use \<open>n < 2 ^ 31\<close> in simp)
  then show ?thesis by (simp add: sint_uint)
qed

lemma Iterate_cut:
  assumes f: "\<forall>u\<in>set us. update_fits u" and c: "length us < 2 ^ 31" and n: "n < length (batch_bytes sq us)"
  shows "\<exists>m st. m \<le> length us \<and> batch_error st \<and> Iterate h (take n (batch_bytes sq us)) s = map_option (Pair st) (handle_all h (take m us) s)"
proof (cases "n < kHeader")
  case True
  then show ?thesis using n by (intro exI [of _ 0] exI [of _ "err ''malformed WriteBatch (too small)''"]) (simp add: Iterate_def batch_error_def)
next
  case False
  let ?d = "concat (map update_bytes us)"
  have b: "take n (batch_bytes sq us) = bytes_of_u64 sq @ bytes_of_u32 (word_of_nat (length us)) @ take (n - 12) ?d"
    using False by (simp add: batch_bytes_def kHeader_def)
  have it: "Iterate h (take n (batch_bytes sq us)) s = iterate_loop h (int (length us)) 0 (take (n - 12) ?d) s"
    using False unfolding Iterate_def b Count_def by (simp add: kHeader_def DecodeFixed32_bytes sint_small [OF c])
  have "n - 12 < length ?d" using n False by (simp add: batch_bytes_def kHeader_def)
  then obtain m r where mr: "m < length us" "r < length (update_bytes (us ! m))" "take (n - 12) ?d = concat (map update_bytes (take m us)) @ take r (update_bytes (us ! m))"
    using cut_concat by blast
  have fm: "\<forall>u\<in>set (take m us). update_fits u" "update_fits (us ! m)" using f mr(1) by (auto dest: in_set_takeD)
  have l: "iterate_loop h c 0 (take (n - 12) ?d) s = Option.bind (handle_all h (take m us) s) (iterate_loop h c (int m) (take r (update_bytes (us ! m))))" for c
    unfolding mr(3) iterate_loop_replays [OF fm(1)] using mr(1) by simp
  have "\<exists>st. batch_error st \<and> (\<forall>s. iterate_loop h (int (length us)) (int m) (take r (update_bytes (us ! m))) s = Some (st, s))"
  proof (cases "r = 0")
    case True
    then show ?thesis using mr(1) by (intro exI [of _ "err ''WriteBatch has wrong count''"]) (auto simp: batch_error_def)
  qed (intro iterate_loop_cut [OF fm(2) _ mr(2)], simp)
  then obtain st where "batch_error st" "\<And>s. iterate_loop h (int (length us)) (int m) (take r (update_bytes (us ! m))) s = Some (st, s)" by blast
  then show ?thesis using mr(1) unfolding it l by (intro exI [of _ m] exI [of _ st]) (cases "handle_all h (take m us) s"; simp)
qed

section \<open>Insertion of a batch into a memtable\<close>

fun update_key :: "update \<Rightarrow> slice" where
  "update_key (Put k v) = k" | "update_key (Delete k) = k"

fun update_entry :: "u64 \<Rightarrow> update \<Rightarrow> entry" where
  "update_entry sq (Put k v) = (\<lparr>user_key = k, sequence = sq, vtype = kTypeValue\<rparr>, v)"
| "update_entry sq (Delete k) = (\<lparr>user_key = k, sequence = sq, vtype = kTypeDeletion\<rparr>, [])"

fun update_entries :: "u64 \<Rightarrow> update list \<Rightarrow> entry list" where
  "update_entries sq [] = []"
| "update_entries sq (u # us) = update_entry sq u # update_entries (sq + 1) us"

fun update_result :: "update \<Rightarrow> bool \<times> slice option \<times> status option" where
  "update_result (Put k v) = (True, Some v, None)"
| "update_result (Delete k) = (True, None, Some (NotFound [] []))"

lemma handle_all_inserter:
  "handle_all (MemTableInserter ucmp) us (sq, mem) = map_option (Pair (sq + of_nat (length us))) (add_all ucmp (update_entries sq us) mem)"
proof (induction us arbitrary: sq mem)
  case (Cons u us)
  have "handle (MemTableInserter ucmp) u (sq, mem) =
      map_option (Pair (sq + 1)) (Add ucmp sq (vtype (fst (update_entry sq u))) (update_key u) (snd (update_entry sq u)) mem)"
    by (cases u) (simp_all add: MemTableInserter_def option.map_comp comp_def)
  moreover have "sequence (fst (update_entry sq u)) = sq" "user_key (fst (update_entry sq u)) = update_key u" by (cases u; simp)+
  ultimately show ?case
    by (cases "Add ucmp sq (vtype (fst (update_entry sq u))) (update_key u) (snd (update_entry sq u)) mem") (simp_all add: Cons.IH ac_simps)
qed simp

lemma update_entries_snoc: "update_entries sq (us @ [u]) = update_entries sq us @ [update_entry (sq + of_nat (length us)) u]"
  by (induction us arbitrary: sq) (simp_all add: ac_simps)

lemma update_entry_parts: "user_key (fst (update_entry sq u)) = update_key u" "sequence (fst (update_entry sq u)) = sq"
  "Get_result (update_entry sq u) True = update_result u"
  by (cases u; simp add: Get_result_def)+

lemma unat_seq_add: "unat sq + n \<le> 2 ^ 56 \<Longrightarrow> k < n \<Longrightarrow> unat (sq + of_nat k :: u64) = unat sq + k"
  by (simp add: unat_word_ariths(1) unsigned_of_nat take_bit_nat_eq_self)

lemma update_entries_seq:
  "unat sq + length us \<le> 2 ^ 56 \<Longrightarrow> e \<in> set (update_entries sq us) \<Longrightarrow> \<exists>i<length us. e = update_entry (sq + of_nat i) (us ! i)"
proof (induction us rule: rev_induct)
  case (snoc u us)
  then show ?case unfolding update_entries_snoc by (fastforce simp: nth_append)
qed simp

lemma update_entries_distinct: "unat sq + length us \<le> 2 ^ 56 \<Longrightarrow> distinct (map (sequence \<circ> fst) (update_entries sq us))"
proof (induction us rule: rev_induct)
  case (snoc u us)
  have "sq + of_nat (length us) \<noteq> sequence (fst e)" if e: "e \<in> set (update_entries sq us)" for e
  proof -
    obtain i where i: "i < length us" "e = update_entry (sq + of_nat i) (us ! i)" using update_entries_seq [OF _ e] snoc.prems by auto
    then have "unat (sequence (fst e)) = unat sq + i" using unat_seq_add [of sq "length us" i] snoc.prems by (simp add: update_entry_parts)
    moreover have "unat (sq + of_nat (length us)) = unat sq + length us" using unat_seq_add [of sq "length us + 1" "length us"] snoc.prems by simp
    ultimately show ?thesis using i(1) by auto
  qed
  then have "sq + of_nat (length us) \<notin> (sequence \<circ> fst) ` set (update_entries sq us)" unfolding image_iff comp_apply by blast
  moreover have "distinct (map (sequence \<circ> fst) (update_entries sq us))" by (rule snoc.IH) (use snoc.prems in simp)
  ultimately show ?case unfolding update_entries_snoc by (simp add: update_entry_parts comp_def)
qed simp

text \<open>The newest entry of a key is that of its last update.\<close>

lemma newest_entry:
  assumes "unat sq + length us \<le> 2 ^ 56" and "\<forall>e\<in>set (update_entries sq us). sequence (fst e) \<le> s"
  shows "case find (\<lambda>u. ucmp (update_key u) ukey = 0) (rev us) of
      None \<Rightarrow> visible ucmp (update_entries sq us) ukey s = []
    | Some u \<Rightarrow> \<exists>e\<in>set (visible ucmp (update_entries sq us) ukey s). Get_result e True = update_result u \<and>
        (\<forall>x\<in>set (visible ucmp (update_entries sq us) ukey s). sequence (fst x) \<le> sequence (fst e))"
  using assms
proof (induction us rule: rev_induct)
  case (snoc u us)
  let ?e = "update_entry (sq + of_nat (length us)) u"
  have le: "sequence (fst x) \<le> sequence (fst ?e)" if x: "x \<in> set (update_entries sq (us @ [u]))" for x
  proof -
    obtain i where i: "i < length us + 1" "x = update_entry (sq + of_nat i) ((us @ [u]) ! i)" using update_entries_seq [OF _ x] snoc.prems(1) by auto
    show ?thesis using unat_seq_add [OF snoc.prems(1), of i] unat_seq_add [OF snoc.prems(1), of "length us"] i
      by (simp add: update_entry_parts word_le_nat_alt)
  qed
  show ?case
  proof (cases "ucmp (update_key u) ukey = 0")
    case True
    then have "?e \<in> set (visible ucmp (update_entries sq (us @ [u])) ukey s)"
      using snoc.prems(2) by (simp add: visible_def update_entries_snoc update_entry_parts)
    moreover have "\<forall>x\<in>set (visible ucmp (update_entries sq (us @ [u])) ukey s). sequence (fst x) \<le> sequence (fst ?e)"
      using le unfolding visible_def by simp
    moreover have "find (\<lambda>u. ucmp (update_key u) ukey = 0) (rev (us @ [u])) = Some u" using True by simp
    ultimately show ?thesis using update_entry_parts(3) [of "sq + of_nat (length us)" u] by (simp del: rev_append) blast
  next
    case False
    then have v: "visible ucmp (update_entries sq (us @ [u])) ukey s = visible ucmp (update_entries sq us) ukey s"
      by (simp add: visible_def update_entries_snoc update_entry_parts)
    have "\<forall>e\<in>set (update_entries sq us). sequence (fst e) \<le> s" "unat sq + length us \<le> 2 ^ 56"
      using snoc.prems by (simp_all add: update_entries_snoc)
    from snoc.IH [OF this(2,1)] show ?thesis unfolding v using False by simp
  qed
qed (simp add: visible_def)

section \<open>Properties\<close>

fun batch_add :: "update \<Rightarrow> batch \<Rightarrow> batch option" where
  "batch_add (Put k v) rep = batch_Put k v rep"
| "batch_add (Delete k) rep = batch_Delete k rep"

fun batch_build :: "update list \<Rightarrow> batch \<Rightarrow> batch option" where
  "batch_build [] rep = Some rep"
| "batch_build (u # us) rep = Option.bind (batch_add u rep) (batch_build us)"

lemma batch_build_bytes: "batch_build us (batch_bytes sq vs) = Some (batch_bytes sq (vs @ us))"
proof (induction us arbitrary: vs)
  case (Cons u us)
  then show ?case by (cases u) (simp_all add: Put_bytes Delete_bytes)
qed simp

lemma Iterate_batch:
  "\<forall>u\<in>set us. update_fits u \<Longrightarrow> length us < 2 ^ 31 \<Longrightarrow> Iterate h (batch_bytes sq us) s = map_option (Pair OK) (handle_all h us s)"
  using iterate_loop_replays [of us h "int (length us)" 0 "[]" s] batch_bytes_parts [of sq us]
  by (cases "handle_all h us s") (simp_all add: Iterate_def sint_small)

text \<open>
  C33. A batch holds its updates: what is put into two batches with \<open>Put\<close> and \<open>Delete\<close> and appended is replayed by \<open>Iterate\<close>, in order and with
  status ok, for every handler; count and sequence number are what was set, and \<open>SetContents\<close> of the representation, as recovery does it, gives the
  same batch.
\<close>

theorem write_batch_roundtrip:
  assumes "\<forall>u\<in>set (us @ vs). update_fits u" and "length (us @ vs) < 2 ^ 31"
  shows "\<exists>a b c rep. batch_build us Clear = Some a \<and> batch_build vs Clear = Some b \<and> batch_Append a b = Some c \<and> SetSequence sq c = Some rep \<and>
    Sequence rep = Some sq \<and> Count rep = Some (int (length (us @ vs))) \<and> SetContents rep = Some rep \<and>
    (\<forall>h s. Iterate h rep s = map_option (Pair OK) (handle_all h (us @ vs) s))"
proof (intro exI conjI allI)
  show "batch_build us Clear = Some (batch_bytes 0 us)" "batch_build vs Clear = Some (batch_bytes 0 vs)"
    unfolding Clear_bytes batch_build_bytes by simp_all
  show "batch_Append (batch_bytes 0 us) (batch_bytes 0 vs) = Some (batch_bytes 0 (us @ vs))" by (rule Append_bytes)
  show "SetSequence sq (batch_bytes 0 (us @ vs)) = Some (batch_bytes sq (us @ vs))" by (rule SetSequence_bytes)
  show "Iterate h (batch_bytes sq (us @ vs)) s = map_option (Pair OK) (handle_all h (us @ vs) s)" for h :: "'s handler" and s
    by (rule Iterate_batch [OF assms])
qed (use batch_bytes_parts [of sq "us @ vs"] assms(2) in \<open>simp_all add: SetContents_def sint_small del: length_append\<close>)

theorem write_batch_roundtrip_witness:
  "\<exists>a b c rep. batch_build [Put [1] [2]] Clear = Some a \<and> batch_build [Delete [3]] Clear = Some b \<and> batch_Append a b = Some c \<and>
    SetSequence 7 c = Some rep \<and> Sequence rep = Some 7 \<and> Count rep = Some 2"
  using write_batch_roundtrip [of "[Put [1] [2]]" "[Delete [3]]" 7] by (auto simp del: batch_build.simps)

text \<open>
  C11. A batch cut short is refused: \<open>Iterate\<close> of any proper prefix of a batch replays some of the updates, in order from the
  first, and returns one of its errors, never ok.
\<close>

theorem write_batch_truncated:
  assumes "\<forall>u\<in>set us. update_fits u" and "length us < 2 ^ 31" and "batch_build us Clear = Some rep" and "n < length rep"
  shows "\<exists>m st. m \<le> length us \<and> batch_error st \<and> \<not> status_ok st \<and> Iterate h (take n rep) s = map_option (Pair st) (handle_all h (take m us) s)"
proof -
  have r: "rep = batch_bytes 0 us" using assms(3) unfolding Clear_bytes batch_build_bytes by simp
  have "\<not> status_ok st" if "batch_error st" for st using that by (auto simp: batch_error_def err_def Corruption_def status_bytes_def status_ok_def Let_def)
  then show ?thesis using Iterate_cut [OF assms(1,2), of n 0 h s] assms(4) unfolding r by blast
qed

definition recorder :: "update list handler" where
  "recorder = \<lparr>h_Put = (\<lambda>k v s. Some (s @ [Put k v])), h_Delete = (\<lambda>k s. Some (s @ [Delete k]))\<rparr>"

theorem write_batch_truncated_witness:
  "\<exists>st m. \<not> status_ok st \<and> Iterate recorder (take 14 (batch_bytes 0 [Delete [3, 4]])) [] =
     map_option (Pair st) (handle_all recorder (take m [Delete [3, 4]]) [])"
proof -
  have "batch_build [Delete [3, 4]] Clear = Some (batch_bytes 0 [Delete [3, 4]])" unfolding Clear_bytes batch_build_bytes by simp
  moreover have "14 < length (batch_bytes 0 [Delete [3, 4]])" by code_simp
  ultimately show ?thesis using write_batch_truncated [of "[Delete [3, 4]]" _ 14 recorder "[]"] by fastforce
qed

text \<open>
  C10. Writes are read back: after \<open>InsertInto\<close> puts a batch into a new memtable, \<open>Get\<close> at a sequence number not below that of the last update
  answers with the last update of the key in the batch, its value or \<open>NotFound\<close> for a deletion, and finds nothing for other
  keys. This spans batch, memtable, skip list, internal keys and comparator.
\<close>

theorem batch_then_Get:
  assumes "comparator legal ucmp sep succ" and "\<forall>u\<in>set us. update_fits u \<and> length (update_key u) + 8 < 2 ^ 32 \<and> legal (update_key u)"
    and "length us < 2 ^ 31" and "unat sq + length us \<le> 2 ^ 56" and "unat sq + length us \<le> unat s + 1" and "s \<le> kMaxSequenceNumber"
    and "length ukey + 8 < 2 ^ 32" and "legal ukey" and "mk_LookupKey ukey s = Some k"
  shows "\<exists>m. InsertInto ucmp (batch_bytes sq us) mk_MemTable = Some (OK, m) \<and>
    mem_Get ucmp m k True =
      Some (case find (\<lambda>u. ucmp (update_key u) ukey = 0) (rev us) of None \<Rightarrow> (False, None, None) | Some u \<Rightarrow> update_result u)"
proof -
  let ?es = "update_entries sq us"
  have sq: "unat (sequence (fst e)) < unat sq + length us" "entry_fits e \<and> legal (user_key (fst e))" if e: "e \<in> set ?es" for e
  proof -
    obtain i where i: "i < length us" "e = update_entry (sq + of_nat i) (us ! i)" using update_entries_seq [OF assms(4) e] by auto
    show lt: "unat (sequence (fst e)) < unat sq + length us" using unat_seq_add [OF assms(4) i(1)] i by (simp add: update_entry_parts)
    then have "sequence (fst e) \<le> s" using assms(5) by (simp add: word_le_nat_alt)
    then show "entry_fits e \<and> legal (user_key (fst e))"
      using assms(2,6) nth_mem [OF i(1)] i by (cases "us ! i") (force simp: entry_fits_def)+
  qed
  have le: "\<forall>e\<in>set ?es. sequence (fst e) \<le> s" using sq(1) assms(5) by (fastforce simp: word_le_nat_alt)
  from comparator.Get_after_adds [OF assms(1) _ update_entries_distinct [OF assms(4)] assms(7,6,8,9), of True] sq(2)
  obtain m where m: "add_all ucmp ?es mk_MemTable = Some m"
    "visible ucmp ?es ukey s = [] \<Longrightarrow> mem_Get ucmp m k True = Some (False, None, None)"
    "\<And>e. e \<in> set (visible ucmp ?es ukey s) \<Longrightarrow> \<forall>x\<in>set (visible ucmp ?es ukey s). sequence (fst x) \<le> sequence (fst e) \<Longrightarrow>
       mem_Get ucmp m k True = Some (Get_result e True)" by blast
  have "InsertInto ucmp (batch_bytes sq us) mk_MemTable = Some (OK, m)"
    using Iterate_batch [of us "MemTableInserter ucmp" sq "(sq, mk_MemTable)"] assms(2,3) m(1)
    by (simp add: InsertInto_def batch_bytes_parts handle_all_inserter)
  moreover have "mem_Get ucmp m k True = Some (case find (\<lambda>u. ucmp (update_key u) ukey = 0) (rev us) of None \<Rightarrow> (False, None, None) | Some u \<Rightarrow> update_result u)"
    using newest_entry [OF assms(4) le, of ucmp ukey] m(2,3) by (auto split: option.splits)
  ultimately show ?thesis by blast
qed

theorem batch_then_Get_witness:
  "\<exists>m k. InsertInto BytewiseCompare (batch_bytes 5 [Put [1] [2], Put [3] [4], Delete [1]]) mk_MemTable = Some (OK, m) \<and>
     mk_LookupKey [1] 7 = Some k \<and> mem_Get BytewiseCompare m k True = Some (True, None, Some (NotFound [] []))"
proof -
  obtain k where k: "mk_LookupKey [1] 7 = Some k" by (simp add: mk_LookupKey_def Let_def EncodeVarint32_def EncodeFixed64_eq)
  show ?thesis
    using batch_then_Get [OF bytewise.comparator_axioms, of "[Put [1] [2], Put [3] [4], Delete [1]]" 5 7 "[1]" k] k
    by (auto simp: kMaxSequenceNumber_def BytewiseCompare_def)
qed

end
