(* ===== verification/Iterators.thy ===== *)
theory Iterators
  imports Cursor DbFormat
begin

text \<open>
  include/leveldb/iterator.h: the abstract class \<open>Iterator\<close>, as the record of its methods on a state. The value \<^term>\<open>None\<close> is an assertion that fails
  or a loop that does not end. The locale \<open>seekable\<close> is the contract: the iterator is a cursor over a sorted
  sequence of entries, and the three seek methods put it at the right entry from any state, for the targets that it accepts. The
  iterators of the store provide it, and those built on other iterators rely on it.
\<close>

record 'i iterator =
  i_Valid :: "'i \<Rightarrow> bool"
  i_SeekToFirst :: "'i \<Rightarrow> 'i option"
  i_SeekToLast :: "'i \<Rightarrow> 'i option"
  i_Seek :: "slice \<Rightarrow> 'i \<Rightarrow> 'i option"
  i_Next :: "'i \<Rightarrow> 'i option"
  i_Prev :: "'i \<Rightarrow> 'i option"
  i_key :: "'i \<Rightarrow> slice option"
  i_value :: "'i \<Rightarrow> slice option"
  i_status :: "'i \<Rightarrow> status option"

text \<open>The direction in which an iterator moves; db/db_iter.cc and table/merger.cc both declare it.\<close>

datatype Direction = kForward | kReverse

definition i_item :: "'i iterator \<Rightarrow> 'i \<Rightarrow> (slice \<times> slice) option" where
  "i_item I it = Option.bind (i_key I it) (\<lambda>k. map_option (Pair k) (i_value I it))"

lemma i_item_Some: "i_item I it = Some (k, v) \<longleftrightarrow> i_key I it = Some k \<and> i_value I it = Some v"
  by (auto simp: i_item_def bind_eq_Some_conv)

locale seekable = three_way legal Compare for legal :: "slice \<Rightarrow> bool" and Compare :: "slice \<Rightarrow> slice \<Rightarrow> int" +
  fixes I :: "'i iterator"
    and items :: "(slice \<times> slice) list"
    and alive :: "'i \<Rightarrow> bool"
    and pos :: "'i \<Rightarrow> nat \<Rightarrow> bool"
    and target :: "slice \<Rightarrow> bool"
  assumes is_cursor: "cursor items pos (i_Valid I) (i_item I) (i_Next I) (i_Prev I)"
    and alive_pos: "pos it i \<Longrightarrow> alive it"
    and first_at: "alive it \<Longrightarrow> \<exists>it'. i_SeekToFirst I it = Some it' \<and> pos it' 0"
    and last_at: "alive it \<Longrightarrow> \<exists>it'. i_SeekToLast I it = Some it' \<and> pos it' (length items - 1)"
    and seek_at: "alive it \<Longrightarrow> target k \<Longrightarrow> \<exists>it'. i_Seek I k it = Some it' \<and> pos it' (rank Compare k (map fst items))"
    and target_legal: "target k \<Longrightarrow> legal k"
    and status_at: "pos it i \<Longrightarrow> i_status I it = Some OK"
    and items_sorted: "sorted_wrt (\<lambda>a b. Compare a b < 0) (map fst items)"
    and items_legal: "x \<in> set items \<Longrightarrow> legal (fst x)"
begin

lemma valid_pos: "pos it i \<Longrightarrow> i_Valid I it \<longleftrightarrow> i < length items" and pos_le: "pos it i \<Longrightarrow> i \<le> length items"
  using cursor.valid_at [OF is_cursor] by blast+

lemma key_pos: "pos it i \<Longrightarrow> i < length items \<Longrightarrow> i_key I it = Some (fst (items ! i))"
  and value_pos: "pos it i \<Longrightarrow> i < length items \<Longrightarrow> i_value I it = Some (snd (items ! i))"
  using cursor.get_at [OF is_cursor] i_item_Some [of I it "fst (items ! i)" "snd (items ! i)"] by auto

lemma next_pos: "pos it i \<Longrightarrow> i < length items \<Longrightarrow> \<exists>it'. i_Next I it = Some it' \<and> pos it' (Suc i)"
  using cursor.succ_at [OF is_cursor] by simp

lemma prev_pos: "pos it i \<Longrightarrow> i < length items \<Longrightarrow> \<exists>it'. i_Prev I it = Some it' \<and> pos it' (if i = 0 then length items else i - 1)"
  using cursor.pred_at_pos [OF is_cursor] by simp

text \<open>All entries forwards and backwards, and those from a key on.\<close>

lemma scans:
  assumes "alive it"
  shows "Option.bind (i_SeekToFirst I it) (scan (i_item I) (i_Next I) (i_Valid I) (length items)) = Some items"
    and "Option.bind (i_SeekToLast I it) (scan (i_item I) (i_Prev I) (i_Valid I) (length items)) = Some (rev items)"
    and "target k \<Longrightarrow> Option.bind (i_Seek I k it) (scan (i_item I) (i_Next I) (i_Valid I) (length items)) =
      Some (dropWhile (\<lambda>kv. Compare (fst kv) k < 0) items)"
proof -
  show "Option.bind (i_SeekToFirst I it) (scan (i_item I) (i_Next I) (i_Valid I) (length items)) = Some items"
    using first_at [OF assms] cursor.scan_all(1) [OF is_cursor] by auto
  show "Option.bind (i_SeekToLast I it) (scan (i_item I) (i_Prev I) (i_Valid I) (length items)) = Some (rev items)"
    using last_at [OF assms] cursor.scan_all(2) [OF is_cursor] by auto
  assume "target k"
  then obtain it' where "i_Seek I k it = Some it'" "pos it' (rank Compare k (map fst items))" using seek_at [OF assms] by blast
  moreover have "rank Compare k (map fst items) = length (takeWhile (\<lambda>kv. Compare (fst kv) k < 0) items)" by (simp add: rank_def takeWhile_map comp_def)
  ultimately show "Option.bind (i_Seek I k it) (scan (i_item I) (i_Next I) (i_Valid I) (length items)) = Some (dropWhile (\<lambda>kv. Compare (fst kv) k < 0) items)"
    using cursor.scan_forward [OF is_cursor, of it' _ "length items"] by (simp add: dropWhile_eq_drop)
qed

end

end
