(* ===== verification/DbIter.thy ===== *)
theory DbIter
  imports Iterators RandomGen
begin

text \<open>
  db/db_iter.cc: the iterator of the database, which shows the newest version of each user key that a snapshot sees and hides
  deleted keys. It is built on an iterator over internal keys, given by its methods \<open>I\<close>. The keys that it reports to the database as samples of the read
  traffic are collected in a list; what the database does with them does not concern the iterator.
\<close>

definition kReadBytesPeriod :: nat where "kReadBytesPeriod = 1048576"

record 'i DBIter =
  di_iter :: 'i
  di_sequence :: u64
  di_status :: status
  di_saved_key :: slice
  di_saved_value :: slice
  di_direction :: Direction
  di_valid :: bool
  di_rnd :: u32
  di_counter :: int
  di_samples :: "slice list"

text \<open>\<open>RandomPeriod()\<close>: the number and the new state of the generator.\<close>

definition RandomPeriod :: "u32 \<Rightarrow> nat \<times> u32" where
  "RandomPeriod rnd = Uniform (2 * kReadBytesPeriod) rnd"

definition NewDBIterator :: "'i \<Rightarrow> u64 \<Rightarrow> u32 \<Rightarrow> 'i DBIter" where
  "NewDBIterator internal_iter s seed =
     (let (n, rnd) = RandomPeriod (mk_Random seed)
      in \<lparr>di_iter = internal_iter, di_sequence = s, di_status = OK, di_saved_key = [], di_saved_value = [], di_direction = kForward, di_valid = False,
          di_rnd = rnd, di_counter = int n, di_samples = []\<rparr>)"

definition di_Valid :: "'i DBIter \<Rightarrow> bool" where "di_Valid d = di_valid d"

definition di_key :: "'i iterator \<Rightarrow> 'i DBIter \<Rightarrow> slice option" where
  "di_key I d =
     (if di_valid d then
        (case di_direction d of kForward \<Rightarrow> map_option ExtractUserKey (i_key I (di_iter d)) | kReverse \<Rightarrow> Some (di_saved_key d))
      else None)"

definition di_value :: "'i iterator \<Rightarrow> 'i DBIter \<Rightarrow> slice option" where
  "di_value I d =
     (if di_valid d then (case di_direction d of kForward \<Rightarrow> i_value I (di_iter d) | kReverse \<Rightarrow> Some (di_saved_value d)) else None)"

definition di_Status :: "'i iterator \<Rightarrow> 'i DBIter \<Rightarrow> status option" where
  "di_Status I d = (if status_ok (di_status d) then i_status I (di_iter d) else Some (di_status d))"

text \<open>The loop of \<open>ParseKey\<close> that draws samples.\<close>

partial_function (option) sample_loop :: "slice \<Rightarrow> 'i DBIter \<Rightarrow> 'i DBIter option" where
  "sample_loop k d =
     (if di_counter d < 0 then
        sample_loop k (d\<lparr>di_counter := di_counter d + int (fst (RandomPeriod (di_rnd d))), di_rnd := snd (RandomPeriod (di_rnd d)),
          di_samples := di_samples d @ [k]\<rparr>)
      else Some d)"

text \<open>\<open>ParseKey(ikey)\<close>: the parsed key, if it returns true.\<close>

definition ParseKey :: "'i iterator \<Rightarrow> 'i DBIter \<Rightarrow> (ParsedInternalKey option \<times> 'i DBIter) option" where
  "ParseKey I d =
     do { k \<leftarrow> i_key I (di_iter d);
          v \<leftarrow> i_value I (di_iter d);
          d \<leftarrow> sample_loop k (d\<lparr>di_counter := di_counter d - int (length k + length v)\<rparr>);
          Some (case ParseInternalKey k of
                  None \<Rightarrow> (None, d\<lparr>di_status := Corruption (ascii ''corrupted internal key in DBIter'') []\<rparr>)
                | Some ikey \<Rightarrow> (Some ikey, d)) }"

text \<open>The body of the loop of \<open>FindNextUserEntry\<close> before \<open>iter_->Next()\<close>: whether it returns, and \<open>skipping\<close>. \<open>skip\<close> is always a pointer to \<open>saved_key_\<close>.\<close>

definition next_step :: "(slice \<Rightarrow> slice \<Rightarrow> int) \<Rightarrow> bool \<Rightarrow> ParsedInternalKey option \<Rightarrow> 'i DBIter \<Rightarrow> bool \<times> bool \<times> 'i DBIter" where
  "next_step ucmp skipping parsed d =
     (case parsed of
        None \<Rightarrow> (False, skipping, d)
      | Some ikey \<Rightarrow>
          if sequence ikey \<le> di_sequence d then
            (case vtype ikey of
               kTypeDeletion \<Rightarrow> (False, True, d\<lparr>di_saved_key := user_key ikey\<rparr>)
             | kTypeValue \<Rightarrow>
                 if skipping \<and> ucmp (user_key ikey) (di_saved_key d) \<le> 0 then (False, skipping, d)
                 else (True, skipping, d\<lparr>di_valid := True, di_saved_key := []\<rparr>))
          else (False, skipping, d))"

partial_function (option) find_next :: "'i iterator \<Rightarrow> (slice \<Rightarrow> slice \<Rightarrow> int) \<Rightarrow> bool \<Rightarrow> 'i DBIter \<Rightarrow> 'i DBIter option" where
  "find_next I ucmp skipping d =
     Option.bind (ParseKey I d) (\<lambda>(parsed, d).
       case next_step ucmp skipping parsed d of (stop, skipping, d) \<Rightarrow>
         if stop then Some d
         else Option.bind (i_Next I (di_iter d)) (\<lambda>it.
           if i_Valid I it then find_next I ucmp skipping (d\<lparr>di_iter := it\<rparr>)
           else Some (d\<lparr>di_iter := it, di_saved_key := [], di_valid := False\<rparr>)))"

definition FindNextUserEntry :: "'i iterator \<Rightarrow> (slice \<Rightarrow> slice \<Rightarrow> int) \<Rightarrow> bool \<Rightarrow> 'i DBIter \<Rightarrow> 'i DBIter option" where
  "FindNextUserEntry I ucmp skipping d =
     (if i_Valid I (di_iter d) \<and> di_direction d = kForward then find_next I ucmp skipping d else None)"

definition di_Next :: "'i iterator \<Rightarrow> (slice \<Rightarrow> slice \<Rightarrow> int) \<Rightarrow> 'i DBIter \<Rightarrow> 'i DBIter option" where
  "di_Next I ucmp d =
     (if \<not> di_valid d then None
      else case di_direction d of
        kReverse \<Rightarrow>
          do { it \<leftarrow> (if \<not> i_Valid I (di_iter d) then i_SeekToFirst I (di_iter d) else i_Next I (di_iter d));
               let d = d\<lparr>di_direction := kForward, di_iter := it\<rparr>
               in if \<not> i_Valid I it then Some (d\<lparr>di_valid := False, di_saved_key := []\<rparr>) else FindNextUserEntry I ucmp True d }
      | kForward \<Rightarrow>
          do { k \<leftarrow> i_key I (di_iter d);
               FindNextUserEntry I ucmp True (d\<lparr>di_saved_key := ExtractUserKey k\<rparr>) })"

text \<open>
  The body of the loop of \<open>FindPrevUserEntry\<close> before \<open>iter_->Prev()\<close>; \<^term>\<open>Some None\<close> is the \<open>break\<close>.
\<close>

definition prev_step ::
  "'i iterator \<Rightarrow> (slice \<Rightarrow> slice \<Rightarrow> int) \<Rightarrow> ValueType \<Rightarrow> ParsedInternalKey option \<Rightarrow> 'i DBIter \<Rightarrow> (ValueType \<times> 'i DBIter) option option" where
  "prev_step I ucmp value_type parsed d =
     (case parsed of
        None \<Rightarrow> Some (Some (value_type, d))
      | Some ikey \<Rightarrow>
          if sequence ikey \<le> di_sequence d then
            if value_type \<noteq> kTypeDeletion \<and> ucmp (user_key ikey) (di_saved_key d) < 0 then Some None
            else (case vtype ikey of
                    kTypeDeletion \<Rightarrow> Some (Some (kTypeDeletion, d\<lparr>di_saved_key := [], di_saved_value := []\<rparr>))
                  | kTypeValue \<Rightarrow>
                      do { raw_value \<leftarrow> i_value I (di_iter d);
                           k \<leftarrow> i_key I (di_iter d);
                           Some (Some (kTypeValue, d\<lparr>di_saved_key := ExtractUserKey k, di_saved_value := raw_value\<rparr>)) })
          else Some (Some (value_type, d)))"

partial_function (option) find_prev :: "'i iterator \<Rightarrow> (slice \<Rightarrow> slice \<Rightarrow> int) \<Rightarrow> ValueType \<Rightarrow> 'i DBIter \<Rightarrow> (ValueType \<times> 'i DBIter) option" where
  "find_prev I ucmp value_type d =
     Option.bind (ParseKey I d) (\<lambda>(parsed, d).
       Option.bind (prev_step I ucmp value_type parsed d) (\<lambda>r.
         case r of
           None \<Rightarrow> Some (value_type, d)
         | Some (value_type, d) \<Rightarrow>
             Option.bind (i_Prev I (di_iter d)) (\<lambda>it.
               if i_Valid I it then find_prev I ucmp value_type (d\<lparr>di_iter := it\<rparr>) else Some (value_type, d\<lparr>di_iter := it\<rparr>))))"

definition FindPrevUserEntry :: "'i iterator \<Rightarrow> (slice \<Rightarrow> slice \<Rightarrow> int) \<Rightarrow> 'i DBIter \<Rightarrow> 'i DBIter option" where
  "FindPrevUserEntry I ucmp d =
     (if di_direction d \<noteq> kReverse then None
      else
        Option.bind (if i_Valid I (di_iter d) then find_prev I ucmp kTypeDeletion d else Some (kTypeDeletion, d)) (\<lambda>(value_type, d).
          Some (case value_type of
                  kTypeDeletion \<Rightarrow> d\<lparr>di_valid := False, di_saved_key := [], di_saved_value := [], di_direction := kForward\<rparr>
                | kTypeValue \<Rightarrow> d\<lparr>di_valid := True\<rparr>)))"

text \<open>The loop of \<open>Prev\<close>: whether an entry with a smaller user key was found.\<close>

partial_function (option) prev_scan :: "'i iterator \<Rightarrow> (slice \<Rightarrow> slice \<Rightarrow> int) \<Rightarrow> 'i DBIter \<Rightarrow> (bool \<times> 'i DBIter) option" where
  "prev_scan I ucmp d =
     Option.bind (i_Prev I (di_iter d)) (\<lambda>it.
       if \<not> i_Valid I it then Some (False, d\<lparr>di_iter := it, di_valid := False, di_saved_key := [], di_saved_value := []\<rparr>)
       else Option.bind (i_key I it) (\<lambda>k.
         if ucmp (ExtractUserKey k) (di_saved_key d) < 0 then Some (True, d\<lparr>di_iter := it\<rparr>) else prev_scan I ucmp (d\<lparr>di_iter := it\<rparr>)))"

definition di_Prev :: "'i iterator \<Rightarrow> (slice \<Rightarrow> slice \<Rightarrow> int) \<Rightarrow> 'i DBIter \<Rightarrow> 'i DBIter option" where
  "di_Prev I ucmp d =
     (if \<not> di_valid d then None
      else case di_direction d of
        kForward \<Rightarrow>
          if \<not> i_Valid I (di_iter d) then None
          else
            do { k \<leftarrow> i_key I (di_iter d);
                 (found, d) \<leftarrow> prev_scan I ucmp (d\<lparr>di_saved_key := ExtractUserKey k\<rparr>);
                 if found then FindPrevUserEntry I ucmp (d\<lparr>di_direction := kReverse\<rparr>) else Some d }
      | kReverse \<Rightarrow> FindPrevUserEntry I ucmp d)"

definition di_Seek :: "'i iterator \<Rightarrow> (slice \<Rightarrow> slice \<Rightarrow> int) \<Rightarrow> slice \<Rightarrow> 'i DBIter \<Rightarrow> 'i DBIter option" where
  "di_Seek I ucmp target d =
     (let k = AppendInternalKey [] \<lparr>user_key = target, sequence = di_sequence d, vtype = kValueTypeForSeek\<rparr>
      in do { it \<leftarrow> i_Seek I k (di_iter d);
              let d = d\<lparr>di_direction := kForward, di_saved_value := [], di_saved_key := k, di_iter := it\<rparr>
              in if i_Valid I it then FindNextUserEntry I ucmp False d else Some (d\<lparr>di_valid := False\<rparr>) })"

definition di_SeekToFirst :: "'i iterator \<Rightarrow> (slice \<Rightarrow> slice \<Rightarrow> int) \<Rightarrow> 'i DBIter \<Rightarrow> 'i DBIter option" where
  "di_SeekToFirst I ucmp d =
     do { it \<leftarrow> i_SeekToFirst I (di_iter d);
          let d = d\<lparr>di_direction := kForward, di_saved_value := [], di_iter := it\<rparr>
          in if i_Valid I it then FindNextUserEntry I ucmp False d else Some (d\<lparr>di_valid := False\<rparr>) }"

definition di_SeekToLast :: "'i iterator \<Rightarrow> (slice \<Rightarrow> slice \<Rightarrow> int) \<Rightarrow> 'i DBIter \<Rightarrow> 'i DBIter option" where
  "di_SeekToLast I ucmp d =
     do { it \<leftarrow> i_SeekToLast I (di_iter d);
          FindPrevUserEntry I ucmp (d\<lparr>di_direction := kReverse, di_saved_value := [], di_iter := it\<rparr>) }"

definition db_methods :: "'i iterator \<Rightarrow> (slice \<Rightarrow> slice \<Rightarrow> int) \<Rightarrow> 'i DBIter iterator" where
  "db_methods I ucmp =
     \<lparr>i_Valid = di_Valid, i_SeekToFirst = di_SeekToFirst I ucmp, i_SeekToLast = di_SeekToLast I ucmp, i_Seek = di_Seek I ucmp,
      i_Next = di_Next I ucmp, i_Prev = di_Prev I ucmp, i_key = di_key I, i_value = di_value I, i_status = di_Status I\<rparr>"

declare sample_loop.simps [code] find_next.simps [code] find_prev.simps [code] prev_scan.simps [code]

end
