(* ===== verification/DbIterCorrect.thy ===== *)
theory DbIterCorrect
  imports DbIter
begin

text \<open>
  Correctness of the iterator of the database: over any iterator of internal keys that meets the contract it is itself an iterator
  that meets the contract, over the entries that the snapshot sees.
\<close>

section \<open>What a snapshot sees\<close>

definition parsed :: "slice \<times> slice \<Rightarrow> ParsedInternalKey" where
  "parsed x = the (ParseInternalKey (fst x))"

definition sees :: "u64 \<Rightarrow> (slice \<times> slice) list \<Rightarrow> nat \<Rightarrow> bool" where
  "sees s xs i \<longleftrightarrow> sequence (parsed (xs ! i)) \<le> s"

text \<open>An entry is shown if it is a value that the snapshot sees and no newer one of its user key, which would come before it, is seen.\<close>

definition shown :: "(slice \<Rightarrow> slice \<Rightarrow> int) \<Rightarrow> u64 \<Rightarrow> (slice \<times> slice) list \<Rightarrow> nat \<Rightarrow> bool" where
  "shown ucmp s xs i \<longleftrightarrow> sees s xs i \<and> vtype (parsed (xs ! i)) = kTypeValue \<and>
     (\<forall>j<i. sees s xs j \<longrightarrow> ucmp (user_key (parsed (xs ! j))) (user_key (parsed (xs ! i))) \<noteq> 0)"

definition user_view :: "(slice \<Rightarrow> slice \<Rightarrow> int) \<Rightarrow> u64 \<Rightarrow> (slice \<times> slice) list \<Rightarrow> (slice \<times> slice) list" where
  "user_view ucmp s xs = map (\<lambda>i. (user_key (parsed (xs ! i)), snd (xs ! i))) (filter (shown ucmp s xs) [0..<length xs])"

lemma filter_upt_split:
  assumes "p < n" and "P p"
  shows "filter P [0..<n] = filter P [0..<p] @ p # filter P [Suc p..<n]"
proof -
  have "[0..<n] = [0..<p] @ p # [Suc p..<n]" using assms(1) by (metis less_imp_add_positive upt_add_eq_append upt_conv_Cons zero_le less_or_eq_imp_le)
  then show ?thesis using assms(2) by simp
qed

lemma filter_upt_nth:
  assumes "j < length (filter P [0..<n])"
  shows "filter P [0..<n] ! j < n" "P (filter P [0..<n] ! j)" "length (filter P [0..<filter P [0..<n] ! j]) = j"
proof -
  define xs p where "xs = filter P [0..<n]" and "p = filter P [0..<n] ! j"
  have m: "p \<in> set xs" unfolding p_def xs_def using assms by (rule nth_mem)
  then show p: "filter P [0..<n] ! j < n" "P (filter P [0..<n] ! j)" unfolding p_def [symmetric] xs_def by auto
  have "xs = filter P [0..<p] @ p # filter P [Suc p..<n]" unfolding xs_def using p [folded p_def] by (rule filter_upt_split)
  then have "xs ! length (filter P [0..<p]) = p" "length (filter P [0..<p]) < length xs" by simp_all
  moreover have "distinct xs" "xs ! j = p" "j < length xs" using assms by (simp_all add: xs_def p_def)
  ultimately show "length (filter P [0..<filter P [0..<n] ! j]) = j" unfolding p_def [symmetric] using nth_eq_iff_index_eq by metis
qed

section \<open>Samples are drawn in finite time\<close>

text \<open>The generator does not give the period 0 twice in a row.\<close>

lemma no_two_zeros:
  assumes g: "good_seed r" and z: "unat (Random_Next r) mod 2097152 = 0"
  shows "unat (Random_Next (Random_Next r)) mod 2097152 \<noteq> 0"
proof -
  note N = Random_Next_nat(2) [OF g]
  obtain k where k: "unat (Random_Next r) = 2097152 * k" using z by (auto simp: mod_eq_0_iff_dvd dvd_def)
  then have kb: "1 \<le> k" "k < 1024" using N by (auto simp: good_seed_def)
  define q c where "q = 16807 * k div 1024" and "c = 16807 * k mod 1024"
  have qc: "16807 * k = 1024 * q + c" "c < 1024" by (simp_all add: q_def c_def)
  have q: "16 \<le> q" "q < 16807" using kb by (auto simp: q_def)
  have "16807 * (2097152 * k) = 2147483647 * q + (q + 2097152 * c)" using qc(1) by simp
  then have "(16807 * (2097152 * k)) mod 2147483647 = (q + 2097152 * c) mod 2147483647" by (metis mod_mult_self4)
  also have "\<dots> = q + 2097152 * c" using q qc(2) by simp
  finally have "unat (Random_Next (Random_Next r)) = q + 2097152 * c" using Random_Next_nat(1) [OF N] k by simp
  then show ?thesis using q by simp
qed

definition same :: "'i DBIter \<Rightarrow> 'i DBIter \<Rightarrow> bool" where
  "same d d' \<longleftrightarrow> di_iter d' = di_iter d \<and> di_sequence d' = di_sequence d \<and> di_status d' = di_status d \<and> di_saved_key d' = di_saved_key d \<and>
     di_saved_value d' = di_saved_value d \<and> di_direction d' = di_direction d \<and> di_valid d' = di_valid d \<and> good_seed (di_rnd d')"

lemma sample_loop_ends: "good_seed (di_rnd d) \<Longrightarrow> \<exists>d'. sample_loop k d = Some d' \<and> same d d'"
proof (induction "2 * nat (- di_counter d) + (if fst (RandomPeriod (di_rnd d)) = 0 then 1 else 0)" arbitrary: d rule: less_induct)
  case less
  show ?case
  proof (cases "di_counter d < 0")
    case True
    let ?n = "fst (RandomPeriod (di_rnd d))" and ?r = "snd (RandomPeriod (di_rnd d))"
    define d1 where "d1 = d\<lparr>di_counter := di_counter d + int ?n, di_rnd := ?r, di_samples := di_samples d @ [k]\<rparr>"
    have r: "?r = Random_Next (di_rnd d)" "?n = unat ?r mod 2097152" by (simp_all add: RandomPeriod_def Uniform_def Let_def kReadBytesPeriod_def)
    have g: "good_seed (di_rnd d1)" using Random_Next_nat(2) [OF less.prems] by (simp add: d1_def r(1))
    have "fst (RandomPeriod ?r) \<noteq> 0" if "?n = 0" using no_two_zeros [OF less.prems] that unfolding r
      by (simp add: RandomPeriod_def Uniform_def Let_def kReadBytesPeriod_def)
    moreover have "2 * nat (- c - int m) + 1 < 2 * nat (- c)" if "c < 0" "0 < m" for c :: int and m :: nat using that by linarith
    ultimately have "2 * nat (- di_counter d1) + (if fst (RandomPeriod (di_rnd d1)) = 0 then 1 else 0) <
        2 * nat (- di_counter d) + (if ?n = 0 then 1 else 0)" using True by (cases "?n = 0") (auto simp: d1_def)
    from less.hyps [OF this g] obtain d' where "sample_loop k d1 = Some d'" "same d1 d'" by blast
    then show ?thesis using True by (subst sample_loop.simps) (auto simp: d1_def same_def)
  next
    case False
    then show ?thesis using less.prems by (subst sample_loop.simps) (simp add: same_def)
  qed
qed

section \<open>The locale of snapshots\<close>

lemma parse_facts:
  assumes "ParseInternalKey k = Some p"
  shows "user_key p = ExtractUserKey k" "sequence p = drop_bit 8 (key_num k)" "unat (key_num k AND 0xff) \<le> 1"
  using assms by (auto simp: ParseInternalKey_def ExtractUserKey_def Let_def word_le_nat_alt split: if_splits)

text \<open>The key that \<open>Seek\<close> makes comes after the entries of its user key that the snapshot does not see.\<close>

lemma seek_key_num:
  assumes "ParseInternalKey k = Some p" and "s \<le> kMaxSequenceNumber"
  shows "PackSequenceAndType s kValueTypeForSeek < key_num k \<longleftrightarrow> s < sequence p"
proof -
  note P = parse_facts [OF assms(1)] pack_parts [OF assms(2), of kValueTypeForSeek]
  have "unat (PackSequenceAndType s kValueTypeForSeek) = 256 * unat s + 1"
    using unat_low_byte [of "PackSequenceAndType s kValueTypeForSeek"] P(4,5) by (simp add: kValueTypeForSeek_def)
  moreover have "unat (key_num k) = 256 * unat (sequence p) + unat (key_num k AND 0xff)" using unat_low_byte [of "key_num k"] P(2) by simp
  ultimately show ?thesis using P(3) unfolding word_less_nat_alt by presburger
qed

locale snapshot_iter = comparator legal Compare FindShortestSeparator FindShortSuccessor +
    inner: seekable ilegal "ICompare Compare" I items alive pos target
  for legal Compare FindShortestSeparator FindShortSuccessor and I :: "'i iterator" and items alive pos target +
  fixes s :: u64
  assumes parses: "x \<in> set items \<Longrightarrow> ParseInternalKey (fst x) \<noteq> None"
    and s_max: "s \<le> kMaxSequenceNumber"
begin

abbreviation n where "n \<equiv> length items"
abbreviation uk where "uk i \<equiv> user_key (parsed (items ! i))"
abbreviation vis where "vis \<equiv> sees s items"
abbreviation Y where "Y \<equiv> filter (shown Compare s items) [0..<n]"
abbreviation cnt where "cnt i \<equiv> length (filter (shown Compare s items) [0..<i])"

lemma parse_at: "i < n \<Longrightarrow> ParseInternalKey (fst (items ! i)) = Some (parsed (items ! i))"
  using parses [OF nth_mem] by (auto simp: parsed_def)

lemma uk_extract: "i < n \<Longrightarrow> ExtractUserKey (fst (items ! i)) = uk i"
  using parse_facts(1) [OF parse_at] by simp

lemma uk_legal: "i < n \<Longrightarrow> legal (uk i)"
  using inner.items_legal [OF nth_mem, of i] uk_extract [of i] by (simp add: ilegal_def)

lemma uk_mono: "i \<le> j \<Longrightarrow> j < n \<Longrightarrow> Compare (uk i) (uk j) \<le> 0"
proof (cases "i = j")
  case False
  assume ij: "i \<le> j" "j < n"
  then have "ICompare Compare (map fst items ! i) (map fst items ! j) < 0"
    using inner.items_sorted False by (intro sorted_wrt_nth_less [OF inner.items_sorted]) auto
  then show ?thesis using ij uk_extract [of i] uk_extract [of j] by (auto simp: icompare_less)
qed (use uk_legal in auto)

lemma seek_before:
  "i < n \<Longrightarrow> ICompare Compare (fst (items ! i)) (AppendInternalKey [] \<lparr>user_key = t, sequence = s, vtype = kValueTypeForSeek\<rparr>) < 0 \<longleftrightarrow>
     Compare (uk i) t < 0 \<or> Compare (uk i) t = 0 \<and> \<not> vis i"
  using seek_key_num [OF parse_at s_max] uk_extract [of i]
  by (auto simp: icompare_less AppendInternalKey_def PutFixed64_eq sees_def)

definition dtarget :: "slice \<Rightarrow> bool" where
  "dtarget t \<longleftrightarrow> target (AppendInternalKey [] \<lparr>user_key = t, sequence = s, vtype = kValueTypeForSeek\<rparr>)"

lemma dtarget_legal: "dtarget t \<Longrightarrow> legal t"
  using inner.target_legal [of "AppendInternalKey [] \<lparr>user_key = t, sequence = s, vtype = kValueTypeForSeek\<rparr>"]
  by (simp add: dtarget_def ilegal_def AppendInternalKey_def PutFixed64_eq ExtractUserKey_def)

definition good :: "'i DBIter \<Rightarrow> bool" where
  "good d \<longleftrightarrow> good_seed (di_rnd d) \<and> di_sequence d = s \<and> di_status d = OK"

lemma ParseKey_at:
  assumes "good d" and "pos (di_iter d) i" and "i < n"
  shows "\<exists>d'. ParseKey I d = Some (Some (parsed (items ! i)), d') \<and> same d d' \<and> good d'"
proof -
  let ?k = "fst (items ! i)" and ?v = "snd (items ! i)"
  let ?d = "d\<lparr>di_counter := di_counter d - int (length ?k + length ?v)\<rparr>"
  obtain d' where "sample_loop ?k ?d = Some d'" "same ?d d'" using sample_loop_ends [of ?d ?k] assms(1) by (auto simp: good_def)
  then show ?thesis using inner.key_pos [OF assms(2,3)] inner.value_pos [OF assms(2,3)] parse_at [OF assms(3)] assms(1)
    by (auto simp: ParseKey_def same_def good_def)
qed

text \<open>The inner iterator has passed entry \<open>p\<close> backwards and seen nothing since.\<close>

definition behind :: "'i DBIter \<Rightarrow> nat \<Rightarrow> bool" where
  "behind d p \<longleftrightarrow> (\<exists>q. pos (di_iter d) q \<and> (if q = n then \<forall>m<p. \<not> vis m else q < p \<and> (\<forall>m. q < m \<and> m < p \<longrightarrow> \<not> vis m)))"

text \<open>At the entry \<open>j\<close> of the view: forwards the inner iterator is there, backwards it has passed to before the entry.\<close>

definition dpos :: "'i DBIter \<Rightarrow> nat \<Rightarrow> bool" where
  "dpos d j \<longleftrightarrow> good d \<and>
     (if j < length Y then
        di_valid d \<and>
        (case di_direction d of
           kForward \<Rightarrow> pos (di_iter d) (Y ! j)
         | kReverse \<Rightarrow> di_saved_key d = uk (Y ! j) \<and> di_saved_value d = snd (items ! (Y ! j)) \<and> behind d (Y ! j))
      else j = length Y \<and> \<not> di_valid d \<and> (\<exists>i. pos (di_iter d) i))"

text \<open>
  The test for hidden entries is right from \<open>i\<close> on: it holds for the entries whose user key has a visible entry before \<open>i\<close>.
\<close>

definition hides :: "bool \<Rightarrow> slice \<Rightarrow> nat \<Rightarrow> bool" where
  "hides sk skip i \<longleftrightarrow> (\<forall>k. i \<le> k \<longrightarrow> k < n \<longrightarrow> vis k \<longrightarrow> (sk \<and> Compare (uk k) skip \<le> 0 \<longleftrightarrow> (\<exists>m<i. vis m \<and> Compare (uk m) (uk k) = 0)))"

lemma hides_after:
  assumes "i < n" and "vis i"
  shows "hides True (uk i) (Suc i)"
  unfolding hides_def
proof (intro allI impI)
  fix k
  assume k: "Suc i \<le> k" "k < n" "vis k"
  have L: "legal (uk i)" "legal (uk k)" "Compare (uk i) (uk k) \<le> 0" using uk_legal uk_mono [of i k] k assms(1) by auto
  show "True \<and> Compare (uk k) (uk i) \<le> 0 \<longleftrightarrow> (\<exists>m<Suc i. vis m \<and> Compare (uk m) (uk k) = 0)"
  proof
    assume "True \<and> Compare (uk k) (uk i) \<le> 0"
    then have "Compare (uk i) (uk k) = 0" using L compare_flip [of "uk k" "uk i"] by force
    then show "\<exists>m<Suc i. vis m \<and> Compare (uk m) (uk k) = 0" using assms(2) by blast
  next
    assume "\<exists>m<Suc i. vis m \<and> Compare (uk m) (uk k) = 0"
    then obtain m where m: "m \<le> i" "Compare (uk m) (uk k) = 0" by (auto simp: less_Suc_eq_le)
    then have "legal (uk m)" "Compare (uk k) (uk m) \<le> 0" "Compare (uk m) (uk i) \<le> 0"
      using uk_legal [of m] uk_mono [of m i] assms(1) L(2) compare_0_sym [of "uk m" "uk k"] by auto
    then show "True \<and> Compare (uk k) (uk i) \<le> 0" using compare_trans L by blast
  qed
qed

lemma hides_skip:
  assumes "hides sk skip i" and "i < n" and "vis i \<Longrightarrow> sk \<and> Compare (uk i) skip \<le> 0"
  shows "hides sk skip (Suc i)"
  unfolding hides_def
proof (intro allI impI)
  fix k
  assume k: "Suc i \<le> k" "k < n" "vis k"
  have h: "(sk \<and> Compare (uk k) skip \<le> 0 \<longleftrightarrow> (\<exists>m<i. vis m \<and> Compare (uk m) (uk k) = 0))" using assms(1) k unfolding hides_def by simp
  have "\<exists>m<i. vis m \<and> Compare (uk m) (uk k) = 0" if "vis i" "Compare (uk i) (uk k) = 0"
  proof -
    have "\<exists>m<i. vis m \<and> Compare (uk m) (uk i) = 0" using assms(1,2) assms(3) [OF that(1)] that(1) unfolding hides_def by blast
    then obtain m where m: "m < i" "vis m" "Compare (uk m) (uk i) = 0" by blast
    then have "Compare (uk m) (uk k) = 0" using compare_cong(2) [of "uk m" "uk i" "uk k"] uk_legal k that(2) assms(2) by auto
    then show ?thesis using m by blast
  qed
  then show "sk \<and> Compare (uk k) skip \<le> 0 \<longleftrightarrow> (\<exists>m<Suc i. vis m \<and> Compare (uk m) (uk k) = 0)" using h by (auto simp: less_Suc_eq)
qed

lemma cnt_Suc: "cnt (Suc i) = (if shown Compare s items i then Suc (cnt i) else cnt i)"
  by simp

lemma cnt_all: "cnt n = length Y"
  by simp

lemma cnt_none: "\<forall>m<p. \<not> vis m \<Longrightarrow> cnt p = 0"
  by (simp add: filter_empty_conv shown_def)

lemma Y_cnt: "p < n \<Longrightarrow> shown Compare s items p \<Longrightarrow> cnt p < length Y \<and> Y ! cnt p = p"
  using filter_upt_split [of p n "shown Compare s items"] by simp

text \<open>One round of the loop that does not stop.\<close>

lemma find_next_skip:
  assumes "good d" and "pos (di_iter d) i" and "i < n" and "di_direction d = kForward"
    and "\<not> vis i \<and> sk2 = sk \<and> skip2 = di_saved_key d \<or> vis i \<and> vtype (parsed (items ! i)) = kTypeDeletion \<and> sk2 \<and> skip2 = uk i \<or>
      vis i \<and> vtype (parsed (items ! i)) = kTypeValue \<and> sk \<and> Compare (uk i) (di_saved_key d) \<le> 0 \<and> sk2 = sk \<and> skip2 = di_saved_key d"
  shows "\<exists>d'. good d' \<and> pos (di_iter d') (Suc i) \<and> di_direction d' = kForward \<and> di_saved_key d' = skip2 \<and>
    find_next I Compare sk d = (if Suc i < n then find_next I Compare sk2 d' else Some (d'\<lparr>di_saved_key := [], di_valid := False\<rparr>))"
proof -
  let ?p = "parsed (items ! i)"
  obtain d1 where d1: "ParseKey I d = Some (Some ?p, d1)" "same d d1" "good d1" using ParseKey_at [OF assms(1-3)] by blast
  have it: "di_iter d1 = di_iter d" "di_saved_key d1 = di_saved_key d" "di_direction d1 = kForward" "di_sequence d1 = s"
    using d1(2,3) assms(4) by (auto simp: same_def good_def)
  obtain d2 where d2: "next_step Compare sk (Some ?p) d1 = (False, sk2, d2)" "good d2" "di_iter d2 = di_iter d" "di_direction d2 = kForward" "di_saved_key d2 = skip2"
    using assms(5) d1(3) it by (auto simp: next_step_def sees_def good_def)
  obtain it' where it': "i_Next I (di_iter d) = Some it'" "pos it' (Suc i)" using inner.next_pos [OF assms(2,3)] by blast
  have "find_next I Compare sk d = (if Suc i < n then find_next I Compare sk2 (d2\<lparr>di_iter := it'\<rparr>) else Some (d2\<lparr>di_iter := it', di_saved_key := [], di_valid := False\<rparr>))"
    using inner.valid_pos [OF it'(2)] it'(1) d2(3) by (subst find_next.simps) (simp add: d1(1) d2(1))
  then show ?thesis using d2 it'(2) by (intro exI [of _ "d2\<lparr>di_iter := it'\<rparr>"]) (simp add: good_def)
qed

lemma find_next_end: "good d \<Longrightarrow> pos (di_iter d) n \<Longrightarrow> dpos (d\<lparr>di_saved_key := [], di_valid := False\<rparr>) (length Y)"
  by (auto simp: dpos_def good_def)

lemma find_next_at:
  assumes "good d" and "pos (di_iter d) i" and "i < n" and "di_direction d = kForward" and "hides sk (di_saved_key d) i"
  shows "\<exists>d'. find_next I Compare sk d = Some d' \<and> dpos d' (cnt i)"
  using assms
proof (induction "n - i" arbitrary: d i sk)
  case (Suc l)
  let ?p = "parsed (items ! i)"
  have hid: "vis i \<Longrightarrow> sk \<and> Compare (uk i) (di_saved_key d) \<le> 0 \<longleftrightarrow> (\<exists>m<i. vis m \<and> Compare (uk m) (uk i) = 0)"
    using Suc.prems(3,5) unfolding hides_def by blast
  show ?case
  proof (cases "shown Compare s items i")
    case True
    obtain d1 where d1: "ParseKey I d = Some (Some ?p, d1)" "same d d1" "good d1" using ParseKey_at [OF Suc.prems(1-3)] by blast
    have it: "di_iter d1 = di_iter d" "di_saved_key d1 = di_saved_key d" "di_direction d1 = kForward" "di_sequence d1 = s"
      using d1(2,3) Suc.prems(4) by (auto simp: same_def good_def)
    have "next_step Compare sk (Some ?p) d1 = (True, sk, d1\<lparr>di_valid := True, di_saved_key := []\<rparr>)"
      using hid True unfolding shown_def next_step_def by (auto simp: it sees_def)
    then have "find_next I Compare sk d = Some (d1\<lparr>di_valid := True, di_saved_key := []\<rparr>)" by (subst find_next.simps) (simp add: d1(1))
    moreover have "dpos (d1\<lparr>di_valid := True, di_saved_key := []\<rparr>) (cnt i)"
      using Y_cnt [OF Suc.prems(3) True] d1(3) Suc.prems(2) it by (simp add: dpos_def good_def)
    ultimately show ?thesis by blast
  next
    case False
    define del where "del \<longleftrightarrow> vis i \<and> vtype ?p = kTypeDeletion"
    define sk2 skip2 where "sk2 = (if del then True else sk)" and "skip2 = (if del then uk i else di_saved_key d)"
    have hv: "sk \<and> Compare (uk i) (di_saved_key d) \<le> 0" if "vis i" "\<not> del" using False hid that unfolding shown_def del_def by (cases "vtype ?p") auto
    have h2: "hides sk2 skip2 (Suc i)"
      using hides_after [OF Suc.prems(3)] hides_skip [OF Suc.prems(5,3)] hv unfolding sk2_def skip2_def del_def by auto
    have r: "\<not> vis i \<and> sk2 = sk \<and> skip2 = di_saved_key d \<or> vis i \<and> vtype ?p = kTypeDeletion \<and> sk2 \<and> skip2 = uk i \<or>
        vis i \<and> vtype ?p = kTypeValue \<and> sk \<and> Compare (uk i) (di_saved_key d) \<le> 0 \<and> sk2 = sk \<and> skip2 = di_saved_key d"
      using hv unfolding sk2_def skip2_def del_def by (cases "vis i"; cases "vtype ?p") auto
    obtain d' where d': "good d'" "pos (di_iter d') (Suc i)" "di_direction d' = kForward" "di_saved_key d' = skip2"
      "find_next I Compare sk d = (if Suc i < n then find_next I Compare sk2 d' else Some (d'\<lparr>di_saved_key := [], di_valid := False\<rparr>))"
      using find_next_skip [OF Suc.prems(1-4) r] by blast
    have c: "cnt i = cnt (Suc i)" using False by simp
    show ?thesis
    proof (cases "Suc i < n")
      case True
      then show ?thesis using Suc.hyps(1) [of "Suc i" d' sk2] Suc.hyps(2) d' h2 unfolding c by simp
    next
      case False
      then have "Suc i = n" using Suc.prems(3) by simp
      then show ?thesis using c d' find_next_end [OF d'(1)] by simp
    qed
  qed
qed simp

text \<open>From entries that the snapshot does not see, or from the entry itself, to the entry after \<open>p\<close>.\<close>

lemma find_next_from:
  assumes "good d" and "pos (di_iter d) i" and "i \<le> p" and "p < n" and "shown Compare s items p" and "\<forall>m. i \<le> m \<and> m < p \<longrightarrow> \<not> vis m"
    and "di_saved_key d = uk p" and "di_direction d = kForward"
  shows "\<exists>d'. find_next I Compare True d = Some d' \<and> dpos d' (Suc (cnt p))"
  using assms
proof (induction "p - i" arbitrary: d i)
  case 0
  then have i: "i = p" by simp
  have v: "vis p" "vtype (parsed (items ! p)) = kTypeValue" using "0.prems"(5) by (auto simp: shown_def)
  obtain d' where d': "good d'" "pos (di_iter d') (Suc p)" "di_direction d' = kForward" "di_saved_key d' = uk p"
    "find_next I Compare True d = (if Suc p < n then find_next I Compare True d' else Some (d'\<lparr>di_saved_key := [], di_valid := False\<rparr>))"
    using find_next_skip [of d p True True "uk p"] "0.prems" v uk_legal unfolding i by auto
  have c: "Suc (cnt p) = cnt (Suc p)" using "0.prems"(5) by simp
  show ?case
  proof (cases "Suc p < n")
    case True
    then show ?thesis using find_next_at [OF d'(1,2) True d'(3), of True] hides_after [OF "0.prems"(4) v(1)] d'(4,5) unfolding c by simp
  next
    case False
    then have "Suc p = n" using "0.prems"(4) by simp
    then show ?thesis using find_next_end [OF d'(1)] d'(2,5) unfolding c by simp
  qed
next
  case (Suc l)
  have i: "i < p" "Suc i < n" "\<not> vis i" using Suc.hyps(2) Suc.prems(4,6) by auto
  obtain d' where d': "good d'" "pos (di_iter d') (Suc i)" "di_direction d' = kForward" "di_saved_key d' = uk p" "find_next I Compare True d = find_next I Compare True d'"
    using find_next_skip [of d i True True "uk p"] Suc.prems i by auto
  then show ?case using Suc.hyps(1) [of "Suc i" d'] Suc.hyps(2) Suc.prems(4-6) i by auto
qed

lemma cnt_same: "a \<le> b \<Longrightarrow> \<forall>m. a \<le> m \<and> m < b \<longrightarrow> \<not> shown Compare s items m \<Longrightarrow> cnt b = cnt a"
proof -
  assume "a \<le> b" and f: "\<forall>m. a \<le> m \<and> m < b \<longrightarrow> \<not> shown Compare s items m"
  then have "[0..<b] = [0..<a] @ [a..<b]" by (metis le_add_diff_inverse upt_add_eq_append zero_le)
  moreover have "filter (shown Compare s items) [a..<b] = []" using f by (auto simp: filter_empty_conv)
  ultimately show ?thesis by simp
qed

section \<open>Backwards\<close>

text \<open>The entries from \<open>b\<close> to \<open>q\<close> have been passed.\<close>

definition passed :: "ValueType \<Rightarrow> 'i DBIter \<Rightarrow> nat \<Rightarrow> nat \<Rightarrow> bool" where
  "passed vt d b q \<longleftrightarrow> (case vt of
     kTypeDeletion \<Rightarrow> \<forall>y. b \<le> y \<and> y \<le> q \<longrightarrow> \<not> shown Compare s items y
   | kTypeValue \<Rightarrow> \<exists>v. b \<le> v \<and> v \<le> q \<and> vis v \<and> vtype (parsed (items ! v)) = kTypeValue \<and> di_saved_key d = uk v \<and> di_saved_value d = snd (items ! v) \<and>
       (\<forall>m. b \<le> m \<and> m < v \<longrightarrow> \<not> vis m) \<and> (\<forall>y. b \<le> y \<and> y \<le> q \<and> shown Compare s items y \<longrightarrow> y = v))"

text \<open>What the search ends with: the last entry that is shown up to \<open>q\<close>, or none.\<close>

definition found_prev :: "ValueType \<Rightarrow> 'i DBIter \<Rightarrow> nat \<Rightarrow> bool" where
  "found_prev vt d q \<longleftrightarrow> (case vt of
     kTypeDeletion \<Rightarrow> pos (di_iter d) n \<and> (\<forall>y\<le>q. \<not> shown Compare s items y)
   | kTypeValue \<Rightarrow> \<exists>v\<le>q. shown Compare s items v \<and> (\<forall>y. v < y \<and> y \<le> q \<longrightarrow> \<not> shown Compare s items y) \<and> di_saved_key d = uk v \<and> di_saved_value d = snd (items ! v) \<and>
       behind d v)"

lemma found_prevI:
  assumes "v \<le> q" and "shown Compare s items v" and "\<forall>y. v < y \<and> y \<le> q \<longrightarrow> \<not> shown Compare s items y" and "di_saved_key d = uk v"
    and "di_saved_value d = snd (items ! v)" and "pos (di_iter d) i" and "if i = n then \<forall>m<v. \<not> vis m else i < v \<and> (\<forall>m. i < m \<and> m < v \<longrightarrow> \<not> vis m)"
  shows "found_prev kTypeValue d q"
  unfolding found_prev_def behind_def ValueType.case by (intro exI [of _ v] conjI exI [of _ i] assms)

text \<open>One round of the loop.\<close>

lemma find_prev_step:
  assumes "good d" and "pos (di_iter d) i" and "i < n" and "i \<le> q" and "passed vt d (Suc i) q" and "q < n"
  shows "\<exists>d1. good d1 \<and> di_direction d1 = di_direction d \<and>
    (find_prev I Compare vt d = Some (vt, d1) \<and> found_prev vt d1 q \<or>
     (\<exists>vt'. passed vt' d1 i q \<and> pos (di_iter d1) (if i = 0 then n else i - 1) \<and>
        find_prev I Compare vt d = (if i = 0 then Some (vt', d1) else find_prev I Compare vt' d1)))"
proof -
  let ?p = "parsed (items ! i)"
  obtain d0 where d0: "ParseKey I d = Some (Some ?p, d0)" "same d d0" "good d0" using ParseKey_at [OF assms(1-3)] by blast
  have it: "di_iter d0 = di_iter d" "di_saved_key d0 = di_saved_key d" "di_saved_value d0 = di_saved_value d" "di_direction d0 = di_direction d" "di_sequence d0 = s"
    using d0(2,3) by (auto simp: same_def good_def)
  have kv: "i_key I (di_iter d0) = Some (fst (items ! i))" "i_value I (di_iter d0) = Some (snd (items ! i))"
    using inner.key_pos [OF assms(2,3)] inner.value_pos [OF assms(2,3)] it by auto
  show ?thesis
  proof (cases "vis i \<and> vt = kTypeValue \<and> Compare (uk i) (di_saved_key d) < 0")
    case True
    then have "prev_step I Compare vt (Some ?p) d0 = Some None" by (simp add: prev_step_def it sees_def)
    then have e: "find_prev I Compare vt d = Some (vt, d0)" by (subst find_prev.simps) (simp add: d0(1))
    obtain v where v: "Suc i \<le> v" "v \<le> q" "vis v" "vtype (parsed (items ! v)) = kTypeValue" "di_saved_key d = uk v" "di_saved_value d = snd (items ! v)"
      "\<forall>m. Suc i \<le> m \<and> m < v \<longrightarrow> \<not> vis m" "\<forall>y. Suc i \<le> y \<and> y \<le> q \<and> shown Compare s items y \<longrightarrow> y = v"
      using assms(5) True unfolding passed_def by auto
    have "Compare (uk j) (uk v) \<noteq> 0" if j: "j < v" "vis j" for j
    proof -
      have "j \<le> i" using v(7) j by (metis not_less_eq_eq)
      then have "Compare (uk j) (uk i) \<le> 0" "legal (uk j)" "legal (uk i)" "legal (uk v)" using uk_mono [of j i] uk_legal v(2) assms(3,6) by auto
      then show ?thesis using compare_less_trans(1) [of "uk j" "uk i" "uk v"] True v(5) by auto
    qed
    then have "shown Compare s items v" using v(3,4) by (auto simp: shown_def)
    moreover have "\<forall>y. v < y \<and> y \<le> q \<longrightarrow> \<not> shown Compare s items y" using v(1,8) by (metis less_le_trans less_imp_le nat_less_le)
    ultimately have "found_prev kTypeValue d0 q"
      by (rule found_prevI [OF v(2), where i = i]) (use v(1,5-7) it assms(2,3) in auto)
    then have "found_prev vt d0 q" using True by simp
    then show ?thesis using e d0(3) it by blast
  next
    case False
    define vt' where "vt' = (if vis i then vtype ?p else vt)"
    obtain d1 where d1: "prev_step I Compare vt (Some ?p) d0 = Some (Some (vt', d1))" "good d1" "di_iter d1 = di_iter d" "di_direction d1 = di_direction d"
      "vis i \<and> vtype ?p = kTypeValue \<longrightarrow> di_saved_key d1 = uk i \<and> di_saved_value d1 = snd (items ! i)" "\<not> vis i \<longrightarrow> di_saved_key d1 = di_saved_key d \<and> di_saved_value d1 = di_saved_value d"
    proof (cases "vis i")
      case True
      then have le: "sequence ?p \<le> s" by (simp add: sees_def)
      have nb: "\<not> (vt \<noteq> kTypeDeletion \<and> Compare (uk i) (di_saved_key d0) < 0)" using False True it(2) by (cases vt) simp_all
      show ?thesis
      proof (cases "vtype ?p")
        case kTypeDeletion
        have "prev_step I Compare vt (Some ?p) d0 = Some (Some (vt', d0\<lparr>di_saved_key := [], di_saved_value := []\<rparr>))"
          unfolding prev_step_def option.case if_not_P [OF nb] using True kTypeDeletion le by (simp add: vt'_def it(5))
        then show ?thesis using that d0(3) it True kTypeDeletion by (simp add: good_def)
      next
        case kTypeValue
        have "prev_step I Compare vt (Some ?p) d0 = Some (Some (vt', d0\<lparr>di_saved_key := uk i, di_saved_value := snd (items ! i)\<rparr>))"
          unfolding prev_step_def option.case if_not_P [OF nb] using True kTypeValue le kv uk_extract [OF assms(3)] by (simp add: vt'_def it(5))
        then show ?thesis using that d0(3) it True kTypeValue by (simp add: good_def)
      qed
    next
      case False
      then show ?thesis using that [of d0] d0(3) it by (simp add: prev_step_def vt'_def sees_def)
    qed
    have P: "passed vt' d1 i q"
    proof (cases "vis i")
      case True
      have "\<not> shown Compare s items y" if y: "Suc i \<le> y" "y \<le> q" for y
      proof
        assume sh: "shown Compare s items y"
        then obtain v where v: "vt = kTypeValue" "di_saved_key d = uk v" "y = v" using assms(5) y unfolding passed_def by (cases vt) auto
        then have "Compare (uk i) (uk y) = 0" using False True uk_mono [of i y] y assms(6) by auto
        then show False using sh True y unfolding shown_def by (meson Suc_le_lessD)
      qed
      then have only: "y = i" if "i \<le> y" "y \<le> q" "shown Compare s items y" for y using that by (metis le_antisym not_less_eq_eq)
      show ?thesis
      proof (cases "vtype ?p")
        case kTypeDeletion
        then have "\<not> shown Compare s items i" by (simp add: shown_def)
        then show ?thesis using only True kTypeDeletion unfolding passed_def vt'_def by auto
      next
        case kTypeValue
        then show ?thesis using only True d1(5) assms(4) unfolding passed_def vt'_def by (auto intro!: exI [of _ i])
      qed
    next
      case False
      then have i: "\<not> shown Compare s items i" "vt' = vt" "di_saved_key d1 = di_saved_key d" "di_saved_value d1 = di_saved_value d"
        using d1(6) by (simp_all add: shown_def vt'_def)
      have le: "i \<le> y \<longleftrightarrow> y = i \<or> Suc i \<le> y" for y by auto
      show ?thesis
      proof (cases vt)
        case kTypeDeletion
        then show ?thesis using assms(5) i unfolding passed_def le by auto
      next
        case kTypeValue
        then obtain v where "Suc i \<le> v" "v \<le> q" "vis v" "vtype (parsed (items ! v)) = kTypeValue" "di_saved_key d = uk v" "di_saved_value d = snd (items ! v)"
          "\<forall>m. Suc i \<le> m \<and> m < v \<longrightarrow> \<not> vis m" "\<forall>y. Suc i \<le> y \<and> y \<le> q \<and> shown Compare s items y \<longrightarrow> y = v"
          using assms(5) unfolding passed_def by auto
        then show ?thesis unfolding passed_def kTypeValue i(2) ValueType.case le using False i by (intro exI [of _ v]) auto
      qed
    qed
    obtain it' where it': "i_Prev I (di_iter d) = Some it'" "pos it' (if i = 0 then n else i - 1)" using inner.prev_pos [OF assms(2,3)] by blast
    have valid: "i_Valid I it' \<longleftrightarrow> i \<noteq> 0" using inner.valid_pos [OF it'(2)] assms(3) by auto
    have "find_prev I Compare vt d = (if i = 0 then Some (vt', d1\<lparr>di_iter := it'\<rparr>) else find_prev I Compare vt' (d1\<lparr>di_iter := it'\<rparr>))"
      using valid it'(1) d1(3) by (subst find_prev.simps) (simp add: d0(1) d1(1))
    moreover have "passed vt' (d1\<lparr>di_iter := it'\<rparr>) i q" using P by (simp add: passed_def split: ValueType.splits)
    ultimately show ?thesis using d1(2,4) it'(2) by (intro exI [of _ "d1\<lparr>di_iter := it'\<rparr>"]) (auto simp: good_def)
  qed
qed

lemma found_at_front: "passed vt d 0 q \<Longrightarrow> pos (di_iter d) n \<Longrightarrow> found_prev vt d q"
proof (cases vt)
  case kTypeValue
  assume "passed vt d 0 q" and p: "pos (di_iter d) n"
  then obtain v where v: "v \<le> q" "vis v" "vtype (parsed (items ! v)) = kTypeValue" "di_saved_key d = uk v" "di_saved_value d = snd (items ! v)"
      "\<forall>m<v. \<not> vis m" "\<forall>y\<le>q. shown Compare s items y \<longrightarrow> y = v" unfolding passed_def kTypeValue ValueType.case by (metis le0)
  have "shown Compare s items v" using v(2,3,6) by (simp add: shown_def)
  moreover have "\<forall>y. v < y \<and> y \<le> q \<longrightarrow> \<not> shown Compare s items y" using v(7) by (metis nat_less_le)
  ultimately show ?thesis unfolding kTypeValue by (rule found_prevI [OF v(1), where i = n]) (use v p in simp_all)
qed (auto simp: passed_def found_prev_def)

lemma find_prev_at:
  assumes "good d" and "pos (di_iter d) i" and "i < n" and "i \<le> q" and "passed vt d (Suc i) q" and "q < n"
  shows "\<exists>vt' d'. find_prev I Compare vt d = Some (vt', d') \<and> good d' \<and> di_direction d' = di_direction d \<and> found_prev vt' d' q"
  using assms
proof (induction i arbitrary: d vt)
  case 0
  then show ?case using find_prev_step [OF 0] found_at_front by auto
next
  case (Suc i)
  obtain d1 where d1: "good d1" "di_direction d1 = di_direction d"
    "find_prev I Compare vt d = Some (vt, d1) \<and> found_prev vt d1 q \<or>
     (\<exists>vt'. passed vt' d1 (Suc i) q \<and> pos (di_iter d1) i \<and> find_prev I Compare vt d = find_prev I Compare vt' d1)"
    using find_prev_step [OF Suc.prems] by auto
  then show ?case using Suc.IH [OF d1(1)] Suc.prems(3,4,6) by fastforce
qed

lemma FindPrev_at:
  assumes "good d" and "di_direction d = kReverse" and "pos (di_iter d) q"
  shows "\<exists>d'. FindPrevUserEntry I Compare d = Some d' \<and> dpos d' (if q = n \<or> cnt (Suc q) = 0 then length Y else cnt (Suc q) - 1)"
proof (cases "q < n")
  case True
  have v: "i_Valid I (di_iter d)" using inner.valid_pos [OF assms(3)] True by simp
  have p0: "passed kTypeDeletion d (Suc q) q" by (auto simp: passed_def)
  obtain vt d1 where d1: "find_prev I Compare kTypeDeletion d = Some (vt, d1)" "good d1" "di_direction d1 = kReverse" "found_prev vt d1 q"
    using find_prev_at [OF assms(1,3) True le_refl p0 True] assms(2) by auto
  show ?thesis
  proof (cases vt)
    case kTypeDeletion
    then have f: "pos (di_iter d1) n" "\<forall>y\<le>q. \<not> shown Compare s items y" using d1(4) by (auto simp: found_prev_def)
    then have "cnt (Suc q) = 0" by (auto simp: filter_empty_conv)
    then show ?thesis using v assms(2) d1(1,2) f(1) kTypeDeletion by (auto simp: FindPrevUserEntry_def dpos_def good_def)
  next
    case kTypeValue
    then obtain v where f: "v \<le> q" "shown Compare s items v" "\<forall>y. v < y \<and> y \<le> q \<longrightarrow> \<not> shown Compare s items y" "di_saved_key d1 = uk v"
      "di_saved_value d1 = snd (items ! v)" "behind d1 v"
      using d1(4) by (auto simp: found_prev_def)
    have "cnt (Suc q) = cnt (Suc v)" using f(1,3) by (intro cnt_same) auto
    then have c: "cnt (Suc q) - 1 = cnt v" "cnt (Suc q) \<noteq> 0" using f(2) by simp_all
    have y: "cnt v < length Y" "Y ! cnt v = v" using Y_cnt [of v] f(1,2) True by auto
    have D: "dpos (d1\<lparr>di_valid := True\<rparr>) (cnt v)" unfolding dpos_def using y d1(2,3) f(4-6) by (simp add: good_def behind_def)
    have ne: "\<not> (q = n \<or> cnt (Suc q) = 0)" using c(2) True by blast
    show ?thesis unfolding if_not_P [OF ne] c(1) using D v assms(2) d1(1) kTypeValue by (simp add: FindPrevUserEntry_def)
  qed
next
  case False
  then have "q = n" using inner.pos_le [OF assms(3)] by simp
  moreover have "\<not> i_Valid I (di_iter d)" using inner.valid_pos [OF assms(3)] False by simp
  ultimately show ?thesis using assms by (auto simp: FindPrevUserEntry_def dpos_def good_def)
qed

lemma prev_scan_at:
  assumes "pos (di_iter d) i" and "i \<le> p" and "p < n" and "di_saved_key d = uk p" and "\<forall>m. i \<le> m \<and> m < p \<longrightarrow> \<not> Compare (uk m) (uk p) < 0"
  shows "(\<exists>it q. prev_scan I Compare d = Some (True, d\<lparr>di_iter := it\<rparr>) \<and> pos it q \<and> q < p \<and> (\<forall>m. q < m \<and> m < p \<longrightarrow> \<not> Compare (uk m) (uk p) < 0)) \<or>
    (\<exists>it. prev_scan I Compare d = Some (False, d\<lparr>di_iter := it, di_valid := False, di_saved_key := [], di_saved_value := []\<rparr>) \<and> pos it n \<and>
       (\<forall>m<p. \<not> Compare (uk m) (uk p) < 0))"
  using assms
proof (induction i arbitrary: d)
  case 0
  obtain it where it: "i_Prev I (di_iter d) = Some it" "pos it n" using inner.prev_pos [of "di_iter d" 0] "0.prems"(1,3) by (metis gr_zeroI not_less_zero)
  then have "prev_scan I Compare d = Some (False, d\<lparr>di_iter := it, di_valid := False, di_saved_key := [], di_saved_value := []\<rparr>)"
    using inner.valid_pos [OF it(2)] by (subst prev_scan.simps) simp
  then show ?case using it(2) 0 by auto
next
  case (Suc i)
  have i: "i < n" "Suc i < n" using Suc.prems(2,3) by auto
  obtain it where it: "i_Prev I (di_iter d) = Some it" "pos it i" using inner.prev_pos [OF Suc.prems(1) i(2)] by auto
  have k: "i_Valid I it" "i_key I it = Some (fst (items ! i))" using inner.valid_pos [OF it(2)] inner.key_pos [OF it(2) i(1)] i by auto
  show ?case
  proof (cases "Compare (uk i) (uk p) < 0")
    case True
    then have "prev_scan I Compare d = Some (True, d\<lparr>di_iter := it\<rparr>)"
      using it(1) k uk_extract [OF i(1)] Suc.prems(4) by (subst prev_scan.simps) simp
    then show ?thesis using it(2) Suc.prems(2,5) by (metis Suc_le_eq)
  next
    case False
    then have "prev_scan I Compare d = prev_scan I Compare (d\<lparr>di_iter := it\<rparr>)"
      using it(1) k uk_extract [OF i(1)] Suc.prems(4) by (subst prev_scan.simps) simp
    moreover have "\<forall>m. i \<le> m \<and> m < p \<longrightarrow> \<not> Compare (uk m) (uk p) < 0" using False Suc.prems(5) by (metis Suc_leI le_neq_implies_less)
    ultimately show ?thesis using Suc.IH [of "d\<lparr>di_iter := it\<rparr>"] it(2) Suc.prems(2-4) by simp
  qed
qed

section \<open>The contract\<close>

lemma view_length: "length (user_view Compare s items) = length Y"
  by (simp add: user_view_def)

lemma view_nth: "j < length Y \<Longrightarrow> user_view Compare s items ! j = (uk (Y ! j), snd (items ! (Y ! j)))"
  by (simp add: user_view_def)

lemma di_Next_at:
  assumes "dpos d j" and j: "j < length Y"
  shows "\<exists>d'. di_Next I Compare d = Some d' \<and> dpos d' (Suc j)"
proof -
  let ?p = "Y ! j"
  note p = filter_upt_nth [OF j]
  have g: "good d" "di_valid d" using assms unfolding dpos_def by auto
  show ?thesis
  proof (cases "di_direction d")
    case kForward
    then have q: "pos (di_iter d) ?p" using assms unfolding dpos_def by auto
    have "i_Valid I (di_iter d)" "i_key I (di_iter d) = Some (fst (items ! ?p))" using inner.valid_pos [OF q] inner.key_pos [OF q p(1)] p(1) by auto
    then have "di_Next I Compare d = find_next I Compare True (d\<lparr>di_saved_key := uk ?p\<rparr>)"
      using g(2) kForward uk_extract [OF p(1)] by (simp add: di_Next_def FindNextUserEntry_def)
    moreover have "\<exists>d'. find_next I Compare True (d\<lparr>di_saved_key := uk ?p\<rparr>) = Some d' \<and> dpos d' (Suc (cnt ?p))"
      by (rule find_next_from [where i = ?p]) (use g(1) q p kForward in \<open>auto simp: good_def\<close>)
    ultimately show ?thesis using p(3) by simp
  next
    case kReverse
    then have r: "di_saved_key d = uk ?p" "behind d ?p" using assms unfolding dpos_def by auto
    then obtain q where q: "pos (di_iter d) q" "if q = n then \<forall>m<?p. \<not> vis m else q < ?p \<and> (\<forall>m. q < m \<and> m < ?p \<longrightarrow> \<not> vis m)" unfolding behind_def by blast
    obtain it i where it: "(if \<not> i_Valid I (di_iter d) then i_SeekToFirst I (di_iter d) else i_Next I (di_iter d)) = Some it" "pos it i" "i \<le> ?p"
      "\<forall>m. i \<le> m \<and> m < ?p \<longrightarrow> \<not> vis m"
    proof (cases "q = n")
      case True
      then show ?thesis using that inner.first_at [OF inner.alive_pos [OF q(1)]] inner.valid_pos [OF q(1)] q(2) by auto
    next
      case False
      then have "q < n" using inner.pos_le [OF q(1)] by simp
      then show ?thesis using that inner.next_pos [OF q(1)] inner.valid_pos [OF q(1)] q(2) False by (auto simp: Suc_le_eq)
    qed
    have "i_Valid I it" using inner.valid_pos [OF it(2)] it(3) p(1) by simp
    then have "di_Next I Compare d = find_next I Compare True (d\<lparr>di_direction := kForward, di_iter := it\<rparr>)"
      using g(2) kReverse it(1) by (simp add: di_Next_def FindNextUserEntry_def)
    then show ?thesis using find_next_from [of "d\<lparr>di_direction := kForward, di_iter := it\<rparr>" i ?p] g(1) r(1) it p by (simp add: good_def)
  qed
qed

lemma behind_prev:
  assumes "behind d p"
  shows "\<exists>q. pos (di_iter d) q \<and>
    (if q = n \<or> cnt (Suc q) = 0 then length Y else cnt (Suc q) - 1) = (if cnt p = 0 then length Y else cnt p - 1)"
proof -
  obtain q where q: "pos (di_iter d) q" "if q = n then \<forall>m<p. \<not> vis m else q < p \<and> (\<forall>m. q < m \<and> m < p \<longrightarrow> \<not> vis m)"
    using assms unfolding behind_def by blast
  have "q = n \<Longrightarrow> cnt p = 0" using q(2) by (intro cnt_none) simp
  moreover have "q \<noteq> n \<Longrightarrow> cnt p = cnt (Suc q)" using q(2) by (intro cnt_same) (auto simp: shown_def)
  ultimately show ?thesis using q(1) by (intro exI [of _ q]) (cases "q = n", simp_all del: upt_Suc)
qed

lemma di_Prev_at:
  assumes "dpos d j" and j: "j < length Y"
  shows "\<exists>d'. di_Prev I Compare d = Some d' \<and> dpos d' (if j = 0 then length Y else j - 1)"
proof -
  obtain p' where p': "Y ! j = p'" by blast
  note p = filter_upt_nth [OF j, unfolded p']
  have g: "good d" "di_valid d" using assms unfolding dpos_def p' by auto
  show ?thesis
  proof (cases "di_direction d")
    case kReverse
    then have "behind d p'" using assms unfolding dpos_def p' by auto
    from behind_prev [OF this] obtain q where q: "pos (di_iter d) q"
      "(if q = n \<or> cnt (Suc q) = 0 then length Y else cnt (Suc q) - 1) = (if j = 0 then length Y else j - 1)" unfolding p(3) by blast
    show ?thesis using FindPrev_at [OF g(1) kReverse q(1)] g(2) kReverse unfolding q(2) by (simp add: di_Prev_def)
  next
    case kForward
    then have q: "pos (di_iter d) p'" using assms unfolding dpos_def p' by auto
    let ?d = "d\<lparr>di_saved_key := uk p'\<rparr>"
    have hid: "\<not> shown Compare s items m" if "m < p'" "\<not> Compare (uk m) (uk p') < 0" for m
      using uk_mono [of m p'] that p unfolding shown_def by fastforce
    have e: "di_Prev I Compare d = Option.bind (prev_scan I Compare ?d) (\<lambda>(found, d). if found then FindPrevUserEntry I Compare (d\<lparr>di_direction := kReverse\<rparr>) else Some d)"
      using g(2) kForward inner.valid_pos [OF q] inner.key_pos [OF q p(1)] p(1) uk_extract [OF p(1)] by (simp add: di_Prev_def)
    from prev_scan_at [of ?d p' p'] q p(1) consider
      (found) it i where "prev_scan I Compare ?d = Some (True, ?d\<lparr>di_iter := it\<rparr>)" "pos it i" "i < p'" "\<forall>m. i < m \<and> m < p' \<longrightarrow> \<not> Compare (uk m) (uk p') < 0"
      | (front) it where "prev_scan I Compare ?d = Some (False, ?d\<lparr>di_iter := it, di_valid := False, di_saved_key := [], di_saved_value := []\<rparr>)" "pos it n"
        "\<forall>m<p'. \<not> Compare (uk m) (uk p') < 0" by auto
    then show ?thesis
    proof cases
      case found
      have "cnt p' = cnt (Suc i)" using found(3,4) hid by (intro cnt_same) auto
      then have c: "(if i = n \<or> cnt (Suc i) = 0 then length Y else cnt (Suc i) - 1) = (if j = 0 then length Y else j - 1)" using p(1,3) found(3) by simp
      show ?thesis using FindPrev_at [of "?d\<lparr>di_iter := it, di_direction := kReverse\<rparr>" i] g(1) found(1,2) unfolding c e by (simp add: good_def)
    next
      case front
      then have "filter (shown Compare s items) [0..<p'] = []" using hid by (auto simp: filter_empty_conv)
      then have "j = 0" using p(3) by simp
      then show ?thesis using front(1,2) g(1) j unfolding e by (auto simp: dpos_def good_def)
    qed
  qed
qed

lemma Y_below: "i \<le> n \<Longrightarrow> j < cnt i \<Longrightarrow> j < length Y \<and> Y ! j < i"
  and Y_above: "i \<le> n \<Longrightarrow> cnt i \<le> j \<Longrightarrow> j < length Y \<Longrightarrow> i \<le> Y ! j"
proof -
  assume "i \<le> n"
  then have "[0..<n] = [0..<i] @ [i..<n]" by (metis le_add_diff_inverse upt_add_eq_append zero_le)
  then have s: "Y = filter (shown Compare s items) [0..<i] @ filter (shown Compare s items) [i..<n]" by simp
  show "j < length Y \<and> Y ! j < i" if j: "j < cnt i"
    using nth_mem [OF j] j unfolding s nth_append_left [OF j] by auto
  show "i \<le> Y ! j" if j: "cnt i \<le> j" "j < length Y"
  proof -
    have "Y ! j \<in> set (filter (shown Compare s items) [i..<n])" using j unfolding s nth_append_right [OF j(1)] by (intro nth_mem) simp
    then show ?thesis by auto
  qed
qed

text \<open>The first entry of the view from the entry \<open>i\<close> on, where no user key has visible entries on both sides of it.\<close>

lemma FindNext_from:
  assumes "good d" and "pos (di_iter d) i" and "di_direction d = kForward"
    and "\<And>m k. m < i \<Longrightarrow> i \<le> k \<Longrightarrow> k < n \<Longrightarrow> vis m \<Longrightarrow> Compare (uk m) (uk k) \<noteq> 0"
  shows "\<exists>d'. (if i_Valid I (di_iter d) then FindNextUserEntry I Compare False d else Some (d\<lparr>di_valid := False\<rparr>)) = Some d' \<and> dpos d' (cnt i)"
proof (cases "i < n")
  case True
  have "hides False (di_saved_key d) i" using assms(4) unfolding hides_def by blast
  then show ?thesis using find_next_at [OF assms(1,2) True assms(3), of False] inner.valid_pos [OF assms(2)] True assms(3)
    by (simp add: FindNextUserEntry_def)
next
  case False
  then have "i = n" using inner.pos_le [OF assms(2)] by simp
  then show ?thesis using inner.valid_pos [OF assms(2)] assms(1,2) by (auto simp: dpos_def good_def)
qed

lemma di_SeekToFirst_at:
  assumes "good d" and "alive (di_iter d)"
  shows "\<exists>d'. di_SeekToFirst I Compare d = Some d' \<and> dpos d' 0"
proof -
  obtain it where it: "i_SeekToFirst I (di_iter d) = Some it" "pos it 0" using inner.first_at [OF assms(2)] by blast
  show ?thesis using FindNext_from [of "d\<lparr>di_direction := kForward, di_saved_value := [], di_iter := it\<rparr>" 0] it assms(1)
    by (simp add: di_SeekToFirst_def Let_def good_def)
qed

lemma di_SeekToLast_at:
  assumes "good d" and "alive (di_iter d)"
  shows "\<exists>d'. di_SeekToLast I Compare d = Some d' \<and> dpos d' (length Y - 1)"
proof -
  obtain it where it: "i_SeekToLast I (di_iter d) = Some it" "pos it (n - 1)" using inner.last_at [OF assms(2)] by blast
  have "(if n - 1 = n \<or> cnt (Suc (n - 1)) = 0 then length Y else cnt (Suc (n - 1)) - 1) = length Y - 1" by (cases n) auto
  then show ?thesis using FindPrev_at [of "d\<lparr>di_direction := kReverse, di_saved_value := [], di_iter := it\<rparr>" "n - 1"] it assms(1)
    by (simp add: di_SeekToLast_def good_def del: upt_Suc)
qed

lemma di_Seek_at:
  assumes "good d" and "alive (di_iter d)" and t: "dtarget t"
  shows "\<exists>d'. di_Seek I Compare t d = Some d' \<and> dpos d' (rank Compare t (map fst (user_view Compare s items)))"
proof -
  let ?k = "AppendInternalKey [] \<lparr>user_key = t, sequence = s, vtype = kValueTypeForSeek\<rparr>"
  let ?i = "rank (ICompare Compare) ?k (map fst items)" and ?ks = "map fst (user_view Compare s items)"
  have lk: "ilegal ?k" "legal t" using inner.target_legal dtarget_legal t by (auto simp: dtarget_def)
  obtain it where it: "i_Seek I ?k (di_iter d) = Some it" "pos it ?i" using inner.seek_at [OF assms(2)] t unfolding dtarget_def by blast
  have i: "?i \<le> n" using inner.pos_le [OF it(2)] .
  have lo: "Compare (uk m) t < 0" if "m < ?i" "vis m" for m
    using inner.before_rank [OF that(1)] seek_before [of m t] that i by simp
  have hi: "\<not> Compare (uk m) t < 0" if "?i \<le> m" "m < n" for m
    using inner.rank_greater [OF inner.items_sorted _ lk(1), of m] inner.items_legal seek_before [of m t] that by force
  have sep: "Compare (uk m) (uk k) \<noteq> 0" if "m < ?i" "?i \<le> k" "k < n" "vis m" for m k
    using lo [OF that(1,4)] hi [OF that(2,3)] compare_cong(1) [of "uk m" "uk k" t] uk_legal that lk(2) by auto
  have key_at: "?ks ! j = uk (Y ! j)" if "j < length Y" for j using view_nth [OF that] that by (simp add: view_length)
  have "rank Compare t ?ks = cnt ?i"
  proof (rule rank_eqI)
    show "cnt ?i \<le> length ?ks" using Y_below [OF i, of "cnt ?i - 1"] by (cases "cnt ?i") (auto simp: view_length)
    show "\<forall>j<cnt ?i. Compare (?ks ! j) t < 0" using Y_below [OF i] lo key_at filter_upt_nth(2) by (metis shown_def)
    show "\<not> Compare (?ks ! cnt ?i) t < 0" if "cnt ?i < length ?ks"
      using Y_above [OF i le_refl] hi key_at filter_upt_nth(1) that by (simp add: view_length)
  qed
  then show ?thesis using FindNext_from [of "d\<lparr>di_direction := kForward, di_saved_value := [], di_saved_key := ?k, di_iter := it\<rparr>" ?i] it assms(1) sep
    by (simp add: di_Seek_def Let_def good_def)
qed

lemma view_sorted: "sorted_wrt (\<lambda>a b. Compare a b < 0) (map fst (user_view Compare s items))"
  unfolding sorted_wrt_iff_nth_less
proof (intro allI impI)
  fix i j
  assume "i < j" "j < length (map fst (user_view Compare s items))"
  then have ij: "i < length Y" "j < length Y" "i < j" by (simp_all add: view_length)
  have lt: "Y ! i < Y ! j" using sorted_wrt_nth_less [OF sorted_wrt_filter [OF sorted_wrt_upt] ij(3,2)] .
  have "Compare (uk (Y ! i)) (uk (Y ! j)) \<noteq> 0" using filter_upt_nth(2) [OF ij(1)] filter_upt_nth(2) [OF ij(2)] lt unfolding shown_def by blast
  then show "Compare (map fst (user_view Compare s items) ! i) (map fst (user_view Compare s items) ! j) < 0"
    using uk_mono [of "Y ! i" "Y ! j"] lt filter_upt_nth(1) [OF ij(2)] ij by (simp add: view_length view_nth)
qed

lemma dpos_alive: "dpos d j \<Longrightarrow> good d \<and> alive (di_iter d)"
  unfolding dpos_def behind_def using inner.alive_pos by (cases "di_direction d") (auto split: if_splits)

lemma dpos_item:
  assumes "dpos d j" and "j < length Y"
  shows "i_item (db_methods I Compare) d = Some (user_view Compare s items ! j)"
proof -
  have p: "Y ! j < n" using filter_upt_nth(1) [OF assms(2)] .
  show ?thesis using assms inner.key_pos [of "di_iter d" "Y ! j"] inner.value_pos [of "di_iter d" "Y ! j"] p uk_extract [OF p]
    unfolding view_nth [OF assms(2)] i_item_Some dpos_def by (cases "di_direction d") (auto simp: db_methods_def di_key_def di_value_def)
qed

lemma dpos_status:
  assumes "dpos d j"
  shows "di_Status I d = Some OK"
proof -
  obtain i where i: "pos (di_iter d) i" using assms unfolding dpos_def behind_def by (cases "di_direction d") (auto split: if_splits)
  then show ?thesis using assms inner.status_at [OF i] by (simp add: di_Status_def dpos_def good_def)
qed

theorem db_seekable: "seekable legal Compare (db_methods I Compare) (user_view Compare s items) (\<lambda>d. good d \<and> alive (di_iter d)) dpos dtarget"
proof unfold_locales
  fix d j
  show "dpos d j \<Longrightarrow> j \<le> length (user_view Compare s items) \<and> (i_Valid (db_methods I Compare) d \<longleftrightarrow> j < length (user_view Compare s items))"
    unfolding view_length dpos_def by (auto simp: db_methods_def di_Valid_def split: if_splits)
  show "dpos d j \<Longrightarrow> j < length (user_view Compare s items) \<Longrightarrow> i_item (db_methods I Compare) d = Some (user_view Compare s items ! j)"
    using dpos_item by (simp add: view_length)
  show "dpos d j \<Longrightarrow> j < length (user_view Compare s items) \<Longrightarrow> \<exists>d'. i_Next (db_methods I Compare) d = Some d' \<and> dpos d' (j + 1)"
    using di_Next_at by (simp add: view_length db_methods_def)
  show "dpos d j \<Longrightarrow> j < length (user_view Compare s items) \<Longrightarrow>
      \<exists>d'. i_Prev (db_methods I Compare) d = Some d' \<and> dpos d' (if j = 0 then length (user_view Compare s items) else j - 1)"
    using di_Prev_at [of d j] unfolding view_length by (simp add: db_methods_def)
  show "good d \<and> alive (di_iter d) \<Longrightarrow> \<exists>d'. i_SeekToLast (db_methods I Compare) d = Some d' \<and> dpos d' (length (user_view Compare s items) - 1)"
    using di_SeekToLast_at unfolding view_length by (simp add: db_methods_def)
  show "x \<in> set (user_view Compare s items) \<Longrightarrow> legal (fst x)" for x
    using uk_legal by (auto simp: user_view_def)
qed (auto simp: db_methods_def intro: di_SeekToFirst_at di_Seek_at dpos_status view_sorted dtarget_legal dest: dpos_alive)

end

end
