(* ===== verification/Wrapper.thy ===== *)
theory Wrapper
  imports Iterators
begin

text \<open>
  table/iterator_wrapper.h: an iterator that caches \<open>Valid\<close> and \<open>key\<close> of another one, which may be a null pointer. The wrapper meets the
  contract of iterators if the other one does. table/iterator.cc: the empty iterator.
\<close>

record 'i wrapper =
  w_iter :: "'i option"
  w_valid :: bool
  w_key :: slice

text \<open>\<open>Update\<close> after \<open>iter_\<close> has changed to \<open>i\<close>.\<close>

definition w_Update :: "'i iterator \<Rightarrow> 'i \<Rightarrow> 'i wrapper \<Rightarrow> 'i wrapper option" where
  "w_Update I i w =
     (if i_Valid I i then map_option (\<lambda>k. w\<lparr>w_iter := Some i, w_valid := True, w_key := k\<rparr>) (i_key I i)
      else Some (w\<lparr>w_iter := Some i, w_valid := False\<rparr>))"

definition w_Set :: "'i iterator \<Rightarrow> 'i option \<Rightarrow> 'i wrapper \<Rightarrow> 'i wrapper option" where
  "w_Set I iter w = (case iter of None \<Rightarrow> Some (w\<lparr>w_iter := None, w_valid := False\<rparr>) | Some i \<Rightarrow> w_Update I i w)"

definition mk_wrapper :: "'i iterator \<Rightarrow> 'i option \<Rightarrow> 'i wrapper option" where
  "mk_wrapper I iter = w_Set I iter \<lparr>w_iter = None, w_valid = False, w_key = []\<rparr>"

text \<open>The methods that move: \<open>assert(iter_)\<close>, the method \<open>f\<close> and \<open>Update\<close>.\<close>

definition w_move :: "'i iterator \<Rightarrow> ('i \<Rightarrow> 'i option) \<Rightarrow> 'i wrapper \<Rightarrow> 'i wrapper option" where
  "w_move I f w = do { i \<leftarrow> w_iter w; i \<leftarrow> f i; w_Update I i w }"

definition w_methods :: "'i iterator \<Rightarrow> 'i wrapper iterator" where
  "w_methods I =
     \<lparr>i_Valid = w_valid, i_SeekToFirst = w_move I (i_SeekToFirst I), i_SeekToLast = w_move I (i_SeekToLast I),
      i_Seek = (\<lambda>k. w_move I (i_Seek I k)), i_Next = w_move I (i_Next I), i_Prev = w_move I (i_Prev I),
      i_key = (\<lambda>w. if w_valid w then Some (w_key w) else None),
      i_value = (\<lambda>w. if w_valid w then Option.bind (w_iter w) (i_value I) else None),
      i_status = (\<lambda>w. Option.bind (w_iter w) (i_status I))\<rparr>"

text \<open>The state of the empty iterator is its status.\<close>

definition empty_methods :: "status iterator" where
  "empty_methods =
     \<lparr>i_Valid = (\<lambda>_. False), i_SeekToFirst = Some, i_SeekToLast = Some, i_Seek = (\<lambda>_. Some), i_Next = (\<lambda>_. None), i_Prev = (\<lambda>_. None),
      i_key = (\<lambda>_. None), i_value = (\<lambda>_. None), i_status = Some\<rparr>"

section \<open>The contract\<close>

context seekable
begin

definition w_alive :: "'i wrapper \<Rightarrow> bool" where
  "w_alive w \<longleftrightarrow> (\<exists>i. w_iter w = Some i \<and> alive i)"

definition w_pos :: "'i wrapper \<Rightarrow> nat \<Rightarrow> bool" where
  "w_pos w j \<longleftrightarrow> (\<exists>i. w_iter w = Some i \<and> pos i j \<and> w_valid w = i_Valid I i \<and> (w_valid w \<longrightarrow> i_key I i = Some (w_key w)))"

lemma w_Update_pos: "pos i j \<Longrightarrow> \<exists>w'. w_Update I i w = Some w' \<and> w_pos w' j"
  using key_pos [of i j] valid_pos [of i j] by (auto simp: w_Update_def w_pos_def)

lemma w_Set_pos: "pos i j \<Longrightarrow> \<exists>w'. w_Set I (Some i) w = Some w' \<and> w_pos w' j"
  using w_Update_pos by (simp add: w_Set_def)

lemma w_move_pos: "w_iter w = Some i \<Longrightarrow> \<exists>i'. f i = Some i' \<and> pos i' j \<Longrightarrow> \<exists>w'. w_move I f w = Some w' \<and> w_pos w' j"
  using w_Update_pos by (auto simp: w_move_def)

lemma w_pos_alive: "w_pos w j \<Longrightarrow> w_alive w"
  using alive_pos by (auto simp: w_pos_def w_alive_def)

lemma w_cursor: "cursor items w_pos (i_Valid (w_methods I)) (i_item (w_methods I)) (i_Next (w_methods I)) (i_Prev (w_methods I))"
proof
  fix w j
  assume "w_pos w j"
  then obtain i where i: "w_iter w = Some i" "pos i j" "w_valid w = i_Valid I i" "w_valid w \<Longrightarrow> i_key I i = Some (w_key w)" unfolding w_pos_def by blast
  show "j \<le> length items \<and> (i_Valid (w_methods I) w \<longleftrightarrow> j < length items)" using valid_pos [OF i(2)] pos_le [OF i(2)] i(3) by (simp add: w_methods_def)
  assume j: "j < length items"
  show "i_item (w_methods I) w = Some (items ! j)"
    using i key_pos [OF i(2) j] value_pos [OF i(2) j] valid_pos [OF i(2)] j
    by (subst prod.collapse [symmetric], subst i_item_Some) (simp add: w_methods_def)
  show "\<exists>w'. i_Next (w_methods I) w = Some w' \<and> w_pos w' (j + 1)" using w_move_pos [OF i(1), of "i_Next I"] next_pos [OF i(2) j] by (simp add: w_methods_def)
  show "\<exists>w'. i_Prev (w_methods I) w = Some w' \<and> w_pos w' (if j = 0 then length items else j - 1)"
    using w_move_pos [OF i(1), of "i_Prev I"] prev_pos [OF i(2) j] by (cases "j = 0") (simp_all add: w_methods_def)
qed

lemma w_seekable: "seekable legal Compare (w_methods I) items w_alive w_pos target"
proof (intro seekable.intro seekable_axioms.intro three_way_axioms w_cursor)
  fix w k
  assume "w_alive w"
  then obtain i where i: "w_iter w = Some i" "alive i" unfolding w_alive_def by blast
  show "\<exists>w'. i_SeekToFirst (w_methods I) w = Some w' \<and> w_pos w' 0" using w_move_pos [OF i(1), of "i_SeekToFirst I"] first_at [OF i(2)] by (simp add: w_methods_def)
  show "\<exists>w'. i_SeekToLast (w_methods I) w = Some w' \<and> w_pos w' (length items - 1)" using w_move_pos [OF i(1), of "i_SeekToLast I"] last_at [OF i(2)] by (simp add: w_methods_def)
  assume "target k"
  then show "\<exists>w'. i_Seek (w_methods I) k w = Some w' \<and> w_pos w' (rank Compare k (map fst items))"
    using w_move_pos [OF i(1), of "i_Seek I k"] seek_at [OF i(2)] by (simp add: w_methods_def)
qed (use w_pos_alive target_legal items_sorted items_legal status_at in \<open>auto simp: w_methods_def w_pos_def\<close>)

end

lemma empty_seekable: "three_way legal Compare \<Longrightarrow> seekable legal Compare empty_methods [] (\<lambda>s. s = OK) (\<lambda>s i. s = OK \<and> i = 0) legal"
  by (intro seekable.intro seekable_axioms.intro cursor.intro) (auto simp: empty_methods_def rank_def)

interpretation empty_iter: seekable "\<lambda>_. True" BytewiseCompare empty_methods "[]" "\<lambda>s. s = OK" "\<lambda>s i. s = OK \<and> i = 0" "\<lambda>_. True"
  by (rule empty_seekable [OF bytewise.three_way_axioms])

end
