(* ===== verification/Merger.thy ===== *)
theory Merger
  imports Wrapper "HOL-Library.Multiset"
begin

text \<open>
  table/merger.cc: the iterator that merges its children. Each child has its own methods in \<open>Is\<close>, as the children are objects of different classes;
  \<open>current_\<close> is the index of a child. The main result is that the merging iterator meets the contract of iterators over the sorted sequence of
  all entries of its children.
\<close>

record 'i merging =
  mg_children :: "'i wrapper list"
  mg_current :: "nat option"
  mg_direction :: Direction

text \<open>A loop over all children that changes each of them.\<close>

fun each :: "(nat \<Rightarrow> 'w \<Rightarrow> 'w option) \<Rightarrow> nat \<Rightarrow> 'w list \<Rightarrow> 'w list option" where
  "each f i [] = Some []"
| "each f i (c # cs) = do { c \<leftarrow> f i c; cs \<leftarrow> each f (Suc i) cs; Some (c # cs) }"

fun wrap_all :: "'i iterator list \<Rightarrow> 'i list \<Rightarrow> 'i wrapper list option" where
  "wrap_all (I # Is) (c # cs) = do { w \<leftarrow> mk_wrapper I (Some c); ws \<leftarrow> wrap_all Is cs; Some (w # ws) }"
| "wrap_all _ _ = Some []"

definition mk_MergingIterator :: "'i iterator list \<Rightarrow> 'i list \<Rightarrow> 'i merging option" where
  "mk_MergingIterator Is children = map_option (\<lambda>ws. \<lparr>mg_children = ws, mg_current = None, mg_direction = kForward\<rparr>) (wrap_all Is children)"

definition mg_Valid :: "'i merging \<Rightarrow> bool" where "mg_Valid m \<longleftrightarrow> mg_current m \<noteq> None"

definition FindSmallest :: "(slice \<Rightarrow> slice \<Rightarrow> int) \<Rightarrow> 'i merging \<Rightarrow> 'i merging" where
  "FindSmallest cmp m =
     (let cs = mg_children m
      in m\<lparr>mg_current := fold (\<lambda>i smallest.
           if w_valid (cs ! i) then
             (case smallest of
                None \<Rightarrow> Some i
              | Some b \<Rightarrow> if cmp (w_key (cs ! i)) (w_key (cs ! b)) < 0 then Some i else smallest)
           else smallest) [0..<length cs] None\<rparr>)"

definition FindLargest :: "(slice \<Rightarrow> slice \<Rightarrow> int) \<Rightarrow> 'i merging \<Rightarrow> 'i merging" where
  "FindLargest cmp m =
     (let cs = mg_children m
      in m\<lparr>mg_current := fold (\<lambda>i largest.
           if w_valid (cs ! i) then
             (case largest of
                None \<Rightarrow> Some i
              | Some b \<Rightarrow> if cmp (w_key (cs ! i)) (w_key (cs ! b)) > 0 then Some i else largest)
           else largest) (rev [0..<length cs]) None\<rparr>)"

definition mg_SeekToFirst :: "'i iterator list \<Rightarrow> (slice \<Rightarrow> slice \<Rightarrow> int) \<Rightarrow> 'i merging \<Rightarrow> 'i merging option" where
  "mg_SeekToFirst Is cmp m =
     map_option (\<lambda>cs. (FindSmallest cmp (m\<lparr>mg_children := cs\<rparr>))\<lparr>mg_direction := kForward\<rparr>)
       (each (\<lambda>i. i_SeekToFirst (w_methods (Is ! i))) 0 (mg_children m))"

definition mg_SeekToLast :: "'i iterator list \<Rightarrow> (slice \<Rightarrow> slice \<Rightarrow> int) \<Rightarrow> 'i merging \<Rightarrow> 'i merging option" where
  "mg_SeekToLast Is cmp m =
     map_option (\<lambda>cs. (FindLargest cmp (m\<lparr>mg_children := cs\<rparr>))\<lparr>mg_direction := kReverse\<rparr>)
       (each (\<lambda>i. i_SeekToLast (w_methods (Is ! i))) 0 (mg_children m))"

definition mg_Seek :: "'i iterator list \<Rightarrow> (slice \<Rightarrow> slice \<Rightarrow> int) \<Rightarrow> slice \<Rightarrow> 'i merging \<Rightarrow> 'i merging option" where
  "mg_Seek Is cmp target m =
     map_option (\<lambda>cs. (FindSmallest cmp (m\<lparr>mg_children := cs\<rparr>))\<lparr>mg_direction := kForward\<rparr>)
       (each (\<lambda>i. i_Seek (w_methods (Is ! i)) target) 0 (mg_children m))"

definition mg_key :: "'i iterator list \<Rightarrow> 'i merging \<Rightarrow> slice option" where
  "mg_key Is m = do { c \<leftarrow> mg_current m; i_key (w_methods (Is ! c)) (mg_children m ! c) }"

definition mg_value :: "'i iterator list \<Rightarrow> 'i merging \<Rightarrow> slice option" where
  "mg_value Is m = do { c \<leftarrow> mg_current m; i_value (w_methods (Is ! c)) (mg_children m ! c) }"

text \<open>The bodies of the loops of \<open>Next\<close> and \<open>Prev\<close> that position the child \<open>i\<close> when the direction changes.\<close>

definition turn_forward ::
  "'i iterator list \<Rightarrow> (slice \<Rightarrow> slice \<Rightarrow> int) \<Rightarrow> nat \<Rightarrow> slice option \<Rightarrow> nat \<Rightarrow> 'i wrapper \<Rightarrow> 'i wrapper option" where
  "turn_forward Is cmp current k i child =
     (if i \<noteq> current then
        do { k \<leftarrow> k;
             child \<leftarrow> i_Seek (w_methods (Is ! i)) k child;
             if i_Valid (w_methods (Is ! i)) child then
               do { k' \<leftarrow> i_key (w_methods (Is ! i)) child;
                    if cmp k k' = 0 then i_Next (w_methods (Is ! i)) child else Some child }
             else Some child }
      else Some child)"

definition turn_back :: "'i iterator list \<Rightarrow> nat \<Rightarrow> slice option \<Rightarrow> nat \<Rightarrow> 'i wrapper \<Rightarrow> 'i wrapper option" where
  "turn_back Is current k i child =
     (if i \<noteq> current then
        do { k \<leftarrow> k;
             child \<leftarrow> i_Seek (w_methods (Is ! i)) k child;
             if i_Valid (w_methods (Is ! i)) child then i_Prev (w_methods (Is ! i)) child else i_SeekToLast (w_methods (Is ! i)) child }
      else Some child)"

definition mg_Next :: "'i iterator list \<Rightarrow> (slice \<Rightarrow> slice \<Rightarrow> int) \<Rightarrow> 'i merging \<Rightarrow> 'i merging option" where
  "mg_Next Is cmp m =
     do { c \<leftarrow> mg_current m;
          m \<leftarrow> (if mg_direction m \<noteq> kForward then
                 map_option (\<lambda>cs. m\<lparr>mg_children := cs, mg_direction := kForward\<rparr>) (each (turn_forward Is cmp c (mg_key Is m)) 0 (mg_children m))
               else Some m);
          w \<leftarrow> i_Next (w_methods (Is ! c)) (mg_children m ! c);
          Some (FindSmallest cmp (m\<lparr>mg_children := (mg_children m)[c := w]\<rparr>)) }"

definition mg_Prev :: "'i iterator list \<Rightarrow> (slice \<Rightarrow> slice \<Rightarrow> int) \<Rightarrow> 'i merging \<Rightarrow> 'i merging option" where
  "mg_Prev Is cmp m =
     do { c \<leftarrow> mg_current m;
          m \<leftarrow> (if mg_direction m \<noteq> kReverse then
                 map_option (\<lambda>cs. m\<lparr>mg_children := cs, mg_direction := kReverse\<rparr>) (each (turn_back Is c (mg_key Is m)) 0 (mg_children m))
               else Some m);
          w \<leftarrow> i_Prev (w_methods (Is ! c)) (mg_children m ! c);
          Some (FindLargest cmp (m\<lparr>mg_children := (mg_children m)[c := w]\<rparr>)) }"

text \<open>The loop of \<open>status\<close>: the first status that is not ok, else the last one.\<close>

fun first_error :: "'i iterator list \<Rightarrow> 'i wrapper list \<Rightarrow> status \<Rightarrow> status option" where
  "first_error (I # Is) (c # cs) s = do { s \<leftarrow> i_status (w_methods I) c; if status_ok s then first_error Is cs s else Some s }"
| "first_error _ _ s = Some s"

definition mg_status :: "'i iterator list \<Rightarrow> 'i merging \<Rightarrow> status option" where
  "mg_status Is m = first_error Is (mg_children m) OK"

definition merging_methods :: "'i iterator list \<Rightarrow> (slice \<Rightarrow> slice \<Rightarrow> int) \<Rightarrow> 'i merging iterator" where
  "merging_methods Is cmp =
     \<lparr>i_Valid = mg_Valid, i_SeekToFirst = mg_SeekToFirst Is cmp, i_SeekToLast = mg_SeekToLast Is cmp, i_Seek = mg_Seek Is cmp,
      i_Next = mg_Next Is cmp, i_Prev = mg_Prev Is cmp, i_key = mg_key Is, i_value = mg_value Is, i_status = mg_status Is\<rparr>"

text \<open>\<open>NewMergingIterator(cmp, list, n)\<close>.\<close>

datatype 'i new_merging = Merge_None status | Merge_One 'i | Merge_Many "'i merging"

definition NewMergingIterator :: "'i iterator list \<Rightarrow> 'i list \<Rightarrow> 'i new_merging option" where
  "NewMergingIterator Is list =
     (case list of [] \<Rightarrow> Some (Merge_None OK) | [c] \<Rightarrow> Some (Merge_One c) | _ \<Rightarrow> map_option Merge_Many (mk_MergingIterator Is list))"

section \<open>Loops over the children\<close>

lemma each_ok:
  assumes "\<And>i. i < length cs \<Longrightarrow> \<exists>c. f (k + i) (cs ! i) = Some c \<and> Q (k + i) c"
  shows "\<exists>cs'. each f k cs = Some cs' \<and> length cs' = length cs \<and> (\<forall>i<length cs. Q (k + i) (cs' ! i))"
  using assms
proof (induction cs arbitrary: k)
  case (Cons c cs)
  obtain c' where c': "f k c = Some c'" "Q k c'" using Cons.prems [of 0] by auto
  obtain cs' where cs': "each f (Suc k) cs = Some cs'" "length cs' = length cs" "\<forall>i<length cs. Q (Suc k + i) (cs' ! i)"
    using Cons.IH [of "Suc k"] Cons.prems [of "Suc i" for i] by auto
  have "\<forall>i<length (c # cs). Q (k + i) ((c' # cs') ! i)" using c'(2) cs'(3) by (auto simp: less_Suc_eq_0_disj)
  then show ?case using c' cs' by simp
qed simp

text \<open>The loops that look for a best child: \<open>better i b\<close> is the test whether \<open>i\<close> replaces \<open>b\<close>.\<close>

lemma fold_best:
  assumes "set is \<subseteq> S" and irr: "\<And>i. i \<in> S \<Longrightarrow> valid i \<Longrightarrow> \<not> better i i"
    and mono: "\<And>i j k. i \<in> S \<Longrightarrow> j \<in> S \<Longrightarrow> k \<in> S \<Longrightarrow> valid i \<Longrightarrow> valid j \<Longrightarrow> valid k \<Longrightarrow> better i j \<Longrightarrow> \<not> better k j \<Longrightarrow> \<not> better k i"
  shows "case fold (\<lambda>i best. if valid i then (case best of None \<Rightarrow> Some i | Some b \<Rightarrow> if better i b then Some i else best) else best) is None of
    None \<Rightarrow> \<forall>i\<in>set is. \<not> valid i
  | Some b \<Rightarrow> b \<in> set is \<and> valid b \<and> (\<forall>i\<in>set is. valid i \<longrightarrow> \<not> better i b)"
  using assms(1)
proof (induction "is" rule: rev_induct)
  case (snoc i "is")
  have S: "i \<in> S" "set is \<subseteq> S" using snoc.prems by auto
  show ?case
  proof (cases "fold (\<lambda>i best. if valid i then (case best of None \<Rightarrow> Some i | Some b \<Rightarrow> if better i b then Some i else best) else best) is None")
    case None
    then show ?thesis using snoc.IH [OF S(2)] irr [OF S(1)] by auto
  next
    case (Some b)
    then have b: "b \<in> set is" "valid b" "\<forall>i\<in>set is. valid i \<longrightarrow> \<not> better i b" using snoc.IH [OF S(2)] by auto
    have "\<forall>k\<in>set is. valid k \<longrightarrow> \<not> better k i" if "valid i" "better i b" using mono [of i b] b S that by blast
    then show ?thesis using Some b irr [OF S(1)] by (cases "valid i"; cases "better i b") auto
  qed
qed simp

end
