(* ===== verification/MergerCorrect.thy ===== *)
theory MergerCorrect
  imports Merger
begin

text \<open>Correctness of the merging iterator of table/merger.cc.\<close>

lemma strict_sorted_unique:
  assumes "sorted_wrt P xs" and "sorted_wrt P ys" and "set xs = set ys"
    and asym: "\<And>x y. x \<in> set xs \<Longrightarrow> y \<in> set xs \<Longrightarrow> P x y \<Longrightarrow> \<not> P y x"
  shows "xs = ys"
  using assms
proof (induction xs arbitrary: ys)
  case (Cons x xs)
  obtain y ys' where ys: "ys = y # ys'" using Cons.prems(3) by (cases ys) auto
  have irr: "\<not> P x x" "\<not> P y y" using Cons.prems(4) [of x x] Cons.prems(4) [of y y] Cons.prems(3) unfolding ys by auto
  have xy: "x = y"
  proof (rule ccontr)
    assume ne: "x \<noteq> y"
    then have "y \<in> set xs" "x \<in> set ys'" using Cons.prems(3) unfolding ys by auto
    then have "P x y" "P y x" using Cons.prems(1,2) unfolding ys by auto
    then show False using Cons.prems(4) [of x y] \<open>y \<in> set xs\<close> by simp
  qed
  have "x \<notin> set xs" "y \<notin> set ys'" using irr Cons.prems(1,2) unfolding ys by auto
  then have s: "set xs = set ys'" using Cons.prems(3) xy unfolding ys by auto
  have "xs = ys'"
  proof (rule Cons.IH [OF _ _ s])
    show "sorted_wrt P xs" "sorted_wrt P ys'" using Cons.prems(1,2) unfolding ys by simp_all
    show "\<not> P b a" if "a \<in> set xs" "b \<in> set xs" "P a b" for a b using Cons.prems(4) [of a b] that by simp
  qed
  then show ?case using xy ys by simp
qed simp

lemma distinct_concat_nth:
  "distinct (concat xss) \<Longrightarrow> i < length xss \<Longrightarrow> j < length xss \<Longrightarrow> x \<in> set (xss ! i) \<Longrightarrow> x \<in> set (xss ! j) \<Longrightarrow> i = j"
proof (induction xss arbitrary: i j)
  case (Cons xs xss)
  have d: "x \<notin> set xs" if "k < length xss" "x \<in> set (xss ! k)" for k using Cons.prems(1) that nth_mem [of k xss] by (auto simp: disjoint_iff)
  then show ?case using Cons by (cases i; cases j) auto
qed simp

locale merge = three_way legal Compare
  for legal :: "slice \<Rightarrow> bool" and Compare :: "slice \<Rightarrow> slice \<Rightarrow> int" +
  fixes Is :: "'i iterator list"
    and xss :: "(slice \<times> slice) list list"
    and alive :: "nat \<Rightarrow> 'i \<Rightarrow> bool"
    and pos :: "nat \<Rightarrow> 'i \<Rightarrow> nat \<Rightarrow> bool"
    and target :: "slice \<Rightarrow> bool"
    and items :: "(slice \<times> slice) list"
  assumes child: "i < length xss \<Longrightarrow> seekable legal Compare (Is ! i) (xss ! i) (alive i) (pos i) target"
    and methods: "length Is = length xss"
    and merged: "mset items = mset (concat xss)"
    and sorted: "sorted_wrt (\<lambda>a b. Compare a b < 0) (map fst items)"
    and item_target: "x \<in> set items \<Longrightarrow> target (fst x)"
    and targets: "target k \<Longrightarrow> legal k"
begin

abbreviation n where "n \<equiv> length xss"
abbreviation N where "N \<equiv> length items"

definition wpos :: "nat \<Rightarrow> 'i wrapper \<Rightarrow> nat \<Rightarrow> bool" where
  "wpos i = seekable.w_pos (Is ! i) (pos i)"

definition walive :: "nat \<Rightarrow> 'i wrapper \<Rightarrow> bool" where
  "walive i = seekable.w_alive (alive i)"

lemma wrapped: "i < n \<Longrightarrow> seekable legal Compare (w_methods (Is ! i)) (xss ! i) (walive i) (wpos i) target"
  unfolding wpos_def walive_def using child by (rule seekable.w_seekable)

lemmas child_valid = seekable.valid_pos [OF wrapped] and child_key = seekable.key_pos [OF wrapped] and child_value = seekable.value_pos [OF wrapped]
  and child_next = seekable.next_pos [OF wrapped] and child_prev = seekable.prev_pos [OF wrapped] and child_seek = seekable.seek_at [OF wrapped]
  and child_first = seekable.first_at [OF wrapped] and child_final = seekable.last_at [OF wrapped] and child_alive = seekable.alive_pos [OF wrapped]
  and child_status = seekable.status_at [OF wrapped]

lemma item_legal: "x \<in> set items \<Longrightarrow> legal (fst x)"
  using item_target targets by blast

lemma dist: "distinct items" "distinct (concat xss)"
proof -
  have "sorted_wrt (\<lambda>a b. a \<noteq> b) (map fst items)"
    by (rule sorted_wrt_mono_rel [OF _ sorted]) (use item_legal in \<open>auto simp: compare_refl\<close>)
  then have "distinct (map fst items)" by (simp add: distinct_conv_nth sorted_wrt_iff_nth_less) (metis linorder_neqE_nat)
  then show "distinct items" by (simp add: distinct_map)
  then show "distinct (concat xss)" using merged by (metis distinct_count_atmost_1 set_mset_mset mset_eq_setD)
qed

lemma item_set: "set items = (\<Union>xs\<in>set xss. set xs)"
  using mset_eq_setD [OF merged] by simp

lemma owner: "x \<in> set items \<Longrightarrow> \<exists>i<n. x \<in> set (xss ! i)"
  unfolding item_set by (metis UN_E in_set_conv_nth)

lemma owner_unique: "i < n \<Longrightarrow> j < n \<Longrightarrow> x \<in> set (xss ! i) \<Longrightarrow> x \<in> set (xss ! j) \<Longrightarrow> i = j"
  using distinct_concat_nth [OF dist(2)] by blast

lemma sublist: "i < n \<Longrightarrow> xss ! i = filter (\<lambda>x. x \<in> set (xss ! i)) items"
proof (rule strict_sorted_unique [where P = "\<lambda>x y. Compare (fst x) (fst y) < 0"])
  assume i: "i < n"
  then have sub: "set (xss ! i) \<subseteq> set items" unfolding item_set using nth_mem by blast
  show "sorted_wrt (\<lambda>x y. Compare (fst x) (fst y) < 0) (xss ! i)" using seekable.items_sorted [OF child [OF i]] by (simp add: sorted_wrt_map)
  show "sorted_wrt (\<lambda>x y. Compare (fst x) (fst y) < 0) (filter (\<lambda>x. x \<in> set (xss ! i)) items)"
    using sorted by (intro sorted_wrt_filter) (simp add: sorted_wrt_map)
  show "set (xss ! i) = set (filter (\<lambda>x. x \<in> set (xss ! i)) items)" using sub by auto
  show "\<not> Compare (fst y) (fst x) < 0" if "x \<in> set (xss ! i)" "y \<in> set (xss ! i)" "Compare (fst x) (fst y) < 0" for x y
    using compare_flip [of "fst y" "fst x"] item_legal [of x] item_legal [of y] subsetD [OF sub] that by auto
qed

text \<open>The number of entries of the child \<open>i\<close> among the first \<open>j\<close> entries of all.\<close>

definition cut :: "nat \<Rightarrow> nat \<Rightarrow> nat" where
  "cut j i = length (filter (\<lambda>x. x \<in> set (xss ! i)) (take j items))"

lemma child_split: "i < n \<Longrightarrow> xss ! i = filter (\<lambda>x. x \<in> set (xss ! i)) (take j items) @ filter (\<lambda>x. x \<in> set (xss ! i)) (drop j items)"
  using sublist [of i] by (metis append_take_drop_id filter_append)

lemma cut_ends: "i < n \<Longrightarrow> cut 0 i = 0" "i < n \<Longrightarrow> cut N i = length (xss ! i)"
  using sublist [of i] by (simp_all add: cut_def)

lemma cut_le: "i < n \<Longrightarrow> cut j i \<le> length (xss ! i)"
  using arg_cong [OF child_split [of i j], of length] by (simp add: cut_def)

lemma cut_Suc: "j < N \<Longrightarrow> cut (Suc j) i = (if items ! j \<in> set (xss ! i) then Suc (cut j i) else cut j i)"
  by (simp add: cut_def take_Suc_conv_app_nth)

lemma nth_below: "i < n \<Longrightarrow> l < cut j i \<Longrightarrow> xss ! i ! l \<in> set (take j items)"
proof -
  assume i: "i < n" and l: "l < cut j i"
  have "xss ! i ! l = filter (\<lambda>x. x \<in> set (xss ! i)) (take j items) ! l"
    using l by (subst child_split [OF i, of j]) (simp add: cut_def nth_append)
  then show ?thesis using nth_mem [OF l [unfolded cut_def]] by simp
qed

lemma nth_cut_owner:
  assumes "i < n" and "j < N" and "items ! j \<in> set (xss ! i)"
  shows "cut j i < length (xss ! i)" and "xss ! i ! cut j i = items ! j"
proof -
  have "filter (\<lambda>x. x \<in> set (xss ! i)) (drop j items) = items ! j # filter (\<lambda>x. x \<in> set (xss ! i)) (drop (Suc j) items)"
    using Cons_nth_drop_Suc [OF assms(2)] assms(3) by (metis filter.simps(2))
  then have e: "xss ! i = filter (\<lambda>x. x \<in> set (xss ! i)) (take j items) @ items ! j # filter (\<lambda>x. x \<in> set (xss ! i)) (drop (Suc j) items)"
    using child_split [OF assms(1), of j] by simp
  show "cut j i < length (xss ! i)" using arg_cong [OF e, of length] by (simp add: cut_def)
  show "xss ! i ! cut j i = items ! j" using arg_cong [OF e, of "\<lambda>xs. xs ! cut j i"] by (simp add: cut_def)
qed

lemma nth_from: "i < n \<Longrightarrow> cut j i \<le> l \<Longrightarrow> l < length (xss ! i) \<Longrightarrow> xss ! i ! l \<in> set (drop j items)"
proof -
  assume i: "i < n" and l: "cut j i \<le> l" "l < length (xss ! i)"
  have e: "xss ! i ! l = filter (\<lambda>x. x \<in> set (xss ! i)) (drop j items) ! (l - cut j i)"
    using l(1) by (subst child_split [OF i, of j]) (simp add: cut_def nth_append)
  have "l - cut j i < length (filter (\<lambda>x. x \<in> set (xss ! i)) (drop j items))"
    using l arg_cong [OF child_split [OF i, of j], of length] by (simp add: cut_def)
  from nth_mem [OF this] show ?thesis using e by simp
qed

lemma item_order: "a < b \<Longrightarrow> b < N \<Longrightarrow> Compare (fst (items ! a)) (fst (items ! b)) < 0"
  using sorted_wrt_nth_less [OF sorted, of a b] by simp

lemma in_drop: "x \<in> set (drop j items) \<Longrightarrow> \<exists>p. p < N \<and> j \<le> p \<and> x = items ! p"
proof -
  assume "x \<in> set (drop j items)"
  then obtain l where "l < N - j" "x = items ! (j + l)" by (auto simp: in_set_conv_nth)
  then show ?thesis by (intro exI [of _ "j + l"]) auto
qed

lemma drop_key: "x \<in> set (drop j items) \<Longrightarrow> x = items ! j \<or> Compare (fst (items ! j)) (fst x) < 0"
proof -
  assume "x \<in> set (drop j items)"
  then obtain l where "l < N" "j \<le> l" "x = items ! l" using in_drop by blast
  then show ?thesis using item_order [of j l] by (cases "l = j") auto
qed

lemma take_key: "x \<in> set (take (Suc j) items) \<Longrightarrow> j < N \<Longrightarrow> x = items ! j \<or> Compare (fst x) (fst (items ! j)) < 0"
proof -
  assume "x \<in> set (take (Suc j) items)" "j < N"
  then obtain l where "l < Suc j" "x = items ! l" by (auto simp: in_set_conv_nth)
  then show ?thesis using item_order [of l j] \<open>j < N\<close> by (cases "l = j") auto
qed

text \<open>A rank among all entries gives the ranks in the children.\<close>

lemma rank_cut:
  assumes i: "i < n" and t: "target t"
  shows "rank Compare t (map fst (xss ! i)) = cut (rank Compare t (map fst items)) i"
proof (rule rank_eqI)
  let ?r = "rank Compare t (map fst items)"
  show "cut ?r i \<le> length (map fst (xss ! i))" using cut_le [OF i] by simp
  show "\<forall>l<cut ?r i. Compare (map fst (xss ! i) ! l) t < 0"
  proof (intro allI impI)
    fix l
    assume l: "l < cut ?r i"
    then obtain p where "p < ?r" "p < N" "xss ! i ! l = items ! p" using nth_below [OF i l] by (auto simp: in_set_conv_nth)
    then show "Compare (map fst (xss ! i) ! l) t < 0" using before_rank [of p t "map fst items"] l cut_le [OF i, of ?r] by simp
  qed
  assume c: "cut ?r i < length (map fst (xss ! i))"
  then obtain p where p: "p < N" "?r \<le> p" "xss ! i ! cut ?r i = items ! p" using in_drop [OF nth_from [OF i le_refl, of ?r]] by auto
  then have "\<not> Compare (fst (items ! p)) t < 0" using rank_greater [OF sorted _ targets [OF t], of p] item_legal by auto
  then show "\<not> Compare (map fst (xss ! i) ! cut ?r i) t < 0" using p(3) c by simp
qed

lemma rank_item: "j < N \<Longrightarrow> rank Compare (fst (items ! j)) (map fst items) = j"
  using rank_nth [OF sorted, of j] item_legal by auto

section \<open>The state\<close>

definition back_of :: "nat \<Rightarrow> nat \<Rightarrow> nat" where
  "back_of j i = (if cut j i = 0 then length (xss ! i) else cut j i - 1)"

definition malive :: "'i merging \<Rightarrow> bool" where
  "malive m \<longleftrightarrow> length (mg_children m) = n \<and> (\<forall>i<n. walive i (mg_children m ! i))"

definition mpos :: "'i merging \<Rightarrow> nat \<Rightarrow> bool" where
  "mpos m j \<longleftrightarrow> length (mg_children m) = n \<and>
     (if j < N then
        \<exists>c<n. items ! j \<in> set (xss ! c) \<and> mg_current m = Some c \<and> wpos c (mg_children m ! c) (cut j c) \<and>
          (\<forall>i<n. i \<noteq> c \<longrightarrow> wpos i (mg_children m ! i) (case mg_direction m of kForward \<Rightarrow> cut j i | kReverse \<Rightarrow> back_of j i))
      else j = N \<and> mg_current m = None \<and> (\<forall>i<n. \<exists>l. wpos i (mg_children m ! i) l))"

lemma mpos_alive: "mpos m j \<Longrightarrow> malive m"
proof -
  assume m: "mpos m j"
  have "\<exists>l. wpos i (mg_children m ! i) l" if "i < n" for i
  proof (cases "j < N")
    case True
    then obtain c where "wpos c (mg_children m ! c) (cut j c)"
      "\<forall>i<n. i \<noteq> c \<longrightarrow> wpos i (mg_children m ! i) (case mg_direction m of kForward \<Rightarrow> cut j i | kReverse \<Rightarrow> back_of j i)" using m unfolding mpos_def by auto
    then show ?thesis using that by (cases "i = c") blast+
  qed (use m that in \<open>auto simp: mpos_def\<close>)
  then show ?thesis using m child_alive unfolding malive_def mpos_def by blast
qed

lemma w_at:
  assumes "wpos i w l" and "i < n"
  shows "w_valid w \<longleftrightarrow> l < length (xss ! i)" and "l < length (xss ! i) \<Longrightarrow> w_key w = fst (xss ! i ! l)"
  using child_valid [OF assms(2,1)] child_key [OF assms(2,1)] by (auto simp: w_methods_def split: if_splits)

lemma find_direction:
  "(FindSmallest cmp m)\<lparr>mg_direction := d\<rparr> = FindSmallest cmp (m\<lparr>mg_direction := d\<rparr>)"
  "(FindLargest cmp m)\<lparr>mg_direction := d\<rparr> = FindLargest cmp (m\<lparr>mg_direction := d\<rparr>)"
  by (simp_all add: FindSmallest_def FindLargest_def Let_def)

lemma merging_cur: "mg_current (m\<lparr>mg_current := c\<rparr>) = c"
  by simp

text \<open>All children are at their first entry from \<open>j\<close> on.\<close>

lemma all_forward:
  assumes "\<forall>i<n. wpos i (mg_children m ! i) (cut j i)" and "length (mg_children m) = n" and "j \<le> N" and "mg_direction m = kForward"
  shows "mpos (FindSmallest Compare m) j"
proof -
  let ?cs = "mg_children m" and ?k = "\<lambda>i. w_key (mg_children m ! i)"
  have W: "w_valid (?cs ! i) \<longleftrightarrow> cut j i < length (xss ! i)" "cut j i < length (xss ! i) \<Longrightarrow> ?k i = fst (xss ! i ! cut j i)" if "i < n" for i
    using w_at [OF assms(1) [rule_format, OF that] that] .
  define r where "r = mg_current (FindSmallest Compare m)"
  have leg: "legal (?k i)" if "i < n" "w_valid (?cs ! i)" for i
    using seekable.items_legal [OF child [OF that(1)] nth_mem, of "cut j i"] W that by auto
  have R: "case r of None \<Rightarrow> \<forall>i\<in>set [0..<n]. \<not> w_valid (?cs ! i) | Some b \<Rightarrow> b \<in> set [0..<n] \<and> w_valid (?cs ! b) \<and> (\<forall>i\<in>set [0..<n]. w_valid (?cs ! i) \<longrightarrow> \<not> Compare (?k i) (?k b) < 0)"
    unfolding r_def FindSmallest_def Let_def merging_cur assms(2)
  proof (rule fold_best [where S = "{..<n}"])
    show "\<not> Compare (?k i) (?k i) < 0" if "i \<in> {..<n}" "w_valid (?cs ! i)" for i using leg that by simp
    show "\<not> Compare (?k l) (?k i) < 0" if "i \<in> {..<n}" "p \<in> {..<n}" "l \<in> {..<n}" "w_valid (?cs ! i)" "w_valid (?cs ! p)" "w_valid (?cs ! l)"
      "Compare (?k i) (?k p) < 0" "\<not> Compare (?k l) (?k p) < 0" for i p l
      using compare_less_trans(1) [of "?k l" "?k i" "?k p"] leg that by auto
  qed auto
  show ?thesis
  proof (cases "j < N")
    case True
    obtain c where c: "c < n" "items ! j \<in> set (xss ! c)" using owner [OF nth_mem [OF True]] by blast
    note C = nth_cut_owner [OF c(1) True c(2)]
    have wc: "w_valid (?cs ! c)" "?k c = fst (items ! j)" using W [OF c(1)] C by simp_all
    obtain b where b: "r = Some b" "b < n" "w_valid (?cs ! b)" "\<not> Compare (?k c) (?k b) < 0" using R c(1) wc(1) by (auto split: option.splits)
    have cb: "cut j b < length (xss ! b)" "?k b = fst (xss ! b ! cut j b)" using W [OF b(2)] b(3) by auto
    from drop_key [OF nth_from [OF b(2) le_refl cb(1)]] have "xss ! b ! cut j b = items ! j" using b(4) unfolding wc(2) cb(2) by auto
    then have "b = c" using owner_unique [OF b(2) c(1)] c(2) nth_mem [OF cb(1)] by simp
    then have "mg_current (FindSmallest Compare m) = Some c" using b(1) r_def by simp
    then show ?thesis using True c assms(1,2,4) by (auto simp: mpos_def FindSmallest_def Let_def)
  next
    case False
    then have j: "j = N" using assms(3) by simp
    have "\<not> w_valid (?cs ! i)" if "i < n" for i using W(1) [OF that] cut_ends(2) [OF that] by (simp add: j)
    then have "mg_current (FindSmallest Compare m) = None" using R unfolding r_def by (auto split: option.splits)
    then show ?thesis using assms(1,2) j by (auto simp: mpos_def FindSmallest_def Let_def)
  qed
qed

text \<open>All children are at their last entry before \<open>j\<close>.\<close>

lemma all_backward:
  assumes "\<forall>i<n. wpos i (mg_children m ! i) (back_of j i)" and "length (mg_children m) = n" and "j \<le> N" and "mg_direction m = kReverse"
  shows "mpos (FindLargest Compare m) (if j = 0 then N else j - 1)"
proof -
  let ?cs = "mg_children m" and ?k = "\<lambda>i. w_key (mg_children m ! i)"
  have W: "w_valid (?cs ! i) \<longleftrightarrow> 0 < cut j i" "0 < cut j i \<Longrightarrow> ?k i = fst (xss ! i ! (cut j i - 1))" "0 < cut j i \<Longrightarrow> cut j i - 1 < length (xss ! i)"
    if "i < n" for i
    using w_at [OF assms(1) [rule_format, OF that] that] cut_le [OF that, of j] by (auto simp: back_of_def split: if_splits)
  define r where "r = mg_current (FindLargest Compare m)"
  have leg: "legal (?k i)" if "i < n" "w_valid (?cs ! i)" for i
    using seekable.items_legal [OF child [OF that(1)] nth_mem, of "cut j i - 1"] W [OF that(1)] that by auto
  have R: "case r of None \<Rightarrow> \<forall>i\<in>set (rev [0..<n]). \<not> w_valid (?cs ! i)
    | Some b \<Rightarrow> b \<in> set (rev [0..<n]) \<and> w_valid (?cs ! b) \<and> (\<forall>i\<in>set (rev [0..<n]). w_valid (?cs ! i) \<longrightarrow> \<not> Compare (?k i) (?k b) > 0)"
    unfolding r_def FindLargest_def Let_def merging_cur assms(2)
  proof (rule fold_best [where S = "{..<n}"])
    show "\<not> Compare (?k i) (?k i) > 0" if "i \<in> {..<n}" "w_valid (?cs ! i)" for i using leg that by simp
    show "\<not> Compare (?k l) (?k i) > 0" if "i \<in> {..<n}" "p \<in> {..<n}" "l \<in> {..<n}" "w_valid (?cs ! i)" "w_valid (?cs ! p)" "w_valid (?cs ! l)"
      "Compare (?k i) (?k p) > 0" "\<not> Compare (?k l) (?k p) > 0" for i p l
      using compare_less_trans(1) [of "?k l" "?k p" "?k i"] compare_flip [of "?k i" "?k p"] compare_flip [of "?k p" "?k i"] leg that by auto
  qed auto
  show ?thesis
  proof (cases j)
    case (Suc j')
    then have j': "j' < N" using assms(3) by simp
    obtain c where c: "c < n" "items ! j' \<in> set (xss ! c)" using owner [OF nth_mem [OF j']] by blast
    note C = nth_cut_owner [OF c(1) j' c(2)]
    have cj: "cut j c = Suc (cut j' c)" using cut_Suc [OF j', of c] c(2) Suc by simp
    have wc: "w_valid (?cs ! c)" "?k c = fst (items ! j')" using W [OF c(1)] C cj by simp_all
    obtain b where b: "r = Some b" "b < n" "w_valid (?cs ! b)" "\<not> Compare (?k c) (?k b) > 0" using R c(1) wc(1) by (auto split: option.splits)
    have cb: "0 < cut j b" "?k b = fst (xss ! b ! (cut j b - 1))" "cut j b - 1 < length (xss ! b)" using W [OF b(2)] b(3) by auto
    have "xss ! b ! (cut j b - 1) \<in> set (take (Suc j') items)" using nth_below [OF b(2), of "cut j b - 1" j] cb(1) Suc by simp
    from take_key [OF this j'] have "xss ! b ! (cut j b - 1) = items ! j'"
      using b(4) compare_flip [OF leg [OF c(1) wc(1)] leg [OF b(2,3)]] unfolding wc(2) cb(2) by auto
    then have "b = c" using owner_unique [OF b(2) c(1)] c(2) nth_mem [OF cb(3)] by simp
    then have cur: "mg_current (FindLargest Compare m) = Some c" using b(1) r_def by simp
    have "back_of j i = back_of j' i" if "i < n" "i \<noteq> c" for i
    proof -
      have "items ! j' \<notin> set (xss ! i)" using owner_unique [OF that(1) c(1) _ c(2)] that(2) by blast
      then show ?thesis using cut_Suc [OF j', of i] Suc by (simp add: back_of_def)
    qed
    moreover have "back_of j c = cut j' c" using cj by (simp add: back_of_def)
    ultimately show ?thesis using Suc cur j' c assms(1,2,4)
      by (auto simp: mpos_def FindLargest_def Let_def intro!: exI [of _ c])
  next
    case 0
    have "\<not> w_valid (?cs ! i)" if "i < n" for i using W(1) [OF that] cut_ends(1) [OF that] 0 by simp
    then have "mg_current (FindLargest Compare m) = None" using R unfolding r_def by (auto split: option.splits)
    then show ?thesis using assms(1,2) 0 by (auto simp: mpos_def FindLargest_def Let_def)
  qed
qed

section \<open>The methods\<close>

lemma each_child:
  assumes "length cs = n" and "\<And>i. i < n \<Longrightarrow> \<exists>w. f i (cs ! i) = Some w \<and> wpos i w (g i)"
  shows "\<exists>cs'. each f 0 cs = Some cs' \<and> length cs' = n \<and> (\<forall>i<n. wpos i (cs' ! i) (g i))"
  using each_ok [of cs f 0 "\<lambda>i w. wpos i w (g i)"] assms by simp

lemma mg_SeekToFirst_at:
  assumes "malive m"
  shows "\<exists>m'. mg_SeekToFirst Is Compare m = Some m' \<and> mpos m' 0"
proof -
  note A = assms [unfolded malive_def]
  have "\<exists>w. i_SeekToFirst (w_methods (Is ! i)) (mg_children m ! i) = Some w \<and> wpos i w (cut 0 i)" if "i < n" for i
    using child_first [OF that, of "mg_children m ! i"] A that cut_ends(1) [OF that] by simp
  from each_child [OF conjunct1 [OF A], of "\<lambda>i. i_SeekToFirst (w_methods (Is ! i))", OF this] obtain cs where
    "each (\<lambda>i. i_SeekToFirst (w_methods (Is ! i))) 0 (mg_children m) = Some cs" "length cs = n" "\<forall>i<n. wpos i (cs ! i) (cut 0 i)" by blast
  then show ?thesis using all_forward [of "m\<lparr>mg_children := cs, mg_direction := kForward\<rparr>" 0]
    by (simp add: mg_SeekToFirst_def find_direction)
qed

lemma mg_Seek_at:
  assumes "malive m" and "target t"
  shows "\<exists>m'. mg_Seek Is Compare t m = Some m' \<and> mpos m' (rank Compare t (map fst items))"
proof -
  let ?r = "rank Compare t (map fst items)"
  note A = assms(1) [unfolded malive_def]
  have "\<exists>w. i_Seek (w_methods (Is ! i)) t (mg_children m ! i) = Some w \<and> wpos i w (cut ?r i)" if "i < n" for i
    using child_seek [OF that _ assms(2), of "mg_children m ! i"] A that rank_cut [OF that assms(2)] by simp
  from each_child [OF conjunct1 [OF A], of "\<lambda>i. i_Seek (w_methods (Is ! i)) t", OF this] obtain cs where
    "each (\<lambda>i. i_Seek (w_methods (Is ! i)) t) 0 (mg_children m) = Some cs" "length cs = n" "\<forall>i<n. wpos i (cs ! i) (cut ?r i)" by blast
  moreover have "?r \<le> N" unfolding rank_def by (metis length_map length_takeWhile_le)
  ultimately show ?thesis using all_forward [of "m\<lparr>mg_children := cs, mg_direction := kForward\<rparr>" ?r]
    by (simp add: mg_Seek_def find_direction)
qed

lemma mg_SeekToLast_at:
  assumes "malive m"
  shows "\<exists>m'. mg_SeekToLast Is Compare m = Some m' \<and> mpos m' (N - 1)"
proof -
  note A = assms [unfolded malive_def]
  have "\<exists>w. i_SeekToLast (w_methods (Is ! i)) (mg_children m ! i) = Some w \<and> wpos i w (back_of N i)" if "i < n" for i
    using child_final [OF that, of "mg_children m ! i"] A that cut_ends(2) [OF that] by (cases "xss ! i = []") (simp_all add: back_of_def)
  from each_child [OF conjunct1 [OF A], of "\<lambda>i. i_SeekToLast (w_methods (Is ! i))", OF this] obtain cs where
    cs: "each (\<lambda>i. i_SeekToLast (w_methods (Is ! i))) 0 (mg_children m) = Some cs" "length cs = n" "\<forall>i<n. wpos i (cs ! i) (back_of N i)" by blast
  have "(if N = 0 then N else N - 1) = N - 1" by simp
  then show ?thesis using cs all_backward [of "m\<lparr>mg_children := cs, mg_direction := kReverse\<rparr>" N]
    by (simp add: mg_SeekToLast_def find_direction)
qed

text \<open>At an entry: which child is the current one and where the others are.\<close>

lemma mpos_at:
  assumes "mpos m j" and "j < N"
  obtains c where "c < n" "items ! j \<in> set (xss ! c)" "mg_current m = Some c" "wpos c (mg_children m ! c) (cut j c)" "length (mg_children m) = n"
    "\<forall>i<n. i \<noteq> c \<longrightarrow> wpos i (mg_children m ! i) (case mg_direction m of kForward \<Rightarrow> cut j i | kReverse \<Rightarrow> back_of j i)"
    "\<forall>i<n. i \<noteq> c \<longrightarrow> items ! j \<notin> set (xss ! i)" "mg_key Is m = Some (fst (items ! j))" "mg_value Is m = Some (snd (items ! j))"
proof -
  obtain c where c: "c < n" "items ! j \<in> set (xss ! c)" "mg_current m = Some c" "wpos c (mg_children m ! c) (cut j c)" "length (mg_children m) = n"
    "\<forall>i<n. i \<noteq> c \<longrightarrow> wpos i (mg_children m ! i) (case mg_direction m of kForward \<Rightarrow> cut j i | kReverse \<Rightarrow> back_of j i)"
    using assms unfolding mpos_def by auto
  note C = nth_cut_owner [OF c(1) assms(2) c(2)]
  have "mg_key Is m = Some (fst (items ! j))" "mg_value Is m = Some (snd (items ! j))"
    using child_key [OF c(1,4) C(1)] child_value [OF c(1,4) C(1)] C(2) c(3) by (simp_all add: mg_key_def mg_value_def)
  then show ?thesis using that [OF c(1-5)] c(6) owner_unique c(1,2) by blast
qed

lemma turn_forward_at:
  assumes "j < N" and "i < n" and "i \<noteq> c" and "items ! j \<notin> set (xss ! i)" and "walive i w"
  shows "\<exists>w'. turn_forward Is Compare c (Some (fst (items ! j))) i w = Some w' \<and> wpos i w' (cut j i)"
proof -
  have t: "target (fst (items ! j))" using item_target nth_mem [OF assms(1)] by blast
  obtain w' where w': "i_Seek (w_methods (Is ! i)) (fst (items ! j)) w = Some w'" "wpos i w' (cut j i)"
    using child_seek [OF assms(2,5) t] rank_cut [OF assms(2) t] rank_item [OF assms(1)] by auto
  have "Compare (fst (items ! j)) (fst (xss ! i ! cut j i)) \<noteq> 0" if c: "cut j i < length (xss ! i)"
    using drop_key [OF nth_from [OF assms(2) le_refl c]] nth_mem [OF c] assms(4) by auto
  then show ?thesis using w' child_valid [OF assms(2) w'(2)] child_key [OF assms(2) w'(2)] assms(3) by (auto simp: turn_forward_def)
qed

lemma turn_back_at:
  assumes "j < N" and "i < n" and "i \<noteq> c" and "walive i w"
  shows "\<exists>w'. turn_back Is c (Some (fst (items ! j))) i w = Some w' \<and> wpos i w' (back_of j i)"
proof -
  have t: "target (fst (items ! j))" using item_target nth_mem [OF assms(1)] by blast
  obtain w' where w': "i_Seek (w_methods (Is ! i)) (fst (items ! j)) w = Some w'" "wpos i w' (cut j i)"
    using child_seek [OF assms(2,4) t] rank_cut [OF assms(2) t] rank_item [OF assms(1)] by auto
  show ?thesis
  proof (cases "cut j i < length (xss ! i)")
    case True
    then show ?thesis using w' child_valid [OF assms(2) w'(2)] child_prev [OF assms(2) w'(2) True] assms(3) by (auto simp: turn_back_def back_of_def)
  next
    case False
    then have "cut j i = length (xss ! i)" using cut_le [OF assms(2), of j] by simp
    then show ?thesis using w'(1) child_valid [OF assms(2) w'(2)] child_final [OF assms(2) child_alive [OF assms(2) w'(2)]] assms(3)
      by (auto simp: turn_back_def back_of_def)
  qed
qed

lemma mg_Next_at:
  assumes "mpos m j" and j: "j < N"
  shows "\<exists>m'. mg_Next Is Compare m = Some m' \<and> mpos m' (Suc j)"
proof -
  obtain c where c: "c < n" "items ! j \<in> set (xss ! c)" "mg_current m = Some c" "wpos c (mg_children m ! c) (cut j c)" "length (mg_children m) = n"
    "\<forall>i<n. i \<noteq> c \<longrightarrow> wpos i (mg_children m ! i) (case mg_direction m of kForward \<Rightarrow> cut j i | kReverse \<Rightarrow> back_of j i)"
    "\<forall>i<n. i \<noteq> c \<longrightarrow> items ! j \<notin> set (xss ! i)" "mg_key Is m = Some (fst (items ! j))" "mg_value Is m = Some (snd (items ! j))"
    by (rule mpos_at [OF assms])
  let ?f = "turn_forward Is Compare c (mg_key Is m)"
  have "\<exists>cs. (if mg_direction m \<noteq> kForward then map_option (\<lambda>cs. m\<lparr>mg_children := cs, mg_direction := kForward\<rparr>) (each ?f 0 (mg_children m)) else Some m) =
      Some (m\<lparr>mg_children := cs, mg_direction := kForward\<rparr>) \<and> length cs = n \<and> (\<forall>i<n. wpos i (cs ! i) (cut j i))"
  proof (cases "mg_direction m")
    case kForward
    then have "wpos i (mg_children m ! i) (cut j i)" if "i < n" for i using c(4) c(6) [rule_format, OF that] by (cases "i = c") auto
    then show ?thesis using kForward c(5) by (intro exI [of _ "mg_children m"]) simp
  next
    case kReverse
    have "\<exists>w. ?f i (mg_children m ! i) = Some w \<and> wpos i w (cut j i)" if i: "i < n" for i
    proof (cases "i = c")
      case False
      then show ?thesis using turn_forward_at [OF j i False c(7) [rule_format, OF i False]] child_alive [OF i c(6) [rule_format, OF i False]] c(8) by simp
    qed (use c(4) in \<open>simp add: turn_forward_def\<close>)
    then show ?thesis using each_child [OF c(5), of ?f "cut j"] kReverse by auto
  qed
  then obtain cs where cs: "(if mg_direction m \<noteq> kForward then map_option (\<lambda>cs. m\<lparr>mg_children := cs, mg_direction := kForward\<rparr>) (each ?f 0 (mg_children m)) else Some m) =
      Some (m\<lparr>mg_children := cs, mg_direction := kForward\<rparr>)" "length cs = n" "\<forall>i<n. wpos i (cs ! i) (cut j i)" by blast
  obtain w where w: "i_Next (w_methods (Is ! c)) (cs ! c) = Some w" "wpos c w (Suc (cut j c))"
    using child_next [OF c(1) _ nth_cut_owner(1) [OF c(1) j c(2)]] cs(3) c(1) by blast
  have "wpos i (cs[c := w] ! i) (cut (Suc j) i)" if "i < n" for i
    using cs(2,3) w(2) c(1,2) c(7) [rule_format, OF that] cut_Suc [OF j, of i] that by (cases "i = c") simp_all
  then show ?thesis using all_forward [of "m\<lparr>mg_direction := kForward, mg_children := cs[c := w]\<rparr>" "Suc j"] cs(2) j w(1)
    unfolding mg_Next_def c(3) Option.bind_lunit cs(1) by simp
qed

lemma mg_Prev_at:
  assumes "mpos m j" and j: "j < N"
  shows "\<exists>m'. mg_Prev Is Compare m = Some m' \<and> mpos m' (if j = 0 then N else j - 1)"
proof -
  obtain c where c: "c < n" "items ! j \<in> set (xss ! c)" "mg_current m = Some c" "wpos c (mg_children m ! c) (cut j c)" "length (mg_children m) = n"
    "\<forall>i<n. i \<noteq> c \<longrightarrow> wpos i (mg_children m ! i) (case mg_direction m of kForward \<Rightarrow> cut j i | kReverse \<Rightarrow> back_of j i)"
    "\<forall>i<n. i \<noteq> c \<longrightarrow> items ! j \<notin> set (xss ! i)" "mg_key Is m = Some (fst (items ! j))" "mg_value Is m = Some (snd (items ! j))"
    by (rule mpos_at [OF assms])
  let ?f = "turn_back Is c (mg_key Is m)" and ?at = "\<lambda>i. if i = c then cut j i else back_of j i"
  have "\<exists>cs. (if mg_direction m \<noteq> kReverse then map_option (\<lambda>cs. m\<lparr>mg_children := cs, mg_direction := kReverse\<rparr>) (each ?f 0 (mg_children m)) else Some m) =
      Some (m\<lparr>mg_children := cs, mg_direction := kReverse\<rparr>) \<and> length cs = n \<and> (\<forall>i<n. wpos i (cs ! i) (?at i))"
  proof (cases "mg_direction m")
    case kReverse
    then have "wpos i (mg_children m ! i) (?at i)" if "i < n" for i using c(4) c(6) [rule_format, OF that] by (cases "i = c") auto
    then show ?thesis using kReverse c(5) by (intro exI [of _ "mg_children m"]) simp
  next
    case kForward
    have "\<exists>w. ?f i (mg_children m ! i) = Some w \<and> wpos i w (?at i)" if i: "i < n" for i
    proof (cases "i = c")
      case False
      then show ?thesis using turn_back_at [OF j i False] child_alive [OF i c(6) [rule_format, OF i False]] c(8) by simp
    qed (use c(4) in \<open>simp add: turn_back_def\<close>)
    from each_child [OF c(5), of ?f ?at, OF this] show ?thesis using kForward by fastforce
  qed
  then obtain cs where cs: "(if mg_direction m \<noteq> kReverse then map_option (\<lambda>cs. m\<lparr>mg_children := cs, mg_direction := kReverse\<rparr>) (each ?f 0 (mg_children m)) else Some m) =
      Some (m\<lparr>mg_children := cs, mg_direction := kReverse\<rparr>)" "length cs = n" "\<forall>i<n. wpos i (cs ! i) (?at i)" by blast
  have "wpos c (cs ! c) (cut j c)" using cs(3) [rule_format, OF c(1)] by simp
  then obtain w where w: "i_Prev (w_methods (Is ! c)) (cs ! c) = Some w" "wpos c w (back_of j c)"
    using child_prev [OF c(1) _ nth_cut_owner(1) [OF c(1) j c(2)]] unfolding back_of_def by blast
  have "wpos i (cs[c := w] ! i) (back_of j i)" if "i < n" for i
    using cs(2) cs(3) [rule_format, OF that] w(2) c(1) that by (cases "i = c") simp_all
  then show ?thesis using all_backward [of "m\<lparr>mg_direction := kReverse, mg_children := cs[c := w]\<rparr>" j] cs(2) j w(1)
    unfolding mg_Prev_def c(3) Option.bind_lunit cs(1) by (cases "j = 0") simp_all
qed

lemma first_error_ok:
  "length js = length cs \<Longrightarrow> (\<And>i. i < length cs \<Longrightarrow> i_status (w_methods (js ! i)) (cs ! i) = Some OK) \<Longrightarrow> first_error js cs OK = Some OK"
proof (induction js cs rule: list_induct2)
  case (Cons J js c cs)
  then show ?case using Cons.prems [of 0] Cons.prems [of "Suc i" for i] by (auto simp: status_ok_def)
qed simp

lemma mg_status_at:
  assumes "mpos m j"
  shows "mg_status Is m = Some OK"
proof -
  have l: "length (mg_children m) = n" using assms unfolding mpos_def by blast
  have "\<exists>l. wpos i (mg_children m ! i) l" if "i < n" for i
  proof (cases "j < N")
    case True
    then show ?thesis using mpos_at [OF assms True] that by metis
  qed (use assms that in \<open>auto simp: mpos_def\<close>)
  then have "i_status (w_methods (Is ! i)) (mg_children m ! i) = Some OK" if "i < n" for i using child_status [OF that] that by blast
  then show ?thesis unfolding mg_status_def using l methods by (intro first_error_ok) auto
qed

theorem merging_seekable: "seekable legal Compare (merging_methods Is Compare) items malive mpos target"
proof (intro seekable.intro seekable_axioms.intro three_way_axioms cursor.intro)
  fix m j
  assume m: "mpos m j"
  show "j \<le> N \<and> (i_Valid (merging_methods Is Compare) m \<longleftrightarrow> j < N)" using m by (auto simp: mpos_def merging_methods_def mg_Valid_def split: if_splits)
  assume j: "j < N"
  show "i_item (merging_methods Is Compare) m = Some (items ! j)"
    by (subst prod.collapse [symmetric], subst i_item_Some, rule mpos_at [OF m j]) (simp add: merging_methods_def)
  show "\<exists>m'. i_Next (merging_methods Is Compare) m = Some m' \<and> mpos m' (j + 1)" using mg_Next_at [OF m j] by (simp add: merging_methods_def)
  show "\<exists>m'. i_Prev (merging_methods Is Compare) m = Some m' \<and> mpos m' (if j = 0 then N else j - 1)"
    using mg_Prev_at [OF m j] by (cases "j = 0") (simp_all add: merging_methods_def)
qed (use sorted item_legal targets in \<open>auto simp: merging_methods_def intro: mpos_alive mg_SeekToFirst_at mg_SeekToLast_at [simplified] mg_Seek_at mg_status_at\<close>)

end

end
