(* ===== verification/MemIter.thy ===== *)
theory MemIter
  imports MemTable Iterators
begin

text \<open>
  db/memtable.cc: \<open>MemTableIterator\<close> with all its methods, and that it meets the contract of iterators over the entries of the table.
\<close>

definition mem_methods :: "(slice \<Rightarrow> slice \<Rightarrow> int) \<Rightarrow> MemTable \<Rightarrow> iter iterator" where
  "mem_methods ucmp m =
     \<lparr>i_Valid = iter_Valid, i_SeekToFirst = (\<lambda>_. iter_SeekToFirst (table m)), i_SeekToLast = (\<lambda>_. iter_SeekToLast (table m)),
      i_Seek = (\<lambda>k _. mem_iter_Seek ucmp m k), i_Next = iter_Next (table m), i_Prev = iter_Prev (KeyComparator ucmp) (table m),
      i_key = mem_iter_key m, i_value = mem_iter_value m, i_status = (\<lambda>_. Some OK)\<rparr>"

text \<open>The target of \<open>Seek\<close> is encoded with its length in 32 bits.\<close>

definition mem_item :: "byte list \<Rightarrow> slice \<times> slice" where
  "mem_item e = (case entry_slice e of None \<Rightarrow> ([], []) | Some (k, rest) \<Rightarrow> (k, case entry_slice rest of None \<Rightarrow> [] | Some (v, _) \<Rightarrow> v))"

lemma mem_item_bytes: "entry_fits e \<Longrightarrow> mem_item (entry_bytes e) = (ikey e, snd e)"
  by (simp add: mem_item_def entry_slice_bytes entry_slice_value)

lemma mem_iter_item:
  "iter_key (table m) it = Some (entry_bytes e) \<Longrightarrow> entry_fits e \<Longrightarrow> i_item (mem_methods ucmp m) it = Some (ikey e, snd e)"
  by (simp add: i_item_Some mem_methods_def mem_iter_key_def mem_iter_value_def entry_slice_bytes entry_slice_value)

context comparator
begin

definition mtarget :: "slice \<Rightarrow> bool" where
  "mtarget k \<longleftrightarrow> ilegal k \<and> length k < 2 ^ 32"

lemma mem_keys_seekable:
  assumes ks: "holds mlegal (KeyComparator Compare) (table m) ks" "set ks = entry_bytes ` set es" "\<forall>e\<in>set es. entry_fits e"
  shows "seekable ilegal (ICompare Compare) (mem_methods Compare m) (map mem_item ks) (\<lambda>_. True)
    (at_pos mlegal (KeyComparator Compare) (table m) ks) mtarget"
proof -
  let ?pos = "at_pos mlegal (KeyComparator Compare) (table m) ks"
  have it: "mem_item (entry_bytes e) = (ikey e, snd e)" if "e \<in> set es" for e using ks(3) that by (simp add: mem_item_bytes)
  have fst_item: "fst (mem_item x) = entry_key x" for x by (simp add: mem_item_def entry_key_def split: option.splits)
  have keys: "map fst (map mem_item ks) = map entry_key ks" by (simp add: fst_item)
  have rk: "rank (ICompare Compare) k (map entry_key ks) = rank (KeyComparator Compare) (EncodeKey k) ks" if "length k < 2 ^ 32" for k
    using entry_key_put [OF that] by (simp add: rank_def takeWhile_map comp_def KeyComparator_def EncodeKey_def PutVarint32_def)
  have C: "cursor (map mem_item ks) ?pos (i_Valid (mem_methods Compare m)) (i_item (mem_methods Compare m)) (i_Next (mem_methods Compare m)) (i_Prev (mem_methods Compare m))"
  proof
    fix x i
    assume p: "?pos x i"
    show "i \<le> length (map mem_item ks) \<and> (i_Valid (mem_methods Compare m) x \<longleftrightarrow> i < length (map mem_item ks))"
      using mem.skips.pos_valid [OF p] by (simp add: mem_methods_def)
    assume i: "i < length (map mem_item ks)"
    then obtain e where e: "ks ! i = entry_bytes e" "e \<in> set es" using nth_mem [of i ks] ks(2) by auto
    show "i_item (mem_methods Compare m) x = Some (map mem_item ks ! i)"
      using mem_iter_item [of m x e] mem.at_pos_key [OF p] i e it ks(3) by simp
    show "\<exists>it'. i_Next (mem_methods Compare m) x = Some it' \<and> ?pos it' (i + 1)"
      using mem.skips.succ_ok [OF p] i by (simp add: mem_methods_def)
    show "\<exists>it'. i_Prev (mem_methods Compare m) x = Some it' \<and> ?pos it' (if i = 0 then length (map mem_item ks) else i - 1)"
      using mem.skips.pred_ok [OF p] i by (cases "i = 0") (simp_all add: mem_methods_def)
  qed
  show ?thesis
  proof (intro seekable.intro seekable_axioms.intro C comparator.axioms(1) [OF internal_comparator])
    show "\<exists>it'. i_SeekToFirst (mem_methods Compare m) x = Some it' \<and> ?pos it' 0" for x
      using mem.skips.first_ok [OF ks(1)] by (simp add: mem_methods_def)
    show "\<exists>it'. i_SeekToLast (mem_methods Compare m) x = Some it' \<and> ?pos it' (length (map mem_item ks) - 1)" for x
      using mem.skips.final_ok [OF ks(1)] by (simp add: mem_methods_def)
    show "\<exists>it'. i_Seek (mem_methods Compare m) k x = Some it' \<and> ?pos it' (rank (ICompare Compare) k (map fst (map mem_item ks)))" if "mtarget k" for k x
      using mem.skips.seek_ok [OF ks(1), of "EncodeKey k"] that rk [of k] entry_key_put [of k] unfolding keys
      by (simp add: mem_methods_def mem_iter_Seek_def mtarget_def mlegal_def EncodeKey_def PutVarint32_def)
    show "sorted_wrt (\<lambda>a b. ICompare Compare a b < 0) (map fst (map mem_item ks))"
      using mem.holds_sorted [OF ks(1)] unfolding keys by (simp add: sorted_wrt_map KeyComparator_def)
    show "ilegal (fst y)" if "y \<in> set (map mem_item ks)" for y
      using that mem.holds_sorted [OF ks(1)] by (auto simp: fst_item mlegal_def)
  qed (auto simp: mem_methods_def mtarget_def)
qed

lemma mem_seekable:
  assumes "mem_repr m es"
  shows "\<exists>items. set items = (\<lambda>e. (ikey e, snd e)) ` set es \<and>
    (\<exists>pos. seekable ilegal (ICompare Compare) (mem_methods Compare m) items (\<lambda>_. True) pos mtarget)"
proof -
  obtain ks where ks: "holds mlegal (KeyComparator Compare) (table m) ks" "set ks = entry_bytes ` set es" "\<forall>e\<in>set es. entry_fits e"
    using assms unfolding mem_repr_def by blast
  have "set (map mem_item ks) = (\<lambda>e. (ikey e, snd e)) ` set es" using ks(2,3) by (simp add: image_image mem_item_bytes)
  then show ?thesis using mem_keys_seekable [OF ks] by blast
qed

end

text \<open>The iterator of a new memtable.\<close>

interpretation new_mem: seekable bytewise.ilegal "ICompare BytewiseCompare" "mem_methods BytewiseCompare mk_MemTable" "[]" "\<lambda>_. True"
  "at_pos bytewise.mlegal (KeyComparator BytewiseCompare) (table mk_MemTable) []" bytewise.mtarget
proof -
  have "holds bytewise.mlegal (KeyComparator BytewiseCompare) (table mk_MemTable) []" by (simp add: mk_MemTable_def holds_mk)
  from bytewise.mem_keys_seekable [OF this, of "[]"] show "seekable bytewise.ilegal (ICompare BytewiseCompare) (mem_methods BytewiseCompare mk_MemTable) [] (\<lambda>_. True)
    (at_pos bytewise.mlegal (KeyComparator BytewiseCompare) (table mk_MemTable) []) bytewise.mtarget" by simp
qed

end
