(* ===== verification/DbRead.thy ===== *)
theory DbRead
  imports DbIterCorrect MergerCorrect MemIter
begin

text \<open>
  The iterator of the database over its memtables: db/db_impl.cc puts the iterator of db/db_iter.cc on a merging iterator over the iterators of \<open>mem_\<close> and
  \<open>imm_\<close>. The contracts of the four layers compose to a statement about what a user sees.
\<close>

section \<open>The view of a snapshot\<close>

text \<open>An entry that a snapshot shows: a value that is the newest entry of its user key that the snapshot sees.\<close>

definition newest :: "(slice \<Rightarrow> slice \<Rightarrow> int) \<Rightarrow> u64 \<Rightarrow> entry list \<Rightarrow> entry \<Rightarrow> bool" where
  "newest ucmp s es e \<longleftrightarrow> sequence (fst e) \<le> s \<and> vtype (fst e) = kTypeValue \<and>
     (\<forall>x\<in>set es. ucmp (user_key (fst x)) (user_key (fst e)) = 0 \<and> sequence (fst x) \<le> s \<longrightarrow> sequence (fst x) \<le> sequence (fst e))"

lemma ikey_append: "ikey e = AppendInternalKey [] (fst e)"
  by (simp add: ikey_def AppendInternalKey_def PutFixed64_eq)

lemma parsed_ikey: "entry_fits e \<Longrightarrow> ParseInternalKey (ikey e) = Some (fst e)"
  unfolding ikey_append by (rule internal_key_roundtrip_aux) (simp add: entry_fits_def)

context comparator
begin

lemma ikey_before:
  assumes "entry_fits x" and "entry_fits y"
  shows "ICompare Compare (ikey x) (ikey y) < 0 \<longleftrightarrow> Compare (user_key (fst x)) (user_key (fst y)) < 0 \<or>
    Compare (user_key (fst x)) (user_key (fst y)) = 0 \<and> (sequence (fst y) < sequence (fst x) \<or> sequence (fst x) = sequence (fst y) \<and> vtype (fst y) < vtype (fst x))"
  unfolding icompare_less using assms pack_less(1) [of "sequence (fst y)" "sequence (fst x)"] by (auto simp: entry_fits_def)

lemma user_view_entries:
  assumes items: "set items = (\<lambda>e. (ikey e, snd e)) ` set es" and srt: "sorted_wrt (\<lambda>a b. ICompare Compare a b < 0) (map fst items)"
    and es: "\<forall>e\<in>set es. entry_fits e \<and> legal (user_key (fst e))" and d: "distinct (map (sequence \<circ> fst) es)"
  shows "set (user_view Compare s items) = (\<lambda>e. (user_key (fst e), snd e)) ` {e \<in> set es. newest Compare s es e}"
proof -
  have at: "\<exists>e\<in>set es. items ! i = (ikey e, snd e) \<and> parsed (items ! i) = fst e" if "i < length items" for i
    using nth_mem [OF that] es parsed_ikey unfolding items by (auto simp: parsed_def)
  have inj: "x = y" if "x \<in> set es" "y \<in> set es" "sequence (fst x) = sequence (fst y)" for x y
    using d that unfolding distinct_map inj_on_def by auto
  have shown_at: "shown Compare s items i \<longleftrightarrow> newest Compare s es e" if i: "i < length items" and e: "e \<in> set es" "items ! i = (ikey e, snd e)" "parsed (items ! i) = fst e" for i e
  proof
    assume sh: "shown Compare s items i"
    have "sequence (fst x) \<le> sequence (fst e)" if x: "x \<in> set es" "Compare (user_key (fst x)) (user_key (fst e)) = 0" "sequence (fst x) \<le> s" for x
    proof (rule ccontr)
      assume lt: "\<not> sequence (fst x) \<le> sequence (fst e)"
      obtain j where j: "j < length items" "items ! j = (ikey x, snd x)" using x(1) items by (metis (no_types, lifting) image_eqI in_set_conv_nth)
      then have p: "parsed (items ! j) = fst x" using es x(1) parsed_ikey by (simp add: parsed_def)
      have "ICompare Compare (ikey x) (ikey e) < 0" using ikey_before [of x e] es x e(1) lt by auto
      moreover have "\<not> ICompare Compare (ikey x) (ikey e) < 0" if "\<not> j < i"
      proof (cases "i = j")
        case True
        then show ?thesis using j(2) e(2) lt p e(3) by simp
      next
        case False
        then have "ICompare Compare (ikey e) (ikey x) < 0" using sorted_wrt_nth_less [OF srt, of i j] that i j e(2) by simp
        moreover have "Compare (user_key (fst e)) (user_key (fst x)) = 0" using compare_0_sym [of "user_key (fst x)" "user_key (fst e)"] es x(1,2) e(1) by blast
        ultimately have "sequence (fst x) \<le> sequence (fst e)" using ikey_before [of e x] es x(1) e(1) by auto
        then show ?thesis using lt by blast
      qed
      ultimately have "j < i" by blast
      then show False using sh x(2,3) p e(3) unfolding shown_def sees_def by auto
    qed
    then show "newest Compare s es e" using sh e(3) unfolding newest_def shown_def sees_def by auto
  next
    assume n: "newest Compare s es e"
    have "Compare (user_key (parsed (items ! j))) (user_key (fst e)) \<noteq> 0" if j: "j < i" "sees s items j" for j
    proof
      assume eq: "Compare (user_key (parsed (items ! j))) (user_key (fst e)) = 0"
      obtain x where x: "x \<in> set es" "items ! j = (ikey x, snd x)" "parsed (items ! j) = fst x" using at [of j] j i by auto
      have le: "sequence (fst x) \<le> sequence (fst e)" using n x eq j(2) unfolding newest_def sees_def by auto
      have "ICompare Compare (ikey x) (ikey e) < 0" using sorted_wrt_nth_less [OF srt j(1)] i j x(2) e(2) by simp
      then show False using ikey_before [of x e] es x e(1) le eq inj [of x e] by (auto simp: not_less)
    qed
    then show "shown Compare s items i" using n e(3) unfolding newest_def shown_def sees_def by auto
  qed
  show ?thesis
  proof (intro equalityI subsetI)
    fix y
    assume "y \<in> set (user_view Compare s items)"
    then obtain i where i: "i < length items" "shown Compare s items i" "y = (user_key (parsed (items ! i)), snd (items ! i))" by (auto simp: user_view_def)
    obtain e where e: "e \<in> set es" "items ! i = (ikey e, snd e)" "parsed (items ! i) = fst e" using at [OF i(1)] by auto
    then show "y \<in> (\<lambda>e. (user_key (fst e), snd e)) ` {e \<in> set es. newest Compare s es e}" using i shown_at [OF i(1) e] by auto
  next
    fix y
    assume "y \<in> (\<lambda>e. (user_key (fst e), snd e)) ` {e \<in> set es. newest Compare s es e}"
    then obtain e where e: "e \<in> set es" "newest Compare s es e" "y = (user_key (fst e), snd e)" by auto
    obtain i where i: "i < length items" "items ! i = (ikey e, snd e)" using e(1) items by (metis (no_types, lifting) image_eqI in_set_conv_nth)
    then have p: "parsed (items ! i) = fst e" using es e(1) parsed_ikey by (simp add: parsed_def)
    have "shown Compare s items i" using shown_at [OF i(1) e(1) i(2) p] e(2) by simp
    then show "y \<in> set (user_view Compare s items)" unfolding user_view_def e(3) using i p by (auto simp: image_iff intro!: bexI [of _ i])
  qed
qed

section \<open>The layers\<close>

end

context three_way
begin

lemma sorted_exists:
  assumes "\<forall>x\<in>set xs. legal (fst x)" and "sorted_wrt (\<lambda>a b. Compare (fst a) (fst b) \<noteq> 0) xs"
  shows "\<exists>ys. mset ys = mset xs \<and> sorted_wrt (\<lambda>a b. Compare a b < 0) (map fst ys)"
  using assms
proof (induction xs)
  case (Cons x xs)
  obtain ys where ys: "mset ys = mset xs" "sorted_wrt (\<lambda>a b. Compare a b < 0) (map fst ys)" using Cons.IH Cons.prems by auto
  have L: "\<forall>k\<in>set (map fst ys). legal k" "legal (fst x)" using Cons.prems(1) mset_eq_setD [OF ys(1)] by auto
  let ?r = "rank Compare (fst x) (map fst ys)"
  have lo: "Compare (fst y) (fst x) < 0" if y: "y \<in> set (take ?r ys)" for y
  proof -
    obtain i where "i < ?r" "i < length ys" "y = ys ! i" using y by (auto simp: in_set_conv_nth)
    then show ?thesis using before_rank [of i "fst x" "map fst ys"] by simp
  qed
  have hi: "Compare (fst x) (fst y) < 0" if y: "y \<in> set (drop ?r ys)" for y
  proof -
    have m: "y \<in> set xs" using y mset_eq_setD [OF ys(1)] by (auto dest: in_set_dropD)
    obtain i where i: "i < length (drop ?r ys)" "y = drop ?r ys ! i" using y by (metis in_set_conv_nth)
    then have "?r + i < length ys" "y = ys ! (?r + i)" by auto
    then have "\<not> Compare (fst y) (fst x) < 0" using rank_greater [OF ys(2) L, of "?r + i"] by auto
    moreover have "Compare (fst x) (fst y) \<noteq> 0" using Cons.prems(2) m by simp
    moreover have "legal (fst y)" using Cons.prems(1) m by simp
    ultimately show ?thesis using compare_flip [OF L(2)] by force
  qed
  have ya: "Compare (fst y) (fst z) < 0" if "y \<in> set (take ?r ys)" "z \<in> set (drop ?r ys)" for y z
    using sorted_wrt_append [of "\<lambda>a b. Compare a b < 0" "map fst (take ?r ys)" "map fst (drop ?r ys)"] ys(2) that by (simp flip: map_append)
  have s: "sorted_wrt (\<lambda>a b. Compare a b < 0) (map fst (take ?r ys))" "sorted_wrt (\<lambda>a b. Compare a b < 0) (map fst (drop ?r ys))"
    using ys(2) by (simp_all add: sorted_wrt_take sorted_wrt_drop flip: take_map drop_map)
  have "mset (take ?r ys @ x # drop ?r ys) = add_mset x (mset ys)" by (metis append_take_drop_id mset.simps(2) mset_append union_mset_add_mset_right)
  moreover have "sorted_wrt (\<lambda>a b. Compare a b < 0) (map fst (take ?r ys @ x # drop ?r ys))"
    unfolding map_append sorted_wrt_append list.map sorted_wrt.simps using s lo hi ya by auto
  ultimately show ?case using ys(1) by (intro exI [of _ "take ?r ys @ x # drop ?r ys"]) simp
qed simp

end

context comparator
begin

text \<open>The iterator of the database over a merging iterator over two memtables.\<close>

lemma db_over_memtables:
  assumes m: "mem_repr mem es" "mem_repr imm es'" and fit: "\<forall>e\<in>set (es @ es'). entry_fits e \<and> legal (user_key (fst e))"
    and d: "distinct (map (sequence \<circ> fst) (es @ es'))" and s: "s \<le> kMaxSequenceNumber"
  defines "Is \<equiv> [mem_methods Compare mem, mem_methods Compare imm]"
  shows "\<exists>mg items alive pos target. mk_MergingIterator Is [None, None] = Some mg \<and> set items = (\<lambda>e. (ikey e, snd e)) ` set (es @ es') \<and>
    sorted_wrt (\<lambda>a b. ICompare Compare a b < 0) (map fst items) \<and>
    seekable legal Compare (db_methods (merging_methods Is (ICompare Compare)) Compare) (user_view Compare s items) alive pos target \<and>
    alive (NewDBIterator mg s seed) \<and> (\<forall>t. legal t \<and> length t + 8 < 2 ^ 32 \<longrightarrow> target t)"
proof -
  obtain xs p where xs: "set xs = (\<lambda>e. (ikey e, snd e)) ` set es" "seekable ilegal (ICompare Compare) (mem_methods Compare mem) xs (\<lambda>_. True) p mtarget"
    using mem_seekable [OF m(1)] by blast
  obtain ys q where ys: "set ys = (\<lambda>e. (ikey e, snd e)) ` set es'" "seekable ilegal (ICompare Compare) (mem_methods Compare imm) ys (\<lambda>_. True) q mtarget"
    using mem_seekable [OF m(2)] by blast
  have T: "three_way ilegal (ICompare Compare)" using internal_comparator by (rule comparator.axioms(1))
  have il: "ilegal (ikey e)" "mtarget (ikey e)" if "e \<in> set (es @ es')" for e
    using fit that by (auto simp: ilegal_ikey mtarget_def length_ikey entry_fits_def)
  have ne: "ICompare Compare (ikey x) (ikey y) \<noteq> 0" if "x \<in> set es" "y \<in> set es'" for x y
  proof
    assume "ICompare Compare (ikey x) (ikey y) = 0"
    then have "key_num (ikey x) = key_num (ikey y)" by (auto simp: ICompare_def Let_def split: if_splits)
    then have "sequence (fst x) = sequence (fst y)" using pack_less(2) [of "sequence (fst x)" "sequence (fst y)"] fit that by (auto simp: entry_fits_def)
    then show False using d that by (auto simp: disjoint_iff)
  qed
  have neq: "sorted_wrt (\<lambda>a b. ICompare Compare (fst a) (fst b) \<noteq> 0) (xs @ ys)"
  proof -
    have "sorted_wrt (\<lambda>a b. ICompare Compare (fst a) (fst b) < 0) xs" "sorted_wrt (\<lambda>a b. ICompare Compare (fst a) (fst b) < 0) ys"
      using seekable.items_sorted [OF xs(2)] seekable.items_sorted [OF ys(2)] by (simp_all add: sorted_wrt_map)
    then have "sorted_wrt (\<lambda>a b. ICompare Compare (fst a) (fst b) \<noteq> 0) xs" "sorted_wrt (\<lambda>a b. ICompare Compare (fst a) (fst b) \<noteq> 0) ys"
      by (auto elim: sorted_wrt_mono_rel [rotated])
    then show ?thesis using ne xs(1) ys(1) by (auto simp: sorted_wrt_append)
  qed
  have lx: "\<forall>x\<in>set (xs @ ys). ilegal (fst x)" using xs(1) ys(1) il by auto
  obtain items where items: "mset items = mset (xs @ ys)" "sorted_wrt (\<lambda>a b. ICompare Compare a b < 0) (map fst items)"
    using three_way.sorted_exists [OF T lx neq] by blast
  have si: "set items = (\<lambda>e. (ikey e, snd e)) ` set (es @ es')" using mset_eq_setD [OF items(1)] xs(1) ys(1) by auto
  let ?pos = "\<lambda>i. if i = 0 then p else q"
  have M: "merge ilegal (ICompare Compare) Is [xs, ys] (\<lambda>_ _. True) ?pos mtarget items"
  proof (intro merge.intro merge_axioms.intro T)
    show "seekable ilegal (ICompare Compare) (Is ! i) ([xs, ys] ! i) (\<lambda>_. True) (?pos i) mtarget" if "i < length [xs, ys]" for i
      using that xs(2) ys(2) by (auto simp: Is_def less_Suc_eq)
    show "mtarget (fst x)" if "x \<in> set items" for x using that il unfolding si by auto
  qed (use items in \<open>auto simp: Is_def mtarget_def\<close>)
  let ?w = "\<lparr>w_iter = Some None, w_valid = False, w_key = []\<rparr> :: iter wrapper"
  define mg :: "iter merging" where "mg = \<lparr>mg_children = [?w, ?w], mg_current = None, mg_direction = kForward\<rparr>"
  have mk: "mk_MergingIterator Is [None, None] = Some mg"
    by (simp add: mk_MergingIterator_def Is_def mk_wrapper_def w_Set_def w_Update_def mem_methods_def iter_Valid_def mg_def)
  have alive: "merge.malive [xs, ys] (\<lambda>_ _. True) mg"
    unfolding merge.malive_def [OF M] using seekable.w_alive_def [OF xs(2)] seekable.w_alive_def [OF ys(2)]
    by (auto simp: mg_def merge.walive_def [OF M] less_Suc_eq)
  have S: "snapshot_iter legal Compare FindShortestSeparator FindShortSuccessor (merging_methods Is (ICompare Compare)) items
      (merge.malive [xs, ys] (\<lambda>_ _. True)) (merge.mpos Is [xs, ys] ?pos items) mtarget s"
  proof (intro snapshot_iter.intro snapshot_iter_axioms.intro comparator_axioms merge.merging_seekable [OF M] s)
    show "ParseInternalKey (fst x) \<noteq> None" if "x \<in> set items" for x using that parsed_ikey fit unfolding si by auto
  qed
  have g: "good_seed (di_rnd (NewDBIterator mg s seed))" using Random_Next_correct [of 1 seed]
    by (simp add: NewDBIterator_def RandomPeriod_def Uniform_def Let_def split: prod.splits)
  have a: "snapshot_iter.good s (NewDBIterator mg s seed) \<and> merge.malive [xs, ys] (\<lambda>_ _. True) (di_iter (NewDBIterator mg s seed))"
    using g alive unfolding snapshot_iter.good_def [OF S] by (simp add: NewDBIterator_def split: prod.splits)
  have t: "snapshot_iter.dtarget mtarget s t" if "legal t" "length t + 8 < 2 ^ 32" for t
    using that by (simp add: snapshot_iter.dtarget_def [OF S] mtarget_def AppendInternalKey_def PutFixed64_eq ilegal_append)
  show ?thesis using mk si items(2) snapshot_iter.db_seekable [OF S] a t by blast
qed

end

section \<open>A new database\<close>

interpretation new_merge: merge bytewise.ilegal "ICompare BytewiseCompare" "[mem_methods BytewiseCompare mk_MemTable, mem_methods BytewiseCompare mk_MemTable]"
  "[[], []]" "\<lambda>_ _. True" "\<lambda>_. at_pos bytewise.mlegal (KeyComparator BytewiseCompare) (table mk_MemTable) []" bytewise.mtarget "[]"
  using new_mem.seekable_axioms new_mem.target_legal
  by (intro merge.intro merge_axioms.intro comparator.axioms(1) [OF bytewise.internal_comparator]) (auto simp: less_Suc_eq)

interpretation new_db: snapshot_iter "\<lambda>_. True" BytewiseCompare FindShortestSeparator FindShortSuccessor
  "merging_methods [mem_methods BytewiseCompare mk_MemTable, mem_methods BytewiseCompare mk_MemTable] (ICompare BytewiseCompare)" "[]"
  new_merge.malive new_merge.mpos bytewise.mtarget 0
  by (intro snapshot_iter.intro snapshot_iter_axioms.intro bytewise.comparator_axioms new_merge.merging_seekable) (simp_all add: kMaxSequenceNumber_def)

section \<open>Properties\<close>

text \<open>
  C1. What an iterator of the database shows. Entries with distinct sequence numbers are added to two memtables, the current one and the one that is being written to disk.
  The iterator of the database over the merging iterator over both, at a snapshot \<open>s\<close>, yields in both directions, and from any key on, the sequence \<open>view\<close>: sorted by
  user key, each user key at most once, with the value of the newest entry that the snapshot sees, unless that entry is a deletion. All loops end, also the one that draws samples with a pseudorandom period, and no assertion fails.
\<close>

theorem db_iterator:
  assumes "comparator legal ucmp sep succ" and "\<forall>e\<in>set (es @ es'). entry_fits e \<and> legal (user_key (fst e))"
    and "distinct (map (sequence \<circ> fst) (es @ es'))" and "s \<le> kMaxSequenceNumber" and "legal t" and "length t + 8 < 2 ^ 32"
  shows "\<exists>mem imm mg view. add_all ucmp es mk_MemTable = Some mem \<and> add_all ucmp es' mk_MemTable = Some imm \<and>
    (let Is = [mem_methods ucmp mem, mem_methods ucmp imm]; I = db_methods (merging_methods Is (ICompare ucmp)) ucmp; d = NewDBIterator mg s seed; n = length view
     in mk_MergingIterator Is [None, None] = Some mg \<and>
        sorted_wrt (\<lambda>a b. ucmp (fst a) (fst b) < 0) view \<and>
        set view = (\<lambda>e. (user_key (fst e), snd e)) ` {e \<in> set (es @ es'). newest ucmp s (es @ es') e} \<and>
        Option.bind (i_SeekToFirst I d) (scan (i_item I) (i_Next I) (i_Valid I) n) = Some view \<and>
        Option.bind (i_SeekToLast I d) (scan (i_item I) (i_Prev I) (i_Valid I) n) = Some (rev view) \<and>
        Option.bind (i_Seek I t d) (scan (i_item I) (i_Next I) (i_Valid I) n) = Some (dropWhile (\<lambda>kv. ucmp (fst kv) t < 0) view))"
proof -
  have fit: "\<forall>e\<in>set es. entry_fits e \<and> legal (user_key (fst e))" "\<forall>e\<in>set es'. entry_fits e \<and> legal (user_key (fst e))" using assms(2) by auto
  have d: "distinct (map (sequence \<circ> fst) es)" "distinct (map (sequence \<circ> fst) es')" using assms(3) by simp_all
  obtain mem where mem: "add_all ucmp es mk_MemTable = Some mem" "comparator.mem_repr legal ucmp mem (rev es)"
    using comparator.mem_repr_add_all [OF assms(1) comparator.mem_repr_mk [OF assms(1)] fit(1)] d(1) by auto
  obtain imm where imm: "add_all ucmp es' mk_MemTable = Some imm" "comparator.mem_repr legal ucmp imm (rev es')"
    using comparator.mem_repr_add_all [OF assms(1) comparator.mem_repr_mk [OF assms(1)] fit(2)] d(2) by auto
  let ?Is = "[mem_methods ucmp mem, mem_methods ucmp imm]" and ?es = "rev es @ rev es'"
  have f2: "\<forall>e\<in>set ?es. entry_fits e \<and> legal (user_key (fst e))" using assms(2) by auto
  have d2: "distinct (map (sequence \<circ> fst) ?es)" using assms(3) by (auto simp flip: rev_map)
  obtain mg items alive pos target where S: "mk_MergingIterator ?Is [None, None] = Some mg" "set items = (\<lambda>e. (ikey e, snd e)) ` set ?es"
    "sorted_wrt (\<lambda>a b. ICompare ucmp a b < 0) (map fst items)"
    "seekable legal ucmp (db_methods (merging_methods ?Is (ICompare ucmp)) ucmp) (user_view ucmp s items) alive pos target"
    "alive (NewDBIterator mg s seed)" "\<forall>t. legal t \<and> length t + 8 < 2 ^ 32 \<longrightarrow> target t"
    using comparator.db_over_memtables [OF assms(1) mem(2) imm(2) f2 d2 assms(4), of seed] by blast
  have "newest ucmp s ?es = newest ucmp s (es @ es')" by (auto simp: newest_def fun_eq_iff)
  then have v: "set (user_view ucmp s items) = (\<lambda>e. (user_key (fst e), snd e)) ` {e \<in> set (es @ es'). newest ucmp s (es @ es') e}"
    using comparator.user_view_entries [OF assms(1) S(2,3) f2 d2, of s] by simp
  have srt: "sorted_wrt (\<lambda>a b. ucmp (fst a) (fst b) < 0) (user_view ucmp s items)" using seekable.items_sorted [OF S(4)] by (simp add: sorted_wrt_map)
  have t: "target t" using S(6) assms(5,6) by blast
  note sc = seekable.scans [OF S(4,5)]
  show ?thesis unfolding Let_def
    by (intro exI [of _ mem] exI [of _ imm] exI [of _ mg] exI [of _ "user_view ucmp s items"] conjI mem(1) imm(1) S(1) srt v sc(1,2) sc(3) [OF t])
qed

definition sample_mem :: "entry list" where
  "sample_mem = [(\<lparr>user_key = [1], sequence = 4, vtype = kTypeDeletion\<rparr>, []), (\<lparr>user_key = [3], sequence = 3, vtype = kTypeValue\<rparr>, [6])]"

definition sample_imm :: "entry list" where
  "sample_imm = [(\<lparr>user_key = [1], sequence = 1, vtype = kTypeValue\<rparr>, [7]), (\<lparr>user_key = [2], sequence = 2, vtype = kTypeValue\<rparr>, [8])]"

theorem db_iterator_witness:
  "\<exists>mem imm mg. add_all BytewiseCompare sample_mem mk_MemTable = Some mem \<and> add_all BytewiseCompare sample_imm mk_MemTable = Some imm \<and>
    (let Is = [mem_methods BytewiseCompare mem, mem_methods BytewiseCompare imm]; I = db_methods (merging_methods Is (ICompare BytewiseCompare)) BytewiseCompare
     in mk_MergingIterator Is [None, None] = Some mg \<and>
        Option.bind (i_SeekToLast I (NewDBIterator mg 3 0)) (scan (i_item I) (i_Prev I) (i_Valid I) 3) = Some [([3], [6]), ([2], [8]), ([1], [7])])"
proof -
  let ?es = "sample_mem @ sample_imm" and ?v = "[([1], [7]), ([2], [8]), ([3], [6])] :: (slice \<times> slice) list"
  have f: "\<forall>e\<in>set ?es. entry_fits e \<and> True" by (simp add: sample_mem_def sample_imm_def entry_fits_def kMaxSequenceNumber_def)
  have d: "distinct (map (sequence \<circ> fst) ?es)" by (simp add: sample_mem_def sample_imm_def)
  have s: "(3 :: u64) \<le> kMaxSequenceNumber" by (simp add: kMaxSequenceNumber_def)
  have n: "(\<lambda>e. (user_key (fst e), snd e)) ` {e \<in> set ?es. newest BytewiseCompare 3 ?es e} = set ?v"
  proof -
    have "filter (newest BytewiseCompare 3 ?es) ?es = [(\<lparr>user_key = [3], sequence = 3, vtype = kTypeValue\<rparr>, [6]),
        (\<lparr>user_key = [1], sequence = 1, vtype = kTypeValue\<rparr>, [7]), (\<lparr>user_key = [2], sequence = 2, vtype = kTypeValue\<rparr>, [8])]" by code_simp
    then have "{e \<in> set ?es. newest BytewiseCompare 3 ?es e} = {(\<lparr>user_key = [3], sequence = 3, vtype = kTypeValue\<rparr>, [6]),
        (\<lparr>user_key = [1], sequence = 1, vtype = kTypeValue\<rparr>, [7]), (\<lparr>user_key = [2], sequence = 2, vtype = kTypeValue\<rparr>, [8])}"
      unfolding set_filter [symmetric] by simp
    then show ?thesis by auto
  qed
  have v: "sorted_wrt (\<lambda>a b. BytewiseCompare (fst a) (fst b) < 0) ?v" by code_simp
  have uniq: "view = ?v" if "sorted_wrt (\<lambda>a b. BytewiseCompare (fst a) (fst b) < 0) view" "set view = set ?v" for view
    using that v by (intro strict_sorted_unique [OF that(1) v that(2)]) (metis bytewise.compare_flip less_asym)
  obtain mem imm mg view where r: "add_all BytewiseCompare sample_mem mk_MemTable = Some mem" "add_all BytewiseCompare sample_imm mk_MemTable = Some imm"
    "mk_MergingIterator [mem_methods BytewiseCompare mem, mem_methods BytewiseCompare imm] [None, None] = Some mg"
    "sorted_wrt (\<lambda>a b. BytewiseCompare (fst a) (fst b) < 0) view" "set view = set ?v"
    "let I = db_methods (merging_methods [mem_methods BytewiseCompare mem, mem_methods BytewiseCompare imm] (ICompare BytewiseCompare)) BytewiseCompare
     in Option.bind (i_SeekToLast I (NewDBIterator mg 3 0)) (scan (i_item I) (i_Prev I) (i_Valid I) (length view)) = Some (rev view)"
    using db_iterator [OF bytewise.comparator_axioms f d s, where t = "[]" and seed = 0, unfolded n Let_def] unfolding Let_def by auto
  have "view = ?v" using uniq r(4,5) by blast
  then have l: "length view = 3" "rev view = [([3], [6]), ([2], [8]), ([1], [7])]" by simp_all
  show ?thesis using r(1-3) r(6) [unfolded l Let_def] unfolding Let_def by blast
qed

end
