(* ===== verification/VersionEdit.thy ===== *)
theory VersionEdit
  imports DbFormat "HOL-Library.Product_Lexorder"
begin

text \<open>
  db/version_edit.h and db/version_edit.cc: the records of the manifest. An internal key is its bytes; levels are natural numbers. The set of
  deleted files is the list of its elements in the order in which the code iterates over it. An assertion that fails has the value \<^term>\<open>None\<close>.
\<close>

definition kNumLevels :: nat where "kNumLevels = 7"

record FileMetaData =
  f_refs :: int
  allowed_seeks :: int
  number :: u64
  file_size :: u64
  smallest :: slice
  largest :: slice

definition mk_FileMetaData :: FileMetaData where
  "mk_FileMetaData = \<lparr>f_refs = 0, allowed_seeks = 2 ^ 30, number = 0, file_size = 0, smallest = [], largest = []\<rparr>"

record VersionEdit =
  ve_comparator :: slice
  ve_log_number :: u64
  ve_prev_log_number :: u64
  ve_next_file_number :: u64
  ve_last_sequence :: u64
  has_comparator :: bool
  has_log_number :: bool
  has_prev_log_number :: bool
  has_next_file_number :: bool
  has_last_sequence :: bool
  compact_pointers :: "(nat \<times> slice) list"
  deleted_files :: "(nat \<times> u64) list"
  new_files :: "(nat \<times> FileMetaData) list"

text \<open>\<open>Clear\<close> leaves the compaction pointers as they are.\<close>

definition ve_Clear :: "VersionEdit \<Rightarrow> VersionEdit" where
  "ve_Clear e = \<lparr>ve_comparator = [], ve_log_number = 0, ve_prev_log_number = 0, ve_next_file_number = 0, ve_last_sequence = 0,
     has_comparator = False, has_log_number = False, has_prev_log_number = False, has_next_file_number = False, has_last_sequence = False,
     compact_pointers = compact_pointers e, deleted_files = [], new_files = []\<rparr>"

definition mk_VersionEdit :: VersionEdit where
  "mk_VersionEdit = \<lparr>ve_comparator = [], ve_log_number = 0, ve_prev_log_number = 0, ve_next_file_number = 0, ve_last_sequence = 0,
     has_comparator = False, has_log_number = False, has_prev_log_number = False, has_next_file_number = False, has_last_sequence = False,
     compact_pointers = [], deleted_files = [], new_files = []\<rparr>"

definition SetComparatorName :: "slice \<Rightarrow> VersionEdit \<Rightarrow> VersionEdit" where
  "SetComparatorName name e = e\<lparr>has_comparator := True, ve_comparator := name\<rparr>"
definition SetLogNumber :: "u64 \<Rightarrow> VersionEdit \<Rightarrow> VersionEdit" where
  "SetLogNumber num e = e\<lparr>has_log_number := True, ve_log_number := num\<rparr>"
definition SetPrevLogNumber :: "u64 \<Rightarrow> VersionEdit \<Rightarrow> VersionEdit" where
  "SetPrevLogNumber num e = e\<lparr>has_prev_log_number := True, ve_prev_log_number := num\<rparr>"
definition SetNextFile :: "u64 \<Rightarrow> VersionEdit \<Rightarrow> VersionEdit" where
  "SetNextFile num e = e\<lparr>has_next_file_number := True, ve_next_file_number := num\<rparr>"
definition SetLastSequence :: "u64 \<Rightarrow> VersionEdit \<Rightarrow> VersionEdit" where
  "SetLastSequence sq e = e\<lparr>has_last_sequence := True, ve_last_sequence := sq\<rparr>"
definition SetCompactPointer :: "nat \<Rightarrow> slice \<Rightarrow> VersionEdit \<Rightarrow> VersionEdit" where
  "SetCompactPointer lvl k e = e\<lparr>compact_pointers := compact_pointers e @ [(lvl, k)]\<rparr>"
definition AddFile :: "nat \<Rightarrow> u64 \<Rightarrow> u64 \<Rightarrow> slice \<Rightarrow> slice \<Rightarrow> VersionEdit \<Rightarrow> VersionEdit" where
  "AddFile lvl file fsize small large e =
     e\<lparr>new_files := new_files e @ [(lvl, mk_FileMetaData\<lparr>number := file, file_size := fsize, smallest := small, largest := large\<rparr>)]\<rparr>"
definition DeleteFile :: "nat \<Rightarrow> u64 \<Rightarrow> VersionEdit \<Rightarrow> VersionEdit" where
  "DeleteFile lvl file e = e\<lparr>deleted_files := insort_insert (lvl, file) (deleted_files e)\<rparr>"

section \<open>Encoding\<close>

definition kComparator :: u32 where "kComparator = 1"
definition kLogNumber :: u32 where "kLogNumber = 2"
definition kNextFileNumber :: u32 where "kNextFileNumber = 3"
definition kLastSequence :: u32 where "kLastSequence = 4"
definition kCompactPointer :: u32 where "kCompactPointer = 5"
definition kDeletedFile :: u32 where "kDeletedFile = 6"
definition kNewFile :: u32 where "kNewFile = 7"
definition kPrevLogNumber :: u32 where "kPrevLogNumber = 9"

lemmas tags = kComparator_def kLogNumber_def kNextFileNumber_def kLastSequence_def kCompactPointer_def kDeletedFile_def kNewFile_def kPrevLogNumber_def

text \<open>\<open>PutLengthPrefixedSlice(dst, key.Encode())\<close>; \<open>Encode\<close> asserts that the key is not empty.\<close>

definition put_key :: "slice \<Rightarrow> byte list \<Rightarrow> byte list option" where
  "put_key k dst = (if k = [] then None else Some (PutLengthPrefixedSlice dst k))"

definition put_number :: "bool \<Rightarrow> u32 \<Rightarrow> u64 \<Rightarrow> byte list \<Rightarrow> byte list" where
  "put_number has tag num dst = (if has then PutVarint64 (PutVarint32 dst tag) num else dst)"

fun put_pointers :: "(nat \<times> slice) list \<Rightarrow> byte list \<Rightarrow> byte list option" where
  "put_pointers [] dst = Some dst"
| "put_pointers ((lvl, k) # ps) dst =
     do { dst \<leftarrow> put_key k (PutVarint32 (PutVarint32 dst kCompactPointer) (word_of_nat lvl)); put_pointers ps dst }"

fun put_deleted :: "(nat \<times> u64) list \<Rightarrow> byte list \<Rightarrow> byte list" where
  "put_deleted [] dst = dst"
| "put_deleted ((lvl, num) # ds) dst = put_deleted ds (PutVarint64 (PutVarint32 (PutVarint32 dst kDeletedFile) (word_of_nat lvl)) num)"

fun put_files :: "(nat \<times> FileMetaData) list \<Rightarrow> byte list \<Rightarrow> byte list option" where
  "put_files [] dst = Some dst"
| "put_files ((lvl, f) # fs) dst =
     do { let dst = PutVarint64 (PutVarint64 (PutVarint32 (PutVarint32 dst kNewFile) (word_of_nat lvl)) (number f)) (file_size f);
          dst \<leftarrow> put_key (smallest f) dst;
          dst \<leftarrow> put_key (largest f) dst;
          put_files fs dst }"

definition ve_EncodeTo :: "VersionEdit \<Rightarrow> byte list \<Rightarrow> byte list option" where
  "ve_EncodeTo e dst =
     do { let dst = (if has_comparator e then PutLengthPrefixedSlice (PutVarint32 dst kComparator) (ve_comparator e) else dst);
          let dst = put_number (has_log_number e) kLogNumber (ve_log_number e) dst;
          let dst = put_number (has_prev_log_number e) kPrevLogNumber (ve_prev_log_number e) dst;
          let dst = put_number (has_next_file_number e) kNextFileNumber (ve_next_file_number e) dst;
          let dst = put_number (has_last_sequence e) kLastSequence (ve_last_sequence e) dst;
          dst \<leftarrow> put_pointers (compact_pointers e) dst;
          put_files (new_files e) (put_deleted (deleted_files e) dst) }"

section \<open>Decoding\<close>

definition GetInternalKey :: "slice decoder" where
  "GetInternalKey input = GetLengthPrefixedSlice input"

definition GetLevel :: "nat decoder" where
  "GetLevel input = do { (v, input) \<leftarrow> GetVarint32 input; if v < word_of_nat kNumLevels then Some (unat v, input) else None }"

text \<open>One round of the loop: \<open>Inl\<close> is the message, which ends it.\<close>

definition expect :: "string \<Rightarrow> 'a option \<Rightarrow> string + 'a" where
  "expect msg r = (case r of None \<Rightarrow> Inl msg | Some x \<Rightarrow> Inr x)"

definition ve_field :: "u32 \<Rightarrow> slice \<Rightarrow> VersionEdit \<Rightarrow> string + VersionEdit \<times> slice" where
  "ve_field tag input e =
     (if tag = kComparator then
        expect ''comparator name'' (do { (str, input) \<leftarrow> GetLengthPrefixedSlice input; Some (e\<lparr>ve_comparator := str, has_comparator := True\<rparr>, input) })
      else if tag = kLogNumber then
        expect ''log number'' (do { (n, input) \<leftarrow> GetVarint64 input; Some (e\<lparr>ve_log_number := n, has_log_number := True\<rparr>, input) })
      else if tag = kPrevLogNumber then
        expect ''previous log number'' (do { (n, input) \<leftarrow> GetVarint64 input; Some (e\<lparr>ve_prev_log_number := n, has_prev_log_number := True\<rparr>, input) })
      else if tag = kNextFileNumber then
        expect ''next file number'' (do { (n, input) \<leftarrow> GetVarint64 input; Some (e\<lparr>ve_next_file_number := n, has_next_file_number := True\<rparr>, input) })
      else if tag = kLastSequence then
        expect ''last sequence number'' (do { (n, input) \<leftarrow> GetVarint64 input; Some (e\<lparr>ve_last_sequence := n, has_last_sequence := True\<rparr>, input) })
      else if tag = kCompactPointer then
        expect ''compaction pointer'' (do { (lvl, input) \<leftarrow> GetLevel input; (k, input) \<leftarrow> GetInternalKey input;
          Some (e\<lparr>compact_pointers := compact_pointers e @ [(lvl, k)]\<rparr>, input) })
      else if tag = kDeletedFile then
        expect ''deleted file'' (do { (lvl, input) \<leftarrow> GetLevel input; (n, input) \<leftarrow> GetVarint64 input;
          Some (e\<lparr>deleted_files := insort_insert (lvl, n) (deleted_files e)\<rparr>, input) })
      else if tag = kNewFile then
        expect ''new-file entry'' (do { (lvl, input) \<leftarrow> GetLevel input; (n, input) \<leftarrow> GetVarint64 input; (sz, input) \<leftarrow> GetVarint64 input;
          (small, input) \<leftarrow> GetInternalKey input; (large, input) \<leftarrow> GetInternalKey input;
          Some (e\<lparr>new_files := new_files e @ [(lvl, mk_FileMetaData\<lparr>number := n, file_size := sz, smallest := small, largest := large\<rparr>)]\<rparr>, input) })
      else Inl ''unknown tag'')"

lemma GetLevel_shorter: "GetLevel bs = Some (v, rest) \<Longrightarrow> length rest < length bs"
  by (auto simp: GetLevel_def bind_eq_Some_conv split: if_splits dest: varint_shorter)

lemma ve_field_shorter: "ve_field tag input e = Inr (e', rest) \<Longrightarrow> length rest < length input"
  by (auto simp: ve_field_def expect_def GetInternalKey_def bind_eq_Some_conv split: if_splits option.splits
      dest!: varint_shorter slice_shorter GetLevel_shorter)

function ve_loop :: "VersionEdit \<Rightarrow> slice \<Rightarrow> string option \<times> VersionEdit" where
  "ve_loop e input =
     (case GetVarint32 input of
        None \<Rightarrow> (if input \<noteq> [] then Some ''invalid tag'' else None, e)
      | Some (tag, input) \<Rightarrow>
          (case ve_field tag input e of Inl msg \<Rightarrow> (Some msg, e) | Inr (e, input) \<Rightarrow> ve_loop e input))"
  by pat_completeness auto
termination
  by (relation "measure (\<lambda>(_, input). length input)") (auto dest!: varint_shorter ve_field_shorter)

declare ve_loop.simps [simp del]

definition ve_DecodeFrom :: "slice \<Rightarrow> VersionEdit \<Rightarrow> status \<times> VersionEdit" where
  "ve_DecodeFrom src e =
     (case ve_loop (ve_Clear e) src of
        (None, e) \<Rightarrow> (OK, e)
      | (Some msg, e) \<Rightarrow> (Corruption (ascii ''VersionEdit'') (ascii msg), e))"

section \<open>Edits that the setters make\<close>

text \<open>Keys that are written have a user key and a tag and fit a length of 32 bits.\<close>

definition key_ok :: "slice \<Rightarrow> bool" where "key_ok k \<longleftrightarrow> k \<noteq> [] \<and> length k < 2 ^ 32"

inductive made :: "VersionEdit \<Rightarrow> bool" where
  new: "made mk_VersionEdit"
| comparator_name: "made e \<Longrightarrow> length name < 2 ^ 32 \<Longrightarrow> made (SetComparatorName name e)"
| log_number: "made e \<Longrightarrow> made (SetLogNumber n e)"
| prev_log_number: "made e \<Longrightarrow> made (SetPrevLogNumber n e)"
| next_file: "made e \<Longrightarrow> made (SetNextFile n e)"
| last_sequence: "made e \<Longrightarrow> made (SetLastSequence n e)"
| compact_pointer: "made e \<Longrightarrow> lvl < kNumLevels \<Longrightarrow> key_ok k \<Longrightarrow> made (SetCompactPointer lvl k e)"
| add_file: "made e \<Longrightarrow> lvl < kNumLevels \<Longrightarrow> key_ok small \<Longrightarrow> key_ok large \<Longrightarrow> made (AddFile lvl n sz small large e)"
| delete_file: "made e \<Longrightarrow> lvl < kNumLevels \<Longrightarrow> made (DeleteFile lvl n e)"

definition file_ok :: "FileMetaData \<Rightarrow> bool" where
  "file_ok f \<longleftrightarrow> f_refs f = 0 \<and> allowed_seeks f = 2 ^ 30 \<and> key_ok (smallest f) \<and> key_ok (largest f)"

definition edit_ok :: "VersionEdit \<Rightarrow> bool" where
  "edit_ok e \<longleftrightarrow> length (ve_comparator e) < 2 ^ 32 \<and> (has_comparator e \<or> ve_comparator e = []) \<and> (has_log_number e \<or> ve_log_number e = 0) \<and>
     (has_prev_log_number e \<or> ve_prev_log_number e = 0) \<and> (has_next_file_number e \<or> ve_next_file_number e = 0) \<and> (has_last_sequence e \<or> ve_last_sequence e = 0) \<and>
     (\<forall>(lvl, k)\<in>set (compact_pointers e). lvl < kNumLevels \<and> key_ok k) \<and>
     (\<forall>(lvl, n)\<in>set (deleted_files e). lvl < kNumLevels) \<and> sorted (deleted_files e) \<and> distinct (deleted_files e) \<and>
     (\<forall>(lvl, f)\<in>set (new_files e). lvl < kNumLevels \<and> file_ok f)"

lemma made_ok: "made e \<Longrightarrow> edit_ok e"
proof (induction rule: made.induct)
  case (delete_file e lvl n)
  then show ?case unfolding edit_ok_def DeleteFile_def by (auto simp: set_insort_insert sorted_insort_insert distinct_insort_insert)
qed (auto simp: edit_ok_def mk_VersionEdit_def SetComparatorName_def SetLogNumber_def SetPrevLogNumber_def SetNextFile_def SetLastSequence_def
  SetCompactPointer_def AddFile_def file_ok_def mk_FileMetaData_def)

section \<open>Reading what was written\<close>

lemmas put = PutVarint32_def PutVarint64_def put_key_def

lemma ve_loop_field: "ve_field tag input e = Inr (e', rest) \<Longrightarrow> ve_loop e (EncodeVarint32 tag @ input) = ve_loop e' rest"
  by (subst ve_loop.simps) (simp add: varint32.decode_encode)

lemma GetLevel_put: "lvl < kNumLevels \<Longrightarrow> GetLevel (EncodeVarint32 (word_of_nat lvl) @ rest) = Some (lvl, rest)"
  by (simp add: GetLevel_def varint32.decode_encode kNumLevels_def word_less_nat_alt unat_of_nat)

lemmas get = varint64.decode_encode varstring.decode_encode GetLevel_put GetInternalKey_def expect_def

lemma put_number_bytes: "put_number has tag n dst = dst @ put_number has tag n []"
  by (simp add: put_number_def put)

lemma put_pointers_loop:
  "\<forall>(lvl, k)\<in>set ps. lvl < kNumLevels \<and> key_ok k \<Longrightarrow>
   \<exists>bs. (\<forall>dst. put_pointers ps dst = Some (dst @ bs)) \<and>
     (\<forall>e rest. ve_loop e (bs @ rest) = ve_loop (e\<lparr>compact_pointers := compact_pointers e @ ps\<rparr>) rest)"
proof (induction ps)
  case (Cons p ps)
  obtain lvl k where p: "p = (lvl, k)" by fastforce
  then have l: "lvl < kNumLevels" "k \<noteq> []" "length k < 2 ^ 32" using Cons.prems by (auto simp: key_ok_def)
  let ?b = "EncodeVarint32 (word_of_nat lvl) @ PutLengthPrefixedSlice [] k"
  obtain bs where bs: "\<forall>dst. put_pointers ps dst = Some (dst @ bs)" "\<forall>e rest. ve_loop e (bs @ rest) = ve_loop (e\<lparr>compact_pointers := compact_pointers e @ ps\<rparr>) rest"
    using Cons by auto
  have "put_pointers (p # ps) dst = Some (dst @ EncodeVarint32 kCompactPointer @ ?b @ bs)" for dst
    using bs(1) l(2) by (simp add: p put PutLengthPrefixedSlice_def)
  moreover have "ve_field kCompactPointer (?b @ bs @ rest) e = Inr (e\<lparr>compact_pointers := compact_pointers e @ [(lvl, k)]\<rparr>, bs @ rest)" for e rest
    using l by (simp add: ve_field_def get) (simp add: tags)
  then have "ve_loop e ((EncodeVarint32 kCompactPointer @ ?b @ bs) @ rest) = ve_loop (e\<lparr>compact_pointers := compact_pointers e @ p # ps\<rparr>) rest" for e rest
    using bs(2) ve_loop_field [of kCompactPointer "?b @ bs @ rest" e] by (simp add: p)
  ultimately show ?case by blast
qed (auto intro: exI [of _ "[]"])

lemma put_deleted_loop:
  "\<forall>(lvl, n)\<in>set ds. lvl < kNumLevels \<Longrightarrow>
   \<exists>bs. (\<forall>dst. put_deleted ds dst = dst @ bs) \<and>
     (\<forall>e rest. ve_loop e (bs @ rest) = ve_loop (e\<lparr>deleted_files := fold insort_insert ds (deleted_files e)\<rparr>) rest)"
proof (induction ds)
  case (Cons d ds)
  obtain lvl n where d: "d = (lvl, n)" by fastforce
  then have l: "lvl < kNumLevels" using Cons.prems by auto
  let ?b = "EncodeVarint32 (word_of_nat lvl) @ EncodeVarint64 n"
  obtain bs where bs: "\<forall>dst. put_deleted ds dst = dst @ bs" "\<forall>e rest. ve_loop e (bs @ rest) = ve_loop (e\<lparr>deleted_files := fold insort_insert ds (deleted_files e)\<rparr>) rest"
    using Cons by auto
  have "put_deleted (d # ds) dst = dst @ EncodeVarint32 kDeletedFile @ ?b @ bs" for dst using bs(1) by (simp add: d put)
  moreover have "ve_field kDeletedFile (?b @ bs @ rest) e = Inr (e\<lparr>deleted_files := insort_insert (lvl, n) (deleted_files e)\<rparr>, bs @ rest)" for e rest
    using l by (simp add: ve_field_def get) (simp add: tags)
  then have "ve_loop e ((EncodeVarint32 kDeletedFile @ ?b @ bs) @ rest) = ve_loop (e\<lparr>deleted_files := fold insort_insert (d # ds) (deleted_files e)\<rparr>) rest" for e rest
    using bs(2) ve_loop_field [of kDeletedFile "?b @ bs @ rest" e] by (simp add: d)
  ultimately show ?case by blast
qed (auto intro: exI [of _ "[]"])

lemma put_files_loop:
  "\<forall>(lvl, f)\<in>set fs. lvl < kNumLevels \<and> file_ok f \<Longrightarrow>
   \<exists>bs. (\<forall>dst. put_files fs dst = Some (dst @ bs)) \<and>
     (\<forall>e rest. ve_loop e (bs @ rest) = ve_loop (e\<lparr>new_files := new_files e @ fs\<rparr>) rest)"
proof (induction fs)
  case (Cons x fs)
  obtain lvl f where x: "x = (lvl, f)" by fastforce
  then have l: "lvl < kNumLevels" "file_ok f" using Cons.prems by auto
  let ?b = "EncodeVarint32 (word_of_nat lvl) @ EncodeVarint64 (number f) @ EncodeVarint64 (file_size f) @ PutLengthPrefixedSlice [] (smallest f) @ PutLengthPrefixedSlice [] (largest f)"
  obtain bs where bs: "\<forall>dst. put_files fs dst = Some (dst @ bs)" "\<forall>e rest. ve_loop e (bs @ rest) = ve_loop (e\<lparr>new_files := new_files e @ fs\<rparr>) rest"
    using Cons by auto
  have "put_files (x # fs) dst = Some (dst @ EncodeVarint32 kNewFile @ ?b @ bs)" for dst
    using bs(1) l(2) by (simp add: x put PutLengthPrefixedSlice_def file_ok_def key_ok_def)
  moreover have f: "mk_FileMetaData\<lparr>number := number f, file_size := file_size f, smallest := smallest f, largest := largest f\<rparr> = f"
    using l(2) by (cases f) (simp add: file_ok_def mk_FileMetaData_def)
  have t: "kNewFile \<noteq> kComparator" "kNewFile \<noteq> kLogNumber" "kNewFile \<noteq> kPrevLogNumber" "kNewFile \<noteq> kNextFileNumber" "kNewFile \<noteq> kLastSequence"
    "kNewFile \<noteq> kCompactPointer" "kNewFile \<noteq> kDeletedFile" by (simp_all add: tags)
  have k: "length (smallest f) < 2 ^ 32" "length (largest f) < 2 ^ 32" using l(2) by (simp_all add: file_ok_def key_ok_def)
  have "ve_field kNewFile (?b @ bs @ rest) e = Inr (e\<lparr>new_files := new_files e @ [(lvl, f)]\<rparr>, bs @ rest)" for e rest
    unfolding ve_field_def using t l(1) k by (simp add: get f)
  then have "ve_loop e ((EncodeVarint32 kNewFile @ ?b @ bs) @ rest) = ve_loop (e\<lparr>new_files := new_files e @ x # fs\<rparr>) rest" for e rest
    using bs(2) ve_loop_field [of kNewFile "?b @ bs @ rest" e] by (simp add: x)
  ultimately show ?case by blast
qed (auto intro: exI [of _ "[]"])

lemma insert_sorted_all: "sorted (xs @ ds) \<Longrightarrow> distinct (xs @ ds) \<Longrightarrow> fold insort_insert ds xs = xs @ ds"
proof (induction ds arbitrary: xs)
  case (Cons d ds)
  have "insort_insert d xs = xs @ [d]" using Cons.prems by (subst insort_insert_insort) (auto simp: sorted_append intro!: sorted_insort_is_snoc)
  then show ?case using Cons.IH [of "xs @ [d]"] Cons.prems by simp
qed simp

definition put_head :: "VersionEdit \<Rightarrow> byte list \<Rightarrow> byte list" where
  "put_head e dst =
     put_number (has_last_sequence e) kLastSequence (ve_last_sequence e) (put_number (has_next_file_number e) kNextFileNumber (ve_next_file_number e)
       (put_number (has_prev_log_number e) kPrevLogNumber (ve_prev_log_number e) (put_number (has_log_number e) kLogNumber (ve_log_number e)
         (if has_comparator e then PutLengthPrefixedSlice (PutVarint32 dst kComparator) (ve_comparator e) else dst))))"

lemma ve_number_loop:
  "ve_loop e (put_number True kLogNumber n [] @ rest) = ve_loop (e\<lparr>ve_log_number := n, has_log_number := True\<rparr>) rest"
  "ve_loop e (put_number True kPrevLogNumber n [] @ rest) = ve_loop (e\<lparr>ve_prev_log_number := n, has_prev_log_number := True\<rparr>) rest"
  "ve_loop e (put_number True kNextFileNumber n [] @ rest) = ve_loop (e\<lparr>ve_next_file_number := n, has_next_file_number := True\<rparr>) rest"
  "ve_loop e (put_number True kLastSequence n [] @ rest) = ve_loop (e\<lparr>ve_last_sequence := n, has_last_sequence := True\<rparr>) rest"
  by (simp_all add: put_number_def put, rule_tac [!] ve_loop_field) (simp_all add: ve_field_def get, simp_all add: tags)

lemma ve_comparator_loop:
  "length name < 2 ^ 32 \<Longrightarrow>
   ve_loop e (PutLengthPrefixedSlice (PutVarint32 [] kComparator) name @ rest) = ve_loop (e\<lparr>ve_comparator := name, has_comparator := True\<rparr>) rest"
proof -
  assume "length name < 2 ^ 32"
  then have "ve_field kComparator (PutLengthPrefixedSlice [] name @ rest) e = Inr (e\<lparr>ve_comparator := name, has_comparator := True\<rparr>, rest)"
    by (simp add: ve_field_def get)
  then show ?thesis using ve_loop_field [of kComparator "PutLengthPrefixedSlice [] name @ rest"] by (simp add: PutLengthPrefixedSlice_def put)
qed

lemma put_head_bytes:
  "put_head e dst = dst @ (if has_comparator e then PutLengthPrefixedSlice (PutVarint32 [] kComparator) (ve_comparator e) else []) @
     put_number (has_log_number e) kLogNumber (ve_log_number e) [] @ put_number (has_prev_log_number e) kPrevLogNumber (ve_prev_log_number e) [] @
     put_number (has_next_file_number e) kNextFileNumber (ve_next_file_number e) [] @ put_number (has_last_sequence e) kLastSequence (ve_last_sequence e) []"
  by (simp add: put_head_def put_number_def put PutLengthPrefixedSlice_def)

definition head_of :: "VersionEdit \<Rightarrow> VersionEdit" where
  "head_of e = \<lparr>ve_comparator = ve_comparator e, ve_log_number = ve_log_number e, ve_prev_log_number = ve_prev_log_number e,
     ve_next_file_number = ve_next_file_number e, ve_last_sequence = ve_last_sequence e, has_comparator = has_comparator e, has_log_number = has_log_number e,
     has_prev_log_number = has_prev_log_number e, has_next_file_number = has_next_file_number e, has_last_sequence = has_last_sequence e,
     compact_pointers = [], deleted_files = [], new_files = []\<rparr>"

lemma head_of_whole: "head_of e\<lparr>compact_pointers := compact_pointers e, deleted_files := deleted_files e, new_files := new_files e\<rparr> = e"
  by (simp add: head_of_def)

lemma put_number_False [simp]: "put_number False tag n dst = dst"
  by (simp add: put_number_def)

lemma put_head_loop:
  assumes "edit_ok e"
  shows "ve_loop (ve_Clear mk_VersionEdit) (put_head e [] @ rest) = ve_loop (head_of e) rest"
  using assms unfolding put_head_bytes edit_ok_def head_of_def ve_Clear_def mk_VersionEdit_def
  by (cases "has_comparator e"; cases "has_log_number e"; cases "has_prev_log_number e"; cases "has_next_file_number e"; cases "has_last_sequence e")
    (simp_all add: ve_comparator_loop ve_number_loop)

section \<open>Properties\<close>

text \<open>
  C35. Manifest records round trip: every edit that the setters make, in any order and number, is encoded, and decoding the bytes into a new
  edit gives the same edit, with the files to delete as a set and the pointers and new files in their order.
\<close>

theorem version_edit_roundtrip:
  assumes "made e"
  shows "\<exists>bs. ve_EncodeTo e dst = Some (dst @ bs) \<and> ve_DecodeFrom bs mk_VersionEdit = (OK, e)"
proof -
  note E = made_ok [OF assms]
  obtain ps where ps: "\<forall>dst. put_pointers (compact_pointers e) dst = Some (dst @ ps)"
    "\<forall>x rest. ve_loop x (ps @ rest) = ve_loop (x\<lparr>compact_pointers := compact_pointers x @ compact_pointers e\<rparr>) rest"
    using put_pointers_loop [of "compact_pointers e"] E unfolding edit_ok_def by blast
  obtain ds where ds: "\<forall>dst. put_deleted (deleted_files e) dst = dst @ ds"
    "\<forall>x rest. ve_loop x (ds @ rest) = ve_loop (x\<lparr>deleted_files := fold insort_insert (deleted_files e) (deleted_files x)\<rparr>) rest"
    using put_deleted_loop [of "deleted_files e"] E unfolding edit_ok_def by blast
  obtain fs where fs: "\<forall>dst. put_files (new_files e) dst = Some (dst @ fs)"
    "\<forall>x rest. ve_loop x (fs @ rest) = ve_loop (x\<lparr>new_files := new_files x @ new_files e\<rparr>) rest"
    using put_files_loop [of "new_files e"] E unfolding edit_ok_def by blast
  have d: "fold insort_insert (deleted_files e) [] = deleted_files e" using insert_sorted_all [of "[]" "deleted_files e"] E unfolding edit_ok_def by simp
  have "ve_EncodeTo e dst = Some (put_head e dst @ ps @ ds @ fs)" using ps(1) ds(1) fs(1) by (simp add: ve_EncodeTo_def put_head_def)
  then have enc: "ve_EncodeTo e dst = Some (dst @ put_head e [] @ ps @ ds @ fs)" using put_head_bytes [of e dst] put_head_bytes [of e "[]"] by simp
  have "ve_loop (ve_Clear mk_VersionEdit) ((put_head e [] @ ps @ ds @ fs) @ []) = ve_loop (head_of e) ((ps @ ds @ fs) @ [])"
    using put_head_loop [OF E, of "ps @ ds @ fs"] by simp
  also have "\<dots> = ve_loop (head_of e\<lparr>compact_pointers := compact_pointers e, deleted_files := deleted_files e, new_files := new_files e\<rparr>) []"
    using ps(2) ds(2) fs(2) [rule_format, of _ "[]"] d by (simp add: head_of_def)
  also have "\<dots> = ve_loop e []" unfolding head_of_whole ..
  also have "\<dots> = (None, e)" by (subst ve_loop.simps) (simp add: GetVarint32_leb)
  finally show ?thesis using enc by (simp add: ve_DecodeFrom_def)
qed

theorem version_edit_roundtrip_witness:
  "\<exists>bs. ve_EncodeTo (DeleteFile 2 7 (AddFile 1 9 100 [1, 2] [3] (SetLogNumber 5 mk_VersionEdit))) [] = Some bs \<and>
     ve_DecodeFrom bs mk_VersionEdit = (OK, DeleteFile 2 7 (AddFile 1 9 100 [1, 2] [3] (SetLogNumber 5 mk_VersionEdit)))"
proof -
  have "made (DeleteFile 2 7 (AddFile 1 9 100 [1, 2] [3] (SetLogNumber 5 mk_VersionEdit)))"
    by (intro made.intros) (simp_all add: kNumLevels_def key_ok_def)
  from version_edit_roundtrip [OF this, of "[]"] show ?thesis by simp
qed

definition levels_ok :: "VersionEdit \<Rightarrow> bool" where
  "levels_ok e \<longleftrightarrow> (\<forall>(lvl, _)\<in>set (compact_pointers e). lvl < kNumLevels) \<and> (\<forall>(lvl, _)\<in>set (deleted_files e). lvl < kNumLevels) \<and>
     (\<forall>(lvl, _)\<in>set (new_files e). lvl < kNumLevels) \<and> sorted (deleted_files e) \<and> distinct (deleted_files e)"

lemma GetLevel_range: "GetLevel bs = Some (v, rest) \<Longrightarrow> v < kNumLevels"
  by (auto simp: GetLevel_def bind_eq_Some_conv kNumLevels_def word_less_nat_alt split: if_splits)

lemma ve_field_levels: "levels_ok e \<Longrightarrow> ve_field tag input e = Inr (e', rest) \<Longrightarrow> levels_ok e'"
  by (auto simp: ve_field_def expect_def levels_ok_def bind_eq_Some_conv set_insort_insert sorted_insort_insert distinct_insort_insert
      dest: GetLevel_range split: if_splits option.splits)

lemma ve_loop_levels: "levels_ok e \<Longrightarrow> levels_ok (snd (ve_loop e input))"
proof (induction e input rule: ve_loop.induct)
  case (1 e input)
  show ?case
  proof (cases "GetVarint32 input")
    case (Some r)
    obtain tag q where r: "r = (tag, q)" by fastforce
    show ?thesis
    proof (cases "ve_field tag q e")
      case (Inr s)
      obtain e' q' where s: "s = (e', q')" by fastforce
      then show ?thesis using 1 Some r Inr ve_field_levels [of e tag q e' q'] by (subst ve_loop.simps) simp
    qed (use Some r 1 in \<open>subst ve_loop.simps, simp\<close>)
  qed (use 1 in \<open>subst ve_loop.simps, simp\<close>)
qed

text \<open>
  C36. Whatever bytes a manifest holds, decoding ends and every level in the edit is below the number of levels, so that the version builder can
  index its arrays with it; the files to delete are a set.
\<close>

theorem version_edit_levels:
  assumes "levels_ok e" and "ve_DecodeFrom src e = (s, e')"
  shows "levels_ok e'"
proof -
  have "levels_ok (ve_Clear e)" using assms(1) by (auto simp: levels_ok_def ve_Clear_def)
  from ve_loop_levels [OF this, of src] show ?thesis using assms(2) by (auto simp: ve_DecodeFrom_def split: prod.splits option.splits)
qed

theorem version_edit_levels_witness:
  "levels_ok (snd (ve_DecodeFrom [5, 9, 1, 1] mk_VersionEdit)) \<and> fst (ve_DecodeFrom [5, 9, 1, 1] mk_VersionEdit) \<noteq> OK"
proof -
  have "levels_ok mk_VersionEdit" by (simp add: levels_ok_def mk_VersionEdit_def)
  then have "levels_ok (snd (ve_DecodeFrom [5, 9, 1, 1] mk_VersionEdit))" using version_edit_levels by (metis prod.collapse)
  moreover have "fst (ve_DecodeFrom [5, 9, 1, 1] mk_VersionEdit) = Corruption (ascii ''VersionEdit'') (ascii ''compaction pointer'')" by code_simp
  moreover have "Corruption (ascii ''VersionEdit'') (ascii ''compaction pointer'') \<noteq> OK" by code_simp
  ultimately show ?thesis by simp
qed

text \<open>
  \<open>Clear\<close> keeps the compaction pointers, so that decoding into an edit that was used before gives the pointers of the old edit as well.
\<close>

theorem Clear_keeps_pointers:
  "ve_DecodeFrom [] (SetCompactPointer 1 [7] mk_VersionEdit) = (OK, mk_VersionEdit\<lparr>compact_pointers := [(1, [7])]\<rparr>)"
  by code_simp

end
