(* ===== verification/VersionFiles.thy ===== *)
theory VersionFiles
  imports VersionEdit DbIterCorrect
begin

text \<open>
  db/version_set.cc, first part: the tables of a level and the ranges of keys they cover. A file is its \<open>FileMetaData\<close>; a vector of pointers to files is the list of the
  files. The bounds of a range are user keys, where \<^term>\<open>None\<close> is the null pointer of the code and means no bound. Indices into a vector of files are natural
  numbers: they stay far below the limit of 32 bits.
\<close>

section \<open>Sizes\<close>

text \<open>
  The option \<open>max_file_size\<close> is a \<open>size_t\<close>; \<open>TargetFileSize\<close> returns it as an \<open>int\<close>, and the multiples of it are computed in \<open>int\<close> before they are
  converted to 64 bits.
\<close>

definition TargetFileSize :: "u64 \<Rightarrow> 32 word" where "TargetFileSize max_file_size = ucast max_file_size"

definition MaxGrandParentOverlapBytes :: "u64 \<Rightarrow> int" where "MaxGrandParentOverlapBytes max_file_size = sint (10 * TargetFileSize max_file_size)"

definition ExpandedCompactionByteSizeLimit :: "u64 \<Rightarrow> int" where "ExpandedCompactionByteSizeLimit max_file_size = sint (25 * TargetFileSize max_file_size)"

definition MaxFileSizeForLevel :: "u64 \<Rightarrow> nat \<Rightarrow> u64" where "MaxFileSizeForLevel max_file_size level = scast (TargetFileSize max_file_size)"

text \<open>The loop of \<open>TotalFileSize\<close>: the sum wraps around in 64 bits and is read as a signed number.\<close>

definition TotalFileSize :: "FileMetaData list \<Rightarrow> int" where
  "TotalFileSize files = sint (fold (\<lambda>f s. s + file_size f) files 0)"

section \<open>Files and ranges\<close>

definition mk_InternalKey :: "slice \<Rightarrow> u64 \<Rightarrow> ValueType \<Rightarrow> slice" where
  "mk_InternalKey u s t = AppendInternalKey [] \<lparr>user_key = u, sequence = s, vtype = t\<rparr>"

function find_file :: "(slice \<Rightarrow> slice \<Rightarrow> int) \<Rightarrow> FileMetaData list \<Rightarrow> slice \<Rightarrow> nat \<Rightarrow> nat \<Rightarrow> nat" where
  "find_file ucmp files k lo hi =
     (if lo < hi then
        let mid = (lo + hi) div 2
        in if ICompare ucmp (largest (files ! mid)) k < 0 then find_file ucmp files k (mid + 1) hi else find_file ucmp files k lo mid
      else hi)"
  by pat_completeness auto
termination by (relation "measure (\<lambda>(_, _, _, lo, hi). hi - lo)") auto

declare find_file.simps [simp del]

definition FindFile :: "(slice \<Rightarrow> slice \<Rightarrow> int) \<Rightarrow> FileMetaData list \<Rightarrow> slice \<Rightarrow> nat" where
  "FindFile ucmp files k = find_file ucmp files k 0 (length files)"

definition AfterFile :: "(slice \<Rightarrow> slice \<Rightarrow> int) \<Rightarrow> slice option \<Rightarrow> FileMetaData \<Rightarrow> bool" where
  "AfterFile ucmp ukey f = (case ukey of None \<Rightarrow> False | Some u \<Rightarrow> ucmp u (ExtractUserKey (largest f)) > 0)"

definition BeforeFile :: "(slice \<Rightarrow> slice \<Rightarrow> int) \<Rightarrow> slice option \<Rightarrow> FileMetaData \<Rightarrow> bool" where
  "BeforeFile ucmp ukey f = (case ukey of None \<Rightarrow> False | Some u \<Rightarrow> ucmp u (ExtractUserKey (smallest f)) < 0)"

fun check_files :: "(slice \<Rightarrow> slice \<Rightarrow> int) \<Rightarrow> FileMetaData list \<Rightarrow> slice option \<Rightarrow> slice option \<Rightarrow> bool" where
  "check_files ucmp [] lo hi = False"
| "check_files ucmp (f # files) lo hi = (if AfterFile ucmp lo f \<or> BeforeFile ucmp hi f then check_files ucmp files lo hi else True)"

definition SomeFileOverlapsRange :: "(slice \<Rightarrow> slice \<Rightarrow> int) \<Rightarrow> bool \<Rightarrow> FileMetaData list \<Rightarrow> slice option \<Rightarrow> slice option \<Rightarrow> bool" where
  "SomeFileOverlapsRange ucmp disjoint_sorted_files files lo hi =
     (if \<not> disjoint_sorted_files then check_files ucmp files lo hi
      else
        let index = (case lo of None \<Rightarrow> 0 | Some u \<Rightarrow> FindFile ucmp files (mk_InternalKey u kMaxSequenceNumber kValueTypeForSeek))
        in if index \<ge> length files then False else \<not> BeforeFile ucmp hi (files ! index))"

section \<open>Versions\<close>

definition kMaxMemCompactLevel :: nat where "kMaxMemCompactLevel = 2"

text \<open>The files of a version; \<open>file_to_compact_\<close> points to the file that was sought too often, with its level. The score and level that \<open>Finalize\<close> computes are not part of it.\<close>

record Version =
  v_files :: "FileMetaData list list"
  file_to_compact :: "FileMetaData option"
  file_to_compact_level :: int

definition OverlapInLevel :: "(slice \<Rightarrow> slice \<Rightarrow> int) \<Rightarrow> Version \<Rightarrow> nat \<Rightarrow> slice option \<Rightarrow> slice option \<Rightarrow> bool" where
  "OverlapInLevel ucmp v level lo hi = SomeFileOverlapsRange ucmp (level > 0) (v_files v ! level) lo hi"

text \<open>The loop of \<open>GetOverlappingInputs\<close>: at level 0 a file that extends the range starts the search again.\<close>

partial_function (option) overlap_loop ::
  "(slice \<Rightarrow> slice \<Rightarrow> int) \<Rightarrow> bool \<Rightarrow> FileMetaData list \<Rightarrow> slice option \<Rightarrow> slice option \<Rightarrow> nat \<Rightarrow> FileMetaData list \<Rightarrow> FileMetaData list option" where
  "overlap_loop ucmp level0 files user_begin user_end i inputs =
     (if i < length files then
        let f = files ! i; file_start = ExtractUserKey (smallest f); file_limit = ExtractUserKey (largest f)
        in if (case user_begin of None \<Rightarrow> False | Some b \<Rightarrow> ucmp file_limit b < 0) then overlap_loop ucmp level0 files user_begin user_end (i + 1) inputs
           else if (case user_end of None \<Rightarrow> False | Some e \<Rightarrow> ucmp file_start e > 0) then overlap_loop ucmp level0 files user_begin user_end (i + 1) inputs
           else if level0 \<and> (case user_begin of None \<Rightarrow> False | Some b \<Rightarrow> ucmp file_start b < 0) then
             overlap_loop ucmp level0 files (Some file_start) user_end 0 []
           else if level0 \<and> (case user_end of None \<Rightarrow> False | Some e \<Rightarrow> ucmp file_limit e > 0) then
             overlap_loop ucmp level0 files user_begin (Some file_limit) 0 []
           else overlap_loop ucmp level0 files user_begin user_end (i + 1) (inputs @ [f])
      else Some inputs)"

declare overlap_loop.simps [code]

definition GetOverlappingInputs ::
  "(slice \<Rightarrow> slice \<Rightarrow> int) \<Rightarrow> Version \<Rightarrow> nat \<Rightarrow> slice option \<Rightarrow> slice option \<Rightarrow> FileMetaData list option" where
  "GetOverlappingInputs ucmp v level begin_key end_key =
     (if level < kNumLevels then
        overlap_loop ucmp (level = 0) (v_files v ! level) (map_option ExtractUserKey begin_key) (map_option ExtractUserKey end_key) 0 []
      else None)"

text \<open>The loop of \<open>PickLevelForMemTableOutput\<close>; the first argument is the number of rounds left, \<open>kMaxMemCompactLevel - level\<close>.\<close>

fun pick_level :: "nat \<Rightarrow> (slice \<Rightarrow> slice \<Rightarrow> int) \<Rightarrow> u64 \<Rightarrow> Version \<Rightarrow> slice \<Rightarrow> slice \<Rightarrow> nat \<Rightarrow> nat option" where
  "pick_level 0 ucmp mfs v lo hi level = Some level"
| "pick_level (Suc n) ucmp mfs v lo hi level =
     (if OverlapInLevel ucmp v (level + 1) (Some lo) (Some hi) then Some level
      else if level + 2 < kNumLevels then
        do { overlaps \<leftarrow> GetOverlappingInputs ucmp v (level + 2) (Some (mk_InternalKey lo kMaxSequenceNumber kValueTypeForSeek)) (Some (mk_InternalKey hi 0 kTypeDeletion));
             if TotalFileSize overlaps > MaxGrandParentOverlapBytes mfs then Some level else pick_level n ucmp mfs v lo hi (level + 1) }
      else pick_level n ucmp mfs v lo hi (level + 1))"

definition PickLevelForMemTableOutput :: "(slice \<Rightarrow> slice \<Rightarrow> int) \<Rightarrow> u64 \<Rightarrow> Version \<Rightarrow> slice \<Rightarrow> slice \<Rightarrow> nat option" where
  "PickLevelForMemTableOutput ucmp mfs v lo hi =
     (if OverlapInLevel ucmp v 0 (Some lo) (Some hi) then Some 0 else pick_level kMaxMemCompactLevel ucmp mfs v lo hi 0)"

section \<open>Specification\<close>

text \<open>A file overlaps a range, another file, and a file is linked to a range by a chain of files that overlap.\<close>

definition within :: "(slice \<Rightarrow> slice \<Rightarrow> int) \<Rightarrow> slice option \<Rightarrow> slice option \<Rightarrow> FileMetaData \<Rightarrow> bool" where
  "within ucmp lo hi f \<longleftrightarrow> (\<forall>u. lo = Some u \<longrightarrow> \<not> ucmp (ExtractUserKey (largest f)) u < 0) \<and> (\<forall>u. hi = Some u \<longrightarrow> \<not> ucmp (ExtractUserKey (smallest f)) u > 0)"

inductive linked :: "(slice \<Rightarrow> slice \<Rightarrow> int) \<Rightarrow> FileMetaData list \<Rightarrow> slice option \<Rightarrow> slice option \<Rightarrow> FileMetaData \<Rightarrow> bool"
  for ucmp files lo hi where
  linked_range: "f \<in> set files \<Longrightarrow> within ucmp lo hi f \<Longrightarrow> linked ucmp files lo hi f"
| linked_file: "linked ucmp files lo hi f \<Longrightarrow> g \<in> set files \<Longrightarrow>
    within ucmp (Some (ExtractUserKey (smallest f))) (Some (ExtractUserKey (largest f))) g \<Longrightarrow> linked ucmp files lo hi g"

text \<open>A file of the database, a level above 0 (sorted files that do not overlap), and a version.\<close>

definition file_ok :: "(slice \<Rightarrow> bool) \<Rightarrow> (slice \<Rightarrow> slice \<Rightarrow> int) \<Rightarrow> FileMetaData \<Rightarrow> bool" where
  "file_ok legal ucmp f \<longleftrightarrow> (\<forall>k\<in>{smallest f, largest f}. legal (ExtractUserKey k) \<and> ParseInternalKey k \<noteq> None) \<and> ICompare ucmp (smallest f) (largest f) \<le> 0"

definition disjoint_files :: "(slice \<Rightarrow> slice \<Rightarrow> int) \<Rightarrow> FileMetaData list \<Rightarrow> bool" where
  "disjoint_files ucmp files \<longleftrightarrow> sorted_wrt (\<lambda>f g. ICompare ucmp (largest f) (smallest g) < 0) files"

definition version_ok :: "(slice \<Rightarrow> bool) \<Rightarrow> (slice \<Rightarrow> slice \<Rightarrow> int) \<Rightarrow> Version \<Rightarrow> bool" where
  "version_ok legal ucmp v \<longleftrightarrow> length (v_files v) = kNumLevels \<and>
     (\<forall>level<kNumLevels. (\<forall>f\<in>set (v_files v ! level). file_ok legal ucmp f) \<and> (level > 0 \<longrightarrow> disjoint_files ucmp (v_files v ! level)))"

lemma parsed_long: "ParseInternalKey k \<noteq> None \<Longrightarrow> 8 \<le> length k"
  by (auto simp: ParseInternalKey_def Let_def split: if_splits)

context comparator
begin

abbreviation fstart where "fstart f \<equiv> ExtractUserKey (smallest f)"
abbreviation flimit where "flimit f \<equiv> ExtractUserKey (largest f)"

lemmas ithree = comparator.axioms(1) [OF internal_comparator]

lemma file_okD:
  assumes "file_ok legal Compare f"
  shows "ilegal (smallest f)" "ilegal (largest f)" "legal (fstart f)" "legal (flimit f)" "Compare (fstart f) (flimit f) \<le> 0" "ICompare Compare (smallest f) (largest f) \<le> 0"
  using assms parsed_long by (auto simp: file_ok_def ilegal_def icompare_le)

text \<open>The binary search finds the rank of the key among the largest keys.\<close>

lemma find_file_rank:
  assumes "sorted_wrt (\<lambda>a b. ICompare Compare a b < 0) (map largest files)" and "\<forall>f\<in>set files. ilegal (largest f)" and "ilegal k"
    and "lo \<le> rank (ICompare Compare) k (map largest files)" and "rank (ICompare Compare) k (map largest files) \<le> hi" and "hi \<le> length files"
  shows "find_file Compare files k lo hi = rank (ICompare Compare) k (map largest files)"
  using assms(4-6)
proof (induction "hi - lo" arbitrary: lo hi rule: less_induct)
  case less
  let ?r = "rank (ICompare Compare) k (map largest files)" and ?m = "(lo + hi) div 2"
  show ?case
  proof (cases "lo < hi")
    case True
    then have m: "lo \<le> ?m" "?m < hi" "?m < length files" using less.prems(3) by auto
    have "?m < ?r" if "ICompare Compare (largest (files ! ?m)) k < 0"
      using three_way.rank_greater [OF ithree assms(1) _ assms(3), of ?m] assms(2) m(3) that by simp
    moreover have "ICompare Compare (largest (files ! ?m)) k < 0" if "?m < ?r"
      using three_way.before_rank [OF ithree that] m(3) by simp
    ultimately have "ICompare Compare (largest (files ! ?m)) k < 0 \<longleftrightarrow> ?m < ?r" by blast
    then show ?thesis using True m less.hyps [of hi "?m + 1"] less.hyps [of ?m lo] less.prems by (subst find_file.simps) (auto simp: Let_def not_less Suc_le_eq)
  qed (use less.prems in \<open>subst find_file.simps, simp\<close>)
qed

lemma disjoint_largest:
  assumes "disjoint_files Compare files" and "\<forall>f\<in>set files. file_ok legal Compare f"
  shows "sorted_wrt (\<lambda>a b. ICompare Compare a b < 0) (map largest files)"
proof -
  have "ICompare Compare (largest f) (largest g) < 0" if "f \<in> set files" "g \<in> set files" "ICompare Compare (largest f) (smallest g) < 0" for f g
    using three_way.compare_less_trans(2) [OF ithree _ _ _ that(3)] file_okD [of f] file_okD [of g] assms(2) that by blast
  then show ?thesis unfolding sorted_wrt_map by (rule sorted_wrt_mono_rel [OF _ assms(1) [unfolded disjoint_files_def]])
qed

lemma FindFile_rank:
  assumes "disjoint_files Compare files" and "\<forall>f\<in>set files. file_ok legal Compare f" and "ilegal k"
  shows "FindFile Compare files k = rank (ICompare Compare) k (map largest files)"
  unfolding FindFile_def
  by (rule find_file_rank [OF disjoint_largest [OF assms(1,2)] _ assms(3)]) (use assms(2) file_okD length_takeWhile_le [of _ "map largest files"] in \<open>auto simp: rank_def\<close>)

text \<open>The key that the code makes from a user key comes before all keys of this user key.\<close>

lemma seek_key:
  assumes "ilegal k" and "ParseInternalKey k \<noteq> None" and "legal u"
  shows "ilegal (mk_InternalKey u kMaxSequenceNumber kValueTypeForSeek)"
    and "ICompare Compare k (mk_InternalKey u kMaxSequenceNumber kValueTypeForSeek) < 0 \<longleftrightarrow> Compare (ExtractUserKey k) u < 0"
proof -
  obtain p where p: "ParseInternalKey k = Some p" using assms(2) by blast
  have "sequence p \<le> kMaxSequenceNumber"
  proof -
    have "unat (key_num k) < 2 ^ LENGTH(64)" by (rule unsigned_less)
    then have "unat (drop_bit 8 (key_num k)) < 2 ^ 56" by (simp add: unat_drop_bit_div less_mult_imp_div_less)
    then show ?thesis using parse_facts(2) [OF p] by (simp add: word_le_nat_alt kMaxSequenceNumber_def)
  qed
  then have n: "\<not> PackSequenceAndType kMaxSequenceNumber kValueTypeForSeek < key_num k" using seek_key_num [OF p, of kMaxSequenceNumber] by auto
  show "ilegal (mk_InternalKey u kMaxSequenceNumber kValueTypeForSeek)" using assms(3) by (simp add: mk_InternalKey_def AppendInternalKey_def PutFixed64_eq ilegal_append)
  show "ICompare Compare k (mk_InternalKey u kMaxSequenceNumber kValueTypeForSeek) < 0 \<longleftrightarrow> Compare (ExtractUserKey k) u < 0"
    unfolding icompare_less using n by (simp add: mk_InternalKey_def AppendInternalKey_def PutFixed64_eq)
qed

section \<open>Overlap with a range\<close>

lemma within_iff:
  assumes "file_ok legal Compare f" and "\<forall>u. lo = Some u \<or> hi = Some u \<longrightarrow> legal u"
  shows "within Compare lo hi f \<longleftrightarrow> \<not> AfterFile Compare lo f \<and> \<not> BeforeFile Compare hi f"
  using assms file_okD(3,4) [OF assms(1)] compare_flip [of _ "flimit f"] compare_flip [of "fstart f"]
  by (auto simp: within_def AfterFile_def BeforeFile_def split: option.splits)

lemma check_files_iff:
  assumes "\<forall>f\<in>set files. file_ok legal Compare f" and "\<forall>u. lo = Some u \<or> hi = Some u \<longrightarrow> legal u"
  shows "check_files Compare files lo hi \<longleftrightarrow> (\<exists>f\<in>set files. within Compare lo hi f)"
  using assms by (induction files) (auto simp: within_iff)

lemma overlap_disjoint:
  assumes d: "disjoint_files Compare files" and ok: "\<forall>f\<in>set files. file_ok legal Compare f" and l: "\<forall>u. lo = Some u \<or> hi = Some u \<longrightarrow> legal u"
  defines "r \<equiv> case lo of None \<Rightarrow> 0 | Some u \<Rightarrow> FindFile Compare files (mk_InternalKey u kMaxSequenceNumber kValueTypeForSeek)"
  shows "(\<exists>f\<in>set files. within Compare lo hi f) \<longleftrightarrow> r < length files \<and> \<not> BeforeFile Compare hi (files ! r)"
proof -
  have after: "AfterFile Compare lo (files ! j) \<longleftrightarrow> j < r" if j: "j < length files" for j
  proof (cases lo)
    case (Some u)
    have u: "legal u" using l Some by blast
    have f: "file_ok legal Compare (files ! j)" using ok j by simp
    note K = seek_key [OF _ _ u]
    let ?k = "mk_InternalKey u kMaxSequenceNumber kValueTypeForSeek"
    have k: "ilegal ?k" using K(1) [of "largest (files ! j)"] f using file_okD(2) by (simp add: file_ok_def)
    have r: "r = rank (ICompare Compare) ?k (map largest files)" using FindFile_rank [OF d ok k] by (simp add: r_def Some)
    have "ICompare Compare (largest (files ! j)) ?k < 0 \<longleftrightarrow> j < r"
      using three_way.rank_greater [OF ithree disjoint_largest [OF d ok] _ k, of j] three_way.before_rank [OF ithree, of j ?k "map largest files"] j ok file_okD(2) r by auto
    then show ?thesis using K(2) [of "largest (files ! j)"] f Some compare_flip [of u "flimit (files ! j)"] file_okD(2,4) [OF f] u by (auto simp: file_ok_def AfterFile_def)
  qed (simp add: r_def AfterFile_def)
  have "\<not> BeforeFile Compare hi (files ! r)" if j: "j < length files" "r \<le> j" "\<not> BeforeFile Compare hi (files ! j)" for j
  proof (cases "r = j")
    case False
    then have "ICompare Compare (largest (files ! r)) (smallest (files ! j)) < 0" using d j by (simp add: disjoint_files_def sorted_wrt_iff_nth_less)
    then have "Compare (flimit (files ! r)) (fstart (files ! j)) \<le> 0" by (auto simp: icompare_less)
    moreover have "Compare (fstart (files ! r)) (flimit (files ! r)) \<le> 0" using ok j by (intro file_okD) simp
    ultimately have "Compare (fstart (files ! r)) (fstart (files ! j)) \<le> 0"
      using compare_trans [of "fstart (files ! r)" "flimit (files ! r)" "fstart (files ! j)"] ok j file_okD(3,4) by simp
    moreover have "legal (fstart (files ! r))" "legal (fstart (files ! j))" using ok j file_okD(3) by simp_all
    ultimately show ?thesis using j(3) l compare_less_trans(2) [of "the hi" "fstart (files ! r)" "fstart (files ! j)"] by (cases hi) (auto simp: BeforeFile_def)
  qed (use j in simp)
  moreover have "within Compare lo hi (files ! j) \<longleftrightarrow> r \<le> j \<and> \<not> BeforeFile Compare hi (files ! j)" if "j < length files" for j
    using after [OF that] within_iff [OF _ l, of "files ! j"] ok that by (simp add: not_less)
  ultimately show ?thesis unfolding Bex_def in_set_conv_nth using le_less_trans by blast
qed

lemma SomeFileOverlapsRange_iff:
  assumes "d \<Longrightarrow> disjoint_files Compare files" and "\<forall>f\<in>set files. file_ok legal Compare f" and "\<forall>u. lo = Some u \<or> hi = Some u \<longrightarrow> legal u"
  shows "SomeFileOverlapsRange Compare d files lo hi \<longleftrightarrow> (\<exists>f\<in>set files. within Compare lo hi f)"
  using overlap_disjoint [OF _ assms(2,3)] check_files_iff [OF assms(2,3)] assms(1) by (auto simp: SomeFileOverlapsRange_def Let_def not_le)

section \<open>The files that overlap a range\<close>

text \<open>A file of the range that extends it at its begin or its end.\<close>

definition below :: "slice option \<Rightarrow> FileMetaData \<Rightarrow> bool" where "below lo f \<longleftrightarrow> (\<exists>b. lo = Some b \<and> Compare (fstart f) b < 0)"
definition above :: "slice option \<Rightarrow> FileMetaData \<Rightarrow> bool" where "above hi f \<longleftrightarrow> (\<exists>e. hi = Some e \<and> Compare (flimit f) e > 0)"

lemma overlap_pass:
  "overlap_loop Compare level0 files lo hi i inputs =
     (case find (\<lambda>f. level0 \<and> within Compare lo hi f \<and> (below lo f \<or> above hi f)) (drop i files) of
        None \<Rightarrow> Some (inputs @ filter (within Compare lo hi) (drop i files))
      | Some f \<Rightarrow> if below lo f then overlap_loop Compare level0 files (Some (fstart f)) hi 0 [] else overlap_loop Compare level0 files lo (Some (flimit f)) 0 [])"
proof (induction "length files - i" arbitrary: i inputs)
  case 0
  then show ?case by (subst overlap_loop.simps) simp
next
  case (Suc n)
  then have i: "i < length files" and n: "n = length files - Suc i" by simp_all
  let ?f = "files ! i"
  have d: "drop i files = ?f # drop (Suc i) files" using Cons_nth_drop_Suc [OF i] by simp
  have "overlap_loop Compare level0 files lo hi i inputs =
      (if \<not> within Compare lo hi ?f then overlap_loop Compare level0 files lo hi (Suc i) inputs
       else if level0 \<and> below lo ?f then overlap_loop Compare level0 files (Some (fstart ?f)) hi 0 []
       else if level0 \<and> above hi ?f then overlap_loop Compare level0 files lo (Some (flimit ?f)) 0 []
       else overlap_loop Compare level0 files lo hi (Suc i) (inputs @ [?f]))"
    using i by (subst overlap_loop.simps) (cases lo; cases hi; simp add: Let_def within_def below_def above_def)
  then show ?case unfolding d using Suc.hyps(1) [OF n, of inputs] Suc.hyps(1) [OF n, of "inputs @ [?f]"] by (auto split: option.splits)
qed

lemma within_mono:
  assumes "file_ok legal Compare f" and "within Compare lo hi f" and "\<forall>u\<in>set_option lo \<union> set_option hi \<union> set_option lo' \<union> set_option hi'. legal u"
    and "\<forall>b'. lo' = Some b' \<longrightarrow> (\<exists>b. lo = Some b \<and> Compare b' b \<le> 0)" and "\<forall>e'. hi' = Some e' \<longrightarrow> (\<exists>e. hi = Some e \<and> Compare e e' \<le> 0)"
  shows "within Compare lo' hi' f"
proof -
  have "\<not> Compare (flimit f) b' < 0" if b': "lo' = Some b'" for b'
  proof -
    obtain b where b: "lo = Some b" "Compare b' b \<le> 0" using assms(4) b' by blast
    then show ?thesis using compare_less_trans(2) [of "flimit f" b' b] file_okD(4) [OF assms(1)] assms(2,3) b' by (auto simp: within_def)
  qed
  moreover have "\<not> Compare (fstart f) e' > 0" if e': "hi' = Some e'" for e'
  proof -
    obtain e where e: "hi = Some e" "Compare e e' \<le> 0" using assms(5) e' by blast
    then have "Compare (fstart f) e \<le> 0" using assms(2) by (auto simp: within_def)
    then show ?thesis using compare_trans [of "fstart f" e e'] file_okD(3) [OF assms(1)] assms(3) e e' by (auto simp: within_def)
  qed
  ultimately show ?thesis by (simp add: within_def)
qed

text \<open>Files that lie in the range: the files that overlap them overlap the range.\<close>

lemma within_inside:
  assumes "file_ok legal Compare f" and "file_ok legal Compare g" and "within Compare (Some (fstart f)) (Some (flimit f)) g" and "\<not> below lo f" and "\<not> above hi f"
    and "\<forall>u\<in>set_option lo \<union> set_option hi. legal u"
  shows "within Compare lo hi g"
proof (rule within_mono [OF assms(2,3)])
  show "\<forall>b'. lo = Some b' \<longrightarrow> (\<exists>b. Some (fstart f) = Some b \<and> Compare b' b \<le> 0)"
    using assms(4,6) compare_flip [of "the lo" "fstart f"] file_okD(3) [OF assms(1)] by (auto simp: below_def not_less)
  show "\<forall>e'. hi = Some e' \<longrightarrow> (\<exists>e. Some (flimit f) = Some e \<and> Compare e e' \<le> 0)" using assms(5) by (auto simp: above_def not_less)
qed (use assms(6) file_okD [OF assms(1)] in auto)

text \<open>A range that is extended by one of its files overlaps only files that overlapped it before or that overlap the file.\<close>

lemma within_below:
  assumes "file_ok legal Compare f" and "file_ok legal Compare g" and "within Compare lo hi f" and "below lo f" and "within Compare (Some (fstart f)) hi g" and "\<forall>u\<in>set_option lo \<union> set_option hi. legal u"
  shows "within Compare lo hi g \<or> within Compare (Some (fstart f)) (Some (flimit f)) g"
proof (rule disjCI)
  assume n: "\<not> within Compare (Some (fstart f)) (Some (flimit f)) g"
  note F = file_okD [OF assms(1)] and G = file_okD [OF assms(2)]
  obtain b where b: "lo = Some b" "legal b" "\<not> Compare (flimit f) b < 0" using assms(3,4,6) by (auto simp: below_def within_def)
  have "0 < Compare (fstart g) (flimit f)" using n assms(5) by (auto simp: within_def)
  then have "Compare (flimit f) (fstart g) < 0" using compare_flip [of "fstart g" "flimit f"] F G by simp
  moreover have "Compare b (flimit f) \<le> 0" using compare_flip [of b "flimit f"] b F(4) by simp
  ultimately have "Compare b (fstart g) < 0" using compare_less_trans(1) [of b "flimit f" "fstart g"] b(2) F(4) G(3) by blast
  then have "Compare b (flimit g) < 0" using compare_less_trans(2) [of b "fstart g" "flimit g"] b(2) G by blast
  then show "within Compare lo hi g" using assms(5) b compare_flip [of b "flimit g"] G by (auto simp: within_def)
qed

lemma within_above:
  assumes "file_ok legal Compare f" and "file_ok legal Compare g" and "within Compare lo hi f" and "above hi f" and "within Compare lo (Some (flimit f)) g" and "\<forall>u\<in>set_option lo \<union> set_option hi. legal u"
  shows "within Compare lo hi g \<or> within Compare (Some (fstart f)) (Some (flimit f)) g"
proof (rule disjCI)
  assume n: "\<not> within Compare (Some (fstart f)) (Some (flimit f)) g"
  note F = file_okD [OF assms(1)] and G = file_okD [OF assms(2)]
  obtain e where e: "hi = Some e" "legal e" "\<not> 0 < Compare (fstart f) e" using assms(3,4,6) by (auto simp: above_def within_def)
  have "Compare (flimit g) (fstart f) < 0" using n assms(5) by (auto simp: within_def)
  then have "Compare (fstart g) (fstart f) < 0" using compare_less_trans(1) [of "fstart g" "flimit g" "fstart f"] F(3) G by blast
  then have "Compare (fstart g) e < 0" using compare_less_trans(2) [of "fstart g" "fstart f" e] e(2,3) F(3) G(3) by (auto simp: not_less)
  then show "within Compare lo hi g" using assms(5) e by (auto simp: within_def)
qed

lemma card_below:
  assumes "f \<in> set files" and "\<forall>f\<in>set files. file_ok legal Compare f" and "legal b" and "Compare (fstart f) b < 0"
  shows "card {g \<in> set files. below (Some (fstart f)) g} < card {g \<in> set files. below (Some b) g}"
proof (rule psubset_card_mono)
  have "Compare (fstart g) b < 0" if "g \<in> set files" "Compare (fstart g) (fstart f) < 0" for g
    using compare_less_trans(1) [of "fstart g" "fstart f" b] file_okD(3) assms that by simp
  moreover have "Compare (fstart f) (fstart f) = 0" using assms(1,2) file_okD(3) by simp
  ultimately show "{g \<in> set files. below (Some (fstart f)) g} \<subset> {g \<in> set files. below (Some b) g}"
    using assms(1,4) unfolding below_def psubset_eq set_eq_iff by fastforce
qed simp

lemma card_above:
  assumes "f \<in> set files" and "\<forall>f\<in>set files. file_ok legal Compare f" and "legal e" and "0 < Compare (flimit f) e"
  shows "card {g \<in> set files. above (Some (flimit f)) g} < card {g \<in> set files. above (Some e) g}"
proof (rule psubset_card_mono)
  have "0 < Compare (flimit g) e" if "g \<in> set files" "0 < Compare (flimit g) (flimit f)" for g
    using compare_less_trans(2) [of e "flimit f" "flimit g"] compare_flip [of "flimit f" e] compare_flip [of "flimit g" "flimit f"] compare_flip [of "flimit g" e]
      file_okD(4) assms that by (metis less_imp_le)
  moreover have "Compare (flimit f) (flimit f) = 0" using assms(1,2) file_okD(4) by simp
  ultimately show "{g \<in> set files. above (Some (flimit f)) g} \<subset> {g \<in> set files. above (Some e) g}"
    using assms(1,4) unfolding above_def psubset_eq set_eq_iff by fastforce
qed simp

text \<open>The loop at level 0 ends with the files that are linked to the range.\<close>

lemma overlap_loop_linked:
  assumes ok: "\<forall>f\<in>set files. file_ok legal Compare f" and L: "\<forall>u\<in>set_option lo \<union> set_option hi \<union> set_option lo' \<union> set_option hi'. legal u"
    and inv: "\<forall>g\<in>set files. within Compare lo' hi' g \<longrightarrow> linked Compare files lo hi g"
    and ex: "\<forall>b'. lo' = Some b' \<longrightarrow> (\<exists>b. lo = Some b \<and> Compare b' b \<le> 0)" "\<forall>e'. hi' = Some e' \<longrightarrow> (\<exists>e. hi = Some e \<and> Compare e e' \<le> 0)"
  shows "overlap_loop Compare True files lo' hi' 0 [] = Some (filter (linked Compare files lo hi) files)"
  using L inv ex
proof (induction "card {g \<in> set files. below lo' g} + card {g \<in> set files. above hi' g}" arbitrary: lo' hi' rule: less_induct)
  case less
  show ?case
  proof (cases "find (\<lambda>f. True \<and> within Compare lo' hi' f \<and> (below lo' f \<or> above hi' f)) (drop 0 files)")
    case None
    have n: "\<not> below lo' f \<and> \<not> above hi' f" if "f \<in> set files" "within Compare lo' hi' f" for f using None that by (auto simp: find_None_iff)
    have "f \<in> set files \<and> within Compare lo' hi' f" if "linked Compare files lo hi f" for f
      using that
    proof induction
      case (linked_range f)
      then show ?case using within_mono [of f lo hi lo' hi'] ok less.prems by auto
    next
      case (linked_file f g)
      then show ?case using within_inside [of f g lo' hi'] ok n [of f] less.prems(1) by auto
    qed
    then have "filter (within Compare lo' hi') files = filter (linked Compare files lo hi) files" using less.prems(2) by (intro filter_cong) auto
    then show ?thesis using None by (subst overlap_pass) simp
  next
    case (Some f)
    then have f: "f \<in> set files" "within Compare lo' hi' f" "below lo' f \<or> above hi' f" by (auto simp: find_Some_iff)
    note F = file_okD [OF bspec [OF ok f(1)]]
    have lf: "linked Compare files lo hi f" using less.prems(2) f by blast
    have lg: "linked Compare files lo hi g" if "g \<in> set files" "within Compare (Some (fstart f)) (Some (flimit f)) g" for g using linked_file [OF lf that] .
    show ?thesis
    proof (cases "below lo' f")
      case True
      then obtain b where b: "lo' = Some b" "Compare (fstart f) b < 0" by (auto simp: below_def)
      obtain b0 where b0: "lo = Some b0" "Compare b b0 \<le> 0" using less.prems(3) b by blast
      have "overlap_loop Compare True files (Some (fstart f)) hi' 0 [] = Some (filter (linked Compare files lo hi) files)"
      proof (rule less.hyps)
        show "\<forall>g\<in>set files. within Compare (Some (fstart f)) hi' g \<longrightarrow> linked Compare files lo hi g"
        proof (intro ballI impI)
          fix g
          assume g: "g \<in> set files" "within Compare (Some (fstart f)) hi' g"
          have "within Compare lo' hi' g \<or> within Compare (Some (fstart f)) (Some (flimit f)) g" using ok f(1) g(1) less.prems(1) by (intro within_below [OF _ _ f(2) True g(2)]) auto
          then show "linked Compare files lo hi g" using less.prems(2) lg g(1) by blast
        qed
        show "\<forall>b'. Some (fstart f) = Some b' \<longrightarrow> (\<exists>b. lo = Some b \<and> Compare b' b \<le> 0)"
          using compare_less_trans(2) [of "fstart f" b b0] b b0 less.prems(1) F by auto
      qed (use card_below [OF f(1) ok] less.prems F b in auto)
      then show ?thesis using Some True by (subst overlap_pass) simp
    next
      case False
      then obtain e where e: "hi' = Some e" "0 < Compare (flimit f) e" using f(3) by (auto simp: above_def)
      obtain e0 where e0: "hi = Some e0" "Compare e0 e \<le> 0" using less.prems(4) e by blast
      have "overlap_loop Compare True files lo' (Some (flimit f)) 0 [] = Some (filter (linked Compare files lo hi) files)"
      proof (rule less.hyps)
        show "\<forall>g\<in>set files. within Compare lo' (Some (flimit f)) g \<longrightarrow> linked Compare files lo hi g"
        proof (intro ballI impI)
          fix g
          assume g: "g \<in> set files" "within Compare lo' (Some (flimit f)) g"
          have "above hi' f" using f(3) False by blast
          then have "within Compare lo' hi' g \<or> within Compare (Some (fstart f)) (Some (flimit f)) g" using ok f(1) g(1) less.prems(1) by (intro within_above [OF _ _ f(2) _ g(2)]) auto
          then show "linked Compare files lo hi g" using less.prems(2) lg g(1) by blast
        qed
        show "\<forall>e'. Some (flimit f) = Some e' \<longrightarrow> (\<exists>e. hi = Some e \<and> Compare e e' \<le> 0)"
          using compare_less_trans(1) [of e0 e "flimit f"] compare_flip [of "flimit f" e] e e0 less.prems(1) F by auto
      qed (use card_above [OF f(1) ok] less.prems F e in auto)
      then show ?thesis using Some False by (subst overlap_pass) simp
    qed
  qed
qed

lemma version_okD:
  assumes "version_ok legal Compare v" and "level < kNumLevels"
  shows "\<forall>f\<in>set (v_files v ! level). file_ok legal Compare f" and "level > 0 \<Longrightarrow> disjoint_files Compare (v_files v ! level)"
  using assms by (auto simp: version_ok_def)

lemma GetOverlappingInputs_spec:
  assumes "version_ok legal Compare v" and "level < kNumLevels" and "\<forall>k\<in>set_option lo \<union> set_option hi. legal (ExtractUserKey k)"
  defines "ulo \<equiv> map_option ExtractUserKey lo" and "uhi \<equiv> map_option ExtractUserKey hi" and "files \<equiv> v_files v ! level"
  shows "GetOverlappingInputs Compare v level lo hi = Some (filter (if level = 0 then linked Compare files ulo uhi else within Compare ulo uhi) files)"
proof (cases "level = 0")
  case True
  have "\<forall>u\<in>set_option ulo \<union> set_option uhi \<union> set_option ulo \<union> set_option uhi. legal u" using assms(3) by (auto simp: ulo_def uhi_def)
  then have "overlap_loop Compare True files ulo uhi 0 [] = Some (filter (linked Compare files ulo uhi) files)"
    using version_okD(1) [OF assms(1,2)] by (intro overlap_loop_linked) (auto simp: files_def intro: linked_range)
  then show ?thesis using True by (simp add: GetOverlappingInputs_def kNumLevels_def files_def ulo_def uhi_def)
next
  case False
  have "overlap_loop Compare False files ulo uhi 0 [] = Some (filter (within Compare ulo uhi) files)" by (subst overlap_pass) (simp add: find_None_iff [THEN iffD2])
  then show ?thesis using False assms(2) by (simp add: GetOverlappingInputs_def files_def ulo_def uhi_def)
qed

lemma OverlapInLevel_iff:
  assumes "version_ok legal Compare v" and "level < kNumLevels" and "\<forall>u\<in>set_option lo \<union> set_option hi. legal u"
  shows "OverlapInLevel Compare v level lo hi \<longleftrightarrow> (\<exists>f\<in>set (v_files v ! level). within Compare lo hi f)"
  unfolding OverlapInLevel_def using version_okD [OF assms(1,2)] assms(3) by (intro SomeFileOverlapsRange_iff) auto

lemma pick_level_safe:
  assumes v: "version_ok legal Compare v" and l: "legal lo" "legal hi" and n: "level + n < kNumLevels"
    and s: "\<forall>l\<le>level. \<forall>f\<in>set (v_files v ! l). \<not> within Compare (Some lo) (Some hi) f"
  shows "\<exists>r. pick_level n Compare mfs v lo hi level = Some r \<and> r \<le> level + n \<and> (\<forall>l\<le>r. \<forall>f\<in>set (v_files v ! l). \<not> within Compare (Some lo) (Some hi) f)"
  using n s
proof (induction n arbitrary: level)
  case (Suc n)
  have o: "OverlapInLevel Compare v (level + 1) (Some lo) (Some hi) \<longleftrightarrow> (\<exists>f\<in>set (v_files v ! (level + 1)). within Compare (Some lo) (Some hi) f)"
    using OverlapInLevel_iff [OF v, of "level + 1" "Some lo" "Some hi"] l Suc.prems(1) by simp
  have "\<exists>xs. GetOverlappingInputs Compare v (level + 2) (Some (mk_InternalKey lo kMaxSequenceNumber kValueTypeForSeek)) (Some (mk_InternalKey hi 0 kTypeDeletion)) = Some xs"
    if "level + 2 < kNumLevels" using GetOverlappingInputs_spec [OF v that] l by (simp add: mk_InternalKey_def AppendInternalKey_def PutFixed64_eq)
  moreover have "\<forall>l\<le>level + 1. \<forall>f\<in>set (v_files v ! l). \<not> within Compare (Some lo) (Some hi) f" if "\<not> OverlapInLevel Compare v (level + 1) (Some lo) (Some hi)"
    using Suc.prems(2) o that by (auto simp: le_Suc_eq)
  ultimately show ?case using Suc.IH [of "level + 1"] Suc.prems by fastforce
qed simp

end

section \<open>Properties\<close>

text \<open>
  C37. The inputs of a compaction. The search for the files of a level that overlap a range ends, although at level 0 it starts again whenever a file extends the range, and returns in order of
  the level exactly the files that overlap the range and, at level 0, where files overlap each other, those that are linked to it by a chain of overlapping files.
\<close>

theorem compaction_inputs:
  assumes "comparator legal ucmp sep succ" and "version_ok legal ucmp v" and "level < kNumLevels" and "\<forall>k\<in>set_option lo \<union> set_option hi. legal (ExtractUserKey k)"
  shows "GetOverlappingInputs ucmp v level lo hi = Some (filter
    (if level = 0 then linked ucmp (v_files v ! level) (map_option ExtractUserKey lo) (map_option ExtractUserKey hi)
     else within ucmp (map_option ExtractUserKey lo) (map_option ExtractUserKey hi)) (v_files v ! level))"
  using comparator.GetOverlappingInputs_spec [OF assms] .

text \<open>
  C38. The level of a new table. \<open>PickLevelForMemTableOutput\<close> chooses a level up to \<open>kMaxMemCompactLevel\<close>, and one above 0 only if neither it nor any level before it has a file that overlaps
  the keys of the new table: the new data never come to lie below older data of the same keys.
\<close>

theorem memtable_level_safe:
  assumes "comparator legal ucmp sep succ" and "version_ok legal ucmp v" and "legal lo" and "legal hi"
  shows "\<exists>level. PickLevelForMemTableOutput ucmp mfs v lo hi = Some level \<and> level \<le> kMaxMemCompactLevel \<and>
    (level > 0 \<longrightarrow> (\<forall>l\<le>level. \<forall>f\<in>set (v_files v ! l). \<not> within ucmp (Some lo) (Some hi) f))"
  using comparator.OverlapInLevel_iff [OF assms(1,2), of 0 "Some lo" "Some hi"] comparator.pick_level_safe [OF assms, of 0 kMaxMemCompactLevel mfs] assms(3,4)
  by (auto simp: PickLevelForMemTableOutput_def kNumLevels_def kMaxMemCompactLevel_def)

definition sample_file :: "u64 \<Rightarrow> slice \<Rightarrow> slice \<Rightarrow> FileMetaData" where
  "sample_file n a b = mk_FileMetaData\<lparr>number := n, file_size := 1000, smallest := mk_InternalKey a n kTypeValue, largest := mk_InternalKey b n kTypeValue\<rparr>"

definition sample_version :: Version where
  "sample_version = \<lparr>v_files = [[sample_file 7 [1] [3], sample_file 8 [3] [6], sample_file 9 [7] [9]], [sample_file 5 [1] [2], sample_file 4 [2] [4]], [], [], [], [], []],
     file_to_compact = None, file_to_compact_level = -1\<rparr>"

lemma sample_version_ok: "version_ok (\<lambda>_. True) BytewiseCompare sample_version"
  by code_simp

theorem compaction_inputs_witness:
  "linked BytewiseCompare (v_files sample_version ! 0) (Some [2]) (Some [2]) (sample_file 8 [3] [6]) \<and>
   \<not> linked BytewiseCompare (v_files sample_version ! 0) (Some [2]) (Some [2]) (sample_file 9 [7] [9])"
proof -
  let ?k = "mk_InternalKey [2] 5 kTypeValue"
  have "GetOverlappingInputs BytewiseCompare sample_version 0 (Some ?k) (Some ?k) = Some [sample_file 7 [1] [3], sample_file 8 [3] [6]]" by code_simp
  moreover have "ExtractUserKey ?k = [2]" by code_simp
  ultimately have "filter (linked BytewiseCompare (v_files sample_version ! 0) (Some [2]) (Some [2])) (v_files sample_version ! 0) = [sample_file 7 [1] [3], sample_file 8 [3] [6]]"
    using compaction_inputs [OF bytewise.comparator_axioms sample_version_ok, of 0 "Some ?k" "Some ?k"] by (simp add: kNumLevels_def)
  then have "set (filter (linked BytewiseCompare (v_files sample_version ! 0) (Some [2]) (Some [2])) (v_files sample_version ! 0)) = {sample_file 7 [1] [3], sample_file 8 [3] [6]}" by simp
  moreover have "sample_file 9 [7] [9] \<notin> {sample_file 7 [1] [3], sample_file 8 [3] [6]}" by code_simp
  moreover have "sample_file 9 [7] [9] \<in> set (v_files sample_version ! 0)" by (simp add: sample_version_def)
  ultimately show ?thesis by auto
qed

theorem memtable_level_safe_witness:
  "\<exists>level. PickLevelForMemTableOutput BytewiseCompare 2097152 sample_version [10] [12] = Some level \<and> level \<le> kMaxMemCompactLevel \<and>
    (\<forall>l\<le>level. \<forall>f\<in>set (v_files sample_version ! l). \<not> within BytewiseCompare (Some [10]) (Some [12]) f)"
proof -
  have "PickLevelForMemTableOutput BytewiseCompare 2097152 sample_version [10] [12] = Some 2" by code_simp
  then show ?thesis using memtable_level_safe [OF bytewise.comparator_axioms sample_version_ok, where lo = "[10]" and hi = "[12]" and mfs = 2097152] by auto
qed

end
