(* ===== verification/VersionGet.thy ===== *)
theory VersionGet
  imports VersionFiles
begin

text \<open>
  db/version_set.cc: \<open>Version::Get\<close>, the lookup of a key in the tables of a version. \<open>tget\<close> is \<open>TableCache::Get\<close>: from the number and size of a file and an internal key it gives a status and
  the entry it passes to the callback, if it does, and changes the state of the table cache; the locale \<open>table_reader\<close> is its contract.
\<close>

section \<open>The code\<close>

type_synonym 'c table_get = "u64 \<Rightarrow> u64 \<Rightarrow> slice \<Rightarrow> 'c \<Rightarrow> (status \<times> (slice \<times> slice) option \<times> 'c) option"

datatype SaverState = Saver_NotFound | Saver_Found | Saver_Deleted | Saver_Corrupt

text \<open>The callback \<open>SaveValue\<close> on the state of the saver and the value.\<close>

definition SaveValue :: "(slice \<Rightarrow> slice \<Rightarrow> int) \<Rightarrow> slice \<Rightarrow> slice \<times> slice \<Rightarrow> SaverState \<times> slice option \<Rightarrow> SaverState \<times> slice option" where
  "SaveValue ucmp ukey kv s =
     (case ParseInternalKey (fst kv) of
        None \<Rightarrow> (Saver_Corrupt, snd s)
      | Some p \<Rightarrow>
          if ucmp (user_key p) ukey = 0 then
            (if vtype p = kTypeValue then (Saver_Found, Some (snd kv)) else (Saver_Deleted, snd s))
          else s)"

text \<open>The variables of \<open>Get\<close>: the value, the statistics, the last file read and the table cache.\<close>

record 'c get_state =
  g_value :: "slice option"
  seek_file :: "FileMetaData option"
  seek_file_level :: int
  last_file_read :: "FileMetaData option"
  last_file_read_level :: int
  g_cache :: 'c

text \<open>
  The files of a level to search: at level 0 all files that overlap the key, newest first, where files have different numbers; otherwise at most one.
\<close>

definition files_to_search :: "(slice \<Rightarrow> slice \<Rightarrow> int) \<Rightarrow> Version \<Rightarrow> slice \<Rightarrow> slice \<Rightarrow> nat \<Rightarrow> FileMetaData list" where
  "files_to_search ucmp v ukey ikey level =
     (let files = v_files v ! level
      in if level = 0 then
           sort_key (\<lambda>f. - uint (number f))
             (filter (\<lambda>f. ucmp ukey (ExtractUserKey (smallest f)) \<ge> 0 \<and> ucmp ukey (ExtractUserKey (largest f)) \<le> 0) files)
         else
           let index = FindFile ucmp files ikey
           in if index \<ge> length files then []
              else if ucmp ukey (ExtractUserKey (smallest (files ! index))) < 0 then [] else [files ! index])"

text \<open>The first file is charged with a seek when a second one is read.\<close>

definition note_read :: "nat \<Rightarrow> FileMetaData \<Rightarrow> 'c get_state \<Rightarrow> 'c get_state" where
  "note_read level f g =
     (let g = (if last_file_read g \<noteq> None \<and> seek_file g = None
               then g\<lparr>seek_file := last_file_read g, seek_file_level := last_file_read_level g\<rparr> else g)
      in g\<lparr>last_file_read := Some f, last_file_read_level := int level\<rparr>)"

text \<open>The loop over these files; \<^term>\<open>Inl\<close> is a return.\<close>

fun search_files ::
  "(slice \<Rightarrow> slice \<Rightarrow> int) \<Rightarrow> 'c table_get \<Rightarrow> slice \<Rightarrow> slice \<Rightarrow> nat \<Rightarrow> FileMetaData list \<Rightarrow> 'c get_state \<Rightarrow> (status \<times> 'c get_state + 'c get_state) option" where
  "search_files ucmp tget ukey ikey level [] g = Some (Inr g)"
| "search_files ucmp tget ukey ikey level (f # fs) g =
     (let g = note_read level f g
      in do { (s, found, c) \<leftarrow> tget (number f) (file_size f) ikey (g_cache g);
              let (st, val) = (case found of None \<Rightarrow> (Saver_NotFound, g_value g) | Some kv \<Rightarrow> SaveValue ucmp ukey kv (Saver_NotFound, g_value g));
              let g = g\<lparr>g_value := val, g_cache := c\<rparr>;
              if \<not> status_ok s then Some (Inl (s, g))
              else (case st of
                      Saver_NotFound \<Rightarrow> search_files ucmp tget ukey ikey level fs g
                    | Saver_Found \<Rightarrow> Some (Inl (s, g))
                    | Saver_Deleted \<Rightarrow> Some (Inl (NotFound [] [], g))
                    | Saver_Corrupt \<Rightarrow> Some (Inl (Corruption (ascii ''corrupted key for '') ukey, g))) })"

fun search_levels ::
  "(slice \<Rightarrow> slice \<Rightarrow> int) \<Rightarrow> 'c table_get \<Rightarrow> Version \<Rightarrow> slice \<Rightarrow> slice \<Rightarrow> nat list \<Rightarrow> 'c get_state \<Rightarrow> (status \<times> 'c get_state) option" where
  "search_levels ucmp tget v ukey ikey [] g = Some (NotFound [] [], g)"
| "search_levels ucmp tget v ukey ikey (level # levels) g =
     do { r \<leftarrow> search_files ucmp tget ukey ikey level (files_to_search ucmp v ukey ikey level) g;
          case r of Inl result \<Rightarrow> Some result | Inr g \<Rightarrow> search_levels ucmp tget v ukey ikey levels g }"

definition Version_Get :: "(slice \<Rightarrow> slice \<Rightarrow> int) \<Rightarrow> 'c table_get \<Rightarrow> Version \<Rightarrow> LookupKey \<Rightarrow> 'c \<Rightarrow> (status \<times> 'c get_state) option" where
  "Version_Get ucmp tget v k c =
     search_levels ucmp tget v (lookup_user_key k) (internal_key k) [0..<kNumLevels]
       \<lparr>g_value = None, seek_file = None, seek_file_level = -1, last_file_read = None, last_file_read_level = -1, g_cache = c\<rparr>"

section \<open>Specification\<close>

text \<open>An entry of the user key that the snapshot sees, and the newest one of a set of entries.\<close>

definition candidate :: "(slice \<Rightarrow> slice \<Rightarrow> int) \<Rightarrow> slice \<Rightarrow> u64 \<Rightarrow> slice \<times> slice \<Rightarrow> bool" where
  "candidate ucmp u s x \<longleftrightarrow> ucmp (user_key (parsed x)) u = 0 \<and> sequence (parsed x) \<le> s"

definition newest_entry :: "(slice \<Rightarrow> slice \<Rightarrow> int) \<Rightarrow> slice \<Rightarrow> u64 \<Rightarrow> (slice \<times> slice) set \<Rightarrow> slice \<times> slice \<Rightarrow> bool" where
  "newest_entry ucmp u s E x \<longleftrightarrow> x \<in> E \<and> candidate ucmp u s x \<and> (\<forall>y\<in>E. candidate ucmp u s y \<and> y \<noteq> x \<longrightarrow> sequence (parsed y) < sequence (parsed x))"

text \<open>What a lookup should give.\<close>

definition lookup_spec :: "(slice \<Rightarrow> slice \<Rightarrow> int) \<Rightarrow> slice \<Rightarrow> u64 \<Rightarrow> (slice \<times> slice) set \<Rightarrow> status \<Rightarrow> slice option \<Rightarrow> bool" where
  "lookup_spec ucmp u s E st val \<longleftrightarrow>
     (\<exists>x. newest_entry ucmp u s E x \<and> vtype (parsed x) = kTypeValue \<and> st = OK \<and> val = Some (snd x)) \<or>
     (\<exists>x. newest_entry ucmp u s E x \<and> vtype (parsed x) = kTypeDeletion \<and> st = NotFound [] [] \<and> val = None) \<or>
     ((\<forall>x\<in>E. \<not> candidate ucmp u s x) \<and> st = NotFound [] [] \<and> val = None)"

text \<open>The contents of a table are in the range of its file.\<close>

definition content_ok :: "(slice \<Rightarrow> bool) \<Rightarrow> (slice \<Rightarrow> slice \<Rightarrow> int) \<Rightarrow> (u64 \<Rightarrow> (slice \<times> slice) list) \<Rightarrow> FileMetaData \<Rightarrow> bool" where
  "content_ok legal ucmp content f \<longleftrightarrow>
     (let xs = content (number f)
      in xs \<noteq> [] \<and> smallest f = fst (hd xs) \<and> largest f = fst (last xs) \<and> sorted_wrt (\<lambda>a b. ICompare ucmp (fst a) (fst b) < 0) xs \<and>
         (\<forall>x\<in>set xs. legal (ExtractUserKey (fst x)) \<and> ParseInternalKey (fst x) \<noteq> None))"

text \<open>Entries of one user key in the first file are newer than those in the second.\<close>

definition newer_file :: "(slice \<Rightarrow> slice \<Rightarrow> int) \<Rightarrow> (u64 \<Rightarrow> (slice \<times> slice) list) \<Rightarrow> FileMetaData \<Rightarrow> FileMetaData \<Rightarrow> bool" where
  "newer_file ucmp content f g \<longleftrightarrow> (\<forall>x\<in>set (content (number f)). \<forall>y\<in>set (content (number g)).
     ucmp (user_key (parsed x)) (user_key (parsed y)) = 0 \<longrightarrow> sequence (parsed y) < sequence (parsed x))"

text \<open>Data only move down: the files of a level are newer than those of the levels below, and at level 0 files with higher numbers are newer.\<close>

definition levels_ordered :: "(slice \<Rightarrow> slice \<Rightarrow> int) \<Rightarrow> (u64 \<Rightarrow> (slice \<times> slice) list) \<Rightarrow> Version \<Rightarrow> bool" where
  "levels_ordered ucmp content v \<longleftrightarrow>
     (\<forall>l<kNumLevels. \<forall>l'<kNumLevels. \<forall>f\<in>set (v_files v ! l). \<forall>g\<in>set (v_files v ! l').
        l < l' \<or> l = 0 \<and> l' = 0 \<and> number g < number f \<longrightarrow> newer_file ucmp content f g) \<and>
     distinct (map number (v_files v ! 0))"

definition version_entries :: "(u64 \<Rightarrow> (slice \<times> slice) list) \<Rightarrow> Version \<Rightarrow> (slice \<times> slice) set" where
  "version_entries content v = (\<Union>level<kNumLevels. \<Union>f\<in>set (v_files v ! level). set (content (number f)))"

definition num_files :: "Version \<Rightarrow> nat" where "num_files v = (\<Sum>l\<leftarrow>[0..<kNumLevels]. length (v_files v ! l))"

text \<open>Every update has a sequence number of its own.\<close>

definition unique_entries :: "(slice \<Rightarrow> slice \<Rightarrow> int) \<Rightarrow> (slice \<times> slice) set \<Rightarrow> bool" where
  "unique_entries ucmp E \<longleftrightarrow> (\<forall>x\<in>E. \<forall>y\<in>E. ucmp (user_key (parsed x)) (user_key (parsed y)) = 0 \<and> sequence (parsed x) = sequence (parsed y) \<longrightarrow> x = y)"

lemma less_seven: "(\<forall>l<7. P l) \<longleftrightarrow> P 0 \<and> P 1 \<and> P 2 \<and> P 3 \<and> P 4 \<and> P 5 \<and> P (6 :: nat)"
  by (simp add: numeral_eq_Suc All_less_Suc conj_ac)

text \<open>The newest entry of a part is the newest of the whole if every candidate of the whole is in the part or older than one there.\<close>

definition covers :: "(slice \<Rightarrow> slice \<Rightarrow> int) \<Rightarrow> slice \<Rightarrow> u64 \<Rightarrow> (slice \<times> slice) set \<Rightarrow> (slice \<times> slice) set \<Rightarrow> bool" where
  "covers ucmp u s E F \<longleftrightarrow> E \<subseteq> F \<and> (\<forall>y\<in>F. candidate ucmp u s y \<longrightarrow> (\<exists>z\<in>E. candidate ucmp u s z \<and> (z = y \<or> sequence (parsed y) < sequence (parsed z))))"

lemma covers_newest: "newest_entry ucmp u s E x \<Longrightarrow> covers ucmp u s E F \<Longrightarrow> newest_entry ucmp u s F x"
proof -
  assume n: "newest_entry ucmp u s E x" and c: "covers ucmp u s E F"
  have "sequence (parsed y) < sequence (parsed x)" if y: "y \<in> F" "candidate ucmp u s y" "y \<noteq> x" for y
  proof -
    obtain z where z: "z \<in> E" "candidate ucmp u s z" "z = y \<or> sequence (parsed y) < sequence (parsed z)" using c y by (auto simp: covers_def)
    then show ?thesis using n y(3) by (cases "z = x") (auto simp: newest_entry_def dest: order.strict_trans)
  qed
  then show ?thesis using n c by (auto simp: newest_entry_def covers_def)
qed

lemma covers_none: "\<forall>x\<in>E. \<not> candidate ucmp u s x \<Longrightarrow> covers ucmp u s E F \<Longrightarrow> \<forall>x\<in>F. \<not> candidate ucmp u s x"
  unfolding covers_def by blast

context comparator
begin

lemma parsed_facts:
  assumes "ParseInternalKey (fst x) \<noteq> None"
  shows "user_key (parsed x) = ExtractUserKey (fst x)" "sequence (parsed x) = drop_bit 8 (key_num (fst x))" "ParseInternalKey (fst x) = Some (parsed x)"
  using assms parse_facts [of "fst x"] by (auto simp: parsed_def)

text \<open>Of two candidates the one that comes first is the newer one.\<close>

lemma older:
  assumes "ParseInternalKey (fst x) \<noteq> None" "ParseInternalKey (fst y) \<noteq> None" and "legal (ExtractUserKey (fst x))" "legal (ExtractUserKey (fst y))" "legal u"
    and "Compare (ExtractUserKey (fst x)) u = 0" "Compare (ExtractUserKey (fst y)) u = 0" and "ICompare Compare (fst x) (fst y) < 0"
    and "unique_entries Compare E" "x \<in> E" "y \<in> E"
  shows "sequence (parsed y) < sequence (parsed x)"
proof -
  have c: "Compare (ExtractUserKey (fst x)) (ExtractUserKey (fst y)) = 0"
    using compare_cong(2) [of "ExtractUserKey (fst x)" u "ExtractUserKey (fst y)"] compare_0_sym [of u "ExtractUserKey (fst y)"] assms by auto
  then have k: "key_num (fst y) < key_num (fst x)" using assms(8) by (auto simp: icompare_less)
  then have "unat (key_num (fst y)) div 256 \<le> unat (key_num (fst x)) div 256" by (intro div_le_mono) (simp add: word_less_nat_alt)
  then have "sequence (parsed y) \<le> sequence (parsed x)" using parsed_facts(2) assms(1,2) by (simp add: word_le_nat_alt unat_drop_bit_div)
  moreover have "sequence (parsed x) \<noteq> sequence (parsed y)" using assms(9-11) c k parsed_facts(1) assms(1,2) unfolding unique_entries_def by (metis order.irrefl)
  ultimately show ?thesis by simp
qed

text \<open>The contents of a file are within its range.\<close>

lemma content_range:
  assumes "content_ok legal Compare content f" and "x \<in> set (content (number f))"
  shows "ICompare Compare (smallest f) (fst x) \<le> 0" and "ICompare Compare (fst x) (largest f) \<le> 0"
proof -
  let ?xs = "content (number f)"
  have c: "?xs \<noteq> []" "smallest f = fst (hd ?xs)" "largest f = fst (last ?xs)" "sorted_wrt (\<lambda>a b. ICompare Compare (fst a) (fst b) < 0) ?xs" "ilegal (fst x)"
    using assms parsed_long by (auto simp: content_ok_def Let_def ilegal_def)
  obtain i where i: "i < length ?xs" "x = ?xs ! i" using assms(2) by (auto simp: in_set_conv_nth)
  have r: "ICompare Compare (fst x) (fst x) = 0" using three_way.compare_refl [OF ithree c(5)] .
  have "ICompare Compare (fst (?xs ! 0)) (fst x) \<le> 0" using sorted_wrt_nth_less [OF c(4), of 0 i] i r by (cases i) auto
  then show "ICompare Compare (smallest f) (fst x) \<le> 0" using c(1,2) by (simp add: hd_conv_nth)
  have "i = length ?xs - 1 \<or> i < length ?xs - 1 \<and> length ?xs - 1 < length ?xs" using i(1) by linarith
  then have "ICompare Compare (fst x) (fst (?xs ! (length ?xs - 1))) \<le> 0" using sorted_wrt_nth_less [OF c(4), of i "length ?xs - 1"] i(2) r by fastforce
  then show "ICompare Compare (fst x) (largest f) \<le> 0" using c(1,3) by (simp add: last_conv_nth)
qed

end

text \<open>
  The contract of \<open>TableCache::Get\<close>. \<open>cinv n c\<close> holds of a state of the cache in which \<open>n\<close> more lookups are possible: each may open a table, which takes an identifier of the block cache.
\<close>

locale table_reader = comparator legal Compare FindShortestSeparator FindShortSuccessor
  for legal Compare FindShortestSeparator FindShortSuccessor +
  fixes tget :: "'c table_get" and cinv :: "nat \<Rightarrow> 'c \<Rightarrow> bool" and live :: "FileMetaData \<Rightarrow> bool" and content :: "u64 \<Rightarrow> (slice \<times> slice) list"
  assumes live_content: "live f \<Longrightarrow> content_ok legal Compare content f"
    and cinv_mono: "cinv m c \<Longrightarrow> n \<le> m \<Longrightarrow> cinv n c"
    and tget: "live f \<Longrightarrow> cinv (Suc n) c \<Longrightarrow> ilegal k \<Longrightarrow> \<exists>res c'. tget (number f) (file_size f) k c = Some (OK, res, c') \<and> cinv n c' \<and>
      (res = find (\<lambda>kv. \<not> ICompare Compare (fst kv) k < 0) (content (number f)) \<or>
       res = None \<and> (\<forall>kv\<in>set (content (number f)). Compare (ExtractUserKey (fst kv)) (ExtractUserKey k) = 0 \<longrightarrow> ICompare Compare (fst kv) k < 0))"
begin

abbreviation seek where "seek u s \<equiv> mk_InternalKey u s kValueTypeForSeek"

lemma seek_parts: "legal u \<Longrightarrow> ilegal (seek u s)" "ExtractUserKey (seek u s) = u" "key_num (seek u s) = PackSequenceAndType s kValueTypeForSeek"
  by (simp_all add: mk_InternalKey_def AppendInternalKey_def PutFixed64_eq ilegal_append)

lemma candidate_iff:
  assumes "ParseInternalKey (fst x) \<noteq> None" and "s \<le> kMaxSequenceNumber"
  shows "candidate Compare u s x \<longleftrightarrow> Compare (ExtractUserKey (fst x)) u = 0 \<and> \<not> ICompare Compare (fst x) (seek u s) < 0"
  using seek_key_num [OF parsed_facts(3) [OF assms(1)] assms(2)] parsed_facts [OF assms(1)] by (auto simp: candidate_def icompare_less seek_parts)

text \<open>One lookup in a file.\<close>

lemma find_newest:
  assumes ok: "content_ok legal Compare content f" and u: "legal u" "s \<le> kMaxSequenceNumber" and un: "unique_entries Compare E" "set (content (number f)) \<subseteq> E"
  defines "r \<equiv> find (\<lambda>kv. \<not> ICompare Compare (fst kv) (seek u s) < 0) (content (number f))"
  shows "(\<exists>x. r = Some x \<and> newest_entry Compare u s (set (content (number f))) x) \<or>
    (\<forall>y\<in>set (content (number f)). \<not> candidate Compare u s y) \<and> (r = None \<or> (\<exists>x. r = Some x \<and> x \<in> set (content (number f)) \<and> Compare (ExtractUserKey (fst x)) u \<noteq> 0))"
proof (cases r)
  case None
  then show ?thesis using ok candidate_iff u(2) unfolding r_def by (auto simp: find_None_iff content_ok_def Let_def)
next
  case (Some x)
  let ?xs = "content (number f)"
  have srt: "sorted_wrt (\<lambda>a b. ICompare Compare (fst a) (fst b) < 0) ?xs" using ok by (auto simp: content_ok_def Let_def)
  have el: "legal (ExtractUserKey (fst y))" "ParseInternalKey (fst y) \<noteq> None" if "y \<in> set ?xs" for y using ok that by (auto simp: content_ok_def Let_def)
  obtain i where i: "i < length ?xs" "x = ?xs ! i" "\<not> ICompare Compare (fst x) (seek u s) < 0" "\<forall>j<i. ICompare Compare (fst (?xs ! j)) (seek u s) < 0"
    using Some unfolding r_def find_Some_iff by auto
  then have x: "x \<in> set ?xs" by simp
  have later: "ICompare Compare (fst x) (fst y) < 0" if y: "y \<in> set ?xs" "candidate Compare u s y" "y \<noteq> x" for y
  proof -
    obtain j where j: "j < length ?xs" "y = ?xs ! j" using y(1) by (auto simp: in_set_conv_nth)
    have "\<not> ICompare Compare (fst y) (seek u s) < 0" using y candidate_iff [OF el(2) [OF y(1)] u(2)] by blast
    then have "i < j" using i(4) j y(3) i(2) by (metis linorder_neqE_nat)
    then show ?thesis using sorted_wrt_nth_less [OF srt] i(2) j by blast
  qed
  show ?thesis
  proof (cases "Compare (ExtractUserKey (fst x)) u = 0")
    case True
    then have "candidate Compare u s x" using candidate_iff [OF el(2) [OF x] u(2)] i(3) by blast
    moreover have "sequence (parsed y) < sequence (parsed x)" if "y \<in> set ?xs" "candidate Compare u s y" "y \<noteq> x" for y
      using older [OF el(2) [OF x] el(2) [OF that(1)] el(1) [OF x] el(1) [OF that(1)] u(1) True _ later [OF that] un(1)] candidate_iff [OF el(2) [OF that(1)] u(2)] un(2) that x by blast
    ultimately show ?thesis using Some x by (auto simp: newest_entry_def)
  next
    case False
    have "\<not> candidate Compare u s y" if y: "y \<in> set ?xs" for y
    proof
      assume c: "candidate Compare u s y"
      then have yu: "Compare (ExtractUserKey (fst y)) u = 0" using candidate_iff [OF el(2) [OF y] u(2)] by blast
      then have "ICompare Compare (fst x) (fst y) < 0" using later [OF y c] False by metis
      then have "Compare (ExtractUserKey (fst x)) (ExtractUserKey (fst y)) \<le> 0" by (auto simp: icompare_less)
      then have "Compare (ExtractUserKey (fst x)) u \<le> 0" using compare_trans [of "ExtractUserKey (fst x)" "ExtractUserKey (fst y)" u] yu el x y u(1) by simp
      then have "Compare (ExtractUserKey (fst x)) u < 0" using False by simp
      then show False using i(3) by (simp add: icompare_less seek_parts)
    qed
    then show ?thesis using Some x False by blast
  qed
qed

lemma content_parses: "live f \<Longrightarrow> x \<in> set (content (number f)) \<Longrightarrow> ParseInternalKey (fst x) \<noteq> None \<and> legal (ExtractUserKey (fst x))"
  using live_content by (auto simp: content_ok_def Let_def)

lemma tget_newest:
  assumes f: "live f" "cinv (Suc n) c" and u: "legal u" "s \<le> kMaxSequenceNumber" and un: "unique_entries Compare E" "set (content (number f)) \<subseteq> E"
  shows "\<exists>res c'. tget (number f) (file_size f) (seek u s) c = Some (OK, res, c') \<and> cinv n c' \<and>
    ((\<exists>x. res = Some x \<and> newest_entry Compare u s (set (content (number f))) x) \<or>
     (\<forall>y\<in>set (content (number f)). \<not> candidate Compare u s y) \<and> (res = None \<or> (\<exists>x. res = Some x \<and> x \<in> set (content (number f)) \<and> Compare (ExtractUserKey (fst x)) u \<noteq> 0)))"
proof -
  obtain res c' where r: "tget (number f) (file_size f) (seek u s) c = Some (OK, res, c')" "cinv n c'"
    "res = find (\<lambda>kv. \<not> ICompare Compare (fst kv) (seek u s) < 0) (content (number f)) \<or>
     res = None \<and> (\<forall>kv\<in>set (content (number f)). Compare (ExtractUserKey (fst kv)) u = 0 \<longrightarrow> ICompare Compare (fst kv) (seek u s) < 0)" using tget [OF f seek_parts(1) [OF u(1)]] unfolding seek_parts(2) by blast
  have "\<not> candidate Compare u s y" if "\<forall>kv\<in>set (content (number f)). Compare (ExtractUserKey (fst kv)) u = 0 \<longrightarrow> ICompare Compare (fst kv) (seek u s) < 0" "y \<in> set (content (number f))" for y
    using that candidate_iff [OF _ u(2)] content_parses [OF f(1)] by blast
  then show ?thesis using r find_newest [OF live_content [OF f(1)] u un] by blast
qed

text \<open>What is returned for the entry found.\<close>

definition answers :: "slice \<times> slice \<Rightarrow> status \<Rightarrow> slice option \<Rightarrow> bool" where
  "answers x st val \<longleftrightarrow> (vtype (parsed x) = kTypeValue \<and> st = OK \<and> val = Some (snd x)) \<or> (vtype (parsed x) = kTypeDeletion \<and> st = NotFound [] [] \<and> val = None)"

definition entries_of :: "FileMetaData list \<Rightarrow> (slice \<times> slice) set" where "entries_of fs = (\<Union>f\<in>set fs. set (content (number f)))"

lemma entries_of_Cons: "entries_of (f # fs) = set (content (number f)) \<union> entries_of fs"
  by (simp add: entries_of_def)

lemma SaveValue_newest:
  assumes "live f" and "newest_entry Compare u s (set (content (number f))) x"
  shows "SaveValue Compare u x (Saver_NotFound, None) = (if vtype (parsed x) = kTypeValue then (Saver_Found, Some (snd x)) else (Saver_Deleted, None))"
  using parsed_facts(3) [of x] content_parses [OF assms(1)] assms(2) by (auto simp: SaveValue_def newest_entry_def candidate_def)

lemma SaveValue_other:
  assumes "live f" and "x \<in> set (content (number f))" and "Compare (ExtractUserKey (fst x)) u \<noteq> 0"
  shows "SaveValue Compare u x st = st"
  using parsed_facts [of x] content_parses [OF assms(1,2)] assms(3) by (auto simp: SaveValue_def)

lemma search_files_spec:
  assumes u: "legal u" "s \<le> kMaxSequenceNumber" and un: "unique_entries Compare E"
    and fs: "\<forall>f\<in>set fs. live f" "entries_of fs \<subseteq> E" "sorted_wrt (newer_file Compare content) fs" and g: "cinv (length fs + n) (g_cache g)" "g_value g = None"
  shows "\<exists>r. search_files Compare tget u (seek u s) level fs g = Some r \<and>
    (case r of Inl (st, g') \<Rightarrow> cinv n (g_cache g') \<and> (\<exists>x. newest_entry Compare u s (entries_of fs) x \<and> answers x st (g_value g'))
     | Inr g' \<Rightarrow> cinv n (g_cache g') \<and> g_value g' = None \<and> (\<forall>y\<in>entries_of fs. \<not> candidate Compare u s y))"
  using fs g
proof (induction fs arbitrary: g)
  case Nil
  then show ?case by (simp add: entries_of_def)
next
  case (Cons f fs)
  define g0 where "g0 = note_read level f g"
  have g0: "g_cache g0 = g_cache g" "g_value g0 = None" using Cons.prems(5) by (auto simp: g0_def note_read_def Let_def)
  have lf: "live f" and E: "set (content (number f)) \<subseteq> E" "entries_of fs \<subseteq> E" using Cons.prems by (auto simp: entries_of_Cons)
  obtain res c' where r: "tget (number f) (file_size f) (seek u s) (g_cache g) = Some (OK, res, c')" "cinv (length fs + n) c'"
    "(\<exists>x. res = Some x \<and> newest_entry Compare u s (set (content (number f))) x) \<or>
     (\<forall>y\<in>set (content (number f)). \<not> candidate Compare u s y) \<and> (res = None \<or> (\<exists>x. res = Some x \<and> x \<in> set (content (number f)) \<and> Compare (ExtractUserKey (fst x)) u \<noteq> 0))"
    using tget_newest [OF lf Cons.prems(4) [unfolded length_Cons add_Suc] u un E(1)] by blast
  have step: "search_files Compare tget u (seek u s) level (f # fs) g =
      (let (st, val) = (case res of None \<Rightarrow> (Saver_NotFound, None) | Some kv \<Rightarrow> SaveValue Compare u kv (Saver_NotFound, None)); g1 = g0\<lparr>g_value := val, g_cache := c'\<rparr>
       in case st of Saver_NotFound \<Rightarrow> search_files Compare tget u (seek u s) level fs g1 | Saver_Found \<Rightarrow> Some (Inl (OK, g1))
          | Saver_Deleted \<Rightarrow> Some (Inl (NotFound [] [], g1)) | Saver_Corrupt \<Rightarrow> Some (Inl (Corruption (ascii ''corrupted key for '') u, g1)))"
    unfolding search_files.simps Let_def g0_def [symmetric] g0 r(1) by (simp split: prod.split)
  show ?case
  proof (cases "\<exists>x. res = Some x \<and> newest_entry Compare u s (set (content (number f))) x")
    case True
    then obtain x where x: "res = Some x" "newest_entry Compare u s (set (content (number f))) x" by blast
    have "covers Compare u s (set (content (number f))) (entries_of (f # fs))" unfolding covers_def entries_of_Cons
    proof (intro conjI ballI impI)
      fix y
      assume y: "y \<in> set (content (number f)) \<union> entries_of fs" "candidate Compare u s y"
      show "\<exists>z\<in>set (content (number f)). candidate Compare u s z \<and> (z = y \<or> sequence (parsed y) < sequence (parsed z))"
      proof (cases "y \<in> set (content (number f))")
        case False
        then obtain f' where f': "f' \<in> set fs" "y \<in> set (content (number f'))" using y(1) by (auto simp: entries_of_def)
        have xc: "x \<in> set (content (number f))" "candidate Compare u s x" using x(2) by (auto simp: newest_entry_def)
        have "Compare (user_key (parsed x)) (user_key (parsed y)) = 0"
          using compare_cong(2) [of "user_key (parsed x)" u "user_key (parsed y)"] compare_0_sym [of u "user_key (parsed y)"] y(2) xc u(1) parsed_facts(1) content_parses [of f' y] content_parses [of f x] lf f' Cons.prems(1)
          by (auto simp: candidate_def)
        then show ?thesis using Cons.prems(3) f' xc by (auto simp: newer_file_def)
      qed (use y in blast)
    qed simp
    then have "newest_entry Compare u s (entries_of (f # fs)) x" using covers_newest [OF x(2)] by blast
    then show ?thesis unfolding step using x(1) SaveValue_newest [OF lf x(2)] cinv_mono [OF r(2), of n] by (cases x; cases "vtype (parsed x)") (auto simp: answers_def)
  next
    case False
    then have n: "\<forall>y\<in>set (content (number f)). \<not> candidate Compare u s y" "res = None \<or> (\<exists>x. res = Some x \<and> x \<in> set (content (number f)) \<and> Compare (ExtractUserKey (fst x)) u \<noteq> 0)" using r(3) by blast+
    then have sv: "(case res of None \<Rightarrow> (Saver_NotFound, None) | Some kv \<Rightarrow> SaveValue Compare u kv (Saver_NotFound, None)) = (Saver_NotFound, None)" using SaveValue_other [OF lf] by (auto split: option.splits)
    have eq: "search_files Compare tget u (seek u s) level (f # fs) g = search_files Compare tget u (seek u s) level fs (g0\<lparr>g_value := None, g_cache := c'\<rparr>)" unfolding step sv by simp
    have "newest_entry Compare u s (entries_of (f # fs)) x" if "newest_entry Compare u s (entries_of fs) x" for x
      using covers_newest [OF that, of "entries_of (f # fs)"] n(1) by (auto simp: covers_def entries_of_Cons)
    then show ?thesis using Cons.IH [of "g0\<lparr>g_value := None, g_cache := c'\<rparr>"] Cons.prems E(2) r(2) n(1) unfolding eq by (fastforce simp: entries_of_Cons split: sum.splits)
  qed
qed

text \<open>The files of a level that are not searched have no candidates, or only older ones.\<close>

lemma not_overlapping:
  assumes f: "live f" and x: "x \<in> set (content (number f))" "candidate Compare u s x" and u: "legal u" "s \<le> kMaxSequenceNumber"
  shows "Compare u (ExtractUserKey (smallest f)) \<ge> 0" and "Compare u (ExtractUserKey (largest f)) \<le> 0"
proof -
  note c = content_parses [OF f x(1)] and R = content_range [OF live_content [OF f] x(1)]
  have xu: "Compare (ExtractUserKey (fst x)) u = 0" using candidate_iff [of x, OF _ u(2)] c x(2) by blast
  have l: "legal (ExtractUserKey (smallest f))" "legal (ExtractUserKey (largest f))"
    using live_content [OF f] by (auto simp: content_ok_def Let_def)
  have "Compare (ExtractUserKey (smallest f)) (ExtractUserKey (fst x)) \<le> 0" using R(1) by (auto simp: icompare_le)
  then have "Compare (ExtractUserKey (smallest f)) u \<le> 0" using compare_trans [of "ExtractUserKey (smallest f)" "ExtractUserKey (fst x)" u] xu l c u(1) by simp
  then show "Compare u (ExtractUserKey (smallest f)) \<ge> 0" using compare_flip [of "ExtractUserKey (smallest f)" u] l u(1) by simp
  have "Compare (ExtractUserKey (fst x)) (ExtractUserKey (largest f)) \<le> 0" using R(2) by (auto simp: icompare_le)
  moreover have "Compare u (ExtractUserKey (fst x)) = 0" using xu compare_0_sym [of u] c u(1) by blast
  ultimately show "Compare u (ExtractUserKey (largest f)) \<le> 0" using compare_trans [of u "ExtractUserKey (fst x)" "ExtractUserKey (largest f)"] l c u(1) by simp
qed

lemma level0_search:
  assumes lv: "\<forall>f\<in>set (v_files v ! 0). live f" and u: "legal u" "s \<le> kMaxSequenceNumber" and ord: "levels_ordered Compare content v"
  defines "fs \<equiv> files_to_search Compare v u (seek u s) 0"
  shows "set fs \<subseteq> set (v_files v ! 0)" and "sorted_wrt (newer_file Compare content) fs" and "covers Compare u s (entries_of fs) (entries_of (v_files v ! 0))"
proof -
  let ?P = "\<lambda>f. Compare u (ExtractUserKey (smallest f)) \<ge> 0 \<and> Compare u (ExtractUserKey (largest f)) \<le> 0" and ?k = "\<lambda>f. - uint (number f)"
  have fs: "fs = sort_key ?k (filter ?P (v_files v ! 0))" by (simp add: fs_def files_to_search_def)
  then show sub: "set fs \<subseteq> set (v_files v ! 0)" by auto
  have "distinct (map number (filter ?P (v_files v ! 0)))" using ord by (simp add: levels_ordered_def distinct_map_filter)
  then have d: "distinct (map number fs)" by (simp add: fs distinct_map)
  have m: "sorted (map ?k fs)" unfolding fs by (rule sorted_sort_key)
  show "sorted_wrt (newer_file Compare content) fs" unfolding sorted_wrt_iff_nth_less
  proof (intro allI impI)
    fix i j
    assume ij: "i < j" "j < length fs"
    have "?k (fs ! i) \<le> ?k (fs ! j)" using sorted_nth_mono [OF m, of i j] ij by simp
    moreover have "number (fs ! i) \<noteq> number (fs ! j)" using nth_eq_iff_index_eq [OF d, of i j] ij by simp
    ultimately have "number (fs ! j) < number (fs ! i)" by (simp add: word_less_def order.strict_iff_order word_uint_eq_iff eq_commute)
    moreover have "fs ! i \<in> set (v_files v ! 0)" "fs ! j \<in> set (v_files v ! 0)" using sub ij by (auto simp: subset_iff)
    moreover have "0 < kNumLevels" by (simp add: kNumLevels_def)
    ultimately show "newer_file Compare content (fs ! i) (fs ! j)" using ord unfolding levels_ordered_def by blast
  qed
  have "y \<in> entries_of fs" if y: "y \<in> entries_of (v_files v ! 0)" "candidate Compare u s y" for y
  proof -
    obtain f where f: "f \<in> set (v_files v ! 0)" "y \<in> set (content (number f))" using y(1) by (auto simp: entries_of_def)
    have "?P f" using not_overlapping [OF bspec [OF lv f(1)] f(2) y(2) u] by blast
    then have "f \<in> set fs" using f(1) by (simp add: fs)
    then show ?thesis using f(2) by (auto simp: entries_of_def)
  qed
  moreover have "entries_of fs \<subseteq> entries_of (v_files v ! 0)" using sub by (auto simp: entries_of_def)
  ultimately show "covers Compare u s (entries_of fs) (entries_of (v_files v ! 0))" unfolding covers_def by blast
qed

lemma level_search:
  assumes v: "version_ok legal Compare v" "0 < level" "level < kNumLevels" and lv: "\<forall>f\<in>set (v_files v ! level). live f" and u: "legal u" "s \<le> kMaxSequenceNumber"
    and un: "unique_entries Compare E" "entries_of (v_files v ! level) \<subseteq> E"
  defines "fs \<equiv> files_to_search Compare v u (seek u s) level"
  shows "set fs \<subseteq> set (v_files v ! level)" and "sorted_wrt (newer_file Compare content) fs" and "covers Compare u s (entries_of fs) (entries_of (v_files v ! level))"
proof -
  let ?files = "v_files v ! level" and ?k = "seek u s"
  define r where "r = FindFile Compare ?files ?k"
  have ok: "\<forall>f\<in>set ?files. file_ok legal Compare f" and d: "disjoint_files Compare ?files" using version_okD [OF v(1,3)] v(2) by blast+
  note k = seek_parts(1) [OF u(1), of s]
  have r: "r = rank (ICompare Compare) ?k (map largest ?files)" unfolding r_def by (rule FindFile_rank [OF d ok k])
  have fs: "fs = (if r \<ge> length ?files then [] else if Compare u (ExtractUserKey (smallest (?files ! r))) < 0 then [] else [?files ! r])"
    using v(2) by (simp add: fs_def files_to_search_def Let_def r_def)
  then show sub: "set fs \<subseteq> set ?files" by (auto simp: not_le)
  show "sorted_wrt (newer_file Compare content) fs" by (simp add: fs)
  have "\<exists>z\<in>entries_of fs. candidate Compare u s z \<and> (z = y \<or> sequence (parsed y) < sequence (parsed z))"
    if j: "j < length ?files" and y: "y \<in> set (content (number (?files ! j)))" "candidate Compare u s y" for j y
  proof -
    let ?f = "?files ! j"
    have fj: "live ?f" "file_ok legal Compare ?f" using lv ok j by simp_all
    note yp = content_parses [OF fj(1) y(1)] and R = content_range [OF live_content [OF fj(1)] y(1)]
    have yi: "ilegal (fst y)" using yp parsed_long by (auto simp: ilegal_def)
    have yk: "Compare (ExtractUserKey (fst y)) u = 0" "\<not> ICompare Compare (fst y) ?k < 0" using candidate_iff [OF _ u(2)] yp y(2) by blast+
    have rj: "r \<le> j"
    proof (rule ccontr)
      assume "\<not> r \<le> j"
      then have "ICompare Compare (largest ?f) ?k < 0" using three_way.before_rank [OF ithree, of j ?k "map largest ?files"] r j by simp
      then show False using three_way.compare_less_trans(1) [OF ithree yi file_okD(2) [OF fj(2)] k R(2)] yk(2) by blast
    qed
    then have rl: "r < length ?files" using j by simp
    let ?g = "?files ! r"
    have g: "live ?g" "file_ok legal Compare ?g" using lv ok rl by simp_all
    have Lk: "\<not> ICompare Compare (largest ?g) ?k < 0" using three_way.rank_not_before [OF ithree, of ?k "map largest ?files"] r rl by simp
    obtain z where z: "z \<in> set (content (number ?g))" "fst z = largest ?g" 
      using live_content [OF g(1)] last_in_set [of "content (number ?g)"] unfolding content_ok_def Let_def by metis
    note zp = content_parses [OF g(1) z(1)]
    show ?thesis
    proof (cases "r = j")
      case True
      have "Compare u (ExtractUserKey (smallest ?f)) \<ge> 0" using not_overlapping(1) [OF fj(1) y u] .
      then have "fs = [?f]" using fs rl True by simp
      then show ?thesis using y by (auto simp: entries_of_def)
    next
      case False
      then have "ICompare Compare (largest ?g) (smallest ?f) < 0" using d rj j by (simp add: disjoint_files_def sorted_wrt_iff_nth_less)
      then have zy: "ICompare Compare (fst z) (fst y) < 0" using three_way.compare_less_trans(2) [OF ithree _ _ yi _ R(1)] file_okD(1) [OF fj(2)] file_okD(2) [OF g(2)] z(2) by simp
      then have "Compare (ExtractUserKey (fst z)) (ExtractUserKey (fst y)) \<le> 0" by (auto simp: icompare_less)
      then have "Compare (ExtractUserKey (fst z)) u \<le> 0" using compare_trans [of "ExtractUserKey (fst z)" "ExtractUserKey (fst y)" u] yk(1) yp zp u(1) by simp
      then have zu: "Compare (ExtractUserKey (fst z)) u = 0" using Lk z(2) by (auto simp: icompare_less seek_parts)
      then have zc: "candidate Compare u s z" using candidate_iff [of z, OF _ u(2)] zp Lk z(2) by simp
      have "Compare u (ExtractUserKey (smallest ?g)) \<ge> 0" using not_overlapping(1) [OF g(1) z(1) zc u] .
      then have "fs = [?g]" using fs rl by simp
      moreover have "z \<in> E" "y \<in> E" using un(2) z(1) y(1) nth_mem [OF rl] nth_mem [OF j] unfolding entries_of_def by blast+
      then have "sequence (parsed y) < sequence (parsed z)" using older [of z y u E] zp yp u(1) zu yk(1) zy un(1) by blast
      ultimately show ?thesis using z(1) zc by (auto simp: entries_of_def)
    qed
  qed
  moreover have "entries_of fs \<subseteq> entries_of ?files" using sub by (auto simp: entries_of_def)
  moreover have "\<exists>j<length ?files. y \<in> set (content (number (?files ! j)))" if "y \<in> entries_of ?files" for y using that by (auto simp: entries_of_def in_set_conv_nth [of _ ?files])
  ultimately show "covers Compare u s (entries_of fs) (entries_of ?files)" unfolding covers_def by blast
qed

lemma files_to_search_length: "length (files_to_search Compare v u k l) \<le> length (v_files v ! l)"
  by (auto simp: files_to_search_def Let_def length_filter_le not_le Suc_leI)

lemma search_levels_spec:
  assumes v: "version_ok legal Compare v" and lv: "\<forall>level<kNumLevels. \<forall>f\<in>set (v_files v ! level). live f" and ord: "levels_ordered Compare content v"
    and un: "unique_entries Compare (version_entries content v)" and u: "legal u" "s \<le> kMaxSequenceNumber" and ls: "\<forall>l\<in>set ls. l < kNumLevels" "sorted_wrt (<) ls"
    and g: "cinv ((\<Sum>l\<leftarrow>ls. length (v_files v ! l)) + n) (g_cache g)" "g_value g = None"
  shows "\<exists>st g'. search_levels Compare tget v u (seek u s) ls g = Some (st, g') \<and> cinv n (g_cache g') \<and> lookup_spec Compare u s (\<Union>l\<in>set ls. entries_of (v_files v ! l)) st (g_value g')"
  using ls g
proof (induction ls arbitrary: g)
  case (Cons l ls)
  let ?fs = "files_to_search Compare v u (seek u s) l" and ?F = "entries_of (v_files v ! l)" and ?G = "\<Union>l\<in>set ls. entries_of (v_files v ! l)"
  have l: "l < kNumLevels" using Cons.prems(1) by simp
  have E: "entries_of (v_files v ! m) \<subseteq> version_entries content v" if "m < kNumLevels" for m using that by (auto simp: version_entries_def entries_of_def)
  have fs: "set ?fs \<subseteq> set (v_files v ! l)" "sorted_wrt (newer_file Compare content) ?fs" "covers Compare u s (entries_of ?fs) ?F"
  proof -
    have lvl: "\<forall>f\<in>set (v_files v ! l). live f" using lv l by blast
    show "set ?fs \<subseteq> set (v_files v ! l)" "sorted_wrt (newer_file Compare content) ?fs" "covers Compare u s (entries_of ?fs) ?F"
      using level0_search [OF _ u ord] level_search [OF v _ l lvl u un E [OF l]] lvl by (cases "l = 0"; simp)+
  qed
  have "entries_of ?fs \<subseteq> version_entries content v" using fs(1) E [OF l] by (auto simp: entries_of_def)
  moreover have "\<forall>f\<in>set ?fs. live f" using lv l fs(1) by blast
  moreover have "cinv (length ?fs + ((\<Sum>l\<leftarrow>ls. length (v_files v ! l)) + n)) (g_cache g)"
    using cinv_mono [OF Cons.prems(3)] files_to_search_length [of v u "seek u s" l] by simp
  ultimately obtain r where r: "search_files Compare tget u (seek u s) l ?fs g = Some r"
    "case r of Inl (st, g') \<Rightarrow> cinv ((\<Sum>l\<leftarrow>ls. length (v_files v ! l)) + n) (g_cache g') \<and> (\<exists>x. newest_entry Compare u s (entries_of ?fs) x \<and> answers x st (g_value g'))
     | Inr g' \<Rightarrow> cinv ((\<Sum>l\<leftarrow>ls. length (v_files v ! l)) + n) (g_cache g') \<and> g_value g' = None \<and> (\<forall>y\<in>entries_of ?fs. \<not> candidate Compare u s y)"
    using search_files_spec [OF u un _ _ fs(2) _ Cons.prems(4), of _ l] by blast
  show ?case
  proof (cases r)
    case (Inl a)
    then obtain st g' x where x: "r = Inl (st, g')" "cinv ((\<Sum>l\<leftarrow>ls. length (v_files v ! l)) + n) (g_cache g')" "newest_entry Compare u s (entries_of ?fs) x" "answers x st (g_value g')" using r(2) by (cases a) auto
    have n: "newest_entry Compare u s ?F x" using covers_newest [OF x(3) fs(3)] .
    have "covers Compare u s ?F (?F \<union> ?G)" unfolding covers_def
    proof (intro conjI ballI impI)
      fix y
      assume y: "y \<in> ?F \<union> ?G" "candidate Compare u s y"
      show "\<exists>z\<in>?F. candidate Compare u s z \<and> (z = y \<or> sequence (parsed y) < sequence (parsed z))"
      proof (cases "y \<in> ?F")
        case False
        then obtain m f' where m: "m \<in> set ls" "f' \<in> set (v_files v ! m)" "y \<in> set (content (number f'))" using y(1) by (auto simp: entries_of_def)
        obtain f where f: "f \<in> set (v_files v ! l)" "x \<in> set (content (number f))" "candidate Compare u s x" using n by (auto simp: newest_entry_def entries_of_def)
        have ml: "l < m" "m < kNumLevels" using m(1) Cons.prems by auto
        have "Compare (user_key (parsed x)) (user_key (parsed y)) = 0"
          using compare_cong(2) [of "user_key (parsed x)" u "user_key (parsed y)"] compare_0_sym [of u "user_key (parsed y)"] y(2) f(3) u(1) parsed_facts(1) content_parses [of f' y] content_parses [of f x] lv f m l ml
          by (auto simp: candidate_def)
        moreover have "newer_file Compare content f f'" using ord l ml f(1) m(2) unfolding levels_ordered_def by blast
        ultimately show ?thesis using f m by (auto simp: newer_file_def entries_of_def)
      qed (use y in blast)
    qed simp
    then have "newest_entry Compare u s (?F \<union> ?G) x" using covers_newest [OF n] by blast
    then have "lookup_spec Compare u s (?F \<union> ?G) st (g_value g')" using x(4) unfolding lookup_spec_def answers_def by blast
    then show ?thesis using r(1) x(1) cinv_mono [OF x(2), of n] by simp
  next
    case (Inr g')
    then have g': "cinv ((\<Sum>l\<leftarrow>ls. length (v_files v ! l)) + n) (g_cache g')" "g_value g' = None" "\<forall>y\<in>?F. \<not> candidate Compare u s y" using r(2) covers_none [OF _ fs(3)] by auto
    have "lookup_spec Compare u s (?F \<union> ?G) st val" if "lookup_spec Compare u s ?G st val" for st val
      using that g'(3) unfolding lookup_spec_def newest_entry_def by blast
    then show ?thesis using Cons.IH [OF _ _ g'(1,2)] Cons.prems r(1) Inr by fastforce
  qed
qed (simp add: lookup_spec_def)

lemma Version_Get_spec:
  assumes "version_ok legal Compare v" and "\<forall>level<kNumLevels. \<forall>f\<in>set (v_files v ! level). live f" and "levels_ordered Compare content v"
    and "unique_entries Compare (version_entries content v)" and "legal u" "s \<le> kMaxSequenceNumber" and "cinv (num_files v + n) c" and "mk_LookupKey u s = Some k"
  shows "\<exists>st g. Version_Get Compare tget v k c = Some (st, g) \<and> cinv n (g_cache g) \<and> lookup_spec Compare u s (version_entries content v) st (g_value g)"
proof -
  have k: "lookup_user_key k = u" "internal_key k = seek u s" using assms(8)
    by (auto simp: mk_LookupKey_def Let_def lookup_user_key_def internal_key_def mk_InternalKey_def AppendInternalKey_def PutFixed64_eq EncodeFixed64_eq split: if_splits)
  have "(\<Union>l\<in>set [0..<kNumLevels]. entries_of (v_files v ! l)) = version_entries content v" by (auto simp: version_entries_def entries_of_def)
  then show ?thesis unfolding Version_Get_def k using search_levels_spec [OF assms(1-6), of "[0..<kNumLevels]"] assms(7) by (simp add: strict_sorted_iff num_files_def)
qed

end

end
