(* ===== verification/FilterBlock.thy ===== *)
theory FilterBlock
  imports DbFormat
begin

text \<open>
  util/hash.cc, util/bloom.cc, include/leveldb/filter_policy.h, table/filter_block.h and table/filter_block.cc: the filters that save
  reads of blocks which cannot contain a key. The locale \<open>filter_policy\<close> is the contract of the abstract class, that a filter
  matches every key it was created from; the Bloom filter meets it, and the filter block is correct for every policy that does.
  Sizes are natural numbers: the code that would make them wrap around needs more memory than there is.
\<close>

section \<open>The hash function\<close>

definition hash_m :: u32 where "hash_m = 0xc6a4a793"

fun hash_loop :: "slice \<Rightarrow> u32 \<Rightarrow> u32" where
  "hash_loop (a # b # c # d # data) h =
     (let h = h + DecodeFixed32 True [a, b, c, d]; h = h * hash_m in hash_loop data (h XOR drop_bit 16 h))"
| "hash_loop data h =
     (let h = (if length data \<ge> 3 then h + push_bit 16 (ucast (data ! 2)) else h);
          h = (if length data \<ge> 2 then h + push_bit 8 (ucast (data ! 1)) else h)
      in if length data \<ge> 1 then let h = (h + ucast (data ! 0)) * hash_m in h XOR drop_bit 24 h else h)"

definition Hash :: "slice \<Rightarrow> u32 \<Rightarrow> u32" where
  "Hash data seed = hash_loop data (seed XOR (word_of_nat (length data) * hash_m))"

section \<open>The Bloom filter\<close>

definition BloomHash :: "slice \<Rightarrow> u32" where "BloomHash k = Hash k 0xbc9f1d34"

text \<open>
  The number of probes. The product with 0.69 is a floating-point number that the code rounds down; below 100 it is never an integer except at 0,
  and from 44 on the result is 30 anyway, so the rounding of the product does not matter.
\<close>

definition bloom_k :: "nat \<Rightarrow> nat" where
  "bloom_k bits_per_key = (let k = bits_per_key * 69 div 100; k = (if k < 1 then 1 else k) in if k > 30 then 30 else k)"

definition bloom_delta :: "u32 \<Rightarrow> u32" where "bloom_delta h = drop_bit 17 h OR push_bit 15 h"

fun set_probes :: "nat \<Rightarrow> nat \<Rightarrow> u32 \<Rightarrow> u32 \<Rightarrow> byte list \<Rightarrow> byte list" where
  "set_probes bits 0 delta h arr = arr"
| "set_probes bits (Suc j) delta h arr =
     (let bitpos = unat h mod bits
      in set_probes bits j delta (h + delta) (arr[bitpos div 8 := arr ! (bitpos div 8) OR push_bit (bitpos mod 8) 1]))"

definition bloom_add :: "nat \<Rightarrow> nat \<Rightarrow> slice \<Rightarrow> byte list \<Rightarrow> byte list" where
  "bloom_add bits k key arr = (let h = BloomHash key in set_probes bits k (bloom_delta h) h arr)"

definition bloom_bytes :: "nat \<Rightarrow> nat \<Rightarrow> nat" where
  "bloom_bytes bits_per_key n = (let bits = n * bits_per_key; bits = (if bits < 64 then 64 else bits) in (bits + 7) div 8)"

definition bloom_CreateFilter :: "nat \<Rightarrow> slice list \<Rightarrow> byte list \<Rightarrow> byte list" where
  "bloom_CreateFilter bits_per_key keys dst =
     (let bytes = bloom_bytes bits_per_key (length keys); bits = bytes * 8; k = bloom_k bits_per_key
      in dst @ fold (bloom_add bits k) keys (replicate bytes 0) @ [word_of_nat k])"

fun test_probes :: "nat \<Rightarrow> nat \<Rightarrow> u32 \<Rightarrow> u32 \<Rightarrow> byte list \<Rightarrow> bool" where
  "test_probes bits 0 delta h arr = True"
| "test_probes bits (Suc j) delta h arr =
     (let bitpos = unat h mod bits
      in if arr ! (bitpos div 8) AND push_bit (bitpos mod 8) 1 = 0 then False else test_probes bits j delta (h + delta) arr)"

text \<open>The number of probes is read as a signed character and converted to \<open>size_t\<close>; a negative one is a large number.\<close>

definition bloom_KeyMayMatch :: "slice \<Rightarrow> slice \<Rightarrow> bool" where
  "bloom_KeyMayMatch key f =
     (let len = length f
      in if len < 2 then False
         else let bits = (len - 1) * 8; k = sint (f ! (len - 1))
              in if k < 0 \<or> k > 30 then True
                 else let h = BloomHash key in test_probes bits (nat k) (bloom_delta h) h f)"

section \<open>The contract of filter policies\<close>

locale filter_policy =
  fixes create :: "slice list \<Rightarrow> byte list \<Rightarrow> byte list"
    and may :: "slice \<Rightarrow> slice \<Rightarrow> bool"
  assumes create_append: "create ks dst = dst @ create ks []"
    and create_match: "k \<in> set ks \<Longrightarrow> may k (create ks [])"

text \<open>Bits are only set, and those that were set are found.\<close>

definition bit_set :: "byte list \<Rightarrow> nat \<Rightarrow> bool" where
  "bit_set arr p \<longleftrightarrow> bit (arr ! (p div 8)) (p mod 8)"

lemma test_bit: "x AND 2 ^ n = 0 \<longleftrightarrow> \<not> bit x n" if "n < 8" for x :: byte
proof
  assume "x AND 2 ^ n = 0"
  then have "\<not> bit (x AND 2 ^ n) n" by simp
  then show "\<not> bit x n" using that by (simp add: bit_and_iff bit_exp_iff possible_bit_def)
next
  assume "\<not> bit x n"
  then show "x AND 2 ^ n = 0" by (intro bit_word_eqI) (auto simp: bit_and_iff bit_exp_iff)
qed

lemma bit_set_update:
  "q div 8 < length arr \<Longrightarrow> bit_set (arr[p div 8 := arr ! (p div 8) OR 2 ^ (p mod 8)]) q \<longleftrightarrow> bit_set arr q \<or> q = p"
proof -
  assume q: "q div 8 < length arr"
  have "q = p \<longleftrightarrow> q div 8 = p div 8 \<and> q mod 8 = p mod 8" by (metis div_mod_decomp)
  then show ?thesis using q by (cases "q div 8 = p div 8") (auto simp: bit_set_def bit_or_iff bit_exp_iff possible_bit_def)
qed

lemma length_set_probes [simp]: "length (set_probes bits j d h arr) = length arr"
  by (induction bits j d h arr rule: set_probes.induct) (simp_all add: Let_def)

lemma set_probes_mono:
  "q div 8 < length arr \<Longrightarrow> bit_set arr q \<Longrightarrow> bit_set (set_probes bits j d h arr) q"
  by (induction bits j d h arr rule: set_probes.induct) (simp_all add: Let_def bit_set_update)

lemma pos_in_range: "0 < n \<Longrightarrow> a mod (n * 8) div 8 < (n :: nat)"
  by (simp add: less_mult_imp_div_less)

lemma set_probes_test:
  assumes "0 < length arr" and "bits = length arr * 8" and "\<And>q. q div 8 < length arr \<Longrightarrow> bit_set (set_probes bits j d h arr) q \<Longrightarrow> bit_set arr' q"
  shows "test_probes bits j d h arr'"
  using assms
proof (induction bits j d h arr rule: set_probes.induct)
  case (2 bits j d h arr)
  let ?p = "unat h mod bits"
  let ?arr = "arr[?p div 8 := arr ! (?p div 8) OR push_bit (?p mod 8) 1]"
  have p: "?p div 8 < length arr" using "2.prems"(1,2) pos_in_range by simp
  have "bit_set ?arr ?p" using p by (simp add: bit_set_update)
  then have "bit_set (set_probes bits j d (h + d) ?arr) ?p" using p by (intro set_probes_mono) simp_all
  then have b: "bit_set arr' ?p" using "2.prems"(3) p by (simp add: Let_def)
  moreover have "test_probes bits j d (h + d) arr'" using "2.IH" [OF refl] "2.prems" by (simp add: Let_def)
  ultimately show ?case by (simp add: Let_def test_bit bit_set_def)
qed simp

lemma length_bloom_add [simp]: "length (bloom_add bits k key arr) = length arr"
  by (simp add: bloom_add_def Let_def)

lemma length_fold_add [simp]: "length (fold (bloom_add bits k) keys arr) = length arr"
  by (induction keys arbitrary: arr) simp_all

lemma fold_add_mono: "q div 8 < length arr \<Longrightarrow> bit_set arr q \<Longrightarrow> bit_set (fold (bloom_add bits k) keys arr) q"
  by (induction keys arbitrary: arr) (simp_all add: bloom_add_def Let_def set_probes_mono)

lemma fold_add_match:
  assumes "key \<in> set keys" and "0 < length arr" and "bits = length arr * 8"
    and "\<And>q. q div 8 < length arr \<Longrightarrow> bit_set (fold (bloom_add bits k) keys arr) q \<Longrightarrow> bit_set arr' q"
  shows "test_probes bits k (bloom_delta (BloomHash key)) (BloomHash key) arr'"
  using assms
proof (induction keys arbitrary: arr)
  case (Cons x keys)
  show ?case
  proof (cases "x = key")
    case True
    have "bit_set arr' q" if "q div 8 < length arr" "bit_set (set_probes bits k (bloom_delta (BloomHash key)) (BloomHash key) arr) q" for q
    proof -
      have "bit_set (bloom_add bits k key arr) q" using that(2) by (simp add: bloom_add_def Let_def)
      then show ?thesis using Cons.prems(4) [of q] fold_add_mono [of q "bloom_add bits k key arr" bits k keys] that(1) True by simp
    qed
    then show ?thesis using Cons.prems(2,3) by (rule set_probes_test [rotated 2])
  next
    case False
    show ?thesis by (rule Cons.IH [of "bloom_add bits k x arr"]) (use Cons.prems False in simp_all)
  qed
qed simp

lemma bloom_k_range: "1 \<le> bloom_k b" "bloom_k b \<le> 30"
  by (simp_all add: bloom_k_def Let_def)

lemma bloom_bytes_pos: "8 \<le> bloom_bytes b n"
  unfolding bloom_bytes_def Let_def by (cases "n * b < 64") auto

interpretation bloom: filter_policy "bloom_CreateFilter bits_per_key" bloom_KeyMayMatch for bits_per_key
proof
  fix ks dst k
  show "bloom_CreateFilter bits_per_key ks dst = dst @ bloom_CreateFilter bits_per_key ks []" by (simp add: bloom_CreateFilter_def Let_def)
  assume k: "k \<in> set ks"
  let ?n = "bloom_bytes bits_per_key (length ks)"
  let ?arr = "fold (bloom_add (?n * 8) (bloom_k bits_per_key)) ks (replicate ?n 0)"
  let ?f = "?arr @ [word_of_nat (bloom_k bits_per_key)]"
  have f: "bloom_CreateFilter bits_per_key ks [] = ?f" by (simp add: bloom_CreateFilter_def Let_def)
  have s: "sint (word_of_nat n :: byte) = int n" if "n \<le> 30" for n
  proof -
    have "\<forall>n\<in>set [0..<31]. sint (word_of_nat n :: byte) = int n" by code_simp
    then show ?thesis using that by simp
  qed
  have "test_probes (?n * 8) (bloom_k bits_per_key) (bloom_delta (BloomHash k)) (BloomHash k) ?f"
    by (rule fold_add_match [OF k, where arr = "replicate ?n 0"]) (use bloom_bytes_pos [of bits_per_key "length ks"] in \<open>simp_all add: bit_set_def nth_append\<close>)
  then show "bloom_KeyMayMatch k (bloom_CreateFilter bits_per_key ks [])"
    unfolding f bloom_KeyMayMatch_def using s [OF bloom_k_range(2)] bloom_bytes_pos [of bits_per_key "length ks"] by (simp add: Let_def nth_append)
qed

section \<open>The filter block\<close>

definition kFilterBaseLg :: nat where "kFilterBaseLg = 11"
definition kFilterBase :: nat where "kFilterBase = 2 ^ kFilterBaseLg"

record filter_builder =
  fb_keys :: "byte list"
  fb_start :: "nat list"
  fb_result :: "byte list"
  fb_offsets :: "u32 list"

definition mk_FilterBlockBuilder :: filter_builder where
  "mk_FilterBlockBuilder = \<lparr>fb_keys = [], fb_start = [], fb_result = [], fb_offsets = []\<rparr>"

text \<open>The loop that makes slices of the flattened keys; the start list has one more entry.\<close>

fun tmp_keys :: "byte list \<Rightarrow> nat list \<Rightarrow> slice list" where
  "tmp_keys ks (s # e # ss) = take (e - s) (drop s ks) # tmp_keys ks (e # ss)"
| "tmp_keys ks _ = []"

definition GenerateFilter :: "(slice list \<Rightarrow> byte list \<Rightarrow> byte list) \<Rightarrow> filter_builder \<Rightarrow> filter_builder" where
  "GenerateFilter create b =
     (if fb_start b = [] then b\<lparr>fb_offsets := fb_offsets b @ [word_of_nat (length (fb_result b))]\<rparr>
      else
        let ss = fb_start b @ [length (fb_keys b)]
        in b\<lparr>fb_offsets := fb_offsets b @ [word_of_nat (length (fb_result b))],
             fb_result := create (tmp_keys (fb_keys b) ss) (fb_result b), fb_keys := [], fb_start := []\<rparr>)"

function start_loop :: "(slice list \<Rightarrow> byte list \<Rightarrow> byte list) \<Rightarrow> nat \<Rightarrow> filter_builder \<Rightarrow> filter_builder" where
  "start_loop create filter_index b =
     (if filter_index > length (fb_offsets b) then start_loop create filter_index (GenerateFilter create b) else b)"
  by pat_completeness auto
termination
  by (relation "measure (\<lambda>(_, i, b). i - length (fb_offsets b))") (auto simp: GenerateFilter_def Let_def)

declare start_loop.simps [simp del]

text \<open>\<open>StartBlock(block_offset)\<close>, with its assertion that offsets do not decrease.\<close>

definition StartBlock :: "(slice list \<Rightarrow> byte list \<Rightarrow> byte list) \<Rightarrow> nat \<Rightarrow> filter_builder \<Rightarrow> filter_builder option" where
  "StartBlock create block_offset b =
     (let filter_index = block_offset div kFilterBase
      in if filter_index \<ge> length (fb_offsets b) then Some (start_loop create filter_index b) else None)"

definition AddKey :: "slice \<Rightarrow> filter_builder \<Rightarrow> filter_builder" where
  "AddKey k b = b\<lparr>fb_start := fb_start b @ [length (fb_keys b)], fb_keys := fb_keys b @ k\<rparr>"

definition fb_Finish :: "(slice list \<Rightarrow> byte list \<Rightarrow> byte list) \<Rightarrow> filter_builder \<Rightarrow> slice" where
  "fb_Finish create b =
     (let b = (if fb_start b \<noteq> [] then GenerateFilter create b else b);
          array_offset = word_of_nat (length (fb_result b));
          result = fold (\<lambda>w r. PutFixed32 True r w) (fb_offsets b) (fb_result b)
      in PutFixed32 True result array_offset @ [word_of_nat kFilterBaseLg])"

text \<open>The reader; \<open>num_\<close> is 0 while the pointers are null.\<close>

record filter_reader =
  fr_data :: "byte list"
  fr_offset :: nat
  fr_num :: nat
  fr_base_lg :: int

definition mk_FilterBlockReader :: "slice \<Rightarrow> filter_reader" where
  "mk_FilterBlockReader contents =
     (let n = length contents; null = \<lparr>fr_data = [], fr_offset = 0, fr_num = 0, fr_base_lg = 0\<rparr>
      in if n < 5 then null
         else let base_lg = sint (contents ! (n - 1)); last_word = unat (DecodeFixed32 True (drop (n - 5) contents))
              in if last_word > n - 5 then null\<lparr>fr_base_lg := base_lg\<rparr>
                 else \<lparr>fr_data = contents, fr_offset = last_word, fr_num = (n - 5 - last_word) div 4, fr_base_lg = base_lg\<rparr>)"

text \<open>\<open>KeyMayMatch(block_offset, key)\<close>; \<^term>\<open>None\<close> for a shift by 64 or more, which C leaves undefined.\<close>

definition fr_KeyMayMatch :: "(slice \<Rightarrow> slice \<Rightarrow> bool) \<Rightarrow> filter_reader \<Rightarrow> nat \<Rightarrow> slice \<Rightarrow> bool option" where
  "fr_KeyMayMatch may r block_offset k =
     (if fr_base_lg r < 0 \<or> fr_base_lg r \<ge> 64 then None
      else
        let i = block_offset div 2 ^ nat (fr_base_lg r)
        in if i < fr_num r then
             let start = unat (DecodeFixed32 True (drop (fr_offset r + i * 4) (fr_data r)));
                 limit = unat (DecodeFixed32 True (drop (fr_offset r + i * 4 + 4) (fr_data r)))
             in if start \<le> limit \<and> limit \<le> fr_offset r then Some (may k (take (limit - start) (drop start (fr_data r))))
                else if start = limit then Some False
                else Some True
           else Some True)"

section \<open>No false negatives\<close>

text \<open>The table builder announces each data block with its offset and then adds its keys.\<close>

fun add_blocks :: "(slice list \<Rightarrow> byte list \<Rightarrow> byte list) \<Rightarrow> (nat \<times> slice list) list \<Rightarrow> filter_builder \<Rightarrow> filter_builder option" where
  "add_blocks create [] b = Some b"
| "add_blocks create ((off, ks) # bs) b = Option.bind (StartBlock create off b) (\<lambda>b. add_blocks create bs (fold AddKey ks b))"

definition build_filter :: "(slice list \<Rightarrow> byte list \<Rightarrow> byte list) \<Rightarrow> (nat \<times> slice list) list \<Rightarrow> slice option" where
  "build_filter create bs = map_option (fb_Finish create) (add_blocks create bs mk_FilterBlockBuilder)"

fun starts :: "nat \<Rightarrow> slice list \<Rightarrow> nat list" where
  "starts n [] = [n]"
| "starts n (p # ps) = n # starts (n + length p) ps"

lemma starts_snoc: "starts n (ps @ [p]) = starts n ps @ [n + length (concat ps) + length p]"
  by (induction ps arbitrary: n) (simp_all add: add.assoc)

lemma starts_Cons: "\<exists>ss. starts n ps = n # ss"
  by (cases ps) simp_all

lemma tmp_keys_starts: "tmp_keys (pre @ concat ps) (starts (length pre) ps) = ps"
proof (induction ps arbitrary: pre)
  case (Cons p ps)
  obtain ss where ss: "starts (length pre + length p) ps = (length pre + length p) # ss" using starts_Cons by blast
  then show ?case using Cons.IH [of "pre @ p"] by simp
qed simp

definition filt :: "(slice list \<Rightarrow> byte list \<Rightarrow> byte list) \<Rightarrow> slice list \<Rightarrow> byte list" where
  "filt create ks = (if ks = [] then [] else create ks [])"

definition foff :: "(slice list \<Rightarrow> byte list \<Rightarrow> byte list) \<Rightarrow> slice list list \<Rightarrow> nat \<Rightarrow> nat" where
  "foff create gs i = length (concat (map (filt create) (take i gs)))"

text \<open>The filters of the key lists \<open>gs\<close> are made, the keys \<open>ps\<close> wait for the next one.\<close>

definition fb_inv :: "(slice list \<Rightarrow> byte list \<Rightarrow> byte list) \<Rightarrow> filter_builder \<Rightarrow> slice list list \<Rightarrow> slice list \<Rightarrow> bool" where
  "fb_inv create b gs ps \<longleftrightarrow> fb_result b = concat (map (filt create) gs) \<and>
     fb_offsets b = map (\<lambda>i. word_of_nat (foff create gs i)) [0..<length gs] \<and>
     fb_keys b = concat ps \<and> fb_start b @ [length (concat ps)] = starts 0 ps"

lemma fb_inv_AddKey: "fb_inv create b gs ps \<Longrightarrow> fb_inv create (AddKey k b) gs (ps @ [k])"
  by (simp add: fb_inv_def AddKey_def starts_snoc)

lemma fb_inv_AddKeys: "fb_inv create b gs ps \<Longrightarrow> fb_inv create (fold AddKey ks b) gs (ps @ ks)"
proof (induction ks arbitrary: b ps)
  case (Cons k ks)
  from Cons.IH [OF fb_inv_AddKey [OF Cons.prems, of k]] show ?case by simp
qed simp

lemma starts_single: "starts n ps = [m] \<longleftrightarrow> ps = [] \<and> m = n"
  by (cases ps) (use starts_Cons in \<open>auto, metis list.distinct(1)\<close>)

lemma fb_inv_start: "fb_inv create b gs ps \<Longrightarrow> fb_start b = [] \<longleftrightarrow> ps = []"
proof -
  assume "fb_inv create b gs ps"
  then have "fb_start b @ [length (concat ps)] = starts 0 ps" by (simp add: fb_inv_def)
  then show ?thesis using starts_single [of 0 ps "length (concat ps)"] by (cases ps) auto
qed

context filter_policy
begin

lemma fb_inv_Generate:
  assumes "fb_inv create b gs ps"
  shows "fb_inv create (GenerateFilter create b) (gs @ [ps]) []"
proof -
  have I: "fb_result b = concat (map (filt create) gs)" "fb_offsets b = map (\<lambda>i. word_of_nat (foff create gs i)) [0..<length gs]"
    "fb_keys b = concat ps" "fb_start b @ [length (concat ps)] = starts 0 ps" using assms by (auto simp: fb_inv_def)
  have o: "fb_offsets b @ [word_of_nat (length (fb_result b))] = map (\<lambda>i. word_of_nat (foff create (gs @ [ps]) i)) [0..<length (gs @ [ps])]"
    by (simp add: I foff_def)
  show ?thesis
  proof (cases "ps = []")
    case True
    then show ?thesis using fb_inv_start [OF assms] I o by (simp add: GenerateFilter_def fb_inv_def filt_def)
  next
    case False
    have "tmp_keys (fb_keys b) (fb_start b @ [length (fb_keys b)]) = ps" using tmp_keys_starts [of "[]" ps] by (simp add: I)
    then show ?thesis using fb_inv_start [OF assms] I o False create_append [of ps "fb_result b"]
      by (simp add: GenerateFilter_def fb_inv_def filt_def Let_def)
  qed
qed

lemma fb_inv_length: "fb_inv create b gs ps \<Longrightarrow> length (fb_offsets b) = length gs"
  by (simp add: fb_inv_def)

text \<open>The waiting keys go to the filter that is made next.\<close>

lemma start_loop_inv:
  "fb_inv create b gs ps \<Longrightarrow> length gs \<le> i \<Longrightarrow> \<exists>ms ps'. fb_inv create (start_loop create i b) (gs @ ms) ps' \<and> length (gs @ ms) = i \<and>
     (if ms = [] then ps' = ps else hd ms = ps) \<and> concat (gs @ ms) @ ps' = concat gs @ ps"
proof (induction "i - length gs" arbitrary: b gs ps)
  case 0
  then show ?case using fb_inv_length [OF 0(2)] by (subst start_loop.simps) (auto intro!: exI [of _ "[]"])
next
  case (Suc n)
  note G = fb_inv_Generate [OF Suc.prems(1)]
  have s: "start_loop create i b = start_loop create i (GenerateFilter create b)"
    using Suc.hyps(2) fb_inv_length [OF Suc.prems(1)] by (subst start_loop.simps) simp
  have "n = i - length (gs @ [ps])" "length (gs @ [ps]) \<le> i" using Suc.hyps(2) by auto
  from Suc.hyps(1) [OF this(1) G this(2)] obtain ms ps' where "fb_inv create (start_loop create i (GenerateFilter create b)) ((gs @ [ps]) @ ms) ps'"
    "length ((gs @ [ps]) @ ms) = i" "concat ((gs @ [ps]) @ ms) @ ps' = concat (gs @ [ps]) @ []" by blast
  then show ?case unfolding s by (intro exI [of _ "ps # ms"] exI [of _ ps']) simp
qed

text \<open>Every key is in the list for the filter of its block.\<close>

lemma add_blocks_inv:
  "fb_inv create b gs ps \<Longrightarrow> sorted (map fst bs) \<Longrightarrow> (bs \<noteq> [] \<Longrightarrow> length gs \<le> fst (hd bs) div kFilterBase) \<Longrightarrow>
   \<exists>b' ms ps'. add_blocks create bs b = Some b' \<and> fb_inv create b' (gs @ ms) ps' \<and> set ps \<subseteq> set (hd (ms @ [ps'])) \<and>
     concat (gs @ ms) @ ps' = concat gs @ ps @ concat (map snd bs) \<and> (if bs = [] then ms = [] else length (gs @ ms) = fst (last bs) div kFilterBase) \<and>
     (\<forall>(off, ks)\<in>set bs. length gs \<le> off div kFilterBase \<and> off div kFilterBase \<le> length (gs @ ms) \<and>
        set ks \<subseteq> set ((gs @ ms @ [ps']) ! (off div kFilterBase)))"
proof (induction bs arbitrary: b gs ps)
  case Nil
  then show ?case by (intro exI [of _ b] exI [of _ "[]"] exI [of _ ps]) simp
next
  case (Cons x bs)
  obtain off ks where x: "x = (off, ks)" by fastforce
  let ?i = "off div kFilterBase"
  have le: "length gs \<le> ?i" using Cons.prems(3) x by simp
  obtain ms ps1 where m: "fb_inv create (start_loop create ?i b) (gs @ ms) ps1" "length (gs @ ms) = ?i" "if ms = [] then ps1 = ps else hd ms = ps"
    "concat (gs @ ms) @ ps1 = concat gs @ ps"
    using start_loop_inv [OF Cons.prems(1) le] by blast
  note A = fb_inv_AddKeys [OF m(1), of ks]
  have mono: "?i \<le> off' div kFilterBase" if "(off', ks') \<in> set bs" for off' ks' using Cons.prems(2) that x by (force intro: div_le_mono)
  have "length (gs @ ms) \<le> fst (hd bs) div kFilterBase" if "bs \<noteq> []" using mono [of "fst (hd bs)" "snd (hd bs)"] that m(2) by simp
  from Cons.IH [OF A _ this] Cons.prems(2) obtain b' ns ps' where b': "add_blocks create bs (fold AddKey ks (start_loop create ?i b)) = Some b'"
    "fb_inv create b' ((gs @ ms) @ ns) ps'" "set (ps1 @ ks) \<subseteq> set (hd (ns @ [ps']))"
    "\<forall>(off, ks)\<in>set bs. length (gs @ ms) \<le> off div kFilterBase \<and> off div kFilterBase \<le> length ((gs @ ms) @ ns) \<and>
        set ks \<subseteq> set (((gs @ ms) @ ns @ [ps']) ! (off div kFilterBase))"
    "concat ((gs @ ms) @ ns) @ ps' = concat (gs @ ms) @ (ps1 @ ks) @ concat (map snd bs)" "if bs = [] then ns = [] else length ((gs @ ms) @ ns) = fst (last bs) div kFilterBase" by auto
  have st: "StartBlock create off b = Some (start_loop create ?i b)" using le fb_inv_length [OF Cons.prems(1)] by (simp add: StartBlock_def Let_def)
  have hd_ns: "((gs @ ms) @ ns @ [ps']) ! ?i = hd (ns @ [ps'])" unfolding m(2) [symmetric] by (cases ns) (simp_all add: nth_append)
  have "set ps \<subseteq> set (hd ((ms @ ns) @ [ps']))" using m(3) b'(3) by (cases ms) auto
  moreover have "\<forall>(off, ks)\<in>set (x # bs). length gs \<le> off div kFilterBase \<and> off div kFilterBase \<le> length (gs @ ms @ ns) \<and>
      set ks \<subseteq> set ((gs @ (ms @ ns) @ [ps']) ! (off div kFilterBase))"
    using b'(3,4) hd_ns m(2) le unfolding x by (auto dest!: bspec)
  moreover have "concat (gs @ ms @ ns) @ ps' = concat gs @ ps @ concat (map snd (x # bs))" using b'(5) m(4) unfolding x by simp
  moreover have "length (gs @ ms @ ns) = fst (last (x # bs)) div kFilterBase" using b'(6) m(2) unfolding x by (simp split: if_splits)
  ultimately show ?case using b'(1,2) st unfolding x by (intro exI [of _ b'] exI [of _ "ms @ ns"] exI [of _ ps']) simp
qed

lemma fb_inv_mk: "fb_inv create mk_FilterBlockBuilder [] []"
  by (simp add: fb_inv_def mk_FilterBlockBuilder_def)

lemma build_filter_layout:
  assumes "sorted (map fst bs)"
  shows "\<exists>gs. build_filter create bs = Some (concat (map (filt create) gs) @ concat (map (\<lambda>i. bytes_of_u32 (word_of_nat (foff create gs i))) [0..<length gs + 1]) @ [11]) \<and>
    concat gs = concat (map snd bs) \<and> (bs \<noteq> [] \<longrightarrow> length gs \<le> fst (last bs) div kFilterBase + 1) \<and>
    (\<forall>(off, ks)\<in>set bs. \<forall>k\<in>set ks. off div kFilterBase < length gs \<and> k \<in> set (gs ! (off div kFilterBase)))"
proof -
  obtain b gs ps where b: "add_blocks create bs mk_FilterBlockBuilder = Some b" "fb_inv create b gs ps"
    "\<forall>(off, ks)\<in>set bs. off div kFilterBase \<le> length gs \<and> set ks \<subseteq> set ((gs @ [ps]) ! (off div kFilterBase))"
    "concat gs @ ps = concat (map snd bs)" "bs \<noteq> [] \<Longrightarrow> length gs = fst (last bs) div kFilterBase"
    using add_blocks_inv [OF fb_inv_mk assms] by (auto split: if_splits)
  define gs' where "gs' = (if ps = [] then gs else gs @ [ps])"
  define b' where "b' = (if fb_start b \<noteq> [] then GenerateFilter create b else b)"
  have b': "fb_inv create b' gs' []" using b(2) fb_inv_Generate [OF b(2)] fb_inv_start [OF b(2)] by (auto simp: gs'_def b'_def)
  have f: "fold (\<lambda>w r. r @ bytes_of_u32 w) ws buf = buf @ concat (map bytes_of_u32 ws)" for ws buf by (induction ws arbitrary: buf) simp_all
  have "fb_Finish create b = concat (map (filt create) gs') @ concat (map (\<lambda>i. bytes_of_u32 (word_of_nat (foff create gs' i))) [0..<length gs' + 1]) @ [11]"
    unfolding fb_Finish_def b'_def [symmetric] Let_def using b'
    by (simp add: fb_inv_def PutFixed32_def EncodeFixed32_eq f comp_def kFilterBaseLg_def foff_def)
  moreover have "\<forall>(off, ks)\<in>set bs. \<forall>k\<in>set ks. off div kFilterBase < length gs' \<and> k \<in> set (gs' ! (off div kFilterBase))"
  proof (clarify, goal_cases)
    case (1 off ks k)
    then have o: "off div kFilterBase \<le> length gs" "k \<in> set ((gs @ [ps]) ! (off div kFilterBase))" using b(3) by auto
    then show ?case by (cases "off div kFilterBase = length gs") (auto simp: gs'_def nth_append split: if_splits)
  qed
  moreover have "concat gs' = concat (map snd bs)" "bs \<noteq> [] \<Longrightarrow> length gs' \<le> fst (last bs) div kFilterBase + 1"
    using b(4,5) by (auto simp: gs'_def)
  ultimately show ?thesis using b(1) unfolding build_filter_def by (intro exI [of _ gs']) simp
qed

text \<open>The reader finds the filter of an index.\<close>

lemma reader_filter:
  assumes c: "c = concat (map (filt create) gs) @ concat (map (\<lambda>i. bytes_of_u32 (word_of_nat (foff create gs i))) [0..<length gs + 1]) @ [11]"
    and sz: "length c < 2 ^ 32" and i: "off div kFilterBase < length gs"
  shows "fr_KeyMayMatch may (mk_FilterBlockReader c) off k = Some (may k (filt create (gs ! (off div kFilterBase))))"
proof -
  let ?F = "concat (map (filt create) gs)" and ?n = "length gs" and ?i = "off div kFilterBase"
  let ?w = "\<lambda>i. bytes_of_u32 (word_of_nat (foff create gs i))"
  have four: "length (concat (map ?w xs)) = 4 * length xs" for xs by (rule length_chunks) simp
  have dr: "drop (j * 4) (concat (map ?w xs)) = concat (map ?w (drop j xs))" for j xs by (rule drop_chunks) simp
  have len: "length c = length ?F + 4 * (?n + 1) + 1" unfolding c by (simp add: four)
  have fl: "foff create gs j \<le> length ?F" for j
  proof -
    have "?F = concat (map (filt create) (take j gs)) @ concat (map (filt create) (drop j gs))" by (metis append_take_drop_id concat_append map_append)
    then show ?thesis by (simp add: foff_def)
  qed
  have word: "unat (DecodeFixed32 True (drop (length ?F + j * 4) c)) = foff create gs j" if "j \<le> ?n" for j
  proof -
    have "drop (length ?F + j * 4) c = concat (map ?w (drop j [0..<?n + 1])) @ [11]"
      unfolding c using that dr [of j "[0..<?n + 1]"] by (simp add: four del: upt_Suc)
    also have "drop j [0..<?n + 1] = j # [Suc j..<?n + 1]" unfolding drop_upt using that by (subst upt_conv_Cons) simp_all
    also have "concat (map ?w (j # [Suc j..<?n + 1])) @ [11] = ?w j @ concat (map ?w [Suc j..<?n + 1]) @ [11]" by simp
    finally show ?thesis using fl [of j] sz len by (simp add: DecodeFixed32_bytes unat_of_nat)
  qed
  have last: "foff create gs ?n = length ?F" by (simp add: foff_def)
  have b: "c ! (length c - 1) = 11" unfolding c by (simp add: nth_append)
  have s11: "sint (11 :: byte) = 11" by code_simp
  have off: "length c - 5 = length ?F + ?n * 4" unfolding len by simp
  have r: "mk_FilterBlockReader c = \<lparr>fr_data = c, fr_offset = length ?F, fr_num = ?n, fr_base_lg = 11\<rparr>"
    unfolding mk_FilterBlockReader_def Let_def off b s11 word [OF le_refl] last using len by simp
  have "foff create gs (Suc ?i) = foff create gs ?i + length (filt create (gs ! ?i))" using i by (simp add: foff_def take_Suc_conv_app_nth)
  moreover have "drop (foff create gs ?i) c = filt create (gs ! ?i) @ drop (foff create gs (Suc ?i)) c"
  proof -
    have "?F = concat (map (filt create) (take ?i gs)) @ filt create (gs ! ?i) @ concat (map (filt create) (drop (Suc ?i) gs))"
      using arg_cong [OF id_take_nth_drop [OF i], of "\<lambda>x. concat (map (filt create) x)"] by simp
    then have "c = concat (map (filt create) (take ?i gs)) @ filt create (gs ! ?i) @ concat (map (filt create) (drop (Suc ?i) gs)) @ drop (length ?F) c"
      unfolding c by simp
    then obtain R where "c = concat (map (filt create) (take ?i gs)) @ filt create (gs ! ?i) @ R" by metis
    then show ?thesis using i by (simp add: foff_def take_Suc_conv_app_nth)
  qed
  ultimately have "take (foff create gs (Suc ?i) - foff create gs ?i) (drop (foff create gs ?i) c) = filt create (gs ! ?i)" by simp
  then show ?thesis
    unfolding r fr_KeyMayMatch_def using i word [of ?i] word [of "Suc ?i"] fl [of "Suc ?i"] \<open>foff create gs (Suc ?i) = _\<close>
    by (simp add: Let_def kFilterBase_def kFilterBaseLg_def ac_simps)
qed

lemma filter_block_match:
  assumes "sorted (map fst bs)" and "build_filter create bs = Some c" and "length c < 2 ^ 32" and "(off, ks) \<in> set bs" and "k \<in> set ks"
  shows "fr_KeyMayMatch may (mk_FilterBlockReader c) off k = Some True"
proof -
  obtain gs where gs: "c = concat (map (filt create) gs) @ concat (map (\<lambda>i. bytes_of_u32 (word_of_nat (foff create gs i))) [0..<length gs + 1]) @ [11]"
    "off div kFilterBase < length gs" "k \<in> set (gs ! (off div kFilterBase))"
    using build_filter_layout [OF assms(1)] assms(2,4,5) by fastforce
  then have "filt create (gs ! (off div kFilterBase)) = create (gs ! (off div kFilterBase)) []" by (auto simp: filt_def)
  then show ?thesis using reader_filter [OF gs(1) assms(3) gs(2)] create_match [OF gs(3)] by simp
qed

end

text \<open>The size of the block, if a filter is at most linear in the number of its keys.\<close>

lemma build_filter_size:
  assumes "filter_policy create may" and "sorted (map fst bs)" and "bs \<noteq> []" and c: "\<And>ks. ks \<noteq> [] \<Longrightarrow> length (create ks []) \<le> C * length ks"
  shows "\<exists>f. build_filter create bs = Some f \<and> length f \<le> C * length (concat (map snd bs)) + 4 * (fst (last bs) div kFilterBase) + 9"
proof -
  obtain gs where gs: "build_filter create bs = Some (concat (map (filt create) gs) @ concat (map (\<lambda>i. bytes_of_u32 (word_of_nat (foff create gs i))) [0..<length gs + 1]) @ [11])"
    "concat gs = concat (map snd bs)" "length gs \<le> fst (last bs) div kFilterBase + 1"
    using filter_policy.build_filter_layout [OF assms(1,2)] assms(3) by blast
  let ?f = "concat (map (filt create) gs)" and ?w = "concat (map (\<lambda>i. bytes_of_u32 (word_of_nat (foff create gs i))) [0..<length gs + 1])"
  have "length (concat (map (filt create) hs)) \<le> C * length (concat hs)" for hs
  proof (induction hs)
    case (Cons h hs)
    have "length (filt create h) \<le> C * length h" using c by (simp add: filt_def)
    then show ?case using Cons by (simp add: algebra_simps)
  qed simp
  then have "length ?f \<le> C * length (concat (map snd bs))" unfolding gs(2) [symmetric] .
  moreover have "length ?w = 4 * (length gs + 1)" by (subst length_chunks) simp_all
  moreover have "length (?f @ ?w @ [11]) = length ?f + length ?w + 1" by (simp only: length_append list.size)
  moreover have "l \<le> c + 4 * x + 9" if "a \<le> c" "w = 4 * (g + 1)" "l = a + w + 1" "g \<le> x + 1" for a c g l w x :: nat using that by simp
  ultimately have "length (?f @ ?w @ [11]) \<le> C * length (concat (map snd bs)) + 4 * (fst (last bs) div kFilterBase) + 9" using gs(3) by blast
  then show ?thesis using gs(1) by blast
qed

section \<open>Properties\<close>

text \<open>
  C16. Filters have no false negatives. A filter block built for data blocks in the order of their offsets, with any policy that
  meets the contract, matches each key of each block at the offset of the block, whatever the sizes of blocks and filters (several
  blocks may share a filter, and filters may be empty).
\<close>

theorem filter_block_no_false_negatives:
  assumes "filter_policy create may" and "sorted (map fst bs)" and "build_filter create bs = Some c" and "length c < 2 ^ 32"
    and "(off, ks) \<in> set bs" and "k \<in> set ks"
  shows "fr_KeyMayMatch may (mk_FilterBlockReader c) off k = Some True"
  by (rule filter_policy.filter_block_match [OF assms])

lemma length_bloom_CreateFilter: "length (bloom_CreateFilter b ks dst) = length dst + bloom_bytes b (length ks) + 1"
  by (simp add: bloom_CreateFilter_def Let_def)

lemma start_loop_done: "i \<le> length (fb_offsets b) \<Longrightarrow> start_loop create i b = b"
  by (subst start_loop.simps) simp

theorem filter_block_no_false_negatives_witness:
  "\<exists>c. build_filter (bloom_CreateFilter 10) [(0, [[1], [2, 3]]), (100, [[4]])] = Some c \<and>
     fr_KeyMayMatch bloom_KeyMayMatch (mk_FilterBlockReader c) 100 [4] = Some True"
proof -
  let ?bs = "[(0, [[1], [2, 3]]), (100, [[4]])] :: (nat \<times> slice list) list"
  obtain c where c: "build_filter (bloom_CreateFilter 10) ?bs = Some c" "length c = 18"
    by (simp add: build_filter_def StartBlock_def start_loop_done kFilterBase_def kFilterBaseLg_def AddKey_def GenerateFilter_def fb_Finish_def Let_def mk_FilterBlockBuilder_def
        PutFixed32_def EncodeFixed32_eq length_bloom_CreateFilter bloom_bytes_def)
  then show ?thesis using filter_block_no_false_negatives [OF bloom.filter_policy_axioms, of ?bs 10 c 100 "[[4]]" "[4]"] by simp
qed

text \<open>
  The Bloom filter matches every key it was created from, for every number of bits per key, and never leaves its array: all
  probes of \<open>CreateFilter\<close> and of \<open>KeyMayMatch\<close> are below eight times the number of bytes before the last.
\<close>

theorem bloom_no_false_negatives:
  assumes "key \<in> set keys"
  shows "bloom_KeyMayMatch key (bloom_CreateFilter bits_per_key keys []) \<and>
    bloom_CreateFilter bits_per_key keys dst = dst @ bloom_CreateFilter bits_per_key keys [] \<and>
    (\<forall>h. unat (h :: u32) mod ((length (bloom_CreateFilter bits_per_key keys []) - 1) * 8) div 8 < length (bloom_CreateFilter bits_per_key keys []) - 1)"
proof -
  have l: "length (bloom_CreateFilter bits_per_key keys []) - 1 = bloom_bytes bits_per_key (length keys)" by (simp add: length_bloom_CreateFilter)
  have "0 < bloom_bytes bits_per_key (length keys)" using bloom_bytes_pos [of bits_per_key "length keys"] by linarith
  then show ?thesis unfolding l using bloom.create_match [OF assms] bloom.create_append pos_in_range by blast
qed

theorem bloom_no_false_negatives_witness: "bloom_KeyMayMatch [1, 2] (bloom_CreateFilter 10 [[5], [1, 2]] [])"
  using bloom_no_false_negatives [of "[1, 2]" "[[5], [1, 2]]" 10 "[]"] by simp

end
