(* ===== verification/Cache.thy ===== *)
theory Cache
  imports FilterBlock "HOL-Library.Multiset"
begin

text \<open>
  util/cache.cc: the cache of tables and blocks, sixteen hash tables with a list of the entries in the order of their last use. Entries live in a heap and are shared with the clients that hold
  a handle to them. The chains of the hash table (\<open>next_hash\<close>) and the two circular lists (\<open>next\<close>, \<open>prev\<close>) are lists of addresses; the newest entry is the last one. A handle to an entry that
  was freed, a failing assertion and the removal of an entry that is not in a list have the value \<^term>\<open>None\<close>. \<open>deleted\<close> records the calls of \<open>deleter\<close>. The numbers of references, of
  entries and of chains, 32 bits in the code, are natural numbers: there is memory for fewer entries and handles than that. \<open>h_linked\<close> says whether \<open>LRU_Append\<close> has ever set the
  field \<open>next\<close> of an entry, which \<open>malloc\<close> leaves uninitialised: \<open>key()\<close> tests that field.
\<close>

section \<open>Entries and the hash table\<close>

record 'v LRUHandle =
  h_value :: 'v
  h_charge :: u64
  h_key :: slice
  h_in_cache :: bool
  h_refs :: nat
  h_hash :: u32
  h_linked :: bool

type_synonym 'v cache_heap = "nat \<Rightarrow> 'v LRUHandle option"

text \<open>
  \<open>key()\<close>. Once \<open>next\<close> is set it is another entry or the head of a list, never the entry itself, so the test \<open>next == this\<close> is false and the key is the one stored in the entry. Before
  that the test reads an uninitialised pointer, and the function has no result.
\<close>

definition handle_key :: "'v LRUHandle \<Rightarrow> slice option" where
  "handle_key e = (if h_linked e then Some (h_key e) else None)"

record HandleTable =
  ht_length :: nat
  ht_elems :: nat
  ht_list :: "nat list list"

definition bucket_of :: "nat \<Rightarrow> u32 \<Rightarrow> nat" where
  "bucket_of len hash = unat (hash AND (word_of_nat len - 1))"

text \<open>\<open>FindPointer\<close>: the position in its chain of the entry with the key and hash, or the end of the chain.\<close>

fun find_chain :: "'v cache_heap \<Rightarrow> slice \<Rightarrow> u32 \<Rightarrow> nat list \<Rightarrow> nat option" where
  "find_chain hp k hash [] = Some 0"
| "find_chain hp k hash (a # as) =
     (case hp a of
        None \<Rightarrow> None
      | Some e \<Rightarrow>
          if h_hash e \<noteq> hash then map_option Suc (find_chain hp k hash as)
          else Option.bind (handle_key e) (\<lambda>k'. if k \<noteq> k' then map_option Suc (find_chain hp k hash as) else Some 0))"

definition FindPointer :: "'v cache_heap \<Rightarrow> slice \<Rightarrow> u32 \<Rightarrow> HandleTable \<Rightarrow> (nat \<times> nat) option" where
  "FindPointer hp k hash t =
     do { chain \<leftarrow> rd (ht_list t) (bucket_of (ht_length t) hash);
          i \<leftarrow> find_chain hp k hash chain;
          Some (bucket_of (ht_length t) hash, i) }"

definition chain_at :: "HandleTable \<Rightarrow> nat \<times> nat \<Rightarrow> nat option" where
  "chain_at t p = (let chain = ht_list t ! fst p in if snd p < length chain then Some (chain ! snd p) else None)"

definition ht_Lookup :: "'v cache_heap \<Rightarrow> slice \<Rightarrow> u32 \<Rightarrow> HandleTable \<Rightarrow> nat option option" where
  "ht_Lookup hp k hash t = map_option (chain_at t) (FindPointer hp k hash t)"

text \<open>\<open>Resize\<close>: the new length, and the chains with each entry put in front of its new chain.\<close>

function new_length :: "nat \<Rightarrow> nat \<Rightarrow> nat" where
  "new_length elems n = (if n = 0 \<or> elems \<le> n then n else new_length elems (n * 2))"
  by pat_completeness auto
termination by (relation "measure (\<lambda>(elems, n). elems - n)") auto

declare new_length.simps [simp del]

fun rehash :: "'v cache_heap \<Rightarrow> nat \<Rightarrow> nat list \<Rightarrow> nat list list \<Rightarrow> nat list list option" where
  "rehash hp len [] lsts = Some lsts"
| "rehash hp len (a # as) lsts =
     (case hp a of
        None \<Rightarrow> None
      | Some e \<Rightarrow> let b = bucket_of len (h_hash e)
                  in Option.bind (rd lsts b) (\<lambda>chain. rehash hp len as (lsts[b := a # chain])))"

definition Resize :: "'v cache_heap \<Rightarrow> HandleTable \<Rightarrow> HandleTable option" where
  "Resize hp t =
     (let len = new_length (ht_elems t) 4; olds = concat (ht_list t)
      in do { lsts \<leftarrow> rehash hp len olds (replicate len []);
              if ht_elems t = length olds then Some (t\<lparr>ht_list := lsts, ht_length := len\<rparr>) else None })"

definition mk_HandleTable :: HandleTable where
  "mk_HandleTable = \<lparr>ht_length = 4, ht_elems = 0, ht_list = replicate 4 []\<rparr>"

definition set_chain :: "nat \<Rightarrow> nat list \<Rightarrow> HandleTable \<Rightarrow> HandleTable" where
  "set_chain b chain t = t\<lparr>ht_list := (ht_list t)[b := chain]\<rparr>"

definition ht_Insert :: "'v cache_heap \<Rightarrow> nat \<Rightarrow> HandleTable \<Rightarrow> (nat option \<times> HandleTable) option" where
  "ht_Insert hp a t =
     do { e \<leftarrow> hp a;
          k \<leftarrow> handle_key e;
          (b, i) \<leftarrow> FindPointer hp k (h_hash e) t;
          let chain = ht_list t ! b;
          let old = chain_at t (b, i);
          let t = set_chain b (take i chain @ a # drop (Suc i) chain) t;
          case old of
            Some _ \<Rightarrow> Some (old, t)
          | None \<Rightarrow>
              let t = t\<lparr>ht_elems := ht_elems t + 1\<rparr>
              in if ht_elems t > ht_length t then map_option (Pair None) (Resize hp t) else Some (None, t) }"

definition ht_Remove :: "'v cache_heap \<Rightarrow> slice \<Rightarrow> u32 \<Rightarrow> HandleTable \<Rightarrow> (nat option \<times> HandleTable) option" where
  "ht_Remove hp k hash t =
     do { (b, i) \<leftarrow> FindPointer hp k hash t;
          let chain = ht_list t ! b;
          case chain_at t (b, i) of
            None \<Rightarrow> Some (None, t)
          | Some a \<Rightarrow> Some (Some a, (set_chain b (take i chain @ drop (Suc i) chain) t)\<lparr>ht_elems := ht_elems t - 1\<rparr>) }"

section \<open>One shard\<close>

record 'v LRUCache =
  capacity :: u64
  usage :: u64
  lru :: "nat list"
  in_use :: "nat list"
  lc_table :: HandleTable
  lc_heap :: "'v cache_heap"
  next_addr :: nat
  deleted :: "(slice \<times> 'v) list"

definition mk_LRUCache :: "u64 \<Rightarrow> 'v LRUCache" where
  "mk_LRUCache cap = \<lparr>capacity = cap, usage = 0, lru = [], in_use = [], lc_table = mk_HandleTable, lc_heap = (\<lambda>_. None), next_addr = 0, deleted = []\<rparr>"

definition set_handle :: "nat \<Rightarrow> 'v LRUHandle \<Rightarrow> 'v LRUCache \<Rightarrow> 'v LRUCache" where
  "set_handle a e c = c\<lparr>lc_heap := (lc_heap c)(a \<mapsto> e)\<rparr>"

definition LRU_Remove :: "nat \<Rightarrow> 'v LRUCache \<Rightarrow> 'v LRUCache option" where
  "LRU_Remove a c =
     (if a \<in> set (lru c) then Some (c\<lparr>lru := remove1 a (lru c)\<rparr>)
      else if a \<in> set (in_use c) then Some (c\<lparr>in_use := remove1 a (in_use c)\<rparr>) else None)"

definition lru_Ref :: "nat \<Rightarrow> 'v LRUCache \<Rightarrow> 'v LRUCache option" where
  "lru_Ref a c =
     do { e \<leftarrow> lc_heap c a;
          c \<leftarrow> (if h_refs e = 1 \<and> h_in_cache e then map_option (\<lambda>c. c\<lparr>in_use := in_use c @ [a]\<rparr>) (LRU_Remove a c) else Some c);
          Some (set_handle a (e\<lparr>h_refs := h_refs e + 1\<rparr>) c) }"

definition lru_Unref :: "nat \<Rightarrow> 'v LRUCache \<Rightarrow> 'v LRUCache option" where
  "lru_Unref a c =
     do { e \<leftarrow> lc_heap c a;
          if h_refs e = 0 then None
          else
            let e = e\<lparr>h_refs := h_refs e - 1\<rparr>; c = set_handle a e c
            in if h_refs e = 0 then
                 (if h_in_cache e then None
                  else map_option (\<lambda>k. c\<lparr>deleted := deleted c @ [(k, h_value e)], lc_heap := (lc_heap c)(a := None)\<rparr>) (handle_key e))
               else if h_in_cache e \<and> h_refs e = 1 then map_option (\<lambda>c. c\<lparr>lru := lru c @ [a]\<rparr>) (LRU_Remove a c)
               else Some c }"

definition lru_Lookup :: "slice \<Rightarrow> u32 \<Rightarrow> 'v LRUCache \<Rightarrow> (nat option \<times> 'v LRUCache) option" where
  "lru_Lookup k hash c =
     do { r \<leftarrow> ht_Lookup (lc_heap c) k hash (lc_table c);
          case r of None \<Rightarrow> Some (None, c) | Some a \<Rightarrow> map_option (Pair (Some a)) (lru_Ref a c) }"

definition FinishErase :: "nat option \<Rightarrow> 'v LRUCache \<Rightarrow> (bool \<times> 'v LRUCache) option" where
  "FinishErase r c =
     (case r of
        None \<Rightarrow> Some (False, c)
      | Some a \<Rightarrow>
          do { e \<leftarrow> lc_heap c a;
               if \<not> h_in_cache e then None
               else do { c \<leftarrow> LRU_Remove a c;
                         let c = (set_handle a (e\<lparr>h_in_cache := False\<rparr>) c)\<lparr>usage := usage c - h_charge e\<rparr>;
                         map_option (Pair True) (lru_Unref a c) } })"

definition table_erase :: "slice \<Rightarrow> u32 \<Rightarrow> 'v LRUCache \<Rightarrow> (bool \<times> 'v LRUCache) option" where
  "table_erase k hash c = do { (r, t) \<leftarrow> ht_Remove (lc_heap c) k hash (lc_table c); FinishErase r (c\<lparr>lc_table := t\<rparr>) }"

definition lru_Erase :: "slice \<Rightarrow> u32 \<Rightarrow> 'v LRUCache \<Rightarrow> 'v LRUCache option" where
  "lru_Erase k hash c = map_option snd (table_erase k hash c)"

text \<open>The loops that evict the oldest entry, in \<open>Insert\<close> and \<open>Prune\<close>, with their assertions.\<close>

partial_function (option) evict :: "('v LRUCache \<Rightarrow> bool) \<Rightarrow> 'v LRUCache \<Rightarrow> 'v LRUCache option" where
  "evict P c =
     (if P c \<and> lru c \<noteq> [] then
        Option.bind (lc_heap c (hd (lru c))) (\<lambda>old.
          if h_refs old \<noteq> 1 then None
          else Option.bind (handle_key old) (\<lambda>k.
                 Option.bind (table_erase k (h_hash old) c) (\<lambda>(erased, c). if erased then evict P c else None)))
      else Some c)"

definition lru_Insert :: "slice \<Rightarrow> u32 \<Rightarrow> 'v \<Rightarrow> u64 \<Rightarrow> 'v LRUCache \<Rightarrow> (nat \<times> 'v LRUCache) option" where
  "lru_Insert k hash v chg c =
     (let a = next_addr c; e = \<lparr>h_value = v, h_charge = chg, h_key = k, h_in_cache = False, h_refs = 1, h_hash = hash, h_linked = False\<rparr>;
          c = set_handle a e (c\<lparr>next_addr := a + 1\<rparr>)
      in do { c \<leftarrow> (if capacity c > 0 then
                     let c = set_handle a (e\<lparr>h_refs := 2, h_in_cache := True, h_linked := True\<rparr>) c;
                         c = c\<lparr>in_use := in_use c @ [a], usage := usage c + chg\<rparr>
                     in do { (old, t) \<leftarrow> ht_Insert (lc_heap c) a (lc_table c); map_option snd (FinishErase old (c\<lparr>lc_table := t\<rparr>)) }
                   else Some c);
              c \<leftarrow> evict (\<lambda>c. usage c > capacity c) c;
              Some (a, c) })"

definition lru_Prune :: "'v LRUCache \<Rightarrow> 'v LRUCache option" where
  "lru_Prune c = evict (\<lambda>_. True) c"

text \<open>The destructor: the loop over the list, and its assertion that no handle is held.\<close>

fun destroy_loop :: "nat list \<Rightarrow> 'v LRUCache \<Rightarrow> 'v LRUCache option" where
  "destroy_loop [] c = Some c"
| "destroy_loop (a # as) c =
     do { e \<leftarrow> lc_heap c a;
          if h_in_cache e \<and> h_refs e = 1 then Option.bind (lru_Unref a (set_handle a (e\<lparr>h_in_cache := False\<rparr>) c)) (destroy_loop as) else None }"

definition lru_Destroy :: "'v LRUCache \<Rightarrow> 'v LRUCache option" where
  "lru_Destroy c = (if in_use c = [] then destroy_loop (lru c) c else None)"

section \<open>The sharded cache\<close>

definition kNumShardBits :: nat where "kNumShardBits = 4"
definition kNumShards :: nat where "kNumShards = 2 ^ kNumShardBits"

record 'v ShardedLRUCache =
  shards :: "'v LRUCache list"
  last_id :: u64

definition HashSlice :: "slice \<Rightarrow> u32" where "HashSlice s = Hash s 0"
definition Shard :: "u32 \<Rightarrow> nat" where "Shard hash = unat (drop_bit (32 - kNumShardBits) hash)"

definition NewLRUCache :: "u64 \<Rightarrow> 'v ShardedLRUCache" where
  "NewLRUCache cap =
     (let per_shard = (cap + (word_of_nat kNumShards - 1)) div word_of_nat kNumShards
      in \<lparr>shards = replicate kNumShards (mk_LRUCache per_shard), last_id = 0\<rparr>)"

text \<open>A handle is the number of its shard with its address.\<close>

definition on_shard :: "nat \<Rightarrow> ('v LRUCache \<Rightarrow> ('a \<times> 'v LRUCache) option) \<Rightarrow> 'v ShardedLRUCache \<Rightarrow> ('a \<times> 'v ShardedLRUCache) option" where
  "on_shard i f c = do { s \<leftarrow> rd (shards c) i; (r, s) \<leftarrow> f s; Some (r, c\<lparr>shards := (shards c)[i := s]\<rparr>) }"

definition c_Insert :: "slice \<Rightarrow> 'v \<Rightarrow> u64 \<Rightarrow> 'v ShardedLRUCache \<Rightarrow> ((nat \<times> nat) \<times> 'v ShardedLRUCache) option" where
  "c_Insert k v chg c = (let hash = HashSlice k in map_option (apfst (Pair (Shard hash))) (on_shard (Shard hash) (lru_Insert k hash v chg) c))"

definition c_Lookup :: "slice \<Rightarrow> 'v ShardedLRUCache \<Rightarrow> ((nat \<times> nat) option \<times> 'v ShardedLRUCache) option" where
  "c_Lookup k c = (let hash = HashSlice k in map_option (apfst (map_option (Pair (Shard hash)))) (on_shard (Shard hash) (lru_Lookup k hash) c))"

definition c_handle :: "nat \<times> nat \<Rightarrow> 'v ShardedLRUCache \<Rightarrow> 'v LRUHandle option" where
  "c_handle h c = do { s \<leftarrow> rd (shards c) (fst h); lc_heap s (snd h) }"

definition c_Value :: "nat \<times> nat \<Rightarrow> 'v ShardedLRUCache \<Rightarrow> 'v option" where
  "c_Value h c = map_option h_value (c_handle h c)"

definition c_Release :: "nat \<times> nat \<Rightarrow> 'v ShardedLRUCache \<Rightarrow> 'v ShardedLRUCache option" where
  "c_Release h c = do { e \<leftarrow> c_handle h c; map_option snd (on_shard (Shard (h_hash e)) (\<lambda>s. map_option (Pair ()) (lru_Unref (snd h) s)) c) }"

definition c_Erase :: "slice \<Rightarrow> 'v ShardedLRUCache \<Rightarrow> 'v ShardedLRUCache option" where
  "c_Erase k c = (let hash = HashSlice k in map_option snd (on_shard (Shard hash) (\<lambda>s. map_option (Pair ()) (lru_Erase k hash s)) c))"

definition c_NewId :: "'v ShardedLRUCache \<Rightarrow> u64 \<times> 'v ShardedLRUCache" where
  "c_NewId c = (last_id c + 1, c\<lparr>last_id := last_id c + 1\<rparr>)"

fun prune_all :: "'v LRUCache list \<Rightarrow> 'v LRUCache list option" where
  "prune_all [] = Some []"
| "prune_all (s # ss) = do { s \<leftarrow> lru_Prune s; ss \<leftarrow> prune_all ss; Some (s # ss) }"

definition c_Prune :: "'v ShardedLRUCache \<Rightarrow> 'v ShardedLRUCache option" where
  "c_Prune c = map_option (\<lambda>ss. c\<lparr>shards := ss\<rparr>) (prune_all (shards c))"

definition c_TotalCharge :: "'v ShardedLRUCache \<Rightarrow> u64" where
  "c_TotalCharge c = fold (\<lambda>s n. n + usage s) (shards c) 0"

end
