(* ===== verification/CacheCorrect.thy ===== *)
theory CacheCorrect
  imports Cache
begin

text \<open>
  Correctness of the cache of util/cache.cc: the hash table is a map, and the cache keeps its invariant whatever sequence of operations its clients perform.
\<close>

section \<open>The hash table\<close>

lemma bucket_less:
  assumes "0 < len"
  shows "bucket_of len hash < len"
proof -
  have "unat (hash AND (word_of_nat len - 1)) \<le> unat (word_of_nat len - 1 :: u32)" by (metis and.commute word_and_le1 word_le_nat_alt)
  also have "\<dots> < len"
  proof (cases "word_of_nat len = (0 :: u32)")
    case True
    then have "2 ^ 32 dvd len" by (simp add: word_of_nat_eq_0_iff)
    then have "2 ^ 32 \<le> len" using assms by (rule dvd_imp_le)
    moreover have "unat (word_of_nat len - 1 :: u32) < 2 ^ LENGTH(32)" by (rule unsigned_less)
    ultimately show ?thesis by simp
  next
    case False
    then have "unat (word_of_nat len - 1 :: u32) < unat (word_of_nat len :: u32)" by (simp add: unat_sub_if' word_neq_0_conv word_less_nat_alt measure_unat)
    also have "\<dots> \<le> len" by (simp add: unsigned_of_nat take_bit_nat_eq_self_iff take_bit_eq_mod)
    finally show ?thesis .
  qed
  finally show ?thesis unfolding bucket_of_def .
qed

lemma mset_concat_update:
  "b < length xs \<Longrightarrow> mset (concat (xs[b := ys])) + mset (xs ! b) = mset (concat xs) + mset ys"
proof (induction xs arbitrary: b)
  case (Cons x xs)
  then show ?case by (cases b) (auto simp: ac_simps)
qed simp

definition key_at :: "'v cache_heap \<Rightarrow> nat \<Rightarrow> slice" where "key_at hp a = h_key (the (hp a))"

definition addrs :: "HandleTable \<Rightarrow> nat set" where "addrs t = set (concat (ht_list t))"

text \<open>The chains hold different entries with different keys, each in the chain of its hash.\<close>

definition chains_ok :: "'v cache_heap \<Rightarrow> (slice \<Rightarrow> u32) \<Rightarrow> nat \<Rightarrow> nat list list \<Rightarrow> bool" where
  "chains_ok hp hf len cs \<longleftrightarrow> 0 < len \<and> length cs = len \<and> distinct (map (key_at hp) (concat cs)) \<and>
     (\<forall>b<len. \<forall>a\<in>set (cs ! b). \<exists>e. hp a = Some e \<and> h_hash e = hf (h_key e) \<and> h_linked e \<and> bucket_of len (h_hash e) = b)"

definition table_ok :: "'v cache_heap \<Rightarrow> (slice \<Rightarrow> u32) \<Rightarrow> HandleTable \<Rightarrow> bool" where
  "table_ok hp hf t \<longleftrightarrow> chains_ok hp hf (ht_length t) (ht_list t) \<and> ht_elems t = length (concat (ht_list t))"

lemma find_chain_eq:
  assumes "\<forall>a\<in>set chain. \<exists>e. hp a = Some e \<and> h_hash e = hf (h_key e) \<and> h_linked e"
  shows "find_chain hp k (hf k) chain = Some (length (takeWhile (\<lambda>a. key_at hp a \<noteq> k) chain))"
  using assms by (induction chain) (auto simp: key_at_def handle_key_def)

lemma concat_nth: "a \<in> set (concat cs) \<longleftrightarrow> (\<exists>b<length cs. a \<in> set (cs ! b))"
  by simp (metis in_set_conv_nth)

lemma FindPointer_spec:
  fixes k :: slice
  assumes t: "chains_ok hp hf (ht_length t) (ht_list t)"
  defines "b \<equiv> bucket_of (ht_length t) (hf k)"
  shows "\<exists>i. FindPointer hp k (hf k) t = Some (b, i) \<and> b < length (ht_list t) \<and> i \<le> length (ht_list t ! b) \<and>
    (if i < length (ht_list t ! b) then key_at hp (ht_list t ! b ! i) = k else k \<notin> key_at hp ` addrs t)"
proof -
  let ?c = "ht_list t ! b" and ?i = "length (takeWhile (\<lambda>a. key_at hp a \<noteq> k) (ht_list t ! b))"
  have b: "b < length (ht_list t)" using t bucket_less by (auto simp: chains_ok_def b_def)
  have c: "\<forall>a\<in>set ?c. \<exists>e. hp a = Some e \<and> h_hash e = hf (h_key e) \<and> h_linked e" using t b by (force simp: chains_ok_def)
  have "k \<notin> key_at hp ` addrs t" if "\<not> ?i < length ?c"
  proof
    assume "k \<in> key_at hp ` addrs t"
    then obtain b' a where a: "b' < length (ht_list t)" "a \<in> set (ht_list t ! b')" "key_at hp a = k" by (auto simp: addrs_def concat_nth simp del: set_concat)
    then have "b' = b" using t by (fastforce simp: chains_ok_def b_def key_at_def)
    moreover have "takeWhile (\<lambda>a. key_at hp a \<noteq> k) ?c = ?c" using that by (metis length_takeWhile_le le_neq_implies_less takeWhile_eq_take take_all_iff not_less)
    ultimately show False using a by (metis set_takeWhileD)
  qed
  moreover have "key_at hp (?c ! ?i) = k" if "?i < length ?c" using nth_length_takeWhile [OF that] by simp
  ultimately show ?thesis using b find_chain_eq [OF c, of k] length_takeWhile_le [of _ ?c] by (simp add: FindPointer_def b_def [symmetric])
qed

lemma distinct_map_mset: "mset xs = mset ys \<Longrightarrow> distinct (map f xs) \<longleftrightarrow> distinct (map f ys)"
  by (metis mset_eq_imp_distinct_iff mset_map)

lemma ht_Lookup_spec:
  assumes t: "chains_ok hp hf (ht_length t) (ht_list t)"
  shows "\<exists>r. ht_Lookup hp k (hf k) t = Some r \<and> (case r of None \<Rightarrow> k \<notin> key_at hp ` addrs t | Some a \<Rightarrow> a \<in> addrs t \<and> key_at hp a = k)"
proof -
  let ?c = "ht_list t ! bucket_of (ht_length t) (hf k)"
  obtain i where i: "FindPointer hp k (hf k) t = Some (bucket_of (ht_length t) (hf k), i)" "bucket_of (ht_length t) (hf k) < length (ht_list t)"
    "if i < length ?c then key_at hp (?c ! i) = k else k \<notin> key_at hp ` addrs t" using FindPointer_spec [OF t, of k] by blast
  have "ht_Lookup hp k (hf k) t = Some (if i < length ?c then Some (?c ! i) else None)" using i(1) by (simp add: ht_Lookup_def chain_at_def)
  moreover have "?c ! i \<in> addrs t" if "i < length ?c" using i(2) that by (auto simp: addrs_def concat_nth simp del: set_concat)
  ultimately show ?thesis using i(3) by (cases "i < length ?c") simp_all
qed

text \<open>A chain is replaced.\<close>

lemma chains_update:
  assumes "chains_ok hp hf len cs" and "b < len" and "\<forall>x\<in>set chain. x \<in> set (cs ! b) \<or> (\<exists>e. hp x = Some e \<and> h_hash e = hf (h_key e) \<and> h_linked e \<and> bucket_of len (h_hash e) = b)"
    and "distinct (map (key_at hp) (concat (cs[b := chain])))"
  shows "chains_ok hp hf len (cs[b := chain])"
  using assms unfolding chains_ok_def by (auto simp: nth_list_update; metis)

lemma ht_Remove_spec:
  assumes t: "table_ok hp hf t"
  shows "\<exists>r t'. ht_Remove hp k (hf k) t = Some (r, t') \<and> table_ok hp hf t' \<and> (case r of None \<Rightarrow> k \<notin> key_at hp ` addrs t \<and> t' = t | Some a \<Rightarrow> a \<in> addrs t \<and> key_at hp a = k \<and> addrs t' = addrs t - {a})"
proof -
  define b where "b = bucket_of (ht_length t) (hf k)"
  have c: "chains_ok hp hf (ht_length t) (ht_list t)" and n: "ht_elems t = length (concat (ht_list t))" using t by (simp_all add: table_ok_def)
  obtain i where i: "FindPointer hp k (hf k) t = Some (b, i)" "b < length (ht_list t)" "i \<le> length (ht_list t ! b)"
    "if i < length (ht_list t ! b) then key_at hp (ht_list t ! b ! i) = k else k \<notin> key_at hp ` addrs t" using FindPointer_spec [OF c, of k] unfolding b_def by blast
  let ?c = "ht_list t ! b"
  show ?thesis
  proof (cases "i < length ?c")
    case True
    let ?a = "?c ! i" and ?c' = "take i ?c @ drop (Suc i) ?c"
    define t' where "t' = (set_chain b ?c' t)\<lparr>ht_elems := ht_elems t - 1\<rparr>"
    have m: "mset ?c = add_mset ?a (mset ?c')" by (subst id_take_nth_drop [OF True]) simp
    then have M: "mset (concat (ht_list t)) = add_mset ?a (mset (concat (ht_list t')))" using mset_concat_update [OF i(2), of ?c'] by (simp add: t'_def set_chain_def)
    then have M': "mset (concat (ht_list t)) = mset (?a # concat (ht_list t'))" by simp
    have dk: "distinct (map (key_at hp) (?a # concat (ht_list t')))" using c distinct_map_mset [OF M', of "key_at hp"] unfolding chains_ok_def by blast
    have "distinct (?a # concat (ht_list t'))" using dk distinct_map by blast
    moreover have "set (concat (ht_list t)) = set (?a # concat (ht_list t'))" using M' by (metis set_mset_mset)
    ultimately have s: "addrs t' = addrs t - {?a}" "?a \<in> addrs t" by (auto simp: addrs_def simp del: set_concat)
    have "chains_ok hp hf (ht_length t') (ht_list t')" using chains_update [OF c, of b ?c'] dk i(2) c
      by (auto simp: t'_def set_chain_def chains_ok_def [of hp hf "ht_length t" "ht_list t"] dest: in_set_takeD in_set_dropD)
    moreover have "ht_elems t' = length (concat (ht_list t'))" using M' n by (metis HandleTable.select_convs(2) HandleTable.surjective HandleTable.update_convs(2) One_nat_def diff_Suc_1 length_Cons mset_eq_length t'_def)
    moreover have "ht_Remove hp k (hf k) t = Some (Some ?a, t')" using i(1) True by (simp add: ht_Remove_def chain_at_def Let_def t'_def)
    ultimately show ?thesis using i(4) True s by (simp add: table_ok_def)
  next
    case False
    then show ?thesis using i t by (simp add: ht_Remove_def chain_at_def Let_def)
  qed
qed

lemma rehash_spec:
  assumes "0 < len" and "length cs = len" and "\<forall>a\<in>set as. \<exists>e. hp a = Some e \<and> h_hash e = hf (h_key e) \<and> h_linked e" and "distinct (map (key_at hp) (as @ concat cs))"
    and "\<forall>b<len. \<forall>a\<in>set (cs ! b). \<exists>e. hp a = Some e \<and> h_hash e = hf (h_key e) \<and> h_linked e \<and> bucket_of len (h_hash e) = b"
  shows "\<exists>cs'. rehash hp len as cs = Some cs' \<and> chains_ok hp hf len cs' \<and> mset (concat cs') = mset as + mset (concat cs)"
  using assms(2-5)
proof (induction as arbitrary: cs)
  case Nil
  then show ?case using assms(1) by (simp add: chains_ok_def)
next
  case (Cons a as)
  obtain e where e: "hp a = Some e" "h_hash e = hf (h_key e)" "h_linked e" using Cons.prems(2) by auto
  let ?b = "bucket_of len (h_hash e)"
  let ?cs = "cs[?b := a # cs ! ?b]"
  have b: "?b < length cs" using bucket_less [OF assms(1)] Cons.prems(1) by simp
  have m: "mset (concat ?cs) = add_mset a (mset (concat cs))" using mset_concat_update [OF b, of "a # cs ! ?b"] by simp
  then have "mset (as @ concat ?cs) = mset ((a # as) @ concat cs)" by simp
  then have "distinct (map (key_at hp) (as @ concat ?cs))" using distinct_map_mset Cons.prems(3) by blast
  moreover have "\<forall>b<len. \<forall>x\<in>set (?cs ! b). \<exists>e. hp x = Some e \<and> h_hash e = hf (h_key e) \<and> h_linked e \<and> bucket_of len (h_hash e) = b"
    using Cons.prems(1,4) e b by (auto simp: nth_list_update)
  ultimately obtain cs' where "rehash hp len as ?cs = Some cs'" "chains_ok hp hf len cs'" "mset (concat cs') = mset as + mset (concat ?cs)" using Cons.IH [of ?cs] Cons.prems(1,2) by auto
  then show ?case using e(1) b m by (simp add: Let_def)
qed

lemma new_length_pos: "0 < n \<Longrightarrow> 0 < new_length elems n"
proof (induction elems n rule: new_length.induct)
  case (1 elems n)
  then show ?case by (subst new_length.simps) auto
qed

lemma Resize_spec:
  assumes t: "table_ok hp hf t"
  shows "\<exists>t'. Resize hp t = Some t' \<and> table_ok hp hf t' \<and> addrs t' = addrs t"
proof -
  let ?len = "new_length (ht_elems t) 4"
  have "\<forall>a\<in>set (concat (ht_list t)). \<exists>e. hp a = Some e \<and> h_hash e = hf (h_key e) \<and> h_linked e" unfolding Ball_def concat_nth using t by (fastforce simp: table_ok_def chains_ok_def)
  moreover have "distinct (map (key_at hp) (concat (ht_list t)))" using t by (simp add: table_ok_def chains_ok_def)
  ultimately obtain cs where "rehash hp ?len (concat (ht_list t)) (replicate ?len []) = Some cs" "chains_ok hp hf ?len cs" "mset (concat cs) = mset (concat (ht_list t))"
    using rehash_spec [of ?len "replicate ?len []" "concat (ht_list t)" hp hf] new_length_pos [of 4 "ht_elems t"] by auto
  then show ?thesis using t by (auto simp: Resize_def Let_def table_ok_def addrs_def dest: mset_eq_length mset_eq_setD simp del: set_concat)
qed

text \<open>An entry takes the place of the one with its key, or is added at the end of its chain.\<close>

lemma ht_Insert_spec:
  assumes t: "table_ok hp hf t" and e: "hp a = Some e" "h_hash e = hf (h_key e)" "h_linked e" and a: "a \<notin> addrs t"
  shows "\<exists>r t'. ht_Insert hp a t = Some (r, t') \<and> table_ok hp hf t' \<and> addrs t' = insert a (addrs t - set_option r) \<and>
    (case r of None \<Rightarrow> h_key e \<notin> key_at hp ` addrs t | Some o1 \<Rightarrow> o1 \<in> addrs t \<and> key_at hp o1 = h_key e)"
proof -
  let ?k = "h_key e"
  define b where "b = bucket_of (ht_length t) (hf ?k)"
  have c: "chains_ok hp hf (ht_length t) (ht_list t)" and n: "ht_elems t = length (concat (ht_list t))" using t by (simp_all add: table_ok_def)
  obtain i where i: "FindPointer hp ?k (hf ?k) t = Some (b, i)" "b < length (ht_list t)" "i \<le> length (ht_list t ! b)"
    "if i < length (ht_list t ! b) then key_at hp (ht_list t ! b ! i) = ?k else ?k \<notin> key_at hp ` addrs t" using FindPointer_spec [OF c, of ?k] unfolding b_def by blast
  let ?c = "ht_list t ! b"
  let ?c' = "take i ?c @ a # drop (Suc i) ?c"
  define t1 where "t1 = set_chain b ?c' t"
  have ka: "key_at hp a = ?k" using e(1) by (simp add: key_at_def)
  have upd: "chains_ok hp hf (ht_length t1) (ht_list t1)" if "distinct (map (key_at hp) (concat (ht_list t1)))"
  proof -
    have "\<forall>x\<in>set ?c'. x \<in> set ?c \<or> (\<exists>e. hp x = Some e \<and> h_hash e = hf (h_key e) \<and> h_linked e \<and> bucket_of (ht_length t) (h_hash e) = b)"
      using e by (auto simp: b_def dest: in_set_takeD in_set_dropD)
    then show ?thesis using chains_update [OF c, of b ?c'] that i(2) c by (simp add: t1_def set_chain_def chains_ok_def [of hp hf "ht_length t" "ht_list t"])
  qed
  show ?thesis
  proof (cases "i < length ?c")
    case True
    let ?o = "?c ! i"
    have "mset ?c = add_mset ?o (mset (take i ?c @ drop (Suc i) ?c))" by (subst id_take_nth_drop [OF True]) simp
    then have M: "mset (?o # concat (ht_list t1)) = mset (a # concat (ht_list t))" using mset_concat_update [OF i(2), of ?c'] by (simp add: t1_def set_chain_def)
    then have M2: "mset (concat (ht_list t)) = mset (?o # remove1 ?o (concat (ht_list t)))" "mset (concat (ht_list t1)) = mset (a # remove1 ?o (concat (ht_list t)))"
    proof -
      have m: "?o \<in> set (concat (ht_list t))" using i(2) True by (auto simp: concat_nth simp del: set_concat)
      then show "mset (concat (ht_list t)) = mset (?o # remove1 ?o (concat (ht_list t)))" by (metis insert_DiffM mset.simps(2) mset_remove1 set_mset_mset)
      then have "add_mset ?o (mset (concat (ht_list t1))) = add_mset ?o (add_mset a (mset (remove1 ?o (concat (ht_list t)))))" using M by (metis add_mset_commute mset.simps(2))
      then show "mset (concat (ht_list t1)) = mset (a # remove1 ?o (concat (ht_list t)))" by simp
    qed
    have d: "distinct (map (key_at hp) (?o # remove1 ?o (concat (ht_list t))))" using c distinct_map_mset [OF M2(1), of "key_at hp"] unfolding chains_ok_def by blast
    then have "distinct (map (key_at hp) (a # remove1 ?o (concat (ht_list t))))" using i(4) True ka by simp
    then have "distinct (map (key_at hp) (concat (ht_list t1)))" using distinct_map_mset [OF M2(2), of "key_at hp"] by blast
    moreover have "ht_elems t1 = length (concat (ht_list t1))" using M n by (metis HandleTable.select_convs(2) HandleTable.surjective HandleTable.update_convs(3) length_Cons mset_eq_length nat.inject set_chain_def t1_def)
    moreover have "addrs t1 = insert a (addrs t - {?o})" "?o \<in> addrs t"
    proof -
      have "distinct (?o # remove1 ?o (concat (ht_list t)))" using d distinct_map by blast
      then show "addrs t1 = insert a (addrs t - {?o})" "?o \<in> addrs t" using mset_eq_setD [OF M2(1)] mset_eq_setD [OF M2(2)] unfolding addrs_def by auto
    qed
    moreover have "ht_Insert hp a t = Some (Some ?o, t1)" using i(1) True e by (simp add: ht_Insert_def handle_key_def chain_at_def Let_def t1_def)
    ultimately show ?thesis using upd i(4) True by (simp add: table_ok_def)
  next
    case False
    then have il: "i = length ?c" using i(3) by simp
    define t2 where "t2 = t1\<lparr>ht_elems := ht_elems t + 1\<rparr>"
    have M: "mset (concat (ht_list t1)) = mset (a # concat (ht_list t))" using mset_concat_update [OF i(2), of ?c'] il by (simp add: t1_def set_chain_def)
    have "?k \<notin> key_at hp ` addrs t" using i(4) False by simp
    then have "distinct (map (key_at hp) (a # concat (ht_list t)))" using c ka unfolding chains_ok_def addrs_def by auto
    then have "distinct (map (key_at hp) (concat (ht_list t1)))" using distinct_map_mset [OF M, of "key_at hp"] by blast
    then have t2: "table_ok hp hf t2" "addrs t2 = insert a (addrs t)" using upd mset_eq_length [OF M] mset_eq_setD [OF M] n unfolding table_ok_def addrs_def t2_def by (simp_all del: set_concat)
    have "ht_Insert hp a t = (if ht_elems t2 > ht_length t2 then map_option (Pair None) (Resize hp t2) else Some (None, t2))"
      using i(1) False e by (simp add: ht_Insert_def handle_key_def chain_at_def Let_def t2_def t1_def set_chain_def)
    then show ?thesis using t2 Resize_spec [OF t2(1)] i(4) False by auto
  qed
qed

section \<open>The invariant of a shard\<close>

definition cached :: "'v LRUCache \<Rightarrow> nat set" where "cached c = {a. \<exists>e. lc_heap c a = Some e \<and> h_in_cache e}"

definition charge_at :: "'v cache_heap \<Rightarrow> nat \<Rightarrow> u64" where "charge_at hp a = h_charge (the (hp a))"
definition kv_at :: "'v cache_heap \<Rightarrow> nat \<Rightarrow> slice \<times> 'v" where "kv_at hp a = (h_key (the (hp a)), h_value (the (hp a)))"

text \<open>The keys and values of all entries that are not freed.\<close>

definition alive_kvs :: "'v cache_heap \<Rightarrow> (slice \<times> 'v) multiset" where "alive_kvs hp = image_mset (kv_at hp) (mset_set (dom hp))"

text \<open>
  The invariant, for the function \<open>hf\<close> that gives the hash of a key. \<open>held\<close> counts the handles that clients hold to an address, \<open>m\<close> is the map of the last value inserted for each
  key, \<open>ins\<close> are all key-value pairs ever inserted, and \<open>X\<close> are entries that were taken out of the hash table but not yet out of the lists. Entries are alive exactly as long as the cache or a
  client refers to them, the list \<open>lru\<close> holds the cached entries that no client refers to, and every value inserted is either alive or was passed to its deleter once.
\<close>

definition lru_inv ::
  "(slice \<Rightarrow> u32) \<Rightarrow> (nat \<Rightarrow> nat) \<Rightarrow> (slice \<Rightarrow> 'v option) \<Rightarrow> (slice \<times> 'v) multiset \<Rightarrow> nat set \<Rightarrow> 'v LRUCache \<Rightarrow> bool" where
  "lru_inv hf held m ins X c \<longleftrightarrow>
     table_ok (lc_heap c) hf (lc_table c) \<and> addrs (lc_table c) = cached c - X \<and>
     distinct (lru c @ in_use c) \<and> set (lru c) \<union> set (in_use c) = cached c \<and>
     (\<forall>a e. lc_heap c a = Some e \<longrightarrow> h_refs e = held a + of_bool (h_in_cache e) \<and> (held a = 0 \<longrightarrow> h_in_cache e) \<and> a < next_addr c \<and> h_hash e = hf (h_key e) \<and> h_linked e) \<and>
     (\<forall>a. lc_heap c a = None \<longrightarrow> held a = 0) \<and> (\<forall>a\<in>set (lru c). held a = 0) \<and> (\<forall>a\<in>set (in_use c). 0 < held a) \<and>
     usage c = (\<Sum>a\<in>cached c. charge_at (lc_heap c) a) \<and>
     (\<forall>a\<in>cached c - X. m (fst (kv_at (lc_heap c) a)) = Some (snd (kv_at (lc_heap c) a))) \<and>
     mset (deleted c) + alive_kvs (lc_heap c) = ins \<and> 0 < capacity c"

lemma lru_invD:
  assumes "lru_inv hf held m ins X c"
  shows "table_ok (lc_heap c) hf (lc_table c)" "addrs (lc_table c) = cached c - X" "distinct (lru c @ in_use c)" "set (lru c) \<union> set (in_use c) = cached c"
    "lc_heap c a = Some e \<Longrightarrow> h_refs e = held a + of_bool (h_in_cache e)" "lc_heap c a = Some e \<Longrightarrow> held a = 0 \<Longrightarrow> h_in_cache e" "lc_heap c a = Some e \<Longrightarrow> a < next_addr c"
    "lc_heap c a = Some e \<Longrightarrow> h_hash e = hf (h_key e)" "lc_heap c a = None \<Longrightarrow> held a = 0" "a \<in> set (lru c) \<Longrightarrow> held a = 0" "a \<in> set (in_use c) \<Longrightarrow> 0 < held a"
    "usage c = (\<Sum>a\<in>cached c. charge_at (lc_heap c) a)" "a \<in> cached c - X \<Longrightarrow> m (fst (kv_at (lc_heap c) a)) = Some (snd (kv_at (lc_heap c) a))"
    "mset (deleted c) + alive_kvs (lc_heap c) = ins" "0 < capacity c" "lc_heap c a = Some e \<Longrightarrow> h_linked e"
  using assms unfolding lru_inv_def by blast+

lemma finite_dom: "lru_inv hf held m ins X c \<Longrightarrow> finite (dom (lc_heap c))"
  by (rule finite_subset [of _ "{..<next_addr c}"]) (auto dest: lru_invD(7))

lemma cached_sub: "cached c \<subseteq> dom (lc_heap c)"
  by (auto simp: cached_def)

lemma finite_cached: "lru_inv hf held m ins X c \<Longrightarrow> finite (cached c)"
  using finite_dom finite_subset [OF cached_sub] by blast

lemma alive_free:
  assumes "finite (dom hp)" and "hp a = Some e"
  shows "alive_kvs hp = add_mset (h_key e, h_value e) (alive_kvs (hp(a := None)))"
proof -
  have "dom hp = insert a (dom (hp(a := None)))" "a \<notin> dom (hp(a := None))" using assms by (auto simp: dom_def)
  moreover have "finite (dom (hp(a := None)))" using assms(1) by simp
  ultimately have "mset_set (dom hp) = add_mset a (mset_set (dom (hp(a := None))))" by (metis mset_set.insert)
  then have "alive_kvs hp = add_mset (kv_at hp a) (image_mset (kv_at hp) (mset_set (dom (hp(a := None)))))" by (simp add: alive_kvs_def)
  moreover have "image_mset (kv_at hp) (mset_set (dom (hp(a := None)))) = alive_kvs (hp(a := None))" unfolding alive_kvs_def
    by (rule image_mset_cong) (use assms in \<open>auto simp: kv_at_def split: if_splits\<close>)
  ultimately show ?thesis using assms(2) by (simp add: kv_at_def)
qed

lemma alive_new:
  assumes "finite (dom hp)" and "hp a = None"
  shows "alive_kvs (hp(a \<mapsto> e)) = add_mset (h_key e, h_value e) (alive_kvs hp)"
  using alive_free [of "hp(a \<mapsto> e)" a e] assms by (simp add: fun_upd_idem)

lemma alive_same:
  assumes "finite (dom hp)" and "hp a = Some e" and "h_key e' = h_key e" and "h_value e' = h_value e"
  shows "alive_kvs (hp(a \<mapsto> e')) = alive_kvs hp"
  using alive_free [OF assms(1,2)] alive_free [of "hp(a \<mapsto> e')" a e'] assms by simp

lemma table_ok_heap:
  assumes "table_ok hp hf t" and "\<And>a e. a \<in> addrs t \<Longrightarrow> hp a = Some e \<Longrightarrow> \<exists>e'. hp' a = Some e' \<and> h_key e' = h_key e \<and> h_hash e' = h_hash e \<and> h_linked e' = h_linked e"
  shows "table_ok hp' hf t"
proof -
  have c: "chains_ok hp hf (ht_length t) (ht_list t)" using assms(1) by (simp add: table_ok_def)
  have at: "\<exists>e e'. hp a = Some e \<and> hp' a = Some e' \<and> h_key e' = h_key e \<and> h_hash e' = h_hash e \<and> h_linked e' = h_linked e \<and> h_hash e = hf (h_key e) \<and> h_linked e \<and> bucket_of (ht_length t) (h_hash e) = b"
    if "b < ht_length t" "a \<in> set (ht_list t ! b)" for a b
  proof -
    have "a \<in> addrs t" using that c by (auto simp: addrs_def chains_ok_def concat_nth simp del: set_concat)
    then show ?thesis using that c assms(2) [of a] unfolding chains_ok_def by blast
  qed
  have "key_at hp' a = key_at hp a" if "a \<in> set (concat (ht_list t))" for a
    using that at c unfolding concat_nth chains_ok_def key_at_def by fastforce
  then have "map (key_at hp') (concat (ht_list t)) = map (key_at hp) (concat (ht_list t))" by simp
  then show ?thesis using assms(1) at unfolding table_ok_def chains_ok_def by metis
qed

text \<open>The entry at \<open>a\<close> leaves the cache: it is freed if no client refers to it.\<close>

definition dropped :: "(nat \<Rightarrow> nat) \<Rightarrow> nat \<Rightarrow> 'v LRUHandle \<Rightarrow> 'v LRUCache \<Rightarrow> 'v LRUCache" where
  "dropped held a e c = c\<lparr>lru := remove1 a (lru c), in_use := remove1 a (in_use c), usage := usage c - h_charge e,
     lc_heap := (lc_heap c)(a := if held a = 0 then None else Some (e\<lparr>h_in_cache := False, h_refs := held a\<rparr>)),
     deleted := deleted c @ (if held a = 0 then [(h_key e, h_value e)] else [])\<rparr>"

lemma LRU_Remove_eq:
  assumes "distinct (lru c @ in_use c)" and "a \<in> set (lru c) \<union> set (in_use c)"
  shows "LRU_Remove a c = Some (c\<lparr>lru := remove1 a (lru c), in_use := remove1 a (in_use c)\<rparr>)"
  using assms by (auto simp: LRU_Remove_def remove1_idem)

lemma FinishErase_eq:
  assumes I: "lru_inv hf held m ins X c" and e: "lc_heap c a = Some e" "h_in_cache e"
  shows "FinishErase (Some a) c = Some (True, dropped held a e c)"
proof -
  have "a \<in> set (lru c) \<union> set (in_use c)" using lru_invD(4) [OF I] e by (auto simp: cached_def)
  moreover have "h_refs e = held a + 1" using lru_invD(5) [OF I e(1)] e(2) by simp
  ultimately show ?thesis using e LRU_Remove_eq [OF lru_invD(3) [OF I]]
    lru_invD(16) [OF I e(1)] by (simp add: FinishErase_def lru_Unref_def handle_key_def set_handle_def dropped_def Let_def)
qed

lemma cached_dropped: "lc_heap c a = Some e \<Longrightarrow> cached (dropped held a e c) = cached c - {a}"
  by (auto simp: cached_def dropped_def split: if_splits)

lemma dropped_inv:
  assumes I: "lru_inv hf held m ins {a} c" and e: "lc_heap c a = Some e" "h_in_cache e"
  shows "lru_inv hf held m ins {} (dropped held a e c)"
proof -
  let ?c = "dropped held a e c"
  note D = lru_invD [OF I]
  have a: "a \<in> cached c" using e by (auto simp: cached_def)
  have other: "lc_heap ?c x = lc_heap c x" if "x \<noteq> a" for x using that by (simp add: dropped_def)
  note cd = cached_dropped [of c a e held, OF e(1)]
  have t: "table_ok (lc_heap ?c) hf (lc_table ?c)"
    using table_ok_heap [OF D(1), of "lc_heap ?c"] D(2) other by (auto simp: dropped_def)
  have "addrs (lc_table ?c) = cached ?c - {}" using D(2) cd by (simp add: dropped_def)
  moreover have "distinct (lru ?c @ in_use ?c)" "set (lru ?c) \<union> set (in_use ?c) = cached ?c" using D(3,4) cd by (auto simp: dropped_def dest: notin_set_remove1)
  moreover have "\<forall>x y. lc_heap ?c x = Some y \<longrightarrow> h_refs y = held x + of_bool (h_in_cache y) \<and> (held x = 0 \<longrightarrow> h_in_cache y) \<and> x < next_addr ?c \<and> h_hash y = hf (h_key y) \<and> h_linked y"
    using D(5-8,16) e by (auto simp: dropped_def split: if_splits)
  moreover have "\<forall>x. lc_heap ?c x = None \<longrightarrow> held x = 0" using D(9) by (auto simp: dropped_def split: if_splits)
  moreover have "\<forall>x\<in>set (lru ?c). held x = 0" "\<forall>x\<in>set (in_use ?c). 0 < held x" using D(10,11) by (auto simp: dropped_def dest: notin_set_remove1)
  moreover have "usage ?c = (\<Sum>x\<in>cached ?c. charge_at (lc_heap ?c) x)"
  proof -
    have "(\<Sum>x\<in>cached ?c. charge_at (lc_heap ?c) x) = (\<Sum>x\<in>cached c - {a}. charge_at (lc_heap c) x)" unfolding cd by (rule sum.cong) (auto simp: charge_at_def other)
    also have "\<dots> = usage c - h_charge e" using sum_diff1 [OF finite_cached [OF I], of "charge_at (lc_heap c)" a] a D(12) e(1) by (simp add: charge_at_def)
    finally show ?thesis by (simp add: dropped_def)
  qed
  moreover have "\<forall>x\<in>cached ?c - {}. m (fst (kv_at (lc_heap ?c) x)) = Some (snd (kv_at (lc_heap ?c) x))" using D(13) cd other by (auto simp: kv_at_def)
  moreover have "mset (deleted ?c) + alive_kvs (lc_heap ?c) = ins"
    using D(14) alive_free [OF finite_dom [OF I] e(1)] alive_same [OF finite_dom [OF I] e(1), of "e\<lparr>h_in_cache := False, h_refs := held a\<rparr>"] by (simp add: dropped_def)
  moreover have "0 < capacity ?c" using D(15) by (simp add: dropped_def)
  ultimately show ?thesis unfolding lru_inv_def using t by blast
qed

text \<open>Data of the entries that are still alive do not change.\<close>

definition ident_of :: "'v LRUHandle \<Rightarrow> slice \<times> 'v \<times> u32" where "ident_of e = (h_key e, h_value e, h_hash e)"

definition keeps :: "'v LRUCache \<Rightarrow> 'v LRUCache \<Rightarrow> bool" where
  "keeps c c' \<longleftrightarrow> capacity c' = capacity c \<and> next_addr c \<le> next_addr c' \<and>
     (\<forall>a<next_addr c. lc_heap c' a = None \<or> map_option ident_of (lc_heap c' a) = map_option ident_of (lc_heap c a))"

lemma keeps_refl [simp]: "keeps c c"
  by (simp add: keeps_def)

lemma keeps_trans:
  assumes "keeps c c'" and "keeps c' c''"
  shows "keeps c c''"
proof -
  have "lc_heap c'' a = None \<or> map_option ident_of (lc_heap c'' a) = map_option ident_of (lc_heap c a)" if "a < next_addr c" for a
    using assms that less_le_trans [of a "next_addr c" "next_addr c'"] unfolding keeps_def by (metis map_option_is_None)
  then show ?thesis using assms by (auto simp: keeps_def)
qed

lemma keeps_dropped: "lc_heap c a = Some e \<Longrightarrow> keeps c (dropped held a e c)"
  by (simp add: keeps_def dropped_def ident_of_def)

lemma inv_weaken: "lru_inv hf held m ins {} c \<Longrightarrow> table_ok (lc_heap c) hf t \<Longrightarrow> addrs t = cached c - X \<Longrightarrow> lru_inv hf held m ins X (c\<lparr>lc_table := t\<rparr>)"
  by (auto simp: lru_inv_def cached_def)

lemma table_erase_spec:
  assumes I: "lru_inv hf held m ins {} c"
  shows "\<exists>c'. table_erase k (hf k) c = Some (k \<in> key_at (lc_heap c) ` cached c, c') \<and> lru_inv hf held (m(k := None)) ins {} c' \<and> keeps c c' \<and>
    cached c' = {a \<in> cached c. key_at (lc_heap c) a \<noteq> k} \<and> lru c' = filter (\<lambda>a. key_at (lc_heap c) a \<noteq> k) (lru c)"
proof -
  note D = lru_invD [OF I]
  obtain r t where r: "ht_Remove (lc_heap c) k (hf k) (lc_table c) = Some (r, t)" "table_ok (lc_heap c) hf t"
    "case r of None \<Rightarrow> k \<notin> key_at (lc_heap c) ` addrs (lc_table c) \<and> t = lc_table c | Some a \<Rightarrow> a \<in> addrs (lc_table c) \<and> key_at (lc_heap c) a = k \<and> addrs t = addrs (lc_table c) - {a}"
    using ht_Remove_spec [OF D(1), of k] by blast
  have inj: "inj_on (key_at (lc_heap c)) (cached c)" using D(1,2) by (simp add: table_ok_def chains_ok_def distinct_map addrs_def)
  show ?thesis
  proof (cases r)
    case None
    then have n: "k \<notin> key_at (lc_heap c) ` cached c" "t = lc_table c" using r(3) D(2) by auto
    have "lru_inv hf held (m(k := None)) ins {} c" using I n(1) unfolding lru_inv_def by (auto simp: kv_at_def key_at_def)
    moreover have "\<forall>a\<in>set (lru c). key_at (lc_heap c) a \<noteq> k" using n(1) D(4) by auto
    then have "filter (\<lambda>a. key_at (lc_heap c) a \<noteq> k) (lru c) = lru c" by (simp add: filter_id_conv)
    ultimately show ?thesis using r(1) None n by (auto simp: table_erase_def FinishErase_def keeps_def)
  next
    case (Some a)
    then have a: "a \<in> cached c" "key_at (lc_heap c) a = k" "addrs t = cached c - {a}" using r(3) D(2) by auto
    obtain e where e: "lc_heap c a = Some e" "h_in_cache e" using a(1) by (auto simp: cached_def)
    let ?c = "c\<lparr>lc_table := t\<rparr>"
    have I1: "lru_inv hf held m ins {a} ?c" using inv_weaken [OF I r(2) a(3)] .
    have "lru_inv hf held (m(k := None)) ins {} (dropped held a e ?c)"
    proof -
      have "lru_inv hf held m ins {} (dropped held a e ?c)" using dropped_inv [OF I1] e by simp
      moreover have "\<forall>x\<in>cached (dropped held a e ?c). fst (kv_at (lc_heap (dropped held a e ?c)) x) \<noteq> k"
        using a(1,2) inj cached_dropped [of ?c a e held] e by (auto simp: kv_at_def key_at_def inj_on_def dropped_def cached_def)
      ultimately show ?thesis unfolding lru_inv_def by auto
    qed
    moreover have "{x \<in> cached c. key_at (lc_heap c) x \<noteq> k} = cached c - {a}" using a inj by (auto simp: inj_on_def)
    moreover have "filter (\<lambda>x. key_at (lc_heap c) x \<noteq> k) (lru c) = remove1 a (lru c)"
    proof -
      have "remove1 a (lru c) = filter (\<lambda>x. a \<noteq> x) (lru c)" using D(3) by (simp add: distinct_remove1_removeAll removeAll_filter_not_eq)
      moreover have "\<dots> = filter (\<lambda>x. key_at (lc_heap c) x \<noteq> k) (lru c)" using a inj D(4) by (intro filter_cong) (auto simp: inj_on_def)
      ultimately show ?thesis by simp
    qed
    moreover have "table_erase k (hf k) c = Some (True, dropped held a e ?c)" using r(1) Some FinishErase_eq [OF I1, of a e] e by (simp add: table_erase_def)
    moreover have "cached (dropped held a e ?c) = cached c - {a}" using cached_dropped [of ?c a e held] e by (simp add: cached_def)
    moreover have "keeps c (dropped held a e ?c)" using keeps_dropped [of ?c a e held] e by (simp add: keeps_def)
    moreover have "lru (dropped held a e ?c) = remove1 a (lru c)" "k \<in> key_at (lc_heap c) ` cached c" using a(1,2) by (auto simp: dropped_def)
    ultimately show ?thesis by (intro exI [of _ "dropped held a e ?c"]) simp
  qed
qed

section \<open>The operations of a shard\<close>

text \<open>A client takes and gives back a handle.\<close>

lemma lru_Ref_spec:
  assumes I: "lru_inv hf held m ins {} c" and a: "a \<in> cached c"
  shows "\<exists>c'. lru_Ref a c = Some c' \<and> lru_inv hf (held(a := held a + 1)) m ins {} c' \<and> keeps c c' \<and> cached c' = cached c"
proof -
  note D = lru_invD [OF I]
  obtain e where e: "lc_heap c a = Some e" "h_in_cache e" using a by (auto simp: cached_def)
  have refs: "h_refs e = held a + 1" using D(5) [OF e(1)] e(2) by simp
  define c' where "c' = c\<lparr>lru := remove1 a (lru c), in_use := (if held a = 0 then in_use c @ [a] else in_use c), lc_heap := (lc_heap c)(a \<mapsto> e\<lparr>h_refs := h_refs e + 1\<rparr>)\<rparr>"
  have al: "a \<in> set (lru c) \<union> set (in_use c)" "held a = 0 \<longleftrightarrow> a \<in> set (lru c)" "held a = 0 \<longleftrightarrow> a \<notin> set (in_use c)" using D(3,4) a D(10,11) [of a] by auto
  have eq: "lru_Ref a c = Some c'" using e refs LRU_Remove_eq [OF D(3) al(1)] al(2,3) by (auto simp: lru_Ref_def c'_def set_handle_def remove1_idem)
  have other: "lc_heap c' x = lc_heap c x" if "x \<noteq> a" for x using that by (simp add: c'_def)
  have cd: "cached c' = cached c" using e by (auto simp: cached_def c'_def)
  have ct: "lc_table c' = lc_table c" by (simp add: c'_def)
  have "table_ok (lc_heap c') hf (lc_table c')" unfolding ct by (rule table_ok_heap [OF D(1)]) (use e in \<open>auto simp: c'_def\<close>)
  moreover have "addrs (lc_table c') = cached c' - {}" using D(2) cd by (simp add: c'_def)
  moreover have "distinct (lru c' @ in_use c')" "set (lru c') \<union> set (in_use c') = cached c'" using D(3,4) al cd by (auto simp: c'_def)
  moreover have "\<forall>x y. lc_heap c' x = Some y \<longrightarrow> h_refs y = (held(a := held a + 1)) x + of_bool (h_in_cache y) \<and> ((held(a := held a + 1)) x = 0 \<longrightarrow> h_in_cache y) \<and> x < next_addr c' \<and> h_hash y = hf (h_key y) \<and> h_linked y"
    using D(5-8,16) e refs by (auto simp: c'_def)
  moreover have "\<forall>x. lc_heap c' x = None \<longrightarrow> (held(a := held a + 1)) x = 0" using D(9) by (auto simp: c'_def)
  moreover have "\<forall>x\<in>set (lru c'). (held(a := held a + 1)) x = 0" "\<forall>x\<in>set (in_use c'). 0 < (held(a := held a + 1)) x" using D(3,10,11) by (auto simp: c'_def)
  moreover have "usage c' = (\<Sum>x\<in>cached c'. charge_at (lc_heap c') x)" unfolding cd using D(12) e(1) by (auto simp: c'_def charge_at_def intro!: sum.cong)
  moreover have "\<forall>x\<in>cached c' - {}. m (fst (kv_at (lc_heap c') x)) = Some (snd (kv_at (lc_heap c') x))" 
  proof -
    have "kv_at (lc_heap c') x = kv_at (lc_heap c) x" for x using e(1) by (simp add: c'_def kv_at_def)
    then show ?thesis using D(13) cd by simp
  qed
  moreover have "mset (deleted c') + alive_kvs (lc_heap c') = ins" using D(14) alive_same [OF finite_dom [OF I] e(1), of "e\<lparr>h_refs := h_refs e + 1\<rparr>"] by (simp add: c'_def)
  moreover have "0 < capacity c'" using D(15) by (simp add: c'_def)
  ultimately have "lru_inv hf (held(a := held a + 1)) m ins {} c'" unfolding lru_inv_def by blast
  moreover have "keeps c c'" using e(1) by (simp add: keeps_def c'_def ident_of_def)
  ultimately show ?thesis using eq cd by blast
qed

lemma lru_Unref_spec:
  assumes I: "lru_inv hf held m ins {} c" and a: "0 < held a"
  shows "\<exists>c'. lru_Unref a c = Some c' \<and> lru_inv hf (held(a := held a - 1)) m ins {} c' \<and> keeps c c' \<and> cached c' = cached c"
proof -
  note D = lru_invD [OF I]
  obtain e where e: "lc_heap c a = Some e" using a D(9) [of a] by (cases "lc_heap c a") auto
  have refs: "h_refs e = held a + of_bool (h_in_cache e)" using D(5) [OF e] .
  let ?held = "held(a := held a - 1)" and ?free = "\<not> h_in_cache e \<and> held a = 1"
  define c' where "c' = c\<lparr>lru := (if h_in_cache e \<and> held a = 1 then lru c @ [a] else lru c), in_use := (if h_in_cache e \<and> held a = 1 then remove1 a (in_use c) else in_use c),
    lc_heap := (lc_heap c)(a := if ?free then None else Some (e\<lparr>h_refs := h_refs e - 1\<rparr>)), deleted := deleted c @ (if ?free then [(h_key e, h_value e)] else [])\<rparr>"
  have al: "h_in_cache e \<longleftrightarrow> a \<in> set (in_use c)" "a \<notin> set (lru c)" using D(3,4) e D(10) [of a] a by (auto simp: cached_def)
  have eq: "lru_Unref a c = Some c'" using e refs al a LRU_Remove_eq [OF D(3), of a] D(16) [OF e]
    by (auto simp: lru_Unref_def handle_key_def LRU_Remove_def c'_def set_handle_def remove1_idem Let_def)
  have cd: "cached c' = cached c" using e by (auto simp: cached_def c'_def)
  have ct: "lc_table c' = lc_table c" by (simp add: c'_def)
  have "a \<notin> addrs (lc_table c)" if ?free using that D(2) e by (auto simp: cached_def)
  then have "table_ok (lc_heap c') hf (lc_table c')" unfolding ct by (intro table_ok_heap [OF D(1)]) (use e in \<open>auto simp: c'_def\<close>)
  moreover have "addrs (lc_table c') = cached c' - {}" using D(2) cd by (simp add: c'_def)
  moreover have "distinct (lru c' @ in_use c')" "set (lru c') \<union> set (in_use c') = cached c'" using D(3,4) al cd by (auto simp: c'_def dest: notin_set_remove1)
  moreover have "\<forall>x y. lc_heap c' x = Some y \<longrightarrow> h_refs y = ?held x + of_bool (h_in_cache y) \<and> (?held x = 0 \<longrightarrow> h_in_cache y) \<and> x < next_addr c' \<and> h_hash y = hf (h_key y) \<and> h_linked y"
    using D(5-8,16) e refs a by (auto simp: c'_def split: if_splits)
  moreover have "\<forall>x. lc_heap c' x = None \<longrightarrow> ?held x = 0" using D(9) by (auto simp: c'_def split: if_splits)
  moreover have "\<forall>x\<in>set (lru c'). ?held x = 0" "\<forall>x\<in>set (in_use c'). 0 < ?held x" using D(3,10,11) al a by (auto simp: c'_def split: if_splits)
  moreover have "usage c' = (\<Sum>x\<in>cached c'. charge_at (lc_heap c') x)"
  proof -
    have "charge_at (lc_heap c') x = charge_at (lc_heap c) x" if "x \<in> cached c" for x using that e by (auto simp: c'_def charge_at_def cached_def)
    then show ?thesis unfolding cd using D(12) by (simp add: c'_def)
  qed
  moreover have "\<forall>x\<in>cached c' - {}. m (fst (kv_at (lc_heap c') x)) = Some (snd (kv_at (lc_heap c') x))" 
  proof -
    have "kv_at (lc_heap c') x = kv_at (lc_heap c) x" if "x \<in> cached c" for x using that e by (auto simp: c'_def kv_at_def cached_def)
    then show ?thesis using D(13) cd by simp
  qed
  moreover have "mset (deleted c') + alive_kvs (lc_heap c') = ins"
    using D(14) alive_same [OF finite_dom [OF I] e, of "e\<lparr>h_refs := h_refs e - 1\<rparr>"] alive_free [OF finite_dom [OF I] e] by (simp add: c'_def)
  moreover have "0 < capacity c'" using D(15) by (simp add: c'_def)
  ultimately have "lru_inv hf ?held m ins {} c'" unfolding lru_inv_def by blast
  moreover have "keeps c c'" using e by (simp add: keeps_def c'_def ident_of_def)
  ultimately show ?thesis using eq cd by blast
qed

lemma lru_Lookup_spec:
  assumes I: "lru_inv hf held m ins {} c"
  shows "\<exists>r c'. lru_Lookup k (hf k) c = Some (r, c') \<and> keeps c c' \<and> cached c' = cached c \<and>
    (case r of None \<Rightarrow> k \<notin> key_at (lc_heap c) ` cached c \<and> c' = c
     | Some a \<Rightarrow> a \<in> cached c \<and> key_at (lc_heap c) a = k \<and> lru_inv hf (held(a := held a + 1)) m ins {} c')"
proof -
  note D = lru_invD [OF I]
  have c: "chains_ok (lc_heap c) hf (ht_length (lc_table c)) (ht_list (lc_table c))" using D(1) by (simp add: table_ok_def)
  obtain r where r: "ht_Lookup (lc_heap c) k (hf k) (lc_table c) = Some r"
    "case r of None \<Rightarrow> k \<notin> key_at (lc_heap c) ` addrs (lc_table c) | Some a \<Rightarrow> a \<in> addrs (lc_table c) \<and> key_at (lc_heap c) a = k" using ht_Lookup_spec [OF c, of k] by blast
  show ?thesis
  proof (cases r)
    case None
    then show ?thesis using r D(2) by (simp add: lru_Lookup_def)
  next
    case (Some a)
    then have a: "a \<in> cached c" "key_at (lc_heap c) a = k" using r(2) D(2) by auto
    then show ?thesis using lru_Ref_spec [OF I a(1)] r(1) Some by (auto simp: lru_Lookup_def)
  qed
qed

lemma inv_map: "lru_inv hf held (m(k := None)) ins {} c \<Longrightarrow> lru_inv hf held m ins {} c"
  unfolding lru_inv_def by (auto split: if_splits)

text \<open>Eviction ends: each round takes the oldest entry out of the list.\<close>

lemma evict_spec:
  assumes I: "lru_inv hf held m ins {} c"
  shows "\<exists>c'. evict P c = Some c' \<and> lru_inv hf held m ins {} c' \<and> keeps c c' \<and> (P c' \<longrightarrow> lru c' = []) \<and> cached c' \<subseteq> cached c \<and> (\<forall>a\<in>cached c. 0 < held a \<longrightarrow> a \<in> cached c')"
  using I
proof (induction "length (lru c)" arbitrary: c rule: less_induct)
  case less
  show ?case
  proof (cases "P c \<and> lru c \<noteq> []")
    case True
    note D = lru_invD [OF less.prems]
    let ?a = "hd (lru c)"
    have a: "?a \<in> set (lru c)" using True by simp
    then have ac: "?a \<in> cached c" using D(4) by blast
    then obtain e where e: "lc_heap c ?a = Some e" "h_in_cache e" by (auto simp: cached_def)
    have refs: "h_refs e = 1" using D(5) [OF e(1)] D(10) [OF a] e(2) by simp
    have ke: "key_at (lc_heap c) ?a = h_key e" using e by (simp add: key_at_def)
    have inj: "inj_on (key_at (lc_heap c)) (cached c)" using D(1,2) by (simp add: table_ok_def chains_ok_def distinct_map addrs_def)
    have kin: "(h_key e \<in> key_at (lc_heap c) ` cached c) = True" using ac ke by force
    obtain c1 where c1: "table_erase (h_key e) (h_hash e) c = Some (True, c1)" "lru_inv hf held (m(h_key e := None)) ins {} c1" "keeps c c1"
      "cached c1 = {x \<in> cached c. key_at (lc_heap c) x \<noteq> h_key e}" "lru c1 = filter (\<lambda>x. key_at (lc_heap c) x \<noteq> h_key e) (lru c)"
      using table_erase_spec [OF less.prems, of "h_key e"] unfolding kin D(8) [OF e(1), symmetric] by blast
    have "length (lru c1) < length (lru c)" unfolding c1(5) using a ke by (intro length_filter_less) auto
    then obtain c' where c': "evict P c1 = Some c'" "lru_inv hf held m ins {} c'" "keeps c1 c'" "P c' \<longrightarrow> lru c' = []" "cached c' \<subseteq> cached c1" "\<forall>a\<in>cached c1. 0 < held a \<longrightarrow> a \<in> cached c'"
      using less.hyps [OF _ inv_map [OF c1(2)]] by blast
    have "x \<in> cached c1" if "x \<in> cached c" "0 < held x" for x
    proof -
      have "x \<noteq> ?a" using D(10) [OF a] that(2) by auto
      then show ?thesis using c1(4) that(1) ac ke inj by (auto simp: inj_on_def)
    qed
    then have "\<forall>a\<in>cached c. 0 < held a \<longrightarrow> a \<in> cached c'" using c'(6) by blast
    moreover have "evict P c = Some c'" using True e(1) refs c1(1) c'(1) D(16) [OF e(1)] by (subst evict.simps) (simp add: handle_key_def)
    moreover have "cached c' \<subseteq> cached c" using c'(5) c1(4) by blast
    ultimately show ?thesis using c'(2,4) keeps_trans [OF c1(3) c'(3)] by blast
  next
    case False
    then show ?thesis using less.prems by (subst evict.simps) auto
  qed
qed

lemma evict_cond_True: "lru_inv hf held m ins {} c \<Longrightarrow> \<exists>c'. lru_Prune c = Some c' \<and> lru_inv hf held m ins {} c' \<and> keeps c c' \<and> lru c' = []"
  unfolding lru_Prune_def using evict_spec [of hf held m ins c "\<lambda>_. True"] by blast

text \<open>A new entry, which takes the place of an entry with its key.\<close>

lemma lru_Insert_spec:
  assumes I: "lru_inv hf held m ins {} c"
  shows "\<exists>c'. lru_Insert k (hf k) v chg c = Some (next_addr c, c') \<and> held (next_addr c) = 0 \<and> lru_inv hf (held(next_addr c := 1)) (m(k \<mapsto> v)) (add_mset (k, v) ins) {} c' \<and> keeps c c' \<and>
    next_addr c < next_addr c' \<and> map_option ident_of (lc_heap c' (next_addr c)) = Some (k, v, hf k) \<and> (usage c' \<le> capacity c' \<or> lru c' = []) \<and> next_addr c \<in> cached c'"
proof -
  note D = lru_invD [OF I]
  let ?a = "next_addr c"
  let ?held = "held(next_addr c := 1)" and ?m = "m(k \<mapsto> v)" and ?ins = "add_mset (k, v) ins"
  have new: "lc_heap c ?a = None" using D(7) [of ?a] by (cases "lc_heap c ?a") auto
  have h0: "held ?a = 0" using D(9) [OF new] .
  have anew: "?a \<notin> cached c" using new by (auto simp: cached_def)
  define e where "e = \<lparr>h_value = v, h_charge = chg, h_key = k, h_in_cache = True, h_refs = 2, h_hash = hf k, h_linked = True\<rparr>"
  define c1 where "c1 = c\<lparr>next_addr := ?a + 1, lc_heap := (lc_heap c)(?a \<mapsto> e), in_use := in_use c @ [?a], usage := usage c + chg\<rparr>"
  have other: "lc_heap c1 x = lc_heap c x" if "x \<noteq> ?a" for x using that by (simp add: c1_def)
  have oc: "lc_heap c1 x = lc_heap c x" if "x \<in> cached c" for x using other [of x] anew that by metis
  have cd: "cached c1 = insert ?a (cached c)" using new by (auto simp: cached_def c1_def e_def)
  have tk: "table_ok (lc_heap c1) hf (lc_table c)" by (rule table_ok_heap [OF D(1)]) (use D(2) new in \<open>auto simp: c1_def\<close>)
  have key: "key_at (lc_heap c1) x = key_at (lc_heap c) x" if "x \<in> cached c" for x using that anew by (cases "x = ?a") (auto simp: key_at_def c1_def)
  have inv1: "lru_inv hf ?held ?m ?ins X (c1\<lparr>lc_table := t\<rparr>)" if t: "table_ok (lc_heap c1) hf t" "addrs t = cached c1 - X" "\<forall>x\<in>cached c - X. key_at (lc_heap c) x \<noteq> k" for X t
  proof -
    let ?c = "c1\<lparr>lc_table := t\<rparr>"
    have ce: "cached ?c = cached c1" by (simp add: cached_def)
    have "distinct (lru ?c @ in_use ?c)" "set (lru ?c) \<union> set (in_use ?c) = cached ?c" unfolding ce cd using D(3,4) anew by (auto simp: c1_def)
    moreover have "\<forall>x y. lc_heap ?c x = Some y \<longrightarrow> h_refs y = ?held x + of_bool (h_in_cache y) \<and> (?held x = 0 \<longrightarrow> h_in_cache y) \<and> x < next_addr ?c \<and> h_hash y = hf (h_key y) \<and> h_linked y"
      using D(5-8,16) by (auto simp: c1_def e_def less_Suc_eq)
    moreover have "\<forall>x. lc_heap ?c x = None \<longrightarrow> ?held x = 0" using D(9) by (auto simp: c1_def)
    moreover have "\<forall>x\<in>set (lru ?c). ?held x = 0" "\<forall>x\<in>set (in_use ?c). 0 < ?held x" using D(4,10,11) anew by (auto simp: c1_def)
    moreover have "usage ?c = (\<Sum>x\<in>cached ?c. charge_at (lc_heap ?c) x)"
    proof -
      have "(\<Sum>x\<in>cached c. charge_at (lc_heap c1) x) = (\<Sum>x\<in>cached c. charge_at (lc_heap c) x)" by (rule sum.cong) (simp_all add: charge_at_def oc)
      then show ?thesis unfolding ce cd using D(12) anew finite_cached [OF I] by (simp add: c1_def charge_at_def e_def add.commute)
    qed
    moreover have "\<forall>x\<in>cached ?c - X. ?m (fst (kv_at (lc_heap ?c) x)) = Some (snd (kv_at (lc_heap ?c) x))"
    proof
      fix x
      assume x: "x \<in> cached ?c - X"
      show "?m (fst (kv_at (lc_heap ?c) x)) = Some (snd (kv_at (lc_heap ?c) x))"
      proof (cases "x = ?a")
        case False
        then have xc: "x \<in> cached c - X" using x ce cd by (auto split: if_splits)
        then show ?thesis using D(13) [of x] t(3) other [OF False] by (auto simp: kv_at_def key_at_def)
      qed (simp add: kv_at_def c1_def e_def)
    qed
    moreover have "mset (deleted ?c) + alive_kvs (lc_heap ?c) = ?ins" using D(14) alive_new [OF finite_dom [OF I] new, of e] by (auto simp: c1_def e_def)
    moreover have "0 < capacity ?c" using D(15) by (simp add: c1_def)
    moreover have "table_ok (lc_heap ?c) hf (lc_table ?c)" "addrs (lc_table ?c) = cached ?c - X" using t(1,2) ce by simp_all
    ultimately show ?thesis unfolding lru_inv_def by blast
  qed
  have k1: "keeps c c1" using D(7) by (auto simp: keeps_def c1_def)
  have "\<exists>c2. do { (old, t) \<leftarrow> ht_Insert (lc_heap c1) ?a (lc_table c1); map_option snd (FinishErase old (c1\<lparr>lc_table := t\<rparr>)) } = Some c2 \<and>
      lru_inv hf ?held ?m ?ins {} c2 \<and> keeps c1 c2 \<and> ?a \<in> cached c2"
  proof -
    have ea: "lc_heap c1 ?a = Some e" "h_hash e = hf (h_key e)" "h_linked e" "h_key e = k" by (simp_all add: c1_def e_def)
    have na: "?a \<notin> addrs (lc_table c)" using D(2) anew by simp
    obtain r t where r: "ht_Insert (lc_heap c1) ?a (lc_table c) = Some (r, t)" "table_ok (lc_heap c1) hf t" "addrs t = insert ?a (addrs (lc_table c) - set_option r)"
      "case r of None \<Rightarrow> k \<notin> key_at (lc_heap c1) ` addrs (lc_table c) | Some o1 \<Rightarrow> o1 \<in> addrs (lc_table c) \<and> key_at (lc_heap c1) o1 = k"
      using ht_Insert_spec [OF tk ea(1-3) na] unfolding ea(4) by blast
    have inj: "inj_on (key_at (lc_heap c)) (cached c)" using D(1,2) by (simp add: table_ok_def chains_ok_def distinct_map addrs_def)
    have rc: "set_option r \<subseteq> cached c" using r(4) D(2) by (cases r) auto
    have "\<forall>x\<in>cached c - set_option r. key_at (lc_heap c) x \<noteq> k" using r(4) D(2) key inj by (cases r) (auto simp: inj_on_def)
    moreover have "addrs t = cached c1 - set_option r" using r(3) D(2) cd rc anew by auto
    ultimately have i2: "lru_inv hf ?held ?m ?ins (set_option r) (c1\<lparr>lc_table := t\<rparr>)" using inv1 r(2) by blast
    let ?c = "c1\<lparr>lc_table := t\<rparr>"
    have ct: "lc_table c1 = lc_table c" by (simp add: c1_def)
    have ca: "?a \<in> cached ?c" using cd by (simp add: cached_def)
    show ?thesis
    proof (cases r)
      case None
      then show ?thesis using r(1) i2 ca ct by (simp add: FinishErase_def keeps_def)
    next
      case (Some o1)
      have o1: "o1 \<noteq> ?a" "o1 \<in> cached ?c" using rc Some anew cd by (auto simp: cached_def)
      obtain e1 where e1: "lc_heap ?c o1 = Some e1" "h_in_cache e1" using o1(2) by (auto simp: cached_def)
      have i3: "lru_inv hf ?held ?m ?ins {o1} ?c" using i2 Some by simp
      have "FinishErase (Some o1) ?c = Some (True, dropped ?held o1 e1 ?c)" using FinishErase_eq [OF i3 e1] .
      then show ?thesis using r(1) Some dropped_inv [OF i3 e1] keeps_dropped [OF e1(1), of ?held] cached_dropped [OF e1(1), of ?held] ca o1(1) ct
        by (intro exI [of _ "dropped ?held o1 e1 ?c"]) (simp add: keeps_def)
    qed
  qed
  then obtain c2 where c2: "do { (old, t) \<leftarrow> ht_Insert (lc_heap c1) ?a (lc_table c1); map_option snd (FinishErase old (c1\<lparr>lc_table := t\<rparr>)) } = Some c2"
    "lru_inv hf ?held ?m ?ins {} c2" "keeps c1 c2" "?a \<in> cached c2" by blast
  obtain c' where c': "evict (\<lambda>c. usage c > capacity c) c2 = Some c'" "lru_inv hf ?held ?m ?ins {} c'" "keeps c2 c'" "usage c' > capacity c' \<longrightarrow> lru c' = []" "\<forall>a\<in>cached c2. 0 < ?held a \<longrightarrow> a \<in> cached c'"
    using evict_spec [OF c2(2), of "\<lambda>c. usage c > capacity c"] by blast
  have "lru_Insert k (hf k) v chg c = Some (?a, c')"
    using c2(1) c'(1) D(15) by (auto simp: lru_Insert_def Let_def set_handle_def c1_def e_def bind_eq_Some_conv)
  moreover have k2: "keeps c1 c'" using keeps_trans [OF c2(3) c'(3)] .
  have "lc_heap c' ?a \<noteq> None" using lru_invD(9) [OF c'(2), of ?a] by auto
  then have "map_option ident_of (lc_heap c' ?a) = Some (k, v, hf k)" using k2 by (auto simp: keeps_def c1_def ident_of_def e_def)
  moreover have "?a < next_addr c'" using k2 by (simp add: keeps_def c1_def)
  ultimately show ?thesis using c'(2,4,5) c2(4) keeps_trans [OF k1 k2] h0 by auto
qed

lemma mk_LRUCache_inv: "0 < cap \<Longrightarrow> lru_inv hf (\<lambda>_. 0) (\<lambda>_. None) {#} {} (mk_LRUCache cap)"
  by (auto simp: lru_inv_def mk_LRUCache_def cached_def table_ok_def chains_ok_def mk_HandleTable_def addrs_def alive_kvs_def)

section \<open>The sharded cache\<close>

text \<open>All pairs that were inserted into a shard.\<close>

definition shard_kvs :: "'v LRUCache \<Rightarrow> (slice \<times> 'v) multiset" where "shard_kvs s = mset (deleted s) + alive_kvs (lc_heap s)"

definition cache_inv :: "(nat \<times> nat \<Rightarrow> nat) \<Rightarrow> (slice \<Rightarrow> 'v option) \<Rightarrow> (slice \<times> 'v) multiset \<Rightarrow> 'v ShardedLRUCache \<Rightarrow> bool" where
  "cache_inv held m ins c \<longleftrightarrow> length (shards c) = kNumShards \<and> (\<forall>h. kNumShards \<le> fst h \<longrightarrow> held h = 0) \<and>
     (\<forall>i<kNumShards. lru_inv HashSlice (\<lambda>a. held (i, a)) (\<lambda>k. if Shard (HashSlice k) = i then m k else None) (shard_kvs (shards c ! i)) {} (shards c ! i) \<and>
        (\<forall>kv\<in>#shard_kvs (shards c ! i). Shard (HashSlice (fst kv)) = i)) \<and>
     (\<Sum>s\<leftarrow>shards c. shard_kvs s) = ins"

lemma Shard_less: "Shard hash < kNumShards"
proof -
  have "unat hash < 2 ^ LENGTH(32)" by (rule unsigned_less)
  then have "unat hash div 2 ^ 28 < 16" by (simp add: less_mult_imp_div_less)
  then show ?thesis by (simp add: Shard_def kNumShards_def kNumShardBits_def unat_drop_bit_div)
qed

lemma cache_invD:
  assumes "cache_inv held m ins c" and "i < kNumShards"
  shows "lru_inv HashSlice (\<lambda>a. held (i, a)) (\<lambda>k. if Shard (HashSlice k) = i then m k else None) (shard_kvs (shards c ! i)) {} (shards c ! i)"
    and "\<forall>kv\<in>#shard_kvs (shards c ! i). Shard (HashSlice (fst kv)) = i" and "rd (shards c) i = Some (shards c ! i)"
  using assms by (simp_all add: cache_inv_def)

lemma sum_list_replace: "i < length xs \<Longrightarrow> (\<Sum>x\<leftarrow>xs[i := y]. f x) + f (xs ! i) = (\<Sum>x\<leftarrow>xs. f x) + (f y :: 'a multiset)"
proof (induction xs arbitrary: i)
  case (Cons x xs)
  then show ?case by (cases i) (auto simp: ac_simps)
qed simp

text \<open>A step of one shard.\<close>

lemma shard_step:
  assumes I: "cache_inv held m ins c" and i: "i < kNumShards" and kvs: "shard_kvs s = shard_kvs (shards c ! i) + new" and new: "\<forall>kv\<in>#new. Shard (HashSlice (fst kv)) = i"
    and inv: "lru_inv HashSlice (\<lambda>a. held' (i, a)) (\<lambda>k. if Shard (HashSlice k) = i then m' k else None) (shard_kvs s) {} s"
    and same: "\<forall>h. fst h \<noteq> i \<longrightarrow> held' h = held h" "\<forall>k. Shard (HashSlice k) \<noteq> i \<longrightarrow> m' k = m k"
  shows "cache_inv held' m' (ins + new) (c\<lparr>shards := (shards c)[i := s]\<rparr>)"
proof -
  have len: "length (shards c) = kNumShards" and sm: "(\<Sum>s\<leftarrow>shards c. shard_kvs s) = ins" using I by (auto simp: cache_inv_def)
  have "(\<Sum>s\<leftarrow>(shards c)[i := s]. shard_kvs s) = ins + new" using sum_list_replace [of i "shards c" shard_kvs s] i len sm kvs by (simp add: add.assoc add.left_commute)
  moreover have "lru_inv HashSlice (\<lambda>a. held' (j, a)) (\<lambda>k. if Shard (HashSlice k) = j then m' k else None) (shard_kvs ((shards c)[i := s] ! j)) {} ((shards c)[i := s] ! j) \<and>
      (\<forall>kv\<in>#shard_kvs ((shards c)[i := s] ! j). Shard (HashSlice (fst kv)) = j)" if j: "j < kNumShards" for j
  proof (cases "j = i")
    case True
    then show ?thesis using inv kvs new cache_invD(2) [OF I i] i len by auto
  next
    case False
    have "(\<lambda>k. if Shard (HashSlice k) = j then m' k else None) = (\<lambda>k. if Shard (HashSlice k) = j then m k else None)" using same(2) False by auto
    then show ?thesis using cache_invD [OF I j] False same(1) by simp
  qed
  moreover have "\<forall>h. kNumShards \<le> fst h \<longrightarrow> held' h = 0" using I same(1) i by (auto simp: cache_inv_def)
  ultimately show ?thesis using len by (simp add: cache_inv_def)
qed

lemma shard_of_handle:
  assumes I: "cache_inv held m ins c" and h: "0 < held h"
  shows "\<exists>e. c_handle h c = Some e \<and> fst h < kNumShards \<and> Shard (h_hash e) = fst h"
proof -
  have "\<forall>h. kNumShards \<le> fst h \<longrightarrow> held h = 0" using I by (simp add: cache_inv_def)
  then have i: "fst h < kNumShards" using h by (metis not_le less_irrefl)
  note L = cache_invD(1) [OF I i]
  obtain e where e: "lc_heap (shards c ! fst h) (snd h) = Some e" using lru_invD(9) [OF L, of "snd h"] h by (cases "lc_heap (shards c ! fst h) (snd h)") auto
  have "(h_key e, h_value e) \<in># shard_kvs (shards c ! fst h)" using alive_free [OF finite_dom [OF L] e] by (simp add: shard_kvs_def)
  then have "Shard (h_hash e) = fst h" using cache_invD(2) [OF I i] lru_invD(8) [OF L e] by fastforce
  then show ?thesis using e i cache_invD(3) [OF I i] by (simp add: c_handle_def)
qed

text \<open>Handles that clients hold keep their values.\<close>

lemma keeps_value:
  assumes I: "cache_inv held m ins c" and i: "i < kNumShards" and k: "keeps (shards c ! i) s" and inv: "lru_inv HashSlice (\<lambda>a. held' (i, a)) m' ins' {} s"
    and h: "0 < held h" "0 < held' h"
  shows "c_Value h (c\<lparr>shards := (shards c)[i := s]\<rparr>) = c_Value h c"
proof (cases "fst h = i")
  case True
  obtain e where e: "c_handle h c = Some e" using shard_of_handle [OF I h(1)] by blast
  then have e': "lc_heap (shards c ! i) (snd h) = Some e" using True cache_invD(3) [OF I i] by (simp add: c_handle_def)
  have n: "snd h < next_addr (shards c ! i)" using lru_invD(7) [OF cache_invD(1) [OF I i] e'] .
  have "lc_heap s (snd h) \<noteq> None" using lru_invD(9) [OF inv, of "snd h"] h(2) True by (cases "lc_heap s (snd h)") auto
  then have "map_option ident_of (lc_heap s (snd h)) = Some (ident_of e)" using k n e' by (auto simp: keeps_def)
  then show ?thesis using e e' True i I by (auto simp: c_Value_def c_handle_def ident_of_def cache_inv_def)
next
  case False
  then show ?thesis by (simp add: c_Value_def c_handle_def rd_def)
qed

lemma c_Insert_spec:
  assumes I: "cache_inv held m ins c"
  shows "\<exists>h c'. c_Insert k v chg c = Some (h, c') \<and> held h = 0 \<and> cache_inv (held(h := 1)) (m(k \<mapsto> v)) (add_mset (k, v) ins) c' \<and> c_Value h c' = Some v \<and> (\<forall>h'. 0 < held h' \<longrightarrow> c_Value h' c' = c_Value h' c)"
proof -
  let ?i = "Shard (HashSlice k)"
  let ?s = "shards c ! ?i"
  note i = Shard_less [of "HashSlice k"] and L = cache_invD(1) [OF I Shard_less, of "HashSlice k"]
  let ?h = "(?i, next_addr ?s)"
  obtain s where s: "lru_Insert k (HashSlice k) v chg ?s = Some (next_addr ?s, s)" "held ?h = 0" "keeps ?s s" "map_option ident_of (lc_heap s (next_addr ?s)) = Some (k, v, HashSlice k)"
    "lru_inv HashSlice ((\<lambda>a. held (?i, a))(next_addr ?s := 1)) ((\<lambda>k'. if Shard (HashSlice k') = ?i then m k' else None)(k \<mapsto> v)) (add_mset (k, v) (shard_kvs ?s)) {} s"
    using lru_Insert_spec [OF L, of k v chg] by blast
  let ?c = "c\<lparr>shards := (shards c)[?i := s]\<rparr>"
  have kv: "shard_kvs s = shard_kvs ?s + {#(k, v)#}" using lru_invD(14) [OF s(5)] by (simp add: shard_kvs_def)
  have hh: "(\<lambda>a. held (?i, a))(next_addr ?s := 1) = (\<lambda>a. (held(?h := 1)) (?i, a))" and
    mm: "(\<lambda>k'. if Shard (HashSlice k') = ?i then m k' else None)(k \<mapsto> v) = (\<lambda>k'. if Shard (HashSlice k') = ?i then (m(k \<mapsto> v)) k' else None)" by auto
  have inv: "lru_inv HashSlice (\<lambda>a. (held(?h := 1)) (?i, a)) (\<lambda>k'. if Shard (HashSlice k') = ?i then (m(k \<mapsto> v)) k' else None) (shard_kvs s) {} s"
    using s(5) unfolding hh mm kv by simp
  have "cache_inv (held(?h := 1)) (m(k \<mapsto> v)) (ins + {#(k, v)#}) ?c" by (rule shard_step [OF I i kv _ inv]) auto
  moreover have "c_Value h' ?c = c_Value h' c" if "0 < held h'" for h' using keeps_value [OF I i s(3) inv that] that by simp
  moreover have "c_Value ?h ?c = Some v" using s(4) i I by (auto simp: c_Value_def c_handle_def cache_inv_def ident_of_def)
  moreover have "c_Insert k v chg c = Some (?h, ?c)" using s(1) cache_invD(3) [OF I i] by (simp add: c_Insert_def on_shard_def Let_def)
  ultimately show ?thesis using s(2) by (intro exI [of _ ?h] exI [of _ ?c]) simp
qed

lemma c_Lookup_spec:
  assumes I: "cache_inv held m ins c"
  shows "\<exists>r c'. c_Lookup k c = Some (r, c') \<and> (\<forall>h. 0 < held h \<longrightarrow> c_Value h c' = c_Value h c) \<and>
    (case r of None \<Rightarrow> cache_inv held m ins c' | Some h \<Rightarrow> cache_inv (held(h := held h + 1)) m ins c' \<and> m k \<noteq> None \<and> c_Value h c' = m k)"
proof -
  let ?i = "Shard (HashSlice k)"
  let ?s = "shards c ! ?i"
  note i = Shard_less [of "HashSlice k"] and L = cache_invD(1) [OF I Shard_less, of "HashSlice k"]
  obtain r s where s: "lru_Lookup k (HashSlice k) ?s = Some (r, s)" "keeps ?s s" "cached s = cached ?s"
    "case r of None \<Rightarrow> k \<notin> key_at (lc_heap ?s) ` cached ?s \<and> s = ?s
     | Some a \<Rightarrow> a \<in> cached ?s \<and> key_at (lc_heap ?s) a = k \<and> lru_inv HashSlice ((\<lambda>a. held (?i, a))(a := held (?i, a) + 1)) (\<lambda>k. if Shard (HashSlice k) = ?i then m k else None) (shard_kvs ?s) {} s"
    using lru_Lookup_spec [OF L, of k] by blast
  let ?c = "c\<lparr>shards := (shards c)[?i := s]\<rparr>"
  have eq: "c_Lookup k c = Some (map_option (Pair ?i) r, ?c)" using s(1) cache_invD(3) [OF I i] by (simp add: c_Lookup_def on_shard_def Let_def)
  show ?thesis
  proof (cases r)
    case None
    then have "?c = c" using s(4) by simp
    then show ?thesis using eq None I by simp
  next
    case (Some a)
    let ?h = "(?i, a)"
    let ?held = "held(?h := held ?h + 1)"
    have hh: "(\<lambda>a. held (?i, a))(a := held (?i, a) + 1) = (\<lambda>a. ?held (?i, a))" by auto
    have a: "a \<in> cached ?s" "key_at (lc_heap ?s) a = k" and inv0: "lru_inv HashSlice (\<lambda>a. ?held (?i, a)) (\<lambda>k. if Shard (HashSlice k) = ?i then m k else None) (shard_kvs ?s) {} s"
      using s(4) [unfolded Some option.case hh] by blast+
    have kv: "shard_kvs s = shard_kvs ?s + {#}" using lru_invD(14) [OF inv0] by (simp add: shard_kvs_def)
    have inv: "lru_inv HashSlice (\<lambda>a. ?held (?i, a)) (\<lambda>k. if Shard (HashSlice k) = ?i then m k else None) (shard_kvs s) {} s" using inv0 kv by simp
    have "cache_inv ?held m (ins + {#}) ?c" by (rule shard_step [OF I i kv _ inv]) auto
    moreover have "c_Value h' ?c = c_Value h' c" if "0 < held h'" for h' using keeps_value [OF I i s(2) inv that] that by simp
    moreover have "m k = Some (snd (kv_at (lc_heap ?s) a))" using lru_invD(13) [OF L, of a] a by (auto simp: kv_at_def key_at_def split: if_splits)
    moreover have "c_Value ?h ?c = Some (snd (kv_at (lc_heap ?s) a))"
    proof -
      obtain e where e: "lc_heap ?s a = Some e" using a(1) by (auto simp: cached_def)
      have "a < next_addr ?s" using lru_invD(7) [OF L e] .
      moreover obtain e' where e': "lc_heap s a = Some e'" using a(1) s(3) by (auto simp: cached_def)
      ultimately have "ident_of e' = ident_of e" using s(2) e by (auto simp: keeps_def)
      then show ?thesis using e e' i I by (simp add: c_Value_def c_handle_def cache_inv_def ident_of_def kv_at_def)
    qed
    ultimately show ?thesis using eq Some by (intro exI [of _ "Some ?h"] exI [of _ ?c]) simp
  qed
qed

lemma c_Release_spec:
  assumes I: "cache_inv held m ins c" and h: "0 < held h"
  shows "\<exists>c'. c_Release h c = Some c' \<and> cache_inv (held(h := held h - 1)) m ins c' \<and> (\<forall>h'. 0 < held h' \<and> (h' = h \<longrightarrow> 1 < held h) \<longrightarrow> c_Value h' c' = c_Value h' c)"
proof -
  let ?i = "fst h"
  let ?s = "shards c ! ?i" and ?held = "held(h := held h - 1)"
  obtain e where e: "c_handle h c = Some e" and i: "?i < kNumShards" and sh: "Shard (h_hash e) = ?i" using shard_of_handle [OF I h] by blast
  note L = cache_invD(1) [OF I i]
  obtain s where s: "lru_Unref (snd h) ?s = Some s" "keeps ?s s"
    "lru_inv HashSlice ((\<lambda>a. held (?i, a))(snd h := held (?i, snd h) - 1)) (\<lambda>k. if Shard (HashSlice k) = ?i then m k else None) (shard_kvs ?s) {} s"
    using lru_Unref_spec [OF L, of "snd h"] h by auto
  let ?c = "c\<lparr>shards := (shards c)[?i := s]\<rparr>"
  have hh: "(\<lambda>a. held (?i, a))(snd h := held (?i, snd h) - 1) = (\<lambda>a. ?held (?i, a))" by (cases h) auto
  note inv0 = s(3) [unfolded hh]
  have kv: "shard_kvs s = shard_kvs ?s + {#}" using lru_invD(14) [OF inv0] by (simp add: shard_kvs_def)
  have inv: "lru_inv HashSlice (\<lambda>a. ?held (?i, a)) (\<lambda>k. if Shard (HashSlice k) = ?i then m k else None) (shard_kvs s) {} s" using inv0 kv by simp
  have "cache_inv ?held m (ins + {#}) ?c" by (rule shard_step [OF I i kv _ inv]) auto
  moreover have "c_Value h' ?c = c_Value h' c" if "0 < held h'" "h' = h \<longrightarrow> 1 < held h" for h' using keeps_value [OF I i s(2) inv that(1)] that by auto
  moreover have "c_Release h c = Some ?c" using s(1) e sh cache_invD(3) [OF I i] by (simp add: c_Release_def on_shard_def)
  ultimately show ?thesis by auto
qed

lemma c_Erase_spec:
  assumes I: "cache_inv held m ins c"
  shows "\<exists>c'. c_Erase k c = Some c' \<and> cache_inv held (m(k := None)) ins c' \<and> (\<forall>h. 0 < held h \<longrightarrow> c_Value h c' = c_Value h c)"
proof -
  let ?i = "Shard (HashSlice k)"
  let ?s = "shards c ! ?i"
  note i = Shard_less [of "HashSlice k"] and L = cache_invD(1) [OF I Shard_less, of "HashSlice k"]
  obtain b s where s: "table_erase k (HashSlice k) ?s = Some (b, s)" "keeps ?s s"
    "lru_inv HashSlice (\<lambda>a. held (?i, a)) ((\<lambda>k. if Shard (HashSlice k) = ?i then m k else None)(k := None)) (shard_kvs ?s) {} s"
    using table_erase_spec [OF L, of k] by blast
  let ?c = "c\<lparr>shards := (shards c)[?i := s]\<rparr>"
  have mm: "(\<lambda>k. if Shard (HashSlice k) = ?i then m k else None)(k := None) = (\<lambda>k'. if Shard (HashSlice k') = ?i then (m(k := None)) k' else None)" by auto
  note inv0 = s(3) [unfolded mm]
  have kv: "shard_kvs s = shard_kvs ?s + {#}" using lru_invD(14) [OF inv0] by (simp add: shard_kvs_def)
  have inv: "lru_inv HashSlice (\<lambda>a. held (?i, a)) (\<lambda>k'. if Shard (HashSlice k') = ?i then (m(k := None)) k' else None) (shard_kvs s) {} s" using inv0 kv by simp
  have "cache_inv held (m(k := None)) (ins + {#}) ?c" by (rule shard_step [OF I i kv _ inv]) auto
  moreover have "c_Value h ?c = c_Value h c" if "0 < held h" for h using keeps_value [OF I i s(2) inv that that] .
  moreover have "c_Erase k c = Some ?c" using s(1) cache_invD(3) [OF I i] by (simp add: c_Erase_def lru_Erase_def on_shard_def Let_def)
  ultimately show ?thesis by auto
qed

lemma prune_all_spec:
  assumes "\<forall>s\<in>set ss. \<exists>s'. lru_Prune s = Some s' \<and> P s s'"
  shows "\<exists>ss'. prune_all ss = Some ss' \<and> list_all2 P ss ss'"
  using assms by (induction ss) auto

lemma c_Prune_spec:
  assumes I: "cache_inv held m ins c"
  shows "\<exists>c'. c_Prune c = Some c' \<and> cache_inv held m ins c' \<and> (\<forall>h. 0 < held h \<longrightarrow> c_Value h c' = c_Value h c) \<and> (\<forall>s\<in>set (shards c'). lru s = [])"
proof -
  let ?inv = "\<lambda>i s s'. lru_inv HashSlice (\<lambda>a. held (i, a)) (\<lambda>k. if Shard (HashSlice k) = i then m k else None) (shard_kvs s) {} s'"
  let ?P = "\<lambda>s s'. keeps s s' \<and> lru s' = [] \<and> (\<forall>i<kNumShards. ?inv i s s \<longrightarrow> ?inv i s s')"
  have len: "length (shards c) = kNumShards" using I by (simp add: cache_inv_def)
  have "\<exists>s'. lru_Prune s = Some s' \<and> ?P s s'" if s: "s \<in> set (shards c)" for s
  proof -
    obtain i where i: "i < kNumShards" "s = shards c ! i" using s len by (metis in_set_conv_nth)
    obtain s' where s': "lru_Prune s = Some s'" "?inv i s s'" "keeps s s'" "lru s' = []" using evict_cond_True [OF cache_invD(1) [OF I i(1)]] i(2) by blast
    have "?inv j s s'" if "?inv j s s" for j using evict_cond_True [OF that] s'(1) by auto
    then show ?thesis using s' by blast
  qed
  then obtain ss where ss: "prune_all (shards c) = Some ss" "list_all2 ?P (shards c) ss" using prune_all_spec [of "shards c" ?P] by blast
  have n: "length ss = kNumShards" "\<And>i. i < kNumShards \<Longrightarrow> ?P (shards c ! i) (ss ! i)" using ss(2) len by (simp_all add: list_all2_conv_all_nth)
  have inv: "?inv i (shards c ! i) (ss ! i)" if "i < kNumShards" for i using n(2) [OF that] cache_invD(1) [OF I that] that by blast
  have kv: "shard_kvs (ss ! i) = shard_kvs (shards c ! i)" if "i < kNumShards" for i using lru_invD(14) [OF inv [OF that]] by (simp add: shard_kvs_def)
  let ?c = "c\<lparr>shards := ss\<rparr>"
  have "map shard_kvs ss = map shard_kvs (shards c)" using n(1) len kv by (intro nth_equalityI) simp_all
  then have "cache_inv held m ins ?c" using I inv kv n(1) by (auto simp: cache_inv_def)
  moreover have "c_Value h ?c = c_Value h c" if h: "0 < held h" for h
  proof -
    have i: "fst h < kNumShards" using shard_of_handle [OF I h] by blast
    have "c_Value h (c\<lparr>shards := (shards c)[fst h := ss ! fst h]\<rparr>) = c_Value h c" using keeps_value [OF I i _ inv [OF i] h h] n(2) [OF i] by blast
    then show ?thesis using i n(1) len by (simp add: c_Value_def c_handle_def)
  qed
  moreover have "\<forall>s\<in>set ss. lru s = []" using n by (metis in_set_conv_nth)
  moreover have "c_Prune c = Some ?c" using ss(1) by (simp add: c_Prune_def)
  ultimately show ?thesis by auto
qed

text \<open>Every shard has room when the capacity is not 0 and its rounding up does not wrap around.\<close>

lemma per_shard_pos:
  assumes "0 < cap" and "cap \<le> - 16"
  shows "0 < (cap + (word_of_nat kNumShards - 1)) div (word_of_nat kNumShards :: u64)"
proof -
  have "unat cap \<le> unat (- 16 :: u64)" using assms(2) by (simp add: word_le_nat_alt)
  then have "unat (cap + 15) = unat cap + 15" by (simp add: unat_word_ariths(1))
  then have "16 \<le> cap + 15" using assms(1) by (simp add: word_le_nat_alt word_less_nat_alt)
  then have "1 \<le> unat (cap + 15) div 16" by (simp add: word_le_nat_alt)
  then show ?thesis by (simp add: kNumShards_def kNumShardBits_def word_less_nat_alt unat_div)
qed

lemma NewLRUCache_inv:
  assumes "0 < cap" and "cap \<le> - 16"
  shows "cache_inv (\<lambda>_. 0) (\<lambda>_. None) {#} (NewLRUCache cap :: 'v ShardedLRUCache)"
proof -
  have kv: "shard_kvs (mk_LRUCache n :: 'v LRUCache) = {#}" for n by (simp add: shard_kvs_def mk_LRUCache_def alive_kvs_def)
  have "(\<Sum>s\<leftarrow>replicate n (mk_LRUCache x :: 'v LRUCache). shard_kvs s) = {#}" for n x by (induction n) (simp_all add: kv)
  then show ?thesis using kv by (simp add: cache_inv_def NewLRUCache_def Let_def mk_LRUCache_inv [OF per_shard_pos [OF assms]])
qed

section \<open>The interface of the cache\<close>

text \<open>
  What the clients of a cache rely on: \<open>ok held m c\<close> holds of a cache when clients hold each handle \<open>held\<close> times and \<open>m\<close> are the values that were inserted last. A lookup may miss, but what it
  finds is the value inserted last, and a handle gives its value as long as it is held.
\<close>

locale cache_api =
  fixes ok :: "('h \<Rightarrow> nat) \<Rightarrow> (slice \<Rightarrow> 'v option) \<Rightarrow> 'c \<Rightarrow> bool" and insert_op :: "slice \<Rightarrow> 'v \<Rightarrow> u64 \<Rightarrow> 'c \<Rightarrow> ('h \<times> 'c) option"
    and lookup_op :: "slice \<Rightarrow> 'c \<Rightarrow> ('h option \<times> 'c) option" and release_op :: "'h \<Rightarrow> 'c \<Rightarrow> 'c option" and value_op :: "'h \<Rightarrow> 'c \<Rightarrow> 'v option"
  assumes insert_ok: "ok held m c \<Longrightarrow> \<exists>h c'. insert_op k v chg c = Some (h, c') \<and> held h = 0 \<and> ok (held(h := 1)) (m(k \<mapsto> v)) c' \<and> value_op h c' = Some v"
    and lookup_ok: "ok held m c \<Longrightarrow> \<exists>r c'. lookup_op k c = Some (r, c') \<and>
      (case r of None \<Rightarrow> ok held m c' | Some h \<Rightarrow> ok (held(h := held h + 1)) m c' \<and> m k \<noteq> None \<and> value_op h c' = m k)"
    and release_ok: "ok held m c \<Longrightarrow> 0 < held h \<Longrightarrow> \<exists>c'. release_op h c = Some c' \<and> ok (held(h := held h - 1)) m c'"
begin

text \<open>
  The way the code uses its caches: look up a key, on a miss load and insert a value, use the value and release the handle. If all values in the cache are good ones, a hit gives a good
  value, and in both cases the client holds no more handles than before.
\<close>

lemma hit_or_load:
  assumes ok: "ok held m c" and good: "\<forall>k v. m k = Some v \<longrightarrow> good k v"
  shows "\<exists>r c1. lookup_op k c = Some (r, c1) \<and>
    (case r of
       Some h \<Rightarrow> \<exists>v c2. value_op h c1 = Some v \<and> good k v \<and> release_op h c1 = Some c2 \<and> ok held m c2
     | None \<Rightarrow> ok held m c1 \<and> (\<forall>v chg. \<exists>h c2 c3. insert_op k v chg c1 = Some (h, c2) \<and> value_op h c2 = Some v \<and> release_op h c2 = Some c3 \<and> ok held (m(k \<mapsto> v)) c3))"
proof -
  obtain r c1 where r: "lookup_op k c = Some (r, c1)" "case r of None \<Rightarrow> ok held m c1 | Some h \<Rightarrow> ok (held(h := held h + 1)) m c1 \<and> m k \<noteq> None \<and> value_op h c1 = m k"
    using lookup_ok [OF ok] by blast
  show ?thesis
  proof (cases r)
    case None
    then have c1: "ok held m c1" using r(2) by simp
    have "\<exists>h c2 c3. insert_op k v chg c1 = Some (h, c2) \<and> value_op h c2 = Some v \<and> release_op h c2 = Some c3 \<and> ok held (m(k \<mapsto> v)) c3" for v chg
    proof -
      obtain h c2 where i: "insert_op k v chg c1 = Some (h, c2)" "held h = 0" "ok (held(h := 1)) (m(k \<mapsto> v)) c2" "value_op h c2 = Some v" using insert_ok [OF c1] by blast
      have "held(h := 0) = held" using i(2) by auto
      then show ?thesis using release_ok [OF i(3), of h] i(1,4) by auto
    qed
    then show ?thesis using r(1) None c1 by auto
  next
    case (Some h)
    then have h: "ok (held(h := held h + 1)) m c1" "m k \<noteq> None" "value_op h c1 = m k" using r(2) by auto
    then show ?thesis using r(1) Some release_ok [OF h(1), of h] good by auto
  qed
qed

end

text \<open>No operation but \<open>NewId\<close> touches the counter of identifiers.\<close>

definition cache_ok :: "u64 \<Rightarrow> (nat \<times> nat \<Rightarrow> nat) \<Rightarrow> (slice \<Rightarrow> 'v option) \<Rightarrow> 'v ShardedLRUCache \<Rightarrow> bool" where
  "cache_ok n held m c \<longleftrightarrow> (\<exists>ins. cache_inv held m ins c) \<and> last_id c = n"

lemma on_shard_last_id: "on_shard i f c = Some (r, c') \<Longrightarrow> last_id c' = last_id c"
  by (auto simp: on_shard_def bind_eq_Some_conv)

lemma ops_last_id:
  "c_Insert k v chg c = Some (h, c') \<Longrightarrow> last_id c' = last_id c"
  "c_Lookup k c = Some (q, c') \<Longrightarrow> last_id c' = last_id c"
  "c_Release h c = Some c' \<Longrightarrow> last_id c' = last_id c"
  by (auto simp: c_Insert_def c_Lookup_def c_Release_def Let_def bind_eq_Some_conv dest: on_shard_last_id)

lemma NewId_ok:
  assumes "cache_ok n held m c"
  shows "fst (c_NewId c) = n + 1" and "cache_ok (n + 1) held m (snd (c_NewId c))"
  using assms by (auto simp: cache_ok_def c_NewId_def cache_inv_def)

interpretation lru_cache: cache_api "cache_ok n" c_Insert c_Lookup c_Release c_Value for n
proof
  fix held m k v chg and c :: "'v ShardedLRUCache"
  assume "cache_ok n held m c"
  then obtain ins where I: "cache_inv held m ins c" and n: "last_id c = n" by (auto simp: cache_ok_def)
  from c_Insert_spec [OF I, of k v chg] ops_last_id(1) [of k v chg c] n
  show "\<exists>h c'. c_Insert k v chg c = Some (h, c') \<and> held h = 0 \<and> cache_ok n (held(h := 1)) (m(k \<mapsto> v)) c' \<and> c_Value h c' = Some v" unfolding cache_ok_def by metis
next
  fix held m k and c :: "'v ShardedLRUCache"
  assume "cache_ok n held m c"
  then obtain ins where I: "cache_inv held m ins c" and n: "last_id c = n" by (auto simp: cache_ok_def)
  from c_Lookup_spec [OF I, of k] ops_last_id(2) [of k c] n
  show "\<exists>r c'. c_Lookup k c = Some (r, c') \<and>
      (case r of None \<Rightarrow> cache_ok n held m c' | Some h \<Rightarrow> cache_ok n (held(h := held h + 1)) m c' \<and> m k \<noteq> None \<and> c_Value h c' = m k)"
    unfolding cache_ok_def by (fastforce split: option.splits)
next
  fix held m h and c :: "'v ShardedLRUCache"
  assume "cache_ok n held m c" "0 < held h"
  then show "\<exists>c'. c_Release h c = Some c' \<and> cache_ok n (held(h := held h - 1)) m c'" using c_Release_spec ops_last_id(3) unfolding cache_ok_def by metis
qed

section \<open>Sequences of operations\<close>

text \<open>
  The caches that clients can reach: \<open>held\<close> counts the handles they were given and have not released, \<open>m\<close> are the values inserted last and not erased, \<open>ins\<close> all pairs inserted.
\<close>

inductive cache_run :: "u64 \<Rightarrow> (nat \<times> nat \<Rightarrow> nat) \<Rightarrow> (slice \<Rightarrow> 'v option) \<Rightarrow> (slice \<times> 'v) multiset \<Rightarrow> 'v ShardedLRUCache \<Rightarrow> bool" for cap where
  run_New: "cache_run cap (\<lambda>_. 0) (\<lambda>_. None) {#} (NewLRUCache cap)"
| run_Insert: "cache_run cap held m ins c \<Longrightarrow> c_Insert k v chg c = Some (h, c') \<Longrightarrow> cache_run cap (held(h := held h + 1)) (m(k \<mapsto> v)) (add_mset (k, v) ins) c'"
| run_Hit: "cache_run cap held m ins c \<Longrightarrow> c_Lookup k c = Some (Some h, c') \<Longrightarrow> cache_run cap (held(h := held h + 1)) m ins c'"
| run_Miss: "cache_run cap held m ins c \<Longrightarrow> c_Lookup k c = Some (None, c') \<Longrightarrow> cache_run cap held m ins c'"
| run_Release: "cache_run cap held m ins c \<Longrightarrow> 0 < held h \<Longrightarrow> c_Release h c = Some c' \<Longrightarrow> cache_run cap (held(h := held h - 1)) m ins c'"
| run_Erase: "cache_run cap held m ins c \<Longrightarrow> c_Erase k c = Some c' \<Longrightarrow> cache_run cap held (m(k := None)) ins c'"
| run_Prune: "cache_run cap held m ins c \<Longrightarrow> c_Prune c = Some c' \<Longrightarrow> cache_run cap held m ins c'"
| run_NewId: "cache_run cap held m ins c \<Longrightarrow> cache_run cap held m ins (snd (c_NewId c))"

lemma cache_run_inv: "cache_run cap held m ins c \<Longrightarrow> 0 < cap \<Longrightarrow> cap \<le> - 16 \<Longrightarrow> cache_inv held m ins c"
proof (induction rule: cache_run.induct)
  case (run_Insert held m ins c k v chg h c')
  then show ?case using c_Insert_spec [OF run_Insert.IH [OF run_Insert.prems], of k v chg] by (auto simp: fun_upd_def)
next
  case (run_Hit held m ins c k h c')
  then show ?case using c_Lookup_spec [OF run_Hit.IH [OF run_Hit.prems], of k] by (auto simp: fun_upd_def)
next
  case (run_Miss held m ins c k c')
  then show ?case using c_Lookup_spec [OF run_Miss.IH [OF run_Miss.prems], of k] by auto
next
  case (run_Release held m ins c h c')
  then show ?case using c_Release_spec [OF run_Release.IH [OF run_Release.prems], of h] by (auto simp: fun_upd_def)
next
  case (run_Erase held m ins c k c')
  then show ?case using c_Erase_spec [OF run_Erase.IH [OF run_Erase.prems], of k] by (auto simp: fun_upd_def)
next
  case (run_Prune held m ins c c')
  then show ?case using c_Prune_spec [OF run_Prune.IH [OF run_Prune.prems]] by auto
next
  case (run_NewId held m ins c)
  then show ?case by (simp add: cache_inv_def c_NewId_def)
qed (rule NewLRUCache_inv)

text \<open>All deletions so far, and the entries that no deletion has reached.\<close>

definition all_deleted :: "'v ShardedLRUCache \<Rightarrow> (slice \<times> 'v) multiset" where "all_deleted c = (\<Sum>s\<leftarrow>shards c. mset (deleted s))"
definition all_alive :: "'v ShardedLRUCache \<Rightarrow> (slice \<times> 'v) multiset" where "all_alive c = (\<Sum>s\<leftarrow>shards c. alive_kvs (lc_heap s))"

lemma deleted_or_alive:
  fixes c :: "'v ShardedLRUCache"
  assumes "cache_inv held m ins c"
  shows "all_deleted c + all_alive c = ins"
proof -
  have "(\<Sum>s\<leftarrow>ss. mset (deleted s)) + (\<Sum>s\<leftarrow>ss. alive_kvs (lc_heap s)) = (\<Sum>s\<leftarrow>ss. shard_kvs s)" for ss :: "'v LRUCache list"
    by (induction ss) (auto simp: shard_kvs_def ac_simps)
  then show ?thesis using assms by (simp add: cache_inv_def all_deleted_def all_alive_def)
qed

text \<open>When no handle is held and no entry waits for its eviction, nothing is left.\<close>

lemma nothing_left:
  fixes c :: "'v ShardedLRUCache"
  assumes I: "cache_inv (\<lambda>_. 0) m ins c" and l: "\<forall>s\<in>set (shards c). lru s = []"
  shows "all_alive c = {#}"
proof -
  have "alive_kvs (lc_heap s) = {#}" if s: "s \<in> set (shards c)" for s
  proof -
    obtain i where i: "i < kNumShards" "s = shards c ! i" using s I by (metis in_set_conv_nth cache_inv_def)
    note D = lru_invD [OF cache_invD(1) [OF I i(1)], folded i(2)]
    have "in_use s = []" using D(11) [of "hd (in_use s)"] by (cases "in_use s") auto
    then have "cached s = {}" using D(4) l s by simp
    then have "dom (lc_heap s) = {}" using D(6) by (auto simp: cached_def)
    then show ?thesis by (simp add: alive_kvs_def)
  qed
  then have "\<forall>x\<in>set (map (\<lambda>s. alive_kvs (lc_heap s)) (shards c)). x = {#}" by auto
  moreover have "(\<forall>x\<in>set xs. x = {#}) \<Longrightarrow> sum_list xs = {#}" for xs :: "(slice \<times> 'v) multiset list" by (induction xs) auto
  ultimately show ?thesis unfolding all_alive_def by blast
qed

text \<open>The destructor frees every entry when no handle is held.\<close>

lemma destroy_loop_spec:
  assumes "distinct as" and "\<forall>a\<in>set as. \<exists>e. lc_heap c a = Some e \<and> h_in_cache e \<and> h_refs e = 1 \<and> h_linked e"
  shows "destroy_loop as c = Some (c\<lparr>lc_heap := lc_heap c |` (- set as), deleted := deleted c @ map (kv_at (lc_heap c)) as\<rparr>)"
  using assms
proof (induction as arbitrary: c)
  case Nil
  have "lc_heap c |` UNIV = lc_heap c" by (auto simp: restrict_map_def)
  then show ?case by simp
next
  case (Cons a as)
  then obtain e where e: "lc_heap c a = Some e" "h_in_cache e" "h_refs e = 1" "h_linked e" by auto
  define c1 where "c1 = c\<lparr>deleted := deleted c @ [(h_key e, h_value e)], lc_heap := (lc_heap c)(a := None)\<rparr>"
  have a: "a \<notin> set as" "distinct as" using Cons.prems(1) by simp_all
  have other: "lc_heap c1 x = lc_heap c x" if "x \<in> set as" for x using that a by (auto simp: c1_def)
  have u: "lru_Unref a (set_handle a (e\<lparr>h_in_cache := False\<rparr>) c) = Some c1" using e by (simp add: lru_Unref_def handle_key_def set_handle_def Let_def c1_def)
  have "\<forall>x\<in>set as. \<exists>e. lc_heap c1 x = Some e \<and> h_in_cache e \<and> h_refs e = 1 \<and> h_linked e" using Cons.prems other by auto
  from Cons.IH [OF a(2) this] have "destroy_loop (a # as) c = Some (c1\<lparr>lc_heap := lc_heap c1 |` (- set as), deleted := deleted c1 @ map (kv_at (lc_heap c1)) as\<rparr>)"
    using e u by simp
  also have "map (kv_at (lc_heap c1)) as = map (kv_at (lc_heap c)) as" using other by (simp add: kv_at_def)
  also have "lc_heap c1 |` (- set as) = lc_heap c |` (- set (a # as))" by (auto simp: restrict_map_def c1_def)
  finally show ?case using e(1) by (simp add: c1_def kv_at_def)
qed

lemma lru_Destroy_spec:
  assumes I: "lru_inv hf (\<lambda>_. 0) m ins {} c"
  shows "\<exists>c'. lru_Destroy c = Some c' \<and> lc_heap c' = Map.empty \<and> mset (deleted c') = ins"
proof -
  note D = lru_invD [OF I]
  have iu: "in_use c = []" using D(11) [of "hd (in_use c)"] by (cases "in_use c") auto
  then have lc: "set (lru c) = cached c" "distinct (lru c)" using D(3,4) by auto
  have all: "h_in_cache e \<and> h_refs e = 1 \<and> h_linked e" if "lc_heap c a = Some e" for a e using D(5,6,16) [OF that] by auto
  then have dom: "dom (lc_heap c) = set (lru c)" unfolding lc by (auto simp: cached_def)
  have "\<forall>a\<in>set (lru c). \<exists>e. lc_heap c a = Some e \<and> h_in_cache e \<and> h_refs e = 1 \<and> h_linked e" using all dom by blast
  then have d: "lru_Destroy c = Some (c\<lparr>lc_heap := lc_heap c |` (- set (lru c)), deleted := deleted c @ map (kv_at (lc_heap c)) (lru c)\<rparr>)"
    using destroy_loop_spec [OF lc(2)] iu by (simp add: lru_Destroy_def)
  have "lc_heap c |` (- set (lru c)) = Map.empty" using dom by (auto simp: restrict_map_def fun_eq_iff)
  moreover have "mset (map (kv_at (lc_heap c)) (lru c)) = alive_kvs (lc_heap c)" unfolding alive_kvs_def dom using lc(2) by (simp add: mset_set_set)
  ultimately show ?thesis using d D(14) by simp
qed

text \<open>A value that was inserted is found as long as its handle is held.\<close>

lemma insert_then_lookup:
  assumes I: "cache_inv held m ins c" and i: "c_Insert k v chg c = Some (h, c')"
  shows "\<exists>c''. c_Lookup k c' = Some (Some h, c'')"
proof -
  let ?i = "Shard (HashSlice k)"
  let ?s = "shards c ! ?i"
  note L = cache_invD(1) [OF I Shard_less, of "HashSlice k"]
  obtain s where s: "lru_Insert k (HashSlice k) v chg ?s = Some (next_addr ?s, s)" "map_option ident_of (lc_heap s (next_addr ?s)) = Some (k, v, HashSlice k)" "next_addr ?s \<in> cached s"
    "lru_inv HashSlice ((\<lambda>a. held (?i, a))(next_addr ?s := 1)) ((\<lambda>k'. if Shard (HashSlice k') = ?i then m k' else None)(k \<mapsto> v)) (add_mset (k, v) (shard_kvs ?s)) {} s"
    using lru_Insert_spec [OF L, of k v chg] by blast
  have c': "h = (?i, next_addr ?s)" "c' = c\<lparr>shards := (shards c)[?i := s]\<rparr>" using i s(1) cache_invD(3) [OF I Shard_less, of "HashSlice k"] by (auto simp: c_Insert_def on_shard_def Let_def)
  note D = lru_invD [OF s(4)]
  have inj: "inj_on (key_at (lc_heap s)) (cached s)" using D(1,2) by (simp add: table_ok_def chains_ok_def distinct_map addrs_def)
  have key: "key_at (lc_heap s) (next_addr ?s) = k" using s(2) by (auto simp: key_at_def ident_of_def)
  obtain r s' where r: "lru_Lookup k (HashSlice k) s = Some (r, s')" "case r of None \<Rightarrow> k \<notin> key_at (lc_heap s) ` cached s | Some a \<Rightarrow> a \<in> cached s \<and> key_at (lc_heap s) a = k"
    using lru_Lookup_spec [OF s(4), of k] by (auto split: option.splits)
  have "r = Some (next_addr ?s)" using r(2) s(3) imageI [OF s(3), of "key_at (lc_heap s)"] key inj by (cases r) (auto simp: inj_on_def)
  then show ?thesis using r(1) c' I Shard_less [of "HashSlice k"] by (auto simp: c_Lookup_def on_shard_def Let_def cache_inv_def)
qed

text \<open>
  Capacity 0, which the code means to support (``Tests use capacity 0 to turn off caching''): the entry is in no list, its field \<open>next\<close> is never set, and releasing the handle that \<open>Insert\<close> returned
  calls \<open>key()\<close>, which reads that field.
\<close>

lemma capacity_0_release:
  assumes "capacity c = 0" and "lru c = []"
  shows "\<exists>a c'. lru_Insert k hash v chg c = Some (a, c') \<and> lru_Unref a c' = None"
proof -
  have "evict P d = Some d" if "lru d = []" for P and d :: "'a LRUCache" using that by (subst evict.simps) simp
  then show ?thesis using assms by (simp add: lru_Insert_def lru_Unref_def handle_key_def set_handle_def Let_def)
qed



end
