(* ===== verification/FileName.thy ===== *)
theory FileName
  imports SliceStatus
begin

text \<open>
  db/filename.cc and the decimal numbers of util/logging.cc: the names of the files of a database, and what a name tells about a file. Names are made with \<open>snprintf\<close>: \<open>decimal\<close> is
  its conversion \<open>%llu\<close>, and \<open>%06llu\<close> pads with zeros to six digits. An assertion that fails has the value \<^term>\<open>None\<close>.
\<close>

section \<open>Decimal numbers\<close>

definition digit :: "nat \<Rightarrow> byte" where "digit d = word_of_nat (48 + d)"

fun decimal :: "nat \<Rightarrow> byte list" where
  "decimal n = (if n < 10 then [digit n] else decimal (n div 10) @ [digit (n mod 10)])"

declare decimal.simps [simp del]

definition padded :: "nat \<Rightarrow> nat \<Rightarrow> byte list" where
  "padded w n = replicate (w - length (decimal n)) (digit 0) @ decimal n"

definition AppendNumberTo :: "slice \<Rightarrow> u64 \<Rightarrow> slice" where
  "AppendNumberTo str num = str @ decimal (unat num)"

definition NumberToString :: "u64 \<Rightarrow> slice" where
  "NumberToString num = AppendNumberTo [] num"

definition hex_digit :: "nat \<Rightarrow> byte" where
  "hex_digit d = (if d < 10 then digit d else word_of_nat (87 + d))"

fun AppendEscapedStringTo :: "slice \<Rightarrow> slice \<Rightarrow> slice" where
  "AppendEscapedStringTo str [] = str"
| "AppendEscapedStringTo str (c # cs) =
     AppendEscapedStringTo
       (if 32 \<le> c \<and> c \<le> 126 then str @ [c] else str @ ascii [CHR 0x5C, CHR ''x''] @ [hex_digit (unat c div 16), hex_digit (unat c mod 16)]) cs"

definition EscapeString :: "slice \<Rightarrow> slice" where
  "EscapeString val = AppendEscapedStringTo [] val"

text \<open>
  The loop of \<open>ConsumeDecimalNumber\<close>, on the number so far, the number of digits and the rest of the input; \<^term>\<open>None\<close> is the return of false, after which no caller uses
  the number or the rest.
\<close>

definition kMaxUint64 :: u64 where "kMaxUint64 = NOT 0"

fun consume_digits :: "u64 \<Rightarrow> nat \<Rightarrow> slice \<Rightarrow> (u64 \<times> nat \<times> slice) option" where
  "consume_digits v digits [] = Some (v, digits, [])"
| "consume_digits v digits (c # cs) =
     (if 48 \<le> c \<and> c \<le> 57 then
        let delta = ucast (c - 48)
        in if v > kMaxUint64 div 10 \<or> v = kMaxUint64 div 10 \<and> delta > kMaxUint64 mod 10 then None
           else consume_digits (v * 10 + delta) (digits + 1) cs
      else Some (v, digits, c # cs))"

definition ConsumeDecimalNumber :: "slice \<Rightarrow> (u64 \<times> slice) option" where
  "ConsumeDecimalNumber inp =
     Option.bind (consume_digits 0 0 inp) (\<lambda>(v, digits, rest). if digits > 0 then Some (v, rest) else None)"

section \<open>Names\<close>

datatype FileType = kLogFile | kDBLockFile | kTableFile | kDescriptorFile | kCurrentFile | kTempFile | kInfoLogFile

definition MakeFileName :: "slice \<Rightarrow> u64 \<Rightarrow> slice \<Rightarrow> slice" where
  "MakeFileName name num suffix = name @ take 99 (ascii ''/'' @ padded 6 (unat num) @ ascii ''.'' @ suffix)"

definition LogFileName :: "slice \<Rightarrow> u64 \<Rightarrow> slice option" where
  "LogFileName name num = (if num > 0 then Some (MakeFileName name num (ascii ''log'')) else None)"

definition TableFileName :: "slice \<Rightarrow> u64 \<Rightarrow> slice option" where
  "TableFileName name num = (if num > 0 then Some (MakeFileName name num (ascii ''ldb'')) else None)"

definition SSTTableFileName :: "slice \<Rightarrow> u64 \<Rightarrow> slice option" where
  "SSTTableFileName name num = (if num > 0 then Some (MakeFileName name num (ascii ''sst'')) else None)"

definition DescriptorFileName :: "slice \<Rightarrow> u64 \<Rightarrow> slice option" where
  "DescriptorFileName dbname num = (if num > 0 then Some (dbname @ take 99 (ascii ''/MANIFEST-'' @ padded 6 (unat num))) else None)"

definition CurrentFileName :: "slice \<Rightarrow> slice" where "CurrentFileName dbname = dbname @ ascii ''/CURRENT''"
definition LockFileName :: "slice \<Rightarrow> slice" where "LockFileName dbname = dbname @ ascii ''/LOCK''"

definition TempFileName :: "slice \<Rightarrow> u64 \<Rightarrow> slice option" where
  "TempFileName dbname num = (if num > 0 then Some (MakeFileName dbname num (ascii ''dbtmp'')) else None)"

definition InfoLogFileName :: "slice \<Rightarrow> slice" where "InfoLogFileName dbname = dbname @ ascii ''/LOG''"
definition OldInfoLogFileName :: "slice \<Rightarrow> slice" where "OldInfoLogFileName dbname = dbname @ ascii ''/LOG.old''"

definition ParseFileName :: "slice \<Rightarrow> (u64 \<times> FileType) option" where
  "ParseFileName fname =
     (if fname = ascii ''CURRENT'' then Some (0, kCurrentFile)
      else if fname = ascii ''LOCK'' then Some (0, kDBLockFile)
      else if fname = ascii ''LOG'' \<or> fname = ascii ''LOG.old'' then Some (0, kInfoLogFile)
      else if starts_with fname (ascii ''MANIFEST-'') then
        do { (num, rest) \<leftarrow> ConsumeDecimalNumber (drop (length ''MANIFEST-'') fname);
             if rest \<noteq> [] then None else Some (num, kDescriptorFile) }
      else
        do { (num, suffix) \<leftarrow> ConsumeDecimalNumber fname;
             if suffix = ascii ''.log'' then Some (num, kLogFile)
             else if suffix = ascii ''.sst'' \<or> suffix = ascii ''.ldb'' then Some (num, kTableFile)
             else if suffix = ascii ''.dbtmp'' then Some (num, kTempFile)
             else None })"

text \<open>
  \<open>SetCurrentFile\<close>; the environment is given by the operations \<open>WriteStringToFileSync\<close>, \<open>RenameFile\<close> and \<open>DeleteFile\<close> on its state.
\<close>

definition SetCurrentFile ::
  "(slice \<Rightarrow> slice \<Rightarrow> 'e \<Rightarrow> status \<times> 'e) \<Rightarrow> (slice \<Rightarrow> slice \<Rightarrow> 'e \<Rightarrow> status \<times> 'e) \<Rightarrow> (slice \<Rightarrow> 'e \<Rightarrow> status \<times> 'e) \<Rightarrow> 'e \<Rightarrow> slice \<Rightarrow> u64 \<Rightarrow> (status \<times> 'e) option" where
  "SetCurrentFile write rename del env dbname descriptor_number =
     do { manifest \<leftarrow> DescriptorFileName dbname descriptor_number;
          if \<not> starts_with manifest (dbname @ ascii ''/'') then None
          else do {
            let contents = drop (length dbname + 1) manifest;
            tmp \<leftarrow> TempFileName dbname descriptor_number;
            let (s, env) = write (contents @ [10]) tmp env;
            let (s, env) = (if status_ok s then rename tmp (CurrentFileName dbname) env else (s, env));
            Some (s, if status_ok s then env else snd (del tmp env)) } }"

section \<open>Numbers are read back\<close>

definition is_digit :: "byte \<Rightarrow> bool" where "is_digit c \<longleftrightarrow> 48 \<le> c \<and> c \<le> 57"
definition digits_val :: "nat \<Rightarrow> slice \<Rightarrow> nat" where "digits_val n ds = foldl (\<lambda>v c. v * 10 + (unat c - 48)) n ds"

lemma digits_val_simps [simp]: "digits_val n [] = n" "digits_val n (c # cs) = digits_val (n * 10 + (unat c - 48)) cs" "digits_val n (xs @ ys) = digits_val (digits_val n xs) ys"
  by (simp_all add: digits_val_def)

lemma digits_val_ge: "n \<le> digits_val n ds"
proof (induction ds arbitrary: n)
  case (Cons c ds)
  then show ?case using order_trans [OF _ Cons.IH [of "n * 10 + (unat c - 48)"], of n] by simp
qed simp

text \<open>The test of the code for overflow is exact.\<close>

lemma overflow_test:
  fixes v :: u64
  assumes "is_digit c"
  shows "(v > kMaxUint64 div 10 \<or> v = kMaxUint64 div 10 \<and> ucast (c - 48) > kMaxUint64 mod 10) \<longleftrightarrow> \<not> unat v * 10 + (unat c - 48) < 2 ^ 64"
    and "unat v * 10 + (unat c - 48) < 2 ^ 64 \<Longrightarrow> unat (v * 10 + ucast (c - 48)) = unat v * 10 + (unat c - 48)"
proof -
  have c: "48 \<le> unat c" "unat c \<le> 57" using assms by (simp_all add: is_digit_def word_le_nat_alt)
  have d: "unat (ucast (c - 48) :: u64) = unat c - 48" using c by (simp add: unat_sub_if' word_le_nat_alt unsigned_ucast_eq take_bit_nat_eq_self_iff)
  have m: "kMaxUint64 div 10 = 1844674407370955161" "kMaxUint64 mod 10 = 5" by (simp_all add: kMaxUint64_def)
  show "(v > kMaxUint64 div 10 \<or> v = kMaxUint64 div 10 \<and> ucast (c - 48) > kMaxUint64 mod 10) \<longleftrightarrow> \<not> unat v * 10 + (unat c - 48) < 2 ^ 64"
    unfolding m word_less_nat_alt d word_unat_eq_iff using c by auto
  show "unat (v * 10 + ucast (c - 48)) = unat v * 10 + (unat c - 48)" if "unat v * 10 + (unat c - 48) < 2 ^ 64"
    using that d by (simp add: unat_word_ariths)
qed

lemma consume_digits_spec:
  assumes "\<forall>c\<in>set ds. is_digit c" and "rest \<noteq> [] \<longrightarrow> \<not> is_digit (hd rest)"
  shows "consume_digits v n (ds @ rest) = (if digits_val (unat v) ds < 2 ^ 64 then Some (word_of_nat (digits_val (unat v) ds), n + length ds, rest) else None)"
  using assms(1)
proof (induction ds arbitrary: v n)
  case Nil
  have "unat v < 2 ^ LENGTH(64)" by (rule unsigned_less)
  then show ?case using assms(2) by (cases rest) (auto simp: is_digit_def)
next
  case (Cons c ds)
  then have c: "is_digit c" by simp
  let ?n = "unat v * 10 + (unat c - 48)"
  have step: "consume_digits v n ((c # ds) @ rest) = (if \<not> ?n < 2 ^ 64 then None else consume_digits (v * 10 + ucast (c - 48)) (n + 1) (ds @ rest))"
    unfolding append_Cons consume_digits.simps Let_def overflow_test(1) [OF c] using c by (simp add: is_digit_def)
  have ge: "?n \<le> digits_val ?n ds" by (rule digits_val_ge)
  show ?case unfolding step using overflow_test(2) [OF c, of v] Cons.IH [of "v * 10 + ucast (c - 48)" "n + 1"] Cons.prems ge by (cases "?n < 2 ^ 64") simp_all
qed

lemma ConsumeDecimalNumber_spec:
  assumes "\<forall>c\<in>set ds. is_digit c" and "rest \<noteq> [] \<longrightarrow> \<not> is_digit (hd rest)"
  shows "ConsumeDecimalNumber (ds @ rest) = (if ds \<noteq> [] \<and> digits_val 0 ds < 2 ^ 64 then Some (word_of_nat (digits_val 0 ds), rest) else None)"
  using consume_digits_spec [OF assms, of 0 0] by (simp add: ConsumeDecimalNumber_def)

lemma digit_props: "d < 10 \<Longrightarrow> is_digit (digit d) \<and> unat (digit d) - 48 = d"
proof -
  assume "d < 10"
  then have "unat (word_of_nat (48 + d) :: byte) = 48 + d" by (simp add: unsigned_of_nat take_bit_nat_eq_self_iff del: of_nat_add)
  then show "is_digit (digit d) \<and> unat (digit d) - 48 = d" using \<open>d < 10\<close> by (simp add: is_digit_def digit_def word_le_nat_alt del: of_nat_add)
qed

lemma decimal_digits: "(\<forall>c\<in>set (decimal n). is_digit c) \<and> decimal n \<noteq> [] \<and> digits_val 0 (decimal n) = n"
proof (induction n rule: less_induct)
  case (less n)
  show ?case
  proof (cases "n < 10")
    case True
    then show ?thesis using digit_props by (simp add: decimal.simps [of n])
  next
    case False
    then show ?thesis using less.IH [of "n div 10"] digit_props [of "n mod 10"] by (subst (1 2 3) decimal.simps) auto
  qed
qed

lemma decimal_length: "n < 10 ^ k \<Longrightarrow> 0 < k \<Longrightarrow> length (decimal n) \<le> k"
proof (induction k arbitrary: n)
  case (Suc k)
  show ?case
  proof (cases "n < 10")
    case False
    then have "0 < k" using Suc.prems by (cases k) auto
    then show ?thesis using Suc.IH [of "n div 10"] Suc.prems False by (subst decimal.simps) (simp add: less_mult_imp_div_less mult.commute)
  qed (simp add: decimal.simps)
qed simp

lemma padded_digits: "\<forall>c\<in>set (padded w n). is_digit c" "padded w n \<noteq> []" "digits_val 0 (padded w n) = n"
proof -
  have "digits_val 0 (replicate k (digit 0)) = 0" for k by (induction k) (simp_all add: digit_props)
  then show "digits_val 0 (padded w n) = n" using decimal_digits [of n] by (simp add: padded_def)
qed (use decimal_digits [of n] digit_props [of 0] in \<open>auto simp: padded_def\<close>)

lemma padded_length: "length (padded 6 (unat (n :: u64))) \<le> 20"
proof -
  have "unat n < 2 ^ LENGTH(64)" by (rule unsigned_less)
  then have "length (decimal (unat n)) \<le> 20" by (intro decimal_length) simp_all
  then show ?thesis by (simp add: padded_def)
qed

section \<open>Names are read back\<close>

lemma consume_name:
  fixes n :: u64
  assumes "rest \<noteq> [] \<longrightarrow> \<not> is_digit (hd rest)"
  shows "ConsumeDecimalNumber (padded 6 (unat n) @ rest) = Some (n, rest)"
proof -
  have "unat n < 2 ^ LENGTH(64)" by (rule unsigned_less)
  then show ?thesis using ConsumeDecimalNumber_spec [OF padded_digits(1) assms, of 6 "unat n"] padded_digits(2,3) [of 6 "unat n"] by simp
qed

lemma starts_with_take: "starts_with f x \<Longrightarrow> take (length x) f = x"
  using memcmp_0 [of "take (length x) f" x] by (simp add: starts_with_def)

text \<open>A name that begins with a digit is not one of the names without a number.\<close>

lemma parse_number:
  assumes ds: "\<forall>c\<in>set ds. is_digit c" "ds \<noteq> []" and suffix: "suffix = 46 # x"
  shows "ParseFileName (ds @ suffix) =
    (if \<not> digits_val 0 ds < 2 ^ 64 then None
     else let n = word_of_nat (digits_val 0 ds)
       in if suffix = ascii ''.log'' then Some (n, kLogFile) else if suffix = ascii ''.sst'' \<or> suffix = ascii ''.ldb'' then Some (n, kTableFile)
          else if suffix = ascii ''.dbtmp'' then Some (n, kTempFile) else None)"
proof -
  obtain c cs where c: "ds = c # cs" "is_digit c" using ds by (cases ds) auto
  have x: "c \<noteq> 67" "c \<noteq> 76" "c \<noteq> 77" using c(2) by (auto simp: is_digit_def)
  have ne: "ds @ suffix \<noteq> ascii ''CURRENT''" "ds @ suffix \<noteq> ascii ''LOCK''" "ds @ suffix \<noteq> ascii ''LOG''" "ds @ suffix \<noteq> ascii ''LOG.old''"
    "\<not> starts_with (ds @ suffix) (ascii ''MANIFEST-'')"
    using x starts_with_take [of "ds @ suffix" "ascii ''MANIFEST-''"] by (auto simp: ascii_def c(1))
  have "suffix \<noteq> [] \<longrightarrow> \<not> is_digit (hd suffix)" using suffix by (simp add: is_digit_def)
  then show ?thesis unfolding ParseFileName_def using ne ConsumeDecimalNumber_spec [OF ds(1), of suffix] ds(2) by (simp add: Let_def)
qed

text \<open>The part of a name after the directory.\<close>

abbreviation base_name :: "slice \<Rightarrow> slice \<Rightarrow> slice" where "base_name dbname fname \<equiv> drop (length dbname + 1) fname"

lemma base_MakeFileName:
  assumes "length suffix \<le> 10"
  shows "base_name db (MakeFileName db n suffix) = padded 6 (unat n) @ 46 # suffix"
proof -
  have "length (ascii ''/'' @ padded 6 (unat n) @ ascii ''.'' @ suffix) \<le> 99" using padded_length [of n] assms by (simp add: ascii_def)
  then have "MakeFileName db n suffix = db @ ascii ''/'' @ padded 6 (unat n) @ ascii ''.'' @ suffix" unfolding MakeFileName_def by (metis take_all)
  then show ?thesis by (simp add: ascii_def)
qed

lemma parse_MakeFileName:
  assumes "length suffix \<le> 10"
  shows "ParseFileName (base_name db (MakeFileName db n suffix)) =
    (if suffix = ascii ''log'' then Some (n, kLogFile) else if suffix = ascii ''sst'' \<or> suffix = ascii ''ldb'' then Some (n, kTableFile)
     else if suffix = ascii ''dbtmp'' then Some (n, kTempFile) else None)"
proof -
  have "unat n < 2 ^ LENGTH(64)" by (rule unsigned_less)
  then show ?thesis unfolding base_MakeFileName [OF assms] using parse_number [OF padded_digits(1,2), of "46 # suffix" suffix 6 "unat n"] padded_digits(3) [of 6 "unat n"]
    by (simp add: ascii_def)
qed

lemma parse_Descriptor:
  assumes "0 < n"
  shows "map_option (\<lambda>f. ParseFileName (base_name db f)) (DescriptorFileName db n) = Some (Some (n, kDescriptorFile))"
proof -
  have "length (ascii ''/MANIFEST-'' @ padded 6 (unat n)) \<le> 99" using padded_length [of n] by (simp add: ascii_def)
  then have "DescriptorFileName db n = Some (db @ ascii ''/MANIFEST-'' @ padded 6 (unat n))" unfolding DescriptorFileName_def using assms by (metis take_all)
  moreover have "starts_with (ascii ''MANIFEST-'' @ xs) (ascii ''MANIFEST-'')" for xs by (simp add: starts_with_def memcmp_0)
  ultimately show ?thesis using consume_name [of "[]" n] by (simp add: ascii_def ParseFileName_def)
qed

text \<open>
  C39. Names of files. Parsing the name of a log, a table (with the current or the old suffix), a manifest or a temporary file gives its number and its type, for every number
  up to the limit of 64 bits, and likewise for the files without a number. Any other digits before a suffix are read as the number they stand for, and refused exactly if it
  does not fit in 64 bits: the test for overflow while the digits are read is exact.
\<close>

theorem file_names_roundtrip:
  assumes "0 < n"
  shows "map_option (\<lambda>f. ParseFileName (base_name db f)) (LogFileName db n) = Some (Some (n, kLogFile)) \<and>
    map_option (\<lambda>f. ParseFileName (base_name db f)) (TableFileName db n) = Some (Some (n, kTableFile)) \<and>
    map_option (\<lambda>f. ParseFileName (base_name db f)) (SSTTableFileName db n) = Some (Some (n, kTableFile)) \<and>
    map_option (\<lambda>f. ParseFileName (base_name db f)) (TempFileName db n) = Some (Some (n, kTempFile)) \<and>
    map_option (\<lambda>f. ParseFileName (base_name db f)) (DescriptorFileName db n) = Some (Some (n, kDescriptorFile)) \<and>
    ParseFileName (base_name db (CurrentFileName db)) = Some (0, kCurrentFile) \<and> ParseFileName (base_name db (LockFileName db)) = Some (0, kDBLockFile) \<and>
    ParseFileName (base_name db (InfoLogFileName db)) = Some (0, kInfoLogFile) \<and> ParseFileName (base_name db (OldInfoLogFileName db)) = Some (0, kInfoLogFile) \<and>
    (\<forall>ds. ds \<noteq> [] \<and> (\<forall>c\<in>set ds. is_digit c) \<longrightarrow>
       ParseFileName (ds @ ascii ''.ldb'') = (if digits_val 0 ds < 2 ^ 64 then Some (word_of_nat (digits_val 0 ds), kTableFile) else None))"
proof (intro conjI allI impI)
  fix ds :: slice
  assume ds: "ds \<noteq> [] \<and> (\<forall>c\<in>set ds. is_digit c)"
  show "ParseFileName (ds @ ascii ''.ldb'') = (if digits_val 0 ds < 2 ^ 64 then Some (word_of_nat (digits_val 0 ds), kTableFile) else None)"
    using parse_number [of ds "ascii ''.ldb''" "ascii ''ldb''"] ds by (auto simp: ascii_def Let_def)
next
  note P = parse_MakeFileName [of "ascii ''log''" db n] parse_MakeFileName [of "ascii ''ldb''" db n] parse_MakeFileName [of "ascii ''sst''" db n] parse_MakeFileName [of "ascii ''dbtmp''" db n]
  show "map_option (\<lambda>f. ParseFileName (base_name db f)) (LogFileName db n) = Some (Some (n, kLogFile))" using P(1) assms by (simp add: LogFileName_def ascii_def)
  show "map_option (\<lambda>f. ParseFileName (base_name db f)) (TableFileName db n) = Some (Some (n, kTableFile))" using P(2) assms by (simp add: TableFileName_def ascii_def)
  show "map_option (\<lambda>f. ParseFileName (base_name db f)) (SSTTableFileName db n) = Some (Some (n, kTableFile))" using P(3) assms by (simp add: SSTTableFileName_def ascii_def)
  show "map_option (\<lambda>f. ParseFileName (base_name db f)) (TempFileName db n) = Some (Some (n, kTempFile))" using P(4) assms by (simp add: TempFileName_def ascii_def)
  show "map_option (\<lambda>f. ParseFileName (base_name db f)) (DescriptorFileName db n) = Some (Some (n, kDescriptorFile))" by (rule parse_Descriptor [OF assms])
qed (simp_all add: CurrentFileName_def LockFileName_def InfoLogFileName_def OldInfoLogFileName_def ParseFileName_def ascii_def)

theorem file_names_roundtrip_witness:
  "map_option (\<lambda>f. ParseFileName (base_name [100, 98] f)) (TableFileName [100, 98] 7) = Some (Some (7, kTableFile)) \<and> TableFileName [100, 98] 7 = Some (ascii ''db/000007.ldb'')"
proof
  show "map_option (\<lambda>f. ParseFileName (base_name [100, 98] f)) (TableFileName [100, 98] 7) = Some (Some (7, kTableFile))" using file_names_roundtrip [of 7 "[100, 98]"] by simp
  show "TableFileName [100, 98] 7 = Some (ascii ''db/000007.ldb'')" by code_simp
qed

end
