(* ===== verification/Block.thy ===== *)
theory Block
  imports Cursor
begin

text \<open>
  table/block_builder.h, table/block_builder.cc, table/block.h and table/block.cc: blocks of sorted entries with prefix-compressed keys
  and restart points, their builder and their iterator. Pointers into a block are offsets. An assertion that fails and a read outside the
  block have the value \<^term>\<open>None\<close>, and so has a loop that does not end.
\<close>

section \<open>The builder\<close>

record block_builder =
  bb_interval :: nat
  bb_buffer :: "byte list"
  bb_restarts :: "u32 list"
  bb_counter :: nat
  bb_finished :: bool
  bb_last_key :: slice

definition mk_BlockBuilder :: "nat \<Rightarrow> block_builder option" where
  "mk_BlockBuilder interval =
     (if interval \<ge> 1
      then Some \<lparr>bb_interval = interval, bb_buffer = [], bb_restarts = [0], bb_counter = 0, bb_finished = False, bb_last_key = []\<rparr> else None)"

definition bb_Reset :: "block_builder \<Rightarrow> block_builder" where
  "bb_Reset b = b\<lparr>bb_buffer := [], bb_restarts := [0], bb_counter := 0, bb_finished := False, bb_last_key := []\<rparr>"

definition CurrentSizeEstimate :: "block_builder \<Rightarrow> nat" where
  "CurrentSizeEstimate b = length (bb_buffer b) + length (bb_restarts b) * 4 + 4"

definition bb_Finish :: "block_builder \<Rightarrow> slice \<times> block_builder" where
  "bb_Finish b =
     (let buf = fold (\<lambda>r buf. PutFixed32 True buf r) (bb_restarts b) (bb_buffer b);
          buf = PutFixed32 True buf (word_of_nat (length (bb_restarts b)))
      in (buf, b\<lparr>bb_buffer := buf, bb_finished := True\<rparr>))"

definition bb_Add :: "(slice \<Rightarrow> slice \<Rightarrow> int) \<Rightarrow> slice \<Rightarrow> slice \<Rightarrow> block_builder \<Rightarrow> block_builder option" where
  "bb_Add cmp k v b =
     (if bb_finished b \<or> bb_interval b < bb_counter b \<or> bb_buffer b \<noteq> [] \<and> \<not> cmp k (bb_last_key b) > 0 then None
      else
        let same = bb_counter b < bb_interval b;
            shared = (if same then common_prefix (bb_last_key b) k else 0);
            b = (if same then b else b\<lparr>bb_restarts := bb_restarts b @ [word_of_nat (length (bb_buffer b))], bb_counter := 0\<rparr>);
            non_shared = length k - shared;
            buf = PutVarint32 (bb_buffer b) (word_of_nat shared);
            buf = PutVarint32 buf (word_of_nat non_shared);
            buf = PutVarint32 buf (word_of_nat (length v));
            buf = buf @ drop shared k @ v;
            last_key = take shared (bb_last_key b) @ drop shared k
        in if last_key = k then Some (b\<lparr>bb_buffer := buf, bb_last_key := last_key, bb_counter := bb_counter b + 1\<rparr>) else None)"

section \<open>Blocks\<close>

record block =
  b_data :: "byte list"
  b_size :: nat
  b_restart_offset :: nat

definition NumRestarts :: "byte list \<Rightarrow> nat \<Rightarrow> nat" where
  "NumRestarts data sz = unat (DecodeFixed32 True (drop (sz - 4) data))"

text \<open>The constructor; the size 0 marks an error, and then \<open>restart_offset_\<close> is not set.\<close>

definition mk_Block :: "byte list \<Rightarrow> block" where
  "mk_Block contents =
     (let sz = length contents; bad = \<lparr>b_data = contents, b_size = 0, b_restart_offset = 0\<rparr>
      in if sz < 4 then bad
         else let max_restarts_allowed = (sz - 4) div 4; n = NumRestarts contents sz
              in if n > max_restarts_allowed then bad
                 else \<lparr>b_data = contents, b_size = sz, b_restart_offset = unat (word_of_nat sz - (1 + word_of_nat n) * 4 :: u32)\<rparr>)"

text \<open>\<open>DecodeEntry(p, limit)\<close>: the offset of the key delta and the three numbers.\<close>

definition entry_check :: "nat \<Rightarrow> nat \<Rightarrow> u32 \<Rightarrow> u32 \<Rightarrow> u32 \<Rightarrow> (nat \<times> u32 \<times> u32 \<times> u32) option" where
  "entry_check p limit shared non_shared value_length =
     (if word_of_nat (limit - p) < non_shared + value_length then None else Some (p, shared, non_shared, value_length))"

definition DecodeEntry :: "byte list \<Rightarrow> nat \<Rightarrow> nat \<Rightarrow> (nat \<times> u32 \<times> u32 \<times> u32) option" where
  "DecodeEntry data p limit =
     (if limit < p + 3 then None
      else
        let s = ucast (data ! p) :: u32; n = ucast (data ! (p + 1)); v = ucast (data ! (p + 2))
        in if s OR n OR v < 128 then entry_check (p + 3) limit s n v
           else
             do { (s, q) \<leftarrow> GetVarint32Ptr (take (limit - p) (drop p data));
                  (n, q) \<leftarrow> GetVarint32Ptr q;
                  (v, q) \<leftarrow> GetVarint32Ptr q;
                  entry_check (limit - length q) limit s n v })"

section \<open>The iterator\<close>

record block_iter =
  bi_data :: "byte list"
  bi_restarts :: nat
  bi_num :: nat
  bi_current :: nat
  bi_index :: nat
  bi_key :: slice
  bi_vpos :: nat
  bi_vlen :: nat
  bi_status :: status

definition mk_block_iter :: "byte list \<Rightarrow> nat \<Rightarrow> nat \<Rightarrow> block_iter option" where
  "mk_block_iter data restarts n =
     (if n > 0 then Some \<lparr>bi_data = data, bi_restarts = restarts, bi_num = n, bi_current = restarts, bi_index = n,
        bi_key = [], bi_vpos = 0, bi_vlen = 0, bi_status = OK\<rparr> else None)"

definition NextEntryOffset :: "block_iter \<Rightarrow> nat" where
  "NextEntryOffset it = bi_vpos it + bi_vlen it"

definition GetRestartPoint :: "block_iter \<Rightarrow> nat \<Rightarrow> nat option" where
  "GetRestartPoint it i =
     (let p = bi_restarts it + i * 4
      in if i < bi_num it \<and> p + 4 \<le> length (bi_data it) then Some (unat (DecodeFixed32 True (drop p (bi_data it)))) else None)"

definition SeekToRestartPoint :: "nat \<Rightarrow> block_iter \<Rightarrow> block_iter option" where
  "SeekToRestartPoint i it =
     map_option (\<lambda>offset. it\<lparr>bi_key := [], bi_index := i, bi_vpos := offset, bi_vlen := 0\<rparr>) (GetRestartPoint it i)"

definition bi_Valid :: "block_iter \<Rightarrow> bool" where
  "bi_Valid it \<longleftrightarrow> bi_current it < bi_restarts it"

text \<open>After an error the offset of the value has no meaning; nothing uses it before the next seek.\<close>

definition CorruptionError :: "block_iter \<Rightarrow> block_iter" where
  "CorruptionError it = it\<lparr>bi_current := bi_restarts it, bi_index := bi_num it, bi_status := Corruption (ascii ''bad entry in block'') [],
     bi_key := [], bi_vpos := 0, bi_vlen := 0\<rparr>"

text \<open>The loop of \<open>ParseNextKey\<close> that moves \<open>restart_index_\<close> on.\<close>

function advance_index :: "block_iter \<Rightarrow> block_iter option" where
  "advance_index it =
     (if bi_index it + 1 < bi_num it then
        Option.bind (GetRestartPoint it (bi_index it + 1)) (\<lambda>r.
          if r < bi_current it then advance_index (it\<lparr>bi_index := bi_index it + 1\<rparr>) else Some it)
      else Some it)"
  by pat_completeness auto
termination by (relation "measure (\<lambda>it. bi_num it - bi_index it)") auto

declare advance_index.simps [simp del]

definition ParseNextKey :: "block_iter \<Rightarrow> (bool \<times> block_iter) option" where
  "ParseNextKey it =
     (let it = it\<lparr>bi_current := NextEntryOffset it mod 2 ^ 32\<rparr>; limit = bi_restarts it
      in if bi_current it \<ge> limit then Some (False, it\<lparr>bi_current := limit, bi_index := bi_num it\<rparr>)
         else case DecodeEntry (bi_data it) (bi_current it) limit of
           None \<Rightarrow> Some (False, CorruptionError it)
         | Some (p, shared, non_shared, value_length) \<Rightarrow>
             if length (bi_key it) < unat shared then Some (False, CorruptionError it)
             else if length (bi_data it) < p + unat non_shared then None
             else map_option (Pair True) (advance_index
                    (it\<lparr>bi_key := take (unat shared) (bi_key it) @ take (unat non_shared) (drop p (bi_data it)),
                        bi_vpos := p + unat non_shared, bi_vlen := unat value_length\<rparr>)))"

definition bi_key_of :: "block_iter \<Rightarrow> slice option" where
  "bi_key_of it = (if bi_Valid it then Some (bi_key it) else None)"

definition bi_value :: "block_iter \<Rightarrow> slice option" where
  "bi_value it =
     (if bi_Valid it \<and> bi_vpos it + bi_vlen it \<le> length (bi_data it) then Some (take (bi_vlen it) (drop (bi_vpos it) (bi_data it))) else None)"

definition bi_Next :: "block_iter \<Rightarrow> block_iter option" where
  "bi_Next it = (if bi_Valid it then map_option snd (ParseNextKey it) else None)"

text \<open>The loop \<open>while (ParseNextKey() && NextEntryOffset() < bound)\<close> of \<open>Prev\<close> and \<open>SeekToLast\<close>.\<close>

partial_function (option) parse_until :: "nat \<Rightarrow> block_iter \<Rightarrow> block_iter option" where
  "parse_until bound it =
     Option.bind (ParseNextKey it) (\<lambda>(ok, it). if ok \<and> NextEntryOffset it < bound then parse_until bound it else Some it)"

text \<open>The loop of \<open>Prev\<close> over the restart points: the index found, or \<^term>\<open>Some None\<close> if all of them are at or after \<open>original\<close>.\<close>

fun restart_before :: "block_iter \<Rightarrow> nat \<Rightarrow> nat \<Rightarrow> nat option option" where
  "restart_before it original i =
     Option.bind (GetRestartPoint it i) (\<lambda>r.
       if r \<ge> original then (case i of 0 \<Rightarrow> Some None | Suc j \<Rightarrow> restart_before it original j) else Some (Some i))"

declare restart_before.simps [simp del]

definition bi_Prev :: "block_iter \<Rightarrow> block_iter option" where
  "bi_Prev it =
     (if bi_Valid it then
        let original = bi_current it
        in Option.bind (restart_before it original (bi_index it)) (\<lambda>r.
             case r of
               None \<Rightarrow> Some (it\<lparr>bi_current := bi_restarts it, bi_index := bi_num it\<rparr>)
             | Some i \<Rightarrow> Option.bind (SeekToRestartPoint i it) (parse_until original))
      else None)"

text \<open>
  The binary search of \<open>Seek\<close>: the index of the restart point, or \<^term>\<open>Some None\<close> for a corrupt entry.
\<close>

function seek_search :: "(slice \<Rightarrow> slice \<Rightarrow> int) \<Rightarrow> block_iter \<Rightarrow> slice \<Rightarrow> nat \<Rightarrow> nat \<Rightarrow> nat option option" where
  "seek_search cmp it target left right =
     (if left < right then
        let mid = (left + right + 1) div 2
        in Option.bind (GetRestartPoint it mid) (\<lambda>region_offset.
             case DecodeEntry (bi_data it) region_offset (bi_restarts it) of
               None \<Rightarrow> Some None
             | Some (key_ptr, shared, non_shared, _) \<Rightarrow>
                 if shared \<noteq> 0 then Some None
                 else if length (bi_data it) < key_ptr + unat non_shared then None
                 else if cmp (take (unat non_shared) (drop key_ptr (bi_data it))) target < 0
                 then seek_search cmp it target mid right else seek_search cmp it target left (mid - 1))
      else Some (Some left))"
  by pat_completeness auto
termination by (relation "measure (\<lambda>(_, _, _, l, r). r - l)") auto

declare seek_search.simps [simp del]

partial_function (option) seek_linear :: "(slice \<Rightarrow> slice \<Rightarrow> int) \<Rightarrow> slice \<Rightarrow> block_iter \<Rightarrow> block_iter option" where
  "seek_linear cmp target it =
     Option.bind (ParseNextKey it) (\<lambda>(ok, it).
       if \<not> ok then Some it else if cmp (bi_key it) target \<ge> 0 then Some it else seek_linear cmp target it)"

definition bi_Seek :: "(slice \<Rightarrow> slice \<Rightarrow> int) \<Rightarrow> slice \<Rightarrow> block_iter \<Rightarrow> block_iter option" where
  "bi_Seek cmp target it =
     Option.bind (seek_search cmp it target 0 (bi_num it - 1)) (\<lambda>r.
       case r of
         None \<Rightarrow> Some (CorruptionError it)
       | Some left \<Rightarrow> Option.bind (SeekToRestartPoint left it) (seek_linear cmp target))"

definition bi_SeekToFirst :: "block_iter \<Rightarrow> block_iter option" where
  "bi_SeekToFirst it = Option.bind (SeekToRestartPoint 0 it) (\<lambda>it. map_option snd (ParseNextKey it))"

definition bi_SeekToLast :: "block_iter \<Rightarrow> block_iter option" where
  "bi_SeekToLast it = Option.bind (SeekToRestartPoint (bi_num it - 1) it) (parse_until (bi_restarts it))"

text \<open>\<open>NewIterator\<close>: an iterator with an error, an empty one, or one over the block.\<close>

datatype new_iter = Error_Iter status | Empty_Iter | Block_Iter block_iter

definition Block_NewIterator :: "block \<Rightarrow> new_iter option" where
  "Block_NewIterator b =
     (if b_size b < 4 then Some (Error_Iter (Corruption (ascii ''bad block contents'') []))
      else let n = NumRestarts (b_data b) (b_size b)
           in if n = 0 then Some Empty_Iter else map_option Block_Iter (mk_block_iter (b_data b) (b_restart_offset b) n))"

declare parse_until.simps [code] seek_linear.simps [code]

end
