(* ===== verification/TableFormat.thy ===== *)
theory TableFormat
  imports LogFormat Block FilterBlock Cache
begin

text \<open>
  table/format.h, table/format.cc, table/table_builder.cc and table/table.cc: sorted tables in files. Writable files are those of the
  log (with arbitrary failures); a readable file is a function from offset and length to a status, the bytes read, and whether they were read
  into the buffer of the caller (a file mapped to memory gives a pointer to its own data instead). Compressors
  are records of the functions of the abstract class \<open>Compressor\<close>; the models of this theory depend only on them. The block cache that \<open>options.block_cache\<close> points to is
  passed to and returned by the functions that use it, \<^term>\<open>None\<close> for a null pointer. Assertions that fail
  and reads outside a buffer have the value \<^term>\<open>None\<close>.
\<close>

section \<open>Block handles and footers\<close>

record BlockHandle =
  bh_offset :: u64
  bh_size :: u64

definition mk_BlockHandle :: BlockHandle where
  "mk_BlockHandle = \<lparr>bh_offset = - 1, bh_size = - 1\<rparr>"

definition kMaxEncodedLength :: nat where "kMaxEncodedLength = 10 + 10"
definition kEncodedLength :: nat where "kEncodedLength = 2 * kMaxEncodedLength + 8"
definition kTableMagicNumber :: u64 where "kTableMagicNumber = 0xdb4775248b80fb57"
definition kBlockTrailerSize :: nat where "kBlockTrailerSize = 5"

definition bh_EncodeTo :: "BlockHandle \<Rightarrow> byte list \<Rightarrow> byte list option" where
  "bh_EncodeTo h dst =
     (if bh_offset h = - 1 \<or> bh_size h = - 1 then None else Some (PutVarint64 (PutVarint64 dst (bh_offset h)) (bh_size h)))"

text \<open>\<open>DecodeFrom(input)\<close>: \<^term>\<open>None\<close> is the status \<open>Corruption("bad block handle")\<close>.\<close>

definition bh_DecodeFrom :: "BlockHandle decoder" where
  "bh_DecodeFrom input =
     do { (off, input) \<leftarrow> GetVarint64 input; (sz, input) \<leftarrow> GetVarint64 input; Some (\<lparr>bh_offset = off, bh_size = sz\<rparr>, input) }"

definition bad_handle :: status where "bad_handle = Corruption (ascii ''bad block handle'') []"

record Footer =
  metaindex_handle :: BlockHandle
  index_handle :: BlockHandle

definition resize :: "nat \<Rightarrow> byte list \<Rightarrow> byte list" where
  "resize n s = take n s @ replicate (n - length s) 0"

definition ft_EncodeTo :: "Footer \<Rightarrow> byte list \<Rightarrow> byte list option" where
  "ft_EncodeTo ft dst0 =
     do { dst \<leftarrow> bh_EncodeTo (metaindex_handle ft) dst0;
          dst \<leftarrow> bh_EncodeTo (index_handle ft) dst;
          let dst = resize (2 * kMaxEncodedLength) dst;
              dst = PutFixed32 True dst (ucast (kTableMagicNumber AND 0xffffffff));
              dst = PutFixed32 True dst (ucast (drop_bit 32 kTableMagicNumber))
          in if length dst = length dst0 + kEncodedLength then Some dst else None }"

definition ft_DecodeFrom :: "slice \<Rightarrow> (status \<times> Footer \<times> slice) option" where
  "ft_DecodeFrom input =
     (if length input < kEncodedLength then None
      else
        let magic_ptr = drop (kEncodedLength - 8) input;
            lo = DecodeFixed32 True magic_ptr; hi = DecodeFixed32 True (drop 4 magic_ptr);
            magic = push_bit 32 (ucast hi) OR (ucast lo :: u64);
            ft = \<lparr>metaindex_handle = mk_BlockHandle, index_handle = mk_BlockHandle\<rparr>
        in if magic \<noteq> kTableMagicNumber then Some (Corruption (ascii ''not an sstable (bad magic number)'') [], ft, input)
           else case bh_DecodeFrom input of
             None \<Rightarrow> Some (bad_handle, ft, input)
           | Some (m, q) \<Rightarrow>
               (case bh_DecodeFrom q of
                  None \<Rightarrow> Some (bad_handle, ft\<lparr>metaindex_handle := m\<rparr>, q)
                | Some (i, _) \<Rightarrow> Some (OK, \<lparr>metaindex_handle = m, index_handle = i\<rparr>, drop 8 magic_ptr)))"

section \<open>Reading blocks\<close>

type_synonym rafile = "nat \<Rightarrow> nat \<Rightarrow> status \<times> slice \<times> bool"

record compressor =
  comp_id :: byte
  comp_compress :: "slice \<Rightarrow> slice"
  comp_decompress :: "slice \<Rightarrow> slice option"

record policy =
  p_name :: slice
  p_create :: "slice list \<Rightarrow> byte list \<Rightarrow> byte list"
  p_may :: "slice \<Rightarrow> slice \<Rightarrow> bool"

text \<open>The fields of \<open>Options\<close> that tables depend on; \<open>compressors\<close> is the array of 256 pointers.\<close>

record options =
  o_cmp :: "slice \<Rightarrow> slice \<Rightarrow> int"
  o_sep :: "slice \<Rightarrow> slice \<Rightarrow> slice"
  o_succ :: "slice \<Rightarrow> slice"
  o_interval :: nat
  o_block_size :: nat
  o_compressors :: "compressor option list"
  o_policy :: "policy option"
  o_paranoid :: bool

text \<open>
  The search for a compressor stops at the first null pointer. The identifier of a compressor is a \<open>char\<close>, which is signed, and is compared with an \<open>unsigned char\<close>: both
  are promoted to \<open>int\<close>, so that a negative identifier is never found.
\<close>

fun find_compressor :: "byte \<Rightarrow> compressor option list \<Rightarrow> compressor option" where
  "find_compressor n [] = None"
| "find_compressor n (None # cs) = None"
| "find_compressor n (Some c # cs) = (if sint (comp_id c) = uint n then Some c else find_compressor n cs)"

text \<open>The result has the status and the contents of the block, and whether they may be cached: data that belong to the file are not cached a second time.\<close>

definition ReadBlock :: "rafile \<Rightarrow> options \<Rightarrow> bool \<Rightarrow> BlockHandle \<Rightarrow> (status \<times> slice \<times> bool) option" where
  "ReadBlock file opt verify_checksums handle =
     (let n = unat (bh_size handle); m = unat (bh_size handle + word_of_nat kBlockTrailerSize);
          (s, contents, in_buf) = file (unat (bh_offset handle)) m
      in if \<not> status_ok s then Some (s, [], False)
         else if length contents \<noteq> m then Some (Corruption (ascii ''truncated block read'') [], [], False)
         else if m \<noteq> n + kBlockTrailerSize then None
         else if verify_checksums \<and> crc_value (take (n + 1) contents) \<noteq> Unmask (DecodeFixed32 True (drop (n + 1) contents))
         then Some (Corruption (ascii ''block checksum mismatch'') [], [], False)
         else if contents ! n = 0 then Some (OK, take n contents, in_buf)
         else case find_compressor (contents ! n) (o_compressors opt) of
           None \<Rightarrow> Some (NotSupported (ascii ''encountered a block compressed with an unknown decompressor'') [], [], False)
         | Some c \<Rightarrow>
             (case comp_decompress c (take n contents) of
                None \<Rightarrow> Some (Corruption (ascii ''corrupted compressed block contents'') [], [], False)
              | Some d \<Rightarrow> Some (OK, d, True)))"

section \<open>The builder\<close>

record table_builder =
  tb_opt :: options
  tb_file :: wfile
  tb_offset :: u64
  tb_status :: status
  tb_data :: block_builder
  tb_index :: block_builder
  tb_last_key :: slice
  tb_num :: nat
  tb_closed :: bool
  tb_filter :: "(policy \<times> filter_builder) option"
  tb_pending :: bool
  tb_handle :: BlockHandle

definition tb_ok :: "table_builder \<Rightarrow> bool" where "tb_ok r \<longleftrightarrow> status_ok (tb_status r)"

text \<open>A call of \<open>StartBlock\<close> if there is a filter block; the filter block keeps the policy it was made with.\<close>

definition tb_StartBlock :: "table_builder \<Rightarrow> table_builder option" where
  "tb_StartBlock r =
     (case tb_filter r of
        None \<Rightarrow> Some r
      | Some (p, fb) \<Rightarrow> map_option (\<lambda>fb. r\<lparr>tb_filter := Some (p, fb)\<rparr>) (StartBlock (p_create p) (unat (tb_offset r)) fb))"

definition mk_TableBuilder :: "options \<Rightarrow> wfile \<Rightarrow> table_builder option" where
  "mk_TableBuilder opt file =
     do { d \<leftarrow> mk_BlockBuilder (o_interval opt);
          i \<leftarrow> mk_BlockBuilder 1;
          tb_StartBlock \<lparr>tb_opt = opt, tb_file = file, tb_offset = 0, tb_status = OK, tb_data = d, tb_index = i, tb_last_key = [], tb_num = 0,
            tb_closed = False, tb_filter = map_option (\<lambda>p. (p, mk_FilterBlockBuilder)) (o_policy opt), tb_pending = False, tb_handle = mk_BlockHandle\<rparr> }"

definition WriteRawBlock :: "slice \<Rightarrow> compressor option \<Rightarrow> table_builder \<Rightarrow> BlockHandle \<times> table_builder" where
  "WriteRawBlock contents zc r =
     (let handle = \<lparr>bh_offset = tb_offset r, bh_size = word_of_nat (length contents)\<rparr>;
          (s, f) = Append contents (tb_file r);
          r = r\<lparr>tb_status := s, tb_file := f\<rparr>
      in if status_ok s then
           let t = (case zc of None \<Rightarrow> 0 | Some c \<Rightarrow> comp_id c);
               crc = crc_extend (crc_value contents) [t];
               (s, f) = Append (t # EncodeFixed32 True (Mask crc)) f;
               r = r\<lparr>tb_status := s, tb_file := f\<rparr>
           in (handle, if status_ok s then r\<lparr>tb_offset := tb_offset r + word_of_nat (length contents) + word_of_nat kBlockTrailerSize\<rparr> else r)
         else (handle, r))"

definition choose_contents :: "options \<Rightarrow> slice \<Rightarrow> slice \<times> compressor option" where
  "choose_contents opt raw =
     (case o_compressors opt ! 0 of
        None \<Rightarrow> (raw, None)
      | Some c \<Rightarrow> let z = comp_compress c raw in if length z < length raw - length raw div 8 then (z, Some c) else (raw, None))"

text \<open>\<open>WriteBlock(block, handle)\<close>: also the builder after its \<open>Reset\<close>.\<close>

definition WriteBlock :: "block_builder \<Rightarrow> table_builder \<Rightarrow> (block_builder \<times> BlockHandle \<times> table_builder) option" where
  "WriteBlock b r =
     (if \<not> tb_ok r then None
      else let (raw, b) = bb_Finish b;
               (contents, zc) = choose_contents (tb_opt r) raw;
               (h, r) = WriteRawBlock contents zc r
           in Some (bb_Reset b, h, r))"

definition tb_Flush :: "table_builder \<Rightarrow> table_builder option" where
  "tb_Flush r =
     (if tb_closed r then None
      else if \<not> tb_ok r then Some r
      else if bb_buffer (tb_data r) = [] then Some r
      else if tb_pending r then None
      else
        do { (b, h, r) \<leftarrow> WriteBlock (tb_data r) r;
             let r = r\<lparr>tb_data := b, tb_handle := h\<rparr>;
                 r = (if tb_ok r then let (s, f) = Flush (tb_file r) in r\<lparr>tb_pending := True, tb_status := s, tb_file := f\<rparr> else r)
             in tb_StartBlock r })"

text \<open>\<open>ChangeOptions\<close>; \<open>same\<close> says whether the pointers to the comparators are equal. The block builders use the options through a pointer.\<close>

definition ChangeOptions :: "bool \<Rightarrow> options \<Rightarrow> table_builder \<Rightarrow> status \<times> table_builder" where
  "ChangeOptions same opt r =
     (if \<not> same then (InvalidArgument (ascii ''changing comparator while building table'') [], r)
      else (OK, r\<lparr>tb_opt := opt, tb_data := (tb_data r)\<lparr>bb_interval := o_interval opt\<rparr>\<rparr>))"

text \<open>The index entry of the block before: \<open>k\<close> is its key.\<close>

definition add_index :: "slice \<Rightarrow> table_builder \<Rightarrow> table_builder option" where
  "add_index k r =
     do { e \<leftarrow> bh_EncodeTo (tb_handle r) [];
          i \<leftarrow> bb_Add (o_cmp (tb_opt r)) k e (tb_index r);
          Some (r\<lparr>tb_last_key := k, tb_index := i, tb_pending := False\<rparr>) }"

definition tb_Add :: "slice \<Rightarrow> slice \<Rightarrow> table_builder \<Rightarrow> table_builder option" where
  "tb_Add k v r =
     (if tb_closed r then None
      else if \<not> tb_ok r then Some r
      else if tb_num r > 0 \<and> \<not> o_cmp (tb_opt r) k (tb_last_key r) > 0 then None
      else
        do { r \<leftarrow> (if tb_pending r then
                     if bb_buffer (tb_data r) \<noteq> [] then None else add_index (o_sep (tb_opt r) (tb_last_key r) k) r
                   else Some r);
             let r = r\<lparr>tb_filter := map_option (apsnd (AddKey k)) (tb_filter r), tb_last_key := k, tb_num := tb_num r + 1\<rparr>
             in do { d \<leftarrow> bb_Add (o_cmp (tb_opt r)) k v (tb_data r);
                     let r = r\<lparr>tb_data := d\<rparr>
                     in if CurrentSizeEstimate d \<ge> o_block_size (tb_opt r) then tb_Flush r else Some r } })"

definition filter_key :: "policy \<Rightarrow> slice" where "filter_key p = ascii ''filter.'' @ p_name p"

text \<open>The parts of \<open>Finish\<close> that write the filter block, the metaindex block, the index block and the footer, each only if all is well.\<close>

definition write_filter :: "table_builder \<Rightarrow> BlockHandle \<times> table_builder" where
  "write_filter r =
     (case (tb_ok r, tb_filter r) of
        (True, Some (p, fb)) \<Rightarrow> WriteRawBlock (fb_Finish (p_create p) fb) None r
      | _ \<Rightarrow> (mk_BlockHandle, r))"

text \<open>The name of the filter is that of the policy in the options, which \<open>ChangeOptions\<close> may have replaced, also by a null pointer.\<close>

definition write_metaindex :: "BlockHandle \<Rightarrow> table_builder \<Rightarrow> (BlockHandle \<times> table_builder) option" where
  "write_metaindex filter_handle r =
     (if tb_ok r then
        do { b \<leftarrow> mk_BlockBuilder (o_interval (tb_opt r));
             b \<leftarrow> (case tb_filter r of
                     None \<Rightarrow> Some b
                   | Some _ \<Rightarrow> do { p \<leftarrow> o_policy (tb_opt r); e \<leftarrow> bh_EncodeTo filter_handle []; bb_Add (o_cmp (tb_opt r)) (filter_key p) e b });
             (_, h, r) \<leftarrow> WriteBlock b r;
             Some (h, r) }
      else Some (mk_BlockHandle, r))"

definition write_index :: "table_builder \<Rightarrow> (BlockHandle \<times> table_builder) option" where
  "write_index r =
     (if tb_ok r then
        do { r \<leftarrow> (if tb_pending r then add_index (o_succ (tb_opt r) (tb_last_key r)) r else Some r);
             (i, h, r) \<leftarrow> WriteBlock (tb_index r) r;
             Some (h, r\<lparr>tb_index := i\<rparr>) }
      else Some (mk_BlockHandle, r))"

definition write_footer :: "BlockHandle \<Rightarrow> BlockHandle \<Rightarrow> table_builder \<Rightarrow> table_builder option" where
  "write_footer m i r =
     (if tb_ok r then
        do { e \<leftarrow> ft_EncodeTo \<lparr>metaindex_handle = m, index_handle = i\<rparr> [];
             let (s, f) = Append e (tb_file r); r = r\<lparr>tb_status := s, tb_file := f\<rparr>
             in Some (if status_ok s then r\<lparr>tb_offset := tb_offset r + word_of_nat (length e)\<rparr> else r) }
      else Some r)"

definition tb_Finish :: "table_builder \<Rightarrow> (status \<times> table_builder) option" where
  "tb_Finish r =
     do { r \<leftarrow> tb_Flush r;
          let r = r\<lparr>tb_closed := True\<rparr>; (fh, r) = write_filter r
          in do { (mh, r) \<leftarrow> write_metaindex fh r;
                  (ih, r) \<leftarrow> write_index r;
                  r \<leftarrow> write_footer mh ih r;
                  Some (tb_status r, r) } }"

definition Abandon :: "table_builder \<Rightarrow> table_builder option" where
  "Abandon r = (if tb_closed r then None else Some (r\<lparr>tb_closed := True\<rparr>))"

definition NumEntries :: "table_builder \<Rightarrow> nat" where "NumEntries r = tb_num r"
definition FileSize :: "table_builder \<Rightarrow> u64" where "FileSize r = tb_offset r"

section \<open>The table\<close>

type_synonym block_cache = "block ShardedLRUCache option"

record Table =
  t_opt :: options
  t_file :: rafile
  t_cache_id :: u64
  t_filter :: "filter_reader option"
  t_metaindex :: BlockHandle
  t_index :: block

text \<open>The operations of the iterators that \<open>Block::NewIterator\<close> returns.\<close>

definition ni_Seek :: "(slice \<Rightarrow> slice \<Rightarrow> int) \<Rightarrow> slice \<Rightarrow> new_iter \<Rightarrow> new_iter option" where
  "ni_Seek cmp k it = (case it of Block_Iter b \<Rightarrow> map_option Block_Iter (bi_Seek cmp k b) | _ \<Rightarrow> Some it)"

definition ni_Valid :: "new_iter \<Rightarrow> bool" where
  "ni_Valid it = (case it of Block_Iter b \<Rightarrow> bi_Valid b | _ \<Rightarrow> False)"

definition ni_key :: "new_iter \<Rightarrow> slice option" where
  "ni_key it = (case it of Block_Iter b \<Rightarrow> bi_key_of b | _ \<Rightarrow> None)"

definition ni_value :: "new_iter \<Rightarrow> slice option" where
  "ni_value it = (case it of Block_Iter b \<Rightarrow> bi_value b | _ \<Rightarrow> None)"

definition ni_status :: "new_iter \<Rightarrow> status" where
  "ni_status it = (case it of Error_Iter s \<Rightarrow> s | Empty_Iter \<Rightarrow> OK | Block_Iter b \<Rightarrow> bi_status b)"

definition ReadFilter :: "rafile \<Rightarrow> options \<Rightarrow> slice \<Rightarrow> filter_reader option option" where
  "ReadFilter file opt v =
     (case bh_DecodeFrom v of
        None \<Rightarrow> Some None
      | Some (h, _) \<Rightarrow>
          Option.bind (ReadBlock file opt (o_paranoid opt) h) (\<lambda>(s, d, _). Some (if status_ok s then Some (mk_FilterBlockReader d) else None)))"

definition ReadMeta :: "rafile \<Rightarrow> options \<Rightarrow> Footer \<Rightarrow> filter_reader option option" where
  "ReadMeta file opt ft =
     (case o_policy opt of
        None \<Rightarrow> Some None
      | Some p \<Rightarrow>
          do { (s, d, _) \<leftarrow> ReadBlock file opt (o_paranoid opt) (metaindex_handle ft);
               if \<not> status_ok s then Some None
               else
                 do { it \<leftarrow> Block_NewIterator (mk_Block d);
                      it \<leftarrow> ni_Seek BytewiseCompare (filter_key p) it;
                      if ni_Valid it then
                        do { k \<leftarrow> ni_key it;
                             if k = filter_key p then do { v \<leftarrow> ni_value it; ReadFilter file opt v } else Some None }
                      else Some None } })"

text \<open>\<open>Open\<close>: the table gets an identifier of the block cache, if there is one.\<close>

definition new_cache_id :: "block_cache \<Rightarrow> u64 \<times> block_cache" where
  "new_cache_id bc = (case bc of None \<Rightarrow> (0, None) | Some c \<Rightarrow> apsnd Some (c_NewId c))"

definition Table_Open :: "options \<Rightarrow> rafile \<Rightarrow> nat \<Rightarrow> block_cache \<Rightarrow> (status \<times> Table option \<times> block_cache) option" where
  "Table_Open opt file sz bc =
     (if sz < kEncodedLength then Some (Corruption (ascii ''file is too short to be an sstable'') [], None, bc)
      else let (s, footer_input, _) = file (sz - kEncodedLength) kEncodedLength
           in if \<not> status_ok s then Some (s, None, bc)
              else
                do { (s, ft, _) \<leftarrow> ft_DecodeFrom footer_input;
                     if \<not> status_ok s then Some (s, None, bc)
                     else
                       do { (s, d, _) \<leftarrow> ReadBlock file opt (o_paranoid opt) (index_handle ft);
                            if \<not> status_ok s then Some (s, None, bc)
                            else
                              let (cache_id, bc) = new_cache_id bc
                              in do { fr \<leftarrow> ReadMeta file opt ft;
                                      Some (s, Some \<lparr>t_opt = opt, t_file = file, t_cache_id = cache_id, t_filter = fr,
                                        t_metaindex = metaindex_handle ft, t_index = mk_Block d\<rparr>, bc) } } })"

text \<open>
  \<open>BlockReader\<close>: the iterator, the handle of the block cache that it holds, if any, and the block cache. A block is looked up under the identifier of the table and
  its offset; a block that is read is inserted unless its data belong to the file or the caller does not want it.
\<close>

definition block_key :: "u64 \<Rightarrow> u64 \<Rightarrow> slice" where
  "block_key cache_id pos = EncodeFixed64 True cache_id @ EncodeFixed64 True pos"

definition cached_reader ::
  "Table \<Rightarrow> bool \<Rightarrow> bool \<Rightarrow> BlockHandle \<Rightarrow> block ShardedLRUCache \<Rightarrow> (new_iter \<times> (nat \<times> nat) option \<times> block ShardedLRUCache) option" where
  "cached_reader t verify_checksums fill_cache h c =
     (let k = block_key (t_cache_id t) (bh_offset h)
      in do { (r, c) \<leftarrow> c_Lookup k c;
              case r of
                Some cache_handle \<Rightarrow>
                  do { b \<leftarrow> c_Value cache_handle c; it \<leftarrow> Block_NewIterator b; Some (it, Some cache_handle, c) }
              | None \<Rightarrow>
                  do { (s, d, cachable) \<leftarrow> ReadBlock (t_file t) (t_opt t) verify_checksums h;
                       if \<not> status_ok s then Some (Error_Iter s, None, c)
                       else
                         do { (cache_handle, c) \<leftarrow>
                                (if cachable \<and> fill_cache then map_option (apfst Some) (c_Insert k (mk_Block d) (word_of_nat (b_size (mk_Block d))) c)
                                 else Some (None, c));
                              it \<leftarrow> Block_NewIterator (mk_Block d);
                              Some (it, cache_handle, c) } } })"

definition BlockReader :: "Table \<Rightarrow> bool \<Rightarrow> bool \<Rightarrow> slice \<Rightarrow> block_cache \<Rightarrow> (new_iter \<times> (nat \<times> nat) option \<times> block_cache) option" where
  "BlockReader t verify_checksums fill_cache index_value bc =
     (case bh_DecodeFrom index_value of
        None \<Rightarrow> Some (Error_Iter bad_handle, None, bc)
      | Some (h, _) \<Rightarrow>
          (case bc of
             Some c \<Rightarrow> map_option (apsnd (apsnd Some)) (cached_reader t verify_checksums fill_cache h c)
           | None \<Rightarrow>
               do { (s, d, _) \<leftarrow> ReadBlock (t_file t) (t_opt t) verify_checksums h;
                    if status_ok s then map_option (\<lambda>it. (it, None, None)) (Block_NewIterator (mk_Block d))
                    else Some (Error_Iter s, None, None) }))"

text \<open>The cleanup of the iterator: \<open>ReleaseBlock\<close>, or \<open>DeleteBlock\<close> for a block that is not in the cache.\<close>

definition ReleaseBlock :: "(nat \<times> nat) option \<Rightarrow> block_cache \<Rightarrow> block_cache option" where
  "ReleaseBlock cache_handle bc =
     (case cache_handle of
        None \<Rightarrow> Some bc
      | Some h \<Rightarrow> Option.bind bc (\<lambda>c. map_option Some (c_Release h c)))"

text \<open>\<open>InternalGet(options, k, arg, saver)\<close>: the status, the key and value that \<open>saver\<close> is called with, and the block cache.\<close>

definition InternalGet :: "Table \<Rightarrow> bool \<Rightarrow> bool \<Rightarrow> slice \<Rightarrow> block_cache \<Rightarrow> (status \<times> (slice \<times> slice) option \<times> block_cache) option" where
  "InternalGet t verify_checksums fill_cache k bc =
     do { iiter \<leftarrow> Block_NewIterator (t_index t);
          iiter \<leftarrow> ni_Seek (o_cmp (t_opt t)) k iiter;
          (s, saved, bc) \<leftarrow>
            (if ni_Valid iiter then
               do { handle_value \<leftarrow> ni_value iiter;
                    skip \<leftarrow> (case (o_policy (t_opt t), t_filter t, bh_DecodeFrom handle_value) of
                               (Some p, Some fr, Some (h, _)) \<Rightarrow> map_option Not (fr_KeyMayMatch (p_may p) fr (unat (bh_offset h)) k)
                             | _ \<Rightarrow> Some False);
                    if skip then Some (OK, None, bc)
                    else
                      do { (it, cache_handle, bc) \<leftarrow> BlockReader t verify_checksums fill_cache handle_value bc;
                           it \<leftarrow> ni_Seek (o_cmp (t_opt t)) k it;
                           saved \<leftarrow> (if ni_Valid it then do { k \<leftarrow> ni_key it; v \<leftarrow> ni_value it; Some (Some (k, v)) } else Some None);
                           bc \<leftarrow> ReleaseBlock cache_handle bc;
                           Some (ni_status it, saved, bc) } }
             else Some (OK, None, bc));
          Some (if status_ok s then ni_status iiter else s, saved, bc) }"

definition ApproximateOffsetOf :: "Table \<Rightarrow> slice \<Rightarrow> u64 option" where
  "ApproximateOffsetOf t k =
     do { it \<leftarrow> Block_NewIterator (t_index t);
          it \<leftarrow> ni_Seek (o_cmp (t_opt t)) k it;
          if ni_Valid it then
            do { v \<leftarrow> ni_value it;
                 Some (case bh_DecodeFrom v of None \<Rightarrow> bh_offset (t_metaindex t) | Some (h, _) \<Rightarrow> bh_offset h) }
          else Some (bh_offset (t_metaindex t)) }"

end
