(* ===== verification/BlockCorrect.thy ===== *)
theory BlockCorrect
  imports Block
begin

text \<open>
  Correctness of blocks: what the builder writes is a well-formed block, and the iterator over a well-formed block is a cursor
  over its entries (the locale \<open>cursor\<close>) whose seeks find the rank of the target.
\<close>

section \<open>Entries\<close>

text \<open>An entry: the length of the shared prefix, key and value.\<close>

type_synonym ent = "nat \<times> slice \<times> slice"

definition ent_head :: "ent \<Rightarrow> byte list" where
  "ent_head e = (case e of (sh, k, v) \<Rightarrow>
     EncodeVarint32 (word_of_nat sh) @ EncodeVarint32 (word_of_nat (length k - sh)) @ EncodeVarint32 (word_of_nat (length v)))"

definition enc_ent :: "ent \<Rightarrow> byte list" where
  "enc_ent e = (case e of (sh, k, v) \<Rightarrow> ent_head e @ drop sh k @ v)"

lemma varint_cases:
  obtains b where "EncodeVarint32 w = [b]" "unat b < 128" "ucast b = w"
  | b c bs where "EncodeVarint32 w = b # c # bs" "128 \<le> unat b"
proof (cases "128 \<le> unat w")
  case True
  then have e: "EncodeVarint32 w = (ucast (take_bit 7 w) OR 128) # leb_enc (drop_bit 7 w)"
    unfolding EncodeVarint32_leb by (subst leb_enc.simps) simp
  moreover have "leb_enc (drop_bit 7 w) \<noteq> []" by (subst leb_enc.simps) simp
  then obtain c bs where "leb_enc (drop_bit 7 w) = c # bs" by (meson neq_Nil_conv)
  moreover have "\<not> unat (ucast (take_bit 7 w) OR 128 :: byte) < 128"
  proof
    assume "unat (ucast (take_bit 7 w) OR 128 :: byte) < 128"
    then have "drop_bit 7 (ucast (take_bit 7 w) OR 128 :: byte) = 0" by (simp only: unat_less_128_iff)
    moreover have "bit (drop_bit 7 (ucast (take_bit 7 w) OR 128 :: byte)) 0"
      using leb_flag [of "ucast (take_bit 7 w)"] unfolding bit_drop_bit_eq by simp
    ultimately show False by simp
  qed
  ultimately show ?thesis using that(2) by simp
next
  case False
  then have "EncodeVarint32 w = [ucast w]" unfolding EncodeVarint32_leb by (intro leb_enc_small) simp
  moreover have "unat (ucast w :: byte) = unat w" using False by (simp add: unsigned_ucast_eq take_bit_nat_eq_self)
  moreover have "ucast (ucast w :: byte) = w" using False by (simp add: word_unat_eq_iff unsigned_ucast_eq unsigned_take_bit_eq take_bit_nat_eq_self)
  ultimately show ?thesis using that(1) False by simp
qed

lemma or_eq_0: "x OR y = 0 \<longleftrightarrow> x = 0 \<and> y = 0" for x y :: "'a::len word"
  by (auto simp: bit_eq_iff bit_simps)

lemma or3_less_128: "(a OR b OR c :: u32) < 128 \<longleftrightarrow> unat a < 128 \<and> unat b < 128 \<and> unat c < 128"
proof -
  have "(a OR b OR c) < 128 \<longleftrightarrow> drop_bit 7 (a OR b OR c) = 0" unfolding unat_less_128_iff [symmetric] by (simp add: word_less_nat_alt)
  also have "\<dots> \<longleftrightarrow> drop_bit 7 a = 0 \<and> drop_bit 7 b = 0 \<and> drop_bit 7 c = 0" by (simp add: drop_bit_or or_eq_0)
  finally show ?thesis by (simp add: unat_less_128_iff)
qed

lemma unat_ucast_byte: "unat (ucast (b :: byte) :: u32) = unat b"
  using word8_less_256 [of b] by (simp add: unsigned_ucast_eq take_bit_nat_eq_self)

lemma entry_check_ok:
  assumes "limit < 2 ^ 32" and "p + unat n + unat v \<le> limit"
  shows "entry_check p limit s n v = Some (p, s, n, v)"
proof -
  have "unat (n + v) = unat n + unat v" using assms by (intro unat_add_lem [THEN iffD1]) simp
  moreover have "unat (word_of_nat (limit - p) :: u32) = limit - p" using assms(1) by (simp add: unat_of_nat)
  ultimately show ?thesis using assms(2) by (simp add: entry_check_def word_less_nat_alt)
qed

text \<open>The header of an entry is decoded whatever its numbers are; they are then checked against the end of the entries.\<close>

lemma DecodeEntry_header:
  fixes n v :: u32
  assumes lim: "limit = length A + length (EncodeVarint32 s @ EncodeVarint32 n @ EncodeVarint32 v) + length R"
  shows "DecodeEntry (A @ EncodeVarint32 s @ EncodeVarint32 n @ EncodeVarint32 v @ R @ C) (length A) limit =
    entry_check (length A + length (EncodeVarint32 s @ EncodeVarint32 n @ EncodeVarint32 v)) limit s n v"
proof -
  let ?D = "A @ EncodeVarint32 s @ EncodeVarint32 n @ EncodeVarint32 v @ R @ C"
  let ?p = "length A + length (EncodeVarint32 s @ EncodeVarint32 n @ EncodeVarint32 v)"
  have ne: "1 \<le> length (EncodeVarint32 w)" for w by (simp add: EncodeVarint32_def Let_def)
  have l3: "\<not> limit < length A + 3" using ne [of s] ne [of n] ne [of v] unfolding lim by simp
  have slow: "do { (s, q) \<leftarrow> GetVarint32Ptr (take (limit - length A) (drop (length A) ?D)); (n, q) \<leftarrow> GetVarint32Ptr q;
      (v, q) \<leftarrow> GetVarint32Ptr q; entry_check (limit - length q) limit s n v } = entry_check ?p limit s n v"
  proof -
    have "take (limit - length A) (drop (length A) ?D) = EncodeVarint32 s @ EncodeVarint32 n @ EncodeVarint32 v @ R" unfolding lim by simp
    moreover have g: "GetVarint32Ptr (EncodeVarint32 w @ r) = Some (w, r)" for w r
      using varint32.decode_encode [of w r] by (simp add: GetVarint32Ptr_leb GetVarint32_leb)
    moreover have "limit - length R = ?p" unfolding lim by simp
    ultimately show ?thesis by simp
  qed
  show ?thesis
  proof (cases "\<exists>a b c. EncodeVarint32 s = [a] \<and> EncodeVarint32 n = [b] \<and> EncodeVarint32 v = [c]")
    case True
    then obtain a b c where abc: "EncodeVarint32 s = [a]" "EncodeVarint32 n = [b]" "EncodeVarint32 v = [c]" by blast
    then have u: "ucast a = s" "ucast b = n" "ucast c = v" "unat a < 128" "unat b < 128" "unat c < 128"
      using varint_cases [of s] varint_cases [of n] varint_cases [of v] by (metis list.inject list.distinct(1))+
    have "ucast (?D ! length A) = s" "ucast (?D ! (length A + 1)) = n" "ucast (?D ! (length A + 2)) = v"
      using u(1-3) by (simp_all add: abc nth_append)
    then show ?thesis using l3 abc u or3_less_128 [of s n v] unat_ucast_byte [of a] unat_ucast_byte [of b] unat_ucast_byte [of c]
      by (simp add: DecodeEntry_def Let_def numeral_3_eq_3)
  next
    case False
    have "\<not> ucast (?D ! length A) OR ucast (?D ! (length A + 1)) OR ucast (?D ! (length A + 2)) < (128 :: u32)"
      unfolding or3_less_128 unat_ucast_byte
    proof (cases rule: varint_cases [of s])
      case (1 a)
      show "\<not> (unat (?D ! length A) < 128 \<and> unat (?D ! (length A + 1)) < 128 \<and> unat (?D ! (length A + 2)) < 128)"
      proof (cases rule: varint_cases [of n])
        case b: (1 b)
        then obtain c d cs where "EncodeVarint32 v = c # d # cs" "128 \<le> unat c" using False 1 varint_cases [of v] by metis
        then show ?thesis using 1 b by (simp add: nth_append)
      qed (use 1 in \<open>simp add: nth_append\<close>)
    qed (simp add: nth_append)
    then show ?thesis unfolding DecodeEntry_def if_not_P [OF l3] Let_def using slow by simp
  qed
qed

lemma DecodeEntry_varints:
  fixes n v :: u32
  assumes lim: "limit = length A + length (EncodeVarint32 s @ EncodeVarint32 n @ EncodeVarint32 v) + length R" and "limit < 2 ^ 32"
    and "unat n + unat v \<le> length R"
  shows "DecodeEntry (A @ EncodeVarint32 s @ EncodeVarint32 n @ EncodeVarint32 v @ R @ C) (length A) limit =
    Some (length A + length (EncodeVarint32 s @ EncodeVarint32 n @ EncodeVarint32 v), s, n, v)"
  unfolding DecodeEntry_header [OF lim] using assms by (intro entry_check_ok) auto

section \<open>Well-formed blocks\<close>

definition off :: "ent list \<Rightarrow> nat \<Rightarrow> nat" where
  "off es i = length (concat (map enc_ent (take i es)))"

definition ekey :: "ent list \<Rightarrow> nat \<Rightarrow> slice" where "ekey es i = fst (snd (es ! i))"
definition ekeys :: "ent list \<Rightarrow> slice list" where "ekeys es = map (\<lambda>e. fst (snd e)) es"
definition evalue :: "ent list \<Rightarrow> nat \<Rightarrow> slice" where "evalue es i = snd (snd (es ! i))"
definition eshared :: "ent list \<Rightarrow> nat \<Rightarrow> nat" where "eshared es i = fst (es ! i)"

lemma ekeys_nth [simp]: "length (ekeys es) = length es" "i < length es \<Longrightarrow> ekeys es ! i = ekey es i"
  by (simp_all add: ekeys_def ekey_def)

text \<open>The shared prefixes are prefixes of the key before.\<close>

definition wf_ents :: "ent list \<Rightarrow> bool" where
  "wf_ents es \<longleftrightarrow> (\<forall>i<length es. eshared es i \<le> length (ekey es i) \<and>
     (if i = 0 then eshared es i = 0
      else eshared es i \<le> length (ekey es (i - 1)) \<and> take (eshared es i) (ekey es i) = take (eshared es i) (ekey es (i - 1))))"

definition block_bytes :: "ent list \<Rightarrow> nat list \<Rightarrow> byte list" where
  "block_bytes es rs = concat (map enc_ent es) @ concat (map (\<lambda>r. bytes_of_u32 (word_of_nat (off es r))) rs) @ bytes_of_u32 (word_of_nat (length rs))"

text \<open>\<open>rs\<close> are the indices of the entries at the restart points.\<close>

definition wf_block :: "ent list \<Rightarrow> nat list \<Rightarrow> bool" where
  "wf_block es rs \<longleftrightarrow> wf_ents es \<and> length (block_bytes es rs) < 2 ^ 32 \<and> rs \<noteq> [] \<and> rs ! 0 = 0 \<and> sorted_wrt (<) rs \<and>
     (\<forall>r\<in>set rs. r = 0 \<or> r < length es \<and> eshared es r = 0)"

lemma enc_ent_parts: "enc_ent (es ! i) = ent_head (es ! i) @ drop (eshared es i) (ekey es i) @ evalue es i"
  by (cases "es ! i") (simp add: enc_ent_def eshared_def ekey_def evalue_def)

lemma ent_head_parts: "ent_head (es ! i) = EncodeVarint32 (word_of_nat (eshared es i)) @
    EncodeVarint32 (word_of_nat (length (ekey es i) - eshared es i)) @ EncodeVarint32 (word_of_nat (length (evalue es i)))"
  by (cases "es ! i") (simp add: ent_head_def eshared_def ekey_def evalue_def)

lemma off_Suc: "i < length es \<Longrightarrow> off es (Suc i) = off es i + length (enc_ent (es ! i))"
  by (simp add: off_def take_Suc_conv_app_nth)

lemma off_0 [simp]: "off es 0 = 0"
  by (simp add: off_def)

lemma off_less: "i < j \<Longrightarrow> j \<le> length es \<Longrightarrow> off es i < off es j"
proof (induction j)
  case (Suc j)
  have "0 < length (enc_ent (es ! j))" by (simp add: enc_ent_parts ent_head_parts EncodeVarint32_def Let_def)
  then have "off es j < off es (Suc j)" using off_Suc [of j es] Suc.prems by linarith
  then show ?case using Suc by (cases "i = j") auto
qed simp

lemma off_less_iff: "i \<le> length es \<Longrightarrow> j \<le> length es \<Longrightarrow> off es i < off es j \<longleftrightarrow> i < j"
  using off_less [of i j es] off_less [of j i es] by (cases i j rule: linorder_cases) auto

lemma off_le_size: "i \<le> length es \<Longrightarrow> wf_block es rs \<Longrightarrow> off es i < 2 ^ 32"
proof -
  assume i: "i \<le> length es" and w: "wf_block es rs"
  have "off es i \<le> off es (length es)" using off_less [of i "length es" es] i by (cases "i = length es") auto
  moreover have "off es (length es) \<le> length (block_bytes es rs)" by (simp add: off_def block_bytes_def)
  ultimately show ?thesis using w by (simp add: wf_block_def)
qed

lemma rs_range: "wf_block es rs \<Longrightarrow> j < length rs \<Longrightarrow> rs ! j \<le> length es"
  unfolding wf_block_def using nth_mem [of j rs] by fastforce

definition over :: "ent list \<Rightarrow> nat list \<Rightarrow> block_iter \<Rightarrow> bool" where
  "over es rs it \<longleftrightarrow> bi_data it = block_bytes es rs \<and> bi_restarts it = off es (length es) \<and> bi_num it = length rs \<and> bi_status it = OK"

lemma GetRestartPoint_over:
  assumes "wf_block es rs" and "over es rs it" and "j < length rs"
  shows "GetRestartPoint it j = Some (off es (rs ! j))"
proof -
  let ?f = "\<lambda>r. bytes_of_u32 (word_of_nat (off es r))"
  have len: "length (concat (map ?f rs)) = 4 * length rs" by (rule length_chunks) simp
  have "length (concat (map enc_ent es)) = off es (length es)" by (simp add: off_def)
  then have "drop (off es (length es) + j * 4) (block_bytes es rs) = drop (j * 4) (concat (map ?f rs)) @ bytes_of_u32 (word_of_nat (length rs))"
    using assms(3) len by (simp add: block_bytes_def)
  also have "\<dots> = ?f (rs ! j) @ concat (map ?f (drop (Suc j) rs)) @ bytes_of_u32 (word_of_nat (length rs))"
    using drop_chunks [of ?f j rs] Cons_nth_drop_Suc [OF assms(3), symmetric] by simp
  finally have "DecodeFixed32 True (drop (off es (length es) + j * 4) (block_bytes es rs)) = word_of_nat (off es (rs ! j))"
    by (simp add: DecodeFixed32_bytes)
  moreover have "unat (word_of_nat (off es (rs ! j)) :: u32) = off es (rs ! j)"
    using off_le_size [OF rs_range [OF assms(1,3)] assms(1)] by (simp add: unat_of_nat)
  moreover have "off es (length es) + j * 4 + 4 \<le> length (block_bytes es rs)"
    using assms(3) len by (simp add: block_bytes_def off_def)
  ultimately show ?thesis using assms(2,3) by (simp add: GetRestartPoint_def over_def)
qed

lemma block_split:
  assumes "i < length es"
  shows "\<exists>C. concat (map enc_ent es) = concat (map enc_ent (take i es)) @ ent_head (es ! i) @ drop (eshared es i) (ekey es i) @ evalue es i @
      concat (map enc_ent (drop (Suc i) es)) \<and>
    block_bytes es rs = concat (map enc_ent (take i es)) @ ent_head (es ! i) @ (drop (eshared es i) (ekey es i) @ evalue es i @
      concat (map enc_ent (drop (Suc i) es))) @ C"
proof -
  have "concat (map enc_ent es) = concat (map enc_ent (take i es @ es ! i # drop (Suc i) es))" using id_take_nth_drop [OF assms] by simp
  then have "concat (map enc_ent es) = concat (map enc_ent (take i es)) @ ent_head (es ! i) @ drop (eshared es i) (ekey es i) @ evalue es i @
      concat (map enc_ent (drop (Suc i) es))" by (simp add: enc_ent_parts)
  then show ?thesis by (simp add: block_bytes_def)
qed

lemma key_length: "wf_ents es \<Longrightarrow> i < length es \<Longrightarrow> length (ekey es i) \<le> off es (Suc i)"
proof (induction i)
  case 0
  then have "eshared es 0 = 0" by (auto simp: wf_ents_def)
  then show ?case using off_Suc [of 0 es] "0.prems" by (simp add: enc_ent_parts)
next
  case (Suc i)
  then have "eshared es (Suc i) \<le> length (ekey es i)" unfolding wf_ents_def by force
  then show ?case using Suc off_Suc [of "Suc i" es] by (simp add: enc_ent_parts)
qed

lemma DecodeEntry_over:
  assumes w: "wf_block es rs" and i: "i < length es"
  shows "DecodeEntry (block_bytes es rs) (off es i) (off es (length es)) =
      Some (off es i + length (ent_head (es ! i)), word_of_nat (eshared es i), word_of_nat (length (ekey es i) - eshared es i), word_of_nat (length (evalue es i)))"
    and "\<exists>C. drop (off es i + length (ent_head (es ! i))) (block_bytes es rs) = drop (eshared es i) (ekey es i) @ evalue es i @ C"
    and "off es i + length (ent_head (es ! i)) + (length (ekey es i) - eshared es i) + length (evalue es i) = off es (Suc i)"
    and "off es (Suc i) \<le> length (block_bytes es rs)"
    and "unat (word_of_nat (eshared es i) :: u32) = eshared es i"
    and "unat (word_of_nat (length (ekey es i) - eshared es i) :: u32) = length (ekey es i) - eshared es i"
    and "unat (word_of_nat (length (evalue es i)) :: u32) = length (evalue es i)"
proof -
  obtain C where C: "concat (map enc_ent es) = concat (map enc_ent (take i es)) @ ent_head (es ! i) @ drop (eshared es i) (ekey es i) @ evalue es i @
      concat (map enc_ent (drop (Suc i) es))"
    "block_bytes es rs = concat (map enc_ent (take i es)) @ ent_head (es ! i) @ (drop (eshared es i) (ekey es i) @ evalue es i @
      concat (map enc_ent (drop (Suc i) es))) @ C" using block_split [OF i] by blast
  have n: "off es (length es) = off es i + length (ent_head (es ! i)) + length (drop (eshared es i) (ekey es i) @ evalue es i @ concat (map enc_ent (drop (Suc i) es)))"
    using arg_cong [OF C(1), of length] by (simp add: off_def)
  have sz: "off es (length es) < 2 ^ 32" by (rule off_le_size [OF le_refl w])
  show "off es i + length (ent_head (es ! i)) + (length (ekey es i) - eshared es i) + length (evalue es i) = off es (Suc i)"
    using off_Suc [OF i] by (simp add: enc_ent_parts)
  show "off es (Suc i) \<le> length (block_bytes es rs)"
    using off_less_iff [of "length es" es "Suc i"] i by (simp add: block_bytes_def off_def [of es "length es"])
  show un: "unat (word_of_nat (length (ekey es i) - eshared es i) :: u32) = length (ekey es i) - eshared es i"
    "unat (word_of_nat (length (evalue es i)) :: u32) = length (evalue es i)" using n sz by (simp_all add: unat_of_nat)
  have "off es (Suc i) < 2 ^ 32" by (rule off_le_size [OF _ w]) (use i in simp)
  then have "eshared es i < 2 ^ 32" using key_length [of es i] i w unfolding wf_block_def wf_ents_def by fastforce
  then show "unat (word_of_nat (eshared es i) :: u32) = eshared es i" by (simp add: unat_of_nat)
  show "\<exists>C. drop (off es i + length (ent_head (es ! i))) (block_bytes es rs) = drop (eshared es i) (ekey es i) @ evalue es i @ C"
    unfolding C(2) by (simp add: off_def)
  let ?R = "drop (eshared es i) (ekey es i) @ evalue es i @ concat (map enc_ent (drop (Suc i) es))"
  have lim: "off es (length es) = length (concat (map enc_ent (take i es))) + length (ent_head (es ! i)) + length ?R" using n by (simp add: off_def)
  from DecodeEntry_varints [OF lim [unfolded ent_head_parts] sz, of C] un
  show "DecodeEntry (block_bytes es rs) (off es i) (off es (length es)) =
      Some (off es i + length (ent_head (es ! i)), word_of_nat (eshared es i), word_of_nat (length (ekey es i) - eshared es i), word_of_nat (length (evalue es i)))"
    unfolding C(2) off_def [of es i] ent_head_parts append_assoc by simp
qed

section \<open>The iterator over a well-formed block\<close>

text \<open>The iterator is about to parse entry \<open>i\<close>; it is at entry \<open>i\<close>, or at the end if \<open>i\<close> is the number of entries.\<close>

definition before_ent :: "ent list \<Rightarrow> nat list \<Rightarrow> block_iter \<Rightarrow> nat \<Rightarrow> bool" where
  "before_ent es rs it i \<longleftrightarrow> over es rs it \<and> i \<le> length es \<and> NextEntryOffset it = off es i \<and>
     (i < length es \<longrightarrow> eshared es i \<le> length (bi_key it) \<and> take (eshared es i) (bi_key it) = take (eshared es i) (ekey es i)) \<and>
     bi_index it < length rs \<and> rs ! bi_index it \<le> i"

definition at_ent :: "ent list \<Rightarrow> nat list \<Rightarrow> block_iter \<Rightarrow> nat \<Rightarrow> bool" where
  "at_ent es rs it i \<longleftrightarrow> over es rs it \<and>
     (if i < length es then bi_current it = off es i \<and> bi_key it = ekey es i \<and> NextEntryOffset it = off es (Suc i) \<and> bi_vlen it = length (evalue es i) \<and>
        bi_index it < length rs \<and> rs ! bi_index it \<le> i \<and> (\<forall>j<length rs. bi_index it < j \<longrightarrow> i \<le> rs ! j)
      else i = length es \<and> bi_current it = off es (length es) \<and> bi_index it = length rs)"

lemma rs_mono: "wf_block es rs \<Longrightarrow> j < length rs \<Longrightarrow> i < j \<Longrightarrow> rs ! i < rs ! j"
  unfolding wf_block_def by (auto simp: sorted_wrt_iff_nth_less)

lemma advance_index_frame: "advance_index it = Some it' \<Longrightarrow> \<exists>i. it' = it\<lparr>bi_index := i\<rparr>"
proof (induction it rule: advance_index.induct)
  case (1 it)
  note step = "1.prems" [unfolded advance_index.simps [of it]]
  show ?case
  proof (cases "it' = it")
    case True
    then show ?thesis by (intro exI [of _ "bi_index it"]) simp
  next
    case False
    then have "bi_index it + 1 < bi_num it" using step by (auto split: if_splits)
    moreover from this False step obtain r where "GetRestartPoint it (bi_index it + 1) = Some r" "r < bi_current it" "advance_index (it\<lparr>bi_index := bi_index it + 1\<rparr>) = Some it'"
      by (auto simp: bind_eq_Some_conv split: if_splits)
    ultimately show ?thesis using "1.IH" by fastforce
  qed
qed

lemma advance_index_over:
  assumes "wf_block es rs" and "over es rs it" and "bi_current it = off es i" and "i < length es" and "bi_index it < length rs" and "rs ! bi_index it \<le> i"
  shows "\<exists>j. advance_index it = Some (it\<lparr>bi_index := j\<rparr>) \<and> j < length rs \<and> rs ! j \<le> i \<and> (\<forall>k<length rs. j < k \<longrightarrow> i \<le> rs ! k)"
  using assms(2-)
proof (induction it rule: advance_index.induct)
  case (1 it)
  show ?case
  proof (cases "bi_index it + 1 < length rs")
    case True
    have g: "GetRestartPoint it (bi_index it + 1) = Some (off es (rs ! (bi_index it + 1)))" by (rule GetRestartPoint_over [OF assms(1) "1.prems"(1) True])
    have n: "bi_num it = length rs" using "1.prems"(1) by (simp add: over_def)
    have cmp: "off es (rs ! (bi_index it + 1)) < bi_current it \<longleftrightarrow> rs ! (bi_index it + 1) < i"
      using off_less_iff [of "rs ! (bi_index it + 1)" es i] rs_range [OF assms(1) True] "1.prems"(2,3) by simp
    show ?thesis
    proof (cases "rs ! (bi_index it + 1) < i")
      case less: True
      from "1.IH" [OF _ g] obtain j where "advance_index (it\<lparr>bi_index := bi_index it + 1\<rparr>) = Some (it\<lparr>bi_index := j\<rparr>)" "j < length rs" "rs ! j \<le> i"
          "\<forall>k<length rs. j < k \<longrightarrow> i \<le> rs ! k"
        using True less cmp n "1.prems" by (auto simp: over_def)
      then show ?thesis using True less cmp g n by (subst advance_index.simps) auto
    next
      case False
      have "i \<le> rs ! k" if "k < length rs" "bi_index it < k" for k
        using rs_mono [OF assms(1) that(1), of "bi_index it + 1"] False that by (cases "k = bi_index it + 1") auto
      then show ?thesis using False True cmp g n "1.prems" by (subst advance_index.simps) (auto intro: exI [of _ "bi_index it"])
    qed
  next
    case False
    then have n: "\<not> bi_index it + 1 < bi_num it" using "1.prems"(1) by (simp add: over_def)
    then show ?thesis using False "1.prems"(4,5) by (subst advance_index.simps) (auto intro: exI [of _ "bi_index it"])
  qed
qed

lemma ParseNextKey_entry:
  assumes w: "wf_block es rs" and b: "before_ent es rs it i" and i: "i < length es"
  shows "\<exists>it'. ParseNextKey it = Some (True, it') \<and> at_ent es rs it' i"
proof -
  have B: "over es rs it" "NextEntryOffset it = off es i" "eshared es i \<le> length (bi_key it)" "take (eshared es i) (bi_key it) = take (eshared es i) (ekey es i)"
    "bi_index it < length rs" "rs ! bi_index it \<le> i" using b i unfolding before_ent_def by auto
  have O: "bi_data it = block_bytes es rs" "bi_restarts it = off es (length es)" "bi_num it = length rs" using B(1) unfolding over_def by auto
  note D = DecodeEntry_over [OF w i]
  have lt: "off es i < off es (length es)" using off_less [of i "length es" es] i by simp
  have m: "off es i mod 2 ^ 32 = off es i" using off_le_size [of i es rs] i w by simp
  define it1 where "it1 = it\<lparr>bi_current := off es i, bi_key := ekey es i,
      bi_vpos := off es i + length (ent_head (es ! i)) + (length (ekey es i) - eshared es i), bi_vlen := length (evalue es i)\<rparr>"
  have "eshared es i \<le> length (ekey es i)" using w i unfolding wf_block_def wf_ents_def by blast
  obtain C where C: "drop (off es i + length (ent_head (es ! i))) (block_bytes es rs) = drop (eshared es i) (ekey es i) @ evalue es i @ C" using D(2) by blast
  have key: "take (eshared es i) (bi_key it) @ take (length (ekey es i) - eshared es i) (drop (off es i + length (ent_head (es ! i))) (block_bytes es rs)) = ekey es i"
    unfolding C B(4) by simp
  have "over es rs it1" using B(1) unfolding over_def it1_def by simp
  then obtain j where j: "advance_index it1 = Some (it1\<lparr>bi_index := j\<rparr>)" "j < length rs" "rs ! j \<le> i" "\<forall>k<length rs. j < k \<longrightarrow> i \<le> rs ! k"
    using advance_index_over [OF w, of it1 i] i B(5,6) by (auto simp: it1_def)
  have "ParseNextKey it = Some (True, it1\<lparr>bi_index := j\<rparr>)"
    unfolding ParseNextKey_def B(2) m Let_def
    using lt B(3) D(1,3-7) j(1) key by (simp add: O it1_def)
  moreover have "at_ent es rs (it1\<lparr>bi_index := j\<rparr>) i"
    using \<open>over es rs it1\<close> i j D(3) unfolding at_ent_def by (simp add: it1_def over_def NextEntryOffset_def)
  ultimately show ?thesis by blast
qed

lemma ParseNextKey_end:
  assumes w: "wf_block es rs" and b: "before_ent es rs it (length es)"
  shows "\<exists>it'. ParseNextKey it = Some (False, it') \<and> at_ent es rs it' (length es)"
proof -
  have B: "over es rs it" "NextEntryOffset it = off es (length es)" using b unfolding before_ent_def by auto
  have m: "off es (length es) mod 2 ^ 32 = off es (length es)" using off_le_size [of "length es" es rs] w by simp
  show ?thesis unfolding ParseNextKey_def B(2) m Let_def using B(1) by (simp add: at_ent_def over_def)
qed

lemma at_ent_before_next:
  assumes "wf_block es rs" and "at_ent es rs it i" and "i < length es"
  shows "before_ent es rs it (Suc i)"
proof -
  have "Suc i < length es \<Longrightarrow> eshared es (Suc i) \<le> length (ekey es i) \<and> take (eshared es (Suc i)) (ekey es i) = take (eshared es (Suc i)) (ekey es (Suc i))"
    using assms(1) unfolding wf_block_def wf_ents_def by (metis diff_Suc_1 nat.simps(3))
  then show ?thesis using assms(2,3) unfolding at_ent_def before_ent_def by simp
qed

lemma ParseNextKey_over:
  assumes "wf_block es rs" and "before_ent es rs it i"
  shows "\<exists>it'. ParseNextKey it = Some (i < length es, it') \<and> at_ent es rs it' i"
  using ParseNextKey_entry [OF assms] ParseNextKey_end [OF assms(1)] assms(2) by (cases "i < length es") (auto simp: before_ent_def)

lemma SeekToRestartPoint_over:
  assumes w: "wf_block es rs" and "over es rs it" and "j < length rs"
  shows "\<exists>it'. SeekToRestartPoint j it = Some it' \<and> before_ent es rs it' (rs ! j)"
proof -
  have sh: "eshared es (rs ! j) = 0" if "rs ! j < length es"
    using w that assms(3) unfolding wf_block_def wf_ents_def by (metis nth_mem)
  then show ?thesis using assms rs_range [OF w assms(3)] GetRestartPoint_over [OF assms]
    by (simp add: SeekToRestartPoint_def before_ent_def over_def NextEntryOffset_def)
qed

text \<open>The loops.\<close>

lemma parse_until_over:
  assumes "wf_block es rs" and "before_ent es rs it k" and "k < i" and "i \<le> length es"
  shows "\<exists>it'. parse_until (off es i) it = Some it' \<and> at_ent es rs it' (i - 1)"
  using assms(2,3)
proof (induction "i - k" arbitrary: k it)
  case (Suc d)
  then have k: "k < length es" using assms(4) by linarith
  obtain it' where it': "ParseNextKey it = Some (True, it')" "at_ent es rs it' k" using ParseNextKey_over [OF assms(1) Suc.prems(1)] k by auto
  have n: "NextEntryOffset it' = off es (Suc k)" using it'(2) k unfolding at_ent_def by simp
  have cmp: "off es (Suc k) < off es i \<longleftrightarrow> Suc k < i" using off_less_iff k assms(4) by simp
  show ?case
  proof (cases "Suc k < i")
    case True
    then have "parse_until (off es i) it = parse_until (off es i) it'" using it'(1) n cmp by (subst parse_until.simps) simp
    then show ?thesis using Suc.hyps(1) [of "Suc k" it'] at_ent_before_next [OF assms(1) it'(2) k] True Suc.hyps(2) by simp
  next
    case False
    then have "i = Suc k" using Suc.prems(2) by simp
    then show ?thesis using it' n cmp by (subst parse_until.simps) simp
  qed
qed simp

lemma restart_before_over:
  assumes w: "wf_block es rs" and o: "over es rs it" and "0 < i" and "i \<le> length es" and "j < length rs" and "\<forall>k<length rs. j < k \<longrightarrow> i \<le> rs ! k"
  shows "\<exists>j'<length rs. restart_before it (off es i) j = Some (Some j') \<and> rs ! j' < i"
  using assms(5,6)
proof (induction j)
  case 0
  have "rs ! 0 = 0" using w unfolding wf_block_def by blast
  then have "GetRestartPoint it 0 = Some 0" using GetRestartPoint_over [OF w o "0.prems"(1)] by simp
  moreover have "0 < off es i" using off_less [of 0 i es] assms(3,4) by simp
  ultimately show ?case using "0.prems" assms(3) \<open>rs ! 0 = 0\<close> by (subst restart_before.simps) auto
next
  case (Suc j)
  have g: "GetRestartPoint it (Suc j) = Some (off es (rs ! Suc j))" by (rule GetRestartPoint_over [OF w o Suc.prems(1)])
  have cmp: "off es (rs ! Suc j) \<ge> off es i \<longleftrightarrow> i \<le> rs ! Suc j" using off_less_iff [OF rs_range [OF w Suc.prems(1)] assms(4)] by linarith
  show ?case
  proof (cases "i \<le> rs ! Suc j")
    case True
    then have "\<forall>k<length rs. j < k \<longrightarrow> i \<le> rs ! k" using Suc.prems(2) by (metis Suc_lessI)
    then obtain j' where "j' < length rs" "restart_before it (off es i) j = Some (Some j')" "rs ! j' < i" using Suc.IH Suc.prems(1) by auto
    then show ?thesis using True g cmp by (subst restart_before.simps) auto
  next
    case False
    then show ?thesis using g cmp Suc.prems(1) by (subst restart_before.simps) auto
  qed
qed

section \<open>The iterator is a cursor\<close>

definition bi_item :: "block_iter \<Rightarrow> (slice \<times> slice) option" where
  "bi_item it = Option.bind (bi_key_of it) (\<lambda>k. map_option (Pair k) (bi_value it))"

lemma at_ent_end: "wf_block es rs \<Longrightarrow> over es rs it \<Longrightarrow> at_ent es rs (it\<lparr>bi_current := bi_restarts it, bi_index := bi_num it\<rparr>) (length es)"
  by (simp add: at_ent_def over_def)

lemma block_cursor:
  assumes w: "wf_block es rs"
  shows "cursor (map snd es) (at_ent es rs) bi_Valid bi_item bi_Next bi_Prev"
proof
  fix it i
  assume a: "at_ent es rs it i"
  have o: "over es rs it" using a unfolding at_ent_def by blast
  have R: "bi_restarts it = off es (length es)" "bi_data it = block_bytes es rs" using o unfolding over_def by auto
  show v: "i \<le> length (map snd es) \<and> (bi_Valid it \<longleftrightarrow> i < length (map snd es))"
    using a off_less [of i "length es" es] by (cases "i < length es") (auto simp: at_ent_def bi_Valid_def R)
  assume "i < length (map snd es)"
  then have i: "i < length es" by simp
  note A = a [unfolded at_ent_def, THEN conjunct2, simplified i if_True]
  obtain C where C: "drop (off es i + length (ent_head (es ! i))) (block_bytes es rs) = drop (eshared es i) (ekey es i) @ evalue es i @ C"
    using DecodeEntry_over(2) [OF w i] by blast
  have p: "bi_vpos it = off es i + length (ent_head (es ! i)) + (length (ekey es i) - eshared es i)"
    using A DecodeEntry_over(3) [OF w i] by (simp add: NextEntryOffset_def)
  have "drop (bi_vpos it) (block_bytes es rs) = evalue es i @ C"
    unfolding p using arg_cong [OF C, of "drop (length (ekey es i) - eshared es i)"] by (simp add: ac_simps)
  moreover have "bi_vpos it + bi_vlen it \<le> length (block_bytes es rs)" using A DecodeEntry_over(4) [OF w i] by (simp add: NextEntryOffset_def)
  ultimately show "bi_item it = Some (map snd es ! i)"
    using v i A by (simp add: bi_item_def bi_key_of_def bi_value_def R ekey_def evalue_def)
  show "\<exists>it'. bi_Next it = Some it' \<and> at_ent es rs it' (i + 1)"
    using ParseNextKey_over [OF w at_ent_before_next [OF w a i]] v i by (auto simp: bi_Next_def)
  show "\<exists>it'. bi_Prev it = Some it' \<and> at_ent es rs it' (if i = 0 then length (map snd es) else i - 1)"
  proof (cases "i = 0")
    case True
    have "rs ! 0 = 0" and ne: "0 < length rs" using w unfolding wf_block_def by auto
    have "GetRestartPoint it 0 = Some 0" using GetRestartPoint_over [OF w o ne] \<open>rs ! 0 = 0\<close> by simp
    moreover have "bi_index it = 0" using A True \<open>rs ! 0 = 0\<close> rs_mono [OF w, of "bi_index it" 0] by (cases "bi_index it") auto
    ultimately have "restart_before it (bi_current it) (bi_index it) = Some None" using A True by (subst restart_before.simps) simp
    then show ?thesis using v i True at_ent_end [OF w o] by (simp add: bi_Prev_def)
  next
    case False
    obtain j where j: "j < length rs" "restart_before it (off es i) (bi_index it) = Some (Some j)" "rs ! j < i"
      using restart_before_over [OF w o, of i "bi_index it"] A i False by auto
    obtain it1 where it1: "SeekToRestartPoint j it = Some it1" "before_ent es rs it1 (rs ! j)" using SeekToRestartPoint_over [OF w o j(1)] by blast
    show ?thesis using parse_until_over [OF w it1(2) j(3)] it1(1) j(2) A i v False by (auto simp: bi_Prev_def)
  qed
qed

lemma bi_SeekToFirst_over:
  assumes w: "wf_block es rs" and o: "over es rs it"
  shows "\<exists>it'. bi_SeekToFirst it = Some it' \<and> at_ent es rs it' 0"
proof -
  have r: "0 < length rs" "rs ! 0 = 0" using w unfolding wf_block_def by auto
  obtain it1 where "SeekToRestartPoint 0 it = Some it1" "before_ent es rs it1 0" using SeekToRestartPoint_over [OF w o r(1)] r(2) by auto
  then show ?thesis using ParseNextKey_over [OF w, of it1 0] by (auto simp: bi_SeekToFirst_def)
qed

lemma bi_SeekToLast_over:
  assumes w: "wf_block es rs" and o: "over es rs it"
  shows "\<exists>it'. bi_SeekToLast it = Some it' \<and> at_ent es rs it' (length es - 1)"
proof -
  let ?j = "length rs - 1"
  have j: "?j < length rs" using w unfolding wf_block_def by simp
  obtain it1 where it1: "SeekToRestartPoint ?j it = Some it1" "before_ent es rs it1 (rs ! ?j)" using SeekToRestartPoint_over [OF w o j] by auto
  have R: "bi_restarts it = off es (length es)" "bi_num it = length rs" using o unfolding over_def by auto
  show ?thesis
  proof (cases "rs ! ?j < length es")
    case True
    then show ?thesis using parse_until_over [OF w it1(2) True] it1(1) by (simp add: bi_SeekToLast_def R)
  next
    case False
    then have "rs ! ?j = 0" using w nth_mem [OF j] unfolding wf_block_def by blast
    then have "es = []" using False by simp
    obtain it2 where "ParseNextKey it1 = Some (False, it2)" "at_ent es rs it2 0"
      using ParseNextKey_over [OF w it1(2)] unfolding \<open>rs ! ?j = 0\<close> \<open>es = []\<close> by auto
    then show ?thesis using it1(1) \<open>es = []\<close> by (simp add: bi_SeekToLast_def R parse_until.simps [of _ it1])
  qed
qed

lemma seek_search_over:
  assumes w: "wf_block es rs" and o: "over es rs it" and "right < length rs" and "left \<le> right" and "left = 0 \<or> cmp (ekey es (rs ! left)) t < 0"
  shows "\<exists>j<length rs. seek_search cmp it t left right = Some (Some j) \<and> (j = 0 \<or> cmp (ekey es (rs ! j)) t < 0)"
  using assms(3-)
proof (induction "right - left" arbitrary: left right rule: less_induct)
  case less
  show ?case
  proof (cases "left < right")
    case True
    define m where "m = (left + right + 1) div 2"
    have m: "left < m" "m \<le> right" "m < length rs" using True less.prems(1) by (auto simp: m_def)
    have r: "rs ! m < length es" "eshared es (rs ! m) = 0" "0 < rs ! m"
      using w rs_mono [OF w m(3), of 0] m(1) nth_mem [OF m(3)] unfolding wf_block_def by auto
    have O: "bi_data it = block_bytes es rs" "bi_restarts it = off es (length es)" using o unfolding over_def by auto
    note D = DecodeEntry_over [OF w r(1), unfolded r(2)]
    obtain C where C: "drop (off es (rs ! m) + length (ent_head (es ! (rs ! m)))) (block_bytes es rs) = ekey es (rs ! m) @ evalue es (rs ! m) @ C"
      using D(2) by auto
    have step: "seek_search cmp it t left right =
        (if cmp (ekey es (rs ! m)) t < 0 then seek_search cmp it t m right else seek_search cmp it t left (m - 1))"
      using True GetRestartPoint_over [OF w o m(3)] D(1,3,4,6) C
      unfolding seek_search.simps [of cmp it t left right] Let_def m_def [symmetric] by (simp add: O)
    show ?thesis
    proof (cases "cmp (ekey es (rs ! m)) t < 0")
      case True
      then show ?thesis using less.hyps [of right m] m less.prems step by auto
    next
      case False
      then show ?thesis using less.hyps [of "m - 1" left] m less.prems step by auto
    qed
  next
    case False
    then show ?thesis using less.prems by (subst seek_search.simps) auto
  qed
qed

lemma seek_linear_over:
  assumes T: "three_way legal cmp" and w: "wf_block es rs" and "before_ent es rs it k" and "k \<le> rank cmp t (ekeys es)"
  shows "\<exists>it'. seek_linear cmp t it = Some it' \<and> at_ent es rs it' (rank cmp t (ekeys es))"
  using assms(3,4)
proof (induction "rank cmp t (ekeys es) - k" arbitrary: k it)
  case 0
  let ?r = "rank cmp t (ekeys es)"
  have k: "k = ?r" using 0 by simp
  obtain it' where it': "ParseNextKey it = Some (k < length es, it')" "at_ent es rs it' k" using ParseNextKey_over [OF w "0.prems"(1)] by blast
  moreover have "bi_key it' = ekey es k \<and> \<not> cmp (ekey es k) t < 0" if "k < length es"
    using it'(2) that three_way.rank_not_before [OF T, of t "ekeys es"] k unfolding at_ent_def by simp
  ultimately show ?case using k by (subst seek_linear.simps) auto
next
  case (Suc d)
  let ?r = "rank cmp t (ekeys es)"
  have k: "k < ?r" "?r \<le> length es" using Suc.hyps(2) length_takeWhile_le [of _ "ekeys es"] by (auto simp: rank_def)
  then have kl: "k < length es" by linarith
  obtain it' where it': "ParseNextKey it = Some (True, it')" "at_ent es rs it' k" using ParseNextKey_over [OF w Suc.prems(1)] kl by auto
  have "bi_key it' = ekey es k" "cmp (ekey es k) t < 0"
    using it'(2) kl three_way.before_rank [OF T k(1)] unfolding at_ent_def by simp_all
  then have "seek_linear cmp t it = seek_linear cmp t it'" using it'(1) by (subst seek_linear.simps) simp
  moreover have "d = ?r - Suc k" using Suc.hyps(2) by simp
  ultimately show ?case using Suc.hyps(1) [OF _ at_ent_before_next [OF w it'(2) kl]] k(1) by simp
qed

lemma bi_Seek_over:
  assumes T: "three_way legal cmp" and w: "wf_block es rs" and o: "over es rs it" and t: "legal t"
    and s: "sorted_wrt (\<lambda>a b. cmp a b < 0) (ekeys es)" and l: "\<forall>x\<in>set (ekeys es). legal x"
  shows "\<exists>it'. bi_Seek cmp t it = Some it' \<and> at_ent es rs it' (rank cmp t (ekeys es))"
proof -
  have r: "length rs - 1 < length rs" "rs ! 0 = 0" "bi_num it = length rs" using w o unfolding wf_block_def over_def by auto
  obtain j where j: "j < length rs" "seek_search cmp it t 0 (length rs - 1) = Some (Some j)" "j = 0 \<or> cmp (ekey es (rs ! j)) t < 0"
    using seek_search_over [OF w o r(1), of 0 cmp t] by auto
  obtain it1 where it1: "SeekToRestartPoint j it = Some it1" "before_ent es rs it1 (rs ! j)" using SeekToRestartPoint_over [OF w o j(1)] by auto
  have "rs ! j \<le> rank cmp t (ekeys es)"
  proof (cases "j = 0 \<or> rs ! j = 0")
    case False
    then have "rs ! j < length es" using w nth_mem [OF j(1)] unfolding wf_block_def by auto
    then show ?thesis using three_way.rank_greater [OF T s l t, of "rs ! j"] False j(3) by simp
  qed (use r in auto)
  then show ?thesis using seek_linear_over [OF T w it1(2)] it1(1) j(2) r(3) by (simp add: bi_Seek_def)
qed

section \<open>The builder\<close>

lemma common_prefix_take: "take (common_prefix a b) a = take (common_prefix a b) b"
  by (induction a b rule: common_prefix.induct) auto

fun add_entries :: "(slice \<Rightarrow> slice \<Rightarrow> int) \<Rightarrow> (slice \<times> slice) list \<Rightarrow> block_builder \<Rightarrow> block_builder option" where
  "add_entries cmp [] b = Some b"
| "add_entries cmp ((k, v) # kvs) b = Option.bind (bb_Add cmp k v b) (add_entries cmp kvs)"

text \<open>The builder holds the entries \<open>es\<close> with restart points \<open>rs\<close>.\<close>

definition building :: "block_builder \<Rightarrow> ent list \<Rightarrow> nat list \<Rightarrow> bool" where
  "building b es rs \<longleftrightarrow> bb_buffer b = concat (map enc_ent es) \<and> bb_restarts b = map (\<lambda>r. word_of_nat (off es r)) rs \<and>
     \<not> bb_finished b \<and> 1 \<le> bb_interval b \<and> bb_counter b \<le> bb_interval b \<and> wf_ents es \<and>
     rs \<noteq> [] \<and> rs ! 0 = 0 \<and> sorted_wrt (<) rs \<and> (\<forall>r\<in>set rs. r = 0 \<or> r < length es \<and> eshared es r = 0) \<and>
     last rs + bb_counter b = length es \<and> bb_last_key b = (if es = [] then [] else ekey es (length es - 1))"

lemma off_append: "i \<le> length es \<Longrightarrow> off (es @ [e]) i = off es i"
  by (simp add: off_def)

lemma ent_append: "i < length es \<Longrightarrow> ekey (es @ [e]) i = ekey es i" "i < length es \<Longrightarrow> eshared (es @ [e]) i = eshared es i"
  "ekey (es @ [e]) (length es) = fst (snd e)" "eshared (es @ [e]) (length es) = fst e"
  by (simp_all add: ekey_def eshared_def nth_append)

lemma wf_ents_append:
  assumes "wf_ents es" and "sh \<le> length k" and "es = [] \<Longrightarrow> sh = 0"
    and "es \<noteq> [] \<Longrightarrow> sh \<le> length (ekey es (length es - 1)) \<and> take sh k = take sh (ekey es (length es - 1))"
  shows "wf_ents (es @ [(sh, k, v)])"
  unfolding wf_ents_def
proof (intro allI impI)
  fix i
  assume "i < length (es @ [(sh, k, v)])"
  then consider "i < length es" | "i = length es" by fastforce
  then show "eshared (es @ [(sh, k, v)]) i \<le> length (ekey (es @ [(sh, k, v)]) i) \<and>
      (if i = 0 then eshared (es @ [(sh, k, v)]) i = 0
       else eshared (es @ [(sh, k, v)]) i \<le> length (ekey (es @ [(sh, k, v)]) (i - 1)) \<and>
         take (eshared (es @ [(sh, k, v)]) i) (ekey (es @ [(sh, k, v)]) i) = take (eshared (es @ [(sh, k, v)]) i) (ekey (es @ [(sh, k, v)]) (i - 1)))"
  proof cases
    case 1
    then have "i - 1 < length es" by simp
    then show ?thesis using 1 assms(1) unfolding wf_ents_def ent_append(1,2) [OF 1] ent_append(1) [OF \<open>i - 1 < length es\<close>] by blast
  next
    case 2
    then show ?thesis using assms(2-) by (cases "es = []") (simp_all add: ent_append, simp add: eshared_def ekey_def)
  qed
qed

lemma sorted_last: "sorted_wrt (<) rs \<Longrightarrow> r \<in> set rs \<Longrightarrow> r \<le> last rs" for rs :: "nat list"
  by (induction rs) (auto intro: less_imp_le)

lemma bb_Add_eq:
  assumes b: "building b es rs" and ord: "es \<noteq> [] \<Longrightarrow> cmp k (ekey es (length es - 1)) > 0"
    and sh: "sh = (if bb_counter b < bb_interval b then common_prefix (bb_last_key b) k else 0)"
  shows "bb_Add cmp k v b = Some ((if bb_counter b < bb_interval b then b
        else b\<lparr>bb_restarts := bb_restarts b @ [word_of_nat (off es (length es))], bb_counter := 0\<rparr>)
      \<lparr>bb_buffer := concat (map enc_ent (es @ [(sh, k, v)])), bb_last_key := k,
       bb_counter := (if bb_counter b < bb_interval b then bb_counter b + 1 else 1)\<rparr>)"
    and "sh \<le> length k" and "sh \<le> length (bb_last_key b)" and "take sh (bb_last_key b) = take sh k"
proof -
  note B = b [unfolded building_def]
  show cp: "sh \<le> length k" "sh \<le> length (bb_last_key b)" "take sh (bb_last_key b) = take sh k"
    using common_prefix_le [of "bb_last_key b" k] common_prefix_take [of "bb_last_key b" k] by (auto simp: sh)
  have g: "\<not> (bb_finished b \<or> bb_interval b < bb_counter b \<or> bb_buffer b \<noteq> [] \<and> \<not> cmp k (bb_last_key b) > 0)" using B ord by auto
  have o: "off es (length es) = length (bb_buffer b)" using B by (simp add: off_def)
  have e: "PutVarint32 (PutVarint32 (PutVarint32 (bb_buffer b) (word_of_nat sh)) (word_of_nat (length k - sh))) (word_of_nat (length v)) @ drop sh k @ v =
      concat (map enc_ent (es @ [(sh, k, v)]))" using B by (simp add: PutVarint32_def enc_ent_def ent_head_def)
  have key: "take sh (bb_last_key b) @ drop sh k = k" using cp(3) by simp
  show "bb_Add cmp k v b = Some ((if bb_counter b < bb_interval b then b
        else b\<lparr>bb_restarts := bb_restarts b @ [word_of_nat (off es (length es))], bb_counter := 0\<rparr>)
      \<lparr>bb_buffer := concat (map enc_ent (es @ [(sh, k, v)])), bb_last_key := k,
       bb_counter := (if bb_counter b < bb_interval b then bb_counter b + 1 else 1)\<rparr>)"
    unfolding bb_Add_def if_not_P [OF g] Let_def sh [symmetric] o
    using key e by (cases "bb_counter b < bb_interval b") simp_all
qed

lemma bb_Add_building:
  assumes b: "building b es rs" and ord: "es \<noteq> [] \<Longrightarrow> cmp k (ekey es (length es - 1)) > 0"
  shows "\<exists>b' sh rs'. bb_Add cmp k v b = Some b' \<and> building b' (es @ [(sh, k, v)]) rs'"
proof -
  note B = b [unfolded building_def]
  define sh where "sh = (if bb_counter b < bb_interval b then common_prefix (bb_last_key b) k else 0)"
  note A = bb_Add_eq [where cmp = cmp and k = k, OF b ord sh_def]
  let ?es = "es @ [(sh, k, v)]"
  have wf: "wf_ents ?es" using B A(2-4) by (intro wf_ents_append) (auto split: if_splits)
  have rng: "r \<le> length es" if "r \<in> set rs" for r using B that by (auto intro: less_imp_le)
  have offs: "map (\<lambda>r. word_of_nat (off ?es r)) rs = (map (\<lambda>r. word_of_nat (off es r)) rs :: u32 list)" using rng by (simp add: off_append)
  have old: "\<forall>r\<in>set rs. r = 0 \<or> r < length ?es \<and> eshared ?es r = 0" using B by (auto simp: ent_append)
  define b' where "b' = (if bb_counter b < bb_interval b then b
        else b\<lparr>bb_restarts := bb_restarts b @ [word_of_nat (off es (length es))], bb_counter := 0\<rparr>)
      \<lparr>bb_buffer := concat (map enc_ent ?es), bb_last_key := k, bb_counter := (if bb_counter b < bb_interval b then bb_counter b + 1 else 1)\<rparr>"
  have "\<exists>rs'. building b' ?es rs'"
  proof (cases "bb_counter b < bb_interval b")
    case True
    then show ?thesis using B wf offs old by (intro exI [of _ rs]) (simp add: building_def b'_def ent_append)
  next
    case False
    then have c: "bb_counter b = bb_interval b" "sh = 0" using B by (auto simp: sh_def)
    have "\<forall>r\<in>set rs. r < length es" using B sorted_last [of rs] c(1) by fastforce
    then have "sorted_wrt (<) (rs @ [length es])" using B by (auto simp: sorted_wrt_append)
    moreover have "(rs @ [length es]) ! 0 = 0" using B by (simp add: nth_append)
    moreover have "\<forall>r\<in>set (rs @ [length es]). r = 0 \<or> r < length ?es \<and> eshared ?es r = 0" using old c(2) by (auto simp: ent_append)
    moreover have "map (\<lambda>r. word_of_nat (off ?es r)) (rs @ [length es]) = (map (\<lambda>r. word_of_nat (off es r)) rs @ [word_of_nat (off es (length es))] :: u32 list)"
      using offs by (simp add: off_append)
    ultimately show ?thesis using B wf False by (intro exI [of _ "rs @ [length es]"]) (simp add: building_def b'_def ent_append)
  qed
  then show ?thesis using A(1) [of v] unfolding b'_def [symmetric] by blast
qed

lemma add_entries_building:
  "building b es rs \<Longrightarrow> sorted_wrt (\<lambda>a c. cmp (fst c) (fst a) > 0) (map snd es @ kvs) \<Longrightarrow>
   \<exists>b' es' rs'. add_entries cmp kvs b = Some b' \<and> building b' es' rs' \<and> map snd es' = map snd es @ kvs"
proof (induction kvs arbitrary: b es rs)
  case (Cons kv kvs)
  obtain k v where kv: "kv = (k, v)" by fastforce
  have "cmp k (ekey es (length es - 1)) > 0" if "es \<noteq> []"
    using Cons.prems(2) last_in_set [OF that] that unfolding kv by (auto simp: sorted_wrt_append ekey_def last_conv_nth)
  from bb_Add_building [where cmp = cmp and k = k and v = v, OF Cons.prems(1) this] obtain b' sh rs' where b': "bb_Add cmp k v b = Some b'" "building b' (es @ [(sh, k, v)]) rs'" by blast
  show ?case using Cons.IH [OF b'(2)] Cons.prems(2) b'(1) by (simp add: kv)
qed auto

definition build_block :: "(slice \<Rightarrow> slice \<Rightarrow> int) \<Rightarrow> nat \<Rightarrow> (slice \<times> slice) list \<Rightarrow> byte list option" where
  "build_block cmp interval kvs = Option.bind (mk_BlockBuilder interval) (\<lambda>b. map_option (\<lambda>b. fst (bb_Finish b)) (add_entries cmp kvs b))"

lemma bb_Finish_building: "building b es rs \<Longrightarrow> fst (bb_Finish b) = block_bytes es rs"
proof -
  have f: "fold (\<lambda>r buf. buf @ bytes_of_u32 r) ws buf = buf @ concat (map bytes_of_u32 ws)" for ws buf
    by (induction ws arbitrary: buf) simp_all
  show "building b es rs \<Longrightarrow> fst (bb_Finish b) = block_bytes es rs"
    by (simp add: bb_Finish_def building_def block_bytes_def f PutFixed32_def EncodeFixed32_eq comp_def Let_def)
qed

lemma build_block_wf:
  assumes "1 \<le> interval" and "sorted_wrt (\<lambda>a c. cmp (fst c) (fst a) > 0) kvs"
  shows "\<exists>es rs. build_block cmp interval kvs = Some (block_bytes es rs) \<and> map snd es = kvs \<and> (length (block_bytes es rs) < 2 ^ 32 \<longrightarrow> wf_block es rs)"
proof -
  obtain b where b: "mk_BlockBuilder interval = Some b" "building b [] [0]"
    using assms(1) by (simp add: mk_BlockBuilder_def building_def wf_ents_def)
  obtain b' es rs where "add_entries cmp kvs b = Some b'" "building b' es rs" "map snd es = kvs" using add_entries_building [OF b(2), of cmp kvs] assms(2) by auto
  then show ?thesis using b(1) bb_Finish_building [of b' es rs] unfolding wf_block_def build_block_def
    by (intro exI [of _ es] exI [of _ rs]) (simp add: building_def)
qed

lemma NewIterator_over:
  assumes w: "wf_block es rs"
  shows "\<exists>it. Block_NewIterator (mk_Block (block_bytes es rs)) = Some (Block_Iter it) \<and> over es rs it"
proof -
  let ?D = "block_bytes es rs" and ?f = "\<lambda>r. bytes_of_u32 (word_of_nat (off es r))"
  have l: "length ?D = off es (length es) + 4 * length rs + 4"
    using length_chunks [of ?f rs] by (simp add: block_bytes_def off_def)
  have sz: "length ?D < 2 ^ 32" "rs \<noteq> []" using w unfolding wf_block_def by auto
  have d: "drop (length ?D - 4) ?D = bytes_of_u32 (word_of_nat (length rs)) @ []" by (simp add: block_bytes_def)
  have n: "NumRestarts ?D (length ?D) = length rs"
    unfolding NumRestarts_def d DecodeFixed32_bytes using sz(1) l by (simp add: unat_of_nat)
  have r: "unat (word_of_nat (length ?D) - (1 + word_of_nat (length rs)) * 4 :: u32) = off es (length es)"
  proof -
    have "word_of_nat (length ?D) - (1 + word_of_nat (length rs)) * 4 = (word_of_nat (off es (length es)) :: u32)" unfolding l by (simp add: algebra_simps)
    then show ?thesis using off_le_size [OF le_refl w] by (simp add: unat_of_nat)
  qed
  have "mk_Block ?D = \<lparr>b_data = ?D, b_size = length ?D, b_restart_offset = off es (length es)\<rparr>"
    unfolding mk_Block_def n r Let_def using l by simp
  then show ?thesis using n l sz(2) by (simp add: Block_NewIterator_def mk_block_iter_def over_def Let_def)
qed

section \<open>Properties\<close>

text \<open>
  C14. Blocks round trip. Entries in increasing order of their keys are accepted by the builder, for every restart interval and every comparator
  that is a total preorder, and, if the block is smaller than 4 GiB, the iterator over what \<open>Finish\<close> returns yields exactly these entries: forwards from
  \<open>SeekToFirst\<close>, backwards from \<open>SeekToLast\<close>, and from the first key not before the target after \<open>Seek\<close>, whose binary search over the restart points
  therefore never skips an entry. All loops end and no access leaves the block.
\<close>

theorem block_roundtrip:
  assumes "three_way legal cmp" and "\<forall>kv\<in>set kvs. legal (fst kv)" and "sorted_wrt (\<lambda>a b. cmp (fst a) (fst b) < 0) kvs" and "1 \<le> interval"
  shows "\<exists>contents. build_block cmp interval kvs = Some contents \<and>
    (length contents < 2 ^ 32 \<longrightarrow> (\<exists>it. Block_NewIterator (mk_Block contents) = Some (Block_Iter it) \<and>
       Option.bind (bi_SeekToFirst it) (scan bi_item bi_Next bi_Valid (length kvs)) = Some kvs \<and>
       Option.bind (bi_SeekToLast it) (scan bi_item bi_Prev bi_Valid (length kvs)) = Some (rev kvs) \<and>
       (\<forall>t. legal t \<longrightarrow> Option.bind (bi_Seek cmp t it) (scan bi_item bi_Next bi_Valid (length kvs)) =
          Some (dropWhile (\<lambda>kv. cmp (fst kv) t < 0) kvs))))"
proof -
  have ord: "sorted_wrt (\<lambda>a c. cmp (fst c) (fst a) > 0) kvs"
    using assms(2,3) three_way.compare_flip [OF assms(1)] by (auto simp: sorted_wrt_iff_nth_less)
  obtain es rs where E: "build_block cmp interval kvs = Some (block_bytes es rs)" "map snd es = kvs" "length (block_bytes es rs) < 2 ^ 32 \<Longrightarrow> wf_block es rs"
    using build_block_wf [of interval cmp, OF assms(4) ord] by blast
  have len: "length es = length kvs" using E(2) by (metis length_map)
  have ks: "ekeys es = map fst kvs" unfolding ekeys_def E(2) [symmetric] by simp
  have S: "sorted_wrt (\<lambda>a b. cmp a b < 0) (ekeys es)" "\<forall>x\<in>set (ekeys es). legal x" using assms(2,3) by (auto simp: ks sorted_wrt_map)
  have "\<exists>it. Block_NewIterator (mk_Block (block_bytes es rs)) = Some (Block_Iter it) \<and>
       Option.bind (bi_SeekToFirst it) (scan bi_item bi_Next bi_Valid (length kvs)) = Some kvs \<and>
       Option.bind (bi_SeekToLast it) (scan bi_item bi_Prev bi_Valid (length kvs)) = Some (rev kvs) \<and>
       (\<forall>t. legal t \<longrightarrow> Option.bind (bi_Seek cmp t it) (scan bi_item bi_Next bi_Valid (length kvs)) =
          Some (dropWhile (\<lambda>kv. cmp (fst kv) t < 0) kvs))" if "length (block_bytes es rs) < 2 ^ 32"
  proof -
    note w = E(3) [OF that]
    note C = cursor.scan_all [OF block_cursor [OF w], unfolded E(2)] cursor.scan_forward [OF block_cursor [OF w], unfolded E(2)]
    obtain it where it: "Block_NewIterator (mk_Block (block_bytes es rs)) = Some (Block_Iter it)" "over es rs it" using NewIterator_over [OF w] by blast
    have "Option.bind (bi_SeekToFirst it) (scan bi_item bi_Next bi_Valid (length kvs)) = Some kvs"
      using bi_SeekToFirst_over [OF w it(2)] C(1) by auto
    moreover have "Option.bind (bi_SeekToLast it) (scan bi_item bi_Prev bi_Valid (length kvs)) = Some (rev kvs)"
      using bi_SeekToLast_over [OF w it(2)] C(2) unfolding len by auto
    moreover have "Option.bind (bi_Seek cmp t it) (scan bi_item bi_Next bi_Valid (length kvs)) = Some (dropWhile (\<lambda>kv. cmp (fst kv) t < 0) kvs)"
      if t: "legal t" for t
    proof -
      have "rank cmp t (ekeys es) = length (takeWhile (\<lambda>kv. cmp (fst kv) t < 0) kvs)" by (simp add: rank_def ks takeWhile_map comp_def)
      then show ?thesis using bi_Seek_over [OF assms(1) w it(2) t S] C(3) [of _ "rank cmp t (ekeys es)" "length kvs"] by (auto simp: dropWhile_eq_drop)
    qed
    ultimately show ?thesis using it(1) by blast
  qed
  then show ?thesis using E(1) by blast
qed

theorem block_roundtrip_witness:
  "\<exists>contents it. build_block BytewiseCompare 2 [([1, 2], [9]), ([1, 3], []), ([2], [7])] = Some contents \<and>
     Block_NewIterator (mk_Block contents) = Some (Block_Iter it) \<and>
     Option.bind (bi_SeekToFirst it) (scan bi_item bi_Next bi_Valid 3) = Some [([1, 2], [9]), ([1, 3], []), ([2], [7])]"
proof -
  let ?kvs = "[([1, 2], [9]), ([1, 3], []), ([2], [7])] :: (slice \<times> slice) list"
  have s: "sorted_wrt (\<lambda>a b. BytewiseCompare (fst a) (fst b) < 0) ?kvs" by code_simp
  have "map_option length (build_block BytewiseCompare 2 ?kvs) = Some 27" by code_simp
  then have l: "length c < 2 ^ 32" if "build_block BytewiseCompare 2 ?kvs = Some c" for c using that by simp
  have n: "length ?kvs = 3" by simp
  obtain c where c: "build_block BytewiseCompare 2 ?kvs = Some c"
    "length c < 2 ^ 32 \<longrightarrow> (\<exists>it. Block_NewIterator (mk_Block c) = Some (Block_Iter it) \<and>
       Option.bind (bi_SeekToFirst it) (scan bi_item bi_Next bi_Valid (length ?kvs)) = Some ?kvs \<and> True)"
    using block_roundtrip [OF bytewise.three_way_axioms _ s, of 2] by (metis one_le_numeral)
  then show ?thesis using l [OF c(1)] unfolding n by blast
qed

text \<open>The 32-bit sum of the two lengths is what is compared with the bytes that are left.\<close>

lemma entry_check_iff:
  assumes "limit < 2 ^ 32"
  shows "entry_check p limit s n v = (if (unat n + unat v) mod 2 ^ 32 \<le> limit - p then Some (p, s, n, v) else None)"
  using assms by (simp add: entry_check_def word_less_nat_alt unat_word_ariths(1) unat_of_nat)

text \<open>
  C34. Corrupt entries. Let the iterator be before an entry whose header has the three numbers \<open>shared\<close>, \<open>non_shared\<close> and \<open>value_length\<close>, with the bytes \<open>R\<close> of the block before its restart array after the
  header. \<open>DecodeEntry\<close> accepts the entry exactly if the sum of the two lengths, taken in 32 bits, is at most the number of these bytes. An entry that is too long is therefore refused
  with a corruption status only if its sum does not wrap around to such a number. If it does, the entry is accepted: the copy of the key leaves the block whenever the block has fewer than \<open>non_shared\<close>
  bytes after the header, and otherwise the value of the iterator ends outside the block.
\<close>

theorem DecodeEntry_wraps:
  assumes "bi_data it = A @ EncodeVarint32 shared @ EncodeVarint32 non_shared @ EncodeVarint32 value_length @ R @ restarts"
    and "bi_restarts it = length A + length (EncodeVarint32 shared @ EncodeVarint32 non_shared @ EncodeVarint32 value_length) + length R"
    and "length (bi_data it) < 2 ^ 32" and "NextEntryOffset it = length A" and "unat shared \<le> length (bi_key it)"
  shows "(DecodeEntry (bi_data it) (length A) (bi_restarts it) \<noteq> None \<longleftrightarrow> (unat non_shared + unat value_length) mod 2 ^ 32 \<le> length R) \<and>
    (length R < (unat non_shared + unat value_length) mod 2 ^ 32 \<longrightarrow>
       (\<exists>it'. ParseNextKey it = Some (False, it') \<and> bi_status it' = Corruption (ascii ''bad entry in block'') [] \<and> \<not> bi_Valid it')) \<and>
    ((unat non_shared + unat value_length) mod 2 ^ 32 \<le> length R \<and> length R < unat non_shared + unat value_length \<longrightarrow>
       (length (R @ restarts) < unat non_shared \<longrightarrow> ParseNextKey it = None) \<and>
       (\<forall>valid it'. ParseNextKey it = Some (valid, it') \<longrightarrow> valid \<and> length (bi_data it') < bi_vpos it' + bi_vlen it' \<and> bi_value it' = None))"
proof -
  let ?hd = "EncodeVarint32 shared @ EncodeVarint32 non_shared @ EncodeVarint32 value_length"
  let ?p = "length A + length ?hd" and ?n = "unat non_shared" and ?v = "unat value_length"
  have ld: "length (bi_data it) = ?p + length R + length restarts" "bi_restarts it \<le> length (bi_data it)" using assms(1,2) by simp_all
  have D: "DecodeEntry (bi_data it) (length A) (bi_restarts it) = (if (?n + ?v) mod 2 ^ 32 \<le> length R then Some (?p, shared, non_shared, value_length) else None)"
    using DecodeEntry_header [OF assms(2), of restarts] entry_check_iff [of "bi_restarts it" ?p shared non_shared value_length] assms(1-3) ld by simp
  have ne: "0 < length (EncodeVarint32 shared)" by (simp add: EncodeVarint32_def Let_def)
  have cur: "NextEntryOffset it mod 2 ^ 32 = length A" "length A < bi_restarts it" using assms(2-4) ld ne by simp_all
  let ?it = "it\<lparr>bi_current := length A\<rparr>"
  let ?new = "?it\<lparr>bi_key := take (unat shared) (bi_key it) @ take ?n (drop ?p (bi_data it)), bi_vpos := ?p + ?n, bi_vlen := ?v\<rparr>"
  have P: "ParseNextKey it = (if (?n + ?v) mod 2 ^ 32 \<le> length R
      then (if length (bi_data it) < ?p + ?n then None else map_option (Pair True) (advance_index ?new)) else Some (False, CorruptionError ?it))"
    unfolding ParseNextKey_def Let_def cur(1) using cur(2) D assms(5) by simp
  have adv: "\<exists>i. x = ?new\<lparr>bi_index := i\<rparr>" if "advance_index ?new = Some x" for x using advance_index_frame [OF that] .
  have big: "length (bi_data it) < ?p + (?n + ?v)" if "(?n + ?v) mod 2 ^ 32 \<le> length R" "length R < ?n + ?v"
  proof -
    have "\<not> ?n + ?v < 2 ^ 32" using that by auto
    then show ?thesis using assms(3) by linarith
  qed
  show ?thesis
  proof (intro conjI impI allI)
    show "DecodeEntry (bi_data it) (length A) (bi_restarts it) \<noteq> None \<longleftrightarrow> (?n + ?v) mod 2 ^ 32 \<le> length R" unfolding D by simp
    show "\<exists>it'. ParseNextKey it = Some (False, it') \<and> bi_status it' = Corruption (ascii ''bad entry in block'') [] \<and> \<not> bi_Valid it'" if "length R < (?n + ?v) mod 2 ^ 32"
      using that unfolding P by (simp add: CorruptionError_def bi_Valid_def)
    show "ParseNextKey it = None" if "(?n + ?v) mod 2 ^ 32 \<le> length R \<and> length R < ?n + ?v" "length (R @ restarts) < ?n" using that ld unfolding P by simp
    fix valid it'
    assume w: "(?n + ?v) mod 2 ^ 32 \<le> length R \<and> length R < ?n + ?v" and e: "ParseNextKey it = Some (valid, it')"
    then have x: "valid" "advance_index ?new = Some it'" unfolding P by (auto split: if_splits)
    then show "valid" by simp
    obtain i where "it' = ?new\<lparr>bi_index := i\<rparr>" using adv [OF x(2)] by blast
    then show "length (bi_data it') < bi_vpos it' + bi_vlen it'" "bi_value it' = None" using big w by (simp_all add: bi_value_def)
  qed
qed

text \<open>A block of 20 bytes whose only entry has a key of \<open>2 ^ 32 - 1\<close> bytes and a value of 2 bytes.\<close>

theorem DecodeEntry_wraps_witness:
  "let contents = [0, 0xff, 0xff, 0xff, 0xff, 0x0f, 2, 0, 0, 0, 0, 0, 0, 0, 0, 0, 1, 0, 0, 0];
       b = mk_Block contents
   in DecodeEntry contents 0 (b_restart_offset b) \<noteq> None \<and> (\<exists>it. Block_NewIterator b = Some (Block_Iter it) \<and> bi_SeekToFirst it = None)"
proof -
  let ?c = "[0, 0xff, 0xff, 0xff, 0xff, 0x0f, 2, 0, 0, 0, 0, 0, 0, 0, 0, 0, 1, 0, 0, 0] :: byte list"
  have b: "mk_Block ?c = \<lparr>b_data = ?c, b_size = 20, b_restart_offset = 12\<rparr>" by code_simp
  define it where "it = \<lparr>bi_data = ?c, bi_restarts = 12, bi_num = 1, bi_current = 12, bi_index = 1, bi_key = [], bi_vpos = 0, bi_vlen = 0, bi_status = OK\<rparr>"
  have i: "Block_NewIterator (mk_Block ?c) = Some (Block_Iter it)" unfolding b it_def by code_simp
  have g: "GetRestartPoint it 0 = Some 0" unfolding it_def by code_simp
  define it0 where "it0 = it\<lparr>bi_index := 0\<rparr>"
  have e: "EncodeVarint32 0 = [0]" "EncodeVarint32 0xffffffff = [0xff, 0xff, 0xff, 0xff, 0x0f]" "EncodeVarint32 2 = [2]" by code_simp+
  have u: "unat (0xffffffff :: u32) = 4294967295" "unat (2 :: u32) = 2" by simp_all
  have W: "DecodeEntry ?c 0 12 \<noteq> None \<and> ParseNextKey it0 = None"
    using DecodeEntry_wraps [where it = it0 and A = "[]" and shared = 0 and non_shared = "0xffffffff" and value_length = 2 and R = "[0, 0, 0, 0, 0]" and restarts = "[0, 0, 0, 0, 1, 0, 0, 0]", unfolded e u]
    by (simp add: it0_def it_def NextEntryOffset_def)
  have "SeekToRestartPoint 0 it = Some it0" using g by (simp add: SeekToRestartPoint_def it0_def it_def)
  then have "bi_SeekToFirst it = None" using W by (simp add: bi_SeekToFirst_def)
  then show ?thesis using i W by (simp add: b)
qed

end
