(* ===== verification/TableCorrect.thy ===== *)
theory TableCorrect
  imports TableFormat BlockCorrect CacheCorrect
begin

text \<open>
  Correctness of tables: a table that the builder writes for sorted entries, with any compressor, comparator and filter policy that
  meet their contracts, opens, and lookups in it find the entries.
\<close>

section \<open>Handles and footers\<close>

definition handle_bytes :: "BlockHandle \<Rightarrow> byte list" where
  "handle_bytes h = EncodeVarint64 (bh_offset h) @ EncodeVarint64 (bh_size h)"

interpretation handle: codec "\<lambda>_. True" handle_bytes bh_DecodeFrom
  by unfold_locales (simp add: handle_bytes_def bh_DecodeFrom_def varint64.decode_encode)

definition good_handle :: "BlockHandle \<Rightarrow> bool" where
  "good_handle h \<longleftrightarrow> bh_offset h \<noteq> - 1 \<and> bh_size h \<noteq> - 1"

lemma EncodeTo_good: "good_handle h \<Longrightarrow> bh_EncodeTo h dst = Some (dst @ handle_bytes h)"
  by (simp add: bh_EncodeTo_def good_handle_def PutVarint64_def handle_bytes_def)

lemma varint64_length: "length (EncodeVarint64 w) \<le> 10"
proof -
  obtain used where "EncodeVarint64 w @ [] = used @ []" "7 * length used \<le> 63 + 7 - 0"
    using leb_dec_consumes [of 63 0 0 "EncodeVarint64 w @ []" w "[]"] varint64.decode_encode [of w "[]"]
    by (auto simp: GetVarint64_leb)
  then show ?thesis by simp
qed

lemma handle_length: "length (handle_bytes h) \<le> 20"
  using varint64_length [of "bh_offset h"] varint64_length [of "bh_size h"] by (simp add: handle_bytes_def)

lemma footer_roundtrip_aux:
  assumes "good_handle (metaindex_handle ft)" and "good_handle (index_handle ft)"
  shows "\<exists>e. ft_EncodeTo ft [] = Some e \<and> length e = kEncodedLength \<and> ft_DecodeFrom e = Some (OK, ft, [])"
proof -
  let ?b = "handle_bytes (metaindex_handle ft) @ handle_bytes (index_handle ft)"
  define pad where "pad = replicate (40 - length ?b) (0 :: byte)"
  define lo where "lo = (ucast (kTableMagicNumber AND 0xffffffff) :: u32)"
  define hi where "hi = (ucast (drop_bit 32 kTableMagicNumber) :: u32)"
  define e where "e = ?b @ pad @ bytes_of_u32 lo @ bytes_of_u32 hi"
  have l: "length ?b \<le> 40" using handle_length [of "metaindex_handle ft"] handle_length [of "index_handle ft"] by simp
  then have lp: "length (?b @ pad) = 40" by (simp add: pad_def)
  have enc: "ft_EncodeTo ft [] = Some e"
    using l EncodeTo_good [OF assms(1), of "[]"] EncodeTo_good [OF assms(2), of "handle_bytes (metaindex_handle ft)"]
    by (simp add: ft_EncodeTo_def resize_def kMaxEncodedLength_def kEncodedLength_def PutFixed32_def EncodeFixed32_eq e_def lo_def hi_def pad_def)
  have len: "length e = kEncodedLength" using lp by (simp add: e_def kEncodedLength_def kMaxEncodedLength_def)
  have magic: "push_bit 32 (ucast hi) OR (ucast lo :: u64) = kTableMagicNumber" unfolding lo_def hi_def by code_simp
  have "e = (?b @ pad) @ bytes_of_u32 lo @ bytes_of_u32 hi" by (simp add: e_def)
  then have d: "drop 40 e = bytes_of_u32 lo @ bytes_of_u32 hi" using lp by (metis append_eq_conv_conj)
  have h: "bh_DecodeFrom e = Some (metaindex_handle ft, handle_bytes (index_handle ft) @ pad @ bytes_of_u32 lo @ bytes_of_u32 hi)"
    using handle.decode_encode [of "metaindex_handle ft"] by (simp add: e_def)
  have "ft_DecodeFrom e = Some (OK, ft, [])"
    using len h handle.decode_encode [of "index_handle ft" "pad @ bytes_of_u32 lo @ bytes_of_u32 hi"] magic DecodeFixed32_bytes [of True hi "[]"]
    by (simp add: ft_DecodeFrom_def Let_def kEncodedLength_def kMaxEncodedLength_def d DecodeFixed32_bytes)
  then show ?thesis using enc len by blast
qed

section \<open>Stored blocks\<close>

lemma unat_u64: "n < 2 ^ 64 \<Longrightarrow> unat (word_of_nat n :: u64) = n"
  by (simp add: unat_of_nat)

text \<open>A file with the contents \<open>F\<close>, mapped to memory or not.\<close>

definition mem_file :: "bool \<Rightarrow> byte list \<Rightarrow> rafile" where
  "mem_file mapped F p n = (OK, take n (drop p F), \<not> mapped)"

text \<open>The block of a handle can be read, and gives \<open>raw\<close>, from the file and from all that extend it.\<close>

definition stored :: "options \<Rightarrow> byte list \<Rightarrow> BlockHandle \<Rightarrow> slice \<Rightarrow> bool" where
  "stored opt F h raw \<longleftrightarrow> (\<forall>mapped ext verify. \<exists>cachable. ReadBlock (mem_file mapped (F @ ext)) opt verify h = Some (OK, raw, cachable))"

lemma stored_append: "stored opt F h raw \<Longrightarrow> stored opt (F @ G) h raw"
  unfolding stored_def by simp

text \<open>
  The contract of compressors, for the one that is used and the table of all. The identifier is positive as a signed number: 0 stands for no compression, and the reader does
  not find a negative one.
\<close>

definition compressor_ok :: "options \<Rightarrow> bool" where
  "compressor_ok opt \<longleftrightarrow> (case o_compressors opt of
     Some c # _ \<Rightarrow> 0 < sint (comp_id c) \<and> (\<forall>x. comp_decompress c (comp_compress c x) = Some x)
   | None # _ \<Rightarrow> True
   | [] \<Rightarrow> False)"

text \<open>\<open>contents\<close> with compressor \<open>zc\<close> stand for \<open>raw\<close>.\<close>

definition stands_for :: "options \<Rightarrow> slice \<Rightarrow> compressor option \<Rightarrow> slice \<Rightarrow> bool" where
  "stands_for opt contents zc raw \<longleftrightarrow>
     (case zc of None \<Rightarrow> contents = raw
      | Some c \<Rightarrow> comp_id c \<noteq> 0 \<and> find_compressor (comp_id c) (o_compressors opt) = Some c \<and> comp_decompress c contents = Some raw)"

lemma positive_id:
  fixes n :: byte
  assumes "0 < sint n"
  shows "n \<noteq> 0" and "sint n = uint n"
proof -
  show "n \<noteq> 0" using assms by auto
  have "sint n = take_bit 8 (uint n) - 256 * of_bool (bit (uint n) 7)" by (simp add: sint_uint signed_take_bit_eq_take_bit_minus)
  moreover have "take_bit 8 (uint n) = uint n" "uint n < 256" using uint_lt2p [of n] by (simp_all add: take_bit_int_eq_self_iff)
  ultimately show "sint n = uint n" using assms by (cases "bit (uint n) 7") simp_all
qed

lemma choose_contents_stands:
  assumes "compressor_ok opt" and "choose_contents opt raw = (contents, zc)"
  shows "stands_for opt contents zc raw \<and> length contents \<le> length raw"
proof (cases "o_compressors opt")
  case (Cons a cs)
  then show ?thesis using assms
    by (cases a) (auto simp: compressor_ok_def choose_contents_def stands_for_def Let_def dest: positive_id split: if_splits)
qed (use assms in \<open>simp add: compressor_ok_def\<close>)

text \<open>The builder without failures, with \<open>F\<close> in the file.\<close>

definition writing :: "table_builder \<Rightarrow> byte list \<Rightarrow> bool" where
  "writing r F \<longleftrightarrow> tb_file r = \<lparr>w_data = F, w_faults = []\<rparr> \<and> tb_status r = OK \<and> tb_offset r = word_of_nat (length F)"

lemma writing_ok: "writing r F \<Longrightarrow> tb_ok r"
  by (simp add: writing_def tb_ok_def status_ok_def OK_def)

lemma WriteRawBlock_stored:
  assumes w: "writing r F" and s: "stands_for (tb_opt r) contents zc raw" and sz: "length F + length contents + 5 < 2 ^ 63"
  shows "\<exists>h G. WriteRawBlock contents zc r = (h, r\<lparr>tb_file := \<lparr>w_data = F @ G, w_faults = []\<rparr>, tb_status := OK, tb_offset := word_of_nat (length (F @ G))\<rparr>) \<and>
    length G = length contents + 5 \<and> stored (tb_opt r) (F @ G) h raw \<and> good_handle h \<and> bh_offset h = word_of_nat (length F)"
proof -
  let ?t = "case zc of None \<Rightarrow> 0 | Some c \<Rightarrow> comp_id c"
  define crc where "crc = crc_extend (crc_value contents) [?t]"
  define G where "G = contents @ ?t # bytes_of_u32 (Mask crc)"
  define h where "h = \<lparr>bh_offset = word_of_nat (length F), bh_size = word_of_nat (length contents)\<rparr>"
  have W: "tb_file r = \<lparr>w_data = F, w_faults = []\<rparr>" "tb_offset r = word_of_nat (length F)" using w by (auto simp: writing_def)
  have lG: "length G = length contents + 5" by (simp add: G_def)
  have wr: "WriteRawBlock contents zc r = (h, r\<lparr>tb_file := \<lparr>w_data = F @ G, w_faults = []\<rparr>, tb_status := OK, tb_offset := word_of_nat (length (F @ G))\<rparr>)"
    unfolding WriteRawBlock_def Let_def
    by (simp add: W Append_def h_def G_def crc_def EncodeFixed32_eq kBlockTrailerSize_def algebra_simps)
  have u: "unat (word_of_nat (length F) :: u64) = length F" "unat (word_of_nat (length contents) :: u64) = length contents"
    "unat (word_of_nat (length contents) + 5 :: u64) = length contents + 5"
    using sz by (simp_all add: unat_of_nat unat_word_ariths(1))
  have max: "unat (- 1 :: u64) = 2 ^ 64 - 1" by (simp add: unsigned_minus_1_eq_mask mask_eq_exp_minus_1)
  have good: "good_handle h" unfolding good_handle_def h_def using u(1,2) sz max by (auto simp: word_unat_eq_iff)
  have "\<exists>cachable. ReadBlock (mem_file mapped ((F @ G) @ ext)) (tb_opt r) verify h = Some (OK, raw, cachable)" for mapped ext verify
  proof -
    have c: "take (length contents + 5) (drop (length F) ((F @ G) @ ext)) = G" using lG by simp
    have "crc_value (take (length contents + 1) G) = Unmask (DecodeFixed32 True (drop (length contents + 1) G))"
      using DecodeFixed32_bytes [of True "Mask crc" "[]"] by (simp add: G_def crc_def crc_extend_eq crc_value_eq crc32c_append)
    moreover have "G ! length contents = ?t" "take (length contents) G = contents" by (simp_all add: G_def)
    ultimately show ?thesis using s lG c u
      by (cases zc) (auto simp: ReadBlock_def Let_def h_def kBlockTrailerSize_def mem_file_def stands_for_def)
  qed
  then have "stored (tb_opt r) (F @ G) h raw" by (simp add: stored_def)
  moreover have "bh_offset h = word_of_nat (length F)" by (simp add: h_def)
  ultimately show ?thesis using wr lG good by blast
qed

section \<open>Sizes\<close>

definition wt :: "(slice \<times> slice) list \<Rightarrow> nat" where
  "wt kvs = sum_list (map (\<lambda>kv. length (fst kv) + length (snd kv) + 64) kvs)"

lemma wt_append [simp]: "wt (xs @ ys) = wt xs + wt ys" and wt_Nil [simp]: "wt [] = 0"
  and wt_Cons [simp]: "wt (kv # kvs) = length (fst kv) + length (snd kv) + 64 + wt kvs"
  by (simp_all add: wt_def)

lemma varint32_length: "length (EncodeVarint32 w) \<le> 5"
  by (simp add: EncodeVarint32_def Let_def)

lemma enc_ent_size: "length (enc_ent e) + 49 \<le> wt [snd e]"
proof -
  obtain sh k v where e: "e = (sh, k, v)" by (cases e)
  have "length (enc_ent e) \<le> 15 + (length k - sh) + length v"
    using varint32_length [of "word_of_nat sh"] varint32_length [of "word_of_nat (length k - sh)"] varint32_length [of "word_of_nat (length v)"]
    by (simp add: e enc_ent_def ent_head_def)
  then show ?thesis by (simp add: e wt_def)
qed

lemma rs_count:
  fixes n :: nat
  assumes "sorted_wrt (<) rs" and "\<forall>r\<in>set rs. r = 0 \<or> r < n"
  shows "length rs \<le> max 1 n"
proof -
  have "set rs \<subseteq> {..<max 1 n}" using assms(2) by auto
  then have "card (set rs) \<le> max 1 n" using card_mono [of "{..<max 1 n}" "set rs"] by simp
  moreover have "distinct rs" using assms(1) strict_sorted_iff by blast
  ultimately show ?thesis by (simp add: distinct_card)
qed

lemma block_size:
  assumes "building b es rs"
  shows "length (block_bytes es rs) + 45 * length es \<le> wt (map snd es) + 8"
proof -
  have "length rs \<le> max 1 (length es)" using assms unfolding building_def by (intro rs_count) auto
  moreover have "length (concat (map (\<lambda>r. bytes_of_u32 (word_of_nat (off es r))) rs)) = 4 * length rs" by (rule length_chunks) simp
  moreover have "length (concat (map enc_ent es)) + 49 * length es \<le> wt (map snd es)" for es
  proof (induction es)
    case (Cons e es)
    then show ?case using enc_ent_size [of e] by simp
  qed simp
  from this [of es] have "length (concat (map enc_ent es)) + 49 * length es \<le> wt (map snd es)" .
  ultimately show ?thesis unfolding block_bytes_def length_append length_bytes_of by (cases es) auto
qed

lemma building_wf: "building b es rs \<Longrightarrow> length (block_bytes es rs) < 2 ^ 32 \<Longrightarrow> wf_block es rs"
  unfolding building_def wf_block_def by blast

lemma building_Reset: "building b es rs \<Longrightarrow> building (bb_Reset (snd (bb_Finish b))) [] [0]"
  by (simp add: building_def bb_Reset_def bb_Finish_def wf_ents_def Let_def)

section \<open>The invariant of the builder\<close>

text \<open>
  What the locale asks of the options: the contracts of comparator, compressor and filter policy, index keys that are not longer than those they replace, and
  filters at most linear in the number of keys.
\<close>

locale table_options = comparator legal "o_cmp opt" "o_sep opt" "o_succ opt"
  for legal :: "slice \<Rightarrow> bool" and opt :: options +
  fixes C :: nat
  assumes sep_length: "length (o_sep opt a b) \<le> length a"
    and succ_length: "length (o_succ opt a) \<le> length a"
    and interval: "1 \<le> o_interval opt"
    and comp: "compressor_ok opt"
    and policy: "o_policy opt = Some p \<Longrightarrow>
      filter_policy (p_create p) (p_may p) \<and> (\<forall>ks. ks \<noteq> [] \<longrightarrow> length (p_create p ks []) \<le> C * length ks) \<and> length (p_name p) < 2 ^ 30"

type_synonym fin = "(BlockHandle \<times> (slice \<times> slice) list) list"

definition entries :: "fin \<Rightarrow> (slice \<times> slice) list" where "entries fs = concat (map snd fs)"

lemma entries_simps [simp]: "entries [] = []" "entries ((h, g) # fs) = g @ entries fs" "entries (fs @ gs) = entries fs @ entries gs"
  by (simp_all add: entries_def)

definition block_at :: "options \<Rightarrow> byte list \<Rightarrow> BlockHandle \<Rightarrow> (slice \<times> slice) list \<Rightarrow> bool" where
  "block_at opt F h kvs \<longleftrightarrow> (\<exists>es rs. wf_block es rs \<and> map snd es = kvs \<and> stored opt F h (block_bytes es rs))"

lemma block_at_append: "block_at opt F h kvs \<Longrightarrow> block_at opt (F @ G) h kvs"
  unfolding block_at_def using stored_append by blast

definition foffset :: "BlockHandle \<times> (slice \<times> slice) list \<Rightarrow> nat \<times> slice list" where
  "foffset b = (unat (bh_offset (fst b)), map fst (snd b))"

text \<open>The index keys separate the blocks.\<close>

definition separates :: "(slice \<Rightarrow> bool) \<Rightarrow> (slice \<Rightarrow> slice \<Rightarrow> int) \<Rightarrow> slice list \<Rightarrow> fin \<Rightarrow> (slice \<times> slice) list \<Rightarrow> bool" where
  "separates legal cmp seps fs cur \<longleftrightarrow> (\<forall>i<length seps. legal (seps ! i) \<and> length (seps ! i) + 64 \<le> wt (snd (fs ! i)) \<and>
     (\<forall>kv\<in>set (entries (take (Suc i) fs)). cmp (fst kv) (seps ! i) \<le> 0) \<and>
     (\<forall>kv\<in>set (entries (drop (Suc i) fs) @ cur). cmp (seps ! i) (fst kv) < 0))"

text \<open>Each index key is what the comparator makes of the last key of its block and the first key after it.\<close>

definition tight :: "(slice \<Rightarrow> slice \<Rightarrow> slice) \<Rightarrow> slice list \<Rightarrow> fin \<Rightarrow> (slice \<times> slice) list \<Rightarrow> bool" where
  "tight sep seps fs cur \<longleftrightarrow> (\<forall>i<length seps. entries (drop (Suc i) fs) @ cur \<noteq> [] \<longrightarrow>
     seps ! i = sep (fst (last (snd (fs ! i)))) (fst (hd (entries (drop (Suc i) fs) @ cur))))"

lemma tight_snoc: "tight sep seps fs [] \<Longrightarrow> length fs = Suc (length seps) \<Longrightarrow> tight sep (seps @ [k]) fs []"
  by (auto simp: tight_def nth_append less_Suc_eq)

lemma tight_Flush: "tight sep seps fs cur \<Longrightarrow> length fs = length seps \<Longrightarrow> tight sep seps (fs @ [(h, cur)]) []"
  by (auto simp: tight_def nth_append)

lemma tight_Add:
  assumes t: "tight sep seps fs cur" and l: "length fs = length seps" and ne: "\<forall>(h, g)\<in>set fs. g \<noteq> []"
    and k: "cur = [] \<Longrightarrow> fs \<noteq> [] \<Longrightarrow> last seps = sep (fst (last (entries fs))) k"
  shows "tight sep seps fs (cur @ [(k, v)])"
  unfolding tight_def
proof (intro allI impI)
  fix i
  assume i: "i < length seps"
  let ?rest = "entries (drop (Suc i) fs) @ cur"
  show "seps ! i = sep (fst (last (snd (fs ! i)))) (fst (hd (entries (drop (Suc i) fs) @ cur @ [(k, v)])))"
  proof (cases "?rest = []")
    case True
    have "drop (Suc i) fs = []"
    proof (rule ccontr)
      assume "drop (Suc i) fs \<noteq> []"
      then obtain h g gs where g: "drop (Suc i) fs = (h, g) # gs" by (metis neq_Nil_conv surj_pair)
      then have "(h, g) \<in> set fs" by (metis in_set_dropD list.set_intros(1))
      then show False using ne True g by auto
    qed
    then have j: "i = length seps - 1" "i = length fs - 1" "fs \<noteq> []" using i l by auto
    obtain gs h g where g: "fs = gs @ [(h, g)]" using j(3) by (metis rev_exhaust surj_pair)
    then have "g \<noteq> []" using ne by simp
    then have "last (entries fs) = last (snd (fs ! i))" using g j(2) by simp
    moreover have "last seps = seps ! i" using j(1) i by (cases seps rule: rev_cases) auto
    ultimately show ?thesis using k j(3) True \<open>drop (Suc i) fs = []\<close> by simp
  next
    case False
    then have "hd (entries (drop (Suc i) fs) @ cur @ [(k, v)]) = hd ?rest" by (metis append.assoc hd_append2)
    then show ?thesis using t i False unfolding tight_def by simp
  qed
qed

text \<open>The filter builder, if there is one, has the keys of the given blocks.\<close>

definition filtering :: "options \<Rightarrow> (policy \<times> filter_builder) option \<Rightarrow> (nat \<times> slice list) list \<Rightarrow> bool" where
  "filtering opt f bs \<longleftrightarrow> (case o_policy opt of None \<Rightarrow> f = None
     | Some p \<Rightarrow> (\<exists>fb. f = Some (p, fb) \<and> add_blocks (p_create p) bs mk_FilterBlockBuilder = Some fb))"

text \<open>
  The blocks \<open>fs\<close> are in the file, the entries \<open>cur\<close> in the data block, and the index block has the blocks of \<open>seps\<close>, which are all or, while an
  index entry is pending, all but the last.
\<close>

definition table_inv :: "(slice \<Rightarrow> bool) \<Rightarrow> options \<Rightarrow> table_builder \<Rightarrow> byte list \<Rightarrow> fin \<Rightarrow> slice list \<Rightarrow> (slice \<times> slice) list \<Rightarrow> bool" where
  "table_inv legal opt r F fs seps cur \<longleftrightarrow> tb_opt r = opt \<and> \<not> tb_closed r \<and> writing r F \<and>
     (\<forall>(h, g)\<in>set fs. g \<noteq> [] \<and> good_handle h \<and> block_at opt F h g) \<and>
     sorted_wrt (<) (map fst (map foffset fs @ [(length F, map fst cur)])) \<and> length F \<le> wt (entries fs) \<and>
     (\<exists>es rs. building (tb_data r) es rs \<and> map snd es = cur) \<and>
     (\<exists>es rs. building (tb_index r) es rs \<and> map snd es = zip seps (map (\<lambda>b. handle_bytes (fst b)) fs)) \<and>
     (if tb_pending r then cur = [] \<and> length fs = Suc (length seps) \<and> tb_handle r = fst (last fs) else length fs = length seps) \<and>
     filtering opt (tb_filter r) (map foffset fs @ [(length F, map fst cur)]) \<and>
     separates legal (o_cmp opt) seps fs cur \<and>
     sorted_wrt (\<lambda>a b. o_cmp opt (fst a) (fst b) < 0) (entries fs @ cur) \<and> (\<forall>kv\<in>set (entries fs @ cur). legal (fst kv)) \<and> tight (o_sep opt) seps fs cur"

lemma add_blocks_append: "add_blocks create (bs @ cs) b = Option.bind (add_blocks create bs b) (add_blocks create cs)"
proof (induction bs arbitrary: b)
  case (Cons x bs)
  then show ?case by (cases x; cases "StartBlock create (fst x) b") simp_all
qed simp

lemma add_blocks_key:
  "add_blocks create (bs @ [(p, ks @ [k])]) b = map_option (AddKey k) (add_blocks create (bs @ [(p, ks)]) b)"
proof -
  have "add_blocks create [(p, ks @ [k])] c = map_option (AddKey k) (add_blocks create [(p, ks)] c)" for c
    by (cases "StartBlock create p c") simp_all
  then show ?thesis by (cases "add_blocks create bs b") (simp_all add: add_blocks_append)
qed

lemma enc_ent_nonempty: "enc_ent e \<noteq> []"
  by (cases e) (simp add: enc_ent_def ent_head_def EncodeVarint32_def Let_def)

lemma building_empty: "building b es rs \<Longrightarrow> bb_buffer b = [] \<longleftrightarrow> es = []"
  unfolding building_def by (cases es) (simp_all add: enc_ent_nonempty)

context table_options
begin

lemma seps_sorted:
  assumes s: "separates legal (o_cmp opt) seps fs cur" and l: "length seps \<le> length fs"
    and ne: "\<forall>(h, g)\<in>set fs. g \<noteq> []" and leg: "\<forall>kv\<in>set (entries fs). legal (fst kv)"
  shows "sorted_wrt (\<lambda>a b. o_cmp opt a b < 0) seps"
  unfolding sorted_wrt_iff_nth_less
proof (intro allI impI)
  fix i j
  assume ij: "i < j" "j < length seps"
  then have m: "fs ! j \<in> set fs" using l by simp
  then have "snd (fs ! j) \<noteq> []" using bspec [OF ne m] by (simp add: split_beta)
  then obtain kv where kv: "kv \<in> set (snd (fs ! j))" by (meson hd_in_set)
  then have e: "kv \<in> set (entries fs)" using m by (auto simp: entries_def)
  have "fs ! j \<in> set (drop (Suc i) fs)" using ij l by (auto simp: in_set_conv_nth intro!: exI [of _ "j - Suc i"])
  then have "kv \<in> set (entries (drop (Suc i) fs) @ cur)" using kv by (auto simp: entries_def)
  then have "o_cmp opt (seps ! i) (fst kv) < 0" "legal (seps ! i)" using s ij unfolding separates_def by simp_all
  moreover have "fs ! j \<in> set (take (Suc j) fs)" using ij l by (auto simp: in_set_conv_nth intro!: exI [of _ j])
  then have "kv \<in> set (entries (take (Suc j) fs))" using kv by (auto simp: entries_def)
  then have "o_cmp opt (fst kv) (seps ! j) \<le> 0" "legal (seps ! j)" using s ij unfolding separates_def by simp_all
  ultimately show "o_cmp opt (seps ! i) (seps ! j) < 0" using compare_less_trans(2) leg e by blast
qed

lemma separates_snoc:
  assumes s: "separates legal (o_cmp opt) seps fs []" and l: "length fs = Suc (length seps)"
    and k: "legal k" "length k + 64 \<le> wt (snd (last fs))" "\<forall>kv\<in>set (entries fs). o_cmp opt (fst kv) k \<le> 0"
  shows "separates legal (o_cmp opt) (seps @ [k]) fs []"
  unfolding separates_def
proof (intro allI impI)
  fix i
  assume "i < length (seps @ [k])"
  then consider "i < length seps" | "i = length seps" by fastforce
  then show "legal ((seps @ [k]) ! i) \<and> length ((seps @ [k]) ! i) + 64 \<le> wt (snd (fs ! i)) \<and>
     (\<forall>kv\<in>set (entries (take (Suc i) fs)). o_cmp opt (fst kv) ((seps @ [k]) ! i) \<le> 0) \<and>
     (\<forall>kv\<in>set (entries (drop (Suc i) fs) @ []). o_cmp opt ((seps @ [k]) ! i) (fst kv) < 0)"
  proof cases
    case 1
    then show ?thesis using s unfolding separates_def by (simp add: nth_append)
  next
    case 2
    have "last fs = fs ! length seps" using l by (metis last_conv_nth diff_Suc_1 length_0_conv nat.distinct(1))
    then show ?thesis using 2 l k by simp
  qed
qed

lemma table_inv_parts:
  assumes "table_inv legal opt r F fs seps cur"
  shows "tb_opt r = opt" "\<not> tb_closed r" "writing r F" "\<forall>(h, g)\<in>set fs. g \<noteq> [] \<and> good_handle h \<and> block_at opt F h g"
    "sorted_wrt (<) (map fst (map foffset fs @ [(length F, map fst cur)]))" "length F \<le> wt (entries fs)" "separates legal (o_cmp opt) seps fs cur"
    "sorted_wrt (\<lambda>a b. o_cmp opt (fst a) (fst b) < 0) (entries fs @ cur)" "\<forall>kv\<in>set (entries fs @ cur). legal (fst kv)" "tb_ok r"
    "tight (o_sep opt) seps fs cur"
  using assms writing_ok unfolding table_inv_def by blast+

lemma table_inv_filter: "table_inv legal opt r F fs seps cur \<Longrightarrow> filtering opt (tb_filter r) (map foffset fs @ [(length F, map fst cur)])"
  unfolding table_inv_def by (elim conjE)

lemma table_inv_index:
  assumes "table_inv legal opt r F fs seps cur"
  obtains es rs where "building (tb_index r) es rs" "map snd es = zip seps (map (\<lambda>b. handle_bytes (fst b)) fs)" "length seps \<le> length fs" "ekeys es = seps"
proof -
  obtain es rs where e: "building (tb_index r) es rs" "map snd es = zip seps (map (\<lambda>b. handle_bytes (fst b)) fs)" using assms unfolding table_inv_def by blast
  have l: "length seps \<le> length fs" using assms unfolding table_inv_def by (auto split: if_splits)
  have "ekeys es = map fst (map snd es)" by (simp add: ekeys_def)
  then have "ekeys es = seps" using l unfolding e(2) by (simp add: map_fst_zip_take)
  then show thesis using that e l by blast
qed

lemma add_index_inv:
  assumes I: "table_inv legal opt r F fs seps []" and p: "tb_pending r" and k: "legal k" "length k + 64 \<le> wt (snd (last fs))"
    "\<forall>kv\<in>set (entries fs). o_cmp opt (fst kv) k \<le> 0"
  shows "\<exists>r'. add_index k r = Some r' \<and> table_inv legal opt r' F fs (seps @ [k]) [] \<and> \<not> tb_pending r' \<and> tb_num r' = tb_num r"
proof -
  note P = table_inv_parts [OF I]
  obtain es rs where e: "building (tb_index r) es rs" "map snd es = zip seps (map (\<lambda>b. handle_bytes (fst b)) fs)" "ekeys es = seps"
    using table_inv_index [OF I] by metis
  have l: "length fs = Suc (length seps)" "tb_handle r = fst (last fs)" using I p unfolding table_inv_def by simp_all
  have ne: "fs \<noteq> []" using l by auto
  have S: "separates legal (o_cmp opt) (seps @ [k]) fs []" by (rule separates_snoc [OF P(7) l(1) k])
  have "sorted_wrt (\<lambda>a b. o_cmp opt a b < 0) (seps @ [k])" by (rule seps_sorted [OF S]) (use P(4,9) l in auto)
  then have lt: "\<forall>x\<in>set seps. o_cmp opt x k < 0" by (simp add: sorted_wrt_append)
  have "o_cmp opt k (ekey es (length es - 1)) > 0" if "es \<noteq> []"
  proof -
    have m: "ekey es (length es - 1) \<in> set seps" using that ekeys_nth(2) [of "length es - 1" es] ekeys_nth(1) [of es] unfolding e(3) by (metis diff_less length_greater_0_conv nth_mem zero_less_one)
    then have "legal (ekey es (length es - 1))" using P(7) unfolding separates_def by (metis in_set_conv_nth)
    then show ?thesis using lt m k(1) compare_flip [of k "ekey es (length es - 1)"] by blast
  qed
  then obtain b sh rs' where b: "bb_Add (o_cmp opt) k (handle_bytes (fst (last fs))) (tb_index r) = Some b"
    "building b (es @ [(sh, k, handle_bytes (fst (last fs)))]) rs'" using bb_Add_building [OF e(1)] by metis
  have "good_handle (tb_handle r)" using P(4) last_in_set [OF ne] l(2) by auto
  then have a: "add_index k r = Some (r\<lparr>tb_last_key := k, tb_index := b, tb_pending := False\<rparr>)"
    using b(1) EncodeTo_good [of "tb_handle r" "[]"] unfolding add_index_def P(1) l(2) by simp
  have z: "map snd (es @ [(sh, k, handle_bytes (fst (last fs)))]) = zip (seps @ [k]) (map (\<lambda>b. handle_bytes (fst b)) fs)"
  proof -
    obtain gs b where g: "fs = gs @ [b]" using ne by (metis rev_exhaust)
    then have "length gs = length seps" using l(1) by simp
    then show ?thesis using e(2) unfolding g by (simp add: zip_append2)
  qed
  have "table_inv legal opt (r\<lparr>tb_last_key := k, tb_index := b, tb_pending := False\<rparr>) F fs (seps @ [k]) []"
    using I S b(2) z l tight_snoc [OF P(11) l(1), of k] unfolding table_inv_def writing_def by auto
  then show ?thesis using a by auto
qed

text \<open>A block of the builder goes to the file.\<close>

lemma WriteBlock_stored:
  assumes o: "tb_opt r = opt" and w: "writing r F" and b: "building b es rs" and sz: "length (block_bytes es rs) < 2 ^ 32" and F: "length F < 2 ^ 62"
  shows "\<exists>h G b'. WriteBlock b r = Some (b', h, r\<lparr>tb_file := \<lparr>w_data = F @ G, w_faults = []\<rparr>, tb_status := OK, tb_offset := word_of_nat (length (F @ G))\<rparr>) \<and>
    building b' [] [0] \<and> length G \<le> length (block_bytes es rs) + 5 \<and> 0 < length G \<and> block_at opt (F @ G) h (map snd es) \<and> good_handle h \<and> unat (bh_offset h) = length F"
proof -
  obtain contents zc where c: "choose_contents opt (block_bytes es rs) = (contents, zc)" by fastforce
  have S: "stands_for (tb_opt r) contents zc (block_bytes es rs)" "length contents \<le> length (block_bytes es rs)"
    using choose_contents_stands [OF comp c] o by auto
  obtain h G where hG: "WriteRawBlock contents zc r = (h, r\<lparr>tb_file := \<lparr>w_data = F @ G, w_faults = []\<rparr>, tb_status := OK, tb_offset := word_of_nat (length (F @ G))\<rparr>)"
    "length G = length contents + 5" "stored (tb_opt r) (F @ G) h (block_bytes es rs)" "good_handle h" "bh_offset h = word_of_nat (length F)"
    using WriteRawBlock_stored [OF w S(1)] S(2) sz F by auto
  have "fst (bb_Finish b) = block_bytes es rs" by (rule bb_Finish_building [OF b])
  then obtain b' where b': "bb_Finish b = (block_bytes es rs, b')" by (cases "bb_Finish b") simp
  have r: "building (bb_Reset b') [] [0]" using building_Reset [OF b] b' by simp
  have "WriteBlock b r = Some (bb_Reset b', h, r\<lparr>tb_file := \<lparr>w_data = F @ G, w_faults = []\<rparr>, tb_status := OK, tb_offset := word_of_nat (length (F @ G))\<rparr>)"
    unfolding WriteBlock_def using writing_ok [OF w] b' c o hG(1) by simp
  moreover have "block_at opt (F @ G) h (map snd es)" unfolding block_at_def using building_wf [OF b sz] hG(3) o by blast
  moreover have "unat (bh_offset h) = length F" using hG(5) F by (simp add: unat_of_nat)
  moreover have "length G \<le> length (block_bytes es rs) + 5" "0 < length G" using hG(2) S(2) by simp_all
  ultimately show ?thesis using r hG(4) by blast
qed

lemma StartBlock_inv:
  assumes s: "sorted (map fst bs @ [n])" and p: "o_policy opt = Some p" and f: "add_blocks (p_create p) bs mk_FilterBlockBuilder = Some fb"
  shows "\<exists>fb'. StartBlock (p_create p) n fb = Some fb' \<and> add_blocks (p_create p) (bs @ [(n, [])]) mk_FilterBlockBuilder = Some fb'"
proof -
  have fp: "filter_policy (p_create p) (p_may p)" using policy [OF p] by blast
  have "sorted (map fst (bs @ [(n, [])]))" using s by simp
  from filter_policy.add_blocks_inv [OF fp filter_policy.fb_inv_mk [OF fp] this] obtain fb' where
    "add_blocks (p_create p) (bs @ [(n, [])]) mk_FilterBlockBuilder = Some fb'" by auto
  then show ?thesis using f by (cases "StartBlock (p_create p) n fb") (simp_all add: add_blocks_append)
qed

lemma Flush_inv:
  assumes I: "table_inv legal opt r F fs seps cur" and ne: "cur \<noteq> []" and sz: "wt (entries fs @ cur) < 2 ^ 31"
  shows "\<exists>r' h G. tb_Flush r = Some r' \<and> table_inv legal opt r' (F @ G) (fs @ [(h, cur)]) seps [] \<and> tb_pending r' \<and>
    tb_num r' = tb_num r \<and> tb_last_key r' = tb_last_key r"
proof -
  note P = table_inv_parts [OF I]
  have np: "\<not> tb_pending r" "length fs = length seps" using I ne unfolding table_inv_def by (auto split: if_splits)
  obtain es rs where e: "building (tb_data r) es rs" "map snd es = cur" using I unfolding table_inv_def by blast
  have es: "es \<noteq> []" using e(2) ne by auto
  have b: "length (block_bytes es rs) + 5 \<le> wt cur" using block_size [OF e(1)] es unfolding e(2) by (cases es) simp_all
  obtain h G b' where W: "WriteBlock (tb_data r) r = Some (b', h, r\<lparr>tb_file := \<lparr>w_data = F @ G, w_faults = []\<rparr>, tb_status := OK, tb_offset := word_of_nat (length (F @ G))\<rparr>)"
    "building b' [] [0]" "length G \<le> length (block_bytes es rs) + 5" "block_at opt (F @ G) h cur" "good_handle h" "unat (bh_offset h) = length F" "0 < length G"
    using WriteBlock_stored [OF P(1,3) e(1)] b sz P(6) unfolding e(2) by auto
  define r1 where "r1 = r\<lparr>tb_offset := word_of_nat (length (F @ G)), tb_data := b', tb_handle := h, tb_pending := True, tb_status := OK, tb_file := \<lparr>w_data = F @ G, w_faults = []\<rparr>\<rparr>"
  have fl: "tb_Flush r = tb_StartBlock r1"
    using P(2,10) np(1) building_empty [OF e(1)] es W(1) by (simp add: tb_Flush_def r1_def tb_ok_def Flush_def Let_def)
  have lF: "length (F @ G) \<le> wt (entries fs @ cur)" using W(3) b P(6) by simp
  then have u: "unat (word_of_nat (length (F @ G)) :: u64) = length (F @ G)" using sz unat_u64 [of "length (F @ G)"] by simp
  have off: "map foffset (fs @ [(h, cur)]) = map foffset fs @ [(length F, map fst cur)]" using W(6) by (simp add: foffset_def)
  have srt: "sorted_wrt (<) (map fst (map foffset (fs @ [(h, cur)])) @ [length (F @ G)])" unfolding off using P(5) W(7) by (auto simp: sorted_wrt_append)
  then have srt': "sorted (map fst (map foffset (fs @ [(h, cur)])) @ [length (F @ G)])" using strict_sorted_imp_sorted by blast
  obtain r2 where r2: "tb_StartBlock r1 = Some r2" "\<exists>x. r2 = r1\<lparr>tb_filter := x\<rparr>"
    "filtering opt (tb_filter r2) (map foffset (fs @ [(h, cur)]) @ [(length (F @ G), [])])"
  proof (cases "o_policy opt")
    case None
    then have "tb_filter r = None" using I unfolding table_inv_def filtering_def by simp
    then have n: "tb_filter r1 = None" "tb_opt r1 = opt" using P(1) by (simp_all add: r1_def)
    then have "tb_StartBlock r1 = Some r1" "r1 = r1\<lparr>tb_filter := None\<rparr>" "filtering opt (tb_filter r1) bs" for bs
      using None by (simp_all add: tb_StartBlock_def filtering_def)
    then show ?thesis using that by blast
  next
    case (Some p)
    then obtain fb where fb: "tb_filter r = Some (p, fb)" "add_blocks (p_create p) (map foffset (fs @ [(h, cur)])) mk_FilterBlockBuilder = Some fb"
      using I unfolding table_inv_def off filtering_def by auto
    obtain fb' where "StartBlock (p_create p) (length (F @ G)) fb = Some fb'"
      "add_blocks (p_create p) (map foffset (fs @ [(h, cur)]) @ [(length (F @ G), [])]) mk_FilterBlockBuilder = Some fb'"
      using StartBlock_inv [OF srt' Some fb(2)] by blast
    moreover have "tb_filter r1 = Some (p, fb)" "tb_opt r1 = opt" "tb_offset r1 = word_of_nat (length (F @ G))" using fb(1) P(1) by (simp_all add: r1_def)
    ultimately have S: "tb_StartBlock r1 = Some (r1\<lparr>tb_filter := Some (p, fb')\<rparr>)"
      "filtering opt (Some (p, fb')) (map foffset (fs @ [(h, cur)]) @ [(length (F @ G), [])])"
      using Some u by (simp_all add: tb_StartBlock_def filtering_def)
    have "tb_filter (r1\<lparr>tb_filter := Some (p, fb')\<rparr>) = Some (p, fb')" by simp
    then show ?thesis using that [OF S(1)] S(2) by metis
  qed
  have blocks: "\<forall>(h, g)\<in>set (fs @ [(h, cur)]). g \<noteq> [] \<and> good_handle h \<and> block_at opt (F @ G) h g"
  proof (clarify, intro conjI, goal_cases)
    case (1 h' g) then show ?case using P(4) ne by auto
  next
    case (2 h' g) then show ?case using P(4) W(5) by auto
  next
    case (3 h' g) then show ?case using P(4) W(4) block_at_append by (cases "(h', g) \<in> set fs") auto
  qed
  have sep: "separates legal (o_cmp opt) seps (fs @ [(h, cur)]) []" using P(7) np(2) unfolding separates_def by (auto simp: nth_append)
  have frame: "tb_opt r2 = opt" "\<not> tb_closed r2" "writing r2 (F @ G)" "tb_data r2 = b'" "tb_index r2 = tb_index r" "tb_pending r2" "tb_handle r2 = h"
    "tb_num r2 = tb_num r" "tb_last_key r2 = tb_last_key r" using r2(2) P(1,2) by (auto simp: r1_def writing_def)
  have ix: "\<exists>es rs. building (tb_index r) es rs \<and> map snd es = zip seps (map (\<lambda>b. handle_bytes (fst b)) (fs @ [(h, cur)]))"
    using I np(2) unfolding table_inv_def by (simp add: zip_append2)
  have "table_inv legal opt r2 (F @ G) (fs @ [(h, cur)]) seps []"
    unfolding table_inv_def using frame blocks srt lF W(2) ix np(2) r2(3) sep P(8,9) tight_Flush [OF P(11) np(2), of h] by auto
  then show ?thesis using fl r2(1) frame by auto
qed

end

text \<open>What holds between calls: the number of entries and the last key are those of the entries, and an index entry is pending if the data block is empty.\<close>

definition resting :: "table_builder \<Rightarrow> fin \<Rightarrow> (slice \<times> slice) list \<Rightarrow> bool" where
  "resting r fs cur \<longleftrightarrow> tb_num r = length (entries fs @ cur) \<and> (entries fs @ cur \<noteq> [] \<longrightarrow> tb_last_key r = fst (last (entries fs @ cur))) \<and>
     (tb_pending r \<or> fs = [] \<or> cur \<noteq> [])"

fun add_pairs :: "(slice \<times> slice) list \<Rightarrow> table_builder \<Rightarrow> table_builder option" where
  "add_pairs [] r = Some r"
| "add_pairs ((k, v) # kvs) r = Option.bind (tb_Add k v r) (add_pairs kvs)"

context table_options
begin

lemma mk_inv: "\<exists>r. mk_TableBuilder opt \<lparr>w_data = [], w_faults = []\<rparr> = Some r \<and> table_inv legal opt r [] [] [] [] \<and> tb_num r = 0"
proof -
  let ?f = "map_option (\<lambda>p. (p, mk_FilterBlockBuilder)) (o_policy opt)"
  obtain d i where b: "mk_BlockBuilder (o_interval opt) = Some d" "building d [] [0]" "mk_BlockBuilder 1 = Some i" "building i [] [0]"
    using interval by (simp add: mk_BlockBuilder_def building_def wf_ents_def)
  define r where "r = \<lparr>tb_opt = opt, tb_file = \<lparr>w_data = [], w_faults = []\<rparr>, tb_offset = 0, tb_status = OK, tb_data = d, tb_index = i, tb_last_key = [], tb_num = 0,
            tb_closed = False, tb_filter = ?f, tb_pending = False, tb_handle = mk_BlockHandle\<rparr>"
  have "\<exists>f. tb_StartBlock r = Some (r\<lparr>tb_filter := f\<rparr>) \<and> filtering opt f [(0, [])]"
  proof (cases "o_policy opt")
    case (Some p)
    then show ?thesis using StartBlock_inv [of "[]" 0, OF _ Some] by (auto simp: tb_StartBlock_def r_def filtering_def)
  qed (simp add: tb_StartBlock_def r_def filtering_def)
  then obtain f where f: "tb_StartBlock r = Some (r\<lparr>tb_filter := f\<rparr>)" "filtering opt f [(0, [])]" by blast
  have "mk_TableBuilder opt \<lparr>w_data = [], w_faults = []\<rparr> = tb_StartBlock r" using b(1,3) by (simp add: mk_TableBuilder_def r_def)
  moreover have "table_inv legal opt (r\<lparr>tb_filter := f\<rparr>) [] [] [] []"
    unfolding table_inv_def using b(2,4) f(2) by (auto simp: r_def writing_def separates_def tight_def)
  moreover have "tb_num (r\<lparr>tb_filter := f\<rparr>) = 0" by (simp add: r_def)
  ultimately show ?thesis using f(1) by metis
qed


lemma last_entry:
  assumes I: "table_inv legal opt r F fs seps []" and ne: "fs \<noteq> []"
  shows "entries fs \<noteq> []" "legal (fst (last (entries fs)))" "length (fst (last (entries fs))) + 64 \<le> wt (snd (last fs))"
    "\<forall>kv\<in>set (entries fs). o_cmp opt (fst kv) (fst (last (entries fs))) \<le> 0"
proof -
  note P = table_inv_parts [OF I]
  obtain gs h g where g: "fs = gs @ [(h, g)]" using ne by (metis rev_exhaust surj_pair)
  have g0: "g \<noteq> []" using P(4) g by simp
  then obtain as kv where a: "g = as @ [kv]" by (metis rev_exhaust)
  then have e: "entries fs = (entries gs @ as) @ [kv]" using g by simp
  show "entries fs \<noteq> []" "legal (fst (last (entries fs)))" using P(9) e by simp_all
  show "length (fst (last (entries fs))) + 64 \<le> wt (snd (last fs))" using e g a by simp
  show "\<forall>kv\<in>set (entries fs). o_cmp opt (fst kv) (fst (last (entries fs))) \<le> 0"
    using P(8,9) unfolding e by (auto simp: sorted_wrt_append less_imp_le)
qed

lemma data_Add_inv:
  assumes I: "table_inv legal opt r F fs seps cur" and np: "\<not> tb_pending r" and k: "legal k" "\<forall>kv\<in>set (entries fs @ cur). o_cmp opt (fst kv) k < 0"
    "\<forall>s\<in>set seps. o_cmp opt s k < 0" and t: "cur = [] \<Longrightarrow> fs \<noteq> [] \<Longrightarrow> last seps = o_sep opt (fst (last (entries fs))) k"
  shows "\<exists>d. bb_Add (o_cmp opt) k v (tb_data r) = Some d \<and>
    table_inv legal opt (r\<lparr>tb_filter := map_option (apsnd (AddKey k)) (tb_filter r), tb_last_key := k, tb_num := n, tb_data := d\<rparr>) F fs seps (cur @ [(k, v)])"
proof -
  note P = table_inv_parts [OF I]
  have lens: "length fs = length seps" using I np unfolding table_inv_def by simp
  obtain es rs where e: "building (tb_data r) es rs" "map snd es = cur" using I unfolding table_inv_def by blast
  have "o_cmp opt k (ekey es (length es - 1)) > 0" if "es \<noteq> []"
  proof -
    have "snd (es ! (length es - 1)) \<in> set cur" unfolding e(2) [symmetric] using that by simp
    then show ?thesis using k P(9) compare_flip [of k "ekey es (length es - 1)"] unfolding ekey_def by auto
  qed
  then obtain d sh rs' where d: "bb_Add (o_cmp opt) k v (tb_data r) = Some d" "building d (es @ [(sh, k, v)]) rs'" using bb_Add_building [OF e(1)] by metis
  have f: "filtering opt (map_option (apsnd (AddKey k)) (tb_filter r)) (map foffset fs @ [(length F, map fst (cur @ [(k, v)]))])"
    using I unfolding table_inv_def filtering_def by (auto simp: add_blocks_key split: option.splits)
  have s: "separates legal (o_cmp opt) seps fs (cur @ [(k, v)])" using P(7) k(3) unfolding separates_def by auto
  have o: "sorted_wrt (\<lambda>a b. o_cmp opt (fst a) (fst b) < 0) (entries fs @ cur @ [(k, v)])" "\<forall>kv\<in>set (entries fs @ cur @ [(k, v)]). legal (fst kv)"
    using P(8,9) k(1,2) by (auto simp: sorted_wrt_append)
  have "\<exists>es rs. building d es rs \<and> map snd es = cur @ [(k, v)]" using d(2) e(2) by (intro exI [of _ "es @ [(sh, k, v)]"]) auto
  moreover have "\<exists>es rs. building (tb_index r) es rs \<and> map snd es = zip seps (map (\<lambda>b. handle_bytes (fst b)) fs)" using I unfolding table_inv_def by blast
  ultimately have "table_inv legal opt (r\<lparr>tb_filter := map_option (apsnd (AddKey k)) (tb_filter r), tb_last_key := k, tb_num := n, tb_data := d\<rparr>) F fs seps (cur @ [(k, v)])"
    unfolding table_inv_def using P(1-6) np lens f s o tight_Add [OF P(11) lens _ t, of v] by (auto simp: writing_def)
  then show ?thesis using d(1) by blast
qed

lemma Add_inv:
  assumes I: "table_inv legal opt r F fs seps cur" and c: "resting r fs cur" and k: "legal k" "\<forall>kv\<in>set (entries fs @ cur). o_cmp opt (fst kv) k < 0"
    and sz: "wt (entries fs @ cur @ [(k, v)]) < 2 ^ 31"
  shows "\<exists>r' F' fs' seps' cur'. tb_Add k v r = Some r' \<and> table_inv legal opt r' F' fs' seps' cur' \<and> entries fs' @ cur' = entries fs @ cur @ [(k, v)] \<and>
    resting r' fs' cur'"
proof -
  note P = table_inv_parts [OF I]
  have ord: "\<not> (tb_num r > 0 \<and> \<not> o_cmp (tb_opt r) k (tb_last_key r) > 0)"
  proof (cases "entries fs @ cur = []")
    case False
    then show ?thesis using c k P(1,9) last_in_set [OF False] compare_flip [of k "tb_last_key r"] unfolding resting_def by auto
  qed (use c in \<open>simp add: resting_def\<close>)
  let ?r0 = "if tb_pending r then if bb_buffer (tb_data r) \<noteq> [] then None else add_index (o_sep (tb_opt r) (tb_last_key r) k) r else Some r"
  obtain r1 seps1 where r1: "?r0 = Some r1" "table_inv legal opt r1 F fs seps1 cur" "\<not> tb_pending r1" "tb_num r1 = tb_num r" "\<forall>s\<in>set seps1. o_cmp opt s k < 0"
    "cur = [] \<Longrightarrow> fs \<noteq> [] \<Longrightarrow> last seps1 = o_sep opt (fst (last (entries fs))) k"
  proof (cases "tb_pending r")
    case True
    then have cu: "cur = []" "length fs = Suc (length seps)" using I unfolding table_inv_def by simp_all
    then have I0: "table_inv legal opt r F fs seps []" and ne: "fs \<noteq> []" using I by auto
    note L = last_entry [OF I0 ne]
    have lk: "tb_last_key r = fst (last (entries fs))" using c L(1) cu(1) unfolding resting_def by simp
    have lt: "o_cmp opt (tb_last_key r) k < 0" using k(2) L(1) unfolding lk by simp
    let ?s = "o_sep opt (tb_last_key r) k"
    have S: "legal ?s" "o_cmp opt (tb_last_key r) ?s \<le> 0" "o_cmp opt ?s k < 0" using separator [OF _ k(1) lt] L(2) unfolding lk by auto
    have "\<forall>kv\<in>set (entries fs). o_cmp opt (fst kv) ?s \<le> 0" 
    proof
      fix kv assume kv: "kv \<in> set (entries fs)"
      then have "legal (fst kv)" "o_cmp opt (fst kv) (tb_last_key r) \<le> 0" using P(9) L(4) unfolding lk by auto
      then show "o_cmp opt (fst kv) ?s \<le> 0" using compare_trans [of "fst kv" "tb_last_key r" ?s] S(1,2) L(2) unfolding lk by blast
    qed
    moreover have "length ?s + 64 \<le> wt (snd (last fs))" using L(3) sep_length [of "tb_last_key r" k] unfolding lk by linarith
    ultimately obtain r1 where r1: "add_index ?s r = Some r1" "table_inv legal opt r1 F fs (seps @ [?s]) []" "\<not> tb_pending r1" "tb_num r1 = tb_num r"
      using add_index_inv [OF I0 True S(1)] by blast
    have e: "bb_buffer (tb_data r) = []" using I0 building_empty unfolding table_inv_def by (metis map_is_Nil_conv)
    have I1: "table_inv legal opt r1 F fs (seps @ [?s]) cur" using r1(2) cu(1) by simp
    note P1 = table_inv_parts [OF r1(2)]
    have "sorted_wrt (\<lambda>a b. o_cmp opt a b < 0) (seps @ [?s])" by (rule seps_sorted [OF P1(7)]) (use P1(4,9) cu in auto)
    moreover have "\<forall>s\<in>set seps. legal s" using P(7) unfolding separates_def by (metis in_set_conv_nth)
    ultimately have "\<forall>s\<in>set (seps @ [?s]). o_cmp opt s k < 0" using S k(1) compare_less_trans(2) [of _ ?s k] by (auto simp: sorted_wrt_append less_imp_le)
    then show ?thesis using that [OF _ I1] r1 e True P(1) lk by simp
  next
    case False
    have "o_cmp opt s k < 0" if s: "s \<in> set seps" for s
    proof -
      obtain i where i: "i < length seps" "s = seps ! i" using s by (metis in_set_conv_nth)
      have "length fs = length seps" using I False unfolding table_inv_def by simp
      then obtain kv where kv: "kv \<in> set cur" using c False i(1) unfolding resting_def by (cases cur) auto
      then have "o_cmp opt s (fst kv) < 0" "legal s" using P(7) i unfolding separates_def by simp_all
      then show ?thesis using kv k P(9) compare_less_trans(2) [of s "fst kv" k] by (auto simp: less_imp_le)
    qed
    then show ?thesis using that [of r seps] False I c by (auto simp: resting_def)
  qed
  obtain d where d: "bb_Add (o_cmp opt) k v (tb_data r1) = Some d"
    "table_inv legal opt (r1\<lparr>tb_filter := map_option (apsnd (AddKey k)) (tb_filter r1), tb_last_key := k, tb_num := tb_num r1 + 1, tb_data := d\<rparr>) F fs seps1 (cur @ [(k, v)])"
    using data_Add_inv [OF r1(2,3) k r1(5,6)] by blast
  define r2 where "r2 = r1\<lparr>tb_filter := map_option (apsnd (AddKey k)) (tb_filter r1), tb_last_key := k, tb_num := tb_num r1 + 1, tb_data := d\<rparr>"
  note I2 = d(2) [folded r2_def]
  have c2: "resting r2 fs (cur @ [(k, v)])" using c r1(4) unfolding resting_def r2_def by simp
  note P1 = table_inv_parts [OF r1(2)]
  have add: "tb_Add k v r = (if CurrentSizeEstimate d \<ge> o_block_size opt then tb_Flush r2 else Some r2)"
    unfolding tb_Add_def if_not_P [OF ord] r1(1) using P(2,10) d(1) P1(1) by (simp add: r2_def Let_def)
  show ?thesis
  proof (cases "CurrentSizeEstimate d \<ge> o_block_size opt")
    case True
    obtain r' h G where "tb_Flush r2 = Some r'" "table_inv legal opt r' (F @ G) (fs @ [(h, cur @ [(k, v)])]) seps1 []"
      "tb_num r' = tb_num r2" "tb_last_key r' = tb_last_key r2" "tb_pending r'" using Flush_inv [OF I2] sz by auto
    then show ?thesis using add True c2 unfolding resting_def
      by (intro exI [of _ r'] exI [of _ "F @ G"] exI [of _ "fs @ [(h, cur @ [(k, v)])]"] exI [of _ seps1] exI [of _ "[]"]) simp
  next
    case False
    then show ?thesis using add I2 c2 by fastforce
  qed
qed

end

section \<open>The finished file\<close>

text \<open>The builder while \<open>Finish\<close> writes.\<close>

definition moved :: "byte list \<Rightarrow> table_builder \<Rightarrow> table_builder" where
  "moved F r = r\<lparr>tb_closed := True, tb_file := \<lparr>w_data = F, w_faults = []\<rparr>, tb_status := OK, tb_offset := word_of_nat (length F)\<rparr>"

lemma moved_simps [simp]:
  "tb_opt (moved F r) = tb_opt r" "tb_filter (moved F r) = tb_filter r" "tb_index (moved F r) = tb_index r" "tb_pending (moved F r) = tb_pending r"
  "tb_last_key (moved F r) = tb_last_key r" "tb_ok (moved F r)" "tb_status (moved F r) = OK" "writing (moved F r) F"
  "(moved F r)\<lparr>tb_file := \<lparr>w_data = G, w_faults = []\<rparr>, tb_status := OK, tb_offset := word_of_nat (length G)\<rparr> = moved G r"
  "(moved F r)\<lparr>tb_file := \<lparr>w_data = F @ G, w_faults = []\<rparr>, tb_status := OK, tb_offset := word_of_nat (length F) + word_of_nat (length G)\<rparr> = moved (F @ G) r"
  by (simp_all add: moved_def tb_ok_def writing_def)

lemma add_index_moved: "add_index k (moved F r) = map_option (moved F) (add_index k r)"
  by (cases "bh_EncodeTo (tb_handle r) []"; cases "bb_Add (o_cmp (tb_opt r)) k (the (bh_EncodeTo (tb_handle r) [])) (tb_index r)")
    (simp_all add: add_index_def moved_def)

definition filter_at :: "options \<Rightarrow> byte list \<Rightarrow> BlockHandle \<Rightarrow> fin \<Rightarrow> policy \<Rightarrow> bool" where
  "filter_at opt F h fs p \<longleftrightarrow> good_handle h \<and> (\<exists>c n. stored opt F h c \<and> sorted (map fst (map foffset fs @ [(n, [])])) \<and>
     build_filter (p_create p) (map foffset fs @ [(n, [])]) = Some c \<and> length c < 2 ^ 32)"

definition table_file :: "(slice \<Rightarrow> bool) \<Rightarrow> options \<Rightarrow> byte list \<Rightarrow> fin \<Rightarrow> slice list \<Rightarrow> bool" where
  "table_file legal opt F fs seps \<longleftrightarrow> (\<exists>D ft e. F = D @ e \<and> ft_EncodeTo ft [] = Some e \<and> good_handle (metaindex_handle ft) \<and> good_handle (index_handle ft) \<and>
     (\<forall>(h, g)\<in>set fs. g \<noteq> [] \<and> good_handle h \<and> block_at opt D h g) \<and>
     sorted_wrt (<) (map (\<lambda>b. unat (bh_offset (fst b))) fs) \<and>
     length seps = length fs \<and> block_at opt D (index_handle ft) (zip seps (map (\<lambda>b. handle_bytes (fst b)) fs)) \<and>
     separates legal (o_cmp opt) seps fs [] \<and> tight (o_sep opt) seps fs [] \<and>
     sorted_wrt (\<lambda>a b. o_cmp opt (fst a) (fst b) < 0) (entries fs) \<and> (\<forall>kv\<in>set (entries fs). legal (fst kv)) \<and>
     (\<forall>p. o_policy opt = Some p \<longrightarrow> (\<exists>h. block_at opt D (metaindex_handle ft) [(filter_key p, handle_bytes h)] \<and> filter_at opt D h fs p)))"

lemma filter_at_append: "filter_at opt F h fs p \<Longrightarrow> filter_at opt (F @ G) h fs p"
  unfolding filter_at_def using stored_append by blast

context table_options
begin

lemma write_filter_stored:
  assumes I: "table_inv legal opt r F fs seps []" and sz: "wt (entries fs) + C * length (entries fs) < 2 ^ 31"
  shows "\<exists>h G. write_filter (moved F r) = (h, moved (F @ G) r) \<and> length G < 2 ^ 32 + 5 \<and> (\<forall>p. o_policy opt = Some p \<longrightarrow> filter_at opt (F @ G) h fs p)"
proof (cases "o_policy opt")
  case None
  then show ?thesis using I by (intro exI [of _ mk_BlockHandle] exI [of _ "[]"]) (simp add: write_filter_def table_inv_def filtering_def)
next
  case (Some p)
  note P = table_inv_parts [OF I]
  let ?bs = "map foffset fs @ [(length F, [])]"
  obtain fb where fb: "tb_filter r = Some (p, fb)" "add_blocks (p_create p) ?bs mk_FilterBlockBuilder = Some fb"
    using I Some unfolding table_inv_def filtering_def by auto
  have srt: "sorted (map fst ?bs)" using P(5) strict_sorted_imp_sorted by fastforce
  have keys: "length (concat (map snd ?bs)) = length (entries fs)" by (simp add: entries_def foffset_def length_concat comp_def)
  obtain c where c: "build_filter (p_create p) ?bs = Some c" "length c \<le> C * length (concat (map snd ?bs)) + 4 * (fst (last ?bs) div kFilterBase) + 9"
    using build_filter_size [OF _ srt, of "p_create p" "p_may p" C] policy [OF Some] by auto
  have lc: "length c < 2 ^ 32"
  proof -
    have "4 * (length F div kFilterBase) \<le> length F" by (simp add: kFilterBase_def kFilterBaseLg_def)
    then show ?thesis using c(2) sz P(6) unfolding keys by simp
  qed
  have fin: "fb_Finish (p_create p) fb = c" using c(1) fb(2) by (simp add: build_filter_def)
  obtain h G where hG: "WriteRawBlock c None (moved F r) = (h, moved (F @ G) r)" "length G = length c + 5" "stored opt (F @ G) h c" "good_handle h"
    using WriteRawBlock_stored [of "moved F r" F c None c] lc P(1,6) sz by (auto simp: stands_for_def)
  have "write_filter (moved F r) = (h, moved (F @ G) r)" unfolding write_filter_def using fb(1) fin hG(1) by simp
  moreover have "filter_at opt (F @ G) h fs p" unfolding filter_at_def using hG(3,4) srt c(1) lc by blast
  ultimately show ?thesis using hG(2) lc Some by auto
qed

lemma write_metaindex_stored:
  assumes o: "tb_opt r = opt" and f: "filtering opt (tb_filter r) bs" and h: "\<forall>p. o_policy opt = Some p \<longrightarrow> good_handle h" and F: "length F < 2 ^ 34"
  shows "\<exists>m G. write_metaindex h (moved F r) = Some (m, moved (F @ G) r) \<and> length G < 2 ^ 33 \<and> good_handle m \<and>
    block_at opt (F @ G) m (case o_policy opt of None \<Rightarrow> [] | Some p \<Rightarrow> [(filter_key p, handle_bytes h)])"
proof -
  let ?kvs = "case o_policy opt of None \<Rightarrow> [] | Some p \<Rightarrow> [(filter_key p, handle_bytes h)]"
  obtain b where b: "mk_BlockBuilder (o_interval opt) = Some b" "building b [] [0]"
    using interval by (simp add: mk_BlockBuilder_def building_def wf_ents_def)
  have "\<exists>b' es rs. (case tb_filter r of None \<Rightarrow> Some b | Some _ \<Rightarrow> do { p \<leftarrow> o_policy opt; e \<leftarrow> bh_EncodeTo h []; bb_Add (o_cmp opt) (filter_key p) e b }) = Some b' \<and>
      building b' es rs \<and> map snd es = ?kvs"
  proof (cases "o_policy opt")
    case (Some p)
    then have e: "bh_EncodeTo h [] = Some (handle_bytes h)" using h EncodeTo_good [of h "[]"] by simp
    obtain b' sh rs where "bb_Add (o_cmp opt) (filter_key p) (handle_bytes h) b = Some b'" "building b' ([] @ [(sh, filter_key p, handle_bytes h)]) rs"
      using bb_Add_building [OF b(2), of "o_cmp opt" "filter_key p" "handle_bytes h"] by auto
    moreover obtain fb where "tb_filter r = Some (p, fb)" using f Some by (auto simp: filtering_def)
    ultimately show ?thesis using Some e by (intro exI [of _ b'] exI [of _ "[(sh, filter_key p, handle_bytes h)]"] exI [of _ rs]) simp
  qed (use b f in \<open>auto simp: filtering_def\<close>)
  then obtain b' es rs where b': "(case tb_filter r of None \<Rightarrow> Some b | Some _ \<Rightarrow> do { p \<leftarrow> o_policy opt; e \<leftarrow> bh_EncodeTo h []; bb_Add (o_cmp opt) (filter_key p) e b }) = Some b'"
    "building b' es rs" "map snd es = ?kvs" by blast
  have "wt ?kvs < 2 ^ 31" using policy handle_length [of h] by (auto simp: filter_key_def ascii_def split: option.split)
  then have sz: "length (block_bytes es rs) < 2 ^ 32 - 5" using block_size [OF b'(2)] unfolding b'(3) by simp
  obtain m G b'' where W: "WriteBlock b' (moved F r) = Some (b'', m, moved (F @ G) r)" "length G \<le> length (block_bytes es rs) + 5"
    "block_at opt (F @ G) m (map snd es)" "good_handle m"
    using WriteBlock_stored [of "moved F r" F b' es rs] o b'(2) sz F by auto
  have "write_metaindex h (moved F r) = Some (m, moved (F @ G) r)"
    unfolding write_metaindex_def moved_simps o b(1) using b'(1) W(1) by simp
  then show ?thesis using W(2-4) sz unfolding b'(3) by auto
qed

lemma write_index_stored:
  assumes I: "table_inv legal opt r F0 fs seps []" and p: "tb_pending r \<or> fs = []" and lk: "entries fs \<noteq> [] \<longrightarrow> tb_last_key r = fst (last (entries fs))"
    and F: "length F < 2 ^ 35" and sz: "wt (entries fs) < 2 ^ 31"
  shows "\<exists>i G r' seps'. write_index (moved F r) = Some (i, moved (F @ G) r') \<and> good_handle i \<and> length seps' = length fs \<and>
    block_at opt (F @ G) i (zip seps' (map (\<lambda>b. handle_bytes (fst b)) fs)) \<and> separates legal (o_cmp opt) seps' fs [] \<and> tight (o_sep opt) seps' fs [] \<and> length G < 2 ^ 33"
proof -
  note P = table_inv_parts [OF I]
  let ?ix = "if tb_pending r then add_index (o_succ opt (tb_last_key r)) (moved F r) else Some (moved F r)"
  obtain r1 seps1 where r1: "?ix = Some (moved F r1)" "table_inv legal opt r1 F0 fs seps1 []" "length seps1 = length fs"
  proof (cases "tb_pending r")
    case True
    then have ne: "fs \<noteq> []" using I unfolding table_inv_def by auto
    note L = last_entry [OF I ne]
    have lk': "tb_last_key r = fst (last (entries fs))" using lk L(1) by blast
    let ?s = "o_succ opt (tb_last_key r)"
    have S: "legal ?s" "o_cmp opt (tb_last_key r) ?s \<le> 0" using successor L(2) unfolding lk' by auto
    have "\<forall>kv\<in>set (entries fs). o_cmp opt (fst kv) ?s \<le> 0"
      using compare_trans [of _ "tb_last_key r" ?s] S L(2,4) P(9) unfolding lk' by simp
    moreover have "length ?s + 64 \<le> wt (snd (last fs))" using L(3) succ_length [of "tb_last_key r"] unfolding lk' by linarith
    ultimately obtain r1 where r1: "add_index ?s r = Some r1" "table_inv legal opt r1 F0 fs (seps @ [?s]) []" "\<not> tb_pending r1"
      using add_index_inv [OF I True S(1)] by blast
    then have "length (seps @ [?s]) = length fs" unfolding table_inv_def by simp
    then show ?thesis using that [of r1 "seps @ [?s]"] r1 True by (simp add: add_index_moved)
  next
    case False
    then have "length seps = length fs" using I unfolding table_inv_def by simp
    then show ?thesis using that [OF _ I] False by simp
  qed
  note P1 = table_inv_parts [OF r1(2)]
  obtain es rs where e: "building (tb_index r1) es rs" "map snd es = zip seps1 (map (\<lambda>b. handle_bytes (fst b)) fs)"
    using table_inv_index [OF r1(2)] by metis
  have "length es = length fs" using arg_cong [OF e(2), of length] r1(3) by simp
  moreover have "wt (zip ss (map (\<lambda>b. handle_bytes (fst b)) gs)) \<le> wt (entries gs) + 20 * length gs"
    if "length ss = length gs" "\<forall>i<length ss. length (ss ! i) + 64 \<le> wt (snd (gs ! i))" for ss and gs :: fin
    using that
  proof (induction ss gs rule: list_induct2)
    case (Cons s ss g gs)
    have "length s + 64 \<le> wt (snd g)" "\<forall>i<length ss. length (ss ! i) + 64 \<le> wt (snd (gs ! i))" using Cons.prems by force+
    then show ?case using Cons.IH handle_length [of "fst g"] by (cases g) simp
  qed simp
  ultimately have sz': "length (block_bytes es rs) < 2 ^ 32" using block_size [OF e(1)] e(2) P1(7) r1(3) sz unfolding separates_def by fastforce
  obtain b i G where W: "WriteBlock (tb_index r1) (moved F r1) = Some (b, i, moved (F @ G) r1)" "length G \<le> length (block_bytes es rs) + 5"
    "block_at opt (F @ G) i (map snd es)" "good_handle i"
    using WriteBlock_stored [of "moved F r1" F "tb_index r1" es rs] P1(1) e(1) sz' F by auto
  have "(moved (F @ G) r1)\<lparr>tb_index := b\<rparr> = moved (F @ G) (r1\<lparr>tb_index := b\<rparr>)" by (simp add: moved_def)
  then have "write_index (moved F r) = Some (i, moved (F @ G) (r1\<lparr>tb_index := b\<rparr>))"
    unfolding write_index_def moved_simps P(1) r1(1) using W(1) by simp
  moreover have "length G < 2 ^ 33" using W(2) sz' by simp
  ultimately show ?thesis using W(3,4) r1(3) P1(7,11) unfolding e(2) by blast
qed

lemma Finish_inv:
  assumes I: "table_inv legal opt r F fs seps cur" and R: "resting r fs cur" and sz: "wt (entries fs @ cur) + C * length (entries fs @ cur) < 2 ^ 31"
  shows "\<exists>r' F' fs' seps'. tb_Finish r = Some (OK, r') \<and> tb_file r' = \<lparr>w_data = F', w_faults = []\<rparr> \<and> FileSize r' = word_of_nat (length F') \<and>
    length F' < 2 ^ 36 \<and> table_file legal opt F' fs' seps' \<and> entries fs' = entries fs @ cur"
proof -
  obtain r1 F1 fs1 where r1: "tb_Flush r = Some r1" "table_inv legal opt r1 F1 fs1 seps []" "entries fs1 = entries fs @ cur" "tb_pending r1 \<or> fs1 = []"
    "entries fs1 \<noteq> [] \<longrightarrow> tb_last_key r1 = fst (last (entries fs1))"
  proof (cases "cur = []")
    case True
    then have "bb_buffer (tb_data r) = []" using I building_empty unfolding table_inv_def by (metis map_is_Nil_conv)
    then show ?thesis using that [of r F fs] True I R table_inv_parts(2,10) [OF I] unfolding resting_def tb_Flush_def by auto
  next
    case False
    then obtain r' h G where "tb_Flush r = Some r'" "table_inv legal opt r' (F @ G) (fs @ [(h, cur)]) seps []" "tb_pending r'" "tb_last_key r' = tb_last_key r"
      using Flush_inv [OF I] sz by auto
    then show ?thesis using that [of r' "F @ G" "fs @ [(h, cur)]"] R False unfolding resting_def by auto
  qed
  note P = table_inv_parts [OF r1(2)]
  have c: "r1\<lparr>tb_closed := True\<rparr> = moved F1 r1" using P(3) unfolding writing_def moved_def by (cases r1) simp
  obtain fh G1 where f: "write_filter (moved F1 r1) = (fh, moved (F1 @ G1) r1)" "length G1 < 2 ^ 32 + 5" "\<forall>p. o_policy opt = Some p \<longrightarrow> filter_at opt (F1 @ G1) fh fs1 p"
    using write_filter_stored [OF r1(2)] sz r1(3) by auto
  note filt = table_inv_filter [OF r1(2)]
  have "\<forall>p. o_policy opt = Some p \<longrightarrow> good_handle fh" using f(3) unfolding filter_at_def by blast
  moreover have "length (F1 @ G1) < 2 ^ 34" using P(6) f(2) sz r1(3) by simp
  ultimately obtain mh G2 where m: "write_metaindex fh (moved (F1 @ G1) r1) = Some (mh, moved ((F1 @ G1) @ G2) r1)" "length G2 < 2 ^ 33" "good_handle mh"
    "block_at opt ((F1 @ G1) @ G2) mh (case o_policy opt of None \<Rightarrow> [] | Some p \<Rightarrow> [(filter_key p, handle_bytes fh)])"
    using write_metaindex_stored [OF P(1) filt, of fh "F1 @ G1"] by blast
  define F2 where "F2 = (F1 @ G1) @ G2"
  have "length F2 < 2 ^ 35" using P(6) f(2) m(2) sz r1(3) by (simp add: F2_def)
  then obtain ih G3 r2 seps2 where i: "write_index (moved F2 r1) = Some (ih, moved (F2 @ G3) r2)" "good_handle ih" "length seps2 = length fs1"
    "block_at opt (F2 @ G3) ih (zip seps2 (map (\<lambda>b. handle_bytes (fst b)) fs1))" "separates legal (o_cmp opt) seps2 fs1 []" "tight (o_sep opt) seps2 fs1 []" "length G3 < 2 ^ 33"
    using write_index_stored [OF r1(2,4,5), of F2] sz r1(3) by auto
  define D where "D = F2 @ G3"
  let ?ft = "\<lparr>metaindex_handle = mh, index_handle = ih\<rparr>"
  obtain e where e: "ft_EncodeTo ?ft [] = Some e" "length e = kEncodedLength" using footer_roundtrip_aux [of ?ft] m(3) i(2) by auto
  have w: "write_footer mh ih (moved D r2) = Some (moved (D @ e) r2)" using e(1) by (simp add: write_footer_def Append_def moved_def tb_ok_def)
  have "tb_Finish r = Some (OK, moved (D @ e) r2)"
    unfolding tb_Finish_def r1(1) using c f(1) m(1) i(1) w unfolding F2_def [symmetric] D_def [symmetric] by simp
  moreover have D: "D = F1 @ G1 @ G2 @ G3" "D = (F1 @ G1) @ G2 @ G3" "D = ((F1 @ G1) @ G2) @ G3" by (simp_all add: D_def F2_def)
  have "table_file legal opt (D @ e) fs1 seps2"
  proof -
    have "\<forall>(h, g)\<in>set fs1. g \<noteq> [] \<and> good_handle h \<and> block_at opt D h g" using P(4) block_at_append unfolding D(1) by blast
    moreover have "\<exists>h. block_at opt D mh [(filter_key p, handle_bytes h)] \<and> filter_at opt D h fs1 p" if "o_policy opt = Some p" for p
      using f(3) m(4) that block_at_append filter_at_append unfolding D(2,3) by (metis append.assoc option.simps(5))
    moreover have "sorted_wrt (<) (map (\<lambda>b. unat (bh_offset (fst b))) fs1)"
    proof -
      have "sorted_wrt (<) (map fst (map foffset fs1))" using P(5) by (simp only: map_append sorted_wrt_append)
      moreover have "map fst (map foffset fs1) = map (\<lambda>b. unat (bh_offset (fst b))) fs1" by (simp add: foffset_def)
      ultimately show ?thesis by (simp only:)
    qed
    ultimately show ?thesis unfolding table_file_def using e(1) m(3) i(2-6) P(8,9) unfolding D_def [symmetric] 
      by (intro exI [of _ D] exI [of _ ?ft] exI [of _ e]) simp
  qed
  moreover have "length (D @ e) < 2 ^ 36" using P(6) f(2) m(2) i(7) e(2) sz r1(3) by (simp add: D(1) kEncodedLength_def kMaxEncodedLength_def)
  moreover have "tb_file (moved (D @ e) r2) = \<lparr>w_data = D @ e, w_faults = []\<rparr>" "FileSize (moved (D @ e) r2) = word_of_nat (length (D @ e))"
    by (simp_all add: moved_def FileSize_def)
  ultimately show ?thesis using r1(3) by blast
qed

end

section \<open>Reading the file\<close>

lemma find_append: "find P (xs @ ys) = (case find P xs of None \<Rightarrow> find P ys | Some x \<Rightarrow> Some x)"
  by (induction xs) simp_all

text \<open>Where \<open>Seek\<close> stops.\<close>

abbreviation (input) seek_at :: "(slice \<Rightarrow> slice \<Rightarrow> int) \<Rightarrow> slice \<Rightarrow> (slice \<times> slice) list \<Rightarrow> (slice \<times> slice) option" where
  "seek_at cmp k kvs \<equiv> find (\<lambda>kv. \<not> cmp (fst kv) k < 0) kvs"

lemma seek_at_rank: "seek_at cmp k kvs = (let i = rank cmp k (map fst kvs) in if i < length kvs then Some (kvs ! i) else None)"
  by (induction kvs) (simp_all add: rank_def Let_def)

lemma ni_Seek_block:
  assumes T: "three_way legal cmp" and w: "wf_block es rs" and k: "legal k"
    and s: "sorted_wrt (\<lambda>a b. cmp (fst a) (fst b) < 0) (map snd es)" and l: "\<forall>kv\<in>set (map snd es). legal (fst kv)"
  shows "\<exists>it0 it. Block_NewIterator (mk_Block (block_bytes es rs)) = Some it0 \<and> ni_Seek cmp k it0 = Some it \<and> ni_status it = OK \<and>
    (case seek_at cmp k (map snd es) of None \<Rightarrow> \<not> ni_Valid it | Some (k', v') \<Rightarrow> ni_Valid it \<and> ni_key it = Some k' \<and> ni_value it = Some v')"
proof -
  have ks: "ekeys es = map fst (map snd es)" by (simp add: ekeys_def)
  let ?i = "rank cmp k (ekeys es)"
  obtain b where b: "Block_NewIterator (mk_Block (block_bytes es rs)) = Some (Block_Iter b)" "over es rs b" using NewIterator_over [OF w] by blast
  have "sorted_wrt (\<lambda>a b. cmp a b < 0) (ekeys es)" "\<forall>x\<in>set (ekeys es). legal x" unfolding ks using s l by (simp_all add: sorted_wrt_map)
  then obtain b' where b': "bi_Seek cmp k b = Some b'" "at_ent es rs b' ?i" using bi_Seek_over [OF T w b(2) k] by blast
  note A = cursor.valid_at [OF block_cursor [OF w] b'(2)] cursor.get_at [OF block_cursor [OF w] b'(2)]
  have "bi_status b' = OK" using b'(2) unfolding at_ent_def over_def by blast
  moreover have "case seek_at cmp k (map snd es) of None \<Rightarrow> \<not> bi_Valid b' | Some (k', v') \<Rightarrow> bi_Valid b' \<and> bi_key_of b' = Some k' \<and> bi_value b' = Some v'"
  proof (cases "?i < length es")
    case True
    then have "bi_item b' = Some (snd (es ! ?i))" "bi_Valid b'" using A by simp_all
    then show ?thesis unfolding seek_at_rank Let_def ks [symmetric] using True
      by (cases "snd (es ! ?i)") (auto simp: bi_item_def bind_eq_Some_conv)
  next
    case False
    then show ?thesis using A(1) unfolding seek_at_rank Let_def ks [symmetric] by simp
  qed
  ultimately have "Block_NewIterator (mk_Block (block_bytes es rs)) = Some (Block_Iter b) \<and> ni_Seek cmp k (Block_Iter b) = Some (Block_Iter b') \<and>
    ni_status (Block_Iter b') = OK \<and> (case seek_at cmp k (map snd es) of None \<Rightarrow> \<not> ni_Valid (Block_Iter b')
      | Some (k', v') \<Rightarrow> ni_Valid (Block_Iter b') \<and> ni_key (Block_Iter b') = Some k' \<and> ni_value (Block_Iter b') = Some v')"
    using b(1) b'(1) by (simp add: ni_Seek_def ni_status_def ni_Valid_def ni_key_def ni_value_def split: option.splits prod.splits)
  then show ?thesis by blast
qed

lemma ReadBlock_stored: "stored opt D h raw \<Longrightarrow> \<exists>cachable. ReadBlock (mem_file mapped (D @ e)) opt v h = Some (OK, raw, cachable)"
  unfolding stored_def by blast

lemma reader_defined: "build_filter create bs = Some c \<Longrightarrow> \<exists>r. fr_KeyMayMatch may (mk_FilterBlockReader c) p k = Some r"
proof -
  assume "build_filter create bs = Some c"
  then obtain x where c: "c = x @ [11]" by (auto simp: build_filter_def fb_Finish_def Let_def kFilterBaseLg_def)
  have "sint (11 :: byte) = 11" by code_simp
  then have "fr_base_lg (mk_FilterBlockReader c) \<in> {0, 11}" unfolding c by (simp add: mk_FilterBlockReader_def Let_def)
  then show ?thesis by (auto simp: fr_KeyMayMatch_def Let_def)
qed

definition opened :: "options \<Rightarrow> byte list \<Rightarrow> fin \<Rightarrow> slice list \<Rightarrow> Table \<Rightarrow> bool" where
  "opened opt F fs seps t \<longleftrightarrow> t_opt t = opt \<and> (\<exists>mapped. t_file t = mem_file mapped F) \<and>
     (\<exists>es rs. wf_block es rs \<and> map snd es = zip seps (map (\<lambda>b. handle_bytes (fst b)) fs) \<and> t_index t = mk_Block (block_bytes es rs)) \<and>
     (\<forall>p. o_policy opt = Some p \<longrightarrow> (\<exists>c n. t_filter t = Some (mk_FilterBlockReader c) \<and> sorted (map fst (map foffset fs @ [(n, [])])) \<and>
        build_filter (p_create p) (map foffset fs @ [(n, [])]) = Some c \<and> length c < 2 ^ 32))"

lemma ReadMeta_filter:
  assumes p: "o_policy opt = Some p" and m: "block_at opt D (metaindex_handle ft) [(filter_key p, handle_bytes h)]" and f: "stored opt D h c"
  shows "ReadMeta (mem_file mapped (D @ e)) opt ft = Some (Some (mk_FilterBlockReader c))"
proof -
  obtain es rs where E: "wf_block es rs" "map snd es = [(filter_key p, handle_bytes h)]" "stored opt D (metaindex_handle ft) (block_bytes es rs)"
    using m unfolding block_at_def by auto
  obtain it0 it where it: "Block_NewIterator (mk_Block (block_bytes es rs)) = Some it0" "ni_Seek BytewiseCompare (filter_key p) it0 = Some it"
    "ni_Valid it" "ni_key it = Some (filter_key p)" "ni_value it = Some (handle_bytes h)"
    using ni_Seek_block [OF bytewise.three_way_axioms E(1), of "filter_key p"] unfolding E(2) by auto
  have "bh_DecodeFrom (handle_bytes h) = Some (h, [])" using handle.decode_encode [of h "[]"] by simp
  then have "ReadFilter (mem_file mapped (D @ e)) opt (handle_bytes h) = Some (Some (mk_FilterBlockReader c))"
    using ReadBlock_stored [OF f, of mapped e "o_paranoid opt"] by (auto simp: ReadFilter_def)
  then show ?thesis using p ReadBlock_stored [OF E(3), of mapped e "o_paranoid opt"] it by (auto simp: ReadMeta_def)
qed

lemma Open_file:
  assumes "table_file legal opt F fs seps"
  shows "\<exists>t. Table_Open opt (mem_file mapped F) (length F) bc = Some (OK, Some t, snd (new_cache_id bc)) \<and> opened opt F fs seps t \<and> t_cache_id t = fst (new_cache_id bc)"
proof -
  obtain D ft e where T: "F = D @ e" "ft_EncodeTo ft [] = Some e" "good_handle (metaindex_handle ft)" "good_handle (index_handle ft)"
    "block_at opt D (index_handle ft) (zip seps (map (\<lambda>b. handle_bytes (fst b)) fs))"
    "\<forall>p. o_policy opt = Some p \<longrightarrow> (\<exists>h. block_at opt D (metaindex_handle ft) [(filter_key p, handle_bytes h)] \<and> filter_at opt D h fs p)"
    using assms unfolding table_file_def by blast
  have e: "length e = kEncodedLength" "ft_DecodeFrom e = Some (OK, ft, [])" using footer_roundtrip_aux [OF T(3,4)] T(2) by auto
  obtain es rs where E: "wf_block es rs" "map snd es = zip seps (map (\<lambda>b. handle_bytes (fst b)) fs)" "stored opt D (index_handle ft) (block_bytes es rs)"
    using T(5) unfolding block_at_def by blast
  obtain fr where fr: "ReadMeta (mem_file mapped F) opt ft = Some fr" "\<forall>p. o_policy opt = Some p \<longrightarrow> (\<exists>c n. fr = Some (mk_FilterBlockReader c) \<and>
      sorted (map fst (map foffset fs @ [(n, [])])) \<and> build_filter (p_create p) (map foffset fs @ [(n, [])]) = Some c \<and> length c < 2 ^ 32)"
  proof (cases "o_policy opt")
    case None
    then show ?thesis using that [of None] by (simp add: ReadMeta_def)
  next
    case (Some p)
    then obtain h c n where "block_at opt D (metaindex_handle ft) [(filter_key p, handle_bytes h)]" "stored opt D h c"
      "sorted (map fst (map foffset fs @ [(n, [])]))" "build_filter (p_create p) (map foffset fs @ [(n, [])]) = Some c" "length c < 2 ^ 32"
      using T(6) unfolding filter_at_def by blast
    then show ?thesis using that [OF ReadMeta_filter [OF Some, of D ft h c mapped e, folded T(1)]] Some by auto
  qed
  have lF: "\<not> length F < kEncodedLength" using e(1) by (simp add: T(1))
  have rd: "mem_file mapped F (length F - kEncodedLength) kEncodedLength = (OK, e, \<not> mapped)" using e(1) by (simp add: mem_file_def T(1))
  have "Table_Open opt (mem_file mapped F) (length F) bc = Some (OK, Some \<lparr>t_opt = opt, t_file = mem_file mapped F, t_cache_id = fst (new_cache_id bc), t_filter = fr,
      t_metaindex = metaindex_handle ft, t_index = mk_Block (block_bytes es rs)\<rparr>, snd (new_cache_id bc))"
    using e(2) rd ReadBlock_stored [OF E(3), of mapped e "o_paranoid opt", folded T(1)] fr(1) lF by (auto simp: Table_Open_def split_beta)
  then show ?thesis using E(1,2) fr(2) unfolding opened_def by auto
qed

section \<open>The block cache\<close>

text \<open>
  The invariant of the block cache. \<open>reg\<close> are the blocks of the table that got each identifier; a cached block is the one of a table at its offset, no identifier after the last one is
  in use, and \<open>room\<close> more tables can be opened before the 64-bit counter of identifiers starts again.
\<close>

definition block_with :: "(slice \<times> slice) list \<Rightarrow> block \<Rightarrow> bool" where
  "block_with kvs b \<longleftrightarrow> (\<exists>es rs. wf_block es rs \<and> map snd es = kvs \<and> b = mk_Block (block_bytes es rs))"

definition cached_block :: "(u64 \<Rightarrow> fin option) \<Rightarrow> slice \<Rightarrow> block \<Rightarrow> bool" where
  "cached_block reg k b \<longleftrightarrow> (\<exists>n fs h g. k = block_key n (bh_offset h) \<and> reg n = Some fs \<and> (h, g) \<in> set fs \<and> block_with g b)"

definition block_cache_ok :: "(u64 \<Rightarrow> fin option) \<Rightarrow> nat \<Rightarrow> (nat \<times> nat \<Rightarrow> nat) \<Rightarrow> block_cache \<Rightarrow> bool" where
  "block_cache_ok reg room held bc \<longleftrightarrow> (case bc of None \<Rightarrow> True
     | Some c \<Rightarrow> (\<exists>m. cache_ok (last_id c) held m c \<and> (\<forall>k b. m k = Some b \<longrightarrow> cached_block reg k b)) \<and>
         (\<forall>n. reg n \<noteq> None \<longrightarrow> n \<le> last_id c) \<and> unat (last_id c) + room < 2 ^ 64)"

lemma NewLRUCache_blocks:
  assumes "0 < cap" and "cap \<le> - 16" and "room < 2 ^ 64"
  shows "block_cache_ok (\<lambda>_. None) room (\<lambda>_. 0) (Some (NewLRUCache cap))"
proof -
  have "cache_ok 0 (\<lambda>_. 0) (\<lambda>_. None) (NewLRUCache cap :: block ShardedLRUCache)" "last_id (NewLRUCache cap :: block ShardedLRUCache) = 0"
    using NewLRUCache_inv [OF assms(1,2)] by (auto simp: cache_ok_def NewLRUCache_def Let_def)
  then show ?thesis using assms(3) by (auto simp: block_cache_ok_def)
qed

text \<open>The table has the blocks \<open>fs\<close> under its identifier.\<close>

definition registered :: "(u64 \<Rightarrow> fin option) \<Rightarrow> block_cache \<Rightarrow> u64 \<Rightarrow> fin \<Rightarrow> bool" where
  "registered reg bc n fs \<longleftrightarrow> (bc \<noteq> None \<longrightarrow> reg n = Some fs)"

lemma block_key_inj: "block_key n p = block_key n' p' \<longleftrightarrow> n = n' \<and> p = p'"
proof
  assume "block_key n p = block_key n' p'"
  then have "bytes_of_u64 n = bytes_of_u64 n'" "bytes_of_u64 p = bytes_of_u64 p'" by (auto simp: block_key_def EncodeFixed64_eq)
  then show "n = n' \<and> p = p'"
    using DecodeFixed64_bytes [of True n "[]"] DecodeFixed64_bytes [of True n' "[]"] DecodeFixed64_bytes [of True p "[]"] DecodeFixed64_bytes [of True p' "[]"] by simp
qed simp

lemma cached_block_mono: "cached_block reg k b \<Longrightarrow> reg \<subseteq>\<^sub>m reg' \<Longrightarrow> cached_block reg' k b"
proof -
  assume "cached_block reg k b" and m: "reg \<subseteq>\<^sub>m reg'"
  then obtain n fs h g where c: "k = block_key n (bh_offset h)" "reg n = Some fs" "(h, g) \<in> set fs" "block_with g b" unfolding cached_block_def by blast
  have "n \<in> dom reg" using c(2) by blast
  then have "reg' n = Some fs" using m c(2) unfolding map_le_def by simp
  then show ?thesis using c unfolding cached_block_def by blast
qed

text \<open>Opening a table gives it an identifier that no table has.\<close>

lemma new_cache_id_ok:
  assumes "block_cache_ok reg (Suc room) held bc"
  shows "\<exists>reg'. block_cache_ok reg' room held (snd (new_cache_id bc)) \<and> registered reg' (snd (new_cache_id bc)) (fst (new_cache_id bc)) fs \<and> reg \<subseteq>\<^sub>m reg' \<and>
    (snd (new_cache_id bc) = None \<longleftrightarrow> bc = None)"
proof (cases bc)
  case (Some c)
  let ?n = "last_id c + 1"
  obtain m where m: "cache_ok (last_id c) held m c" "\<forall>k b. m k = Some b \<longrightarrow> cached_block reg k b" "\<forall>n. reg n \<noteq> None \<longrightarrow> n \<le> last_id c" "unat (last_id c) + Suc room < 2 ^ 64"
    using assms Some by (auto simp: block_cache_ok_def)
  have u: "unat ?n = unat (last_id c) + 1" using m(4) by (simp add: unat_word_ariths(1))
  then have lt: "last_id c < ?n" by (simp add: word_less_nat_alt)
  then have new: "reg ?n = None" using m(3) by (metis not_le)
  then have sub: "reg \<subseteq>\<^sub>m reg(?n \<mapsto> fs)" by (auto simp: map_le_def)
  then have "cached_block (reg(?n \<mapsto> fs)) k b" if "cached_block reg k b" for k b using cached_block_mono [OF that] by blast
  moreover have "n \<le> ?n" if "(reg(?n \<mapsto> fs)) n \<noteq> None" for n using m(3) lt that by (cases "n = ?n") (auto intro: order.trans [OF _ less_imp_le])
  moreover note NewId_ok [OF m(1)]
  ultimately have "block_cache_ok (reg(?n \<mapsto> fs)) room held (Some (snd (c_NewId c)))"
    using m(2,4) u by (auto simp: block_cache_ok_def c_NewId_def)
  then show ?thesis using sub NewId_ok(1) [OF m(1)] Some by (intro exI [of _ "reg(?n \<mapsto> fs)"]) (simp add: new_cache_id_def registered_def)
qed (simp add: new_cache_id_def block_cache_ok_def registered_def exI [of _ reg])

text \<open>
  Reading a block gives an iterator over its entries, whether the block was in the cache or not; after the iterator is deleted the cache is in order, and the same handles are held as before.
\<close>

lemma BlockReader_ok:
  assumes T: "table_file legal opt F fs seps" and t: "opened opt F fs seps t" and m: "(h, g) \<in> set fs" and bc: "block_cache_ok reg room held bc" "registered reg bc (t_cache_id t) fs"
  shows "\<exists>b it ch bc1 bc2. block_with g b \<and> Block_NewIterator b = Some it \<and> BlockReader t v fill (handle_bytes h) bc = Some (it, ch, bc1) \<and> ReleaseBlock ch bc1 = Some bc2 \<and>
    block_cache_ok reg room held bc2 \<and> (bc2 = None \<longleftrightarrow> bc = None)"
proof -
  have dec: "bh_DecodeFrom (handle_bytes h) = Some (h, [])" using handle.decode_encode [of h "[]"] by simp
  obtain mapped where o: "t_opt t = opt" "t_file t = mem_file mapped F" using t unfolding opened_def by auto
  obtain D e where "F = D @ e" "block_at opt D h g" using T m unfolding table_file_def by blast
  then obtain b0 cb where rd: "ReadBlock (t_file t) (t_opt t) v h = Some (OK, b0, cb)" "block_with g (mk_Block b0)"
    using ReadBlock_stored [of opt D h _ mapped e v] unfolding block_at_def block_with_def o by metis
  have it: "\<exists>it. Block_NewIterator b = Some it" if "block_with g b" for b using that NewIterator_over unfolding block_with_def by metis
  show ?thesis
  proof (cases bc)
    case None
    then show ?thesis using rd it [OF rd(2)] dec by (auto simp: BlockReader_def ReleaseBlock_def block_cache_ok_def)
  next
    case (Some c)
    let ?k = "block_key (t_cache_id t) (bh_offset h)" and ?n = "last_id c"
    have reg: "reg (t_cache_id t) = Some fs" using bc(2) Some by (simp add: registered_def)
    obtain mp where mp: "cache_ok ?n held mp c" "\<forall>k b. mp k = Some b \<longrightarrow> cached_block reg k b" and ids: "\<forall>n. reg n \<noteq> None \<longrightarrow> n \<le> ?n" "unat ?n + room < 2 ^ 64"
      using bc(1) Some by (auto simp: block_cache_ok_def)
    have good: "block_with g b" if cb: "cached_block reg ?k b" for b
    proof -
      obtain h' g' where h': "bh_offset h = bh_offset h'" "(h', g') \<in> set fs" "block_with g' b" using cb reg unfolding cached_block_def block_key_inj by auto
      have "sorted_wrt (<) (map (\<lambda>b. unat (bh_offset (fst b))) fs)" using T unfolding table_file_def by blast
      then have "distinct (map (\<lambda>b. unat (bh_offset (fst b))) fs)" by (simp add: strict_sorted_iff)
      then have "(h', g') = (h, g)" using h'(1,2) m unfolding distinct_map inj_on_def by fastforce
      then show ?thesis using h'(3) by simp
    qed
    have same: "cached_block reg ?k (mk_Block b0)" unfolding cached_block_def using reg m rd(2) by blast
    have ok: "block_cache_ok reg room held (Some c')" if "cache_ok ?n held mp' c'" "\<forall>k b. mp' k = Some b \<longrightarrow> cached_block reg k b" for mp' c'
      using that ids by (auto simp: block_cache_ok_def cache_ok_def)
    note code = BlockReader_def cached_reader_def ReleaseBlock_def \<open>bc = Some c\<close> dec rd(1)
    obtain r c1 where r: "c_Lookup ?k c = Some (r, c1)" "case r of
         Some x \<Rightarrow> \<exists>b c2. c_Value x c1 = Some b \<and> cached_block reg ?k b \<and> c_Release x c1 = Some c2 \<and> cache_ok ?n held mp c2
       | None \<Rightarrow> cache_ok ?n held mp c1 \<and>
           (\<forall>v chg. \<exists>y c2 c3. c_Insert ?k v chg c1 = Some (y, c2) \<and> c_Value y c2 = Some v \<and> c_Release y c2 = Some c3 \<and> cache_ok ?n held (mp(?k \<mapsto> v)) c3)"
      using lru_cache.hit_or_load [OF mp, of ?k] by blast
    show ?thesis
    proof (cases r)
      case (Some x)
      then obtain b c2 where x: "c_Value x c1 = Some b" "cached_block reg ?k b" "c_Release x c1 = Some c2" "cache_ok ?n held mp c2" using r(2) by auto
      note b = good [OF x(2)]
      show ?thesis using it [OF b] b r(1) x(1,3) Some ok [OF x(4) mp(2)] by (auto simp: code)
    next
      case None
      obtain x where x: "Block_NewIterator (mk_Block b0) = Some x" using it [OF rd(2)] by blast
      obtain y c2 c3 where y: "c_Insert ?k (mk_Block b0) (word_of_nat (b_size (mk_Block b0))) c1 = Some (y, c2)" "c_Release y c2 = Some c3" "cache_ok ?n held (mp(?k \<mapsto> mk_Block b0)) c3"
        and c1: "cache_ok ?n held mp c1" using r(2) None by fastforce
      have "\<forall>k b. (mp(?k \<mapsto> mk_Block b0)) k = Some b \<longrightarrow> cached_block reg k b" using mp(2) same by simp
      then show ?thesis using rd(2) x r(1) None y(1,2) ok [OF y(3)] ok [OF c1 mp(2)] by (cases "cb \<and> fill") (auto simp: code)
    qed
  qed
qed

fun lookups :: "Table \<Rightarrow> bool \<Rightarrow> bool \<Rightarrow> slice list \<Rightarrow> block_cache \<Rightarrow> ((slice \<times> slice) option list \<times> block_cache) option" where
  "lookups t verify_checksums fill_cache [] bc = Some ([], bc)"
| "lookups t verify_checksums fill_cache (k # ks) bc =
     do { (s, res, bc) \<leftarrow> InternalGet t verify_checksums fill_cache k bc;
          if status_ok s then do { (ress, bc) \<leftarrow> lookups t verify_checksums fill_cache ks bc; Some (res # ress, bc) } else None }"

context table_options
begin

lemma filter_finds_match:
  assumes "o_policy opt = Some p" and "sorted (map fst bs)" and "build_filter (p_create p) bs = Some c" and "length c < 2 ^ 32" and "(pos, ks) \<in> set bs" and "k' \<in> set ks"
    and "match k'" and "\<And>ks k'. k' \<in> set ks \<Longrightarrow> match k' \<Longrightarrow> p_may p k (p_create p ks [])"
  shows "fr_KeyMayMatch (p_may p) (mk_FilterBlockReader c) pos k = Some True"
proof -
  let ?may = "\<lambda>x. p_may p (if match x then k else x)"
  have fp: "filter_policy (p_create p) (p_may p)" using policy [OF assms(1)] by blast
  have "filter_policy (p_create p) ?may"
  proof
    show "p_create p ks dst = dst @ p_create p ks []" for ks dst by (rule filter_policy.create_append [OF fp])
    show "?may x (p_create p ks [])" if "x \<in> set ks" for x ks using filter_policy.create_match [OF fp that] assms(8) [OF that] by simp
  qed
  then have "fr_KeyMayMatch ?may (mk_FilterBlockReader c) pos k' = Some True" using filter_policy.filter_block_match [OF _ assms(2-6)] by blast
  moreover have "fr_KeyMayMatch ?may r pos k' = fr_KeyMayMatch (p_may p) r pos k" for r by (simp only: fr_KeyMayMatch_def assms(7) if_True)
  ultimately show ?thesis by simp
qed

text \<open>
  A lookup finds the first entry not before the key, unless no such entry matches the key. When a key matches is up to the filter policy, which must find the key in the filter
  of a block with a matching key, and to the comparator: if the index key of a block is not before the key and the last key of the block is before it or does not match, no later key matches.
\<close>

lemma InternalGet_match:
  assumes T: "table_file legal opt F fs seps" and t: "opened opt F fs seps t" and bc: "block_cache_ok reg room held bc" "registered reg bc (t_cache_id t) fs" and k: "legal k"
    and filter_match: "\<And>p ks k'. o_policy opt = Some p \<Longrightarrow> k' \<in> set ks \<Longrightarrow> match k' \<Longrightarrow> p_may p k (p_create p ks [])"
    and gap: "\<And>a b k'. legal a \<Longrightarrow> legal b \<Longrightarrow> legal k' \<Longrightarrow> o_cmp opt a b < 0 \<Longrightarrow> match a \<longrightarrow> o_cmp opt a k < 0 \<Longrightarrow> \<not> o_cmp opt (o_sep opt a b) k < 0 \<Longrightarrow> o_cmp opt b k' \<le> 0 \<Longrightarrow> \<not> match k'"
  shows "\<exists>res bc'. InternalGet t v fill k bc = Some (OK, res, bc') \<and> block_cache_ok reg room held bc' \<and> (bc' = None \<longleftrightarrow> bc = None) \<and>
    (res = seek_at (o_cmp opt) k (entries fs) \<or> res = None \<and> (\<forall>kv\<in>set (entries fs). match (fst kv) \<longrightarrow> o_cmp opt (fst kv) k < 0))"
proof -
  let ?P = "\<lambda>kv. \<not> o_cmp opt (fst kv) k < 0" and ?ix = "zip seps (map (\<lambda>b. handle_bytes (fst b)) fs)"
  have S: "separates legal (o_cmp opt) seps fs []" "length seps = length fs" "\<forall>(h, g)\<in>set fs. g \<noteq> []" "sorted_wrt (\<lambda>a b. o_cmp opt (fst a) (fst b) < 0) (entries fs)"
    "\<forall>kv\<in>set (entries fs). legal (fst kv)" "\<forall>(h, g)\<in>set fs. \<exists>D e. F = D @ e \<and> block_at opt D h g"
    "tight (o_sep opt) seps fs []"
    using T unfolding table_file_def by blast+
  have leg: "\<forall>s\<in>set seps. legal s" using S(1) unfolding separates_def by (metis in_set_conv_nth)
  have srt: "sorted_wrt (\<lambda>a b. o_cmp opt a b < 0) seps" by (rule seps_sorted [OF S(1) _ S(3,5)]) (simp add: S(2))
  obtain es rs where E: "wf_block es rs" "map snd es = ?ix" "t_index t = mk_Block (block_bytes es rs)" using t unfolding opened_def by blast
  have o: "t_opt t = opt" using t unfolding opened_def by auto
  let ?i = "rank (o_cmp opt) k seps"
  have ks: "map fst ?ix = seps" using S(2) by simp
  have "sorted_wrt (\<lambda>a b. o_cmp opt (fst a) (fst b) < 0) ?ix" "\<forall>kv\<in>set ?ix. legal (fst kv)"
    using srt leg sorted_wrt_map [of "\<lambda>a b. o_cmp opt a b < 0" fst ?ix] unfolding ks by (auto dest: set_zip_leftD)
  then obtain it0 it where it: "Block_NewIterator (t_index t) = Some it0" "ni_Seek (o_cmp opt) k it0 = Some it" "ni_status it = OK"
    "case seek_at (o_cmp opt) k ?ix of None \<Rightarrow> \<not> ni_Valid it | Some (k', v') \<Rightarrow> ni_Valid it \<and> ni_key it = Some k' \<and> ni_value it = Some v'"
    using ni_Seek_block [OF three_way_axioms E(1) k] unfolding E(2,3) by blast
  have before: "o_cmp opt (fst kv) k < 0" if "kv \<in> set (entries (take ?i fs))" for kv
  proof -
    have "?i \<noteq> 0" using that by (cases "?i = 0") auto
    then obtain j where j: "?i = Suc j" by (metis not0_implies_Suc)
    then have jl: "j < length seps" "o_cmp opt (seps ! j) k < 0" using before_rank [of j k seps] length_takeWhile_le [of _ seps] unfolding rank_def
      by (metis Suc_le_lessD, simp)
    moreover have "o_cmp opt (fst kv) (seps ! j) \<le> 0" "legal (seps ! j)" using S(1) jl(1) that unfolding separates_def j by auto
    moreover have "legal (fst kv)" using S(5) that unfolding entries_def by (auto dest: in_set_takeD)
    ultimately show ?thesis using compare_less_trans(1) k by blast
  qed
  show ?thesis
  proof (cases "?i < length fs")
    case False
    then have "?i = length fs" using S(2) unfolding rank_def by (metis length_takeWhile_le nat_less_le)
    then have "seek_at (o_cmp opt) k (entries fs) = None" using before unfolding find_None_iff by auto
    moreover have "seek_at (o_cmp opt) k ?ix = None" unfolding seek_at_rank ks Let_def using False S(2) by simp
    ultimately show ?thesis using it bc(1) unfolding InternalGet_def o by simp
  next
    case True
    obtain h g where g: "fs ! ?i = (h, g)" by fastforce
    have m: "(h, g) \<in> set fs" using True g by (metis nth_mem)
    have at: "seek_at (o_cmp opt) k ?ix = Some (seps ! ?i, handle_bytes h)" unfolding seek_at_rank ks Let_def using True S(2) g by simp
    have split: "entries fs = entries (take ?i fs) @ g @ entries (drop (Suc ?i) fs)"
      using arg_cong [OF id_take_nth_drop [OF True], of entries] g by simp
    have skip: "seek_at (o_cmp opt) k (entries fs) = (case seek_at (o_cmp opt) k g of None \<Rightarrow> seek_at (o_cmp opt) k (entries (drop (Suc ?i) fs)) | Some x \<Rightarrow> Some x)"
    proof -
      have "seek_at (o_cmp opt) k (entries (take ?i fs)) = None" using before unfolding find_None_iff by blast
      then show ?thesis unfolding split by (simp add: find_append)
    qed
    have gi: "snd (fs ! ?i) = g" "g \<noteq> []" using g S(3) m by auto
    have lst: "last g \<in> set (entries fs)" using gi(2) unfolding split by simp
    have later: "\<not> match (fst kv)" if kv: "kv \<in> set (entries (drop (Suc ?i) fs))" and lt: "match (fst (last g)) \<longrightarrow> o_cmp opt (fst (last g)) k < 0" for kv
    proof -
      let ?rest = "entries (drop (Suc ?i) fs)"
      have ne: "?rest \<noteq> []" using kv by auto
      then have hd: "hd ?rest \<in> set (entries fs)" unfolding split by simp
      have "seps ! ?i = o_sep opt (fst (last g)) (fst (hd ?rest))" using S(2,7) True ne gi(1) unfolding tight_def by simp
      moreover have "\<not> o_cmp opt (seps ! ?i) k < 0" using rank_not_before [of k seps] True S(2) by simp
      moreover have "o_cmp opt (fst (last g)) (fst (hd ?rest)) < 0" using S(4) gi(2) ne unfolding split by (auto simp: sorted_wrt_append)
      moreover have "o_cmp opt (fst (hd ?rest)) (fst kv) \<le> 0"
      proof -
        have "sorted_wrt (\<lambda>a b. o_cmp opt (fst a) (fst b) < 0) ?rest" using S(4) unfolding split by (simp add: sorted_wrt_append)
        then show ?thesis using kv S(5) hd by (cases ?rest) (auto simp: split less_imp_le)
      qed
      moreover have "kv \<in> set (entries fs)" using kv unfolding split by simp
      ultimately show ?thesis using gap [of "fst (last g)" "fst (hd ?rest)" "fst kv"] S(5) lst hd lt by metis
    qed
    have none: "\<forall>kv\<in>set (entries fs). match (fst kv) \<longrightarrow> o_cmp opt (fst kv) k < 0"
      if "\<forall>kv\<in>set g. match (fst kv) \<longrightarrow> o_cmp opt (fst kv) k < 0"
      using that before later last_in_set [OF gi(2)] unfolding split by auto
    obtain es' rs' b0 ch bc1 bc2 where B: "wf_block es' rs'" "map snd es' = g" and rd: "Block_NewIterator (mk_Block (block_bytes es' rs')) = Some b0"
      "BlockReader t v fill (handle_bytes h) bc = Some (b0, ch, bc1)" "ReleaseBlock ch bc1 = Some bc2" "block_cache_ok reg room held bc2" "bc2 = None \<longleftrightarrow> bc = None"
      using BlockReader_ok [OF T t m bc, of v fill] unfolding block_with_def by blast
    have gs: "sorted_wrt (\<lambda>a b. o_cmp opt (fst a) (fst b) < 0) (map snd es')" "\<forall>kv\<in>set (map snd es'). legal (fst kv)"
      using S(4,5) unfolding split B(2) by (auto simp: sorted_wrt_append)
    obtain b where b: "ni_Seek (o_cmp opt) k b0 = Some b" "ni_status b = OK"
      "case seek_at (o_cmp opt) k g of None \<Rightarrow> \<not> ni_Valid b | Some (k', v') \<Rightarrow> ni_Valid b \<and> ni_key b = Some k' \<and> ni_value b = Some v'"
      using ni_Seek_block [OF three_way_axioms B(1) k gs] rd(1) unfolding B(2) by auto
    have dec: "bh_DecodeFrom (handle_bytes h) = Some (h, [])" using handle.decode_encode [of h "[]"] by simp
    obtain sk where sk: "(case (o_policy opt, t_filter t, bh_DecodeFrom (handle_bytes h)) of
        (Some p, Some fr, Some (h, _)) \<Rightarrow> map_option Not (fr_KeyMayMatch (p_may p) fr (unat (bh_offset h)) k) | _ \<Rightarrow> Some False) = Some sk"
      "sk \<Longrightarrow> \<forall>kv\<in>set g. \<not> match (fst kv)"
    proof (cases "o_policy opt")
      case None
      then show ?thesis using that [of False] by simp
    next
      case (Some p)
      then obtain c n where c: "t_filter t = Some (mk_FilterBlockReader c)" "sorted (map fst (map foffset fs @ [(n, [])]))"
        "build_filter (p_create p) (map foffset fs @ [(n, [])]) = Some c" "length c < 2 ^ 32" using t unfolding opened_def by blast
      obtain r where r: "fr_KeyMayMatch (p_may p) (mk_FilterBlockReader c) (unat (bh_offset h)) k = Some r" using reader_defined [OF c(3)] by blast
      have "(unat (bh_offset h), map fst g) \<in> set (map foffset fs @ [(n, [])])" using m by (force simp: foffset_def)
      then have "r" if "kv \<in> set g" "match (fst kv)" for kv
        using filter_finds_match [OF Some c(2,3,4), where ks = "map fst g" and k' = "fst kv" and k = k and match = match] filter_match [OF Some] that r by auto
      then have "\<forall>kv\<in>set g. \<not> match (fst kv)" if "\<not> r" using that by blast
      then show ?thesis by (intro that [of "\<not> r"]) (simp_all add: Some c(1) dec r)
    qed
    show ?thesis
    proof (cases sk)
      case True
      then have "\<forall>kv\<in>set (entries fs). match (fst kv) \<longrightarrow> o_cmp opt (fst kv) k < 0" using none sk(2) by blast
      moreover have "InternalGet t v fill k bc = Some (OK, None, bc)" using it(1-3) it(4) [unfolded at] sk(1) True unfolding InternalGet_def o by simp
      ultimately show ?thesis using bc(1) by blast
    next
      case False
      have "(if ni_Valid b then do { k \<leftarrow> ni_key b; v \<leftarrow> ni_value b; Some (Some (k, v)) } else Some None) = Some (seek_at (o_cmp opt) k g)"
        using b(3) by (cases "seek_at (o_cmp opt) k g") auto
      then have "InternalGet t v fill k bc = Some (OK, seek_at (o_cmp opt) k g, bc2)"
        using it(1-3) it(4) [unfolded at] sk(1) False rd(2,3) b(1,2) unfolding InternalGet_def o by simp
      moreover have "\<forall>kv\<in>set (entries fs). match (fst kv) \<longrightarrow> o_cmp opt (fst kv) k < 0" if "seek_at (o_cmp opt) k g = None"
        using that by (intro none) (auto simp: find_None_iff)
      moreover have "seek_at (o_cmp opt) k (entries fs) = Some x" if "seek_at (o_cmp opt) k g = Some x" for x unfolding skip that by simp
      ultimately show ?thesis using rd(4,5) by (cases "seek_at (o_cmp opt) k g") simp_all
    qed
  qed
qed

lemma InternalGet_opened:
  assumes T: "table_file legal opt F fs seps" and t: "opened opt F fs seps t" and bc: "block_cache_ok reg room held bc" "registered reg bc (t_cache_id t) fs" and k: "legal k"
  shows "\<exists>res bc'. InternalGet t v fill k bc = Some (OK, res, bc') \<and> block_cache_ok reg room held bc' \<and> (bc' = None \<longleftrightarrow> bc = None) \<and> (res = seek_at (o_cmp opt) k (entries fs) \<or> res = None \<and> k \<notin> fst ` set (entries fs))"
proof -
  have "k' \<noteq> k" if "legal a" "legal b" "legal k'" "o_cmp opt a b < 0" "\<not> o_cmp opt (o_sep opt a b) k < 0" "o_cmp opt b k' \<le> 0" for a b k'
    using that separator [OF that(1,2,4)] compare_less_trans(2) [of "o_sep opt a b" b k'] by auto
  moreover have "p_may p k (p_create p ks [])" if "o_policy opt = Some p" "k' \<in> set ks" "k' = k" for p ks k'
    using that policy [OF that(1)] filter_policy.create_match by blast
  ultimately obtain res bc' where "InternalGet t v fill k bc = Some (OK, res, bc')" "block_cache_ok reg room held bc'" "bc' = None \<longleftrightarrow> bc = None" "res = seek_at (o_cmp opt) k (entries fs) \<or> res = None \<and> (\<forall>kv\<in>set (entries fs). fst kv = k \<longrightarrow> o_cmp opt (fst kv) k < 0)"
    using InternalGet_match [OF T t bc k, of "\<lambda>k'. k' = k" v fill] by blast
  then show ?thesis using k by auto
qed


text \<open>A sequence of lookups, which fill the block cache and read from it.\<close>

lemma lookups_opened:
  assumes T: "table_file legal opt F fs seps" and t: "opened opt F fs seps t" and bc: "block_cache_ok reg room held bc" "registered reg bc (t_cache_id t) fs" and ks: "\<forall>k\<in>set ks. legal k"
  shows "\<exists>ress bc'. lookups t v fill ks bc = Some (ress, bc') \<and> block_cache_ok reg room held bc' \<and>
    list_all2 (\<lambda>k res. res = seek_at (o_cmp opt) k (entries fs) \<or> res = None \<and> k \<notin> fst ` set (entries fs)) ks ress"
  using bc ks
proof (induction ks arbitrary: bc)
  case (Cons k ks)
  obtain res bc1 where g: "InternalGet t v fill k bc = Some (OK, res, bc1)" "block_cache_ok reg room held bc1" "bc1 = None \<longleftrightarrow> bc = None"
    "res = seek_at (o_cmp opt) k (entries fs) \<or> res = None \<and> k \<notin> fst ` set (entries fs)" using InternalGet_opened [OF T t Cons.prems(1,2), of k v fill] Cons.prems(3) by auto
  have "registered reg bc1 (t_cache_id t) fs" using Cons.prems(2) g(3) by (simp add: registered_def)
  then show ?case using Cons.IH [OF g(2)] Cons.prems(3) g(1,4) by auto
qed simp

lemma add_pairs_inv:
  "table_inv legal opt r F fs seps cur \<Longrightarrow> resting r fs cur \<Longrightarrow> \<forall>kv\<in>set kvs. legal (fst kv) \<Longrightarrow>
   sorted_wrt (\<lambda>a b. o_cmp opt (fst a) (fst b) < 0) (entries fs @ cur @ kvs) \<Longrightarrow> wt (entries fs @ cur @ kvs) < 2 ^ 31 \<Longrightarrow>
   \<exists>r' F' fs' seps' cur'. add_pairs kvs r = Some r' \<and> table_inv legal opt r' F' fs' seps' cur' \<and> resting r' fs' cur' \<and> entries fs' @ cur' = entries fs @ cur @ kvs"
proof (induction kvs arbitrary: r F fs seps cur)
  case (Cons kv kvs)
  obtain k v where kv: "kv = (k, v)" by fastforce
  have p: "legal k" "\<forall>x\<in>set (entries fs @ cur). o_cmp opt (fst x) k < 0" "wt (entries fs @ cur @ [(k, v)]) < 2 ^ 31"
    using Cons.prems(3,4,5) kv by (auto simp: sorted_wrt_append)
  obtain r1 F1 fs1 seps1 cur1 where r1: "tb_Add k v r = Some r1" "table_inv legal opt r1 F1 fs1 seps1 cur1" "entries fs1 @ cur1 = entries fs @ cur @ [(k, v)]"
    "resting r1 fs1 cur1" using Add_inv [OF Cons.prems(1,2) p] by blast
  have e: "entries fs1 @ cur1 @ kvs = entries fs @ cur @ kv # kvs" using r1(3) kv by (metis append.assoc append_Cons append_Nil)
  have "\<forall>x\<in>set kvs. legal (fst x)" using Cons.prems(3) by simp
  then show ?case using Cons.IH [OF r1(2,4), unfolded e] Cons.prems(4,5) r1(1) kv by auto
qed force

end

section \<open>Options\<close>

text \<open>util/options.cc: the options a table depends on, as the constructor sets them, and util/bloom.cc: the policy with the Bloom filter.\<close>

definition mk_Options :: options where
  "mk_Options = \<lparr>o_cmp = BytewiseCompare, o_sep = FindShortestSeparator, o_succ = FindShortSuccessor, o_interval = 16, o_block_size = 4096,
     o_compressors = replicate 256 None, o_policy = None, o_paranoid = False\<rparr>"

definition NewBloomFilterPolicy :: "nat \<Rightarrow> policy" where
  "NewBloomFilterPolicy bits_per_key =
     \<lparr>p_name = ascii ''leveldb.BuiltinBloomFilter2'', p_create = bloom_CreateFilter bits_per_key, p_may = bloom_KeyMayMatch\<rparr>"

lemma bloom_filter_size: "ks \<noteq> [] \<Longrightarrow> length (bloom_CreateFilter b ks []) \<le> (b + 16) * length ks"
proof -
  assume "ks \<noteq> []"
  then have "1 \<le> length ks" by (simp add: Suc_leI)
  moreover have "bloom_bytes b (length ks) \<le> length ks * b + 8" unfolding bloom_bytes_def Let_def by (cases "length ks * b < 64") auto
  ultimately show ?thesis by (simp add: length_bloom_CreateFilter algebra_simps)
qed

lemma no_compressor: "o_compressors opt = replicate n None \<Longrightarrow> n \<noteq> 0 \<Longrightarrow> compressor_ok opt"
  by (cases n) (simp_all add: compressor_ok_def)

lemma comparator_mk_Options: "comparator (\<lambda>_. True) (o_cmp mk_Options) (o_sep mk_Options) (o_succ mk_Options)"
  using bytewise.comparator_axioms by (simp add: mk_Options_def)

interpretation plain_table: table_options "\<lambda>_. True" mk_Options 0
proof (intro table_options.intro table_options_axioms.intro)
  show "comparator (\<lambda>_. True) (o_cmp mk_Options) (o_sep mk_Options) (o_succ mk_Options)" by (rule comparator_mk_Options)
qed (auto simp: mk_Options_def separator_length successor_length intro: no_compressor)

interpretation bloom_table: table_options "\<lambda>_. True" "mk_Options\<lparr>o_policy := Some (NewBloomFilterPolicy n)\<rparr>" "n + 16" for n
proof (intro table_options.intro table_options_axioms.intro)
  show "comparator (\<lambda>_. True) (o_cmp (mk_Options\<lparr>o_policy := Some (NewBloomFilterPolicy n)\<rparr>)) (o_sep (mk_Options\<lparr>o_policy := Some (NewBloomFilterPolicy n)\<rparr>))
      (o_succ (mk_Options\<lparr>o_policy := Some (NewBloomFilterPolicy n)\<rparr>))" using comparator_mk_Options by simp
qed (auto simp: mk_Options_def separator_length successor_length NewBloomFilterPolicy_def bloom.filter_policy_axioms bloom_filter_size ascii_def intro: no_compressor)

text \<open>A compressor that meets the contract: it replaces runs of equal bytes by their length and the byte.\<close>

fun rle :: "slice \<Rightarrow> slice" where
  "rle [] = []"
| "rle (x # xs) = (case rle xs of n # y # ys \<Rightarrow> if y = x \<and> n < 255 then (n + 1) # y # ys else 1 # x # n # y # ys | ys \<Rightarrow> 1 # x # ys)"

fun unrle :: "slice \<Rightarrow> slice option" where
  "unrle [] = Some []"
| "unrle [x] = None"
| "unrle (n # y # ys) = map_option ((@) (replicate (unat n) y)) (unrle ys)"

definition run_length :: compressor where
  "run_length = \<lparr>comp_id = 2, comp_compress = rle, comp_decompress = unrle\<rparr>"

lemma unrle_rle: "unrle (rle xs) = Some xs"
proof (induction xs)
  case (Cons x xs)
  show ?case
  proof (cases "rle xs" rule: unrle.cases)
    case (3 n y ys)
    have "unat (n + 1) = Suc (unat n)" if "n < 255" using that by (simp add: unat_word_ariths(1) word_less_nat_alt)
    then show ?thesis using Cons.IH 3 by auto
  qed (use Cons.IH in auto)
qed simp

definition rle_options :: options where
  "rle_options = mk_Options\<lparr>o_compressors := Some run_length # replicate 255 None, o_policy := Some (NewBloomFilterPolicy 10)\<rparr>"

interpretation rle_table: table_options "\<lambda>_. True" rle_options 26
proof (intro table_options.intro table_options_axioms.intro)
  show "comparator (\<lambda>_. True) (o_cmp rle_options) (o_sep rle_options) (o_succ rle_options)" using comparator_mk_Options by (simp add: rle_options_def)
qed (auto simp: rle_options_def compressor_ok_def run_length_def unrle_rle mk_Options_def separator_length successor_length NewBloomFilterPolicy_def bloom.filter_policy_axioms
    bloom_filter_size [of _ 10, simplified] ascii_def)

section \<open>Properties\<close>

definition build_table :: "options \<Rightarrow> (slice \<times> slice) list \<Rightarrow> (status \<times> table_builder) option" where
  "build_table opt kvs = do { r \<leftarrow> mk_TableBuilder opt \<lparr>w_data = [], w_faults = []\<rparr>; r \<leftarrow> add_pairs kvs r; tb_Finish r }"

lemma build_table_file:
  assumes "table_options legal opt C" and "\<forall>kv\<in>set kvs. legal (fst kv)" and "sorted_wrt (\<lambda>a b. o_cmp opt (fst a) (fst b) < 0) kvs"
    and "wt kvs + C * length kvs < 2 ^ 31"
  shows "\<exists>r F fs seps. build_table opt kvs = Some (OK, r) \<and> w_data (tb_file r) = F \<and> FileSize r = word_of_nat (length F) \<and>
    table_file legal opt F fs seps \<and> entries fs = kvs \<and> length F < 2 ^ 36"
proof -
  obtain r0 where r0: "mk_TableBuilder opt \<lparr>w_data = [], w_faults = []\<rparr> = Some r0" "table_inv legal opt r0 [] [] [] []" "tb_num r0 = 0"
    using table_options.mk_inv [OF assms(1)] by blast
  have "resting r0 [] []" using r0(3) by (simp add: resting_def)
  then obtain r1 F fs seps cur where r1: "add_pairs kvs r0 = Some r1" "table_inv legal opt r1 F fs seps cur" "resting r1 fs cur" "entries fs @ cur = kvs"
    using table_options.add_pairs_inv [OF assms(1) r0(2) _ assms(2)] assms(3,4) by auto
  obtain r F' fs' seps' where r: "tb_Finish r1 = Some (OK, r)" "tb_file r = \<lparr>w_data = F', w_faults = []\<rparr>" "FileSize r = word_of_nat (length F')"
    "table_file legal opt F' fs' seps'" "entries fs' = kvs" "length F' < 2 ^ 36" using table_options.Finish_inv [OF assms(1) r1(2,3)] assms(4) r1(4) by auto
  have "build_table opt kvs = Some (OK, r)" using r0(1) r1(1) r(1) by (simp add: build_table_def)
  then show ?thesis using r by auto
qed



end
