(* ===== verification/TwoLevel.thy ===== *)
theory TwoLevel
  imports Wrapper
begin

text \<open>
  table/two_level_iterator.cc: the iterator over the blocks that an index iterator names. The block function \<open>bf\<close> opens an iterator for
  a value of the index. The main result is that the iterator meets the contract of iterators over the concatenation of the blocks, if the keys of the index
  separate the blocks.
\<close>

record ('x, 'd) two_level =
  tl_status :: status
  tl_index :: "'x wrapper"
  tl_data :: "'d wrapper"
  tl_handle :: slice

definition NewTwoLevelIterator :: "'x iterator \<Rightarrow> 'x \<Rightarrow> ('x, 'd) two_level option" where
  "NewTwoLevelIterator X index_iter =
     map_option (\<lambda>w. \<lparr>tl_status = OK, tl_index = w, tl_data = \<lparr>w_iter = None, w_valid = False, w_key = []\<rparr>, tl_handle = []\<rparr>)
       (mk_wrapper X (Some index_iter))"

definition tl_Valid :: "('x, 'd) two_level \<Rightarrow> bool" where "tl_Valid t = w_valid (tl_data t)"

definition tl_key :: "'d iterator \<Rightarrow> ('x, 'd) two_level \<Rightarrow> slice option" where "tl_key D t = i_key (w_methods D) (tl_data t)"

definition tl_value :: "'d iterator \<Rightarrow> ('x, 'd) two_level \<Rightarrow> slice option" where "tl_value D t = i_value (w_methods D) (tl_data t)"

definition tl_Status :: "'x iterator \<Rightarrow> 'd iterator \<Rightarrow> ('x, 'd) two_level \<Rightarrow> status option" where
  "tl_Status X D t =
     do { s \<leftarrow> i_status (w_methods X) (tl_index t);
          if \<not> status_ok s then Some s
          else case w_iter (tl_data t) of
            None \<Rightarrow> Some (tl_status t)
          | Some d \<Rightarrow> do { s \<leftarrow> i_status (w_methods D) (tl_data t); Some (if \<not> status_ok s then s else tl_status t) } }"

definition SaveError :: "status \<Rightarrow> ('x, 'd) two_level \<Rightarrow> ('x, 'd) two_level" where
  "SaveError s t = (if status_ok (tl_status t) \<and> \<not> status_ok s then t\<lparr>tl_status := s\<rparr> else t)"

definition SetDataIterator :: "'d iterator \<Rightarrow> 'd option \<Rightarrow> ('x, 'd) two_level \<Rightarrow> ('x, 'd) two_level option" where
  "SetDataIterator D data_iter t =
     do { t \<leftarrow> (case w_iter (tl_data t) of None \<Rightarrow> Some t | Some _ \<Rightarrow> map_option (\<lambda>s. SaveError s t) (i_status (w_methods D) (tl_data t)));
          w \<leftarrow> w_Set D data_iter (tl_data t);
          Some (t\<lparr>tl_data := w\<rparr>) }"

definition InitDataBlock :: "'x iterator \<Rightarrow> 'd iterator \<Rightarrow> (slice \<Rightarrow> 'd option) \<Rightarrow> ('x, 'd) two_level \<Rightarrow> ('x, 'd) two_level option" where
  "InitDataBlock X D bf t =
     (if \<not> w_valid (tl_index t) then SetDataIterator D None t
      else
        do { handle \<leftarrow> i_value (w_methods X) (tl_index t);
             if w_iter (tl_data t) \<noteq> None \<and> slice_compare handle (tl_handle t) = 0 then Some t
             else do { iter \<leftarrow> bf handle; SetDataIterator D (Some iter) (t\<lparr>tl_handle := handle\<rparr>) } })"

text \<open>\<open>if (data_iter_.iter() != NULL) data_iter_.f()\<close>.\<close>

definition on_data :: "('d wrapper \<Rightarrow> 'd wrapper option) \<Rightarrow> ('x, 'd) two_level \<Rightarrow> ('x, 'd) two_level option" where
  "on_data f t = (case w_iter (tl_data t) of None \<Rightarrow> Some t | Some _ \<Rightarrow> map_option (\<lambda>w. t\<lparr>tl_data := w\<rparr>) (f (tl_data t)))"

partial_function (option) SkipEmptyDataBlocksForward ::
  "'x iterator \<Rightarrow> 'd iterator \<Rightarrow> (slice \<Rightarrow> 'd option) \<Rightarrow> ('x, 'd) two_level \<Rightarrow> ('x, 'd) two_level option" where
  "SkipEmptyDataBlocksForward X D bf t =
     (if w_iter (tl_data t) = None \<or> \<not> w_valid (tl_data t) then
        if \<not> w_valid (tl_index t) then SetDataIterator D None t
        else
          do { x \<leftarrow> i_Next (w_methods X) (tl_index t);
               t \<leftarrow> InitDataBlock X D bf (t\<lparr>tl_index := x\<rparr>);
               t \<leftarrow> on_data (i_SeekToFirst (w_methods D)) t;
               SkipEmptyDataBlocksForward X D bf t }
      else Some t)"

partial_function (option) SkipEmptyDataBlocksBackward ::
  "'x iterator \<Rightarrow> 'd iterator \<Rightarrow> (slice \<Rightarrow> 'd option) \<Rightarrow> ('x, 'd) two_level \<Rightarrow> ('x, 'd) two_level option" where
  "SkipEmptyDataBlocksBackward X D bf t =
     (if w_iter (tl_data t) = None \<or> \<not> w_valid (tl_data t) then
        if \<not> w_valid (tl_index t) then SetDataIterator D None t
        else
          do { x \<leftarrow> i_Prev (w_methods X) (tl_index t);
               t \<leftarrow> InitDataBlock X D bf (t\<lparr>tl_index := x\<rparr>);
               t \<leftarrow> on_data (i_SeekToLast (w_methods D)) t;
               SkipEmptyDataBlocksBackward X D bf t }
      else Some t)"

declare SkipEmptyDataBlocksForward.simps [code] SkipEmptyDataBlocksBackward.simps [code]

definition tl_Seek ::
  "'x iterator \<Rightarrow> 'd iterator \<Rightarrow> (slice \<Rightarrow> 'd option) \<Rightarrow> slice \<Rightarrow> ('x, 'd) two_level \<Rightarrow> ('x, 'd) two_level option" where
  "tl_Seek X D bf target t =
     do { x \<leftarrow> i_Seek (w_methods X) target (tl_index t);
          t \<leftarrow> InitDataBlock X D bf (t\<lparr>tl_index := x\<rparr>);
          t \<leftarrow> on_data (i_Seek (w_methods D) target) t;
          SkipEmptyDataBlocksForward X D bf t }"

definition tl_SeekToFirst ::
  "'x iterator \<Rightarrow> 'd iterator \<Rightarrow> (slice \<Rightarrow> 'd option) \<Rightarrow> ('x, 'd) two_level \<Rightarrow> ('x, 'd) two_level option" where
  "tl_SeekToFirst X D bf t =
     do { x \<leftarrow> i_SeekToFirst (w_methods X) (tl_index t);
          t \<leftarrow> InitDataBlock X D bf (t\<lparr>tl_index := x\<rparr>);
          t \<leftarrow> on_data (i_SeekToFirst (w_methods D)) t;
          SkipEmptyDataBlocksForward X D bf t }"

definition tl_SeekToLast ::
  "'x iterator \<Rightarrow> 'd iterator \<Rightarrow> (slice \<Rightarrow> 'd option) \<Rightarrow> ('x, 'd) two_level \<Rightarrow> ('x, 'd) two_level option" where
  "tl_SeekToLast X D bf t =
     do { x \<leftarrow> i_SeekToLast (w_methods X) (tl_index t);
          t \<leftarrow> InitDataBlock X D bf (t\<lparr>tl_index := x\<rparr>);
          t \<leftarrow> on_data (i_SeekToLast (w_methods D)) t;
          SkipEmptyDataBlocksBackward X D bf t }"

definition tl_Next :: "'x iterator \<Rightarrow> 'd iterator \<Rightarrow> (slice \<Rightarrow> 'd option) \<Rightarrow> ('x, 'd) two_level \<Rightarrow> ('x, 'd) two_level option" where
  "tl_Next X D bf t =
     (if tl_Valid t then do { w \<leftarrow> i_Next (w_methods D) (tl_data t); SkipEmptyDataBlocksForward X D bf (t\<lparr>tl_data := w\<rparr>) } else None)"

definition tl_Prev :: "'x iterator \<Rightarrow> 'd iterator \<Rightarrow> (slice \<Rightarrow> 'd option) \<Rightarrow> ('x, 'd) two_level \<Rightarrow> ('x, 'd) two_level option" where
  "tl_Prev X D bf t =
     (if tl_Valid t then do { w \<leftarrow> i_Prev (w_methods D) (tl_data t); SkipEmptyDataBlocksBackward X D bf (t\<lparr>tl_data := w\<rparr>) } else None)"

definition two_level_methods :: "'x iterator \<Rightarrow> 'd iterator \<Rightarrow> (slice \<Rightarrow> 'd option) \<Rightarrow> ('x, 'd) two_level iterator" where
  "two_level_methods X D bf =
     \<lparr>i_Valid = tl_Valid, i_SeekToFirst = tl_SeekToFirst X D bf, i_SeekToLast = tl_SeekToLast X D bf, i_Seek = tl_Seek X D bf,
      i_Next = tl_Next X D bf, i_Prev = tl_Prev X D bf, i_key = tl_key D, i_value = tl_value D, i_status = tl_Status X D\<rparr>"

section \<open>The contract\<close>

lemma takeWhile_append_Nil: "takeWhile P ys = [] \<Longrightarrow> takeWhile P (xs @ ys) = takeWhile P xs"
  by (induction xs) auto

locale blocks = three_way legal Compare
  for legal :: "slice \<Rightarrow> bool" and Compare :: "slice \<Rightarrow> slice \<Rightarrow> int" +
  fixes X :: "'x iterator" and idx :: "(slice \<times> slice) list" and xalive :: "'x \<Rightarrow> bool" and xpos :: "'x \<Rightarrow> nat \<Rightarrow> bool"
    and D :: "'d iterator" and bf :: "slice \<Rightarrow> 'd option" and content :: "slice \<Rightarrow> (slice \<times> slice) list"
    and dalive :: "slice \<Rightarrow> 'd \<Rightarrow> bool" and dpos :: "slice \<Rightarrow> 'd \<Rightarrow> nat \<Rightarrow> bool" and target :: "slice \<Rightarrow> bool"
  assumes index: "seekable legal Compare X idx xalive xpos target"
    and data: "x \<in> set idx \<Longrightarrow> seekable legal Compare D (content (snd x)) (dalive (snd x)) (dpos (snd x)) target"
    and opens: "x \<in> set idx \<Longrightarrow> \<exists>d l. bf (snd x) = Some d \<and> dpos (snd x) d l"
    and sep_after: "b < length idx \<Longrightarrow> kv \<in> set (content (snd (idx ! b))) \<Longrightarrow> Compare (fst kv) (fst (idx ! b)) \<le> 0"
    and sep_before: "b < c \<Longrightarrow> c < length idx \<Longrightarrow> kv \<in> set (content (snd (idx ! c))) \<Longrightarrow> Compare (fst (idx ! b)) (fst kv) < 0"
begin

abbreviation nb where "nb \<equiv> length idx"
abbreviation h where "h b \<equiv> snd (idx ! b)"
abbreviation g where "g b \<equiv> content (h b)"

definition items :: "(slice \<times> slice) list" where "items = concat (map (content \<circ> snd) idx)"
definition base :: "nat \<Rightarrow> nat" where "base b = length (concat (map (content \<circ> snd) (take b idx)))"

definition xw :: "'x wrapper \<Rightarrow> nat \<Rightarrow> bool" where "xw = seekable.w_pos X xpos"
definition dw :: "slice \<Rightarrow> 'd wrapper \<Rightarrow> nat \<Rightarrow> bool" where "dw u = seekable.w_pos D (dpos u)"

lemma index_w: "seekable legal Compare (w_methods X) idx (seekable.w_alive xalive) xw target"
  unfolding xw_def using index by (rule seekable.w_seekable)

lemma data_w: "b < nb \<Longrightarrow> seekable legal Compare (w_methods D) (g b) (seekable.w_alive (dalive (h b))) (dw (h b)) target"
  unfolding dw_def using data [OF nth_mem] by (rule seekable.w_seekable)

lemmas x_valid = seekable.valid_pos [OF index_w] and x_value = seekable.value_pos [OF index_w] and x_next = seekable.next_pos [OF index_w]
  and x_prev = seekable.prev_pos [OF index_w] and x_alive = seekable.alive_pos [OF index_w] and x_le = seekable.pos_le [OF index_w]
  and d_valid = seekable.valid_pos [OF data_w] and d_key = seekable.key_pos [OF data_w] and d_value = seekable.value_pos [OF data_w]
  and d_next = seekable.next_pos [OF data_w] and d_prev = seekable.prev_pos [OF data_w] and d_alive = seekable.alive_pos [OF data_w]
  and d_first = seekable.first_at [OF data_w] and d_final = seekable.last_at [OF data_w] and d_seek = seekable.seek_at [OF data_w]
  and d_status = seekable.status_at [OF data_w] and d_le = seekable.pos_le [OF data_w]

lemma xw_valid: "xw w b \<Longrightarrow> w_valid w \<longleftrightarrow> b < nb"
  using x_valid by (simp add: w_methods_def)

lemma dw_valid: "b < nb \<Longrightarrow> dw (h b) w i \<Longrightarrow> w_valid w \<longleftrightarrow> i < length (g b)"
  using d_valid by (simp add: w_methods_def)

lemma dw_some: "b < nb \<Longrightarrow> dw (h b) w i \<Longrightarrow> \<exists>d. w_iter w = Some d"
  unfolding dw_def using seekable.w_pos_def [OF data [OF nth_mem]] by blast

lemma base_ends: "base 0 = 0" "base nb = length items"
  by (simp_all add: base_def items_def)

lemma base_Suc: "b < nb \<Longrightarrow> base (Suc b) = base b + length (g b)"
  by (simp add: base_def take_Suc_conv_app_nth)

lemma items_split: "b < nb \<Longrightarrow> items = concat (map (content \<circ> snd) (take b idx)) @ g b @ concat (map (content \<circ> snd) (drop (Suc b) idx))"
  unfolding items_def by (subst id_take_nth_drop [of b idx]) simp_all

lemma nth_items: "b < nb \<Longrightarrow> i < length (g b) \<Longrightarrow> items ! (base b + i) = g b ! i" and base_less: "b < nb \<Longrightarrow> i < length (g b) \<Longrightarrow> base b + i < length items"
  by (simp_all add: items_split base_def nth_append)

section \<open>The state\<close>

definition no_data :: "('x, 'd) two_level \<Rightarrow> bool" where
  "no_data t \<longleftrightarrow> w_iter (tl_data t) = None \<and> \<not> w_valid (tl_data t)"

definition at_block :: "('x, 'd) two_level \<Rightarrow> nat \<Rightarrow> nat \<Rightarrow> bool" where
  "at_block t b i \<longleftrightarrow> tl_status t = OK \<and> b < nb \<and> tl_handle t = h b \<and> dw (h b) (tl_data t) i"

definition tinv :: "('x, 'd) two_level \<Rightarrow> bool" where
  "tinv t \<longleftrightarrow> tl_status t = OK \<and> (no_data t \<or> (\<exists>b i. at_block t b i))"

definition tpos :: "('x, 'd) two_level \<Rightarrow> nat \<Rightarrow> bool" where
  "tpos t j \<longleftrightarrow> (if j < length items then \<exists>b i. at_block t b i \<and> xw (tl_index t) b \<and> i < length (g b) \<and> j = base b + i
     else j = length items \<and> tl_status t = OK \<and> no_data t \<and> xw (tl_index t) nb)"

definition talive :: "('x, 'd) two_level \<Rightarrow> bool" where
  "talive t \<longleftrightarrow> tinv t \<and> seekable.w_alive xalive (tl_index t)"

lemma tpos_alive: "tpos t j \<Longrightarrow> talive t"
  unfolding tpos_def talive_def tinv_def using x_alive by (auto simp: at_block_def split: if_splits)

lemma tinv_data: "tinv t \<Longrightarrow> w_iter (tl_data t) \<noteq> None \<Longrightarrow> i_status (w_methods D) (tl_data t) = Some OK"
  unfolding tinv_def no_data_def at_block_def using d_status by blast

lemma SetData:
  assumes "w_iter (tl_data t) \<noteq> None \<Longrightarrow> i_status (w_methods D) (tl_data t) = Some OK" and "w_Set D iter (tl_data t) = Some w"
  shows "SetDataIterator D iter t = Some (t\<lparr>tl_data := w\<rparr>)"
  using assms by (cases "w_iter (tl_data t)") (simp_all add: SetDataIterator_def SaveError_def)

lemma SetData_None:
  assumes "tinv t"
  shows "\<exists>t'. SetDataIterator D None t = Some t' \<and> tl_index t' = tl_index t \<and> tl_status t' = OK \<and> no_data t'"
  using SetData [OF tinv_data [OF assms], of None] assms by (simp add: w_Set_def no_data_def tinv_def)

lemma InitDataBlock_at:
  assumes "tinv t" and "xw (tl_index t) b" and b: "b < nb"
  shows "\<exists>t' i. InitDataBlock X D bf t = Some t' \<and> tl_index t' = tl_index t \<and> at_block t' b i"
proof -
  have v: "w_valid (tl_index t)" "i_value (w_methods X) (tl_index t) = Some (h b)" using xw_valid x_value assms(2) b by auto
  show ?thesis
  proof (cases "w_iter (tl_data t) \<noteq> None \<and> h b = tl_handle t")
    case True
    then obtain c i where "at_block t c i" using assms(1) unfolding tinv_def no_data_def by auto
    then have "at_block t b i" using True b unfolding at_block_def by auto
    then show ?thesis using True v by (auto simp: InitDataBlock_def slice_compare_0)
  next
    case False
    obtain d l where d: "bf (h b) = Some d" "dpos (h b) d l" using opens [OF nth_mem [OF b]] by blast
    obtain w where w: "w_Set D (Some d) (tl_data t) = Some w" "dw (h b) w l"
      using seekable.w_Set_pos [OF data [OF nth_mem [OF b]] d(2)] unfolding dw_def by blast
    have "tl_status t = OK" using assms(1) unfolding tinv_def by blast
    moreover have "SetDataIterator D (Some d) (t\<lparr>tl_handle := h b\<rparr>) = Some (t\<lparr>tl_handle := h b, tl_data := w\<rparr>)"
      using SetData [of "t\<lparr>tl_handle := h b\<rparr>"] tinv_data [OF assms(1)] w(1) by simp
    ultimately show ?thesis using False v d(1) w b by (auto simp: InitDataBlock_def slice_compare_0 at_block_def)
  qed
qed

lemma InitDataBlock_end:
  assumes "tinv t" and "xw (tl_index t) nb"
  shows "\<exists>t'. InitDataBlock X D bf t = Some t' \<and> tl_index t' = tl_index t \<and> tl_status t' = OK \<and> no_data t'"
  using SetData_None [OF assms(1)] xw_valid [OF assms(2)] by (simp add: InitDataBlock_def)

text \<open>The end of the sequence, and a block of it with a seek in the block.\<close>

lemma enter_end:
  assumes "tinv t" and "xw (tl_index t) nb"
  shows "\<exists>t'. Option.bind (InitDataBlock X D bf t) (on_data f) = Some t' \<and> tl_index t' = tl_index t \<and> tl_status t' = OK \<and> no_data t'"
  using InitDataBlock_end [OF assms] by (auto simp: on_data_def no_data_def)

lemma enter_block:
  assumes "tinv t" and "xw (tl_index t) b" and b: "b < nb" and f: "\<And>w l. dw (h b) w l \<Longrightarrow> \<exists>w'. f w = Some w' \<and> dw (h b) w' i"
  shows "\<exists>t'. Option.bind (InitDataBlock X D bf t) (on_data f) = Some t' \<and> tl_index t' = tl_index t \<and> at_block t' b i"
proof -
  obtain t1 l where t1: "InitDataBlock X D bf t = Some t1" "tl_index t1 = tl_index t" "at_block t1 b l" using InitDataBlock_at [OF assms(1-3)] by blast
  obtain w' where w': "f (tl_data t1) = Some w'" "dw (h b) w' i" using f t1(3) unfolding at_block_def by blast
  obtain d where "w_iter (tl_data t1) = Some d" using dw_some [OF b] t1(3) unfolding at_block_def by blast
  then have "on_data f t1 = Some (t1\<lparr>tl_data := w'\<rparr>)" using w'(1) by (simp add: on_data_def)
  then show ?thesis using t1 w'(2) by (simp add: at_block_def)
qed

lemma at_block_inv: "at_block t b i \<Longrightarrow> tinv t"
  unfolding tinv_def at_block_def by blast

lemma at_block_index [simp]: "at_block (t\<lparr>tl_index := x\<rparr>) b i = at_block t b i" "tinv (t\<lparr>tl_index := x\<rparr>) = tinv t"
  by (simp_all add: at_block_def tinv_def no_data_def)

lemma skip_end:
  assumes "tl_status t = OK" and "no_data t" and "xw (tl_index t) nb"
  shows "\<exists>t'. SkipEmptyDataBlocksForward X D bf t = Some t' \<and> tpos t' (length items)"
    and "\<exists>t'. SkipEmptyDataBlocksBackward X D bf t = Some t' \<and> tpos t' (length items)"
proof -
  have "tinv t" using assms unfolding tinv_def by blast
  then obtain t' where t': "SetDataIterator D None t = Some t'" "tl_index t' = tl_index t" "tl_status t' = OK" "no_data t'" using SetData_None by blast
  have p: "tpos t' (length items)" using t' assms(3) by (simp add: tpos_def)
  have v: "w_iter (tl_data t) = None" "\<not> w_valid (tl_index t)" using assms(2) xw_valid [OF assms(3)] by (simp_all add: no_data_def)
  show "\<exists>t'. SkipEmptyDataBlocksForward X D bf t = Some t' \<and> tpos t' (length items)"
    using t'(1) p v by (subst SkipEmptyDataBlocksForward.simps) simp
  show "\<exists>t'. SkipEmptyDataBlocksBackward X D bf t = Some t' \<and> tpos t' (length items)"
    using t'(1) p v by (subst SkipEmptyDataBlocksBackward.simps) simp
qed

lemma at_block_here:
  assumes "at_block t b i" and "xw (tl_index t) b" and "i < length (g b)"
  shows "SkipEmptyDataBlocksForward X D bf t = Some t" "SkipEmptyDataBlocksBackward X D bf t = Some t" "tpos t (base b + i)"
proof -
  have b: "b < nb" "dw (h b) (tl_data t) i" using assms(1) by (auto simp: at_block_def)
  have c: "\<not> (w_iter (tl_data t) = None \<or> \<not> w_valid (tl_data t))" using dw_some [OF b] dw_valid [OF b] assms(3) by auto
  show "SkipEmptyDataBlocksForward X D bf t = Some t" by (subst SkipEmptyDataBlocksForward.simps) (simp only: c if_False)
  show "SkipEmptyDataBlocksBackward X D bf t = Some t" by (subst SkipEmptyDataBlocksBackward.simps) (simp only: c if_False)
  show "tpos t (base b + i)" using base_less [OF b(1) assms(3)] assms unfolding tpos_def by auto
qed

lemma skip_forward:
  assumes "at_block t b i" and "xw (tl_index t) b"
  shows "\<exists>t'. SkipEmptyDataBlocksForward X D bf t = Some t' \<and> tpos t' (base b + i)"
  using assms
proof (induction "nb - b" arbitrary: t b i)
  case 0
  then show ?case by (simp add: at_block_def)
next
  case (Suc k)
  have b: "b < nb" "dw (h b) (tl_data t) i" using Suc.prems(1) by (auto simp: at_block_def)
  show ?case
  proof (cases "i < length (g b)")
    case False
    then have i: "i = length (g b)" "\<not> w_valid (tl_data t)" using d_le [OF b] dw_valid [OF b] by auto
    obtain x where x: "i_Next (w_methods X) (tl_index t) = Some x" "xw x (Suc b)" using x_next [OF Suc.prems(2) b(1)] by blast
    let ?t = "t\<lparr>tl_index := x\<rparr>"
    have step: "SkipEmptyDataBlocksForward X D bf t =
        Option.bind (Option.bind (InitDataBlock X D bf ?t) (on_data (i_SeekToFirst (w_methods D)))) (SkipEmptyDataBlocksForward X D bf)"
      using i(2) xw_valid [OF Suc.prems(2)] b(1) x(1) by (subst SkipEmptyDataBlocksForward.simps) simp
    have inv: "tinv ?t" using at_block_inv [OF Suc.prems(1)] by simp
    have e: "base b + i = base (Suc b) + 0" using base_Suc [OF b(1)] i(1) by simp
    show ?thesis
    proof (cases "Suc b < nb")
      case True
      obtain t1 where "Option.bind (InitDataBlock X D bf ?t) (on_data (i_SeekToFirst (w_methods D))) = Some t1" "tl_index t1 = x" "at_block t1 (Suc b) 0"
        using enter_block [OF inv _ True, of "i_SeekToFirst (w_methods D)" 0] x(2) d_first [OF True d_alive [OF True]] by auto
      then show ?thesis using Suc.hyps(1) [of "Suc b" t1 0] Suc.hyps(2) x(2) unfolding step e by simp
    next
      case False
      then have nb: "Suc b = nb" using b(1) by simp
      then obtain t1 where "Option.bind (InitDataBlock X D bf ?t) (on_data (i_SeekToFirst (w_methods D))) = Some t1" "tl_index t1 = x" "tl_status t1 = OK" "no_data t1"
        using enter_end [OF inv] x(2) by auto
      then show ?thesis using skip_end(1) [of t1] x(2) base_ends(2) unfolding step e nb by simp
    qed
  qed (use at_block_here [OF Suc.prems] in auto)
qed

lemma skip_backward:
  assumes "at_block t b i" and "xw (tl_index t) b"
  shows "\<exists>t'. SkipEmptyDataBlocksBackward X D bf t = Some t' \<and>
    tpos t' (if i < length (g b) then base b + i else if base b = 0 then length items else base b - 1)"
  using assms
proof (induction b arbitrary: t i)
  case 0
  have b: "0 < nb" "dw (h 0) (tl_data t) i" using "0.prems"(1) by (auto simp: at_block_def)
  show ?case
  proof (cases "i < length (g 0)")
    case False
    then have v: "\<not> w_valid (tl_data t)" using dw_valid [OF b] by auto
    obtain x where x: "i_Prev (w_methods X) (tl_index t) = Some x" "xw x nb" using x_prev [OF "0.prems"(2) b(1)] by auto
    let ?t = "t\<lparr>tl_index := x\<rparr>"
    have inv: "tinv ?t" using at_block_inv [OF "0.prems"(1)] by simp
    have step: "SkipEmptyDataBlocksBackward X D bf t =
        Option.bind (Option.bind (InitDataBlock X D bf ?t) (on_data (i_SeekToLast (w_methods D)))) (SkipEmptyDataBlocksBackward X D bf)"
      using v xw_valid [OF "0.prems"(2)] b(1) x(1) by (subst SkipEmptyDataBlocksBackward.simps) simp
    obtain t1 where "Option.bind (InitDataBlock X D bf ?t) (on_data (i_SeekToLast (w_methods D))) = Some t1" "tl_index t1 = x" "tl_status t1 = OK" "no_data t1"
      using enter_end [OF inv] x(2) by auto
    then show ?thesis using skip_end(2) [of t1] x(2) base_ends(1) False unfolding step by simp
  qed (use at_block_here [OF "0.prems"] in auto)
next
  case (Suc b)
  have b: "Suc b < nb" "dw (h (Suc b)) (tl_data t) i" "b < nb" using Suc.prems(1) by (auto simp: at_block_def)
  show ?case
  proof (cases "i < length (g (Suc b))")
    case False
    then have v: "\<not> w_valid (tl_data t)" using dw_valid [OF b(1,2)] by auto
    obtain x where x: "i_Prev (w_methods X) (tl_index t) = Some x" "xw x b" using x_prev [OF Suc.prems(2) b(1)] by auto
    let ?t = "t\<lparr>tl_index := x\<rparr>"
    have inv: "tinv ?t" using at_block_inv [OF Suc.prems(1)] by simp
    have step: "SkipEmptyDataBlocksBackward X D bf t =
        Option.bind (Option.bind (InitDataBlock X D bf ?t) (on_data (i_SeekToLast (w_methods D)))) (SkipEmptyDataBlocksBackward X D bf)"
      using v xw_valid [OF Suc.prems(2)] b(1) x(1) by (subst SkipEmptyDataBlocksBackward.simps) simp
    obtain t1 where t1: "Option.bind (InitDataBlock X D bf ?t) (on_data (i_SeekToLast (w_methods D))) = Some t1" "tl_index t1 = x"
      "at_block t1 b (length (g b) - 1)"
      using enter_block [OF inv _ b(3), of "i_SeekToLast (w_methods D)" "length (g b) - 1"] x(2) d_final [OF b(3) d_alive [OF b(3)]] by auto
    have e: "(if length (g b) - 1 < length (g b) then base b + (length (g b) - 1) else if base b = 0 then length items else base b - 1) =
        (if i < length (g (Suc b)) then base (Suc b) + i else if base (Suc b) = 0 then length items else base (Suc b) - 1)"
      using base_Suc [OF b(3)] False by (cases "length (g b)") auto
    show ?thesis using Suc.IH [OF t1(3)] t1(1,2) x(2) unfolding step e by simp
  qed (use at_block_here [OF Suc.prems] in auto)
qed

section \<open>The methods\<close>

lemma tl_SeekToFirst_at:
  assumes "talive t"
  shows "\<exists>t'. tl_SeekToFirst X D bf t = Some t' \<and> tpos t' 0"
proof -
  have a: "tinv t" "seekable.w_alive xalive (tl_index t)" using assms unfolding talive_def by auto
  obtain x where x: "i_SeekToFirst (w_methods X) (tl_index t) = Some x" "xw x 0" using seekable.first_at [OF index_w a(2)] by blast
  let ?t = "t\<lparr>tl_index := x\<rparr>"
  have inv: "tinv ?t" using a(1) by simp
  have e: "tl_SeekToFirst X D bf t = Option.bind (Option.bind (InitDataBlock X D bf ?t) (on_data (i_SeekToFirst (w_methods D)))) (SkipEmptyDataBlocksForward X D bf)"
    using x(1) by (simp add: tl_SeekToFirst_def)
  show ?thesis
  proof (cases "nb = 0")
    case True
    then obtain t1 where "Option.bind (InitDataBlock X D bf ?t) (on_data (i_SeekToFirst (w_methods D))) = Some t1" "tl_index t1 = x" "tl_status t1 = OK" "no_data t1"
      using enter_end [OF inv] x(2) by auto
    then show ?thesis using skip_end(1) [of t1] x(2) base_ends True unfolding e by simp
  next
    case False
    then have nb: "0 < nb" by blast
    obtain t1 where "Option.bind (InitDataBlock X D bf ?t) (on_data (i_SeekToFirst (w_methods D))) = Some t1" "tl_index t1 = x" "at_block t1 0 0"
      using enter_block [OF inv _ nb, of "i_SeekToFirst (w_methods D)" 0] x(2) d_first [OF nb d_alive [OF nb]] by auto
    then show ?thesis using skip_forward [of t1 0 0] x(2) base_ends(1) unfolding e by simp
  qed
qed

lemma tl_SeekToLast_at:
  assumes "talive t"
  shows "\<exists>t'. tl_SeekToLast X D bf t = Some t' \<and> tpos t' (length items - 1)"
proof -
  have a: "tinv t" "seekable.w_alive xalive (tl_index t)" using assms unfolding talive_def by auto
  obtain x where x: "i_SeekToLast (w_methods X) (tl_index t) = Some x" "xw x (nb - 1)" using seekable.last_at [OF index_w a(2)] by blast
  let ?t = "t\<lparr>tl_index := x\<rparr>"
  have inv: "tinv ?t" using a(1) by simp
  have e: "tl_SeekToLast X D bf t = Option.bind (Option.bind (InitDataBlock X D bf ?t) (on_data (i_SeekToLast (w_methods D)))) (SkipEmptyDataBlocksBackward X D bf)"
    using x(1) by (simp add: tl_SeekToLast_def)
  show ?thesis
  proof (cases "nb = 0")
    case True
    then obtain t1 where "Option.bind (InitDataBlock X D bf ?t) (on_data (i_SeekToLast (w_methods D))) = Some t1" "tl_index t1 = x" "tl_status t1 = OK" "no_data t1"
      using enter_end [OF inv] x(2) by auto
    then show ?thesis using skip_end(2) [of t1] x(2) base_ends True unfolding e by simp
  next
    case False
    let ?b = "nb - 1"
    have b: "?b < nb" using False by simp
    obtain t1 where t1: "Option.bind (InitDataBlock X D bf ?t) (on_data (i_SeekToLast (w_methods D))) = Some t1" "tl_index t1 = x" "at_block t1 ?b (length (g ?b) - 1)"
      using enter_block [OF inv _ b, of "i_SeekToLast (w_methods D)" "length (g ?b) - 1"] x(2) d_final [OF b d_alive [OF b]] by auto
    have "length items = base ?b + length (g ?b)" using base_Suc [OF b] base_ends(2) False by simp
    then have "(if length (g ?b) - 1 < length (g ?b) then base ?b + (length (g ?b) - 1) else if base ?b = 0 then length items else base ?b - 1) = length items - 1"
      by (cases "length (g ?b)") auto
    then show ?thesis using skip_backward [OF t1(3)] t1(1,2) x(2) unfolding e by simp
  qed
qed

lemma items_block: "kv \<in> set (concat (map (content \<circ> snd) (take b idx))) \<Longrightarrow> \<exists>c. c < b \<and> c < nb \<and> kv \<in> set (g c)"
  and items_later: "kv \<in> set (concat (map (content \<circ> snd) (drop b idx))) \<Longrightarrow> \<exists>c. b \<le> c \<and> c < nb \<and> kv \<in> set (g c)"
proof -
  assume "kv \<in> set (concat (map (content \<circ> snd) (take b idx)))"
  then obtain x where x: "x \<in> set (take b idx)" "kv \<in> set (content (snd x))" by auto
  then obtain c where "c < length (take b idx)" "x = take b idx ! c" by (metis in_set_conv_nth)
  then show "\<exists>c. c < b \<and> c < nb \<and> kv \<in> set (g c)" using x(2) by (intro exI [of _ c]) simp
next
  assume "kv \<in> set (concat (map (content \<circ> snd) (drop b idx)))"
  then obtain x where x: "x \<in> set (drop b idx)" "kv \<in> set (content (snd x))" by auto
  then obtain c where "c < length (drop b idx)" "x = drop b idx ! c" by (metis in_set_conv_nth)
  then show "\<exists>c. b \<le> c \<and> c < nb \<and> kv \<in> set (g c)" using x(2) by (intro exI [of _ "b + c"]) simp
qed

lemma index_legal: "b < nb \<Longrightarrow> legal (fst (idx ! b))" and block_legal: "b < nb \<Longrightarrow> kv \<in> set (g b) \<Longrightarrow> legal (fst kv)"
  using seekable.items_legal [OF index nth_mem] seekable.items_legal [OF data [OF nth_mem]] by blast+

text \<open>The rank of a key: in the block that the index names.\<close>

lemma before_block:
  assumes "target k" and "kv \<in> set (concat (map (content \<circ> snd) (take (rank Compare k (map fst idx)) idx)))"
  shows "Compare (fst kv) k < 0"
proof -
  have k: "legal k" using seekable.target_legal [OF index assms(1)] .
  obtain c where c: "c < rank Compare k (map fst idx)" "c < nb" "kv \<in> set (g c)" using items_block [OF assms(2)] by blast
  have "Compare (fst (idx ! c)) k < 0" using before_rank [OF c(1)] c(2) by simp
  then show ?thesis using compare_less_trans(1) [OF _ _ k] sep_after [OF c(2,3)] block_legal [OF c(2,3)] index_legal [OF c(2)] by blast
qed

lemma rank_block:
  assumes "target k" and b: "rank Compare k (map fst idx) < nb"
  shows "rank Compare k (map fst items) = base (rank Compare k (map fst idx)) + rank Compare k (map fst (g (rank Compare k (map fst idx))))"
proof -
  let ?b = "rank Compare k (map fst idx)"
  let ?A = "concat (map (content \<circ> snd) (take ?b idx))" and ?C = "concat (map (content \<circ> snd) (drop (Suc ?b) idx))"
  have k: "legal k" using seekable.target_legal [OF index assms(1)] .
  have nb: "\<not> Compare (fst (idx ! ?b)) k < 0" using rank_not_before [of k "map fst idx"] b by simp
  have later: "\<not> Compare (fst kv) k < 0" if kv: "kv \<in> set ?C" for kv
  proof -
    obtain c where c: "Suc ?b \<le> c" "c < nb" "kv \<in> set (g c)" using items_later [OF kv] by blast
    have "Compare (fst (idx ! ?b)) (fst kv) < 0" using sep_before [of ?b c kv] c by simp
    then show ?thesis using nb compare_less_trans(2) [of "fst (idx ! ?b)" "fst kv" k] index_legal [OF b] block_legal [OF c(2,3)] k by force
  qed
  have "takeWhile (\<lambda>x. Compare x k < 0) (map fst items) = map fst ?A @ takeWhile (\<lambda>x. Compare x k < 0) (map fst (g ?b))"
  proof -
    have "takeWhile (\<lambda>x. Compare x k < 0) (map fst ?C) = []" unfolding takeWhile_eq_Nil_iff using later by (cases ?C) (simp_all del: concat_eq_Nil_conv)
    then have "takeWhile (\<lambda>x. Compare x k < 0) (map fst (g ?b) @ map fst ?C) = takeWhile (\<lambda>x. Compare x k < 0) (map fst (g ?b))"
      by (rule takeWhile_append_Nil)
    moreover have "takeWhile (\<lambda>x. Compare x k < 0) (map fst ?A @ map fst (g ?b) @ map fst ?C) = map fst ?A @ takeWhile (\<lambda>x. Compare x k < 0) (map fst (g ?b) @ map fst ?C)"
      using before_block [OF assms(1)] by (intro takeWhile_append2) auto
    ultimately show ?thesis unfolding items_split [OF b] map_append by simp
  qed
  then show ?thesis unfolding rank_def base_def by simp
qed

lemma rank_end:
  assumes "target k" and "rank Compare k (map fst idx) = nb"
  shows "rank Compare k (map fst items) = length items"
proof -
  have "takeWhile (\<lambda>x. Compare x k < 0) (map fst items) = map fst items"
    using before_block [OF assms(1)] unfolding assms(2) items_def by (intro takeWhile_eq_all_conv [THEN iffD2]) auto
  then show ?thesis unfolding rank_def by (metis length_map)
qed

lemma tl_Seek_at:
  assumes "talive t" and k: "target k"
  shows "\<exists>t'. tl_Seek X D bf k t = Some t' \<and> tpos t' (rank Compare k (map fst items))"
proof -
  let ?b = "rank Compare k (map fst idx)" and ?f = "i_Seek (w_methods D) k"
  have a: "tinv t" "seekable.w_alive xalive (tl_index t)" using assms unfolding talive_def by auto
  obtain x where x: "i_Seek (w_methods X) k (tl_index t) = Some x" "xw x ?b" using seekable.seek_at [OF index_w a(2) k] by blast
  let ?t = "t\<lparr>tl_index := x\<rparr>"
  have inv: "tinv ?t" using a(1) by simp
  have e: "tl_Seek X D bf k t = Option.bind (Option.bind (InitDataBlock X D bf ?t) (on_data ?f)) (SkipEmptyDataBlocksForward X D bf)"
    using x(1) by (simp add: tl_Seek_def)
  show ?thesis
  proof (cases "?b < nb")
    case False
    then have nb: "?b = nb" using x_le [OF x(2)] by simp
    then obtain t1 where "Option.bind (InitDataBlock X D bf ?t) (on_data ?f) = Some t1" "tl_index t1 = x" "tl_status t1 = OK" "no_data t1"
      using enter_end [OF inv] x(2) by auto
    then show ?thesis using skip_end(1) [of t1] x(2) rank_end [OF k nb] unfolding e nb by simp
  next
    case True
    obtain t1 where "Option.bind (InitDataBlock X D bf ?t) (on_data ?f) = Some t1" "tl_index t1 = x" "at_block t1 ?b (rank Compare k (map fst (g ?b)))"
      using enter_block [OF inv _ True, of ?f] x(2) d_seek [OF True d_alive [OF True] k] by auto
    then show ?thesis using skip_forward [of t1 ?b] x(2) unfolding e rank_block [OF k True] by simp
  qed
qed

lemma tpos_at:
  assumes "tpos t j" and "j < length items"
  obtains b i where "at_block t b i" "xw (tl_index t) b" "b < nb" "dw (h b) (tl_data t) i" "i < length (g b)" "j = base b + i" "tl_Valid t"
proof -
  obtain b i where b: "at_block t b i" "xw (tl_index t) b" "i < length (g b)" "j = base b + i" using assms unfolding tpos_def by auto
  have "b < nb" "dw (h b) (tl_data t) i" using b(1) unfolding at_block_def by auto
  then show ?thesis using that [of b i] b dw_valid unfolding tl_Valid_def by blast
qed

lemma tl_Next_at:
  assumes "tpos t j" and "j < length items"
  shows "\<exists>t'. tl_Next X D bf t = Some t' \<and> tpos t' (j + 1)"
proof -
  obtain b i where b: "at_block t b i" "xw (tl_index t) b" "b < nb" "dw (h b) (tl_data t) i" "i < length (g b)" "j = base b + i" "tl_Valid t" using tpos_at [OF assms] .
  obtain w where w: "i_Next (w_methods D) (tl_data t) = Some w" "dw (h b) w (Suc i)" using d_next [OF b(3-5)] by blast
  have "at_block (t\<lparr>tl_data := w\<rparr>) b (Suc i)" using b(1) w(2) by (simp add: at_block_def)
  from skip_forward [OF this] show ?thesis using b(2,6,7) w(1) by (simp add: tl_Next_def)
qed

lemma tl_Prev_at:
  assumes "tpos t j" and "j < length items"
  shows "\<exists>t'. tl_Prev X D bf t = Some t' \<and> tpos t' (if j = 0 then length items else j - 1)"
proof -
  obtain b i where b: "at_block t b i" "xw (tl_index t) b" "b < nb" "dw (h b) (tl_data t) i" "i < length (g b)" "j = base b + i" "tl_Valid t" using tpos_at [OF assms] .
  let ?i = "if i = 0 then length (g b) else i - 1"
  obtain w where w: "i_Prev (w_methods D) (tl_data t) = Some w" "dw (h b) w ?i" using d_prev [OF b(3-5)] by blast
  have "at_block (t\<lparr>tl_data := w\<rparr>) b ?i" using b(1) w(2) by (simp add: at_block_def)
  moreover have "(if ?i < length (g b) then base b + ?i else if base b = 0 then length items else base b - 1) = (if j = 0 then length items else j - 1)"
    using b(5,6) by auto
  ultimately show ?thesis using skip_backward [of "t\<lparr>tl_data := w\<rparr>" b ?i] b(2,7) w(1) by (auto simp: tl_Prev_def)
qed

lemma tl_Status_at:
  assumes "tpos t j"
  shows "tl_Status X D t = Some OK"
proof -
  have "tinv t" and x: "\<exists>b. xw (tl_index t) b" using tpos_alive [OF assms] assms unfolding talive_def tpos_def by (auto split: if_splits)
  then have "i_status (w_methods X) (tl_index t) = Some OK" "tl_status t = OK" using seekable.status_at [OF index_w] unfolding tinv_def by auto
  then show ?thesis using tinv_data [OF \<open>tinv t\<close>] by (cases "w_iter (tl_data t)") (simp_all add: tl_Status_def)
qed

lemma items_sorted: "sorted_wrt (\<lambda>a b. Compare a b < 0) (map fst items)"
proof -
  have "sorted_wrt (\<lambda>a b. Compare a b < 0) (map fst (concat (map (content \<circ> snd) (drop b idx))))" if "b \<le> nb" for b
    using that
  proof (induction "nb - b" arbitrary: b)
    case (Suc n)
    then have b: "b < nb" by simp
    have "Compare (fst x) (fst y) < 0" if x: "x \<in> set (g b)" and y: "y \<in> set (concat (map (content \<circ> snd) (drop (Suc b) idx)))" for x y
    proof -
      obtain c where c: "Suc b \<le> c" "c < nb" "y \<in> set (g c)" using items_later [OF y] by blast
      then show ?thesis using compare_less_trans(1) [OF _ _ _ sep_after [OF b x] sep_before [of b c y]] block_legal [OF b x] index_legal [OF b] block_legal [OF c(2,3)] by simp
    qed
    moreover have "sorted_wrt (\<lambda>a b. Compare a b < 0) (map fst (g b))" using seekable.items_sorted [OF data [OF nth_mem [OF b]]] .
    moreover have "sorted_wrt (\<lambda>a b. Compare a b < 0) (map fst (concat (map (content \<circ> snd) (drop (Suc b) idx))))" using Suc.hyps b by simp
    moreover have "map fst (concat (map (content \<circ> snd) (drop b idx))) = map fst (g b) @ map fst (concat (map (content \<circ> snd) (drop (Suc b) idx)))"
      by (simp add: Cons_nth_drop_Suc [OF b, symmetric])
    ultimately show ?case by (simp only: sorted_wrt_append) (simp only: set_map ball_simps image_iff bex_simps, blast)
  qed simp
  from this [of 0] show ?thesis by (simp add: items_def)
qed

theorem two_level_seekable: "seekable legal Compare (two_level_methods X D bf) items talive tpos target"
proof (intro seekable.intro seekable_axioms.intro three_way_axioms cursor.intro)
  fix t j
  assume t: "tpos t j"
  show "j \<le> length items \<and> (i_Valid (two_level_methods X D bf) t \<longleftrightarrow> j < length items)"
  proof (cases "j < length items")
    case True
    then show ?thesis using tpos_at [OF t True] by (auto simp: two_level_methods_def)
  qed (use t in \<open>auto simp: tpos_def two_level_methods_def tl_Valid_def no_data_def\<close>)
  assume j: "j < length items"
  obtain b i where b: "at_block t b i" "xw (tl_index t) b" "b < nb" "dw (h b) (tl_data t) i" "i < length (g b)" "j = base b + i" "tl_Valid t" using tpos_at [OF t j] .
  show "i_item (two_level_methods X D bf) t = Some (items ! j)"
    unfolding b(6) nth_items [OF b(3,5)] using d_key [OF b(3-5)] d_value [OF b(3-5)]
    by (subst prod.collapse [symmetric], subst i_item_Some) (simp add: two_level_methods_def tl_key_def tl_value_def)
  show "\<exists>t'. i_Next (two_level_methods X D bf) t = Some t' \<and> tpos t' (j + 1)" using tl_Next_at [OF t j] by (simp add: two_level_methods_def)
  show "\<exists>t'. i_Prev (two_level_methods X D bf) t = Some t' \<and> tpos t' (if j = 0 then length items else j - 1)"
    using tl_Prev_at [OF t j] by (cases "j = 0") (simp_all add: two_level_methods_def)
next
  show "legal (fst x)" if x: "x \<in> set items" for x
  proof -
    obtain c where "c < nb" "x \<in> set (g c)" using items_block [of x nb] x [unfolded items_def] unfolding take_all [OF le_refl] by blast
    then show ?thesis by (rule block_legal)
  qed
qed (use seekable.target_legal [OF index] in \<open>auto simp: two_level_methods_def
  intro: tpos_alive tl_SeekToFirst_at tl_SeekToLast_at [simplified] tl_Seek_at tl_Status_at items_sorted\<close>)

end

end
