(* ===== verification/BlockIter.thy ===== *)
theory BlockIter
  imports BlockCorrect Iterators
begin

text \<open>
  table/block.cc: \<open>Block::Iter\<close> with all its methods, and that it meets the contract of iterators over the entries of a block that the builder
  made.
\<close>

definition block_methods :: "(slice \<Rightarrow> slice \<Rightarrow> int) \<Rightarrow> block_iter iterator" where
  "block_methods cmp =
     \<lparr>i_Valid = bi_Valid, i_SeekToFirst = bi_SeekToFirst, i_SeekToLast = bi_SeekToLast, i_Seek = bi_Seek cmp, i_Next = bi_Next, i_Prev = bi_Prev,
      i_key = bi_key_of, i_value = bi_value, i_status = (\<lambda>it. Some (bi_status it))\<rparr>"

lemma block_item: "i_item (block_methods cmp) = bi_item"
  by (simp add: i_item_def block_methods_def bi_item_def fun_eq_iff)

lemma block_seekable:
  assumes T: "three_way legal cmp" and w: "wf_block es rs" and s: "sorted_wrt (\<lambda>a b. cmp a b < 0) (ekeys es)" and l: "\<forall>x\<in>set (ekeys es). legal x"
  shows "seekable legal cmp (block_methods cmp) (map snd es) (over es rs) (at_ent es rs) legal"
proof (intro seekable.intro seekable_axioms.intro T)
  have ks: "map fst (map snd es) = ekeys es" by (simp add: ekeys_def)
  show "cursor (map snd es) (at_ent es rs) (i_Valid (block_methods cmp)) (i_item (block_methods cmp)) (i_Next (block_methods cmp)) (i_Prev (block_methods cmp))"
    using block_cursor [OF w] unfolding block_item by (simp add: block_methods_def)
  show "\<exists>it'. i_Seek (block_methods cmp) k it = Some it' \<and> at_ent es rs it' (rank cmp k (map fst (map snd es)))" if "over es rs it" "legal k" for it k
    using bi_Seek_over [OF T w that s l] unfolding ks by (simp add: block_methods_def)
  show "sorted_wrt (\<lambda>a b. cmp a b < 0) (map fst (map snd es))" unfolding ks by (rule s)
  show "legal (fst x)" if "x \<in> set (map snd es)" for x using l that unfolding ks [symmetric] by auto
qed (use bi_SeekToFirst_over [OF w] bi_SeekToLast_over [OF w] in \<open>auto simp: block_methods_def at_ent_def over_def\<close>)

end
