(* ===== verification/TableIter.thy ===== *)
theory TableIter
  imports TableCorrect TwoLevel BlockIter
begin

text \<open>
  table/table.cc: \<open>Table::NewIterator\<close>, the two-level iterator over the index block and the data blocks of a table. It
  meets the contract of iterators over the entries of the table. The two-level iterator holds no state but its own, so this theory has the iterators of tables that were
  opened without a block cache.
\<close>

text \<open>The other operations of the iterators that \<open>Block::NewIterator\<close> returns: those of a block, or of \<open>EmptyIterator\<close>.\<close>

definition ni_SeekToFirst :: "new_iter \<Rightarrow> new_iter option" where
  "ni_SeekToFirst it = (case it of Block_Iter b \<Rightarrow> map_option Block_Iter (bi_SeekToFirst b) | _ \<Rightarrow> Some it)"

definition ni_SeekToLast :: "new_iter \<Rightarrow> new_iter option" where
  "ni_SeekToLast it = (case it of Block_Iter b \<Rightarrow> map_option Block_Iter (bi_SeekToLast b) | _ \<Rightarrow> Some it)"

definition ni_Next :: "new_iter \<Rightarrow> new_iter option" where
  "ni_Next it = (case it of Block_Iter b \<Rightarrow> map_option Block_Iter (bi_Next b) | _ \<Rightarrow> None)"

definition ni_Prev :: "new_iter \<Rightarrow> new_iter option" where
  "ni_Prev it = (case it of Block_Iter b \<Rightarrow> map_option Block_Iter (bi_Prev b) | _ \<Rightarrow> None)"

definition ni_methods :: "(slice \<Rightarrow> slice \<Rightarrow> int) \<Rightarrow> new_iter iterator" where
  "ni_methods cmp =
     \<lparr>i_Valid = ni_Valid, i_SeekToFirst = ni_SeekToFirst, i_SeekToLast = ni_SeekToLast, i_Seek = ni_Seek cmp, i_Next = ni_Next, i_Prev = ni_Prev,
      i_key = ni_key, i_value = ni_value, i_status = (\<lambda>it. Some (ni_status it))\<rparr>"

definition Table_NewIterator :: "Table \<Rightarrow> (new_iter, new_iter) two_level option" where
  "Table_NewIterator t = do { it \<leftarrow> Block_NewIterator (t_index t); NewTwoLevelIterator (ni_methods (o_cmp (t_opt t))) it }"

text \<open>The block function of the iterator, \<open>BlockReader\<close> without a block cache: there is no handle to release when the iterator of the block is deleted.\<close>

definition block_function :: "Table \<Rightarrow> bool \<Rightarrow> bool \<Rightarrow> slice \<Rightarrow> new_iter option" where
  "block_function t verify_checksums fill_cache index_value = map_option fst (BlockReader t verify_checksums fill_cache index_value None)"

definition table_methods :: "Table \<Rightarrow> bool \<Rightarrow> bool \<Rightarrow> (new_iter, new_iter) two_level iterator" where
  "table_methods t verify_checksums fill_cache =
     two_level_methods (ni_methods (o_cmp (t_opt t))) (ni_methods (o_cmp (t_opt t))) (block_function t verify_checksums fill_cache)"

section \<open>Iterators of blocks\<close>

definition ni_over :: "ent list \<Rightarrow> nat list \<Rightarrow> new_iter \<Rightarrow> bool" where
  "ni_over es rs it \<longleftrightarrow> (\<exists>b. it = Block_Iter b \<and> over es rs b)"

definition ni_at :: "ent list \<Rightarrow> nat list \<Rightarrow> new_iter \<Rightarrow> nat \<Rightarrow> bool" where
  "ni_at es rs it i \<longleftrightarrow> (\<exists>b. it = Block_Iter b \<and> at_ent es rs b i)"

lemma ni_seekable:
  assumes "three_way legal cmp" and "wf_block es rs" and "sorted_wrt (\<lambda>a b. cmp (fst a) (fst b) < 0) (map snd es)" and "\<forall>kv\<in>set (map snd es). legal (fst kv)"
  shows "seekable legal cmp (ni_methods cmp) (map snd es) (ni_over es rs) (ni_at es rs) legal"
proof -
  have "sorted_wrt (\<lambda>a b. cmp a b < 0) (ekeys es)" "\<forall>x\<in>set (ekeys es). legal x" using assms(3,4) by (auto simp: ekeys_def sorted_wrt_map)
  then have S: "seekable legal cmp (block_methods cmp) (map snd es) (over es rs) (at_ent es rs) legal" using block_seekable assms(1,2) by blast
  note [simp] = ni_methods_def block_methods_def ni_SeekToFirst_def ni_SeekToLast_def ni_Next_def ni_Prev_def ni_Seek_def ni_Valid_def ni_key_def ni_value_def ni_status_def
  show ?thesis
  proof (intro seekable.intro seekable_axioms.intro assms(1) cursor.intro)
    fix it i
    assume "ni_at es rs it i"
    then obtain b where b: "it = Block_Iter b" "at_ent es rs b i" unfolding ni_at_def by blast
    show "i \<le> length (map snd es) \<and> (i_Valid (ni_methods cmp) it \<longleftrightarrow> i < length (map snd es))"
      using seekable.valid_pos [OF S b(2)] seekable.pos_le [OF S b(2)] b(1) by simp
    show "ni_over es rs it" using seekable.alive_pos [OF S b(2)] b(1) unfolding ni_over_def by blast
    show "i_status (ni_methods cmp) it = Some OK" using seekable.status_at [OF S b(2)] b(1) by simp
    assume i: "i < length (map snd es)"
    show "i_item (ni_methods cmp) it = Some (map snd es ! i)"
      using seekable.key_pos [OF S b(2) i] seekable.value_pos [OF S b(2) i] b(1) by (subst prod.collapse [symmetric], subst i_item_Some) simp
    show "\<exists>it'. i_Next (ni_methods cmp) it = Some it' \<and> ni_at es rs it' (i + 1)" using seekable.next_pos [OF S b(2) i] b(1) unfolding ni_at_def by auto
    show "\<exists>it'. i_Prev (ni_methods cmp) it = Some it' \<and> ni_at es rs it' (if i = 0 then length (map snd es) else i - 1)"
      using seekable.prev_pos [OF S b(2) i] b(1) unfolding ni_at_def by (cases "i = 0") auto
  next
    fix it
    assume "ni_over es rs it"
    then obtain b where b: "it = Block_Iter b" "over es rs b" unfolding ni_over_def by blast
    show "\<exists>it'. i_SeekToFirst (ni_methods cmp) it = Some it' \<and> ni_at es rs it' 0" using seekable.first_at [OF S b(2)] b(1) unfolding ni_at_def by auto
    show "\<exists>it'. i_SeekToLast (ni_methods cmp) it = Some it' \<and> ni_at es rs it' (length (map snd es) - 1)"
      using seekable.last_at [OF S b(2)] b(1) unfolding ni_at_def by auto
    show "\<exists>it'. i_Seek (ni_methods cmp) k it = Some it' \<and> ni_at es rs it' (rank cmp k (map fst (map snd es)))" if "legal k" for k
      using seekable.seek_at [OF S b(2) that] b(1) unfolding ni_at_def by auto
  qed (use seekable.items_sorted [OF S] seekable.items_legal [OF S] in auto)
qed

lemma NewIterator_at:
  assumes "wf_block es rs"
  shows "\<exists>it. Block_NewIterator (mk_Block (block_bytes es rs)) = Some it \<and> ni_at es rs it (length es)"
proof -
  obtain b where b: "Block_NewIterator (mk_Block (block_bytes es rs)) = Some (Block_Iter b)" "over es rs b" using NewIterator_over [OF assms] by blast
  then have "bi_current b = bi_restarts b" "bi_index b = bi_num b" by (auto simp: Block_NewIterator_def mk_block_iter_def Let_def split: if_splits)
  then have "at_ent es rs b (length es)" using b(2) by (simp add: at_ent_def over_def)
  then show ?thesis using b(1) unfolding ni_at_def by blast
qed

text \<open>The bytes of a block determine its entries.\<close>

lemma block_bytes_unique:
  assumes w: "wf_block es rs" and w': "wf_block es' rs'" and e: "block_bytes es rs = block_bytes es' rs'"
  shows "map snd es = map snd es'"
proof -
  obtain b where b: "Block_NewIterator (mk_Block (block_bytes es rs)) = Some (Block_Iter b)" "over es rs b" using NewIterator_over [OF w] by blast
  then have b': "over es' rs' b" using NewIterator_over [OF w'] unfolding e by auto
  obtain it where it: "bi_SeekToFirst b = Some it" "at_ent es rs it 0" "at_ent es' rs' it 0"
    using bi_SeekToFirst_over [OF w b(2)] bi_SeekToFirst_over [OF w' b'] by auto
  let ?n = "length es + length es'"
  have "scan bi_item bi_Next bi_Valid ?n it = Some (drop 0 (map snd es))" using cursor.scan_forward [OF block_cursor [OF w] it(2), of ?n] by simp
  moreover have "scan bi_item bi_Next bi_Valid ?n it = Some (drop 0 (map snd es'))" using cursor.scan_forward [OF block_cursor [OF w'] it(3), of ?n] by simp
  ultimately show ?thesis by simp
qed

section \<open>Tables\<close>

context table_options
begin

text \<open>The block of a handle in the file \<open>F\<close>.\<close>

definition block_of :: "byte list \<Rightarrow> slice \<Rightarrow> ent list \<times> nat list" where
  "block_of F u = (SOME er. wf_block (fst er) (snd er) \<and> (\<exists>h D e. bh_DecodeFrom u = Some (h, []) \<and> F = D @ e \<and> stored opt D h (block_bytes (fst er) (snd er))))"

lemma block_of_handle:
  assumes "F = D @ e" and "block_at opt D h g"
  shows "wf_block (fst (block_of F (handle_bytes h))) (snd (block_of F (handle_bytes h)))"
    and "map snd (fst (block_of F (handle_bytes h))) = g"
    and "\<exists>cachable. ReadBlock (mem_file mapped F) opt v h = Some (OK, block_bytes (fst (block_of F (handle_bytes h))) (snd (block_of F (handle_bytes h))), cachable)"
proof -
  let ?er = "block_of F (handle_bytes h)"
  have dec: "bh_DecodeFrom (handle_bytes h) = Some (h, [])" using handle.decode_encode [of h "[]"] by simp
  obtain es rs where E: "wf_block es rs" "map snd es = g" "stored opt D h (block_bytes es rs)" using assms(2) unfolding block_at_def by blast
  let ?P = "\<lambda>er. wf_block (fst er) (snd er) \<and> (\<exists>h' D e. bh_DecodeFrom (handle_bytes h) = Some (h', []) \<and> F = D @ e \<and> stored opt D h' (block_bytes (fst er) (snd er)))"
  have "?P (es, rs)" using E(1,3) dec assms(1) by auto
  then have "?P ?er" unfolding block_of_def by (rule someI)
  then obtain D' e' where P: "wf_block (fst ?er) (snd ?er)" "F = D' @ e'" "stored opt D' h (block_bytes (fst ?er) (snd ?er))" using dec by auto
  show "wf_block (fst ?er) (snd ?er)" by (rule P(1))
  show r: "\<exists>cachable. ReadBlock (mem_file mapped F) opt v h = Some (OK, block_bytes (fst ?er) (snd ?er), cachable)" for v mapped using ReadBlock_stored [OF P(3), of mapped e' v] P(2) by simp
  have "block_bytes (fst ?er) (snd ?er) = block_bytes es rs" using r [of mapped v] ReadBlock_stored [OF E(3), of mapped e v] assms(1) by auto
  then show "map snd (fst ?er) = g" using block_bytes_unique [OF P(1) E(1)] E(2) by simp
qed

lemma table_blocks:
  assumes T: "table_file legal opt F fs seps" and t: "opened opt F fs seps t"
    and E: "wf_block es rs" "map snd es = zip seps (map (\<lambda>b. handle_bytes (fst b)) fs)" "t_index t = mk_Block (block_bytes es rs)"
  shows "blocks legal (o_cmp opt) (ni_methods (o_cmp opt)) (map snd es) (ni_over es rs) (ni_at es rs) (ni_methods (o_cmp opt)) (block_function t v fill)
       (\<lambda>u. map snd (fst (block_of F u))) (\<lambda>u. ni_over (fst (block_of F u)) (snd (block_of F u))) (\<lambda>u. ni_at (fst (block_of F u)) (snd (block_of F u))) legal \<and>
    concat (map ((\<lambda>u. map snd (fst (block_of F u))) \<circ> snd) (map snd es)) = entries fs"
proof -
  let ?ix = "zip seps (map (\<lambda>b. handle_bytes (fst b)) fs)" and ?c = "\<lambda>u. map snd (fst (block_of F u))"
  have S: "separates legal (o_cmp opt) seps fs []" "length seps = length fs" "\<forall>(h, g)\<in>set fs. g \<noteq> []" "sorted_wrt (\<lambda>a b. o_cmp opt (fst a) (fst b) < 0) (entries fs)"
    "\<forall>kv\<in>set (entries fs). legal (fst kv)" "\<forall>(h, g)\<in>set fs. \<exists>D e. F = D @ e \<and> block_at opt D h g"
    using T unfolding table_file_def by blast+
  have leg: "\<forall>s\<in>set seps. legal s" using S(1) unfolding separates_def by (metis in_set_conv_nth)
  have srt: "sorted_wrt (\<lambda>a b. o_cmp opt a b < 0) seps" by (rule seps_sorted [OF S(1) _ S(3,5)]) (simp add: S(2))
  obtain mapped where o: "t_opt t = opt" "t_file t = mem_file mapped F" using t unfolding opened_def by auto
  have ks: "map fst ?ix = seps" using S(2) by simp
  have ix: "sorted_wrt (\<lambda>a b. o_cmp opt (fst a) (fst b) < 0) (map snd es)" "\<forall>kv\<in>set (map snd es). legal (fst kv)"
    unfolding E(2) using srt leg sorted_wrt_map [of "\<lambda>a b. o_cmp opt a b < 0" fst ?ix] unfolding ks by (auto dest: set_zip_leftD)
  have B: "wf_block (fst (block_of F (handle_bytes h))) (snd (block_of F (handle_bytes h)))" "?c (handle_bytes h) = g"
    "block_function t v fill (handle_bytes h) = Block_NewIterator (mk_Block (block_bytes (fst (block_of F (handle_bytes h))) (snd (block_of F (handle_bytes h)))))"
    if m: "(h, g) \<in> set fs" for h g
  proof -
    obtain D e where D: "F = D @ e" "block_at opt D h g" using bspec [OF S(6) m] by auto
    note H = block_of_handle [OF D]
    show "wf_block (fst (block_of F (handle_bytes h))) (snd (block_of F (handle_bytes h)))" "?c (handle_bytes h) = g" using H by simp_all
    have "bh_DecodeFrom (handle_bytes h) = Some (h, [])" using handle.decode_encode [of h "[]"] by simp
    then show "block_function t v fill (handle_bytes h) = Block_NewIterator (mk_Block (block_bytes (fst (block_of F (handle_bytes h))) (snd (block_of F (handle_bytes h)))))"
      using H(3) [of mapped v] by (auto simp: block_function_def BlockReader_def o option.map_comp comp_def option.map_ident)
  qed
  have at: "snd (?ix ! b) = handle_bytes (fst (fs ! b))" "fst (?ix ! b) = seps ! b" "(fst (fs ! b), snd (fs ! b)) \<in> set fs" if "b < length fs" for b using that S(2) by simp_all
  have con: "concat (map (?c \<circ> snd) ?ix) = entries fs"
  proof -
    have "map (?c \<circ> snd) ?ix = map snd fs"
    proof (rule nth_equalityI)
      show "map (?c \<circ> snd) ?ix ! i = map snd fs ! i" if "i < length (map (?c \<circ> snd) ?ix)" for i
        using B(2) [OF at(3)] at(1) that S(2) by simp
    qed (simp add: S(2))
    then show ?thesis by (simp add: entries_def)
  qed
  have "blocks legal (o_cmp opt) (ni_methods (o_cmp opt)) (map snd es) (ni_over es rs) (ni_at es rs) (ni_methods (o_cmp opt)) (block_function t v fill) ?c
       (\<lambda>u. ni_over (fst (block_of F u)) (snd (block_of F u))) (\<lambda>u. ni_at (fst (block_of F u)) (snd (block_of F u))) legal"
  proof (intro blocks.intro blocks_axioms.intro three_way_axioms)
    show "seekable legal (o_cmp opt) (ni_methods (o_cmp opt)) (map snd es) (ni_over es rs) (ni_at es rs) legal" by (rule ni_seekable [OF three_way_axioms E(1) ix])
  next
    fix x
    assume "x \<in> set (map snd es)"
    then obtain b where b: "b < length fs" "snd x = handle_bytes (fst (fs ! b))" unfolding E(2) using S(2) at by (auto simp: in_set_conv_nth)
    note Bb = B [OF at(3) [OF b(1)], folded b(2)]
    have "entries fs = entries (take b fs) @ snd (fs ! b) @ entries (drop (Suc b) fs)"
      using arg_cong [OF id_take_nth_drop [OF b(1)], of entries] by (simp add: entries_def)
    then have g: "sorted_wrt (\<lambda>a b. o_cmp opt (fst a) (fst b) < 0) (?c (snd x))" "\<forall>kv\<in>set (?c (snd x)). legal (fst kv)"
      using S(4,5) unfolding Bb(2) by (auto simp: sorted_wrt_append)
    show "seekable legal (o_cmp opt) (ni_methods (o_cmp opt)) (?c (snd x)) (ni_over (fst (block_of F (snd x))) (snd (block_of F (snd x))))
        (ni_at (fst (block_of F (snd x))) (snd (block_of F (snd x)))) legal" by (rule ni_seekable [OF three_way_axioms Bb(1) g])
    show "\<exists>d l. block_function t v fill (snd x) = Some d \<and> ni_at (fst (block_of F (snd x))) (snd (block_of F (snd x))) d l"
      using NewIterator_at [OF Bb(1)] unfolding Bb(3) by blast
  next
    fix b kv
    assume "b < length (map snd es)" and kv: "kv \<in> set (?c (snd (map snd es ! b)))"
    then have b: "b < length fs" unfolding E(2) using S(2) by simp
    have "kv \<in> set (snd (fs ! b))" using kv B(2) [OF at(3) [OF b]] unfolding E(2) at(1) [OF b] by simp
    then have "kv \<in> set (entries (take (Suc b) fs))" using b by (auto simp: entries_def take_Suc_conv_app_nth)
    then show "o_cmp opt (fst kv) (fst (map snd es ! b)) \<le> 0" using S(1,2) b unfolding E(2) at(2) [OF b] separates_def by auto
  next
    fix b c kv
    assume bc: "b < c" and "c < length (map snd es)" and kv: "kv \<in> set (?c (snd (map snd es ! c)))"
    then have c: "c < length fs" "b < length fs" unfolding E(2) using S(2) by auto
    have "kv \<in> set (snd (fs ! c))" using kv B(2) [OF at(3) [OF c(1)]] unfolding E(2) at(1) [OF c(1)] by simp
    moreover have "fs ! c \<in> set (drop (Suc b) fs)" using c(1) bc by (auto simp: in_set_conv_nth intro!: exI [of _ "c - Suc b"])
    ultimately have "kv \<in> set (entries (drop (Suc b) fs))" by (auto simp: entries_def)
    then show "o_cmp opt (fst (map snd es ! b)) (fst kv) < 0" using S(1,2) c(2) unfolding E(2) at(2) [OF c(2)] separates_def by auto
  qed
  then show ?thesis using con unfolding E(2) by blast
qed

end

text \<open>An opened table, with the entries of its index block: its blocks meet the contract of the two-level iterator.\<close>

locale opened_table = table_options legal opt C for legal :: "slice \<Rightarrow> bool" and opt :: options and C :: nat +
  fixes F :: "byte list" and fs :: fin and seps :: "slice list" and t :: Table and es :: "ent list" and rs :: "nat list" and v fill :: bool
  assumes table_file: "table_file legal opt F fs seps" and table_opened: "opened opt F fs seps t"
    and table_index: "wf_block es rs" "map snd es = zip seps (map (\<lambda>b. handle_bytes (fst b)) fs)" "t_index t = mk_Block (block_bytes es rs)"

sublocale opened_table \<subseteq> table: blocks legal "o_cmp opt" "ni_methods (o_cmp opt)" "map snd es" "ni_over es rs" "ni_at es rs" "ni_methods (o_cmp opt)" "block_function t v fill"
  "\<lambda>u. map snd (fst (block_of F u))" "\<lambda>u. ni_over (fst (block_of F u)) (snd (block_of F u))" "\<lambda>u. ni_at (fst (block_of F u)) (snd (block_of F u))" legal
  using table_blocks [OF table_file table_opened table_index] by blast

context opened_table
begin

lemma table_seekable:
  "\<exists>alive pos. seekable legal (o_cmp opt) (table_methods t v fill) (entries fs) alive pos legal \<and> (\<exists>it. Table_NewIterator t = Some it \<and> pos it (length (entries fs)))"
proof -
  have o: "t_opt t = opt" using table_opened unfolding opened_def by blast
  have items: "table.items = entries fs" unfolding table.items_def using table_blocks [OF table_file table_opened table_index] by blast
  obtain it where it: "Block_NewIterator (t_index t) = Some it" "ni_at es rs it (length es)" using NewIterator_at [OF table_index(1)] unfolding table_index(3) by blast
  obtain w where w: "w_Set (ni_methods (o_cmp opt)) (Some it) \<lparr>w_iter = None, w_valid = False, w_key = []\<rparr> = Some w"
    "seekable.w_pos (ni_methods (o_cmp opt)) (ni_at es rs) w (length es)" using seekable.w_Set_pos [OF table.index it(2)] by blast
  let ?it = "\<lparr>tl_status = OK, tl_index = w, tl_data = \<lparr>w_iter = None, w_valid = False, w_key = []\<rparr>, tl_handle = []\<rparr>"
  have "Table_NewIterator t = Some ?it" using it(1) w(1) by (simp add: Table_NewIterator_def NewTwoLevelIterator_def mk_wrapper_def o)
  moreover have "table.tpos ?it (length (entries fs))"
    using w(2) unfolding table.tpos_def items [symmetric] by (simp add: table.no_data_def table.xw_def)
  ultimately show ?thesis using table.two_level_seekable [unfolded items] unfolding table_methods_def o by blast
qed

end

text \<open>Every table that was written and opened is one.\<close>

lemma opened_table:
  assumes "table_options legal opt C" and "table_file legal opt F fs seps" and "opened opt F fs seps t"
  obtains es rs where "opened_table legal opt C F fs seps t es rs"
proof -
  obtain es rs where "wf_block es rs" "map snd es = zip seps (map (\<lambda>b. handle_bytes (fst b)) fs)" "t_index t = mk_Block (block_bytes es rs)" using assms(3) unfolding opened_def by blast
  then have "opened_table legal opt C F fs seps t es rs" using assms by (intro opened_table.intro opened_table_axioms.intro)
  then show thesis by (rule that)
qed

text \<open>The table without entries.\<close>

definition empty_file :: "byte list" where "empty_file = w_data (tb_file (snd (the (build_table mk_Options []))))"

definition empty_opened :: Table where "empty_opened = the (fst (snd (the (Table_Open mk_Options (mem_file False empty_file) (length empty_file) None))))"

interpretation empty_table: opened_table "\<lambda>_. True" mk_Options 0 empty_file "[]" "[]" empty_opened "[]" "[0]" v fill for v fill
proof -
  obtain r F fs seps where r: "build_table mk_Options [] = Some (OK, r)" "w_data (tb_file r) = F" "table_file (\<lambda>_. True) mk_Options F fs seps" "entries fs = []"
    using build_table_file [OF plain_table.table_options_axioms, of "[]"] by auto
  have F: "F = empty_file" using r(1,2) by (simp add: empty_file_def)
  have "\<forall>(h, g)\<in>set fs. g \<noteq> []" "length seps = length fs" using r(3) unfolding table_file_def by blast+
  then have fs: "fs = []" "seps = []" using r(4) by (cases fs; auto simp: entries_def)+
  obtain t bc where t: "Table_Open mk_Options (mem_file False F) (length F) None = Some (OK, Some t, bc)" "opened mk_Options F fs seps t" using Open_file [OF r(3)] by blast
  have te: "t = empty_opened" using t(1) by (simp add: empty_opened_def F)
  obtain es rs where e: "wf_block es rs" "map snd es = zip seps (map (\<lambda>b. handle_bytes (fst b)) fs)" "t_index t = mk_Block (block_bytes es rs)" using t(2) unfolding opened_def by blast
  then have "es = []" using fs by simp
  moreover have "rs = [0]" using e(1) \<open>es = []\<close> by (cases rs; cases "tl rs") (auto simp: wf_block_def)
  ultimately show "opened_table (\<lambda>_. True) mk_Options 0 empty_file [] [] empty_opened [] [0]"
    using plain_table.table_options_axioms r(3) t(2) e unfolding fs F te by (intro opened_table.intro opened_table_axioms.intro) simp_all
qed

section \<open>Properties\<close>

text \<open>
  C12. Table iterators. The iterator over a table that was built from entries in increasing order, with any compressor that meets its contract, and opened again without a block cache yields exactly
  these entries: forwards from \<open>SeekToFirst\<close>, backwards from \<open>SeekToLast\<close> across the boundaries of blocks, and from the first key not
  before the target after \<open>Seek\<close>; its status remains ok, all its loops end and none of its assertions fails.
\<close>

theorem table_iterator:
  assumes "table_options legal opt C" and "\<forall>kv\<in>set kvs. legal (fst kv)" and "sorted_wrt (\<lambda>a b. o_cmp opt (fst a) (fst b) < 0) kvs"
    and "wt kvs + C * length kvs < 2 ^ 31" and "legal k"
  shows "\<exists>r t it. build_table opt kvs = Some (OK, r) \<and>
    Table_Open opt (mem_file mapped (w_data (tb_file r))) (length (w_data (tb_file r))) None = Some (OK, Some t, None) \<and> Table_NewIterator t = Some it \<and>
    (let I = table_methods t verify_checksums fill_cache; n = length kvs
     in \<not> i_Valid I it \<and> i_status I it = Some OK \<and>
        Option.bind (i_SeekToFirst I it) (scan (i_item I) (i_Next I) (i_Valid I) n) = Some kvs \<and>
        Option.bind (i_SeekToLast I it) (scan (i_item I) (i_Prev I) (i_Valid I) n) = Some (rev kvs) \<and>
        Option.bind (i_Seek I k it) (scan (i_item I) (i_Next I) (i_Valid I) n) = Some (dropWhile (\<lambda>kv. o_cmp opt (fst kv) k < 0) kvs))"
proof -
  obtain r F fs seps where r: "build_table opt kvs = Some (OK, r)" "w_data (tb_file r) = F" "table_file legal opt F fs seps" "entries fs = kvs"
    using build_table_file [OF assms(1-4)] by blast
  obtain t where t: "Table_Open opt (mem_file mapped F) (length F) None = Some (OK, Some t, None)" "opened opt F fs seps t"
    using Open_file [OF r(3), of mapped None] by (auto simp: new_cache_id_def)
  obtain alive pos it where S: "seekable legal (o_cmp opt) (table_methods t verify_checksums fill_cache) kvs alive pos legal"
    and it: "Table_NewIterator t = Some it" "pos it (length kvs)"
    using opened_table [OF assms(1) r(3) t(2)] opened_table.table_seekable r(4) by metis
  have v: "\<not> i_Valid (table_methods t verify_checksums fill_cache) it" "i_status (table_methods t verify_checksums fill_cache) it = Some OK"
    using seekable.valid_pos [OF S it(2)] seekable.status_at [OF S it(2)] by simp_all
  note sc = seekable.scans [OF S seekable.alive_pos [OF S it(2)]]
  show ?thesis unfolding Let_def using r(1,2) t(1) it(1) v sc(1,2) sc(3) [OF assms(5)] by auto
qed

theorem table_iterator_witness:
  "\<exists>r t it it'. build_table (rle_options\<lparr>o_block_size := 1\<rparr>) [([1, 2], replicate 200 0), ([1, 3], []), ([2], [7])] = Some (OK, r) \<and>
    Table_Open (rle_options\<lparr>o_block_size := 1\<rparr>) (mem_file True (w_data (tb_file r))) (length (w_data (tb_file r))) None = Some (OK, Some t, None) \<and>
    Table_NewIterator t = Some it \<and> i_SeekToLast (table_methods t True True) it = Some it' \<and>
    scan (i_item (table_methods t True True)) (i_Prev (table_methods t True True)) (i_Valid (table_methods t True True)) 3 it' =
      Some [([2], [7]), ([1, 3], []), ([1, 2], replicate 200 0)]"
proof -
  let ?o = "rle_options\<lparr>o_block_size := 1\<rparr>" and ?kvs = "[([1, 2], replicate 200 0), ([1, 3], []), ([2], [7])] :: (slice \<times> slice) list"
  have T: "table_options (\<lambda>_. True) ?o 26"
    using rle_table.table_options_axioms unfolding table_options_def table_options_axioms_def compressor_ok_def by simp
  have c: "o_cmp ?o = BytewiseCompare" by (simp add: mk_Options_def rle_options_def)
  have s: "sorted_wrt (\<lambda>a b. BytewiseCompare (fst a) (fst b) < 0) ?kvs" by code_simp
  have w: "wt ?kvs + 26 * length ?kvs < 2 ^ 31" by simp
  have n: "length ?kvs = 3" by simp
  obtain r t it where "build_table ?o ?kvs = Some (OK, r)" "Table_Open ?o (mem_file True (w_data (tb_file r))) (length (w_data (tb_file r))) None = Some (OK, Some t, None)"
    "Table_NewIterator t = Some it"
    "Option.bind (i_SeekToLast (table_methods t True True) it) (scan (i_item (table_methods t True True)) (i_Prev (table_methods t True True)) (i_Valid (table_methods t True True)) 3) = Some (rev ?kvs)"
    using table_iterator [OF T, where kvs = ?kvs and k = "[]" and verify_checksums = True and fill_cache = True and mapped = True, unfolded c Let_def n, OF _ s] w by auto
  then show ?thesis by (fastforce simp: bind_eq_Some_conv)
qed

end
