(* ===== verification/TableCache.thy ===== *)
theory TableCache
  imports VersionGet CacheCorrect FileName TableIter
begin

text \<open>
  db/table_cache.cc: tables stay open in a cache, under the number of their file. \<open>env\<close> is \<open>NewRandomAccessFile\<close>, which gives a status and the file for a name. The theory composes
  the lookup in a version with the table cache, the cache, and the reading of tables from their files.
\<close>

section \<open>Options of the database\<close>

text \<open>
  db/db_impl.cc: the options that tables are written and read with. The values are compared as \<open>int\<close>; of the options that are clipped to a range the model has the size of blocks.
\<close>

definition ClipToRange :: "u64 \<Rightarrow> int \<Rightarrow> int \<Rightarrow> u64" where
  "ClipToRange v lo hi =
     (let v = (if sint (ucast v :: 32 word) > hi then word_of_int hi else v)
      in if sint (ucast v :: 32 word) < lo then word_of_int lo else v)"

definition sanitize_fields :: "options \<Rightarrow> options" where
  "sanitize_fields src =
     src\<lparr>o_cmp := ICompare (o_cmp src), o_sep := IFindShortestSeparator (o_cmp src) (o_sep src), o_succ := IFindShortSuccessor (o_cmp src) (o_succ src),
         o_policy := map_option (\<lambda>p. p\<lparr>p_create := ICreateFilter (p_create p), p_may := IKeyMayMatch (p_may p)\<rparr>) (o_policy src),
         o_block_size := unat (ClipToRange (word_of_nat (o_block_size src)) (2 ^ 10) (4 * 2 ^ 20))\<rparr>"

text \<open>The options with their block cache: if there is none, a cache for 8 MB is made.\<close>

definition SanitizeOptions :: "options \<Rightarrow> block_cache \<Rightarrow> options \<times> block_cache" where
  "SanitizeOptions src bc = (sanitize_fields src, Some (case bc of None \<Rightarrow> NewLRUCache (push_bit 20 8) | Some c \<Rightarrow> c))"

section \<open>The code\<close>

record TableAndFile =
  tf_file :: rafile
  tf_table :: Table

record TableCache =
  tc_dbname :: slice
  tc_options :: options
  tc_block_cache :: block_cache
  tc_cache :: "TableAndFile ShardedLRUCache"

type_synonym new_file = "slice \<Rightarrow> status \<times> rafile"

definition mk_TableCache :: "slice \<Rightarrow> options \<times> block_cache \<Rightarrow> nat \<Rightarrow> TableCache" where
  "mk_TableCache dbname opt n = \<lparr>tc_dbname = dbname, tc_options = fst opt, tc_block_cache = snd opt, tc_cache = NewLRUCache (word_of_nat n)\<rparr>"

text \<open>\<open>FindTable\<close>, first the part that opens a file that is not in the cache.\<close>

definition open_table :: "new_file \<Rightarrow> u64 \<Rightarrow> u64 \<Rightarrow> TableCache \<Rightarrow> (status \<times> TableAndFile option \<times> block_cache) option" where
  "open_table env n sz tc =
     do { fname \<leftarrow> TableFileName (tc_dbname tc) n;
          let (s, file) = env fname;
          (s, file) \<leftarrow> (if status_ok s then Some (s, file)
                        else do { old_fname \<leftarrow> SSTTableFileName (tc_dbname tc) n;
                                  Some (if status_ok (fst (env old_fname)) then (OK, snd (env old_fname)) else (s, file)) });
          (s, table, bc) \<leftarrow> (if status_ok s then Table_Open (tc_options tc) file (unat sz) (tc_block_cache tc) else Some (s, None, tc_block_cache tc));
          if \<not> status_ok s then (if Option.is_none table then Some (s, None, bc) else None)
          else do { t \<leftarrow> table; Some (s, Some \<lparr>tf_file = file, tf_table = t\<rparr>, bc) } }"

definition FindTable :: "new_file \<Rightarrow> u64 \<Rightarrow> u64 \<Rightarrow> TableCache \<Rightarrow> (status \<times> (nat \<times> nat) option \<times> TableCache) option" where
  "FindTable env n sz tc =
     (let k = EncodeFixed64 True n
      in do { (h, c) \<leftarrow> c_Lookup k (tc_cache tc);
              case h of
                Some _ \<Rightarrow> Some (OK, h, tc\<lparr>tc_cache := c\<rparr>)
              | None \<Rightarrow>
                  do { (s, tf, bc) \<leftarrow> open_table env n sz tc;
                       case tf of
                         None \<Rightarrow> Some (s, None, tc\<lparr>tc_cache := c, tc_block_cache := bc\<rparr>)
                       | Some tf \<Rightarrow> do { (h, c) \<leftarrow> c_Insert k tf 1 c; Some (s, Some h, tc\<lparr>tc_cache := c, tc_block_cache := bc\<rparr>) } } })"

text \<open>
  \<open>NewIterator\<close> gives the two-level iterator as it is made, with the arguments of its block function \<open>BlockReader\<close>: the table and the read options. The handle is released when the
  iterator is deleted.
\<close>

definition tc_NewIterator ::
  "new_file \<Rightarrow> bool \<Rightarrow> bool \<Rightarrow> u64 \<Rightarrow> u64 \<Rightarrow> TableCache \<Rightarrow> ((status + (new_iter, new_iter) two_level \<times> (Table \<times> bool \<times> bool) \<times> (nat \<times> nat)) \<times> TableCache) option" where
  "tc_NewIterator env verify fill n sz tc =
     do { (s, h, tc) \<leftarrow> FindTable env n sz tc;
          if \<not> status_ok s then Some (Inl s, tc)
          else do { h \<leftarrow> h;
                    tf \<leftarrow> c_Value h (tc_cache tc);
                    it \<leftarrow> Table_NewIterator (tf_table tf);
                    Some (Inr (it, (tf_table tf, verify, fill), h), tc) } }"

definition UnrefEntry :: "nat \<times> nat \<Rightarrow> TableCache \<Rightarrow> TableCache option" where
  "UnrefEntry h tc = map_option (\<lambda>c. tc\<lparr>tc_cache := c\<rparr>) (c_Release h (tc_cache tc))"

definition tc_Get :: "new_file \<Rightarrow> bool \<Rightarrow> bool \<Rightarrow> u64 \<Rightarrow> u64 \<Rightarrow> slice \<Rightarrow> TableCache \<Rightarrow> (status \<times> (slice \<times> slice) option \<times> TableCache) option" where
  "tc_Get env verify fill n sz k tc =
     do { (s, h, tc) \<leftarrow> FindTable env n sz tc;
          if status_ok s then
            do { h \<leftarrow> h;
                 tf \<leftarrow> c_Value h (tc_cache tc);
                 (s, found, bc) \<leftarrow> InternalGet (tf_table tf) verify fill k (tc_block_cache tc);
                 c \<leftarrow> c_Release h (tc_cache tc);
                 Some (s, found, tc\<lparr>tc_cache := c, tc_block_cache := bc\<rparr>) }
          else Some (s, None, tc) }"

definition tc_Evict :: "u64 \<Rightarrow> TableCache \<Rightarrow> TableCache option" where
  "tc_Evict n tc = map_option (\<lambda>c. tc\<lparr>tc_cache := c\<rparr>) (c_Erase (EncodeFixed64 True n) (tc_cache tc))"

section \<open>Options for internal keys\<close>

text \<open>
  The policy of the user must find a key in the filter of keys that the comparator takes for equal to it; a comparator that tells different keys apart, as the default one does, needs
  no more than the contract of filter policies.
\<close>

definition policy_respects :: "options \<Rightarrow> bool" where
  "policy_respects opt \<longleftrightarrow> (\<forall>p ks u u'. o_policy opt = Some p \<and> u \<in> set ks \<and> o_cmp opt u u' = 0 \<longrightarrow> p_may p u' (p_create p ks []))"

lemma ISeparator_length: "length (IFindShortestSeparator ucmp usep a b) \<le> length a" and ISuccessor_length: "length (IFindShortSuccessor ucmp usucc a) \<le> length a"
  by (auto simp: IFindShortestSeparator_def IFindShortSuccessor_def Let_def PutFixed64_eq ExtractUserKey_def)

lemma internal_policy:
  assumes "filter_policy create may"
  shows "filter_policy (ICreateFilter create) (IKeyMayMatch may)"
proof
  show "ICreateFilter create ks dst = dst @ ICreateFilter create ks []" for ks dst unfolding ICreateFilter_def by (rule filter_policy.create_append [OF assms])
  show "IKeyMayMatch may k (ICreateFilter create ks [])" if "k \<in> set ks" for k ks
    unfolding ICreateFilter_def IKeyMayMatch_def using that by (intro filter_policy.create_match [OF assms]) simp
qed

lemma sanitized_fields:
  "o_cmp (sanitize_fields opt) = ICompare (o_cmp opt)" "o_sep (sanitize_fields opt) = IFindShortestSeparator (o_cmp opt) (o_sep opt)"
  "o_succ (sanitize_fields opt) = IFindShortSuccessor (o_cmp opt) (o_succ opt)" "o_interval (sanitize_fields opt) = o_interval opt"
  "o_compressors (sanitize_fields opt) = o_compressors opt"
  "o_policy (sanitize_fields opt) = map_option (\<lambda>p. p\<lparr>p_create := ICreateFilter (p_create p), p_may := IKeyMayMatch (p_may p)\<rparr>) (o_policy opt)"
  by (simp_all add: sanitize_fields_def)

lemma sanitized_options:
  assumes "table_options legal opt C"
  shows "table_options (comparator.ilegal legal) (sanitize_fields opt) C"
proof (intro table_options.intro table_options_axioms.intro)
  note c = table_options.axioms(1) [OF assms]
  show "comparator (comparator.ilegal legal) (o_cmp (sanitize_fields opt)) (o_sep (sanitize_fields opt)) (o_succ (sanitize_fields opt))"
    unfolding sanitized_fields by (rule comparator.internal_comparator [OF c])
  show "length (o_sep (sanitize_fields opt) a b) \<le> length a" "length (o_succ (sanitize_fields opt) a) \<le> length a" for a b
    unfolding sanitized_fields by (rule ISeparator_length ISuccessor_length)+
  show "1 \<le> o_interval (sanitize_fields opt)" unfolding sanitized_fields by (rule table_options.interval [OF assms])
  show "compressor_ok (sanitize_fields opt)" using table_options.comp [OF assms] by (simp add: compressor_ok_def sanitized_fields)
  show "filter_policy (p_create p) (p_may p) \<and> (\<forall>ks. ks \<noteq> [] \<longrightarrow> length (p_create p ks []) \<le> C * length ks) \<and> length (p_name p) < 2 ^ 30" if p: "o_policy (sanitize_fields opt) = Some p" for p
  proof -
    obtain q where q: "o_policy opt = Some q" "p = q\<lparr>p_create := ICreateFilter (p_create q), p_may := IKeyMayMatch (p_may q)\<rparr>" using p by (auto simp: sanitized_fields)
    then show ?thesis using table_options.policy [OF assms q(1)] internal_policy by (auto simp: ICreateFilter_def)
  qed
qed

text \<open>The separator of two internal keys is the first one, or its user key is before that of the second.\<close>

lemma ISeparator_user:
  assumes "comparator legal ucmp usep usucc" and "legal (ExtractUserKey a)" "legal (ExtractUserKey b)" and "ICompare ucmp a b < 0"
  shows "IFindShortestSeparator ucmp usep a b = a \<or> (\<exists>t. IFindShortestSeparator ucmp usep a b = t @ bytes_of_u64 (PackSequenceAndType kMaxSequenceNumber kValueTypeForSeek) \<and> legal t \<and> ucmp t (ExtractUserKey b) < 0)"
proof (cases "length (usep (ExtractUserKey a) (ExtractUserKey b)) < length (ExtractUserKey a) \<and> ucmp (ExtractUserKey a) (usep (ExtractUserKey a) (ExtractUserKey b)) < 0")
  case True
  then have "ucmp (ExtractUserKey a) (ExtractUserKey b) < 0"
    using comparator.separator_same [OF assms(1-3)] assms(4) by (auto simp: comparator.icompare_less [OF assms(1)])
  then show ?thesis using True comparator.separator [OF assms(1-3)] by (auto simp: IFindShortestSeparator_def Let_def PutFixed64_eq)
next
  case False
  then have "IFindShortestSeparator ucmp usep a b = a" unfolding IFindShortestSeparator_def Let_def by (rule if_not_P)
  then show ?thesis ..
qed

text \<open>A lookup of an internal key in a table of internal keys: if it finds nothing, the table has no entry of the user key that is not before the key.\<close>

lemma InternalGet_internal:
  assumes o: "table_options legal opt C" and r: "policy_respects opt" and T: "table_file (comparator.ilegal legal) (sanitize_fields opt) F fs seps"
    and t: "opened (sanitize_fields opt) F fs seps t" and bc: "block_cache_ok reg room held bc" "registered reg bc (t_cache_id t) fs" and k: "comparator.ilegal legal k"
  shows "\<exists>res bc'. InternalGet t v fill k bc = Some (OK, res, bc') \<and> block_cache_ok reg room held bc' \<and> (bc' = None \<longleftrightarrow> bc = None) \<and> (res = find (\<lambda>kv. \<not> ICompare (o_cmp opt) (fst kv) k < 0) (entries fs) \<or>
    res = None \<and> (\<forall>kv\<in>set (entries fs). o_cmp opt (ExtractUserKey (fst kv)) (ExtractUserKey k) = 0 \<longrightarrow> ICompare (o_cmp opt) (fst kv) k < 0))"
proof -
  note c = table_options.axioms(1) [OF o]
  note L = comparator.icompare_less [OF c] and LE = comparator.icompare_le [OF c] and I = comparator.axioms(1) [OF comparator.internal_comparator [OF c]]
  let ?match = "\<lambda>k'. o_cmp opt (ExtractUserKey k') (ExtractUserKey k) = 0"
  have il: "comparator.ilegal legal x \<Longrightarrow> legal (ExtractUserKey x)" for x by (simp add: comparator.ilegal_def [OF c])
  have "p_may p k (p_create p ks [])" if "o_policy (sanitize_fields opt) = Some p" "k' \<in> set ks" "?match k'" for p ks k'
  proof -
    obtain q where q: "o_policy opt = Some q" "p = q\<lparr>p_create := ICreateFilter (p_create q), p_may := IKeyMayMatch (p_may q)\<rparr>" using \<open>o_policy (sanitize_fields opt) = Some p\<close> by (auto simp: sanitized_fields)
    have "ExtractUserKey k' \<in> set (map ExtractUserKey ks)" using that(2) by simp
    then have "p_may q (ExtractUserKey k) (p_create q (map ExtractUserKey ks) [])" using r q(1) that(3) unfolding policy_respects_def by blast
    then show ?thesis unfolding q(2) by (simp add: ICreateFilter_def IKeyMayMatch_def)
  qed
  moreover have "\<not> ?match k'" if l: "comparator.ilegal legal a" "comparator.ilegal legal b" "comparator.ilegal legal k'" and ab: "ICompare (o_cmp opt) a b < 0"
    and m: "?match a \<longrightarrow> ICompare (o_cmp opt) a k < 0" and sep: "\<not> ICompare (o_cmp opt) (IFindShortestSeparator (o_cmp opt) (o_sep opt) a b) k < 0" and bk: "ICompare (o_cmp opt) b k' \<le> 0" for a b k'
  proof
    assume k': "?match k'"
    let ?cmp = "o_cmp opt" and ?u = "ExtractUserKey"
    note lu = il [OF l(1)] il [OF l(2)] il [OF l(3)] il [OF k]
    have bu: "?cmp (?u b) (?u k') \<le> 0" using bk by (auto simp: LE)
    have "?cmp (?u k') (?u k) \<le> 0" using k' by simp
    then have bk2: "?cmp (?u b) (?u k) \<le> 0" using three_way.compare_trans [OF comparator.axioms(1) [OF c] lu(2,3,4) bu] by blast
    from ISeparator_user [OF c lu(1,2) ab] show False
    proof
      assume e: "IFindShortestSeparator ?cmp (o_sep opt) a b = a"
      then have nk: "\<not> ICompare ?cmp a k < 0" using sep by simp
      have "?cmp (?u a) (?u b) \<le> 0" using ab by (auto simp: L)
      then have "?cmp (?u a) (?u k) \<le> 0" using three_way.compare_trans [OF comparator.axioms(1) [OF c] lu(1,2,4) _ bk2] by blast
      then have "?match a" using nk by (auto simp: L)
      then show False using m nk by blast
    next
      assume "\<exists>t. IFindShortestSeparator ?cmp (o_sep opt) a b = t @ bytes_of_u64 (PackSequenceAndType kMaxSequenceNumber kValueTypeForSeek) \<and> legal t \<and> ?cmp t (?u b) < 0"
      then obtain t where t: "IFindShortestSeparator ?cmp (o_sep opt) a b = t @ bytes_of_u64 (PackSequenceAndType kMaxSequenceNumber kValueTypeForSeek)" "legal t" "?cmp t (?u b) < 0" by blast
      then have "?cmp t (?u k) < 0" using three_way.compare_less_trans(2) [OF comparator.axioms(1) [OF c] t(2) lu(2,4) t(3) bk2] by blast
      then show False using sep t(1) by (simp add: L)
    qed
  qed
  ultimately show ?thesis using table_options.InternalGet_match [OF sanitized_options [OF o] T t bc k, of ?match v fill] unfolding sanitized_fields by blast
qed

section \<open>The invariant of the table cache\<close>

text \<open>
  The file of a table is in the environment, under the current or under the old name: it is what the table builder writes for the contents.
\<close>

definition stored_table :: "new_file \<Rightarrow> slice \<Rightarrow> options \<Rightarrow> nat \<Rightarrow> (slice \<times> slice) list \<Rightarrow> u64 \<Rightarrow> u64 \<Rightarrow> bool" where
  "stored_table env dbname opt C kvs n sz \<longleftrightarrow> wt kvs + C * length kvs < 2 ^ 31 \<and>
     (\<exists>name old r mapped. TableFileName dbname n = Some name \<and> SSTTableFileName dbname n = Some old \<and> build_table opt kvs = Some (OK, r) \<and> sz = FileSize r \<and>
        (if status_ok (fst (env name)) then env name else env old) = (OK, mem_file mapped (w_data (tb_file r))))"

text \<open>A table that was opened from the file written for its contents, with its identifier in the block cache.\<close>

definition table_of :: "(slice \<Rightarrow> bool) \<Rightarrow> options \<Rightarrow> (u64 \<Rightarrow> fin option) \<Rightarrow> block_cache \<Rightarrow> (slice \<times> slice) list \<Rightarrow> Table \<Rightarrow> bool" where
  "table_of legal opt reg bc kvs t \<longleftrightarrow> (\<exists>F fs seps. table_file (comparator.ilegal legal) (sanitize_fields opt) F fs seps \<and> opened (sanitize_fields opt) F fs seps t \<and> entries fs = kvs \<and>
     registered reg bc (t_cache_id t) fs)"

text \<open>
  The state of the cache: every cached table is the table of its number, clients hold the handles \<open>held\<close> of tables and \<open>bheld\<close> of blocks, and \<open>room\<close> more tables can be opened. \<open>reg\<close> are
  the tables that have got identifiers of the block cache.
\<close>

definition cache_good :: "(slice \<Rightarrow> bool) \<Rightarrow> options \<Rightarrow> (u64 \<Rightarrow> fin option) \<Rightarrow> block_cache \<Rightarrow> (u64 \<Rightarrow> (slice \<times> slice) list) \<Rightarrow> slice \<Rightarrow> TableAndFile \<Rightarrow> bool" where
  "cache_good legal opt reg bc content k tf \<longleftrightarrow> (\<exists>n. k = EncodeFixed64 True n \<and> table_of legal opt reg bc (content n) (tf_table tf))"

definition tables_ok ::
  "(u64 \<Rightarrow> fin option) \<Rightarrow> (slice \<Rightarrow> bool) \<Rightarrow> options \<Rightarrow> slice \<Rightarrow> (u64 \<Rightarrow> (slice \<times> slice) list) \<Rightarrow> (nat \<times> nat \<Rightarrow> nat) \<Rightarrow> (nat \<times> nat \<Rightarrow> nat) \<Rightarrow> nat \<Rightarrow> TableCache \<Rightarrow> bool" where
  "tables_ok reg legal opt dbname content held bheld room tc \<longleftrightarrow> tc_dbname tc = dbname \<and> tc_options tc = sanitize_fields opt \<and>
     (\<exists>n m. cache_ok n held m (tc_cache tc) \<and> (\<forall>k tf. m k = Some tf \<longrightarrow> cache_good legal opt reg (tc_block_cache tc) content k tf)) \<and> block_cache_ok reg room bheld (tc_block_cache tc)"

definition table_cache_ok ::
  "(slice \<Rightarrow> bool) \<Rightarrow> options \<Rightarrow> slice \<Rightarrow> (u64 \<Rightarrow> (slice \<times> slice) list) \<Rightarrow> (nat \<times> nat \<Rightarrow> nat) \<Rightarrow> (nat \<times> nat \<Rightarrow> nat) \<Rightarrow> nat \<Rightarrow> TableCache \<Rightarrow> bool" where
  "table_cache_ok legal opt dbname content held bheld room tc \<longleftrightarrow> (\<exists>reg. tables_ok reg legal opt dbname content held bheld room tc)"

lemma block_cache_ok_mono: "block_cache_ok reg room held bc \<Longrightarrow> room' \<le> room \<Longrightarrow> block_cache_ok reg room' held bc"
  by (auto simp: block_cache_ok_def split: option.splits)

lemma table_cache_ok_mono: "table_cache_ok legal opt dbname content held bheld room tc \<Longrightarrow> room' \<le> room \<Longrightarrow> table_cache_ok legal opt dbname content held bheld room' tc"
  using block_cache_ok_mono unfolding table_cache_ok_def tables_ok_def by blast

lemma cache_good_mono:
  assumes "cache_good legal opt reg bc content k tf" and "reg \<subseteq>\<^sub>m reg'" and "bc' = None \<longleftrightarrow> bc = None"
  shows "cache_good legal opt reg' bc' content k tf"
proof -
  have "registered reg' bc' n fs" if "registered reg bc n fs" for n fs
    using that assms(2,3) unfolding registered_def map_le_def by (metis domI)
  then show ?thesis using assms(1) unfolding cache_good_def table_of_def by blast
qed

text \<open>The table cache of a new database, whose options had no block cache or one that is in order.\<close>

lemma mk_TableCache_ok:
  assumes "0 < n" and "n < 2 ^ 31" and "case bc of None \<Rightarrow> bheld = (\<lambda>_. 0) \<and> room < 2 ^ 64 | Some _ \<Rightarrow> block_cache_ok reg room bheld bc"
  shows "table_cache_ok legal opt dbname content (\<lambda>_. 0) bheld room (mk_TableCache dbname (SanitizeOptions opt bc) n)"
proof -
  have u: "unat (word_of_nat n :: u64) = n" "unat (- 16 :: u64) = 2 ^ 64 - 16" using assms(2) by (simp_all add: unat_of_nat)
  have w: "0 < (word_of_nat n :: u64)" "(word_of_nat n :: u64) \<le> - 16" using u assms(1,2) by (simp_all add: word_less_nat_alt word_le_nat_alt)
  have c: "cache_ok 0 (\<lambda>_. 0) (\<lambda>_. None) (NewLRUCache (word_of_nat n) :: TableAndFile ShardedLRUCache)"
    using NewLRUCache_inv [OF w] by (auto simp: cache_ok_def NewLRUCache_def Let_def)
  have b: "\<exists>reg. block_cache_ok reg room bheld (snd (SanitizeOptions opt bc))"
  proof (cases bc)
    case None
    have "block_cache_ok (\<lambda>_. None) room (\<lambda>_. 0) (Some (NewLRUCache (push_bit 20 8)))" by (rule NewLRUCache_blocks) (use assms(3) None in simp_all)
    then show ?thesis using assms(3) None by (auto simp: SanitizeOptions_def)
  qed (use assms(3) in \<open>auto simp: SanitizeOptions_def\<close>)
  then show ?thesis using c unfolding table_cache_ok_def tables_ok_def by (fastforce simp: mk_TableCache_def SanitizeOptions_def)
qed

lemma open_table_stored:
  assumes o: "table_options legal opt C" and s: "stored_table env dbname (sanitize_fields opt) C kvs n sz" and kvs: "\<forall>kv\<in>set kvs. comparator.ilegal legal (fst kv)"
    "sorted_wrt (\<lambda>a b. ICompare (o_cmp opt) (fst a) (fst b) < 0) kvs" and tc: "tc_dbname tc = dbname" "tc_options tc = sanitize_fields opt"
    and bc: "block_cache_ok reg (Suc room) bheld (tc_block_cache tc)"
  shows "\<exists>tf bc reg'. open_table env n sz tc = Some (OK, Some tf, bc) \<and> table_of legal opt reg' bc kvs (tf_table tf) \<and> block_cache_ok reg' room bheld bc \<and> reg \<subseteq>\<^sub>m reg' \<and>
    (bc = None \<longleftrightarrow> tc_block_cache tc = None)"
proof -
  let ?id = "new_cache_id (tc_block_cache tc)"
  obtain name old r mapped where n: "TableFileName dbname n = Some name" "SSTTableFileName dbname n = Some old" "build_table (sanitize_fields opt) kvs = Some (OK, r)" "sz = FileSize r"
    "(if status_ok (fst (env name)) then env name else env old) = (OK, mem_file mapped (w_data (tb_file r)))" and w: "wt kvs + C * length kvs < 2 ^ 31" using s unfolding stored_table_def by blast
  obtain F fs seps where F: "w_data (tb_file r) = F" "FileSize r = word_of_nat (length F)" "table_file (comparator.ilegal legal) (sanitize_fields opt) F fs seps" "entries fs = kvs" "length F < 2 ^ 36"
    using build_table_file [OF sanitized_options [OF o] kvs(1) _ w] kvs(2) n(3) unfolding sanitized_fields by auto
  obtain t where t: "Table_Open (sanitize_fields opt) (mem_file mapped F) (length F) (tc_block_cache tc) = Some (OK, Some t, snd ?id)" "opened (sanitize_fields opt) F fs seps t" "t_cache_id t = fst ?id"
    using Open_file [OF F(3)] by blast
  obtain reg' where R: "block_cache_ok reg' room bheld (snd ?id)" "registered reg' (snd ?id) (t_cache_id t) fs" "reg \<subseteq>\<^sub>m reg'" "snd ?id = None \<longleftrightarrow> tc_block_cache tc = None"
    using new_cache_id_ok [OF bc] unfolding t(3) by blast
  have "unat sz = length F" using F(2,5) n(4) unat_u64 [of "length F"] by simp
  then have "open_table env n sz tc = Some (OK, Some \<lparr>tf_file = mem_file mapped F, tf_table = t\<rparr>, snd ?id)"
    using n(1,2,5) t(1) tc F(1) by (cases "env name"; cases "env old") (auto simp: open_table_def split: if_splits)
  moreover have "table_of legal opt reg' (snd ?id) kvs t" unfolding table_of_def using F(3,4) t(2) R(2) by blast
  ultimately show ?thesis using R(1,3,4) by (intro exI [of _ "\<lparr>tf_file = mem_file mapped F, tf_table = t\<rparr>"] exI [of _ "snd ?id"] exI [of _ reg']) simp
qed

lemma key_of_number: "EncodeFixed64 True n = EncodeFixed64 True n' \<Longrightarrow> n = n'"
  using DecodeFixed64_bytes [of True n "[]"] DecodeFixed64_bytes [of True n' "[]"] by (simp add: EncodeFixed64_eq)

text \<open>
  \<open>FindTable\<close> gives a handle of the table of its number, whether it was in the cache or not; \<open>c2\<close> is the cache when the handle is given back.
\<close>

lemma FindTable_spec:
  assumes o: "table_options legal opt C" and ok: "table_cache_ok legal opt dbname content held bheld (Suc room) tc" and s: "stored_table env dbname (sanitize_fields opt) C (content n) n sz"
    and kvs: "\<forall>kv\<in>set (content n). comparator.ilegal legal (fst kv)" "sorted_wrt (\<lambda>a b. ICompare (o_cmp opt) (fst a) (fst b) < 0) (content n)"
  shows "\<exists>h tf tc1 reg c2. FindTable env n sz tc = Some (OK, Some h, tc1) \<and> c_Value h (tc_cache tc1) = Some tf \<and> table_of legal opt reg (tc_block_cache tc1) (content n) (tf_table tf) \<and>
    c_Release h (tc_cache tc1) = Some c2 \<and> tables_ok reg legal opt dbname content held bheld room (tc1\<lparr>tc_cache := c2\<rparr>)"
proof -
  let ?k = "EncodeFixed64 True n"
  obtain reg i m where tc: "tc_dbname tc = dbname" "tc_options tc = sanitize_fields opt" and m: "cache_ok i held m (tc_cache tc)" "\<forall>k tf. m k = Some tf \<longrightarrow> cache_good legal opt reg (tc_block_cache tc) content k tf"
    and bc: "block_cache_ok reg (Suc room) bheld (tc_block_cache tc)" using ok unfolding table_cache_ok_def tables_ok_def by blast
  obtain r c1 where r: "c_Lookup ?k (tc_cache tc) = Some (r, c1)" "case r of
       Some h \<Rightarrow> \<exists>tf c2. c_Value h c1 = Some tf \<and> cache_good legal opt reg (tc_block_cache tc) content ?k tf \<and> c_Release h c1 = Some c2 \<and> cache_ok i held m c2
     | None \<Rightarrow> cache_ok i held m c1 \<and> (\<forall>tf chg. \<exists>h c2 c3. c_Insert ?k tf chg c1 = Some (h, c2) \<and> c_Value h c2 = Some tf \<and> c_Release h c2 = Some c3 \<and> cache_ok i held (m(?k \<mapsto> tf)) c3)"
    using lru_cache.hit_or_load [OF m, of ?k] by blast
  show ?thesis
  proof (cases r)
    case (Some h)
    then obtain tf c2 where h: "c_Value h c1 = Some tf" "cache_good legal opt reg (tc_block_cache tc) content ?k tf" "c_Release h c1 = Some c2" "cache_ok i held m c2" using r(2) by auto
    have "FindTable env n sz tc = Some (OK, Some h, tc\<lparr>tc_cache := c1\<rparr>)" using r(1) Some by (simp add: FindTable_def)
    moreover have "table_of legal opt reg (tc_block_cache tc) (content n) (tf_table tf)" using h(2) key_of_number unfolding cache_good_def by blast
    moreover have "tables_ok reg legal opt dbname content held bheld room (tc\<lparr>tc_cache := c2\<rparr>)"
      using tc h(4) m(2) block_cache_ok_mono [OF bc, of room] by (auto simp: tables_ok_def)
    ultimately show ?thesis using h(1,3) by (intro exI [of _ h] exI [of _ tf] exI [of _ "tc\<lparr>tc_cache := c1\<rparr>"] exI [of _ reg] exI [of _ c2]) simp
  next
    case None
    obtain tf b reg' where tf: "open_table env n sz tc = Some (OK, Some tf, b)" "table_of legal opt reg' b (content n) (tf_table tf)" "block_cache_ok reg' room bheld b" "reg \<subseteq>\<^sub>m reg'"
      "b = None \<longleftrightarrow> tc_block_cache tc = None" using open_table_stored [OF o s kvs tc bc] by (elim exE conjE) auto
    obtain h c2 c3 where h: "c_Insert ?k tf 1 c1 = Some (h, c2)" "c_Value h c2 = Some tf" "c_Release h c2 = Some c3" "cache_ok i held (m(?k \<mapsto> tf)) c3" using r(2) None by fastforce
    have "FindTable env n sz tc = Some (OK, Some h, tc\<lparr>tc_cache := c2, tc_block_cache := b\<rparr>)" using r(1) None tf(1) h(1) by (simp add: FindTable_def)
    moreover have "cache_good legal opt reg' b content k x" if "(m(?k \<mapsto> tf)) k = Some x" for k x
      using that m(2) tf(2) cache_good_mono [OF _ tf(4,5)] by (cases "k = ?k") (auto simp: cache_good_def)
    then have "tables_ok reg' legal opt dbname content held bheld room (tc\<lparr>tc_block_cache := b, tc_cache := c3\<rparr>)" using tc h(4) tf(3) unfolding tables_ok_def
      by (intro conjI exI [of _ i] exI [of _ "m(?k \<mapsto> tf)"]) auto
    ultimately show ?thesis using h(2,3) tf(2)
      by (intro exI [of _ h] exI [of _ tf] exI [of _ "tc\<lparr>tc_cache := c2, tc_block_cache := b\<rparr>"] exI [of _ reg'] exI [of _ c3]) simp
  qed
qed

text \<open>\<open>Get\<close> reads the table of its number and gives back the handles it takes.\<close>

lemma tc_Get_spec:
  assumes o: "table_options legal opt C" "policy_respects opt" and ok: "table_cache_ok legal opt dbname content held bheld (Suc room) tc"
    and s: "stored_table env dbname (sanitize_fields opt) C (content n) n sz"
    and kvs: "\<forall>kv\<in>set (content n). comparator.ilegal legal (fst kv)" "sorted_wrt (\<lambda>a b. ICompare (o_cmp opt) (fst a) (fst b) < 0) (content n)" and k: "comparator.ilegal legal k"
  shows "\<exists>res tc'. tc_Get env v fill n sz k tc = Some (OK, res, tc') \<and> table_cache_ok legal opt dbname content held bheld room tc' \<and>
    (res = find (\<lambda>kv. \<not> ICompare (o_cmp opt) (fst kv) k < 0) (content n) \<or>
     res = None \<and> (\<forall>kv\<in>set (content n). o_cmp opt (ExtractUserKey (fst kv)) (ExtractUserKey k) = 0 \<longrightarrow> ICompare (o_cmp opt) (fst kv) k < 0))"
proof -
  obtain h tf tc1 reg c2 where L: "FindTable env n sz tc = Some (OK, Some h, tc1)" "c_Value h (tc_cache tc1) = Some tf" "table_of legal opt reg (tc_block_cache tc1) (content n) (tf_table tf)"
    "c_Release h (tc_cache tc1) = Some c2" "tables_ok reg legal opt dbname content held bheld room (tc1\<lparr>tc_cache := c2\<rparr>)" using FindTable_spec [OF o(1) ok s kvs] by blast
  obtain F fs seps where T: "table_file (comparator.ilegal legal) (sanitize_fields opt) F fs seps" "opened (sanitize_fields opt) F fs seps (tf_table tf)" "entries fs = content n"
    "registered reg (tc_block_cache tc1) (t_cache_id (tf_table tf)) fs" using L(3) unfolding table_of_def by blast
  have bc: "block_cache_ok reg room bheld (tc_block_cache tc1)" using L(5) by (simp add: tables_ok_def)
  obtain res b where r: "InternalGet (tf_table tf) v fill k (tc_block_cache tc1) = Some (OK, res, b)" "block_cache_ok reg room bheld b" "b = None \<longleftrightarrow> tc_block_cache tc1 = None"
    "res = find (\<lambda>kv. \<not> ICompare (o_cmp opt) (fst kv) k < 0) (content n) \<or>
     res = None \<and> (\<forall>kv\<in>set (content n). o_cmp opt (ExtractUserKey (fst kv)) (ExtractUserKey k) = 0 \<longrightarrow> ICompare (o_cmp opt) (fst kv) k < 0)"
    using InternalGet_internal [OF o T(1,2) bc T(4) k, of v fill] unfolding T(3) by (elim exE conjE) auto
  have "tc_Get env v fill n sz k tc = Some (OK, res, tc1\<lparr>tc_cache := c2, tc_block_cache := b\<rparr>)" using L(1,2,4) r(1) by (simp add: tc_Get_def)
  moreover have "tables_ok reg legal opt dbname content held bheld room (tc1\<lparr>tc_cache := c2, tc_block_cache := b\<rparr>)"
  proof -
    obtain i m where "cache_ok i held m c2" "\<forall>k tf. m k = Some tf \<longrightarrow> cache_good legal opt reg (tc_block_cache tc1) content k tf" using L(5) unfolding tables_ok_def by auto
    then show ?thesis using L(5) r(2) cache_good_mono [OF _ map_le_refl r(3)] unfolding tables_ok_def by (intro conjI exI [of _ i] exI [of _ m]) auto
  qed
  ultimately show ?thesis using r(4) unfolding table_cache_ok_def by blast
qed

section \<open>The table cache serves versions\<close>

definition table_live :: "(slice \<Rightarrow> bool) \<Rightarrow> options \<Rightarrow> nat \<Rightarrow> new_file \<Rightarrow> slice \<Rightarrow> (u64 \<Rightarrow> (slice \<times> slice) list) \<Rightarrow> FileMetaData \<Rightarrow> bool" where
  "table_live legal opt C env dbname content f \<longleftrightarrow>
     content_ok legal (o_cmp opt) content f \<and> stored_table env dbname (sanitize_fields opt) C (content (number f)) (number f) (file_size f)"

lemma table_cache_reader:
  assumes "table_options legal opt C" and "policy_respects opt"
  shows "table_reader legal (o_cmp opt) (o_sep opt) (o_succ opt) (tc_Get env verify fill) (table_cache_ok legal opt dbname content held bheld) (table_live legal opt C env dbname content) content"
proof (intro table_reader.intro table_reader_axioms.intro)
  show c: "comparator legal (o_cmp opt) (o_sep opt) (o_succ opt)" by (rule table_options.axioms(1) [OF assms(1)])
  show "content_ok legal (o_cmp opt) content f" if "table_live legal opt C env dbname content f" for f using that by (simp add: table_live_def)
  show "table_cache_ok legal opt dbname content held bheld n tc" if "table_cache_ok legal opt dbname content held bheld m tc" "n \<le> m" for m n tc using table_cache_ok_mono that by blast
  fix f n tc k
  assume f: "table_live legal opt C env dbname content f" and tc: "table_cache_ok legal opt dbname content held bheld (Suc n) tc" and k: "comparator.ilegal legal k"
  have ok: "sorted_wrt (\<lambda>a b. ICompare (o_cmp opt) (fst a) (fst b) < 0) (content (number f))" "\<forall>x\<in>set (content (number f)). legal (ExtractUserKey (fst x)) \<and> ParseInternalKey (fst x) \<noteq> None"
    using f by (simp_all add: table_live_def content_ok_def Let_def)
  then have "\<forall>kv\<in>set (content (number f)). comparator.ilegal legal (fst kv)" using parsed_long by (simp add: comparator.ilegal_def [OF c])
  then show "\<exists>res tc'. tc_Get env verify fill (number f) (file_size f) k tc = Some (OK, res, tc') \<and> table_cache_ok legal opt dbname content held bheld n tc' \<and>
      (res = find (\<lambda>kv. \<not> ICompare (o_cmp opt) (fst kv) k < 0) (content (number f)) \<or>
       res = None \<and> (\<forall>kv\<in>set (content (number f)). o_cmp opt (ExtractUserKey (fst kv)) (ExtractUserKey k) = 0 \<longrightarrow> ICompare (o_cmp opt) (fst kv) k < 0))"
    using tc_Get_spec [OF assms tc _ _ ok(1) k] f by (auto simp: table_live_def)
qed

interpretation plain_reader: table_reader "\<lambda>_. True" "o_cmp mk_Options" "o_sep mk_Options" "o_succ mk_Options" "tc_Get env verify fill"
  "table_cache_ok (\<lambda>_. True) mk_Options dbname content held bheld" "table_live (\<lambda>_. True) mk_Options 0 env dbname content" content for env verify fill dbname content held bheld
  by (rule table_cache_reader [OF plain_table.table_options_axioms]) (simp add: policy_respects_def mk_Options_def)

text \<open>
  C2. Lookup in the tables of a version. Let the tables of a version be files written by the table builder from sorted contents, with data in lower levels older than data in higher
  ones, found under the current or the old name. Then \<open>Version::Get\<close> for a user key at a snapshot returns through the table cache, opened tables, filters, the block cache, compressed blocks and checksums: the
  value of the newest entry of the key that the snapshot sees, or that the key is not found if this entry is a deletion or there is none. No older entry is ever returned: not from
  overlapping files of level 0, not from a lower level, and none is missed by a shortened index key, a filter or the search for the file, and none comes from a cached block of another table. The table cache and the block cache are in order again afterwards: no handle is
  left behind, whatever they had cached before and whatever handles others hold. The counter of identifiers of the block cache must have room for the tables that the lookup may open.
\<close>

theorem version_Get:
  assumes "table_options legal opt C" and "policy_respects opt" and "version_ok legal (o_cmp opt) v"
    and "\<forall>level<kNumLevels. \<forall>f\<in>set (v_files v ! level). table_live legal opt C env dbname content f"
    and "levels_ordered (o_cmp opt) content v" and "unique_entries (o_cmp opt) (version_entries content v)"
    and "legal u" and "s \<le> kMaxSequenceNumber" and "mk_LookupKey u s = Some k" and "table_cache_ok legal opt dbname content held bheld (num_files v + n) tc"
  shows "\<exists>st g. Version_Get (o_cmp opt) (tc_Get env verify fill) v k tc = Some (st, g) \<and> lookup_spec (o_cmp opt) u s (version_entries content v) st (g_value g) \<and>
    table_cache_ok legal opt dbname content held bheld n (g_cache g)"
  using table_reader.Version_Get_spec [OF table_cache_reader [OF assms(1,2)] assms(3-8,10,9)] by blast

text \<open>A table with two versions of a key.\<close>

definition sample_entries :: "(slice \<times> slice) list" where
  "sample_entries = [(mk_InternalKey [1] 7 kTypeValue, [9]), (mk_InternalKey [1] 3 kTypeValue, replicate 200 8), (mk_InternalKey [2] 4 kTypeDeletion, [])]"

definition sample_table :: table_builder where "sample_table = snd (the (build_table (sanitize_fields rle_options) sample_entries))"

definition sample_env :: new_file where "sample_env name = (OK, mem_file False (w_data (tb_file sample_table)))"

definition sample_meta :: FileMetaData where
  "sample_meta = mk_FileMetaData\<lparr>number := 5, file_size := FileSize sample_table, smallest := fst (hd sample_entries), largest := fst (last sample_entries)\<rparr>"

definition sample_levels :: Version where
  "sample_levels = \<lparr>v_files = [[], [sample_meta], [], [], [], [], []], file_to_compact = None, file_to_compact_level = -1\<rparr>"

lemma sample_sorted: "sorted_wrt (\<lambda>a b. ICompare BytewiseCompare (fst a) (fst b) < 0) sample_entries"
  by code_simp

lemma sample_keys:
  "parsed (mk_InternalKey [1] 7 kTypeValue, [9]) = \<lparr>user_key = [1], sequence = 7, vtype = kTypeValue\<rparr>" "parsed (mk_InternalKey [1] 3 kTypeValue, replicate 200 8) = \<lparr>user_key = [1], sequence = 3, vtype = kTypeValue\<rparr>"
  "parsed (mk_InternalKey [2] 4 kTypeDeletion, []) = \<lparr>user_key = [2], sequence = 4, vtype = kTypeDeletion\<rparr>"
  by code_simp+

lemma sample_legal: "\<forall>x\<in>set sample_entries. ParseInternalKey (fst x) \<noteq> None \<and> 8 \<le> length (fst x)"
  by code_simp

lemma sample_live: "table_live (\<lambda>_. True) rle_options 26 sample_env [] (\<lambda>_. sample_entries) sample_meta"
proof -
  note o = sanitized_options [OF rle_table.table_options_axioms] and c = table_options.axioms(1) [OF rle_table.table_options_axioms]
  have cmp: "o_cmp rle_options = BytewiseCompare" by (simp add: rle_options_def mk_Options_def)
  have "\<forall>kv\<in>set sample_entries. comparator.ilegal (\<lambda>_. True) (fst kv)" using sample_legal by (simp add: comparator.ilegal_def [OF c])
  moreover have w: "wt sample_entries + 26 * length sample_entries < 2 ^ 31" by (simp add: sample_entries_def mk_InternalKey_def AppendInternalKey_def PutFixed64_eq)
  ultimately obtain r where r: "build_table (sanitize_fields rle_options) sample_entries = Some (OK, r)"
    using build_table_file [OF o _ _ w] sample_sorted unfolding sanitized_fields cmp by blast
  then have "sample_table = r" by (simp add: sample_table_def)
  then have "stored_table sample_env [] (sanitize_fields rle_options) 26 sample_entries 5 (FileSize sample_table)"
    using r w by (auto simp: stored_table_def sample_env_def TableFileName_def SSTTableFileName_def)
  moreover have "content_ok (\<lambda>_. True) BytewiseCompare (\<lambda>_. sample_entries) sample_meta"
    using sample_sorted sample_legal by (simp add: content_ok_def sample_meta_def sample_entries_def)
  ultimately show ?thesis by (simp add: table_live_def cmp sample_meta_def)
qed

theorem version_Get_witness:
  "\<exists>k g. mk_LookupKey [1] 5 = Some k \<and> Version_Get BytewiseCompare (tc_Get sample_env True True) sample_levels k (mk_TableCache [] (SanitizeOptions rle_options None) 100) = Some (OK, g) \<and> g_value g = Some (replicate 200 8)"
proof -
  let ?content = "\<lambda>_ :: u64. sample_entries" and ?tc = "mk_TableCache [] (SanitizeOptions rle_options None) 100"
  have cmp: "o_cmp rle_options = BytewiseCompare" by (simp add: rle_options_def mk_Options_def)
  have fo: "file_ok (\<lambda>_. True) BytewiseCompare sample_meta"
    using sample_legal sample_sorted by (simp add: file_ok_def sample_meta_def sample_entries_def)
  have v: "version_ok (\<lambda>_. True) BytewiseCompare sample_levels" using fo by (simp add: version_ok_def kNumLevels_def less_seven sample_levels_def disjoint_files_def)
  have E: "version_entries ?content sample_levels = set sample_entries" by (auto simp: version_entries_def kNumLevels_def sample_levels_def lessThan_nat_numeral lessThan_Suc)
  have lo: "levels_ordered BytewiseCompare ?content sample_levels" by (simp add: levels_ordered_def kNumLevels_def less_seven sample_levels_def)
  have un: "unique_entries BytewiseCompare (version_entries ?content sample_levels)" unfolding E by (simp add: unique_entries_def sample_entries_def sample_keys BytewiseCompare_def)
  have "mk_LookupKey [1] 5 \<noteq> None" by code_simp
  then obtain k where k: "mk_LookupKey [1] 5 = Some k" by blast
  have lv: "\<forall>level<kNumLevels. \<forall>f\<in>set (v_files sample_levels ! level). table_live (\<lambda>_. True) rle_options 26 sample_env [] ?content f"
    using sample_live by (simp add: kNumLevels_def less_seven sample_levels_def)
  have tc: "table_cache_ok (\<lambda>_. True) rle_options [] ?content (\<lambda>_. 0) (\<lambda>_. 0) (num_files sample_levels + 0) ?tc"
    by (rule mk_TableCache_ok) (simp_all add: num_files_def kNumLevels_def sample_levels_def upt_conv_Cons)
  have "policy_respects rle_options" unfolding policy_respects_def
    using filter_policy.create_match [OF bloom.filter_policy_axioms] by (auto simp: rle_options_def mk_Options_def NewBloomFilterPolicy_def BytewiseCompare_def)
  then obtain st g where g: "Version_Get BytewiseCompare (tc_Get sample_env True True) sample_levels k ?tc = Some (st, g)" "lookup_spec BytewiseCompare [1] 5 (set sample_entries) st (g_value g)"
    using version_Get [OF rle_table.table_options_axioms _ v [folded cmp] lv lo [folded cmp] un [folded cmp] TrueI _ k tc, of True True] unfolding cmp E
    by (auto simp: kMaxSequenceNumber_def)
  have "newest_entry BytewiseCompare [1] 5 (set sample_entries) x \<longleftrightarrow> x = (mk_InternalKey [1] 3 kTypeValue, replicate 200 8)" for x
    by (auto simp: newest_entry_def candidate_def sample_entries_def sample_keys BytewiseCompare_def)
  then have "st = OK" "g_value g = Some (replicate 200 8)" using g(2) sample_keys by (auto simp: lookup_spec_def newest_entry_def)
  then show ?thesis using k g(1) by blast
qed

end
