(* ===== verification/Compactions.thy ===== *)
theory Compactions
  imports VersionGet
begin

text \<open>
  Compactions: the choice of the input files in db/version_set.cc, and from db/db_impl.cc the decision which entries of the inputs a compaction drops. Vectors of files are lists. The sizes
  that \<open>ShouldStopBefore\<close> adds up are 64-bit numbers.
\<close>

section \<open>The code\<close>

record Compaction =
  c_level :: nat
  max_output_file_size :: u64
  input_version :: Version
  inputs0 :: "FileMetaData list"
  inputs1 :: "FileMetaData list"
  grandparents :: "FileMetaData list"
  grandparent_index :: nat
  seen_key :: bool
  overlapped_bytes :: u64
  level_ptrs :: "nat list"
  c_edit :: VersionEdit

definition mk_Compaction :: "u64 \<Rightarrow> nat \<Rightarrow> Version \<Rightarrow> Compaction" where
  "mk_Compaction max_file_size level v =
     \<lparr>c_level = level, max_output_file_size = MaxFileSizeForLevel max_file_size level, input_version = v, inputs0 = [], inputs1 = [], grandparents = [],
      grandparent_index = 0, seen_key = False, overlapped_bytes = 0, level_ptrs = replicate kNumLevels 0, c_edit = mk_VersionEdit\<rparr>"

definition IsTrivialMove :: "u64 \<Rightarrow> Compaction \<Rightarrow> bool" where
  "IsTrivialMove max_file_size c \<longleftrightarrow> length (inputs0 c) = 1 \<and> length (inputs1 c) = 0 \<and> TotalFileSize (grandparents c) \<le> MaxGrandParentOverlapBytes max_file_size"

definition AddInputDeletions :: "Compaction \<Rightarrow> VersionEdit \<Rightarrow> VersionEdit" where
  "AddInputDeletions c e =
     fold (\<lambda>f. DeleteFile (c_level c + 1) (number f)) (inputs1 c) (fold (\<lambda>f. DeleteFile (c_level c) (number f)) (inputs0 c) e)"

text \<open>\<open>IsBaseLevelForKey\<close>: the loop over the files of a level moves its pointer; the result is the pointer and whether the key is in the range of a file.\<close>

fun advance_ptr :: "(slice \<Rightarrow> slice \<Rightarrow> int) \<Rightarrow> slice \<Rightarrow> FileMetaData list \<Rightarrow> nat \<Rightarrow> bool \<times> nat" where
  "advance_ptr ucmp u [] p = (False, p)"
| "advance_ptr ucmp u (f # fs) p =
     (if ucmp u (ExtractUserKey (largest f)) \<le> 0 then (ucmp u (ExtractUserKey (smallest f)) \<ge> 0, p) else advance_ptr ucmp u fs (p + 1))"

fun base_levels :: "(slice \<Rightarrow> slice \<Rightarrow> int) \<Rightarrow> slice \<Rightarrow> nat list \<Rightarrow> Compaction \<Rightarrow> bool \<times> Compaction" where
  "base_levels ucmp u [] c = (True, c)"
| "base_levels ucmp u (lvl # lvls) c =
     (let (found, p) = advance_ptr ucmp u (drop (level_ptrs c ! lvl) (v_files (input_version c) ! lvl)) (level_ptrs c ! lvl);
          c = c\<lparr>level_ptrs := (level_ptrs c)[lvl := p]\<rparr>
      in if found then (False, c) else base_levels ucmp u lvls c)"

definition IsBaseLevelForKey :: "(slice \<Rightarrow> slice \<Rightarrow> int) \<Rightarrow> slice \<Rightarrow> Compaction \<Rightarrow> bool \<times> Compaction" where
  "IsBaseLevelForKey ucmp u c = base_levels ucmp u [c_level c + 2..<kNumLevels] c"

function skip_grandparents :: "(slice \<Rightarrow> slice \<Rightarrow> int) \<Rightarrow> slice \<Rightarrow> Compaction \<Rightarrow> Compaction" where
  "skip_grandparents ucmp k c =
     (if grandparent_index c < length (grandparents c) \<and> ICompare ucmp k (largest (grandparents c ! grandparent_index c)) > 0 then
        skip_grandparents ucmp k
          (c\<lparr>overlapped_bytes := (if seen_key c then overlapped_bytes c + file_size (grandparents c ! grandparent_index c) else overlapped_bytes c),
             grandparent_index := grandparent_index c + 1\<rparr>)
      else c)"
  by pat_completeness auto
termination by (relation "measure (\<lambda>(_, _, c). length (grandparents c) - grandparent_index c)") auto

declare skip_grandparents.simps [simp del]

definition ShouldStopBefore :: "u64 \<Rightarrow> (slice \<Rightarrow> slice \<Rightarrow> int) \<Rightarrow> slice \<Rightarrow> Compaction \<Rightarrow> bool \<times> Compaction" where
  "ShouldStopBefore max_file_size ucmp k c =
     (let c = (skip_grandparents ucmp k c)\<lparr>seen_key := True\<rparr>
      in if sint (overlapped_bytes c) > MaxGrandParentOverlapBytes max_file_size then (True, c\<lparr>overlapped_bytes := 0\<rparr>) else (False, c))"

text \<open>
  The part of the loop of \<open>DoCompactionWork\<close> that decides whether an entry is dropped: the variables \<open>current_user_key\<close> (with \<open>has_current_user_key\<close>) and \<open>last_sequence_for_key\<close>. The
  result is the decision, the variables and the compaction, whose pointers \<open>IsBaseLevelForKey\<close> moves.
\<close>

record key_state =
  current_user_key :: "slice option"
  last_sequence_for_key :: u64

definition drop_entry :: "(slice \<Rightarrow> slice \<Rightarrow> int) \<Rightarrow> u64 \<Rightarrow> slice \<Rightarrow> key_state \<times> Compaction \<Rightarrow> bool \<times> key_state \<times> Compaction" where
  "drop_entry ucmp smallest_snapshot k sc =
     (case ParseInternalKey k of
        None \<Rightarrow> (False, \<lparr>current_user_key = None, last_sequence_for_key = kMaxSequenceNumber\<rparr>, snd sc)
      | Some ikey \<Rightarrow>
          let st = (if current_user_key (fst sc) = None \<or> ucmp (user_key ikey) (the (current_user_key (fst sc))) \<noteq> 0
                    then \<lparr>current_user_key = Some (user_key ikey), last_sequence_for_key = kMaxSequenceNumber\<rparr> else fst sc);
              (drop, c) = (if last_sequence_for_key st \<le> smallest_snapshot then (True, snd sc)
                           else if vtype ikey = kTypeDeletion \<and> sequence ikey \<le> smallest_snapshot then IsBaseLevelForKey ucmp (user_key ikey) (snd sc)
                           else (False, snd sc))
          in (drop, st\<lparr>last_sequence_for_key := sequence ikey\<rparr>, c))"

text \<open>The entries that the loop keeps, of those that the input iterator yields.\<close>

fun compact_entries :: "(slice \<Rightarrow> slice \<Rightarrow> int) \<Rightarrow> u64 \<Rightarrow> (slice \<times> slice) list \<Rightarrow> key_state \<times> Compaction \<Rightarrow> (slice \<times> slice) list" where
  "compact_entries ucmp snap [] sc = []"
| "compact_entries ucmp snap (kv # kvs) sc =
     (let (drop, sc) = drop_entry ucmp snap (fst kv) sc
      in if drop then compact_entries ucmp snap kvs sc else kv # compact_entries ucmp snap kvs sc)"

definition init_key_state :: key_state where
  "init_key_state = \<lparr>current_user_key = None, last_sequence_for_key = kMaxSequenceNumber\<rparr>"

section \<open>The choice of the inputs\<close>

text \<open>
  The part of \<open>VersionSet\<close> that compactions use: the options' \<open>max_file_size\<close>, the current version and the keys where the next compaction of each level starts, empty strings at first.
  \<^term>\<open>None\<close> is a failed assertion.
\<close>

record VersionSet =
  vs_max_file_size :: u64
  vs_current :: Version
  compact_pointer :: "slice list"

fun widen :: "(slice \<Rightarrow> slice \<Rightarrow> int) \<Rightarrow> FileMetaData list \<Rightarrow> slice \<times> slice \<Rightarrow> slice \<times> slice" where
  "widen ucmp [] r = r"
| "widen ucmp (f # fs) (lo, hi) =
     widen ucmp fs (if ICompare ucmp (smallest f) lo < 0 then smallest f else lo, if ICompare ucmp (largest f) hi > 0 then largest f else hi)"

definition GetRange :: "(slice \<Rightarrow> slice \<Rightarrow> int) \<Rightarrow> FileMetaData list \<Rightarrow> (slice \<times> slice) option" where
  "GetRange ucmp inputs = (case inputs of [] \<Rightarrow> None | f # fs \<Rightarrow> Some (widen ucmp fs (smallest f, largest f)))"

definition GetRange2 :: "(slice \<Rightarrow> slice \<Rightarrow> int) \<Rightarrow> FileMetaData list \<Rightarrow> FileMetaData list \<Rightarrow> (slice \<times> slice) option" where
  "GetRange2 ucmp in0 in1 = GetRange ucmp (in0 @ in1)"

text \<open>The part of \<open>SetupOtherInputs\<close> that tries to take more files of the level: the compaction, the largest key and the whole range.\<close>

definition expand_inputs :: "(slice \<Rightarrow> slice \<Rightarrow> int) \<Rightarrow> VersionSet \<Rightarrow> Compaction \<Rightarrow> slice \<Rightarrow> slice \<times> slice \<Rightarrow> (Compaction \<times> slice \<times> slice \<times> slice) option" where
  "expand_inputs ucmp vs c hi all =
     (if inputs1 c = [] then Some (c, hi, all)
      else do { expanded0 \<leftarrow> GetOverlappingInputs ucmp (vs_current vs) (c_level c) (Some (fst all)) (Some (snd all));
                if length expanded0 > length (inputs0 c) \<and>
                   TotalFileSize (inputs1 c) + TotalFileSize expanded0 < ExpandedCompactionByteSizeLimit (vs_max_file_size vs) then
                  do { (new_start, new_limit) \<leftarrow> GetRange ucmp expanded0;
                       expanded1 \<leftarrow> GetOverlappingInputs ucmp (vs_current vs) (c_level c + 1) (Some new_start) (Some new_limit);
                       if length expanded1 = length (inputs1 c) then
                         do { all \<leftarrow> GetRange2 ucmp expanded0 expanded1; Some (c\<lparr>inputs0 := expanded0, inputs1 := expanded1\<rparr>, new_limit, all) }
                       else Some (c, hi, all) }
                else Some (c, hi, all) })"

definition SetupOtherInputs :: "(slice \<Rightarrow> slice \<Rightarrow> int) \<Rightarrow> VersionSet \<Rightarrow> Compaction \<Rightarrow> (Compaction \<times> VersionSet) option" where
  "SetupOtherInputs ucmp vs c =
     do { (lo, hi) \<leftarrow> GetRange ucmp (inputs0 c);
          in1 \<leftarrow> GetOverlappingInputs ucmp (vs_current vs) (c_level c + 1) (Some lo) (Some hi);
          let c = c\<lparr>inputs1 := in1\<rparr>;
          all \<leftarrow> GetRange2 ucmp (inputs0 c) (inputs1 c);
          (c, hi, all) \<leftarrow> expand_inputs ucmp vs c hi all;
          gps \<leftarrow> (if c_level c + 2 < kNumLevels then GetOverlappingInputs ucmp (vs_current vs) (c_level c + 2) (Some (fst all)) (Some (snd all)) else Some (grandparents c));
          Some (c\<lparr>grandparents := gps, c_edit := SetCompactPointer (c_level c) hi (c_edit c)\<rparr>, vs\<lparr>compact_pointer := (compact_pointer vs)[c_level c := hi]\<rparr>) }"

text \<open>
  \<open>PickCompaction\<close>: the argument \<open>size_level\<close> is the level \<open>compaction_level_\<close> if \<open>compaction_score_\<close> is at least 1. First the file that is chosen; the outer option is the null pointer.
\<close>

definition pick_file :: "(slice \<Rightarrow> slice \<Rightarrow> int) \<Rightarrow> slice \<Rightarrow> FileMetaData list \<Rightarrow> FileMetaData option" where
  "pick_file ucmp ptr files =
     (case find (\<lambda>f. ptr = [] \<or> ICompare ucmp (largest f) ptr > 0) files of
        Some f \<Rightarrow> Some f
      | None \<Rightarrow> (case files of [] \<Rightarrow> None | f # _ \<Rightarrow> Some f))"

definition pick_input :: "(slice \<Rightarrow> slice \<Rightarrow> int) \<Rightarrow> nat option \<Rightarrow> VersionSet \<Rightarrow> (nat \<times> FileMetaData) option option" where
  "pick_input ucmp size_level vs =
     (case size_level of
        Some level \<Rightarrow>
          (if level + 1 < kNumLevels then map_option (\<lambda>f. Some (level, f)) (pick_file ucmp (compact_pointer vs ! level) (v_files (vs_current vs) ! level)) else None)
      | None \<Rightarrow> Some (map_option (\<lambda>f. (nat (file_to_compact_level (vs_current vs)), f)) (file_to_compact (vs_current vs))))"

definition PickCompaction :: "(slice \<Rightarrow> slice \<Rightarrow> int) \<Rightarrow> nat option \<Rightarrow> VersionSet \<Rightarrow> (Compaction option \<times> VersionSet) option" where
  "PickCompaction ucmp size_level vs =
     do { picked \<leftarrow> pick_input ucmp size_level vs;
          case picked of
            None \<Rightarrow> Some (None, vs)
          | Some (level, f) \<Rightarrow>
              do { in0 \<leftarrow> (if level = 0 then
                             do { (lo, hi) \<leftarrow> GetRange ucmp [f];
                                  in0 \<leftarrow> GetOverlappingInputs ucmp (vs_current vs) 0 (Some lo) (Some hi);
                                  if in0 = [] then None else Some in0 }
                           else Some [f]);
                   (c, vs) \<leftarrow> SetupOtherInputs ucmp vs ((mk_Compaction (vs_max_file_size vs) level (vs_current vs))\<lparr>inputs0 := in0\<rparr>);
                   Some (Some c, vs) } }"

text \<open>\<open>CompactRange\<close>: above level 0 the inputs end when their sizes reach the limit.\<close>

fun limit_inputs :: "u64 \<Rightarrow> u64 \<Rightarrow> FileMetaData list \<Rightarrow> FileMetaData list" where
  "limit_inputs limit t [] = []"
| "limit_inputs limit t (f # fs) = (let t = t + file_size f in if t \<ge> limit then [f] else f # limit_inputs limit t fs)"

definition CompactRange :: "(slice \<Rightarrow> slice \<Rightarrow> int) \<Rightarrow> nat \<Rightarrow> slice option \<Rightarrow> slice option \<Rightarrow> VersionSet \<Rightarrow> (Compaction option \<times> VersionSet) option" where
  "CompactRange ucmp level begin_key end_key vs =
     do { inputs \<leftarrow> GetOverlappingInputs ucmp (vs_current vs) level begin_key end_key;
          if inputs = [] then Some (None, vs)
          else
            let inputs = (if level > 0 then limit_inputs (MaxFileSizeForLevel (vs_max_file_size vs) level) 0 inputs else inputs)
            in do { (c, vs) \<leftarrow> SetupOtherInputs ucmp vs ((mk_Compaction (vs_max_file_size vs) level (vs_current vs))\<lparr>inputs0 := inputs\<rparr>);
                    Some (Some c, vs) } }"

section \<open>Files of the levels below\<close>

text \<open>A file has keys of a user key, as far as its range tells; the levels below the output have none.\<close>

definition in_file :: "(slice \<Rightarrow> slice \<Rightarrow> int) \<Rightarrow> slice \<Rightarrow> FileMetaData \<Rightarrow> bool" where
  "in_file ucmp u f \<longleftrightarrow> ucmp u (ExtractUserKey (smallest f)) \<ge> 0 \<and> ucmp u (ExtractUserKey (largest f)) \<le> 0"

definition base_for :: "(slice \<Rightarrow> slice \<Rightarrow> int) \<Rightarrow> nat \<Rightarrow> Version \<Rightarrow> slice \<Rightarrow> bool" where
  "base_for ucmp level v u \<longleftrightarrow> (\<forall>lvl. level + 2 \<le> lvl \<and> lvl < kNumLevels \<longrightarrow> (\<forall>f\<in>set (v_files v ! lvl). \<not> in_file ucmp u f))"

section \<open>What is dropped\<close>

text \<open>An entry is hidden from all snapshots if a newer entry of its key is visible to the oldest one. It is dropped then, or if it is a deletion that hides nothing.\<close>

definition hidden :: "(slice \<Rightarrow> slice \<Rightarrow> int) \<Rightarrow> u64 \<Rightarrow> (slice \<times> slice) set \<Rightarrow> slice \<times> slice \<Rightarrow> bool" where
  "hidden ucmp snap E x \<longleftrightarrow> (\<exists>z\<in>E. ucmp (user_key (parsed z)) (user_key (parsed x)) = 0 \<and> sequence (parsed x) < sequence (parsed z) \<and> sequence (parsed z) \<le> snap)"

definition obsolete :: "(slice \<Rightarrow> slice \<Rightarrow> int) \<Rightarrow> u64 \<Rightarrow> nat \<Rightarrow> Version \<Rightarrow> slice \<times> slice \<Rightarrow> bool" where
  "obsolete ucmp snap level v x \<longleftrightarrow> vtype (parsed x) = kTypeDeletion \<and> sequence (parsed x) \<le> snap \<and> base_for ucmp level v (user_key (parsed x))"

definition items_ok :: "(slice \<Rightarrow> bool) \<Rightarrow> (slice \<Rightarrow> slice \<Rightarrow> int) \<Rightarrow> (slice \<times> slice) list \<Rightarrow> bool" where
  "items_ok legal ucmp xs \<longleftrightarrow> sorted_wrt (\<lambda>a b. ICompare ucmp (fst a) (fst b) < 0) xs \<and> (\<forall>x\<in>set xs. legal (ExtractUserKey (fst x)) \<and> ParseInternalKey (fst x) \<noteq> None) \<and> unique_entries ucmp (set xs)"

context comparator
begin

text \<open>The pointers never pass a file that a key still to come may be in.\<close>

definition ptrs_ok :: "slice \<Rightarrow> Compaction \<Rightarrow> bool" where
  "ptrs_ok u c \<longleftrightarrow> length (level_ptrs c) = kNumLevels \<and> (\<forall>lvl. c_level c + 2 \<le> lvl \<and> lvl < kNumLevels \<longrightarrow>
     (\<forall>f\<in>set (take (level_ptrs c ! lvl) (v_files (input_version c) ! lvl)). Compare (flimit f) u < 0))"

lemma ptrs_ok_mono:
  assumes "ptrs_ok u c" and "version_ok legal Compare (input_version c)" and "legal u" "legal u'" and "Compare u u' \<le> 0"
  shows "ptrs_ok u' c"
proof -
  have "Compare (flimit f) u' < 0" if "lvl < kNumLevels" "f \<in> set (v_files (input_version c) ! lvl)" "Compare (flimit f) u < 0" for lvl f
    using compare_less_trans(2) [of "flimit f" u u'] file_okD(4) [of f] version_okD [OF assms(2) that(1)] that assms(3-5) by blast
  then show ?thesis using assms(1) unfolding ptrs_ok_def by (blast dest: in_set_takeD)
qed

lemma advance_ptr_spec:
  assumes "disjoint_files Compare files" and "\<forall>f\<in>set files. file_ok legal Compare f" and "legal u"
  shows "\<exists>found q. advance_ptr Compare u files p = (found, p + q) \<and> (found \<longleftrightarrow> (\<exists>f\<in>set files. in_file Compare u f)) \<and> (\<forall>f\<in>set (take q files). Compare (flimit f) u < 0)"
  using assms(1,2)
proof (induction files arbitrary: p)
  case Nil
  then show ?case by (intro exI [of _ False] exI [of _ 0]) simp
next
  case (Cons f files)
  then have f: "file_ok legal Compare f" by simp
  show ?case
  proof (cases "Compare u (flimit f) \<le> 0")
    case True
    have "\<not> in_file Compare u g" if g: "g \<in> set files" "Compare u (fstart f) < 0" for g
    proof -
      have gok: "file_ok legal Compare g" using Cons.prems(2) g by simp
      have "ICompare Compare (largest f) (smallest g) < 0" using Cons.prems(1) g by (simp add: disjoint_files_def)
      then have "Compare (flimit f) (fstart g) \<le> 0" by (auto simp: icompare_less)
      then have "Compare (fstart f) (fstart g) \<le> 0" using compare_trans [of "fstart f" "flimit f" "fstart g"] file_okD [OF f] file_okD [OF gok] by blast
      then have "Compare u (fstart g) < 0" using compare_less_trans(2) [of u "fstart f" "fstart g"] g(2) file_okD [OF f] file_okD [OF gok] assms(3) by blast
      then show ?thesis by (auto simp: in_file_def)
    qed
    then have "(\<exists>g\<in>set (f # files). in_file Compare u g) \<longleftrightarrow> Compare u (fstart f) \<ge> 0" using True by (metis in_file_def list.set_intros(1) not_le set_ConsD)
    then show ?thesis using True by (intro exI [of _ "Compare u (fstart f) \<ge> 0"] exI [of _ 0]) simp
  next
    case False
    obtain found q where I: "advance_ptr Compare u files (p + 1) = (found, p + 1 + q)" "found \<longleftrightarrow> (\<exists>f\<in>set files. in_file Compare u f)" "\<forall>f\<in>set (take q files). Compare (flimit f) u < 0"
      using Cons.IH [of "p + 1"] Cons.prems by (auto simp: disjoint_files_def)
    have "Compare (flimit f) u < 0" using False compare_flip [of u "flimit f"] file_okD(4) [OF f] assms(3) by simp
    then show ?thesis using I False by (intro exI [of _ found] exI [of _ "q + 1"]) (auto simp: in_file_def)
  qed
qed

lemma base_levels_spec:
  assumes "ptrs_ok u c" and "version_ok legal Compare (input_version c)" and "legal u" and "\<forall>lvl\<in>set lvls. c_level c + 2 \<le> lvl \<and> lvl < kNumLevels"
  shows "\<exists>ps. base_levels Compare u lvls c = ((\<forall>lvl\<in>set lvls. \<forall>f\<in>set (v_files (input_version c) ! lvl). \<not> in_file Compare u f), c\<lparr>level_ptrs := ps\<rparr>) \<and> ptrs_ok u (c\<lparr>level_ptrs := ps\<rparr>)"
  using assms
proof (induction lvls arbitrary: c)
  case Nil
  then show ?case by (intro exI [of _ "level_ptrs c"]) simp
next
  case (Cons lvl lvls)
  let ?files = "v_files (input_version c) ! lvl" and ?p = "level_ptrs c ! lvl"
  have l: "c_level c + 2 \<le> lvl" "lvl < kNumLevels" using Cons.prems(4) by auto
  have len: "length (level_ptrs c) = kNumLevels" and before: "\<forall>f\<in>set (take ?p ?files). Compare (flimit f) u < 0" using Cons.prems(1) l unfolding ptrs_ok_def by blast+
  have ok: "\<forall>f\<in>set ?files. file_ok legal Compare f" and d: "disjoint_files Compare ?files" using version_okD [OF Cons.prems(2) l(2)] l(1) by auto
  have "disjoint_files Compare (drop ?p ?files)" "\<forall>f\<in>set (drop ?p ?files). file_ok legal Compare f"
    using d ok in_set_dropD by (fastforce simp: disjoint_files_def sorted_wrt_drop)+
  then obtain found q where a: "advance_ptr Compare u (drop ?p ?files) ?p = (found, ?p + q)" "found \<longleftrightarrow> (\<exists>f\<in>set (drop ?p ?files). in_file Compare u f)"
    "\<forall>f\<in>set (take q (drop ?p ?files)). Compare (flimit f) u < 0" using advance_ptr_spec [OF _ _ Cons.prems(3)] by blast
  have no: "\<not> in_file Compare u f" if "f \<in> set (take ?p ?files)" for f
  proof -
    have f: "Compare (flimit f) u < 0" "file_ok legal Compare f" using before ok that in_set_takeD by fastforce+
    then show ?thesis using compare_flip [of u "flimit f"] file_okD(4) [OF f(2)] Cons.prems(3) by (auto simp: in_file_def)
  qed
  have found: "found \<longleftrightarrow> (\<exists>f\<in>set ?files. in_file Compare u f)" using a(2) no by (metis Un_iff append_take_drop_id set_append)
  let ?c = "c\<lparr>level_ptrs := (level_ptrs c)[lvl := ?p + q]\<rparr>"
  have "\<forall>f\<in>set (take (?p + q) ?files). Compare (flimit f) u < 0" using before a(3) by (auto simp: take_add)
  then have c: "ptrs_ok u ?c" using Cons.prems(1) len l(2) unfolding ptrs_ok_def by (simp add: nth_list_update split: if_split)
  have step: "base_levels Compare u (lvl # lvls) c = (if found then (False, ?c) else base_levels Compare u lvls ?c)" using a(1) by simp
  show ?case
  proof (cases found)
    case True
    then show ?thesis unfolding step using c found by (intro exI [of _ "(level_ptrs c)[lvl := ?p + q]"]) auto
  next
    case False
    obtain ps where "base_levels Compare u lvls ?c = ((\<forall>lvl\<in>set lvls. \<forall>f\<in>set (v_files (input_version c) ! lvl). \<not> in_file Compare u f), ?c\<lparr>level_ptrs := ps\<rparr>)" "ptrs_ok u (?c\<lparr>level_ptrs := ps\<rparr>)"
      using Cons.IH [OF c] Cons.prems by auto
    then show ?thesis unfolding step using False found by (intro exI [of _ ps]) auto
  qed
qed

lemma IsBaseLevelForKey_spec:
  assumes "ptrs_ok u c" and "version_ok legal Compare (input_version c)" and "legal u"
  shows "\<exists>ps. IsBaseLevelForKey Compare u c = (base_for Compare (c_level c) (input_version c) u, c\<lparr>level_ptrs := ps\<rparr>) \<and> ptrs_ok u (c\<lparr>level_ptrs := ps\<rparr>)"
proof -
  have "(\<forall>lvl\<in>set [c_level c + 2..<kNumLevels]. \<forall>f\<in>set (v_files (input_version c) ! lvl). \<not> in_file Compare u f) = base_for Compare (c_level c) (input_version c) u"
    by (auto simp: base_for_def)
  then show ?thesis unfolding IsBaseLevelForKey_def using base_levels_spec [OF assms, of "[c_level c + 2..<kNumLevels]"] by auto
qed

lemma items_okD: "items_ok legal Compare xs \<Longrightarrow> x \<in> set xs \<Longrightarrow> legal (user_key (parsed x)) \<and> ParseInternalKey (fst x) \<noteq> None \<and> user_key (parsed x) = ExtractUserKey (fst x)"
  unfolding items_ok_def using parsed_facts(1) by metis

text \<open>The test of the code: only the entry before the current one matters.\<close>

lemma hidden_prev:
  assumes ok: "items_ok legal Compare (xs @ y # ys)" and ne: "xs \<noteq> []"
  shows "hidden Compare snap (set (xs @ y # ys)) y \<longleftrightarrow> Compare (user_key (parsed y)) (user_key (parsed (last xs))) = 0 \<and> sequence (parsed (last xs)) \<le> snap"
proof -
  let ?E = "set (xs @ y # ys)" and ?p = "last xs"
  have srt: "sorted_wrt (\<lambda>a b. ICompare Compare (fst a) (fst b) < 0) (xs @ y # ys)" and el: "\<And>x. x \<in> ?E \<Longrightarrow> legal (ExtractUserKey (fst x)) \<and> ParseInternalKey (fst x) \<noteq> None" and un: "unique_entries Compare ?E"
    using ok unfolding items_ok_def by auto
  have p: "?p \<in> set xs" "?p \<in> ?E" "y \<in> ?E" using ne by auto
  have uk: "user_key (parsed x) = ExtractUserKey (fst x)" if "x \<in> ?E" for x using el [OF that] parsed_facts(1) by blast
  have lg: "legal (user_key (parsed x))" if "x \<in> ?E" for x using el [OF that] uk [OF that] by simp
  have py: "ICompare Compare (fst ?p) (fst y) < 0" using srt p(1) by (auto simp: sorted_wrt_append)
  have old: "sequence (parsed b) < sequence (parsed a)" if "a \<in> ?E" "b \<in> ?E" "Compare (user_key (parsed a)) (user_key (parsed y)) = 0" "Compare (user_key (parsed b)) (user_key (parsed y)) = 0" "ICompare Compare (fst a) (fst b) < 0" for a b
    using older [of a b "user_key (parsed y)" ?E] el that(1,2) lg [OF p(3)] that(3-5) un uk by metis
  show ?thesis
  proof
    assume "Compare (user_key (parsed y)) (user_key (parsed ?p)) = 0 \<and> sequence (parsed ?p) \<le> snap"
    then have "Compare (user_key (parsed ?p)) (user_key (parsed y)) = 0" "sequence (parsed ?p) \<le> snap" using compare_0_sym lg p by blast+
    moreover have "sequence (parsed y) < sequence (parsed ?p)" using old [OF p(2,3) calculation(1) _ py] lg [OF p(3)] by simp
    ultimately show "hidden Compare snap ?E y" using p(2) unfolding hidden_def by blast
  next
    assume "hidden Compare snap ?E y"
    then obtain z where z: "z \<in> ?E" "Compare (user_key (parsed z)) (user_key (parsed y)) = 0" "sequence (parsed y) < sequence (parsed z)" "sequence (parsed z) \<le> snap" unfolding hidden_def by blast
    have "z \<in> set xs"
    proof (rule ccontr)
      assume "z \<notin> set xs"
      then have "z \<in> set ys" using z(1,3) by auto
      then have "ICompare Compare (fst y) (fst z) < 0" using srt by (auto simp: sorted_wrt_append)
      then have "sequence (parsed z) < sequence (parsed y)" using old [OF p(3) z(1) _ z(2)] lg [OF p(3)] by simp
      then show False using z(3) by simp
    qed
    show "Compare (user_key (parsed y)) (user_key (parsed ?p)) = 0 \<and> sequence (parsed ?p) \<le> snap"
    proof (cases "z = ?p")
      case True
      then show ?thesis using z compare_0_sym lg p by blast
    next
      case False
      have zp: "ICompare Compare (fst z) (fst ?p) < 0"
      proof -
        obtain bs where bs: "xs = bs @ [?p]" using ne by (metis append_butlast_last_id)
        then have "z \<in> set bs" using \<open>z \<in> set xs\<close> False by (metis Un_iff empty_iff insert_iff list.set(1,2) set_append)
        moreover have "sorted_wrt (\<lambda>a b. ICompare Compare (fst a) (fst b) < 0) (bs @ [?p])" using srt bs by (simp add: sorted_wrt_append)
        ultimately show ?thesis by (auto simp: sorted_wrt_append)
      qed
      have "Compare (user_key (parsed z)) (user_key (parsed ?p)) \<le> 0" "Compare (user_key (parsed ?p)) (user_key (parsed y)) \<le> 0" using zp py uk z(1) p by (auto simp: icompare_less)
      then have "Compare (user_key (parsed ?p)) (user_key (parsed y)) = 0"
        using compare_less_trans(1) [of "user_key (parsed z)" "user_key (parsed ?p)" "user_key (parsed y)"] z(2) lg z(1) p by fastforce
      moreover have "sequence (parsed ?p) < sequence (parsed z)" using old [OF z(1) p(2) z(2) calculation zp] .
      ultimately show ?thesis using z(4) compare_0_sym lg p by fastforce
    qed
  qed
qed

lemma not_hidden_first:
  assumes ok: "items_ok legal Compare (y # ys)"
  shows "\<not> hidden Compare snap (set (y # ys)) y"
proof
  assume "hidden Compare snap (set (y # ys)) y"
  then obtain z where z: "z \<in> set ys" "Compare (user_key (parsed z)) (user_key (parsed y)) = 0" "sequence (parsed y) < sequence (parsed z)" unfolding hidden_def by auto
  have el: "\<And>x. x \<in> set (y # ys) \<Longrightarrow> legal (ExtractUserKey (fst x)) \<and> ParseInternalKey (fst x) \<noteq> None" and un: "unique_entries Compare (set (y # ys))"
    and lt: "ICompare Compare (fst y) (fst z) < 0" using ok z(1) unfolding items_ok_def by auto
  have uk: "user_key (parsed x) = ExtractUserKey (fst x)" if "x \<in> set (y # ys)" for x using el [OF that] parsed_facts(1) by blast
  have "sequence (parsed z) < sequence (parsed y)"
    using older [of y z "ExtractUserKey (fst y)" "set (y # ys)"] el [of y] el [of z] un z(1,2) lt uk [of y] uk [of z] by simp
  then show False using z(3) by simp
qed

lemma drop_entry_eq:
  assumes "ParseInternalKey (fst y) \<noteq> None"
  shows "drop_entry Compare snap (fst y) (st, c) =
    (let st = (if current_user_key st = None \<or> Compare (user_key (parsed y)) (the (current_user_key st)) \<noteq> 0
               then \<lparr>current_user_key = Some (user_key (parsed y)), last_sequence_for_key = kMaxSequenceNumber\<rparr> else st);
         (drop, c) = (if last_sequence_for_key st \<le> snap then (True, c)
                      else if vtype (parsed y) = kTypeDeletion \<and> sequence (parsed y) \<le> snap then IsBaseLevelForKey Compare (user_key (parsed y)) c else (False, c))
     in (drop, st\<lparr>last_sequence_for_key := sequence (parsed y)\<rparr>, c))"
  using parsed_facts(3) [OF assms] unfolding drop_entry_def by simp

text \<open>The state of the loop after the entries \<open>xs\<close>: the user key, up to the comparator, and the sequence number of the last one.\<close>

definition key_state_ok :: "(slice \<times> slice) list \<Rightarrow> key_state \<Rightarrow> bool" where
  "key_state_ok xs st \<longleftrightarrow> (if xs = [] then current_user_key st = None
     else \<exists>u. current_user_key st = Some u \<and> legal u \<and> Compare u (user_key (parsed (last xs))) = 0 \<and> last_sequence_for_key st = sequence (parsed (last xs)))"

lemma drop_entry_spec:
  assumes ok: "items_ok legal Compare (xs @ y # ys)" and snap: "snap < kMaxSequenceNumber" and v: "version_ok legal Compare (input_version c)" and st: "key_state_ok xs st" and p: "ptrs_ok (user_key (parsed y)) c"
  shows "\<exists>st' ps. drop_entry Compare snap (fst y) (st, c) = (hidden Compare snap (set (xs @ y # ys)) y \<or> obsolete Compare snap (c_level c) (input_version c) y, st', c\<lparr>level_ptrs := ps\<rparr>) \<and>
    key_state_ok (xs @ [y]) st' \<and> ptrs_ok (user_key (parsed y)) (c\<lparr>level_ptrs := ps\<rparr>)"
proof -
  let ?u = "user_key (parsed y)" and ?h = "hidden Compare snap (set (xs @ y # ys)) y"
  have el: "legal (user_key (parsed x)) \<and> ParseInternalKey (fst x) \<noteq> None" if "x \<in> set (xs @ [y])" for x using items_okD [OF ok, of x] that by auto
  define st1 where "st1 = (if current_user_key st = None \<or> Compare ?u (the (current_user_key st)) \<noteq> 0
    then \<lparr>current_user_key = Some ?u, last_sequence_for_key = kMaxSequenceNumber\<rparr> else st)"
  have h: "last_sequence_for_key st1 \<le> snap \<longleftrightarrow> ?h" and st1: "\<exists>u. current_user_key st1 = Some u \<and> legal u \<and> Compare u ?u = 0"
  proof -
    have "(last_sequence_for_key st1 \<le> snap \<longleftrightarrow> ?h) \<and> (\<exists>u. current_user_key st1 = Some u \<and> legal u \<and> Compare u ?u = 0)"
    proof (cases "xs = []")
      case True
      then show ?thesis using st snap not_hidden_first [of y ys snap] ok el [of y] by (simp add: st1_def key_state_ok_def)
    next
      case False
      then obtain u where u: "current_user_key st = Some u" "legal u" "Compare u (user_key (parsed (last xs))) = 0" "last_sequence_for_key st = sequence (parsed (last xs))"
        using st by (auto simp: key_state_ok_def)
      have lg: "legal (user_key (parsed (last xs)))" "legal ?u" using el [of "last xs"] el [of y] False by simp_all
      have "Compare ?u u = 0 \<longleftrightarrow> Compare ?u (user_key (parsed (last xs))) = 0"
        using compare_cong(2) [OF u(2) lg u(3)] compare_0_sym [OF lg(2) u(2)] compare_0_sym [OF lg(2,1)] by blast
      then show ?thesis using hidden_prev [OF ok False, of snap] u snap lg(2) compare_0_sym [OF lg(2) u(2)] by (auto simp: st1_def)
    qed
    then show "last_sequence_for_key st1 \<le> snap \<longleftrightarrow> ?h" "\<exists>u. current_user_key st1 = Some u \<and> legal u \<and> Compare u ?u = 0" by blast+
  qed
  have parse: "ParseInternalKey (fst y) \<noteq> None" "legal ?u" using el [of y] by simp_all
  obtain ps where b: "IsBaseLevelForKey Compare ?u c = (base_for Compare (c_level c) (input_version c) ?u, c\<lparr>level_ptrs := ps\<rparr>)" "ptrs_ok ?u (c\<lparr>level_ptrs := ps\<rparr>)"
    using IsBaseLevelForKey_spec [OF p v parse(2)] by blast
  have same: "c\<lparr>level_ptrs := level_ptrs c\<rparr> = c" by simp
  have "key_state_ok (xs @ [y]) (st1\<lparr>last_sequence_for_key := sequence (parsed y)\<rparr>)" using st1 by (simp add: key_state_ok_def)
  moreover have "\<exists>ps. drop_entry Compare snap (fst y) (st, c) = (?h \<or> obsolete Compare snap (c_level c) (input_version c) y, st1\<lparr>last_sequence_for_key := sequence (parsed y)\<rparr>, c\<lparr>level_ptrs := ps\<rparr>) \<and> ptrs_ok ?u (c\<lparr>level_ptrs := ps\<rparr>)"
  proof (cases "\<not> ?h \<and> vtype (parsed y) = kTypeDeletion \<and> sequence (parsed y) \<le> snap")
    case True
    then show ?thesis unfolding drop_entry_eq [OF parse(1)] st1_def [symmetric] Let_def h using b by (intro exI [of _ ps]) (simp add: obsolete_def)
  next
    case False
    then show ?thesis unfolding drop_entry_eq [OF parse(1)] st1_def [symmetric] Let_def h using p by (intro exI [of _ "level_ptrs c"]) (auto simp: obsolete_def)
  qed
  ultimately show ?thesis by blast
qed

lemma compact_entries_spec:
  assumes "items_ok legal Compare (xs @ ys)" and "snap < kMaxSequenceNumber" and "version_ok legal Compare (input_version c)" and "key_state_ok xs st" and "ys \<noteq> [] \<Longrightarrow> ptrs_ok (user_key (parsed (hd ys))) c"
  shows "compact_entries Compare snap ys (st, c) = filter (\<lambda>x. \<not> hidden Compare snap (set (xs @ ys)) x \<and> \<not> obsolete Compare snap (c_level c) (input_version c) x) ys"
  using assms
proof (induction ys arbitrary: xs st c)
  case (Cons y ys)
  obtain st' ps where d: "drop_entry Compare snap (fst y) (st, c) = (hidden Compare snap (set (xs @ y # ys)) y \<or> obsolete Compare snap (c_level c) (input_version c) y, st', c\<lparr>level_ptrs := ps\<rparr>)"
    "key_state_ok (xs @ [y]) st'" "ptrs_ok (user_key (parsed y)) (c\<lparr>level_ptrs := ps\<rparr>)" using drop_entry_spec [OF Cons.prems(1-4)] Cons.prems(5) by auto
  have "ptrs_ok (user_key (parsed (hd ys))) (c\<lparr>level_ptrs := ps\<rparr>)" if ne: "ys \<noteq> []"
  proof -
    have el: "legal (user_key (parsed x)) \<and> user_key (parsed x) = ExtractUserKey (fst x)" if "x \<in> set (y # ys)" for x using items_okD [OF Cons.prems(1), of x] that by auto
    have "ICompare Compare (fst y) (fst (hd ys)) < 0" using Cons.prems(1) ne by (auto simp: items_ok_def sorted_wrt_append)
    then have "Compare (user_key (parsed y)) (user_key (parsed (hd ys))) \<le> 0" using el [of y] el [of "hd ys"] ne by (auto simp: icompare_less)
    then show ?thesis using ptrs_ok_mono [OF d(3), of "user_key (parsed (hd ys))"] Cons.prems(3) conjunct1 [OF el [of y]] conjunct1 [OF el [of "hd ys"]] ne by simp
  qed
  then have "compact_entries Compare snap ys (st', c\<lparr>level_ptrs := ps\<rparr>) = filter (\<lambda>x. \<not> hidden Compare snap (set (xs @ y # ys)) x \<and> \<not> obsolete Compare snap (c_level c) (input_version c) x) ys"
    using Cons.IH [of "xs @ [y]" "c\<lparr>level_ptrs := ps\<rparr>" st'] Cons.prems(1-3) d(2) by simp
  then show ?case using d(1) by simp
qed simp

end

end
