(* ===== verification/CompactionsCorrect.thy ===== *)
theory CompactionsCorrect
  imports Compactions
begin

text \<open>
  Compactions do not change what reads see: the choice of the inputs by \<open>PickCompaction\<close> and \<open>CompactRange\<close> and the decision which entries are dropped, together. One assumption is
  needed that the code does not establish: no user key has entries in two files of one level above 0. The last section shows a version with such a key where a compaction brings a
  deleted value back.
\<close>

section \<open>Specification\<close>

text \<open>A read of a user key at a sequence number gives a value.\<close>

definition reads :: "(slice \<Rightarrow> slice \<Rightarrow> int) \<Rightarrow> slice \<Rightarrow> u64 \<Rightarrow> (slice \<times> slice) set \<Rightarrow> slice \<Rightarrow> bool" where
  "reads ucmp u s E val \<longleftrightarrow> (\<exists>x. newest_entry ucmp u s E x \<and> vtype (parsed x) = kTypeValue \<and> snd x = val)"

text \<open>The entries of the inputs of a compaction, and those of all other files of its version.\<close>

definition file_entries :: "(u64 \<Rightarrow> (slice \<times> slice) list) \<Rightarrow> FileMetaData set \<Rightarrow> (slice \<times> slice) set" where
  "file_entries content fs = (\<Union>f\<in>fs. set (content (number f)))"

definition input_files :: "Compaction \<Rightarrow> nat \<Rightarrow> FileMetaData set" where
  "input_files c level = (if level = c_level c then set (inputs0 c) else if level = c_level c + 1 then set (inputs1 c) else {})"

definition other_entries :: "(u64 \<Rightarrow> (slice \<times> slice) list) \<Rightarrow> Compaction \<Rightarrow> (slice \<times> slice) set" where
  "other_entries content c = (\<Union>level<kNumLevels. file_entries content (set (v_files (input_version c) ! level) - input_files c level))"

text \<open>
  A compaction of the sorted entries of its inputs that keeps the sequence number \<open>snap\<close> and later ones readable: the reads from the files of the version give the same as those from the entries
  that it keeps and the other files.
\<close>

definition keeps_view :: "(slice \<Rightarrow> bool) \<Rightarrow> (slice \<Rightarrow> slice \<Rightarrow> int) \<Rightarrow> (u64 \<Rightarrow> (slice \<times> slice) list) \<Rightarrow> u64 \<Rightarrow> Compaction \<Rightarrow> bool" where
  "keeps_view legal ucmp content snap c \<longleftrightarrow>
     (\<forall>items. items_ok legal ucmp items \<and> set items = file_entries content (set (inputs0 c) \<union> set (inputs1 c)) \<longrightarrow>
        (\<forall>u s val. legal u \<and> snap \<le> s \<longrightarrow>
           reads ucmp u s (version_entries content (input_version c)) val = reads ucmp u s (set (compact_entries ucmp snap items (init_key_state, c)) \<union> other_entries content c) val))"

text \<open>No user key is in two files of the level.\<close>

definition whole_keys :: "(slice \<Rightarrow> slice \<Rightarrow> int) \<Rightarrow> FileMetaData list \<Rightarrow> bool" where
  "whole_keys ucmp files \<longleftrightarrow> sorted_wrt (\<lambda>f g. ucmp (ExtractUserKey (largest f)) (ExtractUserKey (smallest g)) < 0) files"

text \<open>
  The versions of the property: the data are well-formed and newer in lower levels. In the second definition the files of the levels above 0 share no user keys.
\<close>

definition ordered_version :: "(slice \<Rightarrow> bool) \<Rightarrow> (slice \<Rightarrow> slice \<Rightarrow> int) \<Rightarrow> (u64 \<Rightarrow> (slice \<times> slice) list) \<Rightarrow> Version \<Rightarrow> bool" where
  "ordered_version legal ucmp content v \<longleftrightarrow> version_ok legal ucmp v \<and> (\<forall>l<kNumLevels. \<forall>f\<in>set (v_files v ! l). content_ok legal ucmp content f) \<and>
     levels_ordered ucmp content v \<and> unique_entries ucmp (version_entries content v)"

definition whole_version :: "(slice \<Rightarrow> slice \<Rightarrow> int) \<Rightarrow> Version \<Rightarrow> bool" where
  "whole_version ucmp v \<longleftrightarrow> (\<forall>l<kNumLevels. 0 < l \<longrightarrow> whole_keys ucmp (v_files v ! l))"

text \<open>What the choice of the inputs provides.\<close>

definition overlapping :: "(slice \<Rightarrow> slice \<Rightarrow> int) \<Rightarrow> FileMetaData \<Rightarrow> FileMetaData \<Rightarrow> bool" where
  "overlapping ucmp f g \<longleftrightarrow> within ucmp (Some (ExtractUserKey (smallest f))) (Some (ExtractUserKey (largest f))) g"

definition closed_inputs :: "(slice \<Rightarrow> slice \<Rightarrow> int) \<Rightarrow> Compaction \<Rightarrow> bool" where
  "closed_inputs ucmp c \<longleftrightarrow>
     c_level c + 1 < kNumLevels \<and> inputs0 c \<noteq> [] \<and> set (inputs0 c) \<subseteq> set (v_files (input_version c) ! c_level c) \<and>
     (c_level c = 0 \<longrightarrow> (\<forall>f\<in>set (inputs0 c). \<forall>g\<in>set (v_files (input_version c) ! 0). overlapping ucmp f g \<longrightarrow> g \<in> set (inputs0 c)))"

definition inputs_ok :: "(slice \<Rightarrow> slice \<Rightarrow> int) \<Rightarrow> Compaction \<Rightarrow> bool" where
  "inputs_ok ucmp c \<longleftrightarrow>
     closed_inputs ucmp c \<and> set (inputs1 c) \<subseteq> set (v_files (input_version c) ! (c_level c + 1)) \<and>
     (\<forall>f\<in>set (inputs0 c). \<forall>g\<in>set (v_files (input_version c) ! (c_level c + 1)). overlapping ucmp f g \<longrightarrow> g \<in> set (inputs1 c)) \<and>
     level_ptrs c = replicate kNumLevels 0"

context comparator
begin

section \<open>Entries that are dropped\<close>

lemma hidden_newer:
  assumes "hidden Compare snap I x" and "candidate Compare u s x" and "snap \<le> s" and "\<forall>y\<in>I. legal (user_key (parsed y))" and "x \<in> I" and "legal u"
  shows "\<exists>z\<in>I. candidate Compare u s z \<and> sequence (parsed x) < sequence (parsed z)"
proof -
  obtain z where z: "z \<in> I" "Compare (user_key (parsed z)) (user_key (parsed x)) = 0" "sequence (parsed x) < sequence (parsed z)" "sequence (parsed z) \<le> snap" using assms(1) by (auto simp: hidden_def)
  then have "Compare (user_key (parsed z)) u = 0" using compare_cong(2) [OF _ _ assms(6) z(2)] assms(2,4,5) by (simp add: candidate_def)
  then show ?thesis using z assms(3) by (auto simp: candidate_def)
qed

lemma top_candidate:
  assumes "finite I" and "y \<in> I" "candidate Compare u s y" and "snap \<le> s" and "\<forall>y\<in>I. legal (user_key (parsed y))" and "legal u"
  shows "\<exists>z\<in>I. candidate Compare u s z \<and> sequence (parsed y) \<le> sequence (parsed z) \<and> \<not> hidden Compare snap I z"
proof -
  let ?C = "{z \<in> I. candidate Compare u s z}" and ?q = "\<lambda>z. sequence (parsed z)"
  have "finite (?q ` ?C)" "?q ` ?C \<noteq> {}" using assms(1-3) by (simp, blast)
  then have "Max (?q ` ?C) \<in> ?q ` ?C" by (rule Max_in)
  then obtain z where z: "z \<in> ?C" "Max (?q ` ?C) = ?q z" by blast
  have top: "?q w \<le> ?q z" if "w \<in> ?C" for w using z(2) Max_ge [of "?q ` ?C" "?q w"] assms(1) that by simp
  have "\<not> hidden Compare snap I z" using hidden_newer [OF _ _ assms(4,5) _ assms(6), of z] z(1) top by fastforce
  then show ?thesis using z(1) top [of y] assms(2,3) by blast
qed

text \<open>A read of a union of the inputs of a compaction, newer entries and entries of the levels below.\<close>

lemma dropped_unread:
  assumes items: "items_ok legal Compare items" and snap: "snap < kMaxSequenceNumber" "snap \<le> s" and v: "version_ok legal Compare (input_version c)" and p: "level_ptrs c = replicate kNumLevels 0"
    and un: "unique_entries Compare (set items \<union> (U \<union> L))" and lg: "\<forall>x\<in>U \<union> L. legal (user_key (parsed x))" "legal u"
    and U: "\<forall>x\<in>U. \<forall>y\<in>set items. Compare (user_key (parsed x)) (user_key (parsed y)) = 0 \<longrightarrow> sequence (parsed y) < sequence (parsed x)"
    and L: "\<forall>x\<in>L. \<forall>y\<in>set items. Compare (user_key (parsed x)) (user_key (parsed y)) = 0 \<longrightarrow> \<not> base_for Compare (c_level c) (input_version c) (user_key (parsed y))"
  shows "reads Compare u s (set items \<union> (U \<union> L)) val \<longleftrightarrow> reads Compare u s (set (compact_entries Compare snap items (init_key_state, c)) \<union> (U \<union> L)) val"
proof -
  let ?h = "hidden Compare snap (set items)" and ?o = "obsolete Compare snap (c_level c) (input_version c)" and ?E = "set items \<union> (U \<union> L)"
  define F where "F = set (compact_entries Compare snap items (init_key_state, c)) \<union> (U \<union> L)"
  have "ptrs_ok w c" for w using p by (simp add: ptrs_ok_def)
  then have "compact_entries Compare snap items (init_key_state, c) = filter (\<lambda>x. \<not> ?h x \<and> \<not> ?o x) items"
    using compact_entries_spec [of "[]" items snap c init_key_state] items snap(1) v by (simp add: key_state_ok_def init_key_state_def)
  then have F: "F = {x \<in> set items. \<not> ?h x \<and> \<not> ?o x} \<union> (U \<union> L)" by (auto simp: F_def)
  have lgI: "\<forall>x\<in>set items. legal (user_key (parsed x))" using items_okD [OF items] by blast
  then have lgE: "legal (user_key (parsed x))" if "x \<in> ?E" for x using lg(1) that by blast
  have same: "Compare (user_key (parsed x)) (user_key (parsed y)) = 0" if "x \<in> ?E" "y \<in> ?E" "candidate Compare u s x" "candidate Compare u s y" for x y
    using compare_cong(2) [OF lgE [OF that(1)] lg(2) lgE [OF that(2)]] compare_0_sym [OF lgE [OF that(2)] lg(2)] that(3,4) by (auto simp: candidate_def)
  have 1: "newest_entry Compare u s F x" if x: "newest_entry Compare u s ?E x" "vtype (parsed x) = kTypeValue" for x
  proof -
    have "\<not> (x \<in> set items \<and> ?h x)" using hidden_newer [OF _ _ snap(2) lgI _ lg(2), of x] x(1) by (fastforce simp: newest_entry_def)
    then show ?thesis using x unfolding F by (auto simp: newest_entry_def obsolete_def)
  qed
  have 2: "newest_entry Compare u s ?E x" if x: "newest_entry Compare u s F x" "vtype (parsed x) = kTypeValue" for x
  proof (rule ccontr)
    assume "\<not> newest_entry Compare u s ?E x"
    then obtain y where y: "y \<in> ?E" "candidate Compare u s y" "y \<noteq> x" "\<not> sequence (parsed y) < sequence (parsed x)" using x(1) unfolding F newest_entry_def by blast
    have xE: "x \<in> ?E" "candidate Compare u s x" and xt: "\<And>w. w \<in> F \<Longrightarrow> candidate Compare u s w \<Longrightarrow> w \<noteq> x \<Longrightarrow> sequence (parsed w) < sequence (parsed x)" using x(1) unfolding F newest_entry_def by blast+
    have "y \<in> set items" using y xt unfolding F by blast
    moreover have "sequence (parsed x) \<noteq> sequence (parsed y)" using un same [OF xE(1) y(1) xE(2) y(2)] xE(1) y(1,3) unfolding unique_entries_def by blast
    ultimately obtain z where z: "z \<in> set items" "candidate Compare u s z" "sequence (parsed x) < sequence (parsed z)" "\<not> ?h z"
      using top_candidate [OF _ _ y(2) snap(2) lgI lg(2)] y(4) by fastforce
    then have o: "?o z" using xt [of z] unfolding F by fastforce
    have xz: "Compare (user_key (parsed x)) (user_key (parsed z)) = 0" "Compare (user_key (parsed z)) (user_key (parsed x)) = 0" using same xE z by blast+
    consider "x \<in> set items" "\<not> ?h x" | "x \<in> U" | "x \<in> L" using x(1) unfolding F newest_entry_def by blast
    then show False
    proof cases
      case 1
      then show False using z o xz(2) by (auto simp: hidden_def obsolete_def)
    next
      case 2
      then show False using U z(1,3) xz(1) by fastforce
    next
      case 3
      then show False using L z(1) o xz(1) by (auto simp: obsolete_def)
    qed
  qed
  show ?thesis unfolding F_def [symmetric] reads_def using 1 2 by blast
qed

section \<open>The choice of the inputs\<close>

lemma widen_spec:
  assumes "\<forall>f\<in>set fs. file_ok legal Compare f" and "ilegal lo" "ilegal hi"
  shows "\<exists>lo' hi'. widen Compare fs (lo, hi) = (lo', hi') \<and> ilegal lo' \<and> ilegal hi' \<and> ICompare Compare lo' lo \<le> 0 \<and> ICompare Compare hi hi' \<le> 0 \<and>
    (\<forall>f\<in>set fs. ICompare Compare lo' (smallest f) \<le> 0 \<and> ICompare Compare (largest f) hi' \<le> 0)"
  using assms
proof (induction fs arbitrary: lo hi)
  case (Cons f fs)
  note F = file_okD [of f] and T = three_way.compare_trans [OF ithree] and Fl = three_way.compare_flip [OF ithree] and R = three_way.compare_refl [OF ithree]
  let ?lo = "if ICompare Compare (smallest f) lo < 0 then smallest f else lo" and ?hi = "if ICompare Compare (largest f) hi > 0 then largest f else hi"
  have f: "ilegal (smallest f)" "ilegal (largest f)" using Cons.prems(1) F by auto
  have l: "ilegal ?lo" "ICompare Compare ?lo lo \<le> 0" "ICompare Compare ?lo (smallest f) \<le> 0" using f Cons.prems(2) Fl [of "smallest f" lo] Fl [of lo "smallest f"] R by auto
  have h: "ilegal ?hi" "ICompare Compare hi ?hi \<le> 0" "ICompare Compare (largest f) ?hi \<le> 0" using f Cons.prems(3) Fl [of "largest f" hi] Fl [of hi "largest f"] R by auto
  obtain lo' hi' where w: "widen Compare fs (?lo, ?hi) = (lo', hi')" "ilegal lo'" "ilegal hi'" "ICompare Compare lo' ?lo \<le> 0" "ICompare Compare ?hi hi' \<le> 0"
    "\<forall>f\<in>set fs. ICompare Compare lo' (smallest f) \<le> 0 \<and> ICompare Compare (largest f) hi' \<le> 0" using Cons.IH [OF _ l(1) h(1)] Cons.prems(1) by auto
  have "ICompare Compare lo' lo \<le> 0" "ICompare Compare lo' (smallest f) \<le> 0" using T [OF w(2) l(1) Cons.prems(2) w(4) l(2)] T [OF w(2) l(1) f(1) w(4) l(3)] .
  moreover have "ICompare Compare hi hi' \<le> 0" "ICompare Compare (largest f) hi' \<le> 0" using T [OF Cons.prems(3) h(1) w(3) h(2) w(5)] T [OF f(2) h(1) w(3) h(3) w(5)] .
  ultimately show ?case using w by simp
qed (use three_way.compare_refl [OF ithree] in simp)

lemma GetRange_spec:
  assumes "\<forall>f\<in>set fs. file_ok legal Compare f" and "fs \<noteq> []"
  shows "\<exists>lo hi. GetRange Compare fs = Some (lo, hi) \<and> legal (ExtractUserKey lo) \<and> legal (ExtractUserKey hi) \<and>
    (\<forall>f\<in>set fs. Compare (ExtractUserKey lo) (fstart f) \<le> 0 \<and> Compare (flimit f) (ExtractUserKey hi) \<le> 0)"
proof (cases fs)
  case (Cons f gs)
  have f: "ilegal (smallest f)" "ilegal (largest f)" "\<forall>f\<in>set gs. file_ok legal Compare f" using assms(1) file_okD [of f] Cons by auto
  obtain lo hi where w: "widen Compare gs (smallest f, largest f) = (lo, hi)" "ilegal lo" "ilegal hi" "ICompare Compare lo (smallest f) \<le> 0" "ICompare Compare (largest f) hi \<le> 0"
    "\<forall>f\<in>set gs. ICompare Compare lo (smallest f) \<le> 0 \<and> ICompare Compare (largest f) hi \<le> 0" using widen_spec [OF f(3,1,2)] by blast
  have "Compare (ExtractUserKey a) (ExtractUserKey b) \<le> 0" if "ICompare Compare a b \<le> 0" for a b using that by (auto simp: icompare_le)
  then show ?thesis using w Cons by (intro exI [of _ lo] exI [of _ hi]) (auto simp: GetRange_def ilegal_def)
qed (use assms in simp)

text \<open>A file that overlaps one of the files of a range is within the range.\<close>

lemma overlapping_within:
  assumes "file_ok legal Compare f" "file_ok legal Compare g" and "overlapping Compare f g" and "legal lo" "legal hi" and "Compare lo (fstart f) \<le> 0" "Compare (flimit f) hi \<le> 0"
  shows "within Compare (Some lo) (Some hi) g"
  by (rule within_mono [OF assms(2) assms(3) [unfolded overlapping_def]]) (use assms file_okD [OF assms(1)] in auto)

lemma chosen_inputs:
  assumes v: "version_ok legal Compare v" and l: "level < kNumLevels" and k: "\<forall>k\<in>set_option lo \<union> set_option hi. legal (ExtractUserKey k)"
  shows "\<exists>gs. GetOverlappingInputs Compare v level lo hi = Some gs \<and> set gs \<subseteq> set (v_files v ! level) \<and>
    (\<forall>g\<in>set (v_files v ! level). within Compare (map_option ExtractUserKey lo) (map_option ExtractUserKey hi) g \<longrightarrow> g \<in> set gs) \<and>
    (level = 0 \<longrightarrow> (\<forall>f\<in>set gs. \<forall>g\<in>set (v_files v ! 0). overlapping Compare f g \<longrightarrow> g \<in> set gs))"
proof -
  note G = GetOverlappingInputs_spec [OF v l k]
  show ?thesis unfolding G using linked_range [of _ "v_files v ! level"] linked_file [of Compare "v_files v ! level"] by (cases "level = 0") (auto simp: overlapping_def)
qed

lemma input_files_ok:
  assumes "version_ok legal Compare v" and "set fs \<subseteq> set (v_files v ! level)" and "level < kNumLevels"
  shows "\<forall>f\<in>set fs. file_ok legal Compare f"
  using version_okD(1) [OF assms(1,3)] assms(2) by blast

text \<open>The files of the next level that the range of the inputs gives.\<close>

lemma parents:
  assumes v: "version_ok legal Compare v" and c: "fs \<noteq> []" "set fs \<subseteq> set (v_files v ! level)" and l: "level + 1 < kNumLevels"
  shows "\<exists>lo hi in1. GetRange Compare fs = Some (lo, hi) \<and> GetOverlappingInputs Compare v (level + 1) (Some lo) (Some hi) = Some in1 \<and>
    set in1 \<subseteq> set (v_files v ! (level + 1)) \<and> (\<forall>f\<in>set fs. \<forall>g\<in>set (v_files v ! (level + 1)). overlapping Compare f g \<longrightarrow> g \<in> set in1)"
proof -
  have ok: "\<forall>f\<in>set fs. file_ok legal Compare f" using input_files_ok [OF v c(2)] l by simp
  obtain lo hi where r: "GetRange Compare fs = Some (lo, hi)" "legal (ExtractUserKey lo)" "legal (ExtractUserKey hi)"
    "\<forall>f\<in>set fs. Compare (ExtractUserKey lo) (fstart f) \<le> 0 \<and> Compare (flimit f) (ExtractUserKey hi) \<le> 0" using GetRange_spec [OF ok c(1)] by blast
  obtain gs where g: "GetOverlappingInputs Compare v (level + 1) (Some lo) (Some hi) = Some gs" "set gs \<subseteq> set (v_files v ! (level + 1))"
    "\<forall>g\<in>set (v_files v ! (level + 1)). within Compare (Some (ExtractUserKey lo)) (Some (ExtractUserKey hi)) g \<longrightarrow> g \<in> set gs"
    using chosen_inputs [OF v l, of "Some lo" "Some hi"] r(2,3) by auto
  have "g \<in> set gs" if "f \<in> set fs" "g \<in> set (v_files v ! (level + 1))" "overlapping Compare f g" for f g
    using overlapping_within [of f g "ExtractUserKey lo" "ExtractUserKey hi"] ok version_okD(1) [OF v l] that r(2-4) g(3) by blast
  then show ?thesis using r(1) g(1,2) by blast
qed

lemma range2_legal:
  assumes v: "version_ok legal Compare v" and c: "fs \<noteq> []" "set fs \<subseteq> set (v_files v ! level)" "set gs \<subseteq> set (v_files v ! (level + 1))" and l: "level + 1 < kNumLevels"
  shows "\<exists>lo hi. GetRange2 Compare fs gs = Some (lo, hi) \<and> legal (ExtractUserKey lo) \<and> legal (ExtractUserKey hi)"
proof -
  have "\<forall>f\<in>set (fs @ gs). file_ok legal Compare f" using input_files_ok [OF v c(2)] input_files_ok [OF v c(3)] l by auto
  then show ?thesis unfolding GetRange2_def using GetRange_spec [of "fs @ gs"] c(1) by blast
qed

lemma expand_inputs_spec:
  assumes v: "version_ok legal Compare (vs_current vs)" "input_version c = vs_current vs" and c: "inputs_ok Compare c" and a: "legal (ExtractUserKey (fst bounds))" "legal (ExtractUserKey (snd bounds))"
  shows "\<exists>c' hi' bounds'. expand_inputs Compare vs c hi bounds = Some (c', hi', bounds') \<and> inputs_ok Compare c' \<and> input_version c' = vs_current vs \<and> c_level c' = c_level c \<and>
    legal (ExtractUserKey (fst bounds')) \<and> legal (ExtractUserKey (snd bounds'))"
proof -
  let ?v = "vs_current vs" and ?l = "c_level c"
  have l: "?l + 1 < kNumLevels" using c by (simp add: inputs_ok_def closed_inputs_def)
  obtain e0 where e0: "GetOverlappingInputs Compare ?v ?l (Some (fst bounds)) (Some (snd bounds)) = Some e0" "set e0 \<subseteq> set (v_files ?v ! ?l)"
    "?l = 0 \<longrightarrow> (\<forall>f\<in>set e0. \<forall>g\<in>set (v_files ?v ! 0). overlapping Compare f g \<longrightarrow> g \<in> set e0)" using chosen_inputs [OF v(1), of ?l "Some (fst bounds)" "Some (snd bounds)"] a l by auto
  show ?thesis
  proof (cases "inputs1 c = [] \<or> \<not> (length e0 > length (inputs0 c) \<and> TotalFileSize (inputs1 c) + TotalFileSize e0 < ExpandedCompactionByteSizeLimit (vs_max_file_size vs))")
    case True
    then have "expand_inputs Compare vs c hi bounds = Some (c, hi, bounds)" using e0(1) by (auto simp: expand_inputs_def)
    then show ?thesis using c v(2) a by blast
  next
    case False
    then have "e0 \<noteq> []" by auto
    then obtain lo hi' e1 where e1: "GetRange Compare e0 = Some (lo, hi')" "GetOverlappingInputs Compare ?v (?l + 1) (Some lo) (Some hi') = Some e1" "set e1 \<subseteq> set (v_files ?v ! (?l + 1))"
      "\<forall>f\<in>set e0. \<forall>g\<in>set (v_files ?v ! (?l + 1)). overlapping Compare f g \<longrightarrow> g \<in> set e1" using parents [OF v(1) _ e0(2) l] by blast
    obtain b1 b2 where b: "GetRange2 Compare e0 e1 = Some (b1, b2)" "legal (ExtractUserKey b1)" "legal (ExtractUserKey b2)" using range2_legal [OF v(1) \<open>e0 \<noteq> []\<close> e0(2) e1(3) l] by blast
    have "inputs_ok Compare (c\<lparr>inputs0 := e0, inputs1 := e1\<rparr>)" using c v(2) e0(2,3) e1(3,4) \<open>e0 \<noteq> []\<close> by (simp add: inputs_ok_def closed_inputs_def)
    moreover have "expand_inputs Compare vs c hi bounds = (if length e1 = length (inputs1 c) then Some (c\<lparr>inputs0 := e0, inputs1 := e1\<rparr>, hi', b1, b2) else Some (c, hi, bounds))"
      using False e0(1) e1(1,2) b(1) by (simp add: expand_inputs_def)
    ultimately show ?thesis using c v(2) a b(2,3) by (cases "length e1 = length (inputs1 c)") simp_all
  qed
qed

lemma SetupOtherInputs_spec:
  assumes v: "version_ok legal Compare (vs_current vs)" "input_version c = vs_current vs" and c: "closed_inputs Compare c" and p: "level_ptrs c = replicate kNumLevels 0"
  shows "\<exists>c' vs'. SetupOtherInputs Compare vs c = Some (c', vs') \<and> inputs_ok Compare c' \<and> input_version c' = vs_current vs"
proof -
  let ?v = "vs_current vs" and ?l = "c_level c"
  have l: "?l + 1 < kNumLevels" "inputs0 c \<noteq> []" "set (inputs0 c) \<subseteq> set (v_files ?v ! ?l)" using c v(2) by (auto simp: closed_inputs_def)
  obtain lo hi in1 where i: "GetRange Compare (inputs0 c) = Some (lo, hi)" "GetOverlappingInputs Compare ?v (?l + 1) (Some lo) (Some hi) = Some in1" "set in1 \<subseteq> set (v_files ?v ! (?l + 1))"
    "\<forall>f\<in>set (inputs0 c). \<forall>g\<in>set (v_files ?v ! (?l + 1)). overlapping Compare f g \<longrightarrow> g \<in> set in1" using parents [OF v(1) l(2,3,1)] by blast
  obtain b1 b2 where b: "GetRange2 Compare (inputs0 c) in1 = Some (b1, b2)" "legal (ExtractUserKey b1)" "legal (ExtractUserKey b2)" using range2_legal [OF v(1) l(2,3) i(3) l(1)] by blast
  have "inputs_ok Compare (c\<lparr>inputs1 := in1\<rparr>)" using c v(2) i(3,4) p by (simp add: inputs_ok_def closed_inputs_def)
  then obtain c' hi' bs where e: "expand_inputs Compare vs (c\<lparr>inputs1 := in1\<rparr>) hi (b1, b2) = Some (c', hi', bs)" "inputs_ok Compare c'" "input_version c' = ?v" "c_level c' = ?l"
    "legal (ExtractUserKey (fst bs))" "legal (ExtractUserKey (snd bs))" using expand_inputs_spec [OF v(1), of "c\<lparr>inputs1 := in1\<rparr>" "(b1, b2)" hi] b(2,3) v(2) by auto
  have "\<exists>gs. GetOverlappingInputs Compare ?v (?l + 2) (Some (fst bs)) (Some (snd bs)) = Some gs" if "?l + 2 < kNumLevels"
    using chosen_inputs [OF v(1) that, of "Some (fst bs)" "Some (snd bs)"] e(5,6) by auto
  then obtain gps where g: "(if ?l + 2 < kNumLevels then GetOverlappingInputs Compare ?v (?l + 2) (Some (fst bs)) (Some (snd bs)) else Some (grandparents c')) = Some gps" by metis
  have "SetupOtherInputs Compare vs c = Some (c'\<lparr>grandparents := gps, c_edit := SetCompactPointer ?l hi' (c_edit c')\<rparr>, vs\<lparr>compact_pointer := (compact_pointer vs)[?l := hi']\<rparr>)"
    unfolding SetupOtherInputs_def using i(1,2) b(1) e(1,4) g by (cases "?l + 2 < kNumLevels") simp_all
  then show ?thesis using e(2,3) by (auto simp: inputs_ok_def closed_inputs_def)
qed

lemma find_in: "find P xs = Some x \<Longrightarrow> x \<in> set xs"
  by (auto simp: find_Some_iff)

lemma pick_file_in: "files \<noteq> [] \<Longrightarrow> \<exists>f\<in>set files. pick_file ucmp ptr files = Some f"
  by (auto simp: pick_file_def neq_Nil_conv simp del: find.simps split: option.split dest: find_in)

lemma PickCompaction_spec:
  assumes v: "version_ok legal Compare (vs_current vs)" and sl: "\<forall>l\<in>set_option size_level. l + 1 < kNumLevels \<and> v_files (vs_current vs) ! l \<noteq> []"
    and fc: "\<forall>f\<in>set_option (file_to_compact (vs_current vs)). let l = nat (file_to_compact_level (vs_current vs)) in l + 1 < kNumLevels \<and> f \<in> set (v_files (vs_current vs) ! l)"
  shows "\<exists>co vs'. PickCompaction Compare size_level vs = Some (co, vs') \<and> (co = None \<longleftrightarrow> size_level = None \<and> file_to_compact (vs_current vs) = None) \<and> (\<forall>c\<in>set_option co. inputs_ok Compare c \<and> input_version c = vs_current vs)"
proof -
  let ?v = "vs_current vs"
  obtain picked where p: "pick_input Compare size_level vs = Some picked" "picked = None \<longleftrightarrow> size_level = None \<and> file_to_compact ?v = None" "\<forall>(l, f)\<in>set_option picked. l + 1 < kNumLevels \<and> f \<in> set (v_files ?v ! l)"
  proof (cases size_level)
    case None
    then show thesis using that [of "map_option (\<lambda>f. (nat (file_to_compact_level ?v), f)) (file_to_compact ?v)"] fc by (auto simp: pick_input_def Let_def)
  next
    case (Some l)
    then have "l + 1 < kNumLevels" "v_files ?v ! l \<noteq> []" using sl by auto
    moreover from this obtain f where "pick_file Compare (compact_pointer vs ! l) (v_files ?v ! l) = Some f" "f \<in> set (v_files ?v ! l)" using pick_file_in by metis
    ultimately show thesis using that [of "Some (l, f)"] Some by (auto simp: pick_input_def)
  qed
  show ?thesis
  proof (cases picked)
    case None
    then show ?thesis using p(1,2) by (simp add: PickCompaction_def)
  next
    case (Some lf)
    obtain l f where lf: "lf = (l, f)" by fastforce
    have l: "l + 1 < kNumLevels" and f: "f \<in> set (v_files ?v ! l)" using p(3) Some lf by auto
    have fok: "file_ok legal Compare f" using version_okD(1) [OF v, of l] l f by auto
    obtain in0 where i: "(if l = 0 then do { (lo, hi) \<leftarrow> GetRange Compare [f]; in0 \<leftarrow> GetOverlappingInputs Compare ?v 0 (Some lo) (Some hi); if in0 = [] then None else Some in0 } else Some [f]) = Some in0"
      "in0 \<noteq> []" "set in0 \<subseteq> set (v_files ?v ! l)" "l = 0 \<longrightarrow> (\<forall>f\<in>set in0. \<forall>g\<in>set (v_files ?v ! 0). overlapping Compare f g \<longrightarrow> g \<in> set in0)"
    proof (cases "l = 0")
      case True
      obtain gs where g: "GetOverlappingInputs Compare ?v 0 (Some (smallest f)) (Some (largest f)) = Some gs" "set gs \<subseteq> set (v_files ?v ! 0)"
        "\<forall>g\<in>set (v_files ?v ! 0). overlapping Compare f g \<longrightarrow> g \<in> set gs" "\<forall>f\<in>set gs. \<forall>g\<in>set (v_files ?v ! 0). overlapping Compare f g \<longrightarrow> g \<in> set gs"
        using chosen_inputs [OF v, of 0 "Some (smallest f)" "Some (largest f)"] file_okD(3,4) [OF fok] l by (auto simp: overlapping_def)
      have "overlapping Compare f f" using file_okD [OF fok] compare_flip [of "fstart f" "flimit f"] by (auto simp: overlapping_def within_def)
      then have "gs \<noteq> []" using g(3) f True by auto
      then show thesis using that [of gs] g True by (simp add: GetRange_def)
    qed (use that [of "[f]"] f in simp)
    let ?c = "(mk_Compaction (vs_max_file_size vs) l ?v)\<lparr>inputs0 := in0\<rparr>"
    have "closed_inputs Compare ?c" "input_version ?c = ?v" "level_ptrs ?c = replicate kNumLevels 0" using i(2-4) l by (simp_all add: closed_inputs_def mk_Compaction_def)
    then obtain c vs' where "SetupOtherInputs Compare vs ?c = Some (c, vs')" "inputs_ok Compare c" "input_version c = ?v" using SetupOtherInputs_spec [OF v] by blast
    then show ?thesis using p(1,2) Some lf i(1) by (simp add: PickCompaction_def)
  qed
qed

lemma limit_inputs_sub: "set (limit_inputs limit t fs) \<subseteq> set fs" "fs \<noteq> [] \<Longrightarrow> limit_inputs limit t fs \<noteq> []"
  by (induction fs arbitrary: t) (auto simp: Let_def)

lemma CompactRange_spec:
  assumes v: "version_ok legal Compare (vs_current vs)" and l: "level + 1 < kNumLevels" and k: "\<forall>k\<in>set_option lo \<union> set_option hi. legal (ExtractUserKey k)"
  shows "\<exists>co vs'. CompactRange Compare level lo hi vs = Some (co, vs') \<and>
    (co = None \<longrightarrow> (\<forall>f\<in>set (v_files (vs_current vs) ! level). \<not> within Compare (map_option ExtractUserKey lo) (map_option ExtractUserKey hi) f)) \<and> (\<forall>c\<in>set_option co. inputs_ok Compare c \<and> input_version c = vs_current vs)"
proof -
  let ?v = "vs_current vs"
  obtain gs where g: "GetOverlappingInputs Compare ?v level lo hi = Some gs" "set gs \<subseteq> set (v_files ?v ! level)"
    "\<forall>f\<in>set (v_files ?v ! level). within Compare (map_option ExtractUserKey lo) (map_option ExtractUserKey hi) f \<longrightarrow> f \<in> set gs"
    "level = 0 \<longrightarrow> (\<forall>f\<in>set gs. \<forall>g\<in>set (v_files ?v ! 0). overlapping Compare f g \<longrightarrow> g \<in> set gs)" using chosen_inputs [OF v, of level lo hi] l k by auto
  show ?thesis
  proof (cases "gs = []")
    case False
    define fs where "fs = (if level > 0 then limit_inputs (MaxFileSizeForLevel (vs_max_file_size vs) level) 0 gs else gs)"
    let ?c = "(mk_Compaction (vs_max_file_size vs) level ?v)\<lparr>inputs0 := fs\<rparr>"
    have "fs \<noteq> []" "set fs \<subseteq> set gs" using limit_inputs_sub False by (auto simp: fs_def)
    then have "closed_inputs Compare ?c" "input_version ?c = ?v" "level_ptrs ?c = replicate kNumLevels 0" using g(2,4) l by (auto simp: closed_inputs_def mk_Compaction_def fs_def)
    then obtain c vs' where "SetupOtherInputs Compare vs ?c = Some (c, vs')" "inputs_ok Compare c" "input_version c = ?v" using SetupOtherInputs_spec [OF v] by blast
    then show ?thesis using g(1) False by (simp add: CompactRange_def fs_def [symmetric])
  qed (use g(1,3) in \<open>auto simp: CompactRange_def\<close>)
qed

section \<open>Reads after a compaction\<close>

lemma content_entry:
  assumes "content_ok legal Compare content f" and "x \<in> set (content (number f))"
  shows "legal (user_key (parsed x))" "Compare (fstart f) (user_key (parsed x)) \<le> 0" "Compare (user_key (parsed x)) (flimit f) \<le> 0" "legal (fstart f)" "legal (flimit f)"
proof -
  have x: "legal (ExtractUserKey (fst x))" "ParseInternalKey (fst x) \<noteq> None" using assms by (auto simp: content_ok_def Let_def)
  note u = parsed_facts(1) [OF x(2)]
  show "legal (user_key (parsed x))" "Compare (fstart f) (user_key (parsed x)) \<le> 0" "Compare (user_key (parsed x)) (flimit f) \<le> 0"
    using x content_range [OF assms] unfolding u by (auto simp: icompare_le)
  show "legal (fstart f)" "legal (flimit f)" using assms(1) hd_in_set [of "content (number f)"] last_in_set [of "content (number f)"] by (auto simp: content_ok_def Let_def)
qed

text \<open>Two files with entries of one user key overlap, and the key is in the range of both.\<close>

lemma shared_key:
  assumes "content_ok legal Compare content f" "x \<in> set (content (number f))" and "content_ok legal Compare content g" "y \<in> set (content (number g))"
    and "Compare (user_key (parsed x)) (user_key (parsed y)) = 0"
  shows "overlapping Compare g f" "in_file Compare (user_key (parsed y)) f"
proof -
  note X = content_entry [OF assms(1,2)] and Y = content_entry [OF assms(3,4)]
  have yx: "Compare (user_key (parsed y)) (user_key (parsed x)) = 0" using assms(5) compare_0_sym [OF Y(1) X(1)] by simp
  have a: "Compare (fstart f) (user_key (parsed y)) \<le> 0" "Compare (user_key (parsed y)) (flimit f) \<le> 0"
    using compare_trans [OF X(4,1) Y(1) X(2)] compare_trans [OF Y(1) X(1,5) _ X(3)] assms(5) yx by simp_all
  then have "Compare (fstart g) (flimit f) \<le> 0" "Compare (fstart f) (flimit g) \<le> 0" using compare_trans [OF Y(4,1) X(5) Y(2)] compare_trans [OF X(4) Y(1,5) _ Y(3)] by simp_all
  then show "overlapping Compare g f" using compare_flip [OF X(5) Y(4)] compare_flip [OF Y(4) X(5)] by (auto simp: overlapping_def within_def)
  show "in_file Compare (user_key (parsed y)) f" using a compare_flip [OF X(4) Y(1)] by (auto simp: in_file_def)
qed

lemma whole_keys_same:
  assumes "whole_keys Compare files" and "f \<in> set files" "g \<in> set files" and "overlapping Compare f g" and "file_ok legal Compare f" "file_ok legal Compare g"
  shows "f = g"
proof -
  obtain i j where ij: "i < length files" "f = files ! i" "j < length files" "g = files ! j" using assms(2,3) by (auto simp: in_set_conv_nth)
  note F = file_okD [OF assms(5)] and G = file_okD [OF assms(6)]
  have "\<not> Compare (flimit g) (fstart f) < 0" "\<not> Compare (flimit f) (fstart g) < 0" using assms(4) compare_flip [OF F(4) G(3)] compare_flip [OF G(3) F(4)] by (auto simp: overlapping_def within_def)
  then have "\<not> j < i" "\<not> i < j" using assms(1) ij sorted_wrt_nth_less [of _ files] unfolding whole_keys_def by blast+
  then show ?thesis using ij by simp
qed

text \<open>The files of the upper levels that are not inputs.\<close>

lemma others_newer:
  assumes v: "ordered_version legal Compare content (input_version c)" "whole_version Compare (input_version c)" and c: "inputs_ok Compare c" and f: "l < c_level c + 2" "f \<in> set (v_files (input_version c) ! l) - input_files c l" "x \<in> set (content (number f))"
    and g: "g \<in> set (inputs0 c) \<union> set (inputs1 c)" "y \<in> set (content (number g))" and xy: "Compare (user_key (parsed x)) (user_key (parsed y)) = 0"
  shows "sequence (parsed y) < sequence (parsed x)"
proof -
  let ?v = "input_version c" and ?n = "c_level c"
  have n: "?n + 1 < kNumLevels" using c by (simp add: inputs_ok_def closed_inputs_def)
  obtain m where m: "m = ?n \<and> g \<in> set (inputs0 c) \<or> m = ?n + 1 \<and> g \<in> set (inputs1 c)" "g \<in> set (v_files ?v ! m)" "m < kNumLevels"
    using g(1) c n that [of ?n] that [of "?n + 1"] by (auto simp: inputs_ok_def closed_inputs_def)
  have l: "l < kNumLevels" "f \<in> set (v_files ?v ! l)" using f n by auto
  have cf: "content_ok legal Compare content f" "content_ok legal Compare content g" and fo: "file_ok legal Compare f" "file_ok legal Compare g"
    using v l m version_okD(1) [of ?v] by (auto simp: ordered_version_def whole_version_def)
  have o: "overlapping Compare g f" using shared_key(1) [OF cf(1) f(3) cf(2) g(2) xy] .
  have "l < m"
  proof (rule ccontr)
    assume "\<not> l < m"
    then consider "l = m" "0 < m" | "l = 0" "m = 0" "?n = 0" "g \<in> set (inputs0 c)" | "l = ?n + 1" "g \<in> set (inputs0 c)" using m(1) f(1) by fastforce
    then show False
    proof cases
      case 1
      then have "g = f" using whole_keys_same [OF _ _ _ o fo(2,1)] v m l by (auto simp: ordered_version_def whole_version_def)
      then show False using f(2) 1 m(1) by (auto simp: input_files_def)
    next
      case 2
      then show False using c o l f(2) by (auto simp: inputs_ok_def closed_inputs_def input_files_def)
    next
      case 3
      then show False using c o l f(2) by (auto simp: inputs_ok_def input_files_def)
    qed
  qed
  then have "newer_file Compare content f g" using v l m unfolding ordered_version_def levels_ordered_def by blast
  then show ?thesis using f(3) g(2) xy by (auto simp: newer_file_def)
qed

lemma file_entries_split: "fs \<subseteq> set gs \<Longrightarrow> file_entries content (set gs) = file_entries content fs \<union> file_entries content (set gs - fs)"
  by (auto simp: file_entries_def)

lemma version_split:
  assumes c: "inputs_ok Compare c" and I: "E = file_entries content (set (inputs0 c) \<union> set (inputs1 c))"
  shows "version_entries content (input_version c) = E \<union> other_entries content c"
proof -
  let ?v = "input_version c" and ?n = "c_level c"
  have n: "?n + 1 < kNumLevels" and i: "set (inputs0 c) \<subseteq> set (v_files ?v ! ?n)" "set (inputs1 c) \<subseteq> set (v_files ?v ! (?n + 1))" using c by (auto simp: inputs_ok_def closed_inputs_def)
  then have "?n \<in> {..<kNumLevels}" "?n + 1 \<in> {..<kNumLevels}" "input_files c ?n = set (inputs0 c)" "input_files c (?n + 1) = set (inputs1 c)" "\<And>l. input_files c l \<subseteq> set (inputs0 c) \<union> set (inputs1 c)"
    by (auto simp: input_files_def)
  then have "set (inputs0 c) \<union> set (inputs1 c) = (\<Union>l<kNumLevels. input_files c l)" by blast
  then have I': "E = (\<Union>l<kNumLevels. file_entries content (input_files c l))" using I by (simp add: file_entries_def)
  have "input_files c l \<subseteq> set (v_files ?v ! l)" for l using i by (auto simp: input_files_def)
  then have "version_entries content ?v = (\<Union>l<kNumLevels. file_entries content (input_files c l) \<union> file_entries content (set (v_files ?v ! l) - input_files c l))"
    unfolding version_entries_def by (intro SUP_cong refl file_entries_split [unfolded file_entries_def [of _ "set _"]])
  then show ?thesis unfolding I' other_entries_def by (simp add: UN_Un_distrib)
qed

lemma inputs_keep_view:
  assumes v: "ordered_version legal Compare content (input_version c)" "whole_version Compare (input_version c)" and c: "inputs_ok Compare c" and snap: "snap < kMaxSequenceNumber"
  shows "keeps_view legal Compare content snap c"
  unfolding keeps_view_def
proof (intro allI impI, elim conjE)
  fix items u s val
  assume items: "items_ok legal Compare items" and I: "set items = file_entries content (set (inputs0 c) \<union> set (inputs1 c))" and u: "legal u" "snap \<le> s"
  let ?v = "input_version c" and ?n = "c_level c"
  define left where "left ls = (\<Union>l\<in>ls. file_entries content (set (v_files ?v ! l) - input_files c l))" for ls
  define U L where "U = left {l. l < ?n + 2}" and "L = left {l. ?n + 2 \<le> l \<and> l < kNumLevels}"
  have n: "?n + 1 < kNumLevels" using c by (simp add: inputs_ok_def closed_inputs_def)
  have cf: "content_ok legal Compare content f" if "l < kNumLevels" "f \<in> set (v_files ?v ! l)" for l f using v that by (auto simp: ordered_version_def whole_version_def)
  have "{..<kNumLevels} = {l. l < ?n + 2} \<union> {l. ?n + 2 \<le> l \<and> l < kNumLevels}" using n by auto
  then have O: "other_entries content c = U \<union> L" unfolding other_entries_def U_def L_def left_def by blast
  have V: "version_entries content ?v = set items \<union> (U \<union> L)" using version_split [OF c I] O by simp
  have "reads Compare u s (set items \<union> (U \<union> L)) val \<longleftrightarrow> reads Compare u s (set (compact_entries Compare snap items (init_key_state, c)) \<union> (U \<union> L)) val"
  proof (rule dropped_unread [OF items snap u(2)])
    show "\<forall>x\<in>U. \<forall>y\<in>set items. Compare (user_key (parsed x)) (user_key (parsed y)) = 0 \<longrightarrow> sequence (parsed y) < sequence (parsed x)"
      using others_newer [OF v c] unfolding I U_def left_def file_entries_def by blast
    show "\<forall>x\<in>L. \<forall>y\<in>set items. Compare (user_key (parsed x)) (user_key (parsed y)) = 0 \<longrightarrow> \<not> base_for Compare ?n ?v (user_key (parsed y))"
    proof (intro ballI impI)
      fix x y
      assume x: "x \<in> L" and y: "y \<in> set items" and xy: "Compare (user_key (parsed x)) (user_key (parsed y)) = 0"
      obtain l f where l: "?n + 2 \<le> l" "l < kNumLevels" "f \<in> set (v_files ?v ! l)" "x \<in> set (content (number f))" using x by (auto simp: L_def left_def file_entries_def)
      have "y \<in> version_entries content ?v" using y V by simp
      then obtain m g where m: "m < kNumLevels" "g \<in> set (v_files ?v ! m)" "y \<in> set (content (number g))" by (auto simp: version_entries_def)
      have "in_file Compare (user_key (parsed y)) f" using shared_key(2) [OF cf [OF l(2,3)] l(4) cf [OF m(1,2)] m(3) xy] .
      then show "\<not> base_for Compare ?n ?v (user_key (parsed y))" using l by (auto simp: base_for_def)
    qed
    show "\<forall>x\<in>U \<union> L. legal (user_key (parsed x))" using V content_entry(1) cf unfolding version_entries_def by blast
  qed (use c v u(1) V in \<open>simp_all add: inputs_ok_def ordered_version_def whole_version_def\<close>)
  then show "reads Compare u s (version_entries content ?v) val = reads Compare u s (set (compact_entries Compare snap items (init_key_state, c)) \<union> other_entries content c) val" unfolding V O .
qed

end

text \<open>
  C3. Reads after a compaction. In a version where the files of a level above 0 share no user keys, \<open>PickCompaction\<close> and \<open>CompactRange\<close> return, with no compaction only if there is none to do, and
  the entries that \<open>DoCompactionWork\<close> then keeps of the sorted entries of the inputs, together with the files that are not inputs, give every read at the oldest snapshot or later the value
  that it had before.
\<close>

theorem compaction_keeps_view:
  assumes "comparator legal ucmp sep succ" and "ordered_version legal ucmp content (vs_current vs)" and "whole_version ucmp (vs_current vs)" and "snap < kMaxSequenceNumber"
    and "\<forall>l\<in>set_option size_level. l + 1 < kNumLevels \<and> v_files (vs_current vs) ! l \<noteq> []"
    and "\<forall>f\<in>set_option (file_to_compact (vs_current vs)). let l = nat (file_to_compact_level (vs_current vs)) in l + 1 < kNumLevels \<and> f \<in> set (v_files (vs_current vs) ! l)"
    and "level + 1 < kNumLevels" and "\<forall>k\<in>set_option lo \<union> set_option hi. legal (ExtractUserKey k)"
  shows "(\<exists>co vs'. PickCompaction ucmp size_level vs = Some (co, vs') \<and> (co = None \<longleftrightarrow> size_level = None \<and> file_to_compact (vs_current vs) = None) \<and>
      (\<forall>c\<in>set_option co. input_version c = vs_current vs \<and> keeps_view legal ucmp content snap c)) \<and>
    (\<exists>co vs'. CompactRange ucmp level lo hi vs = Some (co, vs') \<and>
      (co = None \<longrightarrow> (\<forall>f\<in>set (v_files (vs_current vs) ! level). \<not> within ucmp (map_option ExtractUserKey lo) (map_option ExtractUserKey hi) f)) \<and>
      (\<forall>c\<in>set_option co. input_version c = vs_current vs \<and> keeps_view legal ucmp content snap c))"
proof -
  have v: "version_ok legal ucmp (vs_current vs)" using assms(2) by (simp add: ordered_version_def)
  have k: "keeps_view legal ucmp content snap c" if "inputs_ok ucmp c" "input_version c = vs_current vs" for c
    using comparator.inputs_keep_view [OF assms(1) _ _ that(1) assms(4)] assms(2,3) that(2) by simp
  show ?thesis using comparator.PickCompaction_spec [OF assms(1) v assms(5,6)] comparator.CompactRange_spec [OF assms(1) v assms(7,8)] k by blast
qed

section \<open>Examples\<close>

abbreviation ikey :: "byte \<Rightarrow> u64 \<Rightarrow> ValueType \<Rightarrow> slice" where "ikey u s t \<equiv> mk_InternalKey [u] s t"

text \<open>The metadata of a table with some entries.\<close>

definition table_meta :: "u64 \<Rightarrow> (slice \<times> slice) list \<Rightarrow> FileMetaData" where
  "table_meta n xs = mk_FileMetaData\<lparr>number := n, file_size := 1000, smallest := fst (hd xs), largest := fst (last xs)\<rparr>"

definition level_set :: "(u64 \<Rightarrow> (slice \<times> slice) list) \<Rightarrow> u64 list list \<Rightarrow> VersionSet" where
  "level_set content numbers = \<lparr>vs_max_file_size = 2097152,
     vs_current = \<lparr>v_files = map (map (\<lambda>n. table_meta n (content n))) numbers, file_to_compact = None, file_to_compact_level = -1\<rparr>, compact_pointer = replicate kNumLevels []\<rparr>"

lemma parsed_mk_key: "s \<le> kMaxSequenceNumber \<Longrightarrow> parsed (mk_InternalKey u s t, val) = \<lparr>user_key = u, sequence = s, vtype = t\<rparr>"
  using internal_key_roundtrip_aux [of "\<lparr>user_key = u, sequence = s, vtype = t\<rparr>"] by (simp add: parsed_def mk_InternalKey_def)

lemmas sample_simps = kNumLevels_def less_seven lessThan_nat_numeral lessThan_Suc level_set_def table_meta_def mk_FileMetaData_def parsed_mk_key kMaxSequenceNumber_def BytewiseCompare_def

definition deleted_key :: "u64 \<Rightarrow> (slice \<times> slice) list" where
  "deleted_key n = (if n = 1 then [(ikey 1 9 kTypeDeletion, []), (ikey 1 4 kTypeValue, [7]), (ikey 2 6 kTypeValue, [8])] else [(ikey 2 3 kTypeValue, [5])])"

definition deleted_key_set :: VersionSet where "deleted_key_set = level_set deleted_key [[], [1], [2], [], [], [], []]"

lemma deleted_key_entries: "version_entries deleted_key (vs_current deleted_key_set) = set (deleted_key 1 @ deleted_key 2)"
  by (auto simp: version_entries_def deleted_key_set_def sample_simps)

lemma deleted_key_version: "ordered_version (\<lambda>_. True) BytewiseCompare deleted_key (vs_current deleted_key_set)" "whole_version BytewiseCompare (vs_current deleted_key_set)"
proof -
  have "version_ok (\<lambda>_. True) BytewiseCompare (vs_current deleted_key_set)" "\<forall>l<kNumLevels. \<forall>f\<in>set (v_files (vs_current deleted_key_set) ! l). content_ok (\<lambda>_. True) BytewiseCompare deleted_key f"
    by code_simp+
  moreover have "levels_ordered BytewiseCompare deleted_key (vs_current deleted_key_set)" by (simp add: levels_ordered_def newer_file_def deleted_key_set_def deleted_key_def sample_simps)
  moreover have "unique_entries BytewiseCompare (version_entries deleted_key (vs_current deleted_key_set))"
    unfolding deleted_key_entries by (simp add: unique_entries_def deleted_key_def sample_simps)
  ultimately show "ordered_version (\<lambda>_. True) BytewiseCompare deleted_key (vs_current deleted_key_set)" by (simp add: ordered_version_def)
  show "whole_version BytewiseCompare (vs_current deleted_key_set)" by code_simp
qed

definition straddling_key :: "u64 \<Rightarrow> (slice \<times> slice) list" where
  "straddling_key n =
     (if n = 1 then [(ikey 0 8 kTypeValue, [1]), (ikey 1 9 kTypeDeletion, [])] else if n = 2 then [(ikey 1 4 kTypeValue, [7]), (ikey 5 4 kTypeValue, [2])]
      else if n = 3 then [(ikey 0 3 kTypeValue, [3])] else [(ikey 5 1 kTypeValue, [4])])"

definition straddling_set :: VersionSet where "straddling_set = level_set straddling_key [[], [1, 2], [3, 4], [], [], [], []]"

lemma straddling_entries: "version_entries straddling_key (vs_current straddling_set) = set (straddling_key 1 @ straddling_key 2 @ straddling_key 3 @ straddling_key 4)"
  by (auto simp: version_entries_def straddling_set_def sample_simps)

lemma straddling_version: "ordered_version (\<lambda>_. True) BytewiseCompare straddling_key (vs_current straddling_set)"
proof -
  have "version_ok (\<lambda>_. True) BytewiseCompare (vs_current straddling_set)" "\<forall>l<kNumLevels. \<forall>f\<in>set (v_files (vs_current straddling_set) ! l). content_ok (\<lambda>_. True) BytewiseCompare straddling_key f"
    by code_simp+
  moreover have "levels_ordered BytewiseCompare straddling_key (vs_current straddling_set)" by (simp add: levels_ordered_def newer_file_def straddling_set_def straddling_key_def sample_simps)
  moreover have "unique_entries BytewiseCompare (version_entries straddling_key (vs_current straddling_set))"
    unfolding straddling_entries by (simp add: unique_entries_def straddling_key_def sample_simps)
  ultimately show ?thesis by (simp add: ordered_version_def)
qed

definition picked :: "VersionSet \<Rightarrow> Compaction" where
  "picked vs = the (fst (the (PickCompaction BytewiseCompare (Some 1) vs)))"

definition deleted_key_items :: "(slice \<times> slice) list" where "deleted_key_items = deleted_key 1 @ deleted_key 2"

lemma deleted_key_picked:
  "map number (inputs0 (picked deleted_key_set)) = [1]" "map number (inputs1 (picked deleted_key_set)) = [2]"
  "sorted_wrt (\<lambda>a b. ICompare BytewiseCompare (fst a) (fst b) < 0) deleted_key_items" "\<forall>x\<in>set deleted_key_items. ParseInternalKey (fst x) \<noteq> None"
  by code_simp+

lemma file_entries_numbers: "file_entries content (set fs \<union> set gs) = (\<Union>n\<in>set (map number fs @ map number gs). set (content n))"
  by (auto simp: file_entries_def)

theorem compaction_keeps_view_witness:
  "\<exists>c vs'. PickCompaction BytewiseCompare (Some 1) deleted_key_set = Some (Some c, vs') \<and>
    reads BytewiseCompare [2] 10 (set (compact_entries BytewiseCompare 10 deleted_key_items (init_key_state, c)) \<union> other_entries deleted_key c) [8] \<and>
    (\<forall>val. \<not> reads BytewiseCompare [1] 10 (set (compact_entries BytewiseCompare 10 deleted_key_items (init_key_state, c)) \<union> other_entries deleted_key c) val)"
proof -
  have "\<forall>l\<in>set_option (Some 1). l + 1 < kNumLevels \<and> v_files (vs_current deleted_key_set) ! l \<noteq> []" "file_to_compact (vs_current deleted_key_set) = None"
    by (simp_all add: deleted_key_set_def sample_simps)
  then obtain c vs' where c: "PickCompaction BytewiseCompare (Some 1) deleted_key_set = Some (Some c, vs')" "input_version c = vs_current deleted_key_set" "keeps_view (\<lambda>_. True) BytewiseCompare deleted_key 10 c"
    using compaction_keeps_view [OF bytewise.comparator_axioms deleted_key_version, of 10 "Some 1" 0 None None] by (auto simp: kNumLevels_def kMaxSequenceNumber_def)
  then have p: "c = picked deleted_key_set" by (simp add: picked_def)
  have "unique_entries BytewiseCompare (set deleted_key_items)" using deleted_key_version(1) deleted_key_entries by (simp add: ordered_version_def deleted_key_items_def)
  then have "items_ok (\<lambda>_. True) BytewiseCompare deleted_key_items" using deleted_key_picked(3,4) by (simp add: items_ok_def)
  moreover have "set deleted_key_items = file_entries deleted_key (set (inputs0 c) \<union> set (inputs1 c))" unfolding p file_entries_numbers deleted_key_picked by (auto simp: deleted_key_items_def)
  ultimately have "reads BytewiseCompare u 10 (set deleted_key_items) val = reads BytewiseCompare u 10 (set (compact_entries BytewiseCompare 10 deleted_key_items (init_key_state, c)) \<union> other_entries deleted_key c) val" for u val
    using c(3) unfolding keeps_view_def c(2) deleted_key_entries deleted_key_items_def by blast
  moreover have n: "newest_entry BytewiseCompare [2] 10 (set deleted_key_items) x \<longleftrightarrow> x = (ikey 2 6 kTypeValue, [8])" "newest_entry BytewiseCompare [1] 10 (set deleted_key_items) x \<longleftrightarrow> x = (ikey 1 9 kTypeDeletion, [])" for x
    by (auto simp: newest_entry_def candidate_def deleted_key_items_def deleted_key_def sample_simps)
  have "reads BytewiseCompare [2] 10 (set deleted_key_items) [8]" "\<not> reads BytewiseCompare [1] 10 (set deleted_key_items) val" for val by (auto simp: reads_def n sample_simps)
  ultimately show ?thesis using c(1) by blast
qed

text \<open>
  C40. A user key with entries in two files of a level. In a version whose data are well-formed and in order, but where a deletion is the last entry of a file and an older value of the key is in the
  next file of the level, \<open>PickCompaction\<close> takes the first file only, and the compaction drops the deletion: a read of the key, which found nothing before, gives the deleted value.
\<close>

theorem straddling_key_reappears:
  "ordered_version (\<lambda>_. True) BytewiseCompare straddling_key (vs_current straddling_set) \<and>
   (\<exists>c vs' items. PickCompaction BytewiseCompare (Some 1) straddling_set = Some (Some c, vs') \<and> \<not> IsTrivialMove 2097152 c \<and>
      items_ok (\<lambda>_. True) BytewiseCompare items \<and> set items = file_entries straddling_key (set (inputs0 c) \<union> set (inputs1 c)) \<and>
      (\<forall>val. \<not> reads BytewiseCompare [1] 10 (version_entries straddling_key (input_version c)) val) \<and>
      reads BytewiseCompare [1] 10 (set (compact_entries BytewiseCompare 10 items (init_key_state, c)) \<union> other_entries straddling_key c) [7])"
proof -
  let ?c = "picked straddling_set" and ?items = "[(ikey 0 8 kTypeValue, [1]), (ikey 0 3 kTypeValue, [3]), (ikey 1 9 kTypeDeletion, [])]"
  have "PickCompaction BytewiseCompare (Some 1) straddling_set \<noteq> None" "fst (the (PickCompaction BytewiseCompare (Some 1) straddling_set)) \<noteq> None" by code_simp+
  then obtain vs' where "PickCompaction BytewiseCompare (Some 1) straddling_set = Some (Some ?c, vs')" by (auto simp: picked_def)
  moreover have "\<not> IsTrivialMove 2097152 ?c" by code_simp
  moreover have n: "map number (inputs0 ?c) = [1]" "map number (inputs1 ?c) = [3]" by code_simp+
  then have "set ?items = file_entries straddling_key (set (inputs0 ?c) \<union> set (inputs1 ?c))" unfolding file_entries_numbers n by (auto simp: straddling_key_def)
  moreover have "items_ok (\<lambda>_. True) BytewiseCompare ?items"
  proof -
    have "sorted_wrt (\<lambda>a b. ICompare BytewiseCompare (fst a) (fst b) < 0) ?items" "\<forall>x\<in>set ?items. ParseInternalKey (fst x) \<noteq> None" by code_simp+
    moreover have "unique_entries BytewiseCompare (set ?items)" by (simp add: unique_entries_def sample_simps)
    ultimately show ?thesis by (simp add: items_ok_def)
  qed
  moreover have "\<not> reads BytewiseCompare [1] 10 (version_entries straddling_key (input_version ?c)) val" for val
  proof -
    have "input_version ?c = vs_current straddling_set" by code_simp
    moreover have "newest_entry BytewiseCompare [1] 10 (version_entries straddling_key (vs_current straddling_set)) x \<longleftrightarrow> x = (ikey 1 9 kTypeDeletion, [])" for x
      unfolding straddling_entries by (auto simp: newest_entry_def candidate_def straddling_key_def sample_simps)
    ultimately show ?thesis by (auto simp: reads_def sample_simps)
  qed
  moreover have "reads BytewiseCompare [1] 10 (set (compact_entries BytewiseCompare 10 ?items (init_key_state, ?c)) \<union> other_entries straddling_key ?c) [7]"
  proof -
    have "compact_entries BytewiseCompare 10 ?items (init_key_state, ?c) = [(ikey 0 8 kTypeValue, [1])]" by code_simp
    moreover have "other_entries straddling_key ?c = set (straddling_key 2 @ straddling_key 4)" by code_simp
    ultimately show ?thesis unfolding reads_def by (intro exI [of _ "(ikey 1 4 kTypeValue, [7])"]) (simp add: newest_entry_def candidate_def straddling_key_def sample_simps)
  qed
  ultimately show ?thesis using straddling_version by blast
qed

end
