(* ===== verification/Spec2Isabelle.thy ===== *)
theory Spec2Isabelle
  imports Coding Adler32 Crc32 InflateCorrect LogCorrect WriteBatch DbRead TableCache CompactionsCorrect
begin

text \<open>
  Verification of the native part of leveldb-mcpe-dotnet: the storage engine \<open>leveldb-mcpe\<close> and the decompressor of \<open>zlib\<close> that its
  zlib compressor calls. The sources are under \<open>src/leveldb-mcpe-native/Projects/\<close>; paths below are relative to \<open>leveldb-mcpe\<close> there, or begin with \<open>zlib/\<close>.

  \<^bold>\<open>The program.\<close> An update reaches the database as a write batch (\<open>db/write_batch.cc\<close>). The batch is appended to the write-ahead log
  (\<open>db/log_writer.cc\<close>), and its updates are inserted into the memtable (\<open>db/memtable.cc\<close>), a skip list (\<open>db/skiplist.h\<close>) of internal keys
  (\<open>db/dbformat.h\<close>): user keys with a sequence number and a type. Full memtables are written as sorted tables (\<open>table/table_builder.cc\<close>), files of compressed
  blocks (\<open>table/block_builder.cc\<close>) with checksums (\<open>util/crc32c.cc\<close>), an index block and Bloom filters (\<open>table/filter_block.cc\<close>, \<open>util/bloom.cc\<close>). Versions
  (\<open>db/version_set.cc\<close>) record which tables make up each level, changes to them are logged as version edits (\<open>db/version_edit.cc\<close>). Reads
  look into the memtables and then into the tables (\<open>table/table.cc\<close>); iteration merges (\<open>table/merger.cc\<close>) the iterators of memtables and of tables
  (\<open>table/two_level_iterator.cc\<close> over \<open>table/block.cc\<close>) and hides what the snapshot does not see (\<open>db/db_iter.cc\<close>). Compressed blocks are zlib streams, decoded by
  \<open>zlib/inflate.c\<close> with the tables of \<open>zlib/inftrees.c\<close> and the loop of \<open>zlib/inffast.c\<close>, and protected by \<open>zlib/adler32.c\<close> and \<open>zlib/crc32.c\<close>.

  \<^bold>\<open>Machine model.\<close> Integers have the widths of the Windows build (32-bit \<open>int\<close> and \<open>long\<close>, 64-bit pointers and \<open>size_t\<close>); words wrap around wherever the code's do, and sizes
  that the code cannot exceed are natural numbers. A slice, a string and a buffer are the byte list they hold; pointers into them are offsets. Results in \<open>option\<close>
  are \<open>None\<close> for an assertion that fails, an access out of bounds or a loop that does not end, so a theorem that concludes \<open>Some\<close> shows that none of
  these happens. Error statuses are values of \<open>status\<close>. Code outside the repository and virtual interfaces (files, compressors, filter policies, comparators, CRC
  instructions) are parameters; their contracts are locales.

  \<^bold>\<open>Theories.\<close>
  \<^item> \<open>Prelude\<close>: machine types, collections of rules, lemmas on lists, options and words that the components share.
  \<^item> \<open>Coding\<close> (\<open>util/coding.h\<close>, \<open>util/coding.cc\<close>): fixed-width and variable-length integers, length-prefixed slices. Round trips for both byte orders, and that decoders of
    arbitrary bytes read only what they are given and refuse slices that are longer than that.
  \<^item> \<open>Adler32\<close>, \<open>CrcCore\<close>, \<open>Crc32Tables\<close>, \<open>Crc32\<close>, \<open>Crc32c\<close> (\<open>zlib/adler32.c\<close>, \<open>zlib/crc32.c\<close>, \<open>zlib/crc32.h\<close>, \<open>util/crc32c.cc\<close>, \<open>port/port_posix_sse.cc\<close>): the optimised
    checksum loops equal the definitions of the checksums (sums modulo 65521; polynomial division bit by bit), and the combination functions are right. The locale of reflected
    polynomials in \<open>CrcCore\<close> is interpreted for both polynomials.
  \<^item> \<open>Canonical\<close>, \<open>Inftrees\<close>, \<open>Inffixed\<close>, \<open>InftreesCorrect\<close> (\<open>zlib/inftrees.c\<close>, \<open>zlib/inffixed.h\<close>): \<open>inflate_table\<close> with its loops as recursions; the tables decode
    exactly the canonical code of RFC 1951, and every input yields a table or one of the documented errors.
  \<^item> \<open>InflateState\<close>, \<open>Inffast\<close>, \<open>Inflate\<close>, \<open>InflateWindow\<close>, \<open>InflateMatch\<close>, \<open>InflateCorrect\<close> (\<open>zlib/inflate.h\<close>, \<open>zlib/inffast.c\<close>, \<open>zlib/inflate.c\<close>): the mode machine as
    one function per mode on the record of the state; the window keeps the last bytes of the output; the copies of matches by the fast loop and by the mode machine
    are the LZ77 copy; search for flush marks (with the shift of the bit buffer as the code has it), dictionaries and gzip headers.
  \<^item> \<open>SliceStatus\<close>, \<open>Comparator\<close>, \<open>DbFormat\<close> (\<open>include/leveldb/slice.h\<close>, \<open>status.h\<close>, \<open>util/comparator.cc\<close>, \<open>db/dbformat.h\<close>, \<open>db/dbformat.cc\<close>): the locale \<open>comparator\<close> is
    the contract of comparators; the byte order meets it, and the internal key comparator meets it over any user comparator that does.
  \<^item> \<open>LogFormat\<close>, \<open>LogCorrect\<close> (\<open>db/log_format.h\<close>, \<open>db/log_writer.cc\<close>, \<open>db/log_reader.cc\<close>): records are read back, also from a log cut off at any point.
  \<^item> \<open>RandomGen\<close>, \<open>SkipList\<close>, \<open>SkipListCorrect\<close>, \<open>MemTable\<close>, \<open>WriteBatch\<close> (\<open>util/random.h\<close>, \<open>db/skiplist.h\<close>, \<open>db/memtable.cc\<close>, \<open>db/write_batch.cc\<close>): nodes are addresses in an arena; the
    skip list refines a sorted list, the memtable a map with versions, a batch a list of updates.
  \<^item> \<open>Block\<close>, \<open>BlockCorrect\<close>, \<open>FilterBlock\<close>, \<open>TableFormat\<close>, \<open>TableCorrect\<close> (\<open>table/block_builder.cc\<close>, \<open>table/block.cc\<close>, \<open>util/hash.cc\<close>, \<open>util/bloom.cc\<close>, \<open>table/filter_block.cc\<close>,
    \<open>table/format.cc\<close>, \<open>table/table_builder.cc\<close>, \<open>table/table.cc\<close>): what the builders write is what the readers find, also through
    a block cache that several tables share; filters have no false negatives. The contracts are instantiated with the byte order, Bloom filters and a run-length compressor.
  \<^item> \<open>Cursor\<close>, \<open>Iterators\<close>, \<open>Wrapper\<close>, \<open>Merger\<close>, \<open>MergerCorrect\<close>, \<open>MemIter\<close>, \<open>BlockIter\<close>, \<open>TwoLevel\<close>, \<open>TableIter\<close>, \<open>DbIter\<close>, \<open>DbIterCorrect\<close>, \<open>DbRead\<close>
    (\<open>include/leveldb/iterator.h\<close>, \<open>table/iterator_wrapper.h\<close>, \<open>table/iterator.cc\<close>, \<open>table/merger.cc\<close>, \<open>table/two_level_iterator.cc\<close>, \<open>db/db_iter.cc\<close>): an iterator is the record
    of its methods; the locale \<open>seekable\<close> is the contract, iteration over a sorted list. Each kind of iterator meets the contract when those it is built on do, so that
    the compositions do; \<open>DbRead\<close> composes the iterator of the database over memtables.
  \<^item> \<open>VersionEdit\<close> (\<open>db/version_edit.cc\<close>): edits are decoded from their encodings.
  \<^item> \<open>VersionFiles\<close>, \<open>VersionGet\<close> (\<open>db/version_set.cc\<close>): the files of a level, the ranges they cover, the inputs of compactions and the level of a new table; lookups in a version, over any
    \<open>table_reader\<close>.
  \<^item> \<open>Compactions\<close>, \<open>CompactionsCorrect\<close> (\<open>db/version_set.cc\<close>, \<open>db/db_impl.cc\<close>): the choice of the inputs of a compaction and of the entries it drops. Reads see the same before and after, if no
    user key has entries in two files of a level above 0; a version without this property where a deleted value reappears.
  \<^item> \<open>Cache\<close>, \<open>CacheCorrect\<close>, \<open>FileName\<close>, \<open>TableCache\<close> (\<open>util/cache.cc\<close>, \<open>db/filename.cc\<close>, \<open>util/logging.cc\<close>, \<open>db/table_cache.cc\<close>): the cache keeps its invariant in every sequence of operations, with the
    locale \<open>cache_api\<close> as its interface, if its capacity is not 0 (a handle of a cache of capacity 0 is released with an uninitialised link, which the model shows as \<open>None\<close>); the table cache is a
    \<open>table_reader\<close> over it, over the block cache that the options of the database install and over the files that the table builder writes.

  \<^bold>\<open>Loops and fuel.\<close> Loops over data are structural recursions or have a measure; loops whose end depends on data structures (skip list searches, iterators, the
  inputs of compactions) are partial functions with values in \<open>option\<close>, and the theorems about them conclude \<open>Some\<close>, which includes that they end. The log reader recurses on a
  measure of the unread file. The loop of the mode machine takes the number of rounds as an argument; the theorems about it are about the rounds themselves.

  \<^bold>\<open>Not modelled.\<close> Threads and memory ordering (the lock-free readers of the skip list, the background compaction thread): operations are
  sequential. Allocation: arenas never fail. The cleanup functions of iterators: lookups release their handles of the block cache, but the iterators over tables are modelled for tables
  without a block cache only. File systems, timers and logging are parameters or left out (\<open>util/env_*.cc\<close>, \<open>port/\<close>). The compressing side of zlib
  (\<open>deflate.c\<close>, \<open>trees.c\<close>) and other codecs: a compressor is a parameter whose contract is that decompression inverts compression. The C and C# bindings only forward calls. The
  opening, recovery and write queue of \<open>db/db_impl.cc\<close> and the repairer combine the modelled parts with files and threads.
\<close>

end
